(* ===== verification/Prelude.thy ===== *)
theory Prelude
  imports Complex_Main "HOL-Library.Multiset"
begin

text \<open>
  The shared vocabulary of the development: what a JavaScript value looks like to the code
  (truthiness of optional strings and booleans, dates read through \<open>Date.parse\<close>), the array
  operations the sources use (\<open>find\<close>, \<open>findIndex\<close>, \<open>slice(-n)\<close>, assignment at an index), and the
  generic lemmas on lists and options the component theories rest on.  The collections
  \<open>js_simps\<close> and \<open>frame\<close> gather the rewriting rules the components add to.
\<close>

named_theorems js_simps \<open>unfolding rules of the JavaScript primitives\<close>
named_theorems frame \<open>state components an operation leaves alone\<close>

section \<open>Truthiness\<close>

text \<open>\<open>if (!s)\<close> on an optional string: \<open>undefined\<close> and the empty string are falsy.\<close>

definition truthy_str :: "string option \<Rightarrow> bool" where
  "truthy_str s \<longleftrightarrow> s \<noteq> None \<and> s \<noteq> Some []"

definition truthy_bool :: "bool option \<Rightarrow> bool" where
  "truthy_bool b \<longleftrightarrow> b = Some True"

lemma truthy_str_simps [simp]:
  "\<not> truthy_str None" "truthy_str (Some s) \<longleftrightarrow> s \<noteq> []"
  by (simp_all add: truthy_str_def)

lemma truthy_bool_simps [simp]:
  "\<not> truthy_bool None" "truthy_bool (Some b) \<longleftrightarrow> b"
  by (simp_all add: truthy_bool_def)

lemma truthy_strE: "truthy_str s \<Longrightarrow> (\<And>t. s = Some t \<Longrightarrow> t \<noteq> [] \<Longrightarrow> P) \<Longrightarrow> P"
  by (cases s) auto

section \<open>Dates\<close>

text \<open>
  The sources keep every instant as an ISO string and read it back through \<open>Date.parse\<close>.  A date
  text is modelled by what that read gives: the milliseconds of a readable one (\<open>At\<close>), or the text
  itself when the read is \<open>NaN\<close> (\<open>Unreadable\<close>).  \<open>new Date(ms).toISOString()\<close> is \<open>At ms\<close>.
\<close>

datatype iso = At int | Unreadable string

primrec date_parse :: "iso \<Rightarrow> int option" where
  "date_parse (At ms) = Some ms"
| "date_parse (Unreadable s) = None"

text \<open>An absent date reads as \<open>NaN\<close>, like an unreadable one.\<close>

definition date_of :: "iso option \<Rightarrow> int option" where
  "date_of d = Option.bind d date_parse"

lemma date_of_simps [simp]:
  "date_of None = None" "date_of (Some (At ms)) = Some ms" "date_of (Some (Unreadable s)) = None"
  by (simp_all add: date_of_def)

text \<open>\<open>if (!d)\<close> on an optional date: absent or the empty text.\<close>

definition truthy_date :: "iso option \<Rightarrow> bool" where
  "truthy_date d \<longleftrightarrow> d \<noteq> None \<and> d \<noteq> Some (Unreadable [])"

definition given_date :: "iso option \<Rightarrow> iso option" where
  "given_date d = (if truthy_date d then d else None)"

lemma truthy_date_simps [simp]:
  "\<not> truthy_date None" "truthy_date (Some (At ms))" "truthy_date (Some (Unreadable s)) \<longleftrightarrow> s \<noteq> []"
  by (simp_all add: truthy_date_def)

lemma date_of_given [simp]: "date_of (given_date d) = date_of d"
  by (cases d rule: option.exhaust; cases "the d") (auto simp: given_date_def truthy_date_def)

section \<open>Arrays\<close>

text \<open>\<open>xs.findIndex(p)\<close>: the first index, \<open>None\<close> for -1; \<open>List.find\<close> is \<open>xs.find(p)\<close>.\<close>

fun find_index :: "('a \<Rightarrow> bool) \<Rightarrow> 'a list \<Rightarrow> nat option" where
  "find_index p [] = None"
| "find_index p (x # xs) = (if p x then Some 0 else map_option Suc (find_index p xs))"

lemma find_index_None_iff: "find_index p xs = None \<longleftrightarrow> (\<forall>x \<in> set xs. \<not> p x)"
  by (induction xs) auto

lemma find_index_SomeD:
  "find_index p xs = Some i \<Longrightarrow> i < length xs \<and> p (xs ! i) \<and> (\<forall>j < i. \<not> p (xs ! j))"
proof (induction xs arbitrary: i)
  case Nil
  then show ?case by simp
next
  case (Cons x xs)
  show ?case
  proof (cases "p x")
    case True
    with Cons.prems show ?thesis by simp
  next
    case False
    with Cons.prems obtain k where k: "find_index p xs = Some k" "i = Suc k" by auto
    from Cons.IH [OF k(1)] k(2) False show ?thesis
      by (auto simp: nth_Cons split: nat.splits)
  qed
qed

lemma find_index_replace:
  assumes "find_index p xs = Some k" "p y"
  shows "find_index p (xs[k := y]) = Some k"
  using assms by (induction xs arbitrary: k) (auto split: if_splits)

lemma find_index_find: "List.find p xs = map_option ((!) xs) (find_index p xs)"
  by (induction xs) (auto simp: option.map_comp comp_def split: option.splits)

lemma find_Some_in: "List.find p xs = Some x \<Longrightarrow> x \<in> set xs \<and> p x"
  by (auto simp: find_Some_iff)

lemma find_None_in: "List.find p xs = None \<longleftrightarrow> (\<forall>x \<in> set xs. \<not> p x)"
  by (auto simp: find_None_iff)

text \<open>\<open>xs[i] = f(xs[i])\<close> for an index in range.\<close>

definition update_at :: "nat \<Rightarrow> ('a \<Rightarrow> 'a) \<Rightarrow> 'a list \<Rightarrow> 'a list" where
  "update_at i f xs = (if i < length xs then xs[i := f (xs ! i)] else xs)"

lemma length_update_at [simp]: "length (update_at i f xs) = length xs"
  by (simp add: update_at_def)

lemma set_update_at: "x \<in> set (update_at i f xs) \<Longrightarrow> x \<in> set xs \<or> (\<exists>y \<in> set xs. x = f y)"
  using set_update_subset_insert [of xs i "f (xs ! i)"] nth_mem [of i xs]
  by (auto simp: update_at_def split: if_splits)

lemma list_all_update_at:
  "list_all P xs \<Longrightarrow> (\<And>x. x \<in> set xs \<Longrightarrow> P x \<Longrightarrow> P (f x)) \<Longrightarrow> list_all P (update_at i f xs)"
  by (auto simp: update_at_def list_all_length nth_list_update)

text \<open>\<open>xs.slice(-n)\<close>: the last \<open>n\<close> entries (all of them when there are fewer).\<close>

definition last_n :: "nat \<Rightarrow> 'a list \<Rightarrow> 'a list" where
  "last_n n xs = drop (length xs - n) xs"

lemma length_last_n [simp]: "length (last_n n xs) = min n (length xs)"
  by (simp add: last_n_def)

lemma set_last_n: "set (last_n n xs) \<subseteq> set xs"
  by (simp add: last_n_def set_drop_subset)

lemma last_n_append_last: "0 < n \<Longrightarrow> x \<in> set (last_n n (xs @ [x]))"
  by (simp add: last_n_def Suc_diff_le)

lemma distinct_map_last_n: "distinct (map f xs) \<Longrightarrow> distinct (map f (last_n n xs))"
  by (simp add: last_n_def drop_map [symmetric])

text \<open>\<open>xs.splice(i, 1)\<close>: the entry at \<open>i\<close> removed.\<close>

definition remove_at :: "nat \<Rightarrow> 'a list \<Rightarrow> 'a list" where
  "remove_at i xs = take i xs @ drop (Suc i) xs"

lemma set_remove_at: "set (remove_at i xs) \<subseteq> set xs"
  by (auto simp: remove_at_def dest: in_set_takeD in_set_dropD)

lemma distinct_map_remove_at:
  assumes "distinct (map f xs)"
  shows "distinct (map f (remove_at i xs))"
proof (cases "i < length xs")
  case True
  then have "map f xs = map f (take i xs) @ f (xs ! i) # map f (drop (Suc i) xs)"
    by (metis id_take_nth_drop list.simps(9) map_append)
  with assms have "distinct (map f (take i xs) @ f (xs ! i) # map f (drop (Suc i) xs))" by metis
  then show ?thesis by (auto simp: remove_at_def)
next
  case False
  with assms show ?thesis by (simp add: remove_at_def)
qed

lemma remove_at_gone:
  assumes "distinct (map f xs)" and "i < length xs"
  shows "f (xs ! i) \<notin> f ` set (remove_at i xs)"
proof -
  have "map f xs = map f (take i xs) @ f (xs ! i) # map f (drop (Suc i) xs)"
    using assms(2) by (metis id_take_nth_drop list.simps(9) map_append)
  with assms(1) have "distinct (map f (take i xs) @ f (xs ! i) # map f (drop (Suc i) xs))" by metis
  then show ?thesis by (auto simp: remove_at_def)
qed

lemma length_remove_at: "i < length xs \<Longrightarrow> Suc (length (remove_at i xs)) = length xs"
  by (simp add: remove_at_def)

text \<open>\<open>[...new Set(xs)]\<close>: the first of each value, in order.\<close>

fun unique :: "'a list \<Rightarrow> 'a list" where
  "unique [] = []"
| "unique (x # xs) = x # filter (\<lambda>y. y \<noteq> x) (unique xs)"

lemma set_unique [simp]: "set (unique xs) = set xs"
  by (induction xs) auto

lemma distinct_unique [simp]: "distinct (unique xs)"
  by (induction xs) auto

lemma unique_id: "distinct xs \<Longrightarrow> unique xs = xs"
  by (induction xs) (auto simp: filter_id_conv)

lemma length_unique: "length (unique xs) = card (set xs)"
  by (metis distinct_card distinct_unique set_unique)

section \<open>Lists of options and sums\<close>

lemma filter_length_le_filter:
  "(\<And>x. x \<in> set xs \<Longrightarrow> P x \<Longrightarrow> Q x) \<Longrightarrow> length (filter P xs) \<le> length (filter Q xs)"
  by (induction xs) auto

lemma distinct_map_filter: "distinct (map f xs) \<Longrightarrow> distinct (map f (filter P xs))"
  by (induction xs) auto

lemma filter_eq_unique:
  assumes "distinct (map f xs)" and "x \<in> set xs"
  shows "filter (\<lambda>y. f y = f x) xs = [x]"
  using assms
proof (induction xs)
  case Nil
  then show ?case by simp
next
  case (Cons a xs)
  show ?case
  proof (cases "x = a")
    case True
    with Cons.prems have "filter (\<lambda>y. f y = f a) xs = []"
      by (auto simp: filter_empty_conv image_iff)
    with True show ?thesis by simp
  next
    case False
    with Cons.prems have "x \<in> set xs" "f a \<noteq> f x" by auto
    with Cons show ?thesis by auto
  qed
qed

lemma sorted_wrt_take_le: "sorted_wrt P xs \<Longrightarrow> sorted_wrt P (take n xs)"
  by (rule sorted_wrt_take)

section \<open>Capped logs\<close>

text \<open>
  What the two bounded lists of a network share (its outcomes and its removals): adding an entry keeps
  one entry per key and the bound, keeps nothing it did not hold, and the new entry is found.
\<close>

locale capped_log =
  fixes key :: "'e \<Rightarrow> 'k" and cap :: nat and add :: "'e \<Rightarrow> 'e list \<Rightarrow> 'e list"
  assumes add_distinct: "distinct (map key xs) \<Longrightarrow> distinct (map key (add e xs))"
    and add_capped: "length xs \<le> cap \<Longrightarrow> length (add e xs) \<le> cap"
    and add_from: "set (add e xs) \<subseteq> insert e (set xs)"
begin

definition log_ok :: "'e list \<Rightarrow> bool" where
  "log_ok xs \<longleftrightarrow> distinct (map key xs) \<and> length xs \<le> cap"

lemma empty_ok: "log_ok []"
  by (simp add: log_ok_def)

lemma add_ok: "log_ok xs \<Longrightarrow> log_ok (add e xs)"
  by (simp add: log_ok_def add_distinct add_capped)

lemma adds_ok: "log_ok xs \<Longrightarrow> log_ok (fold add es xs)"
  by (induction es arbitrary: xs) (simp_all add: add_ok)

lemma adds_from: "set (fold add es xs) \<subseteq> set es \<union> set xs"
proof (induction es arbitrary: xs)
  case (Cons e es)
  from Cons [of "add e xs"] add_from [of e xs] show ?case by auto
qed simp

end

end
