(* ===== verification/Js_Object.thy ===== *)
theory Js_Object
  imports Prelude
begin

text \<open>
  The two keyed containers the sources use, each as the list of its entries in enumeration order.
  An ES \<open>Map\<close> keeps insertion order, an overwritten key staying where it is.  A plain object
  enumerates its array-index keys first, in numeric order, then the others in insertion order, so
  \<open>Object.entries\<close> of a space map whose ids look like numbers is not in insertion order.  The
  locale \<open>keyed_store\<close> is the contract both meet and every client of a container uses.
\<close>

section \<open>The contract of a keyed container\<close>

locale keyed_store =
  fixes get :: "'m \<Rightarrow> 'k \<Rightarrow> 'v option"
    and put :: "'k \<Rightarrow> 'v \<Rightarrow> 'm \<Rightarrow> 'm"
    and del :: "'k \<Rightarrow> 'm \<Rightarrow> 'm"
    and keys :: "'m \<Rightarrow> 'k list"
    and ok :: "'m \<Rightarrow> bool"
  assumes get_put: "ok m \<Longrightarrow> get (put k v m) = (get m)(k \<mapsto> v)"
    and get_del: "ok m \<Longrightarrow> get (del k m) = (get m)(k := None)"
    and ok_put: "ok m \<Longrightarrow> ok (put k v m)"
    and ok_del: "ok m \<Longrightarrow> ok (del k m)"
    and keys_dom: "ok m \<Longrightarrow> set (keys m) = dom (get m)"
    and keys_distinct: "ok m \<Longrightarrow> distinct (keys m)"
begin

lemma get_put_same: "ok m \<Longrightarrow> get (put k v m) k = Some v"
  by (simp add: get_put)

lemma get_put_other: "ok m \<Longrightarrow> k \<noteq> j \<Longrightarrow> get (put k v m) j = get m j"
  by (simp add: get_put)

lemma get_del_put: "ok m \<Longrightarrow> get (del k (put k v m)) = get (del k m)"
  by (simp add: get_put get_del ok_put)

lemma size_put:
  assumes "ok m"
  shows "length (keys (put k v m)) = (if get m k = None then Suc (length (keys m)) else length (keys m))"
proof -
  have 1: "length (keys (put k v m)) = card (insert k (dom (get m)))"
    using assms by (metis keys_distinct ok_put keys_dom get_put distinct_card dom_fun_upd option.distinct(1))
  have 2: "length (keys m) = card (dom (get m))"
    using assms by (metis keys_distinct keys_dom distinct_card)
  have "finite (dom (get m))" using assms keys_dom by (metis List.finite_set)
  then show ?thesis using 1 2 by (auto simp: card_insert_if domIff)
qed

lemma size_del:
  assumes "ok m"
  shows "length (keys (del k m)) = (if get m k = None then length (keys m) else length (keys m) - 1)"
proof -
  have 1: "length (keys (del k m)) = card (dom (get m) - {k})"
    using assms by (metis keys_distinct ok_del keys_dom get_del distinct_card dom_fun_upd)
  have 2: "length (keys m) = card (dom (get m))"
    using assms by (metis keys_distinct keys_dom distinct_card)
  have "finite (dom (get m))" using assms keys_dom by (metis List.finite_set)
  then show ?thesis using 1 2 by (auto simp: card_Diff_singleton_if domIff)
qed

end

section \<open>ES maps\<close>

type_synonym ('k, 'v) es_map = "('k \<times> 'v) list"

definition entries_ok :: "('k \<times> 'v) list \<Rightarrow> bool" where
  "entries_ok m \<longleftrightarrow> distinct (map fst m)"

definition entry_keys :: "('k \<times> 'v) list \<Rightarrow> 'k list" where
  "entry_keys m = map fst m"

fun map_put :: "'k \<Rightarrow> 'v \<Rightarrow> ('k, 'v) es_map \<Rightarrow> ('k, 'v) es_map" where
  "map_put k v [] = [(k, v)]"
| "map_put k v ((j, w) # m) = (if j = k then (k, v) # m else (j, w) # map_put k v m)"

definition map_del :: "'k \<Rightarrow> ('k, 'v) es_map \<Rightarrow> ('k, 'v) es_map" where
  "map_del k m = filter (\<lambda>e. fst e \<noteq> k) m"

lemma map_of_map_put: "map_of (map_put k v m) = (map_of m)(k \<mapsto> v)"
  by (induction m) auto

lemma map_of_map_del: "map_of (map_del k m) = (map_of m)(k := None)"
  by (induction m) (auto simp: map_del_def)

lemma keys_map_put: "set (map fst (map_put k v m)) = insert k (set (map fst m))"
  by (metis dom_fun_upd dom_map_of_conv_image_fst map_of_map_put option.distinct(1) set_map)

lemma distinct_map_put: "distinct (map fst m) \<Longrightarrow> distinct (map fst (map_put k v m))"
proof (induction m)
  case Nil
  then show ?case by simp
next
  case (Cons e m)
  obtain j w where e: "e = (j, w)" by force
  show ?case
  proof (cases "j = k")
    case True
    with Cons.prems e show ?thesis by auto
  next
    case False
    have "j \<notin> set (map fst (map_put k v m))"
      using False Cons.prems e keys_map_put [of k v m] by auto
    with False Cons e show ?thesis by auto
  qed
qed

lemma distinct_map_del: "distinct (map fst m) \<Longrightarrow> distinct (map fst (map_del k m))"
  by (simp add: map_del_def distinct_map_filter)

interpretation es: keyed_store map_of map_put map_del entry_keys entries_ok
  by unfold_locales
    (auto simp: entries_ok_def entry_keys_def map_of_map_put map_of_map_del dom_map_of_conv_image_fst
      distinct_map_put distinct_map_del)

lemma map_put_fresh: "k \<notin> fst ` set m \<Longrightarrow> map_put k v m = m @ [(k, v)]"
  by (induction m) auto

section \<open>Plain objects\<close>

type_synonym 'v obj = "(string \<times> 'v) list"

definition is_digit :: "char \<Rightarrow> bool" where
  "is_digit c \<longleftrightarrow> 48 \<le> (of_char c :: nat) \<and> (of_char c :: nat) \<le> 57"

definition decimal :: "string \<Rightarrow> nat" where
  "decimal s = foldl (\<lambda>n c. 10 * n + ((of_char c :: nat) - 48)) 0 s"

text \<open>An array-index key: a canonical decimal below \<open>2 ^ 32 - 1\<close>.\<close>

definition js_index :: "string \<Rightarrow> nat option" where
  "js_index s = (if s \<noteq> [] \<and> list_all is_digit s \<and> (s = ''0'' \<or> hd s \<noteq> CHR ''0'')
       \<and> decimal s < 4294967295 then Some (decimal s) else None)"

fun index_insert :: "nat \<Rightarrow> string \<times> 'v \<Rightarrow> 'v obj \<Rightarrow> 'v obj" where
  "index_insert n e [] = [e]"
| "index_insert n e (x # m) =
     (case js_index (fst x) of
        Some i \<Rightarrow> if i < n then x # index_insert n e m else e # x # m
      | None \<Rightarrow> e # x # m)"

definition obj_put :: "string \<Rightarrow> 'v \<Rightarrow> 'v obj \<Rightarrow> 'v obj" where
  "obj_put k v m =
     (if k \<in> fst ` set m then map_put k v m
      else case js_index k of Some n \<Rightarrow> index_insert n (k, v) m | None \<Rightarrow> m @ [(k, v)])"

lemma set_index_insert: "set (index_insert n e m) = insert e (set m)"
  by (induction m) (auto split: option.splits)

lemma map_of_index_insert: "k \<notin> fst ` set m \<Longrightarrow> map_of (index_insert n (k, v) m) = (map_of m)(k \<mapsto> v)"
  by (induction m) (auto split: option.splits)

lemma distinct_index_insert:
  "distinct (map fst m) \<Longrightarrow> k \<notin> fst ` set m \<Longrightarrow> distinct (map fst (index_insert n (k, v) m))"
  by (induction m) (auto simp: set_index_insert split: option.splits)

lemma map_of_append_fresh: "k \<notin> fst ` set m \<Longrightarrow> map_of (m @ [(k, v)]) = (map_of m)(k \<mapsto> v)"
  by (induction m) auto

lemma map_of_obj_put: "map_of (obj_put k v m) = (map_of m)(k \<mapsto> v)"
  by (simp add: obj_put_def map_of_map_put map_of_index_insert map_of_append_fresh del: map_of_append
      split: option.splits)

lemma distinct_obj_put: "distinct (map fst m) \<Longrightarrow> distinct (map fst (obj_put k v m))"
  by (auto simp: obj_put_def distinct_map_put distinct_index_insert split: option.splits)

interpretation ob: keyed_store map_of obj_put map_del entry_keys entries_ok
  by unfold_locales
    (auto simp: entries_ok_def entry_keys_def map_of_obj_put map_of_map_del dom_map_of_conv_image_fst
      distinct_obj_put distinct_map_del)

lemma fst_obj_put: "fst ` set (obj_put k v m) = insert k (fst ` set m)"
  by (metis map_of_obj_put dom_fun_upd dom_map_of_conv_image_fst option.distinct(1))

lemma map_of_Some_in: "map_of m k = Some v \<Longrightarrow> (k, v) \<in> set m"
  by (rule map_of_SomeD)

lemma in_map_of: "entries_ok m \<Longrightarrow> (k, v) \<in> set m \<Longrightarrow> map_of m k = Some v"
  by (simp add: entries_ok_def)

end
