(* ===== verification/Net_Types.thy ===== *)
theory Net_Types
  imports Js_Object
begin

text \<open>
  The network part of the configuration (\<open>server/src/config/types-networks.ts\<close>): members,
  introductions, removals, vote casts, vote rounds, recorded outcomes and the network itself.  Field
  names are the source's, with a one-letter prefix per record.  An optional field is an \<open>option\<close>
  (\<open>None\<close> for an absent key); a field the modelled code never reads is left out.  A space's schema
  is the type parameter \<open>'s\<close> of the rounds that carry one.
\<close>

datatype network_type = Closed | Democratic | Club | Braintree | Pubsub

datatype sync_direction = Both | Push | Pull

datatype vote_value = Yes | Veto

datatype vote_round_type =
  Join | Remove | Space_deletion | Space_wipe | Meta_change | Space_addition

datatype round_outcome = Passed | Vetoed | Expired

datatype recorded_outcome = Recorded round_outcome | Ended

datatype brain_collection = Entities | Facts | Edges | Chrono | Files | Links

text \<open>The per-space marks a member carries, each a map from local space ids; a mark is a position or a text.\<close>

datatype per_space_watermark =
    LastPosReceived | LastPosPushed | LastPosServed | LastFileTombstoneAckedAt | TombstoneRereadAt
  | FileMetaRereadAt | FullRereadState | LastSeqReceived | LastSeqPushed | LastSeqServed

datatype mark_value = Mark_number int | Mark_text string

record network_member =
  m_instanceId :: string
  m_label :: string
  m_url :: string
  m_tokenHash :: string
  m_direction :: sync_direction
  m_parentInstanceId :: "string option"
  m_originalParentInstanceId :: "string option"
  m_children :: "string list option"
  m_signingPublicKey :: "string option"
  m_version :: "string option"
  m_admittedAt :: "iso option"
  m_introducedBy :: "string option"
  m_marks :: "per_space_watermark \<Rightarrow> mark_value obj option"
  m_declinedSpaces :: "string list option"

record member_introduction =
  i_instanceId :: string
  i_label :: string
  i_url :: string
  i_admittedAt :: "iso option"
  i_introducedBy :: string
  i_introducedAt :: iso
  i_needsApproval :: "bool option"
  i_lastAttemptAt :: "iso option"
  i_attempts :: "nat option"
  i_lastError :: "string option"
  i_pairingTokenId :: "string option"

record member_removal =
  x_instanceId :: string
  x_removedAt :: iso

record vote_cast =
  c_instanceId :: string
  c_vote :: vote_value
  c_castAt :: "iso option"
  c_sig :: "string option"
  c_bsig :: "string option"

record vote_round =
  r_roundId :: string
  r_type :: vote_round_type
  r_subjectInstanceId :: string
  r_subjectLabel :: string
  r_subjectUrl :: string
  r_deadline :: "iso option"
  r_openedAt :: "iso option"
  r_votes :: "vote_cast list"
  r_inviteKeyHash :: "string option"
  r_concluded :: "bool option"
  r_passed :: "bool option"
  r_pendingMember :: "network_member option"
  r_spaceId :: "string option"
  r_networkSpaceId :: "string option"
  r_wipeTypes :: "brain_collection list option"
  r_appliedHere :: "bool option"
  r_proposedHere :: "bool option"
  r_outcome :: "round_outcome option"
  r_concludedAt :: "iso option"
  r_refusedHere :: "string option"
  r_actLocalId :: "string option"
  r_peersConcluded :: "string list option"
  r_requiredVoters :: "string list option"

record outcome_entry =
  o_roundId :: string
  o_type :: vote_round_type
  o_space :: "string option"
  o_subjectLabel :: string
  o_concludedAt :: "iso option"
  o_outcome :: recorded_outcome
  o_yes :: nat
  o_veto :: nat
  o_eligible :: nat
  o_subjectInstanceId :: "string option"
  o_inviteKeyHash :: "string option"

datatype net_origin = Created | Joined

record temporary_reparent =
  t_newParentInstanceId :: string
  t_originalParentInstanceId :: string
  t_reparentedAt :: iso

text \<open>A space that was announced and not adopted, with why.\<close>

record pending_space =
  p_networkId :: string
  p_localId :: string
  p_why :: string
  p_from :: string
  p_at :: iso

text \<open>A schema layer is kept as it was received and never looked into: an opaque text here.\<close>

record network =
  n_id :: string
  n_label :: string
  n_type :: network_type
  n_spaces :: "string list"
  n_spaceMap :: "string obj option"
  n_votingDeadlineHours :: int
  n_requireSignedVotes :: bool
  n_members :: "network_member list"
  n_introductions :: "member_introduction list option"
  n_admittedVia :: "string option"
  n_removedMembers :: "member_removal list option"
  n_pendingRounds :: "vote_round list"
  n_roundOutcomes :: "outcome_entry list option"
  n_myParentInstanceId :: "string option"
  n_origin :: "net_origin option"
  n_temporaryReparent :: "temporary_reparent option"
  n_spaceOrigins :: "string obj option"
  n_joinedBy :: "string option"
  n_pendingSpaces :: "pending_space list option"
  n_dismissedSpaces :: "string list option"
  n_schemaLayers :: "string obj option"
  n_schemaLayerUnread :: "string list obj option"

text \<open>
  The loaded configuration and the secrets beside it: this instance's id and label, its networks, and
  the outbound token it holds per peer.
\<close>

record config =
  g_instanceId :: string
  g_instanceLabel :: string
  g_networks :: "network list"
  g_peerTokens :: "string obj"

text \<open>\<open>cfg.networks.find(n => n.id === id)\<close> as the index of the network that is then mutated.\<close>

definition network_index :: "config \<Rightarrow> string \<Rightarrow> nat option" where
  "network_index cfg i = find_index (\<lambda>n. n_id n = i) (g_networks cfg)"

definition set_network :: "nat \<Rightarrow> network \<Rightarrow> config \<Rightarrow> config" where
  "set_network i net cfg = cfg\<lparr>g_networks := (g_networks cfg)[i := net]\<rparr>"

definition member_index :: "network \<Rightarrow> string \<Rightarrow> nat option" where
  "member_index net i = find_index (\<lambda>m. m_instanceId m = i) (n_members net)"

definition update_member :: "string \<Rightarrow> (network_member \<Rightarrow> network_member) \<Rightarrow> network \<Rightarrow> network" where
  "update_member i f net =
     (case member_index net i of None \<Rightarrow> net | Some k \<Rightarrow> net\<lparr>n_members := update_at k f (n_members net)\<rparr>)"

text \<open>\<open>xs ?? []\<close>.\<close>

definition or_empty :: "'a list option \<Rightarrow> 'a list" where
  "or_empty xs = (case xs of None \<Rightarrow> [] | Some ys \<Rightarrow> ys)"

lemma or_empty_simps [simp]: "or_empty None = []" "or_empty (Some xs) = xs"
  by (simp_all add: or_empty_def)

text \<open>The members by instance id: \<open>net.members.find(m => m.instanceId === id)\<close>.\<close>

definition member_of :: "network \<Rightarrow> string \<Rightarrow> network_member option" where
  "member_of net i = List.find (\<lambda>m. m_instanceId m = i) (n_members net)"

definition is_member :: "network \<Rightarrow> string \<Rightarrow> bool" where
  "is_member net i \<longleftrightarrow> (\<exists>m \<in> set (n_members net). m_instanceId m = i)"

lemma member_of_None_iff: "member_of net i = None \<longleftrightarrow> \<not> is_member net i"
  by (auto simp: member_of_def is_member_def find_None_in)

lemma member_of_SomeD: "member_of net i = Some m \<Longrightarrow> m \<in> set (n_members net) \<and> m_instanceId m = i"
  by (auto simp: member_of_def dest: find_Some_in)

lemma is_member_image: "is_member net i \<longleftrightarrow> i \<in> m_instanceId ` set (n_members net)"
  by (auto simp: is_member_def)

lemma find_update_at:
  assumes "\<And>x. key (f x) = key x"
  shows "List.find (\<lambda>x. key x = j) (case find_index (\<lambda>x. key x = i) xs of None \<Rightarrow> xs | Some k \<Rightarrow> update_at k f xs) =
     (if j = i then map_option f (List.find (\<lambda>x. key x = i) xs) else List.find (\<lambda>x. key x = j) xs)"
proof (induction xs)
  case Nil
  then show ?case by simp
next
  case (Cons a xs)
  have up: "update_at (Suc k) f (a # xs) = a # update_at k f xs" for k
    by (simp add: update_at_def)
  show ?case
    using Cons assms by (cases "find_index (\<lambda>x. key x = i) xs") (auto simp: up update_at_def [of 0])
qed

lemma member_of_update_member:
  assumes "\<And>m. m_instanceId (f m) = m_instanceId m"
  shows "member_of (update_member i f net) j =
     (if j = i then map_option f (member_of net i) else member_of net j)"
  using find_update_at [where key = m_instanceId and f = f and j = j and i = i and xs = "n_members net", OF assms]
  by (auto simp: update_member_def member_of_def member_index_def split: option.splits)

lemma update_member_frame [frame]:
  "n_id (update_member i f net) = n_id net" "n_type (update_member i f net) = n_type net"
  "n_pendingRounds (update_member i f net) = n_pendingRounds net"
  by (simp_all add: update_member_def split: option.splits)

lemma network_index_SomeD:
  "network_index cfg i = Some k \<Longrightarrow> k < length (g_networks cfg) \<and> n_id (g_networks cfg ! k) = i"
  by (auto simp: network_index_def dest: find_index_SomeD)

text \<open>A member and a network with nothing but their ids and shape, for the concrete inputs of the witnesses.\<close>

definition demo_member :: "string \<Rightarrow> string option \<Rightarrow> string option \<Rightarrow> string list option \<Rightarrow> network_member" where
  "demo_member i parent orig cs = \<lparr>m_instanceId = i, m_label = i, m_url = [], m_tokenHash = ''h'',
     m_direction = Both, m_parentInstanceId = parent, m_originalParentInstanceId = orig, m_children = cs,
     m_signingPublicKey = None, m_version = None, m_admittedAt = None, m_introducedBy = None, m_marks = (\<lambda>_. None), m_declinedSpaces = None\<rparr>"

definition demo_network :: "network_type \<Rightarrow> network_member list \<Rightarrow> network" where
  "demo_network t ms = \<lparr>n_id = ''net'', n_label = ''Net'', n_type = t, n_spaces = [], n_spaceMap = None,
     n_votingDeadlineHours = 24, n_requireSignedVotes = False, n_members = ms, n_introductions = None,
     n_admittedVia = None, n_removedMembers = None, n_pendingRounds = [], n_roundOutcomes = None,
     n_myParentInstanceId = Some ''root'', n_origin = None, n_temporaryReparent = None, n_spaceOrigins = None, n_joinedBy = None,
     n_pendingSpaces = None, n_dismissedSpaces = None, n_schemaLayers = None, n_schemaLayerUnread = None\<rparr>"

end
