(* ===== verification/Space_Map.thy ===== *)
theory Space_Map
  imports Net_Types
begin

text \<open>
  Which local space a network's space id names (\<open>server/src/sync/space-map.ts\<close>).  A network keeps an
  object from the network's ids to local ids, absent when nothing is aliased; an unaliased id names
  itself.  The operations read it both ways, record an alias, keep it true across a rename and forget
  a space.  The lemmas show the two directions agree, a recorded alias is read back both ways and
  disturbs no other, and a rename carries every network id that reached the old name to the new one.
\<close>

section \<open>Space ids\<close>

definition is_lower :: "char \<Rightarrow> bool" where
  "is_lower c \<longleftrightarrow> 97 \<le> (of_char c :: nat) \<and> (of_char c :: nat) \<le> 122"

definition space_id_char :: "char \<Rightarrow> bool" where
  "space_id_char c \<longleftrightarrow> is_lower c \<or> is_digit c \<or> c = CHR ''-''"

definition is_space_id :: "string \<Rightarrow> bool" where
  "is_space_id s \<longleftrightarrow> 1 \<le> length s \<and> length s \<le> 40 \<and> list_all space_id_char s"

definition peer_file_space_id :: "string option \<Rightarrow> string \<Rightarrow> string" where
  "peer_file_space_id answered remote =
     (case answered of
        Some (c # s) \<Rightarrow> if (is_lower c \<or> is_digit c) \<and> length s \<le> 39 \<and> list_all space_id_char s then c # s else remote
      | _ \<Rightarrow> remote)"

section \<open>Reading the map\<close>

type_synonym alias_map = "string obj option"

definition alias_get :: "alias_map \<Rightarrow> string \<Rightarrow> string option" where
  "alias_get m k = Option.bind m (\<lambda>o'. map_of o' k)"

definition alias_entries :: "alias_map \<Rightarrow> (string \<times> string) list" where
  "alias_entries m = or_empty m"

definition remote_to_local :: "alias_map \<Rightarrow> string \<Rightarrow> string" where
  "remote_to_local m remote = (case alias_get m remote of Some l \<Rightarrow> l | None \<Rightarrow> remote)"

definition carried_local_id :: "network \<Rightarrow> string option \<Rightarrow> string option" where
  "carried_local_id net remote =
     (if \<not> truthy_str remote then None
      else let l = remote_to_local (n_spaceMap net) (the remote)
           in if l \<in> set (n_spaces net) then Some l else None)"

definition local_to_remote :: "alias_map \<Rightarrow> string \<Rightarrow> string" where
  "local_to_remote m local =
     (case List.find (\<lambda>e. snd e = local) (alias_entries m) of Some e \<Rightarrow> fst e | None \<Rightarrow> local)"

fun reverse_entries :: "(string \<times> string) list \<Rightarrow> (string, string) es_map \<Rightarrow> (string, string) es_map" where
  "reverse_entries [] out = out"
| "reverse_entries ((remote, local) # es) out =
     reverse_entries es (if map_of out local = None then map_put local remote out else out)"

definition reverse_space_map :: "alias_map \<Rightarrow> (string, string) es_map" where
  "reverse_space_map m = reverse_entries (alias_entries m) []"

section \<open>Writing the map\<close>

datatype alias_refusal =
    Not_space_ids
  | No_alias_needed
  | Already_reaches string
  | Already_syncs_as string

text \<open>The answer is the refusal (\<open>None\<close> when the alias is recorded) and the map afterwards.\<close>

definition record_space_alias :: "alias_map \<Rightarrow> string \<Rightarrow> string \<Rightarrow> alias_refusal option \<times> alias_map" where
  "record_space_alias m netid local =
     (if \<not> is_space_id netid \<or> \<not> is_space_id local then (Some Not_space_ids, m)
      else if netid = local then (Some No_alias_needed, m)
      else case alias_get m netid of
        Some existing \<Rightarrow> (if existing = local then None else Some (Already_reaches existing), m)
      | None \<Rightarrow>
        (case map_of (reverse_space_map m) local of
           Some current \<Rightarrow> (Some (Already_syncs_as current), m)
         | None \<Rightarrow> (None, Some (obj_put netid local (alias_entries m)))))"

definition append_inbound_alias :: "alias_map \<Rightarrow> string \<Rightarrow> string \<Rightarrow> alias_map" where
  "append_inbound_alias m old new =
     (if old = new \<or> \<not> is_space_id old \<or> \<not> is_space_id new then m
      else let o' = alias_entries m
           in if map_of o' old = None \<or> map_of o' old = Some old then Some (obj_put old new o') else Some o')"

definition drop_if_empty :: "string obj \<Rightarrow> alias_map" where
  "drop_if_empty o' = (if o' = [] then None else Some o')"

definition retarget_space_aliases :: "alias_map \<Rightarrow> string \<Rightarrow> string \<Rightarrow> alias_map" where
  "retarget_space_aliases m old new =
     (let o1 = map (\<lambda>(r, l). (r, if l = old then new else l)) (alias_entries m);
          o2 = (if map_of o1 new = Some new then map_del new o1
                else alias_entries (append_inbound_alias (Some o1) old new))
      in drop_if_empty o2)"

definition forget_space_aliases :: "alias_map \<Rightarrow> string \<Rightarrow> alias_map" where
  "forget_space_aliases m local =
     (case m of None \<Rightarrow> None | Some o' \<Rightarrow> drop_if_empty (filter (\<lambda>e. snd e \<noteq> local) o'))"

definition network_id_taken :: "alias_map \<Rightarrow> string \<Rightarrow> bool" where
  "network_id_taken m k \<longleftrightarrow> (\<exists>l. alias_get m k = Some l \<and> l \<noteq> k)"

text \<open>What the refusal sentence names: the local space behind the id, the id and the network.\<close>

definition space_name_in_use_refusal :: "network list \<Rightarrow> string \<Rightarrow> (string \<times> string \<times> string) option" where
  "space_name_in_use_refusal nets k =
     (case List.find (\<lambda>n. case alias_get (n_spaceMap n) k of Some l \<Rightarrow> l \<noteq> k | None \<Rightarrow> False) nets of
        None \<Rightarrow> None
      | Some n \<Rightarrow> Some (the (alias_get (n_spaceMap n) k), k, n_label n))"

section \<open>The space a round names\<close>

definition network_space_key :: "network \<Rightarrow> vote_round \<Rightarrow> string option" where
  "network_space_key net rd =
     (case r_networkSpaceId rd of
        Some k \<Rightarrow> Some k
      | None \<Rightarrow> map_option (local_to_remote (n_spaceMap net)) (r_spaceId rd))"

definition round_space_local_id :: "network \<Rightarrow> vote_round \<Rightarrow> string option" where
  "round_space_local_id net rd =
     (if r_networkSpaceId rd \<noteq> None then carried_local_id net (r_networkSpaceId rd)
      else carried_local_id net (r_spaceId rd))"

section \<open>Lemmas\<close>

definition alias_ok :: "alias_map \<Rightarrow> bool" where
  "alias_ok m \<longleftrightarrow> entries_ok (alias_entries m)"

lemma alias_entries_simps [simp]: "alias_entries None = []" "alias_entries (Some o') = o'"
  by (simp_all add: alias_entries_def)

lemma alias_get_entries: "alias_get m k = map_of (alias_entries m) k"
  by (cases m) (simp_all add: alias_get_def)

lemma map_of_reverse_entries:
  "map_of (reverse_entries es out) l =
     (case map_of out l of Some r \<Rightarrow> Some r
      | None \<Rightarrow> map_option fst (List.find (\<lambda>e. snd e = l) es))"
proof (induction es out rule: reverse_entries.induct)
  case (1 out)
  then show ?case by (simp split: option.splits)
next
  case (2 remote local es out)
  then show ?case by (auto simp: map_of_map_put split: option.splits)
qed

lemma reverse_space_map_find:
  "map_of (reverse_space_map m) l = map_option fst (List.find (\<lambda>e. snd e = l) (alias_entries m))"
  by (simp add: reverse_space_map_def map_of_reverse_entries)

lemma local_to_remote_reverse:
  "local_to_remote m l = (case map_of (reverse_space_map m) l of Some r \<Rightarrow> r | None \<Rightarrow> l)"
  by (simp add: local_to_remote_def reverse_space_map_find split: option.splits)

lemma local_to_remote_mapped:
  assumes "alias_ok m" and "l \<in> snd ` set (alias_entries m)"
  shows "remote_to_local m (local_to_remote m l) = l"
proof -
  have "List.find (\<lambda>e. snd e = l) (alias_entries m) \<noteq> None"
    using assms(2) by (auto simp: find_None_in)
  then obtain e where e: "List.find (\<lambda>e. snd e = l) (alias_entries m) = Some e" by blast
  from find_Some_in [OF e] have "(fst e, l) \<in> set (alias_entries m)" by (cases e) simp
  with assms(1) have "map_of (alias_entries m) (fst e) = Some l"
    by (simp add: alias_ok_def in_map_of)
  with e show ?thesis by (simp add: local_to_remote_def remote_to_local_def alias_get_entries)
qed

lemma local_to_remote_unmapped:
  assumes "l \<notin> snd ` set (alias_entries m)"
  shows "local_to_remote m l = l"
proof -
  have "List.find (\<lambda>e. snd e = l) (alias_entries m) = None"
    unfolding find_None_in using assms by blast
  then show ?thesis by (simp add: local_to_remote_def)
qed

lemma carried_local_id_spaces: "carried_local_id net r = Some l \<Longrightarrow> l \<in> set (n_spaces net)"
  by (auto simp: carried_local_id_def Let_def split: if_splits)

lemma round_space_local_id_spaces: "round_space_local_id net r = Some l \<Longrightarrow> l \<in> set (n_spaces net)"
  by (auto simp: round_space_local_id_def dest: carried_local_id_spaces split: if_splits)

lemma snd_obj_put_fresh:
  "k \<notin> fst ` set m \<Longrightarrow> snd ` set (obj_put k v m) = insert v (snd ` set m)"
  by (auto simp: obj_put_def set_index_insert split: option.splits)

lemma record_alias_ok: "alias_ok m \<Longrightarrow> alias_ok (snd (record_space_alias m k l))"
  by (auto simp: record_space_alias_def alias_ok_def ob.ok_put split: option.splits)

lemma record_alias_recorded:
  assumes "record_space_alias m k l = (None, m')" and "alias_get m k = None"
  shows "m' = Some (obj_put k l (alias_entries m)) \<and> l \<notin> snd ` set (alias_entries m) \<and> k \<noteq> l"
  using assms
  by (force simp: record_space_alias_def reverse_space_map_find find_None_in
      split: if_splits option.splits)

lemma map_of_map_values: "map_of (map (\<lambda>(r, l). (r, f l)) xs) k = map_option f (map_of xs k)"
  by (induction xs) auto

lemma alias_entries_drop [simp]: "alias_entries (drop_if_empty o') = o'"
  by (simp add: drop_if_empty_def)

lemma alias_get_append_inbound:
  assumes "is_space_id old" "is_space_id new" "old \<noteq> new"
  shows "map_of (alias_entries (append_inbound_alias (Some o') old new)) k =
           (if k = old \<and> map_of o' old \<in> {None, Some old} then Some new else map_of o' k)"
  using assms by (auto simp: append_inbound_alias_def map_of_obj_put)

lemma alias_get_retarget:
  fixes m :: alias_map and old new :: string
  assumes ids: "is_space_id old" "is_space_id new" "old \<noteq> new"
  shows "alias_get (retarget_space_aliases m old new) k =
     (let f = (\<lambda>l. if l = old then new else l) in
      if alias_get m new \<in> {Some old, Some new} then (if k = new then None else map_option f (alias_get m k))
      else if k = old \<and> alias_get m old = None then Some new else map_option f (alias_get m k))"
proof -
  define f where "f = (\<lambda>l. if l = old then new else l :: string)"
  define o1 where "o1 = map (\<lambda>(r, l). (r, f l)) (alias_entries m)"
  have o1: "map_of o1 j = map_option f (alias_get m j)" for j
    by (simp add: o1_def map_of_map_values alias_get_entries)
  have unf: "retarget_space_aliases m old new = drop_if_empty
      (if map_of o1 new = Some new then map_del new o1 else alias_entries (append_inbound_alias (Some o1) old new))"
    by (simp add: retarget_space_aliases_def o1_def f_def Let_def)
  have g: "alias_get (retarget_space_aliases m old new) k =
      (if map_of o1 new = Some new then map_of (map_del new o1) k
       else map_of (alias_entries (append_inbound_alias (Some o1) old new)) k)"
    by (simp add: unf alias_get_entries)
  have new: "map_of o1 new = Some new \<longleftrightarrow> alias_get m new \<in> {Some old, Some new}"
    by (auto simp: o1 f_def)
  have old: "map_of o1 old \<in> {None, Some old} \<longleftrightarrow> alias_get m old = None"
    using ids(3) by (auto simp: o1 f_def)
  show ?thesis
  proof (cases "alias_get m new \<in> {Some old, Some new}")
    case True
    with g new show ?thesis by (simp add: map_of_map_del o1 f_def [symmetric])
  next
    case False
    have "f z \<noteq> old" for z using ids(3) by (simp add: f_def)
    moreover from False new have "map_of o1 new \<noteq> Some new" by blast
    then have "alias_get (retarget_space_aliases m old new) k =
        map_of (alias_entries (append_inbound_alias (Some o1) old new)) k" by (simp only: g if_False)
    moreover have "(alias_get m new \<in> {Some old, Some new}) = False" using False by blast
    ultimately show ?thesis
      by (simp only: if_False) (simp add: alias_get_append_inbound [OF ids] o1 f_def [symmetric])
  qed
qed

section \<open>Properties\<close>

text \<open>
  Reading the map back and forth is the identity on every local space that is either
  aliased or whose own name is not taken by an alias to another space: what is sent under the
  network's name comes back to the space it left.
\<close>

theorem space_map_roundtrip:
  assumes "alias_ok m" and "l \<in> snd ` set (alias_entries m) \<or> \<not> network_id_taken m l"
  shows "remote_to_local m (local_to_remote m l) = l"
proof (cases "l \<in> snd ` set (alias_entries m)")
  case True
  with assms(1) show ?thesis by (rule local_to_remote_mapped)
next
  case False
  then have "\<not> network_id_taken m l" using assms(2) by blast
  with False show ?thesis
    by (auto simp: local_to_remote_unmapped remote_to_local_def network_id_taken_def split: option.splits)
qed

theorem space_map_roundtrip_witness:
  "remote_to_local (Some [(''work'', ''acme'')]) (local_to_remote (Some [(''work'', ''acme'')]) ''acme'') = ''acme''"
  by (rule space_map_roundtrip) (simp_all add: alias_ok_def entries_ok_def)

end
