(* ===== verification/Peer_Version.thy ===== *)
theory Peer_Version
  imports Net_Types
begin

text \<open>
  Which peer versions this instance talks to (\<open>server/src/sync/peer-floor.ts\<close>): the numeric
  comparison of two version strings, the gate \<open>peerRunsAtLeast\<close> asked before a newer shape is
  sent, and the floor a peer below this instance's own major is refused at.  \<open>NaN\<close> is \<open>None\<close>.  The
  server's own version comes from the build and is an argument.
\<close>

section \<open>Strings as the version code reads them\<close>

definition is_space_char :: "char \<Rightarrow> bool" where
  "is_space_char c \<longleftrightarrow> (of_char c :: nat) \<in> {9, 10, 11, 12, 13, 32, 160}"

definition trim :: "string \<Rightarrow> string" where
  "trim s = rev (dropWhile is_space_char (rev (dropWhile is_space_char s)))"

fun split_on :: "char \<Rightarrow> string \<Rightarrow> string list" where
  "split_on c [] = [[]]"
| "split_on c (x # xs) =
     (if x = c then [] # split_on c xs
      else case split_on c xs of [] \<Rightarrow> [[x]] | p # ps \<Rightarrow> (x # p) # ps)"

definition version_core :: "string \<Rightarrow> string" where
  "version_core v = takeWhile (\<lambda>c. c \<noteq> CHR ''-'' \<and> c \<noteq> CHR ''+'') (trim v)"

text \<open>\<open>Number.parseInt(s, 10)\<close>: leading blanks, a sign, then as many digits as there are.\<close>

definition digits_value :: "string \<Rightarrow> int option" where
  "digits_value s = (let ds = takeWhile is_digit s in if ds = [] then None else Some (int (decimal ds)))"

definition parse_int :: "string \<Rightarrow> int option" where
  "parse_int s =
     (case dropWhile is_space_char s of
        [] \<Rightarrow> None
      | c # cs \<Rightarrow>
          if c = CHR ''-'' then map_option uminus (digits_value cs)
          else if c = CHR ''+'' then digits_value cs
          else digits_value (c # cs))"

section \<open>The comparison and the gates\<close>

definition version_parts :: "string \<Rightarrow> int option list" where
  "version_parts v = map parse_int (split_on (CHR ''.'') (version_core v))"

definition part_at :: "int option list \<Rightarrow> nat \<Rightarrow> int option" where
  "part_at xs i = (if i < length xs then xs ! i else Some 0)"

fun compare_parts :: "int option list \<Rightarrow> int option list \<Rightarrow> nat list \<Rightarrow> int option" where
  "compare_parts x y [] = Some 0"
| "compare_parts x y (i # is) =
     (case (part_at x i, part_at y i) of
        (Some a, Some b) \<Rightarrow> if a - b \<noteq> 0 then Some (a - b) else compare_parts x y is
      | _ \<Rightarrow> None)"

definition compare_peer_versions :: "string \<Rightarrow> string \<Rightarrow> int option" where
  "compare_peer_versions a b = compare_parts (version_parts a) (version_parts b) [0, 1, 2]"

definition parseable :: "string \<Rightarrow> bool" where
  "parseable v = (let parts = split_on (CHR ''.'') (version_core v)
                  in length parts = 3 \<and> list_all (\<lambda>p. p \<noteq> [] \<and> list_all is_digit p) parts)"

definition peer_runs_at_least :: "string option \<Rightarrow> string \<Rightarrow> bool" where
  "peer_runs_at_least version since =
     (case version of
        None \<Rightarrow> False
      | Some v \<Rightarrow> parseable (trim v) \<and>
          (case compare_peer_versions v since of Some d \<Rightarrow> 0 \<le> d | None \<Rightarrow> False))"

text \<open>The floor is this instance's major at \<open>.0.0\<close>; \<open>0.0.0\<close> when its own version is unreadable.\<close>

definition min_peer_major :: "string \<Rightarrow> int" where
  "min_peer_major server_version =
     (case version_parts server_version of Some n # _ \<Rightarrow> n | _ \<Rightarrow> 0)"

datatype floor_refusal = Reports_no_version | Not_comparable string | Below_floor string

definition peer_floor_refusal :: "string \<Rightarrow> string option \<Rightarrow> iso option \<Rightarrow> floor_refusal option" where
  "peer_floor_refusal server_version version checked_at =
     (let reported = (case version of Some v \<Rightarrow> trim v | None \<Rightarrow> []) in
      if reported = [] then (if checked_at = None then None else Some Reports_no_version)
      else if \<not> parseable reported then Some (Not_comparable reported)
      else case compare_parts (version_parts reported) [Some (min_peer_major server_version), Some 0, Some 0] [0, 1, 2] of
             Some d \<Rightarrow> if d < 0 then Some (Below_floor reported) else None
           | None \<Rightarrow> None)"

section \<open>Lemmas\<close>

definition version_triple :: "string \<Rightarrow> nat \<times> nat \<times> nat" where
  "version_triple v = (case split_on (CHR ''.'') (version_core v) of
     [a, b, c] \<Rightarrow> (decimal a, decimal b, decimal c) | _ \<Rightarrow> (0, 0, 0))"

fun triple_le :: "nat \<times> nat \<times> nat \<Rightarrow> nat \<times> nat \<times> nat \<Rightarrow> bool" where
  "triple_le (a, b, c) (x, y, z) \<longleftrightarrow> a < x \<or> a = x \<and> (b < y \<or> b = y \<and> c \<le> z)"

lemma digit_not_space: "is_digit c \<Longrightarrow> \<not> is_space_char c"
  by (auto simp: is_digit_def is_space_char_def)

lemma digit_not_sign: "is_digit c \<Longrightarrow> c \<noteq> CHR ''-'' \<and> c \<noteq> CHR ''+''"
  by (auto simp: is_digit_def)

lemma parse_int_digits: "s \<noteq> [] \<Longrightarrow> list_all is_digit s \<Longrightarrow> parse_int s = Some (int (decimal s))"
proof -
  assume s: "s \<noteq> []" "list_all is_digit s"
  then obtain c cs where c: "s = c # cs" "is_digit c" by (cases s) auto
  have t: "takeWhile is_digit s = s" using s(2) by (simp add: takeWhile_eq_all_conv list_all_iff)
  have "parse_int s = digits_value s"
    using c digit_not_space digit_not_sign by (simp add: parse_int_def)
  with s(1) show ?thesis by (simp add: digits_value_def t)
qed

lemma dropWhile_idem_last:
  "dropWhile P (rev (dropWhile P (rev (dropWhile P s)))) = rev (dropWhile P (rev (dropWhile P s)))"
proof (cases "dropWhile P s")
  case Nil
  show ?thesis by (simp only: Nil) simp
next
  case (Cons a xs)
  then have na: "\<not> P a" using hd_dropWhile [of P s] by auto
  then have "dropWhile P (rev xs @ [a]) \<noteq> []"
    by (simp add: dropWhile_eq_Nil_conv)
  then obtain ys where "dropWhile P (rev xs @ [a]) = ys @ [a]"
    using na by (metis dropWhile.simps(1,2) dropWhile_append3)
  then show ?thesis using na by (simp only: Cons) simp
qed

lemma trim_trim [simp]: "trim (trim s) = trim s"
  by (simp add: trim_def dropWhile_idem_last)

lemma version_core_trim [simp]: "version_core (trim v) = version_core v"
  by (simp add: version_core_def)

lemma parseable_trim [simp]: "parseable (trim v) = parseable v"
  by (simp add: parseable_def)

lemma version_parts_trim [simp]: "version_parts (trim v) = version_parts v"
  by (simp add: version_parts_def)

lemma parseable_parts:
  assumes "parseable v"
  shows "\<exists>a b c. version_triple v = (a, b, c) \<and> version_parts v = [Some (int a), Some (int b), Some (int c)]"
proof -
  obtain p q r where s: "split_on (CHR ''.'') (version_core v) = [p, q, r]"
    and d: "\<forall>x \<in> {p, q, r}. x \<noteq> [] \<and> list_all is_digit x"
    using assms by (auto simp: parseable_def Let_def length_Suc_conv eval_nat_numeral)
  then show ?thesis
    using parse_int_digits by (simp add: version_triple_def version_parts_def)
qed

lemma compare_peer_versions_sign:
  assumes "parseable v" "parseable w"
  shows "\<exists>d. compare_peer_versions v w = Some d \<and> (0 \<le> d \<longleftrightarrow> triple_le (version_triple w) (version_triple v))"
  using parseable_parts [OF assms(1)] parseable_parts [OF assms(2)]
  by (auto simp: compare_peer_versions_def part_at_def)

lemma triple_le_trans: "triple_le x y \<Longrightarrow> triple_le y z \<Longrightarrow> triple_le x z"
  by (cases x; cases y; cases z) auto

section \<open>Properties\<close>

text \<open>
  Between comparable versions the gate is the numeric order of the three components (so
  \<open>10.0.0\<close> is above \<open>9.0.0\<close>), with no case left unanswered; an absent or unparseable version is
  never at least anything.
\<close>

theorem peer_gate_is_numeric_order:
  assumes "parseable since"
  shows "peer_runs_at_least (Some v) since \<longleftrightarrow>
           parseable v \<and> triple_le (version_triple since) (version_triple v)"
proof (cases "parseable v")
  case True
  then obtain d where "compare_peer_versions v since = Some d"
    "0 \<le> d \<longleftrightarrow> triple_le (version_triple since) (version_triple v)"
    using compare_peer_versions_sign assms by blast
  with True show ?thesis by (simp add: peer_runs_at_least_def)
next
  case False
  then show ?thesis by (simp add: peer_runs_at_least_def)
qed

theorem peer_gate_is_numeric_order_witness:
  "peer_runs_at_least (Some ''10.0.0-rc.1'') ''9.12.3''"
  by (subst peer_gate_is_numeric_order) code_simp+

text \<open>
  A peer that has exchanged member gossip is admitted by the floor exactly when its
  reported version is comparable and of this instance's major or a later one.
\<close>

theorem floor_admits_iff_major:
  assumes "parseable server_version" and "trim v \<noteq> []"
  shows "peer_floor_refusal server_version (Some v) (Some ts) = None \<longleftrightarrow>
           parseable v \<and> fst (version_triple server_version) \<le> fst (version_triple v)"
proof (cases "parseable v")
  case True
  obtain a b c where v: "version_triple v = (a, b, c)" "version_parts v = [Some (int a), Some (int b), Some (int c)]"
    using parseable_parts [OF True] by blast
  obtain x y z where s: "version_triple server_version = (x, y, z)"
      "version_parts server_version = [Some (int x), Some (int y), Some (int z)]"
    using parseable_parts [OF assms(1)] by blast
  show ?thesis using True assms(2) v s
    by (auto simp: peer_floor_refusal_def min_peer_major_def part_at_def Let_def)
next
  case False
  with assms(2) show ?thesis by (simp add: peer_floor_refusal_def Let_def)
qed

theorem floor_admits_iff_major_witness:
  "peer_floor_refusal ''5.6.0'' (Some ''5.0.1'') (Some (At 7)) = None"
  by (subst floor_admits_iff_major) code_simp+

end
