(* ===== verification/Round_State.thy ===== *)
theory Round_State
  imports Space_Map Peer_Version
begin

text \<open>
  What a vote round's own fields say about it (\<open>server/src/networks/round-state.ts\<close>,
  \<open>server/src/sync/vote-round-retention.ts\<close>): is it open, is it a space act, did it pass unvetoed, is
  its effect still owed here, what do the join rounds say about a peer, and which closed round may be
  dropped.  Every predicate takes the caller's one reading of the clock.
\<close>

section \<open>Open rounds\<close>

definition MAX_VOTING_DEADLINE_HOURS :: int where
  "MAX_VOTING_DEADLINE_HOURS = 72"

text \<open>\<open>!(deadlineMs >= now)\<close>: a deadline that does not read as a number is past.\<close>

definition round_past_deadline :: "vote_round \<Rightarrow> int \<Rightarrow> bool" where
  "round_past_deadline rd now =
     (case date_of (r_deadline rd) of Some d \<Rightarrow> \<not> now \<le> d | None \<Rightarrow> True)"

definition round_deadline_beyond_cap :: "vote_round \<Rightarrow> bool" where
  "round_deadline_beyond_cap rd =
     (case (date_of (r_openedAt rd), date_of (r_deadline rd)) of
        (Some opened, Some deadline) \<Rightarrow> opened + MAX_VOTING_DEADLINE_HOURS * 3600000 < deadline
      | _ \<Rightarrow> True)"

definition round_is_open :: "vote_round \<Rightarrow> int \<Rightarrow> bool" where
  "round_is_open rd now \<longleftrightarrow> \<not> truthy_bool (r_concluded rd) \<and> \<not> round_past_deadline rd now"

section \<open>Space acts and what is owed\<close>

definition SPACE_ACT_ROUND_TYPES :: "vote_round_type list" where
  "SPACE_ACT_ROUND_TYPES = [Space_deletion, Space_wipe]"

definition is_space_act_round :: "vote_round_type \<Rightarrow> bool" where
  "is_space_act_round t \<longleftrightarrow> t \<in> set SPACE_ACT_ROUND_TYPES"

definition round_passed_unvetoed :: "vote_round \<Rightarrow> bool" where
  "round_passed_unvetoed rd \<longleftrightarrow>
     r_concluded rd = Some True \<and> r_passed rd = Some True
     \<and> \<not> list_ex (\<lambda>v. c_vote v = Veto) (r_votes rd)"

definition space_act_owed :: "vote_round \<Rightarrow> bool" where
  "space_act_owed rd \<longleftrightarrow>
     is_space_act_round (r_type rd) \<and> round_passed_unvetoed rd \<and> r_appliedHere rd \<noteq> Some True"

definition space_act_applied :: "vote_round \<Rightarrow> bool" where
  "space_act_applied rd \<longleftrightarrow>
     is_space_act_round (r_type rd) \<and> r_concluded rd = Some True \<and> r_passed rd = Some True
     \<and> r_appliedHere rd = Some True"

definition space_addition_owed :: "vote_round \<Rightarrow> bool" where
  "space_addition_owed rd \<longleftrightarrow>
     r_type rd = Space_addition \<and> round_passed_unvetoed rd \<and> r_appliedHere rd \<noteq> Some True"

definition SERVED_ONCE_PASSED :: "vote_round_type list" where
  "SERVED_ONCE_PASSED = [Space_addition, Meta_change] @ SPACE_ACT_ROUND_TYPES"

section \<open>What the join rounds say about a peer\<close>

datatype join_reading = Join_open | Join_refused

definition names_joiner :: "vote_round \<Rightarrow> string \<Rightarrow> bool" where
  "names_joiner rd peer \<longleftrightarrow>
     r_subjectInstanceId rd = peer \<or> (\<exists>pm. r_pendingMember rd = Some pm \<and> m_instanceId pm = peer)"

fun join_round_scan :: "vote_round list \<Rightarrow> string \<Rightarrow> int \<Rightarrow> bool \<Rightarrow> join_reading option" where
  "join_round_scan [] peer now refused = (if refused then Some Join_refused else None)"
| "join_round_scan (rd # rds) peer now refused =
     (if r_type rd \<noteq> Join then join_round_scan rds peer now refused
      else if \<not> names_joiner rd peer then join_round_scan rds peer now refused
      else if round_is_open rd now then Some Join_open
      else join_round_scan rds peer now (if \<not> truthy_bool (r_passed rd) then True else refused))"

definition join_round_of :: "network \<Rightarrow> string \<Rightarrow> int \<Rightarrow> join_reading option" where
  "join_round_of net peer now = join_round_scan (n_pendingRounds net) peer now False"

section \<open>The refusal of a closed round\<close>

datatype round_refusal =
    Refused_404
  | Refused_409_expired "iso option"

text \<open>The argument is \<open>None\<close> where no round was found: the caller passes a concluded one.\<close>

definition round_closed_refusal :: "vote_round option \<Rightarrow> int \<Rightarrow> round_refusal option" where
  "round_closed_refusal found now =
     (case found of
        None \<Rightarrow> Some Refused_404
      | Some rd \<Rightarrow>
          if truthy_bool (r_concluded rd) then Some Refused_404
          else if \<not> round_past_deadline rd now then None
          else Some (Refused_409_expired (r_deadline rd)))"

definition round_to_vote_on :: "network \<Rightarrow> string \<Rightarrow> int \<Rightarrow> round_refusal + vote_round" where
  "round_to_vote_on net rid now =
     (let found = List.find (\<lambda>r. r_roundId r = rid) (n_pendingRounds net) in
      case round_closed_refusal found now of
        Some refusal \<Rightarrow> Inl refusal
      | None \<Rightarrow> Inr (the found))"

datatype round_decided_kind = Decided_passed | Decided_open | Decided_failed

definition round_decided :: "vote_round \<Rightarrow> round_decided_kind" where
  "round_decided rd =
     (if r_concluded rd = Some True then (if truthy_bool (r_passed rd) then Decided_passed else Decided_failed)
      else Decided_open)"

section \<open>Retention\<close>

definition is_round_prunable :: "vote_round \<Rightarrow> int \<Rightarrow> bool" where
  "is_round_prunable rd now \<longleftrightarrow> truthy_bool (r_concluded rd) \<and> round_past_deadline rd now"

definition round_casts_still_propagate :: "vote_round \<Rightarrow> int \<Rightarrow> bool" where
  "round_casts_still_propagate rd now \<longleftrightarrow> \<not> round_past_deadline rd now"

text \<open>
  The standing space-act entries of the configuration, by the rounds they carry: all this component
  asks of the act list is whether one carries a given round of a given network.  The runner's theory
  extends the record with the rest of an entry.
\<close>

record act_entry =
  e_id :: string
  e_rounds :: "(string \<times> string) list"

definition space_act_of_round :: "'e act_entry_scheme list \<Rightarrow> string \<Rightarrow> string \<Rightarrow> 'e act_entry_scheme option" where
  "space_act_of_round acts netid rid =
     List.find (\<lambda>e. list_ex (\<lambda>r. fst r = netid \<and> snd r = rid) (e_rounds e)) acts"

definition act_stands_for_round :: "'e act_entry_scheme list \<Rightarrow> network \<Rightarrow> vote_round \<Rightarrow> bool" where
  "act_stands_for_round acts net rd \<longleftrightarrow>
     is_space_act_round (r_type rd) \<and> r_appliedHere rd \<noteq> Some True
     \<and> space_act_of_round acts (n_id net) (r_roundId rd) \<noteq> None"

section \<open>Lemmas\<close>

lemma is_space_act_round_iff [simp]:
  "is_space_act_round t \<longleftrightarrow> t = Space_deletion \<or> t = Space_wipe"
  by (auto simp: is_space_act_round_def SPACE_ACT_ROUND_TYPES_def)

lemma past_deadline_mono: "round_past_deadline rd t \<Longrightarrow> t \<le> u \<Longrightarrow> round_past_deadline rd u"
  by (auto simp: round_past_deadline_def split: option.splits)

lemma open_earlier: "round_is_open rd u \<Longrightarrow> t \<le> u \<Longrightarrow> round_is_open rd t"
  by (auto simp: round_is_open_def dest: past_deadline_mono)

lemma round_is_open_iff:
  "round_is_open rd now \<longleftrightarrow>
     \<not> truthy_bool (r_concluded rd) \<and> (\<exists>d. date_of (r_deadline rd) = Some d \<and> now \<le> d)"
  by (auto simp: round_is_open_def round_past_deadline_def split: option.splits)

lemma open_not_prunable: "round_is_open rd now \<Longrightarrow> \<not> is_round_prunable rd now"
  by (simp add: round_is_open_def is_round_prunable_def)

lemma round_to_vote_on_Inr:
  "round_to_vote_on net rid now = Inr rd \<Longrightarrow>
     rd \<in> set (n_pendingRounds net) \<and> r_roundId rd = rid \<and> round_is_open rd now"
  by (auto simp: round_to_vote_on_def round_closed_refusal_def round_is_open_def Let_def
      split: option.splits if_splits dest: find_Some_in)

text \<open>The rounds of a network that are a join naming the peer.\<close>

definition joins_about :: "network \<Rightarrow> string \<Rightarrow> vote_round set" where
  "joins_about net peer = {rd \<in> set (n_pendingRounds net). r_type rd = Join \<and> names_joiner rd peer}"

definition join_about :: "string \<Rightarrow> vote_round \<Rightarrow> bool" where
  "join_about peer rd \<longleftrightarrow> r_type rd = Join \<and> names_joiner rd peer"

lemma join_round_scan_Cons:
  "join_round_scan (rd # rds) peer now refused =
     (if \<not> join_about peer rd then join_round_scan rds peer now refused
      else if round_is_open rd now then Some Join_open
      else join_round_scan rds peer now (refused \<or> \<not> truthy_bool (r_passed rd)))"
  by (simp add: join_about_def)

lemma join_round_scan_cases:
  "join_round_scan rds peer now refused =
     (if list_ex (\<lambda>rd. join_about peer rd \<and> round_is_open rd now) rds then Some Join_open
      else if refused \<or> list_ex (\<lambda>rd. join_about peer rd \<and> \<not> truthy_bool (r_passed rd)) rds
      then Some Join_refused else None)"
proof (induction rds arbitrary: refused)
  case Nil
  show ?case by simp
next
  case (Cons rd rds)
  show ?case
    by (cases "join_about peer rd"; cases "round_is_open rd now"; cases "truthy_bool (r_passed rd)")
      (simp_all only: join_round_scan_Cons Cons.IH list_ex_Cons_iff if_True if_False simp_thms)
qed

section \<open>Properties\<close>

text \<open>
  A peer reads as a pending joiner exactly while some join round naming it can still be
  voted on; a voted-down or lapsed join reads as refused, never as an admission, and a passed one as
  neither.
\<close>

theorem join_reading_exact:
  "(join_round_of net peer now = Some Join_open \<longleftrightarrow> (\<exists>rd \<in> joins_about net peer. round_is_open rd now))
   \<and> (join_round_of net peer now = Some Join_refused \<longleftrightarrow>
       \<not> (\<exists>rd \<in> joins_about net peer. round_is_open rd now)
       \<and> (\<exists>rd \<in> joins_about net peer. \<not> truthy_bool (r_passed rd)))"
  by (auto simp: join_round_of_def join_round_scan_cases joins_about_def list_ex_iff join_about_def)

end
