(* ===== verification/Topology.thy ===== *)
theory Topology
  imports Net_Types
begin

text \<open>
  The shape of a network as this instance sees it: its own role and the members it may name
  (\<open>server/src/networks/network-role.ts\<close>), the braintree ancestors that must approve a round
  (\<open>server/src/util/braintree.ts\<close>), and the acts that move a member in the tree
  (\<open>server/src/networks/topology-acts.ts\<close>).  The lemmas show both upward walks end on every
  configuration (cycles included) and follow parent links, and that the downward fixpoint is exactly
  the transitive closure of the parent relation below this instance.
\<close>

section \<open>Braintree ancestors\<close>

definition tree_ids :: "network \<Rightarrow> string \<Rightarrow> string set" where
  "tree_ids net self = insert self (m_instanceId ` set (n_members net))"

lemma finite_tree_ids [simp]: "finite (tree_ids net self)"
  by (simp add: tree_ids_def)

lemma tree_ids_self [simp]: "self \<in> tree_ids net self"
  by (simp add: tree_ids_def)

lemma member_of_tree_ids: "member_of net i = Some m \<Longrightarrow> i \<in> tree_ids net self"
  by (auto simp: tree_ids_def dest: member_of_SomeD)

lemma card_fresh_less:
  "x \<in> A \<Longrightarrow> x \<notin> set path \<Longrightarrow> finite A \<Longrightarrow> card (A - set (path @ [x])) < card (A - set path)"
  by (rule psubset_card_mono) auto

function ancestors_walk :: "network \<Rightarrow> string \<Rightarrow> string option \<Rightarrow> string list \<Rightarrow> string list" where
  "ancestors_walk net self cur path =
     (if \<not> truthy_str cur \<or> the cur \<in> set path then path
      else if the cur = self then ancestors_walk net self (n_myParentInstanceId net) (path @ [the cur])
      else case member_of net (the cur) of
             None \<Rightarrow> path @ [the cur]
           | Some m \<Rightarrow> ancestors_walk net self (m_parentInstanceId m) (path @ [the cur]))"
  by pat_completeness auto
termination
proof (relation "measure (\<lambda>(net, self, cur, path). card (tree_ids net self - set path))", goal_cases)
  case 1
  show ?case by simp
next
  case (2 net self cur path)
  then show ?case unfolding in_measure prod.case by (intro card_fresh_less) auto
next
  case (3 net self cur path m)
  then show ?case unfolding in_measure prod.case
    by (intro card_fresh_less) (auto dest: member_of_tree_ids)
qed

declare ancestors_walk.simps [simp del]

definition build_braintree_ancestors :: "network \<Rightarrow> string \<Rightarrow> string \<Rightarrow> string list" where
  "build_braintree_ancestors net self start = ancestors_walk net self (Some start) []"

section \<open>The role of this instance\<close>

datatype network_role_name = Publisher | Subscriber | Organiser | Member | Root | Node | Leaf

record role_view =
  role :: network_role_name
  role_members :: "network_member list"
  role_publisher :: "network_member option"
  role_pathToRoot :: "network_member list option"
  role_subtree :: "network_member list option"

text \<open>\<open>new Map(members.map(m => [m.instanceId, m]))\<close>: a later member of the same id wins.\<close>

definition by_id :: "network \<Rightarrow> string \<Rightarrow> network_member option" where
  "by_id net i = map_of (rev (map (\<lambda>m. (m_instanceId m, m)) (n_members net))) i"

lemma by_id_SomeD: "by_id net i = Some m \<Longrightarrow> m \<in> set (n_members net) \<and> m_instanceId m = i"
  by (auto simp: by_id_def dest!: map_of_SomeD)

function path_walk :: "network \<Rightarrow> string option \<Rightarrow> string list \<Rightarrow> network_member list \<Rightarrow> network_member list" where
  "path_walk net cur seen path =
     (if \<not> truthy_str cur \<or> the cur \<in> set seen then path
      else case by_id net (the cur) of
             None \<Rightarrow> path
           | Some m \<Rightarrow> path_walk net (m_parentInstanceId m) (seen @ [the cur]) (path @ [m]))"
  by pat_completeness auto
termination
proof (relation "measure (\<lambda>(net, cur, seen, path). card (m_instanceId ` set (n_members net) - set seen))", goal_cases)
  case 1
  show ?case by simp
next
  case (2 net cur seen path m)
  then show ?case unfolding in_measure prod.case
    by (intro card_fresh_less) (force dest!: by_id_SomeD)+
qed

declare path_walk.simps [simp del]

text \<open>One pass over the members: \<open>below\<close> and \<open>subtree\<close> grow while it runs.\<close>

definition hangs_below :: "string list \<Rightarrow> network_member \<Rightarrow> bool" where
  "hangs_below below m \<longleftrightarrow> truthy_str (m_parentInstanceId m)
     \<and> the (m_parentInstanceId m) \<in> set below \<and> m_instanceId m \<notin> set below"

fun subtree_pass ::
  "network_member list \<Rightarrow> string list \<Rightarrow> network_member list \<Rightarrow> string list \<times> network_member list" where
  "subtree_pass [] below sub = (below, sub)"
| "subtree_pass (m # ms) below sub =
     (if hangs_below below m then subtree_pass ms (below @ [m_instanceId m]) (sub @ [m])
      else subtree_pass ms below sub)"

lemma subtree_pass_append:
  "subtree_pass ms below sub = (b, s) \<Longrightarrow>
     \<exists>xs. b = below @ map m_instanceId xs \<and> s = sub @ xs \<and> set xs \<subseteq> set ms
        \<and> distinct (map m_instanceId xs) \<and> set (map m_instanceId xs) \<inter> set below = {}"
proof (induction ms below sub rule: subtree_pass.induct)
  case (1 below sub)
  then show ?case by auto
next
  case (2 m ms below sub)
  show ?case
  proof (cases "hangs_below below m")
    case True
    with 2 obtain xs where xs: "b = (below @ [m_instanceId m]) @ map m_instanceId xs" "s = (sub @ [m]) @ xs"
      "set xs \<subseteq> set ms" "distinct (map m_instanceId xs)"
      "set (map m_instanceId xs) \<inter> set (below @ [m_instanceId m]) = {}" by auto
    with True show ?thesis by (intro exI [of _ "m # xs"]) (auto simp: hangs_below_def)
  next
    case False
    with 2 show ?thesis by (auto 4 3)
  qed
qed

function subtree_grow :: "network_member list \<Rightarrow> string list \<Rightarrow> network_member list \<Rightarrow> network_member list" where
  "subtree_grow ms below sub =
     (let (b, s) = subtree_pass ms below sub
      in if length b = length below then s else subtree_grow ms b s)"
  by pat_completeness auto
termination
proof (relation "measure (\<lambda>(ms, below, sub). card (m_instanceId ` set ms - set below))", goal_cases)
  case 1
  show ?case by simp
next
  case (2 ms below sub p b s)
  then have "subtree_pass ms below sub = (b, s)" "length b \<noteq> length below" by auto
  then obtain xs where xs: "b = below @ map m_instanceId xs" "set xs \<subseteq> set ms" "xs \<noteq> []"
    "set (map m_instanceId xs) \<inter> set below = {}"
    using subtree_pass_append by (metis append_Nil2 list.simps(8))
  then obtain x where "x \<in> set xs" by (cases xs) auto
  with xs have "m_instanceId x \<in> m_instanceId ` set ms - set below" "m_instanceId x \<in> set b" by auto
  then have "m_instanceId ` set ms - set b \<subset> m_instanceId ` set ms - set below"
    using xs(1) by auto
  then show ?case by (simp add: psubset_card_mono)
qed

declare subtree_grow.simps [simp del]

definition network_role :: "network \<Rightarrow> string \<Rightarrow> role_view" where
  "network_role net self =
     (case n_type net of
        Pubsub \<Rightarrow>
          (case List.find (\<lambda>m. m_direction m = Pull) (n_members net) of
             Some p \<Rightarrow> \<lparr>role = Subscriber, role_members = [], role_publisher = Some p,
                          role_pathToRoot = None, role_subtree = None\<rparr>
           | None \<Rightarrow> \<lparr>role = Publisher, role_members = filter (\<lambda>m. m_direction m \<noteq> Pull) (n_members net),
                       role_publisher = None, role_pathToRoot = None, role_subtree = None\<rparr>)
      | Club \<Rightarrow> \<lparr>role = (if n_origin net = Some Created then Organiser else Member),
                   role_members = n_members net, role_publisher = None,
                   role_pathToRoot = None, role_subtree = None\<rparr>
      | Braintree \<Rightarrow>
          (let path = path_walk net (n_myParentInstanceId net) [self] [];
               sub = subtree_grow (n_members net) [self] []
           in \<lparr>role = (if \<not> truthy_str (n_myParentInstanceId net) then Root else if sub \<noteq> [] then Node else Leaf),
               role_members = sub, role_publisher = None,
               role_pathToRoot = Some path, role_subtree = Some sub\<rparr>)
      | _ \<Rightarrow> \<lparr>role = Member, role_members = n_members net, role_publisher = None,
               role_pathToRoot = None, role_subtree = None\<rparr>)"

definition publishes_on :: "network \<Rightarrow> string \<Rightarrow> bool" where
  "publishes_on net self \<longleftrightarrow> n_type net = Pubsub \<and> role (network_role net self) = Publisher"

definition acts_locally_on :: "network \<Rightarrow> string \<Rightarrow> bool" where
  "acts_locally_on net self \<longleftrightarrow> n_type net = Pubsub \<and> role (network_role net self) = Subscriber"

section \<open>The acts that move a member\<close>

record reparent_body =
  b_newParentInstanceId :: string
  b_newParentLabel :: string
  b_newParentUrl :: string
  b_tokenForNewParent :: string
  b_originalParentInstanceId :: string

datatype topology_refusal =
    Bad_body | Network_not_found | Not_a_braintree | Member_not_found | Not_reparented

datatype topology_answer =
    Reparented string string
  | Adopted string "string option"
  | Reverted string string

definition pushed_parent :: "reparent_body \<Rightarrow> network_member" where
  "pushed_parent b = \<lparr>m_instanceId = b_newParentInstanceId b, m_label = b_newParentLabel b,
     m_url = b_newParentUrl b, m_tokenHash = [], m_direction = Push, m_parentInstanceId = None,
     m_originalParentInstanceId = None, m_children = None, m_signingPublicKey = None,
     m_version = None, m_admittedAt = None, m_introducedBy = None, m_marks = (\<lambda>_. None), m_declinedSpaces = None\<rparr>"

text \<open>The body is \<open>None\<close> where it does not parse; \<open>now\<close> is the instant stamped on the reparent.\<close>

definition reparent_self_act ::
  "config \<Rightarrow> string \<Rightarrow> reparent_body option \<Rightarrow> int \<Rightarrow> topology_refusal + config \<times> topology_answer" where
  "reparent_self_act cfg netid body now =
     (case body of None \<Rightarrow> Inl Bad_body
      | Some b \<Rightarrow>
     (case network_index cfg netid of None \<Rightarrow> Inl Network_not_found
      | Some i \<Rightarrow>
        (let net = g_networks cfg ! i in
         if n_type net \<noteq> Braintree then Inl Not_a_braintree
         else
           let net1 = (if is_member net (b_newParentInstanceId b) then net
                       else net\<lparr>n_members := n_members net @ [pushed_parent b]\<rparr>);
               net2 = net1\<lparr>n_temporaryReparent := Some \<lparr>t_newParentInstanceId = b_newParentInstanceId b,
                        t_originalParentInstanceId = b_originalParentInstanceId b, t_reparentedAt = At now\<rparr>\<rparr>;
               cfg1 = cfg\<lparr>g_peerTokens := obj_put (b_newParentInstanceId b) (b_tokenForNewParent b) (g_peerTokens cfg)\<rparr>
           in Inr (set_network i net2 cfg1,
                   Reparented (b_newParentInstanceId b) (b_originalParentInstanceId b)))))"

definition adopt_member_act :: "config \<Rightarrow> string \<Rightarrow> string \<Rightarrow> topology_refusal + config \<times> topology_answer" where
  "adopt_member_act cfg netid mid =
     (case network_index cfg netid of None \<Rightarrow> Inl Network_not_found
      | Some i \<Rightarrow>
        (let net = g_networks cfg ! i in
         case member_of net mid of None \<Rightarrow> Inl Member_not_found
         | Some m \<Rightarrow>
             if \<not> truthy_str (m_originalParentInstanceId m) then Inl Not_reparented
             else Inr (set_network i (update_member mid (\<lambda>m. m\<lparr>m_originalParentInstanceId := None\<rparr>) net) cfg,
                       Adopted mid (m_parentInstanceId m))))"

definition drop_child :: "string \<Rightarrow> network_member \<Rightarrow> network_member" where
  "drop_child c m = (case m_children m of None \<Rightarrow> m
     | Some cs \<Rightarrow> m\<lparr>m_children := Some (filter (\<lambda>x. x \<noteq> c) cs)\<rparr>)"

definition add_child :: "string \<Rightarrow> network_member \<Rightarrow> network_member" where
  "add_child c m = (case m_children m of None \<Rightarrow> m
     | Some cs \<Rightarrow> if c \<in> set cs then m else m\<lparr>m_children := Some (cs @ [c])\<rparr>)"

definition revert_parent_act :: "config \<Rightarrow> string \<Rightarrow> string \<Rightarrow> topology_refusal + config \<times> topology_answer" where
  "revert_parent_act cfg netid mid =
     (case network_index cfg netid of None \<Rightarrow> Inl Network_not_found
      | Some i \<Rightarrow>
        (let net = g_networks cfg ! i in
         case member_of net mid of None \<Rightarrow> Inl Member_not_found
         | Some m \<Rightarrow>
             if \<not> truthy_str (m_originalParentInstanceId m) then Inl Not_reparented
             else
               let restored = the (m_originalParentInstanceId m);
                   net1 = update_member mid
                     (\<lambda>m. m\<lparr>m_parentInstanceId := Some restored, m_originalParentInstanceId := None\<rparr>) net;
                   net2 = update_member (g_instanceId cfg) (drop_child mid) net1;
                   net3 = update_member restored (add_child mid) net2;
                   cfg1 = cfg\<lparr>g_peerTokens := map_del mid (g_peerTokens cfg)\<rparr>
               in Inr (set_network i net3 cfg1, Reverted mid restored)))"

section \<open>Lemmas\<close>

text \<open>The parent link an upward walk follows, and a list that follows it step by step.\<close>

definition up_link :: "network \<Rightarrow> string \<Rightarrow> string \<Rightarrow> string option" where
  "up_link net self i =
     (if i = self then n_myParentInstanceId net else Option.bind (member_of net i) m_parentInstanceId)"

fun up_chain :: "(string \<Rightarrow> string option) \<Rightarrow> string list \<Rightarrow> bool" where
  "up_chain f (a # b # xs) \<longleftrightarrow> f a = Some b \<and> up_chain f (b # xs)"
| "up_chain f xs \<longleftrightarrow> True"

definition chain_end :: "network \<Rightarrow> string \<Rightarrow> string list \<Rightarrow> bool" where
  "chain_end net self path \<longleftrightarrow>
     (let p = up_link net self (last path) in \<not> truthy_str p \<or> the p \<in> set path)"

lemma up_chain_Cons: "up_chain f zs \<Longrightarrow> (zs \<noteq> [] \<Longrightarrow> f a = Some (hd zs)) \<Longrightarrow> up_chain f (a # zs)"
  by (cases zs) auto

text \<open>What a walk from \<open>cur\<close> adds to the path already walked.\<close>

definition walk_adds :: "network \<Rightarrow> string \<Rightarrow> string option \<Rightarrow> string list \<Rightarrow> string list \<Rightarrow> bool" where
  "walk_adds net self cur path zs \<longleftrightarrow>
     ancestors_walk net self cur path = path @ zs \<and> distinct zs \<and> set zs \<inter> set path = {}
     \<and> (zs \<noteq> [] \<longleftrightarrow> truthy_str cur \<and> the cur \<notin> set path) \<and> (zs \<noteq> [] \<longrightarrow> cur = Some (hd zs))
     \<and> up_chain (up_link net self) zs \<and> (zs \<noteq> [] \<longrightarrow> chain_end net self (path @ zs))"

lemma walk_adds_step:
  assumes go: "c \<noteq> []" "c \<notin> set path"
    and walk: "ancestors_walk net self (Some c) path = ancestors_walk net self nxt (path @ [c])"
    and link: "up_link net self c = nxt"
    and rest: "walk_adds net self nxt (path @ [c]) zs"
  shows "walk_adds net self (Some c) path (c # zs)"
proof -
  have "up_chain (up_link net self) (c # zs)"
  proof (rule up_chain_Cons)
    show "up_chain (up_link net self) zs" using rest unfolding walk_adds_def by blast
    show "up_link net self c = Some (hd zs)" if "zs \<noteq> []"
      using rest that unfolding walk_adds_def link by blast
  qed
  moreover have "chain_end net self (path @ c # zs)"
  proof (cases "zs = []")
    case True
    then have "\<not> (truthy_str nxt \<and> the nxt \<notin> set (path @ [c]))"
      using rest unfolding walk_adds_def by blast
    with True show ?thesis unfolding chain_end_def by (auto simp: link)
  next
    case False
    then have "chain_end net self ((path @ [c]) @ zs)"
      using rest unfolding walk_adds_def by blast
    then show ?thesis by simp
  qed
  moreover have "ancestors_walk net self (Some c) path = path @ c # zs"
  proof -
    have "ancestors_walk net self nxt (path @ [c]) = (path @ [c]) @ zs"
      using rest unfolding walk_adds_def by blast
    then show ?thesis by (simp only: walk append_assoc append_Cons append_Nil)
  qed
  moreover have "distinct zs" "set zs \<inter> set (path @ [c]) = {}"
    using rest unfolding walk_adds_def by blast+
  ultimately show ?thesis using go by (simp add: walk_adds_def)
qed

lemma ancestors_walk_adds: "\<exists>zs. walk_adds net self cur path zs"
proof (induction net self cur path rule: ancestors_walk.induct)
  case (1 net self cur path)
  note unfold = ancestors_walk.simps [of net self cur path]
  show ?case
  proof (cases "truthy_str cur \<and> the cur \<notin> set path")
    case False
    then show ?thesis by (intro exI [of _ "[]"]) (auto simp: unfold walk_adds_def)
  next
    case True
    then obtain c where c: "cur = Some c" "c \<noteq> []" "c \<notin> set path" by (auto elim: truthy_strE)
    consider "c = self" | "c \<noteq> self" "member_of net c = None"
      | m where "c \<noteq> self" "member_of net c = Some m" by blast
    then show ?thesis
    proof cases
      case 1
      with c "1.IH"(1) obtain zs where zs: "walk_adds net self (n_myParentInstanceId net) (path @ [c]) zs"
        by auto
      have "walk_adds net self (Some c) path (c # zs)"
        by (rule walk_adds_step [OF _ _ _ _ zs]) (use c 1 unfold in \<open>simp_all add: up_link_def\<close>)
      with c(1) show ?thesis by blast
    next
      case 2
      with c unfold have "ancestors_walk net self (Some c) path = path @ [c]" by simp
      with c 2 show ?thesis
        by (intro exI [of _ "[c]"]) (simp add: walk_adds_def chain_end_def up_link_def)
    next
      case 3
      with c "1.IH"(2) obtain zs where zs: "walk_adds net self (m_parentInstanceId m) (path @ [c]) zs"
        by auto
      have "walk_adds net self (Some c) path (c # zs)"
        by (rule walk_adds_step [OF _ _ _ _ zs]) (use c 3 unfold in \<open>simp_all add: up_link_def\<close>)
      with c(1) show ?thesis by blast
    qed
  qed
qed

lemma ancestors_nonempty: "start \<noteq> [] \<Longrightarrow> build_braintree_ancestors net self start \<noteq> []"
  using ancestors_walk_adds [of net self "Some start" "[]"]
  unfolding walk_adds_def build_braintree_ancestors_def by fastforce

lemma ancestors_distinct: "distinct (build_braintree_ancestors net self start)"
  using ancestors_walk_adds [of net self "Some start" "[]"]
  unfolding walk_adds_def build_braintree_ancestors_def by fastforce

text \<open>The parent relation of the tree, and what one pass over the members does to it.\<close>

definition parent_edges :: "network_member list \<Rightarrow> (string \<times> string) set" where
  "parent_edges ms = {(p, m_instanceId m) | p m. m \<in> set ms \<and> m_parentInstanceId m = Some p \<and> p \<noteq> []}"

lemma hangs_below_edge:
  assumes "hangs_below below m" and "m \<in> set ms"
  shows "\<exists>p \<in> set below. (p, m_instanceId m) \<in> parent_edges ms"
proof -
  from assms(1) obtain p where "m_parentInstanceId m = Some p" "p \<noteq> []" "p \<in> set below"
    unfolding hangs_below_def by (cases "m_parentInstanceId m") auto
  with assms(2) show ?thesis unfolding parent_edges_def by blast
qed

lemma subtree_pass_reach:
  assumes "subtree_pass ms below sub = (b, s)" and "set ms \<subseteq> set all"
    and "set below \<subseteq> (parent_edges all)\<^sup>* `` {self}"
  shows "set b \<subseteq> (parent_edges all)\<^sup>* `` {self}"
  using assms
proof (induction ms below sub rule: subtree_pass.induct)
  case (1 below sub)
  then show ?case by simp
next
  case (2 m ms below sub)
  show ?case
  proof (cases "hangs_below below m")
    case True
    moreover obtain p where "p \<in> set below" "(p, m_instanceId m) \<in> parent_edges all"
      using hangs_below_edge [OF True, of all] "2.prems"(2) by auto
    ultimately show ?thesis
      using "2.IH"(1) [OF True] "2.prems" by (auto intro: rtrancl_into_rtrancl)
  next
    case False
    with 2 show ?thesis by auto
  qed
qed

lemma subtree_pass_stuck:
  "subtree_pass ms below sub = (b, s) \<Longrightarrow> length b = length below \<Longrightarrow>
     b = below \<and> s = sub \<and> (\<forall>m \<in> set ms. \<not> hangs_below below m)"
proof (induction ms below sub rule: subtree_pass.induct)
  case (1 below sub)
  then show ?case by simp
next
  case (2 m ms below sub)
  show ?case
  proof (cases "hangs_below below m")
    case True
    with "2.prems" subtree_pass_append [of ms "below @ [m_instanceId m]" "sub @ [m]" b s] show ?thesis by auto
  next
    case False
    with 2 show ?thesis by auto
  qed
qed

lemma closed_reach:
  assumes "\<forall>m \<in> set ms. \<not> hangs_below below m" and "self \<in> set below"
  shows "(parent_edges ms)\<^sup>* `` {self} \<subseteq> set below"
proof
  fix x assume "x \<in> (parent_edges ms)\<^sup>* `` {self}"
  then have "(self, x) \<in> (parent_edges ms)\<^sup>*" by simp
  then show "x \<in> set below"
  proof (induction rule: rtrancl_induct)
    case base
    show ?case by (rule assms(2))
  next
    case (step y z)
    then obtain m where "m \<in> set ms" "m_parentInstanceId m = Some y" "y \<noteq> []" "z = m_instanceId m"
      by (auto simp: parent_edges_def)
    with step.IH assms(1) show ?case by (auto simp: hangs_below_def)
  qed
qed

lemma subtree_grow_spec:
  assumes "set below \<subseteq> (parent_edges ms)\<^sup>* `` {self}" and "below = self # map m_instanceId sub"
    and "distinct below" and "set sub \<subseteq> set ms"
  shows "insert self (m_instanceId ` set (subtree_grow ms below sub)) = (parent_edges ms)\<^sup>* `` {self}
     \<and> distinct (self # map m_instanceId (subtree_grow ms below sub))
     \<and> set (subtree_grow ms below sub) \<subseteq> set ms"
  using assms
proof (induction ms below sub rule: subtree_grow.induct)
  case (1 ms below sub)
  obtain b s where bs: "subtree_pass ms below sub = (b, s)" by force
  obtain xs where xs: "b = below @ map m_instanceId xs" "s = sub @ xs" "set xs \<subseteq> set ms"
      "distinct (map m_instanceId xs)" "set (map m_instanceId xs) \<inter> set below = {}"
    using subtree_pass_append [OF bs] by blast
  have reach: "set b \<subseteq> (parent_edges ms)\<^sup>* `` {self}"
    using subtree_pass_reach [OF bs subset_refl "1.prems"(1)] .
  show ?case
  proof (cases "length b = length below")
    case True
    then have grow: "subtree_grow ms below sub = s" using bs by (simp add: subtree_grow.simps [of ms below sub])
    from subtree_pass_stuck [OF bs True] have "b = below" "s = sub" "\<forall>m \<in> set ms. \<not> hangs_below below m" by auto
    with grow have sub: "subtree_grow ms below sub = sub" by simp
    have "(parent_edges ms)\<^sup>* `` {self} \<subseteq> set below"
      using closed_reach [of ms below self] "1.prems"(2) \<open>\<forall>m \<in> set ms. \<not> hangs_below below m\<close> by simp
    with "1.prems" show ?thesis unfolding sub by auto
  next
    case False
    then have grow: "subtree_grow ms below sub = subtree_grow ms b s"
      using bs by (simp add: subtree_grow.simps [of ms below sub])
    have "distinct b" using xs "1.prems"(3) by auto
    moreover have "b = self # map m_instanceId s" "set s \<subseteq> set ms" using xs "1.prems"(2,4) by auto
    ultimately show ?thesis
      unfolding grow using "1.IH" [of "(b, s)" b s] bs False reach by simp
  qed
qed

lemma drop_child_children: "m_children (drop_child c m) = Some cs \<Longrightarrow> c \<notin> set cs"
  by (cases "m_children m") (auto simp: drop_child_def)

lemma add_child_children: "m_children (add_child c m) = Some cs \<Longrightarrow> c \<in> set cs"
  by (cases "m_children m") (auto simp: add_child_def split: if_splits)

section \<open>Properties\<close>

text \<open>
  The ancestor set of a braintree round is a duplicate-free upward chain that starts at
  the anchor, follows this instance's own parent links one by one, and stops only where the parent
  link ends, is unknown here, or closes a cycle.
\<close>

theorem braintree_ancestors_chain:
  assumes "start \<noteq> []"
  shows "build_braintree_ancestors net self start \<noteq> []
     \<and> hd (build_braintree_ancestors net self start) = start
     \<and> distinct (build_braintree_ancestors net self start)
     \<and> up_chain (up_link net self) (build_braintree_ancestors net self start)
     \<and> chain_end net self (build_braintree_ancestors net self start)"
proof -
  obtain zs where "walk_adds net self (Some start) [] zs" using ancestors_walk_adds by blast
  then show ?thesis
    using assms(1) by (auto simp: walk_adds_def build_braintree_ancestors_def)
qed

text \<open>
  Property C33: in a braintree this instance's subtree is exactly the members whose chain of parents
  reaches it, each listed once and never itself, whatever the order of the member list.
\<close>

theorem subtree_is_descendants:
  assumes "n_type net = Braintree"
  shows "\<exists>sub. role_subtree (network_role net self) = Some sub
     \<and> insert self (m_instanceId ` set sub) = (parent_edges (n_members net))\<^sup>* `` {self}
     \<and> distinct (self # map m_instanceId sub) \<and> set sub \<subseteq> set (n_members net)"
proof -
  have "role_subtree (network_role net self) = Some (subtree_grow (n_members net) [self] [])"
    using assms by (simp add: network_role_def Let_def)
  moreover have "insert self (m_instanceId ` set (subtree_grow (n_members net) [self] []))
        = (parent_edges (n_members net))\<^sup>* `` {self}
      \<and> distinct (self # map m_instanceId (subtree_grow (n_members net) [self] []))
      \<and> set (subtree_grow (n_members net) [self] []) \<subseteq> set (n_members net)"
    by (rule subtree_grow_spec) auto
  ultimately show ?thesis by blast
qed

text \<open>
  Reverting a member that is on a temporary parent puts it back under the parent it had,
  ends the temporary state, takes it off this instance's child list and onto the restored parent's,
  drops the token issued to it, and leaves every other network as it was.
\<close>

theorem revert_parent_restores:
  assumes act: "revert_parent_act cfg netid mid = Inr (cfg', Reverted mid restored)"
    and other: "mid \<noteq> restored" "mid \<noteq> g_instanceId cfg" "restored \<noteq> g_instanceId cfg"
  shows "\<exists>i m m'. network_index cfg netid = Some i \<and> member_of (g_networks cfg ! i) mid = Some m
     \<and> m_originalParentInstanceId m = Some restored
     \<and> member_of (g_networks cfg' ! i) mid = Some m'
     \<and> m_parentInstanceId m' = Some restored \<and> m_originalParentInstanceId m' = None
     \<and> (\<forall>s cs. member_of (g_networks cfg' ! i) (g_instanceId cfg) = Some s \<and> m_children s = Some cs \<longrightarrow> mid \<notin> set cs)
     \<and> (\<forall>p cs. member_of (g_networks cfg' ! i) restored = Some p \<and> m_children p = Some cs \<longrightarrow> mid \<in> set cs)
     \<and> map_of (g_peerTokens cfg') mid = None
     \<and> (\<forall>j. j \<noteq> i \<longrightarrow> j < length (g_networks cfg) \<longrightarrow> g_networks cfg' ! j = g_networks cfg ! j)"
proof -
  from act obtain i m where i: "network_index cfg netid = Some i"
    and m: "member_of (g_networks cfg ! i) mid = Some m" "truthy_str (m_originalParentInstanceId m)"
      "restored = the (m_originalParentInstanceId m)"
    by (auto simp: revert_parent_act_def Let_def simp del: truthy_str_simps split: option.splits if_splits)
  define f where "f = (\<lambda>m. m\<lparr>m_parentInstanceId := Some restored, m_originalParentInstanceId := None\<rparr> :: network_member)"
  define net3 where "net3 = update_member restored (add_child mid)
    (update_member (g_instanceId cfg) (drop_child mid) (update_member mid f (g_networks cfg ! i)))"
  have cfg': "cfg' = set_network i net3 (cfg\<lparr>g_peerTokens := map_del mid (g_peerTokens cfg)\<rparr>)"
    using act i m by (simp add: revert_parent_act_def Let_def f_def net3_def)
  have id: "m_instanceId (f x) = m_instanceId x" "m_instanceId (drop_child mid x) = m_instanceId x"
    "m_instanceId (add_child mid x) = m_instanceId x" for x
    by (auto simp: f_def drop_child_def add_child_def split: option.splits)
  note upd = member_of_update_member [of f, OF id(1)] member_of_update_member [of "drop_child mid", OF id(2)]
    member_of_update_member [of "add_child mid", OF id(3)]
  let ?net = "g_networks cfg ! i"
  have mid3: "member_of net3 mid = Some (f m)"
    using m(1) other by (simp add: net3_def upd)
  have self3: "member_of net3 (g_instanceId cfg) = map_option (drop_child mid) (member_of ?net (g_instanceId cfg))"
    using other by (simp add: net3_def upd)
  have res3: "member_of net3 restored = map_option (add_child mid) (member_of ?net restored)"
    using other by (simp add: net3_def upd)
  have dropped: "mid \<notin> set cs" if "member_of net3 (g_instanceId cfg) = Some x" "m_children x = Some cs" for x cs
    using that drop_child_children [of mid] by (auto simp: self3)
  have added: "mid \<in> set cs" if "member_of net3 restored = Some x" "m_children x = Some cs" for x cs
    using that add_child_children [of mid] by (auto simp: res3)
  have net: "g_networks cfg' ! i = net3" using network_index_SomeD [OF i] by (simp add: cfg' set_network_def)
  have "m_originalParentInstanceId m = Some restored" using m(2,3) by (auto elim: truthy_strE)
  moreover have "m_parentInstanceId (f m) = Some restored" "m_originalParentInstanceId (f m) = None"
    by (simp_all add: f_def)
  moreover have "map_of (g_peerTokens cfg') mid = None"
    "\<forall>j. j \<noteq> i \<longrightarrow> j < length (g_networks cfg) \<longrightarrow> g_networks cfg' ! j = g_networks cfg ! j"
    by (simp_all add: cfg' set_network_def map_of_map_del)
  ultimately show ?thesis
    using i m(1) mid3 dropped added
    by (intro exI [of _ i] exI [of _ m] exI [of _ "f m"]) (simp only: net simp_thms, blast)
qed

text \<open>A three-node braintree: \<open>self\<close> under \<open>root\<close>, with the child \<open>leaf\<close> adopted from \<open>mid\<close>.\<close>

definition demo_tree :: network where
  "demo_tree = demo_network Braintree
     [demo_member ''root'' None None (Some [''mid'']), demo_member ''mid'' (Some ''root'') None (Some []),
      demo_member ''leaf'' (Some ''self'') (Some ''mid'') None]"

definition demo_config :: config where
  "demo_config = \<lparr>g_instanceId = ''self'', g_instanceLabel = ''Self'', g_networks = [demo_tree],
     g_peerTokens = [(''leaf'', ''tok'')]\<rparr>"

theorem braintree_ancestors_chain_witness:
  "hd (build_braintree_ancestors demo_tree ''self'' ''leaf'') = ''leaf''"
  using braintree_ancestors_chain [of "''leaf''" demo_tree "''self''"] by simp

theorem subtree_is_descendants_witness:
  "\<exists>sub. role_subtree (network_role demo_tree ''self'') = Some sub \<and> set sub \<subseteq> set (n_members demo_tree)"
  using subtree_is_descendants [of demo_tree "''self''"] by (auto simp: demo_tree_def demo_network_def)

theorem revert_parent_restores_witness:
  "\<exists>cfg' i m'. revert_parent_act demo_config ''net'' ''leaf'' = Inr (cfg', Reverted ''leaf'' ''mid'')
     \<and> member_of (g_networks cfg' ! i) ''leaf'' = Some m' \<and> m_parentInstanceId m' = Some ''mid''"
proof -
  obtain cfg' where c: "revert_parent_act demo_config ''net'' ''leaf'' = Inr (cfg', Reverted ''leaf'' ''mid'')"
    by (simp add: revert_parent_act_def demo_config_def network_index_def demo_tree_def demo_network_def
        demo_member_def member_of_def Let_def)
  have "g_instanceId demo_config = ''self''" by (simp add: demo_config_def)
  with revert_parent_restores [OF c] show ?thesis using c by auto
qed

end
