(* ===== verification/Round_Votes.thy ===== *)
theory Round_Votes
  imports Round_State Topology "HOL-Library.List_Lexorder" "HOL-Library.Char_ord"
begin

text \<open>
  Who votes on a round, which casts count and how the round stands: the electorate
  (\<open>server/src/networks/round-electorate.ts\<close>), the signed messages of a cast and the rule that accepts
  or rejects one (\<open>server/src/util/signing.ts\<close>), and the verdict of the five network types
  (\<open>roundVerdict\<close> of \<open>server/src/sync/governance.ts\<close>).  Ed25519 is not modelled: signature checking is
  the argument \<open>verify key message signature\<close>.
\<close>

section \<open>The electorate\<close>

definition subject_is_voted_on :: "vote_round \<Rightarrow> bool" where
  "subject_is_voted_on rd \<longleftrightarrow> r_type rd = Join \<or> r_type rd = Remove"

definition voters_of :: "network \<Rightarrow> vote_round \<Rightarrow> network_member list" where
  "voters_of net rd =
     filter (\<lambda>m. \<not> subject_is_voted_on rd \<or> m_instanceId m \<noteq> r_subjectInstanceId rd) (n_members net)"

definition local_is_voted_on :: "string \<Rightarrow> vote_round \<Rightarrow> bool" where
  "local_is_voted_on self rd \<longleftrightarrow> subject_is_voted_on rd \<and> r_subjectInstanceId rd = self"

definition is_elector :: "network \<Rightarrow> string \<Rightarrow> vote_round \<Rightarrow> string \<Rightarrow> bool" where
  "is_elector net self rd i \<longleftrightarrow>
     (i = self \<and> \<not> local_is_voted_on self rd) \<or> list_ex (\<lambda>m. m_instanceId m = i) (voters_of net rd)"

record electorate =
  eligible :: nat
  yes :: nat
  veto :: nat

definition round_electorate :: "network \<Rightarrow> string \<Rightarrow> vote_round \<Rightarrow> electorate" where
  "round_electorate net self rd =
     (let electors = filter (\<lambda>c. is_elector net self rd (c_instanceId c)) (r_votes rd) in
      \<lparr>eligible = length (voters_of net rd) + (if local_is_voted_on self rd then 0 else 1),
       yes = length (filter (\<lambda>c. c_vote c = Yes) electors),
       veto = length (filter (\<lambda>c. c_vote c = Veto) electors)\<rparr>)"

section \<open>What a cast signs\<close>

fun join_with :: "string \<Rightarrow> string list \<Rightarrow> string" where
  "join_with sep [] = []"
| "join_with sep [x] = x"
| "join_with sep (x # y # xs) = x @ sep @ join_with sep (y # xs)"

fun round_type_text :: "vote_round_type \<Rightarrow> string" where
  "round_type_text Join = ''join''"
| "round_type_text Remove = ''remove''"
| "round_type_text Space_deletion = ''space_deletion''"
| "round_type_text Space_wipe = ''space_wipe''"
| "round_type_text Meta_change = ''meta_change''"
| "round_type_text Space_addition = ''space_addition''"

fun vote_text :: "vote_value \<Rightarrow> string" where
  "vote_text Yes = ''yes''"
| "vote_text Veto = ''veto''"

fun collection_text :: "brain_collection \<Rightarrow> string" where
  "collection_text Entities = ''entities''"
| "collection_text Facts = ''facts''"
| "collection_text Edges = ''edges''"
| "collection_text Chrono = ''chrono''"
| "collection_text Files = ''files''"
| "collection_text Links = ''links''"

definition BRAIN_COLLECTIONS :: "brain_collection list" where
  "BRAIN_COLLECTIONS = [Entities, Facts, Edges, Chrono, Files, Links]"

definition vote_cast_message :: "string \<Rightarrow> vote_round \<Rightarrow> vote_cast \<Rightarrow> string" where
  "vote_cast_message netid rd c =
     join_with ''|'' [''ythril-vote:v1'', netid, r_roundId rd, r_subjectInstanceId rd,
       c_instanceId c, vote_text (c_vote c)]"

definition or_blank :: "string option \<Rightarrow> string" where
  "or_blank s = (case s of None \<Rightarrow> [] | Some t \<Rightarrow> t)"

definition round_target_fields :: "vote_round \<Rightarrow> string list" where
  "round_target_fields rd =
     [round_type_text (r_type rd), or_blank (r_spaceId rd), or_blank (r_networkSpaceId rd),
      join_with '','' (sort (map collection_text (unique (or_empty (r_wipeTypes rd)))))]"

definition vote_cast_bound_message :: "string \<Rightarrow> vote_round \<Rightarrow> vote_cast \<Rightarrow> string" where
  "vote_cast_bound_message netid rd c =
     join_with ''|'' ([''ythril-vote:v2'', netid, r_roundId rd, r_subjectInstanceId rd,
       c_instanceId c, vote_text (c_vote c)] @ round_target_fields rd)"

text \<open>A cast as it is stored and served: an empty signature is left out.\<close>

definition cast_for_wire :: "vote_cast \<Rightarrow> vote_cast" where
  "cast_for_wire c = c\<lparr>c_sig := (if truthy_str (c_sig c) then c_sig c else None),
                       c_bsig := (if truthy_str (c_bsig c) then c_bsig c else None)\<rparr>"

section \<open>Which casts are accepted\<close>

type_synonym verifier = "string \<Rightarrow> string \<Rightarrow> string \<Rightarrow> bool"

definition BOUND_CASTS_SINCE :: string where
  "BOUND_CASTS_SINCE = ''5.6.0''"

definition verify_message :: "verifier \<Rightarrow> string \<Rightarrow> string \<Rightarrow> string \<Rightarrow> bool" where
  "verify_message verify pub msg sg \<longleftrightarrow> pub \<noteq> [] \<and> sg \<noteq> [] \<and> verify pub msg sg"

text \<open>The instance as the vote code sees itself: its id and its published key.\<close>

record self_identity =
  s_instanceId :: string
  s_signingPublicKey :: "string option"

definition voter_public_key :: "self_identity \<Rightarrow> network \<Rightarrow> string \<Rightarrow> string option" where
  "voter_public_key me net voter =
     (if voter = s_instanceId me then s_signingPublicKey me
      else Option.bind (member_of net voter) m_signingPublicKey)"

definition voter_signs_bound :: "self_identity \<Rightarrow> network \<Rightarrow> string \<Rightarrow> bool" where
  "voter_signs_bound me net voter =
     (if voter = s_instanceId me then True
      else peer_runs_at_least (Option.bind (member_of net voter) m_version) BOUND_CASTS_SINCE)"

definition is_vote_cast_signature_valid ::
  "verifier \<Rightarrow> self_identity \<Rightarrow> network \<Rightarrow> vote_round \<Rightarrow> vote_cast \<Rightarrow> bool" where
  "is_vote_cast_signature_valid verify me net rd c =
     (if \<not> truthy_str (c_sig c) then False
      else let pub = voter_public_key me net (c_instanceId c) in
      if \<not> truthy_str pub then False
      else if truthy_str (c_bsig c)
        then verify_message verify (the pub) (vote_cast_bound_message (n_id net) rd c) (the (c_bsig c))
      else if voter_signs_bound me net (c_instanceId c) then False
      else verify_message verify (the pub) (vote_cast_message (n_id net) rd c) (the (c_sig c)))"

datatype cast_decision = Accept | Reject_unsigned_required | Reject_relayed

definition accept_vote_cast ::
  "verifier \<Rightarrow> self_identity \<Rightarrow> network \<Rightarrow> vote_round \<Rightarrow> vote_cast \<Rightarrow> string option \<Rightarrow> cast_decision" where
  "accept_vote_cast verify me net rd c reporter =
     (if is_vote_cast_signature_valid verify me net rd c then Accept
      else if n_requireSignedVotes net then Reject_unsigned_required
      else if truthy_str reporter \<and> c_instanceId c = the reporter then Accept
      else Reject_relayed)"

section \<open>Pinned signing keys\<close>

record key_rotation =
  k_previousPublicKey :: string
  k_proof :: string

definition key_rotation_message :: "string \<Rightarrow> string \<Rightarrow> string" where
  "key_rotation_message i newkey = join_with ''|'' [''ythril-keyrot:v1'', i, newkey]"

definition is_valid_key_rotation ::
  "verifier \<Rightarrow> string \<Rightarrow> string \<Rightarrow> string \<Rightarrow> key_rotation option \<Rightarrow> bool" where
  "is_valid_key_rotation verify i current newkey rotation =
     (case rotation of
        None \<Rightarrow> False
      | Some k \<Rightarrow> k_previousPublicKey k = current
          \<and> verify_message verify current (key_rotation_message i newkey) (k_proof k))"

definition pin_member_signing_key ::
  "verifier \<Rightarrow> network_member \<Rightarrow> string option \<Rightarrow> key_rotation option \<Rightarrow> bool \<times> network_member" where
  "pin_member_signing_key verify m incoming rotation =
     (if \<not> truthy_str incoming then (False, m)
      else if \<not> truthy_str (m_signingPublicKey m) then (True, m\<lparr>m_signingPublicKey := incoming\<rparr>)
      else if m_signingPublicKey m = incoming then (False, m)
      else if is_valid_key_rotation verify (m_instanceId m) (the (m_signingPublicKey m)) (the incoming) rotation
        then (True, m\<lparr>m_signingPublicKey := incoming\<rparr>)
      else (False, m))"

section \<open>The verdict\<close>

definition voted_yes :: "vote_round \<Rightarrow> string \<Rightarrow> bool" where
  "voted_yes rd i \<longleftrightarrow> list_ex (\<lambda>c. c_instanceId c = i \<and> c_vote c = Yes) (r_votes rd)"

definition veto_count :: "vote_round \<Rightarrow> nat" where
  "veto_count rd = length (filter (\<lambda>v. c_vote v = Veto) (r_votes rd))"

definition yes_count :: "vote_round \<Rightarrow> nat" where
  "yes_count rd = length (filter (\<lambda>v. c_vote v = Yes) (r_votes rd))"

definition local_braintree_required_voters :: "network \<Rightarrow> string \<Rightarrow> vote_round \<Rightarrow> string list option" where
  "local_braintree_required_voters net self rd =
     (if r_type rd \<noteq> Join \<and> r_type rd \<noteq> Remove then None
      else case or_empty (r_requiredVoters rd) of
        [] \<Rightarrow> None
      | anchor # _ \<Rightarrow> if anchor = [] then None else Some (build_braintree_ancestors net self anchor))"

definition every_member_voted_yes :: "network \<Rightarrow> string \<Rightarrow> vote_round \<Rightarrow> bool" where
  "every_member_voted_yes net self rd =
     (let voters = voters_of net rd;
          local = voted_yes rd self;
          remote = (if voters = [] then local else list_all (\<lambda>m. voted_yes rd (m_instanceId m)) voters)
      in remote \<and> (local \<or> local_is_voted_on self rd))"

definition carried :: "network \<Rightarrow> string \<Rightarrow> vote_round \<Rightarrow> bool" where
  "carried net self rd =
     (case n_type net of
        Closed \<Rightarrow> every_member_voted_yes net self rd
      | Braintree \<Rightarrow>
          (case local_braintree_required_voters net self rd of
             Some (a # as) \<Rightarrow>
               list_all (\<lambda>i. voted_yes rd i) (filter (\<lambda>i. i \<noteq> r_subjectInstanceId rd) (a # as))
           | _ \<Rightarrow> every_member_voted_yes net self rd)
      | Democratic \<Rightarrow> (let e = round_electorate net self rd in eligible e < 2 * yes e)
      | Club \<Rightarrow> 1 \<le> yes_count rd \<and> veto_count rd = 0
      | Pubsub \<Rightarrow> 1 \<le> yes_count rd \<and> veto_count rd = 0
          \<and> \<not> (is_space_act_round (r_type rd) \<and> publishes_on net self \<and> r_proposedHere rd \<noteq> Some True))"

definition round_verdict :: "network \<Rightarrow> string \<Rightarrow> vote_round \<Rightarrow> int \<Rightarrow> round_outcome option" where
  "round_verdict net self rd now =
     (if 0 < veto_count rd then Some Vetoed
      else if round_past_deadline rd now then Some Expired
      else if carried net self rd then Some Passed
      else None)"

text \<open>The forecast: the same verdict on an unsigned scratch round carrying this instance's yes alone.\<close>

definition scratch_round :: "config \<Rightarrow> int \<Rightarrow> vote_round" where
  "scratch_round cfg now = \<lparr>r_roundId = ''forecast'', r_type = Space_wipe,
     r_subjectInstanceId = g_instanceId cfg, r_subjectLabel = g_instanceLabel cfg, r_subjectUrl = [],
     r_deadline = Some (At (now + 3600000)), r_openedAt = Some (At now),
     r_votes = [\<lparr>c_instanceId = g_instanceId cfg, c_vote = Yes, c_castAt = Some (At now), c_sig = None, c_bsig = None\<rparr>],
     r_inviteKeyHash = None, r_concluded = None, r_passed = None, r_pendingMember = None,
     r_spaceId = None, r_networkSpaceId = None, r_wipeTypes = None, r_appliedHere = None,
     r_proposedHere = Some True, r_outcome = None, r_concludedAt = None, r_refusedHere = None,
     r_actLocalId = None, r_peersConcluded = None, r_requiredVoters = None\<rparr>"

definition own_yes_carries :: "network \<Rightarrow> config \<Rightarrow> int \<Rightarrow> bool" where
  "own_yes_carries net cfg now \<longleftrightarrow>
     round_verdict net (g_instanceId cfg) (scratch_round cfg now) now = Some Passed"

section \<open>Lemmas: messages\<close>

lemma split_on_nonempty: "split_on c xs \<noteq> []"
  by (induction xs) (auto split: list.splits)

lemma split_on_append:
  "c \<notin> set x \<Longrightarrow> split_on c (x @ c # rest) = x # split_on c rest"
  by (induction x) auto

lemma split_on_free: "c \<notin> set x \<Longrightarrow> split_on c x = [x]"
  by (induction x) auto

lemma split_on_join:
  "xs \<noteq> [] \<Longrightarrow> list_all (\<lambda>x. c \<notin> set x) xs \<Longrightarrow> split_on c (join_with [c] xs) = xs"
  by (induction "[c]" xs rule: join_with.induct) (auto simp: split_on_append split_on_free)

lemma join_with_inject:
  assumes "list_all (\<lambda>x. c \<notin> set x) xs" "list_all (\<lambda>x. c \<notin> set x) ys" "xs \<noteq> []" "ys \<noteq> []"
    and "join_with [c] xs = join_with [c] ys"
  shows "xs = ys"
  using assms split_on_join by metis

lemma collection_text_inj: "collection_text x = collection_text y \<Longrightarrow> x = y"
  by (cases x; cases y) auto

lemma collection_text_word: "collection_text x \<noteq> [] \<and> CHR '','' \<notin> set (collection_text x) \<and> CHR ''|'' \<notin> set (collection_text x)"
  by (cases x) auto

lemma collection_text_ne: "collection_text x \<noteq> []" "[] \<noteq> collection_text x"
  by (cases x; simp)+

lemma round_type_text_inj: "round_type_text x = round_type_text y \<Longrightarrow> x = y"
  by (cases x; cases y) auto

lemma vote_text_inj: "vote_text x = vote_text y \<Longrightarrow> x = y"
  by (cases x; cases y) auto

definition wipe_text :: "brain_collection list \<Rightarrow> string" where
  "wipe_text ts = join_with '','' (sort (map collection_text (unique ts)))"

lemma wipe_text_inject:
  assumes "wipe_text ts = wipe_text us"
  shows "set ts = set us"
proof -
  let ?f = "\<lambda>xs. sort (map collection_text (unique xs))"
  have free: "list_all (\<lambda>x. CHR '','' \<notin> set x) (?f xs)" "[] \<notin> set (?f xs)" for xs
    by (auto simp: list_all_iff collection_text_word collection_text_ne)
  have ne: "join_with '','' (?f xs) = [] \<longleftrightarrow> ?f xs = []" for xs
  proof (cases "?f xs = []")
    case True
    then show ?thesis by simp
  next
    case False
    with split_on_join [OF False free(1)] free(2) [of xs] show ?thesis by (metis list.set_intros(1) split_on.simps(1))
  qed
  have "?f ts = ?f us"
    using assms join_with_inject [OF free(1) free(1), of ts us] ne [of ts] ne [of us]
    unfolding wipe_text_def by metis
  then have "set (map collection_text (unique ts)) = set (map collection_text (unique us))"
    by (metis set_sort)
  then have "collection_text ` set ts = collection_text ` set us" by simp
  then show ?thesis using collection_text_inj by blast
qed

lemma wipe_text_set:
  assumes "set ts = set us"
  shows "wipe_text ts = wipe_text us"
proof -
  have inj: "inj_on collection_text A" for A using collection_text_inj by (auto intro: inj_onI)
  have "sort (map collection_text (unique ts)) = sort (map collection_text (unique us))"
    by (rule sorted_distinct_set_unique) (use assms inj in \<open>auto simp: distinct_map\<close>)
  then show ?thesis by (simp add: wipe_text_def)
qed

lemma round_target_fields_wipe:
  "round_target_fields rd = [round_type_text (r_type rd), or_blank (r_spaceId rd), or_blank (r_networkSpaceId rd),
     wipe_text (or_empty (r_wipeTypes rd))]"
  by (simp add: round_target_fields_def wipe_text_def)

lemma set_join_with: "set (join_with sep xs) \<subseteq> set sep \<union> \<Union> (set ` set xs)"
  by (induction sep xs rule: join_with.induct) auto

lemma wipe_text_free: "CHR ''|'' \<notin> set (wipe_text ts)"
proof
  assume "CHR ''|'' \<in> set (wipe_text ts)"
  then have "CHR ''|'' \<in> \<Union> (set ` set (map collection_text (unique ts)))"
    using set_join_with [of "'',''" "sort (map collection_text (unique ts))"] by (auto simp: wipe_text_def)
  then show False using collection_text_word by auto
qed

definition bar_free :: "string \<Rightarrow> bool" where
  "bar_free s \<longleftrightarrow> CHR ''|'' \<notin> set s"

definition message_fields_ok :: "string \<Rightarrow> vote_round \<Rightarrow> vote_cast \<Rightarrow> bool" where
  "message_fields_ok netid rd c \<longleftrightarrow> bar_free netid \<and> bar_free (r_roundId rd) \<and> bar_free (r_subjectInstanceId rd)
     \<and> bar_free (c_instanceId c) \<and> bar_free (or_blank (r_spaceId rd)) \<and> bar_free (or_blank (r_networkSpaceId rd))"

lemma type_text_free: "bar_free (round_type_text t)" "bar_free (vote_text v)" "bar_free (wipe_text ts)"
  using wipe_text_free by (cases t; cases v; simp add: bar_free_def)+

definition bound_fields :: "string \<Rightarrow> vote_round \<Rightarrow> vote_cast \<Rightarrow> string list" where
  "bound_fields netid rd c = [''ythril-vote:v2'', netid, r_roundId rd, r_subjectInstanceId rd,
       c_instanceId c, vote_text (c_vote c)] @ round_target_fields rd"

lemma bound_fields_free:
  "message_fields_ok netid rd c \<Longrightarrow> list_all (\<lambda>x. CHR ''|'' \<notin> set x) (bound_fields netid rd c)"
  using type_text_free(1) [of "r_type rd"] type_text_free(2) [of "c_vote c"]
    type_text_free(3) [of "or_empty (r_wipeTypes rd)"]
  by (simp add: bound_fields_def round_target_fields_wipe message_fields_ok_def bar_free_def)

section \<open>Lemmas: the electorate and the verdict\<close>

definition distinct_casts :: "vote_round \<Rightarrow> bool" where
  "distinct_casts rd \<longleftrightarrow> distinct (map c_instanceId (r_votes rd))"

definition electors :: "network \<Rightarrow> string \<Rightarrow> vote_round \<Rightarrow> string set" where
  "electors net self rd = {i. is_elector net self rd i}"

definition network_ok :: "network \<Rightarrow> string \<Rightarrow> bool" where
  "network_ok net self \<longleftrightarrow> distinct (map m_instanceId (n_members net)) \<and> \<not> is_member net self"

definition still_votable :: "vote_round \<Rightarrow> int \<Rightarrow> bool" where
  "still_votable rd now \<longleftrightarrow> (\<forall>c \<in> set (r_votes rd). c_vote c \<noteq> Veto) \<and> \<not> round_past_deadline rd now"

lemma veto_count_zero: "veto_count rd = 0 \<longleftrightarrow> (\<forall>c \<in> set (r_votes rd). c_vote c \<noteq> Veto)"
  by (simp add: veto_count_def filter_empty_conv)

lemma verdict_passed_iff:
  "round_verdict net self rd now = Some Passed \<longleftrightarrow> still_votable rd now \<and> carried net self rd"
  by (simp add: round_verdict_def still_votable_def flip: veto_count_zero)

lemma voted_yes_iff: "voted_yes rd i \<longleftrightarrow> (\<exists>c \<in> set (r_votes rd). c_instanceId c = i \<and> c_vote c = Yes)"
  by (simp add: voted_yes_def list_ex_iff)

lemma every_member_voted_yes_iff:
  "every_member_voted_yes net self rd \<longleftrightarrow>
     (\<forall>m \<in> set (voters_of net rd). voted_yes rd (m_instanceId m))
     \<and> (voted_yes rd self \<or> local_is_voted_on self rd \<and> voters_of net rd \<noteq> [])"
  by (auto simp: every_member_voted_yes_def Let_def list_all_iff)

lemma electors_eq:
  "electors net self rd = (if local_is_voted_on self rd then {} else {self}) \<union> m_instanceId ` set (voters_of net rd)"
  by (auto simp: electors_def is_elector_def list_ex_iff)

lemma card_electors:
  assumes "network_ok net self"
  shows "card (electors net self rd) = eligible (round_electorate net self rd)"
proof -
  have "distinct (map m_instanceId (voters_of net rd))"
    using assms by (simp add: voters_of_def network_ok_def distinct_map_filter)
  then have c: "card (m_instanceId ` set (voters_of net rd)) = length (voters_of net rd)"
    by (metis distinct_card length_map set_map)
  have "self \<notin> m_instanceId ` set (voters_of net rd)"
    using assms by (auto simp: voters_of_def network_ok_def is_member_def)
  with c show ?thesis by (simp add: electors_eq round_electorate_def Let_def)
qed

lemma card_yes_electors:
  assumes "distinct_casts rd"
  shows "card {i \<in> electors net self rd. voted_yes rd i} = yes (round_electorate net self rd)"
proof -
  let ?cs = "filter (\<lambda>c. c_vote c = Yes) (filter (\<lambda>c. is_elector net self rd (c_instanceId c)) (r_votes rd))"
  have "{i \<in> electors net self rd. voted_yes rd i} = set (map c_instanceId ?cs)"
    by (auto simp: electors_def voted_yes_iff)
  moreover have "distinct (map c_instanceId ?cs)"
    using assms by (simp add: distinct_casts_def distinct_map_filter)
  ultimately have "card {i \<in> electors net self rd. voted_yes rd i} = length (map c_instanceId ?cs)"
    by (simp only: distinct_card)
  then show ?thesis by (simp add: round_electorate_def Let_def)
qed

lemma voted_yes_append: "voted_yes (rd\<lparr>r_votes := r_votes rd @ [c]\<rparr>) i \<longleftrightarrow>
    voted_yes rd i \<or> c_instanceId c = i \<and> c_vote c = Yes"
  by (auto simp: voted_yes_def)

lemma yes_vote_frame [frame]:
  "voters_of net (rd\<lparr>r_votes := vs\<rparr>) = voters_of net rd"
  "local_is_voted_on self (rd\<lparr>r_votes := vs\<rparr>) = local_is_voted_on self rd"
  "is_elector net self (rd\<lparr>r_votes := vs\<rparr>) = is_elector net self rd"
  "local_braintree_required_voters net self (rd\<lparr>r_votes := vs\<rparr>) = local_braintree_required_voters net self rd"
  "round_past_deadline (rd\<lparr>r_votes := vs\<rparr>) now = round_past_deadline rd now"
  by (simp_all add: voters_of_def subject_is_voted_on_def local_is_voted_on_def is_elector_def fun_eq_iff
      local_braintree_required_voters_def round_past_deadline_def)

lemma carried_yes_mono:
  assumes "carried net self rd" and "c_vote c = Yes"
  shows "carried net self (rd\<lparr>r_votes := r_votes rd @ [c]\<rparr>)"
proof -
  let ?rd = "rd\<lparr>r_votes := r_votes rd @ [c]\<rparr>"
  have every: "every_member_voted_yes net self rd \<Longrightarrow> every_member_voted_yes net self ?rd"
    by (auto simp: every_member_voted_yes_iff frame voted_yes_append)
  have elect: "yes (round_electorate net self rd) \<le> yes (round_electorate net self ?rd)"
    "eligible (round_electorate net self ?rd) = eligible (round_electorate net self rd)"
    by (simp_all add: round_electorate_def Let_def frame)
  have tree: "list_all (voted_yes rd) xs \<Longrightarrow> list_all (voted_yes ?rd) xs" for xs
    by (simp add: list_all_iff voted_yes_append)
  show ?thesis
  proof (cases "n_type net")
    case Braintree
    with assms(1) every tree show ?thesis
      unfolding carried_def frame by (auto split: option.splits list.splits simp del: list.pred_inject)
  next
    case Democratic
    with assms(1) elect show ?thesis by (simp add: carried_def Let_def)
  qed (use assms every in \<open>simp_all add: carried_def yes_count_def veto_count_def\<close>)
qed

lemma filter_neq_single: "distinct xs \<Longrightarrow> xs \<noteq> [] \<Longrightarrow> filter (\<lambda>i. i \<noteq> a) xs = [] \<longleftrightarrow> xs = [a]"
  by (cases xs; cases "tl xs") auto

section \<open>Properties\<close>

text \<open>
  On a closed network a round passes exactly when no veto stands, its deadline has not
  gone by, every member that votes has said yes, and this instance has too (unless the round is about
  it and someone else voted): an adopted round with nobody's word on it never passes here.
\<close>

theorem closed_passes_iff_unanimous:
  assumes "n_type net = Closed"
  shows "round_verdict net self rd now = Some Passed \<longleftrightarrow>
     still_votable rd now
     \<and> (\<forall>m \<in> set (n_members net).
          (subject_is_voted_on rd \<longrightarrow> m_instanceId m \<noteq> r_subjectInstanceId rd) \<longrightarrow> voted_yes rd (m_instanceId m))
     \<and> (voted_yes rd self \<or> local_is_voted_on self rd \<and> voters_of net rd \<noteq> [])"
  using assms
  by (auto simp: verdict_passed_iff carried_def every_member_voted_yes_iff voters_of_def)

text \<open>
  Property C13: on a democratic network a round that holds one cast per voter passes exactly when nobody
  vetoed it, its deadline is not past, and more than half of everyone who may vote (this instance included
  unless the round is about it) said yes. A yes of someone who may not vote does not count; a veto counts
  from anyone.
\<close>

theorem democratic_passes_iff_majority:
  assumes "n_type net = Democratic" "network_ok net self" "distinct_casts rd"
  shows "round_verdict net self rd now = Some Passed \<longleftrightarrow>
     still_votable rd now
     \<and> card (electors net self rd) < 2 * card {i \<in> electors net self rd. voted_yes rd i}"
  using assms card_electors [OF assms(2), of rd] card_yes_electors [OF assms(3), of net self]
  by (simp add: verdict_passed_iff carried_def Let_def)

text \<open>
  A further yes never takes back a passed verdict, whatever the network's type, so the
  order in which gossip delivers the yeses of a round does not decide it.
\<close>

theorem yes_never_unpasses:
  assumes "round_verdict net self rd now = Some Passed" and "c_vote c = Yes"
  shows "round_verdict net self (rd\<lparr>r_votes := r_votes rd @ [c]\<rparr>) now = Some Passed"
  using assms carried_yes_mono [of net self rd c]
  by (auto simp: verdict_passed_iff still_votable_def frame)

text \<open>
  Property C40: on a braintree network a join or removal that names a first required voter and on which
  nobody has voted passes exactly when its deadline is not past and the locally recomputed ancestor chain of
  that voter is the subject alone: the anchor is the subject and no parent of it is known here.
\<close>

theorem braintree_no_votes_passes_iff:
  assumes "n_type net = Braintree" "subject_is_voted_on rd" "r_votes rd = []"
    and "r_requiredVoters rd = Some (anchor # rest)" "anchor \<noteq> []"
  shows "round_verdict net self rd now = Some Passed \<longleftrightarrow>
     \<not> round_past_deadline rd now \<and> build_braintree_ancestors net self anchor = [r_subjectInstanceId rd]"
proof -
  let ?path = "build_braintree_ancestors net self anchor"
  note path = ancestors_nonempty [OF assms(5), of net self] ancestors_distinct [of net self anchor]
  have "local_braintree_required_voters net self rd = Some ?path"
    using assms(2,4,5) by (auto simp: local_braintree_required_voters_def subject_is_voted_on_def)
  moreover have "list_all (voted_yes rd) xs \<longleftrightarrow> xs = []" for xs
    using assms(3) by (cases xs) (simp_all add: voted_yes_def)
  moreover have "filter (\<lambda>i. i \<noteq> r_subjectInstanceId rd) ?path = [] \<longleftrightarrow> ?path = [r_subjectInstanceId rd]"
    using path(2,1) by (rule filter_neq_single)
  ultimately show ?thesis
    using assms(1,3) path(1) by (cases ?path) (auto simp: verdict_passed_iff carried_def still_votable_def)
qed

text \<open>
  The message a bound signature covers determines the network, the round, its subject,
  the voter, the vote and what the round acts on, and it is never the message of the older unbound
  signature: a signed cast cannot be replayed on another round or read as another vote.
\<close>

theorem bound_message_determines_cast:
  assumes "message_fields_ok n rd c" "message_fields_ok n' rd' c'"
    and "vote_cast_bound_message n rd c = vote_cast_bound_message n' rd' c'"
  shows "n = n' \<and> r_roundId rd = r_roundId rd' \<and> r_subjectInstanceId rd = r_subjectInstanceId rd'
     \<and> c_instanceId c = c_instanceId c' \<and> c_vote c = c_vote c' \<and> r_type rd = r_type rd'
     \<and> or_blank (r_spaceId rd) = or_blank (r_spaceId rd')
     \<and> or_blank (r_networkSpaceId rd) = or_blank (r_networkSpaceId rd')
     \<and> set (or_empty (r_wipeTypes rd)) = set (or_empty (r_wipeTypes rd'))"
proof -
  have msg: "vote_cast_bound_message m r d = join_with ''|'' (bound_fields m r d)" for m r d
    by (simp only: vote_cast_bound_message_def bound_fields_def)
  have "bound_fields n rd c = bound_fields n' rd' c'"
    by (rule join_with_inject [OF bound_fields_free [OF assms(1)] bound_fields_free [OF assms(2)]])
      (use assms(3) in \<open>simp_all only: msg\<close>, simp_all add: bound_fields_def)
  then have eqs: "n = n'" "r_roundId rd = r_roundId rd'" "r_subjectInstanceId rd = r_subjectInstanceId rd'"
      "c_instanceId c = c_instanceId c'" "or_blank (r_spaceId rd) = or_blank (r_spaceId rd')"
      "or_blank (r_networkSpaceId rd) = or_blank (r_networkSpaceId rd')"
    and texts: "vote_text (c_vote c) = vote_text (c_vote c')"
      "round_type_text (r_type rd) = round_type_text (r_type rd')"
      "wipe_text (or_empty (r_wipeTypes rd)) = wipe_text (or_empty (r_wipeTypes rd'))"
    unfolding bound_fields_def round_target_fields_wipe by simp_all
  from vote_text_inj [OF texts(1)] round_type_text_inj [OF texts(2)] wipe_text_inject [OF texts(3)] eqs
  show ?thesis by blast
qed

section \<open>Witnesses\<close>

definition demo_cast :: "string \<Rightarrow> vote_value \<Rightarrow> vote_cast" where
  "demo_cast i v = \<lparr>c_instanceId = i, c_vote = v, c_castAt = Some (At 5), c_sig = None, c_bsig = None\<rparr>"

definition demo_round :: "vote_round_type \<Rightarrow> string \<Rightarrow> vote_cast list \<Rightarrow> vote_round" where
  "demo_round t subj vs = \<lparr>r_roundId = ''r1'', r_type = t, r_subjectInstanceId = subj,
     r_subjectLabel = ''S'', r_subjectUrl = ''u'', r_deadline = Some (At 100), r_openedAt = Some (At 0),
     r_votes = vs, r_inviteKeyHash = None, r_concluded = None, r_passed = None, r_pendingMember = None,
     r_spaceId = Some ''acme'', r_networkSpaceId = Some ''work'', r_wipeTypes = None, r_appliedHere = None,
     r_proposedHere = None, r_outcome = None, r_concludedAt = None, r_refusedHere = None,
     r_actLocalId = None, r_peersConcluded = None, r_requiredVoters = Some [subj]\<rparr>"

lemmas demo_simps = demo_cast_def demo_round_def demo_network_def demo_member_def
  still_votable_def round_past_deadline_def voters_of_def subject_is_voted_on_def voted_yes_def

definition demo_pair :: "network_type \<Rightarrow> network" where
  "demo_pair t = demo_network t [demo_member ''a'' None None None, demo_member ''b'' None None None]"

theorem closed_passes_iff_unanimous_witness:
  "round_verdict (demo_pair Closed) ''self''
     (demo_round Meta_change ''a'' [demo_cast ''a'' Yes, demo_cast ''b'' Yes, demo_cast ''self'' Yes]) 50 = Some Passed"
  by (subst closed_passes_iff_unanimous) (simp_all add: demo_pair_def demo_simps)

theorem democratic_passes_iff_majority_witness:
  "round_verdict (demo_pair Democratic) ''self''
     (demo_round Meta_change ''a'' [demo_cast ''a'' Yes, demo_cast ''self'' Yes]) 50 = Some Passed"
proof -
  let ?rd = "demo_round Meta_change ''a'' [demo_cast ''a'' Yes, demo_cast ''self'' Yes]"
  have e: "electors (demo_pair Democratic) ''self'' ?rd = {''self'', ''a'', ''b''}"
    by (auto simp: electors_eq local_is_voted_on_def demo_pair_def demo_simps)
  have y: "{i \<in> {''self'', ''a'', ''b''}. voted_yes ?rd i} = {''self'', ''a''}"
    by (auto simp: demo_simps)
  have major: "card (electors (demo_pair Democratic) ''self'' ?rd)
      < 2 * card {i \<in> electors (demo_pair Democratic) ''self'' ?rd. voted_yes ?rd i}"
    unfolding e y by simp
  have votable: "still_votable ?rd 50" by (simp add: demo_simps)
  show ?thesis
    by (rule iffD2 [OF democratic_passes_iff_majority conjI [OF votable major]])
      (simp_all add: demo_pair_def demo_simps network_ok_def is_member_def distinct_casts_def)
qed

theorem yes_never_unpasses_witness:
  "round_verdict (demo_pair Club) ''self'' (demo_round Meta_change ''a'' [demo_cast ''a'' Yes, demo_cast ''b'' Yes]) 50
     = Some Passed"
  using yes_never_unpasses [of "demo_pair Club" "''self''" "demo_round Meta_change ''a'' [demo_cast ''a'' Yes]" 50 "demo_cast ''b'' Yes"]
  by (simp add: verdict_passed_iff carried_def yes_count_def veto_count_def demo_pair_def demo_simps)

theorem braintree_no_votes_passes_iff_witness:
  "round_verdict (demo_pair Braintree) ''self'' (demo_round Remove ''a'' []) 50 = Some Passed"
  by (subst braintree_no_votes_passes_iff [where anchor = "''a''" and rest = "[]"])
    (simp_all add: demo_pair_def demo_simps build_braintree_ancestors_def ancestors_walk.simps member_of_def)

theorem bound_message_determines_cast_witness:
  "c_vote (demo_cast ''a'' Yes) = c_vote (demo_cast ''a'' Yes)"
proof -
  let ?rd = "demo_round Space_deletion ''a'' []" and ?c = "demo_cast ''a'' Yes"
  have ok: "message_fields_ok ''net'' ?rd ?c"
    by (simp add: message_fields_ok_def bar_free_def demo_simps or_blank_def)
  show ?thesis using bound_message_determines_cast [OF ok ok refl] by blast
qed

end
