(* ===== verification/Backoff.thy ===== *)
theory Backoff
  imports Prelude
begin

text \<open>
  Retry delays: the nominal exponential backoff and its jitter (\<open>server/src/util/backoff.ts\<close>) and the
  endpoint cooldown built on it (\<open>server/src/util/endpoint-cooldown.ts\<close>).  A JavaScript number is
  \<open>Fin x\<close>, an infinity or \<open>NaN\<close>; the random source is an argument in \<open>[0, 1)\<close>.  The lemmas bound every delay by its cap
  from above and by half the nominal from below, and show the nominal never shrinks as attempts go on.
\<close>

datatype number = Fin rat | Pos_inf | Neg_inf | NaN

fun is_finite_num :: "number \<Rightarrow> bool" where
  "is_finite_num (Fin x) = True"
| "is_finite_num _ = False"

section \<open>The nominal delay\<close>

text \<open>
  Attempts are counted in whole numbers.  The exponent: a positive attempt counts up to 50, an
  infinite one is 50, anything else is 0.
\<close>

datatype attempt = Attempt int | Attempt_infinite | Attempt_nan

fun backoff_exponent :: "attempt \<Rightarrow> nat" where
  "backoff_exponent (Attempt a) = (if 0 < a then nat (min a 50) else 0)"
| "backoff_exponent Attempt_infinite = 50"
| "backoff_exponent Attempt_nan = 0"

definition nominal_backoff_ms :: "attempt \<Rightarrow> number \<Rightarrow> number \<Rightarrow> rat" where
  "nominal_backoff_ms attempt base cap =
     (case base of
        Fin b \<Rightarrow>
          if b \<le> 0 then 0
          else let nominal = b * 2 ^ backoff_exponent attempt in
            (case cap of Fin c \<Rightarrow> if 0 < c then min nominal c else nominal | _ \<Rightarrow> nominal)
      | _ \<Rightarrow> 0)"

text \<open>\<open>Math.round(x)\<close> of a rational: half rounds up.\<close>

definition js_round :: "rat \<Rightarrow> int" where
  "js_round x = \<lfloor>x + 1 / 2\<rfloor>"

definition with_jitter :: "rat \<Rightarrow> rat \<Rightarrow> int" where
  "with_jitter delay r = (if delay \<le> 0 then 0 else js_round (delay / 2 + r * (delay / 2)))"

definition backoff_delay_ms :: "attempt \<Rightarrow> number \<Rightarrow> number \<Rightarrow> rat \<Rightarrow> int" where
  "backoff_delay_ms attempt base cap r = with_jitter (nominal_backoff_ms attempt base cap) r"

section \<open>The endpoint cooldown\<close>

record cooldown =
  downUntil :: "rat option"
  streak :: nat

definition new_cooldown :: cooldown where
  "new_cooldown = \<lparr>downUntil = None, streak = 0\<rparr>"

definition endpoint_unavailable :: "int option \<Rightarrow> bool" where
  "endpoint_unavailable status =
     (case status of None \<Rightarrow> True
      | Some s \<Rightarrow> s = 429 \<or> s = 529 \<or> s = 402 \<or> 500 \<le> s)"

definition cooling_down :: "cooldown \<Rightarrow> rat \<Rightarrow> bool" where
  "cooling_down c now = (case downUntil c of None \<Rightarrow> False | Some t \<Rightarrow> now < t)"

definition cooldown_failed :: "number \<Rightarrow> number \<Rightarrow> rat \<Rightarrow> cooldown \<Rightarrow> cooldown" where
  "cooldown_failed base cap now c =
     (let ms = nominal_backoff_ms (Attempt (int (streak c))) base cap
      in c\<lparr>streak := Suc (streak c), downUntil := Some (now + ms)\<rparr>)"

definition cooldown_succeeded :: "cooldown \<Rightarrow> cooldown" where
  "cooldown_succeeded c = c\<lparr>downUntil := None, streak := 0\<rparr>"

fun failures :: "number \<Rightarrow> number \<Rightarrow> rat list \<Rightarrow> cooldown \<Rightarrow> cooldown" where
  "failures base cap [] c = c"
| "failures base cap (t # ts) c = failures base cap ts (cooldown_failed base cap t c)"

section \<open>Lemmas\<close>

lemma backoff_exponent_le: "backoff_exponent a \<le> 50"
  by (cases a) auto

lemma backoff_exponent_nat [simp]: "backoff_exponent (Attempt (int n)) = min n 50"
  by auto

lemma nominal_nonneg: "0 \<le> nominal_backoff_ms a b c"
  by (auto simp: nominal_backoff_ms_def Let_def split: number.splits)

lemma nominal_le_cap: "0 < c \<Longrightarrow> nominal_backoff_ms a b (Fin c) \<le> c"
  by (auto simp: nominal_backoff_ms_def Let_def split: number.splits)

lemma nominal_mono:
  assumes "backoff_exponent a \<le> backoff_exponent a'"
  shows "nominal_backoff_ms a b c \<le> nominal_backoff_ms a' b c"
proof (cases b)
  case (Fin x)
  show ?thesis
  proof (cases "x \<le> 0")
    case False
    have "(2 :: rat) ^ backoff_exponent a \<le> 2 ^ backoff_exponent a'"
      by (rule power_increasing [OF assms]) simp
    then have "x * 2 ^ backoff_exponent a \<le> x * 2 ^ backoff_exponent a'"
      using False by (intro mult_left_mono) auto
    then show ?thesis
      by (auto simp: nominal_backoff_ms_def Fin Let_def min_le_iff_disj split: number.splits)
  qed (simp add: nominal_backoff_ms_def Fin)
qed (simp_all add: nominal_backoff_ms_def)

lemma js_round_bounds: "x - 1 / 2 < of_int (js_round x)" "of_int (js_round x) \<le> x + 1 / 2"
  unfolding js_round_def by linarith+

section \<open>Properties\<close>

lemma backoff_within:
  assumes "0 \<le> r" "r < 1" and "0 < cap"
  shows "of_int (backoff_delay_ms a b (Fin cap) r) \<le> cap + 1 / 2
     \<and> nominal_backoff_ms a b (Fin cap) / 2 - 1 / 2 \<le> of_int (backoff_delay_ms a b (Fin cap) r)
     \<and> 0 \<le> backoff_delay_ms a b (Fin cap) r"
proof -
  let ?d = "nominal_backoff_ms a b (Fin cap)"
  have d: "0 \<le> ?d" "?d \<le> cap" using nominal_nonneg nominal_le_cap assms(3) by auto
  have m: "0 \<le> r * (?d / 2)" "r * (?d / 2) \<le> 1 * (?d / 2)"
    using assms d(1) mult_right_mono [of r 1 "?d / 2"] by simp_all
  define x where "x = ?d / 2 + r * (?d / 2)"
  have x: "0 \<le> x" "x \<le> cap" "?d / 2 \<le> x" using m d by (simp_all add: x_def)
  have "0 \<le> js_round x" using x(1) by (simp add: js_round_def)
  moreover have "of_int (js_round x) \<le> cap + 1 / 2" "?d / 2 - 1 / 2 \<le> of_int (js_round x)"
    using js_round_bounds [of x] x by linarith+
  moreover have "backoff_delay_ms a b (Fin cap) r = (if ?d \<le> 0 then 0 else js_round x)"
    by (simp add: backoff_delay_ms_def with_jitter_def x_def)
  ultimately show ?thesis using d assms(3) by auto
qed

text \<open>
  A jittered retry delay is never above the cap (by more than its rounding), never below
  half the nominal delay, and never negative, for every attempt and every value of the random source.
\<close>

theorem backoff_delay_bounds:
  assumes "0 \<le> r" "r < 1" and "0 < cap"
  shows "of_int (backoff_delay_ms a b (Fin cap) r) \<le> cap + 1 / 2
     \<and> nominal_backoff_ms a b (Fin cap) / 2 - 1 / 2 \<le> of_int (backoff_delay_ms a b (Fin cap) r)
     \<and> 0 \<le> backoff_delay_ms a b (Fin cap) r"
  using assms by (rule backoff_within)

theorem backoff_delay_bounds_witness:
  "of_int (backoff_delay_ms (Attempt 3) (Fin 1000) (Fin 5000) (1 / 4)) \<le> (5000 :: rat) + 1 / 2"
  using backoff_delay_bounds [of "1 / 4" 5000 "Attempt 3" "Fin 1000"] by simp

lemma failures_streak: "streak (failures b c ts cd) = streak cd + length ts"
  by (induction b c ts cd rule: failures.induct) (simp_all add: cooldown_failed_def Let_def)

lemma failures_snoc: "failures b c (ts @ [t]) cd = cooldown_failed b c t (failures b c ts cd)"
  by (induction b c ts cd rule: failures.induct) simp_all

text \<open>
  After any run of failures the endpoint is passed over from its last failure for a time
  that is within the cap and never shorter than after fewer failures, and one success ends it.
\<close>

theorem cooldown_after_failures:
  assumes "0 < cap"
  shows "\<exists>ms. downUntil (failures b (Fin cap) (ts @ [t]) new_cooldown) = Some (t + ms)
     \<and> 0 \<le> ms \<and> ms \<le> cap
     \<and> (\<forall>n \<le> length ts. nominal_backoff_ms (Attempt (int n)) b (Fin cap) \<le> ms)
     \<and> \<not> cooling_down (cooldown_succeeded (failures b (Fin cap) (ts @ [t]) new_cooldown)) now"
proof -
  let ?ms = "nominal_backoff_ms (Attempt (int (length ts))) b (Fin cap)"
  have "downUntil (failures b (Fin cap) (ts @ [t]) new_cooldown) = Some (t + ?ms)"
    by (simp add: failures_snoc cooldown_failed_def Let_def failures_streak new_cooldown_def)
  moreover have "nominal_backoff_ms (Attempt (int n)) b (Fin cap) \<le> ?ms" if "n \<le> length ts" for n
    by (rule nominal_mono) (use that in \<open>simp del: backoff_exponent.simps\<close>)
  ultimately show ?thesis
    using nominal_nonneg nominal_le_cap [OF assms]
    by (auto simp: cooling_down_def cooldown_succeeded_def)
qed

theorem cooldown_after_failures_witness:
  "\<exists>ms. downUntil (failures (Fin 1000) (Fin 60000) ([0, 5] @ [9]) new_cooldown) = Some (9 + ms) \<and> ms \<le> 60000"
  using cooldown_after_failures [of 60000 "Fin 1000" "[0, 5]" 9 0] by auto

end
