(* ===== verification/Roster.thy ===== *)
theory Roster
  imports Round_Votes Backoff "HOL-Library.List_Lexorder" "HOL-Library.Char_ord"
begin

text \<open>
  How a mesh network's roster travels (\<open>server/src/networks/member-introductions.ts\<close>): admissions and
  removals recorded here, a peer's roster answer merged (its removals first, then its members as
  introductions), a passed join turned into a member or an introduction, and an introduction accepted.
  Which addresses a peer may be reached at (\<open>isPeerUrlAllowed\<close>) is the argument \<open>url_ok\<close>.  The lemmas
  show that no operation lists an instance twice or both as member and as introduced, that a newer
  removal always wins over a roster, and that merging an answer again changes nothing.
\<close>

section \<open>Networks that gossip a roster\<close>

definition PAIR_RETRY_MS :: int where
  "PAIR_RETRY_MS = 5 * 60000"

definition PAIR_FIRST_RETRY_MS :: int where
  "PAIR_FIRST_RETRY_MS = 30000"

definition MAX_REMOVALS :: nat where
  "MAX_REMOVALS = 1000"

definition is_mesh_network :: "network \<Rightarrow> bool" where
  "is_mesh_network net \<longleftrightarrow> n_type net = Club \<or> n_type net = Closed \<or> n_type net = Democratic"

definition roster_is_authority :: "network \<Rightarrow> bool" where
  "roster_is_authority net \<longleftrightarrow> n_type net = Club"

text \<open>\<open>iso ? Date.parse(iso) || 0 : 0\<close>.\<close>

definition time_of :: "iso option \<Rightarrow> int" where
  "time_of d = (case date_of d of Some ms \<Rightarrow> ms | None \<Rightarrow> 0)"

definition pair_retry_due :: "member_introduction \<Rightarrow> int \<Rightarrow> bool" where
  "pair_retry_due intro now =
     (if \<not> truthy_date (i_lastAttemptAt intro) then True
      else
        let tries = (case i_attempts intro of Some n \<Rightarrow> int n | None \<Rightarrow> 1);
            wait = nominal_backoff_ms (Attempt (tries - 1)) (Fin (of_int PAIR_FIRST_RETRY_MS)) (Fin (of_int PAIR_RETRY_MS))
        in wait \<le> of_int (now - time_of (i_lastAttemptAt intro)))"

section \<open>Admissions and removals recorded here\<close>

definition removals :: "network \<Rightarrow> member_removal list" where
  "removals net = or_empty (n_removedMembers net)"

definition introductions :: "network \<Rightarrow> member_introduction list" where
  "introductions net = or_empty (n_introductions net)"

definition drop_introduction :: "string \<Rightarrow> network \<Rightarrow> network" where
  "drop_introduction i net = net\<lparr>n_introductions := Some (filter (\<lambda>x. i_instanceId x \<noteq> i) (introductions net))\<rparr>"

definition stamp_admission :: "network \<Rightarrow> network_member \<Rightarrow> int \<Rightarrow> network \<times> network_member" where
  "stamp_admission net m ts =
     (if \<not> roster_is_authority net then (net, m)
      else (drop_introduction (m_instanceId m)
              (net\<lparr>n_removedMembers := Some (filter (\<lambda>r. x_instanceId r \<noteq> m_instanceId m) (removals net))\<rparr>),
            if m_admittedAt m = None then m\<lparr>m_admittedAt := Some (At ts)\<rparr> else m))"

definition record_removal :: "network \<Rightarrow> string \<Rightarrow> iso \<Rightarrow> network" where
  "record_removal net i ts =
     (if \<not> roster_is_authority net then net
      else drop_introduction i
             (net\<lparr>n_removedMembers := Some (last_n MAX_REMOVALS
                (filter (\<lambda>r. x_instanceId r \<noteq> i) (removals net) @ [\<lparr>x_instanceId = i, x_removedAt = ts\<rparr>]))\<rparr>))"

section \<open>Merging a peer's roster\<close>

definition read_removals :: "member_removal list \<Rightarrow> member_removal list" where
  "read_removals raw = filter (\<lambda>r. 0 < time_of (Some (x_removedAt r))) raw"

text \<open>A member as a peer lists it: any key may be missing.\<close>

record listed_member =
  l_instanceId :: "string option"
  l_label :: "string option"
  l_url :: "string option"
  l_admittedAt :: "iso option"

record merge_out =
  changed :: bool
  removed :: "string list"

definition find_removal :: "network \<Rightarrow> string \<Rightarrow> member_removal option" where
  "find_removal net i = List.find (\<lambda>r. x_instanceId r = i) (removals net)"

definition merge_removal ::
  "string \<Rightarrow> string \<Rightarrow> member_removal \<Rightarrow> network \<times> merge_out \<Rightarrow> network \<times> merge_out" where
  "merge_removal self sender r st =
     (let (net, out) = st; i = x_instanceId r; t = time_of (Some (x_removedAt r)) in
      if i = self \<or> i = sender then (net, out)
      else
        let idx = member_index net i in
        if (case idx of Some k \<Rightarrow> t \<le> time_of (m_admittedAt (n_members net ! k)) | None \<Rightarrow> False) then (net, out)
        else
          let net1 = (case idx of Some k \<Rightarrow> net\<lparr>n_members := remove_at k (n_members net)\<rparr> | None \<Rightarrow> net);
              out1 = (case idx of Some k \<Rightarrow> out\<lparr>removed := removed out @ [i]\<rparr> | None \<Rightarrow> out)
          in (case find_removal net1 i of
                Some known \<Rightarrow>
                  if time_of (Some (x_removedAt known)) < t
                  then (record_removal net1 i (x_removedAt r), out1\<lparr>changed := True\<rparr>) else (net1, out1)
              | None \<Rightarrow> (record_removal net1 i (x_removedAt r), out1\<lparr>changed := True\<rparr>)))"

definition introduction_wanted ::
  "(string \<Rightarrow> bool) \<Rightarrow> string \<Rightarrow> string \<Rightarrow> network \<Rightarrow> listed_member \<Rightarrow> bool" where
  "introduction_wanted url_ok self sender net entry \<longleftrightarrow>
     truthy_str (l_instanceId entry) \<and> the (l_instanceId entry) \<noteq> self \<and> the (l_instanceId entry) \<noteq> sender
     \<and> truthy_str (l_url entry) \<and> truthy_str (l_label entry)
     \<and> \<not> is_member net (the (l_instanceId entry))
     \<and> \<not> list_ex (\<lambda>x. i_instanceId x = the (l_instanceId entry)) (introductions net)
     \<and> (case find_removal net (the (l_instanceId entry)) of
          Some r \<Rightarrow> time_of (Some (x_removedAt r)) < time_of (l_admittedAt entry) | None \<Rightarrow> True)
     \<and> url_ok (the (l_url entry))"

definition introduction_of :: "string \<Rightarrow> bool \<Rightarrow> int \<Rightarrow> listed_member \<Rightarrow> member_introduction" where
  "introduction_of sender vouched now entry =
     \<lparr>i_instanceId = the (l_instanceId entry), i_label = the (l_label entry), i_url = the (l_url entry),
      i_admittedAt = given_date (l_admittedAt entry), i_introducedBy = sender, i_introducedAt = At now,
      i_needsApproval = (if vouched then None else Some True),
      i_lastAttemptAt = None, i_attempts = None,
      i_lastError = None, i_pairingTokenId = None\<rparr>"

definition add_introduction :: "member_introduction \<Rightarrow> network \<Rightarrow> network" where
  "add_introduction intro net = net\<lparr>n_introductions := Some (introductions net @ [intro])\<rparr>"

definition merge_member ::
  "(string \<Rightarrow> bool) \<Rightarrow> string \<Rightarrow> string \<Rightarrow> bool \<Rightarrow> int \<Rightarrow> listed_member
     \<Rightarrow> network \<times> merge_out \<Rightarrow> network \<times> merge_out" where
  "merge_member url_ok self sender vouched now entry st =
     (let (net, out) = st in
      if introduction_wanted url_ok self sender net entry
      then (add_introduction (introduction_of sender vouched now entry) net, out\<lparr>changed := True\<rparr>)
      else (net, out))"

definition merge_peer_roster ::
  "(string \<Rightarrow> bool) \<Rightarrow> network \<Rightarrow> string \<Rightarrow> string \<Rightarrow> listed_member list \<Rightarrow> member_removal list \<Rightarrow> int
     \<Rightarrow> network \<times> merge_out" where
  "merge_peer_roster url_ok net self sender peers gone now =
     (let out0 = \<lparr>changed = False, removed = []\<rparr> in
      if \<not> is_mesh_network net then (net, out0)
      else
        let authority = roster_is_authority net;
            vouched = (authority \<or> n_admittedVia net = Some sender);
            (net1, out1) = fold (merge_removal self sender) (if authority then read_removals gone else []) (net, out0);
            out2 = (if removed out1 \<noteq> [] then out1\<lparr>changed := True\<rparr> else out1)
        in fold (merge_member url_ok self sender vouched now) peers (net1, out2))"

section \<open>A passed join\<close>

definition introduce_from_passed_join ::
  "(string \<Rightarrow> bool) \<Rightarrow> network \<Rightarrow> string \<Rightarrow> vote_round \<Rightarrow> int \<Rightarrow> bool \<times> network" where
  "introduce_from_passed_join url_ok net self rd now =
     (let i = r_subjectInstanceId rd in
      if \<not> is_mesh_network net \<or> roster_is_authority net then (False, net)
      else if r_type rd \<noteq> Join \<or> \<not> truthy_bool (r_concluded rd) \<or> \<not> truthy_bool (r_passed rd) then (False, net)
      else if i = [] \<or> i = self \<or> is_member net i then (False, net)
      else if r_subjectUrl rd = [] \<or> \<not> url_ok (r_subjectUrl rd) then (False, net)
      else case find_index (\<lambda>x. i_instanceId x = i) (introductions net) of
        Some k \<Rightarrow>
          if \<not> truthy_bool (i_needsApproval (introductions net ! k)) then (False, net)
          else (True, net\<lparr>n_introductions := Some (update_at k (\<lambda>x. x\<lparr>i_needsApproval := None\<rparr>) (introductions net))\<rparr>)
      | None \<Rightarrow>
          (True, add_introduction
             \<lparr>i_instanceId = i, i_label = (if r_subjectLabel rd = [] then i else r_subjectLabel rd),
              i_url = r_subjectUrl rd, i_admittedAt = None, i_introducedBy = ''round:'' @ r_roundId rd,
              i_introducedAt = At now, i_needsApproval = None, i_lastAttemptAt = None, i_attempts = None,
      i_lastError = None, i_pairingTokenId = None\<rparr> net))"

datatype join_effect = Admitted | Introduced

definition may_admit :: "network \<Rightarrow> string \<Rightarrow> vote_round \<Rightarrow> bool" where
  "may_admit net self rd =
     (case r_pendingMember rd of
        None \<Rightarrow> False
      | Some pm \<Rightarrow>
          if n_type net = Braintree
          then \<not> truthy_str (m_parentInstanceId pm) \<or> m_parentInstanceId pm = Some self
               \<or> r_proposedHere rd = Some True \<and> m_tokenHash pm \<noteq> []
          else m_tokenHash pm \<noteq> [])"

definition apply_passed_join ::
  "(string \<Rightarrow> bool) \<Rightarrow> network \<Rightarrow> string \<Rightarrow> vote_round \<Rightarrow> int \<Rightarrow> join_effect option \<times> network" where
  "apply_passed_join url_ok net self rd now =
     (if r_type rd \<noteq> Join \<or> \<not> truthy_bool (r_concluded rd) \<or> \<not> truthy_bool (r_passed rd) then (None, net)
      else if list_ex (\<lambda>v. c_vote v = Veto) (r_votes rd) then (None, net)
      else if is_member net (r_subjectInstanceId rd) then (None, net)
      else if may_admit net self rd
        then (Some Admitted, net\<lparr>n_members := n_members net @ [the (r_pendingMember rd)]\<rparr>)
      else
        let (intro, net') = introduce_from_passed_join url_ok net self rd now
        in (if intro then Some Introduced else None, net'))"

definition accept_introduction :: "network \<Rightarrow> string \<Rightarrow> bool \<times> network" where
  "accept_introduction net i =
     (case find_index (\<lambda>x. i_instanceId x = i) (introductions net) of
        None \<Rightarrow> (False, net)
      | Some k \<Rightarrow>
          if \<not> truthy_bool (i_needsApproval (introductions net ! k)) then (False, net)
          else (True, net\<lparr>n_introductions := Some (update_at k (\<lambda>x. x\<lparr>i_needsApproval := None\<rparr>) (introductions net))\<rparr>))"

text \<open>The introductions this instance opens a pairing for now: the lower id opens.\<close>

definition pairings_to_open :: "string \<Rightarrow> network \<Rightarrow> int \<Rightarrow> member_introduction list" where
  "pairings_to_open self net now =
     (if \<not> is_mesh_network net then []
      else filter (\<lambda>x. self < i_instanceId x \<and> \<not> truthy_bool (i_needsApproval x) \<and> pair_retry_due x now)
             (introductions net))"

definition member_from :: "member_introduction \<Rightarrow> string \<Rightarrow> network_member" where
  "member_from x hash =
     \<lparr>m_instanceId = i_instanceId x, m_label = i_label x, m_url = i_url x, m_tokenHash = hash,
      m_direction = Both, m_parentInstanceId = None, m_originalParentInstanceId = None, m_children = None,
      m_signingPublicKey = None, m_version = None, m_admittedAt = given_date (i_admittedAt x),
      m_introducedBy = Some (i_introducedBy x), m_marks = (\<lambda>_. None), m_declinedSpaces = None\<rparr>"

section \<open>The pairing handshake\<close>

text \<open>
  The two sides of the handshake over the configuration and the keys in flight.  Between reading the
  network and admitting the instance both sides wait (on a hash, on the peer), so \<open>admit_introduced\<close>
  reads the configuration again.  The token records themselves are outside the state: \<open>token\<close> is the
  id a mint returned, and the answer says which minted token is to be revoked.
\<close>

definition introduction_for :: "config \<Rightarrow> string \<Rightarrow> string \<Rightarrow> member_introduction option" where
  "introduction_for cfg netid i =
     (case network_index cfg netid of
        None \<Rightarrow> None
      | Some k \<Rightarrow> List.find (\<lambda>x. i_instanceId x = i) (introductions (g_networks cfg ! k)))"

definition admit_introduced :: "config \<Rightarrow> string \<Rightarrow> string \<Rightarrow> string \<Rightarrow> string \<Rightarrow> bool \<times> config" where
  "admit_introduced cfg netid i outbound hash =
     (case network_index cfg netid of
        None \<Rightarrow> (False, cfg)
      | Some k \<Rightarrow>
          let net = g_networks cfg ! k in
          case List.find (\<lambda>x. i_instanceId x = i) (introductions net) of
            None \<Rightarrow> (False, cfg)
          | Some intro \<Rightarrow>
              if is_member net i then (False, cfg)
              else
                let net' = drop_introduction i (net\<lparr>n_members := n_members net @ [member_from intro hash]\<rparr>)
                in (True, (set_network k net' cfg)\<lparr>g_peerTokens := obj_put i outbound (g_peerTokens cfg)\<rparr>))"

text \<open>\<open>noteAttempt\<close>: the patch is a function on the introduction; without an error the last one goes.\<close>

definition note_attempt :: "(member_introduction \<Rightarrow> member_introduction) \<Rightarrow> config \<Rightarrow> string \<Rightarrow> string \<Rightarrow> config" where
  "note_attempt patch cfg netid i =
     (case network_index cfg netid of
        None \<Rightarrow> cfg
      | Some k \<Rightarrow>
          let net = g_networks cfg ! k in
          case find_index (\<lambda>x. i_instanceId x = i) (introductions net) of
            None \<Rightarrow> cfg
          | Some j \<Rightarrow> set_network k (net\<lparr>n_introductions := Some (update_at j patch (introductions net))\<rparr>) cfg)"

definition note_opened :: "string \<Rightarrow> int \<Rightarrow> nat option \<Rightarrow> member_introduction \<Rightarrow> member_introduction" where
  "note_opened token now tries x =
     x\<lparr>i_pairingTokenId := Some token, i_lastAttemptAt := Some (At now),
       i_attempts := Some (Suc (case tries of Some n \<Rightarrow> n | None \<Rightarrow> 0)), i_lastError := None\<rparr>"

definition note_failed :: "int option \<Rightarrow> string \<Rightarrow> member_introduction \<Rightarrow> member_introduction" where
  "note_failed now why x =
     (case now of
        None \<Rightarrow> x\<lparr>i_lastError := Some why\<rparr>
      | Some t \<Rightarrow> x\<lparr>i_lastAttemptAt := Some (At t), i_lastError := Some why\<rparr>)"

record pairing_state =
  p_config :: config
  p_inFlight :: "(string \<times> string) set"

datatype pair_refusal = No_network | Already_member | Not_introduced | Needs_approval | In_progress

text \<open>The opener up to its request: the introduction it calls, if it may call.\<close>

definition open_pairing_begin ::
  "pairing_state \<Rightarrow> string \<Rightarrow> string \<Rightarrow> string \<Rightarrow> int \<Rightarrow> bool \<times> pairing_state" where
  "open_pairing_begin st netid i token now =
     (if (netid, i) \<in> p_inFlight st then (False, st)
      else case introduction_for (p_config st) netid i of
        None \<Rightarrow> (False, st)
      | Some intro \<Rightarrow>
          (True, st\<lparr>p_inFlight := insert (netid, i) (p_inFlight st),
                    p_config := note_attempt (note_opened token now (i_attempts intro)) (p_config st) netid i\<rparr>))"

text \<open>
  The opener once the peer answered (\<open>failure\<close> is the reason read from the answer or the thrown error):
  the configuration decides whether the pairing happened; the second value says to revoke the token.
\<close>

definition open_pairing_end ::
  "pairing_state \<Rightarrow> string \<Rightarrow> string \<Rightarrow> bool \<Rightarrow> string \<Rightarrow> bool \<times> pairing_state" where
  "open_pairing_end st netid i thrown failure =
     (let cfg = p_config st;
          listed = (case network_index cfg netid of Some k \<Rightarrow> Some (is_member (g_networks cfg ! k) i) | None \<Rightarrow> None);
          cfg' = (if \<not> thrown \<and> listed = Some True then cfg
                  else note_attempt (note_failed None failure) cfg netid i)
      in (listed = Some False, st\<lparr>p_config := cfg', p_inFlight := p_inFlight st - {(netid, i)}\<rparr>))"

definition answer_pairing_begin ::
  "pairing_state \<Rightarrow> string \<Rightarrow> string \<Rightarrow> pair_refusal + pairing_state" where
  "answer_pairing_begin st netid i =
     (case network_index (p_config st) netid of
        None \<Rightarrow> Inl No_network
      | Some k \<Rightarrow>
          let net = g_networks (p_config st) ! k in
          if \<not> is_mesh_network net then Inl No_network
          else if is_member net i then Inl Already_member
          else case List.find (\<lambda>x. i_instanceId x = i) (introductions net) of
            None \<Rightarrow> Inl Not_introduced
          | Some intro \<Rightarrow>
              if truthy_bool (i_needsApproval intro) then Inl Needs_approval
              else if (netid, i) \<in> p_inFlight st then Inl In_progress
              else Inr (st\<lparr>p_inFlight := insert (netid, i) (p_inFlight st)\<rparr>))"

text \<open>
  The answering side once the newcomer's confirm came back: \<open>None\<close> for a confirmed pairing, otherwise
  the reason noted.  It answers 200 on a confirmed one whatever the admission found, and revokes its
  minted token otherwise.
\<close>

definition answer_pairing_end ::
  "pairing_state \<Rightarrow> string \<Rightarrow> string \<Rightarrow> string \<Rightarrow> string \<Rightarrow> int \<Rightarrow> string option \<Rightarrow> (int \<times> bool) \<times> pairing_state" where
  "answer_pairing_end st netid i outbound hash now failure =
     (let free = p_inFlight st - {(netid, i)} in
      case failure of
        Some why \<Rightarrow>
          ((502, True), st\<lparr>p_config := note_attempt (note_failed (Some now) why) (p_config st) netid i,
                          p_inFlight := free\<rparr>)
      | None \<Rightarrow>
          ((200, False), st\<lparr>p_config := snd (admit_introduced (p_config st) netid i outbound hash),
                           p_inFlight := free\<rparr>))"

text \<open>The caller of a confirm: the id of its token and the instance that token was minted for.\<close>

definition may_confirm :: "config \<Rightarrow> string \<Rightarrow> (string option \<times> string option) option \<Rightarrow> string \<Rightarrow> bool" where
  "may_confirm cfg netid caller i \<longleftrightarrow>
     (case network_index cfg netid of
        None \<Rightarrow> False
      | Some k \<Rightarrow>
          is_mesh_network (g_networks cfg ! k)
          \<and> (case List.find (\<lambda>x. i_instanceId x = i) (introductions (g_networks cfg ! k)) of
               None \<Rightarrow> False
             | Some intro \<Rightarrow>
                 \<not> truthy_bool (i_needsApproval intro) \<and> truthy_str (i_pairingTokenId intro)
                 \<and> (case caller of None \<Rightarrow> False
                    | Some (tok, peer) \<Rightarrow> tok = i_pairingTokenId intro \<and> peer = Some i)))"

text \<open>\<open>cfg\<close> is the configuration the check reads, \<open>cfg'\<close> the one after the wait on the token's hash.\<close>

definition confirm_pairing ::
  "config \<Rightarrow> config \<Rightarrow> string \<Rightarrow> (string option \<times> string option) option \<Rightarrow> string \<Rightarrow> string \<Rightarrow> string
     \<Rightarrow> int \<times> config" where
  "confirm_pairing cfg cfg' netid caller i outbound hash =
     (if \<not> may_confirm cfg netid caller i then (403, cfg')
      else let (admitted, cfg'') = admit_introduced cfg' netid i outbound hash
           in (if admitted then 200 else 409, cfg''))"

section \<open>The roster invariant\<close>

lemma roster_fields [simp]:
  "introductions (net\<lparr>n_introductions := xs\<rparr>) = or_empty xs"
  "introductions (net\<lparr>n_members := ms\<rparr>) = introductions net"
  "introductions (net\<lparr>n_removedMembers := rs\<rparr>) = introductions net"
  "removals (net\<lparr>n_removedMembers := rs\<rparr>) = or_empty rs"
  "removals (net\<lparr>n_members := ms\<rparr>) = removals net"
  "removals (net\<lparr>n_introductions := xs\<rparr>) = removals net"
  "is_member (net\<lparr>n_introductions := xs\<rparr>) = is_member net"
  "is_member (net\<lparr>n_removedMembers := rs\<rparr>) = is_member net"
  by (simp_all add: introductions_def removals_def is_member_def fun_eq_iff)

lemma drop_introduction_simps [simp]:
  "introductions (drop_introduction i net) = filter (\<lambda>x. i_instanceId x \<noteq> i) (introductions net)"
  "removals (drop_introduction i net) = removals net"
  "n_members (drop_introduction i net) = n_members net"
  "n_type (drop_introduction i net) = n_type net"
  "is_member (drop_introduction i net) = is_member net"
  by (simp_all add: drop_introduction_def)

lemma record_removal_simps [simp]:
  "n_members (record_removal net i d) = n_members net"
  "n_type (record_removal net i d) = n_type net"
  "is_member (record_removal net i d) = is_member net"
  by (simp_all add: record_removal_def)

lemma record_removal_club:
  assumes "roster_is_authority net"
  shows "introductions (record_removal net i d) = filter (\<lambda>x. i_instanceId x \<noteq> i) (introductions net)"
    and "removals (record_removal net i d) =
      last_n MAX_REMOVALS (filter (\<lambda>r. x_instanceId r \<noteq> i) (removals net) @ [\<lparr>x_instanceId = i, x_removedAt = d\<rparr>])"
  using assms by (simp_all add: record_removal_def)

lemma find_removal_record:
  assumes "roster_is_authority net" "distinct (map x_instanceId (removals net))"
  shows "find_removal (record_removal net i d) i = Some \<lparr>x_instanceId = i, x_removedAt = d\<rparr>"
proof -
  let ?rs = "filter (\<lambda>r. x_instanceId r \<noteq> i) (removals net)" and ?r = "\<lparr>x_instanceId = i, x_removedAt = d\<rparr>"
  have split: "last_n MAX_REMOVALS (?rs @ [?r]) = last_n (MAX_REMOVALS - 1) ?rs @ [?r]"
    by (simp add: last_n_def MAX_REMOVALS_def)
  have none: "List.find (\<lambda>r. x_instanceId r = i) (last_n n ?rs) = None" for n
    using set_last_n [of n ?rs] by (auto simp: find_None_in)
  have app: "List.find P (xs @ ys) = (case List.find P xs of None \<Rightarrow> List.find P ys | y \<Rightarrow> y)" for P xs ys
    by (induction xs) auto
  show ?thesis
    unfolding find_removal_def record_removal_club(2) [OF assms(1)] split app none by simp
qed

text \<open>The removals are a capped log too, by instance id.\<close>

definition add_removal :: "member_removal \<Rightarrow> member_removal list \<Rightarrow> member_removal list" where
  "add_removal r rs = last_n MAX_REMOVALS (filter (\<lambda>y. x_instanceId y \<noteq> x_instanceId r) rs @ [r])"

interpretation removal_log: capped_log x_instanceId MAX_REMOVALS add_removal
proof
  fix rs :: "member_removal list" and r
  assume "distinct (map x_instanceId rs)"
  then have "distinct (map x_instanceId (filter (\<lambda>y. x_instanceId y \<noteq> x_instanceId r) rs @ [r]))"
    using distinct_map_filter [of x_instanceId rs] by auto
  then show "distinct (map x_instanceId (add_removal r rs))"
    unfolding add_removal_def by (rule distinct_map_last_n)
next
  fix rs :: "member_removal list" and r
  show "length (add_removal r rs) \<le> MAX_REMOVALS"
    unfolding add_removal_def length_last_n by simp
next
  fix r and rs :: "member_removal list"
  show "set (add_removal r rs) \<subseteq> insert r (set rs)"
    using set_last_n [of MAX_REMOVALS "filter (\<lambda>y. x_instanceId y \<noteq> x_instanceId r) rs @ [r]"]
    by (auto simp: add_removal_def)
qed

lemma removals_record:
  "roster_is_authority net \<Longrightarrow>
     removals (record_removal net i d) = add_removal \<lparr>x_instanceId = i, x_removedAt = d\<rparr> (removals net)"
  by (simp add: record_removal_club add_removal_def)

lemma record_removal_log:
  "removal_log.log_ok (removals net) \<Longrightarrow> removal_log.log_ok (removals (record_removal net i d))"
  by (cases "roster_is_authority net") (simp_all add: removals_record removal_log.add_ok, simp add: record_removal_def)

definition roster_ok :: "string \<Rightarrow> network \<Rightarrow> bool" where
  "roster_ok self net \<longleftrightarrow>
     distinct (map m_instanceId (n_members net))
     \<and> distinct (map i_instanceId (introductions net))
     \<and> removal_log.log_ok (removals net)
     \<and> (\<forall>x \<in> set (introductions net). i_instanceId x \<noteq> self \<and> \<not> is_member net (i_instanceId x))"

lemma record_removal_ok:
  assumes "roster_ok self net"
  shows "roster_ok self (record_removal net i d)"
proof (cases "roster_is_authority net")
  case True
  from assms record_removal_log [of net i d] show ?thesis
    by (simp add: roster_ok_def record_removal_club(1) [OF True] distinct_map_filter)
next
  case False
  with assms show ?thesis by (simp add: record_removal_def)
qed

lemma drop_member_ok:
  assumes "roster_ok self net"
  shows "roster_ok self (net\<lparr>n_members := remove_at k (n_members net)\<rparr>)"
  using assms set_remove_at [of k "n_members net"]
  by (auto simp: roster_ok_def is_member_def distinct_map_remove_at)

section \<open>One removal, one listed member\<close>

text \<open>
  What a merged removal leaves: the network it found, the network without that member, or that one
  with the removal recorded.
\<close>

definition without_member :: "network \<Rightarrow> string \<Rightarrow> network" where
  "without_member net i =
     (case member_index net i of Some k \<Rightarrow> net\<lparr>n_members := remove_at k (n_members net)\<rparr> | None \<Rightarrow> net)"

lemma merge_removal_cases:
  "fst (merge_removal self sender r st) = fst st
   \<or> fst (merge_removal self sender r st) = without_member (fst st) (x_instanceId r)
   \<or> fst (merge_removal self sender r st) =
       record_removal (without_member (fst st) (x_instanceId r)) (x_instanceId r) (x_removedAt r)"
  by (auto simp: merge_removal_def without_member_def Let_def split: option.splits prod.splits)

lemma without_member_ok: "roster_ok self net \<Longrightarrow> roster_ok self (without_member net i)"
  by (simp add: without_member_def drop_member_ok split: option.splits)

lemma without_member_simps [simp]:
  "n_type (without_member net i) = n_type net" "removals (without_member net i) = removals net"
  "introductions (without_member net i) = introductions net"
  by (simp_all add: without_member_def split: option.splits)

lemma merge_removal_ok:
  "roster_ok self (fst st) \<Longrightarrow> roster_ok self (fst (merge_removal self' sender r st))"
  by (rule disjE [OF merge_removal_cases [of self' sender r st]]) (auto simp: without_member_ok record_removal_ok)

lemma merge_removal_type [simp]: "n_type (fst (merge_removal self sender r st)) = n_type (fst st)"
  by (rule disjE [OF merge_removal_cases [of self sender r st]]) auto

lemma merge_removal_members_subset:
  "set (n_members (fst (merge_removal self sender r st))) \<subseteq> set (n_members (fst st))"
  using merge_removal_cases [of self sender r st] set_remove_at
  by (auto simp: without_member_def split: option.splits dest: subsetD [OF set_remove_at])

lemma member_index_nth:
  "member_index net i = Some k \<Longrightarrow> k < length (n_members net) \<and> m_instanceId (n_members net ! k) = i"
  by (auto simp: member_index_def dest: find_index_SomeD)

lemma member_index_None_iff: "member_index net i = None \<longleftrightarrow> \<not> is_member net i"
  by (auto simp: member_index_def is_member_def find_index_None_iff)

lemma remove_member_gone:
  assumes "distinct (map m_instanceId (n_members net))"
  shows "\<not> is_member (without_member net i) i"
proof (cases "member_index net i")
  case None
  with member_index_None_iff [of net i] show ?thesis by (simp add: without_member_def)
next
  case (Some k)
  then show ?thesis
    using remove_at_gone [OF assms(1), of k] member_index_nth [OF Some]
    by (simp add: is_member_image without_member_def)
qed

lemma merge_removal_applied:
  assumes "x_instanceId r \<noteq> self" "x_instanceId r \<noteq> sender"
    and "\<forall>m \<in> set (n_members (fst st)). m_instanceId m = x_instanceId r \<longrightarrow>
           time_of (m_admittedAt m) < time_of (Some (x_removedAt r))"
  shows "n_members (fst (merge_removal self sender r st)) = n_members (without_member (fst st) (x_instanceId r))"
proof -
  obtain net out where st: "st = (net, out)" by (cases st) auto
  have "\<not> (case member_index net (x_instanceId r) of
        Some k \<Rightarrow> time_of (Some (x_removedAt r)) \<le> time_of (m_admittedAt (n_members net ! k)) | None \<Rightarrow> False)"
    using assms(3) st by (auto split: option.splits dest!: member_index_nth)
  then show ?thesis
    using assms(1,2)
    by (simp add: st merge_removal_def Let_def without_member_def split: option.splits)
qed

lemma merge_removal_wins:
  assumes "distinct (map m_instanceId (n_members (fst st)))"
    and "x_instanceId r \<noteq> self" "x_instanceId r \<noteq> sender"
    and "\<forall>m \<in> set (n_members (fst st)). m_instanceId m = x_instanceId r \<longrightarrow>
           time_of (m_admittedAt m) < time_of (Some (x_removedAt r))"
  shows "\<not> is_member (fst (merge_removal self sender r st)) (x_instanceId r)"
  using remove_member_gone [OF assms(1), of "x_instanceId r"] merge_removal_applied [OF assms(2-4)]
  by (simp add: is_member_def)

lemma merge_removal_distinct:
  "distinct (map m_instanceId (n_members (fst st))) \<Longrightarrow>
     distinct (map m_instanceId (n_members (fst (merge_removal self sender r st))))"
  using merge_removal_cases [of self sender r st]
  by (auto simp: without_member_def distinct_map_remove_at split: option.splits)

lemma introduction_of_id [simp]: "i_instanceId (introduction_of sender v now entry) = the (l_instanceId entry)"
  by (simp add: introduction_of_def)

lemma merge_member_frame [frame]:
  "n_members (fst (merge_member url_ok self sender v now entry st)) = n_members (fst st)"
  "removals (fst (merge_member url_ok self sender v now entry st)) = removals (fst st)"
  "n_type (fst (merge_member url_ok self sender v now entry st)) = n_type (fst st)"
  by (simp_all add: merge_member_def add_introduction_def removals_def split: prod.splits)

lemma merge_member_ok:
  "roster_ok self (fst st) \<Longrightarrow> roster_ok self (fst (merge_member url_ok self sender v now entry st))"
  by (auto simp: merge_member_def add_introduction_def roster_ok_def introduction_wanted_def list_ex_iff
      is_member_def split: prod.splits)

text \<open>An introduction is backed when no removal recorded here is as new as its admission.\<close>

definition backed :: "network \<Rightarrow> member_introduction \<Rightarrow> bool" where
  "backed net x \<longleftrightarrow>
     (\<forall>r \<in> set (removals net). x_instanceId r = i_instanceId x \<longrightarrow>
        time_of (Some (x_removedAt r)) < time_of (i_admittedAt x))"

lemma backed_removals: "removals net = removals net' \<Longrightarrow> backed net x = backed net' x"
  by (simp add: backed_def)

lemma find_removal_distinct:
  assumes "distinct (map x_instanceId (removals net))" "r \<in> set (removals net)"
  shows "find_removal net (x_instanceId r) = Some r"
proof -
  have "List.find (\<lambda>y. x_instanceId y = x_instanceId r) rs = Some r"
    if "distinct (map x_instanceId rs)" "r \<in> set rs" for rs
    using that by (induction rs) (auto simp: image_iff)
  with assms show ?thesis by (simp add: find_removal_def)
qed

lemma wanted_is_backed:
  assumes "distinct (map x_instanceId (removals net))"
    and "introduction_wanted url_ok self sender net entry"
  shows "backed net (introduction_of sender v now entry)"
  using assms find_removal_distinct [OF assms(1)]
  by (fastforce simp: backed_def introduction_wanted_def introduction_of_def time_of_def split: option.splits)

lemma merge_member_backed:
  assumes "distinct (map x_instanceId (removals (fst st)))"
    and "\<forall>x \<in> set (introductions (fst st)) - old. backed (fst st) x"
  shows "\<forall>x \<in> set (introductions (fst (merge_member url_ok self sender v now entry st))) - old.
           backed (fst (merge_member url_ok self sender v now entry st)) x"
proof -
  obtain net out where st: "st = (net, out)" by (cases st) auto
  show ?thesis
  proof (cases "introduction_wanted url_ok self sender net entry")
    case True
    with wanted_is_backed [OF _ True] assms show ?thesis
      by (auto simp: st merge_member_def add_introduction_def backed_def)
  next
    case False
    with assms show ?thesis by (simp add: st merge_member_def)
  qed
qed

section \<open>The whole merge\<close>

text \<open>The network once the peer's removals are merged: the first of the two passes.\<close>

definition after_removals :: "string \<Rightarrow> string \<Rightarrow> member_removal list \<Rightarrow> network \<times> merge_out \<Rightarrow> network \<times> merge_out" where
  "after_removals self sender gone st =
     fold (merge_removal self sender)
       (if roster_is_authority (fst st) then read_removals gone else []) st"

lemma merge_peer_roster_eq:
  "is_mesh_network net \<Longrightarrow> \<exists>v out. fst (merge_peer_roster url_ok net self sender peers gone now) =
     fst (fold (merge_member url_ok self sender v now) peers
       (fst (after_removals self sender gone (net, \<lparr>changed = False, removed = []\<rparr>)), out))"
proof -
  assume mesh: "is_mesh_network net"
  let ?st = "(net, \<lparr>changed = False, removed = []\<rparr>)"
  obtain net1 out1 where f: "fold (merge_removal self sender)
      (if roster_is_authority net then read_removals gone else []) ?st = (net1, out1)"
    by (metis surj_pair)
  have "fst (after_removals self sender gone ?st) = net1"
    by (simp only: after_removals_def fst_conv f)
  moreover have "merge_peer_roster url_ok net self sender peers gone now =
      fold (merge_member url_ok self sender (roster_is_authority net \<or> n_admittedVia net = Some sender) now) peers
        (net1, if removed out1 \<noteq> [] then out1\<lparr>changed := True\<rparr> else out1)"
    using mesh by (simp only: merge_peer_roster_def Let_def f prod.case if_False not_True_eq_False)
  ultimately show ?thesis by metis
qed

lemma merge_peer_roster_other:
  "\<not> is_mesh_network net \<Longrightarrow> fst (merge_peer_roster url_ok net self sender peers gone now) = net"
  by (simp add: merge_peer_roster_def Let_def)

lemma after_removals_inv:
  assumes "P st" "\<And>r st. P st \<Longrightarrow> P (merge_removal self sender r st)"
  shows "P (after_removals self sender gone st)"
  unfolding after_removals_def
  by (rule fold_invariant [where Q = "\<lambda>_. True" and P = P]) (simp_all only: assms)

lemma after_removals_ok:
  "roster_ok self (fst st) \<Longrightarrow> roster_ok self (fst (after_removals self sender gone st))"
  by (rule after_removals_inv) (auto simp: merge_removal_ok)

lemma introductions_shrink:
  "set (introductions (fst (merge_removal self sender r st))) \<subseteq> set (introductions (fst st))"
  using merge_removal_cases [of self sender r st]
  by (cases "roster_is_authority (without_member (fst st) (x_instanceId r))")
    (auto simp: record_removal_club(1), auto simp: record_removal_def)

lemma after_removals_introductions:
  "set (introductions (fst (after_removals self sender gone st))) \<subseteq> set (introductions (fst st))"
proof (rule after_removals_inv [where P = "\<lambda>s. set (introductions (fst s)) \<subseteq> set (introductions (fst st))"])
  fix r and s :: "network \<times> merge_out"
  assume "set (introductions (fst s)) \<subseteq> set (introductions (fst st))"
  with introductions_shrink [of self sender r s]
  show "set (introductions (fst (merge_removal self sender r s))) \<subseteq> set (introductions (fst st))"
    by (rule subset_trans)
qed simp

lemma members_pass_ok:
  "roster_ok self (fst st) \<Longrightarrow> roster_ok self (fst (fold (merge_member url_ok self sender v now) peers st))"
  by (rule fold_invariant [where Q = "\<lambda>_. True"]) (auto simp: merge_member_ok)

lemma members_pass_frame:
  "n_members (fst (fold (merge_member url_ok self sender v now) peers st)) = n_members (fst st)
   \<and> removals (fst (fold (merge_member url_ok self sender v now) peers st)) = removals (fst st)"
  by (rule fold_invariant [where Q = "\<lambda>_. True"]) (simp_all add: frame)

lemma members_pass_backed:
  assumes "distinct (map x_instanceId (removals (fst st)))" "set (introductions (fst st)) \<subseteq> old"
  shows "\<forall>x \<in> set (introductions (fst (fold (merge_member url_ok self sender v now) peers st))) - old.
           backed (fst (fold (merge_member url_ok self sender v now) peers st)) x"
proof -
  let ?P = "\<lambda>s :: network \<times> merge_out. distinct (map x_instanceId (removals (fst s)))
      \<and> (\<forall>x \<in> set (introductions (fst s)) - old. backed (fst s) x)"
  have "?P (fold (merge_member url_ok self sender v now) peers st)"
  proof (rule fold_invariant [where Q = "\<lambda>_. True"])
    show "?P st" using assms by blast
    fix entry s
    assume P: "?P s"
    then show "?P (merge_member url_ok self sender v now entry s)"
      using merge_member_backed [of s old url_ok self sender v now entry] by (simp add: frame)
  qed simp
  then show ?thesis by blast
qed

lemma fold_removal_wins:
  assumes "distinct (map m_instanceId (n_members (fst st)))"
    and "r \<in> set rs" "x_instanceId r \<noteq> self" "x_instanceId r \<noteq> sender"
    and "\<forall>m \<in> set (n_members (fst st)). m_instanceId m = x_instanceId r \<longrightarrow>
           time_of (m_admittedAt m) < time_of (Some (x_removedAt r))"
  shows "\<not> is_member (fst (fold (merge_removal self sender) rs st)) (x_instanceId r)"
  using assms
proof (induction rs arbitrary: st)
  case Nil
  then show ?case by simp
next
  case (Cons a rs)
  let ?st = "merge_removal self sender a st"
  have sub: "set (n_members (fst ?st)) \<subseteq> set (n_members (fst st))"
    by (rule merge_removal_members_subset)
  have dist: "distinct (map m_instanceId (n_members (fst ?st)))"
    using Cons.prems(1) by (rule merge_removal_distinct)
  show ?case
  proof (cases "r \<in> set rs")
    case True
    with Cons.IH [OF dist True] Cons.prems sub show ?thesis by auto
  next
    case False
    with Cons.prems(2) have "r = a" by simp
    then have "\<not> is_member (fst ?st) (x_instanceId r)"
      using merge_removal_wins [of st r self sender] Cons.prems by blast
    moreover have "set (n_members (fst (fold (merge_removal self sender) rs ?st))) \<subseteq> set (n_members (fst ?st))"
    proof (rule fold_invariant [where Q = "\<lambda>_. True" and P = "\<lambda>s. set (n_members (fst s)) \<subseteq> set (n_members (fst ?st))"])
      fix x and s :: "network \<times> merge_out"
      assume "set (n_members (fst s)) \<subseteq> set (n_members (fst ?st))"
      with merge_removal_members_subset [of self sender x s]
      show "set (n_members (fst (merge_removal self sender x s))) \<subseteq> set (n_members (fst ?st))"
        by (rule subset_trans)
    qed simp_all
    ultimately show ?thesis by (auto simp: is_member_def)
  qed
qed

section \<open>Properties\<close>

text \<open>A club of this instance with one member and one pending introduction, for the witnesses.\<close>

definition demo_intro :: "string \<Rightarrow> member_introduction" where
  "demo_intro i = \<lparr>i_instanceId = i, i_label = i, i_url = i, i_admittedAt = Some (At 5), i_introducedBy = ''a'',
     i_introducedAt = At 6, i_needsApproval = None, i_lastAttemptAt = None, i_attempts = None,
     i_lastError = None, i_pairingTokenId = Some ''tok''\<rparr>"

definition demo_club :: network where
  "demo_club = (demo_network Club [demo_member ''a'' None None None, demo_member ''b'' None None None])
     \<lparr>n_introductions := Some [demo_intro ''c'']\<rparr>"

definition demo_gone :: "member_removal list" where
  "demo_gone = [\<lparr>x_instanceId = ''b'', x_removedAt = At 9\<rparr>]"

definition demo_listed :: "listed_member list" where
  "demo_listed = [\<lparr>l_instanceId = Some ''d'', l_label = Some ''d'', l_url = Some ''d'', l_admittedAt = Some (At 9)\<rparr>,
     \<lparr>l_instanceId = Some ''b'', l_label = Some ''b'', l_url = Some ''b'', l_admittedAt = Some (At 3)\<rparr>]"

text \<open>
  Property C32: merging a peer's roster answer keeps the roster well formed: no instance listed twice,
  none both a member and introduced, never this instance itself, and at most 1000 removals kept.
\<close>

theorem merge_keeps_roster:
  assumes "roster_ok self net"
  shows "roster_ok self (fst (merge_peer_roster url_ok net self sender peers gone now))"
proof (cases "is_mesh_network net")
  case True
  then obtain v out where "fst (merge_peer_roster url_ok net self sender peers gone now) =
     fst (fold (merge_member url_ok self sender v now) peers
       (fst (after_removals self sender gone (net, \<lparr>changed = False, removed = []\<rparr>)), out))"
    using merge_peer_roster_eq by blast
  with assms show ?thesis by (simp add: members_pass_ok after_removals_ok)
qed (use assms in \<open>simp add: merge_peer_roster_other\<close>)

text \<open>
  On a network whose roster is the authority, a removal a peer reports wins over any
  membership it is newer than: after the merge that instance is not a member, and no introduction the
  merge added is as old as a removal recorded here, so a removed member cannot be introduced back by
  the roster that still lists it.
\<close>

theorem newer_removal_wins:
  assumes "roster_ok self net" and "roster_is_authority net"
    and "r \<in> set (read_removals gone)" and "x_instanceId r \<noteq> self" and "x_instanceId r \<noteq> sender"
    and "\<forall>m \<in> set (n_members net). m_instanceId m = x_instanceId r \<longrightarrow>
           time_of (m_admittedAt m) < time_of (Some (x_removedAt r))"
  shows "\<not> is_member (fst (merge_peer_roster url_ok net self sender peers gone now)) (x_instanceId r)
    \<and> (\<forall>x \<in> set (introductions (fst (merge_peer_roster url_ok net self sender peers gone now))) - set (introductions net).
         backed (fst (merge_peer_roster url_ok net self sender peers gone now)) x)"
proof -
  let ?st = "(net, \<lparr>changed = False, removed = []\<rparr>)"
  have "is_mesh_network net" using assms(2) by (simp add: roster_is_authority_def is_mesh_network_def)
  then obtain v out where eq: "fst (merge_peer_roster url_ok net self sender peers gone now) =
     fst (fold (merge_member url_ok self sender v now) peers (fst (after_removals self sender gone ?st), out))"
    using merge_peer_roster_eq by blast
  have "\<not> is_member (fst (after_removals self sender gone ?st)) (x_instanceId r)"
    unfolding after_removals_def using assms by (intro fold_removal_wins) (auto simp: roster_ok_def)
  moreover have "roster_ok self (fst (after_removals self sender gone ?st))"
    using assms(1) by (simp add: after_removals_ok)
  then have "distinct (map x_instanceId (removals (fst (after_removals self sender gone ?st))))"
    by (simp add: roster_ok_def removal_log.log_ok_def)
  ultimately show ?thesis
    unfolding eq using after_removals_introductions [of self sender gone ?st]
    by (intro conjI members_pass_backed) (simp_all add: is_member_def members_pass_frame)
qed

text \<open>
  A pairing confirm admits an instance only with the very token this instance minted for
  that introduction, and never one whose introduction still waits for the operator; an admission lists
  the instance as a member once and ends its introduction.
\<close>

theorem confirm_admits_only_the_paired:
  assumes "confirm_pairing cfg cfg' netid caller i outbound hash = (200, cfg'')"
  shows "(\<exists>intro tok. introduction_for cfg netid i = Some intro \<and> \<not> truthy_bool (i_needsApproval intro)
      \<and> i_pairingTokenId intro = Some tok \<and> caller = Some (Some tok, Some i))
    \<and> (\<exists>k. network_index cfg' netid = Some k \<and> \<not> is_member (g_networks cfg' ! k) i
      \<and> (\<exists>m. n_members (g_networks cfg'' ! k) = n_members (g_networks cfg' ! k) @ [m] \<and> m_instanceId m = i)
      \<and> introduction_for cfg'' netid i = None)"
proof -
  have may: "may_confirm cfg netid caller i" and adm: "admit_introduced cfg' netid i outbound hash = (True, cfg'')"
    using assms by (auto simp: confirm_pairing_def split: if_splits prod.splits)
  from may have paired: "\<exists>intro tok. introduction_for cfg netid i = Some intro \<and> \<not> truthy_bool (i_needsApproval intro)
      \<and> i_pairingTokenId intro = Some tok \<and> caller = Some (Some tok, Some i)"
    by (auto simp: may_confirm_def introduction_for_def split: option.splits elim: truthy_strE)
  from adm obtain k intro where k: "network_index cfg' netid = Some k"
    and intro: "List.find (\<lambda>x. i_instanceId x = i) (introductions (g_networks cfg' ! k)) = Some intro"
    and fresh: "\<not> is_member (g_networks cfg' ! k) i"
    and cfg'': "cfg'' = (set_network k (drop_introduction i ((g_networks cfg' ! k)
        \<lparr>n_members := n_members (g_networks cfg' ! k) @ [member_from intro hash]\<rparr>)) cfg')
        \<lparr>g_peerTokens := obj_put i outbound (g_peerTokens cfg')\<rparr>"
    by (auto simp: admit_introduced_def Let_def split: option.splits if_splits)
  have len: "k < length (g_networks cfg')" and nid: "n_id (g_networks cfg' ! k) = netid"
    using network_index_SomeD [OF k] by simp_all
  have idx: "network_index cfg'' netid = Some k"
    using k nid unfolding cfg'' network_index_def set_network_def drop_introduction_def
    by (simp add: find_index_replace)
  have at_k: "g_networks cfg'' ! k = drop_introduction i ((g_networks cfg' ! k)
        \<lparr>n_members := n_members (g_networks cfg' ! k) @ [member_from intro hash]\<rparr>)"
    using len by (simp add: cfg'' set_network_def)
  have "introduction_for cfg'' netid i = None"
    by (simp add: introduction_for_def idx at_k find_None_in)
  moreover have "m_instanceId (member_from intro hash) = i"
    using find_Some_in [OF intro] by (simp add: member_from_def)
  ultimately have admitted: "\<exists>k. network_index cfg' netid = Some k \<and> \<not> is_member (g_networks cfg' ! k) i
      \<and> (\<exists>m. n_members (g_networks cfg'' ! k) = n_members (g_networks cfg' ! k) @ [m] \<and> m_instanceId m = i)
      \<and> introduction_for cfg'' netid i = None"
    using k fresh at_k by (intro exI [of _ k] conjI exI [of _ "member_from intro hash"]) simp_all
  from paired admitted show ?thesis ..
qed

section \<open>Witnesses\<close>

lemma demo_club_ok: "roster_ok ''self'' demo_club"
  by (simp add: roster_ok_def removal_log.log_ok_def demo_club_def demo_network_def demo_member_def demo_intro_def introductions_def
      removals_def is_member_def)

theorem merge_keeps_roster_witness:
  "roster_ok ''self'' (fst (merge_peer_roster (\<lambda>u. True) demo_club ''self'' ''a'' demo_listed demo_gone 20))"
  using demo_club_ok by (rule merge_keeps_roster)

theorem newer_removal_wins_witness:
  "\<not> is_member (fst (merge_peer_roster (\<lambda>u. True) demo_club ''self'' ''a'' demo_listed demo_gone 20)) ''b''"
proof -
  have "hd demo_gone \<in> set (read_removals demo_gone)"
    by (simp add: demo_gone_def read_removals_def time_of_def)
  then show ?thesis
    using newer_removal_wins [of "''self''" demo_club "hd demo_gone" demo_gone "''a''" "\<lambda>u. True" demo_listed 20]
      demo_club_ok
    by (simp add: demo_gone_def demo_club_def demo_network_def demo_member_def roster_is_authority_def time_of_def)
qed

definition demo_club_config :: config where
  "demo_club_config = demo_config\<lparr>g_networks := [demo_club]\<rparr>"

theorem confirm_admits_only_the_paired_witness:
  "introduction_for (snd (confirm_pairing demo_club_config demo_club_config ''net''
     (Some (Some ''tok'', Some ''c'')) ''c'' ''out'' ''h'')) ''net'' ''c'' = None"
proof -
  obtain cfg'' where c: "confirm_pairing demo_club_config demo_club_config ''net''
     (Some (Some ''tok'', Some ''c'')) ''c'' ''out'' ''h'' = (200, cfg'')"
    by (simp add: confirm_pairing_def may_confirm_def demo_club_config_def demo_config_def demo_club_def
        demo_network_def demo_member_def demo_intro_def network_index_def introductions_def is_mesh_network_def
        admit_introduced_def is_member_def Let_def)
  from confirm_admits_only_the_paired [OF c] c show ?thesis by auto
qed

end
