(* ===== verification/Outcome_Log.thy ===== *)
theory Outcome_Log
  imports Round_Votes "HOL-Library.Product_Lexorder"
begin

text \<open>
  The outcome log of a network (\<open>server/src/networks/round-outcomes.ts\<close>): one entry per concluded round,
  newest first, at most \<open>ROUND_OUTCOMES_KEPT\<close> of them, with what the join answers and the operator's
  history read from it.  The texts are ones of one-unit characters, so \<open>slice\<close> counts characters.
  The sentence a meta change is summarised by is left out.
\<close>

section \<open>Entries\<close>

definition ROUND_OUTCOMES_KEPT :: nat where
  "ROUND_OUTCOMES_KEPT = 50"

definition LABEL_CHARS :: nat where
  "LABEL_CHARS = 200"

definition is_control :: "char \<Rightarrow> bool" where
  "is_control c \<longleftrightarrow> of_char c < (32 :: nat) \<or> (127 \<le> (of_char c :: nat) \<and> (of_char c :: nat) \<le> 159)"

definition clean :: "nat \<Rightarrow> string \<Rightarrow> string" where
  "clean n s = take n (filter (\<lambda>c. \<not> is_control c) (take (n * 2) s))"

text \<open>Newest first; an entry without a readable date sorts last.  \<open>Array.sort\<close> is stable, as \<open>sort_key\<close> is.\<close>

definition outcome_order :: "outcome_entry \<Rightarrow> bool \<times> int" where
  "outcome_order e = (case date_of (o_concludedAt e) of None \<Rightarrow> (True, 0) | Some ms \<Rightarrow> (False, - ms))"

definition entry_for :: "network \<Rightarrow> string \<Rightarrow> vote_round \<Rightarrow> int \<Rightarrow> outcome_entry" where
  "entry_for net self rd now =
     (let counted = round_electorate net self rd;
          named = (case round_space_local_id net rd of Some s \<Rightarrow> Some s | None \<Rightarrow> r_spaceId rd);
          space = clean LABEL_CHARS (or_blank named);
          hash = (case r_inviteKeyHash rd of Some h \<Rightarrow> if length h \<le> 200 then h else [] | None \<Rightarrow> []);
          join = (r_type rd = Join \<and> hash \<noteq> [])
      in \<lparr>o_roundId = clean LABEL_CHARS (r_roundId rd), o_type = r_type rd,
          o_space = (if space = [] then None else Some space),
          o_subjectLabel = clean LABEL_CHARS (r_subjectLabel rd),
          o_concludedAt = (if r_outcome rd = None then None
                           else if date_of (r_concludedAt rd) = None then Some (At now) else r_concludedAt rd),
          o_outcome = (case r_outcome rd of Some k \<Rightarrow> Recorded k | None \<Rightarrow> Ended),
          o_yes = yes counted, o_veto = veto counted, o_eligible = eligible counted,
          o_subjectInstanceId = (if join then Some (clean LABEL_CHARS (r_subjectInstanceId rd)) else None),
          o_inviteKeyHash = (if join then Some hash else None)\<rparr>)"

definition outcomes :: "network \<Rightarrow> outcome_entry list" where
  "outcomes net = or_empty (n_roundOutcomes net)"

definition record_round_outcome :: "string \<Rightarrow> network \<Rightarrow> vote_round \<Rightarrow> int \<Rightarrow> network" where
  "record_round_outcome self net rd now =
     (let log = outcomes net in
      if list_ex (\<lambda>e. o_roundId e = clean LABEL_CHARS (r_roundId rd)) log
      then net\<lparr>n_roundOutcomes := Some log\<rparr>
      else net\<lparr>n_roundOutcomes :=
        Some (take ROUND_OUTCOMES_KEPT (sort_key outcome_order (entry_for net self rd now # log)))\<rparr>)"

definition outcomes_for :: "network \<Rightarrow> nat \<Rightarrow> outcome_entry list \<times> nat" where
  "outcomes_for net limit =
     (let all = sort_key outcome_order (outcomes net) in
      (map (\<lambda>e. e\<lparr>o_subjectInstanceId := None, o_inviteKeyHash := None\<rparr>) (take limit all), length all))"

definition join_outcomes_about :: "network \<Rightarrow> string \<Rightarrow> outcome_entry list" where
  "join_outcomes_about net i =
     sort_key outcome_order
       (filter (\<lambda>e. o_type e = Join \<and> o_subjectInstanceId e = Some i \<and> o_inviteKeyHash e \<noteq> None) (outcomes net))"

definition join_was_denied :: "outcome_entry \<Rightarrow> bool" where
  "join_was_denied e \<longleftrightarrow> o_outcome e \<noteq> Recorded Passed"

section \<open>The log as a capped list\<close>

definition add_outcome :: "outcome_entry \<Rightarrow> outcome_entry list \<Rightarrow> outcome_entry list" where
  "add_outcome e old =
     (if list_ex (\<lambda>x. o_roundId x = o_roundId e) old then old
      else take ROUND_OUTCOMES_KEPT (sort_key outcome_order (e # old)))"

lemma distinct_map_sort_key: "distinct (map f (sort_key k xs)) = distinct (map f xs)"
  by (metis mset_map mset_eq_imp_distinct_iff mset_sort)

lemma distinct_map_take: "distinct (map f xs) \<Longrightarrow> distinct (map f (take n xs))"
  by (simp add: take_map [symmetric])

interpretation outcome_log: capped_log o_roundId ROUND_OUTCOMES_KEPT add_outcome
proof
  fix xs :: "outcome_entry list" and e
  assume "distinct (map o_roundId xs)"
  then show "distinct (map o_roundId (add_outcome e xs))"
    using distinct_map_sort_key [of o_roundId outcome_order "e # xs"]
    by (auto simp: add_outcome_def list_ex_iff simp del: sort_key_simps intro!: distinct_map_take)
next
  fix xs :: "outcome_entry list" and e
  assume "length xs \<le> ROUND_OUTCOMES_KEPT"
  then show "length (add_outcome e xs) \<le> ROUND_OUTCOMES_KEPT"
    by (simp add: add_outcome_def)
next
  fix e xs
  show "set (add_outcome e xs) \<subseteq> insert e (set xs)"
    using set_sort [of outcome_order "e # xs"]
    by (auto simp: add_outcome_def simp del: sort_key_simps dest: in_set_takeD)
qed

section \<open>Lemmas\<close>

lemma entry_for_id [simp]: "o_roundId (entry_for net self rd now) = clean LABEL_CHARS (r_roundId rd)"
  by (simp add: entry_for_def Let_def)

lemma outcomes_record: "outcomes (record_round_outcome self net rd now) = add_outcome (entry_for net self rd now) (outcomes net)"
  by (simp add: record_round_outcome_def outcomes_def [of "_\<lparr>n_roundOutcomes := _\<rparr>"] add_outcome_def Let_def)

lemma record_round_outcome_frame [frame]:
  "n_members (record_round_outcome self net rd now) = n_members net"
  "n_type (record_round_outcome self net rd now) = n_type net"
  "n_id (record_round_outcome self net rd now) = n_id net"
  "n_pendingRounds (record_round_outcome self net rd now) = n_pendingRounds net"
  "n_requireSignedVotes (record_round_outcome self net rd now) = n_requireSignedVotes net"
  "n_introductions (record_round_outcome self net rd now) = n_introductions net"
  "n_removedMembers (record_round_outcome self net rd now) = n_removedMembers net"
  by (simp_all add: record_round_outcome_def Let_def)

definition log_sorted :: "outcome_entry list \<Rightarrow> bool" where
  "log_sorted xs \<longleftrightarrow> sorted (map outcome_order xs)"

lemma add_outcome_sorted: "log_sorted xs \<Longrightarrow> log_sorted (add_outcome e xs)"
  using sorted_sort_key [of outcome_order "e # xs"]
  by (simp add: add_outcome_def log_sorted_def take_map [symmetric] sorted_wrt_take del: sort_key_simps)

text \<open>What concluding a round does to the outcome counts of a repeated record: nothing.\<close>

lemma add_outcome_again:
  assumes "e \<in> set (add_outcome e xs)" and "o_roundId e' = o_roundId e"
  shows "add_outcome e' (add_outcome e xs) = add_outcome e xs"
  using assms by (auto simp: add_outcome_def [of e'] list_ex_iff)

text \<open>An entry not older than any logged one is kept.\<close>

lemma newest_kept:
  assumes "\<forall>x \<in> set xs. outcome_order e \<le> outcome_order x" and "\<forall>x \<in> set xs. o_roundId x \<noteq> o_roundId e"
  shows "e \<in> set (add_outcome e xs)"
proof -
  have eq: "sort_key outcome_order (e # xs) = e # sort_key outcome_order xs"
  proof (cases "sort_key outcome_order xs")
    case Nil
    then show ?thesis by simp
  next
    case (Cons y ys)
    then have "y \<in> set xs" by (metis list.set_intros(1) set_sort)
    with assms(1) Cons show ?thesis by simp
  qed
  have "\<not> list_ex (\<lambda>x. o_roundId x = o_roundId e) xs"
    using assms(2) by (auto simp: list_ex_iff)
  then show ?thesis
    unfolding add_outcome_def eq by (simp add: ROUND_OUTCOMES_KEPT_def)
qed

section \<open>Properties\<close>

text \<open>
  Whatever sequence of rounds is recorded, the outcome log holds one entry per round,
  newest first, and never more than fifty of them.
\<close>

theorem outcome_log_bounded_sorted:
  "let log = outcomes (fold (\<lambda>(rd, now) n. record_round_outcome self n rd now) rds (net\<lparr>n_roundOutcomes := None\<rparr>))
   in distinct (map o_roundId log) \<and> length log \<le> 50 \<and> sorted (map outcome_order log)"
proof -
  let ?P = "\<lambda>n. outcome_log.log_ok (outcomes n) \<and> log_sorted (outcomes n)"
  have step: "?P n \<Longrightarrow> ?P (record_round_outcome self n rd now)" for n rd now
    by (simp add: outcomes_record outcome_log.add_ok add_outcome_sorted)
  have "?P (fold (\<lambda>(rd, now) n. record_round_outcome self n rd now) rds (net\<lparr>n_roundOutcomes := None\<rparr>))"
  proof (rule fold_invariant [where Q = "\<lambda>_. True"])
    show "?P (net\<lparr>n_roundOutcomes := None\<rparr>)"
      by (simp add: outcomes_def outcome_log.empty_ok log_sorted_def)
    fix x and n :: network
    assume "?P n"
    from step [OF this, of "fst x" "snd x"] show "?P ((case x of (rd, now) \<Rightarrow> \<lambda>n. record_round_outcome self n rd now) n)"
      by (simp add: case_prod_beta)
  qed simp
  then show ?thesis
    unfolding outcome_log.log_ok_def log_sorted_def Let_def unfolding ROUND_OUTCOMES_KEPT_def by blast
qed

end
