(* ===== verification/Governance.thy ===== *)
theory Governance
  imports Outcome_Log Roster
begin

text \<open>
  A vote round's life on one instance: concluding it (\<open>server/src/sync/governance.ts\<close>), opening, adopting
  and serving it (\<open>server/src/networks/round-local-state.ts\<close>, \<open>round-shape.ts\<close>), merging what a peer serves
  (\<open>server/src/sync/served-rounds.ts\<close>, \<open>peer-concluded-evidence.ts\<close>) and dropping it once it is closed and
  past its deadline (\<open>server/src/sync/vote-round-retention.ts\<close>).  Rounds are the entries of
  \<open>pendingRounds\<close>, addressed by index where the source mutates the object in place.  Work the source
  defers to a later tick, or hands to another component, is an entry of the effect list: revoking a
  peer's credentials, applying a carried meta change, notifying a removed member.
\<close>

section \<open>Concluding\<close>

datatype gov_effect =
    Revoke_if_orphaned string
  | Apply_meta string
  | Notify_removed string string string

text \<open>
  \<open>unread net rd\<close> is why this instance cannot read what a meta change proposes (the parse of
  \<open>planPassedMetaChange\<close>), \<open>None\<close> when it can or when the round changes nothing here.
\<close>

definition conclude_as :: "round_outcome \<Rightarrow> int \<Rightarrow> vote_round \<Rightarrow> vote_round" where
  "conclude_as outcome now rd =
     rd\<lparr>r_concluded := Some True, r_passed := Some (outcome = Passed), r_outcome := Some outcome,
        r_concludedAt := Some (At now)\<rparr>"

definition conclude_round_if_ready ::
  "(network \<Rightarrow> vote_round \<Rightarrow> string option) \<Rightarrow> string \<Rightarrow> int \<Rightarrow> network \<Rightarrow> vote_round
     \<Rightarrow> network \<times> vote_round \<times> gov_effect list \<times> bool" where
  "conclude_round_if_ready unread self now net rd =
     (case round_verdict net self rd now of
        None \<Rightarrow> (net, rd, [], False)
      | Some Passed \<Rightarrow>
          let rd1 = conclude_as Passed now rd;
              net1 = record_round_outcome self net rd1 now;
              subject = r_subjectInstanceId rd;
              net2 = (if r_type rd = Remove then without_member net1 subject else net1);
              revoked = (if r_type rd = Remove \<and> subject \<noteq> [] then [Revoke_if_orphaned subject] else []);
              (rd2, applied) =
                (if r_type rd \<noteq> Meta_change then (rd1, [])
                 else case unread net2 rd1 of
                   Some why \<Rightarrow> (rd1\<lparr>r_refusedHere := Some why\<rparr>, [])
                 | None \<Rightarrow> (rd1, [Apply_meta (r_roundId rd)]))
          in (net2, rd2, revoked @ applied, True)
      | Some ended \<Rightarrow>
          let rd1 = conclude_as ended now rd
          in (record_round_outcome self net rd1 now, rd1,
              if r_type rd = Join \<and> r_subjectInstanceId rd \<noteq> []
              then [Revoke_if_orphaned (r_subjectInstanceId rd)] else [], False))"

section \<open>Shape, adoption and serving\<close>

definition MAX_ROUND_VOTERS :: nat where
  "MAX_ROUND_VOTERS = 1000"

text \<open>What of the incoming schema the types of the model do not already say.\<close>

definition has_round_shape :: "vote_round \<Rightarrow> bool" where
  "has_round_shape rd \<longleftrightarrow>
     r_roundId rd \<noteq> [] \<and> r_openedAt rd \<noteq> None \<and> r_deadline rd \<noteq> None
     \<and> list_all (\<lambda>c. c_instanceId c \<noteq> []) (r_votes rd) \<and> length (r_votes rd) \<le> MAX_ROUND_VOTERS
     \<and> length (or_empty (r_wipeTypes rd)) \<le> length BRAIN_COLLECTIONS
     \<and> length (or_empty (r_requiredVoters rd)) \<le> MAX_ROUND_VOTERS"

definition canonical_round_wipe_types :: "brain_collection list \<Rightarrow> brain_collection list" where
  "canonical_round_wipe_types types = filter (\<lambda>t. t \<in> set types) BRAIN_COLLECTIONS"

definition without_local_state :: "vote_round \<Rightarrow> vote_round" where
  "without_local_state rd =
     rd\<lparr>r_appliedHere := None, r_proposedHere := None, r_outcome := None, r_concludedAt := None,
        r_refusedHere := None, r_actLocalId := None, r_peersConcluded := None\<rparr>"

definition open_round_here :: "network \<Rightarrow> vote_round \<Rightarrow> network" where
  "open_round_here net rd =
     net\<lparr>n_pendingRounds := n_pendingRounds net @ [rd\<lparr>r_appliedHere := None, r_proposedHere := Some True\<rparr>]\<rparr>"

datatype adoption_why =
  Past_deadline | Beyond_cap | Already_recorded | By_subscriber | Malformed

definition DEFAULT_STAMP_SKEW_WARN_MINUTES :: int where
  "DEFAULT_STAMP_SKEW_WARN_MINUTES = 40"

definition round_opened_ahead :: "vote_round \<Rightarrow> int \<Rightarrow> bool" where
  "round_opened_ahead rd now =
     (case date_of (r_openedAt rd) of
        None \<Rightarrow> False
      | Some opened \<Rightarrow> now + DEFAULT_STAMP_SKEW_WARN_MINUTES * 60000 < opened)"

definition adoption_refusal :: "string \<Rightarrow> network \<Rightarrow> vote_round \<Rightarrow> int \<Rightarrow> adoption_why option" where
  "adoption_refusal self net rd now =
     (if \<not> has_round_shape rd then Some Malformed
      else if round_past_deadline rd now then Some Past_deadline
      else if round_deadline_beyond_cap rd then Some Beyond_cap
      else if list_ex (\<lambda>e. o_roundId e = r_roundId rd) (outcomes net) then Some Already_recorded
      else if is_space_act_round (r_type rd) \<and> publishes_on net self then Some By_subscriber
      else None)"

definition adopted :: "vote_round \<Rightarrow> vote_round" where
  "adopted rd =
     (without_local_state rd)\<lparr>r_votes := [], r_concluded := Some False,
        r_wipeTypes := map_option canonical_round_wipe_types (r_wipeTypes rd)\<rparr>"

definition adopt_peer_round :: "network \<Rightarrow> vote_round \<Rightarrow> network" where
  "adopt_peer_round net rd = net\<lparr>n_pendingRounds := n_pendingRounds net @ [adopted rd]\<rparr>"

definition round_for_peer :: "vote_round \<Rightarrow> vote_round" where
  "round_for_peer rd =
     (let copy = without_local_state rd in
      if is_space_act_round (r_type rd)
      then copy\<lparr>r_concluded := Some (r_concluded rd = Some True \<and> r_appliedHere rd = Some True)\<rparr>
      else copy)"

section \<open>What a peer serves\<close>

definition round_index :: "network \<Rightarrow> string \<Rightarrow> nat option" where
  "round_index net rid = find_index (\<lambda>r. r_roundId r = rid) (n_pendingRounds net)"

definition update_round :: "nat \<Rightarrow> (vote_round \<Rightarrow> vote_round) \<Rightarrow> network \<Rightarrow> network" where
  "update_round k f net = net\<lparr>n_pendingRounds := update_at k f (n_pendingRounds net)\<rparr>"

definition record_peer_concluded :: "network \<Rightarrow> vote_round \<Rightarrow> string \<Rightarrow> bool \<times> network" where
  "record_peer_concluded net served member =
     (if \<not> is_space_act_round (r_type served) \<or> r_concluded served \<noteq> Some True \<or> r_passed served \<noteq> Some True
      then (False, net)
      else case round_index net (r_roundId served) of
        None \<Rightarrow> (False, net)
      | Some k \<Rightarrow>
          let local = n_pendingRounds net ! k; known = or_empty (r_peersConcluded local) in
          if r_type local \<noteq> r_type served \<or> member \<in> set known then (False, net)
          else (True, update_round k (\<lambda>r. r\<lparr>r_peersConcluded := Some (known @ [member])\<rparr>) net))"

definition stamped_at_receipt :: "vote_cast \<Rightarrow> int \<Rightarrow> vote_cast" where
  "stamped_at_receipt c now = (if truthy_date (c_castAt c) then c else c\<lparr>c_castAt := Some (At now)\<rparr>)"

text \<open>One accepted cast merged into a ballot: whether it changed, and the ballot.\<close>

definition merge_cast :: "int \<Rightarrow> vote_cast \<Rightarrow> vote_cast list \<Rightarrow> bool \<times> vote_cast list" where
  "merge_cast now c votes =
     (let wire = cast_for_wire (stamped_at_receipt c now) in
      case find_index (\<lambda>v. c_instanceId v = c_instanceId c) votes of
        None \<Rightarrow> (True, votes @ [wire])
      | Some k \<Rightarrow>
          let had = votes ! k in
          if c_vote had \<noteq> c_vote c \<or> c_sig had \<noteq> c_sig c \<or> c_bsig had \<noteq> c_bsig c
          then (True, update_at k (\<lambda>_. wire) votes) else (False, votes))"

definition merge_served_cast ::
  "verifier \<Rightarrow> self_identity \<Rightarrow> network \<Rightarrow> vote_round \<Rightarrow> string \<Rightarrow> int \<Rightarrow> vote_cast
     \<Rightarrow> bool \<times> vote_cast list \<Rightarrow> bool \<times> vote_cast list" where
  "merge_served_cast verify me net rd member now c st =
     (if accept_vote_cast verify me net rd c (Some member) \<noteq> Accept then st
      else let (did, votes) = merge_cast now c (snd st) in (fst st \<or> did, votes))"

record served_out =
  v_net :: network
  v_changed :: bool
  v_refused :: "adoption_why list"

definition take_served_round ::
  "verifier \<Rightarrow> self_identity \<Rightarrow> string \<Rightarrow> int \<Rightarrow> vote_round \<Rightarrow> served_out \<Rightarrow> served_out" where
  "take_served_round verify me member now peer st =
     (if \<not> has_round_shape peer then st\<lparr>v_refused := v_refused st @ [Malformed]\<rparr>
      else
        let (noted, net1) = record_peer_concluded (v_net st) peer member;
            st1 = st\<lparr>v_net := net1, v_changed := v_changed st \<or> noted\<rparr>;
            found = round_index net1 (r_roundId peer);
            why = (if found = None then adoption_refusal (s_instanceId me) net1 peer now else None)
        in (case why of
              Some w \<Rightarrow> st1\<lparr>v_refused := v_refused st1 @ [w]\<rparr>
            | None \<Rightarrow>
                let st2 = (if found = None
                           then st1\<lparr>v_net := adopt_peer_round net1 peer, v_changed := True\<rparr> else st1);
                    net2 = v_net st2;
                    k = the (round_index net2 (r_roundId peer));
                    rd = n_pendingRounds net2 ! k
                in if \<not> round_is_open rd now then st2
                   else
                     let (did, votes) = fold (merge_served_cast verify me net2 rd member now)
                           (r_votes peer) (False, r_votes rd)
                     in st2\<lparr>v_net := update_round k (\<lambda>r. r\<lparr>r_votes := votes\<rparr>) net2,
                            v_changed := v_changed st2 \<or> did\<rparr>))"

definition take_served_rounds ::
  "verifier \<Rightarrow> self_identity \<Rightarrow> network \<Rightarrow> vote_round list \<Rightarrow> string \<Rightarrow> int \<Rightarrow> served_out" where
  "take_served_rounds verify me net served member now =
     fold (take_served_round verify me member now) served \<lparr>v_net = net, v_changed = False, v_refused = []\<rparr>"

section \<open>Dropping closed rounds\<close>

definition prune_expired_rounds :: "'e act_entry_scheme list \<Rightarrow> string \<Rightarrow> network \<Rightarrow> int \<Rightarrow> nat \<times> network" where
  "prune_expired_rounds acts self net now =
     (let rds = n_pendingRounds net;
          keep = (\<lambda>r. \<not> is_round_prunable r now \<or> act_stands_for_round acts net r);
          gone = filter (\<lambda>r. \<not> keep r) rds
      in if gone = [] then (0, net)
         else (length gone,
               (fold (\<lambda>r n. record_round_outcome self n r now) gone net)\<lparr>n_pendingRounds := filter keep rds\<rparr>))"

section \<open>Which casts are authentic\<close>

text \<open>
  What makes a cast one its voter made: a signature that verifies over this round, or, where the network
  does not require one, the voter relaying it itself.
\<close>

definition authentic ::
  "verifier \<Rightarrow> self_identity \<Rightarrow> network \<Rightarrow> string \<Rightarrow> vote_round \<Rightarrow> vote_cast \<Rightarrow> bool" where
  "authentic verify me net member rd c \<longleftrightarrow>
     is_vote_cast_signature_valid verify me net rd c
     \<or> (\<not> n_requireSignedVotes net \<and> c_instanceId c = member)"

text \<open>Two states of one round: everything but the ballot and the evidence of who concluded is the same.\<close>

definition same_round :: "vote_round \<Rightarrow> vote_round \<Rightarrow> bool" where
  "same_round rd rd' \<longleftrightarrow> rd'\<lparr>r_votes := [], r_peersConcluded := None\<rparr> = rd\<lparr>r_votes := [], r_peersConcluded := None\<rparr>"

lemma same_roundD:
  assumes "same_round rd rd'"
  shows "r_roundId rd' = r_roundId rd" "r_type rd' = r_type rd" "r_subjectInstanceId rd' = r_subjectInstanceId rd"
    "r_spaceId rd' = r_spaceId rd" "r_networkSpaceId rd' = r_networkSpaceId rd" "r_wipeTypes rd' = r_wipeTypes rd"
    "r_deadline rd' = r_deadline rd" "r_openedAt rd' = r_openedAt rd" "r_concluded rd' = r_concluded rd"
    "r_passed rd' = r_passed rd" "r_appliedHere rd' = r_appliedHere rd" "r_proposedHere rd' = r_proposedHere rd"
    "r_outcome rd' = r_outcome rd"
  using assms unfolding same_round_def by (cases rd; cases rd'; simp)+

lemma same_round_refl [simp]: "same_round rd rd"
  by (simp add: same_round_def)

lemma same_round_trans: "same_round a b \<Longrightarrow> same_round b c \<Longrightarrow> same_round a c"
  by (simp add: same_round_def)

lemma same_round_open: "same_round rd rd' \<Longrightarrow> round_is_open rd' now = round_is_open rd now"
  by (simp add: round_is_open_def round_past_deadline_def same_roundD)

lemma signature_same_round:
  assumes "same_round rd rd'"
  shows "is_vote_cast_signature_valid verify me net rd' c = is_vote_cast_signature_valid verify me net rd c"
  using same_roundD [OF assms]
  by (simp add: is_vote_cast_signature_valid_def vote_cast_bound_message_def vote_cast_message_def
      round_target_fields_def Let_def)

lemma authentic_same_round:
  "same_round rd rd' \<Longrightarrow> authentic verify me net member rd' c = authentic verify me net member rd c"
  by (simp add: authentic_def signature_same_round)

definition vote_frame :: "network \<Rightarrow> network \<Rightarrow> bool" where
  "vote_frame net net' \<longleftrightarrow> n_id net' = n_id net \<and> n_members net' = n_members net
     \<and> n_requireSignedVotes net' = n_requireSignedVotes net \<and> n_roundOutcomes net' = n_roundOutcomes net
     \<and> n_type net' = n_type net \<and> n_myParentInstanceId net' = n_myParentInstanceId net"

lemma accept_frame:
  assumes "vote_frame net net'"
  shows "accept_vote_cast verify me net' rd c r = accept_vote_cast verify me net rd c r"
proof -
  have "member_of net' = member_of net" using assms by (simp add: vote_frame_def member_of_def fun_eq_iff)
  with assms show ?thesis
    by (simp add: vote_frame_def accept_vote_cast_def is_vote_cast_signature_valid_def voter_public_key_def
        voter_signs_bound_def vote_cast_bound_message_def vote_cast_message_def Let_def)
qed

lemma truthy_wire: "truthy_str (if truthy_str s then s else None) = truthy_str s"
  by simp

lemma signature_wire:
  "is_vote_cast_signature_valid verify me net rd (cast_for_wire (stamped_at_receipt c now)) =
   is_vote_cast_signature_valid verify me net rd c"
proof -
  have w: "c_sig (cast_for_wire (stamped_at_receipt c now)) = (if truthy_str (c_sig c) then c_sig c else None)"
    "c_bsig (cast_for_wire (stamped_at_receipt c now)) = (if truthy_str (c_bsig c) then c_bsig c else None)"
    "c_instanceId (cast_for_wire (stamped_at_receipt c now)) = c_instanceId c"
    "c_vote (cast_for_wire (stamped_at_receipt c now)) = c_vote c"
    by (simp_all add: cast_for_wire_def stamped_at_receipt_def)
  show ?thesis
    unfolding is_vote_cast_signature_valid_def vote_cast_bound_message_def vote_cast_message_def w Let_def
    by simp
qed

lemma accepted_authentic:
  assumes "accept_vote_cast verify me net rd c (Some member) = Accept"
  shows "authentic verify me net member rd (cast_for_wire (stamped_at_receipt c now))"
proof -
  have "c_instanceId (cast_for_wire (stamped_at_receipt c now)) = c_instanceId c"
    by (simp add: cast_for_wire_def stamped_at_receipt_def)
  with assms show ?thesis
    by (auto simp: authentic_def signature_wire accept_vote_cast_def split: if_splits)
qed

section \<open>Merging a ballot\<close>

lemma merge_cast_set:
  "set (snd (merge_cast now c votes)) \<subseteq> insert (cast_for_wire (stamped_at_receipt c now)) (set votes)"
  using set_update_at [of _ _ "\<lambda>_. cast_for_wire (stamped_at_receipt c now)" votes]
  by (auto simp: merge_cast_def Let_def split: option.splits)

lemma wire_id [simp]: "c_instanceId (cast_for_wire (stamped_at_receipt c now)) = c_instanceId c"
  by (simp add: cast_for_wire_def stamped_at_receipt_def)

lemma merge_cast_ids:
  "map c_instanceId (snd (merge_cast now c votes)) =
     (if c_instanceId c \<in> c_instanceId ` set votes then map c_instanceId votes
      else map c_instanceId votes @ [c_instanceId c])"
proof (cases "find_index (\<lambda>v. c_instanceId v = c_instanceId c) votes")
  case None
  then have "c_instanceId c \<notin> c_instanceId ` set votes"
    by (auto simp: find_index_None_iff)
  with None show ?thesis by (simp add: merge_cast_def Let_def)
next
  case (Some k)
  note k = find_index_SomeD [OF Some]
  then have "c_instanceId c \<in> c_instanceId ` set votes" by (metis imageI nth_mem)
  moreover have "(map c_instanceId votes)[k := c_instanceId c] = map c_instanceId votes"
    using k by (metis list_update_id nth_map)
  then have "map c_instanceId (update_at k (\<lambda>_. cast_for_wire (stamped_at_receipt c now)) votes) = map c_instanceId votes"
    using k by (simp add: update_at_def map_update)
  ultimately show ?thesis using Some by (simp add: merge_cast_def Let_def)
qed

lemma merge_cast_distinct:
  "distinct (map c_instanceId votes) \<Longrightarrow> distinct (map c_instanceId (snd (merge_cast now c votes)))"
  by (simp add: merge_cast_ids)

lemma merge_casts:
  fixes votes :: "vote_cast list"
  assumes "(did, votes') = fold (merge_served_cast verify me net rd member now) cs (d, votes)"
  shows "\<forall>c \<in> set votes'. c \<in> set votes \<or> authentic verify me net member rd c"
    and "distinct (map c_instanceId votes) \<longrightarrow> distinct (map c_instanceId votes')"
proof -
  let ?P = "\<lambda>st :: bool \<times> vote_cast list. (\<forall>c \<in> set (snd st). c \<in> set votes \<or> authentic verify me net member rd c)
      \<and> (distinct (map c_instanceId votes) \<longrightarrow> distinct (map c_instanceId (snd st)))"
  have "?P (fold (merge_served_cast verify me net rd member now) cs (d, votes))"
  proof (rule fold_invariant [where Q = "\<lambda>_. True"])
    fix c and st :: "bool \<times> vote_cast list"
    assume P: "?P st"
    show "?P (merge_served_cast verify me net rd member now c st)"
    proof (cases "accept_vote_cast verify me net rd c (Some member) = Accept")
      case True
      have eq: "snd (merge_served_cast verify me net rd member now c st) = snd (merge_cast now c (snd st))"
        using True by (simp add: merge_served_cast_def split: prod.splits)
      show ?thesis
        unfolding eq using P merge_cast_set [of now c "snd st"] merge_cast_distinct [of "snd st" now c]
          accepted_authentic [OF True, of now] by blast
    next
      case False
      with P show ?thesis by (simp add: merge_served_cast_def)
    qed
  qed simp_all
  with assms show "\<forall>c \<in> set votes'. c \<in> set votes \<or> authentic verify me net member rd c"
    and "distinct (map c_instanceId votes) \<longrightarrow> distinct (map c_instanceId votes')"
    by (simp_all flip: assms)
qed

section \<open>How a gossip answer moves the rounds\<close>

text \<open>
  One round before and after: only a ballot still open may change, what it gained is authentic, and one
  cast per voter stays one cast per voter.
\<close>

definition evolves :: "(vote_round \<Rightarrow> vote_cast \<Rightarrow> bool) \<Rightarrow> int \<Rightarrow> vote_round \<Rightarrow> vote_round \<Rightarrow> bool" where
  "evolves auth now rd rd' \<longleftrightarrow>
     same_round rd rd'
     \<and> (\<not> round_is_open rd now \<longrightarrow> r_votes rd' = r_votes rd)
     \<and> (\<forall>c \<in> set (r_votes rd'). c \<in> set (r_votes rd) \<or> auth rd c)
     \<and> (distinct (map c_instanceId (r_votes rd)) \<longrightarrow> distinct (map c_instanceId (r_votes rd')))"

lemma evolves_refl [simp]: "evolves auth now rd rd"
  by (simp add: evolves_def)

lemma evolves_trans:
  assumes "evolves (authentic verify me net member) now a b" "evolves (authentic verify me net member) now b c"
  shows "evolves (authentic verify me net member) now a c"
proof -
  have ab: "same_round a b" using assms(1) by (simp add: evolves_def)
  note eqs = same_round_open [OF ab, of now] authentic_same_round [OF ab, of verify me net member]
  have bc: "same_round b c" and frozen: "\<not> round_is_open a now \<longrightarrow> r_votes c = r_votes b"
    and auth: "\<forall>v \<in> set (r_votes c). v \<in> set (r_votes b) \<or> authentic verify me net member a v"
    and dist: "distinct (map c_instanceId (r_votes b)) \<longrightarrow> distinct (map c_instanceId (r_votes c))"
    using assms(2) unfolding evolves_def eqs by blast+
  show ?thesis
    unfolding evolves_def
  proof (intro conjI)
    show "same_round a c" using ab bc by (rule same_round_trans)
    show "\<not> round_is_open a now \<longrightarrow> r_votes c = r_votes a"
      using frozen assms(1) by (simp add: evolves_def)
    show "\<forall>v \<in> set (r_votes c). v \<in> set (r_votes a) \<or> authentic verify me net member a v"
      using auth assms(1) unfolding evolves_def by blast
    show "distinct (map c_instanceId (r_votes a)) \<longrightarrow> distinct (map c_instanceId (r_votes c))"
      using dist assms(1) unfolding evolves_def by blast
  qed
qed

text \<open>
  A round a peer's answer added: it was open, dated and within what a network allows when it was taken,
  not one this instance had already recorded, and it arrived with no ballot and no local state.
\<close>

definition freshly_adopted :: "string \<Rightarrow> network \<Rightarrow> int \<Rightarrow> vote_round \<Rightarrow> bool" where
  "freshly_adopted self net now rd \<longleftrightarrow>
     (\<exists>peer. rd = adopted peer \<and> has_round_shape peer \<and> \<not> round_past_deadline peer now
        \<and> \<not> round_deadline_beyond_cap peer
        \<and> (\<forall>e \<in> set (outcomes net). o_roundId e \<noteq> r_roundId peer)
        \<and> \<not> (is_space_act_round (r_type peer) \<and> publishes_on net self))"

lemma adopted_simps [simp]:
  "r_roundId (adopted rd) = r_roundId rd" "r_type (adopted rd) = r_type rd" "r_votes (adopted rd) = []"
  "r_concluded (adopted rd) = Some False" "r_appliedHere (adopted rd) = None" "r_proposedHere (adopted rd) = None"
  "r_outcome (adopted rd) = None" "r_deadline (adopted rd) = r_deadline rd"
  by (simp_all add: adopted_def without_local_state_def)

lemma adoption_refusal_None:
  "adoption_refusal self net rd now = None \<Longrightarrow> freshly_adopted self net now (adopted rd)"
  by (auto simp: adoption_refusal_def freshly_adopted_def list_ex_iff split: if_splits)

text \<open>
  The whole state: each round held before is followed by its evolution at the same place, and every
  later one is the evolution of a freshly adopted round.
\<close>

definition gossip_rel ::
  "verifier \<Rightarrow> self_identity \<Rightarrow> string \<Rightarrow> int \<Rightarrow> network \<Rightarrow> network \<Rightarrow> bool" where
  "gossip_rel verify me member now net net' \<longleftrightarrow>
     vote_frame net net'
     \<and> length (n_pendingRounds net) \<le> length (n_pendingRounds net')
     \<and> (\<forall>k < length (n_pendingRounds net').
          if k < length (n_pendingRounds net)
          then evolves (authentic verify me net member) now (n_pendingRounds net ! k) (n_pendingRounds net' ! k)
          else \<exists>rd. freshly_adopted (s_instanceId me) net now rd
                 \<and> evolves (authentic verify me net member) now rd (n_pendingRounds net' ! k))
     \<and> (distinct (map r_roundId (n_pendingRounds net)) \<longrightarrow> distinct (map r_roundId (n_pendingRounds net')))"

lemma gossip_rel_refl [simp]: "gossip_rel verify me member now net net"
  by (simp add: gossip_rel_def vote_frame_def)

lemma update_round_ids:
  "(\<And>r. r_roundId (f r) = r_roundId r) \<Longrightarrow>
     map r_roundId (n_pendingRounds (update_round k f net)) = map r_roundId (n_pendingRounds net)"
  by (simp add: update_round_def update_at_def map_update list_update_same_conv nth_map)

lemma gossip_rel_update:
  assumes rel: "gossip_rel verify me member now net net1"
    and k: "k < length (n_pendingRounds net1)"
    and ev: "evolves (authentic verify me net member) now (n_pendingRounds net1 ! k) (f (n_pendingRounds net1 ! k))"
    and ids: "\<And>r. r_roundId (f r) = r_roundId r"
  shows "gossip_rel verify me member now net (update_round k f net1)"
proof -
  have frame: "vote_frame net (update_round k f net1)"
    using rel by (simp add: gossip_rel_def vote_frame_def update_round_def)
  have len: "length (n_pendingRounds (update_round k f net1)) = length (n_pendingRounds net1)"
    by (simp add: update_round_def)
  have nth: "n_pendingRounds (update_round k f net1) ! j =
      (if j = k then f (n_pendingRounds net1 ! k) else n_pendingRounds net1 ! j)" if "j < length (n_pendingRounds net1)" for j
    using k that by (simp add: update_round_def update_at_def)
  have each: "if j < length (n_pendingRounds net)
        then evolves (authentic verify me net member) now (n_pendingRounds net ! j) (n_pendingRounds (update_round k f net1) ! j)
        else \<exists>rd. freshly_adopted (s_instanceId me) net now rd
               \<and> evolves (authentic verify me net member) now rd (n_pendingRounds (update_round k f net1) ! j)"
    if j: "j < length (n_pendingRounds net1)" for j
  proof -
    have old: "if j < length (n_pendingRounds net)
        then evolves (authentic verify me net member) now (n_pendingRounds net ! j) (n_pendingRounds net1 ! j)
        else \<exists>rd. freshly_adopted (s_instanceId me) net now rd
               \<and> evolves (authentic verify me net member) now rd (n_pendingRounds net1 ! j)"
      using rel j by (simp add: gossip_rel_def)
    show ?thesis
    proof (cases "j = k")
      case True
      have "n_pendingRounds (update_round k f net1) ! j = f (n_pendingRounds net1 ! k)"
        using nth [OF j] True by simp
      with old ev True show ?thesis by (auto split: if_splits intro: evolves_trans)
    next
      case False
      with old show ?thesis unfolding nth [OF j] by simp
    qed
  qed
  show ?thesis
    unfolding gossip_rel_def len update_round_ids [OF ids]
    using frame each rel by (simp add: gossip_rel_def)
qed

lemma vote_frame_outcomes: "vote_frame net net' \<Longrightarrow> outcomes net' = outcomes net"
  by (simp add: vote_frame_def outcomes_def)

lemma gossip_rel_adopt:
  assumes rel: "gossip_rel verify me member now net net1"
    and fresh: "freshly_adopted (s_instanceId me) net now (adopted peer)"
    and new: "round_index net1 (r_roundId peer) = None"
  shows "gossip_rel verify me member now net (adopt_peer_round net1 peer)"
proof -
  have "r_roundId peer \<notin> r_roundId ` set (n_pendingRounds net1)"
    using new by (auto simp: round_index_def find_index_None_iff)
  moreover have "vote_frame net (adopt_peer_round net1 peer)"
    using rel by (simp add: gossip_rel_def vote_frame_def adopt_peer_round_def)
  moreover have "evolves auth now (adopted peer) (adopted peer)" for auth by simp
  ultimately show ?thesis
    using rel fresh unfolding gossip_rel_def adopt_peer_round_def
    by (auto simp: nth_append less_Suc_eq split: if_splits)
qed

section \<open>The gossip handler\<close>

lemma record_peer_concluded_rel:
  assumes rel: "gossip_rel verify me member now net net1"
  shows "gossip_rel verify me member now net (snd (record_peer_concluded net1 served m))"
proof -
  have "gossip_rel verify me member now net (update_round k (\<lambda>r. r\<lparr>r_peersConcluded := Some xs\<rparr>) net1)"
    if "round_index net1 (r_roundId served) = Some k" for k xs
  proof (rule gossip_rel_update [OF rel])
    show "k < length (n_pendingRounds net1)"
      using find_index_SomeD [OF that [unfolded round_index_def]] by simp
    show "evolves (authentic verify me net member) now (n_pendingRounds net1 ! k)
        ((n_pendingRounds net1 ! k)\<lparr>r_peersConcluded := Some xs\<rparr>)"
      by (auto simp: evolves_def same_round_def)
  qed simp
  then show ?thesis
    using rel by (auto simp: record_peer_concluded_def Let_def split: option.splits)
qed

lemma merge_ballot_rel:
  assumes rel: "gossip_rel verify me member now net net1"
    and k: "k < length (n_pendingRounds net1)" and op: "round_is_open (n_pendingRounds net1 ! k) now"
    and votes: "(did, votes) = fold (merge_served_cast verify me net1 (n_pendingRounds net1 ! k) member now) cs
                  (False, r_votes (n_pendingRounds net1 ! k))"
  shows "gossip_rel verify me member now net (update_round k (\<lambda>r. r\<lparr>r_votes := votes\<rparr>) net1)"
proof (rule gossip_rel_update [OF rel k])
  have fr: "vote_frame net net1" using rel by (simp add: gossip_rel_def)
  have "merge_served_cast verify me net1 rd member now = merge_served_cast verify me net rd member now" for rd
    by (simp add: merge_served_cast_def accept_frame [OF fr] fun_eq_iff)
  with votes have "(did, votes) = fold (merge_served_cast verify me net (n_pendingRounds net1 ! k) member now) cs
                  (False, r_votes (n_pendingRounds net1 ! k))" by simp
  from merge_casts [OF this] op
  show "evolves (authentic verify me net member) now (n_pendingRounds net1 ! k)
      ((n_pendingRounds net1 ! k)\<lparr>r_votes := votes\<rparr>)"
    by (simp add: evolves_def same_round_def)
qed simp

lemma round_index_adopt:
  "round_index net (r_roundId peer) = None \<Longrightarrow>
     round_index (adopt_peer_round net peer) (r_roundId peer) = Some (length (n_pendingRounds net))"
proof -
  assume "round_index net (r_roundId peer) = None"
  then have "\<forall>r \<in> set (n_pendingRounds net). r_roundId r \<noteq> r_roundId peer"
    by (simp add: round_index_def find_index_None_iff)
  moreover have "find_index P (xs @ [x]) = Some (length xs)" if "\<forall>y \<in> set xs. \<not> P y" "P x" for P :: "vote_round \<Rightarrow> bool" and xs x
    using that by (induction xs) auto
  ultimately show ?thesis by (simp add: round_index_def adopt_peer_round_def)
qed

lemma publishes_on_iff:
  "publishes_on net self \<longleftrightarrow> n_type net = Pubsub \<and> List.find (\<lambda>m. m_direction m = Pull) (n_members net) = None"
  by (auto simp: publishes_on_def network_role_def split: option.splits)

lemma adopt_step_rel:
  assumes rel: "gossip_rel verify me member now net net1"
    and why: "round_index net1 (r_roundId peer) = None \<Longrightarrow> adoption_refusal (s_instanceId me) net1 peer now = None"
  defines "net2 \<equiv> (if round_index net1 (r_roundId peer) = None then adopt_peer_round net1 peer else net1)"
  shows "gossip_rel verify me member now net net2"
    and "the (round_index net2 (r_roundId peer)) < length (n_pendingRounds net2)"
proof -
  have fr: "vote_frame net net1" using rel by (simp add: gossip_rel_def)
  have pub: "publishes_on net1 i = publishes_on net i" for i
    using fr by (simp add: publishes_on_iff vote_frame_def)
  have fresh: "freshly_adopted (s_instanceId me) net now (adopted peer)" if "round_index net1 (r_roundId peer) = None"
    using adoption_refusal_None [OF why [OF that]] vote_frame_outcomes [OF fr] by (simp add: freshly_adopted_def pub)
  show "gossip_rel verify me member now net net2"
    using rel gossip_rel_adopt [OF rel fresh] by (simp add: net2_def)
  show "the (round_index net2 (r_roundId peer)) < length (n_pendingRounds net2)"
  proof (cases "round_index net1 (r_roundId peer)")
    case None
    then have "net2 = adopt_peer_round net1 peer" by (simp add: net2_def)
    moreover have "length (n_pendingRounds (adopt_peer_round net1 peer)) = Suc (length (n_pendingRounds net1))"
      by (simp add: adopt_peer_round_def)
    ultimately show ?thesis using round_index_adopt [OF None] by simp
  next
    case (Some k)
    then show ?thesis using find_index_SomeD [OF Some [unfolded round_index_def]] by (simp add: net2_def)
  qed
qed

text \<open>One served round, in the shape the proofs use: refused, taken without a ballot, or merged.\<close>

lemma take_served_round_rel:
  assumes "gossip_rel verify me member now net (v_net st)"
  shows "gossip_rel verify me member now net (v_net (take_served_round verify me member now peer st))"
proof (cases "has_round_shape peer")
  case False
  with assms show ?thesis by (simp add: take_served_round_def)
next
  case True
  obtain noted net1 where rp: "record_peer_concluded (v_net st) peer member = (noted, net1)"
    by (cases "record_peer_concluded (v_net st) peer member")
  have rel1: "gossip_rel verify me member now net net1"
    using record_peer_concluded_rel [OF assms, of peer member] rp by simp
  define found where "found = round_index net1 (r_roundId peer)"
  define why where "why = (if found = None then adoption_refusal (s_instanceId me) net1 peer now else None)"
  show ?thesis
  proof (cases why)
    case (Some w)
    then show ?thesis
      using True rel1 by (simp add: take_served_round_def rp Let_def why_def found_def)
  next
    case None
    define net2 where "net2 = (if found = None then adopt_peer_round net1 peer else net1)"
    define k where "k = the (round_index net2 (r_roundId peer))"
    define rd where "rd = n_pendingRounds net2 ! k"
    have rel2: "gossip_rel verify me member now net net2" and k: "k < length (n_pendingRounds net2)"
      using adopt_step_rel [OF rel1, of peer] None unfolding net2_def k_def found_def why_def by auto
    obtain did votes where v: "fold (merge_served_cast verify me net2 rd member now) (r_votes peer) (False, r_votes rd) = (did, votes)"
      by (metis surj_pair)
    have out: "v_net (take_served_round verify me member now peer st) =
        (if \<not> round_is_open rd now then net2 else update_round k (\<lambda>r. r\<lparr>r_votes := votes\<rparr>) net2)"
      using True None v unfolding take_served_round_def rp Let_def why_def found_def net2_def k_def rd_def
      by (auto simp: Let_def split: if_splits)
    show ?thesis
    proof (cases "round_is_open rd now")
      case True
      with merge_ballot_rel [OF rel2 k, of did votes "r_votes peer"] v show ?thesis
        unfolding out by (simp add: rd_def)
    next
      case False
      with rel2 show ?thesis unfolding out by simp
    qed
  qed
qed

lemma take_served_rounds_rel:
  "gossip_rel verify me member now net (v_net (take_served_rounds verify me net served member now))"
  unfolding take_served_rounds_def
  by (rule fold_invariant [where Q = "\<lambda>_. True"]) (simp_all add: take_served_round_rel)

section \<open>Properties\<close>

text \<open>The state after a gossip answer.\<close>

definition after_gossip :: "verifier \<Rightarrow> self_identity \<Rightarrow> network \<Rightarrow> vote_round list \<Rightarrow> string \<Rightarrow> int \<Rightarrow> vote_round list" where
  "after_gossip verify me net served member now =
     n_pendingRounds (v_net (take_served_rounds verify me net served member now))"

text \<open>
  Property C2: whatever a peer serves, a round this instance holds gains only authentic casts: each cast
  found on it afterwards was there before, or carries a signature that verifies over this round under its
  voter's pinned key, or (only where the network does not require signatures) is the serving member's own.
  A round that is closed or past its deadline keeps its ballot, a voter keeps at most one cast, and
  nothing else of the round but the evidence of who concluded it changes.
\<close>

theorem gossip_casts_authentic:
  assumes "k < length (n_pendingRounds net)"
  shows "k < length (after_gossip verify me net served member now)
    \<and> evolves (authentic verify me net member) now (n_pendingRounds net ! k) (after_gossip verify me net served member now ! k)"
  using take_served_rounds_rel [of verify me member now net served] assms
  unfolding gossip_rel_def after_gossip_def by fastforce

text \<open>
  A round a peer's answer adds arrives as one nobody has settled: dated, open, within the
  longest deadline a network allows, never one already in the outcome log, with no local state (so it is
  neither owed nor applied here) and only authentic casts.
\<close>

theorem gossip_adopts_unsettled:
  assumes "rd \<in> set (after_gossip verify me net served member now)"
    and "r_roundId rd \<notin> r_roundId ` set (n_pendingRounds net)"
  shows "round_is_open rd now \<and> r_concluded rd = Some False \<and> r_outcome rd = None
    \<and> \<not> space_act_owed rd \<and> \<not> space_act_applied rd \<and> r_proposedHere rd = None
    \<and> (\<forall>e \<in> set (outcomes net). o_roundId e \<noteq> r_roundId rd)
    \<and> (\<forall>c \<in> set (r_votes rd). authentic verify me net member rd c)"
proof -
  let ?rs = "after_gossip verify me net served member now"
  obtain k where k: "k < length ?rs" "?rs ! k = rd" using assms(1) by (metis in_set_conv_nth)
  have rel: "if k < length (n_pendingRounds net)
      then evolves (authentic verify me net member) now (n_pendingRounds net ! k) (?rs ! k)
      else \<exists>r. freshly_adopted (s_instanceId me) net now r \<and> evolves (authentic verify me net member) now r (?rs ! k)"
    using take_served_rounds_rel [of verify me member now net served] k(1)
    unfolding gossip_rel_def after_gossip_def by blast
  have "\<not> k < length (n_pendingRounds net)"
  proof
    assume lt: "k < length (n_pendingRounds net)"
    with rel k(2) have "same_round (n_pendingRounds net ! k) rd" by (simp add: evolves_def)
    from same_roundD(1) [OF this] lt assms(2) show False by (metis imageI nth_mem)
  qed
  with rel k(2) obtain r where fresh: "freshly_adopted (s_instanceId me) net now r"
    and ev: "evolves (authentic verify me net member) now r rd" by auto
  then obtain peer where peer: "r = adopted peer" "\<not> round_past_deadline peer now"
    "\<forall>e \<in> set (outcomes net). o_roundId e \<noteq> r_roundId peer" by (auto simp: freshly_adopted_def)
  have same: "same_round r rd" using ev by (simp add: evolves_def)
  note eqs = same_roundD [OF same]
  have "\<forall>c \<in> set (r_votes rd). authentic verify me net member rd c"
    using ev peer(1) unfolding evolves_def authentic_same_round [OF same] by auto
  moreover have "round_is_open rd now"
    using peer by (simp add: round_is_open_def round_past_deadline_def eqs)
  ultimately show ?thesis
    using peer by (simp add: eqs space_act_owed_def space_act_applied_def round_passed_unvetoed_def)
qed

text \<open>
  When a peer's served copy of a space act makes this instance note that the peer concluded
  it, the peer had carried the act out: a serving instance shows a space act as concluded only once it is
  applied there, so the evidence never counts a member whose data is still in place.
\<close>

theorem evidence_means_applied:
  assumes "fst (record_peer_concluded net (round_for_peer rd) member)"
  shows "space_act_applied rd"
  using assms
  by (auto simp: record_peer_concluded_def round_for_peer_def without_local_state_def space_act_applied_def Let_def
      split: if_splits option.splits)

lemma without_member_frame [frame]:
  "n_pendingRounds (without_member net i) = n_pendingRounds net" "n_id (without_member net i) = n_id net"
  "n_roundOutcomes (without_member net i) = n_roundOutcomes net" "outcomes (without_member net i) = outcomes net"
  by (simp_all add: without_member_def outcomes_def split: option.splits)

lemma electorate_conclude [simp]:
  "round_electorate net self (conclude_as v now rd) = round_electorate net self rd"
  by (simp add: round_electorate_def conclude_as_def is_elector_def local_is_voted_on_def subject_is_voted_on_def
      voters_of_def)

lemma conclude_outcomes:
  assumes "conclude_round_if_ready unread self now net rd = (net', rd', fx, p)"
    and "round_verdict net self rd now = Some v"
  shows "outcomes net' = add_outcome (entry_for net self (conclude_as v now rd) now) (outcomes net)
    \<and> r_concluded rd' = Some True \<and> r_passed rd' = Some (v = Passed) \<and> r_outcome rd' = Some v \<and> p = (v = Passed)"
  using assms
  by (cases v) (auto simp: conclude_round_if_ready_def Let_def frame outcomes_record conclude_as_def
      split: if_splits option.splits prod.splits)

text \<open>
  On a democratic network the logged outcome of a round that just passed is the count that
  decided it: strictly more than half of the electorate voted yes, counted before a passed removal takes
  its subject off the roster.
\<close>

theorem logged_pass_is_majority:
  assumes "conclude_round_if_ready unread self now net rd = (net', rd', fx, True)"
    and "n_type net = Democratic"
    and "e \<in> set (outcomes net')" and "o_roundId e = clean LABEL_CHARS (r_roundId rd)"
    and "\<forall>x \<in> set (outcomes net). o_roundId x \<noteq> clean LABEL_CHARS (r_roundId rd)"
  shows "o_outcome e = Recorded Passed \<and> o_eligible e < 2 * o_yes e \<and> o_concludedAt e = Some (At now)"
proof -
  have v: "round_verdict net self rd now = Some Passed"
    using assms(1) by (auto simp: conclude_round_if_ready_def Let_def split: option.splits round_outcome.splits)
  have "e \<in> set (add_outcome (entry_for net self (conclude_as Passed now rd) now) (outcomes net))"
    using conclude_outcomes [OF assms(1) v] assms(3) by simp
  then have "e = entry_for net self (conclude_as Passed now rd) now"
    using outcome_log.add_from assms(4,5) by blast
  moreover have "eligible (round_electorate net self rd) < 2 * yes (round_electorate net self rd)"
    using v assms(2) by (auto simp: round_verdict_def carried_def Let_def split: if_splits)
  ultimately show ?thesis
    by (simp add: entry_for_def Let_def) (simp add: conclude_as_def)
qed

text \<open>
  Pruning drops exactly the rounds that are concluded and past their deadline, keeps a space
  act this instance still owes work for, leaves the order of the rest, and never touches the roster; each
  dropped round's outcome was handed to the bounded log.
\<close>

theorem prune_drops_only_settled:
  "n_pendingRounds (snd (prune_expired_rounds acts self net now)) =
     filter (\<lambda>r. \<not> (is_round_prunable r now \<and> \<not> act_stands_for_round acts net r)) (n_pendingRounds net)
   \<and> outcomes (snd (prune_expired_rounds acts self net now)) =
       fold (\<lambda>r. add_outcome (entry_for net self r now))
         (filter (\<lambda>r. is_round_prunable r now \<and> \<not> act_stands_for_round acts net r) (n_pendingRounds net)) (outcomes net)
   \<and> n_members (snd (prune_expired_rounds acts self net now)) = n_members net"
proof -
  have entry: "entry_for net1 self r now = entry_for net self r now"
    if "n_members net1 = n_members net" "n_spaces net1 = n_spaces net" "n_spaceMap net1 = n_spaceMap net" for net1 r
    using that by (simp add: entry_for_def round_electorate_def voters_of_def is_elector_def
        round_space_local_id_def carried_local_id_def remote_to_local_def Let_def)
  have logs: "outcomes (fold (\<lambda>r n. record_round_outcome self n r now) gone net1) =
      fold (\<lambda>r. add_outcome (entry_for net self r now)) gone (outcomes net1)
      \<and> n_members (fold (\<lambda>r n. record_round_outcome self n r now) gone net1) = n_members net"
    if "n_members net1 = n_members net" "n_spaces net1 = n_spaces net" "n_spaceMap net1 = n_spaceMap net" for net1 gone
    using that
  proof (induction gone arbitrary: net1)
    case (Cons r gone)
    have spaces: "n_spaces (record_round_outcome self net1 r now) = n_spaces net1"
      "n_spaceMap (record_round_outcome self net1 r now) = n_spaceMap net1"
      by (simp_all add: record_round_outcome_def Let_def)
    show ?case
      using Cons.IH [of "record_round_outcome self net1 r now"] Cons.prems entry [OF Cons.prems, of r]
      by (simp add: frame spaces outcomes_record)
  qed simp
  show ?thesis
  proof (cases "filter (\<lambda>r. is_round_prunable r now \<and> \<not> act_stands_for_round acts net r) (n_pendingRounds net) = []")
    case True
    then show ?thesis
      by (simp add: prune_expired_rounds_def Let_def filter_empty_conv filter_id_conv)
  next
    case False
    with logs [of net] show ?thesis
      by (simp add: prune_expired_rounds_def Let_def outcomes_def [of "_\<lparr>n_pendingRounds := _\<rparr>"] outcomes_def)
  qed
qed

section \<open>Witnesses\<close>

definition demo_me :: self_identity where
  "demo_me = \<lparr>s_instanceId = ''self'', s_signingPublicKey = Some ''pk''\<rparr>"

definition demo_holding :: network where
  "demo_holding = (demo_pair Closed)\<lparr>n_pendingRounds := [demo_round Space_wipe ''a'' []]\<rparr>"

theorem gossip_casts_authentic_witness:
  "evolves (authentic (\<lambda>k m s. True) demo_me demo_holding ''a'') 50 (demo_round Space_wipe ''a'' [])
     (after_gossip (\<lambda>k m s. True) demo_me demo_holding [demo_round Space_wipe ''a'' [demo_cast ''a'' Yes]] ''a'' 50 ! 0)"
  using gossip_casts_authentic [of 0 demo_holding "\<lambda>k m s. True" demo_me "[demo_round Space_wipe ''a'' [demo_cast ''a'' Yes]]" "''a''" 50]
  by (simp add: demo_holding_def)

theorem gossip_adopts_unsettled_witness:
  "round_is_open (adopted (demo_round Space_wipe ''a'' [])) 50"
proof -
  have "adopted (demo_round Space_wipe ''a'' [])
     \<in> set (after_gossip (\<lambda>k m s. True) demo_me (demo_pair Closed) [demo_round Space_wipe ''a'' []] ''a'' 50)"
    by (simp add: after_gossip_def take_served_rounds_def take_served_round_def has_round_shape_def demo_round_def
        BRAIN_COLLECTIONS_def MAX_ROUND_VOTERS_def record_peer_concluded_def round_index_def demo_pair_def
        demo_network_def adoption_refusal_def round_past_deadline_def round_deadline_beyond_cap_def
        MAX_VOTING_DEADLINE_HOURS_def outcomes_def publishes_on_def adopt_peer_round_def update_round_def
        update_at_def adopted_def without_local_state_def Let_def)
  from gossip_adopts_unsettled [OF this] show ?thesis by (simp add: demo_pair_def demo_network_def)
qed

theorem evidence_means_applied_witness:
  "space_act_applied ((demo_round Space_wipe ''a'' [])\<lparr>r_concluded := Some True, r_passed := Some True, r_appliedHere := Some True\<rparr>)"
  by (rule evidence_means_applied [of demo_holding _ "''a''"])
    (simp add: record_peer_concluded_def round_for_peer_def without_local_state_def demo_holding_def demo_round_def
      round_index_def Let_def)

definition demo_majority :: vote_round where
  "demo_majority = demo_round Meta_change ''a'' [demo_cast ''a'' Yes, demo_cast ''self'' Yes]"

theorem logged_pass_is_majority_witness:
  "o_eligible (entry_for (demo_pair Democratic) ''self'' (conclude_as Passed 50 demo_majority) 50)
     < 2 * o_yes (entry_for (demo_pair Democratic) ''self'' (conclude_as Passed 50 demo_majority) 50)"
proof -
  have v: "round_verdict (demo_pair Democratic) ''self'' demo_majority 50 = Some Passed"
    by (simp add: demo_majority_def round_verdict_def carried_def veto_count_def round_electorate_def Let_def
        demo_pair_def demo_simps is_elector_def local_is_voted_on_def)
  obtain net' rd' fx where c: "conclude_round_if_ready (\<lambda>n r. None) ''self'' 50 (demo_pair Democratic) demo_majority
      = (net', rd', fx, True)"
    using v by (cases "r_type demo_majority = Meta_change") (auto simp: conclude_round_if_ready_def Let_def)
  have log: "outcomes (demo_pair Democratic) = []"
    by (simp add: demo_pair_def demo_network_def outcomes_def)
  define e where "e = entry_for (demo_pair Democratic) ''self'' (conclude_as Passed 50 demo_majority) 50"
  have "e \<in> set (outcomes net')"
    using conclude_outcomes [OF c v] by (simp add: log add_outcome_def e_def ROUND_OUTCOMES_KEPT_def)
  moreover have "o_roundId e = clean LABEL_CHARS (r_roundId demo_majority)"
    by (simp add: e_def conclude_as_def)
  moreover have "n_type (demo_pair Democratic) = Democratic"
    by (simp add: demo_pair_def demo_network_def)
  ultimately have "o_eligible e < 2 * o_yes e"
    using logged_pass_is_majority [OF c, of e] log by simp
  then show ?thesis by (simp only: e_def)
qed

end
