(* ===== verification/Derived_Id.thy ===== *)
theory Derived_Id
  imports Js_Object "HOL-Library.Word"
begin

unbundle bit_operations_syntax

text \<open>
  Identities computed from content: the length-prefixed parts and the v4-shaped digest id of
  \<open>server/src/util/derived-id.ts\<close>, and the edge and link ids of \<open>server/src/brain/edge-id.ts\<close>,
  \<open>link-id.ts\<close> and \<open>link-adjacency.ts\<close>.  The digest (sha256, the v5 uuid) is an argument.  The lemmas
  show that different parts never give one text to hash, and that every derived id has the shape the
  fork rule reads.
\<close>

section \<open>Decimal texts\<close>

definition digit_char :: "nat \<Rightarrow> char" where
  "digit_char n = char_of (48 + n)"

fun decimal_text :: "nat \<Rightarrow> string" where
  "decimal_text n = (if n < 10 then [digit_char n] else decimal_text (n div 10) @ [digit_char (n mod 10)])"

declare decimal_text.simps [simp del]

definition int_text :: "int \<Rightarrow> string" where
  "int_text i = (if i < 0 then CHR ''-'' # decimal_text (nat (- i)) else decimal_text (nat i))"

section \<open>The text that is hashed\<close>

definition id_part :: "string \<Rightarrow> string" where
  "id_part s = decimal_text (length s) @ '':'' @ s"

definition id_parts :: "string list \<Rightarrow> string" where
  "id_parts ps = concat (map id_part ps)"

section \<open>The v4-shaped id\<close>

definition hex_digit :: "nat \<Rightarrow> char" where
  "hex_digit n = ''0123456789abcdef'' ! n"

definition hex_byte :: "8 word \<Rightarrow> string" where
  "hex_byte b = [hex_digit (unat b div 16), hex_digit (unat b mod 16)]"

definition hex_bytes :: "8 word list \<Rightarrow> string" where
  "hex_bytes bs = concat (map hex_byte bs)"

definition stamp_v4 :: "8 word list \<Rightarrow> 8 word list" where
  "stamp_v4 h = (let h1 = h[6 := ((h ! 6) AND 0x0f) OR 0x40] in h1[8 := ((h1 ! 8) AND 0x3f) OR 0x80])"

definition v4_text :: "8 word list \<Rightarrow> string" where
  "v4_text h =
     (let x = hex_bytes (take 16 (stamp_v4 h)) in
      take 8 x @ ''-'' @ take 4 (drop 8 x) @ ''-'' @ take 4 (drop 12 x) @ ''-'' @ take 4 (drop 16 x) @ ''-''
        @ take 12 (drop 20 x))"

text \<open>\<open>sha\<close> is sha256; an empty namespace throws (\<open>None\<close>).\<close>

definition derived_v4_id :: "(string \<Rightarrow> 8 word list) \<Rightarrow> string \<Rightarrow> string list \<Rightarrow> string option" where
  "derived_v4_id sha ns parts = (if ns = [] then None else Some (v4_text (sha (ns @ id_parts parts))))"

definition is_hex :: "char \<Rightarrow> bool" where
  "is_hex c \<longleftrightarrow> c \<in> set ''0123456789abcdef''"

text \<open>The pattern of a v4-shaped id: 8-4-4-4-12 hex digits, version 4, variant 8, 9, a or b.\<close>

definition v4_pattern :: "(char \<Rightarrow> bool) list" where
  "v4_pattern =
     (let h = is_hex; d = (\<lambda>c. c = CHR ''-'') in
      replicate 8 h @ [d] @ replicate 4 h @ [d] @ [\<lambda>c. c = CHR ''4''] @ replicate 3 h @ [d]
        @ [\<lambda>c. c \<in> set ''89ab''] @ replicate 3 h @ [d] @ replicate 12 h)"

definition v4_shaped :: "string \<Rightarrow> bool" where
  "v4_shaped s \<longleftrightarrow> list_all2 (\<lambda>p c. p c) v4_pattern s"

section \<open>Edge and link ids\<close>

definition js_text :: "string option \<Rightarrow> string" where
  "js_text s = (case s of None \<Rightarrow> ''undefined'' | Some t \<Rightarrow> t)"

definition edge_endpoint_kind :: "string option \<Rightarrow> string" where
  "edge_endpoint_kind k = (case k of None \<Rightarrow> ''entity'' | Some t \<Rightarrow> t)"

definition edge_id_text :: "string \<Rightarrow> string \<Rightarrow> string \<Rightarrow> string option \<Rightarrow> string option \<Rightarrow> string" where
  "edge_id_text src tgt label sk tk =
     (let fk = edge_endpoint_kind sk; tk' = edge_endpoint_kind tk in
      id_part src @ id_part tgt @ id_part label
        @ (if fk = ''entity'' \<and> tk' = ''entity'' then [] else id_part fk @ id_part tk'))"

definition edge_id_for ::
  "(string \<Rightarrow> string) \<Rightarrow> string \<Rightarrow> string \<Rightarrow> string \<Rightarrow> string option \<Rightarrow> string option \<Rightarrow> string" where
  "edge_id_for uuid5 src tgt label sk tk = uuid5 (edge_id_text src tgt label sk tk)"

definition STORED_FIELD :: "string \<Rightarrow> string option" where
  "STORED_FIELD k = (if k = ''fact'' then Some ''memoryIds'' else None)"

definition legacy_field :: "string option \<Rightarrow> string" where
  "legacy_field k =
     (case STORED_FIELD (js_text k) of Some f \<Rightarrow> f | None \<Rightarrow> js_text k @ ''Ids'')"

definition link_label :: "string option \<Rightarrow> string option \<Rightarrow> string" where
  "link_label sk tk = js_text sk @ ''.'' @ legacy_field tk"

definition link_id_for ::
  "(string \<Rightarrow> string) \<Rightarrow> string \<Rightarrow> string option \<Rightarrow> string \<Rightarrow> string option \<Rightarrow> string" where
  "link_id_for uuid5 src sk tgt tk = edge_id_for uuid5 src tgt (link_label sk tk) sk tk"

section \<open>Lemmas: the hashed text\<close>

lemma of_digit_char: "n < 10 \<Longrightarrow> (of_char (digit_char n) :: nat) = 48 + n"
  by (simp add: digit_char_def)

lemma decimal_append: "decimal (xs @ [c]) = 10 * decimal xs + (of_char c - 48)"
  by (simp add: decimal_def)

lemma decimal_decimal_text: "decimal (decimal_text n) = n"
proof (induction n rule: decimal_text.induct)
  case (1 n)
  show ?case
  proof (cases "n < 10")
    case True
    then show ?thesis by (subst decimal_text.simps) (simp add: decimal_def of_digit_char)
  next
    case False
    have "decimal (decimal_text n) = 10 * decimal (decimal_text (n div 10)) + n mod 10"
      using False by (subst decimal_text.simps) (simp add: decimal_append of_digit_char)
    then show ?thesis using 1 [OF False] by simp
  qed
qed

lemma digit_not_colon: "n < 10 \<Longrightarrow> digit_char n \<noteq> CHR '':''"
proof
  assume n: "n < 10" and "digit_char n = CHR '':''"
  then have "(of_char (digit_char n) :: nat) = 58" by simp
  with n show False by (simp add: of_digit_char)
qed

lemma decimal_text_no_colon: "CHR '':'' \<notin> set (decimal_text n)"
proof (induction n rule: decimal_text.induct)
  case (1 n)
  then show ?case
    by (subst decimal_text.simps) (use digit_not_colon [of n] digit_not_colon [of "n mod 10"] in auto)
qed

lemma colon_split:
  assumes "CHR '':'' \<notin> set a" "CHR '':'' \<notin> set b" "a @ CHR '':'' # x = b @ CHR '':'' # y"
  shows "a = b \<and> x = y"
  using assms
proof (induction a arbitrary: b)
  case Nil
  then show ?case by (cases b) auto
next
  case (Cons c a)
  then show ?case by (cases b) auto
qed

lemma id_part_split:
  assumes "id_part s @ x = id_part t @ y"
  shows "s = t \<and> x = y"
proof -
  have "decimal_text (length s) = decimal_text (length t) \<and> s @ x = t @ y"
    using assms by (intro colon_split) (simp_all add: id_part_def decimal_text_no_colon)
  moreover from this have "length s = length t" by (metis decimal_decimal_text)
  ultimately show ?thesis by (simp add: append_eq_append_conv)
qed

lemma id_part_nonempty: "id_part s \<noteq> []"
  by (simp add: id_part_def)

lemma id_parts_inject: "id_parts ps = id_parts qs \<Longrightarrow> ps = qs"
proof (induction ps arbitrary: qs)
  case Nil
  then show ?case by (cases qs) (auto simp: id_parts_def id_part_nonempty)
next
  case (Cons p ps)
  show ?case
  proof (cases qs)
    case Nil
    with Cons.prems show ?thesis by (simp add: id_parts_def id_part_nonempty)
  next
    case (Cons q qs')
    with Cons.prems have "id_part p @ id_parts ps = id_part q @ id_parts qs'" by (simp add: id_parts_def)
    from id_part_split [OF this] Cons.IH [of qs'] Cons show ?thesis by simp
  qed
qed

text \<open>The parts an edge's identity is computed from, as a list.\<close>

definition edge_parts :: "string \<Rightarrow> string \<Rightarrow> string \<Rightarrow> string option \<Rightarrow> string option \<Rightarrow> string list" where
  "edge_parts src tgt label sk tk =
     [src, tgt, label]
       @ (if edge_endpoint_kind sk = ''entity'' \<and> edge_endpoint_kind tk = ''entity'' then []
          else [edge_endpoint_kind sk, edge_endpoint_kind tk])"

lemma edge_id_text_parts: "edge_id_text src tgt label sk tk = id_parts (edge_parts src tgt label sk tk)"
  by (simp add: edge_id_text_def edge_parts_def id_parts_def Let_def)

section \<open>Lemmas: the shape\<close>

lemma unat_drop4: "unat (drop_bit 4 (b :: 8 word)) = unat b div 16"
  by (simp add: drop_bit_eq_div unat_div_distrib)

lemma stamp_byte6: "unat (((w :: 8 word) AND 0x0f) OR 0x40) div 16 = 4"
proof -
  have "drop_bit 4 ((w AND 0x0f) OR 0x40) = (4 :: 8 word)"
    by (simp add: drop_bit_and drop_bit_or)
  then have "unat (drop_bit 4 ((w AND 0x0f) OR 0x40)) = 4" by simp
  then show ?thesis unfolding unat_drop4 .
qed

lemma of_nat_unat: "of_nat (unat w) = w"
  by simp

lemma less_4_cases: "(n :: nat) < 4 \<Longrightarrow> n = 0 \<or> n = 1 \<or> n = 2 \<or> n = 3"
  by linarith

lemma stamp_byte8: "unat (((w :: 8 word) AND 0x3f) OR 0x80) div 16 \<in> {8, 9, 10, 11}"
proof -
  have d: "drop_bit 4 ((w AND 0x3f) OR 0x80) = (drop_bit 4 w AND 3) OR (8 :: 8 word)"
    by (simp add: drop_bit_and drop_bit_or)
  have "drop_bit 4 w AND 3 = (drop_bit 4 w) mod 4"
    using take_bit_eq_mask [of 2 "drop_bit 4 w"] by (simp add: take_bit_eq_mod mask_numeral)
  then have "unat (drop_bit 4 w AND 3) = unat (drop_bit 4 w) mod 4"
    by (simp only: unat_mod_distrib) simp
  then have "unat (drop_bit 4 w AND 3) < 4" by simp
  then have small: "unat (drop_bit 4 w AND 3) = 0 \<or> unat (drop_bit 4 w AND 3) = 1 \<or> unat (drop_bit 4 w AND 3) = 2
      \<or> unat (drop_bit 4 w AND 3) = 3" by (rule less_4_cases)
  have word: "drop_bit 4 w AND 3 = of_nat (unat (drop_bit 4 w AND 3))" by (rule of_nat_unat [symmetric])
  from small have "unat ((drop_bit 4 w AND 3) OR (8 :: 8 word)) \<in> {8, 9, 10, 11}"
    by (elim disjE) (subst word, simp)+
  then show ?thesis unfolding d [symmetric] unat_drop4 .
qed

lemma is_hex_digit: "n < 16 \<Longrightarrow> is_hex (hex_digit n)"
  unfolding is_hex_def hex_digit_def by (rule nth_mem) simp

lemma hex_byte_hex: "is_hex (hex_digit (unat (b :: 8 word) div 16))" "is_hex (hex_digit (unat (b :: 8 word) mod 16))"
proof -
  have "unat b < 2 ^ LENGTH(8)" by (rule unsigned_less)
  then have "unat b div 16 < 16" "unat b mod 16 < 16" by auto
  then show "is_hex (hex_digit (unat b div 16))" "is_hex (hex_digit (unat b mod 16))"
    by (simp_all add: is_hex_digit)
qed

lemma hex_digit_version: "hex_digit 4 = CHR ''4''"
  by (simp add: hex_digit_def)

lemma hex_digit_variant: "n \<in> {8, 9, 10, 11} \<Longrightarrow> hex_digit n \<in> set ''89ab''"
  by (auto simp: hex_digit_def)

lemma pattern_replicate:
  "list_all2 (\<lambda>p c. p c) (replicate n P) ys \<longleftrightarrow> length ys = n \<and> list_all P ys"
  by (induction ys arbitrary: n) (case_tac n; auto simp: list_all2_Cons2)+

lemma v4_chunks:
  assumes "length x = 32" "list_all is_hex x" "x ! 12 = CHR ''4''" "x ! 16 \<in> set ''89ab''"
  shows "v4_shaped (take 8 x @ ''-'' @ take 4 (drop 8 x) @ ''-'' @ take 4 (drop 12 x) @ ''-'' @ take 4 (drop 16 x)
    @ ''-'' @ take 12 (drop 20 x))"
proof -
  have hex: "list_all is_hex (take n (drop m x))" for n m
    using assms(2) by (auto simp: list_all_iff dest: in_set_takeD in_set_dropD)
  have 12: "take 4 (drop 12 x) = x ! 12 # take 3 (drop 13 x)" and 16: "take 4 (drop 16 x) = x ! 16 # take 3 (drop 17 x)"
    using assms(1) by (simp_all add: take_Suc_conv_app_nth Cons_nth_drop_Suc [symmetric] numeral_eq_Suc)
  have 0: "take 8 x = take 8 (drop 0 x)" by simp
  have dash: "list_all2 (\<lambda>p c. p c) [\<lambda>c. c = CHR ''-''] ''-''" by simp
  have rep: "list_all2 (\<lambda>p c. p c) (replicate n is_hex) (take n (drop m x))" if "n + m \<le> 32" for n m
    using that assms(1) hex by (simp add: pattern_replicate)
  have four: "list_all2 (\<lambda>p c. p c) ([\<lambda>c. c = CHR ''4''] @ replicate 3 is_hex) (take 4 (drop 12 x))"
    unfolding 12 using assms(3) rep [of 3 13] by simp
  have var: "list_all2 (\<lambda>p c. p c) ([\<lambda>c. c \<in> set ''89ab''] @ replicate 3 is_hex) (take 4 (drop 16 x))"
    unfolding 16 using assms(4) rep [of 3 17] by simp
  have pat: "v4_pattern = replicate 8 is_hex @ [\<lambda>c. c = CHR ''-''] @ replicate 4 is_hex @ [\<lambda>c. c = CHR ''-'']
      @ ([\<lambda>c. c = CHR ''4''] @ replicate 3 is_hex) @ [\<lambda>c. c = CHR ''-'']
      @ ([\<lambda>c. c \<in> set ''89ab''] @ replicate 3 is_hex) @ [\<lambda>c. c = CHR ''-''] @ replicate 12 is_hex"
    unfolding v4_pattern_def Let_def by (simp only: append_assoc)
  show ?thesis
    unfolding v4_shaped_def pat
    using rep [of 8 0] rep [of 4 8] rep [of 12 20]
    by (intro list_all2_appendI dash four var) simp_all
qed

section \<open>Properties\<close>

text \<open>
  Two edges hash the same text exactly when they have the same endpoints, label and endpoint
  kinds (an absent kind reads as \<open>entity\<close>): the length prefixes leave no way to move characters between
  the parts, so two relationships share an id only if the digest itself collides.
\<close>

theorem edge_identity_unambiguous:
  "edge_id_text src tgt label sk tk = edge_id_text src' tgt' label' sk' tk' \<longleftrightarrow>
     src = src' \<and> tgt = tgt' \<and> label = label'
     \<and> edge_endpoint_kind sk = edge_endpoint_kind sk' \<and> edge_endpoint_kind tk = edge_endpoint_kind tk'"
  unfolding edge_id_text_parts using id_parts_inject
  by (auto simp: edge_parts_def split: if_splits)

text \<open>
  Every id derived from a 32-byte digest has the v4 shape the fork rule tests: lower-case
  hexadecimal in five groups, version 4, a variant of 8, 9, a or b.
\<close>

theorem derived_id_v4_shaped:
  assumes "length (sha (ns @ id_parts ps)) = 32" and "derived_v4_id sha ns ps = Some i"
  shows "v4_shaped i"
proof -
  define h where "h = stamp_v4 (sha (ns @ id_parts ps))"
  have len: "length h = 32" using assms(1) by (simp add: h_def stamp_v4_def Let_def)
  have b6: "unat (h ! 6) div 16 = 4"
    using assms(1) stamp_byte6 by (simp add: h_def stamp_v4_def Let_def)
  have b8: "unat (h ! 8) div 16 \<in> {8, 9, 10, 11}"
    using assms(1) stamp_byte8 by (simp add: h_def stamp_v4_def Let_def)
  have take: "take 16 h = map ((!) h) [0..<16]"
    using len by (simp add: list_eq_iff_nth_eq)
  have x: "hex_bytes (take 16 h) = concat (map (\<lambda>k. hex_byte (h ! k)) [0..<16])"
    by (simp add: hex_bytes_def take comp_def)
  have i: "i = (let x = hex_bytes (take 16 h) in
      take 8 x @ ''-'' @ take 4 (drop 8 x) @ ''-'' @ take 4 (drop 12 x) @ ''-'' @ take 4 (drop 16 x) @ ''-''
        @ take 12 (drop 20 x))"
    using assms(2) by (simp add: derived_v4_id_def v4_text_def h_def split: if_splits)
  have upt: "[0..<16] = [0, 1, 2, 3, 4, 5, 6, 7, 8, 9, 10, 11, 12, 13, 14, 15 :: nat]"
    by (simp add: upt_rec)
  let ?x = "hex_bytes (take 16 h)"
  have "length ?x = 32" "?x ! 12 = hex_digit (unat (h ! 6) div 16)" "?x ! 16 = hex_digit (unat (h ! 8) div 16)"
    unfolding x upt by (simp_all add: hex_byte_def)
  moreover have "list_all is_hex ?x"
    by (auto simp: list_all_iff hex_bytes_def hex_byte_def hex_byte_hex)
  ultimately show ?thesis
    unfolding i Let_def using hex_digit_variant [OF b8] hex_digit_version b6 by (intro v4_chunks) simp_all
qed

theorem derived_id_v4_shaped_witness:
  "v4_shaped (v4_text (replicate 32 0xff))"
  using derived_id_v4_shaped [of "\<lambda>_. replicate 32 0xff" "''ns''" "[]"] by (simp add: derived_v4_id_def)

end
