(* ===== verification/Arrivals.thy ===== *)
theory Arrivals
  imports Derived_Id Net_Types "HOL-Library.List_Lexorder" "HOL-Library.Char_ord"
begin

text \<open>
  What becomes of each record a peer delivers (\<open>server/src/sync/upsert-plan.ts\<close>): the rule of a held
  tombstone (\<open>held-tombstone-rules.ts\<close>), the comparison of two bodies (\<open>authored-content.ts\<close>), the
  identity and the caps of forks, the tie at an equal version, and \<open>planArrivals\<close>, which decides a whole
  page before anything is written.  A page's objects are named by their index in it, so the source's
  \<open>===\<close> on two documents is equality of indices.  A throw is the left of a sum.  The hashes of a body
  are the fields of \<open>hashing\<close>; a document's fields the planner never reads are its \<open>d_body\<close>.
\<close>

section \<open>Documents and what is held\<close>

record 'b arrival_doc =
  d_id :: string
  d_seq :: int
  d_fact :: "string option"
  d_contentRedacted :: "bool option"
  d_forkAt :: "int option"
  d_forkOf :: "string option"
  d_type :: "string option"
  d_from :: "string option"
  d_to :: "string option"
  d_label :: "string option"
  d_fromKind :: "string option"
  d_toKind :: "string option"
  d_author :: "string option"
  d_updatedAt :: "string option"
  d_body :: 'b

text \<open>\<open>AuthoredContent\<close>: the content itself, and for a chrono the same with its redacted fields blanked.\<close>

record hash_view =
  h_text :: string
  h_hash :: string
  h_normalised :: bool
  h_rawHash :: string

record authored =
  a_view :: hash_view
  a_carriesRedaction :: bool
  a_redacted :: "hash_view option"

record held_tombstone =
  t_seq :: int
  t_issuer :: "string option"
  t_storedVia :: "string option"
  t_issuedHere :: "bool option"
  t_deletedAt :: "string option"

record 'b stored_copy =
  s_seq :: "int option"
  s_forkOf :: "string option"
  s_bodyHash :: "authored option"
  s_row :: "'b arrival_doc option"
  s_author :: "string option"
  s_updatedAt :: "string option"
  s_contentHash :: "string option"
  s_fullContentHash :: "string option"

text \<open>\<open>authoredContentHash\<close>, \<open>fileContentHash\<close> (blanked or not), sha256 and the v5 uuid.\<close>

record 'b hashing =
  hash_body :: "'b arrival_doc \<Rightarrow> authored"
  hash_file :: "bool \<Rightarrow> 'b arrival_doc \<Rightarrow> string"
  sha :: "string \<Rightarrow> 8 word list"
  uuid5 :: "string \<Rightarrow> string"

datatype door = Push_door | Pull_door

section \<open>Held tombstones\<close>

definition is_newer_copy :: "int \<Rightarrow> int option \<Rightarrow> bool" where
  "is_newer_copy incoming held = (case held of None \<Rightarrow> True | Some h \<Rightarrow> h < incoming)"

definition superseded_via :: "held_tombstone \<Rightarrow> string option \<Rightarrow> string option" where
  "superseded_via held deliveredBy =
     (if t_storedVia held \<noteq> None \<and> t_storedVia held = deliveredBy then t_storedVia held else None)"

definition tombstone_governs :: "string option \<Rightarrow> string option \<Rightarrow> bool" where
  "tombstone_governs issuer author \<longleftrightarrow> \<not> (truthy_str issuer \<and> truthy_str author \<and> issuer \<noteq> author)"

definition held_tombstone_refuses :: "held_tombstone \<Rightarrow> string option \<Rightarrow> string option \<Rightarrow> bool" where
  "held_tombstone_refuses held author deliveredBy =
     (if superseded_via held deliveredBy \<noteq> None then False
      else \<not> (\<not> tombstone_governs (t_issuer held) author \<and> deliveredBy \<noteq> None \<and> author = deliveredBy))"

definition tomb_seq_for :: "string option \<Rightarrow> held_tombstone option \<Rightarrow> string option \<Rightarrow> int option" where
  "tomb_seq_for author held deliveredBy =
     (case held of None \<Rightarrow> None
      | Some h \<Rightarrow> if held_tombstone_refuses h author deliveredBy then Some (t_seq h) else None)"

definition held_tombstone_leaves_fork :: "held_tombstone \<Rightarrow> string option \<Rightarrow> bool" where
  "held_tombstone_leaves_fork held author \<longleftrightarrow>
     t_issuedHere held \<noteq> Some True \<and> \<not> tombstone_governs (t_issuer held) author"

section \<open>Comparing two bodies\<close>

definition view_pair :: "hash_view \<Rightarrow> hash_view \<Rightarrow> string \<times> string" where
  "view_pair a b = (if h_normalised a \<and> h_normalised b then (h_hash a, h_hash b) else (h_rawHash a, h_rawHash b))"

definition compared_views :: "authored \<Rightarrow> authored \<Rightarrow> hash_view \<times> hash_view" where
  "compared_views a b =
     (case (a_redacted a, a_redacted b) of
        (Some ra, Some rb) \<Rightarrow>
          if a_carriesRedaction a \<or> a_carriesRedaction b then (ra, rb) else (a_view a, a_view b)
      | _ \<Rightarrow> (a_view a, a_view b))"

definition tie_hashes :: "authored \<Rightarrow> authored \<Rightarrow> string \<times> string" where
  "tie_hashes a b = (let (va, vb) = compared_views a b in view_pair va vb)"

definition bodies_differ :: "authored \<Rightarrow> authored \<Rightarrow> bool" where
  "bodies_differ a b = (let (va, vb) = compared_views a b in
     if h_normalised va \<and> h_normalised vb then h_hash va \<noteq> h_hash vb else h_rawHash va \<noteq> h_rawHash vb)"

definition arriving_wins_tie :: "string \<Rightarrow> string \<Rightarrow> bool" where
  "arriving_wins_tie arriving stored \<longleftrightarrow> arriving < stored"

datatype plan_error = Body_not_read string | Earlier_copy_lost string

definition diverges_from ::
  "'b hashing \<Rightarrow> 'b arrival_doc \<Rightarrow> (int option \<times> authored option) option \<Rightarrow> plan_error + bool" where
  "diverges_from hh doc copy =
     (case copy of
        None \<Rightarrow> Inr False
      | Some (sq, body) \<Rightarrow>
          if sq \<noteq> Some (d_seq doc) then Inr False
          else case body of
            None \<Rightarrow> Inl (Body_not_read (d_id doc))
          | Some h \<Rightarrow> Inr (bodies_differ (hash_body hh doc) h))"

section \<open>Forks\<close>

definition MAX_FORK_DEPTH :: nat where
  "MAX_FORK_DEPTH = 10"

definition MAX_FORKS_PER_RECORD :: nat where
  "MAX_FORKS_PER_RECORD = 10"

definition FORKING_FAMILIES :: "brain_collection list" where
  "FORKING_FAMILIES = [Facts, Entities, Edges, Chrono]"

definition is_forking_family :: "brain_collection \<Rightarrow> bool" where
  "is_forking_family k \<longleftrightarrow> k \<in> set FORKING_FAMILIES"

definition fork_id_for :: "'b hashing \<Rightarrow> string \<Rightarrow> int \<Rightarrow> string \<Rightarrow> string" where
  "fork_id_for hh parent sq text =
     the (derived_v4_id (sha hh) ''ythril.fork-identity'' [parent, int_text sq, text])"

text \<open>\<open>fuel\<close> is the loop's bound \<open>depth <= MAX_FORK_DEPTH\<close>: it runs at most eleven times.\<close>

fun fork_depth_walk :: "nat \<Rightarrow> (string \<Rightarrow> string option) \<Rightarrow> string option \<Rightarrow> string list \<Rightarrow> nat \<Rightarrow> nat" where
  "fork_depth_walk 0 parent cur visited depth = depth"
| "fork_depth_walk (Suc fuel) parent cur visited depth =
     (if \<not> truthy_str cur \<or> MAX_FORK_DEPTH < depth then depth
      else if the cur \<in> set visited then depth
      else case parent (the cur) of
        None \<Rightarrow> depth
      | Some p \<Rightarrow> if p = [] then depth
                   else fork_depth_walk fuel parent (Some p) (the cur # visited) (Suc depth))"

definition fork_depth :: "string \<Rightarrow> (string \<Rightarrow> string option) \<Rightarrow> nat" where
  "fork_depth i parent = fork_depth_walk (MAX_FORK_DEPTH + 2) parent (Some i) [] 0"

definition legacy_fork_id_of ::
  "'b hashing \<Rightarrow> brain_collection \<Rightarrow> 'b arrival_doc \<Rightarrow> string \<Rightarrow> int \<Rightarrow> string option" where
  "legacy_fork_id_of hh kind doc parent sq =
     (if kind = Facts then Some (fork_id_for hh parent sq (case d_fact doc of Some f \<Rightarrow> f | None \<Rightarrow> [])) else None)"

datatype row_verdict = Row_ok | Row_legacy | Row_redacted | Row_invalid

definition fork_row_verdict ::
  "'b hashing \<Rightarrow> brain_collection \<Rightarrow> 'b arrival_doc \<Rightarrow> string \<Rightarrow> row_verdict" where
  "fork_row_verdict hh kind row text =
     (case d_forkOf row of
        None \<Rightarrow> Row_invalid
      | Some parent \<Rightarrow>
          if parent = d_id row \<or> \<not> is_forking_family kind then Row_invalid
          else case d_forkAt row of
            None \<Rightarrow>
              if kind \<noteq> Facts then Row_invalid
              else if Some (d_id row) = legacy_fork_id_of hh kind row parent (d_seq row) then Row_ok
              else if v4_shaped (d_id row) then Row_legacy else Row_invalid
          | Some ver \<Rightarrow>
              if d_id row = fork_id_for hh parent ver text then Row_ok
              else if Some (d_id row) = legacy_fork_id_of hh kind row parent ver then Row_ok
              else if kind = Chrono \<and> d_contentRedacted row = Some True then Row_redacted else Row_invalid)"

definition or_text :: "string option \<Rightarrow> string" where
  "or_text s = (case s of None \<Rightarrow> [] | Some t \<Rightarrow> t)"

definition unique_key :: "'b hashing \<Rightarrow> brain_collection \<Rightarrow> 'b arrival_doc \<Rightarrow> string option" where
  "unique_key hh kind d =
     (if kind = Edges \<and> truthy_str (d_forkOf d) then None
      else if kind = Edges
        then Some (edge_id_for (uuid5 hh) (or_text (d_from d)) (or_text (d_to d)) (or_text (d_label d)) (d_fromKind d) (d_toKind d))
      else if kind = Links
        then Some (link_id_for (uuid5 hh) (or_text (d_from d)) (d_fromKind d) (or_text (d_to d)) (d_toKind d))
      else None)"

section \<open>Converging on the author's stamp\<close>

definition converges_on_author_stamp ::
  "'b hashing \<Rightarrow> 'b arrival_doc \<Rightarrow> 'b stored_copy option \<Rightarrow> string option \<Rightarrow> string \<Rightarrow> bool" where
  "converges_on_author_stamp hh doc copy deliveredBy self =
     (case (d_author doc, copy) of
        (Some author, Some c) \<Rightarrow>
          author \<noteq> [] \<and> deliveredBy = Some author \<and> s_author c = Some author \<and> author \<noteq> self
          \<and> d_updatedAt doc \<noteq> None \<and> s_updatedAt c \<noteq> None \<and> d_updatedAt doc \<noteq> s_updatedAt c
          \<and> s_contentHash c = Some (hash_file hh True doc)
      | _ \<Rightarrow> False)"

section \<open>The plan\<close>

datatype arrival_verdict =
    Inserted | Updated | Upserted | Skipped | Tombstoned | Forked | Fork_refused | Invalid_fork
  | Unknown_type | Duplicate | Rejected | Converged | Underived_id | Divergence_kept

record resolved_mark =
  k_by :: string
  k_at :: string
  k_seq :: int

record cleanup =
  cl_below :: int
  cl_onLanding :: bool
  cl_via :: "string option"

type_synonym 'b entry = "nat \<times> 'b arrival_doc"

record 'b swap =
  w_index :: nat
  w_doc :: "'b arrival_doc"
  w_stored :: "'b arrival_doc"
  w_loserForkId :: string

record 'b plan =
  verdicts :: "arrival_verdict option list"
  forkIds :: "string option list"
  accepts :: "(string \<times> 'b entry list) list"
  forks :: "'b entry list"
  swaps :: "'b swap list"
  fileSwaps :: "'b swap list"
  converges :: "'b entry list"
  unverifiable :: "(nat \<times> row_verdict) list"
  marks :: "(nat \<times> resolved_mark) list"
  cleanups :: "(string \<times> cleanup) list"
  overlay :: "(string \<times> 'b entry) list"
  superseded :: "string list"
  keyOwner :: "(string \<times> string) list"
  ownKey :: "(string \<times> string) list"
  newForks :: "string list"
  forksMade :: "(string \<times> nat) list"

record 'b plan_input =
  p_kind :: brain_collection
  p_door :: door
  p_stored :: "string \<Rightarrow> 'b stored_copy option"
  p_tombstones :: "string \<Rightarrow> held_tombstone option"
  p_deliveredBy :: "string option"
  p_allowedTypes :: "string set option"
  p_forkParent :: "string \<Rightarrow> string option"
  p_siblings :: "string \<Rightarrow> nat"
  p_existingForks :: "string set"
  p_heldParents :: "string set"
  p_self :: string

definition new_plan :: "nat \<Rightarrow> 'b plan" where
  "new_plan n = \<lparr>verdicts = replicate n None, forkIds = replicate n None, accepts = [], forks = [], swaps = [],
     fileSwaps = [], converges = [], unverifiable = [], marks = [], cleanups = [], overlay = [],
     superseded = [], keyOwner = [], ownKey = [], newForks = [], forksMade = []\<rparr>"

definition say :: "nat \<Rightarrow> arrival_verdict \<Rightarrow> 'b plan \<Rightarrow> 'b plan" where
  "say i v p = p\<lparr>verdicts := (verdicts p)[i := Some v]\<rparr>"

definition say_fork :: "nat \<Rightarrow> string \<Rightarrow> 'b plan \<Rightarrow> 'b plan" where
  "say_fork i fid p = say i Forked (p\<lparr>forkIds := (forkIds p)[i := Some fid]\<rparr>)"

definition parent_of :: "'b plan_input \<Rightarrow> 'b plan \<Rightarrow> string \<Rightarrow> string option" where
  "parent_of inp p i =
     (case map_of (overlay p) i of
        Some (_, d) \<Rightarrow> d_forkOf d
      | None \<Rightarrow> (case p_stored inp i of Some c \<Rightarrow> s_forkOf c | None \<Rightarrow> p_forkParent inp i))"

definition made :: "'b plan \<Rightarrow> string \<Rightarrow> nat" where
  "made p i = (case map_of (forksMade p) i of Some n \<Rightarrow> n | None \<Rightarrow> 0)"

definition siblings_of :: "'b plan_input \<Rightarrow> 'b plan \<Rightarrow> string \<Rightarrow> nat" where
  "siblings_of inp p i = p_siblings inp i + made p i"

definition parent_held :: "'b plan_input \<Rightarrow> string set \<Rightarrow> 'b plan \<Rightarrow> string \<Rightarrow> bool" where
  "parent_held inp page p i \<longleftrightarrow>
     p_stored inp i \<noteq> None \<or> map_of (overlay p) i \<noteq> None \<or> i \<in> page \<or> i \<in> p_heldParents inp"

text \<open>What this page holds of an id as a stored copy: by body for a family that forks, by its fields otherwise.\<close>

definition copy_of :: "'b hashing \<Rightarrow> bool \<Rightarrow> 'b arrival_doc \<Rightarrow> 'b stored_copy" where
  "copy_of hh forking d =
     \<lparr>s_seq = Some (d_seq d), s_forkOf = d_forkOf d, s_bodyHash = (if forking then Some (hash_body hh d) else None),
      s_row = None, s_author = (if forking then None else d_author d),
      s_updatedAt = (if forking then None else d_updatedAt d), s_contentHash = None, s_fullContentHash = None\<rparr>"

definition hold_version :: "'b hashing \<Rightarrow> brain_collection \<Rightarrow> nat \<Rightarrow> 'b arrival_doc \<Rightarrow> 'b plan \<Rightarrow> 'b plan" where
  "hold_version hh kind i doc p =
     (let p1 = p\<lparr>overlay := map_put (d_id doc) (i, doc) (overlay p)\<rparr> in
      case unique_key hh kind doc of
        None \<Rightarrow> p1
      | Some key \<Rightarrow>
          let owners = (case map_of (ownKey p) (d_id doc) of
                None \<Rightarrow> keyOwner p
              | Some old \<Rightarrow> if map_of (keyOwner p) old = Some (d_id doc) then map_del old (keyOwner p) else keyOwner p)
          in p1\<lparr>keyOwner := map_put key (d_id doc) owners, ownKey := map_put (d_id doc) key (ownKey p)\<rparr>)"

definition fork_fits :: "'b plan_input \<Rightarrow> 'b plan \<Rightarrow> string \<Rightarrow> bool" where
  "fork_fits inp p i \<longleftrightarrow> fork_depth i (parent_of inp p) < MAX_FORK_DEPTH \<and> siblings_of inp p i < MAX_FORKS_PER_RECORD"

definition make_fork :: "nat \<Rightarrow> string \<Rightarrow> string \<Rightarrow> 'b arrival_doc \<Rightarrow> int \<Rightarrow> 'b plan \<Rightarrow> 'b plan" where
  "make_fork i parent fid row ver p =
     p\<lparr>newForks := fid # newForks p, forksMade := map_put parent (Suc (made p parent)) (forksMade p),
       forks := forks p @ [(i, row\<lparr>d_id := fid, d_forkOf := Some parent, d_forkAt := Some ver\<rparr>)]\<rparr>"

definition fork_known :: "'b plan_input \<Rightarrow> 'b plan \<Rightarrow> string \<Rightarrow> bool" where
  "fork_known inp p fid \<longleftrightarrow> fid \<in> p_existingForks inp \<or> fid \<in> set (newForks p)"

definition clean_late :: "string \<Rightarrow> int option \<Rightarrow> int option \<Rightarrow> 'b plan \<Rightarrow> 'b plan" where
  "clean_late i tomb curSeq p =
     (case (tomb, curSeq) of
        (Some t, Some s) \<Rightarrow>
          if t < s \<and> map_of (cleanups p) i = None
          then p\<lparr>cleanups := map_put i \<lparr>cl_below = s, cl_onLanding = False, cl_via = None\<rparr> (cleanups p)\<rparr> else p
      | _ \<Rightarrow> p)"

definition accept ::
  "'b hashing \<Rightarrow> 'b plan_input \<Rightarrow> nat \<Rightarrow> 'b arrival_doc \<Rightarrow> arrival_verdict \<Rightarrow> int option \<Rightarrow> string option
     \<Rightarrow> 'b plan \<Rightarrow> 'b plan" where
  "accept hh inp i doc v tomb via p =
     (let prev = parent_of inp p (d_id doc);
          forking = is_forking_family (p_kind inp);
          listed = (case map_of (accepts p) (d_id doc) of Some xs \<Rightarrow> xs | None \<Rightarrow> []);
          p1 = (say i v p)\<lparr>accepts := map_put (d_id doc) (listed @ [(i, doc)]) (accepts p)\<rparr>;
          p2 = (if forking \<and> truthy_str (d_forkOf doc) \<and> d_forkOf doc \<noteq> prev
                then p1\<lparr>forksMade := map_put (the (d_forkOf doc)) (Suc (made p1 (the (d_forkOf doc)))) (forksMade p1)\<rparr>
                else p1);
          p3 = hold_version hh (p_kind inp) i doc p2
      in case tomb of
           Some _ \<Rightarrow> p3\<lparr>superseded := d_id doc # superseded p3,
             cleanups := map_put (d_id doc) \<lparr>cl_below = d_seq doc, cl_onLanding = True, cl_via = None\<rparr> (cleanups p3)\<rparr>
         | None \<Rightarrow> if via \<noteq> None
             then p3\<lparr>superseded := d_id doc # superseded p3,
               cleanups := map_put (d_id doc) \<lparr>cl_below = d_seq doc, cl_onLanding = True, cl_via = via\<rparr> (cleanups p3)\<rparr>
             else p3)"

definition drop_accepted :: "string \<Rightarrow> nat \<Rightarrow> 'b plan \<Rightarrow> 'b plan" where
  "drop_accepted i j p =
     (case map_of (accepts p) i of
        None \<Rightarrow> p
      | Some xs \<Rightarrow> (case find_index (\<lambda>e. fst e = j) xs of
            None \<Rightarrow> p
          | Some k \<Rightarrow> p\<lparr>accepts := map_put i (remove_at k xs) (accepts p)\<rparr>))"

definition accepted_at :: "'b plan \<Rightarrow> string \<Rightarrow> nat \<Rightarrow> bool" where
  "accepted_at p i j \<longleftrightarrow> (\<exists>xs. map_of (accepts p) i = Some xs \<and> list_ex (\<lambda>e. fst e = j) xs)"

text \<open>
  An arriving copy wins the tie.  \<open>earlier\<close> is the index and document this page already holds for the
  id.  \<open>None\<close> on the right is the source's \<open>false\<close>: the loser does not fit its caps.
\<close>

definition win_tie ::
  "'b hashing \<Rightarrow> 'b plan_input \<Rightarrow> nat \<Rightarrow> 'b arrival_doc \<Rightarrow> 'b stored_copy \<Rightarrow> 'b entry option
     \<Rightarrow> int option \<Rightarrow> string option \<Rightarrow> 'b plan \<Rightarrow> plan_error + 'b plan option" where
  "win_tie hh inp i doc cur earlier tomb via p =
     (let key = d_id doc in
      case earlier of
        None \<Rightarrow>
          (case s_row cur of
             None \<Rightarrow> Inl (Body_not_read key)
           | Some row \<Rightarrow>
               let fid = fork_id_for hh key (d_seq doc) (h_text (a_view (the (s_bodyHash cur))));
                   known = fork_known inp p fid
               in if \<not> known \<and> \<not> fork_fits inp p key then Inr None
                  else
                    let p1 = (if known then p else make_fork i key fid row (d_seq doc) p);
                        p2 = p1\<lparr>swaps := swaps p1 @ [\<lparr>w_index = i, w_doc = doc, w_stored = row, w_loserForkId = fid\<rparr>]\<rparr>;
                        p3 = say_fork i fid (hold_version hh (p_kind inp) i doc p2)
                    in Inr (Some (clean_late key tomb (s_seq cur) p3)))
      | Some (j, old) \<Rightarrow>
          let fid = fork_id_for hh key (d_seq doc) (h_text (a_view (hash_body hh old)));
              known = fork_known inp p fid
          in if \<not> known \<and> \<not> fork_fits inp p key then Inr None
             else case find_index (\<lambda>w. w_index w = j) (swaps p) of
               Some k \<Rightarrow>
                 let p1 = say_fork j fid (if known then p else make_fork j key fid old (d_seq doc) p);
                     w = swaps p1 ! k;
                     p2 = p1\<lparr>forks := map (\<lambda>(x, d). (if d_id d = w_loserForkId w \<and> x = j then i else x, d)) (forks p1),
                             swaps := update_at k (\<lambda>x. x\<lparr>w_doc := doc, w_index := i\<rparr>) (swaps p1)\<rparr>
                 in Inr (Some (say_fork i (w_loserForkId w) (hold_version hh (p_kind inp) i doc p2)))
             | None \<Rightarrow>
                 if \<not> accepted_at p key j then Inl (Earlier_copy_lost key)
                 else
                   let was = the (verdicts p ! j);
                       p1 = say_fork j fid (if known then p else make_fork j key fid old (d_seq doc) p)
                   in Inr (Some (accept hh inp i doc was tomb via (drop_accepted key j p1))))"

definition win_file_tie ::
  "'b hashing \<Rightarrow> 'b plan_input \<Rightarrow> nat \<Rightarrow> 'b arrival_doc \<Rightarrow> 'b entry option \<Rightarrow> 'b stored_copy
     \<Rightarrow> int option \<Rightarrow> string option \<Rightarrow> 'b plan \<Rightarrow> plan_error + 'b plan" where
  "win_file_tie hh inp i doc earlier cur tomb via p =
     (let key = d_id doc in
      case earlier of
        None \<Rightarrow>
          (case s_row cur of
             None \<Rightarrow> Inl (Body_not_read key)
           | Some row \<Rightarrow>
               let p1 = p\<lparr>fileSwaps := fileSwaps p @ [\<lparr>w_index = i, w_doc = doc, w_stored = row, w_loserForkId = []\<rparr>]\<rparr>
               in Inr (say i Converged (hold_version hh (p_kind inp) i doc p1)))
      | Some (j, old) \<Rightarrow>
          (case find_index (\<lambda>w. w_index w = j) (fileSwaps p) of
             Some k \<Rightarrow>
               let p1 = say j Divergence_kept p;
                   p2 = p1\<lparr>fileSwaps := update_at k (\<lambda>x. x\<lparr>w_doc := doc, w_index := i\<rparr>) (fileSwaps p1)\<rparr>
               in Inr (say i Converged (hold_version hh (p_kind inp) i doc p2))
           | None \<Rightarrow>
               if \<not> accepted_at p key j then Inl (Earlier_copy_lost key)
               else
                 let was = the (verdicts p ! j); p1 = say j Divergence_kept p
                 in Inr (accept hh inp i doc was tomb via (drop_accepted key j p1))))"

text \<open>What a row carrying \<open>forkOf\<close> is: refused with a verdict, or admitted (as unverifiable or not).\<close>

definition judge_fork_row ::
  "'b hashing \<Rightarrow> 'b plan_input \<Rightarrow> string set \<Rightarrow> 'b plan \<Rightarrow> 'b arrival_doc \<Rightarrow> 'b stored_copy option
     \<Rightarrow> arrival_verdict + row_verdict" where
  "judge_fork_row hh inp page p doc cur =
     (case d_forkOf doc of
        None \<Rightarrow> Inr Row_ok
      | Some parent \<Rightarrow>
          let v = (if is_forking_family (p_kind inp)
                   then fork_row_verdict hh (p_kind inp) doc (h_text (a_view (hash_body hh doc))) else Row_invalid)
          in if v = Row_invalid then Inl Invalid_fork
             else if cur = None \<and> \<not> parent_held inp page p parent \<and> p_tombstones inp parent \<noteq> None then Inl Tombstoned
             else if v = Row_legacy \<and> \<not> parent_held inp page p parent then Inl Invalid_fork
             else if cur = None \<and> MAX_FORKS_PER_RECORD \<le> siblings_of inp p parent then Inl Fork_refused
             else Inr v)"

text \<open>A divergent copy at the stored version, for a family that forks.\<close>

definition plan_divergent ::
  "'b hashing \<Rightarrow> 'b plan_input \<Rightarrow> nat \<Rightarrow> 'b arrival_doc \<Rightarrow> 'b stored_copy \<Rightarrow> 'b entry option
     \<Rightarrow> int option \<Rightarrow> string option \<Rightarrow> 'b plan \<Rightarrow> plan_error + 'b plan" where
  "plan_divergent hh inp i doc cur earlier tomb via p =
     (let (arriving, holding) = tie_hashes (hash_body hh doc) (the (s_bodyHash cur)) in
      if s_forkOf cur = None \<and> arriving_wins_tie arriving holding
      then (case win_tie hh inp i doc cur earlier tomb via p of
              Inl e \<Rightarrow> Inl e
            | Inr None \<Rightarrow> Inr (say i Fork_refused p)
            | Inr (Some p') \<Rightarrow> Inr p')
      else
        let fid = fork_id_for hh (d_id doc) (d_seq doc) (h_text (a_view (hash_body hh doc)));
            legacy = legacy_fork_id_of hh (p_kind inp) doc (d_id doc) (d_seq doc)
        in if fork_known inp p fid then Inr (say_fork i fid p)
           else case legacy of
             Some l \<Rightarrow>
               if fork_known inp p l then Inr (say_fork i l p)
               else if \<not> fork_fits inp p (d_id doc) then Inr (say i Fork_refused p)
               else if s_forkOf cur \<noteq> None then Inr (say i Skipped p)
               else Inr (say_fork i fid (make_fork i (d_id doc) fid doc (d_seq doc) p))
           | None \<Rightarrow>
               if \<not> fork_fits inp p (d_id doc) then Inr (say i Fork_refused p)
               else if s_forkOf cur \<noteq> None then Inr (say i Skipped p)
               else Inr (say_fork i fid (make_fork i (d_id doc) fid doc (d_seq doc) p)))"

definition plan_newer ::
  "'b hashing \<Rightarrow> 'b plan_input \<Rightarrow> nat \<Rightarrow> 'b arrival_doc \<Rightarrow> 'b stored_copy option \<Rightarrow> row_verdict
     \<Rightarrow> held_tombstone option \<Rightarrow> int option \<Rightarrow> string option \<Rightarrow> 'b plan \<Rightarrow> 'b plan" where
  "plan_newer hh inp i doc cur admitted past tomb via p =
     (let holder = Option.bind (unique_key hh (p_kind inp) doc) (map_of (keyOwner p)) in
      if holder \<noteq> None \<and> holder \<noteq> Some (d_id doc) then say i Duplicate p
      else
        let p1 = (if admitted \<noteq> Row_ok then p\<lparr>unverifiable := unverifiable p @ [(i, admitted)]\<rparr> else p);
            p2 = (case past of None \<Rightarrow> p1
                  | Some h \<Rightarrow> p1\<lparr>marks := marks p1 @ [(i, \<lparr>k_by = or_text (t_issuer h), k_at = or_text (t_deletedAt h), k_seq = t_seq h\<rparr>)]\<rparr>);
            v = (if p_kind inp = Facts then if cur = None then Inserted else Updated else Upserted)
        in accept hh inp i doc v tomb via p2)"

definition plan_standing_file ::
  "'b hashing \<Rightarrow> 'b plan_input \<Rightarrow> nat \<Rightarrow> 'b arrival_doc \<Rightarrow> 'b stored_copy option \<Rightarrow> 'b entry option
     \<Rightarrow> int option \<Rightarrow> string option \<Rightarrow> 'b plan \<Rightarrow> plan_error + 'b plan option" where
  "plan_standing_file hh inp i doc cur earlier tomb via p =
     (if converges_on_author_stamp hh doc cur (p_deliveredBy inp) (p_self inp)
      then Inr (Some (say i Converged (p\<lparr>converges := converges p @ [(i, doc)]\<rparr>)))
      else case cur of
        None \<Rightarrow> Inr None
      | Some c \<Rightarrow>
          if s_seq c \<noteq> Some (d_seq doc) then Inr None
          else
            let heldBlanked = (case earlier of Some (_, old) \<Rightarrow> Some (hash_file hh True old) | None \<Rightarrow> s_contentHash c)
            in if heldBlanked = None \<or> heldBlanked = Some (hash_file hh True doc) then Inr None
               else
                 case (case earlier of Some (_, old) \<Rightarrow> Some (hash_file hh False old) | None \<Rightarrow> s_fullContentHash c) of
                   None \<Rightarrow> Inl (Body_not_read (d_id doc))
                 | Some heldHash \<Rightarrow>
                     if \<not> arriving_wins_tie (hash_file hh False doc) heldHash then Inr (Some (say i Divergence_kept p))
                     else (case win_file_tie hh inp i doc earlier c tomb via p of
                             Inl e \<Rightarrow> Inl e | Inr p' \<Rightarrow> Inr (Some p')))"

definition plan_one ::
  "'b hashing \<Rightarrow> 'b plan_input \<Rightarrow> string set \<Rightarrow> nat \<Rightarrow> 'b arrival_doc \<Rightarrow> 'b plan \<Rightarrow> plan_error + 'b plan" where
  "plan_one hh inp page i doc p =
     (let kind = p_kind inp; forking = is_forking_family kind;
          earlier = map_of (overlay p) (d_id doc);
          cur = (case earlier of None \<Rightarrow> p_stored inp (d_id doc) | Some (_, d) \<Rightarrow> Some (copy_of hh forking d))
      in
      if kind = Chrono \<and> p_door inp = Push_door
         \<and> (case p_allowedTypes inp of Some ts \<Rightarrow> or_text (d_type doc) \<notin> ts | None \<Rightarrow> False) then Inr (say i Unknown_type p)
      else if kind = Links \<and> Some (d_id doc) \<noteq> unique_key hh kind doc then Inr (say i Underived_id p)
      else if kind = Edges \<and> (case cur of Some c \<Rightarrow> (s_forkOf c \<noteq> None) \<noteq> (d_forkOf doc \<noteq> None) | None \<Rightarrow> False)
        then Inr (say i Invalid_fork p)
      else case judge_fork_row hh inp page p doc cur of
        Inl v \<Rightarrow> Inr (say i v p)
      | Inr admitted \<Rightarrow>
          let held = (if d_id doc \<in> set (superseded p) then None else p_tombstones inp (d_id doc));
              forkRow = (forking \<and> d_forkOf doc \<noteq> None \<and> held \<noteq> None)
          in if forkRow \<and> t_issuedHere (the held) = Some True then Inr (say i Tombstoned p)
             else
               let past = (if forkRow \<and> held_tombstone_leaves_fork (the held) (d_author doc) then held else None);
                   tomb = (if past \<noteq> None then None else tomb_seq_for (d_author doc) held (p_deliveredBy inp));
                   via = (if past \<noteq> None then None
                          else case held of None \<Rightarrow> None | Some h \<Rightarrow> superseded_via h (p_deliveredBy inp))
               in if (case tomb of Some t \<Rightarrow> d_seq doc \<le> t | None \<Rightarrow> False) then Inr (say i Tombstoned p)
                  else
                    let curSeq = Option.bind cur s_seq; newer = is_newer_copy (d_seq doc) curSeq in
                    case (if forking \<and> cur \<noteq> None \<and> \<not> newer
                          then diverges_from hh doc (map_option (\<lambda>c. (s_seq c, s_bodyHash c)) cur) else Inr False) of
                      Inl e \<Rightarrow> Inl e
                    | Inr True \<Rightarrow> plan_divergent hh inp i doc (the cur) earlier tomb via p
                    | Inr False \<Rightarrow>
                        if newer then Inr (plan_newer hh inp i doc cur admitted past tomb via p)
                        else
                          let stand = (if kind = Files then plan_standing_file hh inp i doc cur earlier tomb via p else Inr None) in
                          case stand of
                            Inl e \<Rightarrow> Inl e
                          | Inr (Some p') \<Rightarrow> Inr p'
                          | Inr None \<Rightarrow> Inr (clean_late (d_id doc) tomb curSeq (say i Skipped p)))"

fun plan_from ::
  "'b hashing \<Rightarrow> 'b plan_input \<Rightarrow> string set \<Rightarrow> nat \<Rightarrow> 'b arrival_doc list \<Rightarrow> 'b plan \<Rightarrow> plan_error + 'b plan" where
  "plan_from hh inp page i [] p = Inr p"
| "plan_from hh inp page i (d # ds) p =
     (case plan_one hh inp page i d p of Inl e \<Rightarrow> Inl e | Inr p' \<Rightarrow> plan_from hh inp page (Suc i) ds p')"

definition plan_arrivals :: "'b hashing \<Rightarrow> 'b plan_input \<Rightarrow> 'b arrival_doc list \<Rightarrow> plan_error + 'b plan" where
  "plan_arrivals hh inp docs = plan_from hh inp (set (map d_id docs)) 0 docs (new_plan (length docs))"

text \<open>Which ids of a page need their stored body read before the plan.\<close>

fun fork_candidates_walk ::
  "'b hashing \<Rightarrow> (string \<Rightarrow> 'b stored_copy option) \<Rightarrow> 'b arrival_doc list \<Rightarrow> 'b arrival_doc list \<Rightarrow> string list
     \<Rightarrow> plan_error + string list" where
  "fork_candidates_walk hh stored seen [] out = Inr out"
| "fork_candidates_walk hh stored seen (d # ds) out =
     (case diverges_from hh d (map_option (\<lambda>c. (s_seq c, s_bodyHash c)) (stored (d_id d))) of
        Inl e \<Rightarrow> Inl e
      | Inr b \<Rightarrow>
          let mates = filter (\<lambda>x. d_id x = d_id d) seen;
              clash = list_ex (\<lambda>x. diverges_from hh d (Some (Some (d_seq x), Some (hash_body hh x))) = Inr True) mates
          in fork_candidates_walk hh stored (seen @ [d]) ds (if b \<or> clash then out @ [d_id d] else out))"

definition fork_candidates ::
  "'b hashing \<Rightarrow> 'b arrival_doc list \<Rightarrow> (string \<Rightarrow> 'b stored_copy option) \<Rightarrow> plan_error + string list" where
  "fork_candidates hh docs stored = map_sum id unique (fork_candidates_walk hh stored [] docs [])"

section \<open>The moves of a plan\<close>

text \<open>
  The part of a plan the properties speak of, and the few ways one document changes it.  Every branch of
  \<open>planArrivals\<close> is one of these moves, so an invariant is proved once per move.
\<close>

definition core :: "'b plan \<Rightarrow> _" where
  "core p = (accepts p, forks p, swaps p, overlay p, superseded p, newForks p, forksMade p, forkIds p)"

definition same_version :: "'b plan_input \<Rightarrow> 'b plan \<Rightarrow> 'b arrival_doc \<Rightarrow> bool" where
  "same_version inp p doc \<longleftrightarrow>
     (case map_of (overlay p) (d_id doc) of
        Some (j, old) \<Rightarrow> d_seq old = d_seq doc
      | None \<Rightarrow> \<exists>c. p_stored inp (d_id doc) = Some c \<and> s_seq c = Some (d_seq doc))"

definition newer_version :: "'b plan_input \<Rightarrow> 'b plan \<Rightarrow> 'b arrival_doc \<Rightarrow> bool" where
  "newer_version inp p doc \<longleftrightarrow>
     (case map_of (overlay p) (d_id doc) of
        Some (j, old) \<Rightarrow> d_seq old < d_seq doc
      | None \<Rightarrow> \<forall>c. p_stored inp (d_id doc) = Some c \<longrightarrow> is_newer_copy (d_seq doc) (s_seq c))"

text \<open>A fork row whose own tombstone was another instance's decision is admitted past it.\<close>

definition admitted_past :: "'b plan_input \<Rightarrow> 'b arrival_doc \<Rightarrow> held_tombstone \<Rightarrow> bool" where
  "admitted_past inp doc h \<longleftrightarrow>
     is_forking_family (p_kind inp) \<and> d_forkOf doc \<noteq> None \<and> held_tombstone_leaves_fork h (d_author doc)"

definition above_tomb :: "'b plan_input \<Rightarrow> 'b arrival_doc \<Rightarrow> bool" where
  "above_tomb inp doc \<longleftrightarrow>
     (\<forall>h. p_tombstones inp (d_id doc) = Some h \<longrightarrow> held_tombstone_refuses h (d_author doc) (p_deliveredBy inp) \<longrightarrow>
        \<not> admitted_past inp doc h \<longrightarrow> t_seq h < d_seq doc)"

text \<open>What holds of the tombstone reading \<open>tomb\<close> and \<open>via\<close> a document is accepted with.\<close>

definition tomb_read :: "'b plan_input \<Rightarrow> 'b plan \<Rightarrow> 'b arrival_doc \<Rightarrow> int option \<Rightarrow> string option \<Rightarrow> bool" where
  "tomb_read inp p doc tomb via \<longleftrightarrow>
     (d_id doc \<notin> set (superseded p) \<longrightarrow> above_tomb inp doc)
     \<and> (tomb \<noteq> None \<or> via \<noteq> None \<longrightarrow>
          (\<forall>h. p_tombstones inp (d_id doc) = Some h \<longrightarrow> superseded_via h (p_deliveredBy inp) = None \<longrightarrow> t_seq h < d_seq doc))"

definition maybe_fork ::
  "'b plan_input \<Rightarrow> 'b plan \<Rightarrow> nat \<Rightarrow> string \<Rightarrow> string \<Rightarrow> 'b arrival_doc \<Rightarrow> int \<Rightarrow> 'b plan" where
  "maybe_fork inp p j key fid row ver = (if fork_known inp p fid then p else make_fork j key fid row ver p)"

text \<open>The id a fork of a body is given: derived from the record, its version and the text of the body.\<close>

definition body_fork_id :: "'b hashing \<Rightarrow> 'b arrival_doc \<Rightarrow> authored \<Rightarrow> string" where
  "body_fork_id hh doc body = fork_id_for hh (d_id doc) (d_seq doc) (h_text (a_view body))"

definition may_fork :: "'b plan_input \<Rightarrow> 'b plan \<Rightarrow> string \<Rightarrow> string \<Rightarrow> bool" where
  "may_fork inp p key fid \<longleftrightarrow> fork_known inp p fid \<or> fork_fits inp p key"

inductive plan_move ::
  "'b hashing \<Rightarrow> 'b plan_input \<Rightarrow> nat \<Rightarrow> 'b arrival_doc \<Rightarrow> 'b plan \<Rightarrow> 'b plan \<Rightarrow> bool"
  for hh inp i doc p where
  quiet: "core p' = core p \<Longrightarrow> plan_move hh inp i doc p p'"
| held: "same_version inp p doc \<Longrightarrow> core p' = core (p\<lparr>overlay := map_put (d_id doc) (i, doc) (overlay p)\<rparr>) \<Longrightarrow>
    plan_move hh inp i doc p p'"
| answered: "fork_known inp p fid \<Longrightarrow> core p' = core (say_fork i fid p) \<Longrightarrow> plan_move hh inp i doc p p'"
| minted: "fork_fits inp p (d_id doc) \<Longrightarrow>
    core p' = core (say_fork i fid (make_fork i (d_id doc) fid row ver p)) \<Longrightarrow>
    fid = body_fork_id hh doc (hash_body hh doc) \<and> row = doc \<and> ver = d_seq doc \<Longrightarrow> plan_move hh inp i doc p p'"
| swapped: "same_version inp p doc \<Longrightarrow> map_of (overlay p) (d_id doc) = None \<Longrightarrow> may_fork inp p (d_id doc) fid \<Longrightarrow>
    p1 = maybe_fork inp p i (d_id doc) fid row (d_seq doc) \<Longrightarrow> w_loserForkId w = fid \<Longrightarrow>
    core p' = core (say_fork i fid (p1\<lparr>overlay := map_put (d_id doc) (i, doc) (overlay p1), swaps := swaps p1 @ [w]\<rparr>)) \<Longrightarrow>
    p_stored inp (d_id doc) = Some c \<and> s_row c = Some row \<and> fid = body_fork_id hh doc (the (s_bodyHash c))
      \<and> w = \<lparr>w_index = i, w_doc = doc, w_stored = row, w_loserForkId = fid\<rparr> \<Longrightarrow>
    plan_move hh inp i doc p p'"
| taken_over: "same_version inp p doc \<Longrightarrow> may_fork inp p (d_id doc) fid \<Longrightarrow>
    p1 = say_fork j fid (maybe_fork inp p j (d_id doc) fid old (d_seq doc)) \<Longrightarrow> k < length (swaps p) \<Longrightarrow>
    core p' = core (say_fork i (w_loserForkId (swaps p ! k)) (p1\<lparr>overlay := map_put (d_id doc) (i, doc) (overlay p1),
      forks := map (\<lambda>(x, d). (ix x d, d)) (forks p1),
      swaps := update_at k (\<lambda>x. x\<lparr>w_doc := doc, w_index := i\<rparr>) (swaps p1)\<rparr>)) \<Longrightarrow>
    map_of (overlay p) (d_id doc) = Some (j, old) \<and> fid = body_fork_id hh doc (hash_body hh old) \<and> w_index (swaps p ! k) = j \<Longrightarrow>
    plan_move hh inp i doc p p'"
| accepted: "tomb_read inp p doc tomb via \<Longrightarrow>
    newer_version inp p doc \<and> base = p
    \<or> same_version inp p doc \<and> map_of (overlay p) (d_id doc) = Some (j, old) \<and> accepted_at p (d_id doc) j
        \<and> base = drop_accepted (d_id doc) j p
    \<or> same_version inp p doc \<and> map_of (overlay p) (d_id doc) = Some (j, old) \<and> accepted_at p (d_id doc) j
        \<and> may_fork inp p (d_id doc) fid \<and> fid = body_fork_id hh doc (hash_body hh old)
        \<and> base = drop_accepted (d_id doc) j (say_fork j fid (maybe_fork inp p j (d_id doc) fid old (d_seq doc))) \<Longrightarrow>
    core q = core base \<Longrightarrow> core p' = core (accept hh inp i doc v tomb via q) \<Longrightarrow> plan_move hh inp i doc p p'"

section \<open>Every branch is a move\<close>

lemma core_say [simp]: "core (say i v p) = core p"
  by (simp add: core_def say_def)

lemma core_clean_late [simp]: "core (clean_late i t c p) = core p"
  by (simp add: core_def clean_late_def split: option.splits)

lemma core_hold_version [simp]:
  "core (hold_version hh kind i doc p) = core (p\<lparr>overlay := map_put (d_id doc) (i, doc) (overlay p)\<rparr>)"
  by (simp add: core_def hold_version_def Let_def split: option.splits)

lemma hold_version_fields [simp]:
  "accepts (hold_version hh kind i doc p) = accepts p" "forks (hold_version hh kind i doc p) = forks p"
  "swaps (hold_version hh kind i doc p) = swaps p" "superseded (hold_version hh kind i doc p) = superseded p"
  "overlay (hold_version hh kind i doc p) = map_put (d_id doc) (i, doc) (overlay p)"
  "newForks (hold_version hh kind i doc p) = newForks p" "forksMade (hold_version hh kind i doc p) = forksMade p"
  "forkIds (hold_version hh kind i doc p) = forkIds p" "cleanups (hold_version hh kind i doc p) = cleanups p"
  by (simp_all add: hold_version_def Let_def split: option.splits)

lemma core_fieldsD:
  assumes "core p = core q"
  shows "accepts p = accepts q" "forks p = forks q" "swaps p = swaps q" "overlay p = overlay q"
    "superseded p = superseded q" "newForks p = newForks q" "forksMade p = forksMade q" "forkIds p = forkIds q"
  using assms by (simp_all add: core_def)

lemma core_say_fork: "core p = core q \<Longrightarrow> core (say_fork i fid p) = core (say_fork i fid q)"
  by (simp add: core_def say_fork_def say_def)

lemma core_drop_accepted: "core p = core q \<Longrightarrow> core (drop_accepted k j p) = core (drop_accepted k j q)"
  by (simp add: core_def drop_accepted_def split: option.splits)

lemma win_tie_move:
  assumes "win_tie hh inp i doc cur (map_of (overlay p) (d_id doc)) tomb via p = Inr (Some p')"
    and "same_version inp p doc" and "tomb_read inp p doc tomb via"
    and stored: "map_of (overlay p) (d_id doc) = None \<Longrightarrow> p_stored inp (d_id doc) = Some cur"
  shows "plan_move hh inp i doc p p'"
proof (cases "map_of (overlay p) (d_id doc)")
  case None
  from assms(1) obtain row where row: "s_row cur = Some row"
    by (auto simp: win_tie_def None Let_def split: option.splits)
  define fid where "fid = fork_id_for hh (d_id doc) (d_seq doc) (h_text (a_view (the (s_bodyHash cur))))"
  define p1 where "p1 = maybe_fork inp p i (d_id doc) fid row (d_seq doc)"
  define w where "w = \<lparr>w_index = i, w_doc = doc, w_stored = row, w_loserForkId = fid\<rparr>"
  have may: "may_fork inp p (d_id doc) fid"
    and p': "p' = clean_late (d_id doc) tomb (s_seq cur) (say_fork i fid
        (hold_version hh (p_kind inp) i doc (p1\<lparr>swaps := swaps p1 @ [w]\<rparr>)))"
    using assms(1) unfolding win_tie_def None row option.case Let_def fid_def [symmetric] p1_def maybe_fork_def w_def may_fork_def
    by (auto split: if_splits)
  have "core p' = core (say_fork i fid (p1\<lparr>overlay := map_put (d_id doc) (i, doc) (overlay p1), swaps := swaps p1 @ [w]\<rparr>))"
    unfolding p' core_clean_late by (rule core_say_fork) (simp add: core_def)
  moreover have "w_loserForkId w = fid" by (simp add: w_def)
  ultimately show ?thesis
    using stored [OF None] row
    by (intro swapped [OF assms(2) None may p1_def, where w = w and c = cur]) (simp_all add: fid_def body_fork_id_def w_def)
next
  case (Some e)
  obtain j old where e: "e = (j, old)" by (cases e)
  define fid where "fid = fork_id_for hh (d_id doc) (d_seq doc) (h_text (a_view (hash_body hh old)))"
  have may: "may_fork inp p (d_id doc) fid"
    using assms(1) unfolding win_tie_def Some e option.case prod.case Let_def fid_def [symmetric] may_fork_def
    by (auto split: if_splits)
  show ?thesis
  proof (cases "find_index (\<lambda>w. w_index w = j) (swaps p)")
    case None
    then have ex: "accepted_at p (d_id doc) j"
      using assms(1) may unfolding win_tie_def Some e option.case prod.case Let_def fid_def [symmetric] may_fork_def
      by (auto split: if_splits)
    have p': "p' = accept hh inp i doc (the (verdicts p ! j)) tomb via
        (drop_accepted (d_id doc) j (say_fork j fid (maybe_fork inp p j (d_id doc) fid old (d_seq doc))))"
      using assms(1) may None ex
      unfolding win_tie_def Some e option.case prod.case Let_def fid_def [symmetric] may_fork_def maybe_fork_def
      by (auto split: if_splits)
    show ?thesis
      using assms(2,3) may p' ex Some e by (intro accepted [where q = "drop_accepted (d_id doc) j (say_fork j fid (maybe_fork inp p j (d_id doc) fid old (d_seq doc)))"
          and fid = fid and j = j and old = old]) (auto simp: fid_def body_fork_id_def)
  next
    case (Some k)
    define p1 where "p1 = say_fork j fid (maybe_fork inp p j (d_id doc) fid old (d_seq doc))"
    have sw: "swaps p1 = swaps p"
      by (simp add: p1_def say_fork_def say_def maybe_fork_def make_fork_def)
    have p': "p' = say_fork i (w_loserForkId (swaps p1 ! k)) (hold_version hh (p_kind inp) i doc
        (p1\<lparr>forks := map (\<lambda>(x, d). (if d_id d = w_loserForkId (swaps p1 ! k) \<and> x = j then i else x, d)) (forks p1),
            swaps := update_at k (\<lambda>x. x\<lparr>w_doc := doc, w_index := i\<rparr>) (swaps p1)\<rparr>))"
      using assms(1) may Some \<open>map_of (overlay p) (d_id doc) = Some e\<close>
      unfolding win_tie_def e option.case prod.case Let_def fid_def [symmetric] may_fork_def maybe_fork_def p1_def
      by (auto split: if_splits simp: e fid_def [symmetric])
    have "core p' = core (say_fork i (w_loserForkId (swaps p ! k)) (p1\<lparr>overlay := map_put (d_id doc) (i, doc) (overlay p1),
      forks := map (\<lambda>(x, d). (if d_id d = w_loserForkId (swaps p1 ! k) \<and> x = j then i else x, d)) (forks p1),
      swaps := update_at k (\<lambda>x. x\<lparr>w_doc := doc, w_index := i\<rparr>) (swaps p1)\<rparr>))"
      unfolding p' sw by (rule core_say_fork) (simp add: core_def)
    then show ?thesis
      using find_index_SomeD [OF Some] \<open>map_of (overlay p) (d_id doc) = Some e\<close>
      by (intro taken_over [OF assms(2) may p1_def, of k]) (auto simp: e fid_def body_fork_id_def)
  qed
qed

definition counts_as_fork :: "'b plan_input \<Rightarrow> 'b plan \<Rightarrow> 'b arrival_doc \<Rightarrow> bool" where
  "counts_as_fork inp p doc \<longleftrightarrow>
     is_forking_family (p_kind inp) \<and> truthy_str (d_forkOf doc) \<and> d_forkOf doc \<noteq> parent_of inp p (d_id doc)"

lemma accept_fields [simp]:
  "accepts (accept hh inp i doc v tomb via p) =
     map_put (d_id doc) ((case map_of (accepts p) (d_id doc) of Some xs \<Rightarrow> xs | None \<Rightarrow> []) @ [(i, doc)]) (accepts p)"
  "forks (accept hh inp i doc v tomb via p) = forks p" "swaps (accept hh inp i doc v tomb via p) = swaps p"
  "newForks (accept hh inp i doc v tomb via p) = newForks p" "forkIds (accept hh inp i doc v tomb via p) = forkIds p"
  "overlay (accept hh inp i doc v tomb via p) = map_put (d_id doc) (i, doc) (overlay p)"
  "superseded (accept hh inp i doc v tomb via p) =
     (if tomb \<noteq> None \<or> via \<noteq> None then d_id doc # superseded p else superseded p)"
  "forksMade (accept hh inp i doc v tomb via p) =
     (if counts_as_fork inp p doc then map_put (the (d_forkOf doc)) (Suc (made p (the (d_forkOf doc)))) (forksMade p)
      else forksMade p)"
  by (cases tomb; cases "via = None"; simp add: accept_def Let_def say_def made_def counts_as_fork_def)+

lemma core_accept:
  assumes "core p = core q"
  shows "core (accept hh inp i doc v tomb via p) = core (accept hh inp i doc v tomb via q)"
proof -
  note eq = core_fieldsD [OF assms]
  have "counts_as_fork inp p doc = counts_as_fork inp q doc" "made p = made q"
    by (simp_all add: counts_as_fork_def parent_of_def made_def eq fun_eq_iff)
  then show ?thesis by (simp add: core_def eq)
qed

lemma win_file_tie_move:
  assumes "win_file_tie hh inp i doc (map_of (overlay p) (d_id doc)) cur tomb via p = Inr p'"
    and "same_version inp p doc" and "tomb_read inp p doc tomb via"
  shows "plan_move hh inp i doc p p'"
proof (cases "map_of (overlay p) (d_id doc)")
  case None
  with assms(1) have "core p' = core (p\<lparr>overlay := map_put (d_id doc) (i, doc) (overlay p)\<rparr>)"
    by (auto simp: win_file_tie_def Let_def core_def say_def split: option.splits)
  with assms(2) show ?thesis by (rule held)
next
  case (Some e)
  obtain j old where e: "e = (j, old)" by (cases e)
  show ?thesis
  proof (cases "find_index (\<lambda>w. w_index w = j) (fileSwaps p)")
    case None
    then have p': "p' = accept hh inp i doc (the (verdicts p ! j)) tomb via (drop_accepted (d_id doc) j (say j Divergence_kept p))"
      and ex: "accepted_at p (d_id doc) j"
      using assms(1) by (auto simp: win_file_tie_def Some e Let_def split: if_splits)
    have "core (drop_accepted (d_id doc) j (say j Divergence_kept p)) = core (drop_accepted (d_id doc) j p)"
      by (rule core_drop_accepted) simp
    then show ?thesis
      using assms(2,3) p' ex Some e by (intro accepted [where q = "drop_accepted (d_id doc) j (say j Divergence_kept p)"
          and base = "drop_accepted (d_id doc) j p" and j = j and old = old]) auto
  next
    case (Some k)
    then have "core p' = core (p\<lparr>overlay := map_put (d_id doc) (i, doc) (overlay p)\<rparr>)"
      using assms(1) \<open>map_of (overlay p) (d_id doc) = Some e\<close>
      by (auto simp: win_file_tie_def e Let_def core_def say_def)
    with assms(2) show ?thesis by (rule held)
  qed
qed

lemma plan_divergent_move:
  assumes "plan_divergent hh inp i doc cur (map_of (overlay p) (d_id doc)) tomb via p = Inr p'"
    and same: "same_version inp p doc" and tomb: "tomb_read inp p doc tomb via"
    and stored: "map_of (overlay p) (d_id doc) = None \<Longrightarrow> p_stored inp (d_id doc) = Some cur"
  shows "plan_move hh inp i doc p p'"
proof -
  obtain a h where ah: "tie_hashes (hash_body hh doc) (the (s_bodyHash cur)) = (a, h)" by force
  show ?thesis
  proof (cases "s_forkOf cur = None \<and> arriving_wins_tie a h")
    case True
    with assms(1) have "(case win_tie hh inp i doc cur (map_of (overlay p) (d_id doc)) tomb via p of
        Inl e \<Rightarrow> Inl e | Inr None \<Rightarrow> Inr (say i Fork_refused p) | Inr (Some p') \<Rightarrow> Inr p') = Inr p'"
      by (simp add: plan_divergent_def ah)
    then show ?thesis
      using win_tie_move [OF _ same tomb stored] by (auto split: sum.splits option.splits intro: quiet)
  next
    case False
    define fid where "fid = fork_id_for hh (d_id doc) (d_seq doc) (h_text (a_view (hash_body hh doc)))"
    define legacy where "legacy = legacy_fork_id_of hh (p_kind inp) doc (d_id doc) (d_seq doc)"
    from assms(1) have eq: "(if fork_known inp p fid then Inr (say_fork i fid p)
           else case legacy of
             Some l \<Rightarrow>
               if fork_known inp p l then Inr (say_fork i l p)
               else if \<not> fork_fits inp p (d_id doc) then Inr (say i Fork_refused p)
               else if s_forkOf cur \<noteq> None then Inr (say i Skipped p)
               else Inr (say_fork i fid (make_fork i (d_id doc) fid doc (d_seq doc) p))
           | None \<Rightarrow>
               if \<not> fork_fits inp p (d_id doc) then Inr (say i Fork_refused p)
               else if s_forkOf cur \<noteq> None then Inr (say i Skipped p)
               else Inr (say_fork i fid (make_fork i (d_id doc) fid doc (d_seq doc) p))) = (Inr p' :: plan_error + _)"
      unfolding plan_divergent_def ah Let_def prod.case if_not_P [OF False] fid_def legacy_def .
    consider (known) f where "fork_known inp p f" "p' = say_fork i f p"
      | (fits) "fork_fits inp p (d_id doc)" "p' = say_fork i fid (make_fork i (d_id doc) fid doc (d_seq doc) p)"
      | (quiet) v where "p' = say i v p"
      using eq by (auto split: if_splits option.splits)
    then show ?thesis
      proof cases
      case known
      then show ?thesis by (intro plan_move.answered) auto
    next
      case fits
      then show ?thesis by (intro plan_move.minted [where row = doc and ver = "d_seq doc"]) (auto simp: fid_def body_fork_id_def)
    next
      case quiet
      then show ?thesis by (intro plan_move.quiet) simp
    qed
  qed
qed

lemma plan_newer_move:
  assumes "newer_version inp p doc" and "tomb_read inp p doc tomb via"
  shows "plan_move hh inp i doc p (plan_newer hh inp i doc cur admitted past tomb via p)"
proof -
  let ?holder = "Option.bind (unique_key hh (p_kind inp) doc) (map_of (keyOwner p))"
  show ?thesis
  proof (cases "?holder \<noteq> None \<and> ?holder \<noteq> Some (d_id doc)")
    case True
    then show ?thesis by (intro quiet) (simp add: plan_newer_def)
  next
    case False
    define p1 where "p1 = (if admitted \<noteq> Row_ok then p\<lparr>unverifiable := unverifiable p @ [(i, admitted)]\<rparr> else p)"
    define p2 where "p2 = (case past of None \<Rightarrow> p1
        | Some h \<Rightarrow> p1\<lparr>marks := marks p1 @ [(i, \<lparr>k_by = or_text (t_issuer h), k_at = or_text (t_deletedAt h), k_seq = t_seq h\<rparr>)]\<rparr>)"
    have "core p2 = core p" by (simp add: p2_def p1_def core_def split: option.splits)
    moreover have "plan_newer hh inp i doc cur admitted past tomb via p =
        accept hh inp i doc (if p_kind inp = Facts then if cur = None then Inserted else Updated else Upserted) tomb via p2"
      unfolding plan_newer_def Let_def if_not_P [OF False] p1_def p2_def ..
    ultimately show ?thesis
      using assms by (intro accepted [where q = p2 and base = p and j = 0 and fid = "[]" and old = doc]) auto
  qed
qed

lemma plan_standing_file_move:
  assumes "plan_standing_file hh inp i doc cur (map_of (overlay p) (d_id doc)) tomb via p = Inr (Some p')"
    and same: "\<And>c. cur = Some c \<Longrightarrow> s_seq c = Some (d_seq doc) \<Longrightarrow> same_version inp p doc"
    and tomb: "tomb_read inp p doc tomb via"
  shows "plan_move hh inp i doc p p'"
proof (cases "converges_on_author_stamp hh doc cur (p_deliveredBy inp) (p_self inp)")
  case True
  with assms(1) have "core p' = core p"
    by (auto simp: plan_standing_file_def core_def say_def)
  then show ?thesis by (rule quiet)
next
  case False
  note stand = assms(1) [unfolded plan_standing_file_def if_not_P [OF False]]
  then obtain c where c: "cur = Some c" "s_seq c = Some (d_seq doc)"
    by (auto split: option.splits if_splits)
  have "(\<exists>q. win_file_tie hh inp i doc (map_of (overlay p) (d_id doc)) c tomb via p = Inr q \<and> p' = q) \<or> core p' = core p"
    using stand unfolding c(1) option.case Let_def by (auto split: option.splits if_splits sum.splits)
  then show ?thesis
    using win_file_tie_move [OF _ same [OF c] tomb] quiet by blast
qed

text \<open>What the planner holds of an id: this page's copy, or the stored one.\<close>

definition copy_held :: "'b hashing \<Rightarrow> 'b plan_input \<Rightarrow> 'b plan \<Rightarrow> string \<Rightarrow> 'b stored_copy option" where
  "copy_held hh inp p i =
     (case map_of (overlay p) i of
        None \<Rightarrow> p_stored inp i
      | Some (_, d) \<Rightarrow> Some (copy_of hh (is_forking_family (p_kind inp)) d))"

lemma copy_held_same:
  "copy_held hh inp p (d_id doc) = Some c \<Longrightarrow> s_seq c = Some (d_seq doc) \<Longrightarrow> same_version inp p doc"
  by (auto simp: copy_held_def same_version_def copy_of_def split: option.splits)

lemma copy_held_newer:
  "is_newer_copy (d_seq doc) (Option.bind (copy_held hh inp p (d_id doc)) s_seq) \<Longrightarrow> newer_version inp p doc"
  by (auto simp: copy_held_def newer_version_def copy_of_def is_newer_copy_def split: option.splits)

lemma diverges_same:
  "diverges_from hh doc (map_option (\<lambda>c. (s_seq c, s_bodyHash c)) cur) = Inr True \<Longrightarrow>
     \<exists>c. cur = Some c \<and> s_seq c = Some (d_seq doc)"
  by (auto simp: diverges_from_def split: option.splits if_splits)

lemma refuses_not_via: "held_tombstone_refuses h a db \<Longrightarrow> superseded_via h db = None"
  by (auto simp: held_tombstone_refuses_def split: if_splits)

definition held_of :: "'b plan_input \<Rightarrow> 'b plan \<Rightarrow> 'b arrival_doc \<Rightarrow> held_tombstone option" where
  "held_of inp p doc = (if d_id doc \<in> set (superseded p) then None else p_tombstones inp (d_id doc))"

definition past_of :: "'b plan_input \<Rightarrow> 'b plan \<Rightarrow> 'b arrival_doc \<Rightarrow> held_tombstone option" where
  "past_of inp p doc =
     (if (is_forking_family (p_kind inp) \<and> d_forkOf doc \<noteq> None \<and> held_of inp p doc \<noteq> None)
         \<and> held_tombstone_leaves_fork (the (held_of inp p doc)) (d_author doc) then held_of inp p doc else None)"

definition tomb_of :: "'b plan_input \<Rightarrow> 'b plan \<Rightarrow> 'b arrival_doc \<Rightarrow> int option" where
  "tomb_of inp p doc = (if past_of inp p doc \<noteq> None then None
     else tomb_seq_for (d_author doc) (held_of inp p doc) (p_deliveredBy inp))"

definition via_of :: "'b plan_input \<Rightarrow> 'b plan \<Rightarrow> 'b arrival_doc \<Rightarrow> string option" where
  "via_of inp p doc = (if past_of inp p doc \<noteq> None then None
     else case held_of inp p doc of None \<Rightarrow> None | Some h \<Rightarrow> superseded_via h (p_deliveredBy inp))"

lemma past_of_iff:
  "past_of inp p doc \<noteq> None \<longleftrightarrow> (\<exists>h. held_of inp p doc = Some h \<and> admitted_past inp doc h)"
  by (auto simp: past_of_def admitted_past_def split: option.splits)

lemma tomb_of_Some:
  "tomb_of inp p doc = Some t \<Longrightarrow>
     \<exists>h. p_tombstones inp (d_id doc) = Some h \<and> held_tombstone_refuses h (d_author doc) (p_deliveredBy inp) \<and> t = t_seq h"
  by (auto simp: tomb_of_def tomb_seq_for_def held_of_def split: if_splits option.splits)

lemma via_of_Some:
  "via_of inp p doc \<noteq> None \<Longrightarrow>
     \<exists>h. p_tombstones inp (d_id doc) = Some h \<and> superseded_via h (p_deliveredBy inp) \<noteq> None"
  by (auto simp: via_of_def held_of_def split: if_splits option.splits)

lemma tomb_read_of:
  assumes "\<not> (case tomb_of inp p doc of Some t \<Rightarrow> d_seq doc \<le> t | None \<Rightarrow> False)"
  shows "tomb_read inp p doc (tomb_of inp p doc) (via_of inp p doc)"
proof -
  have "above_tomb inp doc" if "d_id doc \<notin> set (superseded p)"
  proof -
    have held: "held_of inp p doc = p_tombstones inp (d_id doc)" using that by (simp add: held_of_def)
    show ?thesis
      unfolding above_tomb_def
    proof (intro allI impI)
      fix h
      assume h: "p_tombstones inp (d_id doc) = Some h" "held_tombstone_refuses h (d_author doc) (p_deliveredBy inp)"
        "\<not> admitted_past inp doc h"
      then have "past_of inp p doc = None" using past_of_iff [of inp p doc] held by auto
      with h held have "tomb_of inp p doc = Some (t_seq h)" by (simp add: tomb_of_def tomb_seq_for_def)
      with assms show "t_seq h < d_seq doc" by simp
    qed
  qed
  moreover have "t_seq h < d_seq doc"
    if t: "tomb_of inp p doc \<noteq> None \<or> via_of inp p doc \<noteq> None"
      and h: "p_tombstones inp (d_id doc) = Some h" "superseded_via h (p_deliveredBy inp) = None" for h
  proof -
    from t h via_of_Some [of inp p doc] obtain t where "tomb_of inp p doc = Some t" by auto
    with tomb_of_Some [OF this] h(1) assms show ?thesis by auto
  qed
  ultimately show ?thesis by (auto simp: tomb_read_def)
qed

text \<open>The planner's step over its readings, in the order of the source.\<close>

lemma plan_one_eq:
  "plan_one hh inp page i doc p =
     (let cur = copy_held hh inp p (d_id doc); earlier = map_of (overlay p) (d_id doc); kind = p_kind inp in
      if kind = Chrono \<and> p_door inp = Push_door
         \<and> (case p_allowedTypes inp of Some ts \<Rightarrow> or_text (d_type doc) \<notin> ts | None \<Rightarrow> False) then Inr (say i Unknown_type p)
      else if kind = Links \<and> Some (d_id doc) \<noteq> unique_key hh kind doc then Inr (say i Underived_id p)
      else if kind = Edges \<and> (case cur of Some c \<Rightarrow> (s_forkOf c \<noteq> None) \<noteq> (d_forkOf doc \<noteq> None) | None \<Rightarrow> False)
        then Inr (say i Invalid_fork p)
      else case judge_fork_row hh inp page p doc cur of
        Inl v \<Rightarrow> Inr (say i v p)
      | Inr admitted \<Rightarrow>
          if (is_forking_family kind \<and> d_forkOf doc \<noteq> None \<and> held_of inp p doc \<noteq> None)
             \<and> t_issuedHere (the (held_of inp p doc)) = Some True then Inr (say i Tombstoned p)
          else if (case tomb_of inp p doc of Some t \<Rightarrow> d_seq doc \<le> t | None \<Rightarrow> False) then Inr (say i Tombstoned p)
          else
            let newer = is_newer_copy (d_seq doc) (Option.bind cur s_seq) in
            case (if is_forking_family kind \<and> cur \<noteq> None \<and> \<not> newer
                  then diverges_from hh doc (map_option (\<lambda>c. (s_seq c, s_bodyHash c)) cur) else Inr False) of
              Inl e \<Rightarrow> Inl e
            | Inr True \<Rightarrow> plan_divergent hh inp i doc (the cur) earlier (tomb_of inp p doc) (via_of inp p doc) p
            | Inr False \<Rightarrow>
                if newer then Inr (plan_newer hh inp i doc cur admitted (past_of inp p doc) (tomb_of inp p doc) (via_of inp p doc) p)
                else
                  let stand = (if kind = Files
                      then plan_standing_file hh inp i doc cur earlier (tomb_of inp p doc) (via_of inp p doc) p else Inr None) in
                  case stand of
                    Inl e \<Rightarrow> Inl e
                  | Inr (Some p') \<Rightarrow> Inr p'
                  | Inr None \<Rightarrow> Inr (clean_late (d_id doc) (tomb_of inp p doc) (Option.bind cur s_seq) (say i Skipped p)))"
  unfolding plan_one_def Let_def copy_held_def held_of_def past_of_def tomb_of_def via_of_def by (rule refl)

lemma plan_one_move:
  assumes "plan_one hh inp page i doc p = Inr p'"
  shows "plan_move hh inp i doc p p'"
proof (cases "core p' = core p")
  case True
  then show ?thesis by (rule quiet)
next
  case loud: False
  let ?cur = "copy_held hh inp p (d_id doc)" and ?t = "tomb_of inp p doc" and ?v = "via_of inp p doc"
  let ?newer = "is_newer_copy (d_seq doc) (Option.bind ?cur s_seq)"
  let ?kind = "p_kind inp"
  let ?g1 = "?kind = Chrono \<and> p_door inp = Push_door
         \<and> (case p_allowedTypes inp of Some ts \<Rightarrow> or_text (d_type doc) \<notin> ts | None \<Rightarrow> False)"
  let ?g2 = "?kind = Links \<and> Some (d_id doc) \<noteq> unique_key hh ?kind doc"
  let ?g3 = "?kind = Edges \<and> (case ?cur of Some c \<Rightarrow> (s_forkOf c \<noteq> None) \<noteq> (d_forkOf doc \<noteq> None) | None \<Rightarrow> False)"
  let ?g4 = "(is_forking_family ?kind \<and> d_forkOf doc \<noteq> None \<and> held_of inp p doc \<noteq> None)
             \<and> t_issuedHere (the (held_of inp p doc)) = Some True"
  let ?g5 = "case ?t of Some t \<Rightarrow> d_seq doc \<le> t | None \<Rightarrow> False"
  let ?dv = "if is_forking_family ?kind \<and> ?cur \<noteq> None \<and> \<not> ?newer
             then diverges_from hh doc (map_option (\<lambda>c. (s_seq c, s_bodyHash c)) ?cur) else Inr False"
  let ?div = "plan_divergent hh inp i doc (the ?cur) (map_of (overlay p) (d_id doc)) ?t ?v p"
  let ?stand = "if ?kind = Files then plan_standing_file hh inp i doc ?cur (map_of (overlay p) (d_id doc)) ?t ?v p else Inr None"
  have said: "(Inr (say i v p) :: plan_error + 'a plan) \<noteq> Inr p'" for v
    using loud by (metis core_say sum.inject(2))
  have guard: "\<not> P" if "(if P then Inr (say i v p) else X) = (Inr p' :: plan_error + 'a plan)" for P v X
    using that said by (cases P) simp_all
  note eq = assms [unfolded plan_one_eq Let_def]
  have g1: "\<not> ?g1" by (rule guard [OF eq])
  note eq = eq [unfolded if_not_P [OF g1]]
  have g2: "\<not> ?g2" by (rule guard [OF eq])
  note eq = eq [unfolded if_not_P [OF g2]]
  have g3: "\<not> ?g3" by (rule guard [OF eq])
  note eq = eq [unfolded if_not_P [OF g3]]
  obtain adm where adm: "judge_fork_row hh inp page p doc ?cur = Inr adm"
    using eq said by (cases "judge_fork_row hh inp page p doc ?cur") simp_all
  note eq = eq [unfolded adm sum.case]
  have g4: "\<not> ?g4" by (rule guard [OF eq])
  note eq = eq [unfolded if_not_P [OF g4]]
  have nt: "\<not> ?g5" by (rule guard [OF eq])
  note eq = eq [unfolded if_not_P [OF nt]]
  note read = tomb_read_of [OF nt]
  obtain b where b: "?dv = Inr b"
  proof (cases ?dv)
    case (Inl e)
    from eq [unfolded this sum.case] show ?thesis by (simp only: sum.distinct)
  next
    case (Inr b)
    then show ?thesis by (rule that)
  qed
  note eq = eq [unfolded b sum.case]
  have "?div = Inr p' \<and> diverges_from hh doc (map_option (\<lambda>c. (s_seq c, s_bodyHash c)) ?cur) = Inr True
      \<or> ?newer \<and> (\<exists>adm. p' = plan_newer hh inp i doc ?cur adm (past_of inp p doc) ?t ?v p)
      \<or> plan_standing_file hh inp i doc ?cur (map_of (overlay p) (d_id doc)) ?t ?v p = Inr (Some p')"
  proof (cases b)
    case True
    then have bT: "b = True" by simp
    have "?div = Inr p'" using eq unfolding bT bool.case .
    moreover have "diverges_from hh doc (map_option (\<lambda>c. (s_seq c, s_bodyHash c)) ?cur) = Inr True"
      using b unfolding bT by (cases "is_forking_family ?kind \<and> ?cur \<noteq> None \<and> \<not> ?newer") (simp_all split: if_splits)
    ultimately show ?thesis by blast
  next
    case False
    then have bF: "b = False" by simp
    note eq = eq [unfolded bF bool.case]
    show ?thesis
    proof (cases ?newer)
      case True
      have "p' = plan_newer hh inp i doc ?cur adm (past_of inp p doc) ?t ?v p"
        using eq unfolding if_P [OF True] by (simp only: sum.inject)
      with True show ?thesis by blast
    next
      case False
      note eq = eq [unfolded if_not_P [OF False]]
      have "?stand = Inr (Some p')"
      proof (cases ?stand)
        case (Inl e)
        from eq [unfolded this sum.case] show ?thesis by (simp only: sum.distinct)
      next
        case (Inr r)
        note eq = eq [unfolded Inr sum.case]
        show ?thesis
        proof (cases r)
          case None
          from eq [unfolded this option.case] have "p' = clean_late (d_id doc) ?t (Option.bind ?cur s_seq) (say i Skipped p)"
            by (simp only: sum.inject)
          with loud show ?thesis by simp
        next
          case (Some q)
          from eq [unfolded this option.case] Some Inr show ?thesis by (simp only: sum.inject)
        qed
      qed
      then have "plan_standing_file hh inp i doc ?cur (map_of (overlay p) (d_id doc)) ?t ?v p = Inr (Some p')"
        by (simp split: if_splits)
      then show ?thesis by (intro disjI2)
    qed
  qed
  then show ?thesis
  proof (elim disjE conjE exE)
    assume div: "plan_divergent hh inp i doc (the ?cur) (map_of (overlay p) (d_id doc)) ?t ?v p = Inr p'"
      and dv: "diverges_from hh doc (map_option (\<lambda>c. (s_seq c, s_bodyHash c)) ?cur) = Inr True"
    then have same: "same_version inp p doc" using diverges_same copy_held_same by blast
    have "p_stored inp (d_id doc) = Some (the ?cur)" if "map_of (overlay p) (d_id doc) = None"
      using diverges_same [OF dv] that by (auto simp: copy_held_def)
    from plan_divergent_move [OF div same read this] show ?thesis .
  next
    fix adm
    assume newer: ?newer and "p' = plan_newer hh inp i doc ?cur adm (past_of inp p doc) ?t ?v p"
    then show ?thesis using plan_newer_move [OF copy_held_newer [OF newer] read] by simp
  next
    assume "plan_standing_file hh inp i doc ?cur (map_of (overlay p) (d_id doc)) ?t ?v p = Inr (Some p')"
    then show ?thesis using copy_held_same read by (rule plan_standing_file_move)
  qed
qed

lemma plan_from_inv:
  assumes "plan_from hh inp page i docs p = Inr p'" and "P i p"
    and "\<And>i d p p'. plan_move hh inp i d p p' \<Longrightarrow> P i p \<Longrightarrow> P (Suc i) p'"
  shows "\<exists>n. P n p'"
  using assms(1,2)
proof (induction docs arbitrary: i p)
  case (Cons d ds)
  then obtain q where q: "plan_one hh inp page i d p = Inr q" "plan_from hh inp page (Suc i) ds q = Inr p'"
    by (auto split: sum.splits)
  show ?case using Cons.IH [OF q(2)] assms(3) [OF plan_one_move [OF q(1)] Cons.prems(2)] by simp
qed auto

section \<open>Invariant: only newer copies are accepted\<close>

definition newer_than_stored :: "'b plan_input \<Rightarrow> 'b arrival_doc \<Rightarrow> bool" where
  "newer_than_stored inp d \<longleftrightarrow> (\<forall>c. p_stored inp (d_id d) = Some c \<longrightarrow> is_newer_copy (d_seq d) (s_seq c))"

definition not_older :: "'b plan_input \<Rightarrow> 'b arrival_doc \<Rightarrow> bool" where
  "not_older inp d \<longleftrightarrow> (\<forall>c sq. p_stored inp (d_id d) = Some c \<longrightarrow> s_seq c = Some sq \<longrightarrow> sq \<le> d_seq d)"

definition listed :: "(string \<times> 'b entry list) list \<Rightarrow> string \<Rightarrow> 'b entry set" where
  "listed acc k = (case map_of acc k of Some xs \<Rightarrow> set xs | None \<Rightarrow> {})"

definition acc_ok :: "'b plan_input \<Rightarrow> nat \<Rightarrow> (string \<times> 'b entry list) list \<Rightarrow> bool" where
  "acc_ok inp i acc \<longleftrightarrow>
     (\<forall>k x d. (x, d) \<in> listed acc k \<longrightarrow> x < i \<and> d_id d = k \<and> above_tomb inp d \<and> newer_than_stored inp d)"

definition ov_ok :: "'b plan_input \<Rightarrow> nat \<Rightarrow> (string \<times> 'b entry list) list \<Rightarrow> (string \<times> 'b entry) list \<Rightarrow> bool" where
  "ov_ok inp i acc ov \<longleftrightarrow>
     (\<forall>k x d. map_of ov k = Some (x, d) \<longrightarrow>
        x < i \<and> d_id d = k \<and> not_older inp d \<and> ((\<exists>d'. (x, d') \<in> listed acc k) \<longrightarrow> newer_than_stored inp d))"

definition gone_ok :: "'b plan_input \<Rightarrow> (string \<times> 'b entry) list \<Rightarrow> string list \<Rightarrow> bool" where
  "gone_ok inp ov gone \<longleftrightarrow>
     (\<forall>k \<in> set gone. \<exists>x d. map_of ov k = Some (x, d)
        \<and> (\<forall>h. p_tombstones inp k = Some h \<longrightarrow> superseded_via h (p_deliveredBy inp) = None \<longrightarrow> t_seq h < d_seq d))"

definition order_inv ::
  "'b plan_input \<Rightarrow> nat \<Rightarrow> (string \<times> 'b entry list) list \<Rightarrow> (string \<times> 'b entry) list \<Rightarrow> string list \<Rightarrow> bool" where
  "order_inv inp i acc ov gone \<longleftrightarrow> acc_ok inp i acc \<and> ov_ok inp i acc ov \<and> gone_ok inp ov gone"

lemma listed_put: "listed (map_put k xs acc) k' = (if k' = k then set xs else listed acc k')"
  by (simp add: listed_def map_of_map_put)

lemma acc_ok_Suc: "acc_ok inp i acc \<Longrightarrow> acc_ok inp (Suc i) acc"
  by (auto simp: acc_ok_def intro: less_SucI)

lemma ov_ok_Suc: "ov_ok inp i acc ov \<Longrightarrow> ov_ok inp (Suc i) acc ov"
  by (auto simp: ov_ok_def intro: less_SucI)

lemma order_inv_Suc: "order_inv inp i acc ov gone \<Longrightarrow> order_inv inp (Suc i) acc ov gone"
  by (simp add: order_inv_def acc_ok_Suc ov_ok_Suc)

lemma order_inv_drop:
  assumes "order_inv inp i acc ov gone" "\<And>k. listed acc' k \<subseteq> listed acc k"
  shows "order_inv inp i acc' ov gone"
  using assms unfolding order_inv_def acc_ok_def ov_ok_def by blast

lemma listed_drop: "listed (accepts (drop_accepted k j p)) k' \<subseteq> listed (accepts p) k'"
proof (cases "map_of (accepts p) k")
  case None
  then show ?thesis by (simp add: drop_accepted_def)
next
  case (Some xs)
  then show ?thesis
    using set_remove_at [of "the (find_index (\<lambda>e. fst e = j) xs)" xs]
    by (cases "find_index (\<lambda>e. fst e = j) xs") (auto simp: drop_accepted_def listed_put, auto simp: listed_def)
qed

lemma overlay_not_older:
  "order_inv inp i acc ov gone \<Longrightarrow> map_of ov k = Some (j, old) \<Longrightarrow> d_id old = k \<and> not_older inp old"
  unfolding order_inv_def ov_ok_def by blast

lemma same_version_not_older:
  assumes "order_inv inp i (accepts p) (overlay p) gone" "same_version inp p doc"
  shows "not_older inp doc"
proof (cases "map_of (overlay p) (d_id doc)")
  case None
  with assms(2) show ?thesis by (auto simp: same_version_def not_older_def)
next
  case (Some e)
  obtain j old where e: "e = (j, old)" by (cases e)
  with overlay_not_older [OF assms(1), of "d_id doc" j old] Some assms(2) show ?thesis
    by (simp add: same_version_def not_older_def)
qed

lemma newer_version_newer:
  assumes "order_inv inp i (accepts p) (overlay p) gone" "newer_version inp p doc"
  shows "newer_than_stored inp doc"
proof (cases "map_of (overlay p) (d_id doc)")
  case None
  with assms(2) show ?thesis by (simp add: newer_version_def newer_than_stored_def)
next
  case (Some e)
  obtain j old where e: "e = (j, old)" by (cases e)
  with overlay_not_older [OF assms(1), of "d_id doc" j old] Some assms(2)
  have old: "d_id old = d_id doc" "not_older inp old" "d_seq old < d_seq doc"
    by (simp_all add: newer_version_def)
  then show ?thesis
    by (force simp: newer_than_stored_def is_newer_copy_def not_older_def split: option.splits)
qed

lemma newer_not_older: "newer_than_stored inp d \<Longrightarrow> not_older inp d"
  by (auto simp: newer_than_stored_def not_older_def is_newer_copy_def)

lemma gone_ok_put:
  assumes "gone_ok inp ov gone"
    and "case map_of ov (d_id doc) of Some (j, old) \<Rightarrow> d_seq old \<le> d_seq doc | None \<Rightarrow> True"
  shows "gone_ok inp (map_put (d_id doc) (i, doc) ov) gone"
  unfolding gone_ok_def
proof
  fix k
  assume "k \<in> set gone"
  with assms(1) obtain x d where d: "map_of ov k = Some (x, d)"
    "\<forall>h. p_tombstones inp k = Some h \<longrightarrow> superseded_via h (p_deliveredBy inp) = None \<longrightarrow> t_seq h < d_seq d"
    unfolding gone_ok_def by blast
  show "\<exists>x d. map_of (map_put (d_id doc) (i, doc) ov) k = Some (x, d)
    \<and> (\<forall>h. p_tombstones inp k = Some h \<longrightarrow> superseded_via h (p_deliveredBy inp) = None \<longrightarrow> t_seq h < d_seq d)"
  proof (cases "k = d_id doc")
    case True
    with d(1) assms(2) have "d_seq d \<le> d_seq doc" by simp
    then have "\<forall>h. p_tombstones inp k = Some h \<longrightarrow> superseded_via h (p_deliveredBy inp) = None \<longrightarrow> t_seq h < d_seq doc"
      using d(2) by fastforce
    with True show ?thesis by (simp add: map_of_map_put)
  next
    case False
    with d show ?thesis by (simp add: map_of_map_put)
  qed
qed

lemma version_le:
  "same_version inp p doc \<or> newer_version inp p doc \<Longrightarrow>
     case map_of (overlay p) (d_id doc) of Some (j, old) \<Rightarrow> d_seq old \<le> d_seq doc | None \<Rightarrow> True"
  by (auto simp: same_version_def newer_version_def split: option.splits)

lemma order_inv_fresh: "order_inv inp i acc ov gone \<Longrightarrow> (i, d) \<notin> listed acc k"
  unfolding order_inv_def acc_ok_def by blast

lemma order_inv_hold:
  assumes inv: "order_inv inp i (accepts p) (overlay p) gone" and same: "same_version inp p doc"
  shows "order_inv inp (Suc i) (accepts p) (map_put (d_id doc) (i, doc) (overlay p)) gone"
proof -
  have "ov_ok inp (Suc i) (accepts p) (map_put (d_id doc) (i, doc) (overlay p))"
    using inv ov_ok_Suc [of inp i "accepts p" "overlay p"] same_version_not_older [OF inv same]
      order_inv_fresh [OF inv]
    by (auto simp: ov_ok_def order_inv_def map_of_map_put)
  moreover have "gone_ok inp (map_put (d_id doc) (i, doc) (overlay p)) gone"
    using inv version_le [of inp p doc] same by (intro gone_ok_put) (simp_all add: order_inv_def)
  ultimately show ?thesis using inv by (simp add: order_inv_def acc_ok_Suc)
qed

text \<open>Accepting a document: newer than what is stored, above the tombstone it met.\<close>

lemma order_inv_accept:
  assumes inv: "order_inv inp i acc (overlay p) gone"
    and le: "case map_of (overlay p) (d_id doc) of Some (j, old) \<Rightarrow> d_seq old \<le> d_seq doc | None \<Rightarrow> True"
    and newer: "newer_than_stored inp doc" and tomb: "above_tomb inp doc"
    and gone': "gone' = gone \<or> gone' = d_id doc # gone \<and>
      (\<forall>h. p_tombstones inp (d_id doc) = Some h \<longrightarrow> superseded_via h (p_deliveredBy inp) = None \<longrightarrow> t_seq h < d_seq doc)"
  shows "order_inv inp (Suc i)
    (map_put (d_id doc) ((case map_of acc (d_id doc) of Some xs \<Rightarrow> xs | None \<Rightarrow> []) @ [(i, doc)]) acc)
    (map_put (d_id doc) (i, doc) (overlay p)) gone'"
proof -
  let ?acc = "map_put (d_id doc) ((case map_of acc (d_id doc) of Some xs \<Rightarrow> xs | None \<Rightarrow> []) @ [(i, doc)]) acc"
  have put: "listed ?acc k = (if k = d_id doc then insert (i, doc) (listed acc k) else listed acc k)" for k
    by (auto simp: listed_put) (auto simp: listed_def split: option.splits)
  have "acc_ok inp (Suc i) ?acc"
    using inv newer tomb unfolding order_inv_def acc_ok_def put by (auto intro: less_SucI)
  moreover have "ov_ok inp (Suc i) ?acc (map_put (d_id doc) (i, doc) (overlay p))"
    using inv newer newer_not_older [OF newer] unfolding order_inv_def ov_ok_def put map_of_map_put
    by (auto intro: less_SucI)
  moreover have "gone_ok inp (map_put (d_id doc) (i, doc) (overlay p)) gone"
    using inv le by (intro gone_ok_put) (simp_all add: order_inv_def)
  then have "gone_ok inp (map_put (d_id doc) (i, doc) (overlay p)) gone'"
    using gone' by (elim disjE conjE) (simp_all add: gone_ok_def map_of_map_put)
  ultimately show ?thesis by (simp add: order_inv_def)
qed

lemma above_tomb_read:
  assumes inv: "order_inv inp i acc (overlay p) (superseded p)" and read: "tomb_read inp p doc tomb via"
    and le: "case map_of (overlay p) (d_id doc) of Some (j, old) \<Rightarrow> d_seq old \<le> d_seq doc | None \<Rightarrow> True"
  shows "above_tomb inp doc"
proof (cases "d_id doc \<in> set (superseded p)")
  case False
  with read show ?thesis by (simp add: tomb_read_def)
next
  case True
  with inv obtain x d where d: "map_of (overlay p) (d_id doc) = Some (x, d)"
    "\<forall>h. p_tombstones inp (d_id doc) = Some h \<longrightarrow> superseded_via h (p_deliveredBy inp) = None \<longrightarrow> t_seq h < d_seq d"
    unfolding order_inv_def gone_ok_def by blast
  with le have "d_seq d \<le> d_seq doc" by simp
  with d(2) show ?thesis
    unfolding above_tomb_def by (fastforce dest: refuses_not_via)
qed

lemma maybe_fork_fields [simp]:
  "accepts (maybe_fork inp p j key fid row ver) = accepts p" "overlay (maybe_fork inp p j key fid row ver) = overlay p"
  "superseded (maybe_fork inp p j key fid row ver) = superseded p" "swaps (maybe_fork inp p j key fid row ver) = swaps p"
  "forkIds (maybe_fork inp p j key fid row ver) = forkIds p"
  by (simp_all add: maybe_fork_def make_fork_def)

lemma say_fork_fields [simp]:
  "accepts (say_fork i fid p) = accepts p" "overlay (say_fork i fid p) = overlay p"
  "superseded (say_fork i fid p) = superseded p" "swaps (say_fork i fid p) = swaps p" "forks (say_fork i fid p) = forks p"
  "newForks (say_fork i fid p) = newForks p" "forksMade (say_fork i fid p) = forksMade p"
  "forkIds (say_fork i fid p) = (forkIds p)[i := Some fid]"
  by (simp_all add: say_fork_def say_def)

lemma make_fork_fields [simp]:
  "accepts (make_fork i key fid row ver p) = accepts p" "overlay (make_fork i key fid row ver p) = overlay p"
  "superseded (make_fork i key fid row ver p) = superseded p" "swaps (make_fork i key fid row ver p) = swaps p"
  "forkIds (make_fork i key fid row ver p) = forkIds p"
  by (simp_all add: make_fork_def)

lemma drop_accepted_fields [simp]:
  "overlay (drop_accepted k j p) = overlay p" "superseded (drop_accepted k j p) = superseded p"
  "swaps (drop_accepted k j p) = swaps p" "forks (drop_accepted k j p) = forks p"
  "newForks (drop_accepted k j p) = newForks p" "forksMade (drop_accepted k j p) = forksMade p"
  "forkIds (drop_accepted k j p) = forkIds p"
  by (simp_all add: drop_accepted_def split: option.splits)

lemma accepts_drop_accepted: "accepts p = accepts q \<Longrightarrow> accepts (drop_accepted k j p) = accepts (drop_accepted k j q)"
  by (simp add: drop_accepted_def split: option.splits)

lemma overlay_accepted_newer:
  assumes "order_inv inp i (accepts p) (overlay p) gone" "map_of (overlay p) (d_id doc) = Some (j, old)"
    "accepted_at p (d_id doc) j" "same_version inp p doc"
  shows "newer_than_stored inp doc"
proof -
  have "\<exists>d'. (j, d') \<in> listed (accepts p) (d_id doc)"
    using assms(3) by (auto simp: accepted_at_def listed_def list_ex_iff)
  with assms(1,2) have "newer_than_stored inp old" "d_id old = d_id doc"
    unfolding order_inv_def ov_ok_def by blast+
  with assms(2,4) show ?thesis by (simp add: newer_than_stored_def same_version_def)
qed

lemma order_inv_move:
  assumes "plan_move hh inp i doc p p'"
    and inv: "order_inv inp i (accepts p) (overlay p) (superseded p)"
  shows "order_inv inp (Suc i) (accepts p') (overlay p') (superseded p')"
  using assms(1)
proof cases
  case quiet
  with core_fieldsD [OF this] order_inv_Suc [OF inv] show ?thesis by simp
next
  case held
  note eq = core_fieldsD [OF held(2)]
  from order_inv_hold [OF inv held(1)] show ?thesis by (simp add: eq)
next
  case (answered fid)
  with core_fieldsD [OF answered(2)] order_inv_Suc [OF inv] show ?thesis by simp
next
  case (minted fid row ver)
  with core_fieldsD [OF minted(2)] order_inv_Suc [OF inv] show ?thesis by simp
next
  case (swapped fid p1 row w)
  note eq = core_fieldsD [OF swapped(6)]
  from order_inv_hold [OF inv swapped(1)] show ?thesis by (simp add: eq swapped(4))
next
  case (taken_over fid p1 j old k ix)
  note eq = core_fieldsD [OF taken_over(5)]
  from order_inv_hold [OF inv taken_over(1)] show ?thesis by (simp add: eq taken_over(3))
next
  case (accepted tomb via base j old fid q v)
  note eq = core_fieldsD [OF accepted(4)] and eq1 = core_fieldsD [OF accepted(3)]
  have le: "case map_of (overlay p) (d_id doc) of Some (j, old) \<Rightarrow> d_seq old \<le> d_seq doc | None \<Rightarrow> True"
    using accepted(2) by (intro version_le) blast
  have ov: "overlay q = overlay p" and sup: "superseded q = superseded p"
    using accepted(2) eq1 by auto
  have sub: "listed (accepts q) k \<subseteq> listed (accepts p) k" for k
  proof -
    have "accepts (drop_accepted (d_id doc) j (say_fork j fid (maybe_fork inp p j (d_id doc) fid old (d_seq doc))))
        = accepts (drop_accepted (d_id doc) j p)" by (rule accepts_drop_accepted) simp
    with accepted(2) eq1(1) listed_drop [of "d_id doc" j p k] show ?thesis by auto
  qed
  have newer: "newer_than_stored inp doc"
    using accepted(2) newer_version_newer [OF inv] overlay_accepted_newer [OF inv] by blast
  have gone: "superseded p' = superseded p \<or> superseded p' = d_id doc # superseded p \<and>
      (\<forall>h. p_tombstones inp (d_id doc) = Some h \<longrightarrow> superseded_via h (p_deliveredBy inp) = None \<longrightarrow> t_seq h < d_seq doc)"
    using accepted(1) unfolding tomb_read_def eq by (auto simp: sup)
  have "order_inv inp i (accepts q) (overlay p) (superseded p)"
    using inv sub by (rule order_inv_drop)
  from order_inv_accept [OF this le newer above_tomb_read [OF inv accepted(1) le] gone]
  show ?thesis by (simp add: eq ov)
qed

section \<open>Invariant: forks are bounded and answered\<close>

definition fork_count :: "string \<Rightarrow> 'b entry list \<Rightarrow> nat" where
  "fork_count k fs = length (filter (\<lambda>e. d_forkOf (snd e) = Some k) fs)"

definition fork_ids :: "'b entry list \<Rightarrow> string set" where
  "fork_ids fs = (\<lambda>e. d_id (snd e)) ` set fs"

definition caps_ok :: "'b plan_input \<Rightarrow> 'b plan \<Rightarrow> bool" where
  "caps_ok inp p \<longleftrightarrow>
     (\<forall>k. fork_count k (forks p) \<le> made p k
        \<and> (0 < fork_count k (forks p) \<longrightarrow> p_siblings inp k + fork_count k (forks p) \<le> MAX_FORKS_PER_RECORD))"

definition forks_answered :: "'b plan_input \<Rightarrow> 'b plan \<Rightarrow> bool" where
  "forks_answered inp p \<longleftrightarrow>
     set (newForks p) = fork_ids (forks p)
     \<and> (\<forall>w \<in> set (swaps p). fork_known inp p (w_loserForkId w))
     \<and> (\<forall>fid. Some fid \<in> set (forkIds p) \<longrightarrow> fork_known inp p fid)"

lemma fork_count_append: "fork_count k (fs @ [(i, d)]) = fork_count k fs + (if d_forkOf d = Some k then 1 else 0)"
  by (simp add: fork_count_def)

lemma fork_count_relabel: "fork_count k (map (\<lambda>(x, d). (ix x d, d)) fs) = fork_count k fs"
  by (induction fs) (auto simp: fork_count_def)

lemma fork_ids_relabel: "fork_ids (map (\<lambda>(x, d). (ix x d, d)) fs) = fork_ids fs"
  by (force simp: fork_ids_def)

lemma made_put: "map_of (map_put j n (forksMade p)) k = (if k = j then Some n else map_of (forksMade p) k)"
  by (simp add: map_of_map_put)

lemma caps_ok_cong:
  "forks p = forks q \<Longrightarrow> (\<And>k. made q k \<le> made p k) \<Longrightarrow> caps_ok inp q \<Longrightarrow> caps_ok inp p"
  unfolding caps_ok_def by (metis le_trans)

lemma caps_ok_make:
  assumes "caps_ok inp p" "fork_fits inp p key"
  shows "caps_ok inp (make_fork i key fid row ver p)"
proof -
  have room: "p_siblings inp key + made p key < MAX_FORKS_PER_RECORD"
    using assms(2) by (simp add: fork_fits_def siblings_of_def)
  have cnt: "fork_count k (forks (make_fork i key fid row ver p)) = fork_count k (forks p) + (if key = k then 1 else 0)" for k
    by (simp add: make_fork_def fork_count_append)
  have md: "made (make_fork i key fid row ver p) k = (if k = key then Suc (made p key) else made p k)" for k
    by (simp add: make_fork_def made_def map_of_map_put)
  show ?thesis
    unfolding caps_ok_def cnt md
  proof (intro allI)
    fix k
    have "fork_count k (forks p) \<le> made p k
        \<and> (0 < fork_count k (forks p) \<longrightarrow> p_siblings inp k + fork_count k (forks p) \<le> MAX_FORKS_PER_RECORD)"
      using assms(1) by (simp add: caps_ok_def)
    with room show "fork_count k (forks p) + (if key = k then 1 else 0) \<le> (if k = key then Suc (made p key) else made p k) \<and>
      (0 < fork_count k (forks p) + (if key = k then 1 else 0) \<longrightarrow>
       p_siblings inp k + (fork_count k (forks p) + (if key = k then 1 else 0)) \<le> MAX_FORKS_PER_RECORD)"
      by auto
  qed
qed

lemma caps_ok_maybe:
  "caps_ok inp p \<Longrightarrow> may_fork inp p key fid \<Longrightarrow> caps_ok inp (maybe_fork inp p j key fid row ver)"
  by (auto simp: maybe_fork_def may_fork_def caps_ok_make)

lemma caps_ok_core: "core p = core q \<Longrightarrow> caps_ok inp p = caps_ok inp q"
  using core_fieldsD [of p q] by (simp add: caps_ok_def made_def)

lemma forks_answered_core: "core p = core q \<Longrightarrow> forks_answered inp p = forks_answered inp q"
  using core_fieldsD [of p q] by (simp add: forks_answered_def fork_known_def)

lemma fork_known_make: "fork_known inp p f \<Longrightarrow> fork_known inp (make_fork i key fid row ver p) f"
  "fork_known inp (make_fork i key fid row ver p) fid"
  by (auto simp: fork_known_def make_fork_def)

lemma fork_known_maybe: "fork_known inp p f \<Longrightarrow> fork_known inp (maybe_fork inp p j key fid row ver) f"
  "fork_known inp (maybe_fork inp p j key fid row ver) fid"
  by (auto simp: maybe_fork_def fork_known_make)

lemma forks_answered_make:
  assumes "forks_answered inp p"
  shows "forks_answered inp (make_fork i key fid row ver p)"
  using assms by (auto simp: forks_answered_def fork_ids_def fork_known_def make_fork_def)

lemma forks_answered_maybe:
  "forks_answered inp p \<Longrightarrow> forks_answered inp (maybe_fork inp p j key fid row ver)"
  by (simp add: maybe_fork_def forks_answered_make)

lemma fork_known_same: "newForks p = newForks q \<Longrightarrow> fork_known inp p = fork_known inp q"
  by (simp add: fork_known_def fun_eq_iff)

lemma set_list_update: "x \<in> set (xs[i := y]) \<Longrightarrow> x = y \<or> x \<in> set xs"
  using set_update_subset_insert [of xs i y] by blast

lemma forks_answered_say:
  assumes "forks_answered inp p" "fork_known inp p fid"
  shows "forks_answered inp (say_fork i fid p)"
  using assms fork_known_same [of "say_fork i fid p" p inp]
  by (auto simp: forks_answered_def dest!: set_list_update)

lemma caps_ok_say: "caps_ok inp (say_fork i fid p) = caps_ok inp p"
  by (simp add: caps_ok_def made_def)

lemma forks_inv_move:
  assumes "plan_move hh inp i doc p p'" and caps: "caps_ok inp p" and ans: "forks_answered inp p"
  shows "caps_ok inp p' \<and> forks_answered inp p'"
  using assms(1)
proof cases
  case quiet
  with caps ans caps_ok_core forks_answered_core show ?thesis by blast
next
  case held
  have "caps_ok inp (p\<lparr>overlay := ov\<rparr>) \<and> forks_answered inp (p\<lparr>overlay := ov\<rparr>)" for ov
    using caps ans by (auto simp: caps_ok_def made_def forks_answered_def fork_known_def)
  with caps_ok_core [OF held(2)] forks_answered_core [OF held(2)] show ?thesis by simp
next
  case (answered fid)
  with caps ans caps_ok_core forks_answered_core show ?thesis
    by (metis caps_ok_say forks_answered_say)
next
  case (minted fid row ver)
  have "caps_ok inp (say_fork i fid (make_fork i (d_id doc) fid row ver p))"
    using caps_ok_make [OF caps minted(1)] by (simp add: caps_ok_say)
  moreover have "forks_answered inp (say_fork i fid (make_fork i (d_id doc) fid row ver p))"
    using ans by (intro forks_answered_say forks_answered_make fork_known_make)
  ultimately show ?thesis using caps_ok_core [OF minted(2)] forks_answered_core [OF minted(2)] by simp
next
  case (swapped fid p1 row w)
  define p2 where "p2 = p1\<lparr>overlay := map_put (d_id doc) (i, doc) (overlay p1), swaps := swaps p1 @ [w]\<rparr>"
  have p1: "caps_ok inp p1" "forks_answered inp p1" "fork_known inp p1 fid"
    using caps ans swapped(3,4) by (simp_all add: caps_ok_maybe forks_answered_maybe fork_known_maybe)
  have known: "fork_known inp p2 = fork_known inp p1" by (rule fork_known_same) (simp add: p2_def)
  have "caps_ok inp p2" using p1(1) by (simp add: caps_ok_def made_def p2_def)
  moreover have "forks_answered inp p2"
    using p1(2,3) swapped(5) unfolding forks_answered_def known by (auto simp: p2_def)
  ultimately have "caps_ok inp (say_fork i fid p2) \<and> forks_answered inp (say_fork i fid p2)"
    using p1(3) by (simp add: caps_ok_say forks_answered_say known)
  then show ?thesis
    using caps_ok_core [OF swapped(6)] forks_answered_core [OF swapped(6)] by (simp add: p2_def)
next
  case (taken_over fid p1 j old k ix)
  define p2 where "p2 = p1\<lparr>overlay := map_put (d_id doc) (i, doc) (overlay p1),
      forks := map (\<lambda>(x, d). (ix x d, d)) (forks p1),
      swaps := update_at k (\<lambda>x. x\<lparr>w_doc := doc, w_index := i\<rparr>) (swaps p1)\<rparr>"
  have p1: "caps_ok inp p1" "forks_answered inp p1"
    using caps ans taken_over(2,3)
    by (simp_all add: caps_ok_say caps_ok_maybe forks_answered_say forks_answered_maybe fork_known_maybe)
  have known: "fork_known inp p2 = fork_known inp p1" by (rule fork_known_same) (simp add: p2_def)
  have loser: "fork_known inp p1 (w_loserForkId (swaps p ! k))"
    using p1(2) taken_over(3,4) nth_mem [OF taken_over(4)] by (simp add: forks_answered_def)
  have "caps_ok inp p2" using p1(1) by (simp add: caps_ok_def made_def p2_def fork_count_relabel)
  moreover have "fork_known inp p1 (w_loserForkId w)" if "w \<in> set (swaps p2)" for w
    using set_update_at [of w k "\<lambda>x. x\<lparr>w_doc := doc, w_index := i\<rparr>" "swaps p1"] that p1(2)
    by (auto simp: p2_def forks_answered_def)
  then have "forks_answered inp p2"
    using p1(2) unfolding forks_answered_def known by (auto simp: p2_def fork_ids_relabel)
  ultimately have "caps_ok inp (say_fork i (w_loserForkId (swaps p ! k)) p2)
      \<and> forks_answered inp (say_fork i (w_loserForkId (swaps p ! k)) p2)"
    using loser by (simp add: caps_ok_say forks_answered_say known)
  then show ?thesis
    using caps_ok_core [OF taken_over(5)] forks_answered_core [OF taken_over(5)] by (simp add: p2_def)
next
  case (accepted tomb via base j old fid q v)
  have drop: "caps_ok inp (drop_accepted (d_id doc) j r) = caps_ok inp r"
    "forks_answered inp (drop_accepted (d_id doc) j r) = forks_answered inp r" for r :: "'a plan"
    by (simp_all add: caps_ok_def made_def forks_answered_def fork_known_def)
  have "caps_ok inp base \<and> forks_answered inp base"
    using accepted(2) caps ans
    by (elim disjE conjE)
      (simp_all add: drop caps_ok_say caps_ok_maybe forks_answered_say forks_answered_maybe fork_known_maybe)
  then have q: "caps_ok inp q" "forks_answered inp q"
    using caps_ok_core [OF accepted(3)] forks_answered_core [OF accepted(3)] by simp_all
  have "caps_ok inp (accept hh inp i doc v tomb via q)"
    by (rule caps_ok_cong [OF _ _ q(1)]) (auto simp: made_def map_of_map_put)
  moreover have "forks_answered inp (accept hh inp i doc v tomb via q)"
    using q(2) by (auto simp: forks_answered_def fork_known_def)
  ultimately show ?thesis using caps_ok_core [OF accepted(4)] forks_answered_core [OF accepted(4)] by simp
qed

section \<open>Invariant: a fork holds the body its id was derived from\<close>

text \<open>
  A fork the plan writes: the body of a document, or the stored row with the text read of it, under the id
  derived from the record, its version and that very text.
\<close>

definition holds_its_body :: "'b hashing \<Rightarrow> 'b plan_input \<Rightarrow> 'b arrival_doc \<Rightarrow> bool" where
  "holds_its_body hh inp d \<longleftrightarrow>
     (\<exists>key ver row text. d = row\<lparr>d_id := fork_id_for hh key ver text, d_forkOf := Some key, d_forkAt := Some ver\<rparr>
        \<and> (text = h_text (a_view (hash_body hh row))
           \<or> (\<exists>c. p_stored inp key = Some c \<and> s_row c = Some row \<and> text = h_text (a_view (the (s_bodyHash c))))))"

text \<open>A swap displaces the stored row of its record, and names the fork of that row's text.\<close>

definition names_displaced :: "'b hashing \<Rightarrow> 'b plan_input \<Rightarrow> 'b swap \<Rightarrow> bool" where
  "names_displaced hh inp w \<longleftrightarrow>
     (\<exists>c. p_stored inp (d_id (w_doc w)) = Some c \<and> s_row c = Some (w_stored w)
        \<and> w_loserForkId w = fork_id_for hh (d_id (w_doc w)) (d_seq (w_doc w)) (h_text (a_view (the (s_bodyHash c)))))"

definition tie_inv :: "'b hashing \<Rightarrow> 'b plan_input \<Rightarrow> nat \<Rightarrow> 'b entry list \<Rightarrow> 'b swap list \<Rightarrow> (string \<times> 'b entry) list \<Rightarrow> bool" where
  "tie_inv hh inp i fs ws ov \<longleftrightarrow>
     (\<forall>e \<in> set fs. holds_its_body hh inp (snd e))
     \<and> (\<forall>w \<in> set ws. w_index w < i \<and> names_displaced hh inp w \<and> (\<forall>k d. map_of ov k = Some (w_index w, d) \<longrightarrow> d = w_doc w))"

lemma tie_inv_Suc: "tie_inv hh inp i fs ws ov \<Longrightarrow> tie_inv hh inp (Suc i) fs ws ov"
  by (auto simp: tie_inv_def less_SucI)

lemma tie_inv_hold: "tie_inv hh inp i fs ws ov \<Longrightarrow> tie_inv hh inp (Suc i) fs ws (map_put key (i, doc) ov)"
  by (auto simp: tie_inv_def map_of_map_put less_SucI split: if_splits)

lemma own_body_held:
  "holds_its_body hh inp (row\<lparr>d_id := fork_id_for hh key ver (h_text (a_view (hash_body hh row))), d_forkOf := Some key, d_forkAt := Some ver\<rparr>)"
  unfolding holds_its_body_def by blast

lemma forks_maybe:
  "set (forks (maybe_fork inp p j key fid row ver)) \<subseteq>
     insert (j, row\<lparr>d_id := fid, d_forkOf := Some key, d_forkAt := Some ver\<rparr>) (set (forks p))"
  by (auto simp: maybe_fork_def make_fork_def)

lemma tie_inv_maybe:
  assumes "tie_inv hh inp i (forks p) ws ov"
    and "holds_its_body hh inp (row\<lparr>d_id := fid, d_forkOf := Some key, d_forkAt := Some ver\<rparr>)"
  shows "tie_inv hh inp i (forks (maybe_fork inp p j key fid row ver)) ws ov"
  using assms forks_maybe [of inp p j key fid row ver] unfolding tie_inv_def by fastforce

lemma tie_inv_move:
  assumes "plan_move hh inp i doc p p'" and ord: "order_inv inp i (accepts p) (overlay p) (superseded p)"
    and inv: "tie_inv hh inp i (forks p) (swaps p) (overlay p)"
  shows "tie_inv hh inp (Suc i) (forks p') (swaps p') (overlay p')"
  using assms(1)
proof cases
  case quiet
  with core_fieldsD [OF this] tie_inv_Suc [OF inv] show ?thesis by simp
next
  case held
  with core_fieldsD [OF held(2)] tie_inv_hold [OF inv] show ?thesis by simp
next
  case (answered fid)
  with core_fieldsD [OF answered(2)] tie_inv_Suc [OF inv] show ?thesis by simp
next
  case (minted fid row ver)
  have "holds_its_body hh inp (row\<lparr>d_id := fid, d_forkOf := Some (d_id doc), d_forkAt := Some ver\<rparr>)"
    using minted(3) own_body_held by (simp add: body_fork_id_def)
  with core_fieldsD [OF minted(2)] tie_inv_Suc [OF inv] show ?thesis by (auto simp: tie_inv_def make_fork_def)
next
  case (swapped fid p1 row w c)
  note eq = core_fieldsD [OF swapped(6)]
  have body: "holds_its_body hh inp (row\<lparr>d_id := fid, d_forkOf := Some (d_id doc), d_forkAt := Some (d_seq doc)\<rparr>)"
    using swapped(7) unfolding holds_its_body_def body_fork_id_def by blast
  have "tie_inv hh inp (Suc i) (forks p1) (swaps p) (map_put (d_id doc) (i, doc) (overlay p))"
    unfolding swapped(4) by (rule tie_inv_hold [OF tie_inv_maybe [OF inv body]])
  moreover have "names_displaced hh inp w" using swapped(7) by (auto simp: names_displaced_def body_fork_id_def)
  moreover have "d = doc" if "map_of (map_put (d_id doc) (i, doc) (overlay p)) k = Some (i, d)" for k d
    using that ord by (auto simp: map_of_map_put order_inv_def ov_ok_def split: if_splits)
  moreover have "w_index w = i" "w_doc w = doc" using swapped(7) by simp_all
  ultimately show ?thesis by (auto simp: eq swapped(4) tie_inv_def)
next
  case (taken_over fid p1 j old k ix)
  note eq = core_fieldsD [OF taken_over(5)]
  define w where "w = swaps p ! k"
  have w: "w \<in> set (swaps p)" "w_index w = j" using taken_over(4,6) by (simp_all add: w_def)
  have old: "map_of (overlay p) (d_id doc) = Some (j, old)" "d_seq old = d_seq doc" "d_id old = d_id doc"
    using taken_over(1,6) overlay_not_older [OF ord, of "d_id doc" j old] by (simp_all add: same_version_def)
  have "holds_its_body hh inp (old\<lparr>d_id := fid, d_forkOf := Some (d_id doc), d_forkAt := Some (d_seq doc)\<rparr>)"
    using taken_over(6) own_body_held by (simp add: body_fork_id_def)
  from tie_inv_hold [OF tie_inv_maybe [OF inv this]]
  have base: "tie_inv hh inp (Suc i) (forks p1) (swaps p) (map_put (d_id doc) (i, doc) (overlay p))"
    by (simp add: taken_over(3))
  have moved: "names_displaced hh inp (w\<lparr>w_doc := doc, w_index := i\<rparr>)"
  proof -
    have "w_doc w = old" "names_displaced hh inp w" using inv w old(1) by (auto simp: tie_inv_def)
    then show ?thesis using old(2,3) by (simp add: names_displaced_def)
  qed
  have at: "d = doc" if "map_of (map_put (d_id doc) (i, doc) (overlay p)) k = Some (i, d)" for k d
    using that ord by (auto simp: map_of_map_put order_inv_def ov_ok_def split: if_splits)
  have one: "x = w\<lparr>w_doc := doc, w_index := i\<rparr> \<or> x \<in> set (swaps p)"
    if "x \<in> set (update_at k (\<lambda>x. x\<lparr>w_doc := doc, w_index := i\<rparr>) (swaps p))" for x
    using that taken_over(4) by (auto simp: update_at_def w_def dest: set_list_update)
  have "forks p' = map (\<lambda>(x, d). (ix x d, d)) (forks p1)"
    "swaps p' = update_at k (\<lambda>x. x\<lparr>w_doc := doc, w_index := i\<rparr>) (swaps p)"
    "overlay p' = map_put (d_id doc) (i, doc) (overlay p)" by (simp_all add: eq taken_over(3))
  then show ?thesis
    using base moved at one unfolding tie_inv_def by fastforce
next
  case (accepted tomb via base j old fid q v)
  note eq = core_fieldsD [OF accepted(4)] and eq1 = core_fieldsD [OF accepted(3)]
  have "fid = body_fork_id hh doc (hash_body hh old) \<Longrightarrow>
      holds_its_body hh inp (old\<lparr>d_id := fid, d_forkOf := Some (d_id doc), d_forkAt := Some (d_seq doc)\<rparr>)"
    using own_body_held by (simp add: body_fork_id_def)
  then have "tie_inv hh inp i (forks base) (swaps p) (overlay p) \<and> swaps base = swaps p \<and> overlay base = overlay p"
    using accepted(2) inv tie_inv_maybe [OF inv] by auto
  then show ?thesis using tie_inv_hold [of hh inp i "forks base" "swaps p" "overlay p" "d_id doc" doc] by (simp add: eq eq1)
qed

section \<open>Properties\<close>

lemma plan_arrivals_inv:
  assumes "plan_arrivals hh inp docs = Inr p"
  shows "\<exists>n. order_inv inp n (accepts p) (overlay p) (superseded p) \<and> caps_ok inp p \<and> forks_answered inp p
    \<and> tie_inv hh inp n (forks p) (swaps p) (overlay p)"
proof (rule plan_from_inv [OF assms [unfolded plan_arrivals_def]])
  show "order_inv inp 0 (accepts (new_plan (length docs))) (overlay (new_plan (length docs))) (superseded (new_plan (length docs)))
     \<and> caps_ok inp (new_plan (length docs)) \<and> forks_answered inp (new_plan (length docs))
     \<and> tie_inv hh inp 0 (forks (new_plan (length docs))) (swaps (new_plan (length docs))) (overlay (new_plan (length docs)))"
    by (simp add: new_plan_def order_inv_def acc_ok_def ov_ok_def gone_ok_def listed_def caps_ok_def fork_count_def
        forks_answered_def fork_ids_def tie_inv_def)
next
  fix i d and q q' :: "'a plan"
  assume "plan_move hh inp i d q q'"
    and "order_inv inp i (accepts q) (overlay q) (superseded q) \<and> caps_ok inp q \<and> forks_answered inp q
      \<and> tie_inv hh inp i (forks q) (swaps q) (overlay q)"
  then show "order_inv inp (Suc i) (accepts q') (overlay q') (superseded q') \<and> caps_ok inp q' \<and> forks_answered inp q'
      \<and> tie_inv hh inp (Suc i) (forks q') (swaps q') (overlay q')"
    using order_inv_move forks_inv_move tie_inv_move by blast
qed

text \<open>
  Property C1: whatever a page holds and in whatever order, a document the plan accepts is strictly newer
  than the copy stored here, and above every held tombstone that refuses its author and door (unless it is
  a fork row another instance's decision lets past): a delivery can neither roll a record back nor bring a
  deleted one back.
\<close>

theorem arrivals_never_roll_back:
  assumes "plan_arrivals hh inp docs = Inr p" and "(x, d) \<in> listed (accepts p) k"
  shows "d_id d = k \<and> newer_than_stored inp d \<and> above_tomb inp d"
  using plan_arrivals_inv [OF assms(1)] assms(2) unfolding order_inv_def acc_ok_def by blast



text \<open>
  Two instances holding two different bodies of one record at one version settle on the same
  one, whichever of them arrives at the other: exactly one of the two comparisons says the arriving body
  wins, so the body that wins on one instance is the one that stands on the other.
\<close>

theorem tie_settles_alike:
  assumes "bodies_differ a b"
  shows "(case tie_hashes a b of (x, y) \<Rightarrow> arriving_wins_tie x y) \<longleftrightarrow> \<not> (case tie_hashes b a of (x, y) \<Rightarrow> arriving_wins_tie x y)"
proof -
  have sym: "compared_views b a = (snd (compared_views a b), fst (compared_views a b))"
    by (auto simp: compared_views_def split: option.splits)
  obtain va vb where v: "compared_views a b = (va, vb)" by force
  show ?thesis
    using assms by (auto simp: bodies_differ_def tie_hashes_def sym v view_pair_def arriving_wins_tie_def
        split: if_splits)
qed

section \<open>Witnesses\<close>

definition demo_fact :: "int \<Rightarrow> string \<Rightarrow> unit arrival_doc" where
  "demo_fact sq t = \<lparr>d_id = ''r'', d_seq = sq, d_fact = Some t, d_contentRedacted = None, d_forkAt = None,
     d_forkOf = None, d_type = None, d_from = None, d_to = None, d_label = None, d_fromKind = None,
     d_toKind = None, d_author = Some ''a'', d_updatedAt = None, d_body = ()\<rparr>"

definition demo_body :: "unit arrival_doc \<Rightarrow> authored" where
  "demo_body d = \<lparr>a_view = \<lparr>h_text = the (d_fact d), h_hash = the (d_fact d), h_normalised = True, h_rawHash = the (d_fact d)\<rparr>,
     a_carriesRedaction = False, a_redacted = None\<rparr>"

definition demo_hashing :: "unit hashing" where
  "demo_hashing = \<lparr>hash_body = demo_body, hash_file = (\<lambda>b d. the (d_fact d)), sha = (\<lambda>_. replicate 32 0), uuid5 = id\<rparr>"

definition demo_input :: "unit plan_input" where
  "demo_input = \<lparr>p_kind = Facts, p_door = Pull_door,
     p_stored = (\<lambda>i. if i = ''r'' then Some \<lparr>s_seq = Some 5, s_forkOf = None, s_bodyHash = Some (demo_body (demo_fact 5 ''m'')),
        s_row = Some (demo_fact 5 ''m''), s_author = Some ''a'', s_updatedAt = None, s_contentHash = None,
        s_fullContentHash = None\<rparr> else None),
     p_tombstones = (\<lambda>_. None), p_deliveredBy = Some ''a'', p_allowedTypes = None, p_forkParent = (\<lambda>_. None),
     p_siblings = (\<lambda>_. 0), p_existingForks = {}, p_heldParents = {}, p_self = ''self''\<rparr>"

lemmas plan_eval = plan_arrivals_def plan_one_def new_plan_def demo_input_def demo_hashing_def demo_fact_def
  demo_body_def is_forking_family_def FORKING_FAMILIES_def judge_fork_row_def tomb_seq_for_def is_newer_copy_def
  diverges_from_def plan_newer_def plan_divergent_def unique_key_def accept_def hold_version_def parent_of_def
  say_def say_fork_def Let_def

lemma demo_accepted:
  "\<exists>p. plan_arrivals demo_hashing demo_input [demo_fact 7 ''z''] = Inr p \<and> (0, demo_fact 7 ''z'') \<in> listed (accepts p) ''r''"
  by (simp add: plan_eval listed_def)

theorem arrivals_never_roll_back_witness:
  "newer_than_stored demo_input (demo_fact 7 ''z'')"
  using demo_accepted arrivals_never_roll_back by blast




theorem tie_settles_alike_witness:
  "(case tie_hashes (demo_body (demo_fact 5 ''b'')) (demo_body (demo_fact 5 ''m'')) of (x, y) \<Rightarrow> arriving_wins_tie x y)
     \<longleftrightarrow> \<not> (case tie_hashes (demo_body (demo_fact 5 ''m'')) (demo_body (demo_fact 5 ''b'')) of (x, y) \<Rightarrow> arriving_wins_tie x y)"
  by (rule tie_settles_alike) (simp add: bodies_differ_def compared_views_def demo_body_def demo_fact_def)

end
