(* ===== verification/Rights.thy ===== *)
theory Rights
  imports Js_Object
begin

text \<open>
  A token's rights matrix (\<open>config/rights-shape.ts\<close>) and what reads it: the effective rung and the
  mint cap (\<open>auth/mint-cap.ts\<close>), the reach of a token (\<open>auth/space-reach.ts\<close>), whether it may write
  anywhere (\<open>auth/write-anywhere.ts\<close>), the guard on raising one's own floor
  (\<open>auth/floor-guard.ts\<close>), the instance administrator's grants (\<open>auth/instance-admin-grants.ts\<close>), and
  the derivation of a matrix from a legacy token (\<open>auth/rights-migration.ts\<close>).

  An \<open>AreaRungs\<close> object is a map from areas to rungs, an area the object lacks being \<open>undefined\<close> in
  the source: the sources that read it through \<open>?? 'none'\<close> do so here, and the ones that hand it to
  \<open>indexOf\<close> as it is get the -1 of an absent entry.
\<close>

section \<open>Rungs and areas\<close>

datatype rung = No_rung | Read | Write | Admin

datatype space_area = Knowledge | Files_area | Schema | Data_quality | Networks

definition SPACE_AREAS :: "space_area list" where
  "SPACE_AREAS = [Knowledge, Files_area, Schema, Data_quality, Networks]"

definition SPACE_ADMIN_AREAS :: "space_area list" where
  "SPACE_ADMIN_AREAS = filter (\<lambda>a. a \<noteq> Networks) SPACE_AREAS"

definition RUNGS :: "rung list" where
  "RUNGS = [No_rung, Read, Write, Admin]"

text \<open>\<open>ORDER.indexOf(r)\<close>: -1 for \<open>undefined\<close>.\<close>

definition rank :: "rung option \<Rightarrow> int" where
  "rank r = (case r of None \<Rightarrow> -1
     | Some q \<Rightarrow> (case find_index (\<lambda>x. x = q) RUNGS of None \<Rightarrow> -1 | Some i \<Rightarrow> int i))"

lemma rank_simps [simp]:
  "rank None = -1" "rank (Some No_rung) = 0" "rank (Some Read) = 1"
  "rank (Some Write) = 2" "rank (Some Admin) = 3"
  by (simp_all add: rank_def RUNGS_def)

instantiation rung :: linorder
begin

definition less_eq_rung :: "rung \<Rightarrow> rung \<Rightarrow> bool" where
  "less_eq_rung a b \<longleftrightarrow> rank (Some a) \<le> rank (Some b)"

definition less_rung :: "rung \<Rightarrow> rung \<Rightarrow> bool" where
  "less_rung a b \<longleftrightarrow> rank (Some a) < rank (Some b)"

instance
proof
  fix a b :: rung
  show "a \<le> b \<Longrightarrow> b \<le> a \<Longrightarrow> a = b"
    by (cases a; cases b) (simp_all add: less_eq_rung_def)
qed (auto simp: less_eq_rung_def less_rung_def)

end

lemma rank_le [simp]: "rank (Some a) \<le> rank (Some b) \<longleftrightarrow> a \<le> b"
  by (simp add: less_eq_rung_def)

lemma rank_less [simp]: "rank (Some a) < rank (Some b) \<longleftrightarrow> a < b"
  by (simp add: less_rung_def)

lemma rung_bounds [simp]: "No_rung \<le> a" "a \<le> Admin"
  by (cases a; simp add: less_eq_rung_def)+

lemma rung_extremes [simp]: "a \<le> No_rung \<longleftrightarrow> a = No_rung" "Admin \<le> a \<longleftrightarrow> a = Admin"
  by (cases a; simp add: less_eq_rung_def)+

lemma rung_order [simp]:
  "Read \<le> Write" "\<not> Write \<le> Read" "\<not> Read \<le> No_rung" "No_rung < Read" "No_rung < Write"
  "No_rung < Admin" "Read < Write" "Write < Admin" "Read < Admin" "\<not> Write < Read"
  by (simp_all add: less_eq_rung_def less_rung_def)

lemma rung_above_none: "a \<noteq> No_rung \<longleftrightarrow> Read \<le> a"
  by (cases a) (simp_all add: less_eq_rung_def)

lemma rank_nonneg: "rank (Some a) \<ge> 0"
  by (cases a) simp_all

lemma all_areas [simp]: "set SPACE_AREAS = UNIV"
proof -
  have "a \<in> set SPACE_AREAS" for a by (cases a) (simp_all add: SPACE_AREAS_def)
  then show ?thesis by auto
qed

lemma admin_areas [simp]: "set SPACE_ADMIN_AREAS = {a. a \<noteq> Networks}"
  by (simp add: SPACE_ADMIN_AREAS_def)

section \<open>A token's rights\<close>

type_synonym area_rungs = "space_area \<Rightarrow> rung option"

record space_admin =
  sa_floor :: bool
  sa_spaces :: "string list"

record token_rights =
  tr_instanceAdmin :: bool
  tr_createSpaces :: bool
  tr_floor :: "area_rungs option"
  tr_perSpace :: "area_rungs obj"
  tr_spaceAdmin :: "space_admin option"

text \<open>\<open>r ?? 'none'\<close>.\<close>

definition or_none :: "rung option \<Rightarrow> rung" where
  "or_none r = (case r of None \<Rightarrow> No_rung | Some q \<Rightarrow> q)"

lemma or_none_simps [simp]: "or_none None = No_rung" "or_none (Some q) = q"
  by (simp_all add: or_none_def)

lemma rank_or_none: "rank (Some (or_none r)) = max 0 (rank r)"
  using rank_nonneg by (cases r) (auto simp: max_def not_le)

definition administers :: "token_rights option \<Rightarrow> string \<Rightarrow> bool" where
  "administers rights space =
     (case Option.bind rights tr_spaceAdmin of None \<Rightarrow> False
      | Some sa \<Rightarrow> sa_floor sa \<or> space \<in> set (sa_spaces sa))"

definition floor_at :: "token_rights \<Rightarrow> space_area \<Rightarrow> rung" where
  "floor_at rights area = or_none (Option.bind (tr_floor rights) (\<lambda>f. f area))"

definition row_at :: "token_rights \<Rightarrow> string \<Rightarrow> space_area \<Rightarrow> rung" where
  "row_at rights space area = or_none (Option.bind (map_of (tr_perSpace rights) space) (\<lambda>row. row area))"

definition granted_rung :: "token_rights \<Rightarrow> string \<Rightarrow> space_area \<Rightarrow> rung" where
  "granted_rung rights space area =
     (if administers (Some rights) space \<and> area \<in> set SPACE_ADMIN_AREAS then Admin
      else if rank (Some (row_at rights space area)) > rank (Some (floor_at rights area))
        then row_at rights space area
        else floor_at rights area)"

record rung_implication =
  im_when :: space_area
  im_atLeast :: rung
  im_grants :: space_area
  im_rung :: rung

definition RUNG_IMPLICATIONS :: "rung_implication list" where
  "RUNG_IMPLICATIONS =
     [\<lparr>im_when = Knowledge, im_atLeast = Write, im_grants = Schema, im_rung = Read\<rparr>]"

definition with_implications :: "space_area \<Rightarrow> rung \<Rightarrow> (space_area \<Rightarrow> rung) \<Rightarrow> rung" where
  "with_implications area held of_area =
     foldl (\<lambda>out rule.
        if im_grants rule \<noteq> area then out
        else if rank (Some (of_area (im_when rule))) \<ge> rank (Some (im_atLeast rule))
                \<and> rank (Some (im_rung rule)) > rank (Some out)
          then im_rung rule else out)
       held RUNG_IMPLICATIONS"

definition effective_rung :: "token_rights \<Rightarrow> string \<Rightarrow> space_area \<Rightarrow> rung" where
  "effective_rung rights space area =
     with_implications area (granted_rung rights space area) (granted_rung rights space)"

definition granted_floor_rung :: "token_rights \<Rightarrow> space_area \<Rightarrow> rung" where
  "granted_floor_rung rights area =
     (if (case tr_spaceAdmin rights of None \<Rightarrow> False | Some sa \<Rightarrow> sa_floor sa)
         \<and> area \<in> set SPACE_ADMIN_AREAS then Admin
      else floor_at rights area)"

definition floor_rung :: "token_rights \<Rightarrow> space_area \<Rightarrow> rung" where
  "floor_rung rights area =
     with_implications area (granted_floor_rung rights area) (granted_floor_rung rights)"

definition satisfies :: "rung option \<Rightarrow> rung \<Rightarrow> bool" where
  "satisfies held needs \<longleftrightarrow> rank held \<ge> rank (Some needs)"

section \<open>The mint cap\<close>

datatype excess_area = Area space_area | Instance_admin | Create_spaces

record excess =
  ex_space :: string
  ex_area :: excess_area
  ex_requested :: string
  ex_allowed :: string

definition rung_text :: "rung \<Rightarrow> string" where
  "rung_text r = (case r of No_rung \<Rightarrow> ''none'' | Read \<Rightarrow> ''read'' | Write \<Rightarrow> ''write'' | Admin \<Rightarrow> ''admin'')"

definition excess_at :: "string \<Rightarrow> space_area \<Rightarrow> rung option \<Rightarrow> rung \<Rightarrow> excess list" where
  "excess_at space area want have =
     (if rank want > rank (Some have)
      then [\<lparr>ex_space = space, ex_area = Area area, ex_requested = rung_text (or_none want),
             ex_allowed = rung_text have\<rparr>]
      else [])"

definition flag_excess :: "excess_area \<Rightarrow> bool \<Rightarrow> bool \<Rightarrow> excess list" where
  "flag_excess area asked held =
     (if asked \<and> \<not> held
      then [\<lparr>ex_space = ''*'', ex_area = area, ex_requested = ''true'', ex_allowed = ''false''\<rparr>] else [])"

definition admin_floor :: "token_rights \<Rightarrow> bool" where
  "admin_floor rights = (case tr_spaceAdmin rights of None \<Rightarrow> False | Some sa \<Rightarrow> sa_floor sa)"

definition admin_spaces :: "token_rights \<Rightarrow> string list" where
  "admin_spaces rights = (case tr_spaceAdmin rights of None \<Rightarrow> [] | Some sa \<Rightarrow> sa_spaces sa)"

definition floor_excess :: "token_rights \<Rightarrow> token_rights \<Rightarrow> excess list" where
  "floor_excess minter requested =
     (case tr_floor requested of None \<Rightarrow> []
      | Some f \<Rightarrow> concat (map (\<lambda>area. excess_at ''*'' area (f area) (floor_rung minter area)) SPACE_AREAS))"

definition row_excess :: "token_rights \<Rightarrow> token_rights \<Rightarrow> excess list" where
  "row_excess minter requested =
     concat (map (\<lambda>(space, rungs).
         concat (map (\<lambda>area. excess_at space area (rungs area) (effective_rung minter space area)) SPACE_AREAS))
       (tr_perSpace requested))"

definition admin_floor_excess :: "token_rights \<Rightarrow> token_rights \<Rightarrow> excess list" where
  "admin_floor_excess minter requested =
     (if admin_floor requested \<and> \<not> admin_floor minter
      then concat (map (\<lambda>area. excess_at ''*'' area (Some Admin) (floor_rung minter area)) SPACE_ADMIN_AREAS)
      else [])"

definition admin_space_excess :: "token_rights \<Rightarrow> token_rights \<Rightarrow> excess list" where
  "admin_space_excess minter requested =
     concat (map (\<lambda>space.
         concat (map (\<lambda>area. excess_at space area (Some Admin) (effective_rung minter space area)) SPACE_ADMIN_AREAS))
       (admin_spaces requested))"

definition cap_rights :: "token_rights \<Rightarrow> token_rights \<Rightarrow> excess list" where
  "cap_rights minter requested =
     flag_excess Instance_admin (tr_instanceAdmin requested) (tr_instanceAdmin minter)
     @ flag_excess Create_spaces (tr_createSpaces requested) (tr_createSpaces minter)
     @ floor_excess minter requested
     @ row_excess minter requested
     @ admin_floor_excess minter requested
     @ admin_space_excess minter requested"

section \<open>Reach\<close>

definition some_area :: "(space_area \<Rightarrow> bool) \<Rightarrow> bool" where
  "some_area p = list_ex p SPACE_AREAS"

definition reaches_space :: "token_rights \<Rightarrow> string \<Rightarrow> bool" where
  "reaches_space rights space =
     (if administers (Some rights) space then True
      else if (case map_of (tr_perSpace rights) space of None \<Rightarrow> False
               | Some row \<Rightarrow> some_area (\<lambda>a. or_none (row a) \<noteq> No_rung)) then True
      else (case tr_floor rights of None \<Rightarrow> False
            | Some f \<Rightarrow> some_area (\<lambda>a. or_none (f a) \<noteq> No_rung)))"

definition reachable_space_ids :: "token_rights option \<Rightarrow> string list \<Rightarrow> string list" where
  "reachable_space_ids rights all_ids =
     (case rights of None \<Rightarrow> [] | Some r \<Rightarrow> filter (reaches_space r) all_ids)"

definition can_write_anywhere :: "token_rights option \<Rightarrow> bool" where
  "can_write_anywhere rights =
     (case rights of None \<Rightarrow> False
      | Some r \<Rightarrow>
          if tr_instanceAdmin r then True
          else if (case tr_spaceAdmin r of None \<Rightarrow> False
                   | Some sa \<Rightarrow> sa_floor sa \<or> length (sa_spaces sa) > 0) then True
          else if (case tr_floor r of None \<Rightarrow> False
                   | Some f \<Rightarrow> some_area (\<lambda>a. satisfies (f a) Write)) then True
          else list_ex (\<lambda>e. some_area (\<lambda>a. satisfies (snd e a) Write)) (tr_perSpace r))"

definition holds_rung :: "token_rights \<Rightarrow> string \<Rightarrow> space_area \<Rightarrow> rung \<Rightarrow> bool" where
  "holds_rung rights space area needs = satisfies (Some (effective_rung rights space area)) needs"

definition spaces_where_token_may :: "string list \<Rightarrow> token_rights option \<Rightarrow> space_area \<Rightarrow> rung \<Rightarrow> string list" where
  "spaces_where_token_may cfg_spaces rights area needs =
     (case rights of None \<Rightarrow> [] | Some r \<Rightarrow> filter (\<lambda>s. holds_rung r s area needs) cfg_spaces)"

definition holds_rung_on_every :: "token_rights option \<Rightarrow> string list \<Rightarrow> space_area \<Rightarrow> rung \<Rightarrow> bool" where
  "holds_rung_on_every rights spaces area needs =
     (case rights of None \<Rightarrow> False
      | Some r \<Rightarrow> length spaces > 0 \<and> list_all (\<lambda>s. holds_rung r s area needs) spaces)"

definition administers_every :: "token_rights option \<Rightarrow> string list \<Rightarrow> bool" where
  "administers_every rights spaces =
     (case rights of None \<Rightarrow> False
      | Some r \<Rightarrow> length spaces > 0 \<and> list_all (administers (Some r)) spaces)"

section \<open>The floor guard and the instance administrator's grants\<close>

text \<open>The four areas the source writes out for a token that has no floor: \<open>networks\<close> is not among them.\<close>

definition no_floor_rungs :: area_rungs where
  "no_floor_rungs a = (if a = Networks then None else Some No_rung)"

definition floor_raises :: "area_rungs option \<Rightarrow> area_rungs option \<Rightarrow> space_area list" where
  "floor_raises current next_floor =
     (case next_floor of None \<Rightarrow> []
      | Some n \<Rightarrow>
          (let held = (case current of None \<Rightarrow> no_floor_rungs | Some c \<Rightarrow> c)
           in filter (\<lambda>a. rank (n a) > rank (held a)) SPACE_AREAS))"

definition refuse_self_floor_raise ::
  "string option \<Rightarrow> token_rights option \<Rightarrow> string \<Rightarrow> token_rights \<Rightarrow> space_area list" where
  "refuse_self_floor_raise editor_id editor_rights target_id next_rights =
     (if \<not> truthy_str editor_id \<or> editor_id \<noteq> Some target_id then []
      else floor_raises (Option.bind editor_rights tr_floor) (tr_floor next_rights))"

definition with_instance_admin_grants :: "token_rights option \<Rightarrow> token_rights option" where
  "with_instance_admin_grants rights =
     (case rights of None \<Rightarrow> None
      | Some r \<Rightarrow>
          if \<not> tr_instanceAdmin r \<or> admin_floor r then Some r
          else Some (r\<lparr>tr_spaceAdmin := Some \<lparr>sa_floor = True, sa_spaces = admin_spaces r\<rparr>\<rparr>))"

section \<open>Deriving a matrix from a legacy token\<close>

record legacy_token =
  lt_admin :: "bool option"
  lt_readOnly :: "bool option"
  lt_spaces :: "string list option"
  lt_schemaLibrary :: "bool option"

definition rungs :: "rung \<Rightarrow> area_rungs" where
  "rungs r a = Some (if a = Networks then (if r = Admin then Admin else No_rung) else r)"

definition legacy_level :: "legacy_token \<Rightarrow> rung" where
  "legacy_level t =
     (if truthy_bool (lt_admin t) then Admin else if truthy_bool (lt_readOnly t) then Read else Write)"

definition migrate_token :: "legacy_token \<Rightarrow> token_rights" where
  "migrate_token t =
     (if truthy_bool (lt_schemaLibrary t)
      then \<lparr>tr_instanceAdmin = False, tr_createSpaces = False, tr_floor = None, tr_perSpace = [],
            tr_spaceAdmin = None\<rparr>
      else case lt_spaces t of
        None \<Rightarrow> \<lparr>tr_instanceAdmin = (lt_admin t = Some True), tr_createSpaces = (lt_admin t = Some True),
                 tr_floor = Some (rungs (legacy_level t)), tr_perSpace = [], tr_spaceAdmin = None\<rparr>
      | Some ids \<Rightarrow> \<lparr>tr_instanceAdmin = (lt_admin t = Some True), tr_createSpaces = (lt_admin t = Some True),
                 tr_floor = None,
                 tr_perSpace = foldl (\<lambda>m k. obj_put k (rungs (legacy_level t)) m) [] ids,
                 tr_spaceAdmin = None\<rparr>)"

definition too_high :: "rung \<Rightarrow> area_rungs \<Rightarrow> bool" where
  "too_high most a = some_area (\<lambda>k. rank (a k) > rank (Some most))"

definition grants_more_than :: "legacy_token \<Rightarrow> token_rights \<Rightarrow> bool" where
  "grants_more_than t r =
     (let all_spaces = \<not> truthy_bool (lt_schemaLibrary t) \<and> lt_spaces t = None in
      if tr_floor r \<noteq> None \<and> \<not> all_spaces then True
      else if tr_instanceAdmin r \<and> lt_admin t \<noteq> Some True then True
      else if tr_createSpaces r \<and> lt_admin t \<noteq> Some True then True
      else if truthy_bool (lt_schemaLibrary t) \<and> (tr_floor r \<noteq> None \<or> length (tr_perSpace r) > 0) then True
      else if list_ex (\<lambda>k. \<not> all_spaces \<and> k \<notin> set (case lt_spaces t of None \<Rightarrow> [] | Some ids \<Rightarrow> ids))
                (map fst (tr_perSpace r)) then True
      else if (case tr_floor r of None \<Rightarrow> False | Some f \<Rightarrow> too_high (legacy_level t) f) then True
      else list_ex (\<lambda>e. too_high (legacy_level t) (snd e)) (tr_perSpace r))"

section \<open>Effective rungs in closed form\<close>

lemma admin_floor_simps:
  "administers (Some r) s \<longleftrightarrow> admin_floor r \<or> s \<in> set (admin_spaces r)"
  by (cases "tr_spaceAdmin r") (simp_all add: administers_def admin_floor_def admin_spaces_def)

lemma administers_None [simp]: "\<not> administers None s"
  by (simp add: administers_def)

lemma with_implications_eq:
  "with_implications a held f = (if a = Schema \<and> Write \<le> f Knowledge then max held Read else held)"
  by (cases "f Knowledge"; cases held)
    (simp_all add: with_implications_def RUNG_IMPLICATIONS_def max_def less_eq_rung_def)

lemma granted_rung_eq:
  "granted_rung r s a =
     (if administers (Some r) s \<and> a \<noteq> Networks then Admin else max (row_at r s a) (floor_at r a))"
  by (auto simp: granted_rung_def max_def)

lemma granted_floor_rung_eq:
  "granted_floor_rung r a = (if admin_floor r \<and> a \<noteq> Networks then Admin else floor_at r a)"
  by (simp add: granted_floor_rung_def admin_floor_def)

lemma with_implications_mono:
  assumes "h \<le> h'" and "\<And>b. f b \<le> f' b"
  shows "with_implications a h f \<le> with_implications a h' f'"
  using assms(1) assms(2) [of Knowledge] by (auto simp: with_implications_eq max_def)

lemma with_implications_idem:
  "with_implications a (with_implications a (f a) f) (\<lambda>b. with_implications b (f b) f)
     = with_implications a (f a) f"
  by (simp add: with_implications_eq)

lemma granted_floor_le: "granted_floor_rung r a \<le> granted_rung r s a"
  by (auto simp: granted_floor_rung_eq granted_rung_eq admin_floor_simps)

lemma floor_le_effective: "floor_rung r a \<le> effective_rung r s a"
  unfolding floor_rung_def effective_rung_def by (intro with_implications_mono granted_floor_le)

lemma granted_le_effective: "granted_rung r s a \<le> effective_rung r s a"
  by (simp add: effective_rung_def with_implications_eq)

lemma effective_leI:
  assumes "\<And>b. granted_rung r s b \<le> effective_rung q s b"
  shows "effective_rung r s a \<le> effective_rung q s a"
proof -
  have "effective_rung r s a \<le> with_implications a (effective_rung q s a) (effective_rung q s)"
    unfolding effective_rung_def [of r] by (intro with_implications_mono assms)
  also have "\<dots> = effective_rung q s a"
    using with_implications_idem [of a "granted_rung q s"] by (simp add: effective_rung_def [abs_def])
  finally show ?thesis .
qed

lemma effective_Admin_of_administers: "administers (Some r) s \<Longrightarrow> a \<noteq> Networks \<Longrightarrow> effective_rung r s a = Admin"
  using granted_le_effective [of r s a] by (simp add: granted_rung_eq)

section \<open>The mint cap is exact\<close>

lemma excess_at_Nil [simp]: "excess_at sp a want have = [] \<longleftrightarrow> rank want \<le> rank (Some have)"
  by (simp add: excess_at_def)

lemma floor_excess_Nil:
  "floor_excess m q = [] \<longleftrightarrow> (\<forall>f. tr_floor q = Some f \<longrightarrow> (\<forall>a. rank (f a) \<le> rank (Some (floor_rung m a))))"
  by (cases "tr_floor q") (simp_all add: floor_excess_def)

lemma row_excess_Nil:
  "row_excess m q = [] \<longleftrightarrow>
     (\<forall>(s, row) \<in> set (tr_perSpace q). \<forall>a. rank (row a) \<le> rank (Some (effective_rung m s a)))"
  by (simp add: row_excess_def split_beta)

lemma admin_excess_Nil:
  "admin_floor_excess m q = [] \<longleftrightarrow>
     (admin_floor q \<longrightarrow> admin_floor m \<or> (\<forall>a. a \<noteq> Networks \<longrightarrow> floor_rung m a = Admin))"
  "admin_space_excess m q = [] \<longleftrightarrow>
     (\<forall>s \<in> set (admin_spaces q). \<forall>a. a \<noteq> Networks \<longrightarrow> effective_rung m s a = Admin)"
  by (simp_all only: admin_floor_excess_def admin_space_excess_def concat_eq_Nil_conv set_map
      excess_at_Nil rank_le rung_extremes admin_areas ball_simps mem_Collect_eq if_split_eq1) auto

lemma flag_excess_Nil: "flag_excess x asked held = [] \<longleftrightarrow> (asked \<longrightarrow> held)"
  by (simp add: flag_excess_def)

lemmas cap_rights_Nil = cap_rights_def append_is_Nil_conv flag_excess_Nil floor_excess_Nil row_excess_Nil
  admin_excess_Nil

lemma floor_at_le: "rank (Some (floor_at r a)) = (case tr_floor r of None \<Rightarrow> 0 | Some f \<Rightarrow> max 0 (rank (f a)))"
  by (simp add: floor_at_def rank_or_none split: option.splits)

lemma row_at_le:
  "rank (Some (row_at r s a)) = (case map_of (tr_perSpace r) s of None \<Rightarrow> 0 | Some f \<Rightarrow> max 0 (rank (f a)))"
  by (simp add: row_at_def rank_or_none split: option.splits)

lemma cap_granted:
  assumes "cap_rights m q = []"
  shows "granted_rung q s a \<le> effective_rung m s a"
proof (cases "administers (Some q) s \<and> a \<noteq> Networks")
  case True
  then consider "s \<in> set (admin_spaces q)" | "admin_floor q" by (auto simp: admin_floor_simps)
  then have "effective_rung m s a = Admin"
  proof cases
    case 1
    with assms True show ?thesis by (simp add: cap_rights_Nil)
  next
    case 2
    with assms True have "admin_floor m \<or> floor_rung m a = Admin" by (auto simp: cap_rights_Nil)
    then show ?thesis
      using effective_Admin_of_administers [of m s a] True floor_le_effective [of m a s]
      by (auto simp: admin_floor_simps)
  qed
  then show ?thesis by simp
next
  case False
  have f: "floor_at q a \<le> effective_rung m s a"
  proof -
    have "rank (Some (floor_at q a)) \<le> rank (Some (floor_rung m a))"
      using assms rank_nonneg [of "floor_rung m a"] by (auto simp: floor_at_le cap_rights_Nil split: option.splits)
    then show ?thesis using floor_le_effective [of m a s] by simp
  qed
  have "row_at q s a \<le> effective_rung m s a"
  proof -
    have "rank (Some (row_at q s a)) \<le> rank (Some (effective_rung m s a))"
      using assms rank_nonneg [of "effective_rung m s a"] map_of_SomeD [of "tr_perSpace q" s]
      by (fastforce simp: row_at_le cap_rights_Nil split: option.splits)
    then show ?thesis by simp
  qed
  with f False show ?thesis by (simp only: granted_rung_eq if_False max.bounded_iff)
qed

text \<open>A space neither side has a row for or administers: there the effective rung is the floor's.\<close>

lemma fresh_string: "finite A \<Longrightarrow> \<exists>s :: string. s \<notin> A"
  using infinite_UNIV_listI ex_new_if_finite by blast

lemma effective_fresh:
  assumes "s \<notin> fst ` set (tr_perSpace r)" and "s \<notin> set (admin_spaces r)"
  shows "effective_rung r s a = floor_rung r a"
proof -
  have "map_of (tr_perSpace r) s = None" using assms(1) by (simp add: map_of_eq_None_iff)
  then have "granted_rung r s b = granted_floor_rung r b" for b
    using assms(2) by (simp add: granted_rung_eq granted_floor_rung_eq admin_floor_simps row_at_def)
  then show ?thesis by (simp add: effective_rung_def floor_rung_def with_implications_eq)
qed

lemma fresh_space:
  "\<exists>s. \<forall>a. effective_rung m s a = floor_rung m a \<and> effective_rung q s a = floor_rung q a"
proof -
  have "finite (fst ` set (tr_perSpace m) \<union> set (admin_spaces m) \<union> fst ` set (tr_perSpace q) \<union> set (admin_spaces q))"
    by simp
  from fresh_string [OF this] obtain s where "s \<notin> fst ` set (tr_perSpace m)" "s \<notin> set (admin_spaces m)"
    "s \<notin> fst ` set (tr_perSpace q)" "s \<notin> set (admin_spaces q)" by auto
  then have "\<forall>a. effective_rung m s a = floor_rung m a \<and> effective_rung q s a = floor_rung q a"
    by (simp add: effective_fresh)
  then show ?thesis ..
qed

lemma exceeds_nothing_cap:
  assumes ok: "entries_ok (tr_perSpace q)"
    and flags: "tr_instanceAdmin q \<longrightarrow> tr_instanceAdmin m" "tr_createSpaces q \<longrightarrow> tr_createSpaces m"
    and le: "\<And>s a. effective_rung q s a \<le> effective_rung m s a"
  shows "cap_rights m q = []"
proof -
  obtain s0 where s0: "\<And>a. effective_rung m s0 a = floor_rung m a" "\<And>a. effective_rung q s0 a = floor_rung q a"
    using fresh_space [of m q] by blast
  have fl: "floor_rung q a \<le> floor_rung m a" for a using le [of s0 a] s0 by simp
  have 1: "rank (f a) \<le> rank (Some (floor_rung m a))" if "tr_floor q = Some f" for f a
  proof -
    have "rank (f a) \<le> rank (Some (floor_at q a))" using that by (simp add: floor_at_le)
    also have "\<dots> \<le> rank (Some (floor_rung q a))"
      by (auto simp: floor_rung_def with_implications_eq granted_floor_rung_eq max_def)
    finally show ?thesis using fl [of a] by (metis order_trans rank_le)
  qed
  have 2: "rank (row a) \<le> rank (Some (effective_rung m s a))" if "(s, row) \<in> set (tr_perSpace q)" for s row a
  proof -
    have "map_of (tr_perSpace q) s = Some row" using ok that by (rule in_map_of)
    then have "rank (row a) \<le> rank (Some (row_at q s a))" by (simp add: row_at_le)
    also have "\<dots> \<le> rank (Some (granted_rung q s a))" by (simp add: granted_rung_eq)
    also have "\<dots> \<le> rank (Some (effective_rung q s a))" using granted_le_effective by simp
    finally show ?thesis using le [of s a] by (metis order_trans rank_le)
  qed
  have 3: "floor_rung m a = Admin" if "admin_floor q" "a \<noteq> Networks" for a
    using fl [of a] that by (simp add: floor_rung_def [of q] with_implications_eq granted_floor_rung_eq max_def split: if_splits)
  have 4: "effective_rung m s a = Admin" if "s \<in> set (admin_spaces q)" "a \<noteq> Networks" for s a
    using le [of s a] effective_Admin_of_administers [of q s a] that by (simp add: admin_floor_simps)
  show ?thesis unfolding cap_rights_Nil using flags 1 2 3 4 by blast
qed

text \<open>
  Property C9: the mint cap is exact: a request passes it exactly when it asks for no instance-wide
  flag the minter lacks and its effective rung is at or below the minter's in every area of every
  space, existing or not, implied rungs and space administration included.
\<close>

theorem mint_cap_exact:
  assumes "entries_ok (tr_perSpace requested)"
  shows "cap_rights minter requested = [] \<longleftrightarrow>
     (tr_instanceAdmin requested \<longrightarrow> tr_instanceAdmin minter)
     \<and> (tr_createSpaces requested \<longrightarrow> tr_createSpaces minter)
     \<and> (\<forall>space area. effective_rung requested space area \<le> effective_rung minter space area)"
  (is "?cap \<longleftrightarrow> ?flags \<and> ?make \<and> ?le")
proof
  assume cap: ?cap
  then have ?flags ?make by (simp_all add: cap_rights_Nil)
  with effective_leI cap_granted [OF cap] show "?flags \<and> ?make \<and> ?le" by blast
next
  assume "?flags \<and> ?make \<and> ?le"
  with exceeds_nothing_cap [OF assms] show ?cap by blast
qed

definition sample_minter :: token_rights where
  "sample_minter = \<lparr>tr_instanceAdmin = False, tr_createSpaces = False,
     tr_floor = None, tr_perSpace = [(''home'', (\<lambda>_. Some Read)(Knowledge := Some Write))],
     tr_spaceAdmin = Some \<lparr>sa_floor = False, sa_spaces = [''lab'']\<rparr>\<rparr>"

definition sample_request :: token_rights where
  "sample_request = \<lparr>tr_instanceAdmin = False, tr_createSpaces = False,
     tr_floor = None, tr_perSpace = [(''home'', \<lambda>_. Some Write)], tr_spaceAdmin = None\<rparr>"

lemma mint_cap_exact_witness:
  "\<not> ((tr_instanceAdmin sample_request \<longrightarrow> tr_instanceAdmin sample_minter)
     \<and> (tr_createSpaces sample_request \<longrightarrow> tr_createSpaces sample_minter)
     \<and> (\<forall>space area. effective_rung sample_request space area \<le> effective_rung sample_minter space area))"
proof -
  have ok: "entries_ok (tr_perSpace sample_request)"
    by (simp add: sample_request_def entries_ok_def)
  have "floor_excess sample_minter sample_request @ row_excess sample_minter sample_request \<noteq> []"
    by (simp add: floor_excess_def row_excess_def sample_request_def sample_minter_def SPACE_AREAS_def excess_at_def
        effective_rung_def with_implications_eq granted_rung_eq administers_def row_at_def floor_at_def max_def)
  then have "cap_rights sample_minter sample_request \<noteq> []" by (auto simp: cap_rights_def)
  with mint_cap_exact [OF ok] show ?thesis by metis
qed

section \<open>Reach in closed form\<close>

lemma some_area_iff [simp]: "some_area p \<longleftrightarrow> (\<exists>a. p a)"
  by (simp add: some_area_def list_ex_iff)

lemma effective_none_iff:
  "(\<forall>a. effective_rung r s a = No_rung) \<longleftrightarrow> (\<forall>a. granted_rung r s a = No_rung)"
proof
  assume *: "\<forall>a. effective_rung r s a = No_rung"
  show "\<forall>a. granted_rung r s a = No_rung"
    using granted_le_effective [of r s] * by (metis rung_extremes(1))
qed (simp add: effective_rung_def with_implications_eq)

lemma max_none [simp]: "max a b = No_rung \<longleftrightarrow> a = No_rung \<and> b = No_rung"
  by (cases a; cases b) (simp_all add: max_def less_eq_rung_def)

lemma granted_none_iff:
  "(\<forall>a. granted_rung r s a = No_rung) \<longleftrightarrow>
     \<not> administers (Some r) s \<and> (\<forall>a. row_at r s a = No_rung) \<and> (\<forall>a. floor_at r a = No_rung)"
proof (cases "administers (Some r) s")
  case True
  then have "granted_rung r s Knowledge \<noteq> No_rung" by (simp add: granted_rung_eq)
  with True show ?thesis by blast
next
  case False
  then show ?thesis by (auto simp: granted_rung_eq)
qed

lemma reaches_space_iff: "reaches_space r s \<longleftrightarrow> (\<exists>a. effective_rung r s a \<noteq> No_rung)"
proof -
  have "reaches_space r s \<longleftrightarrow> \<not> (\<forall>a. granted_rung r s a = No_rung)"
    by (simp add: granted_none_iff reaches_space_def row_at_def floor_at_def split: option.splits)
  then show ?thesis using effective_none_iff [of r s] by blast
qed

lemma satisfies_iff [simp]: "satisfies (Some h) n \<longleftrightarrow> n \<le> h"
  by (simp add: satisfies_def)

lemma satisfies_or_none: "n \<noteq> No_rung \<Longrightarrow> satisfies r n \<longleftrightarrow> n \<le> or_none r"
  by (cases r) (auto simp: satisfies_def, cases n, auto)

lemma holds_rung_iff: "holds_rung r s a n \<longleftrightarrow> n \<le> effective_rung r s a"
  by (simp add: holds_rung_def)

lemma max_ge_Write: "Write \<le> max a b \<longleftrightarrow> Write \<le> a \<or> Write \<le> b"
  by (cases a; cases b) (simp_all add: max_def less_eq_rung_def)

lemma effective_Write_iff: "Write \<le> effective_rung r s a \<longleftrightarrow> Write \<le> granted_rung r s a"
  by (simp add: effective_rung_def with_implications_eq max_ge_Write)

lemma granted_Write_iff:
  "(\<exists>a. Write \<le> granted_rung r s a) \<longleftrightarrow>
     administers (Some r) s \<or> (\<exists>a. Write \<le> row_at r s a) \<or> (\<exists>a. Write \<le> floor_at r a)"
proof (cases "administers (Some r) s")
  case True
  then have "Write \<le> granted_rung r s Knowledge" by (simp add: granted_rung_eq)
  with True show ?thesis by blast
next
  case False
  then show ?thesis by (auto simp: granted_rung_eq max_ge_Write)
qed

lemma can_write_anywhere_iff:
  assumes "entries_ok (tr_perSpace r)"
  shows "can_write_anywhere (Some r) \<longleftrightarrow>
     tr_instanceAdmin r \<or> (\<exists>s a. Write \<le> effective_rung r s a)"
proof -
  have rows: "list_ex (\<lambda>e. some_area (\<lambda>a. satisfies (snd e a) Write)) (tr_perSpace r)
      \<longleftrightarrow> (\<exists>s a. Write \<le> row_at r s a)"
  proof -
    have A: "(\<exists>e \<in> set (tr_perSpace r). Q (snd e)) \<longleftrightarrow> (\<exists>s row. map_of (tr_perSpace r) s = Some row \<and> Q row)" for Q
    proof
      assume "\<exists>e \<in> set (tr_perSpace r). Q (snd e)"
      then obtain k v where "(k, v) \<in> set (tr_perSpace r)" "Q v" by force
      with in_map_of [OF assms this(1)] show "\<exists>s row. map_of (tr_perSpace r) s = Some row \<and> Q row" by blast
    next
      assume "\<exists>s row. map_of (tr_perSpace r) s = Some row \<and> Q row"
      then obtain s row where "map_of (tr_perSpace r) s = Some row" "Q row" by blast
      with map_of_SomeD [OF this(1)] show "\<exists>e \<in> set (tr_perSpace r). Q (snd e)" by (metis snd_conv)
    qed
    have B: "Write \<le> row_at r s a \<longleftrightarrow> (\<exists>row. map_of (tr_perSpace r) s = Some row \<and> Write \<le> or_none (row a))" for s a
      by (cases "map_of (tr_perSpace r) s") (simp_all add: row_at_def)
    have "list_ex (\<lambda>e. some_area (\<lambda>a. satisfies (snd e a) Write)) (tr_perSpace r)
        \<longleftrightarrow> (\<exists>s row. map_of (tr_perSpace r) s = Some row \<and> (\<exists>a. Write \<le> or_none (row a)))"
      unfolding A [symmetric] by (simp add: list_ex_iff satisfies_or_none)
    then show ?thesis unfolding B by blast
  qed
  have adm: "(case tr_spaceAdmin r of None \<Rightarrow> False | Some sa \<Rightarrow> sa_floor sa \<or> length (sa_spaces sa) > 0)
      \<longleftrightarrow> (\<exists>s. administers (Some r) s)"
    by (cases "tr_spaceAdmin r") (simp_all add: administers_def ex_disj_distrib ex_in_conv)
  have flr: "(case tr_floor r of None \<Rightarrow> False | Some f \<Rightarrow> some_area (\<lambda>a. satisfies (f a) Write))
      \<longleftrightarrow> (\<exists>a. Write \<le> floor_at r a)"
    by (auto simp: floor_at_def satisfies_or_none split: option.splits)
  have "(\<exists>s a. Write \<le> effective_rung r s a) \<longleftrightarrow>
      (\<exists>s. administers (Some r) s) \<or> (\<exists>s a. Write \<le> row_at r s a) \<or> (\<exists>a. Write \<le> floor_at r a)"
    using granted_Write_iff [of r] by (simp add: effective_Write_iff ex_disj_distrib)
  moreover have "can_write_anywhere (Some r) \<longleftrightarrow>
      tr_instanceAdmin r \<or> (\<exists>s. administers (Some r) s) \<or> (\<exists>a. Write \<le> floor_at r a) \<or> (\<exists>s a. Write \<le> row_at r s a)"
    unfolding can_write_anywhere_def option.case(2) rows adm flr by (auto simp only: if_True if_False split: if_splits)
  ultimately show ?thesis by blast
qed

text \<open>
  The reach readers answer from the effective rungs and from nothing else: a token reaches
  a space exactly when it holds read in some area of it, and it may write somewhere exactly when it is
  instance admin or holds write in some area of some space.
\<close>

theorem reach_is_effective:
  assumes "entries_ok (tr_perSpace r)"
  shows "(reaches_space r s \<longleftrightarrow> (\<exists>a. holds_rung r s a Read))
    \<and> (can_write_anywhere (Some r) \<longleftrightarrow> tr_instanceAdmin r \<or> (\<exists>sp a. holds_rung r sp a Write))"
  using can_write_anywhere_iff [OF assms]
  by (simp_all add: reaches_space_iff holds_rung_iff rung_above_none)

lemma reach_is_effective_witness:
  "reaches_space sample_minter ''lab'' \<and> can_write_anywhere (Some sample_minter)
   \<and> (\<exists>a. holds_rung sample_minter ''lab'' a Read)
   \<and> (\<exists>sp a. holds_rung sample_minter sp a Write)"
proof -
  have ok: "entries_ok (tr_perSpace sample_minter)" by (simp add: sample_minter_def entries_ok_def)
  have 1: "reaches_space sample_minter ''lab''" "can_write_anywhere (Some sample_minter)"
    "\<not> tr_instanceAdmin sample_minter"
    by (simp_all add: reaches_space_def can_write_anywhere_def administers_def sample_minter_def)
  with reach_is_effective [OF ok, of "''lab''"] show ?thesis by blast
qed

section \<open>Migration\<close>

lemma map_of_fold_put:
  "map_of (foldl (\<lambda>m k. obj_put k v m) m ids) s = (if s \<in> set ids then Some v else map_of m s)"
  by (induction ids arbitrary: m) (auto simp: map_of_obj_put)

lemma entries_ok_fold_put: "entries_ok m \<Longrightarrow> entries_ok (foldl (\<lambda>m k. obj_put k v m) m ids)"
  by (induction ids arbitrary: m) (simp_all add: ob.ok_put)

lemma values_fold_put:
  assumes "e \<in> set (foldl (\<lambda>m k. obj_put k v m) [] ids)"
  shows "snd e = v \<and> fst e \<in> set ids"
proof -
  have "map_of (foldl (\<lambda>m k. obj_put k v m) [] ids) (fst e) = Some (snd e)"
    using in_map_of [OF entries_ok_fold_put [of "[]" v ids]] assms by (simp add: entries_ok_def)
  then show ?thesis by (simp add: map_of_fold_put split: if_splits)
qed

definition legacy_reaches :: "legacy_token \<Rightarrow> string \<Rightarrow> bool" where
  "legacy_reaches t s \<longleftrightarrow> \<not> truthy_bool (lt_schemaLibrary t)
     \<and> (case lt_spaces t of None \<Rightarrow> True | Some ids \<Rightarrow> s \<in> set ids)"

definition legacy_rung :: "legacy_token \<Rightarrow> string \<Rightarrow> space_area \<Rightarrow> rung" where
  "legacy_rung t s a =
     (if \<not> legacy_reaches t s then No_rung
      else if a = Networks \<and> \<not> truthy_bool (lt_admin t) then No_rung
      else legacy_level t)"

lemma rung_max_none [simp]: "max r No_rung = r" "max No_rung r = r"
  by (simp_all add: max_def)

lemma granted_migrated: "granted_rung (migrate_token t) s a = legacy_rung t s a"
proof (cases "truthy_bool (lt_schemaLibrary t)")
  case True
  then show ?thesis
    by (simp add: migrate_token_def granted_rung_eq administers_def row_at_def floor_at_def
        legacy_rung_def legacy_reaches_def)
next
  case False
  then show ?thesis
    by (cases "lt_spaces t")
      (simp_all add: migrate_token_def granted_rung_eq administers_def row_at_def floor_at_def
        legacy_rung_def legacy_reaches_def map_of_fold_put rungs_def legacy_level_def)
qed

lemma legacy_level_above: "Read \<le> legacy_level t"
  by (simp add: legacy_level_def)

lemma effective_migrated: "effective_rung (migrate_token t) s a = legacy_rung t s a"
proof (cases "a = Schema \<and> Write \<le> legacy_rung t s Knowledge")
  case True
  then have "legacy_rung t s a = legacy_level t"
    by (simp add: legacy_rung_def split: if_splits)
  with True legacy_level_above [of t] show ?thesis
    by (simp add: effective_rung_def with_implications_eq granted_migrated max_def)
qed (auto simp: effective_rung_def with_implications_eq granted_migrated)

lemma rungs_not_too_high: "\<not> too_high (legacy_level t) (rungs (legacy_level t))"
  by (simp add: too_high_def rungs_def not_less)

lemma migrated_grants_no_more: "\<not> grants_more_than t (migrate_token t)"
proof (cases "truthy_bool (lt_schemaLibrary t)")
  case True
  then show ?thesis by (simp add: migrate_token_def grants_more_than_def Let_def)
next
  case False
  show ?thesis
  proof (cases "lt_spaces t")
    case None
    with False show ?thesis
      by (simp add: migrate_token_def grants_more_than_def rungs_not_too_high)
  next
    case (Some ids)
    let ?m = "foldl (\<lambda>m k. obj_put k (rungs (legacy_level t)) m) [] ids"
    have "\<not> too_high (legacy_level t) (snd e)" if "e \<in> set ?m" for e
      using values_fold_put [OF that] rungs_not_too_high [of t] by simp
    then have 1: "\<not> list_ex (\<lambda>e. too_high (legacy_level t) (snd e)) ?m"
      by (auto simp: list_ex_iff)
    have 2: "fst e \<in> set ids" if "e \<in> set ?m" for e
      using values_fold_put [OF that] by simp
    have "\<not> list_ex (\<lambda>k. k \<notin> set ids) (map fst ?m)"
      using 2 by (auto simp: list_ex_iff)
    with False Some 1 show ?thesis
      by (simp add: migrate_token_def grants_more_than_def)
  qed
qed

text \<open>
  Deriving a matrix from a legacy token gives exactly what the token had: its level in every
  data area of the spaces it reached, the networks area to an administrator alone, nothing anywhere
  else, and the check the migration is audited with finds no grant above the legacy token.
\<close>

theorem migration_exact:
  "effective_rung (migrate_token t) space area = legacy_rung t space area
   \<and> \<not> grants_more_than t (migrate_token t)"
  by (simp add: effective_migrated migrated_grants_no_more)

section \<open>The floor guard\<close>

text \<open>
  A token editing itself may set a floor exactly when it has one already and the new one is
  at or below it in every area.  So a token with no floor is refused every floor, even the one that
  grants nothing anywhere: the four areas the source writes out for it leave \<open>networks\<close> absent, and
  every rung is above an absent one.
\<close>

theorem self_floor_guard:
  assumes "editor \<noteq> []" and "tr_floor next_rights = Some n" and "\<forall>a. n a \<noteq> None"
  shows "refuse_self_floor_raise (Some editor) (Some r) editor next_rights = [] \<longleftrightarrow>
     (\<exists>c. tr_floor r = Some c \<and> (\<forall>a. rank (n a) \<le> rank (c a)))"
proof (cases "tr_floor r")
  case None
  obtain q where "n Networks = Some q" using assms(3) by auto
  then have "rank (n Networks) > rank (no_floor_rungs Networks)"
    using rank_nonneg [of q] by (simp add: no_floor_rungs_def)
  with None assms(1,2) show ?thesis
    by (auto simp: refuse_self_floor_raise_def floor_raises_def filter_empty_conv)
next
  case (Some c)
  with assms(1,2) show ?thesis
    by (simp add: refuse_self_floor_raise_def floor_raises_def filter_empty_conv not_less)
qed

lemma self_floor_guard_witness:
  "refuse_self_floor_raise (Some ''me'') (Some sample_minter) ''me''
     (sample_minter\<lparr>tr_floor := Some (\<lambda>_. Some No_rung)\<rparr>) \<noteq> []"
  using self_floor_guard [of "''me''" "sample_minter\<lparr>tr_floor := Some (\<lambda>_. Some No_rung)\<rparr>"
      "\<lambda>_. Some No_rung" sample_minter]
  by (simp add: sample_minter_def)

end
