(* ===== verification/Route_Rights.thy ===== *)
theory Route_Rights
  imports Rights Peer_Version
begin

text \<open>
  What each door asks of a token: the inventory of routes and tools (\<open>auth/space-rights.ts\<close>), the lookup
  that reads it (\<open>auth/required-rung.ts\<close>), the check a route runs (\<open>enforceAreaRung\<close> of
  \<open>auth/middleware.ts\<close>), the check a tool runs (\<open>mcp/tool-rights-guard.ts\<close>) and the one a
  request runs that names its spaces in the body (\<open>auth/body-scoped-space.ts\<close>).
\<close>

section \<open>The inventory\<close>

datatype scope_shape = Path | Iterates | Body

record route_right =
  rr_route :: string
  rr_method :: string
  rr_area :: space_area
  rr_needs :: rung
  rr_scope :: scope_shape

record tool_right =
  tl_tool :: string
  tl_area :: space_area
  tl_needs :: rung

definition route_row :: "string \<Rightarrow> string \<Rightarrow> space_area \<Rightarrow> rung \<Rightarrow> scope_shape \<Rightarrow> route_right" where
  "route_row r m a n s = \<lparr>rr_route = r, rr_method = m, rr_area = a, rr_needs = n, rr_scope = s\<rparr>"

definition tool_row :: "string \<Rightarrow> space_area \<Rightarrow> rung \<Rightarrow> tool_right" where
  "tool_row t a n = \<lparr>tl_tool = t, tl_area = a, tl_needs = n\<rparr>"

definition ROUTE_RIGHTS :: "route_right list" where
  "ROUTE_RIGHTS =
    [route_row ''/api/brain/recall'' ''POST'' Knowledge Read Body,
     route_row ''/api/brain/spaces/:spaceId/traverse'' ''POST'' Knowledge Read Path,
     route_row ''/api/brain/similar'' ''POST'' Knowledge Read Body,
     route_row ''/api/brain/spaces/:spaceId/stats'' ''GET'' Knowledge Read Path,
     route_row ''/api/brain/spaces/:spaceId/events'' ''GET'' Knowledge Read Path,
     route_row ''/api/brain/spaces/:spaceId/events/ticket'' ''POST'' Knowledge Read Path,
     route_row ''/api/brain/spaces/:spaceId/facts'' ''POST'' Knowledge Write Path,
     route_row ''/api/brain/spaces/:spaceId/facts/:id'' ''PATCH'' Knowledge Write Path,
     route_row ''/api/brain/spaces/:spaceId/facts/:id'' ''DELETE'' Knowledge Write Path,
     route_row ''/api/brain/spaces/:spaceId/entities'' ''POST'' Knowledge Write Path,
     route_row ''/api/brain/spaces/:spaceId/entities/:id'' ''PATCH'' Knowledge Write Path,
     route_row ''/api/brain/spaces/:spaceId/entities/:id'' ''DELETE'' Knowledge Write Path,
     route_row ''/api/brain/spaces/:spaceId/entities/:id/cascade-preview'' ''GET'' Knowledge Read Path,
     route_row ''/api/brain/spaces/:spaceId/entities/:survivorId/merge/:absorbedId'' ''POST'' Knowledge Write Path,
     route_row ''/api/brain/spaces/:spaceId/edges'' ''POST'' Knowledge Write Path,
     route_row ''/api/brain/spaces/:spaceId/edges/:id'' ''PATCH'' Knowledge Write Path,
     route_row ''/api/brain/spaces/:spaceId/edges/:id'' ''DELETE'' Knowledge Write Path,
     route_row ''/api/brain/spaces/:spaceId/links'' ''POST'' Knowledge Write Path,
     route_row ''/api/brain/spaces/:spaceId/links/:id'' ''DELETE'' Knowledge Write Path,
     route_row ''/api/brain/spaces/:spaceId/chrono'' ''POST'' Knowledge Write Path,
     route_row ''/api/brain/spaces/:spaceId/chrono/:id'' ''PATCH'' Knowledge Write Path,
     route_row ''/api/brain/spaces/:spaceId/chrono/:id'' ''DELETE'' Knowledge Write Path,
     route_row ''/api/brain/spaces/:spaceId/bulk'' ''POST'' Knowledge Write Path,
     route_row ''/api/brain/spaces/:spaceId/ingest'' ''POST'' Knowledge Write Path,
     route_row ''/api/brain/spaces/:spaceId/ingest/:runId'' ''GET'' Knowledge Read Path,
     route_row ''/api/files/:spaceId'' ''GET'' Files_area Read Path,
     route_row ''/api/files/:spaceId'' ''POST'' Files_area Write Path,
     route_row ''/api/files/:spaceId/upload-status'' ''GET'' Files_area Read Path,
     route_row ''/api/brain/spaces/:spaceId/files/extract'' ''GET'' Files_area Read Path,
     route_row ''/api/brain/spaces/:spaceId/embedding-queue/media'' ''GET'' Files_area Read Path,
     route_row ''/api/brain/spaces/:spaceId/embedding-queue/media/retry-failed'' ''POST'' Files_area Write Path,
     route_row ''/api/brain/spaces/:spaceId/embedding-queue/records'' ''GET'' Knowledge Read Path,
     route_row ''/api/brain/spaces/:spaceId/embedding-queue/records/retry'' ''POST'' Knowledge Write Path,
     route_row ''/api/brain/spaces/:spaceId/forks'' ''GET'' Knowledge Read Path,
     route_row ''/api/brain/spaces/:spaceId/forks/:forkId/resolve'' ''POST'' Knowledge Write Path,
     route_row ''/api/brain/spaces/:spaceId/files'' ''PATCH'' Files_area Write Path,
     route_row ''/api/files/:spaceId/mkdir'' ''POST'' Files_area Write Path,
     route_row ''/api/files/:spaceId'' ''DELETE'' Files_area Write Path,
     route_row ''/api/files/:spaceId'' ''PATCH'' Files_area Write Path,
     route_row ''/api/files/:spaceId/retry_embedding'' ''POST'' Files_area Write Path,
     route_row ''/api/spaces/:id/schema'' ''PUT'' Schema Admin Path,
     route_row ''/api/spaces/:id/meta'' ''GET'' Schema Read Path,
     route_row ''/api/spaces/:id/schema-layers'' ''GET'' Schema Read Path,
     route_row ''/api/spaces/:id/network-precedence'' ''PUT'' Schema Admin Path,
     route_row ''/api/spaces/:id/meta/typeSchemas/:knowledgeType/:typeName'' ''GET'' Schema Read Path,
     route_row ''/api/spaces/:id/meta/typeSchemas/:knowledgeType/:typeName'' ''PUT'' Schema Write Path,
     route_row ''/api/spaces/:id/meta/typeSchemas/:knowledgeType/:typeName'' ''DELETE'' Schema Write Path,
     route_row ''/api/spaces/:id/validate-schema'' ''POST'' Schema Read Path,
     route_row ''/api/spaces/:id/completeness'' ''GET'' Schema Read Path,
     route_row ''/api/spaces/:id/rebuild-indexes'' ''POST'' Knowledge Admin Path,
     route_row ''/api/spaces/:id/reembed'' ''POST'' Knowledge Admin Path,
     route_row ''/api/brain/spaces/:spaceId/reindex'' ''POST'' Knowledge Admin Path,
     route_row ''/api/brain/spaces/:spaceId/reindex-status'' ''GET'' Knowledge Read Path,
     route_row ''/api/networks'' ''GET'' Networks Read Iterates,
     route_row ''/api/networks'' ''POST'' Networks Write Iterates,
     route_row ''/api/networks/:id'' ''GET'' Networks Read Iterates,
     route_row ''/api/networks/:id'' ''PATCH'' Networks Admin Iterates,
     route_row ''/api/networks/:id'' ''DELETE'' Networks Write Iterates,
     route_row ''/api/networks/:id/spaces'' ''POST'' Networks Write Iterates,
     route_row ''/api/networks/:id/pending-spaces'' ''POST'' Networks Write Iterates,
     route_row ''/api/networks/join-remote'' ''POST'' Networks Write Iterates,
     route_row ''/api/networks/join-by-key'' ''POST'' Networks Write Iterates,
     route_row ''/api/duplicates'' ''GET'' Data_quality Read Iterates,
     route_row ''/api/duplicates/scan'' ''POST'' Data_quality Write Iterates,
     route_row ''/api/duplicates/:id/merge'' ''POST'' Data_quality Write Iterates,
     route_row ''/api/duplicates/:id/dismiss'' ''POST'' Data_quality Write Iterates,
     route_row ''/api/duplicates/:id/reopen'' ''POST'' Data_quality Write Iterates,
     route_row ''/api/contradictions'' ''GET'' Data_quality Read Iterates,
     route_row ''/api/contradictions/scan'' ''POST'' Data_quality Write Iterates,
     route_row ''/api/contradictions/:id/resolve'' ''POST'' Data_quality Write Iterates,
     route_row ''/api/contradictions/:id/dismiss'' ''POST'' Data_quality Write Iterates,
     route_row ''/api/contradictions/:id/reopen'' ''POST'' Data_quality Write Iterates,
     route_row ''/api/conflicts'' ''GET'' Data_quality Read Iterates,
     route_row ''/api/conflicts/:id'' ''GET'' Data_quality Read Iterates,
     route_row ''/api/conflicts/:id/resolve'' ''POST'' Data_quality Write Iterates,
     route_row ''/api/conflicts/bulk-resolve'' ''POST'' Data_quality Write Iterates,
     route_row ''/api/conflicts/link-violations'' ''GET'' Data_quality Read Iterates,
     route_row ''/api/conflicts/link-violations'' ''DELETE'' Data_quality Write Iterates,
     route_row ''/api/conflicts/link-violations/:id'' ''DELETE'' Data_quality Write Iterates]"

definition TOOL_RIGHTS :: "tool_right list" where
  "TOOL_RIGHTS =
    [tool_row ''save_fact'' Knowledge Write,
     tool_row ''update_fact'' Knowledge Write,
     tool_row ''delete_fact'' Knowledge Write,
     tool_row ''save_entity'' Knowledge Write,
     tool_row ''update_entity'' Knowledge Write,
     tool_row ''delete_entity'' Knowledge Write,
     tool_row ''delete_entity_preview'' Knowledge Read,
     tool_row ''graph_merge'' Knowledge Write,
     tool_row ''save_edge'' Knowledge Write,
     tool_row ''update_edge'' Knowledge Write,
     tool_row ''delete_edge'' Knowledge Write,
     tool_row ''save_link'' Knowledge Write,
     tool_row ''delete_link'' Knowledge Write,
     tool_row ''save_chrono'' Knowledge Write,
     tool_row ''update_chrono'' Knowledge Write,
     tool_row ''delete_chrono'' Knowledge Write,
     tool_row ''recall'' Knowledge Read,
     tool_row ''filter'' Knowledge Read,
     tool_row ''similar'' Knowledge Read,
     tool_row ''read_spill'' Knowledge Read,
     tool_row ''graph_traverse'' Knowledge Read,
     tool_row ''save_bulk'' Knowledge Write,
     tool_row ''ingest'' Knowledge Write,
     tool_row ''ingest_status'' Knowledge Read,
     tool_row ''space_stats'' Knowledge Read,
     tool_row ''space_reindex'' Knowledge Admin,
     tool_row ''space_reembed'' Knowledge Admin,
     tool_row ''list_embed_jobs'' Knowledge Read,
     tool_row ''retry_embed_record'' Knowledge Write,
     tool_row ''list_forks'' Knowledge Read,
     tool_row ''resolve_fork'' Knowledge Write,
     tool_row ''retry_embed_media'' Files_area Write,
     tool_row ''read_file'' Files_area Read,
     tool_row ''write_file'' Files_area Write,
     tool_row ''delete_file'' Files_area Write,
     tool_row ''move_file'' Files_area Write,
     tool_row ''list_dir'' Files_area Read,
     tool_row ''create_dir'' Files_area Write,
     tool_row ''retry_embed_file'' Files_area Write,
     tool_row ''update_file_meta'' Files_area Write,
     tool_row ''space_meta'' Schema Read,
     tool_row ''schema_update'' Schema Admin,
     tool_row ''schema_validate'' Schema Read,
     tool_row ''space_schema_layers'' Schema Read,
     tool_row ''space_set_network_precedence'' Schema Admin,
     tool_row ''update_space'' Schema Write]"

definition NOT_AREA_SCOPED :: "string list" where
  "NOT_AREA_SCOPED =
    [''/api/networks/:id/join'',
     ''/api/networks/:id/invite'',
     ''/api/networks/:id/fork'',
     ''/api/networks/:id/members'',
     ''/api/networks/:id/members/:instanceId'',
     ''/api/networks/:id/introductions/:instanceId/accept'',
     ''/api/networks/:id/members/:instanceId/signing-key'',
     ''/api/networks/:id/reparent-self'',
     ''/api/networks/:id/members/:instanceId/adopt'',
     ''/api/networks/:id/members/:instanceId/revert-parent'',
     ''/api/networks/:id/votes'',
     ''/api/networks/:id/votes/:roundId'',
     ''/api/networks/:id/vote-outcomes'',
     ''/api/networks/:id/sync'',
     ''/api/networks/peers/:peerId/sync'',
     ''/api/networks/:id/sync-history'',
     ''/api/networks/:id/reread'',
     ''/api/networks/:id/change-notes'',
     ''/api/:tool'',
     ''/api/spaces/:id/file-stamp-report'',
     ''/api/spaces/:id'',
     ''/api/conflicts/seed'',
     ''/api/spaces/:id/rename'',
     ''/api/brain/spaces/:spaceId/token-access'',
     ''/api/brain/spaces/:spaceId/activity'',
     ''/api/spaces'',
     ''/api/spaces/:id/activity/reset'',
     ''/api/spaces/reorder'',
     ''/api/views'',
     ''/api/views/:id'',
     ''/api/views/:id/copy'',
     ''/api/admin/views/orphans'',
     ''/api/admin/views/claim'',
     ''/api/admin/views/retired/:id/purge'',
     ''/api/admin/views/migration'',
     ''/api/admin/webhooks'',
     ''/api/admin/webhooks/:id'',
     ''/api/admin/webhooks/:id/test'',
     ''/api/admin/webhooks/:id/deliveries'',
     ''/api/admin/spaces/:spaceId/wipe'',
     ''/api/admin/spaces/:spaceId/export'',
     ''/api/admin/spaces/:spaceId/import'',
     ''/api/brain/spills/:id'']"

section \<open>The lookup\<close>

text \<open>\<open>toLowerCase\<close> and \<open>toUpperCase\<close> on the letters a route and a method are written in.\<close>

definition lower :: "char \<Rightarrow> char" where
  "lower c = (if 65 \<le> (of_char c :: int) \<and> (of_char c :: int) \<le> 90 then char_of ((of_char c :: int) + 32) else c)"

definition upper :: "char \<Rightarrow> char" where
  "upper c = (if 97 \<le> (of_char c :: int) \<and> (of_char c :: int) \<le> 122 then char_of ((of_char c :: int) - 32) else c)"

definition route_path :: "string \<Rightarrow> string" where
  "route_path p =
     (let s = map lower (rev (dropWhile (\<lambda>c. c = CHR ''/'') (rev p)))
      in if s = [] then ''/'' else s)"

definition route_key :: "string \<Rightarrow> string \<Rightarrow> string" where
  "route_key method p = map upper method @ '' '' @ route_path p"

record rung_requirement =
  rq_area :: space_area
  rq_needs :: rung
  rq_scope :: scope_shape

datatype rung_verdict = Requires rung_requirement | Not_area_scoped | Unclassified

definition requirement :: "route_right \<Rightarrow> rung_requirement" where
  "requirement r = \<lparr>rq_area = rr_area r, rq_needs = rr_needs r, rq_scope = rr_scope r\<rparr>"

definition BY_KEY :: "(string, rung_requirement) es_map" where
  "BY_KEY = foldl (\<lambda>m r. map_put (route_key (rr_method r) (rr_route r)) (requirement r) m) [] ROUTE_RIGHTS"

definition EXEMPT_PATHS :: "string list" where
  "EXEMPT_PATHS = unique (map route_path (unique NOT_AREA_SCOPED))"

definition rung_for :: "string \<Rightarrow> string \<Rightarrow> rung_verdict" where
  "rung_for method full_path =
     (case map_of BY_KEY (route_key method full_path) of
        Some r \<Rightarrow> Requires r
      | None \<Rightarrow> if route_path full_path \<in> set EXEMPT_PATHS then Not_area_scoped else Unclassified)"

section \<open>The checks\<close>

text \<open>
  \<open>enforceAreaRung\<close>: \<open>None\<close> is \<open>return true\<close>, a refusal is the 403 it writes before \<open>return false\<close>.
  \<open>route_path_of\<close> is the pattern \<open>registeredPathOf(req)\<close> gives.
\<close>

datatype rung_refusal =
    No_matrix rung space_area
  | Short_in rung space_area string
  | No_space_named rung space_area

fun first_short :: "token_rights \<Rightarrow> space_area \<Rightarrow> rung \<Rightarrow> string list \<Rightarrow> string option" where
  "first_short rights area needs [] = None"
| "first_short rights area needs (sid # rest) =
     (if \<not> satisfies (Some (effective_rung rights sid area)) needs then Some sid
      else first_short rights area needs rest)"

definition enforce_area_rung ::
  "token_rights option \<Rightarrow> string \<Rightarrow> string \<Rightarrow> string list \<Rightarrow> rung_refusal option" where
  "enforce_area_rung rights method registered_path targets =
     (case rung_for method registered_path of
        Not_area_scoped \<Rightarrow> None
      | Unclassified \<Rightarrow> None
      | Requires need \<Rightarrow>
          if rq_scope need \<noteq> Path then None
          else case rights of
            None \<Rightarrow> Some (No_matrix (rq_needs need) (rq_area need))
          | Some r \<Rightarrow> map_option (Short_in (rq_needs need) (rq_area need))
                        (first_short r (rq_area need) (rq_needs need) targets))"

text \<open>\<open>enforceSpaceScope\<close>: whether the request passes.\<close>

definition enforce_space_scope :: "token_rights option \<Rightarrow> string option \<Rightarrow> bool" where
  "enforce_space_scope rights space_id =
     (if \<not> truthy_str space_id then True
      else case rights of None \<Rightarrow> False | Some r \<Rightarrow> reaches_space r (the space_id))"

definition takes_a_view :: "rung \<Rightarrow> space_area \<Rightarrow> bool" where
  "takes_a_view needs area \<longleftrightarrow> needs = Read \<and> area \<noteq> Schema"

definition tool_takes_a_view :: "string \<Rightarrow> bool" where
  "tool_takes_a_view tool \<longleftrightarrow> tool \<noteq> ''read_spill''
     \<and> list_ex (\<lambda>r. tl_tool r = tool \<and> takes_a_view (tl_needs r) (tl_area r)) TOOL_RIGHTS"

definition tool_reach :: "string \<Rightarrow> token_rights option \<Rightarrow> string list \<Rightarrow> string list" where
  "tool_reach tool rights reachable =
     (case List.find (\<lambda>r. tl_tool r = tool) TOOL_RIGHTS of
        None \<Rightarrow> reachable
      | Some need \<Rightarrow>
          if tl_needs need \<noteq> Read then reachable
          else case rights of
            None \<Rightarrow> []
          | Some r \<Rightarrow> filter (\<lambda>sid. satisfies (Some (effective_rung r sid (tl_area need))) Read) reachable)"

text \<open>\<open>spaceAdminRefusal\<close>: whether the tool is refused; \<open>flagged\<close> is \<open>tool?.spaceAdmin\<close>.\<close>

definition space_admin_refused :: "bool \<Rightarrow> token_rights option \<Rightarrow> string \<Rightarrow> bool" where
  "space_admin_refused flagged rights space =
     (if \<not> flagged then False
      else if (case rights of None \<Rightarrow> False | Some r \<Rightarrow> tr_instanceAdmin r) then False
      else if space \<noteq> [] \<and> administers rights space then False
      else True)"

definition tool_rights_refusal :: "string \<Rightarrow> token_rights option \<Rightarrow> string \<Rightarrow> rung_refusal option" where
  "tool_rights_refusal tool rights space =
     (case List.find (\<lambda>r. tl_tool r = tool) TOOL_RIGHTS of
        None \<Rightarrow> None
      | Some need \<Rightarrow>
          (case rights of
             None \<Rightarrow> Some (No_matrix (tl_needs need) (tl_area need))
           | Some r \<Rightarrow>
               if space = [] then Some (No_space_named (tl_needs need) (tl_area need))
               else if satisfies (Some (effective_rung r space (tl_area need))) (tl_needs need) then None
               else Some (Short_in (tl_needs need) (tl_area need) space)))"

section \<open>A request that names its spaces in the body\<close>

text \<open>The \<open>space\<close> field as it arrives: absent or null, a string, a list (an entry that is no string being
  \<open>None\<close>), or anything else.\<close>

datatype named_spaces = Unnamed | One string | Several "string option list" | Malformed

datatype body_refusal =
    Not_all_strings
  | Empty_list
  | Not_a_name
  | Out_of_reach string
  | Rung_refusal rung_refusal
  | Nowhere rung space_area

definition asked_spaces :: "named_spaces \<Rightarrow> body_refusal + string list option" where
  "asked_spaces named =
     (case named of
        Unnamed \<Rightarrow> Inr None
      | One v \<Rightarrow> if trim v = [] then Inl Not_a_name else Inr (Some [trim v])
      | Malformed \<Rightarrow> Inl Not_a_name
      | Several vs \<Rightarrow>
          if \<not> list_all (\<lambda>v. v \<noteq> None) vs then Inl Not_all_strings
          else if length vs = 0 then Inl Empty_list
          else (let asked = unique (map (\<lambda>v. trim (the v)) vs)
                in if list_ex (\<lambda>v. length v = 0) asked then Inl Not_a_name else Inr (Some asked)))"

fun first_refused ::
  "token_rights \<Rightarrow> space_area \<Rightarrow> rung \<Rightarrow> string list \<Rightarrow> string list \<Rightarrow> body_refusal option" where
  "first_refused rights area needs accessible [] = None"
| "first_refused rights area needs accessible (sid # rest) =
     (if sid \<notin> set accessible then Some (Out_of_reach sid)
      else if \<not> holds_rung rights sid area needs then Some (Rung_refusal (Short_in needs area sid))
      else first_refused rights area needs accessible rest)"

definition spaces_for_body_scoped_request ::
  "named_spaces \<Rightarrow> string list \<Rightarrow> token_rights option \<Rightarrow> space_area \<Rightarrow> rung \<Rightarrow> body_refusal + string list" where
  "spaces_for_body_scoped_request named accessible rights area needs =
     (case asked_spaces named of
        Inl e \<Rightarrow> Inl e
      | Inr asked \<Rightarrow>
          (case rights of
             None \<Rightarrow> Inl (Rung_refusal (No_matrix needs area))
           | Some r \<Rightarrow>
               (case asked of
                  Some sids \<Rightarrow>
                    (case first_refused r area needs accessible sids of
                       Some e \<Rightarrow> Inl e
                     | None \<Rightarrow> Inr sids)
                | None \<Rightarrow>
                    (let spaces = filter (\<lambda>sid. holds_rung r sid area needs) accessible
                     in if length spaces = 0 then Inl (Nowhere needs area) else Inr spaces))))"

section \<open>Facts about the inventory\<close>

lemma keys_distinct: "distinct (map (\<lambda>r. route_key (rr_method r) (rr_route r)) ROUTE_RIGHTS)"
proof -
  have "distinct (map rev (map (\<lambda>r. route_key (rr_method r) (rr_route r)) ROUTE_RIGHTS))"
    by code_simp
  then show ?thesis by (rule distinct_map [THEN iffD1, THEN conjunct1])
qed

lemma tools_distinct: "distinct (map tl_tool TOOL_RIGHTS)"
proof -
  have "distinct (map rev (map tl_tool TOOL_RIGHTS))" by code_simp
  then show ?thesis by (rule distinct_map [THEN iffD1, THEN conjunct1])
qed

lemma find_row: "distinct (map f rs) \<Longrightarrow> t \<in> set rs \<Longrightarrow> List.find (\<lambda>r. f r = f t) rs = Some t"
  by (induction rs) force+

lemma map_of_fold_map_put:
  "distinct (map k rs) \<Longrightarrow> r \<in> set rs \<Longrightarrow> map_of (foldl (\<lambda>m r. map_put (k r) (v r) m) m rs) (k r) = Some (v r)"
proof (induction rs arbitrary: m)
  case (Cons a rs)
  show ?case
  proof (cases "r = a")
    case True
    have "map_of (foldl (\<lambda>m r. map_put (k r) (v r) m) m' rs) x = map_of m' x" if "x \<notin> k ` set rs" for m' x
      using that by (induction rs arbitrary: m') (auto simp: map_of_map_put)
    with True Cons.prems show ?thesis by (simp add: map_of_map_put)
  next
    case False
    with Cons show ?thesis by simp
  qed
qed simp

lemma rung_for_row:
  assumes "r \<in> set ROUTE_RIGHTS" and "map upper m = map upper (rr_method r)" and "route_path p = route_path (rr_route r)"
  shows "rung_for m p = Requires (requirement r)"
proof -
  have "route_key m p = route_key (rr_method r) (rr_route r)" using assms(2,3) by (simp add: route_key_def)
  moreover have "map_of BY_KEY (route_key (rr_method r) (rr_route r)) = Some (requirement r)"
    unfolding BY_KEY_def by (rule map_of_fold_map_put [OF keys_distinct assms(1)])
  ultimately show ?thesis by (simp add: rung_for_def)
qed

lemma first_short_None: "first_short r a n ts = None \<longleftrightarrow> (\<forall>t \<in> set ts. n \<le> effective_rung r t a)"
  by (induction ts) auto

lemma first_refused_None:
  "first_refused r a n acc sids = None \<longleftrightarrow> (\<forall>s \<in> set sids. s \<in> set acc \<and> holds_rung r s a n)"
  by (induction sids) auto

lemma asked_nonempty: "asked_spaces named = Inr (Some sids) \<Longrightarrow> sids \<noteq> [] \<and> [] \<notin> set sids \<and> distinct sids"
proof (cases named)
  case (Several vs)
  assume a: "asked_spaces named = Inr (Some sids)"
  let ?u = "unique (map (\<lambda>v. trim (the v)) vs)"
  from a Several have "vs \<noteq> []" "sids = ?u" "\<not> list_ex (\<lambda>v. length v = 0) ?u"
    by (simp_all add: asked_spaces_def Let_def split: if_splits)
  moreover from this have "?u \<noteq> []" by (cases vs) simp_all
  ultimately show ?thesis by (auto simp: list_ex_iff)
qed (auto simp: asked_spaces_def split: if_splits)

section \<open>Properties\<close>

text \<open>
  However its address is written, in any casing and with any trailing slashes, a request to a
  listed route that carries its space in the path is let through exactly when the token presents a
  matrix and holds the route's rung, in the route's area, in every target space.
\<close>

theorem listed_route_enforced:
  assumes "r \<in> set ROUTE_RIGHTS" and "rr_scope r = Path"
    and "map upper m = map upper (rr_method r)" and "route_path p = route_path (rr_route r)"
  shows "enforce_area_rung rights m p targets = None \<longleftrightarrow>
     (\<exists>R. rights = Some R \<and> (\<forall>t \<in> set targets. rr_needs r \<le> effective_rung R t (rr_area r)))"
  using assms(2)
  by (cases rights) (simp_all add: enforce_area_rung_def rung_for_row [OF assms(1,3,4)] requirement_def first_short_None)

lemma listed_route_enforced_witness:
  "enforce_area_rung (Some sample_minter) ''delete'' ''/API/Brain/spaces/:spaceId/facts/:ID/'' [''home''] = None
   \<and> enforce_area_rung (Some sample_minter) ''delete'' ''/API/Brain/spaces/:spaceId/facts/:ID/'' [''home'', ''attic''] \<noteq> None"
proof -
  let ?r = "route_row ''/api/brain/spaces/:spaceId/facts/:id'' ''DELETE'' Knowledge Write Path"
  let ?p = "''/API/Brain/spaces/:spaceId/facts/:ID/''"
  have r: "?r \<in> set ROUTE_RIGHTS" by (simp add: ROUTE_RIGHTS_def)
  have p: "route_path ?p = route_path (rr_route ?r)" by code_simp
  have m: "map upper ''delete'' = map upper (rr_method ?r)" by code_simp
  have sc: "rr_scope ?r = Path" by (simp add: route_row_def)
  show ?thesis
    using listed_route_enforced [OF r sc m p, of "Some sample_minter" "[''home'']"]
      listed_route_enforced [OF r sc m p, of "Some sample_minter" "[''home'', ''attic'']"]
    by (simp add: route_row_def effective_rung_def with_implications_eq granted_rung_eq administers_def row_at_def
        floor_at_def sample_minter_def)
qed

text \<open>
  A request that names its spaces in the body acts on spaces the connection can reach and the
  token holds the rung in, and on nothing else: on all the names it gives or on none of them, and with
  no name given on every space where both hold.
\<close>

theorem body_scope_within_reach:
  assumes "spaces_for_body_scoped_request named accessible rights area needs = Inr spaces"
  shows "spaces \<noteq> []
    \<and> (\<exists>r. rights = Some r \<and> (\<forall>s \<in> set spaces. s \<in> set accessible \<and> holds_rung r s area needs)
        \<and> (named = Unnamed \<longrightarrow> set spaces = {s \<in> set accessible. holds_rung r s area needs}))
    \<and> (named \<noteq> Unnamed \<longrightarrow> asked_spaces named = Inr (Some spaces))"
proof -
  obtain asked where a: "asked_spaces named = Inr asked"
    using assms by (cases "asked_spaces named") (simp_all add: spaces_for_body_scoped_request_def)
  obtain r where r: "rights = Some r"
    using assms a by (cases rights) (simp_all add: spaces_for_body_scoped_request_def)
  show ?thesis
  proof (cases asked)
    case None
    with a have "named = Unnamed"
      by (auto simp: asked_spaces_def Let_def split: named_spaces.splits if_splits)
    with assms a r None show ?thesis
      by (auto simp: spaces_for_body_scoped_request_def Let_def split: if_splits)
  next
    case (Some sids)
    with assms a r have "spaces = sids" "first_refused r area needs accessible sids = None"
      by (auto simp: spaces_for_body_scoped_request_def split: option.splits)
    moreover have "named \<noteq> Unnamed" using a Some by (auto simp: asked_spaces_def)
    ultimately show ?thesis using a r Some asked_nonempty [of named sids] by (simp add: first_refused_None)
  qed
qed

lemma body_scope_within_reach_witness:
  "holds_rung sample_minter ''home'' Knowledge Read"
proof -
  have "spaces_for_body_scoped_request (Several [Some '' home'', Some ''home'']) [''attic'', ''home'']
      (Some sample_minter) Knowledge Read = Inr [''home'']"
    by (simp add: spaces_for_body_scoped_request_def asked_spaces_def trim_def is_space_char_def holds_rung_def
        effective_rung_def with_implications_eq granted_rung_eq administers_def row_at_def floor_at_def sample_minter_def)
  from body_scope_within_reach [OF this] show ?thesis by simp
qed

text \<open>
  The reach a reading tool is handed and the refusal of its call agree: a space is in the reach
  exactly when the connection reaches it and the call on it would pass; and a listed tool passes on a
  space exactly when the token holds its rung in its area there.
\<close>

theorem tool_reach_agrees:
  assumes "t \<in> set TOOL_RIGHTS" and "space \<noteq> []"
  shows "(tool_rights_refusal (tl_tool t) rights space = None \<longleftrightarrow>
       (\<exists>r. rights = Some r \<and> holds_rung r space (tl_area t) (tl_needs t)))
    \<and> (tl_needs t = Read \<longrightarrow>
         (space \<in> set (tool_reach (tl_tool t) rights reachable) \<longleftrightarrow>
            space \<in> set reachable \<and> tool_rights_refusal (tl_tool t) rights space = None))"
  using assms(2) find_row [OF tools_distinct assms(1)]
  by (cases rights) (simp_all add: tool_rights_refusal_def tool_reach_def holds_rung_def)

lemma tool_reach_agrees_witness:
  "''home'' \<in> set (tool_reach ''recall'' (Some sample_minter) [''attic'', ''home''])
   \<and> ''attic'' \<notin> set (tool_reach ''recall'' (Some sample_minter) [''attic'', ''home''])"
proof -
  have t: "tool_row ''recall'' Knowledge Read \<in> set TOOL_RIGHTS" by (simp add: TOOL_RIGHTS_def)
  have held: "holds_rung sample_minter ''home'' Knowledge Read" "\<not> holds_rung sample_minter ''attic'' Knowledge Read"
    by (simp_all add: holds_rung_def effective_rung_def with_implications_eq granted_rung_eq administers_def row_at_def
        floor_at_def sample_minter_def)
  show ?thesis
    using tool_reach_agrees [OF t, of "''home''" "Some sample_minter" "[''attic'', ''home'']"]
      tool_reach_agrees [OF t, of "''attic''" "Some sample_minter" "[''attic'', ''home'']"] held
    by (simp add: tool_row_def)
qed

end
