(* ===== verification/Token_Admin.thy ===== *)
theory Token_Admin
  imports Rights
begin

text \<open>
  Who may manage which token (\<open>auth/editor-scope.ts\<close>, \<open>auth/instance-admin.ts\<close>,
  \<open>auth/create-spaces.ts\<close>, \<open>auth/creator-grant.ts\<close>), who may set which field of a space
  (\<open>auth/space-field-rights.ts\<close>), and who may create, join, leave and change a network
  (\<open>auth/network-rights.ts\<close>, \<open>auth/network-membership.ts\<close>).  A refusal the source writes as a
  sentence is a constructor that carries what the sentence names.
\<close>

section \<open>Token records\<close>

record token_record =
  tk_id :: "string option"
  tk_admin :: "bool option"
  tk_schemaLibrary :: "bool option"
  tk_rights :: "token_rights option"

definition is_instance_admin :: "token_record \<Rightarrow> bool" where
  "is_instance_admin t =
     (case tk_rights t of Some r \<Rightarrow> tr_instanceAdmin r | None \<Rightarrow> tk_admin t = Some True)"

definition may_create_spaces :: "token_record option \<Rightarrow> bool" where
  "may_create_spaces t =
     (case t of None \<Rightarrow> False
      | Some r \<Rightarrow> is_instance_admin r
          \<or> (case tk_rights r of None \<Rightarrow> False | Some q \<Rightarrow> tr_createSpaces q))"

definition is_space_admin_for :: "token_rights option \<Rightarrow> string \<Rightarrow> bool" where
  "is_space_admin_for rights space = (if rights = None then False else administers rights space)"

definition space_admin_spaces_for :: "token_record option \<Rightarrow> string list" where
  "space_admin_spaces_for t =
     (case Option.bind t tk_rights of None \<Rightarrow> [] | Some r \<Rightarrow> admin_spaces r)"

definition administers_any_space :: "token_record option \<Rightarrow> bool" where
  "administers_any_space t =
     (case Option.bind t tk_rights of None \<Rightarrow> False
      | Some r \<Rightarrow> if admin_floor r then True else length (space_admin_spaces_for t) > 0)"

section \<open>The editor's scope\<close>

text \<open>\<open>undefined\<close>, which the callers read as unrestricted, is \<open>None\<close>.\<close>

definition editor_scope_for :: "token_record option \<Rightarrow> string list option" where
  "editor_scope_for t =
     (case t of None \<Rightarrow> None
      | Some rec \<Rightarrow>
          (case tk_rights rec of None \<Rightarrow> Some []
           | Some r \<Rightarrow>
               if admin_floor r then None
               else if (case tr_floor r of None \<Rightarrow> False
                        | Some f \<Rightarrow> some_area (\<lambda>a. f a \<noteq> None \<and> f a \<noteq> Some No_rung)) then None
               else Some (unique (admin_spaces r
                      @ filter (\<lambda>sid. some_area (\<lambda>a. effective_rung r sid a \<noteq> No_rung)) (map fst (tr_perSpace r))))))"

datatype manage_refusal =
    Holds_instance_wide bool bool
  | Unrestricted_target
  | Outside_scope "string list"
  | Grants_instanceAdmin
  | Grants_createSpaces
  | Sets_floor
  | Foreign_rows "string list"

definition target_refusals :: "string list \<Rightarrow> token_record \<Rightarrow> manage_refusal list" where
  "target_refusals editor_spaces t =
     (if truthy_bool (tk_schemaLibrary t) then []
      else let inst = (case tk_rights t of None \<Rightarrow> False | Some r \<Rightarrow> tr_instanceAdmin r);
               make = (case tk_rights t of None \<Rightarrow> False | Some r \<Rightarrow> tr_createSpaces r)
           in if inst \<or> make then [Holds_instance_wide inst make]
              else case editor_scope_for (Some t) of
                None \<Rightarrow> [Unrestricted_target]
              | Some target_spaces \<Rightarrow>
                  (let outside = filter (\<lambda>s. s \<notin> set editor_spaces) target_spaces
                   in if length outside > 0 then [Outside_scope outside] else []))"

definition grant_refusals :: "string list \<Rightarrow> token_rights \<Rightarrow> manage_refusal list" where
  "grant_refusals editor_spaces rights =
     (if tr_instanceAdmin rights then [Grants_instanceAdmin] else [])
     @ (if tr_createSpaces rights then [Grants_createSpaces] else [])
     @ (case tr_floor rights of None \<Rightarrow> []
        | Some f \<Rightarrow> if some_area (\<lambda>a. f a \<noteq> None) then [Sets_floor] else [])
     @ (let foreign = filter (\<lambda>s. s \<notin> set editor_spaces) (map fst (tr_perSpace rights))
        in if length foreign > 0 then [Foreign_rows foreign] else [])"

definition refusals_outside_editor_scope ::
  "string list option \<Rightarrow> token_record option \<Rightarrow> token_rights option \<Rightarrow> manage_refusal list" where
  "refusals_outside_editor_scope editor_spaces target rights =
     (case editor_spaces of None \<Rightarrow> []
      | Some sids \<Rightarrow>
          (case target of None \<Rightarrow> [] | Some t \<Rightarrow> target_refusals sids t)
          @ (case rights of None \<Rightarrow> [] | Some r \<Rightarrow> grant_refusals sids r))"

definition refusals_to_manage_token ::
  "token_record option \<Rightarrow> token_record option \<Rightarrow> token_rights option \<Rightarrow> manage_refusal list" where
  "refusals_to_manage_token caller target rights =
     refusals_outside_editor_scope (editor_scope_for caller) target rights"

definition may_manage_tokens :: "token_record option \<Rightarrow> bool" where
  "may_manage_tokens caller =
     (case caller of None \<Rightarrow> False | Some c \<Rightarrow> is_instance_admin c \<or> administers_any_space caller)"

definition may_manage_token :: "token_record option \<Rightarrow> token_record option \<Rightarrow> bool" where
  "may_manage_token caller target =
     (if caller = None \<or> \<not> may_manage_tokens caller then False
      else length (refusals_to_manage_token caller target None) = 0)"

section \<open>The creator's grant\<close>

datatype creator_grant = Granted | Already | Not_stored | No_creator

definition grant_creator_admin ::
  "token_record list \<Rightarrow> string option \<Rightarrow> string \<Rightarrow> token_record list \<times> creator_grant" where
  "grant_creator_admin tokens token_id space =
     (case token_id of None \<Rightarrow> (tokens, No_creator)
      | Some i \<Rightarrow>
          (case find_index (\<lambda>t. tk_id t = Some i) tokens of None \<Rightarrow> (tokens, Not_stored)
           | Some k \<Rightarrow>
               (case tk_rights (tokens ! k) of None \<Rightarrow> (tokens, Not_stored)
                | Some r \<Rightarrow>
                    if administers (Some r) space then (tokens, Already)
                    else (tokens[k := (tokens ! k)\<lparr>tk_rights := Some (r\<lparr>tr_spaceAdmin :=
                             Some \<lparr>sa_floor = admin_floor r, sa_spaces = admin_spaces r @ [space]\<rparr>\<rparr>)\<rparr>], Granted))))"

section \<open>The fields of a space\<close>

datatype field_right = Area_rung space_area rung | Needs_instanceAdmin | Needs_spaceAdmin | Needs_nobody

definition SPACE_FIELD_RIGHTS :: "(string \<times> field_right) list" where
  "SPACE_FIELD_RIGHTS =
     [(''label'', Needs_spaceAdmin),
      (''maxGiB'', Needs_instanceAdmin),
      (''faceDescriptorDims'', Area_rung Files_area Admin),
      (''typeSchemasMode'', Area_rung Schema Write),
      (''targetNetwork'', Area_rung Networks Write),
      (''meta.typeSchemas'', Area_rung Schema Write),
      (''meta.whenDuePasses'', Area_rung Schema Write),
      (''meta.stampSkew'', Area_rung Schema Write),
      (''meta.rules'', Area_rung Schema Admin),
      (''meta.validationMode'', Area_rung Schema Admin),
      (''meta.strictLinkage'', Area_rung Schema Admin),
      (''meta.suppressEmbeddings'', Area_rung Knowledge Admin),
      (''recordTtlDays'', Area_rung Knowledge Admin),
      (''unknownWriteFields'', Area_rung Schema Admin),
      (''completeLinkage'', Needs_nobody),
      (''dupeRules'', Area_rung Data_quality Write),
      (''dupeMergeSurvivor'', Area_rung Data_quality Write),
      (''dupeRulesOnInsert'', Area_rung Data_quality Admin),
      (''documentExtraction'', Area_rung Files_area Write),
      (''imageAnalysis'', Area_rung Files_area Write),
      (''audioAnalysis'', Area_rung Files_area Write),
      (''videoAnalysis'', Area_rung Files_area Write),
      (''textAnalysis'', Area_rung Files_area Write),
      (''meta.purpose'', Needs_spaceAdmin),
      (''meta.usageNotes'', Needs_spaceAdmin)]"

text \<open>A field of an update body as it arrives: \<open>undefined\<close>, an object with its fields (and whether each is
  defined), or any other value.\<close>

datatype field_value = Undefined | Fields "(string \<times> bool) list" | Plain

fun settings_fields_in :: "(string \<times> field_value) list \<Rightarrow> string list" where
  "settings_fields_in [] = []"
| "settings_fields_in ((k, v) # rest) =
     (if v = Undefined then settings_fields_in rest
      else if k = ''meta''
        then (case v of Fields fs \<Rightarrow> map (\<lambda>f. ''meta.'' @ fst f) (filter snd fs) | _ \<Rightarrow> []) @ settings_fields_in rest
      else k # settings_fields_in rest)"

text \<open>The pattern \<open>^meta\.typeSchemas\.[^.]+\..+\.rules$\<close>: after the prefix a non-empty kind without a dot,
  a dot, a non-empty type on one line, and \<open>.rules\<close>.\<close>

definition line_break :: "char \<Rightarrow> bool" where
  "line_break c \<longleftrightarrow> of_char c = (10 :: nat) \<or> of_char c = (13 :: nat)"

definition is_type_rules_field :: "string \<Rightarrow> bool" where
  "is_type_rules_field field =
     (let prefix = ''meta.typeSchemas.''; suffix = ''.rules'' in
      if take (length prefix) field \<noteq> prefix then False
      else let rest = drop (length prefix) field;
               kind = takeWhile (\<lambda>c. c \<noteq> CHR ''.'') rest;
               after = drop (Suc (length kind)) rest;
               type = take (length after - length suffix) after
           in kind \<noteq> [] \<and> length kind < length rest
              \<and> length suffix < length after \<and> drop (length after - length suffix) after = suffix
              \<and> list_all (\<lambda>c. \<not> line_break c) type)"

definition requirement_of :: "string \<Rightarrow> field_right option" where
  "requirement_of field =
     (if is_type_rules_field field then map_of SPACE_FIELD_RIGHTS ''meta.rules'' else map_of SPACE_FIELD_RIGHTS field)"

definition meets_rung :: "rung \<Rightarrow> rung \<Rightarrow> bool" where
  "meets_rung held need \<longleftrightarrow> rank (Some held) \<ge> rank (Some need)"

text \<open>The loop's verdict on one field: whether it is pushed on \<open>refused\<close>.\<close>

definition field_refused :: "string \<Rightarrow> token_rights option \<Rightarrow> string \<Rightarrow> bool" where
  "field_refused space rights field =
     (case requirement_of field of
        None \<Rightarrow> True
      | Some Needs_nobody \<Rightarrow> True
      | Some Needs_instanceAdmin \<Rightarrow> True
      | Some Needs_spaceAdmin \<Rightarrow> \<not> is_space_admin_for rights space
      | Some (Area_rung area needs) \<Rightarrow>
          (case rights of None \<Rightarrow> True | Some r \<Rightarrow> \<not> meets_rung (effective_rung r space area) needs))"

text \<open>\<open>type_rule_edits\<close> is what \<open>typeRuleEditsIn\<close> finds by merging the body into the space's stored schema.\<close>

definition refusals_for_space_update ::
  "(string \<times> field_value) list \<Rightarrow> string list \<Rightarrow> string \<Rightarrow> bool \<Rightarrow> token_rights option \<Rightarrow> string list" where
  "refusals_for_space_update body type_rule_edits space instance_admin rights =
     (let settable = settings_fields_in body @ type_rule_edits;
          outright = filter (\<lambda>f. map_of SPACE_FIELD_RIGHTS f = Some Needs_nobody) settable
      in if length outright > 0 then outright
         else if instance_admin then []
         else filter (field_refused space rights) settable)"

section \<open>Network membership\<close>

datatype leave_refused = Insufficient_rung | Not_your_membership | Origin_unknown

datatype leave_verdict = Allowed_admin | Allowed_own | Leave_refused leave_refused

definition may_leave_network :: "string obj option \<Rightarrow> string \<Rightarrow> string \<Rightarrow> rung \<Rightarrow> leave_verdict" where
  "may_leave_network origins space token_id r =
     (if r = Admin then Allowed_admin
      else if r \<noteq> Write then Leave_refused Insufficient_rung
      else case Option.bind origins (\<lambda>m. map_of m space) of
        None \<Rightarrow> Leave_refused Origin_unknown
      | Some establisher \<Rightarrow>
          if establisher \<noteq> token_id then Leave_refused Not_your_membership else Allowed_own)"

definition record_origin :: "string obj option \<Rightarrow> string \<Rightarrow> string \<Rightarrow> string obj" where
  "record_origin origins space token_id =
     obj_put space token_id (case origins of None \<Rightarrow> [] | Some m \<Rightarrow> m)"

definition forget_origin :: "string obj option \<Rightarrow> string \<Rightarrow> string obj option" where
  "forget_origin origins space =
     (case origins of None \<Rightarrow> None
      | Some m \<Rightarrow>
          if map_of m space = None then Some m
          else (let copy = map_del space m in if length copy > 0 then Some copy else None))"

section \<open>Network rights\<close>

definition may_share :: "token_record \<Rightarrow> string \<Rightarrow> bool" where
  "may_share caller space =
     (case tk_rights caller of None \<Rightarrow> False
      | Some r \<Rightarrow> holds_rung r space Networks Write \<or> administers (Some r) space)"

definition network_create_refusal :: "token_record \<Rightarrow> string list \<Rightarrow> string list option" where
  "network_create_refusal caller spaces =
     (if is_instance_admin caller then None
      else let short = filter (\<lambda>s. \<not> may_share caller s) spaces
           in if length short = 0 then None else Some short)"

datatype network_leave_refusal = Emptied_network | May_not_leave "(string \<times> leave_refused) list"

definition leave_refusals :: "token_record \<Rightarrow> string list \<Rightarrow> string obj option \<Rightarrow> (string \<times> leave_refused) list" where
  "leave_refusals caller spaces origins =
     concat (map (\<lambda>space.
         let r = (case tk_rights caller of None \<Rightarrow> No_rung | Some q \<Rightarrow> effective_rung q space Networks) in
         case may_leave_network origins space (case tk_id caller of None \<Rightarrow> [] | Some i \<Rightarrow> i) r of
           Leave_refused why \<Rightarrow> [(space, why)] | _ \<Rightarrow> []) spaces)"

definition network_leave_refusal ::
  "token_record \<Rightarrow> string list \<Rightarrow> string obj option \<Rightarrow> network_leave_refusal option" where
  "network_leave_refusal caller spaces origins =
     (if is_instance_admin caller then None
      else if length spaces = 0 then Some Emptied_network
      else let refused = leave_refusals caller spaces origins
           in if length refused > 0 then Some (May_not_leave refused) else None)"

definition holds_on_every :: "token_record \<Rightarrow> string list \<Rightarrow> rung \<Rightarrow> bool" where
  "holds_on_every caller spaces needs \<longleftrightarrow>
     is_instance_admin caller \<or> holds_rung_on_every (tk_rights caller) spaces Networks needs"

definition visible_networks :: "('n \<Rightarrow> string list) \<Rightarrow> token_record \<Rightarrow> 'n list \<Rightarrow> 'n list" where
  "visible_networks spaces_of caller networks =
     filter (\<lambda>n. holds_on_every caller (spaces_of n) Read \<or> administers_every (tk_rights caller) (spaces_of n)) networks"

definition network_settings_refused :: "token_record \<Rightarrow> string list \<Rightarrow> bool" where
  "network_settings_refused caller spaces = (\<not> holds_on_every caller spaces Admin)"

datatype join_reason = Short_on "string list" | May_not_create "string list" | No_networks_floor "string list"

datatype network_join_refusal = Carries_no_space | May_not_join "join_reason list"

definition network_join_refusal ::
  "token_record \<Rightarrow> string list \<Rightarrow> string list \<Rightarrow> network_join_refusal option" where
  "network_join_refusal caller existing to_create =
     (if is_instance_admin caller then None
      else if length existing = 0 \<and> length to_create = 0 then Some Carries_no_space
      else
        let short = filter (\<lambda>s. \<not> may_share caller s) existing;
            reasons =
              (if length short > 0 then [Short_on short] else [])
              @ (if length to_create > 0
                 then (if \<not> may_create_spaces (Some caller) then [May_not_create to_create]
                       else if \<not> administers_any_space (Some caller)
                         then (let no_floor = filter (\<lambda>s. case tk_rights caller of None \<Rightarrow> True
                                   | Some r \<Rightarrow> \<not> holds_rung r s Networks Write) to_create
                               in if length no_floor > 0 then [No_networks_floor no_floor] else [])
                       else [])
                 else [])
        in if length reasons > 0 then Some (May_not_join reasons) else None)"

definition network_invite_refused :: "token_record \<Rightarrow> string list \<Rightarrow> bool" where
  "network_invite_refused caller spaces =
     (if is_instance_admin caller then False
      else if administers_every (tk_rights caller) spaces then False else True)"

datatype add_reason = May_not_share | Does_not_govern

definition network_add_space_refusal :: "token_record \<Rightarrow> string list \<Rightarrow> string \<Rightarrow> add_reason list option" where
  "network_add_space_refusal caller spaces space =
     (if is_instance_admin caller then None
      else let reasons =
             (if \<not> may_share caller space then [May_not_share] else [])
             @ (if \<not> (holds_on_every caller spaces Admin \<or> administers_every (tk_rights caller) spaces)
                then [Does_not_govern] else [])
           in if length reasons > 0 then Some reasons else None)"

section \<open>Lemmas\<close>

lemma admin_floor_reaches: "admin_floor r \<Longrightarrow> reaches_space r s"
  by (simp add: reaches_space_def admin_floor_simps)

lemma floor_reaches: "tr_floor r = Some f \<Longrightarrow> f a \<noteq> None \<Longrightarrow> f a \<noteq> Some No_rung \<Longrightarrow> reaches_space r s"
  by (cases "f a") (auto simp: reaches_space_def intro!: exI [of _ a])

definition reaches :: "token_record \<Rightarrow> string \<Rightarrow> bool" where
  "reaches t s \<longleftrightarrow> (case tk_rights t of None \<Rightarrow> False | Some r \<Rightarrow> reaches_space r s)"

text \<open>The scope is the reach: all of it when the source answers \<open>undefined\<close>, else the list it answers.\<close>

lemma scope_unrestricted: "editor_scope_for (Some t) = None \<Longrightarrow> reaches t s"
  by (auto simp: editor_scope_for_def reaches_def admin_floor_reaches split: option.splits if_splits intro: floor_reaches)

lemma scope_listed:
  assumes "editor_scope_for (Some t) = Some L"
  shows "s \<in> set L \<longleftrightarrow> reaches t s"
proof (cases "tk_rights t")
  case None
  with assms show ?thesis by (simp add: editor_scope_for_def reaches_def)
next
  case (Some r)
  have nf: "\<not> admin_floor r" and nr: "tr_floor r = Some f \<Longrightarrow> f a = None \<or> f a = Some No_rung" for f a
    using assms Some by (auto simp: editor_scope_for_def split: if_splits)
  have L: "L = unique (admin_spaces r
      @ filter (\<lambda>sid. some_area (\<lambda>a. effective_rung r sid a \<noteq> No_rung)) (map fst (tr_perSpace r)))"
    using assms Some by (simp add: editor_scope_for_def split: if_splits)
  have flr: "floor_at r a = No_rung" for a
    using nr [of _ a] by (cases "tr_floor r") (auto simp: floor_at_def)
  show ?thesis
  proof (cases "s \<in> fst ` set (tr_perSpace r)")
    case True
    then have "s \<in> set L \<longleftrightarrow> s \<in> set (admin_spaces r) \<or> (\<exists>a. effective_rung r s a \<noteq> No_rung)"
      by (auto simp: L)
    moreover have "s \<in> set (admin_spaces r) \<Longrightarrow> reaches_space r s"
      by (simp add: reaches_space_def admin_floor_simps)
    ultimately show ?thesis using Some by (auto simp: reaches_def reaches_space_iff)
  next
    case False
    then have row: "map_of (tr_perSpace r) s = None" by (simp add: map_of_eq_None_iff)
    have "s \<in> set L \<longleftrightarrow> s \<in> set (admin_spaces r)" using False by (auto simp: L)
    moreover have "reaches_space r s \<longleftrightarrow> s \<in> set (admin_spaces r)"
    proof -
      have "\<not> (case tr_floor r of None \<Rightarrow> False | Some f \<Rightarrow> some_area (\<lambda>a. or_none (f a) \<noteq> No_rung))"
        using flr by (cases "tr_floor r") (simp_all add: floor_at_def)
      with nf row show ?thesis by (simp add: reaches_space_def admin_floor_simps)
    qed
    ultimately show ?thesis using Some by (simp add: reaches_def)
  qed
qed

lemma scope_restricted: "editor_scope_for (Some t) = Some L \<Longrightarrow> \<exists>s. \<not> reaches t s"
  using scope_listed [of t L] fresh_string [of "set L"] by auto

lemma scope_None_iff: "editor_scope_for (Some t) = None \<longleftrightarrow> (\<forall>s. reaches t s)"
  using scope_unrestricted [of t] scope_restricted [of t] by (cases "editor_scope_for (Some t)") auto

definition instance_wide :: "token_record \<Rightarrow> bool" where
  "instance_wide t \<longleftrightarrow> (case tk_rights t of None \<Rightarrow> False | Some r \<Rightarrow> tr_instanceAdmin r \<or> tr_createSpaces r)"

lemma target_refusals_Nil:
  assumes "editor_scope_for (Some c) = Some L"
  shows "target_refusals L t = [] \<longleftrightarrow>
     truthy_bool (tk_schemaLibrary t) \<or> \<not> instance_wide t \<and> (\<forall>s. reaches t s \<longrightarrow> reaches c s)"
proof (cases "truthy_bool (tk_schemaLibrary t) \<or> instance_wide t")
  case True
  then show ?thesis by (auto simp: target_refusals_def instance_wide_def Let_def split: option.splits)
next
  case False
  then have red: "target_refusals L t = (case editor_scope_for (Some t) of
        None \<Rightarrow> [Unrestricted_target]
      | Some T \<Rightarrow> (let outside = filter (\<lambda>s. s \<notin> set L) T in if length outside > 0 then [Outside_scope outside] else []))"
    by (auto simp: target_refusals_def instance_wide_def Let_def split: option.splits)
  show ?thesis
  proof (cases "editor_scope_for (Some t)")
    case None
    with scope_unrestricted [OF None] scope_restricted [OF assms] red False show ?thesis by auto
  next
    case (Some T)
    have "target_refusals L t = [] \<longleftrightarrow> (\<forall>s \<in> set T. s \<in> set L)"
      by (simp add: red Some Let_def filter_empty_conv)
    also have "\<dots> \<longleftrightarrow> (\<forall>s. reaches t s \<longrightarrow> reaches c s)"
      using scope_listed [OF Some] scope_listed [OF assms] by blast
    finally show ?thesis using False by blast
  qed
qed

section \<open>Properties\<close>

text \<open>
  Property C34: who may manage a token, exactly: an instance administrator or an administrator of some
  space, and then one of three: the caller's own reach is every space; or the token is one of the schema
  library's; or the token holds no instance-wide grant and its reach lies within the caller's. The first
  asks for reach, not administration: a floor of any rung, with one administered space, is enough to manage
  (so to rotate, and read the new secret of) an instance administrator's token.
\<close>

theorem manage_token_exact:
  "may_manage_token (Some c) (Some t) \<longleftrightarrow>
     (is_instance_admin c \<or> administers_any_space (Some c))
     \<and> ((\<forall>s. reaches c s) \<or> truthy_bool (tk_schemaLibrary t)
        \<or> \<not> instance_wide t \<and> {s. reaches t s} \<subseteq> {s. reaches c s})"
proof (cases "editor_scope_for (Some c)")
  case None
  then show ?thesis
    using scope_unrestricted [OF None]
    by (simp add: may_manage_token_def may_manage_tokens_def refusals_to_manage_token_def
        refusals_outside_editor_scope_def)
next
  case (Some L)
  have "may_manage_token (Some c) (Some t) \<longleftrightarrow> may_manage_tokens (Some c) \<and> target_refusals L t = []"
    using Some by (simp add: may_manage_token_def refusals_to_manage_token_def refusals_outside_editor_scope_def)
  then show ?thesis
    using target_refusals_Nil [OF Some, of t] scope_restricted [OF Some]
    by (auto simp: may_manage_tokens_def)
qed

text \<open>
  A token that is not an instance admin leaves a network exactly when the network carries a
  space and, for every space it carries, the token holds admin on networks there, or holds write and is
  the token the membership was recorded under: an unknown establisher is never taken for the caller.
\<close>

theorem leave_is_own_or_admin:
  assumes "\<not> is_instance_admin c" and "tk_rights c = Some r" and "tk_id c = Some me"
  shows "network_leave_refusal c spaces origins = None \<longleftrightarrow>
     spaces \<noteq> [] \<and> (\<forall>s \<in> set spaces.
        effective_rung r s Networks = Admin
        \<or> effective_rung r s Networks = Write \<and> Option.bind origins (\<lambda>m. map_of m s) = Some me)"
proof -
  have "leave_refusals c spaces origins = [] \<longleftrightarrow> (\<forall>s \<in> set spaces.
        effective_rung r s Networks = Admin
        \<or> effective_rung r s Networks = Write \<and> Option.bind origins (\<lambda>m. map_of m s) = Some me)"
  proof -
    have "(case may_leave_network origins s me (effective_rung r s Networks) of
             Leave_refused why \<Rightarrow> [(s, why)] | _ \<Rightarrow> []) = [] \<longleftrightarrow>
        effective_rung r s Networks = Admin
        \<or> effective_rung r s Networks = Write \<and> Option.bind origins (\<lambda>m. map_of m s) = Some me" for s
      by (cases "Option.bind origins (\<lambda>m. map_of m s)") (simp_all add: may_leave_network_def)
    then show ?thesis using assms(2,3) by (simp add: leave_refusals_def Let_def)
  qed
  with assms(1) show ?thesis by (simp add: network_leave_refusal_def Let_def)
qed

lemma below_type_schemas:
  assumes "take 17 field = ''meta.typeSchemas.''"
  shows "requirement_of field \<in> {None, Some (Area_rung Schema Admin)}"
proof -
  have "list_all (\<lambda>e. take 17 (fst e) \<noteq> ''meta.typeSchemas.'') SPACE_FIELD_RIGHTS" by code_simp
  then have "map_of SPACE_FIELD_RIGHTS field = None"
    using assms by (auto simp: list_all_iff map_of_eq_None_iff)
  moreover have "map_of SPACE_FIELD_RIGHTS ''meta.rules'' = Some (Area_rung Schema Admin)" by code_simp
  ultimately show ?thesis by (simp add: requirement_of_def)
qed

lemma meets_Admin: "meets_rung h Admin \<longleftrightarrow> h = Admin"
  by (cases h) (simp_all add: meets_rung_def)

text \<open>
  Editing the rules of a type asks for admin on the schema of that space: an update that passes
  for a caller who is no instance admin, and that names or changes anything below \<open>meta.typeSchemas.\<close>,
  comes from a token whose effective rung there is admin.
\<close>

theorem type_rules_need_schema_admin:
  assumes "refusals_for_space_update body edits space False rights = []"
    and "f \<in> set (settings_fields_in body @ edits)" and "take 17 f = ''meta.typeSchemas.''"
  shows "\<exists>r. rights = Some r \<and> effective_rung r space Schema = Admin"
proof -
  have "\<not> field_refused space rights f"
    using assms(1,2) by (auto simp: refusals_for_space_update_def Let_def filter_empty_conv split: if_splits)
  with below_type_schemas [OF assms(3)] show ?thesis
    by (auto simp: field_refused_def meets_Admin split: option.splits)
qed

section \<open>Witnesses\<close>

definition sample_token :: "token_rights \<Rightarrow> token_record" where
  "sample_token r = \<lparr>tk_id = Some ''me'', tk_admin = None, tk_schemaLibrary = None, tk_rights = Some r\<rparr>"

definition sample_networker :: token_rights where
  "sample_networker = sample_minter\<lparr>tr_perSpace := [(''home'', \<lambda>_. Some Write), (''lab'', \<lambda>_. Some Admin)]\<rparr>"

lemma leave_is_own_or_admin_witness:
  "network_leave_refusal (sample_token sample_networker) [''home'', ''lab''] (Some [(''home'', ''me'')]) = None
   \<and> network_leave_refusal (sample_token sample_networker) [''home''] None \<noteq> None"
proof -
  have t: "\<not> is_instance_admin (sample_token sample_networker)"
    "tk_rights (sample_token sample_networker) = Some sample_networker" "tk_id (sample_token sample_networker) = Some ''me''"
    by (simp_all add: is_instance_admin_def sample_token_def sample_networker_def sample_minter_def)
  have "effective_rung sample_networker ''home'' Networks = Write" "effective_rung sample_networker ''lab'' Networks = Admin"
    by (simp_all add: effective_rung_def with_implications_eq granted_rung_eq administers_def row_at_def floor_at_def
        sample_networker_def sample_minter_def)
  then show ?thesis
    using leave_is_own_or_admin [OF t, of "[''home'', ''lab'']" "Some [(''home'', ''me'')]"]
      leave_is_own_or_admin [OF t, of "[''home'']" None]
    by simp
qed

lemma type_rules_need_schema_admin_witness:
  "effective_rung sample_networker ''lab'' Schema = Admin"
proof -
  let ?f = "''meta.typeSchemas.entity.person.rules''"
  have "refusals_for_space_update [] [?f] ''lab'' False (Some sample_networker) = []"
    by (simp add: refusals_for_space_update_def Let_def field_refused_def requirement_of_def is_type_rules_field_def
        line_break_def SPACE_FIELD_RIGHTS_def meets_rung_def effective_rung_def with_implications_eq granted_rung_eq
        administers_def row_at_def floor_at_def sample_networker_def sample_minter_def)
  from type_rules_need_schema_admin [OF this, of ?f] show ?thesis by simp
qed

end
