(* ===== verification/Mfa.thy ===== *)
theory Mfa
  imports Js_Object "HOL-Library.Word"
begin

unbundle bit_operations_syntax

text \<open>
  The second factor: the one-time code and its single use (\<open>auth/totp.ts\<close>), and the attempt counter
  that locks a token and a trustworthy address after five wrong codes (\<open>auth/code-attempts.ts\<close>).

  The keyed hash of a step's counter (\<open>crypto.createHmac('sha1', ...)\<close>) is the parameter \<open>hmac\<close>, taking
  the key's bytes and the message's; the address rules the counter asks (\<open>isBlockedIp\<close>,
  \<open>clientAddressKey\<close>) arrive as the fields of a request.  The two insertion-ordered maps are the entry
  lists of \<open>Js_Object\<close>; an entry is mutated in place in the source, so a pruned entry is written back to
  the map that holds it.
\<close>

section \<open>The one-time code\<close>

definition BASE32 :: string where
  "BASE32 = ''ABCDEFGHIJKLMNOPQRSTUVWXYZ234567''"

definition upcase :: "char \<Rightarrow> char" where
  "upcase c = (if 97 \<le> (of_char c :: int) \<and> (of_char c :: int) \<le> 122 then char_of ((of_char c :: int) - 32) else c)"

definition five_bits :: "nat \<Rightarrow> bool list" where
  "five_bits v = map (\<lambda>i. odd (v div 2 ^ i)) [4, 3, 2, 1, 0]"

definition bits_value :: "bool list \<Rightarrow> int" where
  "bits_value bs = foldl (\<lambda>n b. 2 * n + (if b then 1 else 0)) 0 bs"

fun base32_bits :: "string \<Rightarrow> bool list" where
  "base32_bits [] = []"
| "base32_bits (c # cs) =
     (case find_index (\<lambda>x. x = c) BASE32 of None \<Rightarrow> base32_bits cs | Some v \<Rightarrow> five_bits v @ base32_bits cs)"

definition base32_decode :: "string \<Rightarrow> int list" where
  "base32_decode input =
     (let cleaned = rev (dropWhile (\<lambda>c. c = CHR ''='') (rev (map upcase input)));
          bits = base32_bits cleaned
      in map (\<lambda>i. bits_value (take 8 (drop (i * 8) bits))) [0..<length bits div 8])"

text \<open>The eight bytes of \<open>writeBigUInt64BE\<close>.\<close>

definition counter_bytes :: "int \<Rightarrow> int list" where
  "counter_bytes n = map (\<lambda>i. n div 2 ^ (8 * i) mod 256) [7, 6, 5, 4, 3, 2, 1, 0]"

text \<open>A byte read past the end is \<open>undefined\<close>, which every bitwise operator reads as 0.\<close>

definition byte_at :: "int list \<Rightarrow> nat \<Rightarrow> int" where
  "byte_at xs i = (if i < length xs then xs ! i else 0)"

fun decimal_digits :: "nat \<Rightarrow> int \<Rightarrow> string" where
  "decimal_digits 0 n = []"
| "decimal_digits (Suc k) n = decimal_digits k (n div 10) @ [char_of (48 + n mod 10)]"

text \<open>The number below \<open>10 ^ 6\<close> padded to six digits is its six decimal digits.\<close>

definition compute_totp :: "(int list \<Rightarrow> int list \<Rightarrow> int list) \<Rightarrow> string \<Rightarrow> int \<Rightarrow> string" where
  "compute_totp hmac secret epoch =
     (let mac = hmac (base32_decode secret) (counter_bytes (epoch div 30));
          offset = nat (byte_at mac (length mac - 1) AND 0x0f);
          code = (push_bit 24 (byte_at mac offset AND 0x7f)
                  OR push_bit 16 (byte_at mac (offset + 1))
                  OR push_bit 8 (byte_at mac (offset + 2))
                  OR byte_at mac (offset + 3)) mod 10 ^ 6
      in decimal_digits 6 code)"

record secrets =
  totpSecret :: "string option"
  totpLastStep :: "int option"

datatype mfa_verdict = Ok_code | Wrong_code | Replayed | Stale_code | Unset_secret

definition TOTP_STEP_SECONDS :: int where "TOTP_STEP_SECONDS = 30"

definition STALE_STEPS_BACK :: int where "STALE_STEPS_BACK = 30"

definition normalized_code :: "string \<Rightarrow> string" where
  "normalized_code code = take 6 (replicate (6 - length code) CHR ''0'' @ code)"

text \<open>The loop over the three windows: the last match stands; -1 when none does.\<close>

definition matched_step :: "(int \<Rightarrow> string) \<Rightarrow> string \<Rightarrow> int \<Rightarrow> int" where
  "matched_step totp code now =
     foldl (\<lambda>m off. if totp (now + off) = code then (now + off) div TOTP_STEP_SECONDS else m) (-1)
       [- TOTP_STEP_SECONDS, 0, TOTP_STEP_SECONDS]"

definition matches_stale :: "(int \<Rightarrow> string) \<Rightarrow> string \<Rightarrow> int \<Rightarrow> bool" where
  "matches_stale totp code now =
     list_ex (\<lambda>back. totp (now - back * TOTP_STEP_SECONDS) = code) [2..STALE_STEPS_BACK]"

definition judge_mfa_code ::
  "(int list \<Rightarrow> int list \<Rightarrow> int list) \<Rightarrow> int \<Rightarrow> secrets \<Rightarrow> string \<Rightarrow> secrets \<times> mfa_verdict" where
  "judge_mfa_code hmac now_seconds secrets code =
     (if \<not> truthy_str (totpSecret secrets) then (secrets, Unset_secret)
      else
        let totp = compute_totp hmac (the (totpSecret secrets));
            normalized = normalized_code code;
            step = matched_step totp normalized now_seconds
        in if step < 0 then (secrets, if matches_stale totp normalized now_seconds then Stale_code else Wrong_code)
           else if step \<le> (case totpLastStep secrets of None \<Rightarrow> -1 | Some l \<Rightarrow> l) then (secrets, Replayed)
           else (secrets\<lparr>totpLastStep := Some step\<rparr>, Ok_code))"

definition enable_mfa :: "string \<Rightarrow> secrets \<Rightarrow> secrets" where
  "enable_mfa secret s = s\<lparr>totpSecret := Some secret, totpLastStep := None\<rparr>"

definition disable_mfa :: "secrets \<Rightarrow> secrets" where
  "disable_mfa s = s\<lparr>totpSecret := None, totpLastStep := None\<rparr>"

definition verify_mfa_code ::
  "(int list \<Rightarrow> int list \<Rightarrow> int list) \<Rightarrow> int \<Rightarrow> secrets \<Rightarrow> string \<Rightarrow> secrets \<times> bool" where
  "verify_mfa_code hmac now_seconds s code =
     (case judge_mfa_code hmac now_seconds s code of (s', v) \<Rightarrow> (s', v = Ok_code))"

section \<open>The attempt counter\<close>

definition MFA_FAILURES_MAX :: nat where "MFA_FAILURES_MAX = 5"

definition MFA_LOCKOUT_WINDOW_MS :: int where "MFA_LOCKOUT_WINDOW_MS = 15 * 60000"

definition MFA_KEYS_MAX :: nat where "MFA_KEYS_MAX = 10000"

datatype mfa_lock_key = Token_key | Address_key

datatype mfa_attempt = Code_ok | Code_invalid | Locked mfa_lock_key int

record mfa_table =
  open_keys :: "(string, int list) es_map"
  locked_keys :: "(string, int list) es_map"

datatype mfa_event = Lock_started mfa_lock_key string | Failure_not_recorded

definition no_attempts :: mfa_table where
  "no_attempts = \<lparr>open_keys = [], locked_keys = []\<rparr>"

definition entry_of :: "mfa_table \<Rightarrow> string \<Rightarrow> int list option" where
  "entry_of t key = (case map_of (open_keys t) key of Some e \<Rightarrow> Some e | None \<Rightarrow> map_of (locked_keys t) key)"

definition prune_failures :: "int list \<Rightarrow> int \<Rightarrow> int list" where
  "prune_failures failures now = dropWhile (\<lambda>f. f \<le> now - MFA_LOCKOUT_WINDOW_MS) failures"

text \<open>The mutated entry, in the map that holds it.\<close>

definition write_entry :: "string \<Rightarrow> int list \<Rightarrow> mfa_table \<Rightarrow> mfa_table" where
  "write_entry key e t =
     (if map_of (open_keys t) key \<noteq> None then t\<lparr>open_keys := map_put key e (open_keys t)\<rparr>
      else t\<lparr>locked_keys := map_put key e (locked_keys t)\<rparr>)"

definition drop_key :: "string \<Rightarrow> mfa_table \<Rightarrow> mfa_table" where
  "drop_key key t = t\<lparr>open_keys := map_del key (open_keys t), locked_keys := map_del key (locked_keys t)\<rparr>"

definition lock_seconds_of :: "mfa_table \<Rightarrow> string \<Rightarrow> int \<Rightarrow> mfa_table \<times> int option" where
  "lock_seconds_of t key now =
     (case entry_of t key of None \<Rightarrow> (t, None)
      | Some e \<Rightarrow>
          (let failures = prune_failures e now in
           if length failures = 0 then (drop_key key t, None)
           else if length failures < MFA_FAILURES_MAX then (write_entry key failures t, None)
           else (write_entry key failures t,
                 Some (max 1 \<lceil>of_int (hd failures + MFA_LOCKOUT_WINDOW_MS - now) / (1000 :: rat)\<rceil>))))"

definition make_room :: "mfa_table \<Rightarrow> int \<Rightarrow> mfa_table \<times> bool" where
  "make_room t now =
     (if length (open_keys t) + length (locked_keys t) < MFA_KEYS_MAX then (t, True)
      else case open_keys t of
        (oldest, e) # rest \<Rightarrow> (t\<lparr>open_keys := map_del oldest (open_keys t)\<rparr>, True)
      | [] \<Rightarrow>
          (case locked_keys t of
             (key, e) # rest \<Rightarrow>
               (let failures = prune_failures e now;
                    t' = t\<lparr>locked_keys := map_put key failures (locked_keys t)\<rparr>
                in if length failures < MFA_FAILURES_MAX
                   then (t'\<lparr>locked_keys := map_del key (locked_keys t')\<rparr>, True)
                   else (t', False))
           | [] \<Rightarrow> (t, False)))"

text \<open>The failures a new one is added to, with the key's old place given up; \<open>None\<close> when there is no room.\<close>

definition place_for :: "mfa_table \<Rightarrow> string \<Rightarrow> int \<Rightarrow> mfa_table \<times> int list option" where
  "place_for t key now =
     (case entry_of t key of
        Some e \<Rightarrow> (drop_key key t, Some (prune_failures e now))
      | None \<Rightarrow> (case make_room t now of (t', room) \<Rightarrow> (t', if room then Some [] else None)))"

definition record_failure ::
  "mfa_table \<Rightarrow> string \<Rightarrow> mfa_lock_key \<Rightarrow> string \<Rightarrow> int \<Rightarrow> mfa_table \<times> mfa_event list" where
  "record_failure t key kind token_id now =
     (case place_for t key now of
        (t', None) \<Rightarrow> (t', [Failure_not_recorded])
      | (t', Some before) \<Rightarrow>
          (let failures = before @ [now] in
           if length failures \<ge> MFA_FAILURES_MAX
           then (t'\<lparr>locked_keys := map_put key failures (locked_keys t')\<rparr>,
                 if length failures = MFA_FAILURES_MAX then [Lock_started kind token_id] else [])
           else (t'\<lparr>open_keys := map_put key failures (open_keys t')\<rparr>, [])))"

record mfa_request =
  q_trustProxy :: bool
  q_socketAddress :: "string option"
  q_socketBlocked :: bool
  q_addressKey :: string

definition address_is_trustworthy :: "mfa_request \<Rightarrow> bool" where
  "address_is_trustworthy req =
     (if q_trustProxy req then True
      else q_socketAddress req \<noteq> None \<and> q_socketAddress req \<noteq> Some [] \<and> \<not> q_socketBlocked req)"

definition token_key :: "string \<Rightarrow> string" where "token_key token_id = ''t:'' @ token_id"

definition address_key :: "mfa_request \<Rightarrow> string option" where
  "address_key req = (if address_is_trustworthy req then Some (''a:'' @ q_addressKey req) else None)"

definition mfa_lock_of_token :: "mfa_table \<Rightarrow> string \<Rightarrow> int \<Rightarrow> mfa_table \<times> mfa_attempt option" where
  "mfa_lock_of_token t token_id now =
     (case lock_seconds_of t (token_key token_id) now of
        (t', seconds) \<Rightarrow> (t', map_option (Locked Token_key) seconds))"

text \<open>The verdict of a code judged at this point: recorded when it is wrong.\<close>

definition judged ::
  "mfa_table \<Rightarrow> secrets \<times> mfa_verdict \<Rightarrow> string \<Rightarrow> string option \<Rightarrow> int
     \<Rightarrow> mfa_table \<times> secrets \<times> mfa_attempt \<times> mfa_event list" where
  "judged t verdict token_id akey now =
     (case verdict of (s', v) \<Rightarrow>
        if v = Ok_code then (t, s', Code_ok, [])
        else if v = Wrong_code then
          (case record_failure t (token_key token_id) Token_key token_id now of
             (t', ev) \<Rightarrow>
               (case akey of
                  None \<Rightarrow> (t', s', Code_invalid, ev)
                | Some k \<Rightarrow>
                    (case record_failure t' k Address_key token_id now of
                       (t'', ev') \<Rightarrow> (t'', s', Code_invalid, ev @ ev'))))
        else (t, s', Code_invalid, []))"

definition try_mfa_code ::
  "(secrets \<Rightarrow> string \<Rightarrow> secrets \<times> mfa_verdict) \<Rightarrow> string \<Rightarrow> string \<Rightarrow> mfa_request \<Rightarrow> int
     \<Rightarrow> mfa_table \<Rightarrow> secrets \<Rightarrow> mfa_table \<times> secrets \<times> mfa_attempt \<times> mfa_event list" where
  "try_mfa_code judge code token_id req now t s =
     (case lock_seconds_of t (token_key token_id) now of
        (t', Some seconds) \<Rightarrow> (t', s, Locked Token_key seconds, [])
      | (t', None) \<Rightarrow>
          (case address_key req of
             None \<Rightarrow> judged t' (judge s code) token_id None now
           | Some k \<Rightarrow>
               (case lock_seconds_of t' k now of
                  (t'', Some seconds) \<Rightarrow> (t'', s, Locked Address_key seconds, [])
                | (t'', None) \<Rightarrow> judged t'' (judge s code) token_id (Some k) now)))"

text \<open>A run of attempts by anybody.\<close>

record attempt =
  a_code :: string
  a_token :: string
  a_request :: mfa_request
  a_now :: int

definition attempt_step ::
  "(int list \<Rightarrow> int list \<Rightarrow> int list) \<Rightarrow> mfa_table \<times> secrets \<Rightarrow> attempt \<Rightarrow> mfa_table \<times> secrets" where
  "attempt_step hmac ts a =
     (case try_mfa_code (judge_mfa_code hmac (a_now a div 1000)) (a_code a) (a_token a) (a_request a) (a_now a)
        (fst ts) (snd ts) of (t', s', _, _) \<Rightarrow> (t', s'))"

definition run_attempts ::
  "(int list \<Rightarrow> int list \<Rightarrow> int list) \<Rightarrow> attempt list \<Rightarrow> mfa_table \<times> secrets \<Rightarrow> mfa_table \<times> secrets" where
  "run_attempts hmac as ts = foldl (attempt_step hmac) ts as"

section \<open>The table's invariant\<close>

definition table_size :: "mfa_table \<Rightarrow> nat" where
  "table_size t = length (open_keys t) + length (locked_keys t)"

definition table_ok :: "mfa_table \<Rightarrow> bool" where
  "table_ok t \<longleftrightarrow> entries_ok (open_keys t) \<and> entries_ok (locked_keys t)
     \<and> fst ` set (open_keys t) \<inter> fst ` set (locked_keys t) = {}
     \<and> (\<forall>e \<in> set (open_keys t). length (snd e) < MFA_FAILURES_MAX)
     \<and> table_size t \<le> MFA_KEYS_MAX"

lemma entries_ok_es: "entries_ok m \<Longrightarrow> entries_ok (map_put k v m)" "entries_ok m \<Longrightarrow> entries_ok (map_del k m)"
  by (simp_all add: es.ok_put es.ok_del)

lemma map_of_None_keys: "map_of m k = None \<longleftrightarrow> k \<notin> fst ` set m"
  by (simp add: map_of_eq_None_iff)

lemma keys_put: "fst ` set (map_put k v m) = insert k (fst ` set m)"
  using keys_map_put [of k v m] by simp

lemma keys_del: "fst ` set (map_del k m) = fst ` set m - {k}"
  by (auto simp: map_del_def)

lemma length_put:
  "entries_ok m \<Longrightarrow> length (map_put k v m) = (if k \<in> fst ` set m then length m else Suc (length m))"
  using es.size_put [of m k v] by (simp add: entry_keys_def map_of_None_keys)

lemma length_del:
  "entries_ok m \<Longrightarrow> length (map_del k m) = (if k \<in> fst ` set m then length m - 1 else length m)"
  using es.size_del [of m k] by (simp add: entry_keys_def map_of_None_keys)

lemma set_put: "e \<in> set (map_put k v m) \<Longrightarrow> e = (k, v) \<or> e \<in> set m"
  by (induction m) (auto split: if_splits)

lemma entry_of_None: "entry_of t key = None \<longleftrightarrow> key \<notin> fst ` set (open_keys t) \<and> key \<notin> fst ` set (locked_keys t)"
  by (simp add: entry_of_def map_of_None_keys [symmetric] split: option.split)

lemma set_del: "set (map_del k m) \<subseteq> set m"
  by (auto simp: map_del_def)

lemma prune_shorter: "length (prune_failures e now) \<le> length e"
  by (simp add: prune_failures_def length_dropWhile_le)

lemma table_ok_write:
  assumes "table_ok t" and "entry_of t key = Some e" and "length e' \<le> length e"
  shows "table_ok (write_entry key e' t) \<and> table_size (write_entry key e' t) = table_size t"
proof (cases "map_of (open_keys t) key")
  case None
  with assms(2) have "key \<in> fst ` set (locked_keys t)" "key \<notin> fst ` set (open_keys t)"
    using entry_of_None [of t key] by (auto simp: map_of_None_keys)
  with assms(1) None show ?thesis
    by (auto simp: table_ok_def write_entry_def table_size_def entries_ok_es length_put keys_put)
next
  case (Some f)
  with assms(2) have "f = e" by (simp add: entry_of_def)
  with Some have "(key, e) \<in> set (open_keys t)" by (simp add: map_of_SomeD)
  with assms have "length e' < MFA_FAILURES_MAX" "key \<in> fst ` set (open_keys t)"
    by (force simp: table_ok_def)+
  with assms(1) Some show ?thesis
    by (auto simp: table_ok_def write_entry_def table_size_def entries_ok_es length_put keys_put insert_absorb dest!: set_put)
qed

lemma table_ok_drop:
  assumes "table_ok t"
  shows "table_ok (drop_key key t) \<and> table_size (drop_key key t) \<le> table_size t
    \<and> (entry_of t key \<noteq> None \<longrightarrow> table_size (drop_key key t) < table_size t) \<and> entry_of (drop_key key t) key = None"
proof -
  have nd: "entries_ok (open_keys t)" "entries_ok (locked_keys t)" using assms by (simp_all add: table_ok_def)
  have le1: "length (map_del key m) \<le> length m" for m :: "(string, int list) es_map"
    by (simp add: map_del_def)
  have less1: "key \<in> fst ` set m \<Longrightarrow> entries_ok m \<Longrightarrow> length (map_del key m) < length m" for m :: "(string, int list) es_map"
    by (cases m) (simp_all add: length_del)
  have lt: "entry_of t key \<noteq> None \<longrightarrow> table_size (drop_key key t) < table_size t"
  proof
    assume "entry_of t key \<noteq> None"
    then consider "key \<in> fst ` set (open_keys t)" | "key \<in> fst ` set (locked_keys t)"
      using entry_of_None [of t key] by argo
    then show "table_size (drop_key key t) < table_size t"
      using less1 [OF _ nd(1)] less1 [OF _ nd(2)] le1 [of "open_keys t"] le1 [of "locked_keys t"]
      by cases (simp_all add: table_size_def drop_key_def add_less_le_mono add_le_less_mono)
  qed
  have le: "table_size (drop_key key t) \<le> table_size t"
    using le1 [of "open_keys t"] le1 [of "locked_keys t"] by (simp add: table_size_def drop_key_def)
  have "entry_of (drop_key key t) key = None"
    by (simp add: entry_of_def drop_key_def map_of_map_del)
  moreover have "table_ok (drop_key key t)"
    using assms le set_del [of key "open_keys t"]
    by (auto simp: table_ok_def drop_key_def entries_ok_es keys_del table_size_def)
  ultimately show ?thesis using lt le by blast
qed

lemma lock_seconds_ok:
  assumes "table_ok t"
  shows "table_ok (fst (lock_seconds_of t key now))"
proof (cases "entry_of t key")
  case None
  with assms show ?thesis by (simp add: lock_seconds_of_def)
next
  case (Some e)
  with table_ok_drop [OF assms, of key] table_ok_write [OF assms Some prune_shorter, of now] show ?thesis
    by (simp add: lock_seconds_of_def Let_def)
qed

lemma make_room_ok:
  assumes "table_ok t"
  shows "table_ok (fst (make_room t now)) \<and> (snd (make_room t now) \<longrightarrow> table_size (fst (make_room t now)) < MFA_KEYS_MAX)
    \<and> fst ` set (open_keys (fst (make_room t now))) \<subseteq> fst ` set (open_keys t)
    \<and> fst ` set (locked_keys (fst (make_room t now))) \<subseteq> fst ` set (locked_keys t)"
proof (cases "table_size t < MFA_KEYS_MAX")
  case True
  with assms show ?thesis by (simp add: make_room_def table_size_def)
next
  case False
  then have full: "\<not> length (open_keys t) + length (locked_keys t) < MFA_KEYS_MAX" by (simp add: table_size_def)
  have nd: "entries_ok (open_keys t)" "entries_ok (locked_keys t)" and cap: "table_size t \<le> MFA_KEYS_MAX"
    using assms by (simp_all add: table_ok_def)
  show ?thesis
  proof (cases "open_keys t")
    case (Cons x rest)
    obtain oldest e where x: "x = (oldest, e)" by force
    have room: "make_room t now = (t\<lparr>open_keys := map_del oldest (open_keys t)\<rparr>, True)"
      using full Cons x by (simp add: make_room_def)
    have "length (map_del oldest (open_keys t)) < length (open_keys t)"
      using length_del [OF nd(1), of oldest] Cons x by simp
    with cap have "table_size (t\<lparr>open_keys := map_del oldest (open_keys t)\<rparr>) < MFA_KEYS_MAX"
      by (simp add: table_size_def)
    then show ?thesis
      using assms set_del [of oldest "open_keys t"] by (auto simp: room table_ok_def entries_ok_es keys_del)
  next
    case Nil
    show ?thesis
    proof (cases "locked_keys t")
      case Nil2: Nil
      with Nil full have "make_room t now = (t, False)" by (simp add: make_room_def)
      with assms show ?thesis by simp
    next
      case (Cons x rest)
      obtain key e where x: "x = (key, e)" by force
      let ?t = "t\<lparr>locked_keys := map_put key (prune_failures e now) (locked_keys t)\<rparr>"
      have room: "make_room t now = (if length (prune_failures e now) < MFA_FAILURES_MAX
          then (?t\<lparr>locked_keys := map_del key (locked_keys ?t)\<rparr>, True) else (?t, False))"
        using full Nil Cons x by (simp add: make_room_def Let_def)
      have key: "key \<in> fst ` set (locked_keys t)" using Cons x by simp
      have ok: "table_ok ?t" and len: "length (locked_keys ?t) = length (locked_keys t)"
        using assms key Nil by (auto simp: table_ok_def table_size_def entries_ok_es length_put keys_put insert_absorb)
      have "length (map_del key (locked_keys ?t)) < length (locked_keys t)"
        using length_del [of "locked_keys ?t" key] len key nd(2) Cons
        by (simp add: entries_ok_es keys_put)
      with cap Nil have small: "table_size (?t\<lparr>locked_keys := map_del key (locked_keys ?t)\<rparr>) < MFA_KEYS_MAX"
        by (simp add: table_size_def)
      have "table_ok (?t\<lparr>locked_keys := map_del key (locked_keys ?t)\<rparr>)"
        using ok small Nil by (auto simp: table_ok_def entries_ok_es keys_del)
      moreover have "fst ` set (map_del key (locked_keys ?t)) \<subseteq> fst ` set (locked_keys t)"
        "fst ` set (locked_keys ?t) \<subseteq> fst ` set (locked_keys t)"
        using key by (auto simp: keys_del keys_put)
      ultimately show ?thesis using ok small by (auto simp: room)
    qed
  qed
qed

lemma place_for_ok:
  assumes "table_ok t" and "place_for t key now = (t', Some before)"
  shows "table_ok t' \<and> table_size t' < MFA_KEYS_MAX \<and> entry_of t' key = None"
proof (cases "entry_of t key")
  case None
  with assms(2) have "t' = fst (make_room t now)" "snd (make_room t now)"
    by (auto simp: place_for_def split: prod.splits if_splits)
  with make_room_ok [OF assms(1), of now] None show ?thesis
    by (auto simp: entry_of_None)
next
  case (Some e)
  with assms(2) have "t' = drop_key key t" by (simp add: place_for_def)
  with table_ok_drop [OF assms(1), of key] Some assms(1) show ?thesis
    by (auto simp: table_ok_def)
qed

lemma place_for_full: "table_ok t \<Longrightarrow> table_ok (fst (place_for t key now))"
  using make_room_ok [of t now] table_ok_drop [of t key]
  by (cases "entry_of t key") (simp_all add: place_for_def split_beta)

lemma record_failure_ok:
  assumes "table_ok t"
  shows "table_ok (fst (record_failure t key kind i now))"
proof (cases "place_for t key now")
  case (Pair t' place)
  show ?thesis
  proof (cases place)
    case None
    with Pair place_for_full [OF assms, of key now] show ?thesis by (simp add: record_failure_def)
  next
    case (Some before)
    from place_for_ok [OF assms, of key now t' before] Pair Some
    have t': "table_ok t'" "table_size t' < MFA_KEYS_MAX" "entry_of t' key = None" by simp_all
    then have "table_ok (t'\<lparr>locked_keys := map_put key (before @ [now]) (locked_keys t')\<rparr>)"
      by (auto simp: table_ok_def table_size_def entries_ok_es length_put keys_put entry_of_None)
    moreover have "table_ok (t'\<lparr>open_keys := map_put key (before @ [now]) (open_keys t')\<rparr>)"
      if "length (before @ [now]) < MFA_FAILURES_MAX"
      using t' that by (auto simp: table_ok_def table_size_def entries_ok_es length_put keys_put entry_of_None dest!: set_put)
    ultimately show ?thesis using Pair Some by (simp add: record_failure_def Let_def not_le)
  qed
qed

lemma judged_ok: "table_ok t \<Longrightarrow> table_ok (fst (judged t v i k now))"
  by (simp add: judged_def split_beta record_failure_ok split: option.split)

lemma try_ok: "table_ok t \<Longrightarrow> table_ok (fst (try_mfa_code judge code i req now t s))"
  by (simp add: try_mfa_code_def split_beta judged_ok lock_seconds_ok split: option.split)

lemma step_ok: "table_ok (fst ts) \<Longrightarrow> table_ok (fst (attempt_step hmac ts a))"
  using try_ok [of "fst ts" "judge_mfa_code hmac (a_now a div 1000)" "a_code a" "a_token a" "a_request a" "a_now a" "snd ts"]
  by (simp add: attempt_step_def split_beta)

lemma run_ok: "table_ok (fst ts) \<Longrightarrow> table_ok (fst (run_attempts hmac as ts))"
  by (induction as arbitrary: ts) (simp_all add: run_attempts_def step_ok)

lemma no_attempts_ok: "table_ok no_attempts"
  by (simp add: table_ok_def no_attempts_def entries_ok_def table_size_def)

section \<open>A running lock\<close>

text \<open>The key is locked and stays so for whoever asks up to the instant \<open>until\<close>.\<close>

definition locked_through :: "mfa_table \<Rightarrow> string \<Rightarrow> int \<Rightarrow> bool" where
  "locked_through t key until \<longleftrightarrow> map_of (open_keys t) key = None
     \<and> (\<exists>e. map_of (locked_keys t) key = Some e \<and> MFA_FAILURES_MAX \<le> length e
           \<and> hd e > until - MFA_LOCKOUT_WINDOW_MS)"

lemma prune_id: "e \<noteq> [] \<Longrightarrow> hd e > now - MFA_LOCKOUT_WINDOW_MS \<Longrightarrow> prune_failures e now = e"
  by (cases e) (simp_all add: prune_failures_def)

lemma locked_through_asked:
  assumes "locked_through t key until" and "now \<le> until"
  shows "\<exists>n. snd (lock_seconds_of t key now) = Some n"
proof -
  obtain e where e: "map_of (open_keys t) key = None" "map_of (locked_keys t) key = Some e"
    "MFA_FAILURES_MAX \<le> length e" "hd e > until - MFA_LOCKOUT_WINDOW_MS"
    using assms(1) by (auto simp: locked_through_def)
  then have "prune_failures e now = e" using assms(2) by (intro prune_id) (auto simp: MFA_FAILURES_MAX_def)
  with e show ?thesis by (auto simp: lock_seconds_of_def entry_of_def Let_def MFA_FAILURES_MAX_def)
qed

text \<open>Asking about a key, the locked one or another, leaves a running lock running.\<close>

lemma locked_through_lock_seconds:
  assumes "locked_through t key until" and "now \<le> until"
  shows "locked_through (fst (lock_seconds_of t k now)) key until"
proof -
  obtain e where e: "map_of (open_keys t) key = None" "map_of (locked_keys t) key = Some e"
    "MFA_FAILURES_MAX \<le> length e" "hd e > until - MFA_LOCKOUT_WINDOW_MS"
    using assms(1) by (auto simp: locked_through_def)
  have pe: "prune_failures e now = e" using e assms(2) by (intro prune_id) (auto simp: MFA_FAILURES_MAX_def)
  show ?thesis
  proof (cases "k = key")
    case True
    with e pe have "fst (lock_seconds_of t k now) = write_entry key e t"
      by (auto simp: lock_seconds_of_def entry_of_def Let_def MFA_FAILURES_MAX_def)
    with e show ?thesis by (simp add: locked_through_def write_entry_def map_of_map_put)
  next
    case False
    with e show ?thesis
      by (auto simp: lock_seconds_of_def Let_def locked_through_def write_entry_def drop_key_def map_of_map_put
          map_of_map_del split: option.splits)
  qed
qed

lemma locked_through_place:
  assumes "locked_through t key until" and "now \<le> until" and "k \<noteq> key"
  shows "locked_through (fst (place_for t k now)) key until"
proof (cases "entry_of t k")
  case (Some f)
  with assms(1,3) show ?thesis
    by (auto simp: place_for_def drop_key_def locked_through_def map_of_map_del)
next
  case None
  obtain e where e: "map_of (open_keys t) key = None" "map_of (locked_keys t) key = Some e"
    "MFA_FAILURES_MAX \<le> length e" "hd e > until - MFA_LOCKOUT_WINDOW_MS"
    using assms(1) by (auto simp: locked_through_def)
  have "locked_through (fst (make_room t now)) key until"
  proof (cases "open_keys t")
    case (Cons x rest)
    with e show ?thesis
      by (cases x) (auto simp: make_room_def locked_through_def map_of_map_del)
  next
    case Nil
    show ?thesis
    proof (cases "locked_keys t")
      case (Cons y rest)
      obtain j f where y: "y = (j, f)" by force
      show ?thesis
      proof (cases "j = key")
        case True
        with e Cons y have "f = e" by simp
        moreover have "prune_failures e now = e"
          using e assms(2) by (intro prune_id) (auto simp: MFA_FAILURES_MAX_def)
        ultimately show ?thesis
          using True Nil Cons y e
          by (auto simp: make_room_def Let_def locked_through_def map_of_map_put)
      next
        case False
        then show ?thesis
          using Nil Cons y e
          by (auto simp: make_room_def Let_def locked_through_def map_of_map_put map_of_map_del)
      qed
    qed (use Nil e in simp)
  qed
  with None show ?thesis by (simp add: place_for_def split_beta)
qed

lemma locked_through_record:
  assumes "locked_through t key until" and "now \<le> until" and "k \<noteq> key"
  shows "locked_through (fst (record_failure t k kind i now)) key until"
  using locked_through_place [OF assms] assms(3)
  by (auto simp: record_failure_def Let_def split_beta locked_through_def map_of_map_put split: option.split)

lemma keys_apart: "token_key i \<noteq> k" if "address_key req = Some k"
  using that by (auto simp: token_key_def address_key_def split: if_splits)

lemma locked_through_try:
  assumes "locked_through t (token_key i) until" and "now \<le> until"
  shows "locked_through (fst (try_mfa_code judge code j req now t s)) (token_key i) until"
proof (cases "j = i")
  case True
  obtain n where "snd (lock_seconds_of t (token_key i) now) = Some n"
    using locked_through_asked [OF assms] by blast
  with True have "fst (try_mfa_code judge code j req now t s) = fst (lock_seconds_of t (token_key i) now)"
    by (simp add: try_mfa_code_def split_beta)
  with locked_through_lock_seconds [OF assms] show ?thesis by simp
next
  case False
  then have j: "token_key j \<noteq> token_key i" by (simp add: token_key_def)
  have other: "locked_through (fst (judged t' v j k now)) (token_key i) until"
    if "locked_through t' (token_key i) until" "\<forall>x. k = Some x \<longrightarrow> x \<noteq> token_key i" for t' v k
    using that by (auto simp: judged_def split_beta j locked_through_record assms(2) split: option.split)
  let ?t = "fst (lock_seconds_of t (token_key j) now)"
  have t1: "locked_through ?t (token_key i) until" by (rule locked_through_lock_seconds [OF assms])
  show ?thesis
  proof (cases "address_key req")
    case None
    with t1 other [of ?t None "judge s code"] show ?thesis
      by (simp add: try_mfa_code_def split_beta split: option.split)
  next
    case (Some k)
    have t2: "locked_through (fst (lock_seconds_of ?t k now)) (token_key i) until"
      by (rule locked_through_lock_seconds [OF t1 assms(2)])
    have "k \<noteq> token_key i" using keys_apart [OF Some, of i] by simp
    with Some t1 t2 other [of "fst (lock_seconds_of ?t k now)" "Some k" "judge s code"] show ?thesis
      by (simp add: try_mfa_code_def split_beta split: option.split)
  qed
qed

lemma locked_through_step:
  assumes "locked_through (fst ts) (token_key i) until" and "a_now a \<le> until"
  shows "locked_through (fst (attempt_step hmac ts a)) (token_key i) until"
  using locked_through_try [OF assms] by (simp add: attempt_step_def split_beta)

lemma locked_through_run:
  "locked_through (fst ts) (token_key i) until \<Longrightarrow> \<forall>a \<in> set as. a_now a \<le> until
     \<Longrightarrow> locked_through (fst (run_attempts hmac as ts)) (token_key i) until"
  by (induction as arbitrary: ts) (simp_all add: run_attempts_def locked_through_step)

text \<open>A lock announced with \<open>n\<close> seconds to go runs for at least \<open>n - 1\<close> of them.\<close>

lemma announced_lock:
  assumes "table_ok t" and "lock_seconds_of t key now = (t', Some n)"
  shows "locked_through t' key (now + (n - 1) * 1000)"
proof -
  obtain e where e: "entry_of t key = Some e" and long: "MFA_FAILURES_MAX \<le> length (prune_failures e now)"
    and t': "t' = write_entry key (prune_failures e now) t"
    and n: "n = max 1 \<lceil>of_int (hd (prune_failures e now) + MFA_LOCKOUT_WINDOW_MS - now) / (1000 :: rat)\<rceil>"
    using assms(2) by (auto simp: lock_seconds_of_def Let_def split: option.splits if_splits)
  let ?p = "prune_failures e now"
  have "map_of (open_keys t) key = None"
  proof (rule ccontr)
    assume "map_of (open_keys t) key \<noteq> None"
    with e have "(key, e) \<in> set (open_keys t)" by (auto simp: entry_of_def map_of_SomeD)
    with assms(1) have "length e < MFA_FAILURES_MAX" by (force simp: table_ok_def)
    with long prune_shorter [of e now] show False by simp
  qed
  moreover have "hd ?p > now - MFA_LOCKOUT_WINDOW_MS"
  proof -
    have "?p \<noteq> []" using long by (auto simp: MFA_FAILURES_MAX_def)
    from hd_dropWhile [OF this [unfolded prune_failures_def]] show ?thesis by (simp add: prune_failures_def)
  qed
  moreover have "hd ?p > now + (n - 1) * 1000 - MFA_LOCKOUT_WINDOW_MS" if "n \<noteq> 1"
  proof -
    have "of_int (n - 1) < of_int (hd ?p + MFA_LOCKOUT_WINDOW_MS - now) / (1000 :: rat)"
      using n that ceiling_correct [of "of_int (hd ?p + MFA_LOCKOUT_WINDOW_MS - now) / (1000 :: rat)"]
      by (auto simp: max_def split: if_splits)
    then have "of_int ((n - 1) * 1000) < (of_int (hd ?p + MFA_LOCKOUT_WINDOW_MS - now) :: rat)"
      by (simp add: less_divide_eq)
    then show ?thesis by (simp only: of_int_less_iff)
  qed
  ultimately show ?thesis
    using long by (cases "n = 1") (auto simp: t' locked_through_def write_entry_def map_of_map_put)
qed

section \<open>Single use\<close>

lemma judge_mfa_cases:
  "judge_mfa_code hmac n s code = (s', v) \<Longrightarrow>
     (s' = s \<and> v \<noteq> Ok_code) \<or>
     (\<exists>secret k. totpSecret s = Some secret \<and> k = matched_step (compute_totp hmac secret) (normalized_code code) n
        \<and> 0 \<le> k \<and> (case totpLastStep s of None \<Rightarrow> -1 | Some l \<Rightarrow> l) < k
        \<and> s' = s\<lparr>totpLastStep := Some k\<rparr> \<and> v = Ok_code)"
  by (cases "totpSecret s") (auto simp: judge_mfa_code_def Let_def not_le split: if_splits)

text \<open>A code depends on its step alone, so a matched step is one whose code it is.\<close>

lemma matched_step_code:
  "0 \<le> matched_step (compute_totp hmac secret) code n \<Longrightarrow>
     compute_totp hmac secret (30 * matched_step (compute_totp hmac secret) code n) = code"
proof -
  have step: "compute_totp hmac secret (30 * (e div 30)) = compute_totp hmac secret e" for e
    by (simp add: compute_totp_def)
  assume "0 \<le> matched_step (compute_totp hmac secret) code n"
  then have "\<exists>e. compute_totp hmac secret e = code \<and> matched_step (compute_totp hmac secret) code n = e div 30"
    by (auto simp: matched_step_def TOTP_STEP_SECONDS_def split: if_splits)
  then show ?thesis using step by metis
qed

definition last_step :: "secrets \<Rightarrow> int" where
  "last_step s = (case totpLastStep s of None \<Rightarrow> -1 | Some l \<Rightarrow> l)"

text \<open>\<open>s'\<close> keeps the secret and has consumed at least what \<open>s\<close> has.\<close>

definition moves_on :: "secrets \<Rightarrow> secrets \<Rightarrow> bool" where
  "moves_on s s' \<longleftrightarrow> totpSecret s' = totpSecret s \<and> last_step s \<le> last_step s'"

lemma moves_on_refl [simp]: "moves_on s s"
  by (simp add: moves_on_def)

lemma moves_on_trans: "moves_on a b \<Longrightarrow> moves_on b c \<Longrightarrow> moves_on a c"
  by (simp add: moves_on_def)

lemma judge_moves_on: "moves_on s (fst (judge_mfa_code hmac n s code))"
proof (cases "judge_mfa_code hmac n s code")
  case (Pair s' v)
  from judge_mfa_cases [OF Pair] Pair show ?thesis
    by (auto simp: moves_on_def last_step_def)
qed

lemma judged_secrets: "fst (snd (judged t v i k now)) = fst v"
  by (auto simp: judged_def split_beta split: option.split)

lemma try_moves_on:
  assumes "\<And>s code. moves_on s (fst (judge s code))"
  shows "moves_on s (fst (snd (try_mfa_code judge code i req now t s)))"
  by (simp add: try_mfa_code_def split_beta judged_secrets assms split: option.split)

lemma step_moves_on: "moves_on (snd ts) (snd (attempt_step hmac ts a))"
  using try_moves_on [of "judge_mfa_code hmac (a_now a div 1000)" "snd ts" "a_code a" "a_token a" "a_request a" "a_now a" "fst ts"]
  by (simp add: attempt_step_def split_beta judge_moves_on)

lemma run_moves_on: "moves_on (snd ts) (snd (run_attempts hmac as ts))"
proof (induction as arbitrary: ts)
  case (Cons a as)
  from Cons [of "attempt_step hmac ts a"] step_moves_on [of ts hmac a] show ?case
    by (simp add: run_attempts_def) (rule moves_on_trans)
qed (simp add: run_attempts_def)

section \<open>Properties\<close>

text \<open>
  A lock that is running cannot be lifted: once a token is told to wait \<open>n\<close> seconds, then for
  the next \<open>n - 1\<close> seconds, whatever anybody sends in the meantime (floods of other tokens and addresses
  that fill the table included), its next attempt is answered \<open>locked\<close>, its code is not judged, right or
  wrong, and no step is spent.
\<close>

theorem running_lock_survives:
  assumes "run_attempts hmac before (no_attempts, s0) = (t, s)"
    and "mfa_lock_of_token t i now0 = (t1, Some (Locked Token_key n))"
    and "\<forall>a \<in> set as. a_now a \<le> now0 + (n - 1) * 1000" and "now \<le> now0 + (n - 1) * 1000"
    and "run_attempts hmac as (t1, s) = (t2, s2)"
  shows "\<exists>m. snd (try_mfa_code judge code i req now t2 s2) = (s2, Locked Token_key m, [])"
proof -
  have "table_ok t" using run_ok [of "(no_attempts, s0)" hmac before] no_attempts_ok assms(1) by simp
  moreover have "lock_seconds_of t (token_key i) now0 = (t1, Some n)"
    using assms(2) by (auto simp: mfa_lock_of_token_def split: prod.splits)
  ultimately have "locked_through t1 (token_key i) (now0 + (n - 1) * 1000)" by (rule announced_lock)
  then have "locked_through t2 (token_key i) (now0 + (n - 1) * 1000)"
    using locked_through_run [of "(t1, s)" i _ as hmac] assms(3,5) by simp
  from locked_through_asked [OF this assms(4)] obtain m where "snd (lock_seconds_of t2 (token_key i) now) = Some m" ..
  then show ?thesis by (simp add: try_mfa_code_def split_beta)
qed

text \<open>
  A step is spent once: after a code is accepted, whatever attempts follow, a later accepted
  code is that of a strictly later step of the same secret, so no code (and no code sharing its step) is
  accepted twice.
\<close>

theorem codes_single_use:
  assumes "judge_mfa_code hmac n1 s code1 = (s1, Ok_code)"
    and "run_attempts hmac as (t, s1) = (t', s2)"
    and "judge_mfa_code hmac n2 s2 code2 = (s3, Ok_code)"
  shows "\<exists>secret k1 k2. totpSecret s = Some secret \<and> totpSecret s2 = Some secret \<and> k1 < k2
     \<and> normalized_code code1 = compute_totp hmac secret (30 * k1)
     \<and> normalized_code code2 = compute_totp hmac secret (30 * k2)"
proof -
  obtain secret k1 where 1: "totpSecret s = Some secret" "0 \<le> k1" "s1 = s\<lparr>totpLastStep := Some k1\<rparr>"
    "k1 = matched_step (compute_totp hmac secret) (normalized_code code1) n1"
    using judge_mfa_cases [OF assms(1)] by auto
  obtain secret' k2 where 2: "totpSecret s2 = Some secret'" "0 \<le> k2" "last_step s2 < k2"
    "k2 = matched_step (compute_totp hmac secret') (normalized_code code2) n2"
    using judge_mfa_cases [OF assms(3)] by (auto simp: last_step_def)
  have "moves_on s1 s2" using run_moves_on [of "(t, s1)" hmac as] assms(2) by simp
  with 1 2 have "secret' = secret" "k1 < k2" by (auto simp: moves_on_def last_step_def)
  with 1 2 show ?thesis using matched_step_code [of hmac secret] by metis
qed

text \<open>
  Whatever is sent, the counter's table stays within its 10000 keys, a key is in one of the
  two orders only, and no key of the order that may be evicted freely holds five failures.
\<close>

theorem attempt_table_bounded:
  "length (open_keys (fst (run_attempts hmac as (no_attempts, s)))) + length (locked_keys (fst (run_attempts hmac as (no_attempts, s)))) \<le> 10000
   \<and> distinct (map fst (open_keys (fst (run_attempts hmac as (no_attempts, s)))) @ map fst (locked_keys (fst (run_attempts hmac as (no_attempts, s)))))
   \<and> list_all (\<lambda>e. length (snd e) < 5) (open_keys (fst (run_attempts hmac as (no_attempts, s))))"
  using run_ok [of "(no_attempts, s)" hmac as] no_attempts_ok
  by (auto simp: table_ok_def table_size_def entries_ok_def MFA_KEYS_MAX_def MFA_FAILURES_MAX_def list_all_iff)

section \<open>Witnesses\<close>

text \<open>A keyed hash whose code is the low byte of the counter, and one whose code is always \<open>000000\<close>.\<close>

definition sample_mac :: "int list \<Rightarrow> int list \<Rightarrow> int list" where
  "sample_mac key msg = [0, 0, 0, last msg, 0]"

definition null_mac :: "int list \<Rightarrow> int list \<Rightarrow> int list" where
  "null_mac key msg = []"

definition sample_secrets :: secrets where
  "sample_secrets = \<lparr>totpSecret = Some ''MFRGG'', totpLastStep = None\<rparr>"

definition sample_attempt :: "string \<Rightarrow> int \<Rightarrow> attempt" where
  "sample_attempt i now = \<lparr>a_code = ''999999'', a_token = i,
     a_request = \<lparr>q_trustProxy = False, q_socketAddress = None, q_socketBlocked = False, q_addressKey = []\<rparr>, a_now = now\<rparr>"

lemma null_code: "compute_totp null_mac secret e = ''000000''"
proof -
  have "decimal_digits 6 0 = ''000000''" by code_simp
  then show ?thesis by (simp add: compute_totp_def null_mac_def byte_at_def Let_def)
qed

lemma null_judge: "judge_mfa_code null_mac n sample_secrets ''999999'' = (sample_secrets, Wrong_code)"
  by (simp add: judge_mfa_code_def sample_secrets_def normalized_code_def matched_step_def matches_stale_def null_code
      Let_def list_ex_iff)

lemma sample_step:
  "attempt_step null_mac (t, sample_secrets) (sample_attempt i now) =
     (case lock_seconds_of t (token_key i) now of
        (t', Some n) \<Rightarrow> (t', sample_secrets)
      | (t', None) \<Rightarrow> (fst (record_failure t' (token_key i) Token_key i now), sample_secrets))"
  by (simp add: attempt_step_def try_mfa_code_def sample_attempt_def address_key_def address_is_trustworthy_def
      null_judge judged_def split_beta split: option.split)

definition sample_locked :: mfa_table where
  "sample_locked = \<lparr>open_keys = [], locked_keys = [(''t:me'', [0, 1, 2, 3, 4])]\<rparr>"

lemmas attempt_simps = lock_seconds_of_def record_failure_def place_for_def make_room_def entry_of_def prune_failures_def
  write_entry_def drop_key_def map_del_def token_key_def Let_def MFA_FAILURES_MAX_def MFA_LOCKOUT_WINDOW_MS_def MFA_KEYS_MAX_def

lemma sample_run:
  "run_attempts null_mac (map (sample_attempt ''me'') [0, 1, 2, 3, 4]) (no_attempts, sample_secrets)
     = (sample_locked, sample_secrets)"
  by (simp add: run_attempts_def sample_step attempt_simps no_attempts_def sample_locked_def)

theorem running_lock_survives_witness:
  "\<exists>m. snd (try_mfa_code (\<lambda>s c. (s, Ok_code)) ''123456'' ''me'' (a_request (sample_attempt ''me'' 3000)) 3000
     (fst (run_attempts null_mac [sample_attempt ''other'' 2000] (sample_locked, sample_secrets))) sample_secrets)
     = (sample_secrets, Locked Token_key m, [])"
proof (rule running_lock_survives [OF sample_run])
  show "mfa_lock_of_token sample_locked ''me'' 1000 = (sample_locked, Some (Locked Token_key 899))"
    by (simp add: mfa_lock_of_token_def sample_locked_def attempt_simps)
  show "run_attempts null_mac [sample_attempt ''other'' 2000] (sample_locked, sample_secrets) =
      (fst (run_attempts null_mac [sample_attempt ''other'' 2000] (sample_locked, sample_secrets)), sample_secrets)"
    by (simp add: run_attempts_def sample_step split_beta split: option.split)
qed (simp_all add: sample_attempt_def)

theorem codes_single_use_witness:
  "\<exists>k1 k2. k1 < k2 \<and> compute_totp sample_mac ''MFRGG'' (30 * k1) = ''000001''
     \<and> compute_totp sample_mac ''MFRGG'' (30 * k2) = ''000002''"
proof -
  let ?s1 = "sample_secrets\<lparr>totpLastStep := Some 1\<rparr>" and ?s3 = "sample_secrets\<lparr>totpLastStep := Some 2\<rparr>"
  have 1: "judge_mfa_code sample_mac 30 sample_secrets ''000001'' = (?s1, Ok_code)" by code_simp
  have 2: "run_attempts sample_mac [] (no_attempts, ?s1) = (no_attempts, ?s1)" by (simp add: run_attempts_def)
  have 3: "judge_mfa_code sample_mac 60 ?s1 ''000002'' = (?s3, Ok_code)" by code_simp
  from codes_single_use [OF 1 2 3] show ?thesis
    by (simp add: sample_secrets_def normalized_code_def) metis
qed

end
