(* ===== verification/Space_Marks.thy ===== *)
theory Space_Marks
  imports Space_Map
begin

text \<open>
  What a network's members were marked for one space (\<open>server/src/sync/receive-marks.ts\<close>, the sets of
  marks in \<open>server/src/config/types-networks.ts\<close>), and a space leaving a network
  (\<open>server/src/networks/take-space-out-of-network.ts\<close>).  Every walk visits the members and the member
  each join round in flight carries, through one loop; a visitor mutates the member it is handed, so
  here it returns it, with whatever the walk counts.  The lemmas show that every walk is a pointwise
  change of the marks it names and of nothing else.
\<close>

section \<open>The sets of marks\<close>

definition PER_SPACE_WATERMARKS :: "per_space_watermark list" where
  "PER_SPACE_WATERMARKS =
     [LastPosReceived, LastPosPushed, LastPosServed, LastFileTombstoneAckedAt, TombstoneRereadAt,
      FileMetaRereadAt, FullRereadState, LastSeqReceived, LastSeqPushed, LastSeqServed]"

definition RECEIVE_MARKS :: "per_space_watermark list" where
  "RECEIVE_MARKS = [LastPosReceived, TombstoneRereadAt, FileMetaRereadAt, FullRereadState]"

definition KEPT_ON_RESTORE :: "per_space_watermark list" where
  "KEPT_ON_RESTORE = [LastPosPushed, LastPosServed, LastFileTombstoneAckedAt]"

definition ROLLBACK_MARKS :: "per_space_watermark list" where
  "ROLLBACK_MARKS = [LastSeqReceived, LastSeqPushed, LastSeqServed]"

text \<open>Asked of a rollback mark only; the source's table holds no other key.\<close>

definition POSITION_TWIN :: "per_space_watermark \<Rightarrow> per_space_watermark option" where
  "POSITION_TWIN k =
     (case k of
        LastSeqReceived \<Rightarrow> Some LastPosReceived
      | LastSeqPushed \<Rightarrow> Some LastPosPushed
      | LastSeqServed \<Rightarrow> Some LastPosServed
      | _ \<Rightarrow> None)"

section \<open>The one loop over the marks\<close>

type_synonym 's visitor = "per_space_watermark \<Rightarrow> mark_value obj \<Rightarrow> network_member \<times> 's \<Rightarrow> network_member \<times> 's"

text \<open>A space asks for the maps that hold a mark for it, \<open>null\<close> for every map that holds any.\<close>

definition marks_hold :: "string option \<Rightarrow> mark_value obj \<Rightarrow> bool" where
  "marks_hold sp marks = (case sp of None \<Rightarrow> marks \<noteq> [] | Some s \<Rightarrow> map_of marks s \<noteq> None)"

fun visit_marks :: "string option \<Rightarrow> 's visitor \<Rightarrow> per_space_watermark list \<Rightarrow> network_member \<times> 's \<Rightarrow> network_member \<times> 's" where
  "visit_marks sp visit [] st = st"
| "visit_marks sp visit (k # which) st =
     visit_marks sp visit which
       (case m_marks (fst st) k of
          None \<Rightarrow> st
        | Some marks \<Rightarrow> if marks_hold sp marks then visit k marks st else st)"

fun visit_each :: "('a \<times> 's \<Rightarrow> 'a \<times> 's) \<Rightarrow> 'a list \<Rightarrow> 's \<Rightarrow> 'a list \<times> 's" where
  "visit_each f [] s = ([], s)"
| "visit_each f (x # xs) s =
     (let (y, s1) = f (x, s); (ys, s2) = visit_each f xs s1 in (y # ys, s2))"

definition visit_round :: "(network_member \<times> 's \<Rightarrow> network_member \<times> 's) \<Rightarrow> vote_round \<times> 's \<Rightarrow> vote_round \<times> 's" where
  "visit_round f st =
     (case r_pendingMember (fst st) of
        None \<Rightarrow> st
      | Some pm \<Rightarrow> let (pm', s) = f (pm, snd st) in ((fst st)\<lparr>r_pendingMember := Some pm'\<rparr>, s))"

definition each_member_mark_of ::
  "network \<Rightarrow> string option \<Rightarrow> 's visitor \<Rightarrow> per_space_watermark list \<Rightarrow> 's \<Rightarrow> network \<times> 's" where
  "each_member_mark_of net sp visit which s =
     (let (ms, s1) = visit_each (visit_marks sp visit which) (n_members net) s;
          (rds, s2) = visit_each (visit_round (visit_marks sp visit which)) (n_pendingRounds net) s1
      in (net\<lparr>n_members := ms, n_pendingRounds := rds\<rparr>, s2))"

section \<open>The walks\<close>

definition set_marks :: "per_space_watermark \<Rightarrow> mark_value obj \<Rightarrow> network_member \<Rightarrow> network_member" where
  "set_marks k marks m = m\<lparr>m_marks := (m_marks m)(k \<mapsto> marks)\<rparr>"

definition forget_visit :: "string \<Rightarrow> unit visitor" where
  "forget_visit sp k marks st = (set_marks k (map_del sp marks) (fst st), snd st)"

definition forget_every_mark :: "network \<Rightarrow> string \<Rightarrow> network" where
  "forget_every_mark net sp = fst (each_member_mark_of net (Some sp) (forget_visit sp) PER_SPACE_WATERMARKS ())"

definition forget_what_was_received :: "network \<Rightarrow> string \<Rightarrow> network" where
  "forget_what_was_received net sp = fst (each_member_mark_of net (Some sp) (forget_visit sp) RECEIVE_MARKS ())"

definition move_visit :: "string \<Rightarrow> string \<Rightarrow> unit visitor" where
  "move_visit old new k marks st =
     (set_marks k (map_del old (case map_of marks old of Some v \<Rightarrow> obj_put new v marks | None \<Rightarrow> marks)) (fst st), snd st)"

definition move_every_mark :: "network \<Rightarrow> string \<Rightarrow> string \<Rightarrow> network" where
  "move_every_mark net old new = fst (each_member_mark_of net (Some old) (move_visit old new) PER_SPACE_WATERMARKS ())"

definition MAX_SAFE_INTEGER :: int where
  "MAX_SAFE_INTEGER = 2 ^ 53 - 1"

text \<open>\<open>Number.isSafeInteger(value) && value >= 0\<close>, of a value that is a number.\<close>

definition carriable :: "mark_value \<Rightarrow> bool" where
  "carriable v = (case v of Mark_number n \<Rightarrow> 0 \<le> n \<and> n \<le> MAX_SAFE_INTEGER | Mark_text t \<Rightarrow> False)"

definition carry_one :: "per_space_watermark \<Rightarrow> string \<times> mark_value \<Rightarrow> network_member \<times> nat \<Rightarrow> network_member \<times> nat" where
  "carry_one twin e st =
     (if \<not> carriable (snd e) then st
      else let to = or_empty (m_marks (fst st) twin)
           in if map_of to (fst e) \<noteq> None then st
              else (set_marks twin (obj_put (fst e) (snd e) to) (fst st), Suc (snd st)))"

definition carry_visit :: "nat visitor" where
  "carry_visit frozen marks st =
     (case POSITION_TWIN frozen of None \<Rightarrow> st | Some twin \<Rightarrow> fold (carry_one twin) marks st)"

definition carry_marks_to_positions :: "network \<Rightarrow> network \<times> nat" where
  "carry_marks_to_positions net = each_member_mark_of net None carry_visit ROLLBACK_MARKS 0"

section \<open>A space leaves a network\<close>

definition clear_settled_proposals :: "network \<Rightarrow> string list \<Rightarrow> network \<times> bool" where
  "clear_settled_proposals net ids =
     (if \<not> list_ex (\<lambda>p. p_networkId p \<in> set ids) (or_empty (n_pendingSpaces net)) then (net, False)
      else (net\<lparr>n_pendingSpaces := Some (filter (\<lambda>p. p_networkId p \<notin> set ids) (or_empty (n_pendingSpaces net)))\<rparr>, True))"

definition forget_pending_offer :: "network \<Rightarrow> string \<Rightarrow> network \<times> bool" where
  "forget_pending_offer net netid = clear_settled_proposals net [netid]"

record space_taken_out =
  q_carried :: bool
  q_hadLayer :: bool
  q_networkSpaceId :: "string option"

definition take_space_out_of_network :: "network \<Rightarrow> string \<Rightarrow> network \<times> space_taken_out" where
  "take_space_out_of_network net sp =
     (if sp \<notin> set (n_spaces net) then (net, \<lparr>q_carried = False, q_hadLayer = False, q_networkSpaceId = None\<rparr>)
      else
        let netid = local_to_remote (n_spaceMap net) sp;
            hadLayer = (Option.bind (n_schemaLayers net) (\<lambda>ls. map_of ls sp) \<noteq> None);
            net1 = net\<lparr>n_spaces := filter (\<lambda>s. s \<noteq> sp) (n_spaces net),
                       n_spaceMap := forget_space_aliases (n_spaceMap net) sp,
                       n_schemaLayers := map_option (map_del sp) (n_schemaLayers net),
                       n_schemaLayerUnread := map_option (map_del sp) (n_schemaLayerUnread net),
                       n_spaceOrigins := map_option (map_del sp) (n_spaceOrigins net)\<rparr>;
            net2 = forget_every_mark net1 sp
        in (fst (forget_pending_offer net2 netid),
            \<lparr>q_carried = True, q_hadLayer = hadLayer, q_networkSpaceId = Some netid\<rparr>))"

section \<open>Every walk is a pointwise change of the marks it names\<close>

text \<open>Who carries marks in a network, and one mark of a carrier.\<close>

definition carriers :: "network \<Rightarrow> network_member list" where
  "carriers net = n_members net @ List.map_filter r_pendingMember (n_pendingRounds net)"

definition mark_of :: "network_member \<Rightarrow> per_space_watermark \<Rightarrow> string \<Rightarrow> mark_value option" where
  "mark_of m k s = Option.bind (m_marks m k) (\<lambda>marks. map_of marks s)"

definition remark :: "(mark_value obj \<Rightarrow> mark_value obj) \<Rightarrow> per_space_watermark list \<Rightarrow> network_member \<Rightarrow> network_member" where
  "remark g which m = m\<lparr>m_marks := (\<lambda>k. if k \<in> set which then map_option g (m_marks m k) else m_marks m k)\<rparr>"

definition remark_network :: "(network_member \<Rightarrow> network_member) \<Rightarrow> network \<Rightarrow> network" where
  "remark_network h net =
     net\<lparr>n_members := map h (n_members net),
         n_pendingRounds := map (\<lambda>rd. rd\<lparr>r_pendingMember := map_option h (r_pendingMember rd)\<rparr>) (n_pendingRounds net)\<rparr>"

lemma marks_sets_distinct [simp]: "distinct PER_SPACE_WATERMARKS" "distinct RECEIVE_MARKS" "distinct ROLLBACK_MARKS"
  by (simp_all add: PER_SPACE_WATERMARKS_def RECEIVE_MARKS_def ROLLBACK_MARKS_def)

lemma every_mark_listed [simp]: "k \<in> set PER_SPACE_WATERMARKS"
  by (cases k) (simp_all add: PER_SPACE_WATERMARKS_def)

lemma map_del_absent: "map_of m k = None \<Longrightarrow> map_del k m = m"
  by (induction m) (auto simp: map_del_def split: if_splits)

lemma visit_marks_pointwise:
  assumes "distinct which"
    and "\<And>k marks st. visit k marks st = (set_marks k (g marks) (fst st), snd st)"
    and "\<And>marks. \<not> marks_hold sp marks \<Longrightarrow> g marks = marks"
  shows "visit_marks sp visit which (m, ()) = (remark g which m, ())"
  using assms(1)
proof (induction which arbitrary: m)
  case Nil
  show ?case by (simp add: remark_def)
next
  case (Cons k which)
  let ?st = "case m_marks m k of None \<Rightarrow> (m, ())
      | Some marks \<Rightarrow> if marks_hold sp marks then visit k marks (m, ()) else (m, ())"
  have st: "?st = (remark g [k] m, ())"
  proof (cases "m_marks m k")
    case None
    then have "(\<lambda>j. if j = k then map_option g (m_marks m j) else m_marks m j) = m_marks m" by auto
    with None show ?thesis by (simp add: remark_def)
  next
    case (Some marks)
    have "(\<lambda>j. if j = k then map_option g (m_marks m j) else m_marks m j) = (m_marks m)(k \<mapsto> g marks)"
      using Some by auto
    moreover have "(m_marks m)(k \<mapsto> marks) = m_marks m" using Some by auto
    ultimately show ?thesis using Some assms(2,3) by (simp add: remark_def set_marks_def)
  qed
  have "visit_marks sp visit (k # which) (m, ()) = (remark g which (remark g [k] m), ())"
    using Cons st by simp
  moreover have "remark g which (remark g [k] m) = remark g (k # which) m"
  proof -
    have "(\<lambda>j. if j \<in> set which then map_option g (if j = k then map_option g (m_marks m j) else m_marks m j)
             else (if j = k then map_option g (m_marks m j) else m_marks m j)) =
          (\<lambda>j. if j = k \<or> j \<in> set which then map_option g (m_marks m j) else m_marks m j)"
      using Cons.prems by auto
    then show ?thesis by (simp add: remark_def cong: if_cong)
  qed
  ultimately show ?case by simp
qed

lemma visit_each_map:
  assumes "\<And>x. f (x, ()) = (h x, ())"
  shows "visit_each f xs () = (map h xs, ())"
  by (induction xs) (simp_all add: assms)

lemma each_mark_pointwise:
  assumes "distinct which"
    and "\<And>k marks st. visit k marks st = (set_marks k (g marks) (fst st), snd st)"
    and "\<And>marks. \<not> marks_hold sp marks \<Longrightarrow> g marks = marks"
  shows "fst (each_member_mark_of net sp visit which ()) = remark_network (remark g which) net"
proof -
  note v = visit_marks_pointwise [of which visit g sp, OF assms]
  have r: "visit_round (visit_marks sp visit which) (rd, ()) =
      (rd\<lparr>r_pendingMember := map_option (remark g which) (r_pendingMember rd)\<rparr>, ())" for rd
  proof (cases "r_pendingMember rd")
    case None
    then have "rd\<lparr>r_pendingMember := map_option (remark g which) (r_pendingMember rd)\<rparr> = rd"
      by (cases rd) simp
    with None show ?thesis by (simp add: visit_round_def)
  next
    case (Some pm)
    then show ?thesis by (simp add: visit_round_def v)
  qed
  show ?thesis
    by (simp add: each_member_mark_of_def remark_network_def
        visit_each_map [of "visit_marks sp visit which" "remark g which", OF v]
        visit_each_map [of "visit_round (visit_marks sp visit which)", OF r])
qed

lemma forget_every_mark_eq:
  "forget_every_mark net sp = remark_network (remark (map_del sp) PER_SPACE_WATERMARKS) net"
  unfolding forget_every_mark_def
  by (rule each_mark_pointwise) (auto simp: forget_visit_def marks_hold_def map_del_absent)

lemma forget_what_was_received_eq:
  "forget_what_was_received net sp = remark_network (remark (map_del sp) RECEIVE_MARKS) net"
  unfolding forget_what_was_received_def
  by (rule each_mark_pointwise) (auto simp: forget_visit_def marks_hold_def map_del_absent)

definition moved_marks :: "string \<Rightarrow> string \<Rightarrow> mark_value obj \<Rightarrow> mark_value obj" where
  "moved_marks old new marks =
     map_del old (case map_of marks old of Some v \<Rightarrow> obj_put new v marks | None \<Rightarrow> marks)"

lemma move_every_mark_eq:
  "move_every_mark net old new = remark_network (remark (moved_marks old new) PER_SPACE_WATERMARKS) net"
  unfolding move_every_mark_def
  by (rule each_mark_pointwise) (auto simp: move_visit_def moved_marks_def marks_hold_def map_del_absent)

lemma carriers_remark_network: "carriers (remark_network h net) = map h (carriers net)"
proof -
  have "List.map_filter r_pendingMember (map (\<lambda>rd. rd\<lparr>r_pendingMember := map_option h (r_pendingMember rd)\<rparr>) rds)
      = map h (List.map_filter r_pendingMember rds)" for rds
    by (induction rds) (auto simp: List.map_filter_simps split: option.split)
  then show ?thesis by (simp add: carriers_def remark_network_def)
qed

lemma mark_of_remark:
  "mark_of (remark g which m) k t =
     (if k \<in> set which then Option.bind (m_marks m k) (\<lambda>marks. map_of (g marks) t) else mark_of m k t)"
  by (cases "m_marks m k") (auto simp: mark_of_def remark_def)

lemma mark_of_forget:
  "mark_of (remark (map_del sp) which m) k t =
     (if k \<in> set which \<and> t = sp then None else mark_of m k t)"
  unfolding mark_of_remark by (cases "m_marks m k") (auto simp: mark_of_def map_of_map_del)

lemma mark_of_move:
  "old \<noteq> new \<Longrightarrow> mark_of (remark (moved_marks old new) PER_SPACE_WATERMARKS m) k t =
     (if t = old then None else if t = new \<and> mark_of m k old \<noteq> None then mark_of m k old else mark_of m k t)"
  unfolding mark_of_remark
  by (cases "m_marks m k")
    (auto simp: mark_of_def moved_marks_def map_of_map_del map_of_obj_put split: option.split)

lemma remark_network_frame [frame]:
  "n_id (remark_network h net) = n_id net"
  "n_spaces (remark_network h net) = n_spaces net"
  "n_spaceMap (remark_network h net) = n_spaceMap net"
  "n_schemaLayers (remark_network h net) = n_schemaLayers net"
  "n_schemaLayerUnread (remark_network h net) = n_schemaLayerUnread net"
  "n_spaceOrigins (remark_network h net) = n_spaceOrigins net"
  "n_pendingSpaces (remark_network h net) = n_pendingSpaces net"
  by (simp_all add: remark_network_def)

lemma each_frame: "n_pendingSpaces (forget_every_mark net sp) = n_pendingSpaces net"
  "n_spaces (forget_every_mark net sp) = n_spaces net"
  "n_spaceMap (forget_every_mark net sp) = n_spaceMap net"
  "n_schemaLayers (forget_every_mark net sp) = n_schemaLayers net"
  "n_schemaLayerUnread (forget_every_mark net sp) = n_schemaLayerUnread net"
  "n_spaceOrigins (forget_every_mark net sp) = n_spaceOrigins net"
  by (simp_all add: forget_every_mark_eq frame)

lemma clear_settled_proposals_frame [frame]:
  "n_spaces (fst (clear_settled_proposals net ids)) = n_spaces net"
  "n_spaceMap (fst (clear_settled_proposals net ids)) = n_spaceMap net"
  "n_schemaLayers (fst (clear_settled_proposals net ids)) = n_schemaLayers net"
  "n_schemaLayerUnread (fst (clear_settled_proposals net ids)) = n_schemaLayerUnread net"
  "n_spaceOrigins (fst (clear_settled_proposals net ids)) = n_spaceOrigins net"
  "carriers (fst (clear_settled_proposals net ids)) = carriers net"
  by (simp_all add: clear_settled_proposals_def carriers_def)

lemma clear_settled_proposals_offers:
  "or_empty (n_pendingSpaces (fst (clear_settled_proposals net ids))) =
     filter (\<lambda>p. p_networkId p \<notin> set ids) (or_empty (n_pendingSpaces net))"
  by (auto simp: clear_settled_proposals_def list_ex_iff filter_id_conv intro!: filter_True [symmetric])

lemma alias_get_forget:
  assumes "alias_ok m"
  shows "alias_get (forget_space_aliases m sp) r = (if alias_get m r = Some sp then None else alias_get m r)"
proof (cases m)
  case None
  then show ?thesis by (simp add: forget_space_aliases_def alias_get_def)
next
  case (Some es)
  then have d: "distinct (map fst es)" using assms by (simp add: alias_ok_def entries_ok_def)
  have "map_of (filter (\<lambda>e. snd e \<noteq> sp) es) r = (if map_of es r = Some sp then None else map_of es r)"
    using d
  proof (induction es)
    case Nil
    show ?case by simp
  next
    case (Cons e es)
    have "fst e = r \<Longrightarrow> map_of es r = None" using Cons.prems by (auto simp: map_of_eq_None_iff)
    then show ?case using Cons by (cases e) auto
  qed
  then show ?thesis
    using Some by (cases "filter (\<lambda>e. snd e \<noteq> sp) es = []")
      (auto simp: forget_space_aliases_def alias_get_def drop_if_empty_def split: if_splits)
qed

lemma map_option_del:
  "Option.bind (map_option (map_del sp) x) (\<lambda>t. map_of t k) = (if k = sp then None else Option.bind x (\<lambda>t. map_of t k))"
  by (cases x) (simp_all add: map_of_map_del)

section \<open>Carrying a frozen mark\<close>

lemma carry_one_other: "k \<noteq> twin \<Longrightarrow> m_marks (fst (carry_one twin e st)) k = m_marks (fst st) k"
  by (simp add: carry_one_def set_marks_def Let_def)

lemma carry_fold_other: "k \<noteq> twin \<Longrightarrow> m_marks (fst (fold (carry_one twin) marks st)) k = m_marks (fst st) k"
  by (induction marks arbitrary: st) (simp_all add: carry_one_other)

definition carried_position :: "mark_value option \<Rightarrow> mark_value option \<Rightarrow> mark_value option" where
  "carried_position held frozen =
     (case held of
        Some v \<Rightarrow> Some v
      | None \<Rightarrow> (case frozen of Some v \<Rightarrow> if carriable v then Some v else None | None \<Rightarrow> None))"

lemma mark_of_carry_one:
  "mark_of (fst (carry_one twin e st)) twin s =
     (if fst e = s then carried_position (mark_of (fst st) twin s) (Some (snd e)) else mark_of (fst st) twin s)"
  by (cases "m_marks (fst st) twin")
    (auto simp: carry_one_def carried_position_def set_marks_def mark_of_def map_of_obj_put Let_def split: option.split)

lemma mark_of_carry_fold:
  "distinct (map fst marks) \<Longrightarrow>
     mark_of (fst (fold (carry_one twin) marks st)) twin s =
       carried_position (mark_of (fst st) twin s) (map_of marks s)"
proof (induction marks arbitrary: st)
  case Nil
  show ?case by (simp add: carried_position_def split: option.split)
next
  case (Cons e marks)
  have "fst e = s \<Longrightarrow> map_of marks s = None" using Cons.prems by (auto simp: map_of_eq_None_iff)
  then show ?case
    using Cons by (cases e) (auto simp: mark_of_carry_one carried_position_def split: option.split)
qed

lemma POSITION_TWIN_simps [simp]:
  "POSITION_TWIN LastSeqReceived = Some LastPosReceived"
  "POSITION_TWIN LastSeqPushed = Some LastPosPushed"
  "POSITION_TWIN LastSeqServed = Some LastPosServed"
  by (simp_all add: POSITION_TWIN_def)

text \<open>One step of the walk: a frozen mark carried into its twin.\<close>

definition carry_step :: "per_space_watermark \<Rightarrow> per_space_watermark \<Rightarrow> network_member \<times> nat \<Rightarrow> network_member \<times> nat" where
  "carry_step frozen twin st =
     (case m_marks (fst st) frozen of None \<Rightarrow> st | Some marks \<Rightarrow> fold (carry_one twin) marks st)"

lemma visit_carry:
  "visit_marks None carry_visit ROLLBACK_MARKS st =
     carry_step LastSeqServed LastPosServed (carry_step LastSeqPushed LastPosPushed (carry_step LastSeqReceived LastPosReceived st))"
  by (simp add: ROLLBACK_MARKS_def carry_step_def carry_visit_def marks_hold_def split: option.split)

lemma carry_step_other: "k \<noteq> twin \<Longrightarrow> m_marks (fst (carry_step frozen twin st)) k = m_marks (fst st) k"
  by (simp add: carry_step_def carry_fold_other split: option.split)

lemma mark_of_carry_step_other: "k \<noteq> twin \<Longrightarrow> mark_of (fst (carry_step frozen twin st)) k s = mark_of (fst st) k s"
  by (simp add: mark_of_def carry_step_other)

definition marks_ok :: "network_member \<Rightarrow> bool" where
  "marks_ok m \<longleftrightarrow> (\<forall>k. entries_ok (or_empty (m_marks m k)))"

lemma mark_of_carry_step:
  "entries_ok (or_empty (m_marks (fst st) frozen)) \<Longrightarrow>
     mark_of (fst (carry_step frozen twin st)) twin s =
       carried_position (mark_of (fst st) twin s) (mark_of (fst st) frozen s)"
  by (cases "m_marks (fst st) frozen")
    (auto simp: carry_step_def mark_of_carry_fold entries_ok_def mark_of_def [of _ frozen] carried_position_def
      split: option.split)

definition carried_mark :: "network_member \<Rightarrow> per_space_watermark \<Rightarrow> string \<Rightarrow> mark_value option" where
  "carried_mark m k s =
     (case k of
        LastPosReceived \<Rightarrow> carried_position (mark_of m k s) (mark_of m LastSeqReceived s)
      | LastPosPushed \<Rightarrow> carried_position (mark_of m k s) (mark_of m LastSeqPushed s)
      | LastPosServed \<Rightarrow> carried_position (mark_of m k s) (mark_of m LastSeqServed s)
      | _ \<Rightarrow> mark_of m k s)"

lemma mark_of_carry:
  "marks_ok (fst st) \<Longrightarrow> mark_of (fst (visit_marks None carry_visit ROLLBACK_MARKS st)) k s = carried_mark (fst st) k s"
  unfolding visit_carry carried_mark_def marks_ok_def
  by (cases k) (simp_all add: mark_of_carry_step mark_of_carry_step_other carry_step_other)

lemma carried_again:
  assumes "\<And>k s. mark_of m' k s = carried_mark m k s"
  shows "carried_mark m' k s = carried_mark m k s"
  by (cases k) (simp_all add: carried_mark_def assms carried_position_def split: option.split)


lemma visit_each_related:
  "(\<And>x s. x \<in> set xs \<Longrightarrow> P x (fst (f (x, s)))) \<Longrightarrow> list_all2 P xs (fst (visit_each f xs s))"
proof (induction xs arbitrary: s)
  case Nil
  show ?case by simp
next
  case (Cons x xs)
  then show ?case by (simp add: split_beta Let_def)
qed

lemma carriers_related:
  assumes "\<And>m s. m \<in> set (carriers net) \<Longrightarrow> P m (fst (visit_marks sp visit which (m, s)))"
  shows "list_all2 P (carriers net) (carriers (fst (each_member_mark_of net sp visit which s)))"
proof -
  let ?v = "visit_marks sp visit which"
  have ms: "list_all2 P (n_members net) (fst (visit_each ?v (n_members net) s'))" for s'
    by (rule visit_each_related) (simp add: assms carriers_def)
  have rd: "rel_option P (r_pendingMember rd) (r_pendingMember (fst (visit_round ?v (rd, s'))))"
    if "rd \<in> set (n_pendingRounds net)" for rd s'
  proof (cases "r_pendingMember rd")
    case None
    then show ?thesis by (simp add: visit_round_def)
  next
    case (Some pm)
    then have "pm \<in> set (carriers net)"
      using that by (force simp: carriers_def List.map_filter_def)
    then show ?thesis using Some assms by (simp add: visit_round_def split_beta)
  qed
  have rds: "list_all2 (\<lambda>a b. rel_option P (r_pendingMember a) (r_pendingMember b))
      (n_pendingRounds net) (fst (visit_each (visit_round ?v) (n_pendingRounds net) s'))" for s'
    by (rule visit_each_related) (rule rd)
  have mf: "list_all2 P (List.map_filter r_pendingMember xs) (List.map_filter r_pendingMember ys)"
    if "list_all2 (\<lambda>a b. rel_option P (r_pendingMember a) (r_pendingMember b)) xs ys" for xs ys
    using that by (induction rule: list_all2_induct) (auto simp: List.map_filter_simps option_rel_Some1 split: option.split)
  show ?thesis
    by (simp add: each_member_mark_of_def carriers_def split_beta Let_def) (intro list_all2_appendI ms mf rds)
qed

lemma map_related: "list_all2 (\<lambda>m m'. f m' = g m) xs ys \<Longrightarrow> map f ys = map g xs"
  by (induction rule: list_all2_induct) simp_all

lemma carriers_carried:
  "list_all marks_ok (carriers net) \<Longrightarrow>
     map mark_of (carriers (fst (carry_marks_to_positions net))) = map carried_mark (carriers net)"
  unfolding carry_marks_to_positions_def
  by (intro map_related carriers_related ext) (simp add: mark_of_carry list_all_iff)

lemma carry_fold_ok: "marks_ok (fst st) \<Longrightarrow> marks_ok (fst (fold (carry_one twin) marks st))"
proof (induction marks arbitrary: st)
  case Nil
  then show ?case by simp
next
  case (Cons e marks)
  have "marks_ok (fst (carry_one twin e st))"
    using Cons.prems by (auto simp: carry_one_def marks_ok_def set_marks_def Let_def ob.ok_put)
  then show ?case using Cons.IH by simp
qed

lemma carriers_carried_ok:
  assumes "list_all marks_ok (carriers net)"
  shows "list_all marks_ok (carriers (fst (carry_marks_to_positions net)))"
proof -
  have "marks_ok (fst (carry_step k t st))" if "marks_ok (fst st)" for k t st
    using that by (simp add: carry_step_def carry_fold_ok split: option.split)
  then have "list_all2 (\<lambda>m m'. marks_ok m') (carriers net) (carriers (fst (carry_marks_to_positions net)))"
    unfolding carry_marks_to_positions_def
    by (intro carriers_related) (use assms in \<open>simp add: visit_carry list_all_iff\<close>)
  then show ?thesis by (simp add: list_all2_conv_all_nth list_all_length)
qed

section \<open>Properties\<close>

text \<open>
  A space taken out of a network leaves nothing of itself there: it is not carried, no
  network id reaches it, every member and every joiner in flight loses its marks for it, its layer,
  its unread layer and its origin go, and the offer under its network id goes; what the network holds
  for every other space is as it was.
\<close>

theorem take_out_leaves_nothing:
  assumes "alias_ok (n_spaceMap net)" "sp \<in> set (n_spaces net)"
  shows "(let net' = fst (take_space_out_of_network net sp);
            kept = (\<lambda>x. Option.bind x (\<lambda>t. map_of t k));
            netid = local_to_remote (n_spaceMap net) sp
        in n_spaces net' = filter (\<lambda>s. s \<noteq> sp) (n_spaces net)
         \<and> carried_local_id net' r \<noteq> Some sp
         \<and> alias_get (n_spaceMap net') i = (if alias_get (n_spaceMap net) i = Some sp then None else alias_get (n_spaceMap net) i)
         \<and> map mark_of (carriers net') = map (\<lambda>m k s. if s = sp then None else mark_of m k s) (carriers net)
         \<and> kept (n_schemaLayers net') = (if k = sp then None else kept (n_schemaLayers net))
         \<and> kept (n_spaceOrigins net') = (if k = sp then None else kept (n_spaceOrigins net))
         \<and> Option.bind (n_schemaLayerUnread net') (\<lambda>t. map_of t k)
             = (if k = sp then None else Option.bind (n_schemaLayerUnread net) (\<lambda>t. map_of t k))
         \<and> or_empty (n_pendingSpaces net') = filter (\<lambda>p. p_networkId p \<noteq> netid) (or_empty (n_pendingSpaces net)))"
proof -
  have c: "carriers (net\<lparr>n_spaces := a, n_spaceMap := b, n_schemaLayers := c, n_schemaLayerUnread := d, n_spaceOrigins := e\<rparr>)
      = carriers net" for a b c d e
    by (simp add: carriers_def)
  have "map mark_of (carriers (fst (take_space_out_of_network net sp))) =
      map (\<lambda>m k s. if s = sp then None else mark_of m k s) (carriers net)"
    using assms(2)
    by (auto simp: take_space_out_of_network_def Let_def forget_pending_offer_def frame forget_every_mark_eq
        carriers_remark_network c mark_of_forget fun_eq_iff)
  moreover have "carried_local_id (fst (take_space_out_of_network net sp)) r \<noteq> Some sp"
    using assms(2)
    by (auto simp: carried_local_id_def Let_def take_space_out_of_network_def forget_pending_offer_def frame each_frame)
  ultimately show ?thesis
    using assms
    by (simp add: take_space_out_of_network_def Let_def forget_pending_offer_def frame each_frame
        alias_get_forget map_option_del clear_settled_proposals_offers)
qed

text \<open>
  A rename carries every mark of the space, of every member and of every joiner in
  flight, to its new id and leaves none under the old one; a mark the new id already held stays only
  where the old id had none, and no other space is touched.
\<close>

theorem move_carries_every_mark:
  "old \<noteq> new \<Longrightarrow>
     map mark_of (carriers (move_every_mark net old new)) =
     map (\<lambda>m k s. if s = old then None
                  else if s = new \<and> mark_of m k old \<noteq> None then mark_of m k old
                  else mark_of m k s) (carriers net)"
  by (auto simp: move_every_mark_eq carriers_remark_network mark_of_move fun_eq_iff)

text \<open>
  Forgetting what was received drops, for that space only, the receive marks and no
  other; every mark is either one a restore forgets, one it keeps, or a frozen rollback mark, and
  never two of them.
\<close>

theorem restore_forgets_received_only:
  "map mark_of (carriers (forget_what_was_received net sp)) =
     map (\<lambda>m k s. if s = sp \<and> k \<in> set RECEIVE_MARKS then None else mark_of m k s) (carriers net)
   \<and> mset PER_SPACE_WATERMARKS = mset (RECEIVE_MARKS @ KEPT_ON_RESTORE @ ROLLBACK_MARKS)"
proof -
  have "mset PER_SPACE_WATERMARKS = mset (RECEIVE_MARKS @ KEPT_ON_RESTORE @ ROLLBACK_MARKS)"
    by (simp add: PER_SPACE_WATERMARKS_def RECEIVE_MARKS_def KEPT_ON_RESTORE_def ROLLBACK_MARKS_def)
  then show ?thesis
    by (auto simp: forget_what_was_received_eq carriers_remark_network mark_of_forget fun_eq_iff)
qed

text \<open>
  The first carry gives each position the value of its frozen twin where the member holds
  no position yet and the value is a usable number, overwrites no position, touches no frozen mark,
  and a second carry over what it left changes nothing.
\<close>

theorem carry_fills_only_missing:
  assumes "list_all marks_ok (carriers net)"
  shows "map mark_of (carriers (fst (carry_marks_to_positions net))) = map carried_mark (carriers net)
     \<and> map mark_of (carriers (fst (carry_marks_to_positions (fst (carry_marks_to_positions net)))))
         = map mark_of (carriers (fst (carry_marks_to_positions net)))"
proof -
  let ?c = "fst (carry_marks_to_positions net)"
  have one: "map mark_of (carriers ?c) = map carried_mark (carriers net)"
    by (rule carriers_carried [OF assms(1)])
  have "map carried_mark ys = map mark_of ys" if "map mark_of ys = map carried_mark xs" for xs ys
    using that
    by (auto simp: list_eq_iff_nth_eq fun_eq_iff intro!: carried_again)
  then show ?thesis using one carriers_carried [OF carriers_carried_ok [OF assms]] by metis
qed

definition demo_marked :: network where
  "demo_marked = demo_network Club
     [(demo_member ''bob'' None None None)\<lparr>m_marks := (\<lambda>k. if k = LastPosPushed then Some [(''wiki'', Mark_number 4)] else None)\<rparr>]
     \<lparr>n_spaces := [''wiki'', ''ops''], n_spaceMap := Some [(''shared'', ''wiki'')],
      n_pendingSpaces := Some [\<lparr>p_networkId = ''shared'', p_localId = ''wiki'', p_why = [], p_from = [], p_at = At 0\<rparr>]\<rparr>"

theorem take_out_leaves_nothing_witness:
  "n_spaces (fst (take_space_out_of_network demo_marked ''wiki'')) = [''ops'']
   \<and> or_empty (n_pendingSpaces (fst (take_space_out_of_network demo_marked ''wiki''))) = []"
proof -
  have h: "alias_ok (n_spaceMap demo_marked)" "''wiki'' \<in> set (n_spaces demo_marked)"
    by (simp_all add: demo_marked_def demo_network_def alias_ok_def entries_ok_def)
  have id: "local_to_remote (n_spaceMap demo_marked) ''wiki'' = ''shared''"
    by code_simp
  show ?thesis
    using take_out_leaves_nothing [OF h] id by (simp add: Let_def) (simp add: demo_marked_def demo_network_def)
qed

end
