(* ===== verification/Space_Acts.thy ===== *)
theory Space_Acts
  imports Space_Marks Governance Backoff
begin

text \<open>
  The space acts: what is done to a whole space (delete, wipe, rename, restore, migrate, import), each
  registered as an entry of the configuration, run once, and finished, failed or abandoned
  (\<open>server/src/spaces/space-act-runner.ts\<close>, \<open>server/src/config/types-space-acts.ts\<close>).  The acts' bodies and the queues that order them are not
  modelled: what a body answers is the argument of the completion, and the writes to the configuration
  are what is modelled.  A sentence the source keeps or answers is a constructor that carries what the
  sentence names.
\<close>

section \<open>The kinds of acts\<close>

datatype act_kind = Act_delete | Act_wipe | Act_rename | Act_restore | Act_migrate | Act_import

datatype act_lane = Lane_space_op | Lane_wipe | Lane_restore | Lane_import

datatype act_key_field = Key_types | Key_networkId | Key_newId | Key_spoolId

datatype post_step = Forget_receive_marks | Forget_received

record act_kind_spec =
  ks_lane :: act_lane
  ks_writeRefusalCode :: string
  ks_writeRefusalWhy :: "string option \<Rightarrow> string"
  ks_instanceWide :: bool
  ks_keyFields :: "act_key_field list"
  ks_forgetsMarks :: "post_step option"
  ks_wholeSet :: bool

fun SPACE_ACT_KINDS :: "act_kind \<Rightarrow> act_kind_spec" where
  "SPACE_ACT_KINDS Act_delete =
     \<lparr>ks_lane = Lane_space_op, ks_writeRefusalCode = ''space_being_deleted'',
      ks_writeRefusalWhy = (\<lambda>n. ''it is being deleted''),
      ks_instanceWide = False, ks_keyFields = [Key_networkId], ks_forgetsMarks = None, ks_wholeSet = False\<rparr>"
| "SPACE_ACT_KINDS Act_wipe =
     \<lparr>ks_lane = Lane_wipe, ks_writeRefusalCode = ''space_being_wiped'',
      ks_writeRefusalWhy = (\<lambda>n. ''it is being wiped; retry once the wipe completes''),
      ks_instanceWide = False, ks_keyFields = [Key_types], ks_forgetsMarks = Some Forget_receive_marks, ks_wholeSet = False\<rparr>"
| "SPACE_ACT_KINDS Act_rename =
     \<lparr>ks_lane = Lane_space_op, ks_writeRefusalCode = ''space_being_renamed'',
      ks_writeRefusalWhy = (\<lambda>n. ''it is being renamed to '' @ [CHR 0x27] @ or_blank n @ [CHR 0x27]
        @ ''; retry under the new id once the rename completes''),
      ks_instanceWide = False, ks_keyFields = [Key_newId], ks_forgetsMarks = None, ks_wholeSet = False\<rparr>"
| "SPACE_ACT_KINDS Act_restore =
     \<lparr>ks_lane = Lane_restore, ks_writeRefusalCode = ''space_being_restored'',
      ks_writeRefusalWhy = (\<lambda>n. ''the instance is being restored from a backup; retry once the restore completes''),
      ks_instanceWide = True, ks_keyFields = [], ks_forgetsMarks = Some Forget_received, ks_wholeSet = False\<rparr>"
| "SPACE_ACT_KINDS Act_migrate =
     \<lparr>ks_lane = Lane_restore, ks_writeRefusalCode = ''space_being_migrated'',
      ks_writeRefusalWhy = (\<lambda>n. ''the instance is being copied to another database; retry once the migration completes''),
      ks_instanceWide = True, ks_keyFields = [], ks_forgetsMarks = None, ks_wholeSet = True\<rparr>"
| "SPACE_ACT_KINDS Act_import =
     \<lparr>ks_lane = Lane_import, ks_writeRefusalCode = ''space_being_imported'',
      ks_writeRefusalWhy = (\<lambda>n. ''an import is restoring it; retry once the import completes''),
      ks_instanceWide = False, ks_keyFields = [Key_spoolId], ks_forgetsMarks = Some Forget_received, ks_wholeSet = False\<rparr>"

definition SPACE_ACT_KIND_NAMES :: "act_kind list" where
  "SPACE_ACT_KIND_NAMES = [Act_delete, Act_wipe, Act_rename, Act_restore, Act_migrate, Act_import]"

definition is_instance_wide :: "act_kind \<Rightarrow> bool" where
  "is_instance_wide k = ks_instanceWide (SPACE_ACT_KINDS k)"

fun kind_text :: "act_kind \<Rightarrow> string" where
  "kind_text Act_delete = ''delete''"
| "kind_text Act_wipe = ''wipe''"
| "kind_text Act_rename = ''rename''"
| "kind_text Act_restore = ''restore''"
| "kind_text Act_migrate = ''migrate''"
| "kind_text Act_import = ''import''"

section \<open>Entries, sets and requests\<close>

datatype act_state = Registered | Draining | Running | Owed

type_synonym act_round = "string \<times> string"

record act_post_steps =
  ps_forgetReceiveMarks :: "(string \<times> string) list option"
  ps_forgetReceived :: "(string \<times> string) list option"

text \<open>The sentence an entry or a set keeps about its last failure.\<close>

datatype act_failure =
    Cannot_complete act_kind string string
  | Set_ended act_kind string
  | Space_retried_at act_kind string iso
  | Set_retried_at act_kind iso

record space_act_entry = act_entry +
  e_kind :: act_kind
  e_localId :: string
  e_types :: "brain_collection list option"
  e_networkId :: "string option"
  e_newId :: "string option"
  e_postSteps :: act_post_steps
  e_registeredAt :: iso
  e_state :: act_state
  e_attempts :: nat
  e_retryAt :: "iso option"
  e_lastError :: "act_failure option"
  e_needsAbandon :: "bool option"
  e_setId :: "string option"
  e_backupId :: "string option"
  e_spoolId :: "string option"

datatype set_member_state = Standing | Done | Abandoned

record set_member =
  sm_state :: set_member_state
  sm_completedAt :: "iso option"
  sm_report :: "string option"

datatype set_outcome = Set_completed | Set_abandoned

record act_set =
  st_id :: string
  st_kind :: act_kind
  st_startedAt :: iso
  st_endedAt :: "iso option"
  st_outcome :: "set_outcome option"
  st_backupId :: "string option"
  st_members :: "set_member obj"
  st_emptied :: "string list option"
  st_leftOut :: "string list option"
  st_target :: "string option"
  st_lastError :: "act_failure option"

text \<open>A space operation that began before the acts had entries: a rename or a delete under way.\<close>

record pending_space_op =
  op_type :: act_kind
  op_spaceId :: string
  op_newId :: "string option"

text \<open>The configuration, with the local spaces' ids and what stands on them.\<close>

record act_config = config +
  g_spaces :: "string list"
  g_pendingSpaceActs :: "space_act_entry list option"
  g_spaceActSets :: "act_set list option"
  g_pendingSpaceOp :: "pending_space_op option"

record act_request =
  rq_kind :: act_kind
  rq_localId :: string
  rq_types :: "brain_collection list option"
  rq_networkId :: "string option"
  rq_newId :: "string option"
  rq_round :: "act_round option"
  rq_setId :: "string option"
  rq_backupId :: "string option"
  rq_spoolId :: "string option"

record act_shape =
  sh_kind :: act_kind
  sh_localId :: string
  sh_types :: "brain_collection list option"
  sh_networkId :: "string option"
  sh_newId :: "string option"
  sh_spoolId :: "string option"

definition standing_entries :: "act_config \<Rightarrow> space_act_entry list" where
  "standing_entries cfg = or_empty (g_pendingSpaceActs cfg)"

definition read_entry :: "act_config \<Rightarrow> string \<Rightarrow> space_act_entry option" where
  "read_entry cfg i = List.find (\<lambda>e. e_id e = i) (standing_entries cfg)"

text \<open>\<open>...(x ? { x } : {})\<close>: an empty text is left out.\<close>

definition given_str :: "string option \<Rightarrow> string option" where
  "given_str s = (if truthy_str s then s else None)"

section \<open>One key per act\<close>

text \<open>
  The names come typed here, so the refusal of a name that is no collection cannot arise; a wipe of
  every collection is written as a wipe without types.
\<close>

definition canonical_wipe_types :: "brain_collection list option \<Rightarrow> brain_collection list option" where
  "canonical_wipe_types types =
     (case types of
        None \<Rightarrow> None
      | Some ts \<Rightarrow>
          if ts = [] then None
          else let covered = canonical_round_wipe_types ts
               in if length covered = length BRAIN_COLLECTIONS then None else Some covered)"

fun KEY_PART :: "act_key_field \<Rightarrow> act_shape \<Rightarrow> string" where
  "KEY_PART Key_types s = (case sh_types s of Some ts \<Rightarrow> join_with '','' (map collection_text ts) | None \<Rightarrow> ''all'')"
| "KEY_PART Key_networkId s = (case sh_networkId s of Some n \<Rightarrow> n | None \<Rightarrow> ''solo'')"
| "KEY_PART Key_newId s = or_blank (sh_newId s)"
| "KEY_PART Key_spoolId s = or_blank (sh_spoolId s)"

definition key_of :: "act_shape \<Rightarrow> string" where
  "key_of s = join_with ''|''
     ([kind_text (sh_kind s), sh_localId s] @ map (\<lambda>f. KEY_PART f s) (ks_keyFields (SPACE_ACT_KINDS (sh_kind s))))"

definition entry_shape :: "space_act_entry \<Rightarrow> act_shape" where
  "entry_shape e = \<lparr>sh_kind = e_kind e, sh_localId = e_localId e, sh_types = e_types e,
     sh_networkId = e_networkId e, sh_newId = e_newId e, sh_spoolId = e_spoolId e\<rparr>"

definition shape_of :: "act_request \<Rightarrow> act_shape" where
  "shape_of rq =
     (let keyed = set (ks_keyFields (SPACE_ACT_KINDS (rq_kind rq))) in
      \<lparr>sh_kind = rq_kind rq, sh_localId = rq_localId rq,
       sh_types = (if Key_types \<in> keyed then canonical_wipe_types (rq_types rq) else None),
       sh_networkId = (if Key_networkId \<in> keyed then rq_networkId rq else None),
       sh_newId = (if Key_newId \<in> keyed then rq_newId rq else None),
       sh_spoolId = (if Key_spoolId \<in> keyed then rq_spoolId rq else None)\<rparr>)"

section \<open>What stands on a space\<close>

datatype act_types = All_types | Some_types "brain_collection list"

record act_standing =
  sd_entryId :: string
  sd_kind :: act_kind
  sd_types :: act_types
  sd_state :: act_state
  sd_newId :: "string option"

text \<open>
  The scan of the entries with their indices: \<open>asker\<close> is the index of the act that asks (\<open>None\<close> for
  -1), which later acts do not hold up.
\<close>

fun stands_scan ::
  "string \<Rightarrow> brain_collection list option \<Rightarrow> string option \<Rightarrow> nat option \<Rightarrow> nat \<Rightarrow> space_act_entry list \<Rightarrow> space_act_entry option" where
  "stands_scan sp types except asker i [] = None"
| "stands_scan sp types except asker i (e # es) =
     (if e_localId e \<noteq> sp \<or> except = Some (e_id e) then stands_scan sp types except asker (Suc i) es
      else if (case asker of Some a \<Rightarrow> a < i | None \<Rightarrow> False) then stands_scan sp types except asker (Suc i) es
      else if (case (types, e_types e) of
                 (Some ts, Some us) \<Rightarrow> \<not> list_ex (\<lambda>t. t \<in> set us) ts
               | _ \<Rightarrow> False) then stands_scan sp types except asker (Suc i) es
      else Some e)"

definition standing_view :: "space_act_entry \<Rightarrow> act_standing" where
  "standing_view e = \<lparr>sd_entryId = e_id e, sd_kind = e_kind e,
     sd_types = (case e_types e of None \<Rightarrow> All_types | Some ts \<Rightarrow> Some_types ts),
     sd_state = e_state e, sd_newId = given_str (e_newId e)\<rparr>"

definition space_act_stands ::
  "act_kind option \<Rightarrow> act_config \<Rightarrow> string \<Rightarrow> brain_collection list option \<Rightarrow> string option \<Rightarrow> act_standing option" where
  "space_act_stands leavingFor cfg sp types except =
     (case leavingFor of
        Some k \<Rightarrow> Some \<lparr>sd_entryId = [], sd_kind = k, sd_types = All_types, sd_state = Running, sd_newId = None\<rparr>
      | None \<Rightarrow>
        (let asker = (case except of None \<Rightarrow> None | Some i \<Rightarrow> find_index (\<lambda>e. e_id e = i) (standing_entries cfg)) in
         case stands_scan sp types except asker 0 (standing_entries cfg) of
           Some e \<Rightarrow> Some (standing_view e)
         | None \<Rightarrow>
           (case g_pendingSpaceOp cfg of
              None \<Rightarrow> None
            | Some op' \<Rightarrow>
                if op_spaceId op' = sp
                then Some \<lparr>sd_entryId = [], sd_kind = op_type op', sd_types = All_types, sd_state = Running,
                           sd_newId = given_str (op_newId op')\<rparr>
                else None)))"

definition space_act_joined_by :: "act_config \<Rightarrow> act_request \<Rightarrow> space_act_entry option" where
  "space_act_joined_by cfg rq =
     List.find (\<lambda>e. key_of (entry_shape e) = key_of (shape_of rq)) (standing_entries cfg)"

definition space_acts_of_kind :: "act_config \<Rightarrow> act_kind \<Rightarrow> space_act_entry list" where
  "space_acts_of_kind cfg k = filter (\<lambda>e. e_kind e = k) (standing_entries cfg)"

definition space_acts_of_space :: "act_config \<Rightarrow> string \<Rightarrow> space_act_entry list" where
  "space_acts_of_space cfg sp = filter (\<lambda>e. e_localId e = sp) (standing_entries cfg)"

definition space_acts_of_network :: "act_config \<Rightarrow> string \<Rightarrow> space_act_entry list" where
  "space_acts_of_network cfg n =
     filter (\<lambda>e. list_ex (\<lambda>r. fst r = n) (e_rounds e) \<or> e_networkId e = Some n) (standing_entries cfg)"

definition instance_wide_act_standing :: "act_config \<Rightarrow> act_kind option" where
  "instance_wide_act_standing cfg =
     map_option e_kind (List.find (\<lambda>e. is_instance_wide (e_kind e)) (standing_entries cfg))"

section \<open>Registering an act\<close>

datatype act_error = Acts_closed

definition add_round :: "act_round option \<Rightarrow> act_round list \<Rightarrow> act_round list" where
  "add_round r rs = (case r of None \<Rightarrow> rs | Some x \<Rightarrow> if x \<in> set rs then rs else rs @ [x])"

definition marks_to_forget :: "act_config \<Rightarrow> act_request \<Rightarrow> act_post_steps" where
  "marks_to_forget cfg rq =
     (let step = ks_forgetsMarks (SPACE_ACT_KINDS (rq_kind rq));
          forget = (if step = None then []
                    else map (\<lambda>n. (n_id n, rq_localId rq)) (filter (\<lambda>n. rq_localId rq \<in> set (n_spaces n)) (g_networks cfg)))
      in \<lparr>ps_forgetReceiveMarks = (if step = Some Forget_receive_marks \<and> forget \<noteq> [] then Some forget else None),
          ps_forgetReceived = (if step = Some Forget_received \<and> forget \<noteq> [] then Some forget else None)\<rparr>)"

definition new_entry :: "act_config \<Rightarrow> act_request \<Rightarrow> string \<Rightarrow> int \<Rightarrow> space_act_entry" where
  "new_entry cfg rq uid now =
     (let shape = shape_of rq in
      \<lparr>e_id = uid, e_rounds = (case rq_round rq of None \<Rightarrow> [] | Some r \<Rightarrow> [r]),
       e_kind = rq_kind rq, e_localId = rq_localId rq, e_types = sh_types shape,
       e_networkId = given_str (sh_networkId shape), e_newId = given_str (sh_newId shape),
       e_postSteps = marks_to_forget cfg rq, e_registeredAt = At now, e_state = Registered,
       e_attempts = 0, e_retryAt = None, e_lastError = None, e_needsAbandon = None,
       e_setId = given_str (rq_setId rq), e_backupId = given_str (rq_backupId rq),
       e_spoolId = given_str (sh_spoolId shape)\<rparr>)"

text \<open>
  The entry and whether it was joined.  The transfers under way for the space are told to stop; that
  is not part of the configuration.  The fresh id is the argument \<open>uid\<close>.
\<close>

definition register_space_act ::
  "bool \<Rightarrow> act_config \<Rightarrow> act_request \<Rightarrow> string \<Rightarrow> int \<Rightarrow> act_error + (act_config \<times> space_act_entry \<times> bool)" where
  "register_space_act shut cfg rq uid now =
     (if shut then Inl Acts_closed
      else
        let key = key_of (shape_of rq); list = standing_entries cfg in
        case find_index (\<lambda>e. key_of (entry_shape e) = key) list of
          Some i \<Rightarrow>
            let same = (list ! i)\<lparr>e_rounds := add_round (rq_round rq) (e_rounds (list ! i))\<rparr>
            in Inr (cfg\<lparr>g_pendingSpaceActs := Some (list[i := same])\<rparr>, same, True)
        | None \<Rightarrow>
            let entry = new_entry cfg rq uid now
            in Inr (cfg\<lparr>g_pendingSpaceActs := Some (list @ [entry])\<rparr>, entry, False))"

section \<open>Sets\<close>

record act_set_request =
  sr_kind :: act_kind
  sr_localIds :: "string list"
  sr_backupId :: "string option"
  sr_emptied :: "string list option"
  sr_leftOut :: "string list option"
  sr_target :: "string option"

definition standing_member :: set_member where
  "standing_member = \<lparr>sm_state = Standing, sm_completedAt = None, sm_report = None\<rparr>"

definition new_set :: "act_set_request \<Rightarrow> string \<Rightarrow> int \<Rightarrow> act_set" where
  "new_set sr setId now =
     \<lparr>st_id = setId, st_kind = sr_kind sr, st_startedAt = At now, st_endedAt = None, st_outcome = None,
      st_backupId = given_str (sr_backupId sr),
      st_members = fold (\<lambda>i m. obj_put i standing_member m) (sr_localIds sr) [],
      st_emptied = sr_emptied sr, st_leftOut = sr_leftOut sr, st_target = given_str (sr_target sr),
      st_lastError = None\<rparr>"

definition set_member_request :: "act_set_request \<Rightarrow> string \<Rightarrow> string \<Rightarrow> act_request" where
  "set_member_request sr setId sp =
     \<lparr>rq_kind = sr_kind sr, rq_localId = sp, rq_types = None, rq_networkId = None, rq_newId = None,
      rq_round = None, rq_setId = Some setId, rq_backupId = given_str (sr_backupId sr), rq_spoolId = None\<rparr>"

text \<open>The entries of a set, registered one after the other; \<open>uids\<close> supplies the fresh ids by position.\<close>

fun register_each :: "act_set_request \<Rightarrow> string \<Rightarrow> (nat \<Rightarrow> string) \<Rightarrow> int \<Rightarrow> nat \<Rightarrow> string list \<Rightarrow> act_config \<Rightarrow> act_config \<times> string list" where
  "register_each sr setId uids now i [] cfg = (cfg, [])"
| "register_each sr setId uids now i (sp # sps) cfg =
     (case register_space_act False cfg (set_member_request sr setId sp) (uids i) now of
        Inl err \<Rightarrow> (cfg, [])
      | Inr (cfg1, entry, joined) \<Rightarrow>
          let (cfg2, ids) = register_each sr setId uids now (Suc i) sps cfg1 in (cfg2, e_id entry # ids))"

definition register_space_act_set ::
  "bool \<Rightarrow> act_config \<Rightarrow> act_set_request \<Rightarrow> string \<Rightarrow> (nat \<Rightarrow> string) \<Rightarrow> int \<Rightarrow> act_error + (act_config \<times> act_set \<times> string list)" where
  "register_space_act_set shut cfg sr setId uids now =
     (if shut then Inl Acts_closed
      else
        let st = new_set sr setId now;
            st' = (if sr_localIds sr = []
                   then st\<lparr>st_endedAt := Some (st_startedAt st), st_outcome := Some Set_completed, st_target := None\<rparr>
                   else st);
            cfg1 = cfg\<lparr>g_spaceActSets := Some (filter (\<lambda>s. st_kind s \<noteq> sr_kind sr) (or_empty (g_spaceActSets cfg)) @ [st'])\<rparr>;
            (cfg2, ids) = register_each sr setId uids now 0 (sr_localIds sr) cfg1
        in Inr (cfg2, st'\<lparr>st_target := None\<rparr>, ids))"

section \<open>Settling a round, and the marks a completed act forgets\<close>

text \<open>
  The durable stamp on the round.  How it was settled is only logged, so it is not an argument here.
\<close>

definition settle_space_act :: "vote_round \<Rightarrow> vote_round" where
  "settle_space_act rd = (if r_appliedHere rd = Some True then rd else rd\<lparr>r_appliedHere := Some True\<rparr>)"

definition settle_round_in :: "string \<Rightarrow> network \<Rightarrow> network" where
  "settle_round_in rid net =
     (case find_index (\<lambda>x. r_roundId x = rid) (n_pendingRounds net) of
        None \<Rightarrow> net
      | Some j \<Rightarrow> net\<lparr>n_pendingRounds := update_at j settle_space_act (n_pendingRounds net)\<rparr>)"

text \<open>The first network of an id, changed in place.\<close>

definition on_network :: "string \<Rightarrow> (network \<Rightarrow> network) \<Rightarrow> network list \<Rightarrow> network list" where
  "on_network i f nets =
     (case find_index (\<lambda>n. n_id n = i) nets of None \<Rightarrow> nets | Some k \<Rightarrow> update_at k f nets)"

definition settle_round_ref :: "act_round \<Rightarrow> network list \<Rightarrow> network list" where
  "settle_round_ref r = on_network (fst r) (settle_round_in (snd r))"

definition settle_rounds_of :: "space_act_entry list \<Rightarrow> network list \<Rightarrow> network list" where
  "settle_rounds_of es = fold (\<lambda>e. fold settle_round_ref (e_rounds e)) es"

definition run_post_steps :: "act_post_steps \<Rightarrow> network list \<Rightarrow> network list" where
  "run_post_steps ps nets =
     fold (\<lambda>s. on_network (fst s) (\<lambda>n. forget_what_was_received n (snd s))) (or_empty (ps_forgetReceived ps))
       (fold (\<lambda>s. on_network (fst s) (\<lambda>n. forget_every_mark n (snd s))) (or_empty (ps_forgetReceiveMarks ps)) nets)"

section \<open>Completing an act\<close>

text \<open>What a body answered, as far as the completion reads it; a report is an opaque text.\<close>

record body_outcome =
  bo_refusal :: bool
  bo_failedFinally :: bool
  bo_report :: "string option"

definition runs_whole_set :: "space_act_entry \<Rightarrow> bool" where
  "runs_whole_set e \<longleftrightarrow> ks_wholeSet (SPACE_ACT_KINDS (e_kind e)) \<and> e_setId e \<noteq> None"

definition entries_or_absent :: "space_act_entry list \<Rightarrow> space_act_entry list option" where
  "entries_or_absent es = (if es = [] then None else Some es)"

text \<open>
  The set's part of a completion: the leaving entries' members are done, and the set ends with the last
  entry of it.  The hook a kind has for the end of its set writes the configuration: it is the argument
  \<open>hook\<close>.  The answer says whether the set ended.
\<close>

definition set_done_member :: "body_outcome \<Rightarrow> int \<Rightarrow> set_member" where
  "set_done_member bo doneAt = \<lparr>sm_state = Done, sm_completedAt = Some (At doneAt), sm_report = bo_report bo\<rparr>"

definition mark_members :: "set_member \<Rightarrow> string list \<Rightarrow> act_set \<Rightarrow> act_set" where
  "mark_members sm ids st = st\<lparr>st_members := fold (\<lambda>i m. obj_put i sm m) ids (st_members st)\<rparr>"

definition standing_set_index :: "act_config \<Rightarrow> string \<Rightarrow> nat option" where
  "standing_set_index cfg i =
     find_index (\<lambda>s. st_id s = i \<and> \<not> truthy_date (st_endedAt s)) (or_empty (g_spaceActSets cfg))"

definition put_set :: "nat \<Rightarrow> act_set \<Rightarrow> act_config \<Rightarrow> act_config" where
  "put_set k st cfg = cfg\<lparr>g_spaceActSets := Some ((or_empty (g_spaceActSets cfg))[k := st])\<rparr>"

definition complete_set ::
  "(act_set \<Rightarrow> act_config \<Rightarrow> act_config) \<Rightarrow> body_outcome \<Rightarrow> int \<Rightarrow> space_act_entry \<Rightarrow> space_act_entry list \<Rightarrow> act_config \<Rightarrow> act_config \<times> bool" where
  "complete_set hook bo doneAt self leaving cfg =
     (case e_setId self of
        None \<Rightarrow> (cfg, False)
      | Some sid \<Rightarrow>
        if sid = [] then (cfg, False)
        else case standing_set_index cfg sid of
          None \<Rightarrow> (cfg, False)
        | Some k \<Rightarrow>
          let st = mark_members (set_done_member bo doneAt)
                     (map e_localId (filter (\<lambda>e. e_setId e = Some sid) leaving)) (or_empty (g_spaceActSets cfg) ! k)
          in if list_ex (\<lambda>e. e_setId e = Some sid) (standing_entries cfg) then (put_set k st cfg, False)
             else let st1 = st\<lparr>st_endedAt := Some (At doneAt), st_outcome := Some Set_completed\<rparr>;
                      cfg1 = hook st1 (put_set k st1 cfg)
                  in (put_set k (st1\<lparr>st_target := None\<rparr>) cfg1, True))"

definition act_leaves :: "space_act_entry \<Rightarrow> bool \<Rightarrow> bool \<Rightarrow> space_act_entry \<Rightarrow> bool" where
  "act_leaves self spaceGone wholeSetDone e \<longleftrightarrow>
     e_id e = e_id self \<or> (spaceGone \<and> e_localId e = e_localId self) \<or> (wholeSetDone \<and> e_setId e = e_setId self)"

definition leaving_of :: "act_config \<Rightarrow> space_act_entry \<Rightarrow> bool \<Rightarrow> space_act_entry list" where
  "leaving_of cfg entry refused =
     (let self = (case read_entry cfg (e_id entry) of Some e \<Rightarrow> e | None \<Rightarrow> entry);
          spaceGone = (e_kind entry = Act_delete \<and> e_localId entry \<notin> set (g_spaces cfg))
      in filter (act_leaves self spaceGone (runs_whole_set entry \<and> \<not> refused)) (standing_entries cfg))"

text \<open>The write a completion makes; \<open>entry\<close> is the entry as it was when its body started.\<close>

definition complete_act ::
  "(act_set \<Rightarrow> act_config \<Rightarrow> act_config) \<Rightarrow> space_act_entry \<Rightarrow> body_outcome \<Rightarrow> int \<Rightarrow> act_config \<Rightarrow> act_config \<times> bool" where
  "complete_act hook entry bo doneAt cfg =
     (if g_pendingSpaceActs cfg = None then (cfg, False)
      else
        let refused = bo_refusal bo \<or> bo_failedFinally bo;
            self = (case read_entry cfg (e_id entry) of Some e \<Rightarrow> e | None \<Rightarrow> entry);
            leaving = leaving_of cfg entry refused;
            leavingIds = set (map e_id leaving);
            cfg1 = cfg\<lparr>g_pendingSpaceActs := entries_or_absent (filter (\<lambda>e. e_id e \<notin> leavingIds) (standing_entries cfg))\<rparr>
        in if refused then (cfg1, False)
           else let (cfg2, ended) = complete_set hook bo doneAt self leaving cfg1
                in (cfg2\<lparr>g_networks := settle_rounds_of leaving (run_post_steps (e_postSteps self) (g_networks cfg2))\<rparr>, ended))"

section \<open>Abandoning a set, and a body that failed\<close>

definition abandoned_member :: set_member where
  "abandoned_member = \<lparr>sm_state = Abandoned, sm_completedAt = None, sm_report = None\<rparr>"

definition abandon_standing :: "set_member obj \<Rightarrow> set_member obj" where
  "abandon_standing m = map (\<lambda>(i, sm). (i, if sm_state sm = Standing then sm\<lparr>sm_state := Abandoned\<rparr> else sm)) m"

definition abandoned_set :: "int \<Rightarrow> act_failure option \<Rightarrow> string list \<Rightarrow> act_set \<Rightarrow> act_set" where
  "abandoned_set now lastError left st =
     (let st1 = mark_members abandoned_member left st
      in st1\<lparr>st_members := abandon_standing (st_members st1), st_endedAt := Some (At now),
             st_outcome := Some Set_abandoned,
             st_lastError := (if lastError = None then st_lastError st1 else lastError), st_target := None\<rparr>)"

text \<open>The space ids left are answered in order; \<open>sort\<close> on texts is by code unit.\<close>

definition end_set_abandoned :: "string \<Rightarrow> act_failure option \<Rightarrow> int \<Rightarrow> act_config \<Rightarrow> act_config \<times> string list \<times> act_set option" where
  "end_set_abandoned sid lastError now cfg =
     (let mine = filter (\<lambda>e. e_setId e = Some sid) (standing_entries cfg);
          left = map e_localId mine;
          nets = fold (\<lambda>e ns. settle_rounds_of [e] (run_post_steps (e_postSteps e) ns)) mine (g_networks cfg);
          cfg1 = cfg\<lparr>g_pendingSpaceActs := entries_or_absent (filter (\<lambda>e. e_setId e \<noteq> Some sid) (standing_entries cfg)),
                     g_networks := nets\<rparr>
      in case find_index (\<lambda>s. st_id s = sid) (or_empty (g_spaceActSets cfg)) of
           None \<Rightarrow> (cfg1, sort left, None)
         | Some k \<Rightarrow>
             let st = abandoned_set now lastError left (or_empty (g_spaceActSets cfg) ! k)
             in (put_set k st cfg1, sort left, Some st))"

text \<open>
  The answer of \<open>abandonSpaceActSet\<close>: no set of the kind stands, or a space of it runs (\<open>running\<close> tells the
  spaces whose body runs now), or what was left and the set as it ended.
\<close>

datatype set_abandon =
    Abandon_none_standing
  | Abandon_running "string list"
  | Abandon_done act_set "string list"

definition abandon_space_act_set :: "(string \<Rightarrow> bool) \<Rightarrow> act_kind \<Rightarrow> int \<Rightarrow> act_config \<Rightarrow> act_config \<times> set_abandon" where
  "abandon_space_act_set running k now cfg =
     (case List.find (\<lambda>s. st_kind s = k \<and> \<not> truthy_date (st_endedAt s)) (or_empty (g_spaceActSets cfg)) of
        None \<Rightarrow> (cfg, Abandon_none_standing)
      | Some st \<Rightarrow>
        let busy = map e_localId (filter (\<lambda>e. e_setId e = Some (st_id st) \<and> (e_state e = Running \<or> running (e_localId e)))
                     (standing_entries cfg))
        in if busy \<noteq> [] then (cfg, Abandon_running busy)
           else let (cfg1, left, ended) = end_set_abandoned (st_id st) None now cfg
                in (cfg1, Abandon_done (case ended of Some s \<Rightarrow> s | None \<Rightarrow> st) left))"

section \<open>A body that failed\<close>

definition set_act_state :: "string \<Rightarrow> act_state \<Rightarrow> act_config \<Rightarrow> act_config" where
  "set_act_state i s cfg =
     (case find_index (\<lambda>e. e_id e = i) (standing_entries cfg) of
        None \<Rightarrow> cfg
      | Some k \<Rightarrow>
          if e_state (standing_entries cfg ! k) = s then cfg
          else cfg\<lparr>g_pendingSpaceActs := Some (update_at k (\<lambda>e. e\<lparr>e_state := s\<rparr>) (standing_entries cfg))\<rparr>)"

definition owed_entry :: "nat \<Rightarrow> act_failure \<Rightarrow> iso option \<Rightarrow> space_act_entry \<Rightarrow> space_act_entry" where
  "owed_entry attempts sentence retryAt e =
     e\<lparr>e_attempts := attempts, e_state := Owed, e_lastError := Some sentence, e_retryAt := retryAt,
       e_needsAbandon := (if retryAt = None then Some True else None)\<rparr>"

datatype fail_answer =
    Fail_interrupted
  | Fail_failed act_failure "iso option"

text \<open>
  \<open>input\<close> is the message of a \<open>SpaceActInputFailure\<close>, absent for any other error; \<open>r\<close> is the random
  number of the jitter.
\<close>

definition retry_time :: "nat \<Rightarrow> int \<Rightarrow> rat \<Rightarrow> iso" where
  "retry_time attempts now r = At (now + backoff_delay_ms (Attempt (int attempts - 1)) (Fin 60000) (Fin 3600000) r)"

definition next_attempts :: "act_config \<Rightarrow> space_act_entry \<Rightarrow> nat" where
  "next_attempts cfg entry =
     Suc (case read_entry cfg (e_id entry) of Some e \<Rightarrow> e_attempts e | None \<Rightarrow> e_attempts entry)"

definition next_retry :: "act_config \<Rightarrow> space_act_entry \<Rightarrow> string option \<Rightarrow> int \<Rightarrow> rat \<Rightarrow> iso option" where
  "next_retry cfg entry input now r =
     (if input = None then Some (retry_time (next_attempts cfg entry) now r) else None)"

definition failure_sentence :: "space_act_entry \<Rightarrow> string option \<Rightarrow> iso option \<Rightarrow> act_failure" where
  "failure_sentence entry input retryAt =
     (case input of
        Some why \<Rightarrow> Cannot_complete (e_kind entry) (e_localId entry) why
      | None \<Rightarrow> if runs_whole_set entry then Set_retried_at (e_kind entry) (the retryAt)
                else Space_retried_at (e_kind entry) (e_localId entry) (the retryAt))"

definition fails_with :: "space_act_entry \<Rightarrow> space_act_entry \<Rightarrow> bool" where
  "fails_with entry x \<longleftrightarrow> e_id x = e_id entry \<or> (runs_whole_set entry \<and> e_setId x = e_setId entry)"

definition fail_act ::
  "bool \<Rightarrow> space_act_entry \<Rightarrow> string option \<Rightarrow> int \<Rightarrow> rat \<Rightarrow> act_config \<Rightarrow> act_config \<times> fail_answer" where
  "fail_act shut entry input now r cfg =
     (if shut then (cfg, Fail_interrupted)
      else if runs_whole_set entry \<and> input \<noteq> None
      then let sentence = Set_ended (e_kind entry) (the input)
           in (fst (end_set_abandoned (the (e_setId entry)) (Some sentence) now cfg), Fail_failed sentence None)
      else
        let retryAt = next_retry cfg entry input now r;
            sentence = failure_sentence entry input retryAt;
            owe = (\<lambda>x. if fails_with entry x then owed_entry (next_attempts cfg entry) sentence retryAt x else x)
        in (cfg\<lparr>g_pendingSpaceActs := map_option (map owe) (g_pendingSpaceActs cfg)\<rparr>, Fail_failed sentence retryAt))"

section \<open>What is due\<close>

definition space_act_due_at :: "space_act_entry \<Rightarrow> int \<Rightarrow> bool" where
  "space_act_due_at e now \<longleftrightarrow>
     e_state e \<noteq> Owed
     \<or> (\<not> truthy_bool (e_needsAbandon e)
        \<and> (case e_retryAt e of None \<Rightarrow> True | Some t \<Rightarrow> (case date_parse t of Some d \<Rightarrow> d \<le> now | None \<Rightarrow> False)))"

text \<open>The acts a start resumes, space by space in the order they stand, and the ones a tick retries.\<close>

definition acts_to_resume :: "act_config \<Rightarrow> int \<Rightarrow> (string, string list) es_map" where
  "acts_to_resume cfg now =
     fold (\<lambda>e m. map_put (e_localId e) (or_empty (map_of m (e_localId e)) @ [e_id e]) m)
       (filter (\<lambda>e. space_act_due_at e now) (standing_entries cfg)) []"

definition acts_to_retry :: "act_config \<Rightarrow> int \<Rightarrow> string list" where
  "acts_to_retry cfg now =
     map e_id (filter (\<lambda>e. e_state e = Owed \<and> space_act_due_at e now) (standing_entries cfg))"

definition owed_space_act_count :: "act_config \<Rightarrow> nat" where
  "owed_space_act_count cfg = length (filter (\<lambda>e. e_state e = Owed) (standing_entries cfg))"

definition oldest_owed_space_act_seconds :: "act_config \<Rightarrow> int \<Rightarrow> int" where
  "oldest_owed_space_act_seconds cfg now =
     (let owed = List.map_filter (\<lambda>e. date_parse (e_registeredAt e)) (filter (\<lambda>e. e_state e = Owed) (standing_entries cfg))
      in if owed = [] then 0 else max 0 (js_round (of_int (now - Min (set owed)) / 1000)))"

definition waiting_space_acts :: "act_config \<Rightarrow> act_kind \<Rightarrow> nat" where
  "waiting_space_acts cfg k = length (filter (\<lambda>e. e_state e = Draining \<and> e_kind e = k) (standing_entries cfg))"

text \<open>The acts left standing when the server stops: every one that is not owed.\<close>

definition acts_left_at_close :: "act_config \<Rightarrow> (act_kind \<times> string \<times> string \<times> act_state) list" where
  "acts_left_at_close cfg =
     map (\<lambda>e. (e_kind e, e_localId e, e_id e, e_state e)) (filter (\<lambda>e. e_state e \<noteq> Owed) (standing_entries cfg))"

text \<open>
  Which entry a run is of: an entry of a set that runs as a whole runs as the set's first entry.  A
  whole set waits for the transfers of every space of it.
\<close>

definition lead_of_set :: "act_config \<Rightarrow> string \<Rightarrow> space_act_entry option" where
  "lead_of_set cfg sid = List.find (\<lambda>e. e_setId e = Some sid) (standing_entries cfg)"

definition entry_to_run :: "act_config \<Rightarrow> string \<Rightarrow> string" where
  "entry_to_run cfg i =
     (case read_entry cfg i of
        None \<Rightarrow> i
      | Some e \<Rightarrow> if runs_whole_set e then (case lead_of_set cfg (the (e_setId e)) of Some l \<Rightarrow> e_id l | None \<Rightarrow> i) else i)"

definition spaces_to_drain :: "act_config \<Rightarrow> space_act_entry \<Rightarrow> string list" where
  "spaces_to_drain cfg e =
     (if runs_whole_set e then map e_localId (filter (\<lambda>x. e_setId x = e_setId e) (standing_entries cfg)) else [e_localId e])"

section \<open>Lemmas: one entry per key\<close>

abbreviation entry_key :: "space_act_entry \<Rightarrow> string" where
  "entry_key e \<equiv> key_of (entry_shape e)"

definition request_ok :: "act_request \<Rightarrow> bool" where
  "request_ok rq \<longleftrightarrow> rq_networkId rq \<noteq> Some []"

lemma or_blank_given [simp]: "or_blank (given_str s) = or_blank s"
  by (cases s) (simp_all add: given_str_def or_blank_def)

lemma key_new_entry:
  assumes "request_ok rq"
  shows "entry_key (new_entry cfg rq uid now) = key_of (shape_of rq)"
  using assms
  by (cases "rq_kind rq")
    (auto simp: key_of_def entry_shape_def new_entry_def shape_of_def request_ok_def given_str_def or_blank_def
      Let_def split: option.split)

lemma standing_entries_put [simp]:
  "standing_entries (cfg\<lparr>g_pendingSpaceActs := Some es\<rparr>) = es"
  "standing_entries (cfg\<lparr>g_networks := nets\<rparr>) = standing_entries cfg"
  "standing_entries (cfg\<lparr>g_spaceActSets := sets\<rparr>) = standing_entries cfg"
  "standing_entries (cfg\<lparr>g_pendingSpaceActs := entries_or_absent es\<rparr>) = es"
  by (simp_all add: standing_entries_def entries_or_absent_def)

text \<open>What every write keeps of the entries.\<close>

definition entries_fine :: "space_act_entry list \<Rightarrow> bool" where
  "entries_fine es \<longleftrightarrow> distinct (map e_id es) \<and> distinct (map entry_key es)
     \<and> list_all (\<lambda>e. e_needsAbandon e = Some True \<longrightarrow> e_retryAt e = None) es"

definition acts_ok :: "act_config \<Rightarrow> bool" where
  "acts_ok cfg \<longleftrightarrow> entries_fine (standing_entries cfg) \<and> g_pendingSpaceActs cfg \<noteq> Some []"

lemma entries_fine_filter: "entries_fine es \<Longrightarrow> entries_fine (filter P es)"
  by (auto simp: entries_fine_def distinct_map_filter list_all_iff)

lemma entries_fine_map:
  assumes "entries_fine es" "\<And>e. e_id (f e) = e_id e" "\<And>e. entry_shape (f e) = entry_shape e"
    and "\<And>e. (e_needsAbandon e = Some True \<longrightarrow> e_retryAt e = None) \<Longrightarrow> e_needsAbandon (f e) = Some True \<Longrightarrow> e_retryAt (f e) = None"
  shows "entries_fine (map f es)"
  using assms by (auto simp: entries_fine_def comp_def list_all_iff)

lemma update_at_map_same:
  assumes "\<And>e. h (f e) = h e"
  shows "map h (update_at k f xs) = map h xs"
  using assms by (simp add: update_at_def map_update list_update_same_conv)

lemma entries_fine_update_at:
  assumes "entries_fine es" "\<And>e. e_id (f e) = e_id e" "\<And>e. entry_shape (f e) = entry_shape e"
    and "\<And>e. e_needsAbandon (f e) = e_needsAbandon e" "\<And>e. e_retryAt (f e) = e_retryAt e"
  shows "entries_fine (update_at k f es)"
proof -
  have "map e_id (update_at k f es) = map e_id es" "map entry_key (update_at k f es) = map entry_key es"
    using assms(2,3) by (simp_all add: update_at_map_same)
  moreover have "list_all (\<lambda>e. e_needsAbandon e = Some True \<longrightarrow> e_retryAt e = None) (update_at k f es)"
    using assms by (intro list_all_update_at) (simp_all add: entries_fine_def)
  ultimately show ?thesis using assms(1) by (simp add: entries_fine_def)
qed

lemma entry_shape_rounds [simp]: "entry_shape (e\<lparr>e_rounds := rs\<rparr>) = entry_shape e"
  "entry_shape (e\<lparr>e_state := s\<rparr>) = entry_shape e"
  "entry_shape (owed_entry a b c e) = entry_shape e"
  by (simp_all add: entry_shape_def owed_entry_def)

lemma register_ok:
  assumes "acts_ok cfg" "request_ok rq" "uid \<notin> e_id ` set (standing_entries cfg)"
    and "register_space_act shut cfg rq uid now = Inr (cfg', e, joined)"
  shows "acts_ok cfg'"
proof (cases "find_index (\<lambda>e. entry_key e = key_of (shape_of rq)) (standing_entries cfg)")
  case None
  then have cfg': "standing_entries cfg' = standing_entries cfg @ [new_entry cfg rq uid now]"
      "g_pendingSpaceActs cfg' \<noteq> Some []"
    using assms(4) by (auto simp: register_space_act_def Let_def split: if_splits)
  have "e_id (new_entry cfg rq uid now) = uid" "e_needsAbandon (new_entry cfg rq uid now) = None"
    by (simp_all add: new_entry_def Let_def)
  moreover have "key_of (shape_of rq) \<notin> entry_key ` set (standing_entries cfg)"
    using None by (auto simp: find_index_None_iff)
  ultimately show ?thesis
    using cfg' assms(1,3) key_new_entry [OF assms(2)] by (auto simp: acts_ok_def entries_fine_def)
next
  case (Some i)
  define f where "f = (\<lambda>e. e\<lparr>e_rounds := add_round (rq_round rq) (e_rounds e)\<rparr> :: space_act_entry)"
  have i: "i < length (standing_entries cfg)" using find_index_SomeD [OF Some] by simp
  have "g_pendingSpaceActs cfg' = Some (update_at i f (standing_entries cfg))"
    using Some assms(4) i by (auto simp: register_space_act_def Let_def f_def update_at_def split: if_splits)
  moreover have "entries_fine (update_at i f (standing_entries cfg))"
    using assms(1) by (intro entries_fine_update_at) (simp_all add: acts_ok_def f_def)
  ultimately show ?thesis using i by (auto simp: acts_ok_def standing_entries_def update_at_def)
qed

text \<open>
  The end-of-set hook of a kind writes settings (a migration's, the address of the new database); it
  leaves the entries and the networks alone.
\<close>

definition hook_ok :: "(act_set \<Rightarrow> act_config \<Rightarrow> act_config) \<Rightarrow> bool" where
  "hook_ok hook \<longleftrightarrow> (\<forall>st cfg. g_pendingSpaceActs (hook st cfg) = g_pendingSpaceActs cfg
     \<and> g_networks (hook st cfg) = g_networks cfg)"

lemma put_set_frame [frame]:
  "g_pendingSpaceActs (put_set k st cfg) = g_pendingSpaceActs cfg"
  "g_networks (put_set k st cfg) = g_networks cfg"
  by (simp_all add: put_set_def)

lemma complete_set_frame:
  "hook_ok hook \<Longrightarrow> g_pendingSpaceActs (fst (complete_set hook bo t self leaving cfg)) = g_pendingSpaceActs cfg
     \<and> g_networks (fst (complete_set hook bo t self leaving cfg)) = g_networks cfg"
  by (simp add: complete_set_def frame hook_ok_def Let_def split: option.split)

definition refused_outcome :: "body_outcome \<Rightarrow> bool" where
  "refused_outcome bo \<longleftrightarrow> bo_refusal bo \<or> bo_failedFinally bo"

lemma complete_act_entries:
  assumes "hook_ok hook" "g_pendingSpaceActs cfg \<noteq> None"
  shows "g_pendingSpaceActs (fst (complete_act hook entry bo t cfg)) =
     entries_or_absent (filter (\<lambda>e. e_id e \<notin> e_id ` set (leaving_of cfg entry (refused_outcome bo))) (standing_entries cfg))"
  using assms(2) complete_set_frame [OF assms(1)]
  by (cases "g_pendingSpaceActs cfg") (simp_all add: complete_act_def refused_outcome_def Let_def split_beta)

lemma standing_entries_absent: "standing_entries cfg = or_empty (g_pendingSpaceActs cfg)"
  by (simp add: standing_entries_def)

lemma entries_or_absent_simps [simp]: "or_empty (entries_or_absent es) = es" "entries_or_absent es \<noteq> Some []"
  by (simp_all add: entries_or_absent_def)

lemma complete_ok:
  assumes "acts_ok cfg" "hook_ok hook"
  shows "acts_ok (fst (complete_act hook entry bo t cfg))"
proof (cases "g_pendingSpaceActs cfg")
  case None
  then show ?thesis using assms(1) by (simp add: complete_act_def)
next
  case (Some es)
  then show ?thesis
    using complete_act_entries [OF assms(2), of cfg entry bo t] assms(1)
    by (simp add: acts_ok_def standing_entries_def entries_fine_filter)
qed

lemma end_set_abandoned_entries:
  "g_pendingSpaceActs (fst (end_set_abandoned sid err now cfg)) =
     entries_or_absent (filter (\<lambda>e. e_setId e \<noteq> Some sid) (standing_entries cfg))"
  by (simp add: end_set_abandoned_def Let_def frame split: option.split)

lemma abandon_ok: "acts_ok cfg \<Longrightarrow> acts_ok (fst (end_set_abandoned sid err now cfg))"
  unfolding acts_ok_def standing_entries_def end_set_abandoned_entries entries_or_absent_simps
  by (simp add: entries_fine_filter)

lemma abandon_set_ok: "acts_ok cfg \<Longrightarrow> acts_ok (fst (abandon_space_act_set running k now cfg))"
  using abandon_ok
  by (simp add: abandon_space_act_set_def Let_def split_beta split: option.split)

lemma set_state_ok:
  assumes "acts_ok cfg"
  shows "acts_ok (set_act_state i s cfg)"
proof -
  have "entries_fine (update_at k (\<lambda>e. e\<lparr>e_state := s\<rparr>) (standing_entries cfg))" for k
    using assms by (intro entries_fine_update_at) (simp_all add: acts_ok_def)
  moreover have "find_index P (standing_entries cfg) = Some k \<Longrightarrow> update_at k f (standing_entries cfg) \<noteq> []" for P k f
    by (auto simp: update_at_def dest: find_index_SomeD)
  ultimately show ?thesis
    using assms by (auto simp: set_act_state_def acts_ok_def split: option.split)
qed

lemma owed_entry_simps [simp]:
  "e_id (owed_entry n s t e) = e_id e" "e_rounds (owed_entry n s t e) = e_rounds e"
  "e_state (owed_entry n s t e) = Owed" "e_retryAt (owed_entry n s t e) = t"
  "e_needsAbandon (owed_entry n s t e) = Some True \<longleftrightarrow> t = None"
  by (auto simp: owed_entry_def)

lemma fail_act_entries:
  assumes "\<not> shut" "\<not> (runs_whole_set entry \<and> input \<noteq> None)"
  shows "g_pendingSpaceActs (fst (fail_act shut entry input now r cfg)) =
     map_option (map (\<lambda>x. if fails_with entry x
         then owed_entry (next_attempts cfg entry) (failure_sentence entry input (next_retry cfg entry input now r))
                (next_retry cfg entry input now r) x
         else x)) (g_pendingSpaceActs cfg)"
  unfolding fail_act_def Let_def if_not_P [OF assms(1)] if_not_P [OF assms(2)] by simp

lemma fail_ok:
  assumes "acts_ok cfg"
  shows "acts_ok (fst (fail_act shut entry input now r cfg))"
proof (cases "shut \<or> runs_whole_set entry \<and> input \<noteq> None")
  case True
  then show ?thesis
    using assms abandon_ok by (auto simp: fail_act_def Let_def)
next
  case False
  have "entries_fine (map (\<lambda>x. if hit x then owed_entry n s t x else x) (standing_entries cfg))" for hit n s t
    using assms by (intro entries_fine_map) (auto simp: acts_ok_def)
  then show ?thesis
    using assms fail_act_entries [of shut entry input now r cfg] False
    by (cases "g_pendingSpaceActs cfg") (auto simp: acts_ok_def standing_entries_def)
qed

section \<open>The steps\<close>

inductive act_step :: "act_config \<Rightarrow> act_config \<Rightarrow> bool" where
  register: "register_space_act shut cfg rq uid now = Inr (cfg', e, joined) \<Longrightarrow> request_ok rq
     \<Longrightarrow> uid \<notin> e_id ` set (standing_entries cfg) \<Longrightarrow> act_step cfg cfg'"
| set_state: "act_step cfg (set_act_state i s cfg)"
| finish: "hook_ok hook \<Longrightarrow> act_step cfg (fst (complete_act hook entry bo t cfg))"
| fail: "act_step cfg (fst (fail_act shut entry input now r cfg))"
| abandon: "act_step cfg (fst (abandon_space_act_set running k now cfg))"
| elsewhere: "g_pendingSpaceActs cfg' = g_pendingSpaceActs cfg \<Longrightarrow> act_step cfg cfg'"

lemma act_step_ok: "act_step cfg cfg' \<Longrightarrow> acts_ok cfg \<Longrightarrow> acts_ok cfg'"
proof (induction rule: act_step.induct)
  case (register shut cfg rq uid now cfg' e joined)
  then show ?case using register_ok by blast
next
  case (elsewhere cfg' cfg)
  then show ?case by (simp add: acts_ok_def standing_entries_def)
qed (simp_all add: set_state_ok complete_ok fail_ok abandon_set_ok)

section \<open>Lemmas: what a completion leaves in the networks\<close>

definition net_of :: "network list \<Rightarrow> string \<Rightarrow> network option" where
  "net_of nets i = List.find (\<lambda>n. n_id n = i) nets"

definition round_ref :: "network list \<Rightarrow> act_round \<Rightarrow> vote_round option" where
  "round_ref nets r =
     Option.bind (net_of nets (fst r)) (\<lambda>n. List.find (\<lambda>x. r_roundId x = snd r) (n_pendingRounds n))"

lemma net_of_on_network:
  "(\<And>n. n_id (f n) = n_id n) \<Longrightarrow>
     net_of (on_network i f nets) j = (if j = i then map_option f (net_of nets i) else net_of nets j)"
  unfolding net_of_def on_network_def by (rule find_update_at)

lemma settle_space_act_id [simp]: "r_roundId (settle_space_act rd) = r_roundId rd"
  "r_pendingMember (settle_space_act rd) = r_pendingMember rd"
  "r_appliedHere (settle_space_act rd) = Some True"
  by (simp_all add: settle_space_act_def)

lemma settle_round_in_frame [frame]:
  "n_id (settle_round_in rid net) = n_id net"
  by (simp add: settle_round_in_def split: option.split)

lemma rounds_settle_round_in:
  "n_pendingRounds (settle_round_in rid net) =
     (case find_index (\<lambda>x. r_roundId x = rid) (n_pendingRounds net) of
        None \<Rightarrow> n_pendingRounds net | Some k \<Rightarrow> update_at k settle_space_act (n_pendingRounds net))"
  by (simp add: settle_round_in_def split: option.split)

lemma round_ref_settle:
  "round_ref (settle_round_ref q nets) r = (if r = q then map_option settle_space_act (round_ref nets r) else round_ref nets r)"
proof -
  have "List.find (\<lambda>x. r_roundId x = snd r) (n_pendingRounds (settle_round_in (snd q) n)) =
      (if snd r = snd q then map_option settle_space_act (List.find (\<lambda>x. r_roundId x = snd q) (n_pendingRounds n))
       else List.find (\<lambda>x. r_roundId x = snd r) (n_pendingRounds n))" for n
    unfolding rounds_settle_round_in by (rule find_update_at) simp
  then show ?thesis
    by (cases "net_of nets (fst q)")
      (auto simp: round_ref_def settle_round_ref_def net_of_on_network frame prod_eq_iff)
qed

lemma round_ref_settle_fold:
  "round_ref (fold settle_round_ref rs nets) r =
     (if r \<in> set rs then map_option settle_space_act (round_ref nets r) else round_ref nets r)"
proof (induction rs arbitrary: nets)
  case Nil
  show ?case by simp
next
  case (Cons q rs)
  have "settle_space_act (settle_space_act rd) = settle_space_act rd" for rd
    by (simp add: settle_space_act_def)
  then show ?case using Cons by (simp add: round_ref_settle option.map_comp comp_def)
qed

lemma settle_rounds_of_fold: "settle_rounds_of es nets = fold settle_round_ref (concat (map e_rounds es)) nets"
  by (induction es arbitrary: nets) (simp_all add: settle_rounds_of_def)

lemma round_ref_settle_of:
  "round_ref (settle_rounds_of es nets) r =
     (if \<exists>e \<in> set es. r \<in> set (e_rounds e) then map_option settle_space_act (round_ref nets r) else round_ref nets r)"
  by (simp add: settle_rounds_of_fold round_ref_settle_fold)

text \<open>What a walk over the marks keeps of a round: everything but its joiner's marks.\<close>

lemma round_ref_remark:
  "map_option r_appliedHere (round_ref (on_network i (remark_network h) nets) r) = map_option r_appliedHere (round_ref nets r)"
proof -
  have "map_option r_appliedHere (List.find (\<lambda>x. r_roundId x = rid)
        (map (\<lambda>rd. rd\<lparr>r_pendingMember := map_option h (r_pendingMember rd)\<rparr>) rds)) =
      map_option r_appliedHere (List.find (\<lambda>x. r_roundId x = rid) rds)" for rid and rds :: "vote_round list"
    by (induction rds) simp_all
  then have "map_option r_appliedHere (List.find (\<lambda>x. r_roundId x = rid) (n_pendingRounds (remark_network h n))) =
      map_option r_appliedHere (List.find (\<lambda>x. r_roundId x = rid) (n_pendingRounds n))" for rid n
    by (simp add: remark_network_def)
  then show ?thesis
    by (cases "net_of nets i") (auto simp: round_ref_def net_of_on_network frame)
qed

lemma round_ref_post_steps:
  "map_option r_appliedHere (round_ref (run_post_steps ps nets) r) = map_option r_appliedHere (round_ref nets r)"
proof -
  have "map_option r_appliedHere (round_ref (fold (\<lambda>s. on_network (fst s) (\<lambda>n. remark_network (h s) n)) steps ns) r) =
      map_option r_appliedHere (round_ref ns r)" for h and steps :: "(string \<times> string) list" and ns
    by (induction steps arbitrary: ns) (simp_all add: round_ref_remark)
  then show ?thesis
    by (simp add: run_post_steps_def forget_every_mark_eq forget_what_was_received_eq)
qed

text \<open>A network that holds no mark for a space, and that no later step brings one back.\<close>

definition unmarked :: "string \<Rightarrow> network \<Rightarrow> bool" where
  "unmarked sp n \<longleftrightarrow> (\<forall>m \<in> set (carriers n). \<forall>k. mark_of m k sp = None)"

lemma unmarked_forget: "unmarked sp (remark_network (remark (map_del sp) PER_SPACE_WATERMARKS) n)"
  by (simp add: unmarked_def carriers_remark_network mark_of_forget)

lemma unmarked_kept: "unmarked sp n \<Longrightarrow> unmarked sp (remark_network (remark (map_del s) which) n)"
  by (simp add: unmarked_def carriers_remark_network mark_of_forget)

lemma carriers_settle_round_in: "carriers (settle_round_in rid n) = carriers n"
proof -
  have up: "map r_pendingMember (update_at k settle_space_act rds) = map r_pendingMember rds" for k rds
    by (rule update_at_map_same) simp
  have mf: "List.map_filter r_pendingMember xs = map the (filter (\<lambda>x. x \<noteq> None) (map r_pendingMember xs))" for xs
    by (simp add: List.map_filter_def comp_def filter_map)
  have "List.map_filter r_pendingMember (update_at k settle_space_act rds) = List.map_filter r_pendingMember rds" for k rds
    by (simp only: mf up)
  then show ?thesis
    by (simp add: carriers_def settle_round_in_def split: option.split)
qed

definition holds_at :: "string \<Rightarrow> (network \<Rightarrow> bool) \<Rightarrow> network list \<Rightarrow> bool" where
  "holds_at i P nets \<longleftrightarrow> (case net_of nets i of None \<Rightarrow> True | Some n \<Rightarrow> P n)"

lemma holds_at_on:
  "(\<And>n. n_id (f n) = n_id n) \<Longrightarrow> (\<And>n. P n \<Longrightarrow> P (f n)) \<Longrightarrow> holds_at i P nets \<Longrightarrow> holds_at i P (on_network j f nets)"
  by (auto simp: holds_at_def net_of_on_network split: option.splits)

lemma holds_at_established:
  "(\<And>n. n_id (f n) = n_id n) \<Longrightarrow> (\<And>n. P (f n)) \<Longrightarrow> holds_at i P (on_network i f nets)"
  by (auto simp: holds_at_def net_of_on_network split: option.splits)

lemma holds_at_fold:
  "(\<And>x ns. holds_at i P ns \<Longrightarrow> holds_at i P (f x ns)) \<Longrightarrow> holds_at i P nets \<Longrightarrow> holds_at i P (fold f xs nets)"
  by (induction xs arbitrary: nets) simp_all

lemma unmarked_after_post_steps:
  assumes "(i, sp) \<in> set (or_empty (ps_forgetReceiveMarks ps))"
  shows "holds_at i (unmarked sp) (settle_rounds_of es (run_post_steps ps nets))"
proof -
  let ?step = "\<lambda>which s. on_network (fst s) (\<lambda>n. remark_network (remark (map_del (snd s)) which) n)"
  have keep: "holds_at i (unmarked sp) ns \<Longrightarrow> holds_at i (unmarked sp) (?step which s ns)" for which ns and s :: "string \<times> string"
    by (rule holds_at_on) (simp_all add: frame unmarked_kept)
  have "holds_at i (unmarked sp) (fold (?step PER_SPACE_WATERMARKS) steps ns)" if "(i, sp) \<in> set steps" for steps ns
    using that
  proof (induction steps arbitrary: ns)
    case Nil
    then show ?case by simp
  next
    case (Cons s steps)
    show ?case
    proof (cases "s = (i, sp)")
      case True
      have "holds_at i (unmarked sp) (?step PER_SPACE_WATERMARKS s ns)"
        unfolding True by (simp only: fst_conv snd_conv) (rule holds_at_established, simp_all add: frame unmarked_forget)
      then show ?thesis using holds_at_fold [of i "unmarked sp" "?step PER_SPACE_WATERMARKS"] keep by simp
    next
      case False
      then show ?thesis using Cons by simp
    qed
  qed
  then have "holds_at i (unmarked sp) (run_post_steps ps nets)"
    using assms holds_at_fold [of i "unmarked sp" "?step RECEIVE_MARKS"] keep
    by (simp add: run_post_steps_def forget_every_mark_eq forget_what_was_received_eq)
  moreover have "holds_at i (unmarked sp) ns \<Longrightarrow> holds_at i (unmarked sp) (settle_round_ref r ns)" for r ns
    unfolding settle_round_ref_def
    by (rule holds_at_on) (simp_all add: frame unmarked_def carriers_settle_round_in)
  ultimately show ?thesis
    by (simp add: settle_rounds_of_fold holds_at_fold)
qed

lemma complete_act_networks:
  assumes "hook_ok hook" "g_pendingSpaceActs cfg \<noteq> None" "\<not> refused_outcome bo"
  shows "g_networks (fst (complete_act hook entry bo t cfg)) =
     settle_rounds_of (leaving_of cfg entry False)
       (run_post_steps (e_postSteps (case read_entry cfg (e_id entry) of Some e \<Rightarrow> e | None \<Rightarrow> entry)) (g_networks cfg))"
  using assms(2,3) complete_set_frame [OF assms(1)]
  by (cases "g_pendingSpaceActs cfg") (simp_all add: complete_act_def refused_outcome_def Let_def split_beta)

lemma retry_time_bounds:
  assumes "0 \<le> r" "r < 1" "0 < n"
  shows "\<exists>d. retry_time n now r = At (now + d) \<and> 30000 \<le> d \<and> d \<le> 3600000"
proof -
  let ?a = "Attempt (int n - 1)"
  have "(60000 :: rat) * 1 \<le> 60000 * 2 ^ backoff_exponent ?a" by (intro mult_left_mono) simp_all
  then have "60000 \<le> nominal_backoff_ms ?a (Fin 60000) (Fin 3600000)"
    by (simp add: nominal_backoff_ms_def)
  then show ?thesis
    using backoff_within [of r 3600000 ?a "Fin 60000"] assms(1,2)
    by (auto simp: retry_time_def)
qed

section \<open>Properties\<close>

definition demo_cfg :: act_config where
  "demo_cfg = \<lparr>g_instanceId = ''me'', g_instanceLabel = ''Me'', g_networks = [], g_peerTokens = [],
     g_spaces = [''notes''], g_pendingSpaceActs = None, g_spaceActSets = None, g_pendingSpaceOp = None\<rparr>"

definition demo_wipe :: act_request where
  "demo_wipe = \<lparr>rq_kind = Act_wipe, rq_localId = ''notes'', rq_types = Some [Files, Entities], rq_networkId = None,
     rq_newId = None, rq_round = Some (''net'', ''r1''), rq_setId = None, rq_backupId = None, rq_spoolId = None\<rparr>"

definition demo_entry :: space_act_entry where
  "demo_entry = new_entry demo_cfg demo_wipe ''a1'' 7"

definition demo_cfg1 :: act_config where
  "demo_cfg1 = demo_cfg\<lparr>g_pendingSpaceActs := Some [demo_entry]\<rparr>"

lemma demo_registered: "register_space_act False demo_cfg demo_wipe ''a1'' 7 = Inr (demo_cfg1, demo_entry, False)"
  by (simp add: register_space_act_def standing_entries_def demo_cfg_def demo_cfg1_def demo_entry_def Let_def)

text \<open>
  Whatever acts are registered, run, finished, failed or abandoned, in any order, no two
  standing acts are of one key, and so none of one kind, space and covered part; no two have one id,
  an act that waits to be abandoned is never also set to retry, and the list is never kept empty.
\<close>

theorem acts_one_per_key:
  assumes "act_step\<^sup>*\<^sup>* cfg0 cfg" "acts_ok cfg0"
  shows "distinct (map entry_key (standing_entries cfg)) \<and> inj_on entry_shape (set (standing_entries cfg))
     \<and> distinct (map e_id (standing_entries cfg))
     \<and> list_all (\<lambda>e. e_needsAbandon e \<noteq> Some True \<or> e_retryAt e = None) (standing_entries cfg)
     \<and> g_pendingSpaceActs cfg \<noteq> Some []"
proof -
  have ok: "acts_ok cfg" using assms by (induction rule: rtranclp_induct) (auto intro: act_step_ok)
  then have "inj_on (key_of \<circ> entry_shape) (set (standing_entries cfg))"
    by (simp add: acts_ok_def entries_fine_def distinct_map comp_def)
  then have "inj_on entry_shape (set (standing_entries cfg))" by (rule inj_on_imageI2)
  then show ?thesis using ok by (auto simp: acts_ok_def entries_fine_def list_all_iff)
qed

theorem acts_one_per_key_witness:
  "distinct (map entry_key (standing_entries demo_cfg1))"
proof -
  have "act_step demo_cfg demo_cfg1"
    by (rule act_step.register [OF demo_registered]) (simp_all add: request_ok_def demo_wipe_def standing_entries_def demo_cfg_def)
  moreover have "acts_ok demo_cfg"
    by (simp add: acts_ok_def entries_fine_def standing_entries_def demo_cfg_def)
  ultimately show ?thesis using acts_one_per_key [of demo_cfg demo_cfg1] by auto
qed

text \<open>
  An act that completes leaves the list, with every other act of its space when the space
  itself is gone and of its set when the set ran as one; every round one of them carried is stamped as
  settled here and no other round's stamp moves; every mark it was to forget is gone from its network.
  An act whose body refused leaves and stamps no round at all.
\<close>

theorem completion_settles:
  assumes "hook_ok hook" "read_entry cfg (e_id entry) = Some self"
  shows "(let cfg' = fst (complete_act hook entry bo t cfg); leaving = leaving_of cfg entry (refused_outcome bo) in
      read_entry cfg' (e_id entry) = None
    \<and> standing_entries cfg' = filter (\<lambda>e. e_id e \<notin> e_id ` set leaving) (standing_entries cfg)
    \<and> (if refused_outcome bo then g_networks cfg' = g_networks cfg
       else map_option r_appliedHere (round_ref (g_networks cfg') rd)
            = (if \<exists>e \<in> set leaving. rd \<in> set (e_rounds e) then map_option (\<lambda>_. Some True) (round_ref (g_networks cfg) rd)
               else map_option r_appliedHere (round_ref (g_networks cfg) rd))
         \<and> ((i, sp) \<notin> set (or_empty (ps_forgetReceiveMarks (e_postSteps self))) \<or> holds_at i (unmarked sp) (g_networks cfg'))))"
proof -
  have some: "g_pendingSpaceActs cfg \<noteq> None"
    using assms(2) by (cases "g_pendingSpaceActs cfg") (auto simp: read_entry_def standing_entries_def)
  have self: "self \<in> set (standing_entries cfg)" "e_id self = e_id entry"
    using find_Some_in [OF assms(2) [unfolded read_entry_def]] by auto
  then have "self \<in> set (leaving_of cfg entry b)" for b
    using assms(2) by (simp add: leaving_of_def act_leaves_def Let_def)
  then have leaves: "e_id entry \<in> e_id ` set (leaving_of cfg entry b)" for b
    using self(2) by (metis imageI)
  have es: "standing_entries (fst (complete_act hook entry bo t cfg)) =
      filter (\<lambda>e. e_id e \<notin> e_id ` set (leaving_of cfg entry (refused_outcome bo))) (standing_entries cfg)"
    by (simp add: standing_entries_absent [of "fst _"] complete_act_entries [OF assms(1) some])
  have gone: "read_entry (fst (complete_act hook entry bo t cfg)) (e_id entry) = None"
    unfolding read_entry_def es using leaves by (auto simp: find_None_in)
  have refused: "refused_outcome bo \<Longrightarrow> g_networks (fst (complete_act hook entry bo t cfg)) = g_networks cfg"
    by (simp add: complete_act_def refused_outcome_def Let_def)
  have stamp: "\<not> refused_outcome bo \<Longrightarrow>
      map_option r_appliedHere (round_ref (g_networks (fst (complete_act hook entry bo t cfg))) rd) =
      (if \<exists>e \<in> set (leaving_of cfg entry False). rd \<in> set (e_rounds e)
       then map_option (\<lambda>_. Some True) (round_ref (g_networks cfg) rd)
       else map_option r_appliedHere (round_ref (g_networks cfg) rd))"
    using round_ref_post_steps [of "e_postSteps self" "g_networks cfg" rd] assms(2)
    by (auto simp: complete_act_networks [OF assms(1) some] round_ref_settle_of option.map_comp comp_def
        map_option_case split: option.splits)
  show ?thesis
    using es gone refused stamp unmarked_after_post_steps [of i sp "e_postSteps self"] assms
    by (auto simp: Let_def complete_act_networks [OF assms(1) some])
qed

text \<open>
  A failed act is never lost and never runs hot: it stays on the list with its rounds, owed;
  an act its input made impossible is due at no time at all, and any other is due exactly from an
  instant between half a minute and an hour after the failure.
\<close>

theorem failed_act_owed:
  assumes "\<not> (runs_whole_set entry \<and> input \<noteq> None)" "0 \<le> r" "r < 1"
    and "e \<in> set (standing_entries cfg)" "fails_with entry e"
  shows "\<exists>e' \<in> set (standing_entries (fst (fail_act False entry input now r cfg))).
     e_id e' = e_id e \<and> e_rounds e' = e_rounds e \<and> e_state e' = Owed
     \<and> (if input \<noteq> None then (\<lambda>t. space_act_due_at e' t) = (\<lambda>t. False)
        else \<exists>d. 30000 \<le> d \<and> d \<le> 3600000 \<and> (\<lambda>t. space_act_due_at e' t) = (\<lambda>t. now + d \<le> t))"
proof -
  let ?e = "owed_entry (next_attempts cfg entry) (failure_sentence entry input (next_retry cfg entry input now r))
      (next_retry cfg entry input now r) e"
  have in': "?e \<in> set (standing_entries (fst (fail_act False entry input now r cfg)))"
    using assms(4,5) fail_act_entries [OF _ assms(1), of False now r cfg]
    by (cases "g_pendingSpaceActs cfg") (auto simp: standing_entries_def image_iff)
  have due: "if input \<noteq> None then (\<lambda>t. space_act_due_at ?e t) = (\<lambda>t. False)
      else \<exists>d. 30000 \<le> d \<and> d \<le> 3600000 \<and> (\<lambda>t. space_act_due_at ?e t) = (\<lambda>t. now + d \<le> t)"
  proof (cases input)
    case None
    obtain d where "retry_time (next_attempts cfg entry) now r = At (now + d)" "30000 \<le> d" "d \<le> 3600000"
      using retry_time_bounds [OF assms(2,3), of "next_attempts cfg entry" now] by (auto simp: next_attempts_def)
    moreover from this have "(\<lambda>t. space_act_due_at ?e t) = (\<lambda>t. now + d \<le> t)"
      using None by (intro ext) (simp add: space_act_due_at_def next_retry_def truthy_bool_def)
    ultimately show ?thesis using None by auto
  next
    case (Some why)
    then have "(\<lambda>t. space_act_due_at ?e t) = (\<lambda>t. False)"
      by (intro ext) (simp add: space_act_due_at_def next_retry_def truthy_bool_def)
    with Some show ?thesis by simp
  qed
  show ?thesis using in' due by (intro bexI [of _ ?e]) simp_all
qed

theorem failed_act_owed_witness:
  "\<exists>e' \<in> set (standing_entries (fst (fail_act False demo_entry None 100 0 demo_cfg1))).
     e_rounds e' = [(''net'', ''r1'')] \<and> e_state e' = Owed"
proof -
  have "demo_entry \<in> set (standing_entries demo_cfg1)" "e_rounds demo_entry = [(''net'', ''r1'')]"
    by (simp_all add: demo_cfg1_def demo_entry_def new_entry_def demo_wipe_def Let_def)
  then show ?thesis
    using failed_act_owed [of demo_entry None 0 demo_entry demo_cfg1 100] by (auto simp: fails_with_def)
qed

theorem completion_settles_witness:
  "read_entry (fst (complete_act (\<lambda>st c. c) demo_entry \<lparr>bo_refusal = False, bo_failedFinally = False, bo_report = None\<rparr> 9 demo_cfg1))
     (e_id demo_entry) = None"
proof -
  have "read_entry demo_cfg1 (e_id demo_entry) = Some demo_entry"
    by (simp add: read_entry_def demo_cfg1_def)
  then show ?thesis
    using completion_settles [of "\<lambda>st c. c" demo_cfg1 demo_entry demo_entry
        "\<lparr>bo_refusal = False, bo_failedFinally = False, bo_report = None\<rparr>" 9]
    by (simp add: hook_ok_def Let_def)
qed

end
