(* ===== verification/Round_Settle.thy ===== *)
theory Round_Settle
  imports Space_Acts Roster
begin

text \<open>
  What a concluded round sets off (\<open>server/src/networks/round-conclusion.ts\<close>) and, of a passed deletion
  or wipe, which space act it calls for here (\<open>server/src/spaces/apply-wipe-round.ts\<close>).  The network is
  named by its index in the configuration and the rounds by their index in its pending rounds: every
  caller settles rounds the network holds.
\<close>

section \<open>Passed rounds that call for an act\<close>

datatype space_round_action =
    Round_deletes string
  | Round_wipes string "brain_collection list option"

definition space_round_action :: "network \<Rightarrow> vote_round \<Rightarrow> space_round_action option" where
  "space_round_action net rd =
     (if \<not> space_act_owed rd \<or> \<not> truthy_str (r_spaceId rd) then None
      else case given_str (round_space_local_id net rd) of
        None \<Rightarrow> None
      | Some sp \<Rightarrow> Some (if r_type rd = Space_deletion then Round_deletes sp else Round_wipes sp (r_wipeTypes rd)))"

definition round_request :: "act_kind \<Rightarrow> string \<Rightarrow> string option \<Rightarrow> brain_collection list option \<Rightarrow> act_round \<Rightarrow> act_request" where
  "round_request k sp netid types r =
     \<lparr>rq_kind = k, rq_localId = sp, rq_types = types, rq_networkId = netid, rq_newId = None,
      rq_round = Some r, rq_setId = None, rq_backupId = None, rq_spoolId = None\<rparr>"

text \<open>The act a round calls for here, or \<open>None\<close> where this instance does not carry the space.\<close>

definition space_act_target :: "network \<Rightarrow> vote_round \<Rightarrow> string list \<Rightarrow> act_request option" where
  "space_act_target net rd spaces =
     (let viaRound = (n_id net, r_roundId rd) in
      if r_type rd = Space_deletion \<and> truthy_bool (r_proposedHere rd) \<and> truthy_str (r_actLocalId rd)
         \<and> the (r_actLocalId rd) \<in> set spaces
      then Some (round_request Act_delete (the (r_actLocalId rd)) (Some (n_id net)) None viaRound)
      else case space_round_action net rd of
        None \<Rightarrow> None
      | Some (Round_deletes sp) \<Rightarrow> Some (round_request Act_delete sp (Some (n_id net)) None viaRound)
      | Some (Round_wipes sp types) \<Rightarrow> Some (round_request Act_wipe sp None types viaRound))"

definition opened_at_or_after :: "vote_round \<Rightarrow> vote_round \<Rightarrow> bool" where
  "opened_at_or_after deletion addition =
     (case (date_of (r_openedAt deletion), date_of (r_openedAt addition)) of
        (Some d, Some a) \<Rightarrow> a \<le> d
      | _ \<Rightarrow> True)"

definition passed_of :: "vote_round_type \<Rightarrow> vote_round \<Rightarrow> bool" where
  "passed_of t rd \<longleftrightarrow> r_type rd = t \<and> round_passed_unvetoed rd"

text \<open>A deletion that retires an owed addition of the same space, by the network's name for it.\<close>

definition retires :: "network \<Rightarrow> vote_round \<Rightarrow> vote_round \<Rightarrow> bool" where
  "retires net addition d \<longleftrightarrow>
     passed_of Space_deletion d \<and> network_space_key net d = network_space_key net addition
     \<and> opened_at_or_after d addition"

record settle_state =
  ss_cfg :: act_config
  ss_start :: "string list"
  ss_failed :: "nat list"
  ss_wrote :: bool

definition net_at :: "act_config \<Rightarrow> nat \<Rightarrow> network" where
  "net_at cfg k = g_networks cfg ! k"

definition put_net :: "nat \<Rightarrow> network \<Rightarrow> act_config \<Rightarrow> act_config" where
  "put_net k net cfg = cfg\<lparr>g_networks := (g_networks cfg)[k := net]\<rparr>"

definition round_at :: "act_config \<Rightarrow> nat \<Rightarrow> nat \<Rightarrow> vote_round" where
  "round_at cfg k i = n_pendingRounds (net_at cfg k) ! i"

definition put_round :: "nat \<Rightarrow> nat \<Rightarrow> vote_round \<Rightarrow> act_config \<Rightarrow> act_config" where
  "put_round k i rd cfg =
     put_net k ((net_at cfg k)\<lparr>n_pendingRounds := (n_pendingRounds (net_at cfg k))[i := rd]\<rparr>) cfg"

definition retire_addition :: "nat \<Rightarrow> nat \<Rightarrow> settle_state \<Rightarrow> settle_state" where
  "retire_addition k i ss =
     (let cfg = ss_cfg ss; net = net_at cfg k; rd = round_at cfg k i in
      if \<not> space_addition_owed rd then ss
      else if \<not> truthy_str (network_space_key net rd) \<or> \<not> list_ex (retires net rd) (n_pendingRounds net) then ss
      else ss\<lparr>ss_cfg := put_round k i (settle_space_act rd) cfg, ss_wrote := True\<rparr>)"

definition add_start :: "space_act_entry \<Rightarrow> int \<Rightarrow> string list \<Rightarrow> string list" where
  "add_start e now start =
     (if space_act_due_at e now \<and> e_id e \<notin> set start then start @ [e_id e] else start)"

text \<open>
  A passed deletion forgets the offer under its key; an entry that carries the round stands for it; a
  round this instance does not carry is settled; any other is registered, and joined to the entry of
  its key when there is one.  A closed runner throws, which is a failure of this round only.
\<close>

definition forget_offer_of :: "nat \<Rightarrow> nat \<Rightarrow> settle_state \<Rightarrow> settle_state" where
  "forget_offer_of k i ss =
     (let cfg = ss_cfg ss; rd = round_at cfg k i; key = network_space_key (net_at cfg k) rd in
      if r_type rd = Space_deletion \<and> truthy_str key
      then let (net, did) = forget_pending_offer (net_at cfg k) (the key)
           in ss\<lparr>ss_cfg := put_net k net cfg, ss_wrote := ss_wrote ss \<or> did\<rparr>
      else ss)"

definition note_act_local_id :: "nat \<Rightarrow> nat \<Rightarrow> act_request \<Rightarrow> act_config \<Rightarrow> act_config" where
  "note_act_local_id k i rq cfg =
     (let rd = round_at cfg k i in
      if r_type rd = Space_deletion \<and> truthy_bool (r_proposedHere rd) \<and> r_actLocalId rd \<noteq> Some (rq_localId rq)
      then put_round k i (rd\<lparr>r_actLocalId := Some (rq_localId rq)\<rparr>) cfg else cfg)"

definition start_round :: "bool \<Rightarrow> (nat \<Rightarrow> string) \<Rightarrow> int \<Rightarrow> nat \<Rightarrow> nat \<Rightarrow> settle_state \<Rightarrow> settle_state" where
  "start_round shut uids now k i ss =
     (let rd0 = round_at (ss_cfg ss) k i in
      if \<not> space_act_owed rd0 then ss
      else
        let ss1 = forget_offer_of k i ss; cfg = ss_cfg ss1; net = net_at cfg k; rd = round_at cfg k i in
        case space_act_of_round (standing_entries cfg) (n_id net) (r_roundId rd) of
          Some e \<Rightarrow> ss1\<lparr>ss_start := add_start e now (ss_start ss1)\<rparr>
        | None \<Rightarrow>
          (case space_act_target net rd (g_spaces cfg) of
             None \<Rightarrow> ss1\<lparr>ss_cfg := put_round k i (settle_space_act rd) cfg, ss_wrote := True\<rparr>
           | Some rq \<Rightarrow>
               let cfg1 = note_act_local_id k i rq cfg in
               case register_space_act shut cfg1 rq (uids i) now of
                 Inl err \<Rightarrow> ss1\<lparr>ss_cfg := cfg1, ss_failed := ss_failed ss1 @ [i]\<rparr>
               | Inr (cfg2, entry, joined) \<Rightarrow>
                   ss1\<lparr>ss_cfg := cfg2, ss_wrote := True, ss_start := add_start entry now (ss_start ss1)\<rparr>))"

text \<open>
  The rounds are indices of the network's pending rounds; \<open>k\<close> is the network's index.  The additions
  the source starts next are left to their own tick and touch no round here.
\<close>

definition apply_concluded_space_rounds ::
  "bool \<Rightarrow> (nat \<Rightarrow> string) \<Rightarrow> int \<Rightarrow> nat \<Rightarrow> nat list \<Rightarrow> act_config \<Rightarrow> settle_state" where
  "apply_concluded_space_rounds shut uids now k idx cfg =
     (let chosen = unique idx;
          known = unique (chosen @ [0..<length (n_pendingRounds (net_at cfg k))]);
          ss0 = \<lparr>ss_cfg = cfg, ss_start = [], ss_failed = [], ss_wrote = False\<rparr>;
          ss1 = fold (retire_addition k) known ss0
      in fold (start_round shut uids now k) chosen ss1)"

section \<open>Settling rounds\<close>

record settled =
  sl_cfg :: act_config
  sl_concluded :: "nat list"
  sl_start :: "string list"
  sl_failed :: "nat list"
  sl_wrote :: bool
  sl_effects :: "gov_effect list"

definition conclude_one ::
  "(network \<Rightarrow> vote_round \<Rightarrow> string option) \<Rightarrow> int \<Rightarrow> nat \<Rightarrow> nat \<Rightarrow> settled \<Rightarrow> settled" where
  "conclude_one unread now k i st =
     (let cfg = sl_cfg st; rd = round_at cfg k i in
      if truthy_bool (r_concluded rd) then st
      else
        let (net, rd', fx, _) = conclude_round_if_ready unread (g_instanceId cfg) now (net_at cfg k) rd;
            cfg1 = put_round k i rd' (put_net k net cfg)
        in st\<lparr>sl_cfg := cfg1,
              sl_concluded := (if truthy_bool (r_concluded rd') then sl_concluded st @ [i] else sl_concluded st),
              sl_effects := sl_effects st @ fx\<rparr>)"

definition join_one :: "(string \<Rightarrow> bool) \<Rightarrow> int \<Rightarrow> nat \<Rightarrow> nat \<Rightarrow> settled \<Rightarrow> settled" where
  "join_one url_ok now k i st =
     (let cfg = sl_cfg st;
          (what, net) = apply_passed_join url_ok (net_at cfg k) (g_instanceId cfg) (round_at cfg k i) now
      in st\<lparr>sl_cfg := put_net k net cfg, sl_wrote := sl_wrote st \<or> what = Some Admitted\<rparr>)"

definition notify_removed :: "string \<Rightarrow> vote_round \<Rightarrow> gov_effect list" where
  "notify_removed netid rd =
     (if truthy_bool (r_concluded rd) \<and> truthy_bool (r_passed rd) \<and> r_type rd = Remove
      then [Notify_removed (r_subjectUrl rd) (r_subjectInstanceId rd) netid] else [])"

definition apply_round_conclusion ::
  "(string \<Rightarrow> bool) \<Rightarrow> bool \<Rightarrow> (nat \<Rightarrow> string) \<Rightarrow> int \<Rightarrow> nat \<Rightarrow> nat list \<Rightarrow> nat list \<Rightarrow> settled \<Rightarrow> settled" where
  "apply_round_conclusion url_ok shut uids now k rounds retry st =
     (let st1 = fold (join_one url_ok now k) rounds st;
          ss = apply_concluded_space_rounds shut uids now k (rounds @ retry) (sl_cfg st1)
      in st1\<lparr>sl_cfg := ss_cfg ss, sl_start := ss_start ss, sl_failed := sl_failed st1 @ ss_failed ss,
             sl_wrote := sl_wrote st1 \<or> ss_wrote ss,
             sl_effects := sl_effects st1 @ concat (map (\<lambda>i. notify_removed (n_id (net_at (ss_cfg ss) k)) (round_at (ss_cfg ss) k i)) rounds)\<rparr>)"

definition settle_rounds ::
  "(network \<Rightarrow> vote_round \<Rightarrow> string option) \<Rightarrow> (string \<Rightarrow> bool) \<Rightarrow> bool \<Rightarrow> (nat \<Rightarrow> string) \<Rightarrow> int \<Rightarrow> nat
     \<Rightarrow> nat list \<Rightarrow> nat list \<Rightarrow> act_config \<Rightarrow> settled" where
  "settle_rounds unread url_ok shut uids now k rounds retry cfg =
     (let st0 = \<lparr>sl_cfg = cfg, sl_concluded = [], sl_start = [], sl_failed = [], sl_wrote = False, sl_effects = []\<rparr>;
          st1 = fold (conclude_one unread now k) rounds st0;
          st2 = apply_round_conclusion url_ok shut uids now k (sl_concluded st1) retry st1
      in st2\<lparr>sl_wrote := sl_concluded st1 \<noteq> [] \<or> sl_wrote st2\<rparr>)"

section \<open>Lemmas: what settling keeps\<close>

definition carried_rounds :: "act_config \<Rightarrow> act_round set" where
  "carried_rounds cfg = (\<Union>e \<in> set (standing_entries cfg). set (e_rounds e))"

lemma space_act_of_round_carried:
  "space_act_of_round es n r \<noteq> None \<longleftrightarrow> (\<exists>e \<in> set es. (n, r) \<in> set (e_rounds e))"
  by (force simp: space_act_of_round_def find_None_in list_ex_iff)

text \<open>A round after settling: only its two local marks may move, and a stamp never goes.\<close>

definition bare_round :: "vote_round \<Rightarrow> vote_round" where
  "bare_round rd = rd\<lparr>r_appliedHere := None, r_actLocalId := None\<rparr>"

definition round_kept :: "vote_round \<Rightarrow> vote_round \<Rightarrow> bool" where
  "round_kept rd rd' \<longleftrightarrow>
     bare_round rd' = bare_round rd \<and> (r_appliedHere rd' = r_appliedHere rd \<or> r_appliedHere rd' = Some True)"

lemma round_kept_refl [simp]: "round_kept rd rd"
  by (simp add: round_kept_def)

lemma round_kept_trans: "round_kept a b \<Longrightarrow> round_kept b c \<Longrightarrow> round_kept a c"
  by (auto simp: round_kept_def)

lemma round_kept_settle [simp]: "round_kept rd (settle_space_act rd)"
  by (simp add: round_kept_def bare_round_def settle_space_act_def)

lemma round_kept_noted [simp]: "round_kept rd (rd\<lparr>r_actLocalId := l\<rparr>)"
  by (simp add: round_kept_def bare_round_def)

lemma round_kept_fields:
  assumes "round_kept rd rd'"
  shows "r_roundId rd' = r_roundId rd" "r_type rd' = r_type rd" "space_act_owed rd' \<Longrightarrow> space_act_owed rd"
proof -
  have b: "bare_round rd' = bare_round rd" using assms by (simp add: round_kept_def)
  have f: "r_roundId rd' = r_roundId rd" "r_type rd' = r_type rd" "r_concluded rd' = r_concluded rd"
      "r_passed rd' = r_passed rd" "r_votes rd' = r_votes rd"
    using arg_cong [OF b, of r_roundId] arg_cong [OF b, of r_type] arg_cong [OF b, of r_concluded]
      arg_cong [OF b, of r_passed] arg_cong [OF b, of r_votes]
    by (simp_all add: bare_round_def)
  show "r_roundId rd' = r_roundId rd" "r_type rd' = r_type rd" using f by simp_all
  show "space_act_owed rd' \<Longrightarrow> space_act_owed rd"
    using f assms by (auto simp: space_act_owed_def round_passed_unvetoed_def round_kept_def)
qed

definition settle_kept :: "nat \<Rightarrow> act_config \<Rightarrow> act_config \<Rightarrow> bool" where
  "settle_kept k cfg cfg' \<longleftrightarrow>
     length (g_networks cfg') = length (g_networks cfg) \<and> n_id (net_at cfg' k) = n_id (net_at cfg k)
     \<and> list_all2 round_kept (n_pendingRounds (net_at cfg k)) (n_pendingRounds (net_at cfg' k))
     \<and> carried_rounds cfg \<subseteq> carried_rounds cfg'"

lemma settle_kept_refl [simp]: "settle_kept k cfg cfg"
  by (simp add: settle_kept_def list_all2_refl)

lemma settle_kept_trans: "settle_kept k a b \<Longrightarrow> settle_kept k b c \<Longrightarrow> settle_kept k a c"
  unfolding settle_kept_def
  using list_all2_trans [of round_kept round_kept round_kept, OF round_kept_trans] by fastforce

lemma settle_kept_put_net:
  assumes "n_id net = n_id (net_at cfg k)" "list_all2 round_kept (n_pendingRounds (net_at cfg k)) (n_pendingRounds net)"
  shows "settle_kept k cfg (put_net k net cfg)"
proof (cases "k < length (g_networks cfg)")
  case True
  with assms show ?thesis by (simp add: settle_kept_def put_net_def net_at_def carried_rounds_def)
next
  case False
  then show ?thesis by (simp add: put_net_def list_update_beyond)
qed

lemma settle_kept_put_round:
  assumes "round_kept (round_at cfg k i) rd"
  shows "settle_kept k cfg (put_round k i rd cfg)"
  unfolding put_round_def
proof (rule settle_kept_put_net)
  show "list_all2 round_kept (n_pendingRounds (net_at cfg k))
      (n_pendingRounds ((net_at cfg k)\<lparr>n_pendingRounds := (n_pendingRounds (net_at cfg k))[i := rd]\<rparr>))"
    using assms by (cases "i < length (n_pendingRounds (net_at cfg k))")
      (auto simp: list_all2_conv_all_nth nth_list_update round_at_def list_all2_refl list_update_beyond)
qed simp

lemma settle_kept_register:
  assumes "register_space_act shut cfg rq uid now = Inr (cfg', e, joined)"
  shows "settle_kept k cfg cfg' \<and> (case rq_round rq of None \<Rightarrow> True | Some r \<Rightarrow> r \<in> carried_rounds cfg')"
proof (cases "find_index (\<lambda>e. entry_key e = key_of (shape_of rq)) (standing_entries cfg)")
  case None
  then have "cfg' = cfg\<lparr>g_pendingSpaceActs := Some (standing_entries cfg @ [new_entry cfg rq uid now])\<rparr>"
    using assms by (auto simp: register_space_act_def Let_def split: if_splits)
  then show ?thesis
    by (auto simp: settle_kept_def net_at_def carried_rounds_def list_all2_refl new_entry_def Let_def split: option.split)
next
  case (Some i)
  have i: "i < length (standing_entries cfg)" using find_index_SomeD [OF Some] by simp
  have c: "cfg' = cfg\<lparr>g_pendingSpaceActs := Some ((standing_entries cfg)
      [i := (standing_entries cfg ! i)\<lparr>e_rounds := add_round (rq_round rq) (e_rounds (standing_entries cfg ! i))\<rparr>])\<rparr>"
    using Some assms by (auto simp: register_space_act_def Let_def split: if_splits)
  have grows: "set rs \<subseteq> set (add_round r rs)" "r = Some x \<Longrightarrow> x \<in> set (add_round r rs)" for r rs x
    by (auto simp: add_round_def split: option.split)
  have "carried_rounds cfg \<subseteq> carried_rounds cfg'"
  proof
    fix x assume "x \<in> carried_rounds cfg"
    then obtain j where j: "j < length (standing_entries cfg)" "x \<in> set (e_rounds (standing_entries cfg ! j))"
      by (fastforce simp: carried_rounds_def in_set_conv_nth [of _ "standing_entries cfg"])
    then have "x \<in> set (e_rounds (standing_entries cfg' ! j))" "j < length (standing_entries cfg')"
      using grows(1) i by (auto simp: c nth_list_update)
    then show "x \<in> carried_rounds cfg'" by (auto simp: carried_rounds_def)
  qed
  moreover have "case rq_round rq of None \<Rightarrow> True | Some r \<Rightarrow> r \<in> carried_rounds cfg'"
  proof (cases "rq_round rq")
    case None
    then show ?thesis by simp
  next
    case (Some r)
    have "standing_entries cfg' ! i \<in> set (standing_entries cfg')" using i by (auto simp: c intro: set_update_memI)
    moreover have "r \<in> set (e_rounds (standing_entries cfg' ! i))" using grows(2) [OF Some] i by (simp add: c)
    ultimately show ?thesis using Some by (auto simp: carried_rounds_def)
  qed
  ultimately show ?thesis by (simp add: settle_kept_def net_at_def c list_all2_refl)
qed

lemma forget_pending_offer_frame:
  "n_id (fst (forget_pending_offer net key)) = n_id net"
  "n_pendingRounds (fst (forget_pending_offer net key)) = n_pendingRounds net"
  by (simp_all add: forget_pending_offer_def clear_settled_proposals_def)

lemma forget_offer_kept: "settle_kept k (ss_cfg ss) (ss_cfg (forget_offer_of k i ss))"
  by (auto simp: forget_offer_of_def Let_def split_beta list_all2_refl forget_pending_offer_frame
      intro!: settle_kept_put_net)

lemma note_act_kept: "settle_kept k cfg (note_act_local_id k i rq cfg)"
  by (auto simp: note_act_local_id_def Let_def intro!: settle_kept_put_round)

lemma retire_kept: "settle_kept k (ss_cfg ss) (ss_cfg (retire_addition k i ss))"
  by (auto simp: retire_addition_def Let_def intro!: settle_kept_put_round)

text \<open>A round that is stamped, not owed at all, or carried by a standing act.\<close>

definition round_covered :: "nat \<Rightarrow> nat \<Rightarrow> act_config \<Rightarrow> bool" where
  "round_covered k i cfg \<longleftrightarrow>
     space_act_owed (round_at cfg k i) \<longrightarrow> (n_id (net_at cfg k), r_roundId (round_at cfg k i)) \<in> carried_rounds cfg"

lemma settle_kept_round:
  "settle_kept k cfg cfg' \<Longrightarrow> i < length (n_pendingRounds (net_at cfg k)) \<Longrightarrow>
     round_kept (round_at cfg k i) (round_at cfg' k i)"
  by (auto simp: settle_kept_def round_at_def list_all2_conv_all_nth)

lemma settle_kept_length:
  "settle_kept k cfg cfg' \<Longrightarrow> length (n_pendingRounds (net_at cfg' k)) = length (n_pendingRounds (net_at cfg k))"
  by (auto simp: settle_kept_def dest: list_all2_lengthD)

lemma covered_kept:
  assumes "settle_kept k cfg cfg'" "i < length (n_pendingRounds (net_at cfg k))" "round_covered k i cfg"
  shows "round_covered k i cfg'"
  using assms(1,3) round_kept_fields [OF settle_kept_round [OF assms(1,2)]]
  by (auto simp: round_covered_def settle_kept_def)

lemma act_target_round:
  "space_act_target net rd spaces = Some rq \<Longrightarrow> rq_round rq = Some (n_id net, r_roundId rd)"
  by (auto simp: space_act_target_def Let_def round_request_def split: if_splits option.splits space_round_action.splits)

lemma start_round_step:
  assumes "k < length (g_networks (ss_cfg ss))" "i < length (n_pendingRounds (net_at (ss_cfg ss) k))"
  shows "settle_kept k (ss_cfg ss) (ss_cfg (start_round False uids now k i ss))
     \<and> round_covered k i (ss_cfg (start_round False uids now k i ss))"
proof (cases "space_act_owed (round_at (ss_cfg ss) k i)")
  case False
  then show ?thesis by (simp add: start_round_def Let_def round_covered_def)
next
  case owed: True
  define ss1 where "ss1 = forget_offer_of k i ss"
  define cfg where "cfg = ss_cfg ss1"
  define rd where "rd = round_at cfg k i"
  have k1: "settle_kept k (ss_cfg ss) cfg" unfolding cfg_def ss1_def by (rule forget_offer_kept)
  have i1: "i < length (n_pendingRounds (net_at cfg k))" using settle_kept_length [OF k1] assms(2) by simp
  have len1: "k < length (g_networks cfg)" using k1 assms(1) by (simp add: settle_kept_def)
  show ?thesis
  proof (cases "space_act_of_round (standing_entries cfg) (n_id (net_at cfg k)) (r_roundId rd)")
    case (Some e)
    then have "(n_id (net_at cfg k), r_roundId rd) \<in> carried_rounds cfg"
      using space_act_of_round_carried [of "standing_entries cfg" "n_id (net_at cfg k)" "r_roundId rd"]
      by (auto simp: carried_rounds_def)
    moreover have "ss_cfg (start_round False uids now k i ss) = cfg"
      using owed Some by (simp add: start_round_def Let_def ss1_def [symmetric] cfg_def [symmetric] rd_def [symmetric])
    ultimately show ?thesis using k1 by (simp add: round_covered_def rd_def)
  next
    case None
    show ?thesis
    proof (cases "space_act_target (net_at cfg k) rd (g_spaces cfg)")
      case no_target: None
      have c: "ss_cfg (start_round False uids now k i ss) = put_round k i (settle_space_act rd) cfg"
        using owed None no_target
        by (simp add: start_round_def Let_def ss1_def [symmetric] cfg_def [symmetric] rd_def [symmetric])
      have "settle_kept k cfg (put_round k i (settle_space_act rd) cfg)"
        by (rule settle_kept_put_round) (simp add: rd_def)
      moreover have "round_at (put_round k i (settle_space_act rd) cfg) k i = settle_space_act rd"
        using len1 i1 by (simp add: put_round_def put_net_def round_at_def net_at_def)
      ultimately show ?thesis
        using k1 settle_kept_trans unfolding c by (auto simp: round_covered_def space_act_owed_def)
    next
      case (Some rq)
      define cfg1 where "cfg1 = note_act_local_id k i rq cfg"
      have k2: "settle_kept k cfg cfg1" unfolding cfg1_def by (rule note_act_kept)
      obtain cfg2 e joined where reg: "register_space_act False cfg1 rq (uids i) now = Inr (cfg2, e, joined)"
        by (cases "find_index (\<lambda>e. entry_key e = key_of (shape_of rq)) (standing_entries cfg1)")
          (auto simp: register_space_act_def Let_def)
      have c: "ss_cfg (start_round False uids now k i ss) = cfg2"
        using owed None Some reg
        by (simp add: start_round_def Let_def ss1_def [symmetric] cfg_def [symmetric] rd_def [symmetric] cfg1_def [symmetric])
      have k3: "settle_kept k cfg1 cfg2" "(n_id (net_at cfg k), r_roundId rd) \<in> carried_rounds cfg2"
        using settle_kept_register [OF reg, of k] act_target_round [OF Some] by auto
      have k4: "settle_kept k cfg cfg2" using k2 k3(1) settle_kept_trans by blast
      have "round_covered k i cfg2"
        using k3(2) k4 round_kept_fields(1) [OF settle_kept_round [OF k4 i1]]
        by (simp add: round_covered_def settle_kept_def rd_def)
      then show ?thesis using k1 k4 settle_kept_trans unfolding c by blast
    qed
  qed
qed

lemma start_rounds_cover:
  assumes "list_all (\<lambda>i. i < length (n_pendingRounds (net_at (ss_cfg ss) k))) idx" "k < length (g_networks (ss_cfg ss))"
  shows "settle_kept k (ss_cfg ss) (ss_cfg (fold (start_round False uids now k) idx ss))
     \<and> list_all (\<lambda>i. round_covered k i (ss_cfg (fold (start_round False uids now k) idx ss))) idx"
  using assms
proof (induction idx arbitrary: ss)
  case Nil
  then show ?case by simp
next
  case (Cons i idx)
  let ?s = "start_round False uids now k i ss"
  let ?last_cfg = "ss_cfg (fold (start_round False uids now k) idx ?s)"
  have step: "settle_kept k (ss_cfg ss) (ss_cfg ?s)" "round_covered k i (ss_cfg ?s)"
    using start_round_step [of k ss i uids now] Cons.prems by auto
  have len: "length (n_pendingRounds (net_at (ss_cfg ?s) k)) = length (n_pendingRounds (net_at (ss_cfg ss) k))"
    by (rule settle_kept_length [OF step(1)])
  have rest: "settle_kept k (ss_cfg ?s) ?last_cfg" "list_all (\<lambda>i. round_covered k i ?last_cfg) idx"
    using Cons.IH [of ?s] Cons.prems step(1) by (auto simp: len settle_kept_def)
  have "round_covered k i ?last_cfg"
    using covered_kept [OF rest(1) _ step(2)] Cons.prems len by simp
  then show ?case using rest settle_kept_trans [OF step(1) rest(1)] by simp
qed

lemma retires_kept: "settle_kept k (ss_cfg ss) (ss_cfg (fold (retire_addition k) idx ss))"
proof (induction idx arbitrary: ss)
  case Nil
  show ?case by simp
next
  case (Cons i idx)
  show ?case using settle_kept_trans [OF retire_kept Cons.IH] by simp
qed

lemma apply_concluded_covers:
  assumes "list_all (\<lambda>i. i < length (n_pendingRounds (net_at cfg k))) idx" "k < length (g_networks cfg)"
  shows "settle_kept k cfg (ss_cfg (apply_concluded_space_rounds False uids now k idx cfg))
     \<and> list_all (\<lambda>i. round_covered k i (ss_cfg (apply_concluded_space_rounds False uids now k idx cfg))) idx"
proof -
  define ss0 where "ss0 = \<lparr>ss_cfg = cfg, ss_start = [], ss_failed = [], ss_wrote = False\<rparr>"
  define ss1 where "ss1 = fold (retire_addition k) (unique (unique idx @ [0..<length (n_pendingRounds (net_at cfg k))])) ss0"
  have out: "apply_concluded_space_rounds False uids now k idx cfg = fold (start_round False uids now k) (unique idx) ss1"
    by (simp add: apply_concluded_space_rounds_def Let_def ss0_def ss1_def)
  have k1: "settle_kept k cfg (ss_cfg ss1)"
    using retires_kept [of k ss0] by (simp add: ss1_def ss0_def)
  have "list_all (\<lambda>i. i < length (n_pendingRounds (net_at (ss_cfg ss1) k))) (unique idx)"
    using assms(1) settle_kept_length [OF k1] by (simp add: list_all_iff)
  moreover have "k < length (g_networks (ss_cfg ss1))" using k1 assms(2) by (simp add: settle_kept_def)
  ultimately have "settle_kept k (ss_cfg ss1) (ss_cfg (fold (start_round False uids now k) (unique idx) ss1))
      \<and> list_all (\<lambda>i. round_covered k i (ss_cfg (fold (start_round False uids now k) (unique idx) ss1))) (unique idx)"
    by (rule start_rounds_cover)
  then show ?thesis using settle_kept_trans [OF k1] by (simp add: out list_all_iff)
qed

text \<open>Concluding and admitting leave the network where it is, with its rounds in place.\<close>

definition same_places :: "nat \<Rightarrow> act_config \<Rightarrow> act_config \<Rightarrow> bool" where
  "same_places k cfg cfg' \<longleftrightarrow> length (g_networks cfg') = length (g_networks cfg)
     \<and> length (n_pendingRounds (net_at cfg' k)) = length (n_pendingRounds (net_at cfg k))"

lemma same_places_put_net:
  "length (n_pendingRounds net) = length (n_pendingRounds (net_at cfg k)) \<Longrightarrow> same_places k cfg (put_net k net cfg)"
  by (cases "k < length (g_networks cfg)") (simp_all add: same_places_def put_net_def net_at_def list_update_beyond)

lemma same_places_trans: "same_places k a b \<Longrightarrow> same_places k b c \<Longrightarrow> same_places k a c"
  by (simp add: same_places_def)

lemma same_places_put_round: "same_places k cfg (put_round k i rd cfg)"
  unfolding put_round_def by (rule same_places_put_net) simp

lemma conclude_keeps_rounds:
  "n_pendingRounds (fst (conclude_round_if_ready unread self now net rd)) = n_pendingRounds net"
  by (simp add: conclude_round_if_ready_def record_round_outcome_def without_member_def Let_def split: option.split round_outcome.split)

lemma join_keeps_rounds: "n_pendingRounds (snd (apply_passed_join url_ok net self rd now)) = n_pendingRounds net"
  by (simp add: apply_passed_join_def introduce_from_passed_join_def add_introduction_def Let_def split_beta split: option.split)

lemma conclude_one_places: "same_places k (sl_cfg st) (sl_cfg (conclude_one unread now k i st))"
proof (cases "truthy_bool (r_concluded (round_at (sl_cfg st) k i))")
  case True
  then show ?thesis by (simp add: conclude_one_def Let_def same_places_def)
next
  case False
  let ?net = "fst (conclude_round_if_ready unread (g_instanceId (sl_cfg st)) now (net_at (sl_cfg st) k) (round_at (sl_cfg st) k i))"
  have "same_places k (sl_cfg st) (put_net k ?net (sl_cfg st))"
    by (rule same_places_put_net) (simp add: conclude_keeps_rounds)
  then show ?thesis
    using False same_places_put_round same_places_trans
    by (simp add: conclude_one_def Let_def split_beta)
qed

lemma join_one_places: "same_places k (sl_cfg st) (sl_cfg (join_one url_ok now k i st))"
  by (simp add: join_one_def Let_def split_beta) (rule same_places_put_net, simp add: join_keeps_rounds)

lemma fold_places:
  "(\<And>i st. same_places k (sl_cfg st) (sl_cfg (f i st))) \<Longrightarrow> same_places k (sl_cfg st) (sl_cfg (fold f idx st))"
proof (induction idx arbitrary: st)
  case Nil
  show ?case by (simp add: same_places_def)
next
  case (Cons i idx)
  show ?case using same_places_trans [OF Cons.prems Cons.IH [OF Cons.prems]] by simp
qed

lemma concluded_from_rounds:
  "set (sl_concluded (fold (conclude_one unread now k) idx st)) \<subseteq> set (sl_concluded st) \<union> set idx"
proof (induction idx arbitrary: st)
  case Nil
  show ?case by simp
next
  case (Cons i idx)
  have "set (sl_concluded (conclude_one unread now k i st)) \<subseteq> insert i (set (sl_concluded st))"
    by (auto simp: conclude_one_def Let_def split_beta)
  then show ?case using Cons.IH [of "conclude_one unread now k i st"] by auto
qed

lemma join_one_frame: "sl_concluded (fold (join_one url_ok now k) idx st) = sl_concluded st"
proof (induction idx arbitrary: st)
  case Nil
  show ?case by simp
next
  case (Cons i idx)
  have "sl_concluded (join_one url_ok now k i st) = sl_concluded st"
    by (simp add: join_one_def Let_def split_beta)
  then show ?case using Cons.IH by simp
qed

section \<open>What a stamp says\<close>

text \<open>The act a round calls for, whether or not it is stamped.\<close>

definition calls_for :: "nat \<Rightarrow> nat \<Rightarrow> act_config \<Rightarrow> act_request option" where
  "calls_for k i cfg = space_act_target (net_at cfg k) ((round_at cfg k i)\<lparr>r_appliedHere := None\<rparr>) (g_spaces cfg)"

lemma target_cong:
  assumes "n_id net' = n_id net" "n_spaces net' = n_spaces net" "n_spaceMap net' = n_spaceMap net"
  shows "space_act_target net' rd sps = space_act_target net rd sps"
proof -
  have "carried_local_id net' r = carried_local_id net r" for r using assms by (simp add: carried_local_id_def)
  then have "space_round_action net' rd = space_round_action net rd" by (simp add: space_round_action_def round_space_local_id_def)
  with assms(1) show ?thesis unfolding space_act_target_def by (simp only:)
qed

lemma target_unstamped:
  "r_appliedHere rd \<noteq> Some True \<Longrightarrow> space_act_target net (rd\<lparr>r_appliedHere := None\<rparr>) sps = space_act_target net rd sps"
proof -
  assume "r_appliedHere rd \<noteq> Some True"
  then have "space_round_action net (rd\<lparr>r_appliedHere := None\<rparr>) = space_round_action net rd"
    by (simp add: space_round_action_def space_act_owed_def round_passed_unvetoed_def round_space_local_id_def
        cong: option.case_cong if_cong)
  then show ?thesis by (simp add: space_act_target_def Let_def cong: option.case_cong if_cong)
qed

text \<open>A stamp on a deletion or wipe is older than \<open>cfg0\<close>, or the round calls for no act here.\<close>

definition stamped_rightly :: "nat \<Rightarrow> nat \<Rightarrow> act_config \<Rightarrow> act_config \<Rightarrow> bool" where
  "stamped_rightly k i cfg0 cfg \<longleftrightarrow>
     is_space_act_round (r_type (round_at cfg k i)) \<longrightarrow> r_appliedHere (round_at cfg k i) = Some True \<longrightarrow>
     r_appliedHere (round_at cfg0 k i) = Some True \<or> calls_for k i cfg = None"

text \<open>A change of another round, of another part of the network, or of what is registered, leaves a stamp as right as it was.\<close>

definition same_view :: "nat \<Rightarrow> nat \<Rightarrow> act_config \<Rightarrow> act_config \<Rightarrow> bool" where
  "same_view k i cfg cfg' \<longleftrightarrow> round_at cfg' k i = round_at cfg k i \<and> g_spaces cfg' = g_spaces cfg
     \<and> n_id (net_at cfg' k) = n_id (net_at cfg k) \<and> n_spaces (net_at cfg' k) = n_spaces (net_at cfg k)
     \<and> n_spaceMap (net_at cfg' k) = n_spaceMap (net_at cfg k)"

lemma same_view_refl [simp]: "same_view k i cfg cfg"
  by (simp add: same_view_def)

lemma same_view_trans: "same_view k i a b \<Longrightarrow> same_view k i b c \<Longrightarrow> same_view k i a c"
  by (simp add: same_view_def)

lemma same_view_calls: "same_view k i cfg cfg' \<Longrightarrow> calls_for k i cfg' = calls_for k i cfg"
  unfolding calls_for_def same_view_def by (metis target_cong)

lemma same_view_stamped: "same_view k i cfg cfg' \<Longrightarrow> stamped_rightly k i cfg0 cfg \<Longrightarrow> stamped_rightly k i cfg0 cfg'"
  using same_view_calls [of k i cfg cfg'] by (simp add: stamped_rightly_def same_view_def)

lemma net_at_put_net: "net_at (put_net k net cfg) k = (if k < length (g_networks cfg) then net else net_at cfg k)"
  by (simp add: net_at_def put_net_def list_update_beyond)

lemma same_view_put_round: "j \<noteq> i \<Longrightarrow> same_view k i cfg (put_round k j rd cfg)"
  by (simp add: same_view_def put_round_def round_at_def net_at_put_net) (simp add: put_net_def)

lemma same_view_forget: "same_view k i (ss_cfg ss) (ss_cfg (forget_offer_of k j ss))"
  by (auto simp: forget_offer_of_def Let_def split_beta same_view_def round_at_def net_at_put_net forget_pending_offer_def
      clear_settled_proposals_def) (simp_all add: put_net_def)

lemma same_view_register: "register_space_act shut cfg rq uid now = Inr (cfg', e, joined) \<Longrightarrow> same_view k i cfg cfg'"
  by (auto simp: register_space_act_def Let_def same_view_def round_at_def net_at_def split: if_splits option.splits)

lemma settled_round_at:
  assumes "k < length (g_networks cfg)" "i < length (n_pendingRounds (net_at cfg k))"
  shows "round_at (put_round k i rd cfg) k i = rd" "n_id (net_at (put_round k i rd cfg) k) = n_id (net_at cfg k)"
    "n_spaces (net_at (put_round k i rd cfg) k) = n_spaces (net_at cfg k)"
    "n_spaceMap (net_at (put_round k i rd cfg) k) = n_spaceMap (net_at cfg k)" "g_spaces (put_round k i rd cfg) = g_spaces cfg"
  using assms by (simp_all add: round_at_def put_round_def net_at_put_net) (simp_all add: put_net_def)

lemma put_round_beyond: "\<not> i < length (n_pendingRounds (net_at cfg k)) \<Longrightarrow> put_round k i rd cfg = cfg"
  by (simp add: put_round_def put_net_def net_at_def list_update_beyond)

lemma note_act_stamp:
  assumes "stamped_rightly k i cfg0 cfg" "r_appliedHere (round_at cfg k j) \<noteq> Some True" "k < length (g_networks cfg)"
    and "i < length (n_pendingRounds (net_at cfg k))"
  shows "stamped_rightly k i cfg0 (note_act_local_id k j rq cfg)"
proof (cases "j = i")
  case True
  have "round_at (put_round k i rd cfg) k i = rd" for rd by (rule settled_round_at(1) [OF assms(3,4)])
  with True assms(1,2) show ?thesis by (simp add: note_act_local_id_def Let_def stamped_rightly_def)
next
  case False
  then show ?thesis using same_view_stamped [OF same_view_put_round [OF False] assms(1)] assms(1) by (simp add: note_act_local_id_def Let_def)
qed

lemma start_round_stamp:
  assumes "stamped_rightly k i cfg0 (ss_cfg ss)" "k < length (g_networks (ss_cfg ss))"
    and "i < length (n_pendingRounds (net_at (ss_cfg ss) k))"
  shows "stamped_rightly k i cfg0 (ss_cfg (start_round shut uids now k j ss))"
proof (cases "space_act_owed (round_at (ss_cfg ss) k j)")
  case False
  with assms(1) show ?thesis by (simp add: start_round_def Let_def)
next
  case owed: True
  define ss1 where "ss1 = forget_offer_of k j ss"
  define cfg where "cfg = ss_cfg ss1"
  define rd where "rd = round_at cfg k j"
  have view: "same_view k h (ss_cfg ss) cfg" for h unfolding cfg_def ss1_def by (rule same_view_forget)
  have kept: "settle_kept k (ss_cfg ss) cfg" unfolding cfg_def ss1_def by (rule forget_offer_kept)
  have k: "k < length (g_networks cfg)" and i: "i < length (n_pendingRounds (net_at cfg k))"
    using kept assms(2,3) settle_kept_length [OF kept] by (simp_all add: settle_kept_def)
  have ok: "stamped_rightly k i cfg0 cfg" by (rule same_view_stamped [OF view assms(1)])
  have unstamped: "r_appliedHere rd \<noteq> Some True" using owed view [of j] by (simp add: rd_def same_view_def space_act_owed_def)
  note step = start_round_def [of shut uids now k j ss, unfolded Let_def, folded ss1_def, folded cfg_def, folded rd_def]
  show ?thesis
  proof (cases "space_act_of_round (standing_entries cfg) (n_id (net_at cfg k)) (r_roundId rd)")
    case (Some e)
    with step owed ok show ?thesis by (simp add: cfg_def)
  next
    case None
    show ?thesis
    proof (cases "space_act_target (net_at cfg k) rd (g_spaces cfg)")
      case none: None
      have c: "ss_cfg (start_round shut uids now k j ss) = put_round k j (settle_space_act rd) cfg"
        using step owed None none by simp
      show ?thesis
      proof (cases "j = i")
        case True
        have same: "(settle_space_act rd)\<lparr>r_appliedHere := None\<rparr> = rd\<lparr>r_appliedHere := None\<rparr>"
          by (simp add: settle_space_act_def)
        have "calls_for k i (put_round k i (settle_space_act rd) cfg) = None"
          using settled_round_at [OF k i, of "settle_space_act rd"] none target_unstamped [OF unstamped]
          unfolding calls_for_def by (metis same target_cong)
        with True have "calls_for k i (put_round k j (settle_space_act rd) cfg) = None" by blast
        then show ?thesis unfolding c stamped_rightly_def by blast
      next
        case False
        show ?thesis unfolding c by (rule same_view_stamped [OF same_view_put_round [OF False] ok])
      qed
    next
      case (Some rq)
      define cfg1 where "cfg1 = note_act_local_id k j rq cfg"
      have ok1: "stamped_rightly k i cfg0 cfg1"
        using note_act_stamp [OF ok _ k i] unstamped by (simp add: cfg1_def rd_def)
      show ?thesis
      proof (cases "register_space_act shut cfg1 rq (uids j) now")
        case (Inl err)
        with step owed None Some ok1 show ?thesis by (simp add: cfg1_def [symmetric])
      next
        case (Inr res)
        then obtain cfg2 e joined where reg: "register_space_act shut cfg1 rq (uids j) now = Inr (cfg2, e, joined)"
          by (cases res) auto
        with step owed None Some have "ss_cfg (start_round shut uids now k j ss) = cfg2" by (simp add: cfg1_def [symmetric])
        then show ?thesis using same_view_stamped [OF same_view_register [OF reg] ok1] by simp
      qed
    qed
  qed
qed

lemma retire_stamp:
  assumes "stamped_rightly k i cfg0 (ss_cfg ss)" "k < length (g_networks (ss_cfg ss))"
    and "i < length (n_pendingRounds (net_at (ss_cfg ss) k))"
  shows "stamped_rightly k i cfg0 (ss_cfg (retire_addition k j ss))"
proof (cases "ss_cfg (retire_addition k j ss) = ss_cfg ss")
  case True
  with assms(1) show ?thesis by simp
next
  case False
  then have owed: "space_addition_owed (round_at (ss_cfg ss) k j)"
    and c: "ss_cfg (retire_addition k j ss) = put_round k j (settle_space_act (round_at (ss_cfg ss) k j)) (ss_cfg ss)"
    by (auto simp: retire_addition_def Let_def split: if_splits)
  show ?thesis
  proof (cases "j = i")
    case True
    have "r_type (settle_space_act (round_at (ss_cfg ss) k i)) = Space_addition"
      using owed True by (simp add: space_addition_owed_def settle_space_act_def)
    then show ?thesis
      using True settled_round_at(1) [OF assms(2,3)] unfolding c
      by (simp add: stamped_rightly_def is_space_act_round_def SPACE_ACT_ROUND_TYPES_def)
  next
    case False
    show ?thesis unfolding c by (rule same_view_stamped [OF same_view_put_round [OF False] assms(1)])
  qed
qed

lemma stamps_fold:
  assumes step: "\<And>j ss. settle_kept k (ss_cfg ss) (ss_cfg (f j ss))"
    "\<And>j ss. stamped_rightly k i cfg0 (ss_cfg ss) \<Longrightarrow> k < length (g_networks (ss_cfg ss)) \<Longrightarrow>
        i < length (n_pendingRounds (net_at (ss_cfg ss) k)) \<Longrightarrow> stamped_rightly k i cfg0 (ss_cfg (f j ss))"
    and "stamped_rightly k i cfg0 (ss_cfg ss)" "k < length (g_networks (ss_cfg ss))"
    "i < length (n_pendingRounds (net_at (ss_cfg ss) k))"
  shows "stamped_rightly k i cfg0 (ss_cfg (fold f idx ss))"
  using assms(3-5)
proof (induction idx arbitrary: ss)
  case Nil
  then show ?case by simp
next
  case (Cons j idx)
  note kept = step(1) [of ss j]
  show ?case
    using Cons.IH [of "f j ss"] step(2) [OF Cons.prems, of j] Cons.prems settle_kept_length [OF kept] kept
    by (simp add: settle_kept_def)
qed

lemma start_round_kept: "settle_kept k (ss_cfg ss) (ss_cfg (start_round shut uids now k i ss))"
proof -
  let ?cfg = "ss_cfg (forget_offer_of k i ss)"
  have "settle_kept k ?cfg (put_round k i (settle_space_act (round_at ?cfg k i)) ?cfg)" by (rule settle_kept_put_round) simp
  moreover have "settle_kept k ?cfg cfg2" if "register_space_act shut (note_act_local_id k i rq ?cfg) rq u now = Inr (cfg2, e, joined)" for rq u cfg2 e joined
    using settle_kept_trans [OF note_act_kept] settle_kept_register [OF that] by blast
  ultimately show ?thesis
    using forget_offer_kept [of k ss i] note_act_kept [of k ?cfg i] settle_kept_trans
    by (auto simp: start_round_def Let_def split: option.split sum.split)
qed

lemma start_rounds_kept: "settle_kept k (ss_cfg ss) (ss_cfg (fold (start_round shut uids now k) idx ss))"
proof (induction idx arbitrary: ss)
  case Nil
  show ?case by simp
next
  case (Cons i idx)
  show ?case using settle_kept_trans [OF start_round_kept Cons.IH] by simp
qed

lemma apply_concluded_kept: "settle_kept k cfg (ss_cfg (apply_concluded_space_rounds shut uids now k idx cfg))"
  unfolding apply_concluded_space_rounds_def Let_def
  by (rule settle_kept_trans [OF retires_kept [of k "\<lparr>ss_cfg = cfg, ss_start = [], ss_failed = [], ss_wrote = False\<rparr>", simplified]
        start_rounds_kept])

lemma apply_concluded_stamps:
  assumes "k < length (g_networks cfg)" "i < length (n_pendingRounds (net_at cfg k))"
  shows "stamped_rightly k i cfg (ss_cfg (apply_concluded_space_rounds shut uids now k idx cfg))"
proof -
  define ss0 where "ss0 = \<lparr>ss_cfg = cfg, ss_start = [], ss_failed = [], ss_wrote = False\<rparr>"
  define known where "known = unique (unique idx @ [0..<length (n_pendingRounds (net_at cfg k))])"
  define ss1 where "ss1 = fold (retire_addition k) known ss0"
  have kept: "settle_kept k cfg (ss_cfg ss1)" using retires_kept [of k ss0] by (simp add: ss1_def ss0_def)
  have retired: "stamped_rightly k i cfg (ss_cfg ss1)"
    unfolding ss1_def
    by (rule stamps_fold, rule retire_kept, erule (2) retire_stamp) (use assms in \<open>simp_all add: ss0_def stamped_rightly_def\<close>)
  have "stamped_rightly k i cfg (ss_cfg (fold (start_round shut uids now k) (unique idx) ss1))"
    by (rule stamps_fold, rule start_round_kept, erule (2) start_round_stamp)
       (use assms kept retired settle_kept_length [OF kept] in \<open>simp_all add: settle_kept_def\<close>)
  then show ?thesis by (simp add: apply_concluded_space_rounds_def Let_def ss0_def ss1_def known_def)
qed

text \<open>Concluding and admitting stamp nothing.\<close>

abbreviation stamps :: "nat \<Rightarrow> act_config \<Rightarrow> bool option list" where
  "stamps k cfg \<equiv> map r_appliedHere (n_pendingRounds (net_at cfg k))"

lemma stamps_put_net:
  "map r_appliedHere (n_pendingRounds net) = stamps k cfg \<Longrightarrow> stamps k (put_net k net cfg) = stamps k cfg"
  by (simp add: net_at_put_net)

lemma conclude_stamp:
  "r_appliedHere (fst (snd (conclude_round_if_ready unread self now net rd))) = r_appliedHere rd"
  by (simp add: conclude_round_if_ready_def conclude_as_def Let_def split: option.split round_outcome.split)

lemma conclude_one_stamps: "stamps k (sl_cfg (conclude_one unread now k i st)) = stamps k (sl_cfg st)"
proof (cases "truthy_bool (r_concluded (round_at (sl_cfg st) k i))")
  case True
  then show ?thesis by (simp add: conclude_one_def Let_def)
next
  case False
  obtain net rd' fx b where c: "conclude_round_if_ready unread (g_instanceId (sl_cfg st)) now (net_at (sl_cfg st) k) (round_at (sl_cfg st) k i)
      = (net, rd', fx, b)" by (metis prod.collapse)
  have rd': "r_appliedHere rd' = r_appliedHere (round_at (sl_cfg st) k i)"
    using conclude_stamp [of unread "g_instanceId (sl_cfg st)" now "net_at (sl_cfg st) k" "round_at (sl_cfg st) k i"] by (simp add: c)
  have net: "n_pendingRounds net = n_pendingRounds (net_at (sl_cfg st) k)"
    using conclude_keeps_rounds [of unread "g_instanceId (sl_cfg st)" now "net_at (sl_cfg st) k" "round_at (sl_cfg st) k i"] by (simp add: c)
  have "map r_appliedHere ((n_pendingRounds (net_at (sl_cfg st) k))[i := rd']) = stamps k (sl_cfg st)"
    using rd' by (cases "i < length (n_pendingRounds (net_at (sl_cfg st) k))")
      (simp_all add: map_update round_at_def list_update_same_conv list_update_beyond)
  then have "stamps k (put_round k i rd' (put_net k net (sl_cfg st))) = stamps k (sl_cfg st)"
    by (simp add: put_round_def net_at_put_net net)
  with False c show ?thesis by (simp add: conclude_one_def Let_def)
qed

lemma join_one_stamps: "stamps k (sl_cfg (join_one url_ok now k i st)) = stamps k (sl_cfg st)"
  by (simp add: join_one_def Let_def split_beta net_at_put_net join_keeps_rounds)

lemma fold_stamps:
  "(\<And>i st. stamps k (sl_cfg (f i st)) = stamps k (sl_cfg st)) \<Longrightarrow> stamps k (sl_cfg (fold f idx st)) = stamps k (sl_cfg st)"
  by (induction idx arbitrary: st) simp_all

section \<open>Properties\<close>

text \<open>
  Property C25: with the runner of acts open, once rounds are settled every deletion or wipe among them that passed
  unvetoed is carried by a standing act as long as it is owed here, and one that the settle stamped at once as
  done is one that calls for no act here: this instance does not carry the space it names.  This holds for
  the rounds the settle itself concluded and for the ones it was asked to retry.
\<close>

theorem settled_rounds_carried:
  assumes "k < length (g_networks cfg)"
    and "list_all (\<lambda>i. i < length (n_pendingRounds (net_at cfg k))) (rounds @ retry)"
    and "out = settle_rounds unread url_ok False uids now k rounds retry cfg"
    and "i \<in> set (sl_concluded out) \<union> set retry"
  shows "(space_act_owed (round_at (sl_cfg out) k i) \<longrightarrow>
       space_act_of_round (standing_entries (sl_cfg out)) (n_id (net_at (sl_cfg out) k))
         (r_roundId (round_at (sl_cfg out) k i)) \<noteq> None)
   \<and> (is_space_act_round (r_type (round_at (sl_cfg out) k i)) \<longrightarrow> r_appliedHere (round_at cfg k i) \<noteq> Some True \<longrightarrow>
       r_appliedHere (round_at (sl_cfg out) k i) = Some True \<longrightarrow>
       space_act_target (net_at (sl_cfg out) k) ((round_at (sl_cfg out) k i)\<lparr>r_appliedHere := None\<rparr>) (g_spaces (sl_cfg out)) = None)"
proof -
  define st0 where "st0 = \<lparr>sl_cfg = cfg, sl_concluded = [], sl_start = [], sl_failed = [], sl_wrote = False, sl_effects = []\<rparr>"
  define st1 where "st1 = fold (conclude_one unread now k) rounds st0"
  define st2 where "st2 = fold (join_one url_ok now k) (sl_concluded st1) st1"
  define idx where "idx = sl_concluded st1 @ retry"
  define ss where "ss = apply_concluded_space_rounds False uids now k idx (sl_cfg st2)"
  have same: "sl_concluded st2 = sl_concluded st1" by (simp add: st2_def join_one_frame)
  have out: "sl_cfg out = ss_cfg ss" "sl_concluded out = sl_concluded st1"
    by (simp_all add: assms(3) settle_rounds_def apply_round_conclusion_def Let_def st0_def [symmetric]
        st1_def [symmetric] st2_def [symmetric] idx_def [symmetric] ss_def [symmetric] same)
  have "same_places k cfg (sl_cfg st1)"
    using fold_places [of k "conclude_one unread now k" st0 rounds] conclude_one_places by (simp add: st1_def st0_def)
  moreover have "same_places k (sl_cfg st1) (sl_cfg st2)"
    unfolding st2_def by (rule fold_places) (rule join_one_places)
  ultimately have places: "same_places k cfg (sl_cfg st2)" by (rule same_places_trans)
  have "set idx \<subseteq> set rounds \<union> set retry"
    using concluded_from_rounds [of unread now k rounds st0] by (auto simp: idx_def st1_def st0_def)
  then have "list_all (\<lambda>i. i < length (n_pendingRounds (net_at (sl_cfg st2) k))) idx"
    using assms(2) places by (auto simp: list_all_iff same_places_def)
  moreover have "k < length (g_networks (sl_cfg st2))" using places assms(1) by (simp add: same_places_def)
  ultimately have within: "list_all (\<lambda>i. i < length (n_pendingRounds (net_at (sl_cfg st2) k))) idx"
    "k < length (g_networks (sl_cfg st2))" by simp_all
  then have "list_all (\<lambda>i. round_covered k i (ss_cfg ss)) idx"
    using apply_concluded_covers [of "sl_cfg st2" k idx uids now] by (simp add: ss_def)
  moreover have i: "i \<in> set idx" using assms(4) out(2) by (auto simp: idx_def)
  ultimately have covered: "round_covered k i (ss_cfg ss)" by (simp add: list_all_iff)
  have at: "i < length (n_pendingRounds (net_at (sl_cfg st2) k))" using within(1) i by (simp add: list_all_iff)
  have "stamps k (sl_cfg st2) = stamps k (sl_cfg st1)" unfolding st2_def by (rule fold_stamps) (rule join_one_stamps)
  also have "\<dots> = stamps k (sl_cfg st0)" unfolding st1_def by (rule fold_stamps) (rule conclude_one_stamps)
  also have "sl_cfg st0 = cfg" by (simp add: st0_def)
  finally have "r_appliedHere (round_at (sl_cfg st2) k i) = r_appliedHere (round_at cfg k i)"
    using at unfolding round_at_def by (metis length_map nth_map)
  moreover have "stamped_rightly k i (sl_cfg st2) (ss_cfg ss)"
    unfolding ss_def by (rule apply_concluded_stamps [OF within(2) at])
  ultimately show ?thesis
    using covered space_act_of_round_carried [of "standing_entries (ss_cfg ss)" "n_id (net_at (ss_cfg ss) k)"]
    by (auto simp: round_covered_def stamped_rightly_def calls_for_def out(1) carried_rounds_def)
qed

definition demo_passed_wipe :: vote_round where
  "demo_passed_wipe = (demo_round Space_wipe ''a'' [demo_cast ''a'' Yes])\<lparr>r_concluded := Some True, r_passed := Some True\<rparr>"

definition demo_wiped :: act_config where
  "demo_wiped = demo_cfg\<lparr>g_networks := [(demo_pair Closed)\<lparr>n_spaces := [''work''], n_pendingRounds := [demo_passed_wipe]\<rparr>]\<rparr>"

definition demo_settled :: settled where
  "demo_settled = settle_rounds (\<lambda>n r. None) (\<lambda>u. True) False (\<lambda>i. ''a1'') 50 0 [] [0] demo_wiped"

theorem settled_rounds_carried_witness:
  "space_act_of_round (standing_entries (sl_cfg demo_settled)) ''net'' ''r1'' \<noteq> None"
proof -
  have owed: "space_act_owed (round_at (sl_cfg demo_settled) 0 0)" by code_simp
  have ids: "n_id (net_at (sl_cfg demo_settled) 0) = ''net''" "r_roundId (round_at (sl_cfg demo_settled) 0 0) = ''r1''"
    by code_simp+
  have "0 < length (g_networks demo_wiped)"
      "list_all (\<lambda>i. i < length (n_pendingRounds (net_at demo_wiped 0))) ([] @ [0])"
    by code_simp+
  then show ?thesis
    using settled_rounds_carried [OF _ _ demo_settled_def, of 0] owed ids by simp
qed

end
