(* ===== verification/Round_Acts.thy ===== *)
theory Round_Acts
  imports Round_Settle
begin

text \<open>
  The three doors that move a round here: an operator proposes one
  (\<open>server/src/networks/propose-round.ts\<close>), votes on one (\<open>castVoteAct\<close> of
  \<open>server/src/networks/vote-acts.ts\<close>), and the minute tick that closes what has lapsed, retries what is
  owed and prunes what is over (\<open>server/src/networks/round-expiry.ts\<close>).  Every one of them settles through
  \<open>settle_rounds\<close>.  The instance's signing key is the argument \<open>sign\<close>, absent where the instance has
  none; notices and mails are left out.
\<close>

section \<open>This instance's own cast\<close>

definition signature_of :: "(string \<Rightarrow> string) option \<Rightarrow> string \<Rightarrow> string option" where
  "signature_of sign msg = given_str (map_option (\<lambda>s. s msg) sign)"

definition make_signed_own_cast ::
  "(string \<Rightarrow> string) option \<Rightarrow> int \<Rightarrow> string \<Rightarrow> vote_round \<Rightarrow> string \<Rightarrow> vote_value \<Rightarrow> vote_cast" where
  "make_signed_own_cast sign now netid rd i vote =
     (let base = \<lparr>c_instanceId = i, c_vote = vote, c_castAt = Some (At now), c_sig = None, c_bsig = None\<rparr> in
      base\<lparr>c_sig := signature_of sign (vote_cast_message netid rd base),
           c_bsig := signature_of sign (vote_cast_bound_message netid rd base)\<rparr>)"

definition put_cast :: "vote_cast \<Rightarrow> vote_round \<Rightarrow> vote_round" where
  "put_cast c rd =
     rd\<lparr>r_votes := (case find_index (\<lambda>v. c_instanceId v = c_instanceId c) (r_votes rd) of
        Some j \<Rightarrow> update_at j (\<lambda>_. c) (r_votes rd)
      | None \<Rightarrow> r_votes rd @ [c])\<rparr>"

section \<open>Voting\<close>

datatype cast_answer =
    Cast_no_network
  | Cast_refused round_refusal
  | Cast_unreadable string
  | Cast_threw
  | Cast_done bool

text \<open>The configuration afterwards, the answer, and what the settle left to do.\<close>

definition cast_vote_act ::
  "(network \<Rightarrow> vote_round \<Rightarrow> string option) \<Rightarrow> (string \<Rightarrow> bool) \<Rightarrow> (string \<Rightarrow> string) option \<Rightarrow> bool \<Rightarrow> (nat \<Rightarrow> string) \<Rightarrow> int
     \<Rightarrow> string \<Rightarrow> string \<Rightarrow> vote_value \<Rightarrow> act_config \<Rightarrow> act_config \<times> cast_answer \<times> settled option" where
  "cast_vote_act unread url_ok sign shut uids now netid rid vote cfg =
     (case find_index (\<lambda>n. n_id n = netid) (g_networks cfg) of
        None \<Rightarrow> (cfg, Cast_no_network, None)
      | Some k \<Rightarrow>
        let net = net_at cfg k in
        case round_to_vote_on net rid now of
          Inl refusal \<Rightarrow> (cfg, Cast_refused refusal, None)
        | Inr rd \<Rightarrow>
          let i = the (round_index net rid);
              why = (if vote = Yes \<and> r_type rd = Meta_change then unread net rd else None)
          in case why of
               Some w \<Rightarrow> (put_round k i (rd\<lparr>r_refusedHere := Some w\<rparr>) cfg, Cast_unreadable w, None)
             | None \<Rightarrow>
               let cast = make_signed_own_cast sign now (n_id net) rd (g_instanceId cfg) vote;
                   out = settle_rounds unread url_ok shut uids now k [i] [] (put_round k i (put_cast cast rd) cfg)
               in (sl_cfg out,
                   if sl_failed out \<noteq> [] then Cast_threw
                   else Cast_done (truthy_bool (r_concluded (round_at (sl_cfg out) k i))),
                   Some out))"

section \<open>Proposing\<close>

datatype propose_error = Space_not_named

record proposed =
  pr_cfg :: act_config
  pr_index :: nat
  pr_decided :: round_decided_kind
  pr_settled :: settled

definition proposed_round :: "network \<Rightarrow> vote_round \<Rightarrow> string \<Rightarrow> int \<Rightarrow> vote_round" where
  "proposed_round net proposal rid now =
     proposal\<lparr>r_roundId := rid, r_openedAt := Some (At now),
              r_deadline := Some (At (now + n_votingDeadlineHours net * 3600000)), r_votes := []\<rparr>"

definition names_its_space :: "vote_round \<Rightarrow> bool" where
  "names_its_space proposal \<longleftrightarrow>
     (is_space_act_round (r_type proposal) \<longrightarrow> truthy_str (r_spaceId proposal) \<and> truthy_str (r_networkSpaceId proposal))"

definition propose_round ::
  "(network \<Rightarrow> vote_round \<Rightarrow> string option) \<Rightarrow> (string \<Rightarrow> bool) \<Rightarrow> (string \<Rightarrow> string) option \<Rightarrow> bool \<Rightarrow> (nat \<Rightarrow> string) \<Rightarrow> int
     \<Rightarrow> nat \<Rightarrow> vote_round \<Rightarrow> string \<Rightarrow> act_config \<Rightarrow> propose_error + proposed" where
  "propose_round unread url_ok sign shut uids now k proposal rid cfg =
     (if \<not> names_its_space proposal then Inl Space_not_named
      else
        let net = net_at cfg k;
            rd = proposed_round net proposal rid now;
            net1 = open_round_here net rd;
            i = length (n_pendingRounds net);
            cast = make_signed_own_cast sign now (n_id net) rd (g_instanceId cfg) Yes;
            net2 = net1\<lparr>n_pendingRounds := update_at i (\<lambda>r. r\<lparr>r_votes := r_votes r @ [cast]\<rparr>) (n_pendingRounds net1)\<rparr>;
            out = settle_rounds unread url_ok shut uids now k [i] [] (put_net k net2 cfg)
        in Inr \<lparr>pr_cfg = sl_cfg out, pr_index = i, pr_decided = round_decided (round_at (sl_cfg out) k i), pr_settled = out\<rparr>)"

text \<open>An own round of the space still under way: open, its act running, waiting for its retry, or due.\<close>

datatype progress_state = In_open | In_running | In_queued | In_due

definition covered_key :: "brain_collection list option \<Rightarrow> string" where
  "covered_key types =
     (case canonical_wipe_types types of None \<Rightarrow> ''*'' | Some ts \<Rightarrow> join_with '','' (map collection_text ts))"

definition same_own_round :: "network \<Rightarrow> vote_round_type \<Rightarrow> string \<Rightarrow> brain_collection list option \<Rightarrow> vote_round \<Rightarrow> bool" where
  "same_own_round net t sp types rd \<longleftrightarrow>
     r_proposedHere rd = Some True \<and> r_type rd = t
     \<and> network_space_key net rd = Some (local_to_remote (n_spaceMap net) sp)
     \<and> (t = Space_wipe \<longrightarrow> covered_key (r_wipeTypes rd) = covered_key types)"

fun own_round_scan ::
  "space_act_entry list \<Rightarrow> network \<Rightarrow> vote_round_type \<Rightarrow> string \<Rightarrow> brain_collection list option \<Rightarrow> int \<Rightarrow> vote_round list
     \<Rightarrow> (vote_round \<times> progress_state \<times> space_act_entry option) option" where
  "own_round_scan acts net t sp types now [] = None"
| "own_round_scan acts net t sp types now (rd # rds) =
     (if \<not> same_own_round net t sp types rd then own_round_scan acts net t sp types now rds
      else if round_is_open rd now then Some (rd, In_open, None)
      else if \<not> space_act_owed rd then own_round_scan acts net t sp types now rds
      else case space_act_of_round acts (n_id net) (r_roundId rd) of
        None \<Rightarrow> Some (rd, In_due, None)
      | Some e \<Rightarrow> if e_state e \<noteq> Owed then Some (rd, In_running, Some e)
                  else Some (rd, if space_act_due_at e now then In_due else In_queued, Some e))"

definition own_space_round_in_progress ::
  "act_config \<Rightarrow> network \<Rightarrow> vote_round_type \<Rightarrow> string \<Rightarrow> brain_collection list option \<Rightarrow> int
     \<Rightarrow> (vote_round \<times> progress_state \<times> space_act_entry option) option" where
  "own_space_round_in_progress cfg net t sp types now =
     own_round_scan (standing_entries cfg) net t sp types now (n_pendingRounds net)"

section \<open>The minute tick\<close>

text \<open>A round that is not concluded says nothing of having passed.\<close>

definition drop_stray_passed :: "vote_round \<Rightarrow> vote_round" where
  "drop_stray_passed rd =
     (if r_concluded rd \<noteq> Some True \<and> r_passed rd \<noteq> None then rd\<lparr>r_passed := None\<rparr> else rd)"

definition expire_one ::
  "(network \<Rightarrow> vote_round \<Rightarrow> string option) \<Rightarrow> (string \<Rightarrow> bool) \<Rightarrow> bool \<Rightarrow> (nat \<Rightarrow> nat \<Rightarrow> string) \<Rightarrow> int \<Rightarrow> nat \<Rightarrow> nat \<Rightarrow> act_config \<Rightarrow> act_config" where
  "expire_one unread url_ok shut uids now k i cfg =
     (let rd = round_at cfg k i in
      if truthy_bool (r_concluded rd) \<or> \<not> round_past_deadline rd now then cfg
      else sl_cfg (settle_rounds unread url_ok shut (uids i) now k [i] [] cfg))"

definition clean_rounds :: "nat \<Rightarrow> act_config \<Rightarrow> act_config" where
  "clean_rounds k cfg =
     put_net k ((net_at cfg k)\<lparr>n_pendingRounds := map drop_stray_passed (n_pendingRounds (net_at cfg k))\<rparr>) cfg"

definition retry_owed_rounds ::
  "(network \<Rightarrow> vote_round \<Rightarrow> string option) \<Rightarrow> (string \<Rightarrow> bool) \<Rightarrow> bool \<Rightarrow> (nat \<Rightarrow> string) \<Rightarrow> int \<Rightarrow> nat \<Rightarrow> act_config \<Rightarrow> act_config" where
  "retry_owed_rounds unread url_ok shut uids now k cfg =
     (let owed = filter (\<lambda>i. space_act_owed (round_at cfg k i)) [0..<length (n_pendingRounds (net_at cfg k))]
      in if owed = [] then cfg else sl_cfg (settle_rounds unread url_ok shut uids now k [] owed cfg))"

definition prune_network :: "int \<Rightarrow> nat \<Rightarrow> act_config \<Rightarrow> act_config" where
  "prune_network now k cfg =
     put_net k (snd (prune_expired_rounds (standing_entries cfg) (g_instanceId cfg) (net_at cfg k) now)) cfg"

text \<open>
  The tick over one network closes its lapsed rounds, retries what is owed, and prunes; \<open>uids\<close> supplies fresh
  ids per settle, the retry's under the index past the last round.  The tick over all of them takes the
  networks in order.
\<close>

definition close_network ::
  "(network \<Rightarrow> vote_round \<Rightarrow> string option) \<Rightarrow> (string \<Rightarrow> bool) \<Rightarrow> bool \<Rightarrow> (nat \<Rightarrow> nat \<Rightarrow> string) \<Rightarrow> int \<Rightarrow> nat \<Rightarrow> act_config \<Rightarrow> act_config" where
  "close_network unread url_ok shut uids now k cfg =
     (let rounds = [0..<length (n_pendingRounds (net_at cfg k))];
          cfg1 = fold (expire_one unread url_ok shut uids now k) rounds (clean_rounds k cfg)
      in retry_owed_rounds unread url_ok shut (uids (length rounds)) now k cfg1)"

definition expire_network ::
  "(network \<Rightarrow> vote_round \<Rightarrow> string option) \<Rightarrow> (string \<Rightarrow> bool) \<Rightarrow> bool \<Rightarrow> (nat \<Rightarrow> nat \<Rightarrow> string) \<Rightarrow> int \<Rightarrow> nat \<Rightarrow> act_config \<Rightarrow> act_config" where
  "expire_network unread url_ok shut uids now k cfg = prune_network now k (close_network unread url_ok shut uids now k cfg)"

definition run_round_expiry_tick ::
  "(network \<Rightarrow> vote_round \<Rightarrow> string option) \<Rightarrow> (string \<Rightarrow> bool) \<Rightarrow> bool \<Rightarrow> (nat \<Rightarrow> nat \<Rightarrow> nat \<Rightarrow> string) \<Rightarrow> int \<Rightarrow> act_config \<Rightarrow> act_config" where
  "run_round_expiry_tick unread url_ok shut uids now cfg =
     fold (\<lambda>k. expire_network unread url_ok shut (uids k) now k) [0..<length (g_networks cfg)] cfg"

section \<open>Lemmas: settling only moves rounds on\<close>

definition rounds_advance :: "nat \<Rightarrow> act_config \<Rightarrow> act_config \<Rightarrow> bool" where
  "rounds_advance k cfg cfg' \<longleftrightarrow>
     length (g_networks cfg') = length (g_networks cfg)
     \<and> list_all2 (\<lambda>rd rd'. r_deadline rd' = r_deadline rd \<and> r_votes rd' = r_votes rd \<and> r_roundId rd' = r_roundId rd
           \<and> (truthy_bool (r_concluded rd) \<longrightarrow> truthy_bool (r_concluded rd')))
         (n_pendingRounds (net_at cfg k)) (n_pendingRounds (net_at cfg' k))"

lemma rounds_advance_refl [simp]: "rounds_advance k cfg cfg"
  by (simp add: rounds_advance_def list_all2_refl)

lemma rounds_advance_trans: "rounds_advance k a b \<Longrightarrow> rounds_advance k b c \<Longrightarrow> rounds_advance k a c"
  unfolding rounds_advance_def by (fastforce simp: list_all2_conv_all_nth)

lemma rounds_advance_nth:
  "rounds_advance k cfg cfg' \<Longrightarrow> i < length (n_pendingRounds (net_at cfg k)) \<Longrightarrow>
     r_deadline (round_at cfg' k i) = r_deadline (round_at cfg k i)
     \<and> r_votes (round_at cfg' k i) = r_votes (round_at cfg k i) \<and> r_roundId (round_at cfg' k i) = r_roundId (round_at cfg k i)
     \<and> (truthy_bool (r_concluded (round_at cfg k i)) \<longrightarrow> truthy_bool (r_concluded (round_at cfg' k i)))"
  by (auto simp: rounds_advance_def round_at_def list_all2_conv_all_nth)

lemma rounds_advance_places: "rounds_advance k cfg cfg' \<Longrightarrow> same_places k cfg cfg'"
  by (auto simp: rounds_advance_def same_places_def dest: list_all2_lengthD)

lemma round_kept_advance:
  assumes "round_kept rd rd'"
  shows "r_deadline rd' = r_deadline rd \<and> r_votes rd' = r_votes rd \<and> r_roundId rd' = r_roundId rd
     \<and> (truthy_bool (r_concluded rd) \<longrightarrow> truthy_bool (r_concluded rd'))"
proof -
  have b: "bare_round rd' = bare_round rd" using assms by (simp add: round_kept_def)
  show ?thesis using arg_cong [OF b, of r_deadline] arg_cong [OF b, of r_concluded]
      arg_cong [OF b, of r_votes] arg_cong [OF b, of r_roundId] by (simp add: bare_round_def)
qed

lemma settle_kept_advance: "settle_kept k cfg cfg' \<Longrightarrow> rounds_advance k cfg cfg'"
  unfolding settle_kept_def rounds_advance_def
  by (auto elim!: list_all2_mono dest: round_kept_advance)

lemma rounds_advance_put_net:
  assumes "n_pendingRounds net = n_pendingRounds (net_at cfg k)"
  shows "rounds_advance k cfg (put_net k net cfg)"
  using assms
  by (cases "k < length (g_networks cfg)")
    (simp_all add: rounds_advance_def put_net_def net_at_def list_all2_refl list_update_beyond)

lemma rounds_advance_put_round:
  assumes "r_deadline rd = r_deadline (round_at cfg k i)" "r_votes rd = r_votes (round_at cfg k i)"
    and "r_roundId rd = r_roundId (round_at cfg k i)" "truthy_bool (r_concluded (round_at cfg k i)) \<Longrightarrow> truthy_bool (r_concluded rd)"
  shows "rounds_advance k cfg (put_round k i rd cfg)"
proof (cases "k < length (g_networks cfg)")
  case True
  then show ?thesis
    using assms
    by (cases "i < length (n_pendingRounds (net_at cfg k))")
      (auto simp: rounds_advance_def put_round_def put_net_def net_at_def round_at_def list_all2_conv_all_nth nth_list_update
        list_update_beyond)
next
  case False
  then show ?thesis by (simp add: put_round_def put_net_def list_update_beyond)
qed

lemma conclude_advances:
  assumes "conclude_round_if_ready unread self now net rd = (net', rd', fx, p)"
  shows "r_deadline rd' = r_deadline rd \<and> r_votes rd' = r_votes rd \<and> r_roundId rd' = r_roundId rd
     \<and> (truthy_bool (r_concluded rd) \<longrightarrow> truthy_bool (r_concluded rd'))
     \<and> (round_past_deadline rd now \<longrightarrow> truthy_bool (r_concluded rd'))"
proof (cases "round_verdict net self rd now")
  case None
  then have "\<not> round_past_deadline rd now" by (auto simp: round_verdict_def split: if_splits)
  then show ?thesis using None assms by (simp add: conclude_round_if_ready_def)
next
  case (Some v)
  then show ?thesis
    using assms
    by (cases v) (auto simp: conclude_round_if_ready_def Let_def conclude_as_def split: if_splits option.splits)
qed

lemma conclude_one_advances:
  assumes "i < length (n_pendingRounds (net_at (sl_cfg st) k))" "k < length (g_networks (sl_cfg st))"
  shows "rounds_advance k (sl_cfg st) (sl_cfg (conclude_one unread now k i st))
     \<and> (round_past_deadline (round_at (sl_cfg st) k i) now \<longrightarrow>
          truthy_bool (r_concluded (round_at (sl_cfg (conclude_one unread now k i st)) k i)))"
proof (cases "truthy_bool (r_concluded (round_at (sl_cfg st) k i))")
  case True
  then show ?thesis by (simp add: conclude_one_def Let_def)
next
  case False
  obtain net' rd' fx p where c: "conclude_round_if_ready unread (g_instanceId (sl_cfg st)) now
      (net_at (sl_cfg st) k) (round_at (sl_cfg st) k i) = (net', rd', fx, p)"
    by (metis prod_cases4)
  have rounds: "n_pendingRounds net' = n_pendingRounds (net_at (sl_cfg st) k)"
    using conclude_keeps_rounds [of unread _ now "net_at (sl_cfg st) k"] c by (metis fst_conv)
  define cfg1 where "cfg1 = put_net k net' (sl_cfg st)"
  have one: "rounds_advance k (sl_cfg st) cfg1"
    unfolding cfg1_def by (rule rounds_advance_put_net) (rule rounds)
  have at1: "round_at cfg1 k i = round_at (sl_cfg st) k i"
    using assms(2) rounds by (simp add: cfg1_def round_at_def net_at_def put_net_def)
  have two: "rounds_advance k cfg1 (put_round k i rd' cfg1)"
    using conclude_advances [OF c] by (intro rounds_advance_put_round) (simp_all add: at1)
  have "round_at (put_round k i rd' cfg1) k i = rd'"
    using assms rounds by (simp add: cfg1_def round_at_def net_at_def put_net_def put_round_def)
  then show ?thesis
    using False c conclude_advances [OF c] rounds_advance_trans [OF one two]
    by (simp add: conclude_one_def Let_def cfg1_def)
qed

lemma join_one_advances: "rounds_advance k (sl_cfg st) (sl_cfg (join_one url_ok now k i st))"
  by (simp add: join_one_def Let_def split_beta) (rule rounds_advance_put_net, simp add: join_keeps_rounds)

lemma joins_advance: "rounds_advance k (sl_cfg st) (sl_cfg (fold (join_one url_ok now k) idx st))"
proof (induction idx arbitrary: st)
  case Nil
  show ?case by simp
next
  case (Cons i idx)
  show ?case using rounds_advance_trans [OF join_one_advances Cons.IH] by simp
qed

lemma concludes_advance:
  assumes "list_all (\<lambda>i. i < length (n_pendingRounds (net_at (sl_cfg st) k))) idx" "k < length (g_networks (sl_cfg st))"
  shows "rounds_advance k (sl_cfg st) (sl_cfg (fold (conclude_one unread now k) idx st))"
  using assms
proof (induction idx arbitrary: st)
  case Nil
  then show ?case by simp
next
  case (Cons i idx)
  have step: "rounds_advance k (sl_cfg st) (sl_cfg (conclude_one unread now k i st))"
    using conclude_one_advances [of i st k unread now] Cons.prems by auto
  then have "rounds_advance k (sl_cfg (conclude_one unread now k i st)) (sl_cfg (fold (conclude_one unread now k) idx (conclude_one unread now k i st)))"
    using Cons.prems rounds_advance_places [OF step] by (intro Cons.IH) (auto simp: same_places_def)
  then show ?case using rounds_advance_trans [OF step] by simp
qed

lemma settle_advances:
  assumes "list_all (\<lambda>i. i < length (n_pendingRounds (net_at cfg k))) (rounds @ retry)" "k < length (g_networks cfg)"
  shows "rounds_advance k cfg (sl_cfg (settle_rounds unread url_ok shut uids now k rounds retry cfg))
     \<and> (rounds = [i] \<longrightarrow> round_past_deadline (round_at cfg k i) now \<longrightarrow>
          truthy_bool (r_concluded (round_at (sl_cfg (settle_rounds unread url_ok shut uids now k rounds retry cfg)) k i)))"
proof -
  define st0 where "st0 = \<lparr>sl_cfg = cfg, sl_concluded = [], sl_start = [], sl_failed = [], sl_wrote = False, sl_effects = []\<rparr>"
  define st1 where "st1 = fold (conclude_one unread now k) rounds st0"
  define st2 where "st2 = fold (join_one url_ok now k) (sl_concluded st1) st1"
  define ss where "ss = apply_concluded_space_rounds shut uids now k (sl_concluded st1 @ retry) (sl_cfg st2)"
  have same: "sl_concluded st2 = sl_concluded st1" by (simp add: st2_def join_one_frame)
  have out: "sl_cfg (settle_rounds unread url_ok shut uids now k rounds retry cfg) = ss_cfg ss"
    by (simp add: settle_rounds_def apply_round_conclusion_def Let_def st0_def [symmetric]
        st1_def [symmetric] st2_def [symmetric] ss_def [symmetric] same)
  have a1: "rounds_advance k cfg (sl_cfg st1)"
    using concludes_advance [of st0 k rounds unread now] assms by (simp add: st1_def st0_def)
  have a2: "rounds_advance k (sl_cfg st1) (sl_cfg st2)" unfolding st2_def by (rule joins_advance)
  note a12 = rounds_advance_trans [OF a1 a2]
  have "settle_kept k (sl_cfg st2) (ss_cfg ss)" unfolding ss_def by (rule apply_concluded_kept)
  then have a3: "rounds_advance k (sl_cfg st2) (ss_cfg ss)" by (rule settle_kept_advance)
  have "truthy_bool (r_concluded (round_at (ss_cfg ss) k i))"
    if r: "rounds = [i]" and past: "round_past_deadline (round_at cfg k i) now"
  proof -
    have "truthy_bool (r_concluded (round_at (sl_cfg st1) k i))"
      using conclude_one_advances [of i st0 k unread now] assms past r by (simp add: st1_def st0_def)
    then show ?thesis
      using rounds_advance_nth [OF rounds_advance_trans [OF a2 a3], of i] rounds_advance_places [OF a1] assms(1) r
      by (simp add: same_places_def)
  qed
  then show ?thesis using rounds_advance_trans [OF a12 a3] unfolding out by blast
qed

lemma expire_one_step:
  assumes "i < length (n_pendingRounds (net_at cfg k))" "k < length (g_networks cfg)"
  shows "rounds_advance k cfg (expire_one unread url_ok shut uids now k i cfg)
     \<and> (round_past_deadline (round_at cfg k i) now \<longrightarrow>
          truthy_bool (r_concluded (round_at (expire_one unread url_ok shut uids now k i cfg) k i)))"
  using settle_advances [of cfg k "[i]" "[]" unread url_ok shut "uids i" now i] assms
  by (simp add: expire_one_def Let_def)

lemma expire_rounds_step:
  assumes "list_all (\<lambda>i. i < length (n_pendingRounds (net_at cfg k))) idx" "k < length (g_networks cfg)"
  shows "rounds_advance k cfg (fold (expire_one unread url_ok shut uids now k) idx cfg)
     \<and> list_all (\<lambda>i. round_past_deadline (round_at cfg k i) now \<longrightarrow>
          truthy_bool (r_concluded (round_at (fold (expire_one unread url_ok shut uids now k) idx cfg) k i))) idx"
  using assms
proof (induction idx arbitrary: cfg)
  case Nil
  then show ?case by simp
next
  case (Cons i idx)
  let ?c = "expire_one unread url_ok shut uids now k i cfg"
  let ?last_cfg = "fold (expire_one unread url_ok shut uids now k) idx ?c"
  have step: "rounds_advance k cfg ?c"
      "round_past_deadline (round_at cfg k i) now \<longrightarrow> truthy_bool (r_concluded (round_at ?c k i))"
    using expire_one_step [of i cfg k unread url_ok shut uids now] Cons.prems by auto
  have places: "length (g_networks ?c) = length (g_networks cfg)"
      "length (n_pendingRounds (net_at ?c k)) = length (n_pendingRounds (net_at cfg k))"
    using rounds_advance_places [OF step(1)] by (simp_all add: same_places_def)
  have rest: "rounds_advance k ?c ?last_cfg"
      "list_all (\<lambda>i. round_past_deadline (round_at ?c k i) now \<longrightarrow> truthy_bool (r_concluded (round_at ?last_cfg k i))) idx"
    using Cons.IH [of ?c] Cons.prems places by auto
  have past: "round_past_deadline (round_at ?c k j) now = round_past_deadline (round_at cfg k j) now"
    if "j < length (n_pendingRounds (net_at cfg k))" for j
    using rounds_advance_nth [OF step(1) that] by (simp add: round_past_deadline_def)
  have "truthy_bool (r_concluded (round_at ?last_cfg k i))" if "round_past_deadline (round_at cfg k i) now"
    using that step(2) rounds_advance_nth [OF rest(1), of i] Cons.prems places by simp
  then show ?case
    using rounds_advance_trans [OF step(1) rest(1)] rest(2) Cons.prems(1) past by (auto simp: list_all_iff)
qed

lemma retry_owed_advances:
  assumes "k < length (g_networks cfg)"
  shows "rounds_advance k cfg (retry_owed_rounds unread url_ok shut uids now k cfg)"
proof -
  let ?owed = "filter (\<lambda>i. space_act_owed (round_at cfg k i)) [0..<length (n_pendingRounds (net_at cfg k))]"
  have "list_all (\<lambda>i. i < length (n_pendingRounds (net_at cfg k))) ([] @ ?owed)"
    by (simp add: list_all_iff)
  from settle_advances [OF this assms] show ?thesis
    by (simp add: retry_owed_rounds_def Let_def)
qed

text \<open>What a prune keeps, in any case.\<close>

lemma rounds_after_prune:
  "n_pendingRounds (snd (prune_expired_rounds acts self net now)) =
     filter (\<lambda>r. \<not> is_round_prunable r now \<or> act_stands_for_round acts net r) (n_pendingRounds net)"
  by (simp add: prune_expired_rounds_def Let_def filter_empty_conv filter_id_conv)

lemma outcome_fold_id: "n_id (fold (\<lambda>r n. record_round_outcome self n r now) rds net) = n_id net"
  by (induction rds arbitrary: net) (simp_all add: frame)

lemma clean_places: "same_places k cfg (clean_rounds k cfg)"
  unfolding clean_rounds_def by (rule same_places_put_net) simp

section \<open>Properties\<close>

text \<open>
  Property C27: a tick ends every round that has lapsed, whatever was pending, cast or owed before and whether or not the
  runner of acts is open.  Closing loses no round and changes no deadline and no cast, and after it every round past its
  deadline is concluded; then exactly the rounds that are concluded and past their deadline are pruned, in order,
  except a deletion or wipe whose act still stands here, and no other lapsed round is left.
\<close>

theorem tick_leaves_no_lapsed_round:
  assumes "k < length (g_networks cfg)"
    and "closed_cfg = close_network unread url_ok shut uids now k cfg" "cfg' = expire_network unread url_ok shut uids now k cfg"
  shows "map (\<lambda>rd. (r_roundId rd, r_deadline rd, r_votes rd)) (n_pendingRounds (net_at closed_cfg k))
       = map (\<lambda>rd. (r_roundId rd, r_deadline rd, r_votes rd)) (n_pendingRounds (net_at cfg k))
   \<and> (\<forall>rd \<in> set (n_pendingRounds (net_at closed_cfg k)). round_past_deadline rd now \<longrightarrow> truthy_bool (r_concluded rd))
   \<and> n_pendingRounds (net_at cfg' k) =
       filter (\<lambda>rd. \<not> (truthy_bool (r_concluded rd) \<and> round_past_deadline rd now)
             \<or> act_stands_for_round (standing_entries closed_cfg) (net_at closed_cfg k) rd) (n_pendingRounds (net_at closed_cfg k))
   \<and> (\<forall>rd \<in> set (n_pendingRounds (net_at cfg' k)). round_past_deadline rd now \<longrightarrow>
         act_stands_for_round (standing_entries cfg') (net_at cfg' k) rd)"
proof -
  define idx where "idx = [0..<length (n_pendingRounds (net_at cfg k))]"
  define cfg0 where "cfg0 = clean_rounds k cfg"
  define cfg1 where "cfg1 = fold (expire_one unread url_ok shut uids now k) idx cfg0"
  have closed: "closed_cfg = retry_owed_rounds unread url_ok shut (uids (length idx)) now k cfg1"
    by (simp add: assms(2) close_network_def Let_def idx_def cfg0_def cfg1_def)
  have places0: "length (g_networks cfg0) = length (g_networks cfg)"
      "length (n_pendingRounds (net_at cfg0 k)) = length (n_pendingRounds (net_at cfg k))"
    using clean_places [of k cfg] by (simp_all add: cfg0_def same_places_def)
  have idx: "list_all (\<lambda>i. i < length (n_pendingRounds (net_at cfg0 k))) idx"
    by (simp add: idx_def places0 list_all_iff)
  have k0: "k < length (g_networks cfg0)" using places0 assms(1) by simp
  have a1: "rounds_advance k cfg0 cfg1"
    and closed_all: "list_all (\<lambda>i. round_past_deadline (round_at cfg0 k i) now \<longrightarrow> truthy_bool (r_concluded (round_at cfg1 k i))) idx"
    using expire_rounds_step [OF idx k0, of unread url_ok shut uids now] unfolding cfg1_def by blast+
  have k1: "k < length (g_networks cfg1)"
    using rounds_advance_places [OF a1] k0 by (simp add: same_places_def)
  have a2: "rounds_advance k cfg1 closed_cfg" unfolding closed by (rule retry_owed_advances [OF k1])
  note a12 = rounds_advance_trans [OF a1 a2]
  have k2: "k < length (g_networks closed_cfg)" using rounds_advance_places [OF a2] k1 by (simp add: same_places_def)
  have len: "length (n_pendingRounds (net_at closed_cfg k)) = length (n_pendingRounds (net_at cfg0 k))"
    "length (n_pendingRounds (net_at cfg1 k)) = length (n_pendingRounds (net_at cfg0 k))"
    using rounds_advance_places [OF a12] rounds_advance_places [OF a1] by (simp_all add: same_places_def)
  have "map (\<lambda>rd. (r_roundId rd, r_deadline rd, r_votes rd)) (n_pendingRounds (net_at closed_cfg k))
      = map (\<lambda>rd. (r_roundId rd, r_deadline rd, r_votes rd)) (n_pendingRounds (net_at cfg0 k))"
    using len(1) rounds_advance_nth [OF a12] by (auto simp: round_at_def intro: nth_equalityI)
  also have "\<dots> = map (\<lambda>rd. (r_roundId rd, r_deadline rd, r_votes rd)) (n_pendingRounds (net_at cfg k))"
    using assms(1) by (simp add: cfg0_def clean_rounds_def net_at_put_net comp_def drop_stray_passed_def if_distrib cong: if_cong)
  finally have same: "map (\<lambda>rd. (r_roundId rd, r_deadline rd, r_votes rd)) (n_pendingRounds (net_at closed_cfg k))
      = map (\<lambda>rd. (r_roundId rd, r_deadline rd, r_votes rd)) (n_pendingRounds (net_at cfg k))" .
  have ended: "truthy_bool (r_concluded rd)"
    if rd: "rd \<in> set (n_pendingRounds (net_at closed_cfg k))" and past: "round_past_deadline rd now" for rd
  proof -
    obtain i where i: "i < length (n_pendingRounds (net_at closed_cfg k))" "rd = round_at closed_cfg k i"
      using rd by (auto simp: in_set_conv_nth round_at_def)
    have "round_past_deadline (round_at cfg0 k i) now"
      using rounds_advance_nth [OF a12, of i] past i len by (simp add: round_past_deadline_def)
    then have "truthy_bool (r_concluded (round_at cfg1 k i))"
      using closed_all i(1) len places0 by (simp add: list_all_iff idx_def)
    then show ?thesis using rounds_advance_nth [OF a2, of i] i len by simp
  qed
  let ?pruned = "prune_expired_rounds (standing_entries closed_cfg) (g_instanceId closed_cfg) (net_at closed_cfg k) now"
  have cfg': "cfg' = put_net k (snd ?pruned) closed_cfg"
    by (simp add: assms(2,3) expire_network_def prune_network_def)
  have net': "net_at cfg' k = snd ?pruned" "standing_entries cfg' = standing_entries closed_cfg"
    using k2 by (simp_all add: cfg' put_net_def net_at_def)
  have left: "n_pendingRounds (net_at cfg' k) =
      filter (\<lambda>rd. \<not> (truthy_bool (r_concluded rd) \<and> round_past_deadline rd now)
          \<or> act_stands_for_round (standing_entries closed_cfg) (net_at closed_cfg k) rd) (n_pendingRounds (net_at closed_cfg k))"
    by (simp add: net' rounds_after_prune is_round_prunable_def)
  have "n_id (net_at cfg' k) = n_id (net_at closed_cfg k)"
    by (simp add: net' prune_expired_rounds_def Let_def outcome_fold_id)
  then have "act_stands_for_round (standing_entries cfg') (net_at cfg' k) rd
      = act_stands_for_round (standing_entries closed_cfg) (net_at closed_cfg k) rd" for rd
    by (simp add: act_stands_for_round_def net')
  with same ended left show ?thesis by auto
qed

theorem tick_leaves_no_lapsed_round_witness:
  "\<exists>rd. act_stands_for_round (standing_entries (expire_network (\<lambda>n r. None) (\<lambda>u. True) False (\<lambda>i j. ''a1'') 200 0 demo_wiped))
     (net_at (expire_network (\<lambda>n r. None) (\<lambda>u. True) False (\<lambda>i j. ''a1'') 200 0 demo_wiped) 0) rd"
proof -
  let ?cfg = "expire_network (\<lambda>n r. None) (\<lambda>u. True) False (\<lambda>i j. ''a1'') 200 0 demo_wiped"
  have "0 < length (n_pendingRounds (net_at ?cfg 0))" by code_simp
  then have "round_at ?cfg 0 0 \<in> set (n_pendingRounds (net_at ?cfg 0))" by (simp add: round_at_def)
  moreover have "round_past_deadline (round_at ?cfg 0 0) 200" by code_simp
  moreover have "0 < length (g_networks demo_wiped)" by code_simp
  ultimately show ?thesis using tick_leaves_no_lapsed_round [OF _ refl refl, of 0 demo_wiped] by blast
qed

lemma find_index_distinct:
  "find_index (\<lambda>x. key x = i) xs = Some j \<Longrightarrow> distinct (map key xs) \<Longrightarrow> key c = i \<Longrightarrow>
     filter (\<lambda>x. key x = i) (xs[j := c]) = [c] \<and> filter (\<lambda>x. key x \<noteq> i) (xs[j := c]) = filter (\<lambda>x. key x \<noteq> i) xs"
proof (induction xs arbitrary: j)
  case Nil
  then show ?case by simp
next
  case (Cons x xs)
  show ?case
  proof (cases "key x = i")
    case True
    then have "filter (\<lambda>y. key y = i) xs = []" using Cons.prems(2) by (auto simp: filter_empty_conv image_iff)
    then show ?thesis using True Cons.prems by auto
  next
    case False
    then show ?thesis using Cons by auto
  qed
qed

lemma put_cast_votes:
  assumes "distinct (map c_instanceId (r_votes rd))"
  shows "filter (\<lambda>v. c_instanceId v = c_instanceId c) (r_votes (put_cast c rd)) = [c]
     \<and> filter (\<lambda>v. c_instanceId v \<noteq> c_instanceId c) (r_votes (put_cast c rd)) = filter (\<lambda>v. c_instanceId v \<noteq> c_instanceId c) (r_votes rd)"
proof (cases "find_index (\<lambda>v. c_instanceId v = c_instanceId c) (r_votes rd)")
  case None
  then have "filter (\<lambda>v. c_instanceId v = c_instanceId c) (r_votes rd) = []"
      "filter (\<lambda>v. c_instanceId v \<noteq> c_instanceId c) (r_votes rd) = r_votes rd"
    by (auto simp: find_index_None_iff filter_empty_conv filter_id_conv)
  then show ?thesis using None by (simp add: put_cast_def)
next
  case (Some j)
  have "j < length (r_votes rd)" using find_index_SomeD [OF Some] by simp
  then show ?thesis
    using find_index_distinct [OF Some assms] by (simp add: put_cast_def Some update_at_def)
qed

lemma put_cast_frame [simp]: "r_deadline (put_cast c rd) = r_deadline rd" "r_roundId (put_cast c rd) = r_roundId rd"
  by (simp_all add: put_cast_def)

text \<open>
  An operator's vote that is taken lands in an open round as this instance's one cast, in
  place of whatever it voted before, with every other cast of the ballot as it was, whatever the
  settle that follows then does; a vote that is refused changes nothing.
\<close>

theorem own_cast_counts_once:
  assumes "cast_vote_act unread url_ok sign False uids now netid rid vote cfg = (cfg', answer, out)"
    and "find_index (\<lambda>n. n_id n = netid) (g_networks cfg) = Some k"
    and "round_index (net_at cfg k) rid = Some i"
    and "distinct (map c_instanceId (r_votes (round_at cfg k i)))"
  shows "(case answer of
      Cast_done c \<Rightarrow>
        round_is_open (round_at cfg k i) now \<and> r_roundId (round_at cfg' k i) = rid
        \<and> map (\<lambda>v. (c_vote v, c_castAt v)) (filter (\<lambda>v. c_instanceId v = g_instanceId cfg) (r_votes (round_at cfg' k i)))
            = [(vote, Some (At now))]
        \<and> filter (\<lambda>v. c_instanceId v \<noteq> g_instanceId cfg) (r_votes (round_at cfg' k i))
            = filter (\<lambda>v. c_instanceId v \<noteq> g_instanceId cfg) (r_votes (round_at cfg k i))
    | Cast_refused why \<Rightarrow> cfg' = cfg
    | _ \<Rightarrow> True)"
proof (cases "round_to_vote_on (net_at cfg k) rid now")
  case (Inl why)
  then show ?thesis using assms(1,2) by (auto simp: cast_vote_act_def Let_def)
next
  case (Inr rd)
  let ?why = "if vote = Yes \<and> r_type rd = Meta_change then unread (net_at cfg k) rd else None"
  show ?thesis
  proof (cases ?why)
    case (Some w)
    then show ?thesis using assms(1,2) Inr by (auto simp: cast_vote_act_def Let_def split: if_splits)
  next
    case None
    have i: "i < length (n_pendingRounds (net_at cfg k))"
      using assms(3) find_index_SomeD by (auto simp: round_index_def)
    have rd: "rd = round_at cfg k i" "r_roundId rd = rid" "round_is_open rd now"
      using round_to_vote_on_Inr [OF Inr] Inr assms(3)
      by (auto simp: round_to_vote_on_def round_index_def find_index_find round_at_def Let_def split: option.splits)
    have k: "k < length (g_networks cfg)" using find_index_SomeD [OF assms(2)] by simp
    define cast where "cast = make_signed_own_cast sign now (n_id (net_at cfg k)) rd (g_instanceId cfg) vote"
    have cast: "c_instanceId cast = g_instanceId cfg" "c_vote cast = vote" "c_castAt cast = Some (At now)"
      by (simp_all add: cast_def make_signed_own_cast_def Let_def)
    define cfg1 where "cfg1 = put_round k i (put_cast cast rd) cfg"
    have at1: "round_at cfg1 k i = put_cast cast rd"
      using k i by (simp add: cfg1_def put_round_def put_net_def round_at_def net_at_def)
    have "same_places k cfg cfg1" unfolding cfg1_def by (rule same_places_put_round)
    then have adv: "rounds_advance k cfg1 (sl_cfg (settle_rounds unread url_ok False uids now k [i] [] cfg1))"
      using settle_advances [of cfg1 k "[i]" "[]" unread url_ok False uids now i] i k by (simp add: same_places_def)
    have i1: "i < length (n_pendingRounds (net_at cfg1 k))"
      using i \<open>same_places k cfg cfg1\<close> by (simp add: same_places_def)
    have cfg': "cfg' = sl_cfg (settle_rounds unread url_ok False uids now k [i] [] cfg1)"
      using assms(1-3) Inr None by (auto simp: cast_vote_act_def Let_def cast_def [symmetric] cfg1_def [symmetric] split: if_splits)
    have ans: "answer = Cast_threw \<or> (\<exists>c. answer = Cast_done c)"
      using assms(1-3) Inr None by (auto simp: cast_vote_act_def Let_def split: if_splits)
    have votes: "r_votes (round_at cfg' k i) = r_votes (put_cast cast rd)" "r_roundId (round_at cfg' k i) = rid"
      using rounds_advance_nth [OF adv i1] by (simp_all add: cfg' at1 rd(2))
    show ?thesis
      using ans votes put_cast_votes [of rd cast] assms(4) rd cast by auto
  qed
qed

theorem own_cast_counts_once_witness:
  "fst (snd (cast_vote_act (\<lambda>n r. None) (\<lambda>u. True) None False (\<lambda>i. ''a1'') 50 ''net'' ''r1'' Veto
      (demo_wiped\<lparr>g_networks := [(demo_pair Closed)\<lparr>n_pendingRounds := [demo_round Space_wipe ''a'' []]\<rparr>]\<rparr>))) = Cast_done True
   \<and> round_is_open (demo_round Space_wipe ''a'' []) 50"
proof -
  let ?cfg = "demo_wiped\<lparr>g_networks := [(demo_pair Closed)\<lparr>n_pendingRounds := [demo_round Space_wipe ''a'' []]\<rparr>]\<rparr>"
  obtain cfg' answer out where c: "cast_vote_act (\<lambda>n r. None) (\<lambda>u. True) None False (\<lambda>i. ''a1'') 50 ''net'' ''r1'' Veto ?cfg
      = (cfg', answer, out)"
    by (metis prod_cases3)
  have "fst (snd (cast_vote_act (\<lambda>n r. None) (\<lambda>u. True) None False (\<lambda>i. ''a1'') 50 ''net'' ''r1'' Veto ?cfg)) = Cast_done True"
    by code_simp
  moreover have "find_index (\<lambda>n. n_id n = ''net'') (g_networks ?cfg) = Some 0"
      "round_index (net_at ?cfg 0) ''r1'' = Some 0"
      "distinct (map c_instanceId (r_votes (round_at ?cfg 0 0)))"
      "round_at ?cfg 0 0 = demo_round Space_wipe ''a'' []"
    by (simp_all add: demo_pair_def demo_network_def round_index_def net_at_def round_at_def demo_round_def)
  ultimately show ?thesis
    using own_cast_counts_once [OF c, of 0 0] c by simp
qed

end
