(* ===== verification/Network_Spaces.thy ===== *)
theory Network_Spaces
  imports Space_Acts Topology Token_Admin
begin

text \<open>
  Which spaces a network brings here (\<open>server/src/networks/network-spaces.ts\<close>): what the instance above
  announces and this one would take, what it adopts and what it holds for the operator, the peers'
  tokens widened to a space that landed, the aliases healed from the names the instance above serves,
  and what a passed space-addition round adds.  Creating a space is not modelled: the spaces to create
  are an answer, and the write that follows is the operation.  The sentence an offer is held with is
  the argument \<open>say\<close> of its reason.
\<close>

section \<open>Tokens and the configuration\<close>

record net_token = token_record +
  nt_peerInstanceId :: "string option"
  nt_expiresAt :: "iso option"

record space_config = act_config +
  g_tokens :: "net_token list"
  g_retiredSpaceIds :: "string list option"

record space_entry =
  en_networkId :: string
  en_localId :: string

section \<open>The instance above\<close>

definition upstream_of :: "string \<Rightarrow> network \<Rightarrow> string option" where
  "upstream_of self net =
     (case n_type net of
        Pubsub \<Rightarrow> map_option m_instanceId (role_publisher (network_role net self))
      | Braintree \<Rightarrow> given_str (n_myParentInstanceId net)
      | _ \<Rightarrow> None)"

definition is_directional_network :: "network option \<Rightarrow> bool" where
  "is_directional_network net =
     (case net of None \<Rightarrow> False | Some n \<Rightarrow> n_type n = Pubsub \<or> n_type n = Braintree)"

definition is_upstream_peer :: "string \<Rightarrow> network \<Rightarrow> string option \<Rightarrow> bool" where
  "is_upstream_peer self net i \<longleftrightarrow> truthy_str i \<and> upstream_of self net = i"

definition announced_spaces :: "network \<Rightarrow> string list" where
  "announced_spaces net = map (local_to_remote (n_spaceMap net)) (n_spaces net)"

definition MAX_ADOPTED_PER_ANNOUNCE :: nat where
  "MAX_ADOPTED_PER_ANNOUNCE = 50"

definition MAX_SPACE_NAMES :: nat where
  "MAX_SPACE_NAMES = 50"

text \<open>
  What a peer announces is unchecked: no list at all is \<open>None\<close>, an element that is no string is \<open>None\<close>.
\<close>

fun adopt_scan :: "network \<Rightarrow> string option list \<Rightarrow> space_entry list \<Rightarrow> space_entry list" where
  "adopt_scan net [] out = out"
| "adopt_scan net (None # rest) out = adopt_scan net rest out"
| "adopt_scan net (Some i # rest) out =
     (if \<not> is_space_id i then adopt_scan net rest out
      else if i \<in> set (or_empty (n_dismissedSpaces net)) then adopt_scan net rest out
      else
        let l = remote_to_local (n_spaceMap net) i in
        if l \<in> set (n_spaces net) \<or> list_ex (\<lambda>e. en_localId e = l) out then adopt_scan net rest out
        else
          let out' = out @ [\<lparr>en_networkId = i, en_localId = l\<rparr>]
          in if MAX_ADOPTED_PER_ANNOUNCE \<le> length out' then out' else adopt_scan net rest out')"

definition spaces_to_adopt :: "string \<Rightarrow> network \<Rightarrow> string \<Rightarrow> string option list option \<Rightarrow> space_entry list" where
  "spaces_to_adopt self net from announced =
     (case announced of
        None \<Rightarrow> []
      | Some ids \<Rightarrow> if \<not> is_upstream_peer self net (Some from) then [] else adopt_scan net ids [])"

section \<open>The peers' tokens\<close>

definition space_only :: "string \<Rightarrow> legacy_token" where
  "space_only i = \<lparr>lt_admin = Some False, lt_readOnly = Some False, lt_spaces = Some [i], lt_schemaLibrary = None\<rparr>"

definition widen_rights :: "string \<Rightarrow> token_rights \<Rightarrow> token_rights" where
  "widen_rights i r =
     (if reaches_space r i then r
      else case map_of (tr_perSpace (migrate_token (space_only i))) i of
        None \<Rightarrow> r
      | Some row \<Rightarrow> r\<lparr>tr_perSpace := obj_put i row (tr_perSpace r)\<rparr>)"

definition widen_token :: "string list \<Rightarrow> string list \<Rightarrow> net_token \<Rightarrow> net_token" where
  "widen_token peers ids t =
     (case (given_str (nt_peerInstanceId t), tk_rights t) of
        (Some p, Some r) \<Rightarrow> if p \<in> set peers then t\<lparr>tk_rights := Some (fold widen_rights ids r)\<rparr> else t
      | _ \<Rightarrow> t)"

definition widen_peer_tokens_of :: "string list \<Rightarrow> string list \<Rightarrow> net_token list \<Rightarrow> net_token list" where
  "widen_peer_tokens_of peers ids toks = map (widen_token peers ids) toks"

definition widen_peer_tokens :: "network \<Rightarrow> string list \<Rightarrow> net_token list \<Rightarrow> net_token list" where
  "widen_peer_tokens net ids toks = widen_peer_tokens_of (map m_instanceId (n_members net)) ids toks"

section \<open>A space lands in a network\<close>

definition spaces_to_create :: "space_config \<Rightarrow> space_entry list \<Rightarrow> string list" where
  "spaces_to_create cfg entries = filter (\<lambda>i. i \<notin> set (g_spaces cfg)) (map en_localId entries)"

text \<open>The ids that are new to the network, each once.\<close>

definition newly_added :: "network \<Rightarrow> space_entry list \<Rightarrow> string list" where
  "newly_added net entries = unique (filter (\<lambda>i. i \<notin> set (n_spaces net)) (map en_localId entries))"

definition record_entry_alias :: "string list \<Rightarrow> space_entry \<Rightarrow> network \<Rightarrow> network" where
  "record_entry_alias added e net =
     (if en_localId e = en_networkId e \<or> en_localId e \<notin> set added then net
      else net\<lparr>n_spaceMap := snd (record_space_alias (n_spaceMap net) (en_networkId e) (en_localId e))\<rparr>)"

text \<open>The write once the spaces exist: the configuration and the ids added.\<close>

definition land_spaces :: "string \<Rightarrow> space_entry list \<Rightarrow> space_config \<Rightarrow> space_config \<times> string list" where
  "land_spaces netid entries cfg =
     (case find_index (\<lambda>n. n_id n = netid) (g_networks cfg) of
        None \<Rightarrow> (cfg, [])
      | Some k \<Rightarrow>
        let net = g_networks cfg ! k; added = newly_added net entries in
        if added = [] then (cfg, [])
        else
          let net1 = fold (record_entry_alias added) entries net;
              net2 = net1\<lparr>n_spaces := n_spaces net1 @ added\<rparr>;
              net3 = fst (clear_settled_proposals net2 (map en_networkId (filter (\<lambda>e. en_localId e \<in> set added) entries)))
          in (cfg\<lparr>g_networks := (g_networks cfg)[k := net3],
                  g_tokens := widen_peer_tokens net3 added (g_tokens cfg)\<rparr>, added))"

text \<open>The network, and whether it carried the space and held a layer for it.\<close>

definition remove_space_from_network :: "string \<Rightarrow> string \<Rightarrow> space_config \<Rightarrow> space_config \<times> bool" where
  "remove_space_from_network netid sp cfg =
     (case find_index (\<lambda>n. n_id n = netid) (g_networks cfg) of
        None \<Rightarrow> (cfg, False)
      | Some k \<Rightarrow>
        let (net, out) = take_space_out_of_network (g_networks cfg ! k) sp in
        if \<not> q_carried out then (cfg, False)
        else (cfg\<lparr>g_networks := (g_networks cfg)[k := net]\<rparr>, True))"

section \<open>Adoption\<close>

datatype pending_why =
    Id_reserved string
  | Local_space_exists string
  | Joiner_gone
  | No_joiner_recorded
  | Joiner_expired
  | Joiner_may_not network_join_refusal

definition is_retired_space_id :: "string \<Rightarrow> string list \<Rightarrow> string list \<Rightarrow> bool" where
  "is_retired_space_id i spaces retired \<longleftrightarrow> i \<in> set retired \<and> i \<notin> set spaces"

definition joiner_as_caller :: "net_token \<Rightarrow> token_record" where
  "joiner_as_caller t =
     \<lparr>tk_id = tk_id t, tk_admin = tk_admin t, tk_schemaLibrary = tk_schemaLibrary t,
      tk_rights = with_instance_admin_grants (tk_rights t)\<rparr>"

definition joiner_of :: "network \<Rightarrow> net_token list \<Rightarrow> net_token option" where
  "joiner_of net toks =
     (case given_str (n_joinedBy net) of None \<Rightarrow> None | Some j \<Rightarrow> List.find (\<lambda>t. tk_id t = Some j) toks)"

definition token_expired :: "iso option \<Rightarrow> int \<Rightarrow> bool" where
  "token_expired e now \<longleftrightarrow> truthy_date e \<and> (case date_of e of Some d \<Rightarrow> d \<le> now | None \<Rightarrow> False)"

text \<open>Why an announced space waits for the operator, \<open>None\<close> when it is adopted.\<close>

definition held_why :: "network \<Rightarrow> net_token list \<Rightarrow> string list \<Rightarrow> int \<Rightarrow> string list \<Rightarrow> space_entry \<Rightarrow> pending_why option" where
  "held_why net toks spaces now retired e =
     (if is_retired_space_id (en_localId e) spaces retired then Some (Id_reserved (en_localId e))
      else if en_localId e \<in> set spaces then Some (Local_space_exists (en_localId e))
      else case joiner_of net toks of
        None \<Rightarrow> Some (if truthy_str (n_joinedBy net) then Joiner_gone else No_joiner_recorded)
      | Some t \<Rightarrow>
          if token_expired (nt_expiresAt t) now then Some Joiner_expired
          else map_option Joiner_may_not (network_join_refusal (joiner_as_caller t) [] [en_localId e]))"

definition adoption_decision ::
  "network \<Rightarrow> net_token list \<Rightarrow> string list \<Rightarrow> space_entry list \<Rightarrow> int \<Rightarrow> string list
     \<Rightarrow> space_entry list \<times> (space_entry \<times> pending_why) list" where
  "adoption_decision net toks spaces entries now retired =
     (filter (\<lambda>e. held_why net toks spaces now retired e = None) entries,
      List.map_filter (\<lambda>e. map_option (Pair e) (held_why net toks spaces now retired e)) entries)"

definition hold_as_pending ::
  "(pending_why \<Rightarrow> string) \<Rightarrow> network \<Rightarrow> (space_entry \<times> pending_why) list \<Rightarrow> string \<Rightarrow> int \<Rightarrow> network" where
  "hold_as_pending say net pending from now =
     (let fresh = filter (\<lambda>p. en_networkId (fst p) \<notin> set (or_empty (n_dismissedSpaces net))
                       \<and> \<not> list_ex (\<lambda>q. p_networkId q = en_networkId (fst p)) (or_empty (n_pendingSpaces net))) pending
      in if fresh = [] then net
         else net\<lparr>n_pendingSpaces := Some (or_empty (n_pendingSpaces net)
           @ map (\<lambda>p. \<lparr>p_networkId = en_networkId (fst p), p_localId = en_localId (fst p), p_why = say (snd p),
                        p_from = from, p_at = At now\<rparr>) fresh)\<rparr>)"

text \<open>The first half of an adoption: what is held is written, what may be adopted is answered.\<close>

definition adopt_announced_spaces ::
  "(pending_why \<Rightarrow> string) \<Rightarrow> string \<Rightarrow> string \<Rightarrow> string option list option \<Rightarrow> int \<Rightarrow> space_config \<Rightarrow> space_config \<times> space_entry list" where
  "adopt_announced_spaces say netid from announced now cfg =
     (case find_index (\<lambda>n. n_id n = netid) (g_networks cfg) of
        None \<Rightarrow> (cfg, [])
      | Some k \<Rightarrow>
        let net = g_networks cfg ! k; proposed = spaces_to_adopt (g_instanceId cfg) net from announced in
        if proposed = [] then (cfg, [])
        else
          let (adopt, pending) = adoption_decision net (g_tokens cfg) (g_spaces cfg) proposed now (or_empty (g_retiredSpaceIds cfg));
              net' = hold_as_pending say net pending from now
          in (cfg\<lparr>g_networks := (g_networks cfg)[k := net']\<rparr>, adopt))"

section \<open>Healing an alias\<close>

text \<open>
  The names the instance above serves beside its announcement: no object at all is \<open>None\<close>; a value that
  is no string is \<open>None\<close>.
\<close>

definition served_names :: "(string \<times> string option) list \<Rightarrow> (string, string) es_map" where
  "served_names es =
     fold (\<lambda>e m. case snd e of None \<Rightarrow> m
        | Some l \<Rightarrow> if is_space_id (fst e) \<and> is_space_id l then map_put (fst e) l m else m)
       (take MAX_SPACE_NAMES es) []"

definition announced_ids :: "string option list \<Rightarrow> string list" where
  "announced_ids ids = unique (filter is_space_id (List.map_filter id (take MAX_SPACE_NAMES ids)))"

definition heal_candidate :: "network \<Rightarrow> string list \<Rightarrow> (string, string) es_map \<Rightarrow> string \<Rightarrow> space_entry option" where
  "heal_candidate net ids names i =
     (if i \<in> set (or_empty (n_dismissedSpaces net)) then None
      else if alias_get (n_spaceMap net) i \<noteq> None \<or> i \<in> set (n_spaces net) then None
      else case map_of names i of
        None \<Rightarrow> None
      | Some l \<Rightarrow>
          if l \<notin> set (n_spaces net) then None
          else if map_of (reverse_space_map (n_spaceMap net)) l \<noteq> None \<or> l \<in> set ids then None
          else Some \<lparr>en_networkId = i, en_localId = l\<rparr>)"

definition heal_space_aliases ::
  "string \<Rightarrow> network \<Rightarrow> string \<Rightarrow> string option list option \<Rightarrow> (string \<times> string option) list option \<Rightarrow> space_entry list" where
  "heal_space_aliases self net from announced names =
     (case (announced, names) of
        (Some given, Some ns) \<Rightarrow>
          if \<not> is_upstream_peer self net (Some from) then []
          else
            let ids = announced_ids given;
                proposed = List.map_filter (heal_candidate net ids (served_names ns)) ids
            in filter (\<lambda>p. count_list (map en_localId proposed) (en_localId p) = 1) proposed
      | _ \<Rightarrow> [])"

text \<open>The heals recorded one after the other: an alias the map refuses is left out.\<close>

fun record_heals :: "space_entry list \<Rightarrow> network \<Rightarrow> network \<times> space_entry list" where
  "record_heals [] net = (net, [])"
| "record_heals (h # hs) net =
     (let (why, m) = record_space_alias (n_spaceMap net) (en_networkId h) (en_localId h);
          (net', rest) = record_heals hs (net\<lparr>n_spaceMap := m\<rparr>)
      in (net', if why = None then h # rest else rest))"

definition heal_announced_aliases ::
  "string \<Rightarrow> string \<Rightarrow> string option list option \<Rightarrow> (string \<times> string option) list option \<Rightarrow> space_config \<Rightarrow> space_config \<times> space_entry list" where
  "heal_announced_aliases netid from announced names cfg =
     (if g_pendingSpaceOp cfg \<noteq> None then (cfg, [])
      else case find_index (\<lambda>n. n_id n = netid) (g_networks cfg) of
        None \<Rightarrow> (cfg, [])
      | Some k \<Rightarrow>
        let net = g_networks cfg ! k;
            (net1, recorded) = record_heals (heal_space_aliases (g_instanceId cfg) net from announced names) net
        in if recorded = [] then (cfg\<lparr>g_networks := (g_networks cfg)[k := net1]\<rparr>, [])
           else (cfg\<lparr>g_networks := (g_networks cfg)[k := fst (clear_settled_proposals net1 (map en_networkId recorded))]\<rparr>, recorded))"

section \<open>A passed space-addition round\<close>

datatype addition_target = Adds string | Skips string

definition space_addition_target :: "network \<Rightarrow> vote_round \<Rightarrow> string \<Rightarrow> string list \<Rightarrow> addition_target option" where
  "space_addition_target net rd self spaces =
     (case given_str (r_spaceId rd) of
        None \<Rightarrow> None
      | Some i \<Rightarrow>
        if \<not> is_space_id i then None
        else
          let l = remote_to_local (n_spaceMap net) i in
          if l \<in> set (n_spaces net) then None
          else if truthy_bool (r_proposedHere rd) then Some (Adds l)
          else if l \<in> set spaces \<and> \<not> list_ex (\<lambda>v. c_instanceId v = self \<and> c_vote v = Yes) (r_votes rd) then Some (Skips l)
          else Some (Adds l))"

text \<open>
  What applying the round does: nothing, a warning, spaces to add now, or an offer held for the operator.
  The source decides on the round and then, a tick later, on the configuration as it is by then:
  \<open>later\<close> is that one.
\<close>

datatype addition_effect =
    Addition_nothing
  | Addition_skipped string
  | Addition_adds space_entry
  | Addition_held "space_entry \<times> pending_why"

definition apply_space_addition_round ::
  "network \<Rightarrow> vote_round \<Rightarrow> int \<Rightarrow> space_config \<Rightarrow> space_config \<Rightarrow> addition_effect" where
  "apply_space_addition_round net rd now cfg later =
     (if \<not> space_addition_owed rd then Addition_nothing
      else case space_addition_target net rd (g_instanceId cfg) (g_spaces cfg) of
        None \<Rightarrow> Addition_nothing
      | Some (Skips l) \<Rightarrow> Addition_skipped l
      | Some (Adds l) \<Rightarrow>
        let e = \<lparr>en_networkId = the (r_spaceId rd), en_localId = l\<rparr> in
        if truthy_bool (r_proposedHere rd) then Addition_adds e
        else case List.find (\<lambda>n. n_id n = n_id net) (g_networks later) of
          None \<Rightarrow> Addition_nothing
        | Some live \<Rightarrow>
          if l \<in> set (g_spaces later) then Addition_adds e
          else case held_why live (g_tokens later) (g_spaces later) now (or_empty (g_retiredSpaceIds later)) e of
            None \<Rightarrow> Addition_adds e
          | Some why \<Rightarrow> Addition_held (e, why))"

section \<open>Lemmas\<close>

definition adoptable :: "network \<Rightarrow> string option list \<Rightarrow> space_entry \<Rightarrow> bool" where
  "adoptable net ids e \<longleftrightarrow>
     Some (en_networkId e) \<in> set ids \<and> is_space_id (en_networkId e)
     \<and> en_networkId e \<notin> set (or_empty (n_dismissedSpaces net))
     \<and> en_localId e = remote_to_local (n_spaceMap net) (en_networkId e) \<and> en_localId e \<notin> set (n_spaces net)"

lemma adopt_scan_ok:
  assumes "list_all (adoptable net given) out" "distinct (map en_localId out)" "set ids \<subseteq> set given"
    and "length out < MAX_ADOPTED_PER_ANNOUNCE"
  shows "list_all (adoptable net given) (adopt_scan net ids out) \<and> distinct (map en_localId (adopt_scan net ids out))
     \<and> length (adopt_scan net ids out) \<le> MAX_ADOPTED_PER_ANNOUNCE"
  using assms
proof (induction ids arbitrary: out)
  case Nil
  then show ?case by simp
next
  case (Cons x ids)
  show ?case
  proof (cases x)
    case None
    then show ?thesis using Cons by simp
  next
    case (Some i)
    let ?l = "remote_to_local (n_spaceMap net) i"
    let ?out = "out @ [\<lparr>en_networkId = i, en_localId = ?l\<rparr>]"
    show ?thesis
    proof (cases "is_space_id i \<and> i \<notin> set (or_empty (n_dismissedSpaces net)) \<and> ?l \<notin> set (n_spaces net)
        \<and> \<not> list_ex (\<lambda>e. en_localId e = ?l) out")
      case True
      then have "adoptable net given \<lparr>en_networkId = i, en_localId = ?l\<rparr>"
        using Cons.prems Some by (simp add: adoptable_def)
      then have ok: "list_all (adoptable net given) ?out" "distinct (map en_localId ?out)"
        using Cons.prems True by (auto simp: list_ex_iff)
      show ?thesis
      proof (cases "MAX_ADOPTED_PER_ANNOUNCE \<le> length ?out")
        case bound: True
        then have "adopt_scan net (x # ids) out = ?out" using True Some by (simp add: Let_def)
        then show ?thesis using ok bound Cons.prems(4) by simp
      next
        case more: False
        then have "adopt_scan net (x # ids) out = adopt_scan net ids ?out" using True Some by (simp add: Let_def)
        moreover have "set ids \<subseteq> set given" using Cons.prems by simp
        ultimately show ?thesis using Cons.IH [OF ok] more by simp
      qed
    next
      case False
      then have "adopt_scan net (x # ids) out = adopt_scan net ids out" using Some by (auto simp: Let_def)
      then show ?thesis using Cons by simp
    qed
  qed
qed

lemma network_join_refusal_None:
  assumes "network_join_refusal t [] [l] = None"
  shows "is_instance_admin t \<or> may_create_spaces (Some t)
     \<and> (administers_any_space (Some t) \<or> (\<exists>r. tk_rights t = Some r \<and> holds_rung r l Networks Write))"
  using assms by (auto simp: network_join_refusal_def Let_def split: if_splits option.splits)

lemma migrated_row: "map_of (tr_perSpace (migrate_token (space_only i))) i = Some (rungs Write)"
  by (simp add: migrate_token_def space_only_def legacy_level_def map_of_obj_put)

lemma widen_rights_eq:
  "widen_rights i r = (if reaches_space r i then r else r\<lparr>tr_perSpace := obj_put i (rungs Write) (tr_perSpace r)\<rparr>)"
  by (simp add: widen_rights_def migrated_row)

lemma write_row_reaches: "\<exists>a. or_none (rungs Write a) \<noteq> No_rung"
  by (rule exI [of _ Knowledge]) (simp add: rungs_def)

lemma widen_reaches: "reaches_space (widen_rights i r) i"
  by (simp add: widen_rights_eq) (simp add: reaches_space_def map_of_obj_put write_row_reaches del: not_ex)

lemma widen_keeps_reach: "reaches_space r j \<Longrightarrow> reaches_space (widen_rights i r) j"
  by (cases "j = i") (auto simp: widen_rights_eq reaches_space_def administers_def map_of_obj_put split: if_splits)

lemma widen_elsewhere:
  assumes "j \<noteq> i"
  shows "effective_rung (widen_rights i r) j a = effective_rung r j a"
proof -
  have "granted_rung (widen_rights i r) j = granted_rung r j"
    using assms
    by (intro ext) (simp add: widen_rights_eq granted_rung_def row_at_def floor_at_def administers_def map_of_obj_put)
  then show ?thesis by (simp add: effective_rung_def)
qed

lemma widen_fold_reaches: "sp \<in> set ids \<Longrightarrow> reaches_space (fold widen_rights ids r) sp"
proof (induction ids arbitrary: r)
  case Nil
  then show ?case by simp
next
  case (Cons i ids)
  have keep: "reaches_space q sp \<Longrightarrow> reaches_space (fold widen_rights ids q) sp" for q
    by (induction ids arbitrary: q) (simp_all add: widen_keeps_reach)
  show ?case using Cons keep widen_reaches by (cases "sp = i") auto
qed

lemma widen_fold_elsewhere: "sp \<notin> set ids \<Longrightarrow> effective_rung (fold widen_rights ids r) sp a = effective_rung r sp a"
  by (induction ids arbitrary: r) (simp_all add: widen_elsewhere)

definition rung_of_token :: "net_token \<Rightarrow> string \<Rightarrow> space_area \<Rightarrow> rung" where
  "rung_of_token t sp a = (case tk_rights t of None \<Rightarrow> No_rung | Some r \<Rightarrow> effective_rung r sp a)"

lemma widen_token_cases:
  "widen_token peers ids t =
     (if nt_peerInstanceId t \<noteq> None \<and> nt_peerInstanceId t \<noteq> Some [] \<and> the (nt_peerInstanceId t) \<in> set peers
      then t\<lparr>tk_rights := map_option (fold widen_rights ids) (tk_rights t)\<rparr> else t)"
proof -
  have "tk_rights t = None \<Longrightarrow> t\<lparr>tk_rights := None\<rparr> = t" by (cases t) simp
  then show ?thesis
    by (auto simp: widen_token_def given_str_def split: option.splits)
qed

definition members_ids :: "network \<Rightarrow> string list" where
  "members_ids net = map m_instanceId (n_members net)"

lemma record_entry_alias_frame:
  "n_members (fold (record_entry_alias added) es net) = n_members net"
  "n_spaces (fold (record_entry_alias added) es net) = n_spaces net"
  by (induction es arbitrary: net) (simp_all add: record_entry_alias_def)

lemma clear_settled_members: "n_members (fst (clear_settled_proposals net ids)) = n_members net"
  by (simp add: clear_settled_proposals_def)

section \<open>Properties\<close>

text \<open>
  Property C31: a space an announcement brings here without the operator is one the instance above
  announced, that the operator never dismissed, under a local id no space and no reservation holds, on the
  strength of a joining token that still exists, has not expired and could create the space and take it into
  a network; at most fifty spaces come in by one announcement, no local id twice.
\<close>

theorem adoption_is_authorised:
  assumes "find_index (\<lambda>n. n_id n = netid) (g_networks cfg) = Some k" "net = g_networks cfg ! k"
    and "e \<in> set (snd (adopt_announced_spaces say netid from (Some given) now cfg))"
  shows "is_upstream_peer (g_instanceId cfg) net (Some from) \<and> adoptable net given e
     \<and> en_localId e \<notin> set (g_spaces cfg) \<and> en_localId e \<notin> set (or_empty (g_retiredSpaceIds cfg))
     \<and> (\<exists>t. joiner_of net (g_tokens cfg) = Some t \<and> \<not> token_expired (nt_expiresAt t) now
          \<and> (is_instance_admin (joiner_as_caller t)
             \<or> may_create_spaces (Some (joiner_as_caller t))
               \<and> (administers_any_space (Some (joiner_as_caller t))
                  \<or> (\<exists>r. tk_rights (joiner_as_caller t) = Some r \<and> holds_rung r (en_localId e) Networks Write))))
     \<and> length (snd (adopt_announced_spaces say netid from (Some given) now cfg)) \<le> MAX_ADOPTED_PER_ANNOUNCE
     \<and> distinct (map en_localId (snd (adopt_announced_spaces say netid from (Some given) now cfg)))"
proof -
  let ?p = "spaces_to_adopt (g_instanceId cfg) net from (Some given)"
  let ?why = "held_why net (g_tokens cfg) (g_spaces cfg) now (or_empty (g_retiredSpaceIds cfg))"
  have out: "snd (adopt_announced_spaces say netid from (Some given) now cfg) = filter (\<lambda>e. ?why e = None) ?p"
    using assms(1,2) by (simp add: adopt_announced_spaces_def adoption_decision_def Let_def)
  have e: "e \<in> set ?p" "?why e = None" using assms(3) by (simp_all add: out)
  have up: "is_upstream_peer (g_instanceId cfg) net (Some from)" and p: "?p = adopt_scan net given []"
    using e(1) by (auto simp: spaces_to_adopt_def split: if_splits)
  have ok: "list_all (adoptable net given) ?p" "distinct (map en_localId ?p)" "length ?p \<le> MAX_ADOPTED_PER_ANNOUNCE"
    using adopt_scan_ok [of net given "[]" given] by (simp_all add: p MAX_ADOPTED_PER_ANNOUNCE_def)
  have bound: "length (filter (\<lambda>e. ?why e = None) ?p) \<le> MAX_ADOPTED_PER_ANNOUNCE"
    using ok(3) length_filter_le le_trans by blast
  have held: "en_localId e \<notin> set (g_spaces cfg)" "en_localId e \<notin> set (or_empty (g_retiredSpaceIds cfg))"
    using e(2) by (auto simp: held_why_def is_retired_space_id_def split: if_splits)
  obtain t where t: "joiner_of net (g_tokens cfg) = Some t" "\<not> token_expired (nt_expiresAt t) now"
      "network_join_refusal (joiner_as_caller t) [] [en_localId e] = None"
    using e(2) held by (auto simp: held_why_def is_retired_space_id_def split: option.splits if_splits)
  show ?thesis
    using up e(1) ok bound held t network_join_refusal_None [OF t(3)] unfolding out
    by (auto simp: list_all_iff distinct_map_filter)
qed

text \<open>
  Once spaces land in a network, every token of a peer that is a member there reaches each
  of them, and no token's effective right moves on any other space or, if it is no such peer's, at all.
\<close>

theorem landed_space_reached:
  assumes "find_index (\<lambda>n. n_id n = netid) (g_networks cfg) = Some k"
    and "land_spaces netid entries cfg = (cfg', added)" "sp \<in> set added"
    and "i < length (g_tokens cfg)" "t = g_tokens cfg ! i" "t' = g_tokens cfg' ! i"
  shows "(case nt_peerInstanceId t of
        Some p \<Rightarrow> if p \<in> set (members_ids (g_networks cfg ! k)) \<and> p \<noteq> []
                  then tk_rights t \<noteq> None \<longrightarrow> (\<exists>a. rung_of_token t' sp a \<noteq> No_rung)
                  else t' = t
      | None \<Rightarrow> t' = t)
     \<and> (other \<notin> set added \<longrightarrow> rung_of_token t' other a = rung_of_token t other a)
     \<and> sp \<in> set (n_spaces (g_networks cfg' ! k)) \<and> sp \<notin> set (n_spaces (g_networks cfg ! k))"
proof -
  have k: "k < length (g_networks cfg)" using find_index_SomeD [OF assms(1)] by simp
  have added: "added = newly_added (g_networks cfg ! k) entries" "added \<noteq> []"
    using assms(1-3) by (auto simp: land_spaces_def Let_def split: if_splits)
  have toks: "t' = widen_token (members_ids (g_networks cfg ! k)) added t"
    using assms(1,2,4-6) added
    by (auto simp: land_spaces_def Let_def widen_peer_tokens_def widen_peer_tokens_of_def clear_settled_members
        record_entry_alias_frame members_ids_def split: if_splits)
  have spaces: "n_spaces (g_networks cfg' ! k) = n_spaces (g_networks cfg ! k) @ added"
    using assms(1,2) added k
    by (auto simp: land_spaces_def Let_def frame record_entry_alias_frame split: if_splits)
  have new: "sp \<notin> set (n_spaces (g_networks cfg ! k))"
    using assms(3) by (simp add: added(1) newly_added_def)
  have reach: "tk_rights t \<noteq> None \<Longrightarrow> nt_peerInstanceId t = Some p \<Longrightarrow> p \<in> set (members_ids (g_networks cfg ! k)) \<Longrightarrow> p \<noteq> []
      \<Longrightarrow> \<exists>a. rung_of_token t' sp a \<noteq> No_rung" for p
    using widen_fold_reaches [OF assms(3)]
    by (auto simp: toks widen_token_cases rung_of_token_def reaches_space_iff)
  have elsewhere: "other \<notin> set added \<Longrightarrow> rung_of_token t' other a = rung_of_token t other a"
    using widen_fold_elsewhere
    by (auto simp: toks widen_token_cases rung_of_token_def split: option.split)
  show ?thesis
    using reach elsewhere new spaces assms(3) by (auto simp: toks widen_token_cases split: option.split)
qed

definition demo_joiner :: net_token where
  "demo_joiner = \<lparr>tk_id = Some ''t1'', tk_admin = None, tk_schemaLibrary = None,
     tk_rights = Some \<lparr>tr_instanceAdmin = True, tr_createSpaces = True, tr_floor = None, tr_perSpace = [], tr_spaceAdmin = None\<rparr>,
     nt_peerInstanceId = None, nt_expiresAt = None\<rparr>"

definition demo_peer_token :: net_token where
  "demo_peer_token = \<lparr>tk_id = Some ''t2'', tk_admin = None, tk_schemaLibrary = None,
     tk_rights = Some \<lparr>tr_instanceAdmin = False, tr_createSpaces = False, tr_floor = None, tr_perSpace = [], tr_spaceAdmin = None\<rparr>,
     nt_peerInstanceId = Some ''root'', nt_expiresAt = None\<rparr>"

definition demo_below :: space_config where
  "demo_below = \<lparr>g_instanceId = ''self'', g_instanceLabel = ''Self'', g_networks = [demo_tree\<lparr>n_joinedBy := Some ''t1''\<rparr>],
     g_peerTokens = [], g_spaces = [''notes''], g_pendingSpaceActs = None, g_spaceActSets = None, g_pendingSpaceOp = None,
     g_tokens = [demo_joiner, demo_peer_token], g_retiredSpaceIds = None\<rparr>"

theorem adoption_is_authorised_witness:
  "is_upstream_peer ''self'' (g_networks demo_below ! 0) (Some ''root'')"
proof -
  have i: "find_index (\<lambda>n. n_id n = ''net'') (g_networks demo_below) = Some 0" by code_simp
  have e: "\<lparr>en_networkId = ''docs'', en_localId = ''docs''\<rparr> \<in> set (snd (adopt_announced_spaces (\<lambda>w. []) ''net'' ''root''
      (Some [Some ''docs'', None]) 50 demo_below))" by code_simp
  show ?thesis
    using adoption_is_authorised [OF i refl e] by (simp add: demo_below_def)
qed

theorem landed_space_reached_witness:
  "\<exists>a. rung_of_token (g_tokens (fst (land_spaces ''net'' [\<lparr>en_networkId = ''docs'', en_localId = ''docs''\<rparr>] demo_below)) ! 1) ''docs'' a
     \<noteq> No_rung"
proof -
  let ?out = "land_spaces ''net'' [\<lparr>en_networkId = ''docs'', en_localId = ''docs''\<rparr>] demo_below"
  have i: "find_index (\<lambda>n. n_id n = ''net'') (g_networks demo_below) = Some 0" by code_simp
  have o: "?out = (fst ?out, [''docs''])"
  proof -
    have "snd ?out = [''docs'']" by code_simp
    then show ?thesis by (metis prod.collapse)
  qed
  have t: "1 < length (g_tokens demo_below)" "g_tokens demo_below ! 1 = demo_peer_token"
    by (simp_all add: demo_below_def)
  have m: "''root'' \<in> set (members_ids (g_networks demo_below ! 0))" by code_simp
  have p: "nt_peerInstanceId demo_peer_token = Some ''root''" "tk_rights demo_peer_token \<noteq> None"
    by (simp_all add: demo_peer_token_def)
  show ?thesis
    using landed_space_reached [OF i o, of "''docs''" 1 demo_peer_token] t m p by simp
qed

end
