(* ===== verification/Peer_Authority.thy ===== *)
theory Peer_Authority
  imports Network_Spaces Arrivals
begin

text \<open>
  What a peer may do here besides deliver records: who it is to a network
  (\<open>server/src/auth/network-standing.ts\<close>, \<open>peer-relay.ts\<close>, \<open>peer-bound.ts\<close>), which deletions it may ask for
  and the bound each delete carries into the store (\<open>server/src/sync/deletion-authority.ts\<close>), and how far
  every peer has been served, below which a tombstone may be dropped
  (\<open>server/src/sync/served-watermark.ts\<close>, \<open>member-space-mark.ts\<close>).
\<close>

section \<open>Who a caller is\<close>

definition peer_bound_to :: "net_token \<Rightarrow> string option" where
  "peer_bound_to t = given_str (nt_peerInstanceId t)"

definition special_purpose_refused :: "net_token option \<Rightarrow> bool" where
  "special_purpose_refused t =
     (case t of None \<Rightarrow> False | Some r \<Rightarrow> peer_bound_to r \<noteq> None \<or> tk_schemaLibrary r = Some True)"

datatype relay_caller = Relay_peer string | Relay_admin | Relay_refused

definition peer_relay_caller :: "net_token option \<Rightarrow> relay_caller" where
  "peer_relay_caller t =
     (case t of
        None \<Rightarrow> Relay_refused
      | Some r \<Rightarrow>
        (case peer_bound_to r of
           Some p \<Rightarrow> Relay_peer p
         | None \<Rightarrow> if is_instance_admin (token_record.truncate r) then Relay_admin else Relay_refused))"

datatype standing =
    St_member | St_open_joiner | St_admin | St_local | St_unlisted_peer | St_stranger | St_unknown_network

definition network_standing :: "net_token option \<Rightarrow> string \<Rightarrow> int \<Rightarrow> space_config \<Rightarrow> standing" where
  "network_standing t netid now cfg =
     (case peer_relay_caller t of
        Relay_admin \<Rightarrow> St_admin
      | caller \<Rightarrow>
        (case List.find (\<lambda>n. n_id n = netid) (g_networks cfg) of
           None \<Rightarrow> St_unknown_network
         | Some net \<Rightarrow>
           (case caller of
              Relay_peer p \<Rightarrow>
                if is_member net p \<or> is_upstream_peer (g_instanceId cfg) net (Some p) then St_member
                else if join_round_of net p now = Some Join_open then St_open_joiner
                else if list_ex (\<lambda>n. is_member n p \<or> join_round_of n p now \<noteq> None) (g_networks cfg) then St_stranger
                else St_unlisted_peer
            | _ \<Rightarrow> St_local)))"

datatype standing_row = Votes_read | Members_read | Votes_relay | Change_notes_relay

fun STANDING_ROWS :: "standing_row \<Rightarrow> standing list" where
  "STANDING_ROWS Votes_read = [St_admin, St_member, St_open_joiner]"
| "STANDING_ROWS Members_read = [St_admin, St_member, St_open_joiner]"
| "STANDING_ROWS Votes_relay = [St_admin, St_member]"
| "STANDING_ROWS Change_notes_relay = [St_admin, St_member]"

definition require_network_standing :: "standing_row \<Rightarrow> net_token option \<Rightarrow> string \<Rightarrow> int \<Rightarrow> space_config \<Rightarrow> bool" where
  "require_network_standing row t netid now cfg \<longleftrightarrow> network_standing t netid now cfg \<in> set (STANDING_ROWS row)"

section \<open>Whose deletion is taken\<close>

record delivery =
  dv_peerInstanceId :: "string option"
  dv_trustedRelay :: bool
  dv_upstream :: bool

datatype deletion_ground = By_issuer | By_upstream

datatype not_authorised = Not_issuer | Not_author | Not_upstream

datatype deletion_verdict =
    Ground_absent
  | Ground deletion_ground
  | Refused not_authorised

record deletion_target =
  dt_author :: "string option"
  dt_deliveredBy :: "string option"

record held_file_row = deletion_target +
  hf_seq :: "int option"

definition networks_holding :: "string \<Rightarrow> network list \<Rightarrow> network list" where
  "networks_holding sp nets = filter (\<lambda>n. sp \<in> set (n_spaces n)) nets"

definition delivery_of :: "space_config \<Rightarrow> string \<Rightarrow> string option \<Rightarrow> bool option \<Rightarrow> delivery" where
  "delivery_of cfg sp peer trusted =
     (let p = given_str peer in
      \<lparr>dv_peerInstanceId = p, dv_trustedRelay = (trusted = Some True),
       dv_upstream = (p \<noteq> None \<and> list_ex (\<lambda>n. is_directional_network (Some n) \<and> is_upstream_peer (g_instanceId cfg) n p)
                                   (networks_holding sp (g_networks cfg)))\<rparr>)"

definition is_arrived_placeholder :: "held_file_row \<Rightarrow> bool" where
  "is_arrived_placeholder row \<longleftrightarrow>
     hf_seq row = Some 0 \<and> truthy_str (dt_author row) \<and> dt_author row = dt_deliveredBy row"

definition file_target_of :: "held_file_row \<Rightarrow> held_file_row" where
  "file_target_of row = (if is_arrived_placeholder row then row\<lparr>dt_author := None\<rparr> else row)"

definition issuer_proven :: "delivery \<Rightarrow> string option \<Rightarrow> bool" where
  "issuer_proven d issuer \<longleftrightarrow> dv_trustedRelay d \<or> (dv_peerInstanceId d \<noteq> None \<and> dv_peerInstanceId d = issuer)"

definition authorises :: "delivery \<Rightarrow> string option \<Rightarrow> deletion_target option \<Rightarrow> string \<Rightarrow> deletion_verdict" where
  "authorises d issuer target self =
     (case target of
        None \<Rightarrow> Ground_absent
      | Some t \<Rightarrow>
        if issuer_proven d issuer \<and> tombstone_governs issuer (dt_author t) then Ground By_issuer
        else if dv_upstream d \<and> truthy_str (dv_peerInstanceId d) \<and> dt_deliveredBy t = dv_peerInstanceId d
                \<and> dt_author t \<noteq> Some self then Ground By_upstream
        else if issuer_proven d issuer then Refused Not_author
        else if dv_upstream d then Refused Not_upstream
        else Refused Not_issuer)"

text \<open>
  The filter a delete carries: on the author a list of allowed values (\<open>null\<close> standing for an absent one)
  or one excluded value, and on the deliverer one required value.
\<close>

record delete_filter =
  df_authorIn :: "string option list option"
  df_authorNot :: "string option"
  df_deliveredBy :: "string option"

datatype bound_error = Needs_deliverer

definition delete_bound :: "deletion_ground \<Rightarrow> string \<Rightarrow> string option \<Rightarrow> string \<Rightarrow> bound_error + delete_filter" where
  "delete_bound ground issuer deliverer self =
     (case ground of
        By_issuer \<Rightarrow>
          Inr \<lparr>df_authorIn = (if issuer \<noteq> [] then Some [Some issuer, None, Some []] else None), df_authorNot = None, df_deliveredBy = None\<rparr>
      | By_upstream \<Rightarrow>
          if \<not> truthy_str deliverer then Inl Needs_deliverer
          else Inr \<lparr>df_authorIn = None, df_authorNot = Some self, df_deliveredBy = deliverer\<rparr>)"

definition filter_matches :: "delete_filter \<Rightarrow> deletion_target \<Rightarrow> bool" where
  "filter_matches f t \<longleftrightarrow>
     (case df_authorIn f of None \<Rightarrow> True | Some as \<Rightarrow> dt_author t \<in> set as)
     \<and> (case df_authorNot f of None \<Rightarrow> True | Some a \<Rightarrow> dt_author t \<noteq> Some a)
     \<and> (case df_deliveredBy f of None \<Rightarrow> True | Some p \<Rightarrow> dt_deliveredBy t = Some p)"

section \<open>Who is served a space\<close>

text \<open>The first member seen of each id.\<close>

definition see_first :: "network_member \<Rightarrow> (string, network_member) es_map \<Rightarrow> (string, network_member) es_map" where
  "see_first m seen = (if map_of seen (m_instanceId m) = None then map_put (m_instanceId m) m seen else seen)"

definition members_serving :: "network list \<Rightarrow> string \<Rightarrow> network_member list" where
  "members_serving nets sp = map snd (fold see_first (concat (map n_members (networks_holding sp nets))) [])"

definition peer_tokens_reaching :: "net_token list \<Rightarrow> string \<Rightarrow> string list" where
  "peer_tokens_reaching toks sp =
     List.map_filter (\<lambda>t. case tk_rights t of
          None \<Rightarrow> None
        | Some r \<Rightarrow> if reaches_space r sp then peer_bound_to t else None) toks"

definition peers_outside :: "network_member list \<Rightarrow> string list \<Rightarrow> string list" where
  "peers_outside ms ids = filter (\<lambda>i. i \<notin> set (map m_instanceId ms)) ids"

definition peers_reaching_only_by_token :: "space_config \<Rightarrow> string \<Rightarrow> string list" where
  "peers_reaching_only_by_token cfg sp =
     peers_outside (members_serving (g_networks cfg) sp) (peer_tokens_reaching (g_tokens cfg) sp)"

definition serves_onward :: "space_config \<Rightarrow> string \<Rightarrow> string option \<Rightarrow> bool" where
  "serves_onward cfg sp except \<longleftrightarrow>
     list_ex (\<lambda>m. Some (m_instanceId m) \<noteq> except) (members_serving (g_networks cfg) sp)
     \<or> list_ex (\<lambda>i. Some i \<noteq> except) (peers_reaching_only_by_token cfg sp)"

definition backfill_stamp :: "space_config \<Rightarrow> string \<Rightarrow> string option \<Rightarrow> string \<Rightarrow> string" where
  "backfill_stamp cfg sp author self =
     (if \<not> truthy_str author \<or> author = Some self then []
      else
        let nets = networks_holding sp (g_networks cfg) in
        if nets = [] \<or> \<not> list_all (\<lambda>n. is_directional_network (Some n)) nets then []
        else case unique (map (upstream_of (g_instanceId cfg)) nets) of
          [Some only] \<Rightarrow> if only \<noteq> [] \<and> peers_reaching_only_by_token cfg sp = [] then only else []
        | _ \<Rightarrow> [])"

section \<open>How far every peer has been served\<close>

datatype floor_kept = Member_never_pulled string | Peer_token_scoped string | Floor_at_zero

datatype tombstone_floor_answer =
    May_prune int nat
  | Keep_all floor_kept

definition served_mark :: "network_member \<Rightarrow> string \<Rightarrow> int option" where
  "served_mark m sp = (case mark_of m LastPosServed sp of Some (Mark_number n) \<Rightarrow> Some n | _ \<Rightarrow> None)"

fun floor_scan :: "network_member list \<Rightarrow> string \<Rightarrow> int \<Rightarrow> floor_kept + int" where
  "floor_scan [] sp fl = Inr fl"
| "floor_scan (m # ms) sp fl =
     (case served_mark m sp of
        None \<Rightarrow> Inl (Member_never_pulled (m_label m))
      | Some n \<Rightarrow> floor_scan ms sp (if n < fl then n else fl))"

definition tombstone_floor :: "network_member list \<Rightarrow> string \<Rightarrow> string list \<Rightarrow> tombstone_floor_answer" where
  "tombstone_floor ms sp peers =
     (case peers_outside ms peers of
        p # _ \<Rightarrow> Keep_all (Peer_token_scoped p)
      | [] \<Rightarrow>
        if ms = [] then May_prune MAX_SAFE_INTEGER 0
        else case floor_scan ms sp MAX_SAFE_INTEGER of
          Inl why \<Rightarrow> Keep_all why
        | Inr fl \<Rightarrow> if fl \<le> 0 then Keep_all Floor_at_zero else May_prune fl (length ms))"

definition tombstone_floor_for_space :: "space_config \<Rightarrow> string \<Rightarrow> tombstone_floor_answer" where
  "tombstone_floor_for_space cfg sp =
     tombstone_floor (members_serving (g_networks cfg) sp) sp (peer_tokens_reaching (g_tokens cfg) sp)"

definition fold_served_position :: "int option \<Rightarrow> int \<Rightarrow> int option" where
  "fold_served_position current observed =
     (if observed \<le> 0 then None
      else case current of
        Some c \<Rightarrow> if observed \<le> c then None else Some observed
      | None \<Rightarrow> Some observed)"

text \<open>What a fold answers for one member's mark: leave it, clear it, or write it.\<close>

datatype mark_change = Leave | Clear | Write_mark mark_value

definition change_mark :: "per_space_watermark \<Rightarrow> string \<Rightarrow> (mark_value option \<Rightarrow> mark_change) \<Rightarrow> network_member \<Rightarrow> network_member \<times> bool" where
  "change_mark key sp f m =
     (case f (mark_of m key sp) of
        Leave \<Rightarrow> (m, False)
      | Clear \<Rightarrow> (case m_marks m key of
            None \<Rightarrow> (m, False)
          | Some held \<Rightarrow> if map_of held sp \<noteq> None then (set_marks key (map_del sp held) m, True) else (m, False))
      | Write_mark v \<Rightarrow> (set_marks key (obj_put sp v (or_empty (m_marks m key))) m, True))"

datatype mark_scope = Every_network | One_network string

definition change_in_network :: "string \<Rightarrow> per_space_watermark \<Rightarrow> string \<Rightarrow> mark_scope \<Rightarrow> (mark_value option \<Rightarrow> mark_change) \<Rightarrow> network \<Rightarrow> network \<times> bool" where
  "change_in_network peer key sp scope f net =
     (if (case scope of Every_network \<Rightarrow> False | One_network i \<Rightarrow> n_id net \<noteq> i) then (net, False)
      else if sp \<notin> set (n_spaces net) then (net, False)
      else case member_index net peer of
        None \<Rightarrow> (net, False)
      | Some j \<Rightarrow>
        let (m, did) = change_mark key sp f (n_members net ! j)
        in (net\<lparr>n_members := (n_members net)[j := m]\<rparr>, did))"

definition set_member_space_mark ::
  "string option \<Rightarrow> string \<Rightarrow> per_space_watermark \<Rightarrow> mark_scope \<Rightarrow> (mark_value option \<Rightarrow> mark_change) \<Rightarrow> space_config \<Rightarrow> space_config \<times> bool" where
  "set_member_space_mark peer sp key scope f cfg =
     (case given_str peer of
        None \<Rightarrow> (cfg, False)
      | Some p \<Rightarrow>
        let nets = map (change_in_network p key sp scope f) (g_networks cfg)
        in (cfg\<lparr>g_networks := map fst nets\<rparr>, list_ex snd nets))"

definition read_member_space_mark :: "space_config \<Rightarrow> string \<Rightarrow> string \<Rightarrow> string \<Rightarrow> per_space_watermark \<Rightarrow> mark_value option" where
  "read_member_space_mark cfg netid peer sp key =
     Option.bind (List.find (\<lambda>n. n_id n = netid) (g_networks cfg))
       (\<lambda>n. Option.bind (member_of n peer) (\<lambda>m. mark_of m key sp))"

definition number_of_mark :: "mark_value option \<Rightarrow> int option" where
  "number_of_mark v = (case v of Some (Mark_number n) \<Rightarrow> Some n | _ \<Rightarrow> None)"

definition apply_served_position :: "space_config \<Rightarrow> string option \<Rightarrow> string \<Rightarrow> int \<Rightarrow> space_config \<times> bool" where
  "apply_served_position cfg peer sp position =
     set_member_space_mark peer sp LastPosServed Every_network
       (\<lambda>current. case fold_served_position (number_of_mark current) position of
          None \<Rightarrow> Leave | Some n \<Rightarrow> Write_mark (Mark_number n)) cfg"

section \<open>Re-reads owed\<close>

definition rereads_owed :: "space_config \<Rightarrow> nat" where
  "rereads_owed cfg =
     length (unique (concat (map (\<lambda>net.
        if \<not> is_directional_network (Some net) then []
        else case List.find (\<lambda>m. is_upstream_peer (g_instanceId cfg) net (Some (m_instanceId m))) (n_members net) of
          None \<Rightarrow> []
        | Some up \<Rightarrow> map (\<lambda>sp. m_instanceId up @ [CHR 0x0A] @ sp)
            (filter (\<lambda>sp. mark_of up TombstoneRereadAt sp \<noteq> Some (Mark_text ''done'')) (n_spaces net)))
       (g_networks cfg))))"

definition next_reread_state :: "string option \<Rightarrow> bool \<Rightarrow> string option \<Rightarrow> bool \<Rightarrow> string option" where
  "next_reread_state current completed cursor stopped =
     (if current = Some ''done'' \<or> completed then Some ''done''
      else if stopped \<or> cursor = None then current
      else cursor)"

section \<open>Lemmas\<close>

lemma delete_bound_simps:
  "delete_bound By_issuer issuer d self =
     Inr \<lparr>df_authorIn = (if issuer \<noteq> [] then Some [Some issuer, None, Some []] else None), df_authorNot = None, df_deliveredBy = None\<rparr>"
  "delete_bound By_upstream issuer d self =
     (if \<not> truthy_str d then Inl Needs_deliverer else Inr \<lparr>df_authorIn = None, df_authorNot = Some self, df_deliveredBy = d\<rparr>)"
  by (simp_all add: delete_bound_def)

lemma issuer_bound_governs:
  "delete_bound By_issuer issuer d self = Inr f \<Longrightarrow> filter_matches f t \<longleftrightarrow> tombstone_governs (Some issuer) (dt_author t)"
  by (cases "dt_author t") (auto simp: delete_bound_simps filter_matches_def tombstone_governs_def)

lemma see_first_props:
  "set (see_first m seen) \<subseteq> insert (m_instanceId m, m) (set seen)"
  "fst ` set (see_first m seen) = insert (m_instanceId m) (fst ` set seen)"
proof -
  have "m_instanceId m \<notin> fst ` set seen \<Longrightarrow> map_put (m_instanceId m) m seen = seen @ [(m_instanceId m, m)]"
    by (rule map_put_fresh)
  then show "set (see_first m seen) \<subseteq> insert (m_instanceId m, m) (set seen)"
      "fst ` set (see_first m seen) = insert (m_instanceId m) (fst ` set seen)"
    by (auto simp: see_first_def map_of_eq_None_iff split: if_splits)
qed

lemma see_fold_props:
  "set (fold see_first ms seen) \<subseteq> (\<lambda>m. (m_instanceId m, m)) ` set ms \<union> set seen
   \<and> fst ` set (fold see_first ms seen) = fst ` set seen \<union> m_instanceId ` set ms"
proof (induction ms arbitrary: seen)
  case Nil
  show ?case by simp
next
  case (Cons m ms)
  from Cons.IH [of "see_first m seen"] see_first_props(1,2) [of m seen] show ?case
    by (simp, blast)
qed

text \<open>Every member of a network that carries the space has a representative of its id.\<close>

lemma members_serving_ids:
  "m_instanceId ` set (members_serving nets sp) = (\<Union>n \<in> {n \<in> set nets. sp \<in> set (n_spaces n)}. m_instanceId ` set (n_members n))"
proof -
  let ?ms = "concat (map n_members (networks_holding sp nets))"
  have keys: "fst ` set (fold see_first ?ms []) = m_instanceId ` set ?ms" using see_fold_props [of ?ms "[]"] by simp
  have "set (fold see_first ?ms []) \<subseteq> (\<lambda>m. (m_instanceId m, m)) ` set ?ms" using see_fold_props [of ?ms "[]"] by simp
  then have "m_instanceId (snd e) = fst e" if "e \<in> set (fold see_first ?ms [])" for e using that by auto
  then have "(m_instanceId \<circ> snd) ` set (fold see_first ?ms []) = fst ` set (fold see_first ?ms [])"
    by (intro image_cong) simp_all
  then show ?thesis using keys by (simp add: members_serving_def image_comp networks_holding_def image_UN)
qed

lemma members_serving_in:
  "set (members_serving nets sp) \<subseteq> set (concat (map n_members (networks_holding sp nets)))"
proof -
  let ?ms = "concat (map n_members (networks_holding sp nets))"
  have "set (fold see_first ?ms []) \<subseteq> (\<lambda>m. (m_instanceId m, m)) ` set ?ms" using see_fold_props [of ?ms "[]"] by simp
  then have "snd ` set (fold see_first ?ms []) \<subseteq> snd ` (\<lambda>m. (m_instanceId m, m)) ` set ?ms" by (rule image_mono)
  then show ?thesis by (simp add: members_serving_def image_comp comp_def del: set_concat)
qed

lemma floor_scan_Inr:
  "floor_scan ms sp fl = Inr x \<Longrightarrow>
     x \<le> fl \<and> (\<forall>m \<in> set ms. \<exists>n. served_mark m sp = Some n \<and> x \<le> n) \<and> (x = fl \<or> (\<exists>m \<in> set ms. served_mark m sp = Some x))"
  by (induction ms sp fl rule: floor_scan.induct) (fastforce split: option.splits if_splits)+

lemma change_mark_id: "m_instanceId (fst (change_mark key sp f m)) = m_instanceId m"
  by (simp add: change_mark_def set_marks_def split: mark_change.split option.split)

lemma mark_of_change:
  "mark_of (fst (change_mark key sp f m)) k t =
     (if k = key \<and> t = sp
      then (case f (mark_of m key sp) of Leave \<Rightarrow> mark_of m k t | Clear \<Rightarrow> None | Write_mark v \<Rightarrow> Some v)
      else mark_of m k t)"
proof (cases "f (mark_of m key sp)")
  case Leave
  then show ?thesis by (simp add: change_mark_def)
next
  case Clear
  then show ?thesis
    by (cases "m_marks m key") (auto simp: change_mark_def set_marks_def mark_of_def map_of_map_del)
next
  case (Write_mark v)
  then show ?thesis
    by (cases "m_marks m key") (auto simp: change_mark_def set_marks_def mark_of_def map_of_obj_put)
qed

definition may_receive :: "string \<Rightarrow> string \<Rightarrow> network \<Rightarrow> nat \<Rightarrow> bool" where
  "may_receive peer sp net j \<longleftrightarrow> sp \<in> set (n_spaces net) \<and> member_index net peer = Some j"

lemma change_in_every_network:
  "n_members (fst (change_in_network peer key sp Every_network f net)) =
     (case member_index net peer of
        Some j \<Rightarrow> if sp \<in> set (n_spaces net)
          then (n_members net)[j := fst (change_mark key sp f (n_members net ! j))] else n_members net
      | None \<Rightarrow> n_members net)"
  by (simp add: change_in_network_def split_beta Let_def split: option.split)

section \<open>Properties\<close>

text \<open>
  Property C28: a deletion a peer asks for is taken on a record only when the issuer is proven and governs
  it (the issuer wrote it, or the record names no author, or the tombstone names no issuer), or when the
  instance above delivered that very record and this instance did not write it. The bound the delete carries
  matches the record it was authorised on; every record it can match is one the same delivery is authorised
  to delete; and on the issuer's ground it matches exactly the records which that ground covers.
\<close>

theorem deletion_within_authority:
  assumes "authorises d issuer (Some t) self = Ground g"
  shows "(case g of
       By_issuer \<Rightarrow> issuer_proven d issuer \<and> (\<not> truthy_str issuer \<or> \<not> truthy_str (dt_author t) \<or> dt_author t = issuer)
     | By_upstream \<Rightarrow> dv_upstream d \<and> dt_deliveredBy t = dv_peerInstanceId d \<and> dt_author t \<noteq> Some self)
   \<and> (case delete_bound g (or_blank issuer) (dv_peerInstanceId d) self of
        Inl err \<Rightarrow> False
      | Inr f \<Rightarrow> filter_matches f t
          \<and> (filter_matches f u \<longrightarrow> authorises d issuer (Some u) self \<in> {Ground By_issuer, Ground By_upstream})
          \<and> (g = By_issuer \<longrightarrow> (filter_matches f u \<longleftrightarrow> authorises d issuer (Some u) self = Ground By_issuer)))"
proof (cases g)
  case By_issuer
  have proven: "issuer_proven d issuer" "tombstone_governs issuer (dt_author t)"
    using assms By_issuer by (auto simp: authorises_def split: if_splits)
  have gov: "tombstone_governs (Some (or_blank issuer)) a = tombstone_governs issuer a" for a
    by (cases issuer) (auto simp: tombstone_governs_def or_blank_def)
  obtain f where f: "delete_bound g (or_blank issuer) (dv_peerInstanceId d) self = Inr f"
    by (simp add: By_issuer delete_bound_simps)
  have m: "filter_matches f v \<longleftrightarrow> tombstone_governs issuer (dt_author v)" for v
    using issuer_bound_governs [OF f [unfolded By_issuer]] gov by simp
  show ?thesis
    unfolding f using By_issuer proven m by (auto simp: authorises_def tombstone_governs_def)
next
  case By_upstream
  have up: "dv_upstream d" "truthy_str (dv_peerInstanceId d)" "dt_deliveredBy t = dv_peerInstanceId d" "dt_author t \<noteq> Some self"
    using assms By_upstream by (auto simp: authorises_def split: if_splits)
  then obtain p where p: "dv_peerInstanceId d = Some p" by (cases "dv_peerInstanceId d") auto
  show ?thesis
    using By_upstream up by (auto simp: delete_bound_simps filter_matches_def authorises_def p)
qed

text \<open>
  Property C30: a floor below which tombstones may be dropped is one every peer has passed: each member of
  each network carrying the space stands, under its id, for a mark at or above the floor, no token
  reaches the space for a peer that is no such member, and the floor is the lowest of those marks.
\<close>

theorem tombstone_floor_passed_by_all:
  assumes "tombstone_floor_for_space cfg sp = May_prune upTo n"
  shows "(net \<in> set (g_networks cfg) \<and> sp \<in> set (n_spaces net) \<and> m \<in> set (n_members net) \<longrightarrow>
      (\<exists>rep \<in> set (members_serving (g_networks cfg) sp). \<exists>p.
          m_instanceId rep = m_instanceId m \<and> served_mark rep sp = Some p \<and> upTo \<le> p))
    \<and> (t \<in> set (g_tokens cfg) \<and> peer_bound_to t = Some peer \<and> tk_rights t = Some r \<and> reaches_space r sp \<longrightarrow>
         peer \<in> m_instanceId ` set (members_serving (g_networks cfg) sp))
    \<and> (upTo = MAX_SAFE_INTEGER \<or> (\<exists>rep \<in> set (members_serving (g_networks cfg) sp). served_mark rep sp = Some upTo))
    \<and> 0 < upTo"
proof -
  let ?ms = "members_serving (g_networks cfg) sp"
  have out: "peers_outside ?ms (peer_tokens_reaching (g_tokens cfg) sp) = []"
    using assms by (auto simp: tombstone_floor_for_space_def tombstone_floor_def split: list.splits)
  have scan: "?ms = [] \<and> upTo = MAX_SAFE_INTEGER \<or> floor_scan ?ms sp MAX_SAFE_INTEGER = Inr upTo \<and> 0 < upTo"
    using assms out by (auto simp: tombstone_floor_for_space_def tombstone_floor_def split: if_splits sum.splits)
  have low: "(\<forall>m \<in> set ?ms. \<exists>n. served_mark m sp = Some n \<and> upTo \<le> n)
      \<and> (upTo = MAX_SAFE_INTEGER \<or> (\<exists>m \<in> set ?ms. served_mark m sp = Some upTo)) \<and> 0 < upTo"
    using scan floor_scan_Inr [of ?ms sp MAX_SAFE_INTEGER upTo] by (auto simp: MAX_SAFE_INTEGER_def)
  have rep: "\<exists>rep \<in> set ?ms. m_instanceId rep = m_instanceId m"
    if "net \<in> set (g_networks cfg)" "sp \<in> set (n_spaces net)" "m \<in> set (n_members net)"
  proof -
    have "m_instanceId m \<in> m_instanceId ` set ?ms" using that by (auto simp: members_serving_ids)
    then show ?thesis by auto
  qed
  have tok: "peer \<in> m_instanceId ` set ?ms"
    if "t \<in> set (g_tokens cfg)" "peer_bound_to t = Some peer" "tk_rights t = Some r" "reaches_space r sp"
  proof -
    have "peer \<in> set (peer_tokens_reaching (g_tokens cfg) sp)"
      using that by (force simp: peer_tokens_reaching_def List.map_filter_def)
    then show ?thesis using out by (auto simp: peers_outside_def filter_empty_conv)
  qed
  show ?thesis using low rep tok by blast
qed

text \<open>
  Recording how far a peer was served only ever raises a mark: the peer's own, for that
  space, in each network that carries it, and to no more than the position given; no other mark of any
  member moves, and no network, member or space is added or lost.
\<close>

theorem served_marks_only_rise:
  assumes "k < length (g_networks cfg)" "net = g_networks cfg ! k"
    and "net' = g_networks (fst (apply_served_position cfg (Some peer) sp position)) ! k"
    and "j < length (n_members net)" "m = n_members net ! j" "m' = n_members net' ! j"
  shows "length (n_members net') = length (n_members net) \<and> m_instanceId m' = m_instanceId m
     \<and> (mark_of m' key s = mark_of m key s
        \<or> key = LastPosServed \<and> s = sp \<and> m_instanceId m = peer \<and> sp \<in> set (n_spaces net) \<and> 0 < position
          \<and> mark_of m' key s = Some (Mark_number position)
          \<and> (case number_of_mark (mark_of m key s) of None \<Rightarrow> True | Some c \<Rightarrow> c < position))"
proof (cases "peer = []")
  case True
  then have "net' = net" using assms by (simp add: apply_served_position_def set_member_space_mark_def given_str_def)
  then show ?thesis using assms by simp
next
  case False
  let ?f = "\<lambda>current. case fold_served_position (number_of_mark current) position of
      None \<Rightarrow> Leave | Some n \<Rightarrow> Write_mark (Mark_number n)"
  have net': "net' = fst (change_in_network peer LastPosServed sp Every_network ?f net)"
    using assms(1-3) False by (simp add: apply_served_position_def set_member_space_mark_def given_str_def Let_def)
  note ms = change_in_every_network [of peer LastPosServed sp ?f net]
  show ?thesis
  proof (cases "sp \<in> set (n_spaces net) \<and> member_index net peer = Some j")
    case False
    then have "n_members net' ! j = n_members net ! j \<and> length (n_members net') = length (n_members net)"
      by (auto simp: net' ms split: option.split)
    then show ?thesis using assms by simp
  next
    case True
    then have m': "m' = fst (change_mark LastPosServed sp ?f m)" "length (n_members net') = length (n_members net)"
      using assms(4-6) by (auto simp: net' ms)
    have "m_instanceId m = peer"
      using True assms(5) find_index_SomeD by (fastforce simp: member_index_def)
    then show ?thesis
      using True m' by (auto simp: change_mark_id mark_of_change fold_served_position_def split: option.split)
  qed
qed

definition demo_served :: space_config where
  "demo_served = demo_below\<lparr>g_networks := [demo_tree\<lparr>n_spaces := [''notes''],
     n_members := [set_marks LastPosServed [(''notes'', Mark_number 7)] (demo_member ''root'' None None None)]\<rparr>], g_tokens := []\<rparr>"

theorem deletion_within_authority_witness:
  "issuer_proven \<lparr>dv_peerInstanceId = Some ''root'', dv_trustedRelay = False, dv_upstream = True\<rparr> (Some ''root'')"
proof -
  have "authorises \<lparr>dv_peerInstanceId = Some ''root'', dv_trustedRelay = False, dv_upstream = True\<rparr> (Some ''root'')
      (Some \<lparr>dt_author = Some ''root'', dt_deliveredBy = None\<rparr>) ''self'' = Ground By_issuer"
    by (simp add: authorises_def issuer_proven_def tombstone_governs_def)
  then show ?thesis using deletion_within_authority by fastforce
qed

theorem tombstone_floor_passed_by_all_witness:
  "\<exists>rep \<in> set (members_serving (g_networks demo_served) ''notes''). served_mark rep ''notes'' = Some 7"
proof -
  have f: "tombstone_floor_for_space demo_served ''notes'' = May_prune 7 1" by code_simp
  show ?thesis using tombstone_floor_passed_by_all [OF f] by (simp add: MAX_SAFE_INTEGER_def)
qed

theorem served_marks_only_rise_witness:
  "length (n_members (g_networks (fst (apply_served_position demo_served (Some ''root'') ''notes'' 9)) ! 0)) = 1"
proof -
  have "0 < length (g_networks demo_served)" "0 < length (n_members (g_networks demo_served ! 0))"
      "length (n_members (g_networks demo_served ! 0)) = 1"
    by (simp_all add: demo_served_def)
  then show ?thesis
    using served_marks_only_rise [OF _ refl refl _ refl refl, of 0 demo_served 0 "''root''" "''notes''" 9] by simp
qed

end
