(* ===== verification/Space_Exchange.thy ===== *)
theory Space_Exchange
  imports Peer_Authority
begin

text \<open>
  Whether a space may be exchanged with a member now (\<open>server/src/sync/space-exchange-set.ts\<close>), the spaces a
  member declined, and the declines an announcement lifts.  The hold is answered from an index of the
  wipe rounds of every network, built in one pass; the lemmas show the index says of a space exactly
  what the rounds say, so the hold is the three clauses of its contract: an act that stands here, a wipe
  applied here the member has not concluded, a wipe the member concluded that is open here.
\<close>

section \<open>The index\<close>

datatype hold_reason = Act_owed_here | Peer_has_not_concluded | Peer_concluded_first | Evidence_unknown

datatype covered = Every_type | Types "brain_collection list"

record wipe_evidence =
  we_types :: covered
  we_peers :: "string list"

record net_evidence =
  ne_evidence :: "wipe_evidence list"
  ne_concludedFirst :: "string list"
  ne_unknown :: bool

record space_evidence =
  se_applied :: "covered list"
  se_byNet :: "(string, net_evidence) es_map"

type_synonym hold_index = "(string, space_evidence) es_map"

definition covered_of :: "brain_collection list option \<Rightarrow> covered" where
  "covered_of ts = (case ts of None \<Rightarrow> Every_type | Some [] \<Rightarrow> Every_type | Some us \<Rightarrow> Types us)"

definition covers_types :: "covered \<Rightarrow> covered \<Rightarrow> bool" where
  "covers_types x applied =
     (case x of
        Every_type \<Rightarrow> True
      | Types xs \<Rightarrow> (case applied of Every_type \<Rightarrow> False | Types ts \<Rightarrow> list_all (\<lambda>t. t \<in> set xs) ts))"

definition net_evidence_of :: "space_evidence \<Rightarrow> string \<Rightarrow> net_evidence" where
  "net_evidence_of se i =
     (case map_of (se_byNet se) i of
        Some e \<Rightarrow> e | None \<Rightarrow> \<lparr>ne_evidence = [], ne_concludedFirst = [], ne_unknown = False\<rparr>)"

definition space_of :: "hold_index \<Rightarrow> string \<Rightarrow> space_evidence" where
  "space_of ix sp = (case map_of ix sp of Some se \<Rightarrow> se | None \<Rightarrow> \<lparr>se_applied = [], se_byNet = []\<rparr>)"

text \<open>
  One wipe round read into the evidence of its space.  \<open>broken\<close> says of a round, which came from a peer,
  that reading it throws once its space is known.
\<close>

definition peers_of :: "vote_round \<Rightarrow> string list" where
  "peers_of rd = or_empty (r_peersConcluded rd)"

definition read_wipe_round :: "(vote_round \<Rightarrow> bool) \<Rightarrow> string \<Rightarrow> vote_round \<Rightarrow> space_evidence \<Rightarrow> space_evidence" where
  "read_wipe_round broken netid rd se =
     (let e = net_evidence_of se netid
      in if broken rd then se\<lparr>se_byNet := map_put netid (e\<lparr>ne_unknown := True\<rparr>) (se_byNet se)\<rparr>
         else let types = covered_of (r_wipeTypes rd);
                  e1 = e\<lparr>ne_evidence := ne_evidence e @ [\<lparr>we_types = types, we_peers = peers_of rd\<rparr>],
                         ne_concludedFirst := (if r_concluded rd \<noteq> Some True then ne_concludedFirst e @ peers_of rd else ne_concludedFirst e)\<rparr>
              in se\<lparr>se_applied := (if space_act_applied rd then se_applied se @ [types] else se_applied se),
                    se_byNet := map_put netid e1 (se_byNet se)\<rparr>)"

definition wiped_space :: "network \<Rightarrow> vote_round \<Rightarrow> string option" where
  "wiped_space net rd = (if r_type rd = Space_wipe then given_str (round_space_local_id net rd) else None)"

definition index_round :: "(vote_round \<Rightarrow> bool) \<Rightarrow> hold_index \<Rightarrow> network \<times> vote_round \<Rightarrow> hold_index" where
  "index_round broken ix nr =
     (case wiped_space (fst nr) (snd nr) of
        None \<Rightarrow> ix
      | Some sp \<Rightarrow> map_put sp (read_wipe_round broken (n_id (fst nr)) (snd nr) (space_of ix sp)) ix)"

definition every_round :: "network list \<Rightarrow> (network \<times> vote_round) list" where
  "every_round nets = concat (map (\<lambda>net. map (Pair net) (n_pendingRounds net)) nets)"

definition build_index :: "(vote_round \<Rightarrow> bool) \<Rightarrow> network list \<Rightarrow> hold_index" where
  "build_index broken nets = foldl (index_round broken) [] (every_round nets)"

section \<open>The hold\<close>

definition networks_judged :: "network list \<Rightarrow> string \<Rightarrow> string \<Rightarrow> string option \<Rightarrow> network list" where
  "networks_judged nets sp peer netid =
     (case Option.bind (given_str netid) (\<lambda>i. List.find (\<lambda>n. n_id n = i) nets) of
        Some named \<Rightarrow> [named]
      | None \<Rightarrow> filter (\<lambda>n. sp \<in> set (n_spaces n) \<and> is_member n peer) nets)"

fun first_reason :: "space_evidence \<Rightarrow> string \<Rightarrow> network list \<Rightarrow> hold_reason option" where
  "first_reason se peer [] = None"
| "first_reason se peer (n # ns) =
     (case map_of (se_byNet se) (n_id n) of
        None \<Rightarrow> first_reason se peer ns
      | Some e \<Rightarrow>
          if ne_unknown e then Some Evidence_unknown
          else if peer \<in> set (ne_concludedFirst e) then Some Peer_concluded_first
          else first_reason se peer ns)"

definition unanswered :: "space_evidence \<Rightarrow> string \<Rightarrow> network \<Rightarrow> bool" where
  "unanswered se peer net =
     (let ev = (case map_of (se_byNet se) (n_id net) of Some e \<Rightarrow> ne_evidence e | None \<Rightarrow> [])
      in list_ex (\<lambda>a. \<not> list_ex (\<lambda>x. peer \<in> set (we_peers x) \<and> covers_types (we_types x) a) ev) (se_applied se))"

text \<open>\<open>leavingFor\<close> is the act this process is leaving for, as in \<open>space_act_stands\<close>.\<close>

definition space_hold ::
  "act_kind option \<Rightarrow> (vote_round \<Rightarrow> bool) \<Rightarrow> space_config \<Rightarrow> string \<Rightarrow> string \<Rightarrow> string option \<Rightarrow> hold_reason option" where
  "space_hold leavingFor broken cfg sp peer netid =
     (if space_act_stands leavingFor (act_config.truncate cfg) sp None None \<noteq> None then Some Act_owed_here
      else case map_of (build_index broken (g_networks cfg)) sp of
          None \<Rightarrow> None
        | Some se \<Rightarrow>
            let nets = networks_judged (g_networks cfg) sp peer netid
            in (case first_reason se peer nets of
                  Some r \<Rightarrow> Some r
                | None \<Rightarrow>
                    if se_applied se = [] then None
                    else if nets = [] then Some Peer_has_not_concluded
                    else if list_ex (unanswered se peer) nets then Some Peer_has_not_concluded
                    else None))"

section \<open>Declines, and the set of spaces to exchange\<close>

definition declined_by :: "network \<Rightarrow> network_member \<Rightarrow> string \<Rightarrow> bool" where
  "declined_by net m sp \<longleftrightarrow> local_to_remote (n_spaceMap net) sp \<in> set (or_empty (m_declinedSpaces m))"

text \<open>\<open>announced\<close> is \<open>None\<close> when the answer carried no array.\<close>

definition lift_declines_from_announce :: "network \<Rightarrow> string \<Rightarrow> string list option \<Rightarrow> network \<times> bool" where
  "lift_declines_from_announce net peer announced =
     (case (announced, Option.bind (member_of net peer) m_declinedSpaces) of
        (Some as, Some ds) \<Rightarrow>
          let kept = filter (\<lambda>i. i \<notin> set as) ds
          in if ds = [] \<or> length kept = length ds then (net, False)
             else (update_member peer (\<lambda>m. m\<lparr>m_declinedSpaces := (if kept = [] then None else Some kept)\<rparr>) net, True)
      | _ \<Rightarrow> (net, False))"

definition record_decline :: "space_config \<Rightarrow> string \<Rightarrow> string \<Rightarrow> string \<Rightarrow> space_config" where
  "record_decline cfg netid peer remote =
     (case find_index (\<lambda>n. n_id n = netid) (g_networks cfg) of
        None \<Rightarrow> cfg
      | Some k \<Rightarrow>
          cfg\<lparr>g_networks := (g_networks cfg)[k := update_member peer (\<lambda>m.
            let ds = or_empty (m_declinedSpaces m)
            in if remote \<in> set ds then m else m\<lparr>m_declinedSpaces := Some (ds @ [remote])\<rparr>) (g_networks cfg ! k)]\<rparr>)"

record verdicts =
  vd_exchange :: "string list"
  vd_held :: "(string \<times> hold_reason) list"
  vd_declined :: "string list"

fun sort_spaces ::
  "(string \<Rightarrow> bool) \<Rightarrow> (string \<Rightarrow> hold_reason option) \<Rightarrow> string list \<Rightarrow> verdicts \<Rightarrow> verdicts" where
  "sort_spaces declined hold [] v = v"
| "sort_spaces declined hold (sp # sps) v =
     sort_spaces declined hold sps
       (if declined sp then v\<lparr>vd_declined := vd_declined v @ [sp]\<rparr>
        else case hold sp of
            Some r \<Rightarrow> v\<lparr>vd_held := vd_held v @ [(sp, r)]\<rparr>
          | None \<Rightarrow> v\<lparr>vd_exchange := vd_exchange v @ [sp]\<rparr>)"

definition exchange_verdicts ::
  "act_kind option \<Rightarrow> (vote_round \<Rightarrow> bool) \<Rightarrow> space_config \<Rightarrow> network \<Rightarrow> network_member \<Rightarrow> verdicts" where
  "exchange_verdicts leavingFor broken cfg net m =
     sort_spaces (declined_by net m) (\<lambda>sp. space_hold leavingFor broken cfg sp (m_instanceId m) (Some (n_id net)))
       (n_spaces net) \<lparr>vd_exchange = [], vd_held = [], vd_declined = []\<rparr>"

definition held_exchange_pairs ::
  "act_kind option \<Rightarrow> (vote_round \<Rightarrow> bool) \<Rightarrow> space_config \<Rightarrow> (string, nat) es_map" where
  "held_exchange_pairs leavingFor broken cfg =
     foldl (\<lambda>out net. map_put (n_id net)
        (sum_list (map (\<lambda>m. length (vd_held (exchange_verdicts leavingFor broken cfg net m))) (n_members net))) out)
       [] (g_networks cfg)"

definition may_exchange_now ::
  "act_kind option \<Rightarrow> (vote_round \<Rightarrow> bool) \<Rightarrow> space_config \<Rightarrow> string \<Rightarrow> string \<Rightarrow> string \<Rightarrow> bool" where
  "may_exchange_now leavingFor broken cfg netid peer sp =
     (case List.find (\<lambda>n. n_id n = netid) (g_networks cfg) of
        None \<Rightarrow> False
      | Some net \<Rightarrow>
          if sp \<notin> set (n_spaces net) then False
          else if (case member_of net peer of Some m \<Rightarrow> declined_by net m sp | None \<Rightarrow> False) then False
          else space_hold leavingFor broken cfg sp peer (Some netid) = None)"

definition without_held_for ::
  "act_kind option \<Rightarrow> (vote_round \<Rightarrow> bool) \<Rightarrow> space_config \<Rightarrow> string list \<Rightarrow> string option \<Rightarrow> string list" where
  "without_held_for leavingFor broken cfg sps peer =
     (case given_str peer of
        None \<Rightarrow> sps
      | Some p \<Rightarrow> filter (\<lambda>sp. space_hold leavingFor broken cfg sp p None = None) sps)"

section \<open>Lemmas: what the index says\<close>

definition wipes_of :: "network list \<Rightarrow> string \<Rightarrow> (network \<times> vote_round) list" where
  "wipes_of nets sp = filter (\<lambda>nr. wiped_space (fst nr) (snd nr) = Some sp) (every_round nets)"

definition read_round :: "(vote_round \<Rightarrow> bool) \<Rightarrow> space_evidence \<Rightarrow> network \<times> vote_round \<Rightarrow> space_evidence" where
  "read_round broken se nr = read_wipe_round broken (n_id (fst nr)) (snd nr) se"

lemma index_rounds_space:
  "map_of (foldl (index_round broken) ix nrs) sp =
     (let mine = filter (\<lambda>nr. wiped_space (fst nr) (snd nr) = Some sp) nrs
      in if mine = [] then map_of ix sp else Some (foldl (read_round broken) (space_of ix sp) mine))"
proof (induction nrs arbitrary: ix)
  case (Cons nr nrs)
  then show ?case
    by (cases "wiped_space (fst nr) (snd nr)")
      (auto simp: index_round_def Let_def map_of_map_put read_round_def space_of_def)
qed simp

lemma map_of_build_index:
  "map_of (build_index broken nets) sp =
     (if wipes_of nets sp = [] then None
      else Some (foldl (read_round broken) \<lparr>se_applied = [], se_byNet = []\<rparr> (wipes_of nets sp)))"
  by (simp add: build_index_def index_rounds_space wipes_of_def Let_def space_of_def)

definition types_of :: "vote_round \<Rightarrow> covered" where
  "types_of rd = covered_of (r_wipeTypes rd)"

lemma read_round_applied:
  "se_applied (read_round broken se nr) =
     (if \<not> broken (snd nr) \<and> space_act_applied (snd nr) then se_applied se @ [types_of (snd nr)] else se_applied se)"
  by (simp add: read_round_def read_wipe_round_def Let_def types_of_def)

lemma read_round_net:
  "map_of (se_byNet (read_round broken se nr)) i =
     (if n_id (fst nr) = i
      then Some (if broken (snd nr) then (net_evidence_of se i)\<lparr>ne_unknown := True\<rparr>
                 else (net_evidence_of se i)\<lparr>ne_evidence := ne_evidence (net_evidence_of se i) @ [\<lparr>we_types = types_of (snd nr), we_peers = peers_of (snd nr)\<rparr>],
                      ne_concludedFirst := (if r_concluded (snd nr) \<noteq> Some True
                        then ne_concludedFirst (net_evidence_of se i) @ peers_of (snd nr) else ne_concludedFirst (net_evidence_of se i))\<rparr>)
      else map_of (se_byNet se) i)"
  by (simp add: read_round_def read_wipe_round_def Let_def types_of_def map_of_map_put)

lemma read_rounds_applied:
  "set (se_applied (foldl (read_round broken) se nrs)) =
     set (se_applied se) \<union> types_of ` {rd. rd \<in> snd ` set nrs \<and> \<not> broken rd \<and> space_act_applied rd}"
  by (induction nrs arbitrary: se) (auto simp: read_round_applied)

lemma read_round_evidence:
  "net_evidence_of (read_round broken se nr) i =
     (let e = net_evidence_of se i
      in if n_id (fst nr) \<noteq> i then e
         else if broken (snd nr) then e\<lparr>ne_unknown := True\<rparr>
         else e\<lparr>ne_evidence := ne_evidence e @ [\<lparr>we_types = types_of (snd nr), we_peers = peers_of (snd nr)\<rparr>],
               ne_concludedFirst := ne_concludedFirst e @ (if r_concluded (snd nr) \<noteq> Some True then peers_of (snd nr) else [])\<rparr>)"
  by (simp add: net_evidence_of_def [of "read_round broken se nr"] read_round_net Let_def)
    (simp add: net_evidence_of_def)

definition evidence_of :: "vote_round \<Rightarrow> wipe_evidence" where
  "evidence_of rd = \<lparr>we_types = types_of rd, we_peers = peers_of rd\<rparr>"

lemma read_rounds_unknown:
  "ne_unknown (net_evidence_of (foldl (read_round broken) se nrs) i) \<longleftrightarrow>
     ne_unknown (net_evidence_of se i) \<or> (\<exists>nr \<in> set nrs. n_id (fst nr) = i \<and> broken (snd nr))"
proof (induction nrs arbitrary: se)
  case (Cons nr nrs)
  then show ?case by (simp add: read_round_evidence Let_def)
qed simp

lemma read_rounds_concluded:
  "peer \<in> set (ne_concludedFirst (net_evidence_of (foldl (read_round broken) se nrs) i)) \<longleftrightarrow>
     peer \<in> set (ne_concludedFirst (net_evidence_of se i)) \<or>
     (\<exists>nr \<in> set nrs. n_id (fst nr) = i \<and> \<not> broken (snd nr) \<and> r_concluded (snd nr) \<noteq> Some True \<and> peer \<in> set (peers_of (snd nr)))"
proof (induction nrs arbitrary: se)
  case (Cons nr nrs)
  show ?case unfolding foldl_Cons Cons.IH by (auto simp: read_round_evidence Let_def)
qed simp

lemma read_rounds_evidence:
  "x \<in> set (ne_evidence (net_evidence_of (foldl (read_round broken) se nrs) i)) \<longleftrightarrow>
     x \<in> set (ne_evidence (net_evidence_of se i)) \<or>
     (\<exists>nr \<in> set nrs. n_id (fst nr) = i \<and> \<not> broken (snd nr) \<and> x = evidence_of (snd nr))"
proof (induction nrs arbitrary: se)
  case (Cons nr nrs)
  show ?case unfolding foldl_Cons Cons.IH by (auto simp: read_round_evidence Let_def evidence_of_def)
qed simp

lemma first_reason_None:
  "first_reason se peer nets = None \<longleftrightarrow>
     list_all (\<lambda>n. \<not> ne_unknown (net_evidence_of se (n_id n)) \<and> peer \<notin> set (ne_concludedFirst (net_evidence_of se (n_id n)))) nets"
  by (induction nets) (auto simp: net_evidence_of_def split: option.split)

lemma unanswered_evidence:
  "unanswered se peer net \<longleftrightarrow> (\<exists>a \<in> set (se_applied se).
     \<not> (\<exists>x \<in> set (ne_evidence (net_evidence_of se (n_id net))). peer \<in> set (we_peers x) \<and> covers_types (we_types x) a))"
  by (auto simp: unanswered_def Let_def net_evidence_of_def list_ex_iff split: option.split)

section \<open>The hold's contract\<close>

text \<open>Clause by clause, over the rounds themselves: \<open>concluded_by\<close> is a wipe round that records the member as having concluded it.\<close>

definition concluded_by :: "string \<Rightarrow> vote_round \<Rightarrow> bool" where
  "concluded_by peer rd \<longleftrightarrow> peer \<in> set (peers_of rd)"

definition answered_in :: "(network \<times> vote_round) list \<Rightarrow> string \<Rightarrow> vote_round \<Rightarrow> network \<Rightarrow> bool" where
  "answered_in ws peer applied net \<longleftrightarrow>
     list_ex (\<lambda>w. n_id (fst w) = n_id net \<and> concluded_by peer (snd w) \<and> covers_types (types_of (snd w)) (types_of applied)) ws"

definition peer_ahead_in :: "(network \<times> vote_round) list \<Rightarrow> string \<Rightarrow> network \<Rightarrow> bool" where
  "peer_ahead_in ws peer net \<longleftrightarrow>
     list_ex (\<lambda>w. n_id (fst w) = n_id net \<and> r_concluded (snd w) \<noteq> Some True \<and> concluded_by peer (snd w)) ws"

lemma ex_image: "(\<exists>x. (\<exists>w \<in> W. C w \<and> D w \<and> x = f w) \<and> P x) \<longleftrightarrow> (\<exists>w \<in> W. C w \<and> D w \<and> P (f w))"
  by blast

definition unreadable_in :: "(vote_round \<Rightarrow> bool) \<Rightarrow> (network \<times> vote_round) list \<Rightarrow> network \<Rightarrow> bool" where
  "unreadable_in broken ws net \<longleftrightarrow> list_ex (\<lambda>w. n_id (fst w) = n_id net \<and> broken (snd w)) ws"

lemma hold_by_index:
  assumes "map_of (build_index broken (g_networks cfg)) sp = Some se"
  shows "space_hold leavingFor broken cfg sp peer netid = None \<longleftrightarrow>
     space_act_stands leavingFor (act_config.truncate cfg) sp None None = None
     \<and> first_reason se peer (networks_judged (g_networks cfg) sp peer netid) = None
     \<and> (se_applied se = [] \<or> networks_judged (g_networks cfg) sp peer netid \<noteq> []
          \<and> list_all (\<lambda>n. \<not> unanswered se peer n) (networks_judged (g_networks cfg) sp peer netid))"
  using assms
  by (cases "first_reason se peer (networks_judged (g_networks cfg) sp peer netid)")
    (simp_all add: space_hold_def Let_def list_all_iff list_ex_iff)

lemma hold_of_rounds:
  fixes cfg :: space_config and sp peer :: string and netid :: "string option" and broken :: "vote_round \<Rightarrow> bool"
  defines "ws \<equiv> wipes_of (g_networks cfg) sp" and "nets \<equiv> networks_judged (g_networks cfg) sp peer netid"
  defines "rs \<equiv> filter (\<lambda>w. \<not> broken (snd w)) ws"
  shows "space_hold leavingFor broken cfg sp peer netid = None \<longleftrightarrow>
     space_act_stands leavingFor (act_config.truncate cfg) sp None None = None
     \<and> list_all (\<lambda>net. \<not> unreadable_in broken ws net \<and> \<not> peer_ahead_in rs peer net) nets
     \<and> list_all (\<lambda>w. nets \<noteq> [] \<and> list_all (answered_in rs peer (snd w)) nets) (filter (\<lambda>w. space_act_applied (snd w)) rs)"
proof (cases "ws = []")
  case True
  then show ?thesis
    by (simp add: space_hold_def map_of_build_index ws_def rs_def peer_ahead_in_def unreadable_in_def list_all_iff)
next
  case False
  let ?init = "\<lparr>se_applied = [], se_byNet = []\<rparr> :: space_evidence"
  let ?se = "foldl (read_round broken) ?init ws"
  have ev0: "net_evidence_of ?init i = \<lparr>ne_evidence = [], ne_concludedFirst = [], ne_unknown = False\<rparr>" for i
    by (simp add: net_evidence_of_def)
  note ev = read_rounds_unknown [of broken ?init ws, unfolded ev0, simplified]
    read_rounds_concluded [of _ broken ?init ws, unfolded ev0, simplified]
    and more = read_rounds_evidence [of _ broken ?init ws, unfolded ev0, simplified] and ap = read_rounds_applied [of broken ?init ws, simplified]
  have first: "first_reason ?se peer nets = None \<longleftrightarrow> list_all (\<lambda>net. \<not> unreadable_in broken ws net \<and> \<not> peer_ahead_in rs peer net) nets"
    unfolding first_reason_None ev unreadable_in_def peer_ahead_in_def concluded_by_def rs_def list_all_iff list_ex_iff
      set_filter mem_Collect_eq Bex_def Ball_def by blast
  have open_in: "\<not> unanswered ?se peer net \<longleftrightarrow> list_all (\<lambda>w. answered_in rs peer (snd w) net) (filter (\<lambda>w. space_act_applied (snd w)) rs)" for net
  proof -
    have "(\<exists>x \<in> set (ne_evidence (net_evidence_of ?se (n_id net))). peer \<in> set (we_peers x) \<and> covers_types (we_types x) (types_of rd))
        \<longleftrightarrow> answered_in rs peer rd net" for rd
      unfolding Bex_def [of "set (ne_evidence E)" for E] more answered_in_def list_ex_iff concluded_by_def ex_image
      by (simp only: evidence_of_def wipe_evidence.select_convs rs_def set_filter mem_Collect_eq Bex_def) blast
    then have "unanswered ?se peer net \<longleftrightarrow> (\<exists>w \<in> set ws. \<not> broken (snd w) \<and> space_act_applied (snd w) \<and> \<not> answered_in rs peer (snd w) net)"
      unfolding unanswered_evidence ap by (simp add: Bex_def) blast
    then show ?thesis by (simp only: rs_def list_all_iff set_filter mem_Collect_eq) blast
  qed
  have none: "se_applied ?se = [] \<longleftrightarrow> filter (\<lambda>w. space_act_applied (snd w)) rs = []"
  proof -
    have "se_applied ?se = [] \<longleftrightarrow> set (se_applied ?se) = {}" by simp
    then show ?thesis unfolding ap by (auto simp: rs_def filter_empty_conv)
  qed
  have "map_of (build_index broken (g_networks cfg)) sp = Some ?se"
    using False by (simp add: map_of_build_index ws_def)
  from hold_by_index [OF this, of leavingFor peer netid] show ?thesis
    unfolding nets_def [symmetric] first open_in none
    by (cases "filter (\<lambda>w. space_act_applied (snd w)) rs") (auto simp: list_all_iff)
qed

section \<open>Lemmas: the verdicts and the declines\<close>

lemma sort_spaces_simps:
  "vd_exchange (sort_spaces declined hold sps v) = vd_exchange v @ filter (\<lambda>sp. \<not> declined sp \<and> hold sp = None) sps"
  "vd_held (sort_spaces declined hold sps v) = vd_held v @ map (\<lambda>sp. (sp, the (hold sp))) (filter (\<lambda>sp. \<not> declined sp \<and> hold sp \<noteq> None) sps)"
  "vd_declined (sort_spaces declined hold sps v) = vd_declined v @ filter declined sps"
  by (induction sps arbitrary: v) (auto split: option.split)

section \<open>What the theory promises\<close>

text \<open>
  Property C15: a space may be exchanged with a member exactly when no act stands for it here and, over
  the wipe rounds themselves and whatever the order they are held in: in no network the request is
  judged in is a wipe round of the space unreadable, or one still open here that the member has
  concluded; and every wipe of the space applied here, in any network, is answered in every network the
  request is judged in, of which there is one, by a wipe round the member concluded that covers its types.
\<close>

theorem exchange_open_iff:
  "space_hold leavingFor broken cfg sp peer netid = None \<longleftrightarrow>
     (let ws = wipes_of (g_networks cfg) sp;
          rs = filter (\<lambda>w. \<not> broken (snd w)) ws;
          nets = networks_judged (g_networks cfg) sp peer netid
      in space_act_stands leavingFor (act_config.truncate cfg) sp None None = None
         \<and> list_all (\<lambda>net. \<not> unreadable_in broken ws net \<and> \<not> peer_ahead_in rs peer net) nets
         \<and> list_all (\<lambda>w. nets \<noteq> [] \<and> list_all (answered_in rs peer (snd w)) nets) (filter (\<lambda>w. space_act_applied (snd w)) rs))"
  unfolding Let_def by (rule hold_of_rounds)

text \<open>
  The verdicts sort the spaces of a network into three, each space once and in order, and
  the question asked again before each exchange and each mark agrees with them: of the spaces of a
  network, those to exchange with a listed member are the ones \<open>mayExchangeNow\<close> lets through.
\<close>

theorem verdicts_agree:
  assumes "List.find (\<lambda>n. n_id n = n_id net) (g_networks cfg) = Some net" "member_of net (m_instanceId m) = Some m"
  shows "let v = exchange_verdicts leavingFor broken cfg net m
    in vd_exchange v = filter (may_exchange_now leavingFor broken cfg (n_id net) (m_instanceId m)) (n_spaces net)
       \<and> mset (vd_exchange v) + mset (map fst (vd_held v)) + mset (vd_declined v) = mset (n_spaces net)"
proof -
  have h1: "vd_exchange (exchange_verdicts leavingFor broken cfg net m)
      = filter (may_exchange_now leavingFor broken cfg (n_id net) (m_instanceId m)) (n_spaces net)"
    using assms by (auto simp: exchange_verdicts_def sort_spaces_simps may_exchange_now_def intro!: filter_cong split: if_splits)
  have h2: "mset (filter (\<lambda>x. \<not> d x \<and> h x = None) xs) + mset (filter (\<lambda>x. \<not> d x \<and> h x \<noteq> None) xs) + mset (filter d xs) = mset xs"
    for d :: "string \<Rightarrow> bool" and h :: "string \<Rightarrow> hold_reason option" and xs
    by (induction xs) auto
  have h3: "map fst (vd_held (exchange_verdicts leavingFor broken cfg net m)) =
      filter (\<lambda>sp. \<not> declined_by net m sp \<and> space_hold leavingFor broken cfg sp (m_instanceId m) (Some (n_id net)) \<noteq> None) (n_spaces net)"
    by (simp add: exchange_verdicts_def sort_spaces_simps comp_def)
  have h4: "vd_exchange (exchange_verdicts leavingFor broken cfg net m) =
      filter (\<lambda>sp. \<not> declined_by net m sp \<and> space_hold leavingFor broken cfg sp (m_instanceId m) (Some (n_id net)) = None) (n_spaces net)"
    "vd_declined (exchange_verdicts leavingFor broken cfg net m) = filter (declined_by net m) (n_spaces net)"
    by (simp_all add: exchange_verdicts_def sort_spaces_simps)
  show ?thesis unfolding Let_def by (rule conjI, rule h1, simp only: h3 h4, rule h2)
qed

definition demo_exchange :: space_config where
  "demo_exchange =
     (let rd = (demo_round Space_wipe ''r'' [])\<lparr>r_networkSpaceId := None, r_spaceId := Some ''s'', r_concluded := Some True,
            r_passed := Some True, r_appliedHere := Some True, r_peersConcluded := Some [''c'']\<rparr>;
          net = (demo_network Closed [demo_member ''b'' None None None, demo_member ''c'' None None None])
            \<lparr>n_spaces := [''s'', ''t''], n_pendingRounds := [rd]\<rparr>
      in demo_served\<lparr>g_networks := [net]\<rparr>)"

lemma exchange_open_iff_witness:
  "space_hold None (\<lambda>_. False) demo_exchange ''s'' ''c'' (Some ''net'') = None
   \<and> space_hold None (\<lambda>_. False) demo_exchange ''s'' ''b'' (Some ''net'') \<noteq> None"
  unfolding exchange_open_iff by code_simp

lemma verdicts_agree_witness:
  "vd_exchange (exchange_verdicts None (\<lambda>_. False) demo_exchange (hd (g_networks demo_exchange)) (demo_member ''b'' None None None))
     = filter (may_exchange_now None (\<lambda>_. False) demo_exchange ''net'' ''b'') [''s'', ''t'']"
proof -
  have "List.find (\<lambda>n. n_id n = n_id (hd (g_networks demo_exchange))) (g_networks demo_exchange) = Some (hd (g_networks demo_exchange))"
    "member_of (hd (g_networks demo_exchange)) (m_instanceId (demo_member ''b'' None None None)) = Some (demo_member ''b'' None None None)"
    by (simp_all add: demo_exchange_def Let_def demo_network_def demo_member_def member_of_def)
  from verdicts_agree [OF this, of None "\<lambda>_. False"] show ?thesis
    by (simp add: Let_def demo_exchange_def demo_network_def demo_member_def)
qed

end
