(* ===== verification/Position_Cursor.thy ===== *)
theory Position_Cursor
  imports Derived_Id "HOL-Library.List_Lexorder" "HOL-Library.Char_ord"
begin

text \<open>
  The cursor of a page read by position (\<open>server/src/util/position-keyset.ts\<close>): the text a cursor is
  handed out as, what a text is read back to, and the order of two starts; and the start a sync door
  reads from a request (\<open>syncPositionStart\<close> of \<open>server/src/api/sync/_shared.ts\<close>).  A text is the bytes
  of an ASCII text; base64url is modelled on its bits, and SHA-256 is the argument \<open>digest\<close>.  The main
  lemma is the round trip: a cursor is read back as the start it was made from, or as its digest where
  the id is too long to carry.
\<close>

section \<open>base64url\<close>

definition BASE64URL :: string where
  "BASE64URL = ''ABCDEFGHIJKLMNOPQRSTUVWXYZabcdefghijklmnopqrstuvwxyz0123456789-_''"

definition bits_of_width :: "nat \<Rightarrow> nat \<Rightarrow> bool list" where
  "bits_of_width k v = map (\<lambda>i. odd (v div 2 ^ i)) (rev [0..<k])"

definition value_of_bits :: "bool list \<Rightarrow> nat" where
  "value_of_bits bs = foldl (\<lambda>n b. 2 * n + (if b then 1 else 0)) 0 bs"

definition chunks_of_bits :: "nat \<Rightarrow> bool list \<Rightarrow> nat list" where
  "chunks_of_bits k bs = map (\<lambda>i. value_of_bits (take k (drop (k * i) bs))) [0..<length bs div k]"

definition text_bits :: "string \<Rightarrow> bool list" where
  "text_bits s = concat (map (\<lambda>c. bits_of_width 8 (of_char c)) s)"

text \<open>\<open>Buffer.from(text).toString('base64url')\<close>: no padding, the last character filled with zero bits.\<close>

definition to_base64url :: "string \<Rightarrow> string" where
  "to_base64url s =
     (let bs = text_bits s
      in map ((!) BASE64URL) (chunks_of_bits 6 (bs @ replicate ((6 - length bs mod 6) mod 6) False)))"

text \<open>\<open>Buffer.from(body, 'base64url').toString()\<close> of characters of the alphabet: left-over bits go.\<close>

definition base64url_bits :: "string \<Rightarrow> bool list" where
  "base64url_bits t =
     concat (map (\<lambda>c. case find_index (\<lambda>x. x = c) BASE64URL of None \<Rightarrow> [] | Some v \<Rightarrow> bits_of_width 6 v) t)"

definition from_base64url :: "string \<Rightarrow> string" where
  "from_base64url t = map char_of (chunks_of_bits 8 (base64url_bits t))"

section \<open>Starts\<close>

record position_start =
  st_pos :: int
  st_id :: "string option"
  st_idDigest :: "string option"

definition MAX_CURSOR_ID_LENGTH :: nat where "MAX_CURSOR_ID_LENGTH = 1024"

definition POSITION_CURSOR_PREFIX :: string where "POSITION_CURSOR_PREFIX = ''p1.''"

definition is_position_number :: "int \<Rightarrow> bool" where
  "is_position_number v \<longleftrightarrow> 0 \<le> v \<and> v \<le> 2 ^ 53 - 1"

definition parse_position_text :: "string \<Rightarrow> int option" where
  "parse_position_text s =
     (if 1 \<le> length s \<and> length s \<le> 16 \<and> list_all is_digit s
      then let n = int (decimal s) in if is_position_number n then Some n else None
      else None)"

definition cursor_can_name_id :: "string option \<Rightarrow> bool" where
  "cursor_can_name_id i = (case i of None \<Rightarrow> False | Some s \<Rightarrow> s \<noteq> [] \<and> length s \<le> MAX_CURSOR_ID_LENGTH)"

text \<open>A position that is not one throws: \<open>None\<close>.\<close>

definition cursor_text :: "(string \<Rightarrow> string) \<Rightarrow> int \<Rightarrow> string option \<Rightarrow> string" where
  "cursor_text digest pos i =
     (if cursor_can_name_id i then int_text pos @ CHR '':'' # the i
      else if truthy_str i then int_text pos @ CHR ''~'' # digest (the i)
      else int_text pos)"

definition encode_position_cursor :: "(string \<Rightarrow> string) \<Rightarrow> int \<Rightarrow> string option \<Rightarrow> string option" where
  "encode_position_cursor digest pos i =
     (if \<not> is_position_number pos then None
      else Some (POSITION_CURSOR_PREFIX @ to_base64url (cursor_text digest pos i)))"

text \<open>\<open>/^[A-Za-z0-9_-]+={0,2}$/\<close>, and the characters before the padding.\<close>

definition unpadded :: "string \<Rightarrow> string" where
  "unpadded body = rev (dropWhile (\<lambda>c. c = CHR ''='') (rev body))"

definition cursor_body_ok :: "string \<Rightarrow> bool" where
  "cursor_body_ok body \<longleftrightarrow> unpadded body \<noteq> [] \<and> list_all (\<lambda>c. c \<in> set BASE64URL) (unpadded body)
     \<and> length body - length (unpadded body) \<le> 2"

definition is_hex_lower :: "char \<Rightarrow> bool" where
  "is_hex_lower c \<longleftrightarrow> c \<in> set ''0123456789abcdef''"

text \<open>\<open>/^(\d{1,16})~([0-9a-f]{64})$/\<close>: no digit is a \<open>~\<close>, so the text is split at its first one.\<close>

definition digest_parts :: "string \<Rightarrow> (string \<times> string) option" where
  "digest_parts text =
     (let d = takeWhile (\<lambda>c. c \<noteq> CHR ''~'') text; r = dropWhile (\<lambda>c. c \<noteq> CHR ''~'') text in
      if r \<noteq> [] \<and> 1 \<le> length d \<and> length d \<le> 16 \<and> list_all is_digit d
         \<and> length (tl r) = 64 \<and> list_all is_hex_lower (tl r)
      then Some (d, tl r) else None)"

definition read_cursor_text :: "string \<Rightarrow> position_start option" where
  "read_cursor_text text =
     (case digest_parts text of
        Some (d, h) \<Rightarrow> map_option (\<lambda>p. \<lparr>st_pos = p, st_id = None, st_idDigest = Some h\<rparr>) (parse_position_text d)
      | None \<Rightarrow>
          let d = takeWhile (\<lambda>c. c \<noteq> CHR '':'') text; r = dropWhile (\<lambda>c. c \<noteq> CHR '':'') text in
          (case parse_position_text d of
             None \<Rightarrow> None
           | Some p \<Rightarrow>
               if r = [] then Some \<lparr>st_pos = p, st_id = None, st_idDigest = None\<rparr>
               else if tl r = [] \<or> MAX_CURSOR_ID_LENGTH < length (tl r) then None
               else Some \<lparr>st_pos = p, st_id = Some (tl r), st_idDigest = None\<rparr>))"

definition decode_position_cursor :: "string \<Rightarrow> position_start option" where
  "decode_position_cursor cursor =
     (if take 3 cursor \<noteq> POSITION_CURSOR_PREFIX then None
      else let body = drop 3 cursor in
           if cursor_body_ok body then read_cursor_text (from_base64url (unpadded body)) else None)"

text \<open>By position, then by id as bytes; a digest orders only against its own row.\<close>

definition compare_position_starts :: "(string \<Rightarrow> string) \<Rightarrow> position_start \<Rightarrow> position_start \<Rightarrow> int" where
  "compare_position_starts digest a b =
     (if st_pos a \<noteq> st_pos b then (if st_pos a < st_pos b then -1 else 1)
      else if st_idDigest a \<noteq> None \<or> st_idDigest b \<noteq> None then
        (let da = (case st_idDigest a of Some d \<Rightarrow> Some d | None \<Rightarrow> map_option digest (st_id a));
             db = (case st_idDigest b of Some d \<Rightarrow> Some d | None \<Rightarrow> map_option digest (st_id b))
         in if da = None then -1 else if db = None then 1 else if da = db then 0 else 1)
      else if st_id a = st_id b then 0
      else (case (st_id a, st_id b) of
              (None, _) \<Rightarrow> -1
            | (_, None) \<Rightarrow> 1
            | (Some x, Some y) \<Rightarrow> if x < y then -1 else if x = y then 0 else 1))"

text \<open>The start a request names: a refusal (\<open>None\<close>), the cursor, or \<open>afterPos\<close>.\<close>

definition sync_position_start :: "bool \<Rightarrow> string option \<Rightarrow> string option \<Rightarrow> position_start option" where
  "sync_position_start since_seq cursor after_pos =
     (if since_seq then None
      else if truthy_str cursor then decode_position_cursor (the cursor)
      else case after_pos of
             None \<Rightarrow> Some \<lparr>st_pos = 0, st_id = None, st_idDigest = None\<rparr>
           | Some t \<Rightarrow> map_option (\<lambda>p. \<lparr>st_pos = p, st_id = None, st_idDigest = None\<rparr>) (parse_position_text t))"

section \<open>Lemmas: bits\<close>

lemma length_bits_of_width [simp]: "length (bits_of_width k v) = k"
  by (simp add: bits_of_width_def)

lemma bits_of_width_Suc: "bits_of_width (Suc k) v = bits_of_width k (v div 2) @ [odd v]"
proof -
  have "rev [0..<Suc k] = map Suc (rev [0..<k]) @ [0]"
    by (simp add: rev_map [symmetric] map_Suc_upt upt_conv_Cons del: upt_Suc)
  then show ?thesis
    by (simp add: bits_of_width_def div_mult2_eq del: upt_Suc)
qed

lemma value_append: "value_of_bits (bs @ [b]) = 2 * value_of_bits bs + (if b then 1 else 0)"
  by (simp add: value_of_bits_def)

lemma value_of_bits_of_width: "v < 2 ^ k \<Longrightarrow> value_of_bits (bits_of_width k v) = v"
proof (induction k arbitrary: v)
  case 0
  then show ?case by (simp add: value_of_bits_def bits_of_width_def)
next
  case (Suc k)
  then have "v div 2 < 2 ^ k" by auto
  from Suc.IH [OF this] show ?case by (simp add: bits_of_width_Suc value_append)
qed

lemma value_less: "value_of_bits bs < 2 ^ length bs"
  by (induction bs rule: rev_induct) (auto simp: value_append, simp add: value_of_bits_def)

lemma bits_of_value: "bits_of_width (length bs) (value_of_bits bs) = bs"
proof (induction bs rule: rev_induct)
  case Nil
  then show ?case by (simp add: bits_of_width_def)
next
  case (snoc b bs)
  have "(2 * value_of_bits bs + (if b then 1 else 0)) div 2 = value_of_bits bs" by simp
  then show ?case using snoc by (simp add: bits_of_width_Suc value_append)
qed

lemma chunks_Nil [simp]: "chunks_of_bits k [] = []"
  by (simp add: chunks_of_bits_def)

lemma chunks_append:
  assumes "length b = k" "0 < k"
  shows "chunks_of_bits k (b @ bs) = value_of_bits b # chunks_of_bits k bs"
proof -
  have "length (b @ bs) div k = Suc (length bs div k)" using assms by simp
  then show ?thesis
    using assms by (simp add: chunks_of_bits_def upt_conv_Cons map_Suc_upt [symmetric] comp_def del: upt_Suc)
qed

lemma chunks_concat:
  assumes "0 < k" "length e < k"
  shows "chunks_of_bits k (concat (map (bits_of_width k) vs) @ e) = map (\<lambda>v. value_of_bits (bits_of_width k v)) vs"
proof (induction vs)
  case Nil
  then show ?case using assms by (simp add: chunks_of_bits_def)
next
  case (Cons v vs)
  then show ?case using assms chunks_append [of "bits_of_width k v" k] by simp
qed

lemma concat_chunks:
  assumes "0 < k" "k dvd length bs"
  shows "concat (map (bits_of_width k) (chunks_of_bits k bs)) = bs"
  using assms
proof (induction "length bs" arbitrary: bs rule: less_induct)
  case less
  show ?case
  proof (cases "bs = []")
    case False
    with less.prems have "k \<le> length bs" by (auto dest: dvd_imp_le)
    then have split: "bs = take k bs @ drop k bs" "length (take k bs) = k" by auto
    have "k dvd length (drop k bs)" using less.prems(2) \<open>k \<le> length bs\<close> by (simp add: dvd_diff_nat)
    with less.hyps [of "drop k bs"] less.prems(1) False
    have ih: "concat (map (bits_of_width k) (chunks_of_bits k (drop k bs))) = drop k bs" by simp
    have "bits_of_width k (value_of_bits (take k bs)) = take k bs"
      using bits_of_value [of "take k bs"] split(2) by simp
    then have "concat (map (bits_of_width k) (chunks_of_bits k (take k bs @ drop k bs))) = take k bs @ drop k bs"
      using ih chunks_append [OF split(2) less.prems(1)] by (simp del: append_take_drop_id)
    then show ?thesis by simp
  qed simp
qed

lemma find_index_nth: "distinct xs \<Longrightarrow> v < length xs \<Longrightarrow> find_index (\<lambda>x. x = xs ! v) xs = Some v"
proof (induction xs arbitrary: v)
  case (Cons a xs)
  then show ?case by (cases v) auto
qed simp

lemma base64url_index: "v < 64 \<Longrightarrow> find_index (\<lambda>x. x = BASE64URL ! v) BASE64URL = Some v"
  by (rule find_index_nth) (simp_all add: BASE64URL_def)

lemma base64url_bits_map:
  "list_all (\<lambda>v. v < 64) vs \<Longrightarrow> base64url_bits (map ((!) BASE64URL) vs) = concat (map (bits_of_width 6) vs)"
  by (induction vs) (simp_all add: base64url_bits_def base64url_index)

lemma chunks_less: "0 < k \<Longrightarrow> list_all (\<lambda>v. v < 2 ^ k) (chunks_of_bits k bs)"
proof -
  have "value_of_bits (take k xs) < 2 ^ k" for xs
  proof -
    have "value_of_bits (take k xs) < 2 ^ length (take k xs)" by (rule value_less)
    also have "\<dots> \<le> 2 ^ k" by (rule power_increasing) simp_all
    finally show ?thesis .
  qed
  then show ?thesis by (simp add: chunks_of_bits_def list_all_iff)
qed

lemma length_text_bits [simp]: "length (text_bits s) = 8 * length s"
  by (induction s) (simp_all add: text_bits_def)

lemma of_char_less: "(of_char (c :: char) :: nat) < 2 ^ 8"
  using nat_of_char_less_256 [of c] by simp

lemma chunks_text_bits:
  assumes "length e < 8"
  shows "map char_of (chunks_of_bits 8 (text_bits s @ e)) = s"
proof -
  have "text_bits s = concat (map (bits_of_width 8) (map of_char s))" by (simp add: text_bits_def comp_def)
  then show ?thesis
    using chunks_concat [of 8 e "map of_char s"] assms
    by (simp add: comp_def value_of_bits_of_width [OF of_char_less, simplified])
qed

lemma pad_to_six: "6 dvd (m :: nat) + (6 - m mod 6) mod 6"
proof -
  obtain q r where m: "m = 6 * q + r" "r < 6"
    by (metis mult_div_mod_eq mod_less_divisor zero_less_numeral)
  then have "m + (6 - m mod 6) mod 6 = (if r = 0 then 6 * q else 6 * (q + 1))" by simp
  then show ?thesis by (metis dvd_triv_left)
qed

lemma base64url_roundtrip: "from_base64url (to_base64url s) = s"
proof -
  let ?e = "replicate ((6 - length (text_bits s) mod 6) mod 6) False"
  let ?vs = "chunks_of_bits 6 (text_bits s @ ?e)"
  have d: "6 dvd length (text_bits s @ ?e)" using pad_to_six [of "length (text_bits s)"] by simp
  have "list_all (\<lambda>v. v < 64) ?vs" using chunks_less [of 6 "text_bits s @ ?e"] by simp
  then have "base64url_bits (to_base64url s) = text_bits s @ ?e"
    using concat_chunks [OF _ d] by (simp add: to_base64url_def Let_def base64url_bits_map)
  moreover have "length ?e < 8" by simp
  ultimately show ?thesis by (simp add: from_base64url_def chunks_text_bits)
qed

lemma to_base64url_chars: "list_all (\<lambda>c. c \<in> set BASE64URL) (to_base64url s)"
proof -
  have "BASE64URL ! v \<in> set BASE64URL" if "v < 64" for v
    using that by (intro nth_mem) (simp add: BASE64URL_def)
  then show ?thesis
    using chunks_less [of 6 "text_bits s @ replicate ((6 - length (text_bits s) mod 6) mod 6) False"]
    by (simp add: to_base64url_def Let_def list_all_iff)
qed

lemma to_base64url_nonempty: "s \<noteq> [] \<Longrightarrow> to_base64url s \<noteq> []"
  using base64url_roundtrip [of s] by (auto simp: from_base64url_def base64url_bits_def)

section \<open>Lemmas: the text of a cursor\<close>

lemma digits_decimal: "list_all is_digit (decimal_text n)"
proof (induction n rule: less_induct)
  case (less n)
  have d: "is_digit (digit_char k)" if "k < 10" for k
    using that by (simp add: is_digit_def of_digit_char)
  show ?case
  proof (cases "n < 10")
    case True
    then show ?thesis using d by (simp add: decimal_text.simps [of n])
  next
    case False
    then have "n div 10 < n" "n mod 10 < 10" by auto
    with less.IH [of "n div 10"] False d show ?thesis by (simp add: decimal_text.simps [of n])
  qed
qed

lemma length_decimal: "n < 10 ^ Suc k \<Longrightarrow> length (decimal_text n) \<le> Suc k"
proof (induction k arbitrary: n)
  case 0
  then show ?case by (simp add: decimal_text.simps [of n])
next
  case (Suc k)
  show ?case
  proof (cases "n < 10")
    case False
    from Suc.prems have "n div 10 < 10 ^ Suc k" by (simp add: less_mult_imp_div_less)
    from Suc.IH [OF this] False show ?thesis by (simp add: decimal_text.simps [of n])
  qed (simp add: decimal_text.simps [of n])
qed

lemma decimal_nonempty: "decimal_text n \<noteq> []"
  by (simp add: decimal_text.simps [of n])

lemma parse_int_text: "is_position_number p \<Longrightarrow> parse_position_text (int_text p) = Some p"
proof -
  assume p: "is_position_number p"
  then have "nat p < 10 ^ Suc 15" by (simp add: is_position_number_def nat_less_iff)
  from length_decimal [OF this] have "length (decimal_text (nat p)) \<le> 16" by simp
  moreover have "1 \<le> length (decimal_text (nat p))" using decimal_nonempty [of "nat p"] by (simp add: Suc_le_eq)
  moreover have "int_text p = decimal_text (nat p)" using p by (simp add: int_text_def is_position_number_def)
  ultimately show ?thesis
    using p digits_decimal [of "nat p"]
    by (simp add: parse_position_text_def Let_def decimal_decimal_text is_position_number_def)
qed

lemma int_text_digits: "is_position_number p \<Longrightarrow> list_all is_digit (int_text p)"
  by (simp add: int_text_def is_position_number_def digits_decimal)

lemma digit_not: "is_digit c \<Longrightarrow> c \<noteq> CHR '':'' \<and> c \<noteq> CHR ''~''"
  by (auto simp: is_digit_def)

lemma take_until: "list_all P xs \<Longrightarrow> \<not> P c \<Longrightarrow> takeWhile P (xs @ c # ys) = xs \<and> dropWhile P (xs @ c # ys) = c # ys"
  by (induction xs) auto

lemma digits_until:
  "list_all is_digit d \<Longrightarrow> c \<in> {CHR '':'', CHR ''~''} \<Longrightarrow>
     takeWhile (\<lambda>x. x \<noteq> c) (d @ c # t) = d \<and> dropWhile (\<lambda>x. x \<noteq> c) (d @ c # t) = c # t"
  by (rule take_until) (auto simp: list_all_iff dest: digit_not)

text \<open>Digits followed by a colon are never digits followed by a \<open>~\<close>.\<close>

lemma digest_parts_colon: "list_all is_digit d \<Longrightarrow> digest_parts (d @ CHR '':'' # t) = None"
proof -
  assume d: "list_all is_digit d"
  have "takeWhile (\<lambda>x. x \<noteq> CHR ''~'') (d @ CHR '':'' # t) = d @ CHR '':'' # takeWhile (\<lambda>x. x \<noteq> CHR ''~'') t"
    using d by (induction d) (auto dest: digit_not)
  moreover have "\<not> is_digit (CHR '':'')" by (simp add: is_digit_def)
  ultimately show ?thesis by (simp add: digest_parts_def Let_def)
qed

lemma digest_parts_plain: "list_all is_digit d \<Longrightarrow> digest_parts d = None"
proof -
  assume "list_all is_digit d"
  then have "dropWhile (\<lambda>x. x \<noteq> CHR ''~'') d = []" by (auto simp: list_all_iff dropWhile_eq_Nil_conv dest: digit_not)
  then show ?thesis by (simp add: digest_parts_def)
qed

lemma plain_until: "list_all is_digit d \<Longrightarrow> takeWhile (\<lambda>x. x \<noteq> CHR '':'') d = d \<and> dropWhile (\<lambda>x. x \<noteq> CHR '':'') d = []"
  by (induction d) (auto dest: digit_not)

text \<open>The start a cursor stands for.\<close>

definition named_start :: "(string \<Rightarrow> string) \<Rightarrow> int \<Rightarrow> string option \<Rightarrow> position_start" where
  "named_start digest pos i =
     (if cursor_can_name_id i then \<lparr>st_pos = pos, st_id = i, st_idDigest = None\<rparr>
      else if truthy_str i then \<lparr>st_pos = pos, st_id = None, st_idDigest = Some (digest (the i))\<rparr>
      else \<lparr>st_pos = pos, st_id = None, st_idDigest = None\<rparr>)"

definition is_digest :: "(string \<Rightarrow> string) \<Rightarrow> bool" where
  "is_digest digest \<longleftrightarrow> (\<forall>s. length (digest s) = 64 \<and> list_all is_hex_lower (digest s))"

lemma read_cursor_text_of:
  assumes "is_position_number pos" "is_digest digest"
  shows "read_cursor_text (cursor_text digest pos i) = Some (named_start digest pos i)"
proof -
  note d = int_text_digits [OF assms(1)] and p = parse_int_text [OF assms(1)]
  have n: "length (int_text pos) \<le> 16" "1 \<le> length (int_text pos)"
    using p by (auto simp: parse_position_text_def split: if_splits)
  consider (id) "cursor_can_name_id i" | (long) "\<not> cursor_can_name_id i" "truthy_str i"
    | (none) "\<not> cursor_can_name_id i" "\<not> truthy_str i" by blast
  then show ?thesis
  proof cases
    case id
    then obtain s where s: "i = Some s" "s \<noteq> []" "length s \<le> MAX_CURSOR_ID_LENGTH"
      by (auto simp: cursor_can_name_id_def split: option.splits)
    with id digits_until [OF d, of "CHR '':''" s] digest_parts_colon [OF d] p show ?thesis
      by (simp add: cursor_text_def read_cursor_text_def named_start_def Let_def)
  next
    case long
    have h: "length (digest (the i)) = 64" "list_all is_hex_lower (digest (the i))"
      using assms(2) by (simp_all add: is_digest_def)
    with long digits_until [OF d, of "CHR ''~''" "digest (the i)"] p d n show ?thesis
      by (simp add: cursor_text_def read_cursor_text_def digest_parts_def named_start_def Let_def)
  next
    case none
    with digest_parts_plain [OF d] p show ?thesis
      by (simp add: cursor_text_def read_cursor_text_def named_start_def Let_def plain_until [OF d, THEN conjunct1]
          plain_until [OF d, THEN conjunct2])
  qed
qed

lemma unpadded_plain: "list_all (\<lambda>c. c \<in> set BASE64URL) t \<Longrightarrow> unpadded t = t"
proof (cases t rule: rev_cases)
  case (snoc xs x)
  assume t: "list_all (\<lambda>c. c \<in> set BASE64URL) t"
  have "CHR ''='' \<notin> set BASE64URL" by (simp add: BASE64URL_def)
  with t snoc have "x \<noteq> CHR ''=''" by auto
  with snoc show ?thesis by (simp add: unpadded_def)
qed (simp add: unpadded_def)

lemma cursor_text_nonempty: "is_position_number pos \<Longrightarrow> cursor_text digest pos i \<noteq> []"
  using parse_int_text [of pos] by (auto simp: cursor_text_def parse_position_text_def)

lemma encode_decode:
  assumes "is_position_number pos" "is_digest digest"
  shows "Option.bind (encode_position_cursor digest pos i) decode_position_cursor = Some (named_start digest pos i)"
proof -
  let ?t = "to_base64url (cursor_text digest pos i)"
  have "cursor_body_ok ?t" "unpadded ?t = ?t"
    using to_base64url_chars unpadded_plain [OF to_base64url_chars] to_base64url_nonempty cursor_text_nonempty [OF assms(1)]
    by (simp_all add: cursor_body_ok_def)
  then show ?thesis
    using assms read_cursor_text_of [OF assms]
    by (simp add: encode_position_cursor_def decode_position_cursor_def POSITION_CURSOR_PREFIX_def base64url_roundtrip)
qed

text \<open>
  Property C29: a cursor is read back as the start it was made from: the position with its id, with the
  digest of an id too long to carry, or alone where there is no id; and a door handed that cursor starts
  its page there.
\<close>

theorem cursor_roundtrip:
  assumes "is_position_number pos" "is_digest digest"
  shows "Option.bind (encode_position_cursor digest pos i) (\<lambda>cur. sync_position_start False (Some cur) after_pos)
     = Some (if cursor_can_name_id i then \<lparr>st_pos = pos, st_id = i, st_idDigest = None\<rparr>
             else if truthy_str i then \<lparr>st_pos = pos, st_id = None, st_idDigest = Some (digest (the i))\<rparr>
             else \<lparr>st_pos = pos, st_id = None, st_idDigest = None\<rparr>)"
proof -
  obtain cur where cur: "encode_position_cursor digest pos i = Some cur" "cur \<noteq> []"
    using assms(1) by (auto simp: encode_position_cursor_def POSITION_CURSOR_PREFIX_def)
  have "decode_position_cursor cur = Some (named_start digest pos i)"
    using encode_decode [OF assms, of i] cur(1) by simp
  with cur show ?thesis by (simp add: sync_position_start_def named_start_def)
qed

definition demo_digest :: "string \<Rightarrow> string" where
  "demo_digest s = replicate 64 (if s = ''a'' then CHR ''a'' else CHR ''b'')"

theorem cursor_roundtrip_witness:
  "Option.bind (encode_position_cursor demo_digest 1200000000000003 (Some ''docs/a:b.md''))
       (\<lambda>cur. sync_position_start False (Some cur) None)
     = Some \<lparr>st_pos = 1200000000000003, st_id = Some ''docs/a:b.md'', st_idDigest = None\<rparr>"
proof -
  have "is_digest demo_digest" by (simp add: is_digest_def demo_digest_def is_hex_lower_def list_all_iff)
  from cursor_roundtrip [OF _ this, of 1200000000000003 "Some ''docs/a:b.md''" None] show ?thesis
    by (simp add: is_position_number_def cursor_can_name_id_def MAX_CURSOR_ID_LENGTH_def)
qed

end
