(* ===== verification/Position_Pages.thy ===== *)
theory Position_Pages
  imports Position_Cursor
begin

text \<open>
  How the records of a space travel page by page: the read after a position
  (\<open>readAfterPosition\<close> of \<open>server/src/util/position-keyset.ts\<close>, \<open>tieThenRange\<close> of \<open>seq-keyset.ts\<close>), the answer a
  sync door gives (\<open>server/src/sync/wire-answer.ts\<close>, \<open>pageByPosition\<close> of \<open>api/sync/docs.ts\<close>), the loops that pull and push pages
  (\<open>sync/position-run-pager.ts\<close>, \<open>sync/push-position-runs.ts\<close>) and how far a mark shared by several
  transfers may move (\<open>sync/watermark.ts\<close>, \<open>sync/arrival-stop.ts\<close>).  A collection is the list of its rows at
  the instant a find runs; the finds of one request run one after the other, so each has its own.  What the other
  side answers, when shutdown begins and what a landed page throws are functions of the page's number.
  The lemmas show that whatever a loop reports complete has been delivered, row by row.
\<close>

section \<open>A read after a position\<close>

record 'b positioned_row =
  pr_id :: string
  pr_pos :: int
  pr_body :: 'b

type_synonym 'b rows = "'b positioned_row list"

definition row_key :: "'b positioned_row \<Rightarrow> int \<times> string" where
  "row_key r = (pr_pos r, pr_id r)"

definition key_le :: "'b positioned_row \<Rightarrow> 'b positioned_row \<Rightarrow> bool" where
  "key_le a b \<longleftrightarrow> pr_pos a < pr_pos b \<or> pr_pos a = pr_pos b \<and> pr_id a \<le> pr_id b"

fun insert_row :: "'b positioned_row \<Rightarrow> 'b rows \<Rightarrow> 'b rows" where
  "insert_row r [] = [r]"
| "insert_row r (x # xs) = (if key_le r x then r # x # xs else x # insert_row r xs)"

text \<open>\<open>.find(p).sort({ pos: 1, _id: 1 }).limit(n)\<close>.\<close>

definition sorted_rows :: "'b rows \<Rightarrow> 'b rows" where
  "sorted_rows xs = foldr insert_row xs []"

definition find_rows :: "'b rows \<Rightarrow> ('b positioned_row \<Rightarrow> bool) \<Rightarrow> nat \<Rightarrow> 'b rows" where
  "find_rows store p n = take n (sorted_rows (filter p store))"

definition position_keyset_filters ::
  "position_start \<Rightarrow> int \<Rightarrow> ('b positioned_row \<Rightarrow> bool)
     \<Rightarrow> ('b positioned_row \<Rightarrow> bool) option \<times> ('b positioned_row \<Rightarrow> bool)" where
  "position_keyset_filters after cap extra =
     (case st_id after of
        Some i \<Rightarrow> if st_pos after < cap then Some (\<lambda>r. pr_pos r = st_pos after \<and> i < pr_id r \<and> extra r) else None
      | None \<Rightarrow> None,
      \<lambda>r. st_pos after < pr_pos r \<and> pr_pos r < cap \<and> extra r)"

definition tie_then_range ::
  "(('b positioned_row \<Rightarrow> bool) \<Rightarrow> nat \<Rightarrow> 'b rows) \<Rightarrow> (('b positioned_row \<Rightarrow> bool) \<Rightarrow> nat \<Rightarrow> 'b rows)
     \<Rightarrow> ('b positioned_row \<Rightarrow> bool) option \<Rightarrow> ('b positioned_row \<Rightarrow> bool) \<Rightarrow> nat \<Rightarrow> 'b rows" where
  "tie_then_range read_tie read_range tie rest limit =
     (let ties = (case tie of None \<Rightarrow> [] | Some p \<Rightarrow> read_tie p limit)
      in if limit \<le> length ties then ties else ties @ read_range rest (limit - length ties))"

text \<open>A start that names its row by a digest: the row of its run with that digest, or the run again.\<close>

definition resolve_digest_start :: "(string \<Rightarrow> string) \<Rightarrow> 'b rows \<Rightarrow> position_start \<Rightarrow> position_start" where
  "resolve_digest_start digest store after =
     (case st_idDigest after of
        None \<Rightarrow> after
      | Some d \<Rightarrow>
          (case List.find (\<lambda>r. digest (pr_id r) = d) (sorted_rows (filter (\<lambda>r. pr_pos r = st_pos after) store)) of
             Some r \<Rightarrow> \<lparr>st_pos = st_pos after, st_id = Some (pr_id r), st_idDigest = None\<rparr>
           | None \<Rightarrow> \<lparr>st_pos = max 0 (st_pos after - 1), st_id = None, st_idDigest = None\<rparr>))"

text \<open>
  What one request sees: whether the space's positions are ready, the collection at each of its finds,
  and the settled cap, read before the two finds of the page.  A space that is not ready throws: \<open>None\<close>.
\<close>

record 'b snapshot =
  sn_ready :: bool
  sn_resolve :: "'b rows"
  sn_cap :: int
  sn_tie :: "'b rows"
  sn_range :: "'b rows"

definition read_after_position ::
  "(string \<Rightarrow> string) \<Rightarrow> 'b snapshot \<Rightarrow> position_start \<Rightarrow> nat \<Rightarrow> ('b positioned_row \<Rightarrow> bool)
     \<Rightarrow> ('b rows \<times> int) option" where
  "read_after_position digest sn after limit extra =
     (if \<not> sn_ready sn then None
      else
        let start = resolve_digest_start digest (sn_resolve sn) after;
            (tie, rest) = position_keyset_filters start (sn_cap sn) extra
        in Some (tie_then_range (find_rows (sn_tie sn)) (find_rows (sn_range sn)) tie rest limit, sn_cap sn))"

section \<open>The answer\<close>

definition complete_through :: "int \<Rightarrow> bool \<Rightarrow> int" where
  "complete_through pos run_may_continue = (if run_may_continue then max 0 (pos - 1) else pos)"

fun cut_back :: "(nat \<Rightarrow> bool) \<Rightarrow> nat \<Rightarrow> nat" where
  "cut_back stuck 0 = 0"
| "cut_back stuck (Suc n) = (if 0 < n \<and> stuck (Suc n) then cut_back stuck n else Suc n)"

definition page_end :: "'b rows \<Rightarrow> nat \<Rightarrow> nat" where
  "page_end xs page_size =
     (if length xs \<le> page_size then page_size
      else let nxt = xs ! page_size;
               stuck = (\<lambda>e. pr_pos (xs ! (e - 1)) = pr_pos nxt \<and> \<not> cursor_can_name_id (Some (pr_id (xs ! (e - 1)))));
               e = cut_back stuck page_size
           in if stuck e then page_size else e)"

text \<open>An item is the row without its position.  The cursor of a page that cannot be made throws: \<open>None\<close>.\<close>

record 'b page_answer =
  pa_items :: "(string \<times> 'b) list"
  pa_nextCursor :: "string option"
  pa_through :: int
  pa_head :: int

definition item_of :: "'b positioned_row \<Rightarrow> string \<times> 'b" where
  "item_of r = (pr_id r, pr_body r)"

definition page_answer :: "(string \<Rightarrow> string) \<Rightarrow> 'b rows \<times> int \<Rightarrow> nat \<Rightarrow> 'b page_answer option" where
  "page_answer digest rd page_size =
     (let (xs, cap) = rd;
          more = page_size < length xs;
          page = (if more then take (page_end xs page_size) xs else xs)
      in if more \<and> page \<noteq> [] then
           map_option (\<lambda>cur. \<lparr>pa_items = map item_of page, pa_nextCursor = Some cur,
               pa_through = complete_through (pr_pos (List.last page)) True, pa_head = max 0 (cap - 1)\<rparr>)
             (encode_position_cursor digest (pr_pos (List.last page)) (Some (pr_id (List.last page))))
         else Some \<lparr>pa_items = map item_of page, pa_nextCursor = None,
                pa_through = max 0 (cap - 1), pa_head = max 0 (cap - 1)\<rparr>)"

text \<open>
  A body as it arrives: a field is \<open>None\<close> where it is absent or of another type, and \<open>raw_positions\<close> says
  whether \<open>positions\<close> is exactly 1.  A body without the shape throws \<open>PeerPagesBySeq\<close>: \<open>None\<close>.
\<close>

record 'b raw_page =
  raw_positions :: bool
  raw_items :: "(string \<times> 'b) list option"
  raw_through :: "int option"
  raw_head :: "int option"
  raw_nextCursor :: "string option"

definition is_position_field :: "int option \<Rightarrow> bool" where
  "is_position_field v \<longleftrightarrow> (case v of None \<Rightarrow> False | Some n \<Rightarrow> is_position_number n)"

definition parse_page_answer :: "'b raw_page option \<Rightarrow> 'b page_answer option" where
  "parse_page_answer json =
     (case json of
        None \<Rightarrow> None
      | Some b \<Rightarrow>
          if \<not> raw_positions b \<or> raw_items b = None \<or> \<not> is_position_field (raw_through b) \<or> \<not> is_position_field (raw_head b)
          then None
          else Some \<lparr>pa_items = the (raw_items b), pa_nextCursor = raw_nextCursor b,
                 pa_through = the (raw_through b), pa_head = the (raw_head b)\<rparr>)"

text \<open>What \<open>res.json\<close> makes of an answer.\<close>

definition on_the_wire :: "'b page_answer \<Rightarrow> 'b raw_page" where
  "on_the_wire a = \<lparr>raw_positions = True, raw_items = Some (pa_items a), raw_through = Some (pa_through a),
     raw_head = Some (pa_head a), raw_nextCursor = pa_nextCursor a\<rparr>"

section \<open>What a transfer vouches for\<close>

datatype transfer_stop = Cap | Held | Local_fault | Closing | Error_stop

record transfer_outcome =
  deliveredThrough :: int
  truncated :: bool
  stoppedBy :: "transfer_stop option"
  storeDown :: bool

definition stop_transfer :: "transfer_outcome \<Rightarrow> transfer_stop \<Rightarrow> transfer_outcome" where
  "stop_transfer o1 why = o1\<lparr>truncated := True,
     stoppedBy := (if why = Error_stop \<and> stoppedBy o1 \<noteq> None \<and> stoppedBy o1 \<noteq> Some Cap then stoppedBy o1 else Some why)\<rparr>"

definition safe_watermark :: "int \<Rightarrow> transfer_outcome list \<Rightarrow> int" where
  "safe_watermark from ts =
     (case ts of [] \<Rightarrow> from | t # rest \<Rightarrow> max from (foldl (\<lambda>m u. if deliveredThrough u < m then deliveredThrough u else m) (deliveredThrough t) rest))"

definition stopped_transfers :: "(string \<times> transfer_outcome) list \<Rightarrow> transfer_stop \<Rightarrow> string list" where
  "stopped_transfers ts why =
     map fst (filter (\<lambda>t. truncated (snd t) \<and> (case stoppedBy (snd t) of None \<Rightarrow> Error_stop | Some w \<Rightarrow> w) = why) ts)"

record watermark_resolution =
  wr_at :: int
  wr_errored :: "string list"
  wr_capped :: "string list"
  wr_held :: "string list"
  wr_local :: "string list"
  wr_closing :: "string list"
  wr_storeDown :: bool

definition resolve_watermark :: "int \<Rightarrow> (string \<times> transfer_outcome) list \<Rightarrow> watermark_resolution" where
  "resolve_watermark from ts =
     \<lparr>wr_at = safe_watermark from (map snd ts), wr_errored = stopped_transfers ts Error_stop,
      wr_capped = stopped_transfers ts Cap, wr_held = stopped_transfers ts Held,
      wr_local = stopped_transfers ts Local_fault, wr_closing = stopped_transfers ts Closing,
      wr_storeDown = list_ex (\<lambda>t. storeDown (snd t)) ts\<rparr>"

section \<open>Pulling\<close>

record page_ask =
  ask_afterPos :: int
  ask_cursor :: "string option"

datatype 'b fetched = Fetch_threw | Fetch_status int | Fetch_body "'b raw_page option"

text \<open>
  What taking a page comes to: taken, or the reason the transfer stops; a step that knows more than
  "a fault" says so before it hands the reason over (\<open>landingStop\<close>, a held family), and positions that
  are building throw.
\<close>

datatype landed = Landed | Not_landed | Stopped_as transfer_stop bool | Landing_threw

text \<open>The other side and this instance's own conditions, by the number of the page.\<close>

record 'b pull_env =
  pe_should_stop :: "nat \<Rightarrow> bool"
  pe_shutting_down :: "nat \<Rightarrow> bool"
  pe_fetch :: "nat \<Rightarrow> page_ask \<Rightarrow> 'b fetched"
  pe_deliver :: "nat \<Rightarrow> (string \<times> 'b) list \<Rightarrow> landed"

text \<open>\<open>pu_delivered\<close> is what \<open>deliver\<close> has taken, \<open>pu_behind\<close> what \<open>onBehind\<close> was told.\<close>

record 'b pull_state =
  pu_outcome :: transfer_outcome
  pu_ask :: page_ask
  pu_floor :: position_start
  pu_checkedHead :: bool
  pu_behind :: "(int \<times> int) option"
  pu_delivered :: "(string \<times> 'b) list"

datatype transfer_end = Returned | Threw | Building | Pages_by_seq

definition bare_start :: "int \<Rightarrow> position_start" where
  "bare_start p = \<lparr>st_pos = p, st_id = None, st_idDigest = None\<rparr>"

definition stop_pull :: "transfer_stop \<Rightarrow> 'b pull_state \<Rightarrow> 'b pull_state" where
  "stop_pull why st = st\<lparr>pu_outcome := stop_transfer (pu_outcome st) why\<rparr>"

definition land_stop :: "landed \<Rightarrow> transfer_outcome \<Rightarrow> transfer_outcome" where
  "land_stop l o1 = (case l of
      Stopped_as why down \<Rightarrow> (stop_transfer o1 why)\<lparr>storeDown := storeDown o1 \<or> down\<rparr>
    | _ \<Rightarrow> o1)"

text \<open>The cursor of a page: nothing to follow, a fault, or the start it names.\<close>

definition next_start ::
  "(string \<Rightarrow> string) \<Rightarrow> 'b page_answer \<Rightarrow> position_start \<Rightarrow> unit + position_start option" where
  "next_start digest page fl =
     (case pa_nextCursor page of
        None \<Rightarrow> Inr None
      | Some cur \<Rightarrow>
          (case decode_position_cursor cur of
             None \<Rightarrow> Inl ()
           | Some nxt \<Rightarrow> if compare_position_starts digest nxt fl \<le> 0 \<or> pa_items page = [] then Inl () else Inr (Some nxt)))"

text \<open>A page read, of the peer's stream: delivered, and the outcome moved.\<close>

definition take_page ::
  "(string \<Rightarrow> string) \<Rightarrow> (nat \<Rightarrow> (string \<times> 'b) list \<Rightarrow> landed) \<Rightarrow> nat \<Rightarrow> 'b page_answer \<Rightarrow> 'b pull_state
     \<Rightarrow> 'b pull_state \<times> transfer_end option" where
  "take_page digest deliver k page st =
     (if pa_head page < pa_through page then (stop_pull Error_stop st, Some Returned)
      else case next_start digest page (pu_floor st) of
          Inl _ \<Rightarrow> (stop_pull Error_stop st, Some Returned)
        | Inr nxt \<Rightarrow>
            let got = (if pa_items page = [] then Landed else deliver k (pa_items page))
            in if got = Landing_threw then (st, Some Building)
               else if got \<noteq> Landed then
                 (stop_pull Error_stop (st\<lparr>pu_outcome := land_stop got (pu_outcome st)\<rparr>), Some Returned)
               else
                 let o1 = pu_outcome st;
                     st1 = st\<lparr>pu_delivered := pu_delivered st @ pa_items page,
                              pu_outcome := o1\<lparr>deliveredThrough := max (deliveredThrough o1) (pa_through page)\<rparr>\<rparr>
                 in (case nxt of
                       None \<Rightarrow> (st1, Some Returned)
                     | Some n \<Rightarrow>
                         (st1\<lparr>pu_ask := \<lparr>ask_afterPos = st_pos (pu_floor st), ask_cursor = pa_nextCursor page\<rparr>,
                              pu_floor := n\<rparr>, None)))"

definition pull_page ::
  "(string \<Rightarrow> string) \<Rightarrow> 'b pull_env \<Rightarrow> nat \<Rightarrow> 'b pull_state \<Rightarrow> 'b pull_state \<times> transfer_end option" where
  "pull_page digest env k st =
     (case pe_fetch env k (pu_ask st) of
        Fetch_threw \<Rightarrow> if pe_shutting_down env k then (stop_pull Closing st, Some Returned) else (st, Some Threw)
      | Fetch_status code \<Rightarrow> (stop_pull Error_stop st, Some Returned)
      | Fetch_body json \<Rightarrow>
          (case parse_page_answer json of
             None \<Rightarrow> (st, Some Pages_by_seq)
           | Some page \<Rightarrow>
               let first_ask = \<not> pu_checkedHead st \<and> ask_cursor (pu_ask st) = None;
                   st1 = st\<lparr>pu_checkedHead := pu_checkedHead st \<or> first_ask\<rparr>;
                   at0 = deliveredThrough (pu_outcome st)
               in if first_ask \<and> pa_head page < at0 then
                    (st1\<lparr>pu_behind := Some (pa_head page, at0), pu_outcome := (pu_outcome st)\<lparr>deliveredThrough := 0\<rparr>,
                         pu_ask := \<lparr>ask_afterPos = 0, ask_cursor = None\<rparr>, pu_floor := bare_start 0\<rparr>, None)
                  else take_page digest (pe_deliver env) k page st1))"

text \<open>The loop, with the number of pages left to the bound.\<close>

fun pull_loop ::
  "(string \<Rightarrow> string) \<Rightarrow> 'b pull_env \<Rightarrow> nat \<Rightarrow> nat \<Rightarrow> 'b pull_state \<Rightarrow> 'b pull_state \<times> transfer_end" where
  "pull_loop digest env left k st =
     (if pe_should_stop env k then (stop_pull Closing st, Returned)
      else case left of
          0 \<Rightarrow> (stop_pull Cap st, Returned)
        | Suc n \<Rightarrow>
            (case pull_page digest env k st of
               (st', Some e) \<Rightarrow> (st', e)
             | (st', None) \<Rightarrow> pull_loop digest env n (Suc k) st'))"

declare pull_loop.simps [simp del]

definition MAX_TRANSFER_PAGES :: nat where "MAX_TRANSFER_PAGES = 200"

definition pull_start :: "transfer_outcome \<Rightarrow> 'b pull_state" where
  "pull_start o1 = \<lparr>pu_outcome = o1, pu_ask = \<lparr>ask_afterPos = deliveredThrough o1, ask_cursor = None\<rparr>,
     pu_floor = bare_start (deliveredThrough o1), pu_checkedHead = False, pu_behind = None, pu_delivered = []\<rparr>"

definition page_position_runs ::
  "(string \<Rightarrow> string) \<Rightarrow> 'b pull_env \<Rightarrow> nat option \<Rightarrow> transfer_outcome \<Rightarrow> 'b pull_state \<times> transfer_end" where
  "page_position_runs digest env max_pages o1 =
     pull_loop digest env (case max_pages of None \<Rightarrow> MAX_TRANSFER_PAGES | Some n \<Rightarrow> n) 0 (pull_start o1)"

section \<open>The door that serves a page\<close>

text \<open>What \<open>parseLimit\<close> makes of a number, and the door: a request it cannot read answers 400.\<close>

definition parse_limit :: "int \<Rightarrow> int \<Rightarrow> int" where
  "parse_limit n upper = min (max n 1) upper"

definition serve_page ::
  "(string \<Rightarrow> string) \<Rightarrow> 'b snapshot \<Rightarrow> ('b positioned_row \<Rightarrow> bool) \<Rightarrow> int \<Rightarrow> page_ask \<Rightarrow> 'b fetched" where
  "serve_page digest sn extra limit ask =
     (let q = (if truthy_str (ask_cursor ask) then (ask_cursor ask, None) else (None, Some (int_text (ask_afterPos ask))))
      in case sync_position_start False (fst q) (snd q) of
           None \<Rightarrow> Fetch_status 400
         | Some start \<Rightarrow>
             let page_size = nat (parse_limit limit 500)
             in (case read_after_position digest sn start (page_size + 1) extra of
                   None \<Rightarrow> Fetch_status 503
                 | Some rd \<Rightarrow>
                     (case page_answer digest rd page_size of
                        None \<Rightarrow> Fetch_status 500
                      | Some a \<Rightarrow> Fetch_body (Some (on_the_wire a)))))"

section \<open>Pushing\<close>

record 'b push_env =
  ps_should_stop :: "nat \<Rightarrow> bool"
  ps_shutting_down :: "nat \<Rightarrow> bool"
  ps_snapshot :: "nat \<Rightarrow> 'b snapshot"
  ps_send :: "nat \<Rightarrow> (string \<times> 'b) list \<Rightarrow> landed"

record 'b push_state =
  pq_outcome :: transfer_outcome
  pq_after :: position_start
  pq_sent :: "(string \<times> 'b) list"

definition stop_push :: "transfer_stop \<Rightarrow> 'b push_state \<Rightarrow> 'b push_state" where
  "stop_push why st = st\<lparr>pq_outcome := stop_transfer (pq_outcome st) why\<rparr>"

definition push_page ::
  "(string \<Rightarrow> string) \<Rightarrow> 'b push_env \<Rightarrow> nat \<Rightarrow> ('b positioned_row \<Rightarrow> bool) \<Rightarrow> nat \<Rightarrow> 'b push_state
     \<Rightarrow> 'b push_state \<times> transfer_end option" where
  "push_page digest env page_size extra k st =
     (case read_after_position digest (ps_snapshot env k) (pq_after st) page_size extra of
        None \<Rightarrow> (st, Some Building)
      | Some (xs, cap) \<Rightarrow>
          let got = (if xs = [] then Landed else ps_send env k (map item_of xs))
          in if got = Landing_threw then
               (if ps_shutting_down env k then (stop_push Closing st, Some Returned) else (st, Some Threw))
             else if got \<noteq> Landed then
               (stop_push Error_stop (st\<lparr>pq_outcome := land_stop got (pq_outcome st)\<rparr>), Some Returned)
             else
                 let full = page_size \<le> length xs;
                     through = (if full \<and> xs \<noteq> [] then complete_through (pr_pos (List.last xs)) True else max 0 (cap - 1));
                     o1 = pq_outcome st;
                     st1 = st\<lparr>pq_sent := pq_sent st @ map item_of xs,
                              pq_outcome := o1\<lparr>deliveredThrough := max (deliveredThrough o1) through\<rparr>\<rparr>
                 in if \<not> full \<or> xs = [] then (st1, Some Returned)
                    else (st1\<lparr>pq_after := \<lparr>st_pos = pr_pos (List.last xs), st_id = Some (pr_id (List.last xs)), st_idDigest = None\<rparr>\<rparr>, None))"

text \<open>A push without a bound of its own (\<open>None\<close>) ends where its stream does; \<open>fuel\<close> bounds the pages followed here.\<close>

fun push_loop ::
  "(string \<Rightarrow> string) \<Rightarrow> 'b push_env \<Rightarrow> nat \<Rightarrow> ('b positioned_row \<Rightarrow> bool) \<Rightarrow> nat option \<Rightarrow> nat \<Rightarrow> nat \<Rightarrow> 'b push_state
     \<Rightarrow> ('b push_state \<times> transfer_end) option" where
  "push_loop digest env page_size extra max_pages fuel k st =
     (if ps_should_stop env k then Some (stop_push Closing st, Returned)
      else if (case max_pages of None \<Rightarrow> False | Some n \<Rightarrow> n \<le> k) then Some (stop_push Cap st, Returned)
      else case fuel of
          0 \<Rightarrow> None
        | Suc n \<Rightarrow>
            (case push_page digest env page_size extra k st of
               (st', Some e) \<Rightarrow> Some (st', e)
             | (st', None) \<Rightarrow> push_loop digest env page_size extra max_pages n (Suc k) st'))"

declare push_loop.simps [simp del]

definition push_position_runs ::
  "(string \<Rightarrow> string) \<Rightarrow> 'b push_env \<Rightarrow> nat \<Rightarrow> ('b positioned_row \<Rightarrow> bool) \<Rightarrow> nat option \<Rightarrow> nat \<Rightarrow> transfer_outcome
     \<Rightarrow> ('b push_state \<times> transfer_end) option" where
  "push_position_runs digest env page_size extra max_pages fuel o1 =
     push_loop digest env page_size extra max_pages fuel 0
       \<lparr>pq_outcome = o1, pq_after = bare_start (deliveredThrough o1), pq_sent = []\<rparr>"

section \<open>Lemmas: one read\<close>

lemma key_le_refl [simp]: "key_le r r"
  by (simp add: key_le_def)

lemma key_le_trans: "key_le a b \<Longrightarrow> key_le b c \<Longrightarrow> key_le a c"
  by (auto simp: key_le_def)

lemma key_le_total: "key_le a b \<or> key_le b a"
  by (auto simp: key_le_def)

lemma key_le_antisym: "key_le a b \<Longrightarrow> key_le b a \<Longrightarrow> row_key a = row_key b"
  by (auto simp: key_le_def row_key_def)

lemma set_insert_row [simp]: "set (insert_row r xs) = insert r (set xs)"
  by (induction xs) auto

lemma set_sorted_rows [simp]: "set (sorted_rows xs) = set xs"
  by (induction xs) (auto simp: sorted_rows_def)

lemma sorted_insert_row: "sorted_wrt key_le xs \<Longrightarrow> sorted_wrt key_le (insert_row r xs)"
proof (induction xs)
  case (Cons x xs)
  show ?case
  proof (cases "key_le r x")
    case True
    with Cons.prems show ?thesis by (auto intro: key_le_trans)
  next
    case False
    then have "key_le x r" using key_le_total by blast
    with False Cons show ?thesis by auto
  qed
qed simp

lemma sorted_sorted_rows: "sorted_wrt key_le (sorted_rows xs)"
  by (induction xs) (simp_all add: sorted_rows_def sorted_insert_row)

text \<open>Where a start stands: the rows at or below it, and the ones a read from it, once resolved, is after.\<close>

definition covers :: "string set \<Rightarrow> (string \<Rightarrow> string) \<Rightarrow> position_start \<Rightarrow> 'b positioned_row \<Rightarrow> bool" where
  "covers I digest f r \<longleftrightarrow> pr_pos r < st_pos f \<or> pr_pos r = st_pos f \<and>
     (case st_id f of Some i \<Rightarrow> pr_id r \<le> i
      | None \<Rightarrow> (case st_idDigest f of None \<Rightarrow> True | Some d \<Rightarrow> \<exists>i \<in> I. digest i = d \<and> pr_id r \<le> i))"

definition after_start :: "position_start \<Rightarrow> 'b positioned_row \<Rightarrow> bool" where
  "after_start s r \<longleftrightarrow> st_pos s < pr_pos r \<or> pr_pos r = st_pos s \<and> (\<exists>i. st_id s = Some i \<and> i < pr_id r)"

lemma resolve_after:
  assumes "st_idDigest f = None \<or> st_id f = None" "0 < pr_pos r" "\<not> covers I digest f r" "pr_id ` set store \<subseteq> I"
  shows "after_start (resolve_digest_start digest store f) r"
proof (cases "st_idDigest f")
  case None
  with assms show ?thesis by (auto simp: resolve_digest_start_def covers_def after_start_def not_le split: option.splits)
next
  case (Some d)
  let ?run = "sorted_rows (filter (\<lambda>x. pr_pos x = st_pos f) store)"
  show ?thesis
  proof (cases "List.find (\<lambda>x. digest (pr_id x) = d) ?run")
    case None
    with Some assms show ?thesis by (auto simp: resolve_digest_start_def covers_def after_start_def)
  next
    case (Some x)
    from find_Some_in [OF Some] assms(4) have "digest (pr_id x) = d" "pr_id x \<in> I" by auto
    with Some \<open>st_idDigest f = Some d\<close> assms show ?thesis
      by (auto simp: resolve_digest_start_def covers_def after_start_def not_le)
  qed
qed

text \<open>Everything a read would give without its limit.\<close>

definition whole_read :: "'b snapshot \<Rightarrow> position_start \<Rightarrow> ('b positioned_row \<Rightarrow> bool) \<Rightarrow> 'b rows" where
  "whole_read sn s extra =
     (case fst (position_keyset_filters s (sn_cap sn) extra) of
        None \<Rightarrow> [] | Some p \<Rightarrow> sorted_rows (filter p (sn_tie sn)))
     @ sorted_rows (filter (snd (position_keyset_filters s (sn_cap sn) extra)) (sn_range sn))"

lemma tie_then_range_take:
  "tie_then_range (find_rows s1) (find_rows s2) tie rest n =
     take n ((case tie of None \<Rightarrow> [] | Some p \<Rightarrow> sorted_rows (filter p s1)) @ sorted_rows (filter rest s2))"
  by (cases tie) (auto simp: tie_then_range_def find_rows_def Let_def)

lemma read_is_whole:
  "read_after_position digest sn f n extra = Some (xs, cap) \<Longrightarrow>
     cap = sn_cap sn \<and> xs = take n (whole_read sn (resolve_digest_start digest (sn_resolve sn) f) extra)"
  by (auto simp: read_after_position_def Let_def whole_read_def tie_then_range_take split: if_splits prod.splits)

lemma sorted_whole_read: "sorted_wrt key_le (whole_read sn s extra)"
  by (auto simp: whole_read_def sorted_wrt_append sorted_sorted_rows position_keyset_filters_def key_le_def
      split: option.splits if_splits)

lemma whole_read_has:
  assumes "r \<in> set (sn_tie sn)" "r \<in> set (sn_range sn)" "extra r" "pr_pos r < sn_cap sn" "after_start s r"
  shows "r \<in> set (whole_read sn s extra)"
  using assms by (auto simp: whole_read_def position_keyset_filters_def after_start_def split: option.splits)

lemma whole_read_from:
  "r \<in> set (whole_read sn s extra) \<Longrightarrow> r \<in> set (sn_tie sn) \<union> set (sn_range sn) \<and> pr_pos r < sn_cap sn"
  by (auto simp: whole_read_def position_keyset_filters_def split: option.splits if_splits)

definition ids_ok :: "'b rows \<Rightarrow> bool" where
  "ids_ok store \<longleftrightarrow> distinct (map pr_id store) \<and> list_all (\<lambda>r. pr_id r \<noteq> []) store"

lemma ids_ok_inj: "ids_ok store \<Longrightarrow> a \<in> set store \<Longrightarrow> b \<in> set store \<Longrightarrow> pr_id a = pr_id b \<Longrightarrow> a = b"
  by (auto simp: ids_ok_def distinct_map dest: inj_onD)

lemma whole_read_inj:
  assumes "ids_ok (sn_tie sn)" "ids_ok (sn_range sn)"
    and "a \<in> set (whole_read sn s extra)" "b \<in> set (whole_read sn s extra)" "row_key a = row_key b"
  shows "a = b"
  using assms(3-5) ids_ok_inj [OF assms(1)] ids_ok_inj [OF assms(2)]
  by (auto simp: whole_read_def position_keyset_filters_def row_key_def split: option.splits if_splits)

lemma prefix_has:
  assumes "sorted_wrt key_le ys" "\<And>a b. a \<in> set ys \<Longrightarrow> b \<in> set ys \<Longrightarrow> row_key a = row_key b \<Longrightarrow> a = b"
    and "r \<in> set ys" "0 < m" "m \<le> length ys" "key_le r (ys ! (m - 1))"
  shows "r \<in> set (take m ys)"
proof -
  obtain j where j: "j < length ys" "r = ys ! j" using assms(3) by (auto simp: in_set_conv_nth)
  show ?thesis
  proof (cases "j < m")
    case True
    with j assms(5) show ?thesis by (auto simp: in_set_conv_nth)
  next
    case False
    with assms(1,4,5) j have "key_le (ys ! (m - 1)) r" by (auto intro: sorted_wrt_nth_less)
    with assms(6) have "row_key r = row_key (ys ! (m - 1))" using key_le_antisym by blast
    then have "r = ys ! (m - 1)" using assms(2-5) j by (metis One_nat_def diff_less less_le_trans nth_mem zero_less_one)
    then show ?thesis using assms(4,5) by (auto simp: in_set_conv_nth intro: exI [of _ "m - 1"])
  qed
qed

section \<open>Lemmas: one answer\<close>

lemma cut_back_bounds: "1 \<le> n \<Longrightarrow> 1 \<le> cut_back stuck n \<and> cut_back stuck n \<le> n"
proof (induction n)
  case (Suc n)
  then show ?case by (cases "n = 0") auto
qed simp

lemma page_end_bounds: "1 \<le> n \<Longrightarrow> 1 \<le> page_end xs n \<and> page_end xs n \<le> n"
  using cut_back_bounds [of n] by (auto simp: page_end_def Let_def)

text \<open>
  What an answer says of a row that stands at both finds and is not at or below the start: a page with
  no cursor has every row below its cap, and a page with one has every row up to the last it carries.
\<close>

lemma page_answer_cases:
  assumes "read_after_position digest sn f (Suc n) extra = Some rd" "page_answer digest rd n = Some a" "1 \<le> n"
  obtains ys where "ys = whole_read sn (resolve_digest_start digest (sn_resolve sn) f) extra"
    "pa_nextCursor a = None" "pa_items a = map item_of ys" "pa_through a = max 0 (sn_cap sn - 1)"
  | ys m cur where "ys = whole_read sn (resolve_digest_start digest (sn_resolve sn) f) extra"
    "pa_nextCursor a = Some cur" "0 < m" "m \<le> length ys" "pa_items a = map item_of (take m ys)"
    "pa_through a = max 0 (pr_pos (ys ! (m - 1)) - 1)"
    "encode_position_cursor digest (pr_pos (ys ! (m - 1))) (Some (pr_id (ys ! (m - 1)))) = Some cur"
proof -
  let ?ys = "whole_read sn (resolve_digest_start digest (sn_resolve sn) f) extra"
  obtain xs cap where rd: "rd = (xs, cap)" by force
  with read_is_whole [of digest sn f "Suc n" extra xs cap] assms(1)
  have xs: "cap = sn_cap sn" "xs = take (Suc n) ?ys" by auto
  show ?thesis
  proof (cases "n < length xs")
    case False
    with xs have "xs = ?ys" by simp
    with False assms(2) rd xs(1) show ?thesis
      by (intro that(1)) (auto simp: page_answer_def Let_def)
  next
    case True
    let ?m = "page_end xs n"
    have m: "1 \<le> ?m" "?m \<le> n" using page_end_bounds [OF assms(3)] by auto
    have t: "take ?m xs = take ?m ?ys" using m(2) xs(2) by (simp add: min_def)
    have l: "?m \<le> length ?ys" using True xs(2) m(2) by simp
    have ne: "take ?m xs \<noteq> []" using m(1) True by (cases xs) auto
    have la: "List.last (take ?m xs) = ?ys ! (?m - 1)"
      using t ne m(1) l by (simp add: last_conv_nth)
    from assms(2) rd True ne la obtain cur where
      "encode_position_cursor digest (pr_pos (?ys ! (?m - 1))) (Some (pr_id (?ys ! (?m - 1)))) = Some cur"
      "a = \<lparr>pa_items = map item_of (take ?m xs), pa_nextCursor = Some cur,
               pa_through = complete_through (pr_pos (?ys ! (?m - 1))) True, pa_head = max 0 (cap - 1)\<rparr>"
      by (auto simp: page_answer_def Let_def)
    with m l t show ?thesis by (intro that(2)) (auto simp: complete_through_def)
  qed
qed

lemma decode_encoded:
  assumes "encode_position_cursor digest pos i = Some cur" "is_digest digest"
  shows "decode_position_cursor cur = Some (named_start digest pos i)"
proof -
  have "is_position_number pos" using assms(1) by (simp add: encode_position_cursor_def split: if_splits)
  then have "Option.bind (encode_position_cursor digest pos i) decode_position_cursor = Some (named_start digest pos i)"
    using assms(2) by (rule encode_decode)
  with assms(1) show ?thesis by simp
qed

lemma named_covers:
  assumes "inj_on digest I" "pr_id x \<in> I" "pr_id x \<noteq> []" "covers I digest (named_start digest (pr_pos x) (Some (pr_id x))) r"
  shows "key_le r x"
  using assms by (auto simp: covers_def named_start_def key_le_def cursor_can_name_id_def dest: inj_onD split: if_splits)

section \<open>Lemmas: a pull\<close>

text \<open>
  The peer's side of a pull: \<open>S k\<close> is what request \<open>k\<close> saw.  A row \<open>stands\<close> when every request that could
  read its position saw it; that is what the peer's settled cap gives of a row that was written before
  the pull began or stays until it ends.
\<close>

definition stands :: "(nat \<Rightarrow> 'b snapshot) \<Rightarrow> 'b positioned_row \<Rightarrow> bool" where
  "stands S r \<longleftrightarrow> (\<forall>k. pr_pos r < sn_cap (S k) \<longrightarrow> r \<in> set (sn_tie (S k)) \<and> r \<in> set (sn_range (S k)))"

definition stores_ok :: "(nat \<Rightarrow> 'b snapshot) \<Rightarrow> bool" where
  "stores_ok S \<longleftrightarrow> (\<forall>k. ids_ok (sn_tie (S k)) \<and> ids_ok (sn_range (S k)))"

text \<open>Every id some request saw: the ones on which the hash must not collide.\<close>

definition ids_seen :: "(nat \<Rightarrow> 'b snapshot) \<Rightarrow> string set" where
  "ids_seen S = (\<Union>k. pr_id ` (set (sn_resolve (S k)) \<union> set (sn_tie (S k)) \<union> set (sn_range (S k))))"

definition honest_peer ::
  "(string \<Rightarrow> string) \<Rightarrow> (nat \<Rightarrow> 'b snapshot) \<Rightarrow> ('b positioned_row \<Rightarrow> bool) \<Rightarrow> int \<Rightarrow> 'b pull_env \<Rightarrow> bool" where
  "honest_peer digest S extra limit env \<longleftrightarrow> (\<forall>k ask. pe_fetch env k ask = serve_page digest (S k) extra limit ask
     \<or> pe_fetch env k ask = Fetch_threw \<or> (\<exists>c. pe_fetch env k ask = Fetch_status c))"

definition ask_ok :: "page_ask \<Rightarrow> position_start \<Rightarrow> bool" where
  "ask_ok ask f \<longleftrightarrow> (st_idDigest f = None \<or> st_id f = None) \<and>
     (case ask_cursor ask of None \<Rightarrow> f = bare_start (ask_afterPos ask)
      | Some c \<Rightarrow> c \<noteq> [] \<and> decode_position_cursor c = Some f)"

definition pull_inv ::
  "(string \<Rightarrow> string) \<Rightarrow> (nat \<Rightarrow> 'b snapshot) \<Rightarrow> ('b positioned_row \<Rightarrow> bool) \<Rightarrow> int \<Rightarrow> 'b pull_state \<Rightarrow> bool" where
  "pull_inv digest S extra base st \<longleftrightarrow> 0 \<le> base \<and> ask_ok (pu_ask st) (pu_floor st) \<and>
     (\<forall>r. stands S r \<and> extra r \<and> base < pr_pos r \<and> (covers (ids_seen S) digest (pu_floor st) r \<or> pr_pos r \<le> deliveredThrough (pu_outcome st))
        \<longrightarrow> item_of r \<in> set (pu_delivered st))"

lemma stop_transfer_dt [simp]: "deliveredThrough (stop_transfer o1 why) = deliveredThrough o1"
  by (simp add: stop_transfer_def)

lemma land_stop_dt [simp]: "deliveredThrough (land_stop l o1) = deliveredThrough o1"
  by (simp add: land_stop_def split: landed.split)

lemma stop_pull_simps [simp]:
  "deliveredThrough (pu_outcome (stop_pull why st)) = deliveredThrough (pu_outcome st)"
  "pu_delivered (stop_pull why st) = pu_delivered st" "pu_behind (stop_pull why st) = pu_behind st"
  "pu_ask (stop_pull why st) = pu_ask st" "pu_floor (stop_pull why st) = pu_floor st"
  by (simp_all add: stop_pull_def)

lemma pull_inv_stop [simp]: "pull_inv digest S extra base (stop_pull why st) \<longleftrightarrow> pull_inv digest S extra base st"
  by (simp add: pull_inv_def)

lemma parse_int_text_is: "parse_position_text (int_text p) = Some q \<Longrightarrow> q = p"
proof -
  assume q: "parse_position_text (int_text p) = Some q"
  have "\<not> is_digit (CHR ''-'')" by (simp add: is_digit_def)
  with q have "0 \<le> p" by (auto simp: parse_position_text_def int_text_def split: if_splits)
  with q show "q = p" by (auto simp: parse_position_text_def int_text_def Let_def decimal_decimal_text split: if_splits)
qed

lemma serve_page_body:
  assumes "serve_page digest sn extra limit ask = Fetch_body json" "ask_ok ask f"
  obtains n rd a where "1 \<le> n" "read_after_position digest sn f (Suc n) extra = Some rd"
    "page_answer digest rd n = Some a" "json = Some (on_the_wire a)"
proof -
  let ?q = "if truthy_str (ask_cursor ask) then (ask_cursor ask, None) else (None, Some (int_text (ask_afterPos ask)))"
  obtain start where st: "sync_position_start False (fst ?q) (snd ?q) = Some start"
    using assms(1) by (auto simp: serve_page_def Let_def split: option.splits)
  have "start = f"
  proof (cases "ask_cursor ask")
    case None
    with st assms(2) parse_int_text_is show ?thesis by (auto simp: sync_position_start_def ask_ok_def bare_start_def)
  next
    case (Some c)
    with st assms(2) show ?thesis by (auto simp: sync_position_start_def ask_ok_def)
  qed
  with st assms(1) obtain rd a where
    "read_after_position digest sn f (Suc (nat (parse_limit limit 500))) extra = Some rd"
    "page_answer digest rd (nat (parse_limit limit 500)) = Some a" "json = Some (on_the_wire a)"
    by (simp add: serve_page_def Let_def split: option.split_asm)
  then show ?thesis by (intro that [of "nat (parse_limit limit 500)"]) (simp_all add: parse_limit_def)
qed

lemma parse_on_the_wire: "parse_page_answer (Some (on_the_wire a)) = Some b \<Longrightarrow> b = a"
  by (auto simp: parse_page_answer_def on_the_wire_def split: if_splits)

lemma named_start_one: "st_idDigest (named_start digest p i) = None \<or> st_id (named_start digest p i) = None"
  by (simp add: named_start_def)

lemma encoded_nonempty: "encode_position_cursor digest p i = Some cur \<Longrightarrow> cur \<noteq> []"
  by (auto simp: encode_position_cursor_def POSITION_CURSOR_PREFIX_def split: if_splits)

text \<open>A page either leaves what the loop knows as it was, or is delivered and moves it.\<close>

definition unmoved :: "'b pull_state \<Rightarrow> 'b pull_state \<Rightarrow> bool" where
  "unmoved st st' \<longleftrightarrow> pu_delivered st' = pu_delivered st \<and> pu_ask st' = pu_ask st \<and> pu_floor st' = pu_floor st
     \<and> pu_behind st' = pu_behind st \<and> deliveredThrough (pu_outcome st') = deliveredThrough (pu_outcome st)"

definition page_taken :: "'b page_answer \<Rightarrow> 'b pull_state \<Rightarrow> 'b pull_state \<Rightarrow> bool" where
  "page_taken a st st' \<longleftrightarrow> pu_delivered st' = pu_delivered st @ pa_items a \<and> pu_behind st' = pu_behind st
     \<and> deliveredThrough (pu_outcome st') = max (deliveredThrough (pu_outcome st)) (pa_through a)
     \<and> (case pa_nextCursor a of None \<Rightarrow> pu_ask st' = pu_ask st \<and> pu_floor st' = pu_floor st
        | Some c \<Rightarrow> ask_cursor (pu_ask st') = Some c \<and> decode_position_cursor c = Some (pu_floor st'))"

lemma pull_inv_unmoved: "unmoved st st' \<Longrightarrow> pull_inv digest S extra base st \<Longrightarrow> pull_inv digest S extra base st'"
  by (simp add: unmoved_def pull_inv_def)

lemma unmoved_stop [simp]: "unmoved st (stop_pull why st)" "unmoved st st"
  "unmoved st (stop_pull why (st\<lparr>pu_outcome := land_stop got (pu_outcome st)\<rparr>))"
  by (simp_all add: unmoved_def)

lemma next_start_Inr:
  "next_start digest a f = Inr nxt \<Longrightarrow>
     (case pa_nextCursor a of None \<Rightarrow> nxt = None | Some c \<Rightarrow> \<exists>n. nxt = Some n \<and> decode_position_cursor c = Some n)"
  by (cases "pa_nextCursor a"; cases "decode_position_cursor (the (pa_nextCursor a))") (auto simp: next_start_def split: if_splits)

lemma take_page_shape:
  assumes "take_page digest deliver k a st = (st', e)"
  shows "unmoved st st' \<or> page_taken a st st'"
proof (cases "pa_head a < pa_through a")
  case True
  then have "st' = stop_pull Error_stop st" using assms by (simp add: take_page_def)
  then show ?thesis by simp
next
  case False
  note h = this
  show ?thesis
  proof (cases "next_start digest a (pu_floor st)")
    case (Inl u)
    then have "st' = stop_pull Error_stop st" using h assms by (simp add: take_page_def)
    then show ?thesis by simp
  next
    case (Inr nxt)
    define got where "got = (if pa_items a = [] then Landed else deliver k (pa_items a))"
    have t: "take_page digest deliver k a st = (if got = Landing_threw then (st, Some Building)
        else if got \<noteq> Landed then (stop_pull Error_stop (st\<lparr>pu_outcome := land_stop got (pu_outcome st)\<rparr>), Some Returned)
        else (case nxt of
             None \<Rightarrow> (st\<lparr>pu_delivered := pu_delivered st @ pa_items a,
                  pu_outcome := (pu_outcome st)\<lparr>deliveredThrough := max (deliveredThrough (pu_outcome st)) (pa_through a)\<rparr>\<rparr>, Some Returned)
           | Some n \<Rightarrow> (st\<lparr>pu_delivered := pu_delivered st @ pa_items a,
                  pu_outcome := (pu_outcome st)\<lparr>deliveredThrough := max (deliveredThrough (pu_outcome st)) (pa_through a)\<rparr>,
                  pu_ask := \<lparr>ask_afterPos = st_pos (pu_floor st), ask_cursor = pa_nextCursor a\<rparr>, pu_floor := n\<rparr>, None)))"
      using h Inr by (simp add: take_page_def Let_def got_def [symmetric] split: option.split)
    consider "got = Landing_threw" | "got \<noteq> Landing_threw" "got \<noteq> Landed" | "got = Landed" by blast
    then show ?thesis
    proof cases
      case 3
      with t assms next_start_Inr [OF Inr] have "page_taken a st st'"
        by (cases "pa_nextCursor a"; cases nxt) (auto simp: page_taken_def)
      then show ?thesis ..
    qed (use t assms in auto)
  qed
qed

lemma take_page_inv:
  assumes inv: "pull_inv digest S extra base st" and d: "inj_on digest (ids_seen S)" "is_digest digest" and ok: "stores_ok S"
    and rd: "1 \<le> n" "read_after_position digest (S k) (pu_floor st) (Suc n) extra = Some rd" "page_answer digest rd n = Some a"
    and taken: "page_taken a st st'"
  shows "pull_inv digest S extra base st'"
proof -
  let ?s = "resolve_digest_start digest (sn_resolve (S k)) (pu_floor st)"
  have base: "0 \<le> base" and one: "st_idDigest (pu_floor st) = None \<or> st_id (pu_floor st) = None"
    using inv by (simp_all add: pull_inv_def ask_ok_def)
  have seen: "pr_id ` set (sn_resolve (S k)) \<subseteq> ids_seen S" by (auto simp: ids_seen_def)
  have reads: "r \<in> set (whole_read (S k) ?s extra) \<or> item_of r \<in> set (pu_delivered st)"
    if r: "stands S r" "extra r" "base < pr_pos r" "pr_pos r < sn_cap (S k)" for r
  proof (cases "covers (ids_seen S) digest (pu_floor st) r")
    case True
    with r inv show ?thesis by (simp add: pull_inv_def)
  next
    case False
    have "after_start ?s r" using resolve_after [OF one _ False seen] r(3) base by simp
    then show ?thesis using r whole_read_has unfolding stands_def by blast
  qed
  have old: "item_of r \<in> set (pu_delivered st)"
    if "stands S r" "extra r" "base < pr_pos r" "pr_pos r \<le> deliveredThrough (pu_outcome st)" for r
    using that inv by (simp add: pull_inv_def)
  from page_answer_cases [OF rd(2,3,1)] show ?thesis
  proof cases
    case (1 ys)
    have "item_of r \<in> set (pu_delivered st')" if r: "stands S r" "extra r" "base < pr_pos r"
      "covers (ids_seen S) digest (pu_floor st') r \<or> pr_pos r \<le> deliveredThrough (pu_outcome st')" for r
    proof (cases "pr_pos r < sn_cap (S k)")
      case True
      with reads [OF r(1-3) True] 1 taken show ?thesis by (auto simp: page_taken_def)
    next
      case False
      then have "covers (ids_seen S) digest (pu_floor st) r \<or> pr_pos r \<le> deliveredThrough (pu_outcome st)"
        using r(3,4) 1 taken base by (auto simp: page_taken_def)
      with inv r taken show ?thesis by (auto simp: pull_inv_def page_taken_def)
    qed
    then show ?thesis using inv taken 1(2) by (simp add: pull_inv_def page_taken_def)
  next
    case (2 ys m cur)
    let ?x = "ys ! (m - 1)"
    have x: "?x \<in> set ys" using 2(3,4) by simp
    then have xs: "?x \<in> set (sn_tie (S k)) \<union> set (sn_range (S k))" "pr_pos ?x < sn_cap (S k)"
      using whole_read_from 2(1) by metis+
    have xI: "pr_id ?x \<in> ids_seen S" using xs(1) by (auto simp: ids_seen_def)
    have "pr_id ?x \<noteq> []" using xs(1) ok by (auto simp: stores_ok_def ids_ok_def list_all_iff)
    have one_row: "a = b" if "a \<in> set ys" "b \<in> set ys" "row_key a = row_key b" for a b
      using that whole_read_inj [of "S k" a ?s extra b] ok 2(1) by (simp add: stores_ok_def)
    note fl = decode_encoded [OF 2(7) d(2)]
    have f': "pu_floor st' = named_start digest (pr_pos ?x) (Some (pr_id ?x))" "ask_cursor (pu_ask st') = Some cur"
      using taken 2(2) fl by (simp_all add: page_taken_def)
    have upto: "item_of r \<in> set (pu_delivered st')"
      if r: "stands S r" "extra r" "base < pr_pos r" "key_le r ?x" for r
    proof -
      have "pr_pos r < sn_cap (S k)" using r(4) xs(2) by (auto simp: key_le_def)
      from reads [OF r(1-3) this] show ?thesis
      proof
        assume "r \<in> set (whole_read (S k) ?s extra)"
        then have "r \<in> set (take m ys)"
          using prefix_has [of ys r m, OF _ one_row _ 2(3,4) r(4)] sorted_whole_read 2(1) by metis
        then show ?thesis using taken 2(5) by (auto simp: page_taken_def)
      qed (use taken in \<open>simp add: page_taken_def\<close>)
    qed
    have "item_of r \<in> set (pu_delivered st')" if r: "stands S r" "extra r" "base < pr_pos r"
      "covers (ids_seen S) digest (pu_floor st') r \<or> pr_pos r \<le> deliveredThrough (pu_outcome st')" for r
    proof (cases "key_le r ?x")
      case True
      with upto r show ?thesis by blast
    next
      case False
      have "\<not> covers (ids_seen S) digest (pu_floor st') r" using named_covers [OF d(1) xI \<open>pr_id ?x \<noteq> []\<close>] f'(1) False by metis
      moreover have "\<not> pr_pos r \<le> pa_through a" using False 2(6) r(3) base by (auto simp: key_le_def)
      ultimately have "pr_pos r \<le> deliveredThrough (pu_outcome st)" using r(4) taken by (auto simp: page_taken_def)
      with old r taken show ?thesis by (simp add: page_taken_def)
    qed
    moreover have "ask_ok (pu_ask st') (pu_floor st')"
      using f' fl encoded_nonempty [OF 2(7)] named_start_one by (simp add: ask_ok_def)
    ultimately show ?thesis using base taken by (simp add: pull_inv_def)
  qed
qed

text \<open>Where a pull counts from: its mark, or the start of the stream once the peer was found behind it.\<close>

definition pull_base :: "int \<Rightarrow> 'b pull_state \<Rightarrow> int" where
  "pull_base from st = (if pu_behind st = None then from else 0)"

lemma pull_page_inv:
  assumes inv: "pull_inv digest S extra (pull_base from st) st" and d: "inj_on digest (ids_seen S)" "is_digest digest" and ok: "stores_ok S"
    and h: "honest_peer digest S extra limit env" and p: "pull_page digest env k st = (st', e)"
  shows "pull_inv digest S extra (pull_base from st') st'"
proof -
  have ask: "ask_ok (pu_ask st) (pu_floor st)" using inv by (simp add: pull_inv_def)
  consider (threw) "pe_fetch env k (pu_ask st) = Fetch_threw" | (status) c where "pe_fetch env k (pu_ask st) = Fetch_status c"
    | (body) json where "pe_fetch env k (pu_ask st) = Fetch_body json"
    by (cases "pe_fetch env k (pu_ask st)") auto
  then show ?thesis
  proof cases
    case threw
    with p inv show ?thesis by (auto simp: pull_page_def pull_base_def split: if_splits)
  next
    case status
    with p inv show ?thesis by (auto simp: pull_page_def pull_base_def)
  next
    case body
    have "serve_page digest (S k) extra limit (pu_ask st) = Fetch_body json"
      using h body by (metis honest_peer_def fetched.distinct(3,5))
    then obtain n rd a where rd: "1 \<le> n" "read_after_position digest (S k) (pu_floor st) (Suc n) extra = Some rd"
      "page_answer digest rd n = Some a" "json = Some (on_the_wire a)"
      using ask by (rule serve_page_body)
    show ?thesis
    proof (cases "parse_page_answer json")
      case None
      with p body inv show ?thesis by (auto simp: pull_page_def)
    next
      case (Some b)
      with rd(4) parse_on_the_wire have b: "b = a" by blast
      let ?first = "\<not> pu_checkedHead st \<and> ask_cursor (pu_ask st) = None"
      let ?st1 = "st\<lparr>pu_checkedHead := pu_checkedHead st \<or> ?first\<rparr>"
      show ?thesis
      proof (cases "?first \<and> pa_head a < deliveredThrough (pu_outcome st)")
        case True
        with p body Some b have "st' = ?st1\<lparr>pu_behind := Some (pa_head a, deliveredThrough (pu_outcome st)),
            pu_outcome := (pu_outcome st)\<lparr>deliveredThrough := 0\<rparr>,
            pu_ask := \<lparr>ask_afterPos = 0, ask_cursor = None\<rparr>, pu_floor := bare_start 0\<rparr>"
          by (simp add: pull_page_def Let_def)
        then show ?thesis by (auto simp: pull_inv_def pull_base_def ask_ok_def bare_start_def covers_def)
      next
        case False
        with p body Some b have t: "take_page digest (pe_deliver env) k a ?st1 = (st', e)"
          by (simp only: pull_page_def fetched.case option.case Let_def if_False)
        have inv1: "pull_inv digest S extra (pull_base from st) ?st1" using inv by (simp add: pull_inv_def)
        from take_page_shape [OF t] show ?thesis
        proof
          assume u: "unmoved ?st1 st'"
          then have "pull_base from st' = pull_base from st" by (simp add: unmoved_def pull_base_def)
          with pull_inv_unmoved [OF u inv1] show ?thesis by simp
        next
          assume u: "page_taken a ?st1 st'"
          then have "pull_base from st' = pull_base from st" by (simp add: page_taken_def pull_base_def)
          with take_page_inv [OF inv1 d ok rd(1) _ rd(3) u] rd(2) show ?thesis by simp
        qed
      qed
    qed
  qed
qed

lemma pull_loop_inv:
  assumes "inj_on digest (ids_seen S)" "is_digest digest" "stores_ok S" "honest_peer digest S extra limit env"
  shows "pull_inv digest S extra (pull_base from st) st \<Longrightarrow> pull_loop digest env left k st = (st', e)
    \<Longrightarrow> pull_inv digest S extra (pull_base from st') st'"
proof (induction left arbitrary: k st)
  case 0
  then show ?case by (auto simp: pull_loop.simps [of _ _ 0] pull_base_def split: if_splits)
next
  case (Suc n)
  show ?case
  proof (cases "pe_should_stop env k")
    case True
    with Suc.prems show ?thesis by (auto simp: pull_loop.simps [of _ _ "Suc n"] pull_base_def)
  next
    case False
    obtain s1 e1 where p: "pull_page digest env k st = (s1, e1)" by force
    from pull_page_inv [OF Suc.prems(1) assms p] have "pull_inv digest S extra (pull_base from s1) s1" .
    with False p Suc.prems(2) Suc.IH show ?thesis
      by (cases e1) (auto simp: pull_loop.simps [of _ _ "Suc n"])
  qed
qed

lemma pull_start_inv: "0 \<le> deliveredThrough o1 \<Longrightarrow> pull_inv digest S extra (deliveredThrough o1) (pull_start o1)"
  by (auto simp: pull_inv_def pull_start_def ask_ok_def bare_start_def covers_def)

lemma pull_delivers:
  fixes r :: "'b positioned_row"
  assumes "inj_on digest (ids_seen S)" "is_digest digest" "stores_ok S" "honest_peer digest S extra limit env" "0 \<le> deliveredThrough o1"
    and "page_position_runs digest env mp o1 = (st, e)"
    and "stands S r" "extra r" "pull_base (deliveredThrough o1) st < pr_pos r" "pr_pos r \<le> deliveredThrough (pu_outcome st)"
  shows "item_of r \<in> set (pu_delivered st)"
proof -
  have b: "pull_base (deliveredThrough o1) (pull_start o1 :: 'b pull_state) = deliveredThrough o1"
    by (simp add: pull_base_def pull_start_def)
  have start: "pull_inv digest S extra (pull_base (deliveredThrough o1) (pull_start o1 :: 'b pull_state)) (pull_start o1)"
    using pull_start_inv [OF assms(5), of digest S extra] b by simp
  from pull_loop_inv [OF assms(1-4) start] assms(6-10) show ?thesis
    unfolding page_position_runs_def pull_inv_def by blast
qed

section \<open>Lemmas: the mark\<close>

lemma foldl_min_le: "foldl (\<lambda>m u. if deliveredThrough u < m then deliveredThrough u else m) m ts \<le> m
   \<and> (\<forall>t \<in> set ts. foldl (\<lambda>m u. if deliveredThrough u < m then deliveredThrough u else m) m ts \<le> deliveredThrough t)"
proof (induction ts arbitrary: m)
  case (Cons t ts)
  from Cons [of "deliveredThrough t"] Cons [of m] show ?case by auto
qed simp

lemma safe_watermark_bound:
  "from \<le> safe_watermark from ts" "t \<in> set ts \<Longrightarrow> safe_watermark from ts \<le> max from (deliveredThrough t)"
proof -
  show "from \<le> safe_watermark from ts" by (cases ts) (simp_all add: safe_watermark_def)
  show "safe_watermark from ts \<le> max from (deliveredThrough t)" if "t \<in> set ts"
  proof (cases ts)
    case (Cons u us)
    with that foldl_min_le [of "deliveredThrough u" us] show ?thesis
      by (fastforce simp: safe_watermark_def)
  qed (use that in simp)
qed

end
