(* ===== verification/Page_Progress.thy ===== *)
theory Page_Progress
  imports Position_Pages
begin

text \<open>
  The rest of what the paging loops of \<open>Position_Pages\<close> promise: a push, like a pull, has sent every row
  it reports complete, and a pull from a peer that answers, of a collection that stands still, reaches
  the peer's head within one request per row and one more.
\<close>

section \<open>Lemmas: a push\<close>

definition push_inv ::
  "(nat \<Rightarrow> 'b snapshot) \<Rightarrow> ('b positioned_row \<Rightarrow> bool) \<Rightarrow> int \<Rightarrow> 'b push_state \<Rightarrow> bool" where
  "push_inv S extra base st \<longleftrightarrow> 0 \<le> base \<and> st_idDigest (pq_after st) = None \<and>
     (\<forall>r. stands S r \<and> extra r \<and> base < pr_pos r \<and> (\<not> after_start (pq_after st) r \<or> pr_pos r \<le> deliveredThrough (pq_outcome st))
        \<longrightarrow> item_of r \<in> set (pq_sent st))"

lemma resolve_plain: "st_idDigest f = None \<Longrightarrow> resolve_digest_start digest store f = f"
  by (simp add: resolve_digest_start_def)

lemma stop_push_simps [simp]:
  "pq_after (stop_push why st) = pq_after st" "pq_sent (stop_push why st) = pq_sent st"
  "deliveredThrough (pq_outcome (stop_push why st)) = deliveredThrough (pq_outcome st)"
  by (simp_all add: stop_push_def)

lemma push_inv_stop [simp]: "push_inv S extra base (stop_push why st) \<longleftrightarrow> push_inv S extra base st"
  by (simp add: push_inv_def)

text \<open>A page either leaves what the push knows as it was, or is sent and moves it.\<close>

definition page_sent :: "nat \<Rightarrow> int \<Rightarrow> 'b rows \<Rightarrow> 'b push_state \<Rightarrow> 'b push_state \<Rightarrow> bool" where
  "page_sent page_size cap xs st st' \<longleftrightarrow> pq_sent st' = pq_sent st @ map item_of xs
     \<and> (if length xs < page_size \<or> xs = []
        then pq_after st' = pq_after st
          \<and> deliveredThrough (pq_outcome st') = max (deliveredThrough (pq_outcome st)) (max 0 (cap - 1))
        else pq_after st' = \<lparr>st_pos = pr_pos (List.last xs), st_id = Some (pr_id (List.last xs)), st_idDigest = None\<rparr>
          \<and> deliveredThrough (pq_outcome st') = max (deliveredThrough (pq_outcome st)) (max 0 (pr_pos (List.last xs) - 1)))"

lemma push_page_shape:
  assumes "push_page digest env page_size extra k st = (st', e)"
  shows "pq_after st' = pq_after st \<and> pq_sent st' = pq_sent st
      \<and> deliveredThrough (pq_outcome st') = deliveredThrough (pq_outcome st)
   \<or> (\<exists>xs cap. read_after_position digest (ps_snapshot env k) (pq_after st) page_size extra = Some (xs, cap)
      \<and> page_sent page_size cap xs st st')"
proof (cases "read_after_position digest (ps_snapshot env k) (pq_after st) page_size extra")
  case None
  with assms show ?thesis by (simp add: push_page_def)
next
  case (Some rd)
  obtain xs cap where rd: "rd = (xs, cap)" by force
  define got where "got = (if xs = [] then Landed else ps_send env k (map item_of xs))"
  consider "got = Landing_threw" | "got \<noteq> Landing_threw" "got \<noteq> Landed" | "got = Landed" by blast
  then show ?thesis
  proof cases
    case 3
    then have "page_sent page_size cap xs st st'"
      using assms Some rd
      by (auto simp: push_page_def Let_def got_def [symmetric] page_sent_def complete_through_def not_le split: if_splits)
    with Some rd show ?thesis by blast
  qed (use assms Some rd in \<open>auto simp: push_page_def Let_def got_def [symmetric] split: if_splits\<close>)
qed

lemma push_page_inv:
  assumes inv: "push_inv (ps_snapshot env) extra base st" and ok: "stores_ok (ps_snapshot env)"
    and p: "push_page digest env page_size extra k st = (st', e)" and n: "1 \<le> page_size"
  shows "push_inv (ps_snapshot env) extra base st'"
  using push_page_shape [OF p]
proof (elim disjE exE conjE)
  assume "pq_after st' = pq_after st" "pq_sent st' = pq_sent st"
    "deliveredThrough (pq_outcome st') = deliveredThrough (pq_outcome st)"
  with inv show ?thesis by (simp add: push_inv_def)
next
  fix xs cap
  assume rd: "read_after_position digest (ps_snapshot env k) (pq_after st) page_size extra = Some (xs, cap)"
    and sent: "page_sent page_size cap xs st st'"
  have base: "0 \<le> base" and dig: "st_idDigest (pq_after st) = None" using inv by (simp_all add: push_inv_def)
  let ?ys = "whole_read (ps_snapshot env k) (pq_after st) extra"
  from read_is_whole [OF rd] have xs: "cap = sn_cap (ps_snapshot env k)" "xs = take page_size ?ys"
    by (simp_all add: resolve_plain [OF dig])
  have reads: "r \<in> set ?ys \<or> item_of r \<in> set (pq_sent st)"
    if "stands (ps_snapshot env) r" "extra r" "base < pr_pos r" "pr_pos r < cap" for r
  proof (cases "after_start (pq_after st) r")
    case True
    then show ?thesis using that xs(1) whole_read_has unfolding stands_def by blast
  next
    case False
    then show ?thesis using that inv by (simp add: push_inv_def)
  qed
  have old: "item_of r \<in> set (pq_sent st)"
    if "stands (ps_snapshot env) r" "extra r" "base < pr_pos r" "pr_pos r \<le> deliveredThrough (pq_outcome st)" for r
    using that inv by (simp add: push_inv_def)
  show ?thesis
  proof (cases "length xs < page_size \<or> xs = []")
    case True
    then have all: "xs = ?ys" using xs(2) n by (auto simp: min_def split: if_splits)
    have "item_of r \<in> set (pq_sent st')"
      if r: "stands (ps_snapshot env) r" "extra r" "base < pr_pos r"
        "\<not> after_start (pq_after st') r \<or> pr_pos r \<le> deliveredThrough (pq_outcome st')" for r
    proof (cases "pr_pos r < cap")
      case True
      with reads [OF r(1-3) True] all sent show ?thesis by (auto simp: page_sent_def)
    next
      case False
      with r(4) sent \<open>length xs < page_size \<or> xs = []\<close> base r(3)
      have "\<not> after_start (pq_after st) r \<or> pr_pos r \<le> deliveredThrough (pq_outcome st)"
        by (auto simp: page_sent_def)
      with inv r(1-3) sent show ?thesis by (auto simp: push_inv_def page_sent_def)
    qed
    then show ?thesis using base dig sent True by (auto simp: push_inv_def page_sent_def)
  next
    case False
    let ?m = "length xs" and ?x = "List.last xs"
    have m: "0 < ?m" "?m \<le> length ?ys" "?x = ?ys ! (?m - 1)" "xs = take ?m ?ys"
      using False xs(2) by (auto simp: last_conv_nth)
    have x: "?x \<in> set ?ys" using m(1-3) by (metis One_nat_def diff_less less_le_trans nth_mem zero_less_one)
    then have xcap: "pr_pos ?x < cap" using whole_read_from xs(1) by metis
    have one_row: "a = b" if "a \<in> set ?ys" "b \<in> set ?ys" "row_key a = row_key b" for a b
      using that whole_read_inj [of "ps_snapshot env k" a "pq_after st" extra b] ok by (simp add: stores_ok_def)
    have upto: "item_of r \<in> set (pq_sent st')"
      if r: "stands (ps_snapshot env) r" "extra r" "base < pr_pos r" "key_le r ?x" for r
    proof -
      have "pr_pos r < cap" using r(4) xcap by (auto simp: key_le_def)
      from reads [OF r(1-3) this] show ?thesis
      proof
        assume "r \<in> set ?ys"
        then have "r \<in> set (take ?m ?ys)"
          using prefix_has [of ?ys r ?m, OF _ one_row _ m(1,2)] r(4) sorted_whole_read m(3) by metis
        then have "r \<in> set xs" using m(4) by simp
        then show ?thesis using sent by (auto simp: page_sent_def)
      qed (use sent in \<open>auto simp: page_sent_def\<close>)
    qed
    have moved: "pq_after st' = \<lparr>st_pos = pr_pos ?x, st_id = Some (pr_id ?x), st_idDigest = None\<rparr>"
      "deliveredThrough (pq_outcome st') = max (deliveredThrough (pq_outcome st)) (max 0 (pr_pos ?x - 1))"
      "pq_sent st' = pq_sent st @ map item_of xs"
      using sent False by (simp_all add: page_sent_def)
    have "item_of r \<in> set (pq_sent st')"
      if r: "stands (ps_snapshot env) r" "extra r" "base < pr_pos r"
        "\<not> after_start (pq_after st') r \<or> pr_pos r \<le> deliveredThrough (pq_outcome st')" for r
    proof (cases "key_le r ?x")
      case True
      with upto r show ?thesis by blast
    next
      case False
      then have "after_start (pq_after st') r" "\<not> pr_pos r \<le> max 0 (pr_pos ?x - 1)"
        using base r(3) by (auto simp: moved(1) after_start_def key_le_def)
      with r(4) moved(2) have "pr_pos r \<le> deliveredThrough (pq_outcome st)" by (simp add: le_max_iff_disj)
      with old r moved(3) show ?thesis by simp
    qed
    then show ?thesis using base moved(1) by (simp add: push_inv_def)
  qed
qed

lemma push_loop_inv:
  assumes "stores_ok (ps_snapshot env)" "1 \<le> page_size"
  shows "push_inv (ps_snapshot env) extra base st \<Longrightarrow> push_loop digest env page_size extra mp fuel k st = Some (st', e)
    \<Longrightarrow> push_inv (ps_snapshot env) extra base st'"
proof (induction fuel arbitrary: k st)
  case 0
  then show ?case by (auto simp: push_loop.simps [of _ _ _ _ _ 0] split: if_splits)
next
  case (Suc n)
  obtain s1 e1 where p: "push_page digest env page_size extra k st = (s1, e1)" by force
  from push_page_inv [OF Suc.prems(1) assms(1) p assms(2)] have s1: "push_inv (ps_snapshot env) extra base s1" .
  have stop: "push_inv (ps_snapshot env) extra base (stop_push why st)" for why using Suc.prems(1) by simp
  have l: "push_loop digest env page_size extra mp (Suc n) k st =
      (if ps_should_stop env k then Some (stop_push Closing st, Returned)
       else if (case mp of None \<Rightarrow> False | Some n \<Rightarrow> n \<le> k) then Some (stop_push Cap st, Returned)
       else case e1 of Some e \<Rightarrow> Some (s1, e) | None \<Rightarrow> push_loop digest env page_size extra mp n (Suc k) s1)"
    using p by (simp add: push_loop.simps [of _ _ _ _ _ "Suc n"] split: option.split)
  show ?case
    using Suc.prems(2) l s1 stop Suc.IH by (cases e1) (auto split: if_splits)
qed

lemma push_delivers:
  assumes "stores_ok (ps_snapshot env)" "1 \<le> page_size" "0 \<le> deliveredThrough o1"
    and "push_position_runs digest env page_size extra mp fuel o1 = Some (st, e)"
    and "stands (ps_snapshot env) r" "extra r" "deliveredThrough o1 < pr_pos r" "pr_pos r \<le> deliveredThrough (pq_outcome st)"
  shows "item_of r \<in> set (pq_sent st)"
proof -
  have "push_inv (ps_snapshot env) extra (deliveredThrough o1)
      \<lparr>pq_outcome = o1, pq_after = bare_start (deliveredThrough o1), pq_sent = []\<rparr>"
    using assms(3) by (auto simp: push_inv_def bare_start_def after_start_def)
  from push_loop_inv [OF assms(1,2) this assms(4) [unfolded push_position_runs_def]] assms(5-8)
  show ?thesis by (simp add: push_inv_def)
qed

section \<open>Lemmas: a pull that reaches the head\<close>

text \<open>A peer that answers every request from a collection that stands still, and a receiver that lands every page.\<close>

record 'b still_peer =
  sp_store :: "'b rows"
  sp_cap :: int

definition still_snapshot :: "'b still_peer \<Rightarrow> 'b snapshot" where
  "still_snapshot p = \<lparr>sn_ready = True, sn_resolve = sp_store p, sn_cap = sp_cap p, sn_tie = sp_store p, sn_range = sp_store p\<rparr>"

definition still_env :: "(string \<Rightarrow> string) \<Rightarrow> 'b still_peer \<Rightarrow> ('b positioned_row \<Rightarrow> bool) \<Rightarrow> int \<Rightarrow> 'b pull_env" where
  "still_env digest p extra limit = \<lparr>pe_should_stop = (\<lambda>_. False), pe_shutting_down = (\<lambda>_. False),
     pe_fetch = (\<lambda>_ ask. serve_page digest (still_snapshot p) extra limit ask), pe_deliver = (\<lambda>_ _. Landed)\<rparr>"

definition head_of :: "'b still_peer \<Rightarrow> int" where
  "head_of p = max 0 (sp_cap p - 1)"

definition still_ok :: "'b still_peer \<Rightarrow> bool" where
  "still_ok p \<longleftrightarrow> ids_ok (sp_store p) \<and> list_all (\<lambda>r. 0 < pr_pos r \<and> is_position_number (pr_pos r)) (sp_store p)
     \<and> is_position_number (head_of p)"

definition ids_in :: "'b still_peer \<Rightarrow> string set" where
  "ids_in p = pr_id ` set (sp_store p)"

definition floor_ok :: "(string \<Rightarrow> string) \<Rightarrow> 'b still_peer \<Rightarrow> position_start \<Rightarrow> bool" where
  "floor_ok digest p f \<longleftrightarrow> st_id f = None \<and> st_idDigest f = None
     \<or> (\<exists>x \<in> set (sp_store p). f = named_start digest (pr_pos x) (Some (pr_id x)))"

definition rows_left :: "(string \<Rightarrow> string) \<Rightarrow> 'b still_peer \<Rightarrow> position_start \<Rightarrow> nat" where
  "rows_left digest p f = length (filter (\<lambda>r. \<not> covers (ids_in p) digest f r) (sp_store p))"

lemma whole_read_after: "r \<in> set (whole_read sn s extra) \<Longrightarrow> after_start s r"
  by (auto simp: whole_read_def position_keyset_filters_def after_start_def split: option.splits if_splits)

text \<open>A start that names a row of the collection is resolved to that row.\<close>

lemma resolve_floor:
  assumes "inj_on digest (ids_in p)" "still_ok p" "floor_ok digest p f" "after_start (resolve_digest_start digest (sp_store p) f) x"
  shows "st_id f = None \<and> st_idDigest f = None \<and> st_pos f < pr_pos x
     \<or> (\<exists>q i. f = named_start digest q (Some i) \<and> i \<noteq> [] \<and> i \<in> ids_in p \<and> (q < pr_pos x \<or> pr_pos x = q \<and> i < pr_id x))"
  using assms(3) unfolding floor_ok_def
proof
  assume f: "st_id f = None \<and> st_idDigest f = None"
  then show ?thesis using assms(4) by (auto simp: resolve_plain after_start_def)
next
  assume "\<exists>y \<in> set (sp_store p). f = named_start digest (pr_pos y) (Some (pr_id y))"
  then obtain y where y: "y \<in> set (sp_store p)" "f = named_start digest (pr_pos y) (Some (pr_id y))" by blast
  have ids: "ids_ok (sp_store p)" using assms(2) by (simp add: still_ok_def)
  with y(1) have ne: "pr_id y \<noteq> []" by (auto simp: ids_ok_def list_all_iff)
  have "after_start \<lparr>st_pos = pr_pos y, st_id = Some (pr_id y), st_idDigest = None\<rparr> x"
  proof (cases "cursor_can_name_id (Some (pr_id y))")
    case True
    with assms(4) y(2) show ?thesis by (simp add: named_start_def resolve_plain)
  next
    case False
    let ?run = "sorted_rows (filter (\<lambda>r. pr_pos r = pr_pos y) (sp_store p))"
    have f: "st_idDigest f = Some (digest (pr_id y))" "st_pos f = pr_pos y" using False y(2) ne by (simp_all add: named_start_def)
    have "y \<in> set ?run" using y(1) by simp
    then obtain z where z: "List.find (\<lambda>r. digest (pr_id r) = digest (pr_id y)) ?run = Some z"
      by (cases "List.find (\<lambda>r. digest (pr_id r) = digest (pr_id y)) ?run") (auto simp: find_None_in)
    from find_Some_in [OF z] y(1) have "digest (pr_id z) = digest (pr_id y)" "pr_id z \<in> ids_in p" "pr_id y \<in> ids_in p"
      by (auto simp: ids_in_def)
    with assms(1) have "pr_id z = pr_id y" by (simp add: inj_on_eq_iff)
    with z f assms(4) show ?thesis by (simp add: resolve_digest_start_def)
  qed
  moreover have "pr_id y \<in> ids_in p" using y(1) by (auto simp: ids_in_def)
  ultimately show ?thesis using y(2) ne by (auto simp: after_start_def)
qed

lemma next_is_further:
  fixes x :: "'b positioned_row" and p :: "'b still_peer"
  assumes "inj_on digest (ids_in p)" "still_ok p" "floor_ok digest p f" "after_start (resolve_digest_start digest (sp_store p) f) x"
    and xin: "x \<in> set (sp_store p)"
  shows "0 < compare_position_starts digest (named_start digest (pr_pos x) (Some (pr_id x))) f" "\<not> covers (ids_in p) digest f x"
proof -
  consider (bare) "st_id f = None" "st_idDigest f = None" "st_pos f < pr_pos x"
    | (above) q i where "f = named_start digest q (Some i)" "i \<noteq> []" "q < pr_pos x"
    | (tie) i where "f = named_start digest (pr_pos x) (Some i)" "i \<noteq> []" "i < pr_id x" "i \<in> ids_in p"
    using resolve_floor [OF assms(1-4)] by metis
  then have "0 < compare_position_starts digest (named_start digest (pr_pos x) (Some (pr_id x))) f \<and> \<not> covers (ids_in p) digest f x"
  proof cases
    case bare
    then show ?thesis by (auto simp: compare_position_starts_def named_start_def covers_def)
  next
    case above
    then show ?thesis by (auto simp: compare_position_starts_def named_start_def covers_def)
  next
    case tie
    have xI: "pr_id x \<in> ids_in p" using xin by (simp add: ids_in_def)
    from tie have ne: "pr_id x \<noteq> []" "\<not> pr_id x < i" "\<not> pr_id x \<le> i" "pr_id x \<noteq> i" "i \<noteq> pr_id x" by auto
    have fl: "st_pos f = pr_pos x" "st_id f = None \<and> st_idDigest f = Some (digest i) \<or> st_id f = Some i \<and> st_idDigest f = None"
      using tie(1,2) by (auto simp: named_start_def)
    have only: "j = i" if "j \<in> ids_in p" "digest j = digest i" for j
      using inj_onD [OF assms(1) that(2,1) tie(4)] .
    show ?thesis
      using fl(2)
    proof (elim disjE conjE)
      assume "st_id f = None" "st_idDigest f = Some (digest i)"
      with fl(1) ne show ?thesis
        by (auto dest: only simp: compare_position_starts_def named_start_def covers_def Let_def inj_on_eq_iff [OF assms(1) xI tie(4)] inj_on_eq_iff [OF assms(1) tie(4) xI])
    next
      assume "st_id f = Some i" "st_idDigest f = None"
      with fl(1) ne show ?thesis
        by (simp add: compare_position_starts_def named_start_def covers_def Let_def inj_on_eq_iff [OF assms(1) xI tie(4)] inj_on_eq_iff [OF assms(1) tie(4) xI])
    qed
  qed
  then show "0 < compare_position_starts digest (named_start digest (pr_pos x) (Some (pr_id x))) f" "\<not> covers (ids_in p) digest f x"
    by simp_all
qed

lemma page_answer_head: "page_answer digest rd n = Some a \<Longrightarrow> pa_head a = max 0 (snd rd - 1)"
  by (auto simp: page_answer_def Let_def split: prod.splits if_splits)

lemma page_answer_some:
  assumes "list_all (\<lambda>r. is_position_number (pr_pos r)) xs"
  shows "\<exists>a. page_answer digest (xs, cap) n = Some a"
proof (cases "n < length xs \<and> take (page_end xs n) xs \<noteq> []")
  case True
  let ?x = "List.last (take (page_end xs n) xs)"
  have "?x \<in> set xs" using True by (metis in_set_takeD last_in_set)
  with assms have "is_position_number (pr_pos ?x)" by (simp add: list_all_iff)
  then have "\<exists>cur. encode_position_cursor digest (pr_pos ?x) (Some (pr_id ?x)) = Some cur"
    by (simp add: encode_position_cursor_def)
  then obtain cur where "encode_position_cursor digest (pr_pos ?x) (Some (pr_id ?x)) = Some cur" ..
  with True show ?thesis by (simp add: page_answer_def Let_def del: take_eq_Nil)
next
  case False
  then show ?thesis by (simp add: page_answer_def Let_def del: take_eq_Nil)
qed

lemma serve_page_answers:
  assumes "ask_ok ask f" "ask_cursor ask = None \<Longrightarrow> is_position_number (ask_afterPos ask)" "still_ok p"
  obtains n a xs where "1 \<le> n" "serve_page digest (still_snapshot p) extra limit ask = Fetch_body (Some (on_the_wire a))"
    "read_after_position digest (still_snapshot p) f (Suc n) extra = Some (xs, sp_cap p)" "page_answer digest (xs, sp_cap p) n = Some a"
proof -
  let ?n = "nat (parse_limit limit 500)"
  let ?q = "if truthy_str (ask_cursor ask) then (ask_cursor ask, None) else (None, Some (int_text (ask_afterPos ask)))"
  have st: "sync_position_start False (fst ?q) (snd ?q) = Some f"
  proof (cases "ask_cursor ask")
    case None
    with assms parse_int_text show ?thesis by (simp add: sync_position_start_def ask_ok_def bare_start_def)
  next
    case (Some c)
    with assms show ?thesis by (simp add: sync_position_start_def ask_ok_def)
  qed
  have "\<exists>rd. read_after_position digest (still_snapshot p) f (Suc ?n) extra = Some rd"
    by (simp add: read_after_position_def still_snapshot_def Let_def split: prod.split)
  then obtain xs cap where rd: "read_after_position digest (still_snapshot p) f (Suc ?n) extra = Some (xs, cap)" by auto
  from read_is_whole [OF rd] have xs: "cap = sp_cap p"
    "xs = take (Suc ?n) (whole_read (still_snapshot p) (resolve_digest_start digest (sn_resolve (still_snapshot p)) f) extra)"
    by (simp_all add: still_snapshot_def)
  have "r \<in> set (sp_store p)" if "r \<in> set xs" for r
    using that xs(2) whole_read_from [of r "still_snapshot p"] by (auto simp: still_snapshot_def dest: in_set_takeD)
  then have "list_all (\<lambda>r. is_position_number (pr_pos r)) xs" using assms(3) by (auto simp: list_all_iff still_ok_def)
  then obtain a where a: "page_answer digest (xs, cap) ?n = Some a" using page_answer_some by blast
  show ?thesis
  proof (rule that)
    show "1 \<le> ?n" by (simp add: parse_limit_def)
    show "serve_page digest (still_snapshot p) extra limit ask = Fetch_body (Some (on_the_wire a))"
      using st rd a by (simp add: serve_page_def Let_def)
  qed (use rd a xs(1) in simp_all)
qed

lemma page_answer_through:
  assumes "read_after_position digest (still_snapshot p) f (Suc n) extra = Some rd" "page_answer digest rd n = Some a" "1 \<le> n"
  shows "is_position_number (head_of p) \<Longrightarrow> is_position_number (pa_through a)"
  using assms
proof (cases rule: page_answer_cases [OF assms, case_names whole part])
  case (whole ys)
  assume "is_position_number (head_of p)"
  with whole(4) show ?thesis by (simp add: still_snapshot_def head_of_def)
next
  case (part ys m cur)
  assume h: "is_position_number (head_of p)"
  have "ys ! (m - 1) \<in> set ys" using part(3,4) by simp
  then have "pr_pos (ys ! (m - 1)) < sn_cap (still_snapshot p)" using part(1) whole_read_from by metis
  then have "pr_pos (ys ! (m - 1)) < sp_cap p" by (simp add: still_snapshot_def)
  with h part(6) show ?thesis by (auto simp: is_position_number_def head_of_def)
qed

lemma filter_less: "(\<And>r. Q r \<Longrightarrow> P r) \<Longrightarrow> x \<in> set xs \<Longrightarrow> P x \<Longrightarrow> \<not> Q x \<Longrightarrow> length (filter Q xs) < length (filter P xs)"
proof (induction xs)
  case (Cons a xs)
  show ?case
  proof (cases "x = a")
    case True
    with Cons.prems filter_length_le_filter [of xs Q P] show ?thesis by (auto simp: less_Suc_eq_le)
  next
    case False
    with Cons show ?thesis by auto
  qed
qed simp

text \<open>Following a page to its last row moves the start past it and past nothing that was covered.\<close>

lemma covers_pos: "covers I digest f r \<Longrightarrow> pr_pos r \<le> st_pos f"
  by (auto simp: covers_def)

lemma st_pos_named [simp]: "st_pos (named_start digest q i) = q"
  by (simp add: named_start_def)

lemma covers_mono:
  fixes x r :: "'b positioned_row" and p :: "'b still_peer"
  assumes "inj_on digest (ids_in p)" "still_ok p" "floor_ok digest p f" "x \<in> set (sp_store p)"
    and "after_start (resolve_digest_start digest (sp_store p) f) x" "covers (ids_in p) digest f r"
  shows "covers (ids_in p) digest (named_start digest (pr_pos x) (Some (pr_id x))) r"
proof -
  have le: "covers (ids_in p) digest (named_start digest (pr_pos x) (Some (pr_id x))) r" if "key_le r x"
    using that assms(4) by (auto simp: covers_def named_start_def key_le_def ids_in_def)
  consider (bare) "st_pos f < pr_pos x"
    | (above) q i where "f = named_start digest q (Some i)" "q < pr_pos x"
    | (tie) i where "f = named_start digest (pr_pos x) (Some i)" "i \<noteq> []" "i < pr_id x" "i \<in> ids_in p"
    using resolve_floor [OF assms(1-3,5)] by metis
  then show ?thesis
  proof cases
    case bare
    with covers_pos [OF assms(6)] show ?thesis by (intro le) (auto simp: key_le_def)
  next
    case above
    with covers_pos [OF assms(6)] show ?thesis by (intro le) (auto simp: key_le_def)
  next
    case tie
    define y where "y = x\<lparr>pr_id := i\<rparr>"
    have y: "pr_pos y = pr_pos x" "pr_id y = i" by (simp_all add: y_def)
    with tie assms(6) have "covers (ids_in p) digest (named_start digest (pr_pos y) (Some (pr_id y))) r" by simp
    moreover have "pr_id y \<in> ids_in p" using y(2) tie(4) by simp
    ultimately have "key_le r y" using named_covers [OF assms(1)] tie(2) y(2) by metis
    with y tie(3) show ?thesis by (intro le) (auto simp: key_le_def)
  qed
qed

definition reads_on :: "'b still_peer \<Rightarrow> 'b pull_state \<Rightarrow> bool" where
  "reads_on p st \<longleftrightarrow> (pu_checkedHead st \<or> ask_cursor (pu_ask st) \<noteq> None \<or> deliveredThrough (pu_outcome st) \<le> head_of p)
     \<and> (ask_cursor (pu_ask st) = None \<longrightarrow> is_position_number (ask_afterPos (pu_ask st)))"

lemma still_step:
  assumes "inj_on digest (ids_in p)" "is_digest digest" "still_ok p" "ask_ok (pu_ask st) (pu_floor st)" "floor_ok digest p (pu_floor st)"
    and "reads_on p st" and step: "pull_page digest (still_env digest p extra limit) k st = (st', e)"
  shows "truncated (pu_outcome st') = truncated (pu_outcome st) \<and> pu_behind st' = pu_behind st \<and>
    (e = Some Returned \<and> deliveredThrough (pu_outcome st') = max (deliveredThrough (pu_outcome st)) (head_of p)
     \<or> e = None \<and> ask_ok (pu_ask st') (pu_floor st') \<and> floor_ok digest p (pu_floor st') \<and> reads_on p st'
       \<and> rows_left digest p (pu_floor st') < rows_left digest p (pu_floor st)
       \<and> max (deliveredThrough (pu_outcome st')) (head_of p) = max (deliveredThrough (pu_outcome st)) (head_of p))"
proof -
  let ?env = "still_env digest p extra limit" and ?f = "pu_floor st"
  let ?s = "resolve_digest_start digest (sp_store p) ?f"
  obtain n a xs where pg: "1 \<le> n" "serve_page digest (still_snapshot p) extra limit (pu_ask st) = Fetch_body (Some (on_the_wire a))"
    "read_after_position digest (still_snapshot p) ?f (Suc n) extra = Some (xs, sp_cap p)" "page_answer digest (xs, sp_cap p) n = Some a"
    using serve_page_answers [OF assms(4) _ assms(3)] assms(6) unfolding reads_on_def by metis
  have head: "pa_head a = head_of p" using page_answer_head [OF pg(4)] by (simp add: head_of_def)
  let ?first = "\<not> pu_checkedHead st \<and> ask_cursor (pu_ask st) = None"
  let ?st1 = "st\<lparr>pu_checkedHead := pu_checkedHead st \<or> ?first\<rparr>"
  have take: "take_page digest (\<lambda>_ _. Landed) k a ?st1 = (st', e)"
    if num: "is_position_number (pa_through a)"
  proof -
    have "parse_page_answer (Some (on_the_wire a)) = Some a"
      using num head assms(3) by (simp add: parse_page_answer_def on_the_wire_def is_position_field_def still_ok_def)
    moreover have "\<not> (?first \<and> pa_head a < deliveredThrough (pu_outcome st))"
      using assms(6) head by (auto simp: reads_on_def)
    ultimately show ?thesis
      using step pg(2) unfolding pull_page_def still_env_def
      by (simp only: pull_env.select_convs fetched.case option.case Let_def if_False)
  qed
  have sn: "sn_resolve (still_snapshot p) = sp_store p" "sn_cap (still_snapshot p) = sp_cap p"
    by (simp_all add: still_snapshot_def)
  from page_answer_cases [OF pg(3,4,1)] show ?thesis
  proof cases
    case (1 ys)
    have thr: "pa_through a = head_of p" using 1(4) sn by (simp add: head_of_def)
    then have "is_position_number (pa_through a)" using assms(3) by (simp add: still_ok_def)
    from take [OF this] show ?thesis
      using 1(2) thr head by (auto simp: take_page_def Let_def next_start_def)
  next
    case (2 ys m cur)
    let ?x = "ys ! (m - 1)"
    have x: "?x \<in> set ys" using 2(3,4) by simp
    have xin: "?x \<in> set (sp_store p)" "pr_pos ?x < sp_cap p" "after_start ?s ?x"
      using x whole_read_from [of ?x "still_snapshot p"] whole_read_after [of ?x "still_snapshot p"] 2(1)
      by (auto simp: still_snapshot_def)
    have pos: "0 < pr_pos ?x" "is_position_number (pr_pos ?x)"
      using xin(1) assms(3) by (auto simp: still_ok_def list_all_iff)
    have thr: "pa_through a = pr_pos ?x - 1" "pa_through a \<le> head_of p" "is_position_number (pa_through a)"
      using 2(6) pos xin(2) by (auto simp: head_of_def is_position_number_def)
    note fl = decode_encoded [OF 2(7) assms(2)]
    let ?nx = "named_start digest (pr_pos ?x) (Some (pr_id ?x))"
    note far = next_is_further [OF assms(1,3,5) xin(3,1)]
    have items: "pa_items a \<noteq> []" using 2(3-5) by auto
    have nxt: "next_start digest a ?f = Inr (Some ?nx)"
      using 2(2) fl far(1) items by (simp add: next_start_def)
    have st': "e = None" "pu_floor st' = ?nx" "pu_ask st' = \<lparr>ask_afterPos = st_pos ?f, ask_cursor = Some cur\<rparr>"
      "deliveredThrough (pu_outcome st') = max (deliveredThrough (pu_outcome st)) (pa_through a)"
      "truncated (pu_outcome st') = truncated (pu_outcome st)" "pu_behind st' = pu_behind st"
      using take [OF thr(3)] nxt thr(2) head items 2(2) by (auto simp: take_page_def Let_def)
    have cx: "covers (ids_in p) digest ?nx ?x" using xin(1) by (auto simp: covers_def named_start_def ids_in_def)
    have "rows_left digest p ?nx < rows_left digest p ?f"
      unfolding rows_left_def
      by (rule filter_less [of _ _ ?x]) (use covers_mono [OF assms(1,3,5) xin(1,3)] xin(1) far(2) cx in auto)
    moreover have "floor_ok digest p ?nx" using xin(1) by (auto simp: floor_ok_def)
    ultimately show ?thesis
      using st' fl encoded_nonempty [OF 2(7)] named_start_one thr(2) by (simp add: ask_ok_def reads_on_def)
  qed
qed

lemma still_loop:
  assumes "inj_on digest (ids_in p)" "is_digest digest" "still_ok p"
  shows "ask_ok (pu_ask st) (pu_floor st) \<Longrightarrow> floor_ok digest p (pu_floor st) \<Longrightarrow> reads_on p st \<Longrightarrow>
    rows_left digest p (pu_floor st) < left \<Longrightarrow>
    \<exists>st'. pull_loop digest (still_env digest p extra limit) left k st = (st', Returned)
      \<and> truncated (pu_outcome st') = truncated (pu_outcome st) \<and> pu_behind st' = pu_behind st
      \<and> deliveredThrough (pu_outcome st') = max (deliveredThrough (pu_outcome st)) (head_of p)"
proof (induction left arbitrary: k st)
  case (Suc n)
  obtain s1 e1 where p: "pull_page digest (still_env digest p extra limit) k st = (s1, e1)" by force
  note step = still_step [OF assms Suc.prems(1-3) p]
  have run: "pull_loop digest (still_env digest p extra limit) (Suc n) k st =
      (case e1 of Some e \<Rightarrow> (s1, e) | None \<Rightarrow> pull_loop digest (still_env digest p extra limit) n (Suc k) s1)"
    using p by (simp add: pull_loop.simps [of _ _ "Suc n"] still_env_def split: option.split)
  show ?case
  proof (cases e1)
    case None
    with step have s1: "ask_ok (pu_ask s1) (pu_floor s1)" "floor_ok digest p (pu_floor s1)" "reads_on p s1"
      "rows_left digest p (pu_floor s1) < n" using Suc.prems(4) by auto
    from Suc.IH [OF s1, of "Suc k"] step None run show ?thesis by auto
  next
    case (Some e)
    with step run show ?thesis by auto
  qed
qed simp

section \<open>The pull as a whole\<close>

definition fresh_outcome :: "int \<Rightarrow> transfer_outcome" where
  "fresh_outcome from = \<lparr>deliveredThrough = from, truncated = False, stoppedBy = None, storeDown = False\<rparr>"

lemma fresh_outcome_dt [simp]: "deliveredThrough (fresh_outcome from) = from" "truncated (fresh_outcome from) = False"
  by (simp_all add: fresh_outcome_def)

lemma still_peer_honest:
  fixes p :: "'b still_peer"
  assumes "still_ok p"
  shows "ids_seen (\<lambda>_. still_snapshot p) = ids_in p" "stores_ok (\<lambda>_. still_snapshot p)"
    "honest_peer digest (\<lambda>_. still_snapshot p) extra limit (still_env digest p extra limit)"
    "r \<in> set (sp_store p) \<Longrightarrow> stands (\<lambda>_. still_snapshot p) r"
  using assms by (simp_all add: ids_seen_def ids_in_def still_snapshot_def stores_ok_def still_ok_def honest_peer_def
      still_env_def stands_def)

lemma rows_left_bound: "rows_left digest p f \<le> length (sp_store p)"
  by (simp add: rows_left_def)

lemma still_pull_from:
  fixes p :: "'b still_peer"
  assumes d: "inj_on digest (ids_in p)" "is_digest digest" "still_ok p" and fr: "is_position_number from" "from \<le> head_of p"
    and pages: "length (sp_store p) < pages"
  shows "\<exists>st :: 'b pull_state. page_position_runs digest (still_env digest p extra limit) (Some pages) (fresh_outcome from) = (st, Returned)
    \<and> \<not> truncated (pu_outcome st) \<and> pu_behind st = None \<and> deliveredThrough (pu_outcome st) = head_of p"
proof -
  let ?st = "pull_start (fresh_outcome from) :: 'b pull_state"
  have "ask_ok (pu_ask ?st) (pu_floor ?st)" "floor_ok digest p (pu_floor ?st)" "reads_on p ?st"
    using fr by (simp_all add: pull_start_def ask_ok_def bare_start_def floor_ok_def reads_on_def)
  from still_loop [OF d this] rows_left_bound [of digest p "pu_floor ?st"] pages fr(2) show ?thesis
    by (fastforce simp: page_position_runs_def pull_start_def)
qed

lemma still_pull_behind:
  fixes p :: "'b still_peer"
  assumes d: "inj_on digest (ids_in p)" "is_digest digest" "still_ok p" and fr: "is_position_number from" "head_of p < from"
    and pages: "Suc (length (sp_store p)) < pages"
  shows "\<exists>st :: 'b pull_state. page_position_runs digest (still_env digest p extra limit) (Some pages) (fresh_outcome from) = (st, Returned)
    \<and> \<not> truncated (pu_outcome st) \<and> pu_behind st = Some (head_of p, from) \<and> deliveredThrough (pu_outcome st) = head_of p"
proof -
  let ?env = "still_env digest p extra limit"
  let ?st = "pull_start (fresh_outcome from) :: 'b pull_state"
  define s1 :: "'b pull_state" where "s1 = ?st\<lparr>pu_checkedHead := True, pu_behind := Some (head_of p, from),
      pu_outcome := (fresh_outcome from)\<lparr>deliveredThrough := 0\<rparr>, pu_ask := \<lparr>ask_afterPos = 0, ask_cursor = None\<rparr>, pu_floor := bare_start 0\<rparr>"
  have ask: "ask_ok (pu_ask ?st) (pu_floor ?st)" "is_position_number (ask_afterPos (pu_ask ?st))"
    using fr by (simp_all add: pull_start_def ask_ok_def bare_start_def)
  obtain n a xs where pg: "1 \<le> n" "serve_page digest (still_snapshot p) extra limit (pu_ask ?st) = Fetch_body (Some (on_the_wire a))"
    "read_after_position digest (still_snapshot p) (pu_floor ?st) (Suc n) extra = Some (xs, sp_cap p)"
    "page_answer digest (xs, sp_cap p) n = Some a"
    using serve_page_answers [OF ask(1) ask(2) d(3)] by metis
  have head: "pa_head a = head_of p" using page_answer_head [OF pg(4)] by (simp add: head_of_def)
  have "is_position_number (pa_through a)"
    using page_answer_through [OF pg(3,4,1)] d(3) by (simp add: still_ok_def)
  then have body: "parse_page_answer (Some (on_the_wire a)) = Some a"
    using head d(3) by (simp add: parse_page_answer_def on_the_wire_def is_position_field_def still_ok_def)
  have fetch: "pe_fetch ?env 0 (pu_ask ?st) = Fetch_body (Some (on_the_wire a))"
    using pg(2) by (simp add: still_env_def)
  have "pull_page digest ?env 0 ?st = (s1, None)"
    unfolding pull_page_def fetch fetched.case body option.case Let_def using head fr(2)
    by (simp add: s1_def pull_start_def)
  then have step: "pull_loop digest ?env pages 0 ?st = pull_loop digest ?env (pages - 1) (Suc 0) s1"
    using pages by (cases pages) (simp_all add: pull_loop.simps [of _ _ "Suc m" for m] still_env_def)
  have "ask_ok (pu_ask s1) (pu_floor s1)" "floor_ok digest p (pu_floor s1)" "reads_on p s1"
    by (simp_all add: s1_def ask_ok_def bare_start_def floor_ok_def reads_on_def is_position_number_def)
  from still_loop [OF d this] rows_left_bound [of digest p "pu_floor s1"] pages step show ?thesis
    by (fastforce simp: page_position_runs_def s1_def head_of_def)
qed

text \<open>
  Property C23: a pull of a collection that stands still, from a peer that answers, ends, and not at its
  bound: with one request per row and two more it returns untruncated, complete through the peer's head,
  with every row above its mark delivered; and a mark above the peer's head, left by a peer restored from
  a backup, costs one request and starts again from the first row.
\<close>

theorem pull_reaches_head:
  fixes p :: "'b still_peer" and st :: "'b pull_state"
  assumes "inj_on digest (ids_in p)" "is_digest digest" "still_ok p" "is_position_number from"
    and "Suc (length (sp_store p)) < pages"
    and run: "page_position_runs digest (still_env digest p extra limit) (Some pages) (fresh_outcome from) = (st, e)"
  shows "e = Returned \<and> \<not> truncated (pu_outcome st) \<and> deliveredThrough (pu_outcome st) = head_of p
    \<and> list_all (\<lambda>r. extra r \<and> (if from \<le> head_of p then from else 0) < pr_pos r \<and> pr_pos r < sp_cap p
        \<longrightarrow> item_of r \<in> set (pu_delivered st)) (sp_store p)"
proof -
  have ends: "e = Returned \<and> \<not> truncated (pu_outcome st) \<and> deliveredThrough (pu_outcome st) = head_of p
      \<and> (pu_behind st = None \<longleftrightarrow> from \<le> head_of p)"
  proof (cases "from \<le> head_of p")
    case True
    from still_pull_from [OF assms(1-4) True, of pages extra limit] assms(5) run True show ?thesis by auto
  next
    case False
    from still_pull_behind [OF assms(1-4) _ assms(5), of extra limit] run False show ?thesis by auto
  qed
  have base: "pull_base from st = (if from \<le> head_of p then from else 0)" using ends by (simp add: pull_base_def)
  have "item_of r \<in> set (pu_delivered st)"
    if r: "r \<in> set (sp_store p)" "extra r" "pull_base from st < pr_pos r" "pr_pos r < sp_cap p" for r
  proof -
    have "pr_pos r \<le> deliveredThrough (pu_outcome st)" using r(4) ends by (simp add: head_of_def)
    with pull_delivers [of digest "\<lambda>_. still_snapshot p" extra limit "still_env digest p extra limit" "fresh_outcome from"]
      still_peer_honest [OF assms(3)] assms(1,2,4) run r show ?thesis
      by (simp add: is_position_number_def)
  qed
  with ends base show ?thesis by (simp add: list_all_iff)
qed

definition demo_hash :: "string \<Rightarrow> string" where
  "demo_hash s = replicate 63 (CHR ''0'') @ [if s = ''b'' then CHR ''1'' else CHR ''2'']"

definition demo_peer :: "nat still_peer" where
  "demo_peer = \<lparr>sp_store = [\<lparr>pr_id = ''b'', pr_pos = 5, pr_body = 1\<rparr>, \<lparr>pr_id = ''a'', pr_pos = 5, pr_body = 2\<rparr>], sp_cap = 9\<rparr>"

lemma is_digest_demo_hash: "is_digest demo_hash"
  by (simp add: is_digest_def demo_hash_def is_hex_lower_def list_all_iff)

definition demo_run :: "nat pull_state \<times> transfer_end" where
  "demo_run = page_position_runs demo_hash (still_env demo_hash demo_peer (\<lambda>_. True) 1) (Some 4) (fresh_outcome 3)"

lemma pull_reaches_head_witness:
  "snd demo_run = Returned \<and> deliveredThrough (pu_outcome (fst demo_run)) = 8
     \<and> (''a'', 2) \<in> set (pu_delivered (fst demo_run)) \<and> (''b'', 1) \<in> set (pu_delivered (fst demo_run))"
proof -
  have d: "inj_on demo_hash (ids_in demo_peer)"
    by (simp add: ids_in_def demo_peer_def demo_hash_def)
  have ok: "still_ok demo_peer" by (simp add: still_ok_def demo_peer_def ids_ok_def is_position_number_def head_of_def)
  have num: "is_position_number 3" by (simp add: is_position_number_def)
  have "Suc (length (sp_store demo_peer)) < 4" by (simp add: demo_peer_def)
  from pull_reaches_head [OF d is_digest_demo_hash ok num this, of "\<lambda>_. True" 1 "fst demo_run" "snd demo_run"] show ?thesis
    by (simp add: demo_run_def demo_peer_def head_of_def item_of_def)
qed

end
