(* ===== verification/Positions.thy ===== *)
theory Positions
  imports Js_Object
begin

text \<open>
  The position clock of a space's stream (\<open>server/src/util/position-clock.ts\<close>) and the holds that keep
  every reader below a write that has not ended (\<open>server/src/util/horizon-holds.ts\<close>).  A position is
  counted in the stream's unit: the ISO text of a millisecond stream has a fixed width, so its texts
  compare as the instants do.  An operation runs from its last \<open>await\<close> to its next in one step; what
  the seed answered, when it is asked, and what the wall clock read are arguments.  A call that runs a
  write is two operations here, the one that takes the position with its hold and the release in the
  \<open>finally\<close>.  The lemmas are about every order in which such steps can follow each other.
\<close>

section \<open>Holds\<close>

record hold =
  h_id :: nat
  h_floor :: int
  h_since :: int
  h_holder :: string

text \<open>\<open>/^\S+$/\<close>: one word.\<close>

definition is_space :: "char \<Rightarrow> bool" where
  "is_space c \<longleftrightarrow> (of_char c :: nat) \<in> {9, 10, 11, 12, 13, 32, 160}"

definition require_holder :: "string \<Rightarrow> bool" where
  "require_holder holder \<longleftrightarrow> holder \<noteq> [] \<and> list_all (\<lambda>c. \<not> is_space c) holder"

definition lower_floor :: "int option \<Rightarrow> hold \<Rightarrow> int option" where
  "lower_floor low h = (case low of None \<Rightarrow> Some (h_floor h)
     | Some l \<Rightarrow> if h_floor h < l then Some (h_floor h) else Some l)"

definition lowest :: "hold list \<Rightarrow> int option" where
  "lowest hs = foldl lower_floor None hs"

text \<open>How long the oldest hold is open, in milliseconds; 0 when none is.\<close>

definition oldest_age :: "hold list \<Rightarrow> int \<Rightarrow> int" where
  "oldest_age hs now = (if hs = [] then 0 else max 0 (now - Min (set (map h_since hs))))"

section \<open>Streams\<close>

datatype position_unit = Microseconds | Milliseconds

datatype seed_policy = Refuse | Wall_clock

record position_stream =
  ps_unit :: position_unit
  ps_onSeedFailure :: seed_policy
  ps_clocks :: "(string, int) es_map"
  ps_holds :: "(string, hold list) es_map"
  ps_lastStampRefused :: bool
  ps_objects :: nat

datatype position_error = Bad_count | Block_of_milliseconds | Unnamed_holder | Seed_unavailable | Clock_unusable

text \<open>What one call reads from the wall clock: for the check, for the stamp, and for the hold's age.\<close>

record readings =
  rd_check :: int
  rd_stamp :: int
  rd_since :: int

definition MAX_SYNC_SEQ :: int where "MAX_SYNC_SEQ = 2 ^ 50"

definition MICROSECOND_BAND_FLOOR :: int where "MICROSECOND_BAND_FLOOR = MAX_SYNC_SEQ"

definition FIRST_USABLE_MS :: int where "FIRST_USABLE_MS = MICROSECOND_BAND_FLOOR div 1000 + 1"

definition create_position_stream :: "position_unit \<Rightarrow> seed_policy \<Rightarrow> position_stream" where
  "create_position_stream u policy = \<lparr>ps_unit = u, ps_onSeedFailure = policy, ps_clocks = [],
     ps_holds = [], ps_lastStampRefused = False, ps_objects = 0\<rparr>"

definition wall :: "position_stream \<Rightarrow> int \<Rightarrow> int" where
  "wall s ms = (if ps_unit s = Microseconds then ms * 1000 else ms)"

definition next_position :: "position_stream \<Rightarrow> int \<Rightarrow> int \<Rightarrow> int" where
  "next_position s newest ms = max (wall s ms) (newest + 1)"

definition holds_of :: "position_stream \<Rightarrow> string \<Rightarrow> hold list" where
  "holds_of s sp = (case map_of (ps_holds s) sp of None \<Rightarrow> [] | Some hs \<Rightarrow> hs)"

definition enter_hold :: "position_stream \<Rightarrow> string \<Rightarrow> int \<Rightarrow> int \<Rightarrow> string \<Rightarrow> position_stream \<times> nat" where
  "enter_hold s sp fl since holder =
     (let h = \<lparr>h_id = ps_objects s, h_floor = fl, h_since = since, h_holder = holder\<rparr>
      in (s\<lparr>ps_holds := map_put sp (holds_of s sp @ [h]) (ps_holds s), ps_objects := Suc (ps_objects s)\<rparr>, h_id h))"

definition release_hold :: "position_stream \<Rightarrow> string \<Rightarrow> nat \<Rightarrow> position_stream" where
  "release_hold s sp i =
     (case map_of (ps_holds s) sp of
        None \<Rightarrow> s
      | Some hs \<Rightarrow>
          let hs' = filter (\<lambda>h. h_id h \<noteq> i) hs
          in s\<lparr>ps_holds := if hs' = [] then map_del sp (ps_holds s) else map_put sp hs' (ps_holds s)\<rparr>)"

section \<open>The clock of a space\<close>

text \<open>
  The clock is seeded once; a seed that fails (\<open>None\<close>) is not remembered.  For a write, a stream that
  may stamp from the wall clock alone starts from 0 with a clock of its own, which is dropped: the flag
  says whether the clock is the stream's.
\<close>

definition clock_of :: "position_stream \<Rightarrow> string \<Rightarrow> int option \<Rightarrow> position_stream \<times> int option" where
  "clock_of s sp seed =
     (case map_of (ps_clocks s) sp of
        Some newest \<Rightarrow> (s, Some newest)
      | None \<Rightarrow> (case seed of
            None \<Rightarrow> (s, None)
          | Some t \<Rightarrow> (s\<lparr>ps_clocks := map_put sp (max 0 t) (ps_clocks s)\<rparr>, Some (max 0 t))))"

definition clock_for_write ::
  "position_stream \<Rightarrow> string \<Rightarrow> int option \<Rightarrow> position_stream \<times> (position_error + int \<times> bool)" where
  "clock_for_write s sp seed =
     (case clock_of s sp seed of
        (s', Some newest) \<Rightarrow> (s', Inr (newest, True))
      | (s', None) \<Rightarrow> (s', if ps_onSeedFailure s' = Refuse then Inl Seed_unavailable else Inr (0, False)))"

definition assert_usable :: "position_stream \<Rightarrow> int \<Rightarrow> position_stream \<times> bool" where
  "assert_usable s ms =
     (if ps_unit s \<noteq> Microseconds then (s, True)
      else if wall s ms \<le> MICROSECOND_BAND_FLOOR then (s\<lparr>ps_lastStampRefused := True\<rparr>, False)
      else (s\<lparr>ps_lastStampRefused := False\<rparr>, True))"

text \<open>The two lines every stamp begins with: the clock, then the check of the wall clock.\<close>

definition usable_clock ::
  "position_stream \<Rightarrow> string \<Rightarrow> int option \<Rightarrow> int \<Rightarrow> position_stream \<times> (position_error + int \<times> bool)" where
  "usable_clock s sp seed ms =
     (case clock_for_write s sp seed of
        (s', Inl e) \<Rightarrow> (s', Inl e)
      | (s', Inr c) \<Rightarrow> (case assert_usable s' ms of
            (s'', ok) \<Rightarrow> (s'', if ok then Inr c else Inl Clock_unusable)))"

definition set_newest :: "position_stream \<Rightarrow> string \<Rightarrow> bool \<Rightarrow> int \<Rightarrow> position_stream" where
  "set_newest s sp stored v = (if stored then s\<lparr>ps_clocks := map_put sp v (ps_clocks s)\<rparr> else s)"

definition with_position_held ::
  "position_stream \<Rightarrow> string \<Rightarrow> int option \<Rightarrow> readings \<Rightarrow> string \<Rightarrow> int
     \<Rightarrow> position_stream \<times> (position_error + int \<times> nat)" where
  "with_position_held s sp seed rd holder n =
     (if n < 1 then (s, Inl Bad_count)
      else if ps_unit s = Milliseconds \<and> n \<noteq> 1 then (s, Inl Block_of_milliseconds)
      else if \<not> require_holder holder then (s, Inl Unnamed_holder)
      else case usable_clock s sp seed (rd_check rd) of
          (s1, Inl e) \<Rightarrow> (s1, Inl e)
        | (s1, Inr (newest, stored)) \<Rightarrow>
            let start = next_position s1 newest (rd_stamp rd);
                s2 = set_newest s1 sp stored (start + n - 1)
            in (case enter_hold s2 sp start (rd_since rd) holder of (s3, i) \<Rightarrow> (s3, Inr (start, i))))"

definition with_position_floor_held ::
  "position_stream \<Rightarrow> string \<Rightarrow> int option \<Rightarrow> readings \<Rightarrow> string
     \<Rightarrow> position_stream \<times> (position_error + int \<times> nat)" where
  "with_position_floor_held s sp seed rd holder =
     (if \<not> require_holder holder then (s, Inl Unnamed_holder)
      else case usable_clock s sp seed (rd_check rd) of
          (s1, Inl e) \<Rightarrow> (s1, Inl e)
        | (s1, Inr (newest, stored)) \<Rightarrow>
            let fl = next_position s1 newest (rd_stamp rd);
                s2 = set_newest s1 sp stored (max newest (fl - 1))
            in (case enter_hold s2 sp fl (rd_since rd) holder of (s3, i) \<Rightarrow> (s3, Inr (fl, i))))"

definition next_unheld_position ::
  "position_stream \<Rightarrow> string \<Rightarrow> int option \<Rightarrow> readings \<Rightarrow> position_stream \<times> (position_error + int)" where
  "next_unheld_position s sp seed rd =
     (case usable_clock s sp seed (rd_check rd) of
        (s1, Inl e) \<Rightarrow> (s1, Inl e)
      | (s1, Inr (newest, stored)) \<Rightarrow>
          let start = next_position s1 newest (rd_stamp rd)
          in (set_newest s1 sp stored start, Inr start))"

text \<open>The position strictly below which a reader may read; \<open>None\<close> when the seed could not be read.\<close>

definition settled_position_cap :: "position_stream \<Rightarrow> string \<Rightarrow> int option \<Rightarrow> int \<Rightarrow> position_stream \<times> int option" where
  "settled_position_cap s sp seed ms =
     (case clock_of s sp seed of
        (s', None) \<Rightarrow> (s', None)
      | (s', Some newest) \<Rightarrow>
          (s', Some (case lowest (holds_of s' sp) of Some l \<Rightarrow> l | None \<Rightarrow> next_position s' newest ms)))"

section \<open>What can follow what\<close>

text \<open>
  A stream with the blocks it has handed out, oldest first; \<open>k_hold\<close> names the hold of a block whose
  write a reader waits for.  The steps are the operations above, in any order and for any space; \<open>R\<close>
  bounds what the wall clock may read when a stamp is taken.
\<close>

record taken =
  k_space :: string
  k_first :: int
  k_last :: int
  k_hold :: "nat option"

record world =
  w_stream :: position_stream
  w_taken :: "taken list"

definition still_open :: "position_stream \<Rightarrow> taken \<Rightarrow> bool" where
  "still_open s t \<longleftrightarrow> (\<exists>h \<in> set (holds_of s (k_space t)). k_hold t = Some (h_id h))"

inductive position_step :: "int set \<Rightarrow> world \<Rightarrow> world \<Rightarrow> bool" for R where
  write_begins:
    "with_position_held s sp seed rd holder n = (s', Inr (start, i)) \<Longrightarrow> rd_stamp rd \<in> R \<Longrightarrow>
     position_step R \<lparr>w_stream = s, w_taken = ts\<rparr>
       \<lparr>w_stream = s', w_taken = ts @ [\<lparr>k_space = sp, k_first = start, k_last = start + n - 1, k_hold = Some i\<rparr>]\<rparr>"
| write_refused:
    "with_position_held s sp seed rd holder n = (s', Inl e) \<Longrightarrow>
     position_step R \<lparr>w_stream = s, w_taken = ts\<rparr> \<lparr>w_stream = s', w_taken = ts\<rparr>"
| floor_begins:
    "with_position_floor_held s sp seed rd holder = (s', r) \<Longrightarrow> rd_stamp rd \<in> R \<Longrightarrow>
     position_step R \<lparr>w_stream = s, w_taken = ts\<rparr> \<lparr>w_stream = s', w_taken = ts\<rparr>"
| unheld_taken:
    "next_unheld_position s sp seed rd = (s', Inr start) \<Longrightarrow> rd_stamp rd \<in> R \<Longrightarrow>
     position_step R \<lparr>w_stream = s, w_taken = ts\<rparr>
       \<lparr>w_stream = s', w_taken = ts @ [\<lparr>k_space = sp, k_first = start, k_last = start, k_hold = None\<rparr>]\<rparr>"
| unheld_refused:
    "next_unheld_position s sp seed rd = (s', Inl e) \<Longrightarrow>
     position_step R \<lparr>w_stream = s, w_taken = ts\<rparr> \<lparr>w_stream = s', w_taken = ts\<rparr>"
| hold_ends:
    "position_step R \<lparr>w_stream = s, w_taken = ts\<rparr> \<lparr>w_stream = release_hold s sp i, w_taken = ts\<rparr>"
| cap_read:
    "settled_position_cap s sp seed ms = (s', c) \<Longrightarrow>
     position_step R \<lparr>w_stream = s, w_taken = ts\<rparr> \<lparr>w_stream = s', w_taken = ts\<rparr>"

definition started :: "position_unit \<Rightarrow> world" where
  "started u = \<lparr>w_stream = create_position_stream u Refuse, w_taken = []\<rparr>"

definition reachable :: "position_unit \<Rightarrow> world \<Rightarrow> bool" where
  "reachable u w \<longleftrightarrow> (position_step UNIV)\<^sup>*\<^sup>* (started u) w"

section \<open>Lemmas: one operation\<close>

abbreviation newest_of :: "position_stream \<Rightarrow> string \<Rightarrow> int option" where
  "newest_of s \<equiv> map_of (ps_clocks s)"

lemma holds_of_enter:
  "enter_hold s sp fl since holder = (s', i) \<Longrightarrow> i = ps_objects s \<and> ps_objects s' = Suc (ps_objects s)
     \<and> ps_clocks s' = ps_clocks s \<and> ps_onSeedFailure s' = ps_onSeedFailure s \<and> ps_unit s' = ps_unit s
     \<and> holds_of s' = (holds_of s)(sp := holds_of s sp @ [\<lparr>h_id = i, h_floor = fl, h_since = since, h_holder = holder\<rparr>])"
  by (auto simp: enter_hold_def Let_def holds_of_def map_of_map_put fun_eq_iff split: option.splits)

lemma holds_of_release:
  "holds_of (release_hold s sp i) = (holds_of s)(sp := filter (\<lambda>h. h_id h \<noteq> i) (holds_of s sp))"
  by (auto simp: release_hold_def Let_def holds_of_def map_of_map_put map_of_map_del fun_eq_iff split: option.splits)

lemma release_frame [frame]:
  "ps_clocks (release_hold s sp i) = ps_clocks s" "ps_onSeedFailure (release_hold s sp i) = ps_onSeedFailure s"
  "ps_objects (release_hold s sp i) = ps_objects s" "ps_unit (release_hold s sp i) = ps_unit s"
  by (simp_all add: release_hold_def Let_def split: option.split)

text \<open>A read that at most seeds a clock or sets the flag of the gauge.\<close>

definition calm :: "position_stream \<Rightarrow> position_stream \<Rightarrow> bool" where
  "calm s s' \<longleftrightarrow> ps_holds s' = ps_holds s \<and> ps_objects s' = ps_objects s \<and> ps_unit s' = ps_unit s
     \<and> ps_onSeedFailure s' = ps_onSeedFailure s \<and> newest_of s \<subseteq>\<^sub>m newest_of s'"

lemma calm_refl [simp]: "calm s s"
  by (simp add: calm_def)

lemma calm_trans: "calm s s' \<Longrightarrow> calm s' s'' \<Longrightarrow> calm s s''"
  by (auto simp: calm_def intro: map_le_trans)

lemma clock_of_calm:
  "clock_of s sp seed = (s', r) \<Longrightarrow> calm s s' \<and> (\<forall>l. r = Some l \<longrightarrow> newest_of s' sp = Some l)"
  by (auto simp: clock_of_def calm_def map_of_map_put map_le_def split: option.splits)

lemma assert_usable_calm: "assert_usable s ms = (s', b) \<Longrightarrow> calm s s' \<and> ps_clocks s' = ps_clocks s"
  by (auto simp: assert_usable_def calm_def split: if_splits)

lemma usable_clock_calm:
  assumes "usable_clock s sp seed ms = (s', r)" "ps_onSeedFailure s = Refuse"
  shows "calm s s' \<and> (\<forall>l b. r = Inr (l, b) \<longrightarrow> b \<and> newest_of s' sp = Some l)"
proof -
  obtain s1 o1 where c: "clock_of s sp seed = (s1, o1)" by force
  from clock_of_calm [OF c] have s1: "calm s s1" "\<forall>l. o1 = Some l \<longrightarrow> newest_of s1 sp = Some l" by auto
  have ref: "ps_onSeedFailure s1 = Refuse" using s1(1) assms(2) by (simp add: calm_def)
  obtain s2 ok where a: "assert_usable s1 ms = (s2, ok)" by force
  from assert_usable_calm [OF a] have s2: "calm s1 s2" "ps_clocks s2 = ps_clocks s1" by auto
  show ?thesis
    using assms c s1 ref a s2
    by (cases o1) (auto simp: usable_clock_def clock_for_write_def intro: calm_trans split: if_splits)
qed

section \<open>Lemmas: the invariant\<close>

definition holds_ok :: "position_stream \<Rightarrow> bool" where
  "holds_ok s \<longleftrightarrow> (\<forall>sp. \<forall>h \<in> set (holds_of s sp). h_id h < ps_objects s \<and> (\<exists>l. newest_of s sp = Some l \<and> h_floor h \<le> l + 1))"

definition taken_ok :: "position_stream \<Rightarrow> taken \<Rightarrow> bool" where
  "taken_ok s t \<longleftrightarrow> k_first t \<le> k_last t \<and> (\<exists>l. newest_of s (k_space t) = Some l \<and> k_last t \<le> l)
     \<and> (\<forall>i. k_hold t = Some i \<longrightarrow> i < ps_objects s)
     \<and> (\<forall>h \<in> set (holds_of s (k_space t)). k_hold t = Some (h_id h) \<longrightarrow> h_floor h = k_first t)"

definition before :: "taken \<Rightarrow> taken \<Rightarrow> bool" where
  "before a b \<longleftrightarrow> (k_space a = k_space b \<longrightarrow> k_last a < k_first b)"

definition world_ok :: "world \<Rightarrow> bool" where
  "world_ok w \<longleftrightarrow> ps_onSeedFailure (w_stream w) = Refuse \<and> holds_ok (w_stream w)
     \<and> list_all (taken_ok (w_stream w)) (w_taken w) \<and> sorted_wrt before (w_taken w)"

lemma holds_of_calm: "calm s s' \<Longrightarrow> holds_of s' = holds_of s"
  by (simp add: calm_def holds_of_def fun_eq_iff)

lemma newest_calm: "calm s s' \<Longrightarrow> newest_of s x = Some l \<Longrightarrow> newest_of s' x = Some l"
  unfolding calm_def map_le_def by (metis domI)

lemma world_ok_calm:
  assumes "world_ok \<lparr>w_stream = s, w_taken = ts\<rparr>" "calm s s'"
  shows "world_ok \<lparr>w_stream = s', w_taken = ts\<rparr>"
proof -
  have eq: "ps_objects s' = ps_objects s" "ps_onSeedFailure s' = ps_onSeedFailure s"
    using assms(2) by (simp_all add: calm_def)
  have "holds_ok s'"
    using assms(1) newest_calm [OF assms(2)] unfolding world_ok_def holds_ok_def
    by (simp add: holds_of_calm [OF assms(2)] eq) blast
  moreover have "taken_ok s' t" if "taken_ok s t" for t
    using that newest_calm [OF assms(2)] unfolding taken_ok_def by (simp add: holds_of_calm [OF assms(2)] eq) blast
  ultimately show ?thesis using assms(1) by (auto simp: world_ok_def eq list_all_iff)
qed

text \<open>
  The one way a stamp moves a stream: the clock of its space goes up, a hold may be entered, and what
  is handed out lies above everything before.
\<close>

definition moved_on :: "position_stream \<Rightarrow> string \<Rightarrow> int \<Rightarrow> hold list \<Rightarrow> position_stream \<Rightarrow> bool" where
  "moved_on s sp l' new s' \<longleftrightarrow> ps_onSeedFailure s' = ps_onSeedFailure s \<and> ps_unit s' = ps_unit s
     \<and> newest_of s' = (newest_of s)(sp \<mapsto> l') \<and> holds_of s' = (holds_of s)(sp := holds_of s sp @ new)
     \<and> ps_objects s \<le> ps_objects s' \<and> (\<forall>l. newest_of s sp = Some l \<longrightarrow> l \<le> l')
     \<and> (\<forall>h \<in> set new. h_id h = ps_objects s \<and> h_id h < ps_objects s' \<and> h_floor h \<le> l' + 1)"

definition fresh_block :: "position_stream \<Rightarrow> string \<Rightarrow> int \<Rightarrow> hold list \<Rightarrow> taken \<Rightarrow> bool" where
  "fresh_block s sp l' new t \<longleftrightarrow> k_space t = sp \<and> k_first t \<le> k_last t \<and> k_last t \<le> l'
     \<and> (\<forall>l. newest_of s sp = Some l \<longrightarrow> l < k_first t)
     \<and> (case k_hold t of None \<Rightarrow> True | Some i \<Rightarrow> list_all (\<lambda>h. h_id h = i \<and> h_floor h = k_first t) new \<and> new \<noteq> [])"

lemma moved_on_taken_ok:
  assumes "taken_ok s t" "moved_on s sp l' new s'"
  shows "taken_ok s' t"
proof -
  have "\<exists>l. newest_of s' (k_space t) = Some l \<and> k_last t \<le> l"
    using assms unfolding taken_ok_def moved_on_def by (cases "k_space t = sp") (auto intro: order_trans)
  moreover have "h_floor h = k_first t" if "h \<in> set (holds_of s' (k_space t))" "k_hold t = Some (h_id h)" for h
    using that assms unfolding taken_ok_def moved_on_def by (auto split: if_splits)
  ultimately show ?thesis
    using assms unfolding taken_ok_def moved_on_def by (auto intro: order_less_le_trans)
qed

lemma moved_on_holds_ok:
  assumes "holds_ok s" "moved_on s sp l' new s'"
  shows "holds_ok s'"
  unfolding holds_ok_def
proof (intro allI ballI)
  fix x h
  assume h: "h \<in> set (holds_of s' x)"
  show "h_id h < ps_objects s' \<and> (\<exists>l. newest_of s' x = Some l \<and> h_floor h \<le> l + 1)"
  proof (cases "h \<in> set (holds_of s x)")
    case True
    then obtain l where l: "h_id h < ps_objects s" "newest_of s x = Some l" "h_floor h \<le> l + 1"
      using assms(1) unfolding holds_ok_def by blast
    with assms(2) show ?thesis unfolding moved_on_def by (cases "x = sp") auto
  next
    case False
    with h assms(2) show ?thesis unfolding moved_on_def by (auto split: if_splits)
  qed
qed

lemma fresh_block_ok:
  assumes "holds_ok s" "moved_on s sp l' new s'" "fresh_block s sp l' new t"
  shows "taken_ok s' t"
proof -
  have "h_floor h = k_first t" if h: "h \<in> set (holds_of s sp @ new)" and k: "k_hold t = Some (h_id h)" for h
  proof -
    obtain g where g: "g \<in> set new" "h_id g = h_id h" "h_floor g = k_first t"
      using assms(3) k unfolding fresh_block_def by (cases new) auto
    with assms(2) have "h_id h = ps_objects s" unfolding moved_on_def by auto
    with assms(1) have "h \<notin> set (holds_of s sp)" unfolding holds_ok_def by fastforce
    with h have "h \<in> set new" by simp
    moreover have "list_all (\<lambda>g. h_id g = h_id h \<and> h_floor g = k_first t) new"
      using assms(3) k by (simp add: fresh_block_def)
    ultimately show ?thesis unfolding list_all_iff by blast
  qed
  moreover have "i < ps_objects s'" if i: "k_hold t = Some i" for i
  proof -
    obtain g where "g \<in> set new" "h_id g = i"
      using assms(3) i unfolding fresh_block_def by (cases new) auto
    with assms(2) show ?thesis unfolding moved_on_def by auto
  qed
  ultimately show ?thesis
    using assms(2,3) unfolding taken_ok_def moved_on_def fresh_block_def by simp
qed

lemma world_ok_moved_on:
  assumes "world_ok \<lparr>w_stream = s, w_taken = ts\<rparr>" "newest_of s sp \<noteq> None" "moved_on s sp l' new s'"
    and "list_all (fresh_block s sp l' new) us" "length us \<le> 1"
  shows "world_ok \<lparr>w_stream = s', w_taken = ts @ us\<rparr>"
proof -
  have ok: "holds_ok s" "list_all (taken_ok s) ts" "sorted_wrt before ts"
    using assms(1) by (simp_all add: world_ok_def)
  have "list_all (taken_ok s') (ts @ us)"
    using ok assms(4) moved_on_taken_ok [OF _ assms(3)] fresh_block_ok [OF ok(1) assms(3)]
    by (auto simp: list_all_iff)
  moreover have "before t u" if "t \<in> set ts" "u \<in> set us" for t u
    using that ok(2) assms(2,4) unfolding before_def list_all_iff taken_ok_def fresh_block_def by fastforce
  moreover have "sorted_wrt before us" using assms(5) by (cases us) auto
  moreover have "holds_ok s'" by (rule moved_on_holds_ok [OF ok(1) assms(3)])
  ultimately show ?thesis
    using assms(1,3) ok(3) by (simp add: world_ok_def sorted_wrt_append moved_on_def)
qed

lemma with_position_held_moves:
  assumes "with_position_held s sp seed rd holder n = (s', Inr (start, i))" "ps_onSeedFailure s = Refuse"
  obtains s1 new where "calm s s1" "newest_of s1 sp \<noteq> None" "moved_on s1 sp (start + n - 1) new s'"
    "fresh_block s1 sp (start + n - 1) new \<lparr>k_space = sp, k_first = start, k_last = start + n - 1, k_hold = Some i\<rparr>"
    "wall s1 (rd_stamp rd) \<le> start"
proof -
  obtain s1 l b where u: "usable_clock s sp seed (rd_check rd) = (s1, Inr (l, b))"
    using assms(1) by (auto simp: with_position_held_def split: if_splits prod.splits sum.splits)
  from usable_clock_calm [OF u assms(2)] have f: "calm s s1" "b" "newest_of s1 sp = Some l" by auto
  have n: "1 \<le> n" using assms(1) by (auto simp: with_position_held_def split: if_splits)
  obtain s2 where s2: "s2 = s1\<lparr>ps_clocks := map_put sp (start + n - 1) (ps_clocks s1)\<rparr>"
    and e: "enter_hold s2 sp start (rd_since rd) holder = (s', i)"
    and st: "start = next_position s1 l (rd_stamp rd)"
    using assms(1) u f(2)
    by (auto simp: with_position_held_def Let_def set_newest_def split: if_splits prod.splits)
  have h2: "holds_of s2 = holds_of s1" "ps_objects s2 = ps_objects s1" "ps_onSeedFailure s2 = ps_onSeedFailure s1" "ps_unit s2 = ps_unit s1"
    "newest_of s2 = (newest_of s1)(sp \<mapsto> start + n - 1)"
    by (auto simp: s2 holds_of_def map_of_map_put)
  from holds_of_enter [OF e] h2 n st f(3) show ?thesis
    by (intro that [of s1 "[\<lparr>h_id = i, h_floor = start, h_since = rd_since rd, h_holder = holder\<rparr>]"] f(1))
      (auto simp: moved_on_def fresh_block_def next_position_def)
qed

lemma with_position_floor_held_moves:
  assumes "with_position_floor_held s sp seed rd holder = (s', r)" "ps_onSeedFailure s = Refuse"
  shows "(\<exists>fl i l s1 new. r = Inr (fl, i) \<and> calm s s1 \<and> newest_of s1 sp = Some l
      \<and> moved_on s1 sp (max l (fl - 1)) new s') \<or> (\<exists>e. r = Inl e \<and> calm s s')"
proof (cases "require_holder holder")
  case False
  with assms show ?thesis by (auto simp: with_position_floor_held_def)
next
  case True
  obtain s1 c where u: "usable_clock s sp seed (rd_check rd) = (s1, c)" by force
  from usable_clock_calm [OF u assms(2)] have f: "calm s s1" "\<forall>l b. c = Inr (l, b) \<longrightarrow> b \<and> newest_of s1 sp = Some l" by auto
  show ?thesis
  proof (cases c)
    case (Inl e)
    with True assms u f show ?thesis by (auto simp: with_position_floor_held_def)
  next
    case (Inr p)
    then obtain l where l: "c = Inr (l, True)" "newest_of s1 sp = Some l" using f(2) by (cases p) auto
    let ?fl = "next_position s1 l (rd_stamp rd)"
    let ?s2 = "s1\<lparr>ps_clocks := map_put sp (max l (?fl - 1)) (ps_clocks s1)\<rparr>"
    obtain i where e: "enter_hold ?s2 sp ?fl (rd_since rd) holder = (s', i)" "r = Inr (?fl, i)"
      using True assms(1) u l by (auto simp: with_position_floor_held_def Let_def set_newest_def split: prod.splits)
    have h2: "holds_of ?s2 = holds_of s1" by (auto simp: holds_of_def)
    from holds_of_enter [OF e(1)] h2 l(2)
    have "moved_on s1 sp (max l (?fl - 1)) [\<lparr>h_id = i, h_floor = ?fl, h_since = rd_since rd, h_holder = holder\<rparr>] s'"
      by (auto simp: moved_on_def map_of_map_put)
    with e(2) f(1) l(2) show ?thesis by blast
  qed
qed

lemma next_unheld_position_moves:
  assumes "next_unheld_position s sp seed rd = (s', Inr start)" "ps_onSeedFailure s = Refuse"
  obtains s1 where "calm s s1" "newest_of s1 sp \<noteq> None" "moved_on s1 sp start [] s'"
    "fresh_block s1 sp start [] \<lparr>k_space = sp, k_first = start, k_last = start, k_hold = None\<rparr>"
    "wall s1 (rd_stamp rd) \<le> start"
proof -
  obtain s1 l b where u: "usable_clock s sp seed (rd_check rd) = (s1, Inr (l, b))"
    using assms(1) by (auto simp: next_unheld_position_def split: prod.splits sum.splits)
  from usable_clock_calm [OF u assms(2)] have f: "calm s s1" "b" "newest_of s1 sp = Some l" by auto
  have "s' = s1\<lparr>ps_clocks := map_put sp start (ps_clocks s1)\<rparr>" "start = next_position s1 l (rd_stamp rd)"
    using assms(1) u f(2) by (auto simp: next_unheld_position_def Let_def set_newest_def)
  with f show ?thesis
    by (intro that [of s1] f(1))
      (auto simp: moved_on_def fresh_block_def next_position_def holds_of_def map_of_map_put)
qed

section \<open>Lemmas: every step\<close>

lemma calm_keeps:
  assumes "calm s s'" "newest_of s' sp \<noteq> None" "moved_on s' sp l' new s''"
  shows "ps_unit s'' = ps_unit s" "ps_objects s \<le> ps_objects s''"
    and "newest_of s x = Some l \<Longrightarrow> \<exists>l2. newest_of s'' x = Some l2 \<and> l \<le> l2"
    and "h \<in> set (holds_of s'' x) \<Longrightarrow> h \<in> set (holds_of s x) \<or> ps_objects s \<le> h_id h"
proof -
  show "ps_unit s'' = ps_unit s" "ps_objects s \<le> ps_objects s''"
    using assms by (auto simp: calm_def moved_on_def)
  show "\<exists>l2. newest_of s'' x = Some l2 \<and> l \<le> l2" if "newest_of s x = Some l"
    using newest_calm [OF assms(1) that] assms(3) by (auto simp: moved_on_def)
  show "h \<in> set (holds_of s x) \<or> ps_objects s \<le> h_id h" if "h \<in> set (holds_of s'' x)"
    using that assms(3) holds_of_calm [OF assms(1)] assms(1) by (auto simp: moved_on_def calm_def split: if_splits)
qed

definition later_block :: "int set \<Rightarrow> position_stream \<Rightarrow> taken \<Rightarrow> bool" where
  "later_block R s t \<longleftrightarrow> (\<forall>l. newest_of s (k_space t) = Some l \<longrightarrow> l < k_first t)
     \<and> (\<exists>ms \<in> R. wall s ms \<le> k_first t)"

definition onward :: "int set \<Rightarrow> world \<Rightarrow> world \<Rightarrow> bool" where
  "onward R w w' \<longleftrightarrow> ps_unit (w_stream w') = ps_unit (w_stream w)
     \<and> ps_objects (w_stream w) \<le> ps_objects (w_stream w')
     \<and> (\<forall>sp l. newest_of (w_stream w) sp = Some l \<longrightarrow> (\<exists>l'. newest_of (w_stream w') sp = Some l' \<and> l \<le> l'))
     \<and> (\<forall>sp. \<forall>h \<in> set (holds_of (w_stream w') sp). h \<in> set (holds_of (w_stream w) sp) \<or> ps_objects (w_stream w) \<le> h_id h)
     \<and> (\<exists>us. w_taken w' = w_taken w @ us \<and> list_all (later_block R (w_stream w)) us)"

lemma onward_calm: "calm s s' \<Longrightarrow> onward R \<lparr>w_stream = s, w_taken = ts\<rparr> \<lparr>w_stream = s', w_taken = ts\<rparr>"
  using newest_calm [of s s'] holds_of_calm [of s s'] by (fastforce simp: onward_def calm_def)

lemma onward_refl: "onward R w w"
  by (auto simp: onward_def)

lemma later_block_back:
  assumes "onward R w w'" "later_block R (w_stream w') t"
  shows "later_block R (w_stream w) t"
proof -
  have "wall (w_stream w') ms = wall (w_stream w) ms" for ms using assms(1) by (simp add: onward_def wall_def)
  moreover have "l < k_first t" if "newest_of (w_stream w) (k_space t) = Some l" for l
    using assms that by (fastforce simp: onward_def later_block_def)
  ultimately show ?thesis using assms(2) by (auto simp: later_block_def)
qed

lemma onward_trans:
  assumes "onward R w w'" "onward R w' w''"
  shows "onward R w w''"
proof -
  obtain us vs where u: "w_taken w' = w_taken w @ us" "list_all (later_block R (w_stream w)) us"
    and v: "w_taken w'' = w_taken w' @ vs" "list_all (later_block R (w_stream w')) vs"
    using assms unfolding onward_def by blast
  have t: "\<exists>us. w_taken w'' = w_taken w @ us \<and> list_all (later_block R (w_stream w)) us"
    using u v later_block_back [OF assms(1)] by (auto simp: list_all_iff)
  have h: "h \<in> set (holds_of (w_stream w) sp) \<or> ps_objects (w_stream w) \<le> h_id h"
    if "h \<in> set (holds_of (w_stream w'') sp)" for h sp
    using that assms unfolding onward_def by (meson order_trans)
  have n: "\<exists>l2. newest_of (w_stream w'') sp = Some l2 \<and> l \<le> l2" if "newest_of (w_stream w) sp = Some l" for sp l
    using that assms unfolding onward_def by (meson order_trans)
  show ?thesis using assms t h n unfolding onward_def by auto
qed

lemma onward_moved:
  assumes "calm s s1" "newest_of s1 sp \<noteq> None" "moved_on s1 sp l' new s'"
    and "list_all (\<lambda>t. fresh_block s1 sp l' new t \<and> (\<exists>ms \<in> R. wall s1 ms \<le> k_first t)) us"
  shows "onward R \<lparr>w_stream = s, w_taken = ts\<rparr> \<lparr>w_stream = s', w_taken = ts @ us\<rparr>"
proof -
  have w: "wall s1 ms = wall s ms" for ms using assms(1) by (simp add: calm_def wall_def)
  have "later_block R s t" if "t \<in> set us" for t
    using that assms(4) newest_calm [OF assms(1)] w
    by (fastforce simp: later_block_def list_all_iff fresh_block_def)
  then show ?thesis
    using calm_keeps [OF assms(1-3)] by (auto simp: onward_def list_all_iff)
qed

lemma usable_refused_calm:
  assumes "ps_onSeedFailure s = Refuse"
  shows "with_position_held s sp seed rd holder n = (s', Inl e) \<Longrightarrow> calm s s'"
    and "next_unheld_position s sp seed rd = (s', Inl e') \<Longrightarrow> calm s s'"
  using usable_clock_calm [OF _ assms, of sp seed "rd_check rd"]
  by (auto simp: with_position_held_def next_unheld_position_def Let_def split: if_splits prod.splits sum.splits)

lemma settled_cap_calm: "settled_position_cap s sp seed ms = (s', c) \<Longrightarrow> calm s s'"
  using clock_of_calm [of s sp seed] by (auto simp: settled_position_cap_def split: prod.splits option.splits)

lemma world_ok_release:
  assumes "world_ok \<lparr>w_stream = s, w_taken = ts\<rparr>"
  shows "world_ok \<lparr>w_stream = release_hold s sp i, w_taken = ts\<rparr>"
proof -
  have "holds_ok (release_hold s sp i)"
    using assms by (auto simp: world_ok_def holds_ok_def holds_of_release frame)
  moreover have "taken_ok (release_hold s sp i) t" if "taken_ok s t" for t
    using that by (auto simp: taken_ok_def holds_of_release frame)
  ultimately show ?thesis using assms by (auto simp: world_ok_def list_all_iff frame)
qed

lemma calm_step:
  assumes "world_ok \<lparr>w_stream = s, w_taken = ts\<rparr>" "calm s s'"
  shows "world_ok \<lparr>w_stream = s', w_taken = ts\<rparr> \<and> onward R \<lparr>w_stream = s, w_taken = ts\<rparr> \<lparr>w_stream = s', w_taken = ts\<rparr>"
  using world_ok_calm [OF assms] onward_calm [OF assms(2)] by simp

lemma stamp_step:
  assumes "world_ok \<lparr>w_stream = s, w_taken = ts\<rparr>" "calm s s1" "newest_of s1 sp \<noteq> None" "moved_on s1 sp l' new s'"
    and "fresh_block s1 sp l' new t" "wall s1 ms \<le> k_first t" "ms \<in> R"
  shows "world_ok \<lparr>w_stream = s', w_taken = ts @ [t]\<rparr>
     \<and> onward R \<lparr>w_stream = s, w_taken = ts\<rparr> \<lparr>w_stream = s', w_taken = ts @ [t]\<rparr>"
  using world_ok_moved_on [OF world_ok_calm [OF assms(1,2)] assms(3,4), of "[t]"]
    onward_moved [OF assms(2-4), where us = "[t]" and R = R and ts = ts] assms(5-7) by auto

lemma position_step_onward:
  "position_step R w w' \<Longrightarrow> world_ok w \<Longrightarrow> world_ok w' \<and> onward R w w'"
proof (induction rule: position_step.induct)
  case (write_begins s sp seed rd holder n s' start i ts)
  have ref: "ps_onSeedFailure s = Refuse" using write_begins.prems by (simp add: world_ok_def)
  obtain s1 new where f: "calm s s1" "newest_of s1 sp \<noteq> None" "moved_on s1 sp (start + n - 1) new s'"
    "fresh_block s1 sp (start + n - 1) new \<lparr>k_space = sp, k_first = start, k_last = start + n - 1, k_hold = Some i\<rparr>"
    "wall s1 (rd_stamp rd) \<le> start"
    by (rule with_position_held_moves [OF write_begins.hyps(1) ref])
  show ?case
    by (rule stamp_step [OF write_begins.prems f(1-4) _ write_begins.hyps(2)]) (simp add: f(5))
next
  case (write_refused s sp seed rd holder n s' e ts)
  have "calm s s'"
    by (rule usable_refused_calm(1) [OF _ write_refused.hyps]) (use write_refused.prems in \<open>simp add: world_ok_def\<close>)
  then show ?case by (rule calm_step [OF write_refused.prems])
next
  case (floor_begins s sp seed rd holder s' r ts)
  have ref: "ps_onSeedFailure s = Refuse" using floor_begins.prems by (simp add: world_ok_def)
  from with_position_floor_held_moves [OF floor_begins.hyps(1) ref] show ?case
  proof (elim disjE exE conjE)
    fix fl i l s1 new
    assume f: "calm s s1" "newest_of s1 sp = Some l" "moved_on s1 sp (max l (fl - 1)) new s'"
    show ?thesis
      using world_ok_moved_on [OF world_ok_calm [OF floor_begins.prems f(1)] _ f(3), of "[]"]
        onward_moved [OF f(1) _ f(3), of R "[]"] f(2) by simp
  next
    fix e
    assume "calm s s'"
    then show ?thesis by (rule calm_step [OF floor_begins.prems])
  qed
next
  case (unheld_taken s sp seed rd s' start ts)
  have ref: "ps_onSeedFailure s = Refuse" using unheld_taken.prems by (simp add: world_ok_def)
  obtain s1 where f: "calm s s1" "newest_of s1 sp \<noteq> None" "moved_on s1 sp start [] s'"
    "fresh_block s1 sp start [] \<lparr>k_space = sp, k_first = start, k_last = start, k_hold = None\<rparr>"
    "wall s1 (rd_stamp rd) \<le> start"
    by (rule next_unheld_position_moves [OF unheld_taken.hyps(1) ref])
  show ?case
    by (rule stamp_step [OF unheld_taken.prems f(1-4) _ unheld_taken.hyps(2)]) (simp add: f(5))
next
  case (unheld_refused s sp seed rd s' e ts)
  have "calm s s'"
    by (rule usable_refused_calm(2) [OF _ unheld_refused.hyps]) (use unheld_refused.prems in \<open>simp add: world_ok_def\<close>)
  then show ?case by (rule calm_step [OF unheld_refused.prems])
next
  case (hold_ends s ts sp i)
  have "onward R \<lparr>w_stream = s, w_taken = ts\<rparr> \<lparr>w_stream = release_hold s sp i, w_taken = ts\<rparr>"
    by (auto simp: onward_def frame holds_of_release)
  then show ?case using world_ok_release [OF hold_ends.prems] by simp
next
  case (cap_read s sp seed ms s' c ts)
  then show ?case using settled_cap_calm calm_step by blast
qed

lemma position_steps_onward:
  "(position_step R)\<^sup>*\<^sup>* w w' \<Longrightarrow> world_ok w \<Longrightarrow> world_ok w' \<and> onward R w w'"
  by (induction rule: rtranclp_induct) (auto intro: onward_refl onward_trans dest: position_step_onward)

lemma reachable_ok: "reachable u w \<Longrightarrow> world_ok w"
  using position_steps_onward [of UNIV "started u" w]
  by (simp add: reachable_def started_def world_ok_def holds_ok_def holds_of_def create_position_stream_def)

lemma still_open_calm: "calm s s' \<Longrightarrow> still_open s' t \<longleftrightarrow> still_open s t"
  by (simp add: still_open_def holds_of_calm)

lemma ended_stays_ended:
  assumes "onward R w w'" "taken_ok (w_stream w) t" "\<not> still_open (w_stream w) t"
  shows "\<not> still_open (w_stream w') t"
proof
  assume "still_open (w_stream w') t"
  then obtain h where h: "h \<in> set (holds_of (w_stream w') (k_space t))" "k_hold t = Some (h_id h)"
    by (auto simp: still_open_def)
  with assms(2) have "h_id h < ps_objects (w_stream w)" by (simp add: taken_ok_def)
  with assms(1) h(1) have "h \<in> set (holds_of (w_stream w) (k_space t))"
    unfolding onward_def by (meson leD)
  with assms(3) h(2) show False by (auto simp: still_open_def)
qed

section \<open>Lemmas: the cap\<close>

lemma lowest_le:
  "foldl lower_floor low hs = Some m \<Longrightarrow> (\<forall>h \<in> set hs. m \<le> h_floor h) \<and> (\<forall>l. low = Some l \<longrightarrow> m \<le> l)
     \<and> (low = Some m \<or> (\<exists>h \<in> set hs. m = h_floor h))"
proof (induction hs arbitrary: low)
  case (Cons a hs)
  from Cons.IH [of "lower_floor low a"] Cons.prems show ?case
    by (auto simp: lower_floor_def split: option.splits if_splits)
qed simp

lemma lowest_Some: "lowest hs = Some m \<Longrightarrow> (\<forall>h \<in> set hs. m \<le> h_floor h) \<and> (\<exists>h \<in> set hs. m = h_floor h)"
  unfolding lowest_def by (drule lowest_le) auto

lemma lowest_None: "lowest hs = None \<longleftrightarrow> hs = []"
proof -
  have "foldl lower_floor (Some l) xs \<noteq> None" for l xs
    by (induction xs arbitrary: l) (simp_all add: lower_floor_def)
  then show ?thesis by (cases hs) (simp_all add: lowest_def lower_floor_def)
qed

lemma cap_bounds:
  assumes "holds_ok s" "settled_position_cap s sp seed ms = (s', Some c)"
  obtains l where "newest_of s' sp = Some l" "c \<le> max (wall s' ms) (l + 1)"
    "\<forall>h \<in> set (holds_of s' sp). c \<le> h_floor h" "holds_of s' sp = [] \<longrightarrow> c = max (wall s' ms) (l + 1)"
    "holds_of s' sp \<noteq> [] \<longrightarrow> c \<le> l + 1"
proof -
  obtain l where l: "clock_of s sp seed = (s', Some l)"
    and c: "c = (case lowest (holds_of s' sp) of Some f \<Rightarrow> f | None \<Rightarrow> next_position s' l ms)"
    using assms(2) by (auto simp: settled_position_cap_def split: prod.splits option.splits)
  from clock_of_calm [OF l] have n: "calm s s'" "newest_of s' sp = Some l" by auto
  have "h_floor h \<le> l + 1" if "h \<in> set (holds_of s' sp)" for h
    using that assms(1) n newest_calm [OF n(1)] holds_of_calm [OF n(1)] unfolding holds_ok_def by fastforce
  then show ?thesis
    using that [OF n(2)] c lowest_Some [of "holds_of s' sp"] lowest_None [of "holds_of s' sp"]
    by (cases "lowest (holds_of s' sp)") (auto simp: next_position_def le_max_iff_disj)
qed

section \<open>Properties\<close>

lemma cap_step:
  assumes "reachable u w" "settled_position_cap (w_stream w) sp seed ms = (s', Some c)"
  shows "world_ok \<lparr>w_stream = s', w_taken = w_taken w\<rparr>" "calm (w_stream w) s'"
proof -
  obtain s ts where w: "w = \<lparr>w_stream = s, w_taken = ts\<rparr>" by (cases w) simp
  show "calm (w_stream w) s'" by (rule settled_cap_calm [OF assms(2)])
  then show "world_ok \<lparr>w_stream = s', w_taken = w_taken w\<rparr>"
    using reachable_ok [OF assms(1)] world_ok_calm [of s ts s'] w by simp
qed

text \<open>
  Property C10: on a stream that refuses to write unseeded, whatever the wall clock does and in whatever
  order calls come, every block of positions handed out for a space lies strictly above every block
  handed out for it before: no position is ever given twice.
\<close>

theorem positions_never_repeat:
  assumes "reachable u w"
  shows "sorted_wrt (\<lambda>a b. k_space a = k_space b \<longrightarrow> k_last a < k_first b) (w_taken w)
     \<and> list_all (\<lambda>t. k_first t \<le> k_last t) (w_taken w)"
proof -
  have "before = (\<lambda>a b. k_space a = k_space b \<longrightarrow> k_last a < k_first b)"
    by (simp add: fun_eq_iff before_def)
  with reachable_ok [OF assms] show ?thesis
    by (auto simp: world_ok_def list_all_iff taken_ok_def)
qed

text \<open>
  Property C12: a page is final.  Take the cap a reader was given, a position handed out below it, the
  last one the reader saw say, and any run of steps after, the wall clock set back included: every
  block that starts at or below that position had been handed out before the read and its write had
  ended, so a reader that goes on from there has missed nothing.
\<close>

theorem page_below_cap_is_final:
  assumes "reachable u w" "settled_position_cap (w_stream w) sp seed ms = (s', Some c)"
    and "(position_step UNIV)\<^sup>*\<^sup>* \<lparr>w_stream = s', w_taken = w_taken w\<rparr> w'"
    and "t0 \<in> set (w_taken w)" "k_space t0 = sp" "p \<in> {k_first t0..k_last t0}" "p < c"
    and "t \<in> set (w_taken w')" "k_space t = sp" "k_first t \<le> p"
  shows "t \<in> set (w_taken w) \<and> \<not> still_open s' t \<and> \<not> still_open (w_stream w') t"
proof -
  note ok = cap_step [OF assms(1,2)]
  from position_steps_onward [OF assms(3) ok(1)]
  obtain us where us: "onward UNIV \<lparr>w_stream = s', w_taken = w_taken w\<rparr> w'" "w_taken w' = w_taken w @ us"
    "list_all (later_block UNIV s') us"
    unfolding onward_def by auto
  have good: "\<forall>x \<in> set (w_taken w). taken_ok s' x" "holds_ok s'"
    using ok(1) by (auto simp: world_ok_def list_all_iff)
  obtain l where l: "newest_of s' sp = Some l" "k_last t0 \<le> l"
    using good(1) assms(4,5) unfolding taken_ok_def by blast
  have old: "t \<in> set (w_taken w)"
  proof (rule ccontr)
    assume "t \<notin> set (w_taken w)"
    with us(2,3) assms(8) have "later_block UNIV s' t" by (auto simp: list_all_iff)
    with l assms(6,9,10) show False by (auto simp: later_block_def)
  qed
  have "holds_ok (w_stream w)" using reachable_ok [OF assms(1)] by (simp add: world_ok_def)
  from cap_bounds [OF this assms(2)]
  have floors: "\<forall>h \<in> set (holds_of s' sp). c \<le> h_floor h" by metis
  have ended: "\<not> still_open s' t"
  proof
    assume "still_open s' t"
    then obtain h where h: "h \<in> set (holds_of s' sp)" "k_hold t = Some (h_id h)"
      using assms(9) by (auto simp: still_open_def)
    with good(1) old assms(9) have "h_floor h = k_first t" by (auto simp: taken_ok_def)
    with floors h(1) assms(7,10) show False by fastforce
  qed
  have "\<not> still_open (w_stream w') t"
    using ended_stays_ended [OF us(1)] good(1) old ended by simp
  with old ended show ?thesis by simp
qed

text \<open>
  While the wall clock never reads below what it read when the cap was computed, no
  position taken after lies below the cap, so everything below it is delivered or absent.
\<close>

theorem stamps_stay_above_cap:
  assumes "reachable u w" "settled_position_cap (w_stream w) sp seed ms = (s', Some c)"
    and "(position_step {ms..})\<^sup>*\<^sup>* \<lparr>w_stream = s', w_taken = w_taken w\<rparr> w'"
  shows "list_all (\<lambda>t. k_space t \<noteq> sp \<or> c \<le> k_first t) (drop (length (w_taken w)) (w_taken w'))"
proof -
  note ok = cap_step [OF assms(1,2)]
  from position_steps_onward [OF assms(3) ok(1)]
  obtain us where us: "w_taken w' = w_taken w @ us" "list_all (later_block {ms..} s') us"
    unfolding onward_def by auto
  have hok: "holds_ok (w_stream w)" using reachable_ok [OF assms(1)] by (simp add: world_ok_def)
  obtain l where l: "newest_of s' sp = Some l" "c \<le> max (wall s' ms) (l + 1)"
    using cap_bounds [OF hok assms(2)] by metis
  have "c \<le> k_first t" if t: "t \<in> set us" "k_space t = sp" for t
  proof -
    have b: "later_block {ms..} s' t" using us(2) t by (simp add: list_all_iff)
    then obtain m where m: "ms \<le> m" "wall s' m \<le> k_first t" by (auto simp: later_block_def)
    have "wall s' ms \<le> wall s' m" using m(1) by (simp add: wall_def)
    moreover have "l + 1 \<le> k_first t" using b l(1) t(2) by (auto simp: later_block_def)
    ultimately show ?thesis using m(2) l(2) by linarith
  qed
  then show ?thesis using us(1) by (auto simp: list_all_iff)
qed

text \<open>
  With no write open, the next position falls below the cap just answered exactly when the
  wall clock reads earlier than it did for the cap and the cap was the wall clock's: the cap is computed
  and never stored.
\<close>

theorem stamp_below_cap_iff:
  assumes "settled_position_cap s sp seed ms = (s1, Some c)" "ps_onSeedFailure s = Refuse"
    and "lowest (holds_of s1 sp) = None" "with_position_held s1 sp seed' rd holder n = (s2, Inr (start, i))"
  shows "start < c \<longleftrightarrow> c = wall s1 ms \<and> rd_stamp rd < ms \<and> newest_of s1 sp \<noteq> Some (c - 1)"
proof -
  obtain l where l: "clock_of s sp seed = (s1, Some l)" "c = max (wall s1 ms) (l + 1)"
    using assms(1,3) by (auto simp: settled_position_cap_def next_position_def split: prod.splits option.splits)
  from clock_of_calm [OF l(1)] have n: "calm s s1" "newest_of s1 sp = Some l" by auto
  have "clock_of s1 sp seed' = (s1, Some l)" using n(2) by (simp add: clock_of_def)
  then have u: "clock_for_write s1 sp seed' = (s1, Inr (l, True))" by (simp add: clock_for_write_def)
  obtain s3 ok where a: "assert_usable s1 (rd_check rd) = (s3, ok)" by force
  have w: "wall s3 x = wall s1 x" for x
    using assert_usable_calm [OF a] by (simp add: calm_def wall_def)
  have "start = max (wall s1 (rd_stamp rd)) (l + 1)"
    using assms(4) u a w
    by (auto simp: with_position_held_def usable_clock_def Let_def next_position_def set_newest_def
        split: if_splits prod.splits)
  then show ?thesis using l(2) n(2) by (auto simp: wall_def max_def split: if_splits)
qed

section \<open>Witnesses\<close>

text \<open>A block of three written in a space and ended, and the cap a reader is then given.\<close>

definition demo_readings :: readings where
  "demo_readings = \<lparr>rd_check = 1200000000000, rd_stamp = 1200000000000, rd_since = 0\<rparr>"

definition demo_write :: "position_stream \<times> (position_error + int \<times> nat)" where
  "demo_write = with_position_held (create_position_stream Microseconds Refuse) ''wiki'' (Some 7) demo_readings ''fact.write'' 3"

definition demo_block :: taken where
  "demo_block = \<lparr>k_space = ''wiki'', k_first = 1200000000000000, k_last = 1200000000000000 + 3 - 1, k_hold = Some 0\<rparr>"

definition demo_world :: world where
  "demo_world = \<lparr>w_stream = release_hold (fst demo_write) ''wiki'' 0, w_taken = [demo_block]\<rparr>"

lemma demo_world_reachable: "reachable Microseconds demo_world"
proof -
  have "snd demo_write = Inr (1200000000000000, 0)" by code_simp
  then have "with_position_held (create_position_stream Microseconds Refuse) ''wiki'' (Some 7) demo_readings ''fact.write'' 3
      = (fst demo_write, Inr (1200000000000000, 0))"
    by (simp add: demo_write_def [symmetric] prod_eq_iff)
  from position_step.write_begins [OF this, of UNIV "[]"]
  have "position_step UNIV (started Microseconds) \<lparr>w_stream = fst demo_write, w_taken = [demo_block]\<rparr>"
    by (simp add: started_def demo_block_def)
  moreover have "position_step UNIV \<lparr>w_stream = fst demo_write, w_taken = [demo_block]\<rparr> demo_world"
    unfolding demo_world_def by (rule position_step.hold_ends)
  ultimately show ?thesis unfolding reachable_def by (meson converse_rtranclp_into_rtranclp rtranclp.rtrancl_refl)
qed

definition demo_cap :: "position_stream \<times> int option" where
  "demo_cap = settled_position_cap (w_stream demo_world) ''wiki'' None 1300000000000"

lemma demo_cap_read:
  "settled_position_cap (w_stream demo_world) ''wiki'' None 1300000000000 = (fst demo_cap, Some 1300000000000000)"
proof -
  have "snd demo_cap = Some 1300000000000000" by code_simp
  then show ?thesis by (simp add: demo_cap_def [symmetric] prod_eq_iff)
qed

theorem positions_never_repeat_witness:
  "list_all (\<lambda>t. k_first t \<le> k_last t) (w_taken demo_world)"
  using positions_never_repeat [OF demo_world_reachable] by simp

theorem page_below_cap_is_final_witness:
  "\<not> still_open (fst demo_cap) demo_block"
proof -
  have b: "demo_block \<in> set (w_taken demo_world)" "k_space demo_block = ''wiki''"
    "1200000000000002 \<in> {k_first demo_block..k_last demo_block}" "k_first demo_block \<le> 1200000000000002"
    by (simp_all add: demo_world_def demo_block_def)
  show ?thesis
    using page_below_cap_is_final [OF demo_world_reachable demo_cap_read rtranclp.rtrancl_refl b(1-3) _ _ b(2,4)] b(1)
    by simp
qed

definition demo_after :: "position_stream \<times> (position_error + int \<times> nat)" where
  "demo_after = with_position_held (fst demo_cap) ''wiki'' None (demo_readings\<lparr>rd_stamp := 1350000000000\<rparr>) ''fact.write'' 2"

theorem stamps_stay_above_cap_witness:
  "snd demo_after = Inr (1350000000000000, 1) \<and> (1300000000000000 :: int) \<le> 1350000000000000"
proof -
  have r: "snd demo_after = Inr (1350000000000000, 1)" by code_simp
  then have "with_position_held (fst demo_cap) ''wiki'' None (demo_readings\<lparr>rd_stamp := 1350000000000\<rparr>) ''fact.write'' 2
      = (fst demo_after, Inr (1350000000000000, 1))"
    by (simp add: demo_after_def [symmetric] prod_eq_iff)
  from position_step.write_begins [OF this, of "{1300000000000..}" "w_taken demo_world"]
  show ?thesis
    using stamps_stay_above_cap [OF demo_world_reachable demo_cap_read r_into_rtranclp] r by auto
qed

text \<open>The wall clock set back between the cap and the next write: the block starts below the cap.\<close>

definition demo_late :: "position_stream \<times> (position_error + int \<times> nat)" where
  "demo_late = with_position_held (fst demo_cap) ''wiki'' None (demo_readings\<lparr>rd_stamp := 1250000000000\<rparr>) ''fact.write'' 1"

theorem stamp_below_cap_iff_witness:
  "(1250000000000000 :: int) < 1300000000000000 \<longleftrightarrow> newest_of (fst demo_cap) ''wiki'' \<noteq> Some 1299999999999999"
proof -
  have "snd demo_late = Inr (1250000000000000, 1)" by code_simp
  then have l: "with_position_held (fst demo_cap) ''wiki'' None (demo_readings\<lparr>rd_stamp := 1250000000000\<rparr>) ''fact.write'' 1
      = (fst demo_late, Inr (1250000000000000, 1))"
    by (simp add: demo_late_def [symmetric] prod_eq_iff)
  have h: "ps_onSeedFailure (w_stream demo_world) = Refuse" "lowest (holds_of (fst demo_cap) ''wiki'') = None"
    "wall (fst demo_cap) 1300000000000 = 1300000000000000"
    by code_simp+
  show ?thesis using stamp_below_cap_iff [OF demo_cap_read h(1,2) l] h(3) by simp
qed

end
