(* ===== verification/Space_Legs.thy ===== *)
theory Space_Legs
  imports Space_Exchange Page_Progress Positions
begin

text \<open>
  The two legs of an exchange of one space with one member (\<open>pullFromPeer\<close> and \<open>pushToPeer\<close> of
  \<open>server/src/sync/space-exchange.ts\<close>, over \<open>pull-family.ts\<close>, \<open>push-family.ts\<close>, \<open>tombstone-transfer.ts\<close>
  and \<open>replicated-families.ts\<close>): the tombstones, then each family, all from one mark, and the mark
  they may then move (\<open>setMemberSpaceMark\<close>, \<open>ownPositionMark\<close>).  The configuration is read again at each
  point the code reads it again; what others wrote in between is \<open>meanwhile\<close>.  A turn that was refused or
  cut stays so, and \<open>stops\<close> is the first point that finds it so.  What a page's records became when they
  landed is in \<open>Arrivals\<close>; the counters the reports carry are left out.
\<close>

section \<open>The replicated families\<close>

record replicated_family =
  rf_payloadKey :: string
  rf_collection :: brain_collection
  rf_countKey :: string

definition family :: "string \<Rightarrow> brain_collection \<Rightarrow> replicated_family" where
  "family key coll = \<lparr>rf_payloadKey = key, rf_collection = coll, rf_countKey = key\<rparr>"

definition REPLICATED_FAMILIES :: "replicated_family list" where
  "REPLICATED_FAMILIES = [family ''facts'' Facts, family ''entities'' Entities, family ''chrono'' Chrono,
     family ''filemeta'' Files, family ''edges'' Edges, family ''links'' Links]"

definition family_of :: "string \<Rightarrow> replicated_family option" where
  "family_of key = List.find (\<lambda>f. rf_payloadKey f = key) REPLICATED_FAMILIES"

definition REFERENCE_FAMILIES :: "string list" where
  "REFERENCE_FAMILIES = [''edges'', ''links'']"

definition TARGET_KEYS :: "string list" where
  "TARGET_KEYS = filter (\<lambda>k. k \<notin> set REFERENCE_FAMILIES) (map rf_payloadKey REPLICATED_FAMILIES)"

text \<open>A key that is no family's throws: \<open>None\<close>.\<close>

definition families_after :: "string list \<Rightarrow> string list \<Rightarrow> brain_collection list option" where
  "families_after keys incomplete =
     (if list_ex (\<lambda>k. family_of k = None) (keys @ incomplete) then None
      else
        let places = map (\<lambda>k. case find_index (\<lambda>f. rf_payloadKey f = k) REPLICATED_FAMILIES of Some i \<Rightarrow> Suc i | None \<Rightarrow> 0) keys;
            after = map rf_collection (drop (fold max places 0) REPLICATED_FAMILIES)
        in Some (fold (\<lambda>c cs. if c \<in> set cs then cs else cs @ [c]) (map (rf_collection \<circ> the \<circ> family_of) incomplete) after))"

definition families_not_complete :: "(string \<times> transfer_outcome) list \<Rightarrow> string list" where
  "families_not_complete ts =
     filter (\<lambda>k. case map_of ts k of Some t \<Rightarrow> truncated t | None \<Rightarrow> False) TARGET_KEYS"

text \<open>The list a request carries, absent (\<open>None\<close>) or not an array (\<open>Some None\<close>); an element is \<open>None\<close> when it is no string.\<close>

definition parse_incomplete_families :: "string option list option option \<Rightarrow> string list \<times> bool" where
  "parse_incomplete_families raw =
     (case raw of
        None \<Rightarrow> ([], False)
      | Some None \<Rightarrow> ([], True)
      | Some (Some vs) \<Rightarrow>
          (filter (\<lambda>k. Some k \<in> set vs) TARGET_KEYS,
           length TARGET_KEYS < length vs \<or> list_ex (\<lambda>v. case v of None \<Rightarrow> True | Some k \<Rightarrow> k \<notin> set TARGET_KEYS) vs))"

section \<open>The receive leg\<close>

record leg_ids =
  li_network :: string
  li_member :: string
  li_space :: string

record turn_env =
  te_leaving :: "act_kind option"
  te_broken :: "vote_round \<Rightarrow> bool"
  te_meanwhile :: "nat \<Rightarrow> space_config \<Rightarrow> space_config"
  te_stops :: "nat option"

definition may_continue :: "turn_env \<Rightarrow> nat \<Rightarrow> bool" where
  "may_continue te k \<longleftrightarrow> (case te_stops te of None \<Rightarrow> True | Some n \<Rightarrow> k < n)"

definition may_exchange :: "turn_env \<Rightarrow> leg_ids \<Rightarrow> space_config \<Rightarrow> bool" where
  "may_exchange te ids cfg = may_exchange_now (te_leaving te) (te_broken te) cfg (li_network ids) (li_member ids) (li_space ids)"

definition mark_or_zero :: "mark_value option \<Rightarrow> int" where
  "mark_or_zero v = (case number_of_mark v of Some n \<Rightarrow> n | None \<Rightarrow> 0)"

definition read_mark :: "space_config \<Rightarrow> leg_ids \<Rightarrow> per_space_watermark \<Rightarrow> mark_value option" where
  "read_mark cfg ids key = read_member_space_mark cfg (li_network ids) (li_member ids) (li_space ids) key"

text \<open>Both legs write their mark only forward.\<close>

definition raise_mark :: "int \<Rightarrow> mark_value option \<Rightarrow> mark_change" where
  "raise_mark at0 current =
     (case number_of_mark current of
        Some c \<Rightarrow> if at0 \<le> c then Leave else Write_mark (Mark_number at0)
      | None \<Rightarrow> Write_mark (Mark_number at0))"

definition write_mark :: "leg_ids \<Rightarrow> per_space_watermark \<Rightarrow> (mark_value option \<Rightarrow> mark_change) \<Rightarrow> space_config \<Rightarrow> space_config" where
  "write_mark ids key f cfg =
     fst (set_member_space_mark (Some (li_member ids)) (li_space ids) key (One_network (li_network ids)) f cfg)"

definition PULL_MAX_PAGES :: nat where "PULL_MAX_PAGES = 50"

text \<open>
  A tombstone pull that threw ends as a stop, of the kind shutdown gives it (\<open>closing\<close>: it had begun
  by then); positions that are building, and a peer that pages by seq, still throw.
\<close>

definition pull_tombstones :: "(string \<Rightarrow> string) \<Rightarrow> 'b pull_env \<Rightarrow> bool \<Rightarrow> int \<Rightarrow> 'b pull_state \<times> transfer_end" where
  "pull_tombstones digest env closing since =
     (case page_position_runs digest env (Some MAX_TRANSFER_PAGES) (fresh_outcome since) of
        (st, Threw) \<Rightarrow> (stop_pull (if closing then Closing else Error_stop) st, Returned)
      | res \<Rightarrow> res)"

definition pull_family :: "(string \<Rightarrow> string) \<Rightarrow> 'b pull_env \<Rightarrow> int \<Rightarrow> 'b pull_state \<times> transfer_end" where
  "pull_family digest env since = page_position_runs digest env (Some PULL_MAX_PAGES) (fresh_outcome since)"

text \<open>A transfer, with the mark it was asked from.\<close>

record 'b transfer =
  tf_label :: string
  tf_since :: int
  tf_state :: "'b pull_state"

record 'b pull_leg =
  pl_tombstones :: "'b pull_env"
  pl_closing :: bool
  pl_family :: "string \<Rightarrow> 'b pull_env"

record 'b leg_state =
  lg_config :: space_config
  lg_from :: int
  lg_transfers :: "'b transfer list"

definition forget_if_behind :: "turn_env \<Rightarrow> leg_ids \<Rightarrow> nat \<Rightarrow> 'b pull_state \<Rightarrow> 'b leg_state \<Rightarrow> 'b leg_state" where
  "forget_if_behind te ids k ps lg =
     (if pu_behind ps = None \<or> lg_from lg = 0 then lg
      else let cfg = te_meanwhile te k (lg_config lg)
           in lg\<lparr>lg_config := (if may_exchange te ids cfg then write_mark ids LastPosReceived (\<lambda>_. Clear) cfg else cfg), lg_from := 0\<rparr>)"

definition took :: "string \<Rightarrow> 'b pull_state \<Rightarrow> 'b leg_state \<Rightarrow> 'b leg_state" where
  "took label ps lg = lg\<lparr>lg_transfers := lg_transfers lg @ [\<lparr>tf_label = label, tf_since = lg_from lg, tf_state = ps\<rparr>]\<rparr>"

text \<open>The families in order, from point \<open>k\<close>; a transfer that throws ends the leg, with no mark moved for it.\<close>

fun pull_families ::
  "(string \<Rightarrow> string) \<Rightarrow> turn_env \<Rightarrow> leg_ids \<Rightarrow> 'b pull_leg \<Rightarrow> nat \<Rightarrow> replicated_family list \<Rightarrow> 'b leg_state
     \<Rightarrow> 'b leg_state \<times> transfer_end" where
  "pull_families digest te ids leg k [] lg = (lg, Returned)"
| "pull_families digest te ids leg k (f # fs) lg =
     (if \<not> may_continue te k then (lg, Returned)
      else case pull_family digest (pl_family leg (rf_payloadKey f)) (lg_from lg) of
          (ps, Returned) \<Rightarrow> pull_families digest te ids leg (Suc k) fs (forget_if_behind te ids k ps (took (rf_payloadKey f) ps lg))
        | (ps, e) \<Rightarrow> (lg, e))"

record leg_report =
  lr_stoppedEarly :: "string list"
  lr_capped :: "string list"
  lr_held :: "string list"
  lr_local :: "string list"
  lr_closing :: "string list"
  lr_storeDown :: bool

definition stopped_by_a_hold :: leg_report where
  "stopped_by_a_hold = \<lparr>lr_stoppedEarly = [''stopped by a hold''], lr_capped = [], lr_held = [], lr_local = [], lr_closing = [], lr_storeDown = False\<rparr>"

definition report_of :: "watermark_resolution \<Rightarrow> leg_report" where
  "report_of w = \<lparr>lr_stoppedEarly = map (\<lambda>l. l @ '' stopped early'') (wr_errored w), lr_capped = wr_capped w, lr_held = wr_held w,
     lr_local = wr_local w, lr_closing = wr_closing w, lr_storeDown = wr_storeDown w\<rparr>"

definition outcomes_of :: "'b transfer list \<Rightarrow> (string \<times> transfer_outcome) list" where
  "outcomes_of ts = map (\<lambda>t. (tf_label t, pu_outcome (tf_state t))) ts"

text \<open>The points of a leg after its families: the turn asked before the resolution, and for the mark.\<close>

definition RESOLVE_POINT :: nat where "RESOLVE_POINT = Suc (length REPLICATED_FAMILIES)"

definition MARK_POINT :: nat where "MARK_POINT = Suc RESOLVE_POINT"

text \<open>The answer is the leg's state, the mark it recorded if it recorded one, and its report; or the throw.\<close>

definition pull_from_peer ::
  "(string \<Rightarrow> string) \<Rightarrow> turn_env \<Rightarrow> leg_ids \<Rightarrow> 'b pull_leg \<Rightarrow> space_config
     \<Rightarrow> 'b leg_state \<times> (transfer_end + int option \<times> leg_report)" where
  "pull_from_peer digest te ids leg cfg =
     (let lg0 = \<lparr>lg_config = cfg, lg_from = mark_or_zero (read_mark cfg ids LastPosReceived), lg_transfers = []\<rparr>
      in case pull_tombstones digest (pl_tombstones leg) (pl_closing leg) (lg_from lg0) of
          (ts, Returned) \<Rightarrow>
            (case pull_families digest te ids leg 1 REPLICATED_FAMILIES (forget_if_behind te ids 0 ts (took ''tombstones'' ts lg0)) of
               (lg, Returned) \<Rightarrow>
                 if \<not> may_continue te RESOLVE_POINT then (lg, Inr (None, stopped_by_a_hold))
                 else let w = resolve_watermark (lg_from lg) (outcomes_of (lg_transfers lg));
                          fresh = te_meanwhile te MARK_POINT (lg_config lg)
                      in if lg_from lg < wr_at w \<and> may_continue te MARK_POINT \<and> may_exchange te ids fresh
                         then (lg\<lparr>lg_config := write_mark ids LastPosReceived (raise_mark (wr_at w)) fresh\<rparr>, Inr (Some (wr_at w), report_of w))
                         else (lg, Inr (None, report_of w))
             | (lg, e) \<Rightarrow> (lg, Inl e))
        | (ts, e) \<Rightarrow> (lg0, Inl e))"

section \<open>Lemmas: what a receive leg has delivered\<close>

definition leg_env :: "'b pull_leg \<Rightarrow> string \<Rightarrow> 'b pull_env" where
  "leg_env leg label = (if label = ''tombstones'' then pl_tombstones leg else pl_family leg label)"

definition pulled :: "(string \<Rightarrow> string) \<Rightarrow> 'b pull_leg \<Rightarrow> 'b transfer \<Rightarrow> bool" where
  "pulled digest leg t \<longleftrightarrow> 0 \<le> tf_since t \<and> (\<exists>n st e.
     page_position_runs digest (leg_env leg (tf_label t)) n (fresh_outcome (tf_since t)) = (st, e)
     \<and> pu_delivered (tf_state t) = pu_delivered st \<and> pu_behind (tf_state t) = pu_behind st
     \<and> deliveredThrough (pu_outcome (tf_state t)) = deliveredThrough (pu_outcome st))"

text \<open>What the leg knows of its transfers: each is counted from the mark as it stands now.\<close>

definition leg_ok :: "(string \<Rightarrow> string) \<Rightarrow> 'b pull_leg \<Rightarrow> 'b leg_state \<Rightarrow> bool" where
  "leg_ok digest leg lg \<longleftrightarrow> 0 \<le> lg_from lg \<and>
     list_all (\<lambda>t. pulled digest leg t \<and> pull_base (tf_since t) (tf_state t) \<le> lg_from lg) (lg_transfers lg)"

lemma forget_if_behind_simps [simp]:
  "lg_transfers (forget_if_behind te ids k ps lg) = lg_transfers lg"
  "lg_from (forget_if_behind te ids k ps lg) = (if pu_behind ps = None then lg_from lg else 0)"
  by (simp_all add: forget_if_behind_def Let_def)

lemma took_simps [simp]:
  "lg_transfers (took label ps lg) = lg_transfers lg @ [\<lparr>tf_label = label, tf_since = lg_from lg, tf_state = ps\<rparr>]"
  "lg_from (took label ps lg) = lg_from lg"
  by (simp_all add: took_def)

lemma may_continue_earlier: "may_continue te n \<Longrightarrow> k \<le> n \<Longrightarrow> may_continue te k"
  by (auto simp: may_continue_def split: option.splits)

lemma took_family:
  assumes "leg_ok digest leg lg" "label \<noteq> ''tombstones''" "pull_family digest (pl_family leg label) (lg_from lg) = (ps, e)" "pu_behind ps = None"
  shows "leg_ok digest leg (forget_if_behind te ids k ps (took label ps lg))"
proof -
  have "pulled digest leg \<lparr>tf_label = label, tf_since = lg_from lg, tf_state = ps\<rparr>"
    using assms(1-3) by (auto simp: pulled_def leg_env_def pull_family_def leg_ok_def)
  then show ?thesis using assms(1,4) by (simp add: leg_ok_def pull_base_def)
qed

lemma pull_families_grow:
  "pull_families digest te ids leg k fs lg = (lg', e) \<Longrightarrow> \<exists>more. lg_transfers lg' = lg_transfers lg @ more"
proof (induction fs arbitrary: k lg)
  case (Cons f fs)
  obtain ps e1 where p: "pull_family digest (pl_family leg (rf_payloadKey f)) (lg_from lg) = (ps, e1)" by force
  show ?case
  proof (cases "may_continue te k \<and> e1 = Returned")
    case True
    with p Cons.prems Cons.IH [of "Suc k" "forget_if_behind te ids k ps (took (rf_payloadKey f) ps lg)"] show ?thesis by auto
  next
    case False
    with p Cons.prems show ?thesis by (cases e1) (auto split: if_splits)
  qed
qed simp

lemma pull_families_ok:
  assumes "\<forall>f \<in> set fs. rf_payloadKey f \<noteq> ''tombstones''"
  shows "leg_ok digest leg lg \<Longrightarrow> pull_families digest te ids leg k fs lg = (lg', Returned) \<Longrightarrow>
    list_all (\<lambda>t. pu_behind (tf_state t) = None) (drop (length (lg_transfers lg)) (lg_transfers lg')) \<Longrightarrow>
    leg_ok digest leg lg' \<and> (may_continue te (k + length fs) \<longrightarrow>
      map tf_label (lg_transfers lg') = map tf_label (lg_transfers lg) @ map rf_payloadKey fs)"
  using assms
proof (induction fs arbitrary: k lg)
  case (Cons f fs)
  obtain ps e1 where p: "pull_family digest (pl_family leg (rf_payloadKey f)) (lg_from lg) = (ps, e1)" by force
  show ?case
  proof (cases "may_continue te k")
    case False
    with Cons.prems may_continue_earlier [of te "k + length (f # fs)" k] show ?thesis by auto
  next
    case True
    let ?lg = "forget_if_behind te ids k ps (took (rf_payloadKey f) ps lg)"
    have e: "e1 = Returned" and run: "pull_families digest te ids leg (Suc k) fs ?lg = (lg', Returned)"
      using True p Cons.prems(2) by (cases e1; simp)+
    from pull_families_grow [OF run] obtain more where more: "lg_transfers lg' = lg_transfers ?lg @ more" by blast
    with Cons.prems(3) have b: "pu_behind ps = None" "list_all (\<lambda>t. pu_behind (tf_state t) = None) more" by simp_all
    have "leg_ok digest leg ?lg" using took_family [OF Cons.prems(1) _ p b(1)] Cons.prems(4) by simp
    from Cons.IH [OF this run] more b(2) Cons.prems(4) show ?thesis by simp
  qed
qed simp

definition peer_ok ::
  "(string \<Rightarrow> string) \<Rightarrow> 'b pull_leg \<Rightarrow> string \<Rightarrow> (nat \<Rightarrow> 'b snapshot) \<Rightarrow> ('b positioned_row \<Rightarrow> bool) \<Rightarrow> int \<Rightarrow> bool" where
  "peer_ok digest leg label S extra limit \<longleftrightarrow>
     is_digest digest \<and> inj_on digest (ids_seen S) \<and> stores_ok S \<and> honest_peer digest S extra limit (leg_env leg label)"

lemma pulled_delivers:
  fixes r :: "'b positioned_row" and t :: "'b transfer"
  assumes "pulled digest leg t" "peer_ok digest leg (tf_label t) S extra limit" "stands S r" "extra r"
    and "pull_base (tf_since t) (tf_state t) < pr_pos r" "pr_pos r \<le> deliveredThrough (pu_outcome (tf_state t))"
  shows "item_of r \<in> set (pu_delivered (tf_state t))"
proof -
  obtain n st e where st: "page_position_runs digest (leg_env leg (tf_label t)) n (fresh_outcome (tf_since t)) = (st, e)"
    "pu_delivered (tf_state t) = pu_delivered st" "pu_behind (tf_state t) = pu_behind st"
    "deliveredThrough (pu_outcome (tf_state t)) = deliveredThrough (pu_outcome st)" "0 \<le> tf_since t"
    using assms(1) unfolding pulled_def by blast
  have "pull_base (tf_since t) (tf_state t) = pull_base (tf_since t) st" using st(3) by (simp add: pull_base_def)
  with pull_delivers [of digest S extra limit "leg_env leg (tf_label t)" "fresh_outcome (tf_since t)" n st e r] st assms(2-6)
  show ?thesis by (simp add: peer_ok_def)
qed

lemma tombstones_ok:
  assumes "pull_tombstones digest (pl_tombstones leg) closing since = (ts, Returned)" "0 \<le> since"
    and "lg0 = \<lparr>lg_config = cfg, lg_from = since, lg_transfers = []\<rparr>"
  shows "leg_ok digest leg (forget_if_behind te ids 0 ts (took ''tombstones'' ts lg0))"
proof -
  obtain st e where st: "page_position_runs digest (pl_tombstones leg) (Some MAX_TRANSFER_PAGES) (fresh_outcome since) = (st, e)" by force
  then have "pu_delivered ts = pu_delivered st" "pu_behind ts = pu_behind st"
    "deliveredThrough (pu_outcome ts) = deliveredThrough (pu_outcome st)"
    using assms(1) by (cases e; auto simp: pull_tombstones_def)+
  with st assms(2) have "pulled digest leg \<lparr>tf_label = ''tombstones'', tf_since = since, tf_state = ts\<rparr>"
    unfolding pulled_def leg_env_def by auto
  then show ?thesis using assms(2,3) by (simp add: leg_ok_def pull_base_def)
qed

lemma pull_leg_ok:
  assumes run: "pull_from_peer digest te ids leg cfg = (lg, Inr (Some at0, rep))"
    and mark: "0 \<le> mark_or_zero (read_mark cfg ids LastPosReceived)"
    and late: "list_all (\<lambda>t. pu_behind (tf_state t) = None) (tl (lg_transfers lg))"
  shows "leg_ok digest leg lg \<and> at0 = safe_watermark (lg_from lg) (map (\<lambda>t. pu_outcome (tf_state t)) (lg_transfers lg))
    \<and> map tf_label (lg_transfers lg) = ''tombstones'' # map rf_payloadKey REPLICATED_FAMILIES"
proof -
  define lg0 :: "'a leg_state" where "lg0 = \<lparr>lg_config = cfg, lg_from = mark_or_zero (read_mark cfg ids LastPosReceived), lg_transfers = []\<rparr>"
  obtain ts e where ts: "pull_tombstones digest (pl_tombstones leg) (pl_closing leg) (lg_from lg0) = (ts, e)" by force
  let ?lg1 = "forget_if_behind te ids 0 ts (took ''tombstones'' ts lg0)"
  obtain lg2 e2 where fs: "pull_families digest te ids leg 1 REPLICATED_FAMILIES ?lg1 = (lg2, e2)" by force
  have e: "e = Returned" using run ts by (cases e) (simp_all add: pull_from_peer_def Let_def lg0_def)
  have e2: "e2 = Returned"
    using run ts fs e by (cases e2) (simp_all add: pull_from_peer_def Let_def lg0_def)
  have "may_continue te RESOLVE_POINT" and at0: "at0 = wr_at (resolve_watermark (lg_from lg2) (outcomes_of (lg_transfers lg2)))"
    and lg: "lg_from lg = lg_from lg2" "lg_transfers lg = lg_transfers lg2"
    using run ts fs e e2 by (auto simp: pull_from_peer_def Let_def lg0_def split: if_splits)
  have ok1: "leg_ok digest leg ?lg1"
    using tombstones_ok [OF ts [unfolded e]] mark by (simp add: lg0_def)
  have len: "length (lg_transfers ?lg1) = 1" by (simp add: lg0_def)
  have keys: "\<forall>f \<in> set REPLICATED_FAMILIES. rf_payloadKey f \<noteq> ''tombstones''"
    by (simp add: REPLICATED_FAMILIES_def family_def)
  have "list_all (\<lambda>t. pu_behind (tf_state t) = None) (drop (length (lg_transfers ?lg1)) (lg_transfers lg2))"
    using late lg(2) len by (simp add: drop_Suc)
  from pull_families_ok [OF keys ok1 fs [unfolded e2] this] \<open>may_continue te RESOLVE_POINT\<close>
  have "leg_ok digest leg lg2" "map tf_label (lg_transfers lg2) = ''tombstones'' # map rf_payloadKey REPLICATED_FAMILIES"
    by (simp_all add: RESOLVE_POINT_def lg0_def)
  then show ?thesis
    using lg at0 by (simp add: leg_ok_def resolve_watermark_def outcomes_of_def comp_def)
qed

text \<open>
  Property C3: the receive mark a leg records never covers a record the member did not deliver.  When it
  records \<open>at\<close>, the tombstones and all six families were read, in order, and every record of each of
  them that stood at the member, above the mark the leg counts from and at or below \<open>at\<close>, was among the
  records that landed here, however each transfer ended: at its page bound, a refusal, a fault of
  either side, a shutdown, or its stream's end; and whether the mark was above the member's head when
  the leg began.  The member's stream is one stream through the leg: no family finds it behind the mark
  when the tombstones did not.
\<close>

theorem received_mark_covers:
  assumes "pull_from_peer digest te ids leg cfg = (lg, Inr (Some at0, rep))"
    and "0 \<le> mark_or_zero (read_mark cfg ids LastPosReceived)"
    and "list_all (\<lambda>t. pu_behind (tf_state t) = None) (tl (lg_transfers lg))"
    and "label \<in> set (''tombstones'' # map rf_payloadKey REPLICATED_FAMILIES)" "peer_ok digest leg label S extra limit"
    and "stands S r" "extra r" "lg_from lg < pr_pos r" "pr_pos r \<le> at0"
  shows "\<exists>t \<in> set (lg_transfers lg). tf_label t = label \<and> item_of r \<in> set (pu_delivered (tf_state t))"
proof -
  from pull_leg_ok [OF assms(1-3)] have ok: "leg_ok digest leg lg"
    "at0 = safe_watermark (lg_from lg) (map (\<lambda>t. pu_outcome (tf_state t)) (lg_transfers lg))"
    "map tf_label (lg_transfers lg) = ''tombstones'' # map rf_payloadKey REPLICATED_FAMILIES" by blast+
  obtain t where t: "t \<in> set (lg_transfers lg)" "tf_label t = label"
    using assms(4) unfolding ok(3) [symmetric] by auto
  have "pu_outcome (tf_state t) \<in> set (map (\<lambda>t. pu_outcome (tf_state t)) (lg_transfers lg))" using t(1) by simp
  from safe_watermark_bound(2) [OF this, of "lg_from lg"] assms(8,9)
  have "pr_pos r \<le> deliveredThrough (pu_outcome (tf_state t))" unfolding ok(2) [symmetric] by linarith
  moreover have "pulled digest leg t" "pull_base (tf_since t) (tf_state t) < pr_pos r"
    using ok(1) t(1) assms(8) by (auto simp: leg_ok_def list_all_iff)
  ultimately show ?thesis using pulled_delivers assms(5-7) t by blast
qed

section \<open>The push leg\<close>

definition PUSH_PAGE :: nat where "PUSH_PAGE = 500"

definition PUSH_BATCH_SIZE :: nat where "PUSH_BATCH_SIZE = 200"

text \<open>
  What a push reads and how its pages are received, the selection of each family, and the position
  stream its mark is cut at; a family's requests name the target families not yet complete.
\<close>

record 'b push_leg =
  pp_tombstones :: "'b push_env"
  pp_family :: "string \<Rightarrow> string list \<Rightarrow> 'b push_env"
  pp_selection :: "string \<Rightarrow> 'b positioned_row \<Rightarrow> bool"
  pp_stream :: position_stream
  pp_seed :: "int option"
  pp_wall :: int

definition own_position_mark :: "position_stream \<Rightarrow> string \<Rightarrow> int option \<Rightarrow> int \<Rightarrow> int \<Rightarrow> int option" where
  "own_position_mark s sp seed ms v =
     (if v \<le> 0 then None else map_option (min v) (snd (settled_position_cap s sp seed ms)))"

definition push_tombstones ::
  "(string \<Rightarrow> string) \<Rightarrow> 'b push_leg \<Rightarrow> nat \<Rightarrow> int \<Rightarrow> ('b push_state \<times> transfer_end) option" where
  "push_tombstones digest leg fuel since =
     push_position_runs digest (pp_tombstones leg) PUSH_PAGE (pp_selection leg ''tombstones'') (Some MAX_TRANSFER_PAGES) fuel
       (fresh_outcome since)"

definition push_family ::
  "(string \<Rightarrow> string) \<Rightarrow> 'b push_leg \<Rightarrow> string \<Rightarrow> string list \<Rightarrow> nat \<Rightarrow> int \<Rightarrow> ('b push_state \<times> transfer_end) option" where
  "push_family digest leg key incomplete fuel since =
     push_position_runs digest (pp_family leg key incomplete) PUSH_BATCH_SIZE (pp_selection leg key) None fuel (fresh_outcome since)"

type_synonym 'b pushes = "(string \<times> 'b push_state) list"

definition push_outcomes :: "'b pushes \<Rightarrow> (string \<times> transfer_outcome) list" where
  "push_outcomes ts = map (\<lambda>t. (fst t, pq_outcome (snd t))) ts"

fun push_families ::
  "(string \<Rightarrow> string) \<Rightarrow> turn_env \<Rightarrow> 'b push_leg \<Rightarrow> nat \<Rightarrow> int \<Rightarrow> nat \<Rightarrow> replicated_family list \<Rightarrow> 'b pushes
     \<Rightarrow> ('b pushes \<times> transfer_end) option" where
  "push_families digest te leg fuel since k [] ts = Some (ts, Returned)"
| "push_families digest te leg fuel since k (f # fs) ts =
     (if \<not> may_continue te k then Some (ts, Returned)
      else case push_family digest leg (rf_payloadKey f) (families_not_complete (push_outcomes ts)) fuel since of
          None \<Rightarrow> None
        | Some (ps, Returned) \<Rightarrow> push_families digest te leg fuel since (Suc k) fs (ts @ [(rf_payloadKey f, ps)])
        | Some (ps, e) \<Rightarrow> Some (ts, e))"

text \<open>The configuration, the transfers, and the mark recorded with the report, or the throw.\<close>

definition push_to_peer ::
  "(string \<Rightarrow> string) \<Rightarrow> turn_env \<Rightarrow> leg_ids \<Rightarrow> 'b push_leg \<Rightarrow> nat \<Rightarrow> space_config
     \<Rightarrow> (space_config \<times> 'b pushes \<times> (transfer_end + int option \<times> leg_report)) option" where
  "push_to_peer digest te ids leg fuel cfg =
     (let since = mark_or_zero (read_mark cfg ids LastPosPushed)
      in case push_tombstones digest leg fuel since of
          None \<Rightarrow> None
        | Some (tomb, Returned) \<Rightarrow>
            (case push_families digest te leg fuel since 1 REPLICATED_FAMILIES [] of
               None \<Rightarrow> None
             | Some (ts, Returned) \<Rightarrow>
                 Some (let all = (''tombstones'', tomb) # ts
                  in if \<not> may_continue te RESOLVE_POINT then (cfg, all, Inr (None, stopped_by_a_hold))
                     else
                       let w = resolve_watermark since (push_outcomes all);
                           own = (if since < wr_at w \<and> may_continue te RESOLVE_POINT
                                  then own_position_mark (pp_stream leg) (li_space ids) (pp_seed leg) (pp_wall leg) (wr_at w) else None);
                           fresh = te_meanwhile te MARK_POINT cfg
                       in (case own of
                             None \<Rightarrow> (cfg, all, Inr (None, report_of w))
                           | Some m \<Rightarrow>
                               if since < m \<and> may_continue te MARK_POINT \<and> may_exchange te ids fresh
                               then (write_mark ids LastPosPushed (raise_mark m) fresh, all, Inr (Some m, report_of w))
                               else (cfg, all, Inr (None, report_of w))))
             | Some (ts, e) \<Rightarrow> Some (cfg, (''tombstones'', tomb) # ts, Inl e))
        | Some (tomb, e) \<Rightarrow> Some (cfg, [], Inl e))"

section \<open>Lemmas: what a push leg has sent\<close>

definition pushed :: "(string \<Rightarrow> string) \<Rightarrow> 'b push_leg \<Rightarrow> int \<Rightarrow> string \<times> 'b push_state \<Rightarrow> bool" where
  "pushed digest leg since t \<longleftrightarrow> (\<exists>env n mp fuel e.
     1 \<le> n \<and> push_position_runs digest env n (pp_selection leg (fst t)) mp fuel (fresh_outcome since) = Some (snd t, e)
     \<and> (if fst t = ''tombstones'' then env = pp_tombstones leg else \<exists>inc. env = pp_family leg (fst t) inc))"

text \<open>Every request of a label reads one collection, as it stood at that request.\<close>

definition own_store :: "'b push_leg \<Rightarrow> string \<Rightarrow> (nat \<Rightarrow> 'b snapshot) \<Rightarrow> bool" where
  "own_store leg label S \<longleftrightarrow> stores_ok S \<and>
     (if label = ''tombstones'' then ps_snapshot (pp_tombstones leg) = S else \<forall>inc. ps_snapshot (pp_family leg label inc) = S)"

lemma pushed_sent:
  assumes "pushed digest leg since t" "own_store leg (fst t) S" "0 \<le> since" "stands S r" "pp_selection leg (fst t) r"
    and "since < pr_pos r" "pr_pos r \<le> deliveredThrough (pq_outcome (snd t))"
  shows "item_of r \<in> set (pq_sent (snd t))"
proof -
  obtain env n mp fuel e where p: "1 \<le> n"
    "push_position_runs digest env n (pp_selection leg (fst t)) mp fuel (fresh_outcome since) = Some (snd t, e)"
    "ps_snapshot env = S"
    using assms(1,2) unfolding pushed_def own_store_def by (auto split: if_splits)
  have "stores_ok (ps_snapshot env)" "stands (ps_snapshot env) r" using p(3) assms(2,4) by (simp_all add: own_store_def)
  from push_delivers [OF this(1) p(1) _ p(2) this(2)] assms(3,5-7) show ?thesis by simp
qed

lemma push_families_ok:
  assumes "\<forall>f \<in> set fs. rf_payloadKey f \<noteq> ''tombstones''"
  shows "list_all (pushed digest leg since) ts \<Longrightarrow> push_families digest te leg fuel since k fs ts = Some (ts', Returned) \<Longrightarrow>
    list_all (pushed digest leg since) ts' \<and>
    (may_continue te (k + length fs) \<longrightarrow> map fst ts' = map fst ts @ map rf_payloadKey fs)"
  using assms
proof (induction fs arbitrary: k ts)
  case (Cons f fs)
  show ?case
  proof (cases "may_continue te k")
    case False
    with Cons.prems may_continue_earlier [of te "k + length (f # fs)" k] show ?thesis by auto
  next
    case True
    let ?inc = "families_not_complete (push_outcomes ts)"
    obtain ps where ps: "push_family digest leg (rf_payloadKey f) ?inc fuel since = Some (ps, Returned)"
      and run: "push_families digest te leg fuel since (Suc k) fs (ts @ [(rf_payloadKey f, ps)]) = Some (ts', Returned)"
      using True Cons.prems(2) by (auto split: option.splits transfer_end.splits)
    have "1 \<le> PUSH_BATCH_SIZE" by (simp add: PUSH_BATCH_SIZE_def)
    then have "pushed digest leg since (rf_payloadKey f, ps)"
      using ps Cons.prems(3) unfolding pushed_def push_family_def by fastforce
    with Cons.prems(1,3) Cons.IH [OF _ run] show ?thesis by simp
  qed
qed simp

lemma own_position_mark_bound: "own_position_mark s sp seed ms v = Some m \<Longrightarrow> m \<le> v"
  by (auto simp: own_position_mark_def split: if_splits)

lemma push_leg_ok:
  assumes run: "push_to_peer digest te ids leg fuel cfg = Some (cfg', ts, Inr (Some m, rep))"
  shows "let since = mark_or_zero (read_mark cfg ids LastPosPushed)
    in list_all (pushed digest leg since) ts \<and> map fst ts = ''tombstones'' # map rf_payloadKey REPLICATED_FAMILIES
       \<and> m \<le> safe_watermark since (map (\<lambda>t. pq_outcome (snd t)) ts)
       \<and> own_position_mark (pp_stream leg) (li_space ids) (pp_seed leg) (pp_wall leg) (safe_watermark since (map (\<lambda>t. pq_outcome (snd t)) ts)) = Some m"
proof -
  define since where "since = mark_or_zero (read_mark cfg ids LastPosPushed)"
  obtain tomb where tomb: "push_tombstones digest leg fuel since = Some (tomb, Returned)"
    using run unfolding push_to_peer_def Let_def since_def [symmetric] by (auto split: option.splits transfer_end.splits)
  obtain fs where fs: "push_families digest te leg fuel since 1 REPLICATED_FAMILIES [] = Some (fs, Returned)"
    using run tomb unfolding push_to_peer_def Let_def since_def [symmetric] by (auto split: option.splits transfer_end.splits)
  let ?w = "resolve_watermark since (push_outcomes ((''tombstones'', tomb) # fs))"
  have go: "may_continue te RESOLVE_POINT" and ts: "ts = (''tombstones'', tomb) # fs"
    and m: "own_position_mark (pp_stream leg) (li_space ids) (pp_seed leg) (pp_wall leg) (wr_at ?w) = Some m"
    using run tomb fs unfolding push_to_peer_def Let_def since_def [symmetric]
    by (auto split: if_splits option.splits)
  have keys: "\<forall>f \<in> set REPLICATED_FAMILIES. rf_payloadKey f \<noteq> ''tombstones''"
    by (simp add: REPLICATED_FAMILIES_def family_def)
  from push_families_ok [OF keys _ fs] go
  have f: "list_all (pushed digest leg since) fs" "map fst fs = map rf_payloadKey REPLICATED_FAMILIES"
    by (simp_all add: RESOLVE_POINT_def)
  have "1 \<le> PUSH_PAGE" by (simp add: PUSH_PAGE_def)
  then have "pushed digest leg since (''tombstones'', tomb)"
    using tomb unfolding pushed_def push_tombstones_def by fastforce
  moreover have w: "wr_at ?w = safe_watermark since (map (\<lambda>t. pq_outcome (snd t)) ts)"
    by (simp add: resolve_watermark_def push_outcomes_def ts comp_def)
  ultimately show ?thesis
    using f m own_position_mark_bound [OF m] by (simp add: Let_def since_def [symmetric] ts)
qed

text \<open>
  Property C14: the push mark a leg records never covers a record that was not sent.  When it records
  \<open>m\<close>, every record the selection takes, of the tombstones and of each of the six families, that stood in
  this instance's collection above the old mark and at or below \<open>m\<close>, was in a page the member took; and
  \<open>m\<close> is not above this instance's own settled cap.
\<close>

theorem pushed_mark_covers:
  assumes "push_to_peer digest te ids leg fuel cfg = Some (cfg', ts, Inr (Some m, rep))"
    and "0 \<le> mark_or_zero (read_mark cfg ids LastPosPushed)"
    and "label \<in> set (''tombstones'' # map rf_payloadKey REPLICATED_FAMILIES)" "own_store leg label S"
    and "stands S r" "pp_selection leg label r" "mark_or_zero (read_mark cfg ids LastPosPushed) < pr_pos r" "pr_pos r \<le> m"
  shows "(\<exists>t \<in> set ts. fst t = label \<and> item_of r \<in> set (pq_sent (snd t)))
    \<and> (\<exists>cap. snd (settled_position_cap (pp_stream leg) (li_space ids) (pp_seed leg) (pp_wall leg)) = Some cap \<and> m \<le> cap)"
proof -
  let ?since = "mark_or_zero (read_mark cfg ids LastPosPushed)"
  from push_leg_ok [OF assms(1)] have ok: "list_all (pushed digest leg ?since) ts"
    "map fst ts = ''tombstones'' # map rf_payloadKey REPLICATED_FAMILIES"
    "m \<le> safe_watermark ?since (map (\<lambda>t. pq_outcome (snd t)) ts)"
    "own_position_mark (pp_stream leg) (li_space ids) (pp_seed leg) (pp_wall leg) (safe_watermark ?since (map (\<lambda>t. pq_outcome (snd t)) ts)) = Some m"
    by (auto simp: Let_def)
  obtain t where t: "t \<in> set ts" "fst t = label" using assms(3) unfolding ok(2) [symmetric] by auto
  have "pq_outcome (snd t) \<in> set (map (\<lambda>t. pq_outcome (snd t)) ts)" using t(1) by simp
  from safe_watermark_bound(2) [OF this, of ?since] ok(3) assms(7,8)
  have "pr_pos r \<le> deliveredThrough (pq_outcome (snd t))" by linarith
  moreover have "pushed digest leg ?since t" using ok(1) t(1) by (simp add: list_all_iff)
  ultimately have "item_of r \<in> set (pq_sent (snd t))" using pushed_sent assms(2,4-7) t(2) by blast
  moreover have "\<exists>cap. snd (settled_position_cap (pp_stream leg) (li_space ids) (pp_seed leg) (pp_wall leg)) = Some cap \<and> m \<le> cap"
    using ok(4) by (auto simp: own_position_mark_def split: if_splits)
  ultimately show ?thesis using t by blast
qed

section \<open>A push that ends\<close>

text \<open>This instance's collection, standing still while it is pushed.\<close>

definition still_push :: "'b rows \<Rightarrow> int \<Rightarrow> 'b push_env \<Rightarrow> bool" where
  "still_push store cap env \<longleftrightarrow> (\<forall>k. sn_ready (ps_snapshot env k) \<and> sn_cap (ps_snapshot env k) = cap
     \<and> sn_tie (ps_snapshot env k) = store \<and> sn_range (ps_snapshot env k) = store)"

definition all_taken :: "'b push_env \<Rightarrow> bool" where
  "all_taken env \<longleftrightarrow> (\<forall>k xs. \<not> ps_should_stop env k \<and> ps_send env k xs = Landed)"

definition rows_after :: "'b rows \<Rightarrow> position_start \<Rightarrow> nat" where
  "rows_after store f = length (filter (after_start f) store)"

lemma after_start_trans:
  "after_start s x \<Longrightarrow> after_start \<lparr>st_pos = pr_pos x, st_id = Some (pr_id x), st_idDigest = None\<rparr> r \<Longrightarrow> after_start s r"
  by (auto simp: after_start_def)

lemma push_page_onward:
  assumes still: "still_push store cap env" "1 \<le> page_size" and plain: "st_idDigest (pq_after st) = None"
    and p: "push_page digest env page_size extra k st = (st', None)"
  shows "st_idDigest (pq_after st') = None \<and> rows_after store (pq_after st') < rows_after store (pq_after st)
    \<and> truncated (pq_outcome st') = truncated (pq_outcome st)
    \<and> max (deliveredThrough (pq_outcome st')) (max 0 (cap - 1)) = max (deliveredThrough (pq_outcome st)) (max 0 (cap - 1))"
proof -
  let ?sn = "ps_snapshot env k"
  have sn: "sn_ready ?sn" "sn_cap ?sn = cap" "sn_tie ?sn = store" "sn_range ?sn = store" using still(1) by (simp_all add: still_push_def)
  obtain xs cap' where rd: "read_after_position digest ?sn (pq_after st) page_size extra = Some (xs, cap')"
    using p by (cases "read_after_position digest ?sn (pq_after st) page_size extra") (auto simp: push_page_def)
  let ?ys = "whole_read ?sn (pq_after st) extra" and ?x = "List.last xs"
  have xs: "xs = take page_size ?ys" using read_is_whole [OF rd] by (simp add: resolve_plain [OF plain])
  have full: "page_size \<le> length xs" "xs \<noteq> []"
    and st': "pq_after st' = \<lparr>st_pos = pr_pos ?x, st_id = Some (pr_id ?x), st_idDigest = None\<rparr>"
      "pq_outcome st' = (pq_outcome st)\<lparr>deliveredThrough := max (deliveredThrough (pq_outcome st)) (complete_through (pr_pos ?x) True)\<rparr>"
    using p rd by (auto simp: push_page_def Let_def split: if_splits)
  have "?x \<in> set ?ys" using full(2) xs by (metis in_set_takeD last_in_set)
  then have x: "?x \<in> set store" "after_start (pq_after st) ?x" "pr_pos ?x < cap"
    using whole_read_from [of ?x ?sn] whole_read_after [of ?x ?sn] sn by auto
  have "rows_after store (pq_after st') < rows_after store (pq_after st)"
    unfolding rows_after_def
  proof (rule filter_less [where x = ?x])
    show "\<And>r. after_start (pq_after st') r \<Longrightarrow> after_start (pq_after st) r" using after_start_trans x(2) st'(1) by metis
    show "\<not> after_start (pq_after st') ?x" by (simp add: st'(1) after_start_def)
  qed (use x in simp_all)
  then show ?thesis using st' x(3) by (auto simp: complete_through_def)
qed

lemma push_page_last:
  assumes still: "still_push store cap env" and taken: "all_taken env" and p: "push_page digest env page_size extra k st = (st', Some e)"
  shows "e = Returned \<and> truncated (pq_outcome st') = truncated (pq_outcome st)
    \<and> deliveredThrough (pq_outcome st') = max (deliveredThrough (pq_outcome st)) (max 0 (cap - 1))"
proof -
  let ?sn = "ps_snapshot env k"
  have sn: "sn_ready ?sn" "sn_cap ?sn = cap" using still by (simp_all add: still_push_def)
  obtain xs where rd: "read_after_position digest ?sn (pq_after st) page_size extra = Some (xs, cap)"
    using sn by (cases "position_keyset_filters (resolve_digest_start digest (sn_resolve ?sn) (pq_after st)) cap extra")
      (simp add: read_after_position_def Let_def)
  have "(if xs = [] then Landed else ps_send env k (map item_of xs)) = Landed" using taken by (simp add: all_taken_def)
  with p rd show ?thesis by (auto simp: push_page_def Let_def split: if_splits)
qed

lemma push_loop_ends:
  assumes "still_push store cap env" "1 \<le> page_size"
  shows "st_idDigest (pq_after st) = None \<Longrightarrow> rows_after store (pq_after st) < fuel \<Longrightarrow>
    \<exists>st' e. push_loop digest env page_size extra mp fuel k st = Some (st', e)
      \<and> (mp = None \<and> all_taken env \<longrightarrow> e = Returned \<and> truncated (pq_outcome st') = truncated (pq_outcome st)
           \<and> deliveredThrough (pq_outcome st') = max (deliveredThrough (pq_outcome st)) (max 0 (cap - 1)))"
proof (induction fuel arbitrary: k st)
  case (Suc n)
  obtain s1 e1 where p: "push_page digest env page_size extra k st = (s1, e1)" by force
  have l: "push_loop digest env page_size extra mp (Suc n) k st =
      (if ps_should_stop env k then Some (stop_push Closing st, Returned)
       else if (case mp of None \<Rightarrow> False | Some n \<Rightarrow> n \<le> k) then Some (stop_push Cap st, Returned)
       else case e1 of Some e \<Rightarrow> Some (s1, e) | None \<Rightarrow> push_loop digest env page_size extra mp n (Suc k) s1)"
    using p by (simp add: push_loop.simps [of _ _ _ _ _ "Suc n"] split: option.split)
  consider (stop) "ps_should_stop env k \<or> (case mp of None \<Rightarrow> False | Some n \<Rightarrow> n \<le> k)"
    | (ended) e where "\<not> ps_should_stop env k" "\<not> (case mp of None \<Rightarrow> False | Some n \<Rightarrow> n \<le> k)" "e1 = Some e"
    | (on) "\<not> ps_should_stop env k" "\<not> (case mp of None \<Rightarrow> False | Some n \<Rightarrow> n \<le> k)" "e1 = None"
    by (cases e1) auto
  then show ?case
  proof cases
    case stop
    then have "\<not> (mp = None \<and> all_taken env)" by (auto simp: all_taken_def)
    with stop l show ?thesis by auto
  next
    case (ended e)
    with l push_page_last [OF assms(1) _ p [unfolded ended(3)]] show ?thesis by auto
  next
    case on
    from push_page_onward [OF assms Suc.prems(1) p [unfolded on(3)]] Suc.prems(2) Suc.IH [of s1 "Suc k"] on l show ?thesis by auto
  qed
qed simp

text \<open>
  A push of a collection that stands still ends, though its families have no page bound of
  their own: one page more than there are records to send suffices, whatever the member answers; and
  when the member takes every page it ends untruncated and complete through the settled cap.
\<close>

theorem push_ends:
  assumes "still_push store cap env" "1 \<le> page_size" "length store < fuel"
  shows "\<exists>st e. push_position_runs digest env page_size extra mp fuel (fresh_outcome since) = Some (st, e)
    \<and> (mp = None \<and> all_taken env \<longrightarrow> e = Returned \<and> \<not> truncated (pq_outcome st)
         \<and> deliveredThrough (pq_outcome st) = max since (max 0 (cap - 1)))"
proof -
  let ?st = "\<lparr>pq_outcome = fresh_outcome since, pq_after = bare_start since, pq_sent = []\<rparr>"
  have "rows_after store (pq_after ?st) < fuel"
    using le_less_trans [OF length_filter_le assms(3)] by (simp add: rows_after_def)
  from push_loop_ends [OF assms(1,2) _ this, of digest extra mp 0] show ?thesis
    by (simp add: push_position_runs_def bare_start_def)
qed

section \<open>Concrete legs\<close>

definition demo_turn :: turn_env where
  "demo_turn = \<lparr>te_leaving = None, te_broken = (\<lambda>_. False), te_meanwhile = (\<lambda>_ c. c), te_stops = None\<rparr>"

definition demo_ids :: leg_ids where
  "demo_ids = \<lparr>li_network = ''net'', li_member = ''b'', li_space = ''t''\<rparr>"

definition demo_pull_leg :: "nat pull_leg" where
  "demo_pull_leg = \<lparr>pl_tombstones = still_env demo_hash demo_peer (\<lambda>_. True) 5, pl_closing = False,
     pl_family = (\<lambda>_. still_env demo_hash demo_peer (\<lambda>_. True) 5)\<rparr>"

definition demo_received :: "nat leg_state \<times> (transfer_end + int option \<times> leg_report)" where
  "demo_received = pull_from_peer demo_hash demo_turn demo_ids demo_pull_leg demo_exchange"

lemma demo_peer_ok: "still_ok demo_peer" "inj_on demo_hash (ids_in demo_peer)"
  by (simp_all add: still_ok_def demo_peer_def ids_ok_def is_position_number_def head_of_def ids_in_def demo_hash_def)

definition demo_page :: "nat \<Rightarrow> nat pull_state" where
  "demo_page n = fst (page_position_runs demo_hash (still_env demo_hash demo_peer (\<lambda>_. True) 5) (Some n) (fresh_outcome 0))"

lemma demo_page_run:
  assumes "2 < n"
  shows "page_position_runs demo_hash (still_env demo_hash demo_peer (\<lambda>_. True) 5) (Some n) (fresh_outcome 0) = (demo_page n, Returned)
    \<and> pu_behind (demo_page n) = None \<and> deliveredThrough (pu_outcome (demo_page n)) = 8 \<and> \<not> truncated (pu_outcome (demo_page n))"
proof -
  have "is_position_number 0" "0 \<le> head_of demo_peer" "length (sp_store demo_peer) < n" "head_of demo_peer = 8"
    using assms by (simp_all add: is_position_number_def head_of_def demo_peer_def)
  from still_pull_from [OF demo_peer_ok(2) is_digest_demo_hash demo_peer_ok(1) this(1-3), of "\<lambda>_. True" 5] this(4)
  show ?thesis by (auto simp: demo_page_def)
qed

lemma demo_pull_from:
  assumes "mark_or_zero (read_mark cfg demo_ids LastPosReceived) = 0" "may_exchange demo_turn demo_ids cfg"
  shows "\<exists>ts pc. pull_from_peer demo_hash demo_turn demo_ids demo_pull_leg cfg
      = (\<lparr>lg_config = write_mark demo_ids LastPosReceived (raise_mark 8) cfg, lg_from = 0, lg_transfers = ts\<rparr>, Inr (Some 8, pc))
    \<and> list_all (\<lambda>t. pu_behind (tf_state t) = None) ts
    \<and> lr_stoppedEarly pc = [] \<and> lr_capped pc = [] \<and> lr_held pc = [] \<and> lr_local pc = [] \<and> lr_closing pc = []"
proof -
  have te: "may_continue demo_turn k" "te_meanwhile demo_turn k c = c" for k c
    by (simp_all add: may_continue_def demo_turn_def)
  have leg: "pl_tombstones demo_pull_leg = still_env demo_hash demo_peer (\<lambda>_. True) 5"
    "pl_family demo_pull_leg key = still_env demo_hash demo_peer (\<lambda>_. True) 5" for key
    by (simp_all add: demo_pull_leg_def)
  have runs: "pull_tombstones demo_hash (still_env demo_hash demo_peer (\<lambda>_. True) 5) c 0 = (demo_page 200, Returned)"
    "pull_family demo_hash (still_env demo_hash demo_peer (\<lambda>_. True) 5) 0 = (demo_page 50, Returned)" for c
    using demo_page_run [of 200] demo_page_run [of 50]
    by (simp_all add: pull_tombstones_def pull_family_def MAX_TRANSFER_PAGES_def PULL_MAX_PAGES_def)
  have stays: "forget_if_behind te ids k (demo_page 200) lg = lg" "forget_if_behind te ids k (demo_page 50) lg = lg" for te ids k lg
    using demo_page_run [of 200] demo_page_run [of 50] by (simp_all add: forget_if_behind_def)
  show ?thesis
    using demo_page_run [of 200] demo_page_run [of 50] assms(2)
    by (simp add: pull_from_peer_def Let_def assms(1) leg runs stays te REPLICATED_FAMILIES_def family_def took_def
        resolve_watermark_def safe_watermark_def outcomes_of_def report_of_def stopped_transfers_def)
qed

lemma demo_received_is:
  "\<exists>rep. snd demo_received = Inr (Some 8, rep)"
  "lg_from (fst demo_received) = 0" "list_all (\<lambda>t. pu_behind (tf_state t) = None) (lg_transfers (fst demo_received))"
proof -
  have "mark_or_zero (read_mark demo_exchange demo_ids LastPosReceived) = 0" "may_exchange demo_turn demo_ids demo_exchange"
    by code_simp+
  from demo_pull_from [OF this]
  show "\<exists>rep. snd demo_received = Inr (Some 8, rep)"
    "lg_from (fst demo_received) = 0" "list_all (\<lambda>t. pu_behind (tf_state t) = None) (lg_transfers (fst demo_received))"
    by (auto simp: demo_received_def)
qed

lemma received_mark_covers_witness:
  "\<exists>t \<in> set (lg_transfers (fst demo_received)). tf_label t = ''edges'' \<and> (''a'', 2) \<in> set (pu_delivered (tf_state t))"
proof -
  obtain rep where run: "pull_from_peer demo_hash demo_turn demo_ids demo_pull_leg demo_exchange = (fst demo_received, Inr (Some 8, rep))"
    using demo_received_is(1) by (metis demo_received_def prod.collapse)
  have facts: "0 \<le> mark_or_zero (read_mark demo_exchange demo_ids LastPosReceived)" by code_simp
  have late: "list_all (\<lambda>t. pu_behind (tf_state t) = None) (tl (lg_transfers (fst demo_received)))"
    using demo_received_is(3) by (cases "lg_transfers (fst demo_received)") simp_all
  let ?S = "\<lambda>_ :: nat. still_snapshot demo_peer"
  let ?r = "\<lparr>pr_id = ''a'', pr_pos = 5, pr_body = 2\<rparr> :: nat positioned_row"
  have "peer_ok demo_hash demo_pull_leg ''edges'' ?S (\<lambda>_. True) 5"
    using still_peer_honest [OF demo_peer_ok(1)] is_digest_demo_hash demo_peer_ok(2) by (simp add: peer_ok_def leg_env_def demo_pull_leg_def)
  moreover have "stands ?S ?r" using still_peer_honest(4) [OF demo_peer_ok(1)] by (simp add: demo_peer_def)
  ultimately show ?thesis
    using received_mark_covers [OF run facts late, of "''edges''" ?S "\<lambda>_. True" 5 ?r] demo_received_is(2)
    by (simp add: REPLICATED_FAMILIES_def family_def item_of_def)
qed

definition demo_push_env :: "nat push_env" where
  "demo_push_env = \<lparr>ps_should_stop = (\<lambda>_. False), ps_shutting_down = (\<lambda>_. False),
     ps_snapshot = (\<lambda>_. still_snapshot demo_peer), ps_send = (\<lambda>_ _. Landed)\<rparr>"

lemma push_ends_witness:
  "\<exists>st. push_position_runs demo_hash demo_push_env 1 (\<lambda>_. True) None 3 (fresh_outcome 2) = Some (st, Returned)
     \<and> deliveredThrough (pq_outcome st) = 8"
proof -
  have "still_push (sp_store demo_peer) 9 demo_push_env"
    by (simp add: still_push_def demo_push_env_def still_snapshot_def demo_peer_def)
  moreover have "all_taken demo_push_env" by (simp add: all_taken_def demo_push_env_def)
  moreover have "length (sp_store demo_peer) < 3" by (simp add: demo_peer_def)
  ultimately show ?thesis
    using push_ends [of "sp_store demo_peer" 9 demo_push_env 1 3 demo_hash "\<lambda>_. True" None 2] by auto
qed

definition demo_push_leg :: "nat push_leg" where
  "demo_push_leg = \<lparr>pp_tombstones = demo_push_env, pp_family = (\<lambda>_ _. demo_push_env), pp_selection = (\<lambda>_ _. True),
     pp_stream = create_position_stream Microseconds Refuse, pp_seed = Some 0, pp_wall = 2000000000000\<rparr>"

definition demo_pushed :: "(space_config \<times> nat pushes \<times> (transfer_end + int option \<times> leg_report)) option" where
  "demo_pushed = push_to_peer demo_hash demo_turn demo_ids demo_push_leg 3 demo_exchange"

definition demo_sent :: "nat \<Rightarrow> nat option \<Rightarrow> (nat push_state \<times> transfer_end) option" where
  "demo_sent n mp = push_position_runs demo_hash demo_push_env n (\<lambda>_. True) mp 3 (fresh_outcome 0)"

lemma demo_sent_run:
  "map_option (\<lambda>x. (deliveredThrough (pq_outcome (fst x)), snd x)) (demo_sent 500 (Some 200)) = Some (8, Returned)"
  "map_option (\<lambda>x. (deliveredThrough (pq_outcome (fst x)), snd x)) (demo_sent 200 None) = Some (8, Returned)"
  by code_simp+

lemma pushed_mark_covers_witness:
  "\<exists>t \<in> set (fst (snd (the demo_pushed))). fst t = ''links'' \<and> (''b'', 1) \<in> set (pq_sent (snd t))"
proof -
  have z: "mark_or_zero (read_mark demo_exchange demo_ids LastPosPushed) = 0" "may_exchange demo_turn demo_ids demo_exchange"
    by code_simp+
  have own: "own_position_mark (create_position_stream Microseconds Refuse) (li_space demo_ids) (Some 0) 2000000000000 8 = Some 8"
    by code_simp
  have te: "may_continue demo_turn k" "te_meanwhile demo_turn k c = c" for k c
    by (simp_all add: may_continue_def demo_turn_def)
  obtain st1 st2 where st: "demo_sent 500 (Some 200) = Some (st1, Returned)" "demo_sent 200 None = Some (st2, Returned)"
    "deliveredThrough (pq_outcome st1) = 8" "deliveredThrough (pq_outcome st2) = 8"
    using demo_sent_run by auto
  have runs: "push_tombstones demo_hash demo_push_leg 3 0 = Some (st1, Returned)"
    "push_family demo_hash demo_push_leg key inc 3 0 = Some (st2, Returned)" for key inc
    using st(1,2) by (simp_all add: push_tombstones_def push_family_def demo_push_leg_def demo_sent_def PUSH_PAGE_def PUSH_BATCH_SIZE_def MAX_TRANSFER_PAGES_def)
  have leg: "pp_stream demo_push_leg = create_position_stream Microseconds Refuse" "pp_seed demo_push_leg = Some 0" "pp_wall demo_push_leg = 2000000000000"
    by (simp_all add: demo_push_leg_def)
  have "\<exists>cfg' ts rep. demo_pushed = Some (cfg', ts, Inr (Some 8, rep))"
    using st(3,4) z(2) own
    by (simp add: demo_pushed_def push_to_peer_def Let_def z(1) runs te leg REPLICATED_FAMILIES_def family_def
        push_outcomes_def resolve_watermark_def safe_watermark_def)
  then obtain cfg' ts rep where run: "push_to_peer demo_hash demo_turn demo_ids demo_push_leg 3 demo_exchange = Some (cfg', ts, Inr (Some 8, rep))"
    by (auto simp: demo_pushed_def)
  let ?r = "\<lparr>pr_id = ''b'', pr_pos = 5, pr_body = 1\<rparr> :: nat positioned_row"
  have "own_store demo_push_leg ''links'' (\<lambda>_. still_snapshot demo_peer)"
    using still_peer_honest(2) [OF demo_peer_ok(1)] by (simp add: own_store_def demo_push_leg_def demo_push_env_def)
  moreover have "stands (\<lambda>_. still_snapshot demo_peer) ?r" using still_peer_honest(4) [OF demo_peer_ok(1)] by (simp add: demo_peer_def)
  ultimately show ?thesis
    using pushed_mark_covers [OF run, of "''links''" "\<lambda>_. still_snapshot demo_peer" ?r] z(1) run
    by (simp add: REPLICATED_FAMILIES_def family_def item_of_def demo_push_leg_def demo_pushed_def)
qed

end
