(* ===== verification/Member_Turn.thy ===== *)
theory Member_Turn
  imports Space_Legs
begin

text \<open>
  A member's turn in a sync cycle: the spaces one after the other (\<open>exchangeSpacesWithMember\<close> and
  \<open>exchangeSpaceWithMember\<close> of \<open>server/src/sync/space-exchange.ts\<close>), the operator's full re-read that runs one
  space at a time (\<open>full-reread.ts\<close>, \<open>foldRepairMark\<close> of \<open>member-space-mark.ts\<close>), and what the turn comes to
  (\<open>cycle-outcome.ts\<close>).  The legs are those of \<open>Space_Legs\<close>; the metadata pull, the files and the merkle check are
  points at which the turn may throw.  The lemmas show that at most one space of a member is being read
  again, and that a re-read ends only with a turn in which nothing stopped.
\<close>

section \<open>The operator's full re-read\<close>

datatype reread_state = Reread_owed | Reread_catching

definition reread_state_of :: "mark_value option \<Rightarrow> reread_state option" where
  "reread_state_of v =
     (if v = Some (Mark_text ''owed'') then Some Reread_owed
      else if v = Some (Mark_text ''catching'') then Some Reread_catching else None)"

record reread_row =
  rw_instanceId :: string
  rw_space :: string
  rw_state :: reread_state

definition reread_owed_of :: "network \<Rightarrow> reread_row list" where
  "reread_owed_of net =
     concat (map (\<lambda>m. case m_marks m FullRereadState of
         None \<Rightarrow> []
       | Some held \<Rightarrow>
           List.map_filter (\<lambda>sp. map_option (\<lambda>st. \<lparr>rw_instanceId = m_instanceId m, rw_space = sp, rw_state = st\<rparr>)
               (reread_state_of (map_of held sp)))
             (n_spaces net @ filter (\<lambda>sp. sp \<notin> set (n_spaces net)) (map fst held))) (n_members net))"

definition ask_reread :: "string \<Rightarrow> string \<times> string \<Rightarrow> space_config \<times> nat \<Rightarrow> space_config \<times> nat" where
  "ask_reread netid ms cn =
     (let (cfg', did) = set_member_space_mark (Some (fst ms)) (snd ms) FullRereadState (One_network netid)
            (\<lambda>current. if current \<noteq> None then Leave else Write_mark (Mark_text ''owed'')) (fst cn)
      in (cfg', if did then Suc (snd cn) else snd cn))"

definition request_full_reread :: "space_config \<Rightarrow> string \<Rightarrow> string list \<Rightarrow> space_config \<times> nat" where
  "request_full_reread cfg netid sps =
     (case List.find (\<lambda>n. n_id n = netid) (g_networks cfg) of
        None \<Rightarrow> (cfg, 0)
      | Some net \<Rightarrow>
          fold (ask_reread netid) (concat (map (\<lambda>m. map (Pair (m_instanceId m)) sps) (n_members net))) (cfg, 0))"

definition full_reread_state_of :: "space_config \<Rightarrow> leg_ids \<Rightarrow> reread_state option" where
  "full_reread_state_of cfg ids = reread_state_of (read_mark cfg ids FullRereadState)"

text \<open>The slot of one member's turn is open when the member was being read again for no space.\<close>

definition slot_opens :: "network_member \<Rightarrow> bool" where
  "slot_opens m \<longleftrightarrow> (case m_marks m FullRereadState of None \<Rightarrow> True | Some held \<Rightarrow> Mark_text ''catching'' \<notin> snd ` set held)"

datatype reread_phase = Begin | Continue

definition phase_of :: "space_config \<Rightarrow> leg_ids \<Rightarrow> bool \<Rightarrow> reread_phase option" where
  "phase_of cfg ids is_open =
     (case full_reread_state_of cfg ids of
        Some Reread_catching \<Rightarrow> Some Continue
      | Some Reread_owed \<Rightarrow> if is_open then Some Begin else None
      | None \<Rightarrow> None)"

definition begin_full_reread :: "turn_env \<Rightarrow> leg_ids \<Rightarrow> space_config \<Rightarrow> space_config \<times> bool" where
  "begin_full_reread te ids cfg =
     (if may_exchange te ids cfg
      then (write_mark ids FullRereadState (\<lambda>_. Write_mark (Mark_text ''catching''))
              (write_mark ids LastPosPushed (\<lambda>_. Clear) (write_mark ids LastPosReceived (\<lambda>_. Clear) cfg)), True)
      else (cfg, False))"

text \<open>Both values are of the first network visited; nothing is written where the value stays.\<close>

definition fold_repair_mark ::
  "string \<Rightarrow> string \<Rightarrow> per_space_watermark \<Rightarrow> (mark_value option \<Rightarrow> mark_value option) \<Rightarrow> mark_scope \<Rightarrow> space_config
     \<Rightarrow> space_config \<times> (mark_value option \<times> mark_value option) option" where
  "fold_repair_mark peer sp key nxt scope cfg =
     (let visited = List.map_filter (\<lambda>n. if (case scope of Every_network \<Rightarrow> True | One_network i \<Rightarrow> n_id n = i) \<and> sp \<in> set (n_spaces n)
            then member_of n peer else None) (g_networks cfg);
          seen = (if peer = [] then None else case visited of [] \<Rightarrow> None | m # _ \<Rightarrow> Some (mark_of m key sp, nxt (mark_of m key sp)))
      in (fst (set_member_space_mark (Some peer) sp key scope
            (\<lambda>current. if nxt current = current then Leave
               else case nxt current of None \<Rightarrow> Clear | Some v \<Rightarrow> Write_mark v) cfg), seen))"

definition end_full_reread :: "leg_ids \<Rightarrow> space_config \<Rightarrow> space_config \<times> bool" where
  "end_full_reread ids cfg =
     (let (cfg', seen) = fold_repair_mark (li_member ids) (li_space ids) FullRereadState (\<lambda>_. None) (One_network (li_network ids)) cfg
      in (cfg', (case seen of None \<Rightarrow> False | Some ba \<Rightarrow> fst ba \<noteq> None)))"

section \<open>One space\<close>

datatype turn_refusal = Refused_held | Refused_declined

datatype turn_throw = Throws_building | Throws_store bool | Throws_too_old | Throws_peer

datatype leg_name = Receive | Push_out | Files_part

text \<open>
  What one space's exchange meets besides its legs: whether the space is configured here, whether its
  positions are ready, where the file re-read, the files or the merkle check throw, what a leg that
  threw threw, what the turn was refused with or whether an act cut it, whether shutdown has begun when
  a throw is caught, whether anything moved, and the families the peer refused records of.
\<close>

record 'b space_turn =
  st_configured :: bool
  st_ready :: bool
  st_env :: turn_env
  st_pull :: "'b pull_leg"
  st_push :: "'b push_leg"
  st_fuel :: nat
  st_reread_throws :: "turn_throw option"
  st_files_throw :: "turn_throw option"
  st_leg_threw :: turn_throw
  st_refusal :: "turn_refusal option"
  st_cut :: bool
  st_closing :: bool
  st_moved :: bool
  st_pushRefused :: "string list"

datatype hold_said = Said hold_reason | Held_by_the_member | Positions_building_here

record turn_out =
  to_incomplete :: "(leg_name \<times> string list) list"
  to_capped :: "(leg_name \<times> string list) list"
  to_refused :: "string list"
  to_localFaults :: "leg_name list"
  to_interrupted :: bool
  to_peerAnswered :: bool
  to_storeDown :: bool
  to_heldFamilies :: "string list"
  to_held :: "hold_said option"
  to_declined :: bool

definition empty_turn :: turn_out where
  "empty_turn = \<lparr>to_incomplete = [], to_capped = [], to_refused = [], to_localFaults = [], to_interrupted = False, to_peerAnswered = False,
     to_storeDown = False, to_heldFamilies = [], to_held = None, to_declined = False\<rparr>"

definition exchange_directions :: "network \<Rightarrow> network_member \<Rightarrow> bool \<times> bool" where
  "exchange_directions net m =
     (let d = is_directional_network (Some net)
      in (\<not> d \<or> m_direction m = Both \<or> m_direction m = Pull, \<not> d \<or> m_direction m = Both \<or> m_direction m = Push))"

definition leg_outcome :: "leg_name \<Rightarrow> leg_report \<Rightarrow> turn_out \<Rightarrow> turn_out" where
  "leg_outcome leg pc out1 =
     \<lparr>to_incomplete = (if lr_stoppedEarly pc \<noteq> [] then to_incomplete out1 @ [(leg, lr_stoppedEarly pc)] else to_incomplete out1),
      to_capped = (if lr_capped pc \<noteq> [] then to_capped out1 @ [(leg, lr_capped pc)] else to_capped out1),
      to_refused = to_refused out1,
      to_localFaults = (if lr_local pc \<noteq> [] then to_localFaults out1 @ [leg] else to_localFaults out1),
      to_interrupted = (to_interrupted out1 \<or> lr_closing pc \<noteq> []),
      to_peerAnswered = (to_peerAnswered out1 \<or> lr_local pc \<noteq> []),
      to_storeDown = (to_storeDown out1 \<or> lr_local pc \<noteq> [] \<and> lr_storeDown pc),
      to_heldFamilies = fold (\<lambda>l hs. if l \<in> set hs then hs else hs @ [l]) (lr_held pc) (to_heldFamilies out1),
      to_held = to_held out1, to_declined = to_declined out1\<rparr>"

definition leg_ended :: "leg_report \<Rightarrow> bool" where
  "leg_ended pc \<longleftrightarrow> list_all (\<lambda>l. l = []) [lr_stoppedEarly pc, lr_capped pc, lr_held pc, lr_local pc, lr_closing pc]"

text \<open>A throw of this instance's own is taken into the turn; any other is \<open>None\<close> and goes on up.\<close>

definition turn_throw_is_ours :: "bool \<Rightarrow> leg_name \<Rightarrow> turn_throw \<Rightarrow> turn_out \<Rightarrow> turn_out option" where
  "turn_throw_is_ours closing leg err out1 =
     (if closing then Some (out1\<lparr>to_interrupted := True\<rparr>)
      else case err of
          Throws_store down \<Rightarrow> Some (out1\<lparr>to_localFaults := to_localFaults out1 @ [leg], to_storeDown := to_storeDown out1 \<or> down\<rparr>)
        | _ \<Rightarrow> None)"

definition throw_of_leg :: "turn_throw \<Rightarrow> transfer_end \<Rightarrow> turn_throw" where
  "throw_of_leg threw e = (case e of Building \<Rightarrow> Throws_building | Threw \<Rightarrow> threw | _ \<Rightarrow> Throws_too_old)"

text \<open>The points of a turn: the receive leg's, then the push leg's, numbered on from them.\<close>

definition PUSH_POINT :: nat where "PUSH_POINT = Suc MARK_POINT"

definition END_POINT :: nat where "END_POINT = PUSH_POINT + Suc MARK_POINT"

definition from_point :: "nat \<Rightarrow> turn_env \<Rightarrow> turn_env" where
  "from_point n te = te\<lparr>te_stops := map_option (\<lambda>m. m - n) (te_stops te), te_meanwhile := (\<lambda>k. te_meanwhile te (n + k))\<rparr>"

text \<open>The body of the turn's \<open>try\<close>: the configuration, what the turn said, whether each leg ended, and the throw.\<close>

record turn_state =
  ts_config :: space_config
  ts_out :: turn_out
  ts_pullEnded :: bool
  ts_pushEnded :: bool
  ts_leg :: leg_name
  ts_throw :: "turn_throw option"

definition receive_part :: "(string \<Rightarrow> string) \<Rightarrow> leg_ids \<Rightarrow> 'b space_turn \<Rightarrow> bool \<Rightarrow> turn_state \<Rightarrow> turn_state" where
  "receive_part digest ids st should ts =
     (if \<not> should then ts
      else if \<not> may_continue (st_env st) 0 then ts
      else case pull_from_peer digest (st_env st) ids (st_pull st) (ts_config ts) of
          (lg, Inl e) \<Rightarrow> ts\<lparr>ts_config := lg_config lg, ts_throw := Some (throw_of_leg (st_leg_threw st) e)\<rparr>
        | (lg, Inr (m, pc)) \<Rightarrow>
            ts\<lparr>ts_config := lg_config lg, ts_out := leg_outcome Receive pc (ts_out ts),
               ts_pullEnded := leg_ended pc \<and> may_continue (st_env st) PUSH_POINT,
               ts_throw := (if may_continue (st_env st) PUSH_POINT then st_reread_throws st else None)\<rparr>)"

definition push_part :: "(string \<Rightarrow> string) \<Rightarrow> leg_ids \<Rightarrow> 'b space_turn \<Rightarrow> bool \<Rightarrow> turn_state \<Rightarrow> turn_state option" where
  "push_part digest ids st should ts =
     (if ts_throw ts \<noteq> None then Some ts
      else let ts1 = ts\<lparr>ts_leg := Push_out\<rparr>
      in if \<not> should \<or> \<not> may_continue (st_env st) PUSH_POINT then Some ts1
      else case push_to_peer digest (from_point PUSH_POINT (st_env st)) ids (st_push st) (st_fuel st) (ts_config ts1) of
          None \<Rightarrow> None
        | Some (cfg, _, Inl e) \<Rightarrow> Some (ts1\<lparr>ts_config := cfg, ts_throw := Some (throw_of_leg (st_leg_threw st) e)\<rparr>)
        | Some (cfg, _, Inr (m, pc)) \<Rightarrow>
            Some (ts1\<lparr>ts_config := cfg,
               ts_out := (leg_outcome Push_out pc (ts_out ts1))\<lparr>to_refused :=
                 (if may_continue (st_env st) (PUSH_POINT + RESOLVE_POINT) then st_pushRefused st else [])\<rparr>,
               ts_pushEnded := leg_ended pc \<and> may_continue (st_env st) END_POINT\<rparr>))"

definition files_part :: "'b space_turn \<Rightarrow> turn_state \<Rightarrow> turn_state" where
  "files_part st ts =
     (if ts_throw ts \<noteq> None then ts
      else ts\<lparr>ts_leg := Files_part, ts_throw := (if may_continue (st_env st) END_POINT then st_files_throw st else None)\<rparr>)"

definition space_body ::
  "(string \<Rightarrow> string) \<Rightarrow> leg_ids \<Rightarrow> 'b space_turn \<Rightarrow> bool \<times> bool \<Rightarrow> turn_state \<Rightarrow> turn_state option" where
  "space_body digest ids st dirs ts =
     map_option (files_part st) (push_part digest ids st (snd dirs) (receive_part digest ids st (fst dirs) ts))"

text \<open>
  The exchange of one space: the configuration, whether the slot is still open, and what the turn said,
  or \<open>Inl\<close> the throw that goes up.  \<open>None\<close> is a push that outlived its fuel.
\<close>

definition end_of_turn :: "'b space_turn \<Rightarrow> bool \<Rightarrow> turn_out \<Rightarrow> turn_out" where
  "end_of_turn st building out1 =
     (let plain = out1\<lparr>to_incomplete := [], to_capped := [], to_heldFamilies := []\<rparr>
      in if building then plain\<lparr>to_held := Some Positions_building_here\<rparr>
         else if st_refusal st = Some Refused_declined then plain\<lparr>to_declined := True\<rparr>
         else if st_refusal st = Some Refused_held then plain\<lparr>to_held := Some Held_by_the_member\<rparr>
         else if st_cut st then plain\<lparr>to_held := Some (Said Act_owed_here)\<rparr>
         else out1)"

definition reread_ends :: "'b space_turn \<Rightarrow> reread_phase option \<Rightarrow> bool \<Rightarrow> turn_state \<Rightarrow> bool" where
  "reread_ends st phase building ts \<longleftrightarrow>
     phase \<noteq> None \<and> \<not> building \<and> st_refusal st = None \<and> \<not> st_cut st \<and> ts_pullEnded ts \<and> ts_pushEnded ts
     \<and> to_localFaults (ts_out ts) = []"

definition finish_turn ::
  "leg_ids \<Rightarrow> 'b space_turn \<Rightarrow> reread_phase option \<Rightarrow> turn_state \<Rightarrow> space_config \<times> (turn_throw + turn_out)" where
  "finish_turn ids st phase ts =
     (let building = (ts_throw ts = Some Throws_building);
          caught = (case ts_throw ts of
               None \<Rightarrow> Some (ts_out ts)
             | Some err \<Rightarrow>
                 if building \<or> st_refusal st \<noteq> None \<or> st_cut st then Some (ts_out ts)
                 else turn_throw_is_ours (st_closing st) (ts_leg ts) err (ts_out ts))
      in case caught of
           None \<Rightarrow> (ts_config ts, Inl (the (ts_throw ts)))
         | Some out0 \<Rightarrow>
             let out1 = (if st_moved st then out0\<lparr>to_peerAnswered := True\<rparr> else out0);
                 ends = reread_ends st phase building (ts\<lparr>ts_out := out1\<rparr>)
             in (if ends then fst (end_full_reread ids (ts_config ts)) else ts_config ts, Inr (end_of_turn st building out1)))"

definition turn_start :: "space_config \<Rightarrow> bool \<times> bool \<Rightarrow> turn_state" where
  "turn_start cfg dirs = \<lparr>ts_config = cfg, ts_out = empty_turn, ts_pullEnded = \<not> fst dirs, ts_pushEnded = \<not> snd dirs,
     ts_leg = Receive, ts_throw = None\<rparr>"

definition exchange_space_with_member ::
  "(string \<Rightarrow> string) \<Rightarrow> network \<Rightarrow> network_member \<Rightarrow> leg_ids \<Rightarrow> 'b space_turn \<Rightarrow> space_config \<times> bool
     \<Rightarrow> ((space_config \<times> bool) \<times> (turn_throw + turn_out)) option" where
  "exchange_space_with_member digest net m ids st cs =
     (let (cfg, is_open) = cs; dirs = exchange_directions net m in
      if \<not> st_configured st then Some ((cfg, is_open), Inr empty_turn)
      else case space_hold (te_leaving (st_env st)) (te_broken (st_env st)) cfg (li_space ids) (li_member ids) (Some (li_network ids)) of
          Some why \<Rightarrow> Some ((cfg, is_open), Inr (empty_turn\<lparr>to_held := Some (Said why)\<rparr>))
        | None \<Rightarrow>
            if \<not> st_ready st
            then Some (let r = finish_turn ids st None ((turn_start cfg dirs)\<lparr>ts_throw := Some Throws_building\<rparr>) in ((fst r, is_open), snd r))
            else
              let asked = phase_of cfg ids is_open;
                  begun = (if asked = Some Begin then begin_full_reread (st_env st) ids cfg else (cfg, False));
                  phase = (if asked = Some Begin \<and> \<not> snd begun then None else asked)
              in map_option (\<lambda>ts. let r = finish_turn ids st phase ts in ((fst r, is_open \<and> \<not> snd begun), snd r))
                   (space_body digest ids st dirs (turn_start (fst begun) dirs)))"

section \<open>A member's spaces\<close>

text \<open>
  The exchange with a member: the spaces its network holds back or that it declined, and what every
  space's turn said.  Between two spaces others write the configuration (\<open>me_meanwhile\<close>) and shutdown may begin.
\<close>

record member_exchange =
  mx_incomplete :: "(string \<times> leg_name \<times> string list) list"
  mx_capped :: "(string \<times> leg_name \<times> string list) list"
  mx_refused :: "(string \<times> string list) list"
  mx_localFaults :: "(string \<times> leg_name) list"
  mx_interrupted :: "string list"
  mx_held :: "(string \<times> hold_said) list"
  mx_heldFamilies :: "(string \<times> string list) list"
  mx_declined :: "string list"
  mx_peerAnswered :: bool
  mx_storeDown :: bool

definition empty_exchange :: member_exchange where
  "empty_exchange = \<lparr>mx_incomplete = [], mx_capped = [], mx_refused = [], mx_localFaults = [], mx_interrupted = [], mx_held = [],
     mx_heldFamilies = [], mx_declined = [], mx_peerAnswered = False, mx_storeDown = False\<rparr>"

definition add_turn :: "string \<Rightarrow> turn_out \<Rightarrow> member_exchange \<Rightarrow> member_exchange" where
  "add_turn sp t x =
     \<lparr>mx_incomplete = mx_incomplete x @ map (Pair sp) (to_incomplete t), mx_capped = mx_capped x @ map (Pair sp) (to_capped t),
      mx_refused = (if to_refused t \<noteq> [] then mx_refused x @ [(sp, to_refused t)] else mx_refused x),
      mx_localFaults = mx_localFaults x @ map (Pair sp) (to_localFaults t),
      mx_interrupted = (if to_interrupted t then mx_interrupted x @ [sp] else mx_interrupted x),
      mx_held = (case to_held t of Some why \<Rightarrow> mx_held x @ [(sp, why)] | None \<Rightarrow> mx_held x),
      mx_heldFamilies = (if to_heldFamilies t \<noteq> [] then mx_heldFamilies x @ [(sp, to_heldFamilies t)] else mx_heldFamilies x),
      mx_declined = (if to_declined t then mx_declined x @ [sp] else mx_declined x),
      mx_peerAnswered = (mx_peerAnswered x \<or> to_peerAnswered t), mx_storeDown = (mx_storeDown x \<or> to_storeDown t)\<rparr>"

record 'b member_env =
  me_leaving :: "act_kind option"
  me_broken :: "vote_round \<Rightarrow> bool"
  me_shutting_down :: "nat \<Rightarrow> bool"
  me_meanwhile :: "nat \<Rightarrow> space_config \<Rightarrow> space_config"
  me_turn :: "string \<Rightarrow> 'b space_turn"

definition network_space_id :: "network \<Rightarrow> string \<Rightarrow> string" where
  "network_space_id net sp = (case map_of (reverse_space_map (n_spaceMap net)) sp of Some i \<Rightarrow> i | None \<Rightarrow> sp)"

fun exchange_loop ::
  "(string \<Rightarrow> string) \<Rightarrow> network \<Rightarrow> network_member \<Rightarrow> 'b member_env \<Rightarrow> nat \<Rightarrow> string list
     \<Rightarrow> space_config \<times> bool \<Rightarrow> member_exchange \<Rightarrow> ((space_config \<times> bool) \<times> (turn_throw + member_exchange)) option" where
  "exchange_loop digest net m me k [] cs x = Some (cs, Inr x)"
| "exchange_loop digest net m me k (sp # sps) cs x =
     (let cfg = me_meanwhile me k (fst cs);
          ids = \<lparr>li_network = n_id net, li_member = m_instanceId m, li_space = sp\<rparr>
      in if me_shutting_down me k
         then exchange_loop digest net m me (Suc k) sps (cfg, snd cs) (x\<lparr>mx_interrupted := mx_interrupted x @ [sp]\<rparr>)
         else if mx_storeDown x then exchange_loop digest net m me (Suc k) sps (cfg, snd cs) x
         else if \<not> may_exchange_now (me_leaving me) (me_broken me) cfg (n_id net) (m_instanceId m) sp
         then exchange_loop digest net m me (Suc k) sps (cfg, snd cs)
                (case space_hold (me_leaving me) (me_broken me) cfg sp (m_instanceId m) (Some (n_id net)) of
                   None \<Rightarrow> x | Some why \<Rightarrow> x\<lparr>mx_held := mx_held x @ [(sp, Said why)]\<rparr>)
         else case exchange_space_with_member digest net m ids (me_turn me sp) (cfg, snd cs) of
             None \<Rightarrow> None
           | Some (cs1, Inl err) \<Rightarrow> Some (cs1, Inl err)
           | Some ((cfg1, is_open), Inr t) \<Rightarrow>
               exchange_loop digest net m me (Suc k) sps
                 (if to_declined t then record_decline cfg1 (n_id net) (m_instanceId m) (network_space_id net sp) else cfg1, is_open)
                 (add_turn sp t x))"

definition exchange_spaces_with_member ::
  "(string \<Rightarrow> string) \<Rightarrow> network \<Rightarrow> network_member \<Rightarrow> 'b member_env \<Rightarrow> space_config
     \<Rightarrow> ((space_config \<times> bool) \<times> (turn_throw + member_exchange)) option" where
  "exchange_spaces_with_member digest net m me cfg =
     (let live = (case List.find (\<lambda>n. n_id n = n_id net) (g_networks cfg) of Some n \<Rightarrow> n | None \<Rightarrow> net);
          v = exchange_verdicts (me_leaving me) (me_broken me) cfg live m;
          x = empty_exchange\<lparr>mx_held := map (\<lambda>h. (fst h, Said (snd h))) (vd_held v), mx_declined := vd_declined v\<rparr>
      in exchange_loop digest live m me 0 (vd_exchange v)
           (cfg, slot_opens (case member_of live (m_instanceId m) of Some m' \<Rightarrow> m' | None \<Rightarrow> m)) x)"

section \<open>What the turn comes to\<close>

datatype member_outcome = Success | Catching_up | Records_refused | Peer_too_old | Local_trouble | Interrupted | Failed

definition classify_member_turn :: "bool \<Rightarrow> turn_throw + member_exchange \<Rightarrow> member_outcome" where
  "classify_member_turn closing ended =
     (case ended of
        Inr x \<Rightarrow>
          if mx_interrupted x \<noteq> [] then Interrupted
          else if mx_incomplete x \<noteq> [] then Failed
          else if mx_localFaults x \<noteq> [] then Local_trouble
          else if mx_refused x \<noteq> [] then Records_refused
          else if mx_capped x \<noteq> [] then Catching_up
          else Success
      | Inl err \<Rightarrow>
          if err = Throws_too_old then Peer_too_old
          else if closing then Interrupted
          else (case err of Throws_store down \<Rightarrow> Local_trouble | _ \<Rightarrow> Failed))"

datatype verdict_outcome = V_success | V_partial | V_refused | V_failed | V_interrupted

datatype verdict_code = Shutting_down | Sync_store_failed | Sync_failed

record sync_verdict =
  sv_outcome :: verdict_outcome
  sv_ok :: bool
  sv_status :: nat
  sv_code :: "verdict_code option"

definition sync_verdict :: "member_outcome list \<Rightarrow> sync_verdict" where
  "sync_verdict ms =
     (if Interrupted \<in> set ms then \<lparr>sv_outcome = V_interrupted, sv_ok = False, sv_status = 503, sv_code = Some Shutting_down\<rparr>
      else if list_all (\<lambda>o1. o1 = Success) ms then \<lparr>sv_outcome = V_success, sv_ok = True, sv_status = 200, sv_code = None\<rparr>
      else if \<not> list_ex (\<lambda>o1. o1 \<in> {Success, Catching_up, Records_refused}) ms then
        (if list_all (\<lambda>o1. o1 = Peer_too_old) ms then \<lparr>sv_outcome = V_refused, sv_ok = False, sv_status = 200, sv_code = None\<rparr>
         else if list_all (\<lambda>o1. o1 = Local_trouble \<or> o1 = Peer_too_old) ms
         then \<lparr>sv_outcome = V_failed, sv_ok = False, sv_status = 503, sv_code = Some Sync_store_failed\<rparr>
         else \<lparr>sv_outcome = V_failed, sv_ok = False, sv_status = 502, sv_code = Some Sync_failed\<rparr>)
      else \<lparr>sv_outcome = V_partial, sv_ok = False, sv_status = 200, sv_code = None\<rparr>)"

definition cycle_status_of :: "sync_verdict \<Rightarrow> verdict_outcome" where
  "cycle_status_of v = (if sv_outcome v = V_interrupted then V_partial else sv_outcome v)"

definition refused_member_count :: "member_outcome list \<Rightarrow> nat" where
  "refused_member_count ms = length (filter (\<lambda>o1. o1 = Peer_too_old) ms)"

text \<open>A member's counters, absent as zero: how many turns in a row the member, or this instance, failed.\<close>

record member_counters =
  mc_failures :: nat
  mc_localFaults :: nat

definition move_counters :: "member_outcome \<Rightarrow> bool \<Rightarrow> member_counters \<Rightarrow> member_counters" where
  "move_counters oc peer_answered c =
     \<lparr>mc_failures = (if oc = Failed then Suc (mc_failures c)
        else if oc \<in> {Success, Catching_up, Records_refused} \<or> oc = Local_trouble \<and> peer_answered then 0 else mc_failures c),
      mc_localFaults = (if oc = Local_trouble then Suc (mc_localFaults c)
        else if oc \<noteq> Interrupted then 0 else mc_localFaults c)\<rparr>"

text \<open>The turns of a cycle: after a shutdown or a store that is down, the members left are not attempted.\<close>

record cycle_state =
  cy_members :: "(string \<times> member_outcome) list"
  cy_synced :: nat
  cy_errors :: nat
  cy_storeDown :: bool

definition note_member :: "bool \<Rightarrow> string \<Rightarrow> turn_throw + member_exchange \<Rightarrow> cycle_state \<Rightarrow> cycle_state" where
  "note_member closing i ended c =
     (let oc = classify_member_turn closing ended;
          down = (case ended of Inr x \<Rightarrow> mx_storeDown x
                  | Inl err \<Rightarrow> oc = Local_trouble \<and> err = Throws_store True)
      in \<lparr>cy_members = cy_members c @ [(i, oc)],
          cy_synced = (if oc \<in> {Success, Catching_up, Records_refused} then Suc (cy_synced c) else cy_synced c),
          cy_errors = (if oc \<in> {Local_trouble, Failed} then Suc (cy_errors c) else cy_errors c),
          cy_storeDown = (cy_storeDown c \<or> down)\<rparr>)"

definition cycle_stopped :: "bool \<Rightarrow> cycle_state \<Rightarrow> member_outcome option" where
  "cycle_stopped closing c = (if closing then Some Interrupted else if cy_storeDown c then Some Local_trouble else None)"

definition skip_member :: "string \<Rightarrow> member_outcome \<Rightarrow> cycle_state \<Rightarrow> cycle_state" where
  "skip_member i why c = c\<lparr>cy_members := cy_members c @ [(i, why)],
     cy_errors := (if why = Local_trouble then Suc (cy_errors c) else cy_errors c)\<rparr>"

text \<open>\<open>run_member\<close>: whether shutdown has begun is asked before the turn and again when it is judged.\<close>

definition run_member ::
  "bool \<Rightarrow> bool \<Rightarrow> string \<Rightarrow> turn_throw + member_exchange \<Rightarrow> cycle_state \<Rightarrow> cycle_state" where
  "run_member closing0 closing1 i ended c =
     (case cycle_stopped closing0 c of
        Some why \<Rightarrow> skip_member i why c
      | None \<Rightarrow> note_member closing1 i ended c)"

section \<open>Lemmas: marks read back\<close>

definition carried :: "space_config \<Rightarrow> leg_ids \<Rightarrow> bool" where
  "carried cfg ids \<longleftrightarrow> li_member ids \<noteq> [] \<and> (case List.find (\<lambda>n. n_id n = li_network ids) (g_networks cfg) of
      None \<Rightarrow> False | Some n \<Rightarrow> li_space ids \<in> set (n_spaces n) \<and> member_of n (li_member ids) \<noteq> None)"

lemma find_map_same: "(\<And>x. P (g x) = P x) \<Longrightarrow> List.find P (map g xs) = map_option g (List.find P xs)"
  by (induction xs) auto

lemma change_in_network_id: "n_id (fst (change_in_network p key sp scope f net)) = n_id net"
  by (simp add: change_in_network_def split_beta Let_def split: option.split)

lemma change_in_network_spaces: "n_spaces (fst (change_in_network p key sp scope f net)) = n_spaces net"
  by (simp add: change_in_network_def split_beta Let_def split: option.split)

lemma member_of_changed:
  "member_of (fst (change_in_network p key sp (One_network (n_id net)) f net)) q =
     (if q = p \<and> sp \<in> set (n_spaces net) then map_option (\<lambda>m. fst (change_mark key sp f m)) (member_of net q) else member_of net q)"
proof -
  have "member_of (update_member p (\<lambda>m. fst (change_mark key sp f m)) net) q =
      (if q = p then map_option (\<lambda>m. fst (change_mark key sp f m)) (member_of net q) else member_of net q)"
    by (simp add: member_of_update_member change_mark_id)
  moreover have "fst (change_in_network p key sp (One_network (n_id net)) f net) =
      (if sp \<in> set (n_spaces net) then update_member p (\<lambda>m. fst (change_mark key sp f m)) net else net)"
    by (simp add: change_in_network_def update_member_def update_at_def split_beta Let_def list_update_beyond not_less split: option.split)
  ultimately show ?thesis by (cases "q = p") auto
qed

lemma write_mark_networks:
  "g_networks (write_mark ids key f cfg) =
     (if li_member ids = [] then g_networks cfg
      else map (\<lambda>n. fst (change_in_network (li_member ids) key (li_space ids) (One_network (li_network ids)) f n)) (g_networks cfg))"
  by (simp add: write_mark_def set_member_space_mark_def given_str_def truthy_str_def Let_def)

lemma leg_ids_eq: "(a :: leg_ids) = b \<longleftrightarrow> li_network a = li_network b \<and> li_member a = li_member b \<and> li_space a = li_space b"
  by (cases a; cases b) simp

lemma read_write_mark:
  "read_mark (write_mark ids key f cfg) jds k =
     (if jds = ids \<and> k = key \<and> carried cfg ids
      then (case f (read_mark cfg ids key) of Leave \<Rightarrow> read_mark cfg ids key | Clear \<Rightarrow> None | Write_mark v \<Rightarrow> Some v)
      else read_mark cfg jds k)"
proof (cases "li_member ids = []")
  case True
  then show ?thesis by (simp add: read_mark_def read_member_space_mark_def write_mark_networks carried_def)
next
  case False
  let ?g = "\<lambda>n. fst (change_in_network (li_member ids) key (li_space ids) (One_network (li_network ids)) f n)"
  have find: "List.find (\<lambda>n. n_id n = i) (g_networks (write_mark ids key f cfg)) = map_option ?g (List.find (\<lambda>n. n_id n = i) (g_networks cfg))" for i
    using False by (simp add: write_mark_networks find_map_same change_in_network_id)
  show ?thesis
  proof (cases "List.find (\<lambda>n. n_id n = li_network jds) (g_networks cfg)")
    case None
    then show ?thesis by (auto simp: read_mark_def read_member_space_mark_def find carried_def)
  next
    case (Some n)
    then have id: "n_id n = li_network jds" using find_Some_in by fastforce
    show ?thesis
    proof (cases "li_network jds = li_network ids")
      case True
      with id have "?g n = fst (change_in_network (li_member ids) key (li_space ids) (One_network (n_id n)) f n)" by simp
      with Some True False show ?thesis
        by (cases "member_of n (li_member jds)")
          (auto simp: read_mark_def read_member_space_mark_def find carried_def member_of_changed mark_of_change leg_ids_eq split: mark_change.split)
    next
      case other: False
      then have "?g n = n" using id by (simp add: change_in_network_def)
      with Some other show ?thesis by (auto simp: read_mark_def read_member_space_mark_def find)
    qed
  qed
qed

lemma carried_write_mark [simp]: "carried (write_mark ids key f cfg) jds = carried cfg jds"
proof (cases "li_member ids = []")
  case True
  then show ?thesis by (simp add: carried_def write_mark_networks)
next
  case False
  let ?g = "\<lambda>n. fst (change_in_network (li_member ids) key (li_space ids) (One_network (li_network ids)) f n)"
  have find: "List.find (\<lambda>n. n_id n = i) (g_networks (write_mark ids key f cfg)) = map_option ?g (List.find (\<lambda>n. n_id n = i) (g_networks cfg))" for i
    using False by (simp add: write_mark_networks find_map_same change_in_network_id)
  have "member_of (?g n) q = None \<longleftrightarrow> member_of n q = None" for n q
  proof (cases "n_id n = li_network ids")
    case True
    then show ?thesis using member_of_changed [of "li_member ids" key "li_space ids" n f q] by simp
  next
    case False
    then show ?thesis by (simp add: change_in_network_def)
  qed
  then show ?thesis
    by (cases "List.find (\<lambda>n. n_id n = li_network jds) (g_networks cfg)") (simp_all add: carried_def find change_in_network_spaces)
qed

section \<open>Lemmas: one space is read again at a time\<close>

definition catching :: "string \<Rightarrow> string \<Rightarrow> space_config \<Rightarrow> string set" where
  "catching i p cfg = {sp. full_reread_state_of cfg \<lparr>li_network = i, li_member = p, li_space = sp\<rparr> = Some Reread_catching}"

text \<open>What others write meanwhile may ask for a re-read or forget one, but never begins one.\<close>

definition quiet :: "string \<Rightarrow> string \<Rightarrow> (space_config \<Rightarrow> space_config) \<Rightarrow> bool" where
  "quiet i p g \<longleftrightarrow> (\<forall>c. catching i p (g c) \<subseteq> catching i p c)"

definition slot_ok :: "string \<Rightarrow> string \<Rightarrow> space_config \<times> bool \<Rightarrow> bool" where
  "slot_ok i p cs \<longleftrightarrow> (if snd cs then catching i p (fst cs) = {} else \<exists>sp. catching i p (fst cs) \<subseteq> {sp})"

lemma slot_ok_less: "slot_ok i p cs \<Longrightarrow> catching i p c \<subseteq> catching i p (fst cs) \<Longrightarrow> slot_ok i p (c, snd cs)"
  unfolding slot_ok_def by (auto split: if_splits)

lemma quietD: "quiet i p g \<Longrightarrow> catching i p (g c) \<subseteq> catching i p c"
  by (simp add: quiet_def)

lemma catching_write_other: "key \<noteq> FullRereadState \<Longrightarrow> catching i p (write_mark ids key f cfg) = catching i p cfg"
  by (simp add: catching_def full_reread_state_of_def read_write_mark)

text \<open>What holds of the configuration through a turn: others keep it, and so does a write of any mark but the re-read's.\<close>

definition kept_by :: "turn_env \<Rightarrow> leg_ids \<Rightarrow> (space_config \<Rightarrow> bool) \<Rightarrow> bool" where
  "kept_by te ids Q \<longleftrightarrow> (\<forall>k c. Q c \<longrightarrow> Q (te_meanwhile te k c))
     \<and> (\<forall>key f c. key \<noteq> FullRereadState \<longrightarrow> Q c \<longrightarrow> Q (write_mark ids key f c))"

lemma kept_meanwhile: "kept_by te ids Q \<Longrightarrow> Q c \<Longrightarrow> Q (te_meanwhile te k c)"
  by (simp add: kept_by_def)

lemma kept_write: "kept_by te ids Q \<Longrightarrow> key \<noteq> FullRereadState \<Longrightarrow> Q c \<Longrightarrow> Q (write_mark ids key f c)"
  by (simp add: kept_by_def)

lemma forget_if_behind_kept:
  assumes "kept_by te ids Q" "Q (lg_config lg)"
  shows "Q (lg_config (forget_if_behind te ids k ps lg))"
  using assms by (simp add: forget_if_behind_def Let_def kept_meanwhile kept_write)

lemma pull_families_kept:
  assumes "kept_by te ids Q"
  shows "pull_families digest te ids leg k fs lg = (lg', e) \<Longrightarrow> Q (lg_config lg) \<Longrightarrow> Q (lg_config lg')"
proof (induction fs arbitrary: k lg)
  case (Cons f fs)
  obtain ps e1 where ps: "pull_family digest (pl_family leg (rf_payloadKey f)) (lg_from lg) = (ps, e1)" by force
  show ?case
  proof (cases "may_continue te k \<and> e1 = Returned")
    case True
    with ps Cons.prems Cons.IH [of "Suc k" "forget_if_behind te ids k ps (took (rf_payloadKey f) ps lg)"]
      forget_if_behind_kept [OF assms, of "took (rf_payloadKey f) ps lg"]
    show ?thesis by (simp add: took_def)
  next
    case False
    with ps Cons.prems show ?thesis by (cases e1) (auto split: if_splits)
  qed
qed simp

lemma pull_from_peer_kept:
  fixes leg :: "'b pull_leg"
  assumes "kept_by te ids Q" "pull_from_peer digest te ids leg cfg = (lg, e)" "Q cfg"
  shows "Q (lg_config lg)"
proof -
  define lg0 :: "'b leg_state" where "lg0 = \<lparr>lg_config = cfg, lg_from = mark_or_zero (read_mark cfg ids LastPosReceived), lg_transfers = []\<rparr>"
  obtain ts e0 where ts: "pull_tombstones digest (pl_tombstones leg) (pl_closing leg) (lg_from lg0) = (ts, e0)" by force
  let ?lg1 = "forget_if_behind te ids 0 ts (took ''tombstones'' ts lg0)"
  obtain lg2 e2 where fs: "pull_families digest te ids leg 1 REPLICATED_FAMILIES ?lg1 = (lg2, e2)" by force
  have 0: "Q (lg_config lg0)" using assms(3) by (simp add: lg0_def)
  then have "Q (lg_config (took ''tombstones'' ts lg0))" by (simp add: took_def)
  then have 2: "Q (lg_config lg2)"
    by (rule pull_families_kept [OF assms(1) fs forget_if_behind_kept [OF assms(1)]])
  have 3: "Q (write_mark ids LastPosReceived f (te_meanwhile te k (lg_config lg2)))" for f k
    using 2 assms(1) by (simp add: kept_meanwhile kept_write)
  show ?thesis
    using assms(2) ts fs 0 2 3 unfolding pull_from_peer_def Let_def lg0_def [symmetric]
    by (cases e0; cases e2) (auto split: if_splits)
qed

lemma push_to_peer_kept:
  assumes "kept_by te ids Q" "push_to_peer digest te ids leg fuel cfg = Some (cfg', r)" "Q cfg"
  shows "Q cfg'"
proof -
  have 3: "Q (write_mark ids LastPosPushed f (te_meanwhile te k cfg))" for f k
    using assms(1,3) by (simp add: kept_meanwhile kept_write)
  show ?thesis
    using assms(2,3) 3 unfolding push_to_peer_def Let_def
    by (auto split: option.splits transfer_end.splits if_splits)
qed

lemma kept_from_point: "kept_by te ids Q \<Longrightarrow> kept_by (from_point n te) ids Q"
  by (simp add: kept_by_def from_point_def)

lemma receive_part_kept:
  assumes "kept_by (st_env st) ids Q" "Q (ts_config ts)"
  shows "Q (ts_config (receive_part digest ids st b ts))"
proof -
  obtain lg e where r: "pull_from_peer digest (st_env st) ids (st_pull st) (ts_config ts) = (lg, e)" by force
  with pull_from_peer_kept [OF assms(1) r assms(2)] assms(2) show ?thesis
    by (cases e) (auto simp: receive_part_def split: prod.split)
qed

lemma push_part_kept:
  assumes "kept_by (st_env st) ids Q" "push_part digest ids st b ts = Some ts'" "Q (ts_config ts)"
  shows "Q (ts_config ts')"
proof (cases "ts_throw ts \<noteq> None \<or> \<not> b \<or> \<not> may_continue (st_env st) PUSH_POINT")
  case True
  with assms(2,3) show ?thesis by (auto simp: push_part_def Let_def split: if_splits)
next
  case False
  then obtain cfg ps e where r: "push_to_peer digest (from_point PUSH_POINT (st_env st)) ids (st_push st) (st_fuel st) (ts_config ts) = Some (cfg, ps, e)"
    using assms(2) by (auto simp: push_part_def Let_def split: option.splits)
  from push_to_peer_kept [OF kept_from_point [OF assms(1)] r assms(3)] False r assms(2) show ?thesis
    by (cases e) (auto simp: push_part_def Let_def split: prod.splits)
qed

lemma space_body_kept:
  assumes "kept_by (st_env st) ids Q" "space_body digest ids st dirs ts = Some ts'" "Q (ts_config ts)"
  shows "Q (ts_config ts')"
proof -
  obtain ts1 where ts1: "push_part digest ids st (snd dirs) (receive_part digest ids st (fst dirs) ts) = Some ts1" "ts' = files_part st ts1"
    using assms(2) by (auto simp: space_body_def)
  from push_part_kept [OF assms(1) ts1(1) receive_part_kept [OF assms(1,3)]] ts1(2)
  show ?thesis by (simp add: files_part_def)
qed

lemma catching_kept: "\<forall>k. quiet i p (te_meanwhile te k) \<Longrightarrow> kept_by te ids (\<lambda>c. catching i p c \<subseteq> X)"
  unfolding kept_by_def quiet_def by (simp add: catching_write_other) blast

lemma set_member_write: "fst (set_member_space_mark (Some (li_member ids)) (li_space ids) key (One_network (li_network ids)) f cfg) = write_mark ids key f cfg"
  by (simp add: write_mark_def)

lemma end_full_reread_read:
  "read_mark (fst (end_full_reread ids cfg)) jds k =
     (if jds = ids \<and> k = FullRereadState \<and> carried cfg ids then None else read_mark cfg jds k)"
  by (simp add: end_full_reread_def fold_repair_mark_def Let_def set_member_write read_write_mark)

lemma end_full_reread_catching: "catching i p (fst (end_full_reread ids cfg)) \<subseteq> catching i p cfg"
  by (auto simp: catching_def full_reread_state_of_def end_full_reread_read reread_state_of_def split: if_splits)

lemma finish_turn_catching: "catching i p (fst (finish_turn ids st phase ts)) \<subseteq> catching i p (ts_config ts)"
  using end_full_reread_catching [of i p ids "ts_config ts"]
  by (auto simp: finish_turn_def Let_def split: option.split)

lemma begin_full_reread_catching:
  "catching i p (fst (begin_full_reread te \<lparr>li_network = i, li_member = p, li_space = sp\<rparr> cfg)) \<subseteq> insert sp (catching i p cfg)"
  by (auto simp: begin_full_reread_def catching_def full_reread_state_of_def read_write_mark split: if_splits)

lemma exchange_space_slot:
  assumes q: "\<forall>k. quiet i p (te_meanwhile (st_env st) k)" and ok: "slot_ok i p cs"
    and run: "exchange_space_with_member digest net m \<lparr>li_network = i, li_member = p, li_space = sp\<rparr> st cs = Some (cs', r)"
  shows "slot_ok i p cs'"
proof -
  let ?ids = "\<lparr>li_network = i, li_member = p, li_space = sp\<rparr>"
  obtain cfg is_open where cs: "cs = (cfg, is_open)" by force
  let ?hold = "space_hold (te_leaving (st_env st)) (te_broken (st_env st)) cfg sp p (Some i)"
  consider (unknown) "\<not> st_configured st" | (held) why where "st_configured st" "?hold = Some why" | (building) "st_configured st" "?hold = None" "\<not> st_ready st"
    | (run) "st_configured st" "?hold = None" "st_ready st" by (cases ?hold) auto
  then show ?thesis
  proof cases
    case unknown
    then have "cs' = cs" using run cs by (simp add: exchange_space_with_member_def Let_def)
    with ok show ?thesis by simp
  next
    case held
    then have "cs' = cs" using run cs by (simp add: exchange_space_with_member_def Let_def)
    with ok show ?thesis by simp
  next
    case building
    then obtain ts where "cs' = (fst (finish_turn ?ids st None ts), is_open)" "ts_config ts = cfg"
      using run cs by (auto simp: exchange_space_with_member_def Let_def turn_start_def)
    with slot_ok_less [OF ok, of "fst (finish_turn ?ids st None ts)"] finish_turn_catching [of i p ?ids st None ts] cs show ?thesis by simp
  next
    case run': run
    define begun where "begun = (if phase_of cfg ?ids is_open = Some Begin then begin_full_reread (st_env st) ?ids cfg else (cfg, False))"
    define phase where "phase = (if phase_of cfg ?ids is_open = Some Begin \<and> \<not> snd begun then None else phase_of cfg ?ids is_open)"
    let ?dirs = "exchange_directions net m"
    have "\<exists>ts. space_body digest ?ids st ?dirs (turn_start (fst begun) ?dirs) = Some ts
        \<and> cs' = (fst (finish_turn ?ids st phase ts), is_open \<and> \<not> snd begun)"
      using run cs run' by (simp add: exchange_space_with_member_def Let_def begun_def [symmetric] phase_def [symmetric]) blast
    then obtain ts where ts: "space_body digest ?ids st ?dirs (turn_start (fst begun) ?dirs) = Some ts"
      "cs' = (fst (finish_turn ?ids st phase ts), is_open \<and> \<not> snd begun)" by blast
    have sub: "catching i p (fst cs') \<subseteq> catching i p (fst begun)"
      using finish_turn_catching [of i p ?ids st phase ts] space_body_kept [OF catching_kept [OF q] ts(1), of "catching i p (fst begun)"] ts(2) by (simp add: turn_start_def)
    show ?thesis
    proof (cases "snd begun")
      case True
      then have "is_open" by (auto simp: begun_def phase_of_def split: if_splits option.splits reread_state.splits)
      with ok cs have "catching i p cfg = {}" by (simp add: slot_ok_def)
      moreover have "catching i p (fst begun) \<subseteq> insert sp (catching i p cfg)"
        using True begin_full_reread_catching by (auto simp: begun_def split: if_splits)
      ultimately have "catching i p (fst cs') \<subseteq> {sp}" using sub by blast
      with ts(2) True show ?thesis by (auto simp: slot_ok_def)
    next
      case False
      then have "fst begun = cfg" by (auto simp: begun_def begin_full_reread_def split: if_splits)
      with sub slot_ok_less [OF ok, of "fst cs'"] cs ts(2) False show ?thesis by simp
    qed
  qed
qed

lemma read_mark_decline: "read_mark (record_decline cfg i p r) jds k = read_mark cfg jds k"
proof (cases "find_index (\<lambda>n. n_id n = i) (g_networks cfg)")
  case None
  then show ?thesis by (simp add: record_decline_def)
next
  case (Some j)
  let ?g = "\<lambda>m :: network_member. let ds = or_empty (m_declinedSpaces m) in if r \<in> set ds then m else m\<lparr>m_declinedSpaces := Some (ds @ [r])\<rparr>"
  have j: "j < length (g_networks cfg)" using Some by (auto dest: find_index_SomeD)
  have ids: "m_instanceId (?g m) = m_instanceId m" "mark_of (?g m) k s = mark_of m k s" for m s
    by (simp_all add: Let_def mark_of_def)
  have "List.find (\<lambda>n. n_id n = a) (g_networks (record_decline cfg i p r)) =
      (if a = i then map_option (update_member p ?g) (List.find (\<lambda>n. n_id n = i) (g_networks cfg))
       else List.find (\<lambda>n. n_id n = a) (g_networks cfg))" for a
    using find_update_at [where key = n_id and f = "update_member p ?g" and i = i and j = a and xs = "g_networks cfg", OF update_member_frame(1)] Some j
    by (simp add: record_decline_def update_at_def)
  moreover have "Option.bind (member_of (update_member p ?g n) q) (\<lambda>m. mark_of m k s) = Option.bind (member_of n q) (\<lambda>m. mark_of m k s)" for n q s
    using member_of_update_member [where f = ?g and i = p and net = n and j = q, OF ids(1)] ids(2)
    by (cases "q = p"; cases "member_of n q") simp_all
  ultimately show ?thesis
    by (cases "List.find (\<lambda>n. n_id n = li_network jds) (g_networks cfg)") (auto simp: read_mark_def read_member_space_mark_def)
qed

lemma catching_decline: "catching i p (record_decline cfg j q r) = catching i p cfg"
  by (simp add: catching_def full_reread_state_of_def read_mark_decline)

lemma exchange_loop_slot:
  assumes "\<forall>k. quiet (n_id net) (m_instanceId m) (me_meanwhile me k)"
    and "\<forall>sp k. quiet (n_id net) (m_instanceId m) (te_meanwhile (st_env (me_turn me sp)) k)"
  shows "slot_ok (n_id net) (m_instanceId m) cs \<Longrightarrow> exchange_loop digest net m me k sps cs x = Some (cs', r)
    \<Longrightarrow> slot_ok (n_id net) (m_instanceId m) cs'"
proof (induction sps arbitrary: k cs x)
  case (Cons sp sps)
  let ?i = "n_id net" and ?p = "m_instanceId m"
  define cfg where "cfg = me_meanwhile me k (fst cs)"
  have ok: "slot_ok ?i ?p (cfg, snd cs)"
    using slot_ok_less [OF Cons.prems(1)] assms(1) by (auto simp: cfg_def dest: spec [of _ k] quietD)
  let ?ids = "\<lparr>li_network = ?i, li_member = ?p, li_space = sp\<rparr>"
  show ?case
  proof (cases "me_shutting_down me k \<or> mx_storeDown x \<or> \<not> may_exchange_now (me_leaving me) (me_broken me) cfg ?i ?p sp")
    case True
    with Cons.prems(2) Cons.IH [OF ok] show ?thesis by (auto simp: Let_def cfg_def [symmetric] split: if_splits)
  next
    case False
    then obtain cs1 e where s: "exchange_space_with_member digest net m ?ids (me_turn me sp) (cfg, snd cs) = Some (cs1, e)"
      using Cons.prems(2) by (auto simp: Let_def cfg_def [symmetric] split: option.splits)
    have ok1: "slot_ok ?i ?p cs1" using exchange_space_slot [OF _ ok s] assms(2) by blast
    show ?thesis
    proof (cases e)
      case (Inl err)
      with False s Cons.prems(2) ok1 show ?thesis by (auto simp: Let_def cfg_def [symmetric])
    next
      case (Inr t)
      obtain cfg1 is_open where c1: "cs1 = (cfg1, is_open)" by force
      let ?c = "if to_declined t then record_decline cfg1 ?i ?p (network_space_id net sp) else cfg1"
      have "slot_ok ?i ?p (?c, is_open)" using slot_ok_less [OF ok1, of ?c] c1 by (simp add: catching_decline)
      from Cons.IH [OF this] False s Inr c1 Cons.prems(2) show ?thesis by (auto simp: Let_def cfg_def [symmetric])
    qed
  qed
qed simp

text \<open>The operator's request, one of the others, only asks.\<close>

lemma ask_reread_catching: "catching i p (fst (ask_reread j ms cn)) \<subseteq> catching i p (fst cn)"
proof -
  have "fst (ask_reread j ms cn) = write_mark \<lparr>li_network = j, li_member = fst ms, li_space = snd ms\<rparr> FullRereadState
      (\<lambda>current. if current \<noteq> None then Leave else Write_mark (Mark_text ''owed'')) (fst cn)"
    by (simp add: ask_reread_def write_mark_def split_beta Let_def)
  then show ?thesis
    by (auto simp: catching_def full_reread_state_of_def read_write_mark reread_state_of_def split: if_splits)
qed

lemma request_full_reread_quiet: "quiet i p (\<lambda>c. fst (request_full_reread c j sps))"
proof -
  have "catching i p (fst (fold (ask_reread j) xs cn)) \<subseteq> catching i p (fst cn)" for xs cn
  proof (induction xs arbitrary: cn)
    case (Cons a xs)
    from Cons [of "ask_reread j a cn"] ask_reread_catching [of i p j a cn] show ?case by auto
  qed simp
  from this [where cn = "(c, 0)" for c] show ?thesis
    by (simp add: quiet_def request_full_reread_def split: option.split)
qed

lemma slot_opens_catching:
  assumes "slot_opens (case member_of live p of Some m' \<Rightarrow> m' | None \<Rightarrow> m)"
    and "live = (case List.find (\<lambda>n. n_id n = i) (g_networks cfg) of Some n \<Rightarrow> n | None \<Rightarrow> net)"
  shows "catching i p cfg = {}"
proof -
  have "full_reread_state_of cfg \<lparr>li_network = i, li_member = p, li_space = sp\<rparr> \<noteq> Some Reread_catching" for sp
  proof (cases "List.find (\<lambda>n. n_id n = i) (g_networks cfg)")
    case None
    then show ?thesis by (simp add: full_reread_state_of_def read_mark_def read_member_space_mark_def reread_state_of_def)
  next
    case (Some n)
    show ?thesis
    proof (cases "member_of n p")
      case None
      with Some show ?thesis by (simp add: full_reread_state_of_def read_mark_def read_member_space_mark_def reread_state_of_def)
    next
      case (Some m')
      with assms \<open>List.find _ _ = Some n\<close> have "slot_opens m'" by simp
      then have "mark_of m' FullRereadState sp \<noteq> Some (Mark_text ''catching'')"
        by (auto simp: slot_opens_def mark_of_def split: option.splits dest!: map_of_SomeD intro: image_eqI [where x = "(sp, Mark_text ''catching'')"])
      with Some \<open>List.find _ _ = Some n\<close> show ?thesis
        by (simp add: full_reread_state_of_def read_mark_def read_member_space_mark_def reread_state_of_def)
    qed
  qed
  then show ?thesis by (simp add: catching_def)
qed

section \<open>What the re-read promises\<close>

text \<open>
  Property C24: at most one space of a member is being read again at any time.  A cycle over all the
  spaces of a network leaves at most one \<open>catching\<close> when it found at most one, in whatever way each
  space's turn ends, a throw included, and whatever others write meanwhile, who may ask for re-reads or
  forget them.
\<close>

theorem reread_one_at_a_time:
  assumes "exchange_spaces_with_member digest net m me cfg = Some ((cfg', is_open), r)"
    and "card (catching (n_id net) (m_instanceId m) cfg) \<le> 1" "finite (catching (n_id net) (m_instanceId m) cfg)"
    and "\<forall>k. quiet (n_id net) (m_instanceId m) (me_meanwhile me k)"
    and "\<forall>sp k. quiet (n_id net) (m_instanceId m) (te_meanwhile (st_env (me_turn me sp)) k)"
  shows "card (catching (n_id net) (m_instanceId m) cfg') \<le> 1"
proof -
  let ?i = "n_id net" and ?p = "m_instanceId m"
  define live where "live = (case List.find (\<lambda>n. n_id n = ?i) (g_networks cfg) of Some n \<Rightarrow> n | None \<Rightarrow> net)"
  have id: "n_id live = ?i" by (auto simp: live_def dest: find_Some_in split: option.split)
  let ?cs = "(cfg, slot_opens (case member_of live ?p of Some m' \<Rightarrow> m' | None \<Rightarrow> m))"
  obtain x sps where run: "exchange_loop digest live m me 0 sps ?cs x = Some ((cfg', is_open), r)"
    using assms(1) by (simp add: exchange_spaces_with_member_def Let_def live_def)
  have "\<exists>sp. catching ?i ?p cfg \<subseteq> {sp}"
    using assms(2,3) by (metis card_le_Suc0_iff_eq One_nat_def empty_subsetI insertI1 singletonD subsetI)
  moreover have "catching ?i ?p cfg = {}" if "slot_opens (case member_of live ?p of Some m' \<Rightarrow> m' | None \<Rightarrow> m)"
    using that live_def by (rule slot_opens_catching)
  ultimately have "slot_ok (n_id live) ?p ?cs" by (simp add: slot_ok_def id)
  then have "slot_ok (n_id live) ?p (cfg', is_open)"
    using exchange_loop_slot [of live m me] assms(4,5) run id by metis
  then obtain sp where "catching ?i ?p cfg' \<subseteq> {sp}" by (auto simp: slot_ok_def id split: if_splits)
  then show ?thesis using card_mono [of "{sp}"] by fastforce
qed

lemma exchange_space_pull_only:
  assumes "\<not> snd (exchange_directions net m)"
  shows "exchange_space_with_member digest net m ids st cs \<noteq> None"
proof -
  have "space_body digest ids st (exchange_directions net m) ts \<noteq> None" for ts
    using assms by (simp add: space_body_def push_part_def Let_def)
  then show ?thesis
    by (simp add: exchange_space_with_member_def Let_def split_beta split: option.split)
qed

lemma exchange_loop_pull_only:
  assumes "\<not> snd (exchange_directions net m)"
  shows "exchange_loop digest net m me k sps cs x \<noteq> None"
proof (induction sps arbitrary: k cs x)
  case (Cons sp sps)
  obtain cs1 e where "exchange_space_with_member digest net m \<lparr>li_network = n_id net, li_member = m_instanceId m, li_space = sp\<rparr>
      (me_turn me sp) (me_meanwhile me k (fst cs), snd cs) = Some (cs1, e)"
    using exchange_space_pull_only [OF assms] by (metis option.exhaust surj_pair)
  with Cons show ?case by (cases e; cases cs1) (auto simp: Let_def)
qed simp

definition demo_hub :: space_config where
  "demo_hub = demo_exchange\<lparr>g_networks := [(demo_network Pubsub [(demo_member ''b'' None None None)\<lparr>m_direction := Pull\<rparr>])\<lparr>n_spaces := [''s'', ''t'']\<rparr>]\<rparr>"

definition demo_space_turn :: "nat space_turn" where
  "demo_space_turn = \<lparr>st_configured = True, st_ready = True, st_env = demo_turn, st_pull = demo_pull_leg, st_push = demo_push_leg, st_fuel = 3,
     st_reread_throws = None, st_files_throw = None, st_leg_threw = Throws_peer, st_refusal = None, st_cut = False, st_closing = False,
     st_moved = True, st_pushRefused = []\<rparr>"

definition demo_member_env :: "nat member_env" where
  "demo_member_env = \<lparr>me_leaving = None, me_broken = (\<lambda>_. False), me_shutting_down = (\<lambda>_. False),
     me_meanwhile = (\<lambda>_ c. fst (request_full_reread c ''net'' [''s'', ''t''])), me_turn = (\<lambda>_. demo_space_turn)\<rparr>"

definition demo_cycle :: "((space_config \<times> bool) \<times> (turn_throw + member_exchange)) option" where
  "demo_cycle = exchange_spaces_with_member demo_hash (hd (g_networks demo_hub)) (hd (n_members (hd (g_networks demo_hub)))) demo_member_env demo_hub"

lemma reread_one_at_a_time_witness:
  "card (catching ''net'' ''b'' (fst (fst (the demo_cycle)))) \<le> 1"
proof -
  let ?net = "hd (g_networks demo_hub)"
  let ?m = "hd (n_members ?net)"
  have ids: "n_id ?net = ''net''" "m_instanceId ?m = ''b''" by (simp_all add: demo_hub_def demo_network_def demo_member_def)
  have none: "read_mark demo_hub jds k = None" for jds k
    by (simp add: read_mark_def read_member_space_mark_def demo_hub_def demo_network_def demo_member_def member_of_def mark_of_def)
  have empty: "catching ''net'' ''b'' demo_hub = {}"
    by (simp add: catching_def full_reread_state_of_def none reread_state_of_def)
  have "\<not> snd (exchange_directions ?net ?m)"
    by (simp add: exchange_directions_def is_directional_network_def demo_hub_def demo_network_def demo_member_def Let_def)
  then have "demo_cycle \<noteq> None"
    using exchange_loop_pull_only by (simp add: demo_cycle_def exchange_spaces_with_member_def Let_def demo_hub_def demo_network_def)
  then obtain cfg' is_open r where run: "demo_cycle = Some ((cfg', is_open), r)" by (metis option.exhaust surj_pair)
  have quiet: "\<forall>k. quiet ''net'' ''b'' (me_meanwhile demo_member_env k)"
    "\<forall>sp k. quiet ''net'' ''b'' (te_meanwhile (st_env (me_turn demo_member_env sp)) k)"
    using request_full_reread_quiet [of "''net''" "''b''" "''net''" "[''s'', ''t'']"]
    by (simp_all add: demo_member_env_def demo_space_turn_def demo_turn_def quiet_def)
  from reread_one_at_a_time [OF run [unfolded demo_cycle_def], unfolded ids, OF _ _ quiet] empty show ?thesis by (simp add: run)
qed

lemma leg_ended_outcome:
  "leg_ended pc \<Longrightarrow> leg_outcome leg pc out1 = out1"
  by (simp add: leg_ended_def leg_outcome_def)

definition said_nothing :: "turn_out \<Rightarrow> bool" where
  "said_nothing t \<longleftrightarrow> to_incomplete t = [] \<and> to_capped t = [] \<and> to_heldFamilies t = [] \<and> to_held t = None \<and> \<not> to_declined t"

lemma receive_part_ended:
  assumes "ts_pullEnded (receive_part digest ids st b ts)" "ts_pullEnded ts \<longleftrightarrow> \<not> b"
  shows "ts_out (receive_part digest ids st b ts) = ts_out ts"
proof -
  obtain lg e where "pull_from_peer digest (st_env st) ids (st_pull st) (ts_config ts) = (lg, e)" by force
  with assms show ?thesis
    by (cases e) (auto simp: receive_part_def leg_ended_outcome split: if_splits)
qed

lemma push_part_ended:
  assumes "push_part digest ids st b ts = Some ts'" "ts_pushEnded ts'" "ts_pushEnded ts \<longleftrightarrow> \<not> b"
  shows "ts_pullEnded ts' = ts_pullEnded ts \<and> (\<exists>rf. ts_out ts' = ts_out ts \<or> ts_out ts' = (ts_out ts)\<lparr>to_refused := rf\<rparr>)"
proof (cases "ts_throw ts \<noteq> None \<or> \<not> b \<or> \<not> may_continue (st_env st) PUSH_POINT")
  case True
  with assms(1) show ?thesis by (auto simp: push_part_def Let_def split: if_splits)
next
  case False
  then obtain cfg ps e where r: "push_to_peer digest (from_point PUSH_POINT (st_env st)) ids (st_push st) (st_fuel st) (ts_config ts) = Some (cfg, ps, e)"
    using assms(1) by (auto simp: push_part_def Let_def split: option.splits)
  with False assms show ?thesis
    by (cases e) (auto simp: push_part_def Let_def leg_ended_outcome split: prod.splits)
qed

lemma space_body_ended:
  assumes "space_body digest ids st dirs (turn_start cfg dirs) = Some ts" "ts_pullEnded ts" "ts_pushEnded ts"
  shows "said_nothing (ts_out ts)"
proof -
  let ?r = "receive_part digest ids st (fst dirs) (turn_start cfg dirs)"
  obtain ts1 where ts1: "push_part digest ids st (snd dirs) ?r = Some ts1" "ts = files_part st ts1"
    using assms(1) by (auto simp: space_body_def)
  then have ended: "ts_pullEnded ts1" "ts_pushEnded ts1" "ts_out ts = ts_out ts1"
    using assms(2,3) by (auto simp: files_part_def split: if_splits)
  have "ts_pushEnded ?r \<longleftrightarrow> \<not> snd dirs"
  proof -
    obtain lg e where "pull_from_peer digest (st_env st) ids (st_pull st) cfg = (lg, e)" by force
    then show ?thesis by (cases e) (auto simp: receive_part_def turn_start_def)
  qed
  from push_part_ended [OF ts1(1) ended(2) this] ended(1) have "ts_pullEnded ?r"
    and out: "\<exists>rf. ts_out ts1 = ts_out ?r \<or> ts_out ts1 = (ts_out ?r)\<lparr>to_refused := rf\<rparr>" by auto
  from receive_part_ended [OF this(1)] have "ts_out ?r = empty_turn" by (simp add: turn_start_def)
  with out ended(3) show ?thesis by (auto simp: said_nothing_def empty_turn_def)
qed

lemma finish_turn_ended:
  assumes "finish_turn ids st phase ts = (cfg', Inr t)" "cfg' \<noteq> ts_config ts"
    and "ts_pullEnded ts \<Longrightarrow> ts_pushEnded ts \<Longrightarrow> said_nothing (ts_out ts)"
  shows "said_nothing t \<and> to_localFaults t = [] \<and> st_refusal st = None \<and> \<not> st_cut st"
proof -
  define building where "building = (ts_throw ts = Some Throws_building)"
  define caught where "caught = (case ts_throw ts of
      None \<Rightarrow> Some (ts_out ts)
    | Some err \<Rightarrow> if building \<or> st_refusal st \<noteq> None \<or> st_cut st then Some (ts_out ts)
        else turn_throw_is_ours (st_closing st) (ts_leg ts) err (ts_out ts))"
  obtain out0 where out0: "caught = Some out0"
    using assms(1) by (cases caught) (simp_all add: finish_turn_def Let_def building_def [symmetric] caught_def [symmetric])
  define out1 where "out1 = (if st_moved st then out0\<lparr>to_peerAnswered := True\<rparr> else out0)"
  have fin: "cfg' = (if reread_ends st phase building (ts\<lparr>ts_out := out1\<rparr>) then fst (end_full_reread ids (ts_config ts)) else ts_config ts)"
    "t = end_of_turn st building out1"
    using assms(1) out0
    by (simp_all add: finish_turn_def Let_def building_def [symmetric] caught_def [symmetric] out1_def [symmetric])
  with assms(2) have ends: "reread_ends st phase building (ts\<lparr>ts_out := out1\<rparr>)" by (simp split: if_splits)
  then have clear: "\<not> building" "st_refusal st = None" "\<not> st_cut st" "to_localFaults out1 = []" and "said_nothing (ts_out ts)"
    using assms(3) by (simp_all add: reread_ends_def)
  then have "said_nothing out0"
    using out0 by (auto simp: caught_def turn_throw_is_ours_def said_nothing_def split: option.splits turn_throw.splits if_splits)
  then have "said_nothing out1" by (simp add: out1_def said_nothing_def)
  with fin(2) clear show ?thesis by (simp add: end_of_turn_def Let_def)
qed

text \<open>
  A full re-read of a space ends only with a turn in which nothing stopped.  When a turn
  began with a re-read owed or under way and left none, while others left its state alone, then neither
  leg the network asks for stopped at a bound, an error, a held family, a fault here or a hold, the
  member refused nothing and no act cut the turn.
\<close>

theorem reread_ends_when_whole:
  assumes run: "exchange_space_with_member digest net m ids st (cfg, is_open) = Some ((cfg', is_open'), Inr t)"
    and "full_reread_state_of cfg ids \<noteq> None" "full_reread_state_of cfg' ids = None"
    and others: "\<forall>k c. full_reread_state_of (te_meanwhile (st_env st) k c) ids = full_reread_state_of c ids"
  shows "said_nothing t \<and> to_localFaults t = [] \<and> st_refusal st = None \<and> \<not> st_cut st"
proof -
  have kept: "kept_by (st_env st) ids (\<lambda>c. full_reread_state_of c ids \<noteq> None)"
    using others by (simp add: kept_by_def full_reread_state_of_def read_write_mark)
  let ?hold = "space_hold (te_leaving (st_env st)) (te_broken (st_env st)) cfg (li_space ids) (li_member ids) (Some (li_network ids))"
  consider (unknown) "\<not> st_configured st" | (held) why where "st_configured st" "?hold = Some why"
    | (building) "st_configured st" "?hold = None" "\<not> st_ready st"
    | (go) "st_configured st" "?hold = None" "st_ready st" by (cases ?hold) auto
  then show ?thesis
  proof cases
    case building
    then have "cfg' = cfg"
      using run by (simp add: exchange_space_with_member_def Let_def finish_turn_def turn_start_def reread_ends_def)
    with assms(2,3) show ?thesis by simp
  next
    case go
    let ?dirs = "exchange_directions net m"
    define begun where "begun = (if phase_of cfg ids is_open = Some Begin then begin_full_reread (st_env st) ids cfg else (cfg, False))"
    define phase where "phase = (if phase_of cfg ids is_open = Some Begin \<and> \<not> snd begun then None else phase_of cfg ids is_open)"
    have "\<exists>ts. space_body digest ids st ?dirs (turn_start (fst begun) ?dirs) = Some ts
        \<and> finish_turn ids st phase ts = (cfg', Inr t)"
      using run go by (simp add: exchange_space_with_member_def Let_def begun_def [symmetric] phase_def [symmetric] prod_eq_iff) blast
    then obtain ts where ts: "space_body digest ids st ?dirs (turn_start (fst begun) ?dirs) = Some ts"
      "finish_turn ids st phase ts = (cfg', Inr t)" by blast
    have "full_reread_state_of (fst begun) ids \<noteq> None"
      using assms(2) by (auto simp: begun_def begin_full_reread_def full_reread_state_of_def read_write_mark reread_state_of_def split: if_splits)
    then have "full_reread_state_of (ts_config ts) ids \<noteq> None"
      using space_body_kept [OF kept ts(1)] by (simp add: turn_start_def)
    with assms(3) have "cfg' \<noteq> ts_config ts" by auto
    from finish_turn_ended [OF ts(2) this space_body_ended [OF ts(1)]] show ?thesis by blast
  qed (use run assms(2,3) in \<open>auto simp: exchange_space_with_member_def Let_def\<close>)
qed

definition demo_rereading :: space_config where
  "demo_rereading = write_mark demo_ids FullRereadState (\<lambda>_. Write_mark (Mark_text ''catching'')) demo_hub"

lemma reread_ends_when_whole_witness:
  "\<exists>cfg' t. exchange_space_with_member demo_hash (hd (g_networks demo_hub)) (hd (n_members (hd (g_networks demo_hub)))) demo_ids
      demo_space_turn (demo_rereading, False) = Some ((cfg', False), Inr t) \<and> said_nothing t"
proof -
  let ?net = "hd (g_networks demo_hub)"
  let ?m = "hd (n_members ?net)"
  have c: "carried demo_hub demo_ids"
    by (simp add: carried_def demo_hub_def demo_ids_def demo_network_def demo_member_def member_of_def)
  have none: "read_mark demo_hub jds k = None" for jds k
    by (simp add: read_mark_def read_member_space_mark_def demo_hub_def demo_network_def demo_member_def member_of_def mark_of_def)
  have rd: "read_mark demo_rereading demo_ids FullRereadState = Some (Mark_text ''catching'')"
    by (simp add: demo_rereading_def read_write_mark c)
  have start: "full_reread_state_of demo_rereading demo_ids = Some Reread_catching"
    "mark_or_zero (read_mark demo_rereading demo_ids LastPosReceived) = 0"
    by (simp_all add: demo_rereading_def full_reread_state_of_def read_write_mark c none reread_state_of_def mark_or_zero_def number_of_mark_def)
  have c2: "carried demo_rereading demo_ids" by (simp add: demo_rereading_def c)
  have open_here: "may_exchange demo_turn demo_ids demo_rereading"
    "space_hold None (\<lambda>_. False) demo_rereading ''t'' ''b'' (Some ''net'') = None" by code_simp+
  from demo_pull_from [OF start(2) open_here(1)] obtain ts pc where
    leg: "pull_from_peer demo_hash demo_turn demo_ids demo_pull_leg demo_rereading =
      (\<lparr>lg_config = write_mark demo_ids LastPosReceived (raise_mark 8) demo_rereading, lg_from = 0, lg_transfers = ts\<rparr>, Inr (Some 8, pc))"
    and pc: "leg_ended pc" by (auto simp: leg_ended_def)
  have dirs: "exchange_directions ?net ?m = (True, False)"
    by (simp add: exchange_directions_def is_directional_network_def demo_hub_def demo_network_def demo_member_def Let_def)
  have st: "st_configured demo_space_turn" "st_ready demo_space_turn" "st_env demo_space_turn = demo_turn" "st_pull demo_space_turn = demo_pull_leg"
    "st_reread_throws demo_space_turn = None" "st_files_throw demo_space_turn = None" "st_refusal demo_space_turn = None"
    "\<not> st_cut demo_space_turn" "st_moved demo_space_turn" by (simp_all add: demo_space_turn_def)
  have te: "may_continue demo_turn k" "te_leaving demo_turn = None" "te_broken demo_turn = (\<lambda>_. False)"
    "li_space demo_ids = ''t''" "li_member demo_ids = ''b''" "li_network demo_ids = ''net''" for k
    by (simp_all add: may_continue_def demo_turn_def demo_ids_def)
  have body: "space_body demo_hash demo_ids demo_space_turn (True, False) (turn_start demo_rereading (True, False)) =
      Some \<lparr>ts_config = write_mark demo_ids LastPosReceived (raise_mark 8) demo_rereading, ts_out = empty_turn, ts_pullEnded = True,
        ts_pushEnded = True, ts_leg = Files_part, ts_throw = None\<rparr>"
    by (simp add: space_body_def push_part_def receive_part_def files_part_def turn_start_def st te leg leg_ended_outcome pc Let_def)
  have "\<exists>cfg' t. exchange_space_with_member demo_hash ?net ?m demo_ids demo_space_turn (demo_rereading, False) = Some ((cfg', False), Inr t)
      \<and> full_reread_state_of cfg' demo_ids = None"
    by (simp add: exchange_space_with_member_def Let_def dirs st te open_here(2) phase_of_def rd body finish_turn_def reread_ends_def
        empty_turn_def full_reread_state_of_def end_full_reread_read c2 reread_state_of_def)
  then obtain cfg' t where run: "exchange_space_with_member demo_hash ?net ?m demo_ids demo_space_turn (demo_rereading, False) = Some ((cfg', False), Inr t)"
    "full_reread_state_of cfg' demo_ids = None" by blast
  have "\<forall>k c. full_reread_state_of (te_meanwhile (st_env demo_space_turn) k c) demo_ids = full_reread_state_of c demo_ids"
    by (simp add: st demo_turn_def)
  with reread_ends_when_whole [OF run(1) _ run(2)] start(1) run(1) show ?thesis by auto
qed

end
