(* ===== verification/Work_Pool.thy ===== *)
theory Work_Pool
  imports Prelude
begin

text \<open>
  \<open>util/map-limit.ts\<close>: the pool that maps over a list with at most \<open>limit\<close> calls in flight and, when it is
  keyed, at most \<open>perKey\<close> for one key.  The pool is a state with the variables of \<open>runPool\<close>; its only
  event is that a call in flight settles, and \<open>pool_step\<close> takes any of them in any order.  \<open>p_started\<close>
  and \<open>p_ended\<close> record the calls made and the answers, for the statements; nothing reads them.
\<close>

section \<open>The pool\<close>

text \<open>\<open>items\<close>, \<open>limit\<close> and \<open>keyed\<close>; the limits are finite numbers, whole or not.\<close>

record ('a, 'k) pool_args =
  a_items :: "'a list"
  a_limit :: rat
  a_keyed :: "(('a \<Rightarrow> 'k) \<times> rat) option"

datatype ('e, 'r) pool_outcome = Pending | Resolved "'r option list" | Rejected 'e

text \<open>A queue of waiting indices: \<open>wq_head\<close> is the next to start.\<close>

record wait_queue =
  wq_idx :: "nat list"
  wq_head :: nat

text \<open>\<open>p_cap\<close> is \<open>None\<close> for \<open>POSITIVE_INFINITY\<close>; an entry of \<open>results\<close> not written yet is \<open>None\<close>.\<close>

record ('k, 'e, 'r) pool =
  p_results :: "'r option list"
  p_slots :: rat
  p_cap :: "nat option"
  p_inFlight :: "'k option \<rightharpoonup> nat"
  p_waiting :: "'k option \<rightharpoonup> wait_queue"
  p_keys :: "nat \<rightharpoonup> 'k option"
  p_next :: nat
  p_running :: nat
  p_waitingCount :: nat
  p_failed :: bool
  p_outcome :: "('e, 'r) pool_outcome"
  p_started :: "nat list"
  p_ended :: "(nat \<times> ('e + 'r)) list"

definition in_flight :: "('k, 'e, 'r) pool \<Rightarrow> 'k option \<Rightarrow> nat" where
  "in_flight p k = (case p_inFlight p k of None \<Rightarrow> 0 | Some n \<Rightarrow> n)"

definition below_cap :: "('k, 'e, 'r) pool \<Rightarrow> 'k option \<Rightarrow> bool" where
  "below_cap p k \<longleftrightarrow> (case p_cap p of None \<Rightarrow> True | Some c \<Rightarrow> in_flight p k < c)"

definition key_of :: "('a, 'k) pool_args \<Rightarrow> nat \<Rightarrow> 'k option" where
  "key_of a i = (case a_keyed a of None \<Rightarrow> None | Some (f, _) \<Rightarrow> Some (f (a_items a ! i)))"

definition enqueue :: "'k option \<Rightarrow> nat \<Rightarrow> ('k, 'e, 'r) pool \<Rightarrow> ('k, 'e, 'r) pool" where
  "enqueue k i p =
     (let w = (case p_waiting p k of Some w \<Rightarrow> w | None \<Rightarrow> \<lparr>wq_idx = [], wq_head = 0\<rparr>)
      in p\<lparr>p_waiting := (p_waiting p)(k \<mapsto> w\<lparr>wq_idx := wq_idx w @ [i]\<rparr>), p_waitingCount := Suc (p_waitingCount p)\<rparr>)"

text \<open>The \<open>while\<close> of \<open>pick\<close>.\<close>

function pick_next :: "('a, 'k) pool_args \<Rightarrow> ('k, 'e, 'r) pool \<Rightarrow> ('k, 'e, 'r) pool \<times> nat option" where
  "pick_next a p =
     (if p_next p < length (a_items a)
      then let i = p_next p; k = key_of a i; p1 = p\<lparr>p_next := Suc i, p_keys := (p_keys p)(i \<mapsto> k)\<rparr>
           in if below_cap p1 k then (p1, Some i) else pick_next a (enqueue k i p1)
      else (p, None))"
  by pat_completeness auto
termination
proof (relation "measure (\<lambda>(a, p). length (a_items a) - p_next p)")
  show "wf (measure (\<lambda>(a :: ('a, 'k) pool_args, p :: ('k, 'e, 'r) pool). length (a_items a) - p_next p))" by (rule wf_measure)
next
  fix a :: "('a, 'k) pool_args" and p :: "('k, 'e, 'r) pool" and x xa xb
  assume "p_next p < length (a_items a)" "x = p_next p" "xa = key_of a x"
    "xb = p\<lparr>p_next := Suc x, p_keys := (p_keys p)(x \<mapsto> xa)\<rparr>" "\<not> below_cap xb xa"
  then show "((a, enqueue xa x xb), a, p) \<in> measure (\<lambda>(a, p). length (a_items a) - p_next p)"
    by (simp add: enqueue_def Let_def diff_less_mono2)
qed

declare pick_next.simps [simp del]

definition pick :: "('a, 'k) pool_args \<Rightarrow> 'k option option \<Rightarrow> ('k, 'e, 'r) pool \<Rightarrow> ('k, 'e, 'r) pool \<times> nat option" where
  "pick a freed p =
     (case freed of
        None \<Rightarrow> pick_next a p
      | Some k \<Rightarrow>
          (case p_waiting p k of
             None \<Rightarrow> pick_next a p
           | Some w \<Rightarrow>
               if wq_head w < length (wq_idx w)
               then let w1 = w\<lparr>wq_head := Suc (wq_head w)\<rparr>
                    in (p\<lparr>p_waitingCount := p_waitingCount p - 1,
                          p_waiting := (p_waiting p)(k := if wq_head w1 = length (wq_idx w) then None else Some w1)\<rparr>,
                        Some (wq_idx w ! wq_head w))
               else pick_next a p))"

text \<open>\<open>pick\<close> has written the key of every index it answers.\<close>

definition start :: "nat \<Rightarrow> ('k, 'e, 'r) pool \<Rightarrow> ('k, 'e, 'r) pool" where
  "start i p =
     (let k = (case p_keys p i of Some k \<Rightarrow> k | None \<Rightarrow> None)
      in p\<lparr>p_inFlight := (p_inFlight p)(k \<mapsto> Suc (in_flight p k)), p_running := Suc (p_running p),
           p_started := p_started p @ [i]\<rparr>)"

text \<open>The index the loop reaches, with its key.\<close>

definition reach_next :: "('a, 'k) pool_args \<Rightarrow> ('k, 'e, 'r) pool \<Rightarrow> ('k, 'e, 'r) pool" where
  "reach_next a p = p\<lparr>p_next := Suc (p_next p), p_keys := (p_keys p)(p_next p \<mapsto> key_of a (p_next p))\<rparr>"

lemma pick_next_cases:
  assumes "pick_next a p = (p', r)"
  obtains (empty) "\<not> p_next p < length (a_items a)" "p' = p" "r = None"
    | (found) "p_next p < length (a_items a)" "below_cap (reach_next a p) (key_of a (p_next p))"
        "p' = reach_next a p" "r = Some (p_next p)"
    | (waits) "p_next p < length (a_items a)" "\<not> below_cap (reach_next a p) (key_of a (p_next p))"
        "pick_next a (enqueue (key_of a (p_next p)) (p_next p) (reach_next a p)) = (p', r)"
  using assms pick_next.simps [of a p] by (auto simp: Let_def reach_next_def split: if_splits)

lemma pick_next_forward:
  "pick_next a p = (p', r) \<Longrightarrow> p_next p \<le> p_next p' \<and> (r \<noteq> None \<longrightarrow> p_next p < p_next p' \<and> p_next p < length (a_items a))"
proof (induction a p arbitrary: p' r rule: pick_next.induct)
  case (1 a p)
  from "1.prems" show ?case
  proof (cases rule: pick_next_cases)
    case waits
    from "1.IH" [OF waits(1) refl refl refl waits(2,3) [unfolded reach_next_def]] show ?thesis
      using waits(1) by (auto simp: enqueue_def reach_next_def Let_def)
  qed (auto simp: reach_next_def)
qed

function fill :: "('a, 'k) pool_args \<Rightarrow> ('k, 'e, 'r) pool \<Rightarrow> ('k, 'e, 'r) pool" where
  "fill a p =
     (if of_nat (p_running p) < p_slots p
      then (case pick a None p of (p1, None) \<Rightarrow> p1 | (p1, Some i) \<Rightarrow> fill a (start i p1))
      else p)"
  by pat_completeness auto
termination
proof (relation "measure (\<lambda>(a, p). length (a_items a) - p_next p)", goal_cases)
  case 1
  show ?case by (rule wf_measure)
next
  case (2 a p p1 y i)
  then have "pick_next a p = (p1, Some i)" by (auto simp: pick_def)
  from pick_next_forward [OF this] show ?case
    by (auto simp: start_def Let_def)
qed

declare fill.simps [simp del]

text \<open>\<open>done\<close>: a call for key \<open>k\<close> has ended.\<close>

definition refill_or_shrink :: "('a, 'k) pool_args \<Rightarrow> 'k option \<Rightarrow> bool \<Rightarrow> ('k, 'e, 'r) pool \<Rightarrow> ('k, 'e, 'r) pool" where
  "refill_or_shrink a k refill p =
     (if refill then (case pick a (Some k) p of (p1, None) \<Rightarrow> p1 | (p1, Some i) \<Rightarrow> start i p1)
      else p\<lparr>p_slots := p_slots p - 1\<rparr>)"

definition call_done :: "('a, 'k) pool_args \<Rightarrow> 'k option \<Rightarrow> bool \<Rightarrow> ('k, 'e, 'r) pool \<Rightarrow> ('k, 'e, 'r) pool" where
  "call_done a k refill p =
     (let n = (case p_inFlight p k of None \<Rightarrow> 1 | Some n \<Rightarrow> n) - 1;
          p1 = p\<lparr>p_running := p_running p - 1,
                 p_inFlight := (p_inFlight p)(k := if n = 0 then None else Some n)\<rparr>;
          p2 = refill_or_shrink a k refill p1
      in if p_running p2 = 0 \<and> \<not> p_failed p2
         then if p_next p2 < length (a_items a) \<or> 0 < p_waitingCount p2 then fill a p2
              else p2\<lparr>p_outcome := Resolved (p_results p2)\<rparr>
         else p2)"

definition settle :: "('a, 'k) pool_args \<Rightarrow> nat \<Rightarrow> 'e + 'r \<Rightarrow> ('k, 'e, 'r) pool \<Rightarrow> ('k, 'e, 'r) pool" where
  "settle a i answer p =
     (let k = (case p_keys p i of Some k \<Rightarrow> k | None \<Rightarrow> None); p0 = p\<lparr>p_ended := p_ended p @ [(i, answer)]\<rparr>
      in case answer of
           Inr r \<Rightarrow> call_done a k True (p0\<lparr>p_results := (p_results p)[i := Some r]\<rparr>)
         | Inl err \<Rightarrow> call_done a k False (if p_failed p then p0 else p0\<lparr>p_failed := True, p_outcome := Rejected err\<rparr>))"

definition run_pool :: "('a, 'k) pool_args \<Rightarrow> ('k, 'e, 'r) pool" where
  "run_pool a =
     (let n = length (a_items a);
          p = \<lparr>p_results = replicate n None, p_slots = max 1 (min (a_limit a) (of_nat n)),
               p_cap = map_option (\<lambda>(_, perKey). nat (max 1 \<lfloor>perKey\<rfloor>)) (a_keyed a),
               p_inFlight = Map.empty, p_waiting = Map.empty, p_keys = Map.empty,
               p_next = 0, p_running = 0, p_waitingCount = 0, p_failed = False, p_outcome = Pending,
               p_started = [], p_ended = []\<rparr>
      in if n = 0 then p\<lparr>p_outcome := Resolved []\<rparr> else fill a p)"

text \<open>The two doors.\<close>

definition map_limit :: "'a list \<Rightarrow> rat \<Rightarrow> (unit, 'e, 'r) pool" where
  "map_limit items limit = run_pool \<lparr>a_items = items, a_limit = limit, a_keyed = None\<rparr>"

definition map_limit_per_key :: "'a list \<Rightarrow> rat \<Rightarrow> ('a \<Rightarrow> 'k) \<Rightarrow> rat \<Rightarrow> ('k, 'e, 'r) pool" where
  "map_limit_per_key items limit keyf perKey = run_pool \<lparr>a_items = items, a_limit = limit, a_keyed = Some (keyf, perKey)\<rparr>"

section \<open>What can happen\<close>

definition flight :: "('k, 'e, 'r) pool \<Rightarrow> nat list" where
  "flight p = filter (\<lambda>i. i \<notin> fst ` set (p_ended p)) (p_started p)"

inductive pool_step :: "('a, 'k) pool_args \<Rightarrow> ('k, 'e, 'r) pool \<Rightarrow> ('k, 'e, 'r) pool \<Rightarrow> bool" for a where
  settles: "i \<in> set (flight p) \<Longrightarrow> pool_step a p (settle a i answer p)"

definition pool_reaches :: "('a, 'k) pool_args \<Rightarrow> ('k, 'e, 'r) pool \<Rightarrow> bool" where
  "pool_reaches a p \<longleftrightarrow> (pool_step a)\<^sup>*\<^sup>* (run_pool a) p"

section \<open>The books\<close>

text \<open>The indices that wait for their key.\<close>

definition waiting_of :: "('k, 'e, 'r) pool \<Rightarrow> 'k option \<Rightarrow> nat list" where
  "waiting_of p k = (case p_waiting p k of None \<Rightarrow> [] | Some w \<Rightarrow> drop (wq_head w) (wq_idx w))"

abbreviation of_key :: "('a, 'k) pool_args \<Rightarrow> 'k option \<Rightarrow> nat list \<Rightarrow> nat" where
  "of_key a k is \<equiv> length (filter (\<lambda>i. key_of a i = k) is)"

text \<open>
  What the variables say of each other, with \<open>h\<close> the index picked and not yet started: every index
  reached is started, picked or waiting under its key, once; the counters count.
\<close>

definition placed :: "('a, 'k) pool_args \<Rightarrow> nat list \<Rightarrow> ('k, 'e, 'r) pool \<Rightarrow> bool" where
  "placed a h p \<longleftrightarrow>
     p_next p \<le> length (a_items a) \<and> distinct (p_started p @ h)
     \<and> (\<forall>i < p_next p. p_keys p i = Some (key_of a i))
     \<and> (\<forall>i. i < p_next p \<longleftrightarrow> i \<in> set (p_started p) \<or> i \<in> set h \<or> i \<in> set (waiting_of p (key_of a i)))
     \<and> (\<forall>k. distinct (waiting_of p k) \<and> (\<forall>i \<in> set (waiting_of p k). key_of a i = k \<and> i \<notin> set (p_started p) \<and> i \<notin> set h))
     \<and> p_waitingCount p + length (p_started p) + length h = p_next p"

definition counted :: "('a, 'k) pool_args \<Rightarrow> nat list \<Rightarrow> ('k, 'e, 'r) pool \<Rightarrow> bool" where
  "counted a h p \<longleftrightarrow>
     distinct (map fst (p_ended p)) \<and> fst ` set (p_ended p) \<subseteq> set (p_started p)
     \<and> p_running p = length (flight p)
     \<and> (\<forall>k. in_flight p k = of_key a k (flight p))
     \<and> (\<forall>k c. p_cap p = Some c \<longrightarrow> in_flight p k + of_key a k h \<le> c)"

text \<open>An index waits only while its key is full.\<close>

definition tight :: "('a, 'k) pool_args \<Rightarrow> nat list \<Rightarrow> ('k, 'e, 'r) pool \<Rightarrow> bool" where
  "tight a h p \<longleftrightarrow> (\<forall>k. waiting_of p k \<noteq> [] \<longrightarrow> p_cap p = Some (in_flight p k + of_key a k h))"

definition same_else :: "('k, 'e, 'r) pool \<Rightarrow> ('k, 'e, 'r) pool \<Rightarrow> bool" where
  "same_else p q \<longleftrightarrow> p_slots q = p_slots p \<and> p_cap q = p_cap p \<and> p_failed q = p_failed p \<and> p_outcome q = p_outcome p
     \<and> p_results q = p_results p \<and> p_ended q = p_ended p"

lemma same_else_refl [simp]: "same_else p p"
  by (simp add: same_else_def)

lemma same_else_trans: "same_else p q \<Longrightarrow> same_else q r \<Longrightarrow> same_else p r"
  by (simp add: same_else_def)

lemma waiting_of_enqueue:
  assumes "\<forall>w. p_waiting p k = Some w \<longrightarrow> wq_head w \<le> length (wq_idx w)"
  shows "waiting_of (enqueue k i p) k' = (if k' = k then waiting_of p k @ [i] else waiting_of p k')"
  using assms by (auto simp: waiting_of_def enqueue_def Let_def split: option.splits)

text \<open>Every queue kept has an index to start.\<close>

definition queues_live :: "('k, 'e, 'r) pool \<Rightarrow> bool" where
  "queues_live p \<longleftrightarrow> (\<forall>k w. p_waiting p k = Some w \<longrightarrow> wq_head w < length (wq_idx w))"

lemma reach_next_simps [simp]:
  "waiting_of (reach_next a p) k = waiting_of p k" "in_flight (reach_next a p) k = in_flight p k"
  "flight (reach_next a p) = flight p" "queues_live (reach_next a p) = queues_live p"
  "same_else p (reach_next a p)" "p_next (reach_next a p) = Suc (p_next p)"
  "p_keys (reach_next a p) = (p_keys p)(p_next p \<mapsto> key_of a (p_next p))"
  "p_started (reach_next a p) = p_started p" "p_waiting (reach_next a p) = p_waiting p"
  "p_running (reach_next a p) = p_running p" "p_cap (reach_next a p) = p_cap p" "p_ended (reach_next a p) = p_ended p"
  "p_waitingCount (reach_next a p) = p_waitingCount p" "p_slots (reach_next a p) = p_slots p"
  by (simp_all add: waiting_of_def in_flight_def flight_def queues_live_def same_else_def reach_next_def)

lemma below_cap_reach [simp]: "below_cap (reach_next a p) k = below_cap p k"
  by (simp add: below_cap_def split: option.split)

lemma enqueue_simps [simp]:
  "in_flight (enqueue k i p) k' = in_flight p k'" "flight (enqueue k i p) = flight p" "same_else p (enqueue k i p)"
  "p_next (enqueue k i p) = p_next p" "p_started (enqueue k i p) = p_started p" "p_keys (enqueue k i p) = p_keys p"
  "p_running (enqueue k i p) = p_running p" "p_cap (enqueue k i p) = p_cap p" "p_ended (enqueue k i p) = p_ended p"
  "p_waitingCount (enqueue k i p) = Suc (p_waitingCount p)"
  by (simp_all add: in_flight_def flight_def same_else_def enqueue_def Let_def)

lemma queues_live_enqueue: "queues_live p \<Longrightarrow> queues_live (enqueue k i p)"
  by (auto simp: queues_live_def enqueue_def Let_def less_Suc_eq split: option.splits)

definition books :: "('a, 'k) pool_args \<Rightarrow> nat list \<Rightarrow> ('k, 'e, 'r) pool \<Rightarrow> bool" where
  "books a h p \<longleftrightarrow> placed a h p \<and> counted a h p \<and> queues_live p"

lemma placedI:
  assumes "p_next p \<le> length (a_items a)" "distinct (p_started p @ h)"
    and "\<And>i. i < p_next p \<Longrightarrow> p_keys p i = Some (key_of a i)"
    and "\<And>i. i < p_next p \<longleftrightarrow> i \<in> set (p_started p) \<or> i \<in> set h \<or> i \<in> set (waiting_of p (key_of a i))"
    and "\<And>k. distinct (waiting_of p k)"
    and "\<And>k i. i \<in> set (waiting_of p k) \<Longrightarrow> key_of a i = k \<and> i \<notin> set (p_started p) \<and> i \<notin> set h"
    and "p_waitingCount p + length (p_started p) + length h = p_next p"
  shows "placed a h p"
  using assms unfolding placed_def by blast

lemma placedD:
  assumes "placed a h p"
  shows "p_next p \<le> length (a_items a)" "distinct (p_started p @ h)"
    and "\<And>i. i < p_next p \<Longrightarrow> p_keys p i = Some (key_of a i)"
    and "\<And>i. i < p_next p \<longleftrightarrow> i \<in> set (p_started p) \<or> i \<in> set h \<or> i \<in> set (waiting_of p (key_of a i))"
    and "\<And>k. distinct (waiting_of p k)"
    and "\<And>k i. i \<in> set (waiting_of p k) \<Longrightarrow> key_of a i = k \<and> i \<notin> set (p_started p) \<and> i \<notin> set h"
    and "p_waitingCount p + length (p_started p) + length h = p_next p"
  using assms unfolding placed_def by blast+

lemma countedI:
  assumes "distinct (map fst (p_ended p))" "fst ` set (p_ended p) \<subseteq> set (p_started p)"
    and "p_running p = length (flight p)" "\<And>k. in_flight p k = of_key a k (flight p)"
    and "\<And>k c. p_cap p = Some c \<Longrightarrow> in_flight p k + of_key a k h \<le> c"
  shows "counted a h p"
  using assms unfolding counted_def by blast

lemma countedD:
  assumes "counted a h p"
  shows "distinct (map fst (p_ended p))" "fst ` set (p_ended p) \<subseteq> set (p_started p)"
    and "p_running p = length (flight p)" "\<And>k. in_flight p k = of_key a k (flight p)"
    and "\<And>k c. p_cap p = Some c \<Longrightarrow> in_flight p k + of_key a k h \<le> c"
  using assms unfolding counted_def by blast+

lemma placed_fresh:
  assumes "placed a [] p" "p_next p \<le> i"
  shows "i \<notin> set (p_started p)" "i \<notin> set (waiting_of p k)"
proof -
  have r: "\<forall>i. i < p_next p \<longleftrightarrow> i \<in> set (p_started p) \<or> i \<in> set (waiting_of p (key_of a i))"
    and w: "\<forall>k. \<forall>i \<in> set (waiting_of p k). key_of a i = k"
    using assms(1) by (auto simp: placed_def)
  from r assms(2) show "i \<notin> set (p_started p)" by (meson not_le)
  show "i \<notin> set (waiting_of p k)"
  proof
    assume "i \<in> set (waiting_of p k)"
    moreover from this w have "key_of a i = k" by blast
    ultimately have "i < p_next p" using r by blast
    with assms(2) show False by simp
  qed
qed

lemma placed_found:
  assumes "placed a [] p" "p_next p < length (a_items a)"
  shows "placed a [p_next p] (reach_next a p)"
proof (rule placedI)
  note d = placedD [OF assms(1)] and f = placed_fresh [OF assms(1) le_refl]
  show "p_next (reach_next a p) \<le> length (a_items a)" using assms(2) by simp
  show "distinct (p_started (reach_next a p) @ [p_next p])" using d(2) f(1) by simp
  show "i < p_next (reach_next a p) \<Longrightarrow> p_keys (reach_next a p) i = Some (key_of a i)" for i
    using d(3) [of i] by (auto simp: less_Suc_eq)
  show "i < p_next (reach_next a p) \<longleftrightarrow> i \<in> set (p_started (reach_next a p)) \<or> i \<in> set [p_next p]
      \<or> i \<in> set (waiting_of (reach_next a p) (key_of a i))" for i
    using d(4) [of i] by (auto simp: less_Suc_eq)
  show "distinct (waiting_of (reach_next a p) k)" for k using d(5) by simp
  show "i \<in> set (waiting_of (reach_next a p) k) \<Longrightarrow> key_of a i = k \<and> i \<notin> set (p_started (reach_next a p)) \<and> i \<notin> set [p_next p]" for i k
    using d(6) [of i k] f(2) [of k] by auto
  show "p_waitingCount (reach_next a p) + length (p_started (reach_next a p)) + length [p_next p] = p_next (reach_next a p)"
    using d(7) by simp
qed

lemma placed_waits:
  assumes "placed a [] p" "p_next p < length (a_items a)" "queues_live p"
  shows "placed a [] (enqueue (key_of a (p_next p)) (p_next p) (reach_next a p))" (is "placed a [] ?q")
proof (rule placedI)
  note d = placedD [OF assms(1)] and f = placed_fresh [OF assms(1) le_refl]
  have "\<forall>w. p_waiting (reach_next a p) k = Some w \<longrightarrow> wq_head w \<le> length (wq_idx w)" for k
    using assms(3) by (auto simp: queues_live_def dest: less_imp_le)
  from waiting_of_enqueue [OF this]
  have w: "waiting_of ?q k = (if k = key_of a (p_next p) then waiting_of p k @ [p_next p] else waiting_of p k)" for k
    by simp
  show "p_next ?q \<le> length (a_items a)" using assms(2) by simp
  show "distinct (p_started ?q @ [])" using d(2) by simp
  show "i < p_next ?q \<Longrightarrow> p_keys ?q i = Some (key_of a i)" for i
    using d(3) [of i] by (auto simp: less_Suc_eq)
  show "i < p_next ?q \<longleftrightarrow> i \<in> set (p_started ?q) \<or> i \<in> set [] \<or> i \<in> set (waiting_of ?q (key_of a i))" for i
    using d(4) [of i] by (auto simp: less_Suc_eq w)
  show "distinct (waiting_of ?q k)" for k using d(5) [of k] f(2) [of k] by (auto simp: w)
  show "i \<in> set (waiting_of ?q k) \<Longrightarrow> key_of a i = k \<and> i \<notin> set (p_started ?q) \<and> i \<notin> set []" for i k
    using d(6) [of i k] f(1) by (auto simp: w split: if_splits)
  show "p_waitingCount ?q + length (p_started ?q) + length ([] :: nat list) = p_next ?q"
    using d(7) by simp
qed

lemma books_found:
  assumes "books a [] p" "p_next p < length (a_items a)" "below_cap p (key_of a (p_next p))"
  shows "books a [p_next p] (reach_next a p)"
proof -
  have "counted a [p_next p] (reach_next a p)"
    using assms(1,3) unfolding books_def counted_def by (auto simp: below_cap_def split: option.splits)
  with assms(1) placed_found [OF _ assms(2)] show ?thesis by (simp add: books_def)
qed

lemma books_waits:
  assumes "books a [] p" "p_next p < length (a_items a)"
  shows "books a [] (enqueue (key_of a (p_next p)) (p_next p) (reach_next a p))"
proof -
  have "counted a [] (enqueue (key_of a (p_next p)) (p_next p) (reach_next a p))"
    using assms(1) unfolding books_def counted_def by auto
  with assms(1) placed_waits [OF _ assms(2)] show ?thesis by (simp add: books_def queues_live_enqueue)
qed

lemma tight_waits:
  assumes "tight a [] p" "queues_live p" "\<not> below_cap p (key_of a (p_next p))" "counted a [] p"
  shows "tight a [] (enqueue (key_of a (p_next p)) (p_next p) (reach_next a p))"
proof -
  have q: "\<forall>w. p_waiting (reach_next a p) k = Some w \<longrightarrow> wq_head w \<le> length (wq_idx w)" for k
    using assms(2) by (auto simp: queues_live_def dest: less_imp_le)
  have "p_cap p = Some (in_flight p (key_of a (p_next p)))"
    using assms(3,4) by (auto simp: below_cap_def counted_def not_less split: option.splits intro: le_antisym)
  with assms(1) show ?thesis by (auto simp: tight_def waiting_of_enqueue [OF q])
qed

lemma tight_found:
  assumes "tight a [] p" "below_cap p (key_of a (p_next p))"
  shows "tight a [p_next p] (reach_next a p)"
  using assms by (auto simp: tight_def below_cap_def split: option.splits)

lemma same_else_simps: "same_else p q \<Longrightarrow> p_slots q = p_slots p \<and> p_cap q = p_cap p \<and> p_failed q = p_failed p
    \<and> p_outcome q = p_outcome p \<and> p_results q = p_results p \<and> p_ended q = p_ended p"
  by (simp add: same_else_def)

text \<open>What a pick leaves: an index to start whose key has room, or nothing and every index reached.\<close>

abbreviation held :: "nat option \<Rightarrow> nat list" where
  "held r \<equiv> (case r of None \<Rightarrow> [] | Some i \<Rightarrow> [i])"

definition picked :: "('a, 'k) pool_args \<Rightarrow> ('k, 'e, 'r) pool \<Rightarrow> ('k, 'e, 'r) pool \<Rightarrow> nat option \<Rightarrow> bool" where
  "picked a p q r \<longleftrightarrow> books a (held r) q \<and> same_else p q \<and> p_running q = p_running p \<and> p_started q = p_started p
     \<and> p_next p \<le> p_next q \<and> (r = None \<longrightarrow> p_next q = length (a_items a))"

lemma pick_next_picked:
  "pick_next a p = (q, r) \<Longrightarrow> books a [] p \<Longrightarrow> picked a p q r \<and> (tight a [] p \<longrightarrow> tight a (held r) q)"
proof (induction a p arbitrary: q r rule: pick_next.induct)
  case (1 a p)
  from "1.prems"(1) show ?case
  proof (cases rule: pick_next_cases)
    case empty
    moreover have "p_next p \<le> length (a_items a)" using "1.prems"(2) by (auto simp: books_def placed_def)
    ultimately show ?thesis using "1.prems"(2) by (simp add: picked_def)
  next
    case found
    with books_found [OF "1.prems"(2) found(1)] tight_found [of a p] show ?thesis
      by (simp add: picked_def)
  next
    case waits
    let ?p1 = "enqueue (key_of a (p_next p)) (p_next p) (reach_next a p)"
    have b: "books a [] ?p1" by (rule books_waits [OF "1.prems"(2) waits(1)])
    from "1.IH" [OF waits(1) refl refl refl waits(2,3) [unfolded reach_next_def] b [unfolded reach_next_def]]
    have ih: "picked a ?p1 q r \<and> (tight a [] ?p1 \<longrightarrow> tight a (held r) q)" by (simp add: reach_next_def)
    have "tight a [] p \<Longrightarrow> tight a [] ?p1"
      using tight_waits [of a p] waits(2) "1.prems"(2) by (simp add: books_def)
    moreover have "same_else p ?p1" using same_else_trans [OF reach_next_simps(5) enqueue_simps(3)] by blast
    ultimately show ?thesis using ih same_else_trans [of p ?p1 q] by (auto simp: picked_def)
  qed
qed

text \<open>An index taken from the queue of its key.\<close>

lemma pick_waiting:
  assumes "books a [] p" "p_waiting p k = Some w" "pick a (Some k) p = (q, r)" "below_cap p k"
  shows "r = Some (wq_idx w ! wq_head w) \<and> key_of a (wq_idx w ! wq_head w) = k \<and> books a [wq_idx w ! wq_head w] q
     \<and> same_else p q \<and> p_running q = p_running p \<and> p_started q = p_started p \<and> p_next q = p_next p
     \<and> (\<forall>k. in_flight q k = in_flight p k) \<and> (\<forall>k'. k' \<noteq> k \<longrightarrow> waiting_of q k' = waiting_of p k')"
proof -
  let ?i = "wq_idx w ! wq_head w"
  have pl: "placed a [] p" and co: "counted a [] p" and li: "wq_head w < length (wq_idx w)"
    using assms(1,2) by (auto simp: books_def queues_live_def)
  note d = placedD [OF pl]
  have q: "q = p\<lparr>p_waitingCount := p_waitingCount p - 1,
      p_waiting := (p_waiting p)(k := if Suc (wq_head w) = length (wq_idx w) then None else Some (w\<lparr>wq_head := Suc (wq_head w)\<rparr>))\<rparr>"
    and r: "r = Some ?i"
    using assms(3) li by (auto simp: pick_def assms(2) Let_def)
  have wk: "waiting_of p k = ?i # drop (Suc (wq_head w)) (wq_idx w)"
    using li by (simp add: waiting_of_def assms(2) Cons_nth_drop_Suc)
  have wq: "waiting_of q k' = (if k' = k then drop (Suc (wq_head w)) (wq_idx w) else waiting_of p k')" for k'
    by (auto simp: q waiting_of_def)
  have keep: "p_next q = p_next p" "p_started q = p_started p" "p_keys q = p_keys p" "p_running q = p_running p"
    "p_inFlight q = p_inFlight p" "p_ended q = p_ended p" "p_cap q = p_cap p"
    by (simp_all add: q)
  have fl: "flight q = flight p" "in_flight q k' = in_flight p k'" for k'
    by (simp_all add: flight_def in_flight_def keep)
  have i: "key_of a ?i = k" "?i \<notin> set (p_started p)" "?i < p_next p"
    using d(6) [of ?i k] d(4) [of ?i] wk by auto
  have di: "distinct (?i # drop (Suc (wq_head w)) (wq_idx w))" using d(5) [of k] wk by simp
  have "0 < p_waitingCount p"
  proof (rule ccontr)
    assume "\<not> 0 < p_waitingCount p"
    then have n: "length (p_started p) = p_next p" using d(7) by simp
    have "insert ?i (set (p_started p)) \<subseteq> {..<p_next p}" using d(4) i(3) by auto
    from card_mono [OF finite_lessThan this] have "card (insert ?i (set (p_started p))) \<le> p_next p" by (simp only: card_lessThan)
    moreover have "card (set (p_started p)) = p_next p" using d(2) n by (simp add: distinct_card)
    ultimately show False using i(2) by simp
  qed
  have "placed a [?i] q"
  proof (rule placedI)
    show "p_next q \<le> length (a_items a)" using d(1) keep by simp
    show "distinct (p_started q @ [?i])" using d(2) i(2) keep by simp
    show "j < p_next q \<Longrightarrow> p_keys q j = Some (key_of a j)" for j using d(3) keep by simp
    show "j < p_next q \<longleftrightarrow> j \<in> set (p_started q) \<or> j \<in> set [?i] \<or> j \<in> set (waiting_of q (key_of a j))" for j
    proof (cases "key_of a j = k")
      case True
      then have "waiting_of p (key_of a j) = ?i # drop (Suc (wq_head w)) (wq_idx w)"
        "waiting_of q (key_of a j) = drop (Suc (wq_head w)) (wq_idx w)" using wk wq [of "key_of a j"] by simp_all
      with d(4) [of j] show ?thesis by (auto simp: keep)
    next
      case False
      then have "j \<noteq> ?i" using i(1) by blast
      moreover have "waiting_of q (key_of a j) = waiting_of p (key_of a j)" using False by (simp only: wq if_False)
      ultimately show ?thesis using d(4) [of j] by (simp add: keep)
    qed
    show "distinct (waiting_of q k')" for k' using d(5) [of k'] di by (simp add: wq)
    show "j \<in> set (waiting_of q k') \<Longrightarrow> key_of a j = k' \<and> j \<notin> set (p_started q) \<and> j \<notin> set [?i]" for j k'
      using d(6) [of j k'] wk di i(1) by (auto simp: wq keep split: if_splits)
    show "p_waitingCount q + length (p_started q) + length [?i] = p_next q"
      using d(7) \<open>0 < p_waitingCount p\<close> by (simp add: q)
  qed
  moreover have "counted a [?i] q"
    using co assms(4) i(1) unfolding counted_def fl by (auto simp: keep fl below_cap_def split: option.splits)
  moreover have "queues_live q"
    using assms(1) li unfolding books_def queues_live_def q by (auto split: if_splits)
  moreover have "same_else p q" by (simp add: q same_else_def)
  ultimately show ?thesis using r i(1) fl wq keep by (simp add: books_def)
qed

lemma start_books:
  assumes "books a [i] p"
  shows "books a [] (start i p)" "same_else p (start i p)" "p_running (start i p) = Suc (p_running p)"
    "p_next (start i p) = p_next p" "tight a [i] p \<Longrightarrow> tight a [] (start i p)"
proof -
  note d = placedD [OF assms [unfolded books_def, THEN conjunct1]]
  have i: "i < p_next p" "i \<notin> set (p_started p)" using d(2) d(4) [of i] by auto
  then have s: "start i p = p\<lparr>p_inFlight := (p_inFlight p)(key_of a i \<mapsto> Suc (in_flight p (key_of a i))),
      p_running := Suc (p_running p), p_started := p_started p @ [i]\<rparr>"
    using d(3) by (simp add: start_def Let_def)
  have w: "waiting_of (start i p) k = waiting_of p k" for k by (simp add: s waiting_of_def)
  have n: "in_flight (start i p) k = in_flight p k + of_key a k [i]" for k by (simp add: s in_flight_def)
  have e: "i \<notin> fst ` set (p_ended p)" using assms i(2) by (auto simp: books_def counted_def)
  then have f: "flight (start i p) = flight p @ [i]" by (simp add: s flight_def)
  have "placed a [] (start i p)"
  proof (rule placedI)
    show "p_next (start i p) \<le> length (a_items a)" using d(1) by (simp add: s)
    show "distinct (p_started (start i p) @ [])" using d(2) by (simp add: s)
    show "j < p_next (start i p) \<Longrightarrow> p_keys (start i p) j = Some (key_of a j)" for j using d(3) by (simp add: s)
    show "j < p_next (start i p) \<longleftrightarrow> j \<in> set (p_started (start i p)) \<or> j \<in> set [] \<or> j \<in> set (waiting_of (start i p) (key_of a j))" for j
      using d(4) [of j] unfolding w by (auto simp: s)
    show "distinct (waiting_of (start i p) k)" for k using d(5) by (simp add: w)
    show "j \<in> set (waiting_of (start i p) k) \<Longrightarrow> key_of a j = k \<and> j \<notin> set (p_started (start i p)) \<and> j \<notin> set []" for j k
      using d(6) [of j k] unfolding w by (auto simp: s)
    show "p_waitingCount (start i p) + length (p_started (start i p)) + length ([] :: nat list) = p_next (start i p)"
      using d(7) by (simp add: s)
  qed
  moreover have "counted a [] (start i p)"
  proof (rule countedI)
    note c = countedD [OF assms [unfolded books_def, THEN conjunct2, THEN conjunct1]]
    show "distinct (map fst (p_ended (start i p)))" using c(1) by (simp add: s)
    show "fst ` set (p_ended (start i p)) \<subseteq> set (p_started (start i p))" using c(2) by (auto simp: s)
    show "p_running (start i p) = length (flight (start i p))" using c(3) unfolding f by (simp add: s)
    show "in_flight (start i p) k = of_key a k (flight (start i p))" for k unfolding n f by (simp add: c(4))
    show "p_cap (start i p) = Some m \<Longrightarrow> in_flight (start i p) k + of_key a k [] \<le> m" for k m
      using c(5) [of m k] unfolding n by (simp add: s)
  qed
  moreover have "queues_live (start i p)" using assms by (simp add: books_def queues_live_def s)
  ultimately show "books a [] (start i p)" by (simp add: books_def)
  show "same_else p (start i p)" by (simp add: s same_else_def)
  show "p_running (start i p) = Suc (p_running p)" "p_next (start i p) = p_next p" by (simp_all add: s)
  show "tight a [i] p \<Longrightarrow> tight a [] (start i p)" unfolding tight_def w n by (simp add: s)
qed

text \<open>A call of the pool that has ended, before its place is given on.\<close>

definition one_less :: "'k option \<Rightarrow> nat \<times> ('e + 'r) \<Rightarrow> ('k, 'e, 'r) pool \<Rightarrow> ('k, 'e, 'r) pool \<Rightarrow> bool" where
  "one_less k e p q \<longleftrightarrow>
     p_ended q = p_ended p @ [e] \<and> p_running q = p_running p - 1 \<and> p_next q = p_next p \<and> p_started q = p_started p
     \<and> p_keys q = p_keys p \<and> p_waiting q = p_waiting p \<and> p_waitingCount q = p_waitingCount p \<and> p_cap q = p_cap p
     \<and> p_inFlight q = (p_inFlight p)(k := if in_flight p k \<le> 1 then None else Some (in_flight p k - 1))"

lemma one_less_books:
  assumes "one_less (key_of a i) (i, ans) p q" "books a [] p" "i \<in> set (flight p)"
  shows "books a [] q" "waiting_of q = waiting_of p"
    and "in_flight q k = in_flight p k - (if k = key_of a i then 1 else 0)"
    and "0 < in_flight p (key_of a i)" "0 < p_running p"
proof -
  note s = assms(1) [unfolded one_less_def]
  have pl: "placed a [] p" and co: "counted a [] p" and li: "queues_live p" using assms(2) by (auto simp: books_def)
  note c = countedD [OF co]
  show w: "waiting_of q = waiting_of p" using s by (simp add: fun_eq_iff waiting_of_def)
  show n: "in_flight q k = in_flight p k - (if k = key_of a i then 1 else 0)" for k
    using s by (auto simp: in_flight_def)
  have i: "i \<in> set (p_started p)" "i \<notin> fst ` set (p_ended p)" using assms(3) by (auto simp: flight_def)
  have f: "flight q = filter (\<lambda>j. j \<noteq> i) (flight p)"
    using s by (auto simp: flight_def intro: filter_cong)
  have df: "distinct (flight p)" using placedD(2) [OF pl] by (simp add: flight_def)
  have rm: "length (filter (\<lambda>j. j \<noteq> i \<and> P j) (flight p)) = length (filter P (flight p)) - (if P i then 1 else 0)" for P
  proof -
    have "filter (\<lambda>j. j \<noteq> i \<and> P j) (flight p) = remove1 i (filter P (flight p))"
      using df by (auto simp: distinct_remove1_removeAll removeAll_filter_not_eq filter_filter intro!: filter_cong)
    then show ?thesis using assms(3) by (simp add: length_remove1)
  qed
  show "0 < in_flight p (key_of a i)" using assms(3) c(4) [of "key_of a i"] by (auto simp: length_greater_0_conv filter_empty_conv)
  show "0 < p_running p" using assms(3) c(3) by (auto simp: length_pos_if_in_set)
  have "placed a [] q" using pl s unfolding placed_def w by simp
  moreover have "counted a [] q"
  proof (rule countedI)
    show "distinct (map fst (p_ended q))" using c(1) s i(2) by simp
    show "fst ` set (p_ended q) \<subseteq> set (p_started q)" using c(2) s i(1) by auto
    show "p_running q = length (flight q)" using rm [of "\<lambda>_. True"] c(3) s f by simp
    show "in_flight q k = of_key a k (flight q)" for k
      using rm [of "\<lambda>j. key_of a j = k"] c(4) [of k] n [of k] f by (auto simp: filter_filter)
    show "p_cap q = Some m \<Longrightarrow> in_flight q k + of_key a k [] \<le> m" for k m
      using c(5) [of m k] n [of k] s by simp
  qed
  moreover have "queues_live q" using li s by (simp add: queues_live_def)
  ultimately show "books a [] q" by (simp add: books_def)
qed

text \<open>With no call in flight and no queue held back by its cap, nothing waits and every index reached was started.\<close>

lemma all_started:
  assumes "books a [] p" "tight a [] p" "p_running p = 0" "p_cap p = Some 0 \<longrightarrow> False"
  shows "set (p_started p) = {..<p_next p}" "p_waitingCount p = 0"
proof -
  have pl: "placed a [] p" and co: "counted a [] p" using assms(1) by (auto simp: books_def)
  note d = placedD [OF pl]
  have "flight p = []" using countedD(3) [OF co] assms(3) by simp
  then have "in_flight p k = 0" for k using countedD(4) [OF co, of k] by simp
  with assms(2,4) have w: "waiting_of p k = []" for k by (auto simp: tight_def)
  show s: "set (p_started p) = {..<p_next p}" using d(4) by (auto simp: w)
  then have "card (set (p_started p)) = p_next p" by simp
  then have "length (p_started p) = p_next p" using d(2) by (simp add: distinct_card)
  with d(7) show "p_waitingCount p = 0" by simp
qed

lemma fill_books:
  "books a [] p \<Longrightarrow> tight a [] p \<Longrightarrow> of_nat (p_running p) < p_slots p + 1 \<Longrightarrow>
     books a [] (fill a p) \<and> tight a [] (fill a p) \<and> same_else p (fill a p)
     \<and> of_nat (p_running (fill a p)) < p_slots p + 1
     \<and> (of_nat (p_running (fill a p)) < p_slots p \<longrightarrow> p_next (fill a p) = length (a_items a))"
proof (induction a p rule: fill.induct)
  case (1 a p)
  show ?case
  proof (cases "of_nat (p_running p) < p_slots p")
    case False
    with "1.prems" show ?thesis by (simp add: fill.simps [of a p])
  next
    case True
    obtain p1 r where pick: "pick a None p = (p1, r)" by fastforce
    then have "pick_next a p = (p1, r)" by (simp add: pick_def)
    from pick_next_picked [OF this "1.prems"(1)] "1.prems"(2)
    have k: "picked a p p1 r" "tight a (held r) p1" by auto
    note k1 = k(1) [unfolded picked_def] and se = same_else_simps
    show ?thesis
    proof (cases r)
      case None
      with True pick k "1.prems" show ?thesis
        by (simp add: fill.simps [of a p] picked_def same_else_def)
    next
      case (Some i)
      have b: "books a [i] p1" "tight a [i] p1" "same_else p p1" "p_running p1 = p_running p"
        using k Some by (auto simp: picked_def)
      note st = start_books [OF b(1)]
      have "of_nat (p_running (start i p1)) < p_slots (start i p1) + 1"
        using True st(3) b(4) se [OF st(2)] se [OF b(3)] by simp
      from "1.IH" [OF True pick [symmetric] Some st(1) st(5) [OF b(2)] this]
      have ih: "books a [] (fill a (start i p1)) \<and> tight a [] (fill a (start i p1)) \<and> same_else (start i p1) (fill a (start i p1))
         \<and> of_nat (p_running (fill a (start i p1))) < p_slots (start i p1) + 1
         \<and> (of_nat (p_running (fill a (start i p1))) < p_slots (start i p1) \<longrightarrow> p_next (fill a (start i p1)) = length (a_items a))" .
      have "same_else p (start i p1)" using same_else_trans [OF b(3) st(2)] .
      moreover have "fill a p = fill a (start i p1)" using True pick Some by (simp add: fill.simps [of a p])
      ultimately show ?thesis using ih same_else_trans se [of p "start i p1"] by auto
    qed
  qed
qed

section \<open>Every reachable pool\<close>

definition pool_width :: "('a, 'k) pool_args \<Rightarrow> rat" where
  "pool_width a = max 1 (min (a_limit a) (of_nat (length (a_items a))))"

definition pool_cap :: "('a, 'k) pool_args \<Rightarrow> nat option" where
  "pool_cap a = map_option (\<lambda>(_, perKey). nat (max 1 \<lfloor>perKey\<rfloor>)) (a_keyed a)"

definition errors_of :: "(nat \<times> ('e + 'r)) list \<Rightarrow> 'e list" where
  "errors_of xs = concat (map (\<lambda>x. case snd x of Inl e \<Rightarrow> [e] | Inr _ \<Rightarrow> []) xs)"

lemma errors_of_simps [simp]:
  "errors_of [] = []" "errors_of (xs @ [(i, Inl e)]) = errors_of xs @ [e]" "errors_of (xs @ [(i, Inr r)]) = errors_of xs"
  by (simp_all add: errors_of_def)

text \<open>\<open>ending\<close> is what the promise must show.\<close>

definition outcome_ok :: "('a, 'k) pool_args \<Rightarrow> ('k, 'e, 'r) pool \<Rightarrow> bool" where
  "outcome_ok a p \<longleftrightarrow>
     (p_failed p \<longleftrightarrow> errors_of (p_ended p) \<noteq> [])
     \<and> p_outcome p = (if p_failed p then Rejected (hd (errors_of (p_ended p)))
                      else if p_running p = 0 then Resolved (p_results p) else Pending)"

definition widths_ok :: "('a, 'k) pool_args \<Rightarrow> ('k, 'e, 'r) pool \<Rightarrow> bool" where
  "widths_ok a p \<longleftrightarrow> p_cap p = pool_cap a \<and> of_nat (p_running p) < p_slots p + 1 \<and> p_slots p \<le> pool_width a
     \<and> (\<not> p_failed p \<longrightarrow> p_slots p = pool_width a \<and> tight a [] p
          \<and> (of_nat (p_running p) < p_slots p \<longrightarrow> p_next p = length (a_items a)))"

definition results_ok :: "('a, 'k) pool_args \<Rightarrow> ('k, 'e, 'r) pool \<Rightarrow> bool" where
  "results_ok a p \<longleftrightarrow> length (p_results p) = length (a_items a)
     \<and> (\<forall>i < length (a_items a). \<forall>v. p_results p ! i = Some v \<longleftrightarrow> (i, Inr v) \<in> set (p_ended p))"

definition pool_ok :: "('a, 'k) pool_args \<Rightarrow> ('k, 'e, 'r) pool \<Rightarrow> bool" where
  "pool_ok a p \<longleftrightarrow> books a [] p \<and> widths_ok a p \<and> results_ok a p \<and> outcome_ok a p"

lemma pool_width_pos: "1 \<le> pool_width a"
  by (simp add: pool_width_def)

lemma pool_cap_pos: "pool_cap a \<noteq> Some 0"
  by (auto simp: pool_cap_def)

text \<open>The place of an ended call given on, or given up.\<close>

lemma refill_keeps:
  assumes "books a [] q" "below_cap q k" "refill_or_shrink a k True q = q'"
    and t: "\<not> p_failed q \<Longrightarrow> (\<forall>k'. k' \<noteq> k \<longrightarrow> waiting_of q k' \<noteq> [] \<longrightarrow> p_cap q = Some (in_flight q k'))
        \<and> (waiting_of q k \<noteq> [] \<longrightarrow> p_cap q = Some (Suc (in_flight q k)))"
  shows "books a [] q' \<and> same_else q q' \<and> p_running q' \<le> Suc (p_running q)
     \<and> (p_running q' = Suc (p_running q) \<or> p_running q' = p_running q \<and> p_next q' = length (a_items a))
     \<and> (\<not> p_failed q \<longrightarrow> tight a [] q')
     \<and> (p_next q = length (a_items a) \<longrightarrow> p_next q' = length (a_items a))"
proof -
  obtain q1 r where pick: "pick a (Some k) q = (q1, r)" by fastforce
  have le: "p_next q1 \<le> length (a_items a)" if "books a h q1" for h using that by (auto simp: books_def placed_def)
  show ?thesis
  proof (cases "p_waiting q k")
    case (Some w)
    from pick_waiting [OF assms(1) Some pick assms(2)]
    have p: "r = Some (wq_idx w ! wq_head w)" "key_of a (wq_idx w ! wq_head w) = k" "books a [wq_idx w ! wq_head w] q1"
      "same_else q q1" "p_running q1 = p_running q" "p_next q1 = p_next q"
      "\<forall>k. in_flight q1 k = in_flight q k" "\<forall>k'. k' \<noteq> k \<longrightarrow> waiting_of q1 k' = waiting_of q k'" by auto
    note st = start_books [OF p(3)]
    have "wq_head w < length (wq_idx w)" using assms(1) Some by (simp add: books_def queues_live_def)
    then have wk: "waiting_of q k \<noteq> []" using Some by (simp add: waiting_of_def)
    have "tight a [wq_idx w ! wq_head w] q1" if "\<not> p_failed q"
      unfolding tight_def
    proof (intro allI impI)
      fix k' assume w': "waiting_of q1 k' \<noteq> []"
      show "p_cap q1 = Some (in_flight q1 k' + of_key a k' [wq_idx w ! wq_head w])"
      proof (cases "k' = k")
        case True
        with t [OF that] wk p(2,7) same_else_simps [OF p(4)] show ?thesis by simp
      next
        case False
        with w' t [OF that] p(2,7,8) same_else_simps [OF p(4)] show ?thesis by simp
      qed
    qed
    then show ?thesis
      using assms(3) pick p st same_else_trans [OF p(4) st(2)] by (auto simp: refill_or_shrink_def)
  next
    case None
    with pick have "pick_next a q = (q1, r)" by (simp add: pick_def)
    from pick_next_picked [OF this assms(1)]
    have k: "picked a q q1 r" "tight a [] q \<Longrightarrow> tight a (held r) q1" by auto
    have "waiting_of q k = []" using None by (simp add: waiting_of_def)
    with t have tq: "\<not> p_failed q \<Longrightarrow> tight a [] q" by (auto simp: tight_def)
    show ?thesis
    proof (cases r)
      case None
      with assms(3) pick k tq show ?thesis by (auto simp: refill_or_shrink_def picked_def)
    next
      case (Some i)
      then have b: "books a [i] q1" "same_else q q1" "p_running q1 = p_running q" "p_next q \<le> p_next q1"
        and tt: "\<not> p_failed q \<Longrightarrow> tight a [i] q1" using k tq by (auto simp: picked_def)
      note st = start_books [OF b(1)]
      show ?thesis
        using assms(3) pick b tt Some st same_else_trans [OF b(2) st(2)] le [OF b(1)]
        by (auto simp: refill_or_shrink_def)
    qed
  qed
qed

lemma call_done_eq:
  assumes "0 < in_flight p k"
  shows "call_done a k refill p =
    (let p1 = p\<lparr>p_running := p_running p - 1,
                p_inFlight := (p_inFlight p)(k := if in_flight p k \<le> 1 then None else Some (in_flight p k - 1))\<rparr>;
         p2 = refill_or_shrink a k refill p1
     in if p_running p2 = 0 \<and> \<not> p_failed p2
        then if p_next p2 < length (a_items a) \<or> 0 < p_waitingCount p2 then fill a p2
             else p2\<lparr>p_outcome := Resolved (p_results p2)\<rparr>
        else p2)"
proof -
  obtain m where m: "p_inFlight p k = Some m" "0 < m" using assms by (auto simp: in_flight_def split: option.splits)
  then have eq: "(p_inFlight p)(k := if m - 1 = 0 then None else Some (m - 1))
    = (p_inFlight p)(k := if in_flight p k \<le> 1 then None else Some (in_flight p k - 1))"
    by (auto simp: in_flight_def)
  show ?thesis unfolding call_done_def Let_def m(1) option.case by (simp only: eq)
qed

lemma books_outcome [simp]: "books a h (p\<lparr>p_outcome := x\<rparr>) = books a h p"
  by (simp add: books_def placed_def counted_def queues_live_def waiting_of_def in_flight_def flight_def)

lemma tight_outcome [simp]: "tight a h (p\<lparr>p_outcome := x\<rparr>) = tight a h p"
  by (simp add: tight_def waiting_of_def in_flight_def)

lemma widths_outcome [simp]: "widths_ok a (p\<lparr>p_outcome := x\<rparr>) = widths_ok a p"
  by (simp add: widths_ok_def)

lemma results_outcome [simp]: "results_ok a (p\<lparr>p_outcome := x\<rparr>) = results_ok a p"
  by (simp add: results_ok_def)

lemma settle_key: "pool_ok a p \<Longrightarrow> i \<in> set (flight p) \<Longrightarrow> p_keys p i = Some (key_of a i) \<and> i < length (a_items a)"
proof -
  assume ok: "pool_ok a p" and i: "i \<in> set (flight p)"
  note d = placedD [of a "[]" p, OF ok [unfolded pool_ok_def books_def, THEN conjunct1, THEN conjunct1]]
  have "i \<in> set (p_started p)" using i by (simp add: flight_def)
  then have n: "i < p_next p" using d(4) [of i] by blast
  from d(3) [OF n] less_le_trans [OF n d(1)] show ?thesis by blast
qed

lemma results_put:
  assumes "results_ok a p" "i < length (a_items a)" "i \<notin> fst ` set (p_ended p)"
    and "p_results q = (p_results p)[i := Some r]" "p_ended q = p_ended p @ [(i, Inr r)]"
  shows "results_ok a q"
  unfolding results_ok_def
proof (intro conjI allI impI)
  have l: "length (p_results p) = length (a_items a)" using assms(1) by (simp add: results_ok_def)
  show "length (p_results q) = length (a_items a)" using l assms(4) by simp
  fix j v assume j: "j < length (a_items a)"
  show "p_results q ! j = Some v \<longleftrightarrow> (j, Inr v) \<in> set (p_ended q)"
  proof (cases "j = i")
    case True
    then have "(i, Inr v) \<notin> set (p_ended p)" using assms(3) by force
    with True l assms(2,4,5) show ?thesis by auto
  next
    case False
    with j assms(1,4,5) show ?thesis by (simp add: results_ok_def)
  qed
qed

lemma settle_answered:
  assumes ok: "pool_ok a p" and i: "i \<in> set (flight p)"
  shows "pool_ok a (settle a i (Inr r) p)"
proof -
  have b: "books a [] p" and wd: "widths_ok a p" and rs: "results_ok a p" and oc: "outcome_ok a p"
    using ok by (auto simp: pool_ok_def)
  let ?k = "key_of a i"
  define q where "q = p\<lparr>p_ended := p_ended p @ [(i, Inr r)], p_results := (p_results p)[i := Some r], p_running := p_running p - 1,
     p_inFlight := (p_inFlight p)(?k := if in_flight p ?k \<le> 1 then None else Some (in_flight p ?k - 1))\<rparr>"
  have le: "one_less ?k (i, Inr r) p q" by (simp add: one_less_def q_def in_flight_def)
  note o = one_less_books [OF le b i]
  have qe: "p_failed q = p_failed p" "p_slots q = p_slots p" "p_cap q = p_cap p" "p_running q = p_running p - 1"
    "p_next q = p_next p" "p_outcome q = p_outcome p" "p_ended q = p_ended p @ [(i, Inr r)]" "p_results q = (p_results p)[i := Some r]"
    by (simp_all add: q_def)
  define q' where "q' = refill_or_shrink a ?k True q"
  have cap: "p_cap p = Some c \<Longrightarrow> in_flight p k \<le> c" for k c using countedD(5) [of a "[]" p c k] b by (simp add: books_def)
  have bc: "below_cap q ?k"
    using o(3) [of ?k] o(4) cap [of _ ?k] by (fastforce simp: below_cap_def qe split: option.splits)
  have tg: "(\<forall>k'. k' \<noteq> ?k \<longrightarrow> waiting_of q k' \<noteq> [] \<longrightarrow> p_cap q = Some (in_flight q k'))
        \<and> (waiting_of q ?k \<noteq> [] \<longrightarrow> p_cap q = Some (Suc (in_flight q ?k)))" if "\<not> p_failed q"
  proof -
    have w: "waiting_of p x \<noteq> [] \<Longrightarrow> p_cap p = Some (in_flight p x)" for x
    proof -
      assume "waiting_of p x \<noteq> []"
      moreover have "tight a [] p" using that wd qe(1) by (simp add: widths_ok_def)
      ultimately have "p_cap p = Some (in_flight p x + of_key a x [])" unfolding tight_def by blast
      then show ?thesis by simp
    qed
    have "waiting_of q k' \<noteq> [] \<Longrightarrow> p_cap q = Some (in_flight q k')" if "k' \<noteq> ?k" for k'
      using w [of k'] o(3) [of k'] that by (simp add: o(2) qe(3))
    moreover have "waiting_of q ?k \<noteq> [] \<Longrightarrow> p_cap q = Some (Suc (in_flight q ?k))"
      using w [of ?k] o(3) [of ?k] o(4) by (simp add: o(2) qe(3))
    ultimately show ?thesis by blast
  qed
  have rk: "books a [] q' \<and> same_else q q' \<and> p_running q' \<le> Suc (p_running q)
     \<and> (p_running q' = Suc (p_running q) \<or> p_running q' = p_running q \<and> p_next q' = length (a_items a))
     \<and> (\<not> p_failed q \<longrightarrow> tight a [] q')
     \<and> (p_next q = length (a_items a) \<longrightarrow> p_next q' = length (a_items a))"
    by (rule refill_keeps [OF o(1) bc q'_def [symmetric] tg])
  note se = same_else_simps [OF rk [THEN conjunct2, THEN conjunct1]]
  have run: "p_running q' \<le> p_running p" using rk o(5) qe(4) by auto
  then have "of_nat (p_running q') \<le> (of_nat (p_running p) :: rat)" by (rule of_nat_mono)
  moreover have "of_nat (p_running p) < p_slots p + 1" using wd by (simp add: widths_ok_def)
  ultimately have "of_nat (p_running q') < p_slots p + 1" by (rule le_less_trans)
  moreover have "p_next q' = length (a_items a)" if "\<not> p_failed p" "of_nat (p_running q') < p_slots p"
  proof (cases "p_running q' = p_running p")
    case True
    with that wd have "p_next p = length (a_items a)" by (simp add: widths_ok_def)
    with rk qe(5) show ?thesis by simp
  next
    case False
    with rk qe(4) o(5) show ?thesis by auto
  qed
  ultimately have wd': "widths_ok a q'" using wd se rk qe unfolding widths_ok_def by auto
  have rs': "results_ok a q'"
    using results_put [where q = q' and i = i and r = r, OF rs] settle_key [OF ok i] i se qe by (auto simp: flight_def)
  have sd: "settle a i (Inr r) p =
      (if p_running q' = 0 \<and> \<not> p_failed q'
       then if p_next q' < length (a_items a) \<or> 0 < p_waitingCount q' then fill a q'
            else q'\<lparr>p_outcome := Resolved (p_results q')\<rparr>
       else q')"
    using settle_key [OF ok i] o(4)
    by (simp add: settle_def call_done_eq in_flight_def Let_def q'_def q_def)
  show ?thesis
  proof (cases "p_running q' = 0 \<and> \<not> p_failed q'")
    case False
    have "outcome_ok a q'"
      using oc se qe False o(5) by (auto simp: outcome_ok_def)
    moreover have "settle a i (Inr r) p = q'" unfolding sd by (simp only: False if_False)
    ultimately show ?thesis using rk wd' rs' by (simp add: pool_ok_def)
  next
    case True
    have "of_nat (p_running q') < p_slots q'" using True wd' pool_width_pos [of a] by (simp add: widths_ok_def)
    with wd' True have "p_next q' = length (a_items a)" "tight a [] q'" by (auto simp: widths_ok_def)
    moreover have "p_cap q' = Some 0 \<longrightarrow> False" using wd' pool_cap_pos [of a] by (simp add: widths_ok_def)
    ultimately have "settle a i (Inr r) p = q'\<lparr>p_outcome := Resolved (p_results q')\<rparr>"
      using sd True all_started(2) [of a q'] rk by simp
    moreover have "outcome_ok a (q'\<lparr>p_outcome := Resolved (p_results q')\<rparr>)"
      using oc se qe True by (auto simp: outcome_ok_def)
    ultimately show ?thesis
      using rk wd' rs' by (simp add: pool_ok_def)
  qed
qed

lemma settle_refused:
  assumes ok: "pool_ok a p" and i: "i \<in> set (flight p)"
  shows "pool_ok a (settle a i (Inl e) p)"
proof -
  have b: "books a [] p" and wd: "widths_ok a p" and rs: "results_ok a p" and oc: "outcome_ok a p"
    using ok by (auto simp: pool_ok_def)
  let ?k = "key_of a i"
  define q where "q = p\<lparr>p_ended := p_ended p @ [(i, Inl e)], p_failed := True,
     p_outcome := (if p_failed p then p_outcome p else Rejected e), p_running := p_running p - 1,
     p_inFlight := (p_inFlight p)(?k := if in_flight p ?k \<le> 1 then None else Some (in_flight p ?k - 1)),
     p_slots := p_slots p - 1\<rparr>"
  have le: "one_less ?k (i, Inl e) p q" by (simp add: one_less_def q_def in_flight_def)
  note o = one_less_books [OF le b i]
  have "settle a i (Inl e) p = q"
    using settle_key [OF ok i] o(4)
    by (auto simp: settle_def call_done_eq in_flight_def Let_def q_def refill_or_shrink_def)
  moreover have "widths_ok a q"
    using wd o(5) by (auto simp: widths_ok_def q_def of_nat_diff)
  moreover have "results_ok a q" using rs by (auto simp: results_ok_def q_def)
  moreover have "outcome_ok a q" using oc by (auto simp: outcome_ok_def q_def hd_append)
  ultimately show ?thesis using o(1) by (simp add: pool_ok_def)
qed

lemma run_pool_ok:
  fixes a :: "('a, 'k) pool_args"
  shows "pool_ok a (run_pool a :: ('k, 'e, 'r) pool)"
proof -
  define p :: "('k, 'e, 'r) pool" where "p = \<lparr>p_results = replicate (length (a_items a)) None, p_slots = pool_width a, p_cap = pool_cap a,
     p_inFlight = Map.empty, p_waiting = Map.empty, p_keys = Map.empty, p_next = 0, p_running = 0, p_waitingCount = 0,
     p_failed = False, p_outcome = (Pending :: ('e, 'r) pool_outcome), p_started = [], p_ended = ([] :: (nat \<times> ('e + 'r)) list)\<rparr>"
  have z: "waiting_of p = (\<lambda>_. [])" "in_flight p = (\<lambda>_. 0)" "flight p = []" "queues_live p"
    by (simp_all add: p_def waiting_of_def in_flight_def flight_def queues_live_def fun_eq_iff)
  have b: "books a [] p" using z(4) unfolding books_def placed_def counted_def z by (simp add: p_def)
  have t: "tight a [] p" by (simp add: tight_def z)
  have w: "of_nat (p_running p) < p_slots p + 1" using pool_width_pos [of a] by (simp add: p_def)
  have run: "run_pool a = (if length (a_items a) = 0 then p\<lparr>p_outcome := Resolved []\<rparr> else fill a p)"
    by (simp add: run_pool_def p_def pool_width_def pool_cap_def Let_def)
  show ?thesis
  proof (cases "a_items a = []")
    case True
    have fs: "p_cap p = pool_cap a" "p_slots p = pool_width a" "p_next p = 0" "p_results p = replicate (length (a_items a)) None"
      "\<not> p_failed p" "p_ended p = []" "p_running p = 0" by (simp_all add: p_def)
    have "widths_ok a p" "results_ok a p" using True t w by (simp_all add: widths_ok_def results_ok_def fs)
    then show ?thesis
      using b True by (simp add: run pool_ok_def outcome_ok_def fs)
  next
    case False
    note f = fill_books [OF b t w]
    note se = same_else_simps [OF f [THEN conjunct2, THEN conjunct2, THEN conjunct1]]
    let ?f = "fill a p"
    have sl: "p_slots ?f = pool_width a" "p_cap ?f = pool_cap a" "\<not> p_failed ?f" "p_ended ?f = []"
      "p_results ?f = replicate (length (a_items a)) None" "p_outcome ?f = Pending"
      using se by (simp_all add: p_def)
    have "p_running ?f \<noteq> 0"
    proof
      assume 0: "p_running ?f = 0"
      then have n: "p_next ?f = length (a_items a)" using f pool_width_pos [of a] by (simp add: p_def)
      have "p_cap ?f = Some 0 \<longrightarrow> False" using sl(2) pool_cap_pos [of a] by simp
      from all_started(1) [of a ?f, OF _ _ 0 this] f n have "set (p_started ?f) = {..<length (a_items a)}" by simp
      moreover have "flight ?f = []" using f 0 countedD(3) [of a "[]" ?f] by (simp add: books_def)
      ultimately show False using sl(4) False by (auto simp: flight_def)
    qed
    moreover have "widths_ok a ?f" using f sl by (simp add: widths_ok_def p_def)
    moreover have "results_ok a ?f" using sl by (simp add: results_ok_def)
    ultimately have "pool_ok a ?f" using f sl by (simp add: pool_ok_def outcome_ok_def)
    with False show ?thesis by (simp add: run)
  qed
qed

lemma pool_reaches_ok:
  assumes "pool_reaches a p"
  shows "pool_ok a p"
  using assms unfolding pool_reaches_def
proof (induction rule: rtranclp_induct)
  case base
  show ?case by (rule run_pool_ok)
next
  case (step q q')
  from step.hyps(2) obtain i ans where i: "i \<in> set (flight q)" "q' = settle a i ans q" by cases auto
  with settle_answered [OF step.IH] settle_refused [OF step.IH] show ?case by (cases ans) auto
qed

section \<open>Properties\<close>

lemma flight_count: "pool_ok a p \<Longrightarrow> p_running p = length (flight p)"
  by (simp add: pool_ok_def books_def counted_def)

text \<open>
  Whatever the order in which calls end, and whichever fail, the pool never has more calls in
  flight than its limit, nor more calls of one key than the cap of a key, and calls no item twice.
\<close>

theorem pool_within_limits:
  assumes "pool_reaches a p"
  shows "of_nat (length (flight p)) < pool_width a + 1 \<and> distinct (p_started p)
     \<and> (case a_keyed a of None \<Rightarrow> True
        | Some (f, perKey) \<Rightarrow> length (filter (\<lambda>i. f (a_items a ! i) = k) (flight p)) \<le> nat (max 1 \<lfloor>perKey\<rfloor>))"
proof -
  have ok: "pool_ok a p" by (rule pool_reaches_ok [OF assms])
  have w: "of_nat (p_running p) < p_slots p + 1" "p_slots p \<le> pool_width a" "p_cap p = pool_cap a"
    using ok by (auto simp: pool_ok_def widths_ok_def)
  have c: "counted a [] p" and pl: "placed a [] p" using ok by (auto simp: pool_ok_def books_def)
  from w have "of_nat (p_running p) < pool_width a + 1" by linarith
  moreover have "length (filter (\<lambda>i. f (a_items a ! i) = k) (flight p)) \<le> nat (max 1 \<lfloor>perKey\<rfloor>)"
    if "a_keyed a = Some (f, perKey)" for f perKey
  proof -
    have "length (filter (\<lambda>i. f (a_items a ! i) = k) (flight p)) = of_key a (Some k) (flight p)"
      using that by (simp add: key_of_def)
    then show ?thesis
      using countedD(4) [OF c, of "Some k"] countedD(5) [OF c, of _ "Some k"] w(3) that by (simp add: pool_cap_def)
  qed
  ultimately show ?thesis using flight_count [OF ok] placedD(2) [OF pl] by (auto split: option.split)
qed

lemma pool_answers_aux:
  assumes "pool_reaches a p"
  shows "p_outcome p = (case errors_of (p_ended p) of
           e # _ \<Rightarrow> Rejected e
         | [] \<Rightarrow> if flight p \<noteq> [] then Pending
               else Resolved (map (\<lambda>i. Some (projr (the (map_of (p_ended p) i)))) [0..<length (a_items a)]))
     \<and> (flight p \<noteq> [] \<or> errors_of (p_ended p) \<noteq> [] \<or> mset (map fst (p_ended p)) = mset [0..<length (a_items a)])"
proof -
  have ok: "pool_ok a p" by (rule pool_reaches_ok [OF assms])
  then have oc: "outcome_ok a p" and wd: "widths_ok a p" and rs: "results_ok a p" and b: "books a [] p"
    by (auto simp: pool_ok_def)
  have c: "counted a [] p" using b by (simp add: books_def)
  show ?thesis
  proof (cases "errors_of (p_ended p) = [] \<and> flight p = []")
    case False
    then show ?thesis using oc countedD(3) [OF c] by (auto simp: outcome_ok_def split: list.splits)
  next
    case True
    then have 0: "p_running p = 0" "\<not> p_failed p" using countedD(3) [OF c] oc by (auto simp: outcome_ok_def)
    have "p_next p = length (a_items a)" "tight a [] p"
      using wd 0 pool_width_pos [of a] by (auto simp: widths_ok_def)
    moreover have "p_cap p = Some 0 \<longrightarrow> False" using wd pool_cap_pos [of a] by (simp add: widths_ok_def)
    ultimately have st: "set (p_started p) = {..<length (a_items a)}" using all_started(1) [OF b _ 0(1)] by simp
    have "set (p_started p) \<subseteq> fst ` set (p_ended p)" using True by (auto simp: flight_def filter_empty_conv)
    with countedD(2) [OF c] st have e: "fst ` set (p_ended p) = {..<length (a_items a)}" by auto
    then have m: "mset (map fst (p_ended p)) = mset [0..<length (a_items a)]"
      using countedD(1) [OF c] by (intro set_eq_iff_mset_eq_distinct [THEN iffD1]) auto
    have r: "p_results p ! i = Some (projr (the (map_of (p_ended p) i)))" if i: "i < length (a_items a)" for i
    proof -
      obtain x where x: "(i, x) \<in> set (p_ended p)"
        using e i by (metis imageE lessThan_iff prod.collapse)
      have "x \<noteq> Inl err" for err
      proof
        assume "x = Inl err"
        with x have "err \<in> set (errors_of (p_ended p))" by (force simp: errors_of_def)
        with True show False by simp
      qed
      then obtain v where v: "x = Inr v" by (cases x) auto
      with x i rs have "p_results p ! i = Some v" by (simp add: results_ok_def)
      moreover have "map_of (p_ended p) i = Some (Inr v)" using x v countedD(1) [OF c] by simp
      ultimately show ?thesis by simp
    qed
    have "p_results p = map (\<lambda>i. Some (projr (the (map_of (p_ended p) i)))) [0..<length (a_items a)]"
      using rs r by (intro nth_equalityI) (auto simp: results_ok_def)
    with True 0 oc m show ?thesis by (simp add: outcome_ok_def)
  qed
qed

text \<open>
  Property C26: the pool answers.  While no call has failed and one is in flight it waits; it rejects with
  the first error; and with nothing in flight and no error every item was called and answered once, and
  the answers are those of the items in the order of the list, whatever the order they came in.
\<close>

theorem pool_answers:
  assumes "pool_reaches a p"
  shows "p_outcome p = (case errors_of (p_ended p) of
           e # _ \<Rightarrow> Rejected e
         | [] \<Rightarrow> if flight p \<noteq> [] then Pending
               else Resolved (map (\<lambda>i. Some (projr (the (map_of (p_ended p) i)))) [0..<length (a_items a)]))
     \<and> (flight p \<noteq> [] \<or> errors_of (p_ended p) \<noteq> [] \<or> mset (map fst (p_ended p)) = mset [0..<length (a_items a)])"
  by (rule pool_answers_aux [OF assms])

text \<open>
  No slot stands idle, and no item that waits for its key holds one.  While no call has
  failed, an item not called yet is kept waiting by the limit of the pool, all its slots in use, or by its
  own key, which has as many calls in flight as its cap.
\<close>

theorem pool_never_idles:
  assumes "pool_reaches a p" "errors_of (p_ended p) = []" "i < length (a_items a)" "i \<notin> set (p_started p)"
  shows "pool_width a \<le> of_nat (length (flight p))
     \<or> (\<exists>f perKey. a_keyed a = Some (f, perKey)
          \<and> length (filter (\<lambda>j. f (a_items a ! j) = f (a_items a ! i)) (flight p)) = nat (max 1 \<lfloor>perKey\<rfloor>))"
proof (cases "pool_width a \<le> of_nat (length (flight p))")
  case False
  have ok: "pool_ok a p" by (rule pool_reaches_ok [OF assms(1)])
  then have oc: "outcome_ok a p" and wd: "widths_ok a p" and b: "books a [] p"
    by (auto simp: pool_ok_def)
  have c: "counted a [] p" and pl: "placed a [] p" using b by (auto simp: books_def)
  have nf: "\<not> p_failed p" using oc assms(2) by (simp add: outcome_ok_def)
  with False wd countedD(3) [OF c] have "p_next p = length (a_items a)" "tight a [] p" by (auto simp: widths_ok_def)
  moreover from this placedD(4) [OF pl, of i] assms(3,4) have "waiting_of p (key_of a i) \<noteq> []" by auto
  ultimately have "p_cap p = Some (in_flight p (key_of a i) + of_key a (key_of a i) [])" unfolding tight_def by blast
  then have "p_cap p = Some (in_flight p (key_of a i))" by simp
  moreover have "p_cap p = pool_cap a" using wd by (simp add: widths_ok_def)
  ultimately have "pool_cap a = Some (of_key a (key_of a i) (flight p))" using countedD(4) [OF c] by simp
  then show ?thesis by (auto simp: pool_cap_def key_of_def)
qed simp

text \<open>Only a settling call adds an answer, and it adds one.\<close>

lemma pick_next_ended: "pick_next a p = (q, r) \<Longrightarrow> p_ended q = p_ended p"
proof (induction a p arbitrary: q r rule: pick_next.induct)
  case (1 a p)
  from "1.prems" show ?case
  proof (cases rule: pick_next_cases)
    case waits
    from "1.IH" [OF waits(1) refl refl refl waits(2,3) [unfolded reach_next_def]] show ?thesis by simp
  qed simp_all
qed

lemma pick_ended: "pick a freed p = (q, r) \<Longrightarrow> p_ended q = p_ended p"
  by (auto simp: pick_def Let_def pick_next_ended split: option.splits if_splits)

lemma fill_ended: "p_ended (fill a p) = p_ended p"
proof (induction a p rule: fill.induct)
  case (1 a p)
  obtain p1 r where pick: "pick a None p = (p1, r)" by fastforce
  show ?case
  proof (cases "of_nat (p_running p) < p_slots p \<and> r \<noteq> None")
    case True
    then obtain i where i: "r = Some i" by auto
    with "1.IH" [OF _ pick [symmetric] i] True pick pick_ended [OF pick] show ?thesis
      by (simp add: fill.simps [of a p] start_def Let_def)
  next
    case False
    with pick pick_ended [OF pick] show ?thesis by (auto simp: fill.simps [of a p])
  qed
qed

lemma refill_ended [simp]: "p_ended (refill_or_shrink a k b q) = p_ended q"
  by (auto simp: refill_or_shrink_def start_def Let_def dest: pick_ended split: prod.splits option.splits)

lemma call_done_ended [simp]: "p_ended (call_done a k b q) = p_ended q"
  by (simp add: call_done_def Let_def fill_ended)

lemma settle_ended: "p_ended (settle a i ans p) = p_ended p @ [(i, ans)]"
  by (simp add: settle_def Let_def split: sum.split)

text \<open>
  The pool ends.  However its calls end, it makes at most one step per item of its list, and
  exactly one per item when none fails and none is left in flight.
\<close>

theorem pool_ends:
  assumes "(pool_step a ^^ m) (run_pool a) p"
  shows "m \<le> length (a_items a) \<and> (flight p \<noteq> [] \<or> errors_of (p_ended p) \<noteq> [] \<or> m = length (a_items a))"
proof -
  have n: "(pool_step a ^^ m) (run_pool a) p \<Longrightarrow> length (p_ended p) = m" for m p
  proof (induction m arbitrary: p)
    case 0
    then show ?case by (auto simp: run_pool_def Let_def fill_ended split: if_splits)
  next
    case (Suc m)
    then obtain q where q: "(pool_step a ^^ m) (run_pool a) q" "pool_step a q p" by auto
    from q(2) have "length (p_ended p) = Suc (length (p_ended q))" by cases (simp add: settle_ended)
    with Suc.IH [OF q(1)] show ?case by simp
  qed
  have ok: "pool_reaches a p"
    unfolding pool_reaches_def using assms by (rule relpowp_imp_rtranclp)
  have b: "books a [] p" using pool_reaches_ok [OF ok] by (simp add: pool_ok_def)
  have "set (map fst (p_ended p)) \<subseteq> {..<length (a_items a)}"
  proof
    fix i assume "i \<in> set (map fst (p_ended p))"
    then have "i \<in> set (p_started p)" using b by (auto simp: books_def counted_def)
    with placedD(1,4) [of a "[]" p] b show "i \<in> {..<length (a_items a)}"
      by (metis books_def lessThan_iff less_le_trans)
  qed
  from card_mono [OF finite_lessThan this] have "length (p_ended p) \<le> length (a_items a)"
    using b distinct_card [of "map fst (p_ended p)"] by (simp add: books_def counted_def)
  moreover have "m = length (a_items a)" if "flight p = []" "errors_of (p_ended p) = []"
  proof -
    have "mset (map fst (p_ended p)) = mset [0..<length (a_items a)]"
      using pool_answers_aux [OF ok] that by blast
    then have "length (p_ended p) = length (a_items a)" by (metis length_map length_upt mset_eq_length minus_nat.diff_0)
    with n [OF assms] show ?thesis by simp
  qed
  ultimately show ?thesis using n [OF assms] by blast
qed

section \<open>Concrete runs\<close>

text \<open>Five items under three keys, two calls at a time and one per key; the second call to end fails.\<close>

definition demo_args :: "(nat, nat) pool_args" where
  "demo_args = \<lparr>a_items = [10, 10, 11, 10, 12], a_limit = 2, a_keyed = Some (\<lambda>x. x, 1)\<rparr>"

definition demo_pool :: "(nat, string, nat) pool" where
  "demo_pool = settle demo_args 0 (Inr 5) (run_pool demo_args)"

definition demo_end :: "(nat, string, nat) pool" where
  "demo_end = settle demo_args 4 (Inr 9) (settle demo_args 3 (Inr 8) (settle demo_args 2 (Inr 7) (settle demo_args 1 (Inr 6) demo_pool)))"

lemma demo_steps: "(pool_step demo_args ^^ 1) (run_pool demo_args) demo_pool"
proof -
  have "0 \<in> set (flight (run_pool demo_args :: (nat, string, nat) pool))" by code_simp
  from pool_step.settles [where a = demo_args and answer = "Inr 5", OF this] show ?thesis by (simp add: demo_pool_def eq_OO)
qed

lemma demo_end_steps: "(pool_step demo_args ^^ 5) (run_pool demo_args) demo_end"
proof -
  let ?s = "\<lambda>i r q. settle demo_args i (Inr r) q :: (nat, string, nat) pool"
  have "1 \<in> set (flight demo_pool)" "2 \<in> set (flight (?s 1 6 demo_pool))"
    "3 \<in> set (flight (?s 2 7 (?s 1 6 demo_pool)))" "4 \<in> set (flight (?s 3 8 (?s 2 7 (?s 1 6 demo_pool))))"
    by code_simp+
  note f = this [THEN pool_step.settles [where a = demo_args]]
  have "(pool_step demo_args ^^ Suc (Suc (Suc (Suc 1)))) (run_pool demo_args) demo_end"
    unfolding demo_end_def
    by (intro relpowp_Suc_I [OF relpowp_Suc_I [OF relpowp_Suc_I [OF relpowp_Suc_I [OF demo_steps f(1)] f(2)] f(3)] f(4)])
  then show ?thesis by (simp add: eval_nat_numeral)
qed

lemma demo_reaches: "pool_reaches demo_args demo_pool" "pool_reaches demo_args demo_end"
  unfolding pool_reaches_def by (rule relpowp_imp_rtranclp [OF demo_steps], rule relpowp_imp_rtranclp [OF demo_end_steps])

lemma pool_within_limits_witness: "length (filter (\<lambda>i. a_items demo_args ! i = 10) (flight demo_pool)) \<le> 1 \<and> length (flight demo_pool) = 2"
proof -
  have "length (flight demo_pool) = 2" by code_simp
  then show ?thesis using pool_within_limits [OF demo_reaches(1), of 10] by (simp add: demo_args_def)
qed

lemma pool_answers_witness: "p_outcome demo_end = Resolved [Some 5, Some 6, Some 7, Some 8, Some 9]"
proof -
  have "flight demo_end = []" "errors_of (p_ended demo_end) = []"
    "map (\<lambda>i. Some (projr (the (map_of (p_ended demo_end) i)))) [0..<length (a_items demo_args)] = [Some 5, Some 6, Some 7, Some 8, Some 9]"
    by code_simp+
  with pool_answers [OF demo_reaches(2)] show ?thesis by simp
qed

lemma pool_never_idles_witness: "pool_width demo_args \<le> of_nat (length (flight demo_pool))
  \<or> length (filter (\<lambda>j. a_items demo_args ! j = 10) (flight demo_pool)) = 1"
proof -
  have "errors_of (p_ended demo_pool) = []" "3 < length (a_items demo_args)" "3 \<notin> set (p_started demo_pool)"
    by code_simp+
  from pool_never_idles [OF demo_reaches(1) this] show ?thesis by (auto simp: demo_args_def)
qed

lemma pool_ends_witness: "(5::nat) \<le> length (a_items demo_args)"
  using pool_ends [OF demo_end_steps] by simp

end
