(* ===== verification/Work_Lanes.thy ===== *)
theory Work_Lanes
  imports Js_Object
begin

text \<open>
  Two ways to hold work back by key.  \<open>util/keyed-limiter.ts\<close>: at most \<open>concurrency\<close> things running for a
  key, a bounded queue behind them, a refusal past it.  \<open>util/keyed-lock.ts\<close>: one at a time for a key, in
  the order asked.  Lanes and promises are objects with an identity, so both are modelled on a store of
  their own; the steps are the calls and the moments at which something awaited ends, in any order.
\<close>

section \<open>The limiter\<close>

datatype admission = Started | Queued | Refused

datatype limiter_error = Bad_concurrency | Bad_bound

record 't lane =
  la_running :: nat
  la_queue :: "'t list"

text \<open>
  \<open>lm_lanes\<close> maps a key to its lane, \<open>lm_heap\<close> holds the lanes and \<open>lm_new\<close> is the next one made.
  \<open>lm_runs\<close> lists what is running with the key and the lane its end will close over; \<open>lm_log\<close> every call
  of \<open>run\<close>, for the statements.
\<close>

record ('k, 't) limiter =
  lm_concurrency :: nat
  lm_bound :: nat
  lm_lanes :: "('k, nat) es_map"
  lm_heap :: "nat \<Rightarrow> 't lane"
  lm_new :: nat
  lm_closed :: bool
  lm_runs :: "('k \<times> nat \<times> 't) list"
  lm_log :: "('k \<times> 't) list"

definition keyed_limiter :: "int \<Rightarrow> int \<Rightarrow> limiter_error + ('k, 't) limiter" where
  "keyed_limiter concurrency bound =
     (if concurrency < 1 then Inl Bad_concurrency
      else if bound < concurrency then Inl Bad_bound
      else Inr \<lparr>lm_concurrency = nat concurrency, lm_bound = nat bound, lm_lanes = [],
                lm_heap = (\<lambda>_. \<lparr>la_running = 0, la_queue = []\<rparr>), lm_new = 0, lm_closed = False, lm_runs = [], lm_log = []\<rparr>)"

definition start_item :: "'k \<Rightarrow> nat \<Rightarrow> 't \<Rightarrow> ('k, 't) limiter \<Rightarrow> ('k, 't) limiter" where
  "start_item key l item s =
     s\<lparr>lm_heap := (lm_heap s)(l := (lm_heap s l)\<lparr>la_running := Suc (la_running (lm_heap s l))\<rparr>),
       lm_runs := lm_runs s @ [(key, l, item)], lm_log := lm_log s @ [(key, item)]\<rparr>"

text \<open>The lane of a key, made when there is none.\<close>

definition lane_for :: "'k \<Rightarrow> ('k, 't) limiter \<Rightarrow> ('k, 't) limiter \<times> nat" where
  "lane_for key s =
     (case map_of (lm_lanes s) key of
        Some l \<Rightarrow> (s, l)
      | None \<Rightarrow>
          (s\<lparr>lm_lanes := map_put key (lm_new s) (lm_lanes s),
             lm_heap := (lm_heap s)(lm_new s := \<lparr>la_running = 0, la_queue = []\<rparr>), lm_new := Suc (lm_new s)\<rparr>, lm_new s))"

definition submit :: "'k \<Rightarrow> 't \<Rightarrow> ('k, 't) limiter \<Rightarrow> ('k, 't) limiter \<times> admission" where
  "submit key item s =
     (if lm_closed s then (s, Refused)
      else case lane_for key s of (s1, l) \<Rightarrow>
        let lane = lm_heap s1 l
        in if lm_bound s1 \<le> la_running lane + length (la_queue lane) then (s1, Refused)
           else if la_running lane < lm_concurrency s1 then (start_item key l item s1, Started)
           else (s1\<lparr>lm_heap := (lm_heap s1)(l := lane\<lparr>la_queue := la_queue lane @ [item]\<rparr>)\<rparr>, Queued))"

text \<open>What is run when the promise of an item settles, whichever way.\<close>

definition item_ended :: "'k \<Rightarrow> nat \<Rightarrow> ('k, 't) limiter \<Rightarrow> ('k, 't) limiter" where
  "item_ended key l s =
     (let lane = (lm_heap s l)\<lparr>la_running := la_running (lm_heap s l) - 1\<rparr>
      in case la_queue lane of
           nxt # rest \<Rightarrow> start_item key l nxt (s\<lparr>lm_heap := (lm_heap s)(l := lane\<lparr>la_queue := rest\<rparr>)\<rparr>)
         | [] \<Rightarrow>
             let s1 = s\<lparr>lm_heap := (lm_heap s)(l := lane)\<rparr>
             in if la_running lane = 0 \<and> map_of (lm_lanes s) key = Some l
                then s1\<lparr>lm_lanes := map_del key (lm_lanes s)\<rparr> else s1)"

definition close_limiter :: "('k, 't) limiter \<Rightarrow> ('k, 't) limiter \<times> 't list" where
  "close_limiter s =
     (s\<lparr>lm_closed := True,
        lm_heap := (\<lambda>l. if l \<in> snd ` set (lm_lanes s) then (lm_heap s l)\<lparr>la_queue := []\<rparr> else lm_heap s l)\<rparr>,
      concat (map (\<lambda>e. la_queue (lm_heap s (snd e))) (lm_lanes s)))"

section \<open>Runs of the limiter\<close>

text \<open>
  A limiter with what it has admitted and what it has handed back on closing, each with its key.
\<close>

record ('k, 't) limiter_run =
  lr_state :: "('k, 't) limiter"
  lr_admitted :: "('k \<times> 't) list"
  lr_returned :: "('k \<times> 't) list"

definition returned_by :: "('k, 't) limiter \<Rightarrow> ('k \<times> 't) list" where
  "returned_by s = concat (map (\<lambda>e. map (Pair (fst e)) (la_queue (lm_heap s (snd e)))) (lm_lanes s))"

inductive limiter_step :: "('k, 't) limiter_run \<Rightarrow> ('k, 't) limiter_run \<Rightarrow> bool" where
  submits:
    "submit key item s = (s', a) \<Longrightarrow>
     limiter_step \<lparr>lr_state = s, lr_admitted = as, lr_returned = rs\<rparr>
       \<lparr>lr_state = s', lr_admitted = (if a = Refused then as else as @ [(key, item)]), lr_returned = rs\<rparr>"
| ends:
    "lm_runs s = xs @ (key, l, item) # ys \<Longrightarrow>
     limiter_step \<lparr>lr_state = s, lr_admitted = as, lr_returned = rs\<rparr>
       \<lparr>lr_state = item_ended key l (s\<lparr>lm_runs := xs @ ys\<rparr>), lr_admitted = as, lr_returned = rs\<rparr>"
| closes:
    "limiter_step \<lparr>lr_state = s, lr_admitted = as, lr_returned = rs\<rparr>
       \<lparr>lr_state = fst (close_limiter s), lr_admitted = as, lr_returned = rs @ returned_by s\<rparr>"

definition limiter_reaches :: "int \<Rightarrow> int \<Rightarrow> ('k, 't) limiter_run \<Rightarrow> bool" where
  "limiter_reaches c b r \<longleftrightarrow>
     (\<exists>s. keyed_limiter c b = Inr s \<and> limiter_step\<^sup>*\<^sup>* \<lparr>lr_state = s, lr_admitted = [], lr_returned = []\<rparr> r)"

lemma returned_by_close: "map snd (returned_by s) = snd (close_limiter s)"
  by (simp add: returned_by_def close_limiter_def map_concat comp_def)

section \<open>What every run keeps\<close>

abbreviation runs_of :: "nat \<Rightarrow> ('k, 't) limiter \<Rightarrow> nat" where
  "runs_of l s \<equiv> length (filter (\<lambda>r. fst (snd r) = l) (lm_runs s))"

definition lane_ok :: "('k, 't) limiter \<Rightarrow> 'k \<Rightarrow> nat \<Rightarrow> bool" where
  "lane_ok s k l \<longleftrightarrow>
     l < lm_new s \<and> la_running (lm_heap s l) = runs_of l s \<and> runs_of l s \<le> lm_concurrency s
     \<and> runs_of l s + length (la_queue (lm_heap s l)) \<le> lm_bound s"

definition limiter_ok :: "('k, 't) limiter \<Rightarrow> bool" where
  "limiter_ok s \<longleftrightarrow>
     entries_ok (lm_lanes s) \<and> 1 \<le> lm_concurrency s \<and> lm_concurrency s \<le> lm_bound s
     \<and> (\<forall>k k' l. map_of (lm_lanes s) k = Some l \<longrightarrow> map_of (lm_lanes s) k' = Some l \<longrightarrow> k = k')
     \<and> (\<forall>k l. map_of (lm_lanes s) k = Some l \<longrightarrow> lane_ok s k l)
     \<and> (\<forall>r \<in> set (lm_runs s). map_of (lm_lanes s) (fst r) = Some (fst (snd r)))"

text \<open>Every lane has something running, and a queue only behind as many as may run, and never after closing.\<close>

definition lane_busy :: "('k, 't) limiter \<Rightarrow> nat \<Rightarrow> bool" where
  "lane_busy s l \<longleftrightarrow> 0 < runs_of l s \<and> (la_queue (lm_heap s l) \<noteq> [] \<longrightarrow> runs_of l s = lm_concurrency s \<and> \<not> lm_closed s)"

definition all_busy :: "('k, 't) limiter \<Rightarrow> bool" where
  "all_busy s \<longleftrightarrow> (\<forall>k l. map_of (lm_lanes s) k = Some l \<longrightarrow> lane_busy s l)"

text \<open>What waits for a key.\<close>

definition queued_of :: "('k, 't) limiter \<Rightarrow> 'k \<Rightarrow> 't list" where
  "queued_of s k = (case map_of (lm_lanes s) k of None \<Rightarrow> [] | Some l \<Rightarrow> la_queue (lm_heap s l))"

abbreviation items_of :: "'k \<Rightarrow> ('k \<times> 't) list \<Rightarrow> 't list" where
  "items_of k xs \<equiv> map snd (filter (\<lambda>e. fst e = k) xs)"

lemma limiter_okD:
  assumes "limiter_ok s"
  shows "entries_ok (lm_lanes s)" "1 \<le> lm_concurrency s" "lm_concurrency s \<le> lm_bound s"
    and "\<And>k k' l. map_of (lm_lanes s) k = Some l \<Longrightarrow> map_of (lm_lanes s) k' = Some l \<Longrightarrow> k = k'"
    and "\<And>k l. map_of (lm_lanes s) k = Some l \<Longrightarrow> lane_ok s k l"
    and "\<And>r. r \<in> set (lm_runs s) \<Longrightarrow> map_of (lm_lanes s) (fst r) = Some (fst (snd r))"
  using assms unfolding limiter_ok_def by blast+

lemma no_runs: "limiter_ok s \<Longrightarrow> (\<And>k. map_of (lm_lanes s) k \<noteq> Some l) \<Longrightarrow> runs_of l s = 0"
  using limiter_okD(6) by (fastforce simp: filter_empty_conv)

lemma runs_new:
  assumes ok: "limiter_ok s"
  shows "runs_of (lm_new s) s = 0"
proof (rule no_runs [OF ok])
  show "map_of (lm_lanes s) k \<noteq> Some (lm_new s)" for k
    using limiter_okD(5) [OF ok, of k "lm_new s"] by (auto simp: lane_ok_def)
qed

lemma lane_for_kept:
  assumes "lane_for key s = (s1, l)"
  shows "lm_runs s1 = lm_runs s" "lm_log s1 = lm_log s" "lm_closed s1 = lm_closed s"
    "lm_concurrency s1 = lm_concurrency s" "lm_bound s1 = lm_bound s" "map_of (lm_lanes s1) key = Some l"
    "k \<noteq> key \<Longrightarrow> map_of (lm_lanes s1) k = map_of (lm_lanes s) k"
  using assms by (cases "map_of (lm_lanes s) key"; auto simp: lane_for_def map_of_map_put)+

lemma lane_for_ok:
  assumes ok: "limiter_ok s" and lf: "lane_for key s = (s1, l)"
  shows "limiter_ok s1" "queued_of s1 k = queued_of s k"
proof -
  note d = limiter_okD [OF ok]
  have "limiter_ok s1 \<and> queued_of s1 k = queued_of s k"
  proof (cases "map_of (lm_lanes s) key")
    case (Some m)
    with ok lf show ?thesis by (simp add: lane_for_def)
  next
    case None
    with lf have s1: "s1 = s\<lparr>lm_lanes := map_put key (lm_new s) (lm_lanes s),
        lm_heap := (lm_heap s)(lm_new s := \<lparr>la_running = 0, la_queue = []\<rparr>), lm_new := Suc (lm_new s)\<rparr>"
      by (auto simp: lane_for_def)
    have new: "map_of (lm_lanes s) k \<noteq> Some (lm_new s)" for k using d(5) [of k "lm_new s"] by (auto simp: lane_ok_def)
    have "limiter_ok s1" unfolding limiter_ok_def
    proof (intro conjI allI impI ballI)
      show "entries_ok (lm_lanes s1)" using d(1) by (simp add: s1 es.ok_put)
      show "1 \<le> lm_concurrency s1" "lm_concurrency s1 \<le> lm_bound s1" using d(2,3) by (simp_all add: s1)
      show "map_of (lm_lanes s1) k = Some l \<Longrightarrow> map_of (lm_lanes s1) k' = Some l \<Longrightarrow> k = k'" for k k' l
        using d(4) [of k l k'] new by (auto simp: s1 map_of_map_put split: if_splits)
      show "map_of (lm_lanes s1) k = Some m \<Longrightarrow> lane_ok s1 k m" for k m
        using d(5) [of k m] runs_new [OF ok] d(2,3) new by (auto simp: s1 map_of_map_put lane_ok_def split: if_splits)
      show "r \<in> set (lm_runs s1) \<Longrightarrow> map_of (lm_lanes s1) (fst r) = Some (fst (snd r))" for r
        using d(6) [of r] None by (auto simp: s1 map_of_map_put)
    qed
    moreover have "queued_of s1 k = queued_of s k"
      using new None by (auto simp: queued_of_def s1 map_of_map_put split: option.splits)
    ultimately show ?thesis by simp
  qed
  then show "limiter_ok s1" "queued_of s1 k = queued_of s k" by auto
qed

lemma start_item_ok:
  assumes "limiter_ok s" "map_of (lm_lanes s) key = Some l" "runs_of l s < lm_concurrency s"
    and "runs_of l s + length (la_queue (lm_heap s l)) < lm_bound s"
  shows "limiter_ok (start_item key l item s)" "queued_of (start_item key l item s) k = queued_of s k"
    "all_busy (start_item key l item s) \<longleftrightarrow> (\<forall>k m. map_of (lm_lanes s) k = Some m \<longrightarrow>
       (if m = l then la_queue (lm_heap s l) = [] \<or> Suc (runs_of l s) = lm_concurrency s \<and> \<not> lm_closed s else lane_busy s m))"
proof -
  note d = limiter_okD [OF assms(1)]
  let ?t = "start_item key l item s"
  have t: "lm_lanes ?t = lm_lanes s" "lm_concurrency ?t = lm_concurrency s" "lm_bound ?t = lm_bound s" "lm_new ?t = lm_new s"
    "lm_closed ?t = lm_closed s" "lm_runs ?t = lm_runs s @ [(key, l, item)]" by (simp_all add: start_item_def)
  have h: "la_queue (lm_heap ?t m) = la_queue (lm_heap s m)"
    "la_running (lm_heap ?t m) = (if m = l then Suc (la_running (lm_heap s l)) else la_running (lm_heap s m))" for m
    by (simp_all add: start_item_def)
  have r: "runs_of m ?t = (if m = l then Suc (runs_of l s) else runs_of m s)" for m by (simp add: t)
  show "limiter_ok ?t" unfolding limiter_ok_def
  proof (intro conjI allI impI ballI)
    show "entries_ok (lm_lanes ?t)" "1 \<le> lm_concurrency ?t" "lm_concurrency ?t \<le> lm_bound ?t" using d(1-3) by (simp_all add: t)
    show "map_of (lm_lanes ?t) k = Some m \<Longrightarrow> map_of (lm_lanes ?t) k' = Some m \<Longrightarrow> k = k'" for k k' m
      using d(4) [of k m k'] by (simp add: t)
    show "lane_ok ?t k m" if "map_of (lm_lanes ?t) k = Some m" for k m
    proof (cases "m = l")
      case True
      have "lane_ok s key l" by (rule d(5) [OF assms(2)])
      with True assms(3,4) show ?thesis unfolding lane_ok_def h r by (auto simp: t)
    next
      case False
      with d(5) [of k m] that show ?thesis unfolding lane_ok_def h r by (simp add: t)
    qed
    show "x \<in> set (lm_runs ?t) \<Longrightarrow> map_of (lm_lanes ?t) (fst x) = Some (fst (snd x))" for x
      using d(6) [of x] assms(2) by (auto simp: t)
  qed
  show "queued_of ?t k = queued_of s k" by (simp add: queued_of_def t h split: option.split)
  show "all_busy ?t \<longleftrightarrow> (\<forall>k m. map_of (lm_lanes s) k = Some m \<longrightarrow>
     (if m = l then la_queue (lm_heap s l) = [] \<or> Suc (runs_of l s) = lm_concurrency s \<and> \<not> lm_closed s else lane_busy s m))"
    unfolding all_busy_def lane_busy_def h r by (auto simp: t)
qed

text \<open>A lane whose queue is changed.\<close>

lemma set_queue_ok:
  assumes ok: "limiter_ok s" and "map_of (lm_lanes s) key = Some l" "runs_of l s + length q \<le> lm_bound s"
  shows "limiter_ok (s\<lparr>lm_heap := (lm_heap s)(l := (lm_heap s l)\<lparr>la_queue := q\<rparr>)\<rparr>)"
    "queued_of (s\<lparr>lm_heap := (lm_heap s)(l := (lm_heap s l)\<lparr>la_queue := q\<rparr>)\<rparr>) k = (if k = key then q else queued_of s k)"
proof -
  let ?t = "s\<lparr>lm_heap := (lm_heap s)(l := (lm_heap s l)\<lparr>la_queue := q\<rparr>)\<rparr>"
  note d = limiter_okD [OF ok]
  show "limiter_ok ?t" unfolding limiter_ok_def
  proof (intro conjI allI impI ballI)
    show "entries_ok (lm_lanes ?t)" "1 \<le> lm_concurrency ?t" "lm_concurrency ?t \<le> lm_bound ?t" using d(1-3) by simp_all
    show "map_of (lm_lanes ?t) k = Some m \<Longrightarrow> map_of (lm_lanes ?t) k' = Some m \<Longrightarrow> k = k'" for k k' m
      using d(4) [of k m k'] by simp
    show "map_of (lm_lanes ?t) k = Some m \<Longrightarrow> lane_ok ?t k m" for k m
      using d(5) [of k m] d(5) [OF assms(2)] assms(3) by (auto simp: lane_ok_def)
    show "x \<in> set (lm_runs ?t) \<Longrightarrow> map_of (lm_lanes ?t) (fst x) = Some (fst (snd x))" for x
      using d(6) [of x] by simp
  qed
  show "queued_of ?t k = (if k = key then q else queued_of s k)"
  proof (cases "k = key")
    case True
    with assms(2) show ?thesis by (simp add: queued_of_def)
  next
    case False
    then have "map_of (lm_lanes s) k \<noteq> Some l" using d(4) [OF _ assms(2), of k] by blast
    with False show ?thesis by (simp add: queued_of_def split: option.split)
  qed
qed

section \<open>The books of a run\<close>

definition run_books :: "('k, 't) limiter_run \<Rightarrow> bool" where
  "run_books r \<longleftrightarrow> limiter_ok (lr_state r) \<and> all_busy (lr_state r)
     \<and> (\<not> lm_closed (lr_state r) \<longrightarrow> lr_returned r = [])
     \<and> (\<forall>k. items_of k (lr_admitted r) = items_of k (lm_log (lr_state r)) @ queued_of (lr_state r) k @ items_of k (lr_returned r))"

lemma submit_books:
  assumes "run_books \<lparr>lr_state = s, lr_admitted = as, lr_returned = rs\<rparr>" "submit key item s = (s', a)"
  shows "run_books \<lparr>lr_state = s', lr_admitted = (if a = Refused then as else as @ [(key, item)]), lr_returned = rs\<rparr>"
proof (cases "lm_closed s")
  case True
  with assms show ?thesis by (auto simp: submit_def)
next
  case False
  have b: "limiter_ok s" "all_busy s" "rs = []" "\<And>k. items_of k as = items_of k (lm_log s) @ queued_of s k"
    using assms(1) False by (auto simp: run_books_def)
  obtain s1 l where lf: "lane_for key s = (s1, l)" by fastforce
  note k = lane_for_kept [OF lf] and o = lane_for_ok [OF b(1) lf]
  note d = limiter_okD [OF o(1)]
  have lo: "lane_ok s1 key l" by (rule d(5) [OF k(6)])
  have other: "lane_busy s1 m" if "map_of (lm_lanes s1) j = Some m" "m \<noteq> l" for j m
  proof -
    have "j \<noteq> key" using that k(6) by auto
    with that k(7) have "map_of (lm_lanes s) j = Some m" by simp
    moreover from this limiter_okD(5) [OF b(1)] have "m < lm_new s" by (auto simp: lane_ok_def)
    ultimately show ?thesis using b(2) lf k
      by (auto simp: all_busy_def lane_busy_def lane_for_def split: option.splits)
  qed
  have here: "map_of (lm_lanes s) key = Some l \<and> s1 = s \<or> la_queue (lm_heap s1 l) = [] \<and> la_running (lm_heap s1 l) = 0"
    using lf by (auto simp: lane_for_def split: option.splits)
  have q: "queued_of s key = la_queue (lm_heap s1 l)" using o(2) [of key] k(6) by (simp add: queued_of_def)
  have run: "la_running (lm_heap s1 l) = runs_of l s1" "runs_of l s1 + length (la_queue (lm_heap s1 l)) \<le> lm_bound s1"
    using lo by (auto simp: lane_ok_def)
  consider (full) "lm_bound s1 \<le> la_running (lm_heap s1 l) + length (la_queue (lm_heap s1 l))"
    | (free) "la_running (lm_heap s1 l) + length (la_queue (lm_heap s1 l)) < lm_bound s1" "la_running (lm_heap s1 l) < lm_concurrency s1"
    | (wait) "la_running (lm_heap s1 l) + length (la_queue (lm_heap s1 l)) < lm_bound s1" "lm_concurrency s1 \<le> la_running (lm_heap s1 l)"
    by linarith
  then show ?thesis
  proof cases
    case full
    then have "s' = s1" "a = Refused" using assms(2) False lf by (auto simp: submit_def Let_def)
    moreover have "s1 = s" using here full d(2,3) by auto
    ultimately show ?thesis using assms(1) by simp
  next
    case free
    then have s': "s' = start_item key l item s1" "a = Started" using assms(2) False lf by (auto simp: submit_def Let_def)
    have q0: "la_queue (lm_heap s1 l) = []"
    proof (rule ccontr)
      assume ne: "la_queue (lm_heap s1 l) \<noteq> []"
      with here have "map_of (lm_lanes s) key = Some l" "s1 = s" by auto
      with b(2) ne have "runs_of l s1 = lm_concurrency s1" by (auto simp: all_busy_def lane_busy_def)
      with free(2) run(1) show False by simp
    qed
    note st = start_item_ok [OF o(1) k(6), of item]
    have "limiter_ok s'" "all_busy s'" "\<And>k. queued_of s' k = queued_of s k"
      using st free run q0 o(2) other by (auto simp: s')
    moreover have "lm_closed s' = lm_closed s" "lm_log s' = lm_log s @ [(key, item)]" by (simp_all add: s' start_item_def k)
    ultimately show ?thesis using b(3,4) s'(2) q q0 by (auto simp: run_books_def)
  next
    case wait
    then have s': "s' = s1\<lparr>lm_heap := (lm_heap s1)(l := (lm_heap s1 l)\<lparr>la_queue := la_queue (lm_heap s1 l) @ [item]\<rparr>)\<rparr>" "a = Queued"
      using assms(2) False lf by (auto simp: submit_def Let_def)
    have f: "runs_of l s1 = lm_concurrency s1" using wait(2) run(1) lo by (auto simp: lane_ok_def)
    from set_queue_ok [OF o(1) k(6), of "la_queue (lm_heap s1 l) @ [item]"] wait(1) run(1)
    have "limiter_ok s'" "\<And>j. queued_of s' j = (if j = key then la_queue (lm_heap s1 l) @ [item] else queued_of s j)"
      using o(2) by (simp_all add: s')
    moreover have "all_busy s'" using other f d(2) False k(3) by (auto simp: s' all_busy_def lane_busy_def)
    moreover have "lm_closed s' = lm_closed s" "lm_log s' = lm_log s" by (simp_all add: s' k)
    ultimately show ?thesis using b(3,4) s'(2) q by (auto simp: run_books_def)
  qed
qed

lemma run_gone_ok:
  assumes ok: "limiter_ok s" and runs: "lm_runs s = xs @ (key, l, item) # ys"
    and t: "t = s\<lparr>lm_runs := xs @ ys, lm_heap := (lm_heap s)(l := (lm_heap s l)\<lparr>la_running := la_running (lm_heap s l) - 1\<rparr>)\<rparr>"
  shows "limiter_ok t" "map_of (lm_lanes s) key = Some l" "runs_of l s = Suc (runs_of l t)" "m \<noteq> l \<Longrightarrow> runs_of m t = runs_of m s"
    "queued_of t k = queued_of s k" "m \<noteq> l \<Longrightarrow> lane_busy t m = lane_busy s m" "la_running (lm_heap t l) = runs_of l t"
proof -
  note d = limiter_okD [OF ok]
  show l: "map_of (lm_lanes s) key = Some l" using d(6) [of "(key, l, item)"] runs by simp
  have r: "runs_of m t = (if m = l then runs_of l s - 1 else runs_of m s)" for m by (simp add: t runs)
  show rl: "runs_of l s = Suc (runs_of l t)" by (simp add: t runs)
  show "m \<noteq> l \<Longrightarrow> runs_of m t = runs_of m s" using r [of m] by simp
  have h: "la_queue (lm_heap t m) = la_queue (lm_heap s m)"
    "la_running (lm_heap t m) = (if m = l then la_running (lm_heap s l) - 1 else la_running (lm_heap s m))" for m
    by (simp_all add: t)
  have f: "lm_lanes t = lm_lanes s" "lm_concurrency t = lm_concurrency s" "lm_bound t = lm_bound s" "lm_new t = lm_new s"
    "lm_closed t = lm_closed s" "set (lm_runs t) \<subseteq> set (lm_runs s)" by (auto simp: t runs)
  show "limiter_ok t" unfolding limiter_ok_def
  proof (intro conjI allI impI ballI)
    show "entries_ok (lm_lanes t)" "1 \<le> lm_concurrency t" "lm_concurrency t \<le> lm_bound t" using d(1-3) f by simp_all
    show "map_of (lm_lanes t) k = Some m \<Longrightarrow> map_of (lm_lanes t) k' = Some m \<Longrightarrow> k = k'" for k k' m
      using d(4) [of k m k'] f by simp
    show "lane_ok t k m" if "map_of (lm_lanes t) k = Some m" for k m
      using d(5) [of k m] that f unfolding lane_ok_def h r by auto
    show "x \<in> set (lm_runs t) \<Longrightarrow> map_of (lm_lanes t) (fst x) = Some (fst (snd x))" for x
      using d(6) [of x] f by auto
  qed
  show "queued_of t k = queued_of s k" by (simp add: queued_of_def f h split: option.split)
  show "m \<noteq> l \<Longrightarrow> lane_busy t m = lane_busy s m" unfolding lane_busy_def h r by (simp add: f)
  show "la_running (lm_heap t l) = runs_of l t" using d(5) [OF l] h [of l] rl by (simp add: lane_ok_def)
qed

lemma ended_books:
  assumes "run_books \<lparr>lr_state = s, lr_admitted = as, lr_returned = rs\<rparr>" "lm_runs s = xs @ (key, l, item) # ys"
  shows "run_books \<lparr>lr_state = item_ended key l (s\<lparr>lm_runs := xs @ ys\<rparr>), lr_admitted = as, lr_returned = rs\<rparr>"
proof -
  have b: "limiter_ok s" "all_busy s" "\<not> lm_closed s \<longrightarrow> rs = []"
    "\<And>k. items_of k as = items_of k (lm_log s) @ queued_of s k @ items_of k rs"
    using assms(1) by (auto simp: run_books_def)
  define t where "t = s\<lparr>lm_runs := xs @ ys, lm_heap := (lm_heap s)(l := (lm_heap s l)\<lparr>la_running := la_running (lm_heap s l) - 1\<rparr>)\<rparr>"
  note g = run_gone_ok [OF b(1) assms(2) t_def]
  note d = limiter_okD [OF g(1)]
  have f: "lm_lanes t = lm_lanes s" "lm_concurrency t = lm_concurrency s" "lm_bound t = lm_bound s" "lm_closed t = lm_closed s"
    "lm_log t = lm_log s" "la_queue (lm_heap t m) = la_queue (lm_heap s m)" for m by (simp_all add: t_def)
  have busy: "lane_busy s l" using b(2) g(2) by (auto simp: all_busy_def)
  have other: "lane_busy t m" if "map_of (lm_lanes t) k = Some m" "m \<noteq> l" for k m
    using that b(2) g(6) [of m] by (auto simp: all_busy_def f)
  let ?u = "item_ended key l (s\<lparr>lm_runs := xs @ ys\<rparr>)"
  show ?thesis
  proof (cases "la_queue (lm_heap s l)")
    case (Cons nxt rest)
    define v where "v = t\<lparr>lm_heap := (lm_heap t)(l := (lm_heap t l)\<lparr>la_queue := rest\<rparr>)\<rparr>"
    have u: "?u = start_item key l nxt v" by (simp add: item_ended_def Cons v_def t_def Let_def)
    have full: "Suc (runs_of l t) = lm_concurrency t" "\<not> lm_closed t" using busy Cons g(3) f by (auto simp: lane_busy_def)
    have lo: "lane_ok t key l" using d(5) g(2) by (simp add: f)
    then have le: "runs_of l t + length rest < lm_bound t" using Cons by (simp add: lane_ok_def f)
    then have le': "runs_of l t + length rest \<le> lm_bound t" by simp
    have lk: "map_of (lm_lanes t) key = Some l" using g(2) by (simp add: f)
    note q = set_queue_ok [OF g(1) lk le', folded v_def]
    have vr: "runs_of m v = runs_of m t" "lm_lanes v = lm_lanes t" "lm_concurrency v = lm_concurrency t" "lm_bound v = lm_bound t"
      "lm_closed v = lm_closed t" "lm_log v = lm_log t" "la_queue (lm_heap v l) = rest"
      "m \<noteq> l \<Longrightarrow> lane_busy v m = lane_busy t m" for m by (simp_all add: v_def lane_busy_def)
    note st = start_item_ok [OF q(1), of key l nxt]
    have ok: "limiter_ok ?u" "queued_of ?u k = (if k = key then rest else queued_of s k)" for k
      using st vr full(1) le g(5) lk q(2) unfolding u by auto
    have "all_busy ?u" unfolding u using st(3) vr full le lk other by auto
    moreover have "lm_closed ?u = lm_closed s" "lm_log ?u = lm_log s @ [(key, nxt)]"
      unfolding u using vr by (simp_all add: start_item_def f)
    moreover have "queued_of s key = nxt # rest" using g(2) Cons by (simp add: queued_of_def)
    ultimately show ?thesis using b(3,4) ok by (auto simp: run_books_def)
  next
    case Nil
    have run: "la_running (lm_heap s l) - 1 = runs_of l t" using g(7) by (simp add: t_def)
    have u: "?u = (if runs_of l t = 0 then t\<lparr>lm_lanes := map_del key (lm_lanes s)\<rparr> else t)"
      using g(2) Nil run by (auto simp: item_ended_def Let_def t_def)
    show ?thesis
    proof (cases "runs_of l t = 0")
      case False
      have "all_busy t" using other False busy g(3) Nil unfolding all_busy_def by (auto simp: lane_busy_def f)
      with g(1,5) b(3,4) False show ?thesis unfolding u by (simp add: run_books_def f)
    next
      case True
      define w where "w = t\<lparr>lm_lanes := map_del key (lm_lanes s)\<rparr>"
      have mw: "map_of (lm_lanes w) k = (if k = key then None else map_of (lm_lanes t) k)" for k
        by (simp add: w_def f map_of_map_del)
      have lb: "lane_ok w k m = lane_ok t k m" "lane_busy w m = lane_busy t m" for k m by (simp_all add: lane_ok_def lane_busy_def w_def)
      have wf: "lm_concurrency w = lm_concurrency t" "lm_bound w = lm_bound t" "lm_runs w = lm_runs t" "lm_closed w = lm_closed t" "lm_log w = lm_log t"
        "lm_heap w = lm_heap t" by (simp_all add: w_def)
      have no: "fst r \<noteq> key" if "r \<in> set (lm_runs t)" for r
      proof
        assume "fst r = key"
        with d(6) [OF that] g(2) have "fst (snd r) = l" by (simp add: f)
        with True that show False by (auto simp: filter_empty_conv)
      qed
      have "limiter_ok w" unfolding limiter_ok_def
      proof (intro conjI allI impI ballI)
        show "entries_ok (lm_lanes w)" using d(1) by (simp add: w_def f es.ok_del)
        show "1 \<le> lm_concurrency w" "lm_concurrency w \<le> lm_bound w" using d(2,3) by (simp_all add: wf)
        show "map_of (lm_lanes w) k = Some m \<Longrightarrow> map_of (lm_lanes w) k' = Some m \<Longrightarrow> k = k'" for k k' m
          using d(4) [of k m k'] by (auto simp: mw split: if_splits)
        show "map_of (lm_lanes w) k = Some m \<Longrightarrow> lane_ok w k m" for k m
          using d(5) [of k m] by (auto simp: mw lb split: if_splits)
        show "r \<in> set (lm_runs w) \<Longrightarrow> map_of (lm_lanes w) (fst r) = Some (fst (snd r))" for r
          using d(6) [of r] no [of r] by (simp add: mw wf)
      qed
      moreover have "all_busy w" unfolding all_busy_def
      proof (intro allI impI)
        fix k m assume "map_of (lm_lanes w) k = Some m"
        then have k: "k \<noteq> key" "map_of (lm_lanes t) k = Some m" by (auto simp: mw split: if_splits)
        have "m \<noteq> l"
        proof
          assume "m = l"
          moreover have "map_of (lm_lanes t) key = Some l" using g(2) by (simp add: f)
          ultimately show False using d(4) [OF k(2), of key] k(1) by simp
        qed
        from other [OF k(2) this] show "lane_busy w m" by (simp only: lb)
      qed
      moreover have "queued_of w k = queued_of s k" for k
        using g(5) [of k] g(2) Nil by (auto simp: queued_of_def mw f wf split: option.split)
      ultimately show ?thesis using b(3,4) True unfolding u w_def [symmetric] by (simp add: run_books_def f wf)
    qed
  qed
qed

lemma close_books:
  assumes "run_books \<lparr>lr_state = s, lr_admitted = as, lr_returned = rs\<rparr>"
  shows "run_books \<lparr>lr_state = fst (close_limiter s), lr_admitted = as, lr_returned = rs @ returned_by s\<rparr>"
proof -
  have b: "limiter_ok s" "all_busy s" "\<not> lm_closed s \<longrightarrow> rs = []"
    "\<And>k. items_of k as = items_of k (lm_log s) @ queued_of s k @ items_of k rs"
    using assms by (auto simp: run_books_def)
  note d = limiter_okD [OF b(1)]
  let ?t = "fst (close_limiter s)"
  have f: "lm_lanes ?t = lm_lanes s" "lm_concurrency ?t = lm_concurrency s" "lm_bound ?t = lm_bound s" "lm_new ?t = lm_new s"
    "lm_runs ?t = lm_runs s" "lm_closed ?t" "lm_log ?t = lm_log s" by (simp_all add: close_limiter_def)
  have h: "la_running (lm_heap ?t m) = la_running (lm_heap s m)" "length (la_queue (lm_heap ?t m)) \<le> length (la_queue (lm_heap s m))" for m
    by (simp_all add: close_limiter_def)
  have e: "la_queue (lm_heap ?t m) = []" if "map_of (lm_lanes s) k = Some m" for k m
    using map_of_SomeD [OF that] by (force simp: close_limiter_def)
  have "limiter_ok ?t" unfolding limiter_ok_def
  proof (intro conjI allI impI ballI)
    show "entries_ok (lm_lanes ?t)" "1 \<le> lm_concurrency ?t" "lm_concurrency ?t \<le> lm_bound ?t" using d(1-3) by (simp_all add: f)
    show "map_of (lm_lanes ?t) k = Some m \<Longrightarrow> map_of (lm_lanes ?t) k' = Some m \<Longrightarrow> k = k'" for k k' m
      using d(4) [of k m k'] by (simp add: f)
    show "map_of (lm_lanes ?t) k = Some m \<Longrightarrow> lane_ok ?t k m" for k m
      using d(5) [of k m] h [of m] unfolding lane_ok_def by (simp add: f)
    show "r \<in> set (lm_runs ?t) \<Longrightarrow> map_of (lm_lanes ?t) (fst r) = Some (fst (snd r))" for r using d(6) [of r] by (simp add: f)
  qed
  moreover have "all_busy ?t" using b(2) e by (fastforce simp: all_busy_def lane_busy_def f)
  moreover have q: "queued_of ?t k = []" for k using e by (auto simp: queued_of_def f split: option.split)
  moreover have r: "items_of k (returned_by s) = queued_of s k" for k
  proof -
    have "items_of k (concat (map (\<lambda>e. map (Pair (fst e)) (la_queue (lm_heap s (snd e)))) m))
        = (case map_of m k of None \<Rightarrow> [] | Some l \<Rightarrow> la_queue (lm_heap s l))" if "distinct (map fst m)" for m
      using that
    proof (induction m)
      case (Cons e m)
      have "items_of k (map (Pair (fst e)) q) = (if fst e = k then q else [])" for q
        by (induction q) auto
      with Cons show ?case by (auto simp: map_of_eq_None_iff [THEN iffD2] split: option.splits)
    qed simp
    then show ?thesis using d(1) by (simp add: returned_by_def queued_of_def entries_ok_def)
  qed
  moreover have "items_of k as = items_of k (lm_log ?t) @ queued_of ?t k @ items_of k (rs @ returned_by s)" for k
  proof -
    have "rs = [] \<or> queued_of s k = []"
      using b(2,3) by (auto simp: queued_of_def all_busy_def lane_busy_def split: option.split)
    then show ?thesis
    proof
      assume "rs = []"
      then show ?thesis using b(4) [of k] r [of k] q [of k] by (simp add: f)
    next
      assume "queued_of s k = []"
      then show ?thesis using b(4) [of k] r [of k] q [of k] by (simp add: f)
    qed
  qed
  ultimately show ?thesis by (simp add: run_books_def f)
qed

lemma limiter_reaches_books:
  assumes "limiter_reaches c b r"
  shows "run_books r \<and> lm_concurrency (lr_state r) = nat c \<and> lm_bound (lr_state r) = nat b"
proof -
  obtain s where s: "keyed_limiter c b = Inr s" "limiter_step\<^sup>*\<^sup>* \<lparr>lr_state = s, lr_admitted = [], lr_returned = []\<rparr> r"
    using assms by (auto simp: limiter_reaches_def)
  from s(2) show ?thesis
  proof (induction rule: rtranclp_induct)
    case base
    show ?case using s(1)
      by (auto simp: keyed_limiter_def run_books_def limiter_ok_def all_busy_def queued_of_def entries_ok_def split: if_splits)
  next
    case (step q r)
    have keep: "lm_concurrency (start_item k l i u) = lm_concurrency u" "lm_bound (start_item k l i u) = lm_bound u"
      for k l i and u :: "('a, 'b) limiter" by (simp_all add: start_item_def)
    from step.hyps(2) show ?case
    proof cases
      case (submits key item u u' a as rs)
      have "lm_concurrency u' = lm_concurrency u \<and> lm_bound u' = lm_bound u"
        using submits(3) lane_for_kept(4,5) [of key u]
        by (auto simp: submit_def Let_def keep split: if_splits prod.splits)
      with submits step.IH submit_books [of u as rs key item u' a] show ?thesis by simp
    next
      case (ends u xs key l item ys as rs)
      have "lm_concurrency (item_ended key l (u\<lparr>lm_runs := xs @ ys\<rparr>)) = lm_concurrency u
          \<and> lm_bound (item_ended key l (u\<lparr>lm_runs := xs @ ys\<rparr>)) = lm_bound u"
        by (auto simp: item_ended_def Let_def keep split: list.splits)
      with ends step.IH ended_books [of u as rs xs key l item ys] show ?thesis by simp
    next
      case (closes u as rs)
      with step.IH close_books [of u as rs] show ?thesis by (simp add: close_limiter_def)
    qed
  qed
qed

lemma key_runs:
  assumes "limiter_ok s"
  shows "length (filter (\<lambda>r. fst r = k) (lm_runs s)) = (case map_of (lm_lanes s) k of None \<Rightarrow> 0 | Some l \<Rightarrow> runs_of l s)"
proof (cases "map_of (lm_lanes s) k")
  case None
  then have "\<forall>r \<in> set (lm_runs s). fst r \<noteq> k" using limiter_okD(6) [OF assms] by fastforce
  with None show ?thesis by (simp add: filter_empty_conv)
next
  case (Some l)
  have "filter (\<lambda>r. fst r = k) (lm_runs s) = filter (\<lambda>r. fst (snd r) = l) (lm_runs s)"
  proof (rule filter_cong [OF refl])
    fix r assume "r \<in> set (lm_runs s)"
    from limiter_okD(6) [OF assms this] Some limiter_okD(4) [OF assms, of "fst r" l k]
    show "(fst r = k) = (fst (snd r) = l)" by auto
  qed
  with Some show ?thesis by simp
qed

text \<open>
  At no moment does a key have more running than the concurrency, nor more running and queued
  than the bound; nothing waits while there is room to run it; and a key with nothing running has no entry.
\<close>

theorem limiter_within_bounds:
  assumes "limiter_reaches c b r"
  shows "let running = length (filter (\<lambda>x. fst x = k) (lm_runs (lr_state r))); waiting = length (queued_of (lr_state r) k)
    in int running \<le> c \<and> int (running + waiting) \<le> b \<and> (waiting = 0 \<or> int running = c)
       \<and> (running = 0 \<longleftrightarrow> map_of (lm_lanes (lr_state r)) k = None)"
proof -
  have b: "limiter_ok (lr_state r)" "all_busy (lr_state r)" "lm_concurrency (lr_state r) = nat c" "lm_bound (lr_state r) = nat b"
    using limiter_reaches_books [OF assms] by (auto simp: run_books_def)
  have p: "1 \<le> c" "c \<le> b" using limiter_okD(2,3) [OF b(1)] b(3,4) by linarith+
  show ?thesis
  proof (cases "map_of (lm_lanes (lr_state r)) k")
    case None
    with p show ?thesis unfolding Let_def key_runs [OF b(1)] by (simp add: queued_of_def)
  next
    case (Some l)
    have "lane_ok (lr_state r) k l" "lane_busy (lr_state r) l"
      using limiter_okD(5) [OF b(1) Some] b(2) Some by (auto simp: all_busy_def)
    with p Some show ?thesis unfolding Let_def key_runs [OF b(1)]
      by (auto simp: queued_of_def lane_ok_def lane_busy_def b(3,4))
  qed
qed

text \<open>
  Property C19: no item is lost, started twice or overtaken.  For each key, the items admitted are, in order,
  those started, those that wait and, once the limiter was closed, those it handed back; and after closing
  none waits.
\<close>

theorem limiter_keeps_order:
  assumes "limiter_reaches c b r"
  shows "items_of k (lr_admitted r) = items_of k (lm_log (lr_state r)) @ queued_of (lr_state r) k @ items_of k (lr_returned r)
     \<and> (if lm_closed (lr_state r) then queued_of (lr_state r) k else items_of k (lr_returned r)) = []"
proof -
  have b: "run_books r" using limiter_reaches_books [OF assms] by simp
  then have "lm_closed (lr_state r) \<Longrightarrow> queued_of (lr_state r) k = []"
    by (auto simp: run_books_def queued_of_def all_busy_def lane_busy_def split: option.split)
  with b show ?thesis by (auto simp: run_books_def)
qed

section \<open>The lock\<close>

text \<open>
  A call of \<open>run\<close> waits for its \<open>prior\<close>, holds the key, and is done.  Call \<open>c\<close> makes the promise \<open>tail\<close>
  of number \<open>c\<close>, \<open>prior.then(() => mine)\<close>: it settles some time after \<open>prior\<close> has and the call has released
  \<open>mine\<close>.  A \<open>lc_prior\<close> of \<open>None\<close> is \<open>Promise.resolve()\<close>.  \<open>lc_awaits\<close> is the call whose answer the callback of
  this one awaits: a callback may ask for keys itself, and it ends only after what it awaits.
\<close>

datatype lock_phase = Waiting | Holding | Done

record 'k lock_call =
  lc_key :: 'k
  lc_prior :: "nat option"
  lc_awaits :: "nat option"
  lc_phase :: lock_phase
  lc_settled :: bool

record 'k keyed_lock =
  lk_tails :: "('k, nat) es_map"
  lk_calls :: "'k lock_call list"

definition fresh_lock :: "'k keyed_lock" where
  "fresh_lock = \<lparr>lk_tails = [], lk_calls = []\<rparr>"

definition tail_settled :: "'k keyed_lock \<Rightarrow> nat option \<Rightarrow> bool" where
  "tail_settled s p = (case p of None \<Rightarrow> True | Some c \<Rightarrow> lc_settled (lk_calls s ! c))"

text \<open>What the callback of a call awaits has answered.\<close>

definition wait_over :: "'k keyed_lock \<Rightarrow> 'k lock_call \<Rightarrow> bool" where
  "wait_over s x = (case lc_awaits x of None \<Rightarrow> True | Some d \<Rightarrow> lc_phase (lk_calls s ! d) = Done)"

text \<open>\<open>run\<close> up to \<open>await prior\<close>.\<close>

definition ask_lock :: "'k \<Rightarrow> 'k keyed_lock \<Rightarrow> 'k keyed_lock" where
  "ask_lock key s =
     \<lparr>lk_tails = map_put key (length (lk_calls s)) (lk_tails s),
      lk_calls = lk_calls s @ [\<lparr>lc_key = key, lc_prior = map_of (lk_tails s) key, lc_awaits = None,
         lc_phase = Waiting, lc_settled = False\<rparr>]\<rparr>"

text \<open>The \<open>finally\<close> of \<open>run\<close>, whichever way \<open>fn\<close> ended.\<close>

definition free_lock :: "nat \<Rightarrow> 'k keyed_lock \<Rightarrow> 'k keyed_lock" where
  "free_lock c s =
     (let key = lc_key (lk_calls s ! c)
      in s\<lparr>lk_calls := (lk_calls s)[c := (lk_calls s ! c)\<lparr>lc_phase := Done\<rparr>],
           lk_tails := (if map_of (lk_tails s) key = Some c then map_del key (lk_tails s) else lk_tails s)\<rparr>)"

text \<open>The promise \<open>idle\<close> answers.\<close>

definition idle_lock :: "'k \<Rightarrow> 'k keyed_lock \<Rightarrow> nat option" where
  "idle_lock key s = map_of (lk_tails s) key"

text \<open>
  The moves the lock makes of itself, and the end of a callback.  Anyone may ask at any time, a callback
  too; a callback that awaits nothing, or whose wait is over, may end or await a call it knows of.
\<close>

inductive lock_move :: "'k keyed_lock \<Rightarrow> 'k keyed_lock \<Rightarrow> bool" where
  enters:
    "c < length (lk_calls s) \<Longrightarrow> lc_phase (lk_calls s ! c) = Waiting \<Longrightarrow> tail_settled s (lc_prior (lk_calls s ! c)) \<Longrightarrow>
     lock_move s (s\<lparr>lk_calls := (lk_calls s)[c := (lk_calls s ! c)\<lparr>lc_phase := Holding\<rparr>]\<rparr>)"
| frees:
    "c < length (lk_calls s) \<Longrightarrow> lc_phase (lk_calls s ! c) = Holding \<Longrightarrow> wait_over s (lk_calls s ! c) \<Longrightarrow>
     lock_move s (free_lock c s)"
| settles:
    "c < length (lk_calls s) \<Longrightarrow> lc_phase (lk_calls s ! c) = Done \<Longrightarrow> \<not> lc_settled (lk_calls s ! c) \<Longrightarrow>
     tail_settled s (lc_prior (lk_calls s ! c)) \<Longrightarrow>
     lock_move s (s\<lparr>lk_calls := (lk_calls s)[c := (lk_calls s ! c)\<lparr>lc_settled := True\<rparr>]\<rparr>)"

inductive lock_step :: "'k keyed_lock \<Rightarrow> 'k keyed_lock \<Rightarrow> bool" where
  asks: "lock_step s (ask_lock key s)"
| awaits:
    "c < length (lk_calls s) \<Longrightarrow> lc_phase (lk_calls s ! c) = Holding \<Longrightarrow> wait_over s (lk_calls s ! c) \<Longrightarrow>
     d < length (lk_calls s) \<Longrightarrow>
     lock_step s (s\<lparr>lk_calls := (lk_calls s)[c := (lk_calls s ! c)\<lparr>lc_awaits := Some d\<rparr>]\<rparr>)"
| moves: "lock_move s s' \<Longrightarrow> lock_step s s'"

text \<open>What holds of the calls asked so far; \<open>before\<close> is an earlier call for the same key.\<close>

abbreviation before_call :: "'k keyed_lock \<Rightarrow> nat \<Rightarrow> nat \<Rightarrow> bool" where
  "before_call s b c \<equiv> b < c \<and> c < length (lk_calls s) \<and> lc_key (lk_calls s ! b) = lc_key (lk_calls s ! c)"

definition lock_ok :: "'k keyed_lock \<Rightarrow> bool" where
  "lock_ok s \<longleftrightarrow> entries_ok (lk_tails s)
     \<and> (\<forall>k c. map_of (lk_tails s) k = Some c \<longrightarrow> c < length (lk_calls s) \<and> lc_key (lk_calls s ! c) = k)
     \<and> (\<forall>c < length (lk_calls s). lc_phase (lk_calls s ! c) \<noteq> Done \<longrightarrow>
          (\<exists>m. map_of (lk_tails s) (lc_key (lk_calls s ! c)) = Some m \<and> c \<le> m))
     \<and> (\<forall>k c. map_of (lk_tails s) k = Some c \<longrightarrow> lc_phase (lk_calls s ! c) \<noteq> Done)
     \<and> (\<forall>c p. c < length (lk_calls s) \<longrightarrow> lc_prior (lk_calls s ! c) = Some p \<longrightarrow> before_call s p c)
     \<and> (\<forall>b c. before_call s b c \<longrightarrow> lc_phase (lk_calls s ! b) = Done \<or> (\<exists>p. lc_prior (lk_calls s ! c) = Some p \<and> b \<le> p))
     \<and> (\<forall>b c. before_call s b c \<longrightarrow> lc_phase (lk_calls s ! c) \<noteq> Waiting \<longrightarrow> lc_phase (lk_calls s ! b) = Done)
     \<and> (\<forall>c < length (lk_calls s). lc_settled (lk_calls s ! c) \<longrightarrow> lc_phase (lk_calls s ! c) = Done)"

lemma lock_okD:
  assumes "lock_ok s"
  shows "entries_ok (lk_tails s)"
    and "\<And>k c. map_of (lk_tails s) k = Some c \<Longrightarrow> c < length (lk_calls s) \<and> lc_key (lk_calls s ! c) = k \<and> lc_phase (lk_calls s ! c) \<noteq> Done"
    and "\<And>c. c < length (lk_calls s) \<Longrightarrow> lc_phase (lk_calls s ! c) \<noteq> Done \<Longrightarrow>
          \<exists>m. map_of (lk_tails s) (lc_key (lk_calls s ! c)) = Some m \<and> c \<le> m"
    and "\<And>c p. c < length (lk_calls s) \<Longrightarrow> lc_prior (lk_calls s ! c) = Some p \<Longrightarrow> before_call s p c"
    and "\<And>b c. before_call s b c \<Longrightarrow> lc_phase (lk_calls s ! b) = Done \<or> (\<exists>p. lc_prior (lk_calls s ! c) = Some p \<and> b \<le> p)"
    and "\<And>b c. before_call s b c \<Longrightarrow> lc_phase (lk_calls s ! c) \<noteq> Waiting \<Longrightarrow> lc_phase (lk_calls s ! b) = Done"
    and "\<And>c. c < length (lk_calls s) \<Longrightarrow> lc_settled (lk_calls s ! c) \<Longrightarrow> lc_phase (lk_calls s ! c) = Done"
proof -
  note p = assms [unfolded lock_ok_def, THEN conjunct2]
  note q = p [THEN conjunct2, THEN conjunct2] and r = p [THEN conjunct2, THEN conjunct2, THEN conjunct2, THEN conjunct2]
  show "entries_ok (lk_tails s)" using assms unfolding lock_ok_def by (rule conjunct1)
  show "map_of (lk_tails s) k = Some c \<Longrightarrow> c < length (lk_calls s) \<and> lc_key (lk_calls s ! c) = k \<and> lc_phase (lk_calls s ! c) \<noteq> Done" for k c
    using p [THEN conjunct1] q [THEN conjunct1] by blast
  show "c < length (lk_calls s) \<Longrightarrow> lc_phase (lk_calls s ! c) \<noteq> Done \<Longrightarrow>
      \<exists>m. map_of (lk_tails s) (lc_key (lk_calls s ! c)) = Some m \<and> c \<le> m" for c
    using p [THEN conjunct2, THEN conjunct1] by blast
  show "c < length (lk_calls s) \<Longrightarrow> lc_prior (lk_calls s ! c) = Some pr \<Longrightarrow> before_call s pr c" for c pr
    using q [THEN conjunct2, THEN conjunct1] by blast
  show "before_call s b c \<Longrightarrow> lc_phase (lk_calls s ! b) = Done \<or> (\<exists>p. lc_prior (lk_calls s ! c) = Some p \<and> b \<le> p)" for b c
    using r [THEN conjunct1] by blast
  show "before_call s b c \<Longrightarrow> lc_phase (lk_calls s ! c) \<noteq> Waiting \<Longrightarrow> lc_phase (lk_calls s ! b) = Done" for b c
    using r [THEN conjunct2, THEN conjunct1] by blast
  show "c < length (lk_calls s) \<Longrightarrow> lc_settled (lk_calls s ! c) \<Longrightarrow> lc_phase (lk_calls s ! c) = Done" for c
    using r [THEN conjunct2, THEN conjunct2] by blast
qed

lemma ask_ok:
  assumes ok: "lock_ok s"
  shows "lock_ok (ask_lock key s)"
proof -
  note d = lock_okD [OF ok]
  let ?n = "length (lk_calls s)" and ?t = "ask_lock key s"
  have old: "lk_calls ?t ! c = lk_calls s ! c" if "c < ?n" for c using that by (simp add: ask_lock_def nth_append)
  have new: "lk_calls ?t ! ?n = \<lparr>lc_key = key, lc_prior = map_of (lk_tails s) key, lc_awaits = None,
         lc_phase = Waiting, lc_settled = False\<rparr>"
    by (simp add: ask_lock_def)
  have len: "length (lk_calls ?t) = Suc ?n" by (simp add: ask_lock_def)
  have tl: "map_of (lk_tails ?t) k = (if k = key then Some ?n else map_of (lk_tails s) k)" for k
    by (simp add: ask_lock_def map_of_map_put)
  show ?thesis unfolding lock_ok_def len
  proof (intro conjI allI impI)
    show "entries_ok (lk_tails ?t)" using d(1) by (simp add: ask_lock_def es.ok_put)
    show "c < Suc ?n" "lc_key (lk_calls ?t ! c) = k" "lc_phase (lk_calls ?t ! c) \<noteq> Done" if "map_of (lk_tails ?t) k = Some c" for k c
      using that d(2) [of k c] new old [of c] by (auto simp: tl split: if_splits)
    show "\<exists>m. map_of (lk_tails ?t) (lc_key (lk_calls ?t ! c)) = Some m \<and> c \<le> m"
      if "c < Suc ?n" "lc_phase (lk_calls ?t ! c) \<noteq> Done" for c
      using that d(3) [of c] new old [of c] by (auto simp: tl less_Suc_eq)
    show "p < c" "c < Suc ?n" "lc_key (lk_calls ?t ! p) = lc_key (lk_calls ?t ! c)"
      if "c < Suc ?n" "lc_prior (lk_calls ?t ! c) = Some p" for c p
      using that d(4) [of c p] d(2) [of key p] new old [of c] old [of p] by (auto simp: less_Suc_eq)
    have earl: "lc_phase (lk_calls s ! b) = Done \<or> (\<exists>p. map_of (lk_tails s) key = Some p \<and> b \<le> p)"
      if "b < ?n" "lc_key (lk_calls s ! b) = key" for b
      using d(3) [OF that(1)] that(2) by auto
    show "lc_phase (lk_calls ?t ! b) = Done \<or> (\<exists>p. lc_prior (lk_calls ?t ! c) = Some p \<and> b \<le> p)"
      if "b < c \<and> c < Suc ?n \<and> lc_key (lk_calls ?t ! b) = lc_key (lk_calls ?t ! c)" for b c
      using that d(5) [of b c] new old [of c] old [of b] earl [of b] by (auto simp: less_Suc_eq)
    show "lc_phase (lk_calls ?t ! b) = Done"
      if "b < c \<and> c < Suc ?n \<and> lc_key (lk_calls ?t ! b) = lc_key (lk_calls ?t ! c)" "lc_phase (lk_calls ?t ! c) \<noteq> Waiting" for b c
      using that d(6) [of b c] new old [of c] old [of b] by (auto simp: less_Suc_eq)
    show "lc_phase (lk_calls ?t ! c) = Done" if "c < Suc ?n" "lc_settled (lk_calls ?t ! c)" for c
      using that d(7) [of c] new old [of c] by (auto simp: less_Suc_eq)
  qed
qed

text \<open>Why a call may go on when its \<open>prior\<close> has settled: everyone before it is done.\<close>

lemma all_before_done:
  assumes "lock_ok s" "before_call s b c" "tail_settled s (lc_prior (lk_calls s ! c))"
  shows "lc_phase (lk_calls s ! b) = Done"
proof (rule ccontr)
  note d = lock_okD [OF assms(1)]
  assume n: "lc_phase (lk_calls s ! b) \<noteq> Done"
  with d(5) [OF assms(2)] obtain p where p: "lc_prior (lk_calls s ! c) = Some p" "b \<le> p" by blast
  have c: "c < length (lk_calls s)" using assms(2) by blast
  note pc = d(4) [OF c p(1)]
  have "p < length (lk_calls s)" using pc by simp
  with d(7) [of p] assms(3) p(1) have pd: "lc_phase (lk_calls s ! p) = Done" by (simp add: tail_settled_def)
  with n p(2) have "b < p" by (cases "b = p") auto
  with pc assms(2) have "before_call s b p" by auto
  with d(6) pd n show False by auto
qed

text \<open>One call changed, its key and its \<open>prior\<close> kept.\<close>

lemma changed_call_ok:
  assumes ok: "lock_ok s" and c: "c < length (lk_calls s)"
    and x: "lc_key x = lc_key (lk_calls s ! c)" "lc_prior x = lc_prior (lk_calls s ! c)"
      "lc_settled x \<longrightarrow> lc_phase x = Done" "lc_phase (lk_calls s ! c) = Done \<longrightarrow> lc_phase x = Done"
      "lc_phase x \<noteq> Waiting"
    and before: "\<And>b. before_call s b c \<Longrightarrow> lc_phase (lk_calls s ! b) = Done"
    and t: "t = s\<lparr>lk_calls := (lk_calls s)[c := x],
        lk_tails := (if lc_phase x = Done \<and> map_of (lk_tails s) (lc_key x) = Some c then map_del (lc_key x) (lk_tails s) else lk_tails s)\<rparr>"
  shows "lock_ok t"
proof -
  note d = lock_okD [OF ok]
  have len: "length (lk_calls t) = length (lk_calls s)" by (simp add: t)
  have at0: "lk_calls t ! j = (if j = c then x else lk_calls s ! j)" for j using c by (simp add: t)
  have key: "lc_key (lk_calls t ! j) = lc_key (lk_calls s ! j)" and pri: "lc_prior (lk_calls t ! j) = lc_prior (lk_calls s ! j)" for j
    using x(1,2) by (simp_all add: at0)
  have still: "lc_phase (lk_calls s ! j) = Done \<Longrightarrow> lc_phase (lk_calls t ! j) = Done" for j using x(4) by (auto simp: at0)
  have tl: "map_of (lk_tails t) k = (if lc_phase x = Done \<and> k = lc_key x \<and> map_of (lk_tails s) k = Some c then None else map_of (lk_tails s) k)" for k
    by (auto simp: t map_of_map_del)
  show ?thesis unfolding lock_ok_def len key pri
  proof (intro conjI allI impI)
    show "entries_ok (lk_tails t)" using d(1) by (simp add: t es.ok_del)
    show "j < length (lk_calls s)" "lc_key (lk_calls s ! j) = k" if "map_of (lk_tails t) k = Some j" for k j
      using that d(2) [of k j] by (auto simp: tl split: if_splits)
    show "\<exists>m. map_of (lk_tails t) (lc_key (lk_calls s ! j)) = Some m \<and> j \<le> m"
      if j: "j < length (lk_calls s)" "lc_phase (lk_calls t ! j) \<noteq> Done" for j
    proof -
      have "lc_phase (lk_calls s ! j) \<noteq> Done" using still j(2) by blast
      then obtain m where m: "map_of (lk_tails s) (lc_key (lk_calls s ! j)) = Some m" "j \<le> m" using d(3) [OF j(1)] by blast
      have "\<not> (lc_phase x = Done \<and> lc_key (lk_calls s ! j) = lc_key x \<and> m = c)"
      proof
        assume a: "lc_phase x = Done \<and> lc_key (lk_calls s ! j) = lc_key x \<and> m = c"
        then have "j \<noteq> c" using j(2) by (auto simp: at0)
        with a m(2) have "before_call s j c" using x(1) c by simp
        with before \<open>lc_phase (lk_calls s ! j) \<noteq> Done\<close> show False by blast
      qed
      with m show ?thesis by (auto simp: tl)
    qed
    show "lc_phase (lk_calls t ! j) \<noteq> Done" if "map_of (lk_tails t) k = Some j" for k j
      using that d(2) [of k j] x(1) by (auto simp: tl at0 split: if_splits)
    show "p < j" "j < length (lk_calls s)" "lc_key (lk_calls s ! p) = lc_key (lk_calls s ! j)"
      if "j < length (lk_calls s)" "lc_prior (lk_calls s ! j) = Some p" for j p
      using d(4) [OF that] by auto
    show "lc_phase (lk_calls t ! b) = Done \<or> (\<exists>p. lc_prior (lk_calls s ! j) = Some p \<and> b \<le> p)"
      if "b < j \<and> j < length (lk_calls s) \<and> lc_key (lk_calls s ! b) = lc_key (lk_calls s ! j)" for b j
      using d(5) [OF that] still by blast
    show "lc_phase (lk_calls t ! b) = Done"
      if "b < j \<and> j < length (lk_calls s) \<and> lc_key (lk_calls s ! b) = lc_key (lk_calls s ! j)" "lc_phase (lk_calls t ! j) \<noteq> Waiting" for b j
    proof (cases "j = c")
      case True
      with before that(1) still show ?thesis by blast
    next
      case False
      with that(2) have "lc_phase (lk_calls s ! j) \<noteq> Waiting" by (simp add: at0)
      from d(6) [OF that(1) this] still show ?thesis by blast
    qed
    show "lc_phase (lk_calls t ! j) = Done" if "j < length (lk_calls s)" "lc_settled (lk_calls t ! j)" for j
      using that d(7) [of j] x(3) by (auto simp: at0 split: if_splits)
  qed
qed

lemma move_ok:
  assumes ok: "lock_ok s" and "lock_move s t"
  shows "lock_ok t"
  using assms(2)
proof cases
  case (enters c)
  let ?x = "(lk_calls s ! c)\<lparr>lc_phase := Holding\<rparr>"
  have "\<not> lc_settled (lk_calls s ! c)" using lock_okD(7) [OF ok enters(2)] enters(3) by auto
  then show ?thesis
    using changed_call_ok [OF ok enters(2), of ?x t] all_before_done [OF ok _ enters(4)] enters by simp
next
  case (frees c)
  let ?x = "(lk_calls s ! c)\<lparr>lc_phase := Done\<rparr>"
  show ?thesis
    using changed_call_ok [OF ok frees(2), of ?x t] lock_okD(6) [OF ok, of _ c] frees
    by (simp add: free_lock_def Let_def)
next
  case (settles c)
  let ?x = "(lk_calls s ! c)\<lparr>lc_settled := True\<rparr>"
  have "map_of (lk_tails s) (lc_key (lk_calls s ! c)) \<noteq> Some c" using lock_okD(2) [OF ok] settles(3) by blast
  then show ?thesis
    using changed_call_ok [OF ok settles(2), of ?x t] lock_okD(6) [OF ok, of _ c] settles by simp
qed

lemma lock_reaches_ok: "lock_step\<^sup>*\<^sup>* fresh_lock s \<Longrightarrow> lock_ok s"
proof (induction rule: rtranclp_induct)
  case base
  show ?case by (simp add: fresh_lock_def lock_ok_def entries_ok_def)
next
  case (step s t)
  from step.hyps(2) show ?case
  proof cases
    case (asks key)
    with ask_ok [OF step.IH] show ?thesis by simp
  next
    case (awaits c d)
    have "\<not> lc_settled (lk_calls s ! c)" using lock_okD(7) [OF step.IH awaits(2)] awaits(3) by auto
    with awaits show ?thesis
      using changed_call_ok [OF step.IH awaits(2), of "(lk_calls s ! c)\<lparr>lc_awaits := Some d\<rparr>" t] lock_okD(6) [OF step.IH, of _ c]
      by simp
  next
    case moves
    with move_ok [OF step.IH] show ?thesis by simp
  qed
qed

text \<open>
  The lock admits one call per key at a time, in the order they asked: when a call is let in,
  and from then on, every earlier call for its key is done, however the callbacks ended.
\<close>

theorem lock_in_turn:
  assumes "lock_step\<^sup>*\<^sup>* fresh_lock s" "b < c" "c < length (lk_calls s)"
    and "lc_key (lk_calls s ! b) = lc_key (lk_calls s ! c)" "lc_phase (lk_calls s ! c) \<noteq> Waiting"
  shows "lc_phase (lk_calls s ! b) = Done"
  using lock_okD(6) [OF lock_reaches_ok [OF assms(1)]] assms(2-) by blast

text \<open>How many moves are left to a call.\<close>

definition moves_left :: "'k lock_call \<Rightarrow> nat" where
  "moves_left x = (case lc_phase x of Waiting \<Rightarrow> 3 | Holding \<Rightarrow> 2 | Done \<Rightarrow> if lc_settled x then 0 else 1)"

lemma move_spends:
  assumes "lock_ok s" "lock_move s t"
  shows "sum_list (map moves_left (lk_calls s)) = Suc (sum_list (map moves_left (lk_calls t)))"
    "length (lk_calls t) = length (lk_calls s)"
proof -
  have spend: "sum_list (map moves_left xs) = Suc (sum_list (map moves_left (xs[c := x])))"
    if "c < length xs" "moves_left (xs ! c) = Suc (moves_left x)" for c x and xs :: "'k lock_call list"
    using that by (induction xs arbitrary: c) (auto simp: less_Suc_eq_0_disj)
  from assms(2) have "\<exists>c x. c < length (lk_calls s) \<and> moves_left (lk_calls s ! c) = Suc (moves_left x) \<and> lk_calls t = (lk_calls s)[c := x]"
  proof cases
    case (enters c)
    then show ?thesis by (intro exI [of _ c] exI [of _ "(lk_calls s ! c)\<lparr>lc_phase := Holding\<rparr>"]) (simp add: moves_left_def)
  next
    case (frees c)
    then have "\<not> lc_settled (lk_calls s ! c)" using lock_okD(7) [OF assms(1) frees(2)] by auto
    with frees show ?thesis
      by (intro exI [of _ c] exI [of _ "(lk_calls s ! c)\<lparr>lc_phase := Done\<rparr>"]) (simp add: moves_left_def free_lock_def Let_def)
  next
    case (settles c)
    then show ?thesis by (intro exI [of _ c] exI [of _ "(lk_calls s ! c)\<lparr>lc_settled := True\<rparr>"]) (simp add: moves_left_def)
  qed
  then show "sum_list (map moves_left (lk_calls s)) = Suc (sum_list (map moves_left (lk_calls t)))"
    "length (lk_calls t) = length (lk_calls s)" using spend by auto
qed

lemma moves_end:
  "(lock_move ^^ m) s t \<Longrightarrow> lock_ok s \<Longrightarrow> lock_ok t \<and> sum_list (map moves_left (lk_calls s)) = m + sum_list (map moves_left (lk_calls t))"
proof (induction m arbitrary: t)
  case (Suc m)
  then obtain u where u: "(lock_move ^^ m) s u" "lock_move u t" by auto
  with Suc.IH [OF u(1) Suc.prems(2)] move_spends(1) [of u t] move_ok [of u t] show ?case by auto
qed simp

lemma awaits_known:
  assumes "lock_step\<^sup>*\<^sup>* fresh_lock s" "c < length (lk_calls s)" "lc_awaits (lk_calls s ! c) = Some d"
  shows "d < length (lk_calls s)"
  using assms
proof (induction arbitrary: c d rule: rtranclp_induct)
  case base
  then show ?case by (simp add: fresh_lock_def)
next
  case (step s t)
  from step.hyps(2) show ?case
  proof cases
    case (asks key)
    with step.prems step.IH [of c d] show ?thesis by (fastforce simp: ask_lock_def nth_append less_Suc_eq split: if_splits)
  next
    case (awaits b e)
    with step.prems step.IH [of c d] show ?thesis by (cases "c = b") auto
  next
    case moves
    then have "length (lk_calls t) = length (lk_calls s) \<and> map lc_awaits (lk_calls t) = map lc_awaits (lk_calls s)"
      by cases (simp_all add: free_lock_def Let_def map_update list_update_same_conv)
    with step.prems step.IH [of c d] show ?thesis by (metis nth_map)
  qed
qed

text \<open>A tail behind calls that are done settles.\<close>

lemma done_settles:
  assumes ok: "lock_ok s" and stuck: "\<And>t. \<not> lock_move s t" and c: "c < length (lk_calls s)"
    and "lc_phase (lk_calls s ! c) = Done"
  shows "lc_settled (lk_calls s ! c)"
  using c assms(4)
proof (induction c rule: less_induct)
  case (less c)
  have "tail_settled s (lc_prior (lk_calls s ! c))"
  proof (cases "lc_prior (lk_calls s ! c)")
    case (Some p)
    have p: "before_call s p c" using lock_okD(4) [OF ok less.prems(1) Some] .
    then have "lc_phase (lk_calls s ! p) = Done" using lock_okD(6) [OF ok p] less.prems(2) by simp
    with less.IH [of p] p less.prems(1) Some show ?thesis by (simp add: tail_settled_def)
  qed (simp add: tail_settled_def)
  with stuck lock_move.settles [OF less.prems] show ?case by blast
qed

text \<open>When none can move, the first call for a key that is not done has a callback that awaits one that is not.\<close>

lemma first_undone_awaits:
  assumes ok: "lock_ok s" and stuck: "\<And>t. \<not> lock_move s t" and c: "c < length (lk_calls s)"
    and undone: "lc_phase (lk_calls s ! c) \<noteq> Done"
    and first: "\<And>b. before_call s b c \<Longrightarrow> lc_phase (lk_calls s ! b) = Done"
  shows "\<exists>d. lc_awaits (lk_calls s ! c) = Some d \<and> lc_phase (lk_calls s ! d) \<noteq> Done"
proof -
  have "tail_settled s (lc_prior (lk_calls s ! c))"
  proof (cases "lc_prior (lk_calls s ! c)")
    case (Some p)
    have p: "before_call s p c" using lock_okD(4) [OF ok c Some] .
    with done_settles [OF ok stuck, of p] first [OF p] Some c show ?thesis by (simp add: tail_settled_def)
  qed (simp add: tail_settled_def)
  with stuck lock_move.enters [OF c] undone have "lc_phase (lk_calls s ! c) = Holding"
    by (cases "lc_phase (lk_calls s ! c)") auto
  with stuck lock_move.frees [OF c] have "\<not> wait_over s (lk_calls s ! c)" by blast
  then show ?thesis by (auto simp: wait_over_def split: option.splits)
qed

text \<open>The callbacks take their keys in an order: what a callback awaits is for a key of a greater rank.\<close>

definition nested_upward :: "('k \<Rightarrow> nat) \<Rightarrow> 'k keyed_lock \<Rightarrow> bool" where
  "nested_upward rank s = list_all (\<lambda>x. case lc_awaits x of None \<Rightarrow> True
     | Some d \<Rightarrow> rank (lc_key x) < rank (lc_key (lk_calls s ! d))) (lk_calls s)"

lemma lock_progress:
  assumes reach: "lock_step\<^sup>*\<^sup>* fresh_lock s" and up: "nested_upward rank s"
    and stuck: "\<And>t. \<not> lock_move s t" and c: "c < length (lk_calls s)"
  shows "lc_phase (lk_calls s ! c) = Done"
proof (rule ccontr)
  note ok = lock_reaches_ok [OF reach]
  define U where "U = {c. c < length (lk_calls s) \<and> lc_phase (lk_calls s ! c) \<noteq> Done}"
  define r where "r = (\<lambda>c. rank (lc_key (lk_calls s ! c)))"
  assume "lc_phase (lk_calls s ! c) \<noteq> Done"
  with c have "c \<in> U" by (simp add: U_def)
  moreover have fin: "finite U" by (simp add: U_def)
  ultimately obtain m where m: "m \<in> U" "r m = Max (r ` U)" by (metis Max_in empty_iff finite_imageI imageE image_is_empty)
  have top: "r d \<le> r m" if "d \<in> U" for d using that fin by (simp add: m(2))
  define V where "V = {c \<in> U. lc_key (lk_calls s ! c) = lc_key (lk_calls s ! m)}"
  have V: "finite V" "m \<in> V" using fin m(1) by (simp_all add: V_def)
  define f where "f = Min V"
  have f: "f \<in> V" unfolding f_def using V by (metis Min_in empty_iff)
  have least: "f \<le> b" if "b \<in> V" for b using that V(1) by (simp add: f_def)
  have "lc_phase (lk_calls s ! b) = Done" if "before_call s b f" for b
    using that least [of b] f by (auto simp: V_def U_def)
  with first_undone_awaits [OF ok stuck, of f] f
  obtain d where d: "lc_awaits (lk_calls s ! f) = Some d" "lc_phase (lk_calls s ! d) \<noteq> Done" by (auto simp: V_def U_def)
  have fl: "f < length (lk_calls s)" using f by (simp add: V_def U_def)
  with awaits_known [OF reach _ d(1)] d(2) have "d \<in> U" by (simp add: U_def)
  then have "r d \<le> r f" using top [of d] f by (simp add: V_def r_def)
  moreover have "r f < r d" using up fl d(1) by (auto simp: nested_upward_def list_all_length r_def dest!: spec [of _ f])
  ultimately show False by simp
qed

lemma moves_are_steps: "(lock_move ^^ m) s t \<Longrightarrow> lock_step\<^sup>*\<^sup>* s t"
proof -
  assume "(lock_move ^^ m) s t"
  then have "lock_move\<^sup>*\<^sup>* s t" by (rule relpowp_imp_rtranclp)
  then show ?thesis by (rule rtranclp_mono [THEN predicate2D, rotated]) (auto intro: moves)
qed

text \<open>
  Property C35: no caller waits for ever where the callbacks end and take their keys in an order: a callback
  awaits only calls for keys of a greater rank (or none at all).  Once nobody asks any more, the lock and the
  callbacks make at most three moves per call asked, and when none is left to make every call has run, every
  promise of a tail is settled and no key is kept in the map.  All along, the callbacks of one key run one at
  a time and in the order in which they were asked.
\<close>

theorem lock_lets_all_through:
  assumes "lock_step\<^sup>*\<^sup>* fresh_lock s" "(lock_move ^^ m) s t" "nested_upward rank t"
  shows "m \<le> 3 * length (lk_calls s)
    \<and> (\<forall>b c. before_call t b c \<longrightarrow> lc_phase (lk_calls t ! b) = Done \<or> lc_phase (lk_calls t ! c) = Waiting)
    \<and> ((\<exists>u. lock_move t u) \<or> lk_tails t = [] \<and> list_all (\<lambda>x. lc_phase x = Done \<and> lc_settled x) (lk_calls t))"
proof -
  have ok: "lock_ok s" by (rule lock_reaches_ok [OF assms(1)])
  have rt: "lock_step\<^sup>*\<^sup>* fresh_lock t" using assms(1) moves_are_steps [OF assms(2)] by (rule rtranclp_trans)
  note e = moves_end [OF assms(2) ok]
  have "sum_list (map moves_left xs) \<le> 3 * length xs" for xs :: "'a lock_call list"
    by (induction xs) (auto simp: moves_left_def split: lock_phase.split)
  with e have "m \<le> 3 * length (lk_calls s)" by (metis le_add1 order_trans)
  moreover have "lk_tails t = [] \<and> list_all (\<lambda>x. lc_phase x = Done \<and> lc_settled x) (lk_calls t)" if "\<not> (\<exists>u. lock_move t u)"
  proof -
    have okt: "lock_ok t" using e by blast
    have st: "lc_settled (lk_calls t ! c) \<and> lc_phase (lk_calls t ! c) = Done" if "c < length (lk_calls t)" for c
      using lock_progress [OF rt assms(3) _ that] done_settles [OF okt _ that] \<open>\<not> (\<exists>u. lock_move t u)\<close> by blast
    have "map_of (lk_tails t) k = None" for k
      using lock_okD(2) [OF okt, of k] st by (cases "map_of (lk_tails t) k") auto
    then have "map_of (lk_tails t) = Map.empty" by blast
    with st show ?thesis by (simp add: list_all_length)
  qed
  moreover have "lc_phase (lk_calls t ! b) = Done \<or> lc_phase (lk_calls t ! c) = Waiting" if "before_call t b c" for b c
    using lock_okD(6) [of t b c] e that by blast
  ultimately show ?thesis by blast
qed

text \<open>A holder that awaits a call for its own key: neither it nor anyone behind it moves again.\<close>

definition self_blocked :: "nat \<Rightarrow> nat \<Rightarrow> 'k keyed_lock \<Rightarrow> bool" where
  "self_blocked c d s \<longleftrightarrow> before_call s c d \<and> lc_phase (lk_calls s ! c) = Holding \<and> lc_awaits (lk_calls s ! c) = Some d"

lemma self_blocked_stays:
  assumes "lock_ok s" "self_blocked c d s" "lock_step s t"
  shows "self_blocked c d t"
proof -
  note b = assms(2) [unfolded self_blocked_def]
  have "lc_phase (lk_calls s ! d) \<noteq> Done" "\<not> wait_over s (lk_calls s ! c)"
    using lock_okD(6) [OF assms(1), of c d] b by (auto simp: wait_over_def)
  with assms(3) b show ?thesis
  proof cases
    case (asks key)
    with b show ?thesis by (auto simp: self_blocked_def ask_lock_def nth_append)
  next
    case (awaits e f)
    with b \<open>\<not> wait_over s (lk_calls s ! c)\<close> show ?thesis by (cases "e = c"; cases "e = d"; auto simp: self_blocked_def)
  next
    case moves
    then show ?thesis
    proof cases
      case (enters e)
      with b show ?thesis by (cases "e = c"; cases "e = d"; auto simp: self_blocked_def)
    next
      case (frees e)
      with b \<open>\<not> wait_over s (lk_calls s ! c)\<close> show ?thesis
        by (cases "e = c"; cases "e = d"; auto simp: self_blocked_def free_lock_def Let_def)
    next
      case (settles e)
      with b show ?thesis by (cases "e = c"; cases "e = d"; auto simp: self_blocked_def)
    qed
  qed
qed

text \<open>
  Property C36: the lock is not re-entrant.  When the callback that holds a key awaits a call for that key asked
  after its own, it never ends: whatever anyone does afterwards, it holds the key and every later call for
  that key, the one it awaits among them, still waits.
\<close>

theorem nested_ask_never_in:
  assumes "lock_step\<^sup>*\<^sup>* fresh_lock s" "self_blocked c d s" "lock_step\<^sup>*\<^sup>* s t"
    and "c < e" "e < length (lk_calls t)" "lc_key (lk_calls t ! e) = lc_key (lk_calls t ! c)"
  shows "lc_phase (lk_calls t ! c) = Holding \<and> lc_phase (lk_calls t ! d) = Waiting \<and> lc_phase (lk_calls t ! e) = Waiting"
proof -
  from assms(3) have "self_blocked c d t \<and> lock_ok t"
  proof (induction rule: rtranclp_induct)
    case base
    show ?case using assms(2) lock_reaches_ok [OF assms(1)] by simp
  next
    case (step u v)
    have "lock_step\<^sup>*\<^sup>* fresh_lock v" using assms(1) step.hyps by (meson rtranclp.rtrancl_into_rtrancl rtranclp_trans)
    with step.IH self_blocked_stays [OF _ _ step.hyps(2)] lock_reaches_ok show ?case by blast
  qed
  then have b: "self_blocked c d t" and ok: "lock_ok t" by simp_all
  have "lc_phase (lk_calls t ! c) \<noteq> Done" using b by (simp add: self_blocked_def)
  with lock_okD(6) [OF ok, of c d] lock_okD(6) [OF ok, of c e] b assms(4-6) show ?thesis by (auto simp: self_blocked_def)
qed

section \<open>Concrete runs\<close>

definition demo_limiter :: "(string, nat) limiter" where
  "demo_limiter = projr (keyed_limiter 1 2)"

definition demo_submits :: "(string, nat) limiter" where
  "demo_submits = fst (submit ''a'' 8 (fst (submit ''a'' 7 demo_limiter)))"

lemma demo_limiter_reaches:
  "limiter_reaches 1 2 \<lparr>lr_state = demo_submits, lr_admitted = [(''a'', 7), (''a'', 8)], lr_returned = []\<rparr>"
proof -
  have a: "snd (submit ''a'' 7 demo_limiter) = Started" "snd (submit ''a'' 8 (fst (submit ''a'' 7 demo_limiter))) = Queued"
    by code_simp+
  let ?r = "\<lambda>s as. \<lparr>lr_state = s, lr_admitted = as, lr_returned = []\<rparr> :: (string, nat) limiter_run"
  have 1: "limiter_step (?r demo_limiter []) (?r (fst (submit ''a'' 7 demo_limiter)) [(''a'', 7)])"
    using submits [of "''a''" 7 demo_limiter "fst (submit ''a'' 7 demo_limiter)" Started "[]" "[]"] a(1)
    by (simp add: prod_eq_iff)
  have 2: "limiter_step (?r (fst (submit ''a'' 7 demo_limiter)) [(''a'', 7)]) (?r demo_submits [(''a'', 7), (''a'', 8)])"
    using submits [of "''a''" 8 "fst (submit ''a'' 7 demo_limiter)" demo_submits Queued "[(''a'', 7)]" "[]"] a(2)
    by (simp add: prod_eq_iff demo_submits_def)
  have "keyed_limiter 1 2 = Inr demo_limiter" by (simp add: demo_limiter_def keyed_limiter_def)
  with converse_rtranclp_into_rtranclp [OF 1 r_into_rtranclp [of limiter_step, OF 2]] show ?thesis
    by (auto simp: limiter_reaches_def)
qed

lemma limiter_within_bounds_witness:
  "length (filter (\<lambda>x. fst x = ''a'') (lm_runs demo_submits)) = 1 \<and> int (1 + length (queued_of demo_submits ''a'')) \<le> 2"
proof -
  have "length (filter (\<lambda>x. fst x = ''a'') (lm_runs demo_submits)) = 1" by code_simp
  with limiter_within_bounds [OF demo_limiter_reaches, of "''a''"] show ?thesis by (simp add: Let_def)
qed

lemma limiter_keeps_order_witness: "[7, 8] = items_of ''a'' (lm_log demo_submits) @ queued_of demo_submits ''a''"
  using limiter_keeps_order [OF demo_limiter_reaches, of "''a''"] by simp

definition demo_lock :: "string keyed_lock" where
  "demo_lock = ask_lock ''k'' (ask_lock ''k'' fresh_lock)"

lemma demo_lock_reaches: "lock_step\<^sup>*\<^sup>* fresh_lock demo_lock"
  unfolding demo_lock_def by (meson asks rtranclp.rtrancl_into_rtrancl rtranclp.rtrancl_refl)

definition demo_entered :: "string keyed_lock" where
  "demo_entered = (let s0 = demo_lock\<lparr>lk_calls := (lk_calls demo_lock)[0 := (lk_calls demo_lock ! 0)\<lparr>lc_phase := Holding\<rparr>]\<rparr>;
      s1 = free_lock 0 s0; s2 = s1\<lparr>lk_calls := (lk_calls s1)[0 := (lk_calls s1 ! 0)\<lparr>lc_settled := True\<rparr>]\<rparr>
    in s2\<lparr>lk_calls := (lk_calls s2)[1 := (lk_calls s2 ! 1)\<lparr>lc_phase := Holding\<rparr>]\<rparr>)"

lemma four_steps: "R a b \<Longrightarrow> R b c \<Longrightarrow> R c d \<Longrightarrow> R d e \<Longrightarrow> (R ^^ (4 :: nat)) a e"
  for R :: "'x \<Rightarrow> 'x \<Rightarrow> bool"
  by (auto simp: eval_nat_numeral)

lemma demo_moves: "(lock_move ^^ 4) demo_lock demo_entered"
proof -
  have 1: "lock_move demo_lock (demo_lock\<lparr>lk_calls := (lk_calls demo_lock)[0 := (lk_calls demo_lock ! 0)\<lparr>lc_phase := Holding\<rparr>]\<rparr>)"
    (is "lock_move _ ?s0") by (rule enters; code_simp)
  have 2: "lock_move ?s0 (free_lock 0 ?s0)" (is "lock_move _ ?s1") by (rule frees; code_simp)
  have 3: "lock_move ?s1 (?s1\<lparr>lk_calls := (lk_calls ?s1)[0 := (lk_calls ?s1 ! 0)\<lparr>lc_settled := True\<rparr>]\<rparr>)"
    (is "lock_move _ ?s2") by (rule settles; code_simp)
  have 4: "lock_move ?s2 demo_entered" unfolding demo_entered_def Let_def by (rule enters; code_simp)
  show ?thesis by (rule four_steps, rule 1, rule 2, rule 3, rule 4)
qed

lemma demo_entered_reaches: "lock_step\<^sup>*\<^sup>* fresh_lock demo_entered"
proof -
  have "lock_move\<^sup>*\<^sup>* demo_lock demo_entered" by (rule relpowp_imp_rtranclp [OF demo_moves])
  then have "lock_step\<^sup>*\<^sup>* demo_lock demo_entered" by (rule rtranclp_mono [THEN predicate2D, rotated]) (auto intro: moves)
  with demo_lock_reaches show ?thesis by (rule rtranclp_trans)
qed

lemma lock_in_turn_witness: "lc_phase (lk_calls demo_entered ! 1) = Holding \<and> lc_phase (lk_calls demo_entered ! 0) = Done"
proof -
  have "lc_phase (lk_calls demo_entered ! 1) = Holding" "1 < length (lk_calls demo_entered)"
    "lc_key (lk_calls demo_entered ! 0) = lc_key (lk_calls demo_entered ! 1)" by code_simp+
  with lock_in_turn [OF demo_entered_reaches, of 0 1] show ?thesis by simp
qed

text \<open>A callback that takes a second key of a greater rank while it holds the first.\<close>

definition demo_nested :: "string keyed_lock" where
  "demo_nested = (let s0 = ask_lock ''k'' fresh_lock;
      s1 = s0\<lparr>lk_calls := (lk_calls s0)[0 := (lk_calls s0 ! 0)\<lparr>lc_phase := Holding\<rparr>]\<rparr>;
      s2 = ask_lock ''kk'' s1
    in s2\<lparr>lk_calls := (lk_calls s2)[0 := (lk_calls s2 ! 0)\<lparr>lc_awaits := Some 1\<rparr>]\<rparr>)"

definition demo_inner_done :: "string keyed_lock" where
  "demo_inner_done = (let s0 = demo_nested\<lparr>lk_calls := (lk_calls demo_nested)[1 := (lk_calls demo_nested ! 1)\<lparr>lc_phase := Holding\<rparr>]\<rparr>
    in free_lock 0 (free_lock 1 s0))"

text \<open>A callback that awaits a call for the key it holds.\<close>

definition demo_reentered :: "string keyed_lock" where
  "demo_reentered = (let s0 = ask_lock ''k'' fresh_lock;
      s1 = s0\<lparr>lk_calls := (lk_calls s0)[0 := (lk_calls s0 ! 0)\<lparr>lc_phase := Holding\<rparr>]\<rparr>;
      s2 = ask_lock ''k'' s1
    in s2\<lparr>lk_calls := (lk_calls s2)[0 := (lk_calls s2 ! 0)\<lparr>lc_awaits := Some 1\<rparr>]\<rparr>)"

lemma nested_reaches:
  assumes "t = (let s0 = ask_lock k fresh_lock;
      s1 = s0\<lparr>lk_calls := (lk_calls s0)[0 := (lk_calls s0 ! 0)\<lparr>lc_phase := Holding\<rparr>]\<rparr>;
      s2 = ask_lock k' s1
    in s2\<lparr>lk_calls := (lk_calls s2)[0 := (lk_calls s2 ! 0)\<lparr>lc_awaits := Some 1\<rparr>]\<rparr>)"
  shows "lock_step\<^sup>*\<^sup>* fresh_lock t"
proof -
  let ?s0 = "ask_lock k fresh_lock"
  let ?s1 = "?s0\<lparr>lk_calls := (lk_calls ?s0)[0 := (lk_calls ?s0 ! 0)\<lparr>lc_phase := Holding\<rparr>]\<rparr>"
  let ?s2 = "ask_lock k' ?s1"
  have "lock_step fresh_lock ?s0" by (rule asks)
  moreover have "lock_step ?s0 ?s1"
    by (rule moves, rule enters) (simp_all add: ask_lock_def fresh_lock_def tail_settled_def)
  moreover have "lock_step ?s1 ?s2" by (rule asks)
  moreover have "lock_step ?s2 t" unfolding assms Let_def
    by (rule awaits) (simp_all add: ask_lock_def fresh_lock_def wait_over_def)
  ultimately show ?thesis by (meson rtranclp.rtrancl_into_rtrancl rtranclp.rtrancl_refl)
qed

lemma demo_nested_moves: "(lock_move ^^ 3) demo_nested demo_inner_done"
proof -
  have 1: "lock_move demo_nested (demo_nested\<lparr>lk_calls := (lk_calls demo_nested)[1 := (lk_calls demo_nested ! 1)\<lparr>lc_phase := Holding\<rparr>]\<rparr>)"
    (is "lock_move _ ?s0") by (rule enters; code_simp)
  have 2: "lock_move ?s0 (free_lock 1 ?s0)" (is "lock_move _ ?s1") by (rule frees; code_simp)
  have 3: "lock_move ?s1 demo_inner_done" unfolding demo_inner_done_def Let_def by (rule frees; code_simp)
  show ?thesis using 1 2 3 by (auto simp: eval_nat_numeral)
qed

lemma lock_lets_all_through_witness:
  "(3::nat) \<le> 3 * length (lk_calls demo_nested) \<and> list_all (\<lambda>x. lc_phase x = Done) (lk_calls demo_inner_done)
    \<and> (\<exists>u. lock_move demo_inner_done u)"
proof -
  have "nested_upward length demo_inner_done" "list_all (\<lambda>x. lc_phase x = Done) (lk_calls demo_inner_done)"
    "lk_calls demo_inner_done ! 1 = \<lparr>lc_key = ''kk'', lc_prior = None, lc_awaits = None, lc_phase = Done, lc_settled = False\<rparr>"
    "1 < length (lk_calls demo_inner_done)" by code_simp+
  moreover from this have "\<not> list_all (\<lambda>x. lc_phase x = Done \<and> lc_settled x) (lk_calls demo_inner_done)"
    by (auto simp: list_all_length intro!: exI [of _ 1])
  ultimately show ?thesis
    using lock_lets_all_through [OF nested_reaches [OF demo_nested_def] demo_nested_moves, of length] by blast
qed

lemma nested_ask_never_in_witness:
  "lc_phase (lk_calls (ask_lock ''k'' demo_reentered) ! 0) = Holding \<and> lc_phase (lk_calls (ask_lock ''k'' demo_reentered) ! 1) = Waiting
    \<and> lc_phase (lk_calls (ask_lock ''k'' demo_reentered) ! 2) = Waiting"
proof -
  have b: "self_blocked 0 1 demo_reentered" unfolding self_blocked_def by code_simp
  have k: "2 < length (lk_calls (ask_lock ''k'' demo_reentered))"
    "lc_key (lk_calls (ask_lock ''k'' demo_reentered) ! 2) = lc_key (lk_calls (ask_lock ''k'' demo_reentered) ! 0)" by code_simp+
  have "lock_step\<^sup>*\<^sup>* demo_reentered (ask_lock ''k'' demo_reentered)" using asks by (rule r_into_rtranclp)
  from nested_ask_never_in [OF nested_reaches [OF demo_reentered_def] b this _ k] show ?thesis by simp
qed

end
