(* ===== verification/Schema_Types.thy ===== *)
theory Schema_Types
  imports Js_Object "HOL-Library.List_Lexorder" "HOL-Library.Char_ord"
begin

text \<open>
  What a record is judged by and how it is read: JSON values, the schema of a space
  (\<open>schema/src/vocabulary.ts\<close>), references to the library resolved (\<open>spaces/schema-validation.ts\<close>), the
  views of records (\<open>brain/record-view.ts\<close>) and the running of a pattern.  A plain object is the list of
  its own entries in enumeration order.
\<close>

section \<open>Values\<close>

text \<open>What \<open>unknown\<close> can be: a JSON value or \<open>undefined\<close>.\<close>

datatype json = Undef | JNull | JBool bool | JNum rat | JStr string | JArr "json list" | JObj "(string \<times> json) list"

fun typeof :: "json \<Rightarrow> string" where
  "typeof Undef = ''undefined''"
| "typeof (JBool _) = ''boolean''"
| "typeof (JNum _) = ''number''"
| "typeof (JStr _) = ''string''"
| "typeof _ = ''object''"

definition is_plain_object :: "json \<Rightarrow> bool" where
  "is_plain_object v = (case v of JObj _ \<Rightarrow> True | _ \<Rightarrow> False)"

text \<open>\<open>ownValue\<close> of an object: \<open>undefined\<close> for a key it does not hold.\<close>

definition own_value :: "(string \<times> json) list \<Rightarrow> string \<Rightarrow> json" where
  "own_value r key = (case map_of r key of None \<Rightarrow> Undef | Some v \<Rightarrow> v)"

abbreviation nullish :: "json \<Rightarrow> bool" where
  "nullish v \<equiv> v = Undef \<or> v = JNull"

section \<open>Schemas\<close>

datatype value_type = T_string | T_number | T_boolean | T_date

datatype kind = K_entity | K_fact | K_edge | K_chrono

definition KNOWLEDGE_TYPES :: "kind list" where
  "KNOWLEDGE_TYPES = [K_entity, K_fact, K_edge, K_chrono]"

text \<open>\<open>ps_default\<close> is \<open>Undef\<close> where there is none.\<close>

record property_schema =
  ps_type :: "value_type option"
  ps_enum :: "json list option"
  ps_minimum :: "rat option"
  ps_maximum :: "rat option"
  ps_pattern :: "string option"
  ps_required :: bool
  ps_default :: json

record stored_rule =
  ru_rule :: string
  ru_message :: string
  ru_kinds :: "kind list option"

text \<open>The fields of a type that a check reads; \<open>ts_ref\<close> is \<open>$ref\<close>.\<close>

record type_schema =
  ts_ref :: "string option"
  ts_unresolvedRef :: "string option"
  ts_namingPattern :: "string option"
  ts_propertySchemas :: "(string \<times> property_schema) list option"
  ts_endpoints :: "(string list option \<times> string list option) option"
  ts_functional :: bool
  ts_rules :: "(string \<times> stored_rule) list option"

datatype validation_mode = Mode_off | Mode_warn | Mode_strict

record space_meta =
  sm_validationMode :: "validation_mode option"
  sm_typeSchemas :: "(kind \<times> (string \<times> type_schema) list) list option"
  sm_rules :: "(string \<times> stored_rule) list option"

section \<open>References to the library\<close>

definition LIBRARY_REF_PREFIX :: string where
  "LIBRARY_REF_PREFIX = ''library:''"

definition library_entry_name_of :: "string \<Rightarrow> string option" where
  "library_entry_name_of ref =
     (if take (length LIBRARY_REF_PREFIX) ref = LIBRARY_REF_PREFIX then Some (drop (length LIBRARY_REF_PREFIX) ref) else None)"

text \<open>The library is the list of its entries, name and schema.\<close>

definition resolve_type_schema :: "(string \<times> type_schema) list \<Rightarrow> type_schema \<Rightarrow> type_schema option" where
  "resolve_type_schema lib schema =
     (if \<not> truthy_str (ts_ref schema) then Some schema
      else case library_entry_name_of (the (ts_ref schema)) of
          Some name \<Rightarrow> map_option snd (List.find (\<lambda>e. fst e = name) lib)
        | None \<Rightarrow> None)"

definition empty_type :: type_schema where
  "empty_type = \<lparr>ts_ref = None, ts_unresolvedRef = None, ts_namingPattern = None, ts_propertySchemas = None,
     ts_endpoints = None, ts_functional = False, ts_rules = None\<rparr>"

definition resolved_or_marked :: "(string \<times> type_schema) list \<Rightarrow> type_schema \<Rightarrow> type_schema" where
  "resolved_or_marked lib schema =
     (if truthy_str (ts_ref schema)
      then (case resolve_type_schema lib schema of Some r \<Rightarrow> r | None \<Rightarrow> empty_type\<lparr>ts_unresolvedRef := ts_ref schema\<rparr>)
      else schema)"

definition has_ref :: "(kind \<times> (string \<times> type_schema) list) list \<Rightarrow> bool" where
  "has_ref tss = list_ex (\<lambda>(_, m). list_ex (\<lambda>(_, s). truthy_str (ts_ref s)) m) tss"

definition resolve_meta_refs :: "(string \<times> type_schema) list \<Rightarrow> space_meta \<Rightarrow> space_meta" where
  "resolve_meta_refs lib meta =
     (case sm_typeSchemas meta of
        None \<Rightarrow> meta
      | Some tss \<Rightarrow>
          if has_ref tss
          then meta\<lparr>sm_typeSchemas := Some (map (\<lambda>(k, m). (k, map (\<lambda>(n, s). (n, resolved_or_marked lib s)) m)) tss)\<rparr>
          else meta)"

definition inline_resolvable_refs :: "(string \<times> type_schema) list \<Rightarrow> space_meta \<Rightarrow> space_meta" where
  "inline_resolvable_refs lib meta =
     (case sm_typeSchemas meta of
        None \<Rightarrow> meta
      | Some tss \<Rightarrow>
          let resolved = (\<lambda>s. if truthy_str (ts_ref s) then resolve_type_schema lib s else None)
          in if list_ex (\<lambda>(_, m). list_ex (\<lambda>(_, s). resolved s \<noteq> None) m) tss
             then meta\<lparr>sm_typeSchemas := Some (map (\<lambda>(k, m). (k, map (\<lambda>(n, s). (n, case resolved s of Some r \<Rightarrow> r | None \<Rightarrow> s)) m)) tss)\<rparr>
             else meta)"

definition get_space_meta :: "(string \<times> type_schema) list \<Rightarrow> (string \<times> space_meta option) list \<Rightarrow> string \<Rightarrow> space_meta option" where
  "get_space_meta lib spaces spaceId =
     (case List.find (\<lambda>s. fst s = spaceId) spaces of
        None \<Rightarrow> None
      | Some s \<Rightarrow> map_option (resolve_meta_refs lib) (snd s))"

section \<open>The view of a record\<close>

record record_view =
  rv_title :: "string option"
  rv_type :: "string option"
  rv_label :: "string option"
  rv_description :: string
  rv_tags :: "string list"
  rv_properties :: "(string \<times> json) list"

datatype view_field = F_title | F_type | F_label | F_description | F_tags | F_properties

definition VIEW_FIELDS :: "kind \<Rightarrow> view_field list" where
  "VIEW_FIELDS k = (if k = K_edge then [F_label, F_description, F_tags, F_properties]
                    else [F_title, F_type, F_description, F_tags, F_properties])"

definition text_of :: "json \<Rightarrow> string option" where
  "text_of v = (case v of JStr s \<Rightarrow> Some s | _ \<Rightarrow> None)"

definition endpoint_name_field :: "kind \<Rightarrow> string" where
  "endpoint_name_field k = (case k of K_entity \<Rightarrow> ''name'' | K_fact \<Rightarrow> ''fact'' | _ \<Rightarrow> ''title'')"

definition record_title_of :: "kind \<Rightarrow> (string \<times> json) list \<Rightarrow> string option" where
  "record_title_of k r = text_of (own_value r (endpoint_name_field k))"

definition record_view_of :: "kind \<Rightarrow> (string \<times> json) list \<Rightarrow> record_view" where
  "record_view_of k r =
     \<lparr>rv_title = (if F_title \<in> set (VIEW_FIELDS k) then record_title_of k r else None),
      rv_type = (if F_type \<in> set (VIEW_FIELDS k) then text_of (own_value r ''type'') else None),
      rv_label = (if F_label \<in> set (VIEW_FIELDS k) then text_of (own_value r ''label'') else None),
      rv_description = (case text_of (own_value r ''description'') of Some s \<Rightarrow> s | None \<Rightarrow> []),
      rv_tags = (case own_value r ''tags'' of JArr xs \<Rightarrow> List.map_filter text_of xs | _ \<Rightarrow> []),
      rv_properties = (case own_value r ''properties'' of JObj p \<Rightarrow> p | _ \<Rightarrow> [])\<rparr>"

definition view_field_value :: "record_view \<Rightarrow> view_field \<Rightarrow> json" where
  "view_field_value v f =
     (case f of
        F_title \<Rightarrow> JStr (case rv_title v of Some s \<Rightarrow> s | None \<Rightarrow> [])
      | F_type \<Rightarrow> JStr (case rv_type v of Some s \<Rightarrow> s | None \<Rightarrow> [])
      | F_label \<Rightarrow> JStr (case rv_label v of Some s \<Rightarrow> s | None \<Rightarrow> [])
      | F_description \<Rightarrow> JStr (rv_description v)
      | F_tags \<Rightarrow> JArr (map JStr (rv_tags v))
      | F_properties \<Rightarrow> JObj (rv_properties v))"

definition field_name :: "view_field \<Rightarrow> string" where
  "field_name f = (case f of F_title \<Rightarrow> ''title'' | F_type \<Rightarrow> ''type'' | F_label \<Rightarrow> ''label''
     | F_description \<Rightarrow> ''description'' | F_tags \<Rightarrow> ''tags'' | F_properties \<Rightarrow> ''properties'')"

section \<open>Patterns\<close>

text \<open>
  \<open>schema/src/redos.ts\<close>.  Both expressions look for a bracket whose group runs to the next closing one,
  which \<open>[^)]*\<close> cannot cross, and which a quantifier follows.
\<close>

definition MAX_PATTERN_LENGTH :: nat where "MAX_PATTERN_LENGTH = 500"

definition LONGEST_CHECKED_STRING :: nat where "LONGEST_CHECKED_STRING = 10000"

fun after_brackets :: "string \<Rightarrow> string list" where
  "after_brackets [] = []"
| "after_brackets (c # s) = (if c = CHR ''('' then s # after_brackets s else after_brackets s)"

definition group_body :: "string \<Rightarrow> string" where
  "group_body s = takeWhile (\<lambda>c. c \<noteq> CHR '')'') s"

definition quantified_after :: "string \<Rightarrow> bool" where
  "quantified_after s = (case dropWhile (\<lambda>c. c \<noteq> CHR '')'') s of
      _ # q # _ \<Rightarrow> q \<in> set ''+*?{'' | _ \<Rightarrow> False)"

definition separator_first :: "string \<Rightarrow> bool" where
  "separator_first s = (case s of
      c # d # _ \<Rightarrow> c \<in> set ''-/:'' \<and> d \<notin> set ''?*{''
    | [c] \<Rightarrow> c \<in> set ''-/:''
    | [] \<Rightarrow> False)"

text \<open>\<open>(?:\?:)?\<close> may take the mark of a group that captures nothing, or leave it to the body.\<close>

definition nested_quantifier :: "string \<Rightarrow> bool" where
  "nested_quantifier pattern =
     list_ex (\<lambda>s. quantified_after s \<and>
        list_ex (\<lambda>t. \<not> separator_first t \<and> group_body t \<noteq> [] \<and> List.last (group_body t) \<in> set ''+*'')
          (if take 2 s = ''?:'' then [drop 2 s, s] else [s])) (after_brackets pattern)"

definition alternation_quantifier :: "string \<Rightarrow> bool" where
  "alternation_quantifier pattern =
     list_ex (\<lambda>s. quantified_after s \<and> CHR ''|'' \<in> set (group_body s)) (after_brackets pattern)"

definition has_redos_risk :: "string \<Rightarrow> bool" where
  "has_redos_risk pattern \<longleftrightarrow> nested_quantifier pattern \<or> alternation_quantifier pattern"

datatype pattern_outcome = Match | No_match | Not_evaluated

text \<open>\<open>reg pattern value\<close> is \<open>new RegExp(pattern).test(value)\<close>, \<open>None\<close> where the constructor throws.\<close>

definition test_pattern :: "(string \<Rightarrow> string \<Rightarrow> bool option) \<Rightarrow> string \<Rightarrow> string \<Rightarrow> pattern_outcome" where
  "test_pattern reg pattern value =
     (if MAX_PATTERN_LENGTH < length pattern \<or> LONGEST_CHECKED_STRING < length value then Not_evaluated
      else if has_redos_risk pattern then Not_evaluated
      else case reg pattern value of Some True \<Rightarrow> Match | Some False \<Rightarrow> No_match | None \<Rightarrow> Not_evaluated)"

section \<open>Patterns that are not caught\<close>

text \<open>
  The test for patterns that backtrack misses a nested quantifier whose inner bracket is closed
  before the quantifier, or whose group ends with an optional item, and the pattern is then run; and it
  catches a group that only asks for no capture although its separator makes it safe, as it does not
  catch the capturing one.
\<close>

theorem redos_test_misses:
  "\<not> has_redos_risk ''((a+))+b'' \<and> \<not> has_redos_risk ''(a+b?)+c'' \<and> test_pattern (\<lambda>_ _. Some True) ''((a+))+b'' ''aab'' = Match
   \<and> has_redos_risk ''(a+)+b'' \<and> \<not> has_redos_risk ''(-a+)+b'' \<and> has_redos_risk ''(?:-a+)+b''"
  by code_simp

end
