(* ===== verification/Schema_Check.thy ===== *)
theory Schema_Check
  imports Schema_Types
begin

text \<open>
  A record judged against the schema of its space (\<open>spaces/schema-validation.ts\<close>, the evaluation of
  \<open>spaces/schema-rules.ts\<close>): the checks of a type, of its properties and of the rules, and what the mode of
  the space makes of them.  A reason, which the source writes out as a sentence, is a datatype that
  carries what the sentence quotes.
\<close>

section \<open>Violations\<close>

datatype oversize = Long_text | Long_list | Too_deep | Big_map

datatype reason =
    R_allowlist "string list" | R_name_unchecked string string | R_name_mismatch string string
  | R_from_endpoint string "string list" | R_to_endpoint string "string list" | R_functional string nat
  | R_unresolved string | R_required string | R_undeclared string
  | R_type value_type string | R_enum "json list" | R_minimum rat | R_maximum rat | R_pattern_unchecked string | R_pattern string
  | R_rule string string | R_rule_unavailable string string | R_rule_too_large string string string oversize
  | R_rule_overload string string | R_rule_error string string | R_rule_no_answer string string

datatype row_outcome = Could_not_evaluate | Too_large

record violation =
  vi_field :: string
  vi_value :: json
  vi_reason :: reason
  vi_declared :: "(string list \<times> nat) option"
  vi_outcome :: "row_outcome option"

definition row :: "string \<Rightarrow> json \<Rightarrow> reason \<Rightarrow> violation" where
  "row f v r = \<lparr>vi_field = f, vi_value = v, vi_reason = r, vi_declared = None, vi_outcome = None\<rparr>"

section \<open>The rule engine\<close>

text \<open>What a rule reads of a record, and what running it can answer; the engine is \<open>@bufbuild/cel\<close>.\<close>

record rule_refs =
  rf_whole :: bool
  rf_fields :: "string list"
  rf_props :: "string list"
  rf_presence :: "string list"

datatype rule_answer = Cel_error bool | Not_boolean | Answer bool

record compiled_rule =
  cp_refs :: rule_refs
  cp_run :: "(string \<times> json) list \<Rightarrow> rule_answer"

text \<open>
  What a check is given: the regular expressions of the platform, the engine (whether it loaded, and a
  rule compiled for a kind and the properties declared, \<open>None\<close> for a space rule), the renderer of a
  name someone else chose and the short hash of a rule.  \<open>programFor\<close> keeps what \<open>ck_compile\<close> answers.
\<close>

record checks =
  ck_regexp :: "string \<Rightarrow> string \<Rightarrow> bool option"
  ck_available :: bool
  ck_compile :: "kind \<Rightarrow> string list option \<Rightarrow> string \<Rightarrow> compiled_rule option"
  ck_quote :: "string \<Rightarrow> string"
  ck_hash :: "string \<Rightarrow> string"

section \<open>A value\<close>

definition type_name :: "value_type \<Rightarrow> string" where
  "type_name t = (case t of T_number \<Rightarrow> ''number'' | T_boolean \<Rightarrow> ''boolean'' | _ \<Rightarrow> ''string'')"

text \<open>\<open>schema.enum.includes(value)\<close>: an array or an object of a record is never one of the schema's.\<close>

definition enum_includes :: "json list \<Rightarrow> json \<Rightarrow> bool" where
  "enum_includes xs v = (case v of JArr _ \<Rightarrow> False | JObj _ \<Rightarrow> False | _ \<Rightarrow> v \<in> set xs)"

definition value_bounds :: "string \<Rightarrow> json \<Rightarrow> property_schema \<Rightarrow> violation list" where
  "value_bounds field v s =
     (case v of
        JNum n \<Rightarrow>
          (case ps_minimum s of Some m \<Rightarrow> if n < m then [row field v (R_minimum m)] else [] | None \<Rightarrow> []) @
          (case ps_maximum s of Some m \<Rightarrow> if m < n then [row field v (R_maximum m)] else [] | None \<Rightarrow> [])
      | _ \<Rightarrow> [])"

definition value_pattern :: "checks \<Rightarrow> string \<Rightarrow> json \<Rightarrow> property_schema \<Rightarrow> violation list" where
  "value_pattern ck field v s =
     (case v of
        JStr x \<Rightarrow>
          if truthy_str (ps_pattern s)
          then (case test_pattern (ck_regexp ck) (the (ps_pattern s)) x of
                  Not_evaluated \<Rightarrow> [row field v (R_pattern_unchecked (the (ps_pattern s)))]
                | No_match \<Rightarrow> [row field v (R_pattern (the (ps_pattern s)))]
                | Match \<Rightarrow> [])
          else []
      | _ \<Rightarrow> [])"

definition value_enum :: "string \<Rightarrow> json \<Rightarrow> property_schema \<Rightarrow> violation list" where
  "value_enum field v s =
     (case ps_enum s of
        Some xs \<Rightarrow> if xs \<noteq> [] \<and> \<not> enum_includes xs v then [row field v (R_enum xs)] else []
      | None \<Rightarrow> [])"

definition wrong_type :: "json \<Rightarrow> property_schema \<Rightarrow> bool" where
  "wrong_type v s = (case ps_type s of None \<Rightarrow> False | Some t \<Rightarrow> typeof v \<noteq> type_name t)"

definition validate_value :: "checks \<Rightarrow> string \<Rightarrow> json \<Rightarrow> property_schema \<Rightarrow> violation list" where
  "validate_value ck field v s =
     (if wrong_type v s then [row field v (R_type (the (ps_type s)) (typeof v))]
      else value_enum field v s @ value_bounds field v s @ value_pattern ck field v s)"

section \<open>The properties\<close>

definition MAX_UNKNOWN_NAMES :: nat where "MAX_UNKNOWN_NAMES = 50"

text \<open>\<open>boundedNames\<close>: the names shown and how many more there are.\<close>

definition bounded_names :: "checks \<Rightarrow> string list \<Rightarrow> string list \<times> nat" where
  "bounded_names ck names =
     (map (ck_quote ck) (take MAX_UNKNOWN_NAMES names), length names - length (take MAX_UNKNOWN_NAMES names))"

definition judges_keys :: "space_meta option \<Rightarrow> bool" where
  "judges_keys meta = (case meta of None \<Rightarrow> False
     | Some m \<Rightarrow> sm_validationMode m = Some Mode_warn \<or> sm_validationMode m = Some Mode_strict)"

definition field_of :: "string \<Rightarrow> string" where
  "field_of key = ''properties.'' @ key"

definition missing :: "json \<Rightarrow> bool" where
  "missing v \<longleftrightarrow> nullish v \<or> v = JStr []"

definition declared_check :: "checks \<Rightarrow> (string \<times> json) list \<Rightarrow> string \<times> property_schema \<Rightarrow> violation list" where
  "declared_check ck props e =
     (let key = fst e; schema = snd e; val = own_value props key
      in if ps_required schema \<and> missing val
         then [row (field_of key) (if val = Undef then JNull else val) (R_required key)]
         else if nullish val then []
         else validate_value ck (field_of key) val schema)"

definition undeclared_row :: "checks \<Rightarrow> string list \<Rightarrow> string \<Rightarrow> json \<Rightarrow> violation" where
  "undeclared_row ck declared key v =
     (row (field_of (ck_quote ck key)) v (R_undeclared (ck_quote ck key)))\<lparr>vi_declared := Some (bounded_names ck (sort declared))\<rparr>"

definition undeclared_rows :: "checks \<Rightarrow> string list \<Rightarrow> string list \<Rightarrow> (string \<times> json) list \<Rightarrow> violation list" where
  "undeclared_rows ck declared exempt props =
     map (\<lambda>e. undeclared_row ck declared (fst e) (snd e))
       (filter (\<lambda>e. fst e \<notin> set declared \<and> fst e \<notin> set exempt \<and> \<not> nullish (snd e)) props)"

definition validate_properties ::
  "checks \<Rightarrow> space_meta option \<Rightarrow> type_schema option \<Rightarrow> (string \<times> json) list \<Rightarrow> string list \<Rightarrow> violation list" where
  "validate_properties ck meta ts props exempt =
     (case Option.bind ts ts_propertySchemas of
        None \<Rightarrow> []
      | Some schemas \<Rightarrow>
          concat (map (declared_check ck props) schemas) @
          (if judges_keys meta \<and> schemas \<noteq> [] then undeclared_rows ck (map fst schemas) exempt props else []))"

text \<open>What the own keys of \<open>Object.prototype\<close> answer when an object is read by name.\<close>

definition OBJECT_PROTOTYPE_NAMES :: "string list" where
  "OBJECT_PROTOTYPE_NAMES =
     [''constructor'', ''__defineGetter__'', ''__defineSetter__'', ''hasOwnProperty'', ''__lookupGetter__'', ''__lookupSetter__'',
      ''isPrototypeOf'', ''propertyIsEnumerable'', ''toString'', ''valueOf'', ''__proto__'', ''toLocaleString'']"

text \<open>\<open>withDefaults[key] !== undefined\<close>, read through the prototype.\<close>

definition holds_something :: "(string \<times> json) list \<Rightarrow> string \<Rightarrow> bool" where
  "holds_something props key \<longleftrightarrow>
     (case map_of props key of Some v \<Rightarrow> v \<noteq> Undef | None \<Rightarrow> key \<in> set OBJECT_PROTOTYPE_NAMES)"

definition fill_default :: "(string \<times> json) list \<Rightarrow> string \<times> property_schema \<Rightarrow> (string \<times> json) list" where
  "fill_default props e =
     (if ps_default (snd e) = Undef \<or> holds_something props (fst e) then props else obj_put (fst e) (ps_default (snd e)) props)"

definition apply_property_defaults :: "type_schema option \<Rightarrow> (string \<times> json) list option \<Rightarrow> (string \<times> json) list option" where
  "apply_property_defaults ts props =
     (case Option.bind ts ts_propertySchemas of
        None \<Rightarrow> props
      | Some schemas \<Rightarrow>
          let p = (case props of None \<Rightarrow> [] | Some p \<Rightarrow> p); q = foldl fill_default p schemas
          in if q = p then props else Some q)"

section \<open>The rules\<close>

definition LIST_CAP :: nat where "LIST_CAP = 100"

definition MAP_CAP :: nat where "MAP_CAP = 200"

fun first_some :: "('a \<Rightarrow> 'b option) \<Rightarrow> 'a list \<Rightarrow> 'b option" where
  "first_some f [] = None"
| "first_some f (x # xs) = (case f x of None \<Rightarrow> first_some f xs | Some y \<Rightarrow> Some y)"

lemma first_some_cong [fundef_cong]: "xs = ys \<Longrightarrow> (\<And>x. x \<in> set ys \<Longrightarrow> f x = g x) \<Longrightarrow> first_some f xs = first_some g ys"
  by (induction xs arbitrary: ys) (auto split: option.split)

lemma first_some_None: "first_some f xs = None \<longleftrightarrow> (\<forall>x \<in> set xs. f x = None)"
  by (induction xs) (auto split: option.split)

text \<open>\<open>overCodePoints\<close> counts characters; a character of the model is one code point.\<close>

fun oversize_of :: "nat \<Rightarrow> json \<Rightarrow> oversize option" where
  "oversize_of depth (JStr s) = (if LONGEST_CHECKED_STRING < length s then Some Long_text else None)"
| "oversize_of depth (JArr xs) =
     (if LIST_CAP < length xs then Some Long_list else first_some (oversize_of (Suc depth)) xs)"
| "oversize_of depth (JObj es) =
     (if 8 < depth then Some Too_deep
      else if MAP_CAP < length es then Some Big_map
      else first_some (\<lambda>e. oversize_of (Suc depth) (snd e)) es)"
| "oversize_of depth _ = None"

definition engine_self :: "kind \<Rightarrow> record_view \<Rightarrow> (string \<times> json) list" where
  "engine_self k view = map (\<lambda>f. (field_name f, view_field_value view f)) (VIEW_FIELDS k)"

text \<open>The path of the first value a rule reads that is too large, with why.\<close>

definition too_large :: "checks \<Rightarrow> rule_refs \<Rightarrow> (string \<times> json) list \<Rightarrow> (string \<times> oversize) option" where
  "too_large ck refs self =
     (let props = (case own_value self ''properties'' of JObj p \<Rightarrow> p | _ \<Rightarrow> []);
          check = (\<lambda>path v. map_option (Pair path) (oversize_of 0 v));
          whole = (if rf_whole refs then first_some (\<lambda>e. check (fst e) (snd e)) self else None);
          fields = first_some (\<lambda>f. check f (own_value self f)) (rf_fields refs);
          in_props = first_some (\<lambda>p. check (''properties.'' @ ck_quote ck p) (own_value props p)) (rf_props refs)
      in case whole of Some x \<Rightarrow> Some x | None \<Rightarrow> (case fields of Some x \<Rightarrow> Some x | None \<Rightarrow> in_props))"

definition space_rule_kinds :: "stored_rule \<Rightarrow> kind list" where
  "space_rule_kinds r =
     (case ru_kinds r of None \<Rightarrow> KNOWLEDGE_TYPES | Some ks \<Rightarrow> if ks = [] then KNOWLEDGE_TYPES else filter (\<lambda>k. k \<in> set ks) KNOWLEDGE_TYPES)"

text \<open>The rules that govern a record: its type's, over the properties the type declares, then the space's.\<close>

definition rule_sources :: "space_meta \<Rightarrow> kind \<Rightarrow> type_schema option \<Rightarrow> (string \<times> stored_rule \<times> string list option) list" where
  "rule_sources meta k ts =
     (case Option.bind ts ts_rules of
        None \<Rightarrow> []
      | Some rs \<Rightarrow>
          let declared = (case Option.bind ts ts_propertySchemas of None \<Rightarrow> [] | Some ps \<Rightarrow> map fst ps)
          in map (\<lambda>e. (''rules.'' @ fst e, snd e, Some declared)) rs) @
     (case sm_rules meta of
        None \<Rightarrow> []
      | Some rs \<Rightarrow> map (\<lambda>e. (''meta.rules.'' @ fst e, snd e, None)) (filter (\<lambda>e. k \<in> set (space_rule_kinds (snd e))) rs))"

definition outcome_row :: "string \<Rightarrow> row_outcome \<Rightarrow> reason \<Rightarrow> violation" where
  "outcome_row f out r = (row f Undef r)\<lparr>vi_outcome := Some out\<rparr>"

definition evaluate_rule ::
  "checks \<Rightarrow> kind \<Rightarrow> record_view \<Rightarrow> string \<times> stored_rule \<times> string list option \<Rightarrow> violation list" where
  "evaluate_rule ck k view src =
     (let f = fst src; rule = fst (snd src); msg = ru_message rule; h = ck_hash ck (ru_rule rule); self = engine_self k view
      in if \<not> ck_available ck then [outcome_row f Could_not_evaluate (R_rule_unavailable msg h)]
         else case ck_compile ck k (snd (snd src)) (ru_rule rule) of
             None \<Rightarrow> []
           | Some p \<Rightarrow>
               if list_ex (\<lambda>x. x \<notin> fst ` set (rv_properties view)) (rf_props (cp_refs p)) then []
               else case too_large ck (cp_refs p) self of
                   Some (path, why) \<Rightarrow> [outcome_row f Too_large (R_rule_too_large msg h path why)]
                 | None \<Rightarrow>
                     (case cp_run p self of
                        Cel_error overload \<Rightarrow>
                          [outcome_row f Could_not_evaluate (if overload then R_rule_overload msg h else R_rule_error msg h)]
                      | Not_boolean \<Rightarrow> [outcome_row f Could_not_evaluate (R_rule_no_answer msg h)]
                      | Answer b \<Rightarrow> if b then [] else [row f Undef (R_rule msg h)]))"

definition evaluate_rules :: "checks \<Rightarrow> space_meta option \<Rightarrow> kind \<Rightarrow> record_view \<Rightarrow> type_schema option \<Rightarrow> violation list" where
  "evaluate_rules ck meta k view ts =
     (if judges_keys meta then concat (map (evaluate_rule ck k view) (rule_sources (the meta) k ts)) else [])"

section \<open>The four validators\<close>

definition schemas_of :: "space_meta option \<Rightarrow> kind \<Rightarrow> (string \<times> type_schema) list option" where
  "schemas_of meta k = Option.bind (Option.bind meta sm_typeSchemas) (\<lambda>tss. map_of tss k)"

definition allowlist_rows :: "string \<Rightarrow> string option \<Rightarrow> (string \<times> type_schema) list option \<Rightarrow> string list \<Rightarrow> violation list" where
  "allowlist_rows field name schemas exempt =
     (if truthy_str name
      then (case schemas of
              Some m \<Rightarrow> if m \<noteq> [] \<and> the name \<notin> set exempt \<and> the name \<notin> fst ` set m
                       then [row field (JStr (the name)) (R_allowlist (map fst m))] else []
            | None \<Rightarrow> [])
      else [])"

definition schema_named :: "string option \<Rightarrow> (string \<times> type_schema) list option \<Rightarrow> type_schema option" where
  "schema_named name schemas = (if truthy_str name then Option.bind schemas (\<lambda>m. map_of m (the name)) else None)"

definition unresolved :: "type_schema option \<Rightarrow> bool" where
  "unresolved ts \<longleftrightarrow> truthy_str (Option.bind ts ts_unresolvedRef)"

definition check_unresolved_ref :: "type_schema option \<Rightarrow> violation list" where
  "check_unresolved_ref ts =
     (if unresolved ts
      then let ref = the (ts_unresolvedRef (the ts))
           in [row ''$ref'' (JStr ref) (R_unresolved (case library_entry_name_of ref of Some n \<Rightarrow> n | None \<Rightarrow> ref))]
      else [])"

definition naming_rows :: "checks \<Rightarrow> record_view \<Rightarrow> type_schema option \<Rightarrow> violation list" where
  "naming_rows ck entity ts =
     (if truthy_str (rv_title entity) \<and> truthy_str (rv_type entity) \<and> truthy_str (Option.bind ts ts_namingPattern)
      then (let p = the (ts_namingPattern (the ts)); title = the (rv_title entity); type = the (rv_type entity)
            in case test_pattern (ck_regexp ck) p title of
                 Not_evaluated \<Rightarrow> [row ''name'' (JStr title) (R_name_unchecked type p)]
               | No_match \<Rightarrow> [row ''name'' (JStr title) (R_name_mismatch type p)]
               | Match \<Rightarrow> [])
      else [])"

definition validate_entity :: "checks \<Rightarrow> space_meta option \<Rightarrow> record_view \<Rightarrow> string list \<Rightarrow> violation list" where
  "validate_entity ck meta entity exempt =
     (if meta = None then []
      else let schemas = schemas_of meta K_entity;
               ts = schema_named (rv_type entity) schemas;
               first = allowlist_rows ''type'' (rv_type entity) schemas [] @ check_unresolved_ref ts
           in if unresolved ts then first
              else first @ naming_rows ck entity ts @ validate_properties ck meta ts (rv_properties entity) exempt
                     @ evaluate_rules ck meta K_entity entity ts)"

definition SERVER_WRITTEN_EDGE_LABELS :: "string list" where
  "SERVER_WRITTEN_EDGE_LABELS = [''supersedes'']"

text \<open>
  The ends of an edge as the door resolved them: \<open>None\<close> is \<open>undefined\<close>, \<open>Some None\<close> an end with no type.
\<close>

record edge_ends =
  en_fromType :: "string option option"
  en_toType :: "string option option"
  en_otherEdgesFromSubject :: "nat option"

definition UNTYPED :: string where "UNTYPED = ''UNTYPED''"

definition endpoint_allows :: "string list \<Rightarrow> string option \<Rightarrow> bool" where
  "endpoint_allows allowed t =
     (let wanted = (case t of Some x \<Rightarrow> x | None \<Rightarrow> UNTYPED)
      in list_ex (\<lambda>a. (if take 7 a = ''entity:'' then drop 7 a else a) = wanted) allowed)"

definition json_of :: "string option \<Rightarrow> json" where
  "json_of t = (case t of Some s \<Rightarrow> JStr s | None \<Rightarrow> JNull)"

definition endpoint_rows :: "string \<Rightarrow> type_schema \<Rightarrow> edge_ends \<Rightarrow> violation list" where
  "endpoint_rows label s ends =
     (case (Option.bind (ts_endpoints s) fst, en_fromType ends) of
        (Some allowed, Some t) \<Rightarrow> if endpoint_allows allowed t then [] else [row ''fromType'' (json_of t) (R_from_endpoint label allowed)]
      | _ \<Rightarrow> []) @
     (case (Option.bind (ts_endpoints s) snd, en_toType ends) of
        (Some allowed, Some t) \<Rightarrow> if endpoint_allows allowed t then [] else [row ''toType'' (json_of t) (R_to_endpoint label allowed)]
      | _ \<Rightarrow> []) @
     (let n = (case en_otherEdgesFromSubject ends of Some n \<Rightarrow> n | None \<Rightarrow> 0)
      in if ts_functional s \<and> 0 < n then [row ''functional'' (JNum (of_nat n)) (R_functional label n)] else [])"

definition validate_edge :: "checks \<Rightarrow> space_meta option \<Rightarrow> record_view \<Rightarrow> edge_ends \<Rightarrow> string list \<Rightarrow> violation list" where
  "validate_edge ck meta edge ends exempt =
     (if meta = None then []
      else let schemas = schemas_of meta K_edge;
               ts = schema_named (rv_label edge) schemas
           in allowlist_rows ''label'' (rv_label edge) schemas SERVER_WRITTEN_EDGE_LABELS
              @ (case ts of Some s \<Rightarrow> endpoint_rows (the (rv_label edge)) s ends | None \<Rightarrow> [])
              @ check_unresolved_ref ts
              @ (if unresolved ts then []
                 else validate_properties ck meta ts (rv_properties edge) exempt @ evaluate_rules ck meta K_edge edge ts))"

definition validate_typed :: "kind \<Rightarrow> checks \<Rightarrow> space_meta option \<Rightarrow> record_view \<Rightarrow> string list \<Rightarrow> violation list" where
  "validate_typed k ck meta v exempt =
     (if meta = None then []
      else let schemas = schemas_of meta k;
               ts = schema_named (rv_type v) schemas;
               first = allowlist_rows ''type'' (rv_type v) schemas []
           in if check_unresolved_ref ts \<noteq> [] then first @ check_unresolved_ref ts
              else first @ validate_properties ck meta ts (rv_properties v) exempt @ evaluate_rules ck meta k v ts)"

definition validate_fact :: "checks \<Rightarrow> space_meta option \<Rightarrow> record_view \<Rightarrow> string list \<Rightarrow> violation list" where
  "validate_fact = validate_typed K_fact"

definition validate_chrono :: "checks \<Rightarrow> space_meta option \<Rightarrow> record_view \<Rightarrow> string list \<Rightarrow> violation list" where
  "validate_chrono = validate_typed K_chrono"

definition get_allowed_chrono_types :: "space_meta option \<Rightarrow> string list" where
  "get_allowed_chrono_types meta =
     (case schemas_of meta K_chrono of
        Some m \<Rightarrow> if m \<noteq> [] then map fst m else [''event'', ''deadline'', ''plan'', ''prediction'', ''milestone'']
      | None \<Rightarrow> [''event'', ''deadline'', ''plan'', ''prediction'', ''milestone''])"

text \<open>
  A record as it is stored, judged.  \<open>Not_resolved\<close> is an edge whose ends a site says it cannot resolve; its
  reason may not be blank.  An edge judged without saying either throws: \<open>None\<close>.
\<close>

datatype ends_given = Resolved_ends edge_ends | Not_resolved string

definition ends_not_resolved :: "string \<Rightarrow> ends_given option" where
  "ends_not_resolved why = (if dropWhile (\<lambda>c. c \<in> set [CHR '' '', CHR 0x09, CHR 0x0A, CHR 0x0B, CHR 0x0C, CHR 0x0D, CHR 0xA0]) why = []
     then None else Some (Not_resolved why))"

definition ends_of :: "ends_given \<Rightarrow> edge_ends" where
  "ends_of g = (case g of Resolved_ends e \<Rightarrow> e
     | Not_resolved _ \<Rightarrow> \<lparr>en_fromType = None, en_toType = None, en_otherEdgesFromSubject = None\<rparr>)"

definition violations_of_record ::
  "checks \<Rightarrow> space_meta option \<Rightarrow> kind \<Rightarrow> (string \<times> json) list \<Rightarrow> ends_given option \<Rightarrow> violation list option" where
  "violations_of_record ck meta k r ends =
     (let view = record_view_of k r
      in case k of
           K_entity \<Rightarrow> Some (validate_entity ck meta view [])
         | K_edge \<Rightarrow> map_option (\<lambda>g. validate_edge ck meta view (ends_of g) []) ends
         | K_fact \<Rightarrow> Some (validate_fact ck meta view [])
         | K_chrono \<Rightarrow> Some (validate_chrono ck meta view []))"

section \<open>What the mode makes of them\<close>



section \<open>What an accepted record is\<close>

definition value_fits :: "checks \<Rightarrow> property_schema \<Rightarrow> json \<Rightarrow> bool" where
  "value_fits ck s v \<longleftrightarrow>
     (\<forall>t. ps_type s = Some t \<longrightarrow> typeof v = type_name t)
     \<and> (\<forall>xs. ps_enum s = Some xs \<longrightarrow> xs \<noteq> [] \<longrightarrow> enum_includes xs v)
     \<and> (\<forall>n m. v = JNum n \<longrightarrow> ps_minimum s = Some m \<longrightarrow> m \<le> n)
     \<and> (\<forall>n m. v = JNum n \<longrightarrow> ps_maximum s = Some m \<longrightarrow> n \<le> m)
     \<and> (\<forall>x p. v = JStr x \<longrightarrow> ps_pattern s = Some p \<longrightarrow> p \<noteq> [] \<longrightarrow> test_pattern (ck_regexp ck) p x = Match)"

definition property_fits :: "checks \<Rightarrow> (string \<times> json) list \<Rightarrow> string \<times> property_schema \<Rightarrow> bool" where
  "property_fits ck props e \<longleftrightarrow>
     (let v = own_value props (fst e)
      in (ps_required (snd e) \<longrightarrow> \<not> missing v) \<and> (nullish v \<or> value_fits ck (snd e) v))"

definition keys_declared :: "space_meta option \<Rightarrow> string list \<Rightarrow> string list \<Rightarrow> (string \<times> json) list \<Rightarrow> bool" where
  "keys_declared meta declared exempt props \<longleftrightarrow>
     (judges_keys meta \<and> declared \<noteq> [] \<longrightarrow>
        (\<forall>e \<in> set props. nullish (snd e) \<or> fst e \<in> set declared \<union> set exempt))"

definition properties_fit :: "checks \<Rightarrow> space_meta option \<Rightarrow> type_schema option \<Rightarrow> (string \<times> json) list \<Rightarrow> string list \<Rightarrow> bool" where
  "properties_fit ck meta ts props exempt \<longleftrightarrow>
     (\<forall>ps. Option.bind ts ts_propertySchemas = Some ps \<longrightarrow>
        (\<forall>e \<in> set ps. property_fits ck props e) \<and> keys_declared meta (map fst ps) exempt props)"

definition rule_holds :: "checks \<Rightarrow> kind \<Rightarrow> record_view \<Rightarrow> string \<times> stored_rule \<times> string list option \<Rightarrow> bool" where
  "rule_holds ck k view src \<longleftrightarrow>
     ck_available ck
     \<and> (\<forall>p. ck_compile ck k (snd (snd src)) (ru_rule (fst (snd src))) = Some p \<longrightarrow>
          set (rf_props (cp_refs p)) \<subseteq> fst ` set (rv_properties view) \<longrightarrow>
          too_large ck (cp_refs p) (engine_self k view) = None \<and> cp_run p (engine_self k view) = Answer True)"

definition rules_hold :: "checks \<Rightarrow> space_meta option \<Rightarrow> kind \<Rightarrow> record_view \<Rightarrow> type_schema option \<Rightarrow> bool" where
  "rules_hold ck meta k view ts \<longleftrightarrow> (judges_keys meta \<longrightarrow> (\<forall>src \<in> set (rule_sources (the meta) k ts). rule_holds ck k view src))"

definition name_allowed :: "string option \<Rightarrow> (string \<times> type_schema) list option \<Rightarrow> string list \<Rightarrow> bool" where
  "name_allowed name schemas exempt \<longleftrightarrow>
     (\<forall>m. truthy_str name \<longrightarrow> schemas = Some m \<longrightarrow> m \<noteq> [] \<longrightarrow> the name \<in> set exempt \<union> fst ` set m)"

lemma value_bounds_iff: "value_bounds f v s = [] \<longleftrightarrow>
    (\<forall>n m. v = JNum n \<longrightarrow> ps_minimum s = Some m \<longrightarrow> m \<le> n) \<and> (\<forall>n m. v = JNum n \<longrightarrow> ps_maximum s = Some m \<longrightarrow> n \<le> m)"
  by (cases v) (auto simp: value_bounds_def not_less split: option.split)

lemma value_pattern_iff: "value_pattern ck f v s = [] \<longleftrightarrow>
    (\<forall>x p. v = JStr x \<longrightarrow> ps_pattern s = Some p \<longrightarrow> p \<noteq> [] \<longrightarrow> test_pattern (ck_regexp ck) p x = Match)"
  by (cases v; cases "ps_pattern s") (auto simp: value_pattern_def split: pattern_outcome.split)

lemma value_enum_iff: "value_enum f v s = [] \<longleftrightarrow> (\<forall>xs. ps_enum s = Some xs \<longrightarrow> xs \<noteq> [] \<longrightarrow> enum_includes xs v)"
  by (cases "ps_enum s") (auto simp: value_enum_def)

lemma validate_value_iff: "validate_value ck f v s = [] \<longleftrightarrow> value_fits ck s v"
proof (cases "wrong_type v s")
  case True
  then show ?thesis by (auto simp: validate_value_def value_fits_def wrong_type_def split: option.splits)
next
  case False
  then have "\<forall>t. ps_type s = Some t \<longrightarrow> typeof v = type_name t" by (auto simp: wrong_type_def)
  with False show ?thesis
    by (simp add: validate_value_def value_fits_def value_bounds_iff value_pattern_iff value_enum_iff)
qed

lemma declared_check_iff: "declared_check ck props e = [] \<longleftrightarrow> property_fits ck props e"
  by (auto simp: declared_check_def property_fits_def Let_def validate_value_iff missing_def)

lemma undeclared_rows_iff: "undeclared_rows ck declared exempt props = [] \<longleftrightarrow>
    (\<forall>e \<in> set props. nullish (snd e) \<or> fst e \<in> set declared \<union> set exempt)"
  by (auto simp: undeclared_rows_def filter_empty_conv)

lemma validate_properties_iff: "validate_properties ck meta ts props exempt = [] \<longleftrightarrow> properties_fit ck meta ts props exempt"
proof (cases "Option.bind ts ts_propertySchemas")
  case (Some ps)
  then show ?thesis
    by (auto simp: validate_properties_def properties_fit_def declared_check_iff undeclared_rows_iff keys_declared_def)
qed (simp add: validate_properties_def properties_fit_def)

lemma evaluate_rule_iff: "evaluate_rule ck k view src = [] \<longleftrightarrow> rule_holds ck k view src"
proof (cases "ck_available ck \<and> ck_compile ck k (snd (snd src)) (ru_rule (fst (snd src))) \<noteq> None")
  case True
  then obtain p where p: "ck_available ck" "ck_compile ck k (snd (snd src)) (ru_rule (fst (snd src))) = Some p" by auto
  have absent: "list_ex (\<lambda>x. x \<notin> fst ` set (rv_properties view)) (rf_props (cp_refs p))
      \<longleftrightarrow> \<not> set (rf_props (cp_refs p)) \<subseteq> fst ` set (rv_properties view)"
    by (auto simp: list_ex_iff)
  show ?thesis
    using p by (auto simp only: evaluate_rule_def Let_def rule_holds_def absent option.case not_True_eq_False if_False
        option.inject simp_thms split: option.split rule_answer.split if_splits prod.split)
next
  case False
  then show ?thesis by (auto simp: evaluate_rule_def Let_def rule_holds_def)
qed

lemma evaluate_rules_iff: "evaluate_rules ck meta k view ts = [] \<longleftrightarrow> rules_hold ck meta k view ts"
  by (simp add: evaluate_rules_def rules_hold_def evaluate_rule_iff)

lemma allowlist_rows_iff: "allowlist_rows f name schemas exempt = [] \<longleftrightarrow> name_allowed name schemas exempt"
  by (auto simp: allowlist_rows_def name_allowed_def split: option.split)

lemma check_unresolved_iff: "check_unresolved_ref ts = [] \<longleftrightarrow> \<not> unresolved ts"
  by (simp add: check_unresolved_ref_def Let_def)

text \<open>The type of a record, by which its schema is found: the label of an edge.\<close>

definition type_of_view :: "kind \<Rightarrow> record_view \<Rightarrow> string option" where
  "type_of_view k v = (if k = K_edge then rv_label v else rv_type v)"

abbreviation schema_of_view :: "space_meta option \<Rightarrow> kind \<Rightarrow> record_view \<Rightarrow> type_schema option" where
  "schema_of_view meta k v \<equiv> schema_named (type_of_view k v) (schemas_of meta k)"

definition name_fits :: "checks \<Rightarrow> record_view \<Rightarrow> type_schema option \<Rightarrow> bool" where
  "name_fits ck v ts \<longleftrightarrow>
     (\<forall>p. truthy_str (rv_title v) \<longrightarrow> truthy_str (rv_type v) \<longrightarrow> Option.bind ts ts_namingPattern = Some p \<longrightarrow> p \<noteq> [] \<longrightarrow>
        test_pattern (ck_regexp ck) p (the (rv_title v)) = Match)"

definition ends_fit :: "type_schema option \<Rightarrow> edge_ends \<Rightarrow> bool" where
  "ends_fit ts ends \<longleftrightarrow>
     (\<forall>s. ts = Some s \<longrightarrow>
        (\<forall>allowed t. Option.bind (ts_endpoints s) fst = Some allowed \<longrightarrow> en_fromType ends = Some t \<longrightarrow> endpoint_allows allowed t)
        \<and> (\<forall>allowed t. Option.bind (ts_endpoints s) snd = Some allowed \<longrightarrow> en_toType ends = Some t \<longrightarrow> endpoint_allows allowed t)
        \<and> (ts_functional s \<longrightarrow> en_otherEdgesFromSubject ends \<in> {None, Some 0}))"

lemma naming_rows_iff: "naming_rows ck v ts = [] \<longleftrightarrow> name_fits ck v ts"
  by (cases "Option.bind ts ts_namingPattern")
    (auto simp: naming_rows_def name_fits_def Let_def bind_eq_Some_conv split: pattern_outcome.split)

lemma endpoint_rows_iff: "endpoint_rows label s ends = [] \<longleftrightarrow> ends_fit (Some s) ends"
  by (auto simp: endpoint_rows_def ends_fit_def Let_def split: option.splits)

text \<open>A record that fits its space, in words.\<close>

definition record_fits :: "checks \<Rightarrow> space_meta option \<Rightarrow> kind \<Rightarrow> record_view \<Rightarrow> edge_ends \<Rightarrow> bool" where
  "record_fits ck meta k v ends \<longleftrightarrow>
     (let ts = schema_of_view meta k v
      in name_allowed (type_of_view k v) (schemas_of meta k) (if k = K_edge then SERVER_WRITTEN_EDGE_LABELS else [])
         \<and> \<not> unresolved ts
         \<and> (k = K_entity \<longrightarrow> name_fits ck v ts) \<and> (k = K_edge \<longrightarrow> ends_fit ts ends)
         \<and> properties_fit ck meta ts (rv_properties v) [] \<and> rules_hold ck meta k v ts)"

lemma ends_fit_None [simp]: "ends_fit None ends" by (simp add: ends_fit_def)

lemma validators_iff:
  "validate_entity ck (Some m) v [] = [] \<longleftrightarrow> record_fits ck (Some m) K_entity v ends"
  "validate_edge ck (Some m) v ends [] = [] \<longleftrightarrow> record_fits ck (Some m) K_edge v ends"
  "validate_typed K_fact ck (Some m) v [] = [] \<longleftrightarrow> record_fits ck (Some m) K_fact v ends"
  "validate_typed K_chrono ck (Some m) v [] = [] \<longleftrightarrow> record_fits ck (Some m) K_chrono v ends"
  unfolding validate_entity_def validate_edge_def validate_typed_def record_fits_def type_of_view_def Let_def
  by (auto simp: allowlist_rows_iff check_unresolved_iff naming_rows_iff endpoint_rows_iff validate_properties_iff evaluate_rules_iff
      split: option.split)

text \<open>
  Property C5: a record has no violation exactly when it fits its space: its type or label is one the space
  lists, the reference of its type resolves, its name and its ends are as declared, each declared property
  that is required is there and each that is there has the type, the value, the bounds and the pattern
  declared, no other key is written where keys are judged, and every rule that applies answers true.
\<close>

theorem no_violation_iff_fits:
  assumes "violations_of_record ck (Some m) k r given = Some vs"
  shows "vs = [] \<longleftrightarrow> record_fits ck (Some m) k (record_view_of k r)
     (case given of Some g \<Rightarrow> ends_of g | None \<Rightarrow> \<lparr>en_fromType = None, en_toType = None, en_otherEdgesFromSubject = None\<rparr>)"
proof -
  note iff = validators_iff [of ck m "record_view_of k r"
    "case given of Some g \<Rightarrow> ends_of g | None \<Rightarrow> \<lparr>en_fromType = None, en_toType = None, en_otherEdgesFromSubject = None\<rparr>"]
  show ?thesis
  proof (cases k)
    case K_edge
    with assms iff(2) show ?thesis by (auto simp: violations_of_record_def Let_def)
  qed (use assms iff in \<open>auto simp: violations_of_record_def validate_fact_def validate_chrono_def Let_def\<close>)
qed


section \<open>Defaults\<close>

lemma own_value_put: "own_value (obj_put k v p) j = (if j = k then v else own_value p j)"
  by (simp add: own_value_def map_of_obj_put)

lemma keys_fill: "fst ` set (fill_default p e) = (if ps_default (snd e) = Undef \<or> holds_something p (fst e) then fst ` set p
    else insert (fst e) (fst ` set p))"
  by (simp add: fill_default_def fst_obj_put)

lemma holds_something_iff: "holds_something p key \<longleftrightarrow>
    own_value p key \<noteq> Undef \<or> key \<in> set OBJECT_PROTOTYPE_NAMES \<and> key \<notin> fst ` set p"
proof (cases "map_of p key")
  case None
  then have "key \<notin> fst ` set p" by (simp add: map_of_eq_None_iff)
  with None show ?thesis by (simp add: holds_something_def own_value_def)
next
  case (Some v)
  then have "key \<in> fst ` set p" by (force dest: map_of_SomeD)
  with Some show ?thesis by (simp add: holds_something_def own_value_def)
qed

lemma fill_all:
  "distinct (map fst ps) \<Longrightarrow>
   own_value (foldl fill_default p ps) key =
     (case map_of ps key of
        None \<Rightarrow> own_value p key
      | Some s \<Rightarrow> if ps_default s = Undef \<or> holds_something p key then own_value p key else ps_default s)"
proof (induction ps arbitrary: p)
  case Nil
  then show ?case by simp
next
  case (Cons e ps)
  obtain k s where e: "e = (k, s)" by (cases e)
  have put: "own_value (fill_default p e) j = (if j = k \<and> \<not> (ps_default s = Undef \<or> holds_something p k) then ps_default s else own_value p j)" for j
    by (auto simp: fill_default_def e own_value_put)
  have keys: "(j \<in> fst ` set (fill_default p e)) = (j \<in> fst ` set p)" if "j \<noteq> k" for j
    using that unfolding keys_fill by (simp add: e)
  have holds: "holds_something (fill_default p e) key = holds_something p key" if "key \<noteq> k"
    unfolding holds_something_iff using put [of key] keys [OF that] that by simp
  show ?case
  proof (cases "key = k")
    case True
    then have "map_of ps key = None" using Cons.prems e by (simp add: map_of_eq_None_iff)
    with Cons put [of key] True e show ?thesis by simp
  next
    case False
    with Cons put [of key] holds e show ?thesis by (simp split: option.split)
  qed
qed

lemma fill_all_keys: "fst ` set (foldl fill_default p ps) \<subseteq> fst ` set p \<union> fst ` set ps"
proof (induction ps arbitrary: p)
  case (Cons e ps)
  from Cons.IH [of "fill_default p e"] show ?case unfolding foldl_Cons keys_fill by (auto split: if_splits)
qed simp

abbreviation given_properties :: "(string \<times> json) list option \<Rightarrow> (string \<times> json) list" where
  "given_properties props \<equiv> (case props of None \<Rightarrow> [] | Some p \<Rightarrow> p)"

lemma defaults_value:
  assumes "ts_propertySchemas ts = Some ps" "distinct (map fst ps)"
  shows "own_value (given_properties (apply_property_defaults (Some ts) props)) key =
     (case map_of ps key of
        None \<Rightarrow> own_value (given_properties props) key
      | Some s \<Rightarrow> if ps_default s = Undef \<or> holds_something (given_properties props) key
                  then own_value (given_properties props) key else ps_default s)"
proof -
  have "given_properties (apply_property_defaults (Some ts) props) = foldl fill_default (given_properties props) ps"
    using assms(1) by (auto simp: apply_property_defaults_def Let_def)
  then show ?thesis by (simp add: fill_all [OF assms(2)])
qed

text \<open>A property is reported as missing exactly when it is declared as required and holds nothing.\<close>

abbreviation says_required :: "string \<Rightarrow> violation \<Rightarrow> bool" where
  "says_required key x \<equiv> vi_reason x = R_required key"

lemma value_not_required: "\<not> list_ex (says_required key) (validate_value ck f v s)"
  by (auto simp: validate_value_def value_enum_def value_bounds_def value_pattern_def row_def split: option.splits json.splits pattern_outcome.splits)

lemma undeclared_not_required: "\<not> list_ex (says_required key) (undeclared_rows ck declared exempt props)"
  by (auto simp: undeclared_rows_def undeclared_row_def row_def list_ex_iff)

lemma required_reported:
  assumes "ts_propertySchemas ts = Some ps" "distinct (map fst ps)" "map_of ps key = Some s"
  shows "list_ex (says_required key) (validate_properties ck meta (Some ts) props exempt) \<longleftrightarrow> ps_required s \<and> missing (own_value props key)"
proof -
  have row_iff: "list_ex (says_required key) (declared_check ck props e) \<longleftrightarrow> fst e = key \<and> ps_required (snd e) \<and> missing (own_value props key)" for e
    using value_not_required [of key ck "field_of (fst e)" "own_value props (fst e)" "snd e"]
    by (auto simp: declared_check_def Let_def row_def)
  have only: "snd e = s" if "e \<in> set ps" "fst e = key" for e
    using that assms(3) map_of_is_SomeI [OF assms(2), of key "snd e"] by (cases e) auto
  have "list_ex (says_required key) (validate_properties ck meta (Some ts) props exempt)
      \<longleftrightarrow> (\<exists>e \<in> set ps. list_ex (says_required key) (declared_check ck props e))"
    using assms(1) undeclared_not_required [of key ck "map fst ps" exempt props]
    by (auto simp: validate_properties_def list_ex_iff)
  also have "\<dots> \<longleftrightarrow> ps_required s \<and> missing (own_value props key)"
    unfolding row_iff using only map_of_SomeD [OF assms(3)] by (metis fst_conv snd_conv)
  finally show ?thesis .
qed

text \<open>
  Property C37: a default fills exactly what the caller left out.  Nothing the caller wrote is changed, nothing
  the type gives no default for appears, and what was left out holds its default; so a property that is required
  and has a default (not a null or empty one) is reported as missing exactly when the caller wrote null or an empty text, with one
  exception the code makes by accident: a name that every object inherits from its prototype is taken for one the
  caller wrote, so its default is lost and the write is reported as lacking it.
\<close>

theorem defaults_fill_what_is_absent:
  fixes props ts
  defines "given \<equiv> given_properties props" and "filled \<equiv> given_properties (apply_property_defaults (Some ts) props)"
  assumes "ts_propertySchemas ts = Some ps" "distinct (map fst ps)"
  shows "own_value filled key =
     (let v = own_value given key
      in if v \<noteq> Undef then v
         else if key \<in> set OBJECT_PROTOTYPE_NAMES \<and> key \<notin> fst ` set given then Undef
         else case map_of ps key of None \<Rightarrow> Undef | Some s \<Rightarrow> ps_default s)
   \<and> (\<forall>s. map_of ps key = Some s \<longrightarrow> ps_required s \<longrightarrow> \<not> missing (ps_default s) \<longrightarrow>
        (list_ex (says_required key) (validate_properties ck meta (Some ts) filled exempt) \<longleftrightarrow>
           (if own_value given key \<noteq> Undef then missing (own_value given key)
            else key \<in> set OBJECT_PROTOTYPE_NAMES \<and> key \<notin> fst ` set given)))"
proof -
  have v: "own_value filled key =
     (let v = own_value given key
      in if v \<noteq> Undef then v
         else if key \<in> set OBJECT_PROTOTYPE_NAMES \<and> key \<notin> fst ` set given then Undef
         else case map_of ps key of None \<Rightarrow> Undef | Some s \<Rightarrow> ps_default s)"
    using defaults_value [OF assms(3,4), of props key]
    by (auto simp: given_def filled_def holds_something_iff Let_def split: option.split)
  moreover have "missing Undef" by (simp add: missing_def)
  ultimately show ?thesis using required_reported [OF assms(3,4), of key _ ck meta filled exempt] by (auto simp: Let_def)
qed

definition plain_property :: property_schema where
  "plain_property = \<lparr>ps_type = None, ps_enum = None, ps_minimum = None, ps_maximum = None, ps_pattern = None,
     ps_required = False, ps_default = Undef\<rparr>"

section \<open>References\<close>





section \<open>The keys the instance writes itself\<close>

text \<open>\<open>INSTANCE_WRITTEN_PROPERTY_KEYS\<close>: what the extractor writes onto the records it makes.\<close>

definition INSTANCE_WRITTEN_PROPERTY_KEYS :: "kind \<Rightarrow> string list" where
  "INSTANCE_WRITTEN_PROPERTY_KEYS k = (case k of K_entity \<Rightarrow> [''aliases''] | K_edge \<Rightarrow> [''since'', ''until'']
     | K_fact \<Rightarrow> [''speaker'', ''statedOn'', ''attributed''] | K_chrono \<Rightarrow> [])"

definition about_undeclared :: "violation \<Rightarrow> bool" where
  "about_undeclared v = (case vi_reason v of R_undeclared _ \<Rightarrow> True | _ \<Rightarrow> False)"

lemma about_undeclared_row: "about_undeclared (undeclared_row ck d k v)"
  by (simp add: undeclared_row_def about_undeclared_def row_def)

lemma pattern_not_undeclared: "v \<in> set (value_pattern ck f x s) \<Longrightarrow> \<not> about_undeclared v"
  by (cases x; cases "ps_pattern s") (auto simp: value_pattern_def about_undeclared_def row_def
      split: if_splits pattern_outcome.split_asm)

lemma value_not_undeclared: "v \<in> set (validate_value ck f x s) \<Longrightarrow> \<not> about_undeclared v"
  using pattern_not_undeclared
  by (auto simp: validate_value_def value_enum_def value_bounds_def about_undeclared_def row_def
      split: if_splits option.splits json.splits)

lemma declared_not_undeclared: "v \<in> set (declared_check ck props e) \<Longrightarrow> \<not> about_undeclared v"
  using value_not_undeclared by (auto simp: declared_check_def Let_def about_undeclared_def row_def split: if_splits)

text \<open>
  The exemption of the keys the instance writes touches nothing else.  Of a record's properties
  it drops the rows that call an exempt key undeclared, and no other row, in no other order; so with it
  a required key, a wrong type, a bound or a pattern is reported as without it.
\<close>

theorem exemption_drops_its_keys_only:
  "filter (\<lambda>v. \<not> about_undeclared v) (validate_properties ck meta ts props exempt)
     = filter (\<lambda>v. \<not> about_undeclared v) (validate_properties ck meta ts props [])
   \<and> filter about_undeclared (validate_properties ck meta ts props exempt)
     = filter about_undeclared (validate_properties ck meta ts (filter (\<lambda>e. fst e \<notin> set exempt) props) [])"
proof (cases "Option.bind ts ts_propertySchemas")
  case None
  then show ?thesis by (simp add: validate_properties_def)
next
  case (Some ps)
  have plain: "filter (\<lambda>v. \<not> about_undeclared v) (concat (map (declared_check ck p) ps)) = concat (map (declared_check ck p) ps)"
    "filter about_undeclared (concat (map (declared_check ck p) ps)) = []" for p
    using declared_not_undeclared by (fastforce simp: filter_id_conv filter_empty_conv)+
  have rows: "filter (\<lambda>v. \<not> about_undeclared v) (undeclared_rows ck d ex p) = []"
    "filter about_undeclared (undeclared_rows ck d ex p) = undeclared_rows ck d ex p" for d ex p
    by (auto simp: undeclared_rows_def filter_id_conv filter_empty_conv about_undeclared_row)
  have "undeclared_rows ck d exempt props = undeclared_rows ck d [] (filter (\<lambda>e. fst e \<notin> set exempt) props)" for d
    unfolding undeclared_rows_def filter_filter by (intro arg_cong [where f = "map _"] filter_cong) auto
  with Some show ?thesis by (simp add: validate_properties_def plain rows)
qed

section \<open>Concrete records\<close>

definition demo_checks :: checks where
  "demo_checks = \<lparr>ck_regexp = (\<lambda>p x. Some (p = x)), ck_available = True, ck_compile = (\<lambda>_ _ _. None),
     ck_quote = (\<lambda>s. s), ck_hash = (\<lambda>s. s)\<rparr>"

definition demo_type :: type_schema where
  "demo_type = empty_type\<lparr>ts_propertySchemas := Some
     [(''mass'', plain_property\<lparr>ps_type := Some T_number, ps_required := True, ps_minimum := Some 0\<rparr>),
      (''unit'', plain_property\<lparr>ps_type := Some T_string, ps_default := JStr ''kg''\<rparr>)]\<rparr>"

definition demo_meta :: space_meta where
  "demo_meta = \<lparr>sm_validationMode = Some Mode_strict,
     sm_typeSchemas = Some [(K_entity, [(''body'', demo_type), (''orb'', empty_type\<lparr>ts_ref := Some ''library:orb''\<rparr>)])], sm_rules = None\<rparr>"

definition demo_record :: "string \<Rightarrow> (string \<times> json) list" where
  "demo_record t = [(''name'', JStr ''Io''), (''type'', JStr t), (''properties'', JObj [(''mass'', JNum 9), (''unit'', JStr ''kg'')])]"

lemma demo_record_fits: "violations_of_record demo_checks (Some demo_meta) K_entity (demo_record ''body'') None = Some []"
  by code_simp

lemma no_violation_iff_fits_witness:
  "record_fits demo_checks (Some demo_meta) K_entity (record_view_of K_entity (demo_record ''body''))
     \<lparr>en_fromType = None, en_toType = None, en_otherEdgesFromSubject = None\<rparr>"
  using no_violation_iff_fits [OF demo_record_fits] by simp


lemma defaults_fill_what_is_absent_witness:
  "own_value (given_properties (apply_property_defaults (Some demo_type) (Some [(''mass'', JNum 9)]))) ''unit'' = JStr ''kg''"
proof -
  have a: "ts_propertySchemas demo_type = Some [(''mass'', plain_property\<lparr>ps_type := Some T_number, ps_required := True, ps_minimum := Some 0\<rparr>),
      (''unit'', plain_property\<lparr>ps_type := Some T_string, ps_default := JStr ''kg''\<rparr>)]" by code_simp
  show ?thesis
    using defaults_fill_what_is_absent [OF a, of "Some [(''mass'', JNum 9)]" "''unit''"]
    by (simp add: own_value_def OBJECT_PROTOTYPE_NAMES_def)
qed


end
