(* ===== verification/Rule_Analysis.thy ===== *)
theory Rule_Analysis
  imports Schema_Check
begin

text \<open>
  The analysis of a schema rule (\<open>schema/src/rules.ts\<close>): one walk of a parsed expression that counts its
  parts, prices it, finds what it reads of the record and says what is wrong with it for a scope.  The
  parser and the functions of the engine (\<open>@bufbuild/cel\<close>) are parameters; a problem, which the source
  writes out as a sentence, is a datatype that carries what the sentence quotes.
\<close>

section \<open>Expressions and scopes\<close>

text \<open>
  The shape \<open>parse\<close> returns, as much of it as the walk reads.  A constant carries its text where it is a
  string; \<open>Absent\<close> is a part that is not there; \<open>Other_expr\<close> is any other case.
\<close>

datatype expr =
    Absent
  | Const "string option"
  | Ident string
  | Select expr string bool
  | Call string expr "expr list"
  | List_expr "expr list"
  | Struct_expr "(expr \<times> expr) list"
  | Comprehension expr expr string string string expr expr expr
  | Other_expr

datatype rule_level = Type_level | Space_level

record rule_scope =
  rs_level :: rule_level
  rs_kinds :: "kind list"
  rs_implicit :: bool
  rs_declared :: "(string \<times> property_schema) list option"

datatype problem =
    P_edge_end string | P_not_a_field string "kind list" | P_undeclared string
  | P_unknown_name string | P_computed_name | P_unknown_function string | P_pattern_not_literal
  | P_nested_loop | P_unknown_kind | P_too_complex nat | P_no_kind
  | P_engine_missing | P_does_not_parse string | P_bad_pattern string
  | P_not_boolean string | P_unbound_function | P_bad_regexp

record analysis =
  an_nodes :: nat
  an_cost :: nat
  an_problems :: "problem list"
  an_refs :: rule_refs
  an_patterns :: "string list"
  an_kinds :: "kind list"

text \<open>What the walk asks of the engine, and the renderer of a name someone else chose.\<close>

record walk_env =
  we_has_function :: "string \<Rightarrow> bool"
  we_quote :: "string \<Rightarrow> string"

section \<open>Limits\<close>

definition AST_NODE_LIMIT :: nat where "AST_NODE_LIMIT = 200"

definition REGEX_WEIGHT :: nat where "REGEX_WEIGHT = 100"

definition COST_BUDGET :: nat where "COST_BUDGET = 10000000"

definition SCANS :: "string list" where
  "SCANS = [''matches'', ''contains'', ''startsWith'', ''endsWith'']"

definition TYPE_IDENTS :: "string list" where
  "TYPE_IDENTS = [''int'', ''uint'', ''double'', ''bool'', ''string'', ''bytes'', ''list'', ''map'', ''null_type'', ''type'', ''dyn'']"

definition PLANNER_OPERATORS :: "string list" where
  "PLANNER_OPERATORS = [''_&&_'', ''_||_'', ''_?_:_'', ''_[_]'', ''@not_strictly_false'']"

text \<open>What one read of a field of \<open>self\<close> can hold, in caps: \<open>Math.ceil(MAP_CAP / LIST_CAP)\<close> for the map.\<close>

definition read_size :: "string \<Rightarrow> nat" where
  "read_size name = (if name = ''properties'' then (MAP_CAP + LIST_CAP - 1) div LIST_CAP else 1)"

definition has_view_field :: "kind \<Rightarrow> string \<Rightarrow> bool" where
  "has_view_field k name \<longleftrightarrow> name \<in> set (map field_name (VIEW_FIELDS k))"

section \<open>The marks the walk makes\<close>

definition is_self :: "expr \<Rightarrow> bool" where
  "is_self e \<longleftrightarrow> e = Ident ''self''"

definition is_self_properties :: "expr \<Rightarrow> bool" where
  "is_self_properties e = (case e of Select op name _ \<Rightarrow> is_self op \<and> name = ''properties'' | _ \<Rightarrow> False)"

definition string_const :: "expr \<Rightarrow> string option" where
  "string_const e = (case e of Const s \<Rightarrow> s | _ \<Rightarrow> None)"

definition add_new :: "'a \<Rightarrow> 'a list \<Rightarrow> 'a list" where
  "add_new x xs = (if x \<in> set xs then xs else xs @ [x])"

definition note_problem :: "problem \<Rightarrow> analysis \<Rightarrow> analysis" where
  "note_problem p a =
     (if p \<notin> set (an_problems a) \<and> length (an_problems a) < 5 then a\<lparr>an_problems := an_problems a @ [p]\<rparr> else a)"

definition count_node :: "nat \<Rightarrow> analysis \<Rightarrow> analysis" where
  "count_node runs a = a\<lparr>an_nodes := Suc (an_nodes a), an_cost := an_cost a + runs\<rparr>"

definition charge :: "nat \<Rightarrow> analysis \<Rightarrow> analysis" where
  "charge c a = a\<lparr>an_cost := an_cost a + c\<rparr>"

definition reads_whole :: "analysis \<Rightarrow> analysis" where
  "reads_whole a = a\<lparr>an_refs := (an_refs a)\<lparr>rf_whole := True\<rparr>\<rparr>"

definition add_pattern :: "string \<Rightarrow> analysis \<Rightarrow> analysis" where
  "add_pattern p a = a\<lparr>an_patterns := an_patterns a @ [p]\<rparr>"

definition keep_field :: "string \<Rightarrow> bool \<Rightarrow> bool \<Rightarrow> analysis \<Rightarrow> analysis" where
  "keep_field name testOnly consumed a =
     (if \<not> testOnly \<and> \<not> (name = ''properties'' \<and> consumed)
      then a\<lparr>an_refs := (an_refs a)\<lparr>rf_fields := add_new name (rf_fields (an_refs a))\<rparr>\<rparr> else a)"

definition keep_property :: "string \<Rightarrow> bool \<Rightarrow> analysis \<Rightarrow> analysis" where
  "keep_property name testOnly a =
     (if testOnly then a\<lparr>an_refs := (an_refs a)\<lparr>rf_presence := add_new name (rf_presence (an_refs a))\<rparr>\<rparr>
      else a\<lparr>an_refs := (an_refs a)\<lparr>rf_props := add_new name (rf_props (an_refs a))\<rparr>\<rparr>)"

definition read_field :: "walk_env \<Rightarrow> rule_scope \<Rightarrow> string \<Rightarrow> bool \<Rightarrow> bool \<Rightarrow> analysis \<Rightarrow> analysis" where
  "read_field w sc name testOnly consumed a =
     (if name = ''from'' \<or> name = ''to'' then note_problem (P_edge_end name) a
      else
        let lacking = filter (\<lambda>k. \<not> has_view_field k name) (rs_kinds sc);
            narrows = (rs_implicit sc \<and> length lacking < length (rs_kinds sc));
            a1 = (if narrows then a\<lparr>an_kinds := filter (\<lambda>k. k \<notin> set lacking) (an_kinds a)\<rparr> else a)
        in if \<not> narrows \<and> lacking \<noteq> [] then note_problem (P_not_a_field (we_quote w name) lacking) a
           else keep_field name testOnly consumed a1)"

definition read_property :: "walk_env \<Rightarrow> rule_scope \<Rightarrow> string \<Rightarrow> bool \<Rightarrow> analysis \<Rightarrow> analysis" where
  "read_property w sc name testOnly a =
     (if (case rs_declared sc of Some ds \<Rightarrow> name \<notin> fst ` set ds | None \<Rightarrow> False)
      then note_problem (P_undeclared (we_quote w name)) a else keep_property name testOnly a)"

definition read_computed :: "rule_scope \<Rightarrow> analysis \<Rightarrow> analysis" where
  "read_computed sc a = (if rs_declared sc \<noteq> None then note_problem P_computed_name a else a)"

section \<open>The walk\<close>

definition arg_at :: "expr list \<Rightarrow> nat \<Rightarrow> expr" where
  "arg_at es i = (if i < length es then es ! i else Absent)"

definition size_at :: "nat list \<Rightarrow> nat \<Rightarrow> nat" where
  "size_at ss i = (if i < length ss then ss ! i else 0)"

text \<open>The marks of a call before its parts are visited, and the price and the size once they are.\<close>

definition mark_call :: "walk_env \<Rightarrow> rule_scope \<Rightarrow> string \<Rightarrow> expr \<Rightarrow> expr list \<Rightarrow> analysis \<Rightarrow> analysis" where
  "mark_call w sc fn target args a =
     (let a1 = (if fn = ''_[_]'' \<and> length args = 2 \<and> is_self_properties (arg_at args 0) then read_computed sc a else a);
          a2 = (if fn \<notin> set PLANNER_OPERATORS \<and> \<not> we_has_function w fn
                then note_problem (P_unknown_function (we_quote w fn)) a1 else a1)
      in if fn = ''matches''
         then (case string_const (if target \<noteq> Absent then arg_at args 0 else arg_at args 1) of
                 None \<Rightarrow> note_problem P_pattern_not_literal a2
               | Some lit \<Rightarrow> add_pattern lit a2)
         else a2)"

definition call_price :: "nat \<Rightarrow> string \<Rightarrow> expr \<Rightarrow> nat \<Rightarrow> nat list \<Rightarrow> nat" where
  "call_price runs fn target ts ss =
     (if fn \<in> set SCANS then runs * REGEX_WEIGHT * max 1 (if target \<noteq> Absent then ts else size_at ss 0) else 0)
     + (if fn = ''_+_'' then runs * (ts + sum_list ss) else 0)"

definition call_size :: "string \<Rightarrow> nat \<Rightarrow> nat list \<Rightarrow> nat" where
  "call_size fn ts ss =
     (if fn = ''_?_:_'' then max (size_at ss 1) (size_at ss 2)
      else if fn = ''_[_]'' then size_at ss 0
      else ts + sum_list ss)"

text \<open>
  \<open>visit\<close> answers how much a part can hold.  \<open>bound\<close> are the variables of the loops around it, \<open>depth\<close> how
  many those are, \<open>runs\<close> how often it runs, and \<open>consumed\<close> says that the part around it reads on.
\<close>

function (sequential) visit :: "walk_env \<Rightarrow> rule_scope \<Rightarrow> string list \<Rightarrow> nat \<Rightarrow> nat \<Rightarrow> bool \<Rightarrow> expr \<Rightarrow> analysis \<Rightarrow> analysis \<times> nat"
  and visit_all :: "walk_env \<Rightarrow> rule_scope \<Rightarrow> string list \<Rightarrow> nat \<Rightarrow> nat \<Rightarrow> bool \<Rightarrow> expr list \<Rightarrow> analysis \<Rightarrow> analysis \<times> nat list"
  and visit_entries :: "walk_env \<Rightarrow> rule_scope \<Rightarrow> string list \<Rightarrow> nat \<Rightarrow> nat \<Rightarrow> (expr \<times> expr) list \<Rightarrow> analysis \<Rightarrow> analysis \<times> nat" where
  "visit w sc bound depth runs consumed Absent a = (a, 0)"
| "visit w sc bound depth runs consumed (Const s) a = (count_node runs a, 0)"
| "visit w sc bound depth runs consumed (Ident name) a =
     (let a1 = count_node runs a
      in if name \<in> set bound then (a1, 1)
         else if name \<in> set TYPE_IDENTS then (a1, 0)
         else if name = ''self'' then (if consumed then a1 else reads_whole a1, 1)
         else (note_problem (P_unknown_name (we_quote w name)) a1, 0))"
| "visit w sc bound depth runs consumed (Select op name testOnly) a =
     (let a1 = count_node runs a
      in if is_self op
         then (fst (visit w sc bound depth runs True op (read_field w sc name testOnly consumed a1)), read_size name)
         else if is_self_properties op
         then (fst (visit w sc bound depth runs True op (read_property w sc name testOnly a1)), 1)
         else visit w sc bound depth runs False op a1)"
| "visit w sc bound depth runs consumed (Call fn target args) a =
     (let a1 = count_node runs a; key = string_const (arg_at args 1)
      in if fn = ''_[_]'' \<and> length args = 2 \<and> is_self_properties (arg_at args 0) \<and> key \<noteq> None
         then (fst (visit_all w sc bound depth runs True args (read_property w sc (the key) False a1)), 1)
         else if fn = ''_[_]'' \<and> length args = 2 \<and> is_self (arg_at args 0) \<and> key \<noteq> None
         then (fst (visit_all w sc bound depth runs True args (read_field w sc (the key) False False a1)), read_size (the key))
         else case visit w sc bound depth runs False target (mark_call w sc fn target args a1) of (a2, ts) \<Rightarrow>
              (case visit_all w sc bound depth runs False args a2 of (a3, ss) \<Rightarrow>
                 (charge (call_price runs fn target ts ss) a3, call_size fn ts ss)))"
| "visit w sc bound depth runs consumed (List_expr es) a =
     (case visit_all w sc bound depth runs False es (count_node runs a) of (a1, ss) \<Rightarrow> (a1, sum_list ss))"
| "visit w sc bound depth runs consumed (Struct_expr es) a = visit_entries w sc bound depth runs es (count_node runs a)"
| "visit w sc bound depth runs consumed (Comprehension iterRange accuInit iterVar iterVar2 accuVar loopCondition loopStep res) a =
     (let a1 = count_node runs a;
          a2 = (if 0 < depth then note_problem P_nested_loop a1 else a1);
          vars = filter (\<lambda>x. x \<noteq> []) [iterVar, iterVar2, accuVar]
      in case visit w sc bound depth runs False iterRange a2 of (a3, r) \<Rightarrow>
         (let held = max 1 r;
              a4 = fst (visit w sc bound depth runs False accuInit a3);
              perRun = runs * LIST_CAP * held;
              a5 = fst (visit w sc (bound @ vars) (Suc depth) perRun False loopCondition a4)
          in case visit w sc (bound @ vars) (Suc depth) perRun False loopStep a5 of (a6, s) \<Rightarrow>
             (fst (visit w sc (bound @ vars) depth runs False res a6), held * max 1 s)))"
| "visit w sc bound depth runs consumed Other_expr a = (note_problem P_unknown_kind (count_node runs a), 0)"
| "visit_all w sc bound depth runs consumed [] a = (a, [])"
| "visit_all w sc bound depth runs consumed (e # es) a =
     (case visit w sc bound depth runs consumed e a of (a1, s) \<Rightarrow>
        (case visit_all w sc bound depth runs False es a1 of (a2, ss) \<Rightarrow> (a2, s # ss)))"
| "visit_entries w sc bound depth runs [] a = (a, 0)"
| "visit_entries w sc bound depth runs ((key, val) # es) a =
     (case visit w sc bound depth runs False key a of (a1, n) \<Rightarrow>
        (case visit w sc bound depth runs False val a1 of (a2, m) \<Rightarrow>
           (case visit_entries w sc bound depth runs es a2 of (a3, s) \<Rightarrow> (a3, n + m + s))))"

  by pat_completeness auto

termination
  by (relation "measure (\<lambda>x. case x of
        Inl (w, sc, b, d, n, c, e, a) \<Rightarrow> size e
      | Inr (Inl (w, sc, b, d, n, c, es, a)) \<Rightarrow> size_list size es
      | Inr (Inr (w, sc, b, d, n, es, a)) \<Rightarrow> size_list (size_prod size size) es)")
    auto

definition no_refs :: rule_refs where
  "no_refs = \<lparr>rf_whole = False, rf_fields = [], rf_props = [], rf_presence = []\<rparr>"

definition fresh_analysis :: "rule_scope \<Rightarrow> analysis" where
  "fresh_analysis sc = \<lparr>an_nodes = 0, an_cost = 0, an_problems = [], an_refs = no_refs, an_patterns = [], an_kinds = rs_kinds sc\<rparr>"

definition close_analysis :: "analysis \<Rightarrow> analysis" where
  "close_analysis a =
     (let a1 = (if AST_NODE_LIMIT < an_nodes a then note_problem (P_too_complex (an_nodes a)) a else a)
      in if an_kinds a1 = [] \<and> an_problems a1 = [] then note_problem P_no_kind a1 else a1)"

definition analyse :: "walk_env \<Rightarrow> expr \<Rightarrow> rule_scope \<Rightarrow> analysis" where
  "analyse w e sc = close_analysis (fst (visit w sc [] 0 1 False e (fresh_analysis sc)))"

section \<open>Two walks of one rule\<close>

text \<open>
  A relation between two analyses that every mark keeps is kept by the walk, whatever the two scopes; and
  the sizes, which no scope moves, are the same.
\<close>

locale rule_walks =
  fixes w :: walk_env and sc sc' :: rule_scope and R :: "analysis \<Rightarrow> analysis \<Rightarrow> bool"
  assumes R_count: "R a a' \<Longrightarrow> R (count_node n a) (count_node n a')"
    and R_charge: "R a a' \<Longrightarrow> R (charge n a) (charge n a')"
    and R_problem: "R a a' \<Longrightarrow> R (note_problem p a) (note_problem p a')"
    and R_whole: "R a a' \<Longrightarrow> R (reads_whole a) (reads_whole a')"
    and R_pattern: "R a a' \<Longrightarrow> R (add_pattern lit a) (add_pattern lit a')"
    and R_field: "R a a' \<Longrightarrow> R (read_field w sc name t c a) (read_field w sc' name t c a')"
    and R_property: "R a a' \<Longrightarrow> R (read_property w sc name t a) (read_property w sc' name t a')"
    and R_computed: "R a a' \<Longrightarrow> R (read_computed sc a) (read_computed sc' a')"
begin

lemma R_mark_call:
  assumes "R a a'"
  shows "R (mark_call w sc fn target args a) (mark_call w sc' fn target args a')"
proof -
  have 1: "R (if P then read_computed sc a else a) (if P then read_computed sc' a' else a')" for P
    using assms by (simp add: R_computed)
  have 2: "R (if P then note_problem p (if Q then read_computed sc a else a) else (if Q then read_computed sc a else a))
      (if P then note_problem p (if Q then read_computed sc' a' else a') else (if Q then read_computed sc' a' else a'))" for P Q p
    using 1 [of Q] by (simp add: R_problem)
  show ?thesis
  proof (cases "fn = ''matches''")
    case True
    then show ?thesis unfolding mark_call_def Let_def
      by (cases "string_const (if target \<noteq> Absent then arg_at args 0 else arg_at args 1)")
         (simp_all only: option.case if_True refl R_problem [OF 2] R_pattern [OF 2])
  next
    case False
    then show ?thesis unfolding mark_call_def Let_def by (simp only: if_False 2)
  qed
qed

lemma walk_all:
  assumes "\<And>e b d n c a a'. e \<in> set es \<Longrightarrow> R a a' \<Longrightarrow>
      R (fst (visit w sc b d n c e a)) (fst (visit w sc' b d n c e a')) \<and> snd (visit w sc b d n c e a) = snd (visit w sc' b d n c e a')"
    and "R a a'"
  shows "R (fst (visit_all w sc b d n c es a)) (fst (visit_all w sc' b d n c es a'))
    \<and> snd (visit_all w sc b d n c es a) = snd (visit_all w sc' b d n c es a')"
  using assms
proof (induction es arbitrary: a a' c)
  case (Cons e es)
  from Cons.prems(1) [OF _ Cons.prems(2), of e b d n c]
  have e: "R (fst (visit w sc b d n c e a)) (fst (visit w sc' b d n c e a'))"
    "snd (visit w sc b d n c e a) = snd (visit w sc' b d n c e a')" by auto
  from Cons.IH [OF Cons.prems(1) e(1), of False] e(2) show ?case by (simp add: case_prod_beta)
qed simp

lemma walk_entries:
  assumes "\<And>x e b d n c a a'. x \<in> set es \<Longrightarrow> e \<in> {fst x, snd x} \<Longrightarrow> R a a' \<Longrightarrow>
      R (fst (visit w sc b d n c e a)) (fst (visit w sc' b d n c e a')) \<and> snd (visit w sc b d n c e a) = snd (visit w sc' b d n c e a')"
    and "R a a'"
  shows "R (fst (visit_entries w sc b d n es a)) (fst (visit_entries w sc' b d n es a'))
    \<and> snd (visit_entries w sc b d n es a) = snd (visit_entries w sc' b d n es a')"
  using assms
proof (induction es arbitrary: a a')
  case (Cons x es)
  obtain key val where x: "x = (key, val)" by fastforce
  from Cons.prems(1) [OF _ _ Cons.prems(2), of x key b d n False] x
  have k: "R (fst (visit w sc b d n False key a)) (fst (visit w sc' b d n False key a'))"
    "snd (visit w sc b d n False key a) = snd (visit w sc' b d n False key a')" by auto
  from Cons.prems(1) [OF _ _ k(1), of x val b d n False] x
  have v: "R (fst (visit w sc b d n False val (fst (visit w sc b d n False key a))))
      (fst (visit w sc' b d n False val (fst (visit w sc' b d n False key a'))))"
    "snd (visit w sc b d n False val (fst (visit w sc b d n False key a)))
      = snd (visit w sc' b d n False val (fst (visit w sc' b d n False key a')))" by auto
  have rest: "R (fst (visit w sc b d n c e a)) (fst (visit w sc' b d n c e a')) \<and> snd (visit w sc b d n c e a) = snd (visit w sc' b d n c e a')"
    if "x \<in> set es" "e \<in> {fst x, snd x}" "R a a'" for x e b d n c a a'
    by (rule Cons.prems(1) [OF _ that(2,3)]) (simp add: that(1))
  from Cons.IH [OF rest v(1)] k(2) v(2) x show ?case by (simp add: case_prod_beta)
qed simp

lemma walk:
  assumes "R a a'"
  shows "R (fst (visit w sc b d n c e a)) (fst (visit w sc' b d n c e a')) \<and> snd (visit w sc b d n c e a) = snd (visit w sc' b d n c e a')"
  using assms
proof (induction e arbitrary: b d n c a a')
  case (Ident x)
  then show ?case by (auto simp: Let_def intro: R_count R_whole R_problem)
next
  case (Select op name t)
  then have 1: "R (count_node n a) (count_node n a')" by (simp add: R_count)
  show ?case
    using Select.IH [OF R_field [OF 1], of b d n True name t c] Select.IH [OF R_property [OF 1], of b d n True name t]
      Select.IH [OF 1, of b d n False]
    by (simp add: Let_def)
next
  case (Call fn target args)
  then have 1: "R (count_node n a) (count_node n a')" by (simp add: R_count)
  have args: "R (fst (visit_all w sc b d n c args a)) (fst (visit_all w sc' b d n c args a'))
      \<and> snd (visit_all w sc b d n c args a) = snd (visit_all w sc' b d n c args a')" if "R a a'" for b d n c a a'
    by (rule walk_all [OF Call.IH(2) that])
  from Call.IH(1) [OF R_mark_call [OF 1], of b d n False fn target args]
  have 2: "R (fst (visit w sc b d n False target (mark_call w sc fn target args (count_node n a))))
        (fst (visit w sc' b d n False target (mark_call w sc' fn target args (count_node n a'))))"
    "snd (visit w sc b d n False target (mark_call w sc fn target args (count_node n a)))
        = snd (visit w sc' b d n False target (mark_call w sc' fn target args (count_node n a')))" by auto
  let ?p = "fn = ''_[_]'' \<and> length args = 2 \<and> is_self_properties (arg_at args 0) \<and> string_const (arg_at args 1) \<noteq> None"
  let ?f = "fn = ''_[_]'' \<and> length args = 2 \<and> is_self (arg_at args 0) \<and> string_const (arg_at args 1) \<noteq> None"
  consider (named) ?p | (fieldname) "\<not> ?p" ?f | (other) "\<not> ?p" "\<not> ?f" by blast
  then show ?case
  proof cases
    case named
    show ?thesis using args [OF R_property [OF 1], of b d n True "the (string_const (arg_at args 1))" False]
      by (simp only: visit.simps Let_def if_P [OF named] fst_conv snd_conv simp_thms)
  next
    case fieldname
    show ?thesis using args [OF R_field [OF 1], of b d n True "the (string_const (arg_at args 1))" False False]
      by (simp only: visit.simps Let_def if_not_P [OF fieldname(1)] if_P [OF fieldname(2)] fst_conv snd_conv simp_thms)
  next
    case other
    show ?thesis using args [OF 2(1), of b d n False]
      by (simp only: visit.simps Let_def if_not_P [OF other(1)] if_not_P [OF other(2)] case_prod_beta 2(2) R_charge fst_conv snd_conv simp_thms)
  qed
next
  case (List_expr es)
  have "R (fst (visit_all w sc b d n False es (count_node n a))) (fst (visit_all w sc' b d n False es (count_node n a')))
      \<and> snd (visit_all w sc b d n False es (count_node n a)) = snd (visit_all w sc' b d n False es (count_node n a'))"
    by (rule walk_all [OF List_expr.IH R_count [OF List_expr.prems]])
  then show ?case by (simp add: case_prod_beta)
next
  case (Struct_expr es)
  have "R (fst (visit w sc b d n c e a)) (fst (visit w sc' b d n c e a')) \<and> snd (visit w sc b d n c e a) = snd (visit w sc' b d n c e a')"
    if "x \<in> set es" "e \<in> {fst x, snd x}" "R a a'" for x e b d n c a a'
    using Struct_expr.IH(1) [of x "fst x" a a' b d n c] Struct_expr.IH(2) [of x "snd x" a a' b d n c] that
    by (cases x) (auto simp: fsts.simps snds.simps)
  from walk_entries [OF this R_count [OF Struct_expr.prems], where b = b and d = d and n = n] show ?case by simp
next
  case (Comprehension held_by init v v2 acc cond stp res)
  let ?a = "if 0 < d then note_problem P_nested_loop (count_node n a) else count_node n a"
  let ?a' = "if 0 < d then note_problem P_nested_loop (count_node n a') else count_node n a'"
  let ?vars = "b @ filter (\<lambda>x. x \<noteq> []) [v, v2, acc]"
  have "R ?a ?a'" using Comprehension.prems by (simp add: R_count R_problem)
  from Comprehension.IH(1) [OF this, of b d n False]
  have 1: "R (fst (visit w sc b d n False held_by ?a)) (fst (visit w sc' b d n False held_by ?a'))"
    and r: "snd (visit w sc' b d n False held_by ?a') = snd (visit w sc b d n False held_by ?a)" by simp_all
  let ?held = "max 1 (snd (visit w sc b d n False held_by ?a))"
  from Comprehension.IH(2) [OF 1, of b d n False]
  have 2: "R (fst (visit w sc b d n False init (fst (visit w sc b d n False held_by ?a))))
      (fst (visit w sc' b d n False init (fst (visit w sc' b d n False held_by ?a'))))" by simp
  from Comprehension.IH(3) [OF 2, of ?vars "Suc d" "n * LIST_CAP * ?held" False]
  have 3: "R (fst (visit w sc ?vars (Suc d) (n * LIST_CAP * ?held) False cond
        (fst (visit w sc b d n False init (fst (visit w sc b d n False held_by ?a))))))
      (fst (visit w sc' ?vars (Suc d) (n * LIST_CAP * ?held) False cond
        (fst (visit w sc' b d n False init (fst (visit w sc' b d n False held_by ?a'))))))" by simp
  from Comprehension.IH(4) [OF 3, of ?vars "Suc d" "n * LIST_CAP * ?held" False]
    Comprehension.IH(5) [OF conjunct1 [OF Comprehension.IH(4) [OF 3, of ?vars "Suc d" "n * LIST_CAP * ?held" False]], of ?vars d n False]
  show ?case by (simp only: visit.simps Let_def case_prod_beta fst_conv snd_conv r simp_thms)
qed (auto simp: R_count R_problem)

lemma walk_every:
  assumes "R a a'"
  shows "R (fst (visit_all w sc b d n c es a)) (fst (visit_all w sc' b d n c es a'))"
    and "R (fst (visit_entries w sc b d n entries a)) (fst (visit_entries w sc' b d n entries a'))"
  using walk_all [OF walk assms] walk_entries [OF walk assms] by blast+

end

section \<open>A rule for many kinds and for one\<close>

definition same_declared :: "rule_scope \<Rightarrow> rule_scope \<Rightarrow> bool" where
  "same_declared sc sc' \<longleftrightarrow>
     map_option (\<lambda>ds. fst ` set ds) (rs_declared sc) = map_option (\<lambda>ds. fst ` set ds) (rs_declared sc')"

definition narrows_to :: "rule_scope \<Rightarrow> rule_scope \<Rightarrow> kind \<Rightarrow> bool" where
  "narrows_to sc sc' k \<longleftrightarrow> k \<in> set (rs_kinds sc) \<and> rs_kinds sc' = [k] \<and> \<not> rs_implicit sc' \<and> same_declared sc sc'"

definition as_narrowed :: "rule_scope \<Rightarrow> rule_scope \<Rightarrow> kind \<Rightarrow> analysis \<Rightarrow> analysis \<Rightarrow> bool" where
  "as_narrowed sc sc' k a a' \<longleftrightarrow> narrows_to sc sc' k
     \<and> an_nodes a = an_nodes a' \<and> an_cost a = an_cost a' \<and> an_patterns a = an_patterns a' \<and> an_kinds a' = [k]
     \<and> (an_problems a = [] \<longrightarrow>
          (if k \<in> set (an_kinds a) then an_problems a' = [] \<and> an_refs a' = an_refs a else an_problems a' \<noteq> []))"

lemma noted_not_nil [simp]: "an_problems (note_problem p a) \<noteq> []"
  by (cases "an_problems a") (auto simp: note_problem_def)

lemma mark_simps [simp]:
  "an_nodes (note_problem p a) = an_nodes a" "an_cost (note_problem p a) = an_cost a"
  "an_patterns (note_problem p a) = an_patterns a" "an_kinds (note_problem p a) = an_kinds a"
  "an_refs (note_problem p a) = an_refs a"
  by (simp_all add: note_problem_def)

lemma keep_simps [simp]:
  "an_nodes (keep_field name t c a) = an_nodes a" "an_nodes (keep_property name t a) = an_nodes a"
  "an_cost (keep_field name t c a) = an_cost a" "an_cost (keep_property name t a) = an_cost a"
  "an_patterns (keep_field name t c a) = an_patterns a" "an_patterns (keep_property name t a) = an_patterns a"
  "an_kinds (keep_field name t c a) = an_kinds a" "an_kinds (keep_property name t a) = an_kinds a"
  "an_problems (keep_field name t c a) = an_problems a" "an_problems (keep_property name t a) = an_problems a"
  "an_refs (keep_field name t c a) = (if \<not> t \<and> \<not> (name = ''properties'' \<and> c)
     then (an_refs a)\<lparr>rf_fields := add_new name (rf_fields (an_refs a))\<rparr> else an_refs a)"
  "an_refs (keep_property name t a) = (if t then (an_refs a)\<lparr>rf_presence := add_new name (rf_presence (an_refs a))\<rparr>
     else (an_refs a)\<lparr>rf_props := add_new name (rf_props (an_refs a))\<rparr>)"
  by (simp_all add: keep_field_def keep_property_def)

lemma as_narrowed_problem: "as_narrowed sc sc' k a a' \<Longrightarrow> as_narrowed sc sc' k (note_problem p a) (note_problem p a')"
  by (simp add: as_narrowed_def)

lemma as_narrowed_field:
  assumes "as_narrowed sc sc' k a a'"
  shows "as_narrowed sc sc' k (read_field w sc name t c a) (read_field w sc' name t c a')"
proof -
  have n: "k \<in> set (rs_kinds sc)" "rs_kinds sc' = [k]" "\<not> rs_implicit sc'"
    using assms by (auto simp: as_narrowed_def narrows_to_def)
  show ?thesis
  proof (cases "name = ''from'' \<or> name = ''to''")
    case True
    with assms show ?thesis by (simp add: read_field_def as_narrowed_problem)
  next
    case False
    let ?l = "filter (\<lambda>k. \<not> has_view_field k name) (rs_kinds sc)"
    have k: "k \<in> set ?l \<longleftrightarrow> \<not> has_view_field k name" using n(1) by simp
    have one: "read_field w sc' name t c a' =
        (if has_view_field k name then keep_field name t c a' else note_problem (P_not_a_field (we_quote w name) [k]) a')"
      using False n by (simp add: read_field_def Let_def)
    consider (narrow) "rs_implicit sc \<and> length ?l < length (rs_kinds sc)" | (lacks) "\<not> (rs_implicit sc \<and> length ?l < length (rs_kinds sc))" "?l \<noteq> []"
      | (all) "\<not> (rs_implicit sc \<and> length ?l < length (rs_kinds sc))" "?l = []" by blast
    then show ?thesis
    proof cases
      case narrow
      then have "read_field w sc name t c a = keep_field name t c (a\<lparr>an_kinds := filter (\<lambda>k. k \<notin> set ?l) (an_kinds a)\<rparr>)"
        using False by (simp only: read_field_def Let_def if_False if_True simp_thms)
      with assms one k show ?thesis by (auto simp: as_narrowed_def)
    next
      case lacks
      then have "read_field w sc name t c a = note_problem (P_not_a_field (we_quote w name) ?l) a"
        using False by (simp only: read_field_def Let_def if_False if_True simp_thms)
      with assms one show ?thesis by (simp add: as_narrowed_def)
    next
      case all
      then have "read_field w sc name t c a = keep_field name t c a"
        using False by (simp only: read_field_def Let_def if_False if_True simp_thms)
      moreover have "has_view_field k name" using k all(2) by simp
      ultimately show ?thesis using assms one by (auto simp: as_narrowed_def)
    qed
  qed
qed

lemma as_narrowed_property:
  assumes "as_narrowed sc sc' k a a'"
  shows "as_narrowed sc sc' k (read_property w sc name t a) (read_property w sc' name t a')"
proof -
  have "same_declared sc sc'" using assms by (simp add: as_narrowed_def narrows_to_def)
  then consider "rs_declared sc = None" "rs_declared sc' = None"
    | ds ds' where "rs_declared sc = Some ds" "rs_declared sc' = Some ds'" "fst ` set ds = fst ` set ds'"
    by (cases "rs_declared sc"; cases "rs_declared sc'") (auto simp: same_declared_def)
  then show ?thesis
    by cases (use assms in \<open>simp_all add: read_property_def as_narrowed_def\<close>)
qed

lemma as_narrowed_computed:
  assumes "as_narrowed sc sc' k a a'"
  shows "as_narrowed sc sc' k (read_computed sc a) (read_computed sc' a')"
proof -
  have "same_declared sc sc'" using assms by (simp add: as_narrowed_def narrows_to_def)
  then have "rs_declared sc = None \<longleftrightarrow> rs_declared sc' = None"
    by (cases "rs_declared sc"; cases "rs_declared sc'") (auto simp: same_declared_def)
  with assms show ?thesis by (simp add: read_computed_def as_narrowed_problem)
qed

interpretation narrowed: rule_walks w sc sc' "as_narrowed sc sc' k" for w sc sc' k
proof
  fix a a' n p lit name t c
  assume a: "as_narrowed sc sc' k a a'"
  show "as_narrowed sc sc' k (count_node n a) (count_node n a')" using a by (simp add: as_narrowed_def count_node_def)
  show "as_narrowed sc sc' k (charge n a) (charge n a')" using a by (simp add: as_narrowed_def charge_def)
  show "as_narrowed sc sc' k (note_problem p a) (note_problem p a')" using a by (rule as_narrowed_problem)
  show "as_narrowed sc sc' k (reads_whole a) (reads_whole a')" using a by (simp add: as_narrowed_def reads_whole_def)
  show "as_narrowed sc sc' k (add_pattern lit a) (add_pattern lit a')" using a by (simp add: as_narrowed_def add_pattern_def)
  show "as_narrowed sc sc' k (read_field w sc name t c a) (read_field w sc' name t c a')" using a by (rule as_narrowed_field)
  show "as_narrowed sc sc' k (read_property w sc name t a) (read_property w sc' name t a')" using a by (rule as_narrowed_property)
  show "as_narrowed sc sc' k (read_computed sc a) (read_computed sc' a')" using a by (rule as_narrowed_computed)
qed

text \<open>The analysis for one kind, from that for many.\<close>

lemma analyse_narrowed:
  assumes "narrows_to sc sc' k"
  shows "an_cost (analyse w e sc) = an_cost (analyse w e sc')"
    and "an_patterns (analyse w e sc) = an_patterns (analyse w e sc')"
    and "an_problems (analyse w e sc) = [] \<Longrightarrow> an_problems (analyse w e sc') = [] \<longleftrightarrow> k \<in> set (an_kinds (analyse w e sc))"
    and "an_problems (analyse w e sc) = [] \<Longrightarrow> k \<in> set (an_kinds (analyse w e sc)) \<Longrightarrow> an_refs (analyse w e sc') = an_refs (analyse w e sc)"
proof -
  have fresh: "as_narrowed sc sc' k (fresh_analysis sc) (fresh_analysis sc')"
    using assms by (simp add: as_narrowed_def fresh_analysis_def narrows_to_def)
  have walked: "as_narrowed sc sc' k (fst (visit w sc [] 0 1 False e (fresh_analysis sc))) (fst (visit w sc' [] 0 1 False e (fresh_analysis sc')))"
    using narrowed.walk [OF fresh] by blast
  let ?a = "fst (visit w sc [] 0 1 False e (fresh_analysis sc))" and ?a' = "fst (visit w sc' [] 0 1 False e (fresh_analysis sc'))"
  show "an_cost (analyse w e sc) = an_cost (analyse w e sc')" "an_patterns (analyse w e sc) = an_patterns (analyse w e sc')"
    using walked by (simp_all add: as_narrowed_def analyse_def close_analysis_def Let_def)
  assume p: "an_problems (analyse w e sc) = []"
  then have a: "analyse w e sc = ?a" "an_problems ?a = []" "\<not> AST_NODE_LIMIT < an_nodes ?a"
    by (auto simp: analyse_def close_analysis_def Let_def split: if_splits)
  moreover have "analyse w e sc' = ?a'"
    using walked a(3) by (simp add: as_narrowed_def analyse_def close_analysis_def Let_def)
  ultimately show "an_problems (analyse w e sc') = [] \<longleftrightarrow> k \<in> set (an_kinds (analyse w e sc))"
    and "k \<in> set (an_kinds (analyse w e sc)) \<Longrightarrow> an_refs (analyse w e sc') = an_refs (analyse w e sc)"
    using walked by (simp_all add: as_narrowed_def split: if_splits)
qed

section \<open>What an analysis reads\<close>

definition reads_within :: "rule_scope \<Rightarrow> analysis \<Rightarrow> bool" where
  "reads_within sc a \<longleftrightarrow>
     set (an_kinds a) \<subseteq> set (rs_kinds sc) \<and> (\<not> rs_implicit sc \<longrightarrow> an_kinds a = rs_kinds sc)
     \<and> (\<forall>f \<in> set (rf_fields (an_refs a)). \<forall>k \<in> set (an_kinds a). has_view_field k f)
     \<and> (\<forall>ds. rs_declared sc = Some ds \<longrightarrow>
          set (rf_props (an_refs a)) \<subseteq> fst ` set ds \<and> set (rf_presence (an_refs a)) \<subseteq> fst ` set ds)"

lemma set_add_new [simp]: "set (add_new x xs) = insert x (set xs)"
  by (auto simp: add_new_def)

lemma reads_within_problem: "reads_within sc a \<Longrightarrow> reads_within sc (note_problem p a)"
  by (simp add: reads_within_def)

lemma reads_within_keep:
  assumes "reads_within sc a" "\<forall>k \<in> set (an_kinds a). has_view_field k name"
  shows "reads_within sc (keep_field name t c a)"
  using assms by (simp add: reads_within_def)

lemma reads_within_field:
  assumes "reads_within sc a"
  shows "reads_within sc (read_field w sc name t c a)"
proof (cases "name = ''from'' \<or> name = ''to''")
  case True
  with assms show ?thesis by (simp add: read_field_def reads_within_problem)
next
  case False
  let ?l = "filter (\<lambda>k. \<not> has_view_field k name) (rs_kinds sc)"
  let ?a = "if rs_implicit sc \<and> length ?l < length (rs_kinds sc)
    then a\<lparr>an_kinds := filter (\<lambda>k. k \<notin> set ?l) (an_kinds a)\<rparr> else a"
  have kept: "reads_within sc ?a" using assms by (auto simp: reads_within_def)
  show ?thesis
  proof (cases "\<not> (rs_implicit sc \<and> length ?l < length (rs_kinds sc)) \<and> ?l \<noteq> []")
    case True
    then have "read_field w sc name t c a = note_problem (P_not_a_field (we_quote w name) ?l) a"
      using False by (simp only: read_field_def Let_def if_False if_True simp_thms)
    then show ?thesis using reads_within_problem [OF assms] by simp
  next
    case ok: False
    then have eq: "read_field w sc name t c a = keep_field name t c ?a"
      using False by (simp only: read_field_def Let_def if_False simp_thms)
    have "\<forall>k \<in> set (an_kinds ?a). has_view_field k name"
    proof (cases "rs_implicit sc \<and> length ?l < length (rs_kinds sc)")
      case True
      then show ?thesis using assms by (auto simp: reads_within_def)
    next
      case no: False
      then have "?l = []" using ok by blast
      then show ?thesis using assms no by (auto simp: reads_within_def filter_empty_conv)
    qed
    then show ?thesis unfolding eq by (rule reads_within_keep [OF kept])
  qed
qed

lemma reads_within_property:
  assumes "reads_within sc a"
  shows "reads_within sc (read_property w sc name t a)"
proof (cases "case rs_declared sc of Some ds \<Rightarrow> name \<notin> fst ` set ds | None \<Rightarrow> False")
  case True
  then show ?thesis using assms by (simp add: read_property_def reads_within_problem)
next
  case False
  then have "\<forall>ds. rs_declared sc = Some ds \<longrightarrow> name \<in> fst ` set ds" by auto
  with False assms show ?thesis by (simp add: read_property_def reads_within_def)
qed

interpretation within: rule_walks w sc sc "\<lambda>a a'. a = a' \<and> reads_within sc a" for w sc
proof
  fix a a' n p lit name t c
  assume "a = a' \<and> reads_within sc a"
  then have e: "a' = a" and a: "reads_within sc a" by auto
  show "count_node n a = count_node n a' \<and> reads_within sc (count_node n a)" unfolding e using a by (simp add: reads_within_def count_node_def)
  show "charge n a = charge n a' \<and> reads_within sc (charge n a)" unfolding e using a by (simp add: reads_within_def charge_def)
  show "note_problem p a = note_problem p a' \<and> reads_within sc (note_problem p a)" unfolding e using a by (simp add: reads_within_problem)
  show "reads_whole a = reads_whole a' \<and> reads_within sc (reads_whole a)" unfolding e using a by (simp add: reads_within_def reads_whole_def)
  show "add_pattern lit a = add_pattern lit a' \<and> reads_within sc (add_pattern lit a)"
    unfolding e using a by (simp add: reads_within_def add_pattern_def)
  show "read_field w sc name t c a = read_field w sc name t c a' \<and> reads_within sc (read_field w sc name t c a)"
    unfolding e using a by (simp add: reads_within_field)
  show "read_property w sc name t a = read_property w sc name t a' \<and> reads_within sc (read_property w sc name t a)"
    unfolding e using a by (simp add: reads_within_property)
  show "read_computed sc a = read_computed sc a' \<and> reads_within sc (read_computed sc a)"
    unfolding e using a by (simp add: read_computed_def reads_within_problem)
qed

lemma analyse_within: "reads_within sc (analyse w e sc)"
proof -
  have "reads_within sc (fresh_analysis sc)" by (simp add: reads_within_def fresh_analysis_def no_refs_def)
  then have "reads_within sc (fst (visit w sc [] 0 1 False e (fresh_analysis sc)))" using within.walk by blast
  then show ?thesis by (auto simp: analyse_def close_analysis_def Let_def reads_within_problem)
qed

lemma analyse_kinds:
  assumes "an_problems (analyse w e sc) = []"
  shows "an_kinds (analyse w e sc) \<noteq> []" "set (an_kinds (analyse w e sc)) \<subseteq> set (rs_kinds sc)"
    and "\<not> rs_implicit sc \<Longrightarrow> an_kinds (analyse w e sc) = rs_kinds sc"
  using assms analyse_within [of sc w e]
  by (auto simp: analyse_def close_analysis_def Let_def reads_within_def split: if_splits)

section \<open>What a rule mentions\<close>

text \<open>
  Apart from the walk: the parts of an expression, and the property of the record a part names, with
  whether it asks for its presence only.  An index is a call without a
  target.
\<close>

definition indexes_self :: "string \<Rightarrow> expr list \<Rightarrow> bool" where
  "indexes_self fn args \<longleftrightarrow> fn = ''_[_]'' \<and> length args = 2 \<and> string_const (arg_at args 1) \<noteq> None
     \<and> (is_self_properties (arg_at args 0) \<or> is_self (arg_at args 0))"

fun parts :: "expr \<Rightarrow> expr list" where
  "parts (Select op name t) = Select op name t # parts op"
| "parts (Call fn target args) =
     Call fn target args # (if indexes_self fn args then [] else parts target) @ concat (map parts args)"
| "parts (List_expr es) = List_expr es # concat (map parts es)"
| "parts (Struct_expr es) = Struct_expr es # concat (map (\<lambda>(key, val). parts key @ parts val) es)"
| "parts (Comprehension r i v v2 acc c s e) =
     Comprehension r i v v2 acc c s e # parts r @ parts i @ parts c @ parts s @ parts e"
| "parts e = [e]"

fun mentions :: "expr \<Rightarrow> (string \<times> bool) option" where
  "mentions (Select op name t) = (if is_self_properties op then Some (name, t) else None)"
| "mentions (Call fn target args) =
     (if fn = ''_[_]'' \<and> length args = 2 \<and> is_self_properties (arg_at args 0)
      then map_option (\<lambda>key. (key, False)) (string_const (arg_at args 1)) else None)"
| "mentions _ = None"

definition noted_in :: "string \<times> bool \<Rightarrow> analysis \<Rightarrow> bool" where
  "noted_in m a \<longleftrightarrow> fst m \<in> set (if snd m then rf_presence (an_refs a) else rf_props (an_refs a))"

definition grown :: "analysis \<Rightarrow> analysis \<Rightarrow> bool" where
  "grown a0 a \<longleftrightarrow> (an_problems a0 \<noteq> [] \<longrightarrow> an_problems a \<noteq> []) \<and> (\<forall>m. noted_in m a0 \<longrightarrow> noted_in m a)"

lemma grown_refl [simp]: "grown a a" and grown_trans: "grown a b \<Longrightarrow> grown b c \<Longrightarrow> grown a c"
  by (auto simp: grown_def)

lemma grown_marks:
  "grown a (note_problem p a)" "grown a (count_node n a)" "grown a (charge n a)" "grown a (reads_whole a)"
  "grown a (add_pattern lit a)" "grown a (keep_field name t c a)" "grown a (keep_property name t a)" "grown a (a\<lparr>an_kinds := ks\<rparr>)"
  by (auto simp: grown_def noted_in_def count_node_def charge_def reads_whole_def add_pattern_def)

lemma grown_reads:
  "grown a (read_field w sc name t c a)" "grown a (read_property w sc name t a)" "grown a (read_computed sc a)"
proof -
  show "grown a (read_field w sc name t c a)"
    unfolding read_field_def Let_def
    by (auto simp: grown_marks simp del: keep_simps intro: grown_trans [OF grown_marks(8) grown_marks(6)])
  show "grown a (read_property w sc name t a)" unfolding read_property_def by (simp add: grown_marks)
  show "grown a (read_computed sc a)" by (simp add: read_computed_def grown_marks)
qed

interpretation growing: rule_walks w sc sc "\<lambda>a a'. a = a' \<and> grown a0 a" for w sc a0
  by standard (metis grown_trans grown_marks grown_reads)+

lemma grown_walks:
  "grown a (fst (visit w sc b d n c e a))"
  "grown a (fst (visit_all w sc b d n c es a))"
  "grown a (fst (visit_entries w sc b d n entries a))"
  "grown a (mark_call w sc fn target args a)"
  using growing.walk [where a = a and a' = a and ?a0.0 = a] growing.walk_every [where a = a and a' = a and ?a0.0 = a]
    growing.R_mark_call [where a = a and a' = a and ?a0.0 = a] by auto

text \<open>
  What a stretch of the walk passed is noted by the end of it, unless a problem is, and nothing else is;
  a quiet stretch notes nothing.
\<close>

definition quiet :: "analysis \<Rightarrow> analysis \<Rightarrow> bool" where
  "quiet a b \<longleftrightarrow> grown a b \<and> (\<forall>m. noted_in m b \<longrightarrow> noted_in m a)"

definition passes :: "expr list \<Rightarrow> analysis \<Rightarrow> analysis \<Rightarrow> bool" where
  "passes xs a a' \<longleftrightarrow> grown a a' \<and>
     (an_problems a' = [] \<longrightarrow> (\<forall>x \<in> set xs. \<forall>m. mentions x = Some m \<longrightarrow> noted_in m a')) \<and>
     (\<forall>m. noted_in m a' \<longrightarrow> noted_in m a \<or> (\<exists>x \<in> set xs. mentions x = Some m))"

lemma quiet_trans: "quiet a b \<Longrightarrow> quiet b c \<Longrightarrow> quiet a c"
  unfolding quiet_def using grown_trans by blast

lemma quiet_marks:
  "quiet a a" "quiet a (note_problem p a)" "quiet a (count_node n a)" "quiet a (reads_whole a)" "quiet a (add_pattern lit a)"
  "quiet a (keep_field name t c a)" "quiet a (a\<lparr>an_kinds := ks\<rparr>)" "quiet a (read_computed sc a)"
  using grown_marks
  by (auto simp: quiet_def noted_in_def count_node_def reads_whole_def add_pattern_def read_computed_def)

lemma quiet_field: "quiet a (read_field w sc name t c a)"
  unfolding read_field_def Let_def
  by (auto simp: quiet_marks simp del: keep_simps intro: quiet_trans [OF quiet_marks(7) quiet_marks(6)])

lemma quiet_call: "quiet a (mark_call w sc fn target args a)"
proof -
  have 1: "quiet a (if P then read_computed sc a else a)" for P by (simp add: quiet_marks)
  have 2: "quiet a (if P then note_problem p (if Q then read_computed sc a else a) else (if Q then read_computed sc a else a))" for P Q p
    using 1 [of Q] quiet_trans [OF 1 [of Q] quiet_marks(2)] by simp
  show ?thesis
  proof (cases "fn = ''matches''")
    case True
    then show ?thesis unfolding mark_call_def Let_def
      by (cases "string_const (if target \<noteq> Absent then arg_at args 0 else arg_at args 1)")
         (simp_all only: option.case if_True refl quiet_trans [OF 2 quiet_marks(2)] quiet_trans [OF 2 quiet_marks(5)])
  next
    case False
    then show ?thesis unfolding mark_call_def Let_def by (simp only: if_False 2)
  qed
qed

lemma passes_then:
  assumes "passes xs a b" "passes ys b c"
  shows "passes (xs @ ys) a c"
proof -
  have "an_problems b = []" if "an_problems c = []" using assms(2) that by (auto simp: passes_def grown_def)
  moreover have "noted_in m c" if "noted_in m b" for m using assms(2) that unfolding passes_def grown_def by blast
  ultimately show ?thesis using assms grown_trans unfolding passes_def set_append by blast
qed

lemma passes_none: "\<forall>x \<in> set xs. mentions x = None \<Longrightarrow> quiet a b \<Longrightarrow> passes xs a b"
  by (auto simp: passes_def quiet_def)

lemma passes_charge: "passes xs a (charge n b) \<longleftrightarrow> passes xs a b"
  by (simp add: passes_def grown_def noted_in_def charge_def)

lemma passes_property:
  assumes "mentions x = Some (name, t)"
  shows "passes [x] a (read_property w sc name t (count_node n a))"
proof -
  have "grown a (read_property w sc name t (count_node n a))" using grown_trans grown_marks(2) grown_reads(2) by blast
  with assms show ?thesis
    by (auto simp: passes_def read_property_def noted_in_def count_node_def split: if_splits)
qed

lemma passes_all:
  assumes "\<And>e b d n c a. e \<in> set es \<Longrightarrow> passes (parts e) a (fst (visit w sc b d n c e a))"
  shows "passes (concat (map parts es)) a (fst (visit_all w sc b d n c es a))"
  using assms
proof (induction es arbitrary: c a)
  case Nil
  then show ?case by (simp add: passes_none quiet_marks)
next
  case (Cons e es)
  have rest: "passes (parts e) a (fst (visit w sc b d n c e a))" if "e \<in> set es" for e b d n c a
    by (rule Cons.prems) (simp add: that)
  have "passes (parts e) a (fst (visit w sc b d n c e a))" by (rule Cons.prems) simp
  from passes_then [OF this Cons.IH [OF rest, where c = False]] show ?case by (simp add: case_prod_beta)
qed

lemma passes_entries:
  assumes "\<And>x e b d n c a. x \<in> set es \<Longrightarrow> e \<in> {fst x, snd x} \<Longrightarrow> passes (parts e) a (fst (visit w sc b d n c e a))"
  shows "passes (concat (map (\<lambda>(key, val). parts key @ parts val) es)) a (fst (visit_entries w sc b d n es a))"
  using assms
proof (induction es arbitrary: a)
  case Nil
  then show ?case by (simp add: passes_none quiet_marks)
next
  case (Cons x es)
  obtain key val where x: "x = (key, val)" by fastforce
  have rest: "passes (parts e) a (fst (visit w sc b d n c e a))" if "x \<in> set es" "e \<in> {fst x, snd x}" for x e b d n c a
    by (rule Cons.prems [OF _ that(2)]) (simp add: that(1))
  have kv: "passes (parts key) a (fst (visit w sc b d n False key a))" "passes (parts val) a (fst (visit w sc b d n False val a))" for a
    by (rule Cons.prems [of x], simp_all add: x)+
  from passes_then [OF passes_then [OF kv(1) kv(2)] Cons.IH [OF rest]] x
  show ?case by (simp add: case_prod_beta)
qed

lemma passes_walk: "passes (parts e) a (fst (visit w sc b d n c e a))"
proof (induction e arbitrary: b d n c a)
  case (Select op name t)
  show ?case
  proof (cases "is_self op")
    case True
    then have "parts op = [op]" "mentions op = None" "\<not> is_self_properties op" by (auto simp: is_self_def is_self_properties_def)
    then have "passes [Select op name t, op] a (read_field w sc name t c (count_node n a))"
      using quiet_trans [OF quiet_marks(3) quiet_field] by (simp add: passes_none)
    moreover have "passes [] (read_field w sc name t c (count_node n a)) (fst (visit w sc b d n True op (read_field w sc name t c (count_node n a))))"
      using True by (auto simp: is_self_def Let_def intro!: passes_none quiet_trans [OF quiet_marks(3)] quiet_marks)
    ultimately show ?thesis using passes_then \<open>parts op = [op]\<close> True by (fastforce simp: Let_def)
  next
    case False
    show ?thesis
    proof (cases "is_self_properties op")
      case True
      then have "mentions (Select op name t) = Some (name, t)" by simp
      from passes_then [OF passes_property [OF this] Select.IH [of _ b d n True]] True False
      show ?thesis by (simp add: Let_def)
    next
      case no: False
      then have "passes [Select op name t] a (count_node n a)" by (simp add: passes_none quiet_marks)
      from passes_then [OF this Select.IH [of _ b d n False]] no False show ?thesis by (simp add: Let_def)
    qed
  qed
next
  case (Call fn target args)
  have args: "passes (concat (map parts args)) a (fst (visit_all w sc b d n c args a))" for c a
    by (rule passes_all [OF Call.IH(2)])
  let ?p = "fn = ''_[_]'' \<and> length args = 2 \<and> is_self_properties (arg_at args 0) \<and> string_const (arg_at args 1) \<noteq> None"
  let ?f = "fn = ''_[_]'' \<and> length args = 2 \<and> is_self (arg_at args 0) \<and> string_const (arg_at args 1) \<noteq> None"
  consider (named) ?p | (fieldname) "\<not> ?p" ?f | (other) "\<not> ?p" "\<not> ?f" by blast
  then show ?case
  proof cases
    case named
    then have "mentions (Call fn target args) = Some (the (string_const (arg_at args 1)), False)" by auto
    from passes_then [OF passes_property [OF this] args [of _ True]]
    moreover have "indexes_self fn args" using named by (simp add: indexes_self_def)
    ultimately show ?thesis
      by (simp only: visit.simps Let_def if_P [OF named] fst_conv parts.simps if_True append.simps)
  next
    case fieldname
    then have "mentions (Call fn target args) = None" by (auto simp: is_self_def is_self_properties_def)
    moreover have "quiet a (read_field w sc (the (string_const (arg_at args 1))) False False (count_node n a))"
      by (rule quiet_trans [OF quiet_marks(3) quiet_field])
    ultimately have "passes [Call fn target args] a (read_field w sc (the (string_const (arg_at args 1))) False False (count_node n a))"
      by (simp add: passes_none)
    from passes_then [OF this args [of _ True]]
    moreover have "indexes_self fn args" using fieldname(2) by (simp add: indexes_self_def)
    ultimately show ?thesis
      by (simp only: visit.simps Let_def if_not_P [OF fieldname(1)] if_P [OF fieldname(2)] fst_conv parts.simps if_True append.simps)
  next
    case other
    have none: "mentions (Call fn target args) = None" using other(1) by (cases "string_const (arg_at args 1)") auto
    moreover have "quiet a (mark_call w sc fn target args (count_node n a))" by (rule quiet_trans [OF quiet_marks(3) quiet_call])
    ultimately have head: "passes [Call fn target args] a (mark_call w sc fn target args (count_node n a))" by (simp add: passes_none)
    let ?b = "mark_call w sc fn target args (count_node n a)"
    have "passes (if indexes_self fn args then [] else parts target) ?b (fst (visit w sc b d n False target ?b))"
      using Call.IH(1) other by (auto simp: indexes_self_def)
    from passes_then [OF head passes_then [OF this args [of _ False]]]
    show ?thesis
      by (simp only: visit.simps Let_def if_not_P [OF other(1)] if_not_P [OF other(2)] case_prod_beta fst_conv passes_charge) simp
  qed
next
  case (List_expr es)
  have "passes [List_expr es] a (count_node n a)" by (simp add: passes_none quiet_marks)
  from passes_then [OF this passes_all [OF List_expr.IH, of es]] show ?case by (simp add: case_prod_beta)
next
  case (Struct_expr es)
  have IH: "passes (parts e) a (fst (visit w sc b d n c e a))" if "x \<in> set es" "e \<in> {fst x, snd x}" for x e b d n c a
    using Struct_expr.IH(1) [of x "fst x" a b d n c] Struct_expr.IH(2) [of x "snd x" a b d n c] that
    by (cases x) (auto simp: fsts.simps snds.simps)
  have "passes [Struct_expr es] a (count_node n a)" by (simp add: passes_none quiet_marks)
  from passes_then [OF this passes_entries [OF IH]] show ?case by simp
next
  case (Comprehension r i v v2 acc cond s e)
  let ?a = "if 0 < d then note_problem P_nested_loop (count_node n a) else count_node n a"
  have "quiet a ?a" using quiet_trans [OF quiet_marks(3) quiet_marks(2)] quiet_marks(3) by simp
  then have head: "passes [Comprehension r i v v2 acc cond s e] a ?a" by (simp add: passes_none)
  note walked = passes_then [OF head passes_then [OF Comprehension.IH(1) passes_then [OF Comprehension.IH(2)
      passes_then [OF Comprehension.IH(3) passes_then [OF Comprehension.IH(4) Comprehension.IH(5)]]]]]
  show ?case
    by (simp only: visit.simps Let_def case_prod_beta fst_conv parts.simps)
       (use walked in \<open>simp only: append.simps append_assoc\<close>)
qed (auto simp only: parts.simps list.set mentions.simps visit.simps Let_def fst_conv if_distrib [of fst]
    intro!: passes_none quiet_marks intro: quiet_trans [OF quiet_marks(3)] split: if_split)

text \<open>So an analysis without a problem has the properties the rule names, and no others.\<close>

definition names_property :: "expr \<Rightarrow> string \<Rightarrow> bool" where
  "names_property e p \<longleftrightarrow> Some (p, False) \<in> mentions ` set (parts e)"

lemma analyse_props:
  assumes "an_problems (analyse w e sc) = []"
  shows "p \<in> set (rf_props (an_refs (analyse w e sc))) \<longleftrightarrow> names_property e p"
proof -
  let ?a = "fst (visit w sc [] 0 1 False e (fresh_analysis sc))"
  have a: "an_problems ?a = []" "analyse w e sc = ?a"
    using assms(1) by (auto simp: analyse_def close_analysis_def Let_def split: if_splits)
  have "passes (parts e) (fresh_analysis sc) ?a" by (rule passes_walk)
  with a(1) have "noted_in (p, False) ?a \<longleftrightarrow> noted_in (p, False) (fresh_analysis sc) \<or> (\<exists>x \<in> set (parts e). mentions x = Some (p, False))"
    unfolding passes_def grown_def by blast
  moreover have "noted_in (p, False) x \<longleftrightarrow> p \<in> set (rf_props (an_refs x))" for x by (simp add: noted_in_def)
  moreover have "rf_props (an_refs (fresh_analysis sc)) = []" by (simp add: fresh_analysis_def no_refs_def)
  moreover have "names_property e p \<longleftrightarrow> (\<exists>x \<in> set (parts e). mentions x = Some (p, False))"
    by (force simp: names_property_def)
  ultimately show ?thesis unfolding a(2) by simp
qed

end
