(* ===== verification/Rule_Admission.thy ===== *)
theory Rule_Admission
  imports Rule_Analysis
begin

text \<open>
  What a schema rule has to pass to be saved, how a stored one is compiled, and which stored ones are dead
  (the rest of \<open>schema/src/rules.ts\<close>, and \<open>invalidRulesOf\<close> of \<open>spaces/schema-rules.ts\<close>).  The engine is a
  parameter: its parser, the functions it has, its test of a pattern and the planner of an expression.
  The caches of verdicts and programs, whose keys hold all that the answer depends on, are left out.
\<close>

section \<open>The engine\<close>

text \<open>What running a planned expression gives: a CEL error with its message, or a value of a kind.\<close>

datatype cel_out = Cel_failed string | Cel_bool bool | Cel_string | Cel_number | Cel_null | Cel_list | Cel_other

record cel_engine =
  ce_available :: bool
  ce_self_test :: bool
  ce_parse :: "string \<Rightarrow> string + expr"
  ce_walk :: walk_env
  ce_matches_error :: "string \<Rightarrow> string option"
  ce_plan :: "expr \<Rightarrow> (string \<times> json) list \<Rightarrow> cel_out"

text \<open>\<open>ruleEngineAvailable\<close>: the module loaded, and its self-test at boot did not fail.\<close>

definition rule_engine_available :: "cel_engine \<Rightarrow> bool" where
  "rule_engine_available E \<longleftrightarrow> ce_available E \<and> ce_self_test E"

abbreviation quote_of :: "cel_engine \<Rightarrow> string \<Rightarrow> string" where
  "quote_of E \<equiv> we_quote (ce_walk E)"

text \<open>\<open>/text/i.test(message)\<close> for a text of small letters and spaces.\<close>

definition lower :: "char \<Rightarrow> char" where
  "lower c = (if 65 \<le> (of_char c :: nat) \<and> (of_char c :: nat) \<le> 90 then char_of ((of_char c :: nat) + 32) else c)"

definition says :: "string \<Rightarrow> string \<Rightarrow> bool" where
  "says message text = list_ex (\<lambda>i. take (length text) (drop i (map lower message)) = text) [0..<Suc (length message)]"

definition parsed :: "cel_engine \<Rightarrow> string \<Rightarrow> problem + expr" where
  "parsed E text =
     (if \<not> ce_available E then Inl P_engine_missing
      else case ce_parse E text of Inr e \<Rightarrow> Inr e | Inl why \<Rightarrow> Inl (P_does_not_parse (quote_of E why)))"

definition pattern_problem :: "cel_engine \<Rightarrow> string \<Rightarrow> problem option" where
  "pattern_problem E pattern =
     (if \<not> ce_available E then Some P_engine_missing
      else map_option (\<lambda>why. P_bad_pattern (quote_of E why)) (ce_matches_error E pattern))"

section \<open>Trying a rule on sample records\<close>

text \<open>An ordinary and a boundary value of a property.\<close>

definition samples :: "property_schema option \<Rightarrow> json \<times> json" where
  "samples ps =
     (case Option.bind ps ps_enum of
        Some (x # xs) \<Rightarrow> (x, List.last (x # xs))
      | _ \<Rightarrow>
        (case Option.bind ps ps_type of
           Some T_number \<Rightarrow> (JNum 1, JNum 0)
         | Some T_boolean \<Rightarrow> (JBool True, JBool False)
         | Some T_date \<Rightarrow> (JStr ''2026-01-01'', JStr ''1970-01-01'')
         | _ \<Rightarrow> (JStr ''x'', JStr [])))"

datatype sample_says = All_present | None_present | All_boundary | Alone_absent string | Alone_present string

record sample_input =
  si_present :: "string list"
  si_boundary :: bool
  si_says :: sample_says

definition sample_inputs :: "string list \<Rightarrow> sample_input list" where
  "sample_inputs paths =
     [\<lparr>si_present = paths, si_boundary = False, si_says = All_present\<rparr>,
      \<lparr>si_present = [], si_boundary = False, si_says = None_present\<rparr>,
      \<lparr>si_present = paths, si_boundary = True, si_says = All_boundary\<rparr>] @
     concat (map (\<lambda>p.
       [\<lparr>si_present = filter (\<lambda>q. q \<noteq> p) paths, si_boundary = False, si_says = Alone_absent p\<rparr>,
        \<lparr>si_present = [p], si_boundary = False, si_says = Alone_present p\<rparr>]) paths)"

definition sample_value :: "rule_scope \<Rightarrow> bool \<Rightarrow> string \<Rightarrow> json" where
  "sample_value sc boundary p =
     (let s = samples (Option.bind (rs_declared sc) (\<lambda>ds. map_of ds p)) in if boundary then snd s else fst s)"

definition sample_self :: "rule_scope \<Rightarrow> kind \<Rightarrow> sample_input \<Rightarrow> (string \<times> json) list" where
  "sample_self sc k i =
     (if k = K_edge then [(''label'', JStr ''x'')] else [(''title'', JStr ''x''), (''type'', JStr ''x'')]) @
     [(''description'', JStr (if si_boundary i then [] else ''x'')),
      (''tags'', JArr (if si_boundary i then [] else [JStr ''x''])),
      (''properties'', JObj (map (\<lambda>p. (p, sample_value sc (si_boundary i) p)) (si_present i)))]"

definition describe_value :: "cel_out \<Rightarrow> string" where
  "describe_value out =
     (case out of Cel_string \<Rightarrow> ''a string'' | Cel_number \<Rightarrow> ''a number'' | Cel_null \<Rightarrow> ''null''
        | Cel_list \<Rightarrow> ''a list'' | _ \<Rightarrow> ''a value that is not true or false'')"

definition sample_problem :: "cel_out \<Rightarrow> problem option" where
  "sample_problem out =
     (case out of
        Cel_failed message \<Rightarrow>
          if says message ''unbound function'' then Some P_unbound_function
          else if says message ''error parsing regexp'' then Some P_bad_regexp else None
      | Cel_bool _ \<Rightarrow> None
      | _ \<Rightarrow> Some (P_not_boolean (describe_value out)))"

definition bool_problem :: "cel_engine \<Rightarrow> expr \<Rightarrow> analysis \<Rightarrow> rule_scope \<Rightarrow> problem option" where
  "bool_problem E e a sc =
     (if \<not> ce_available E then Some P_engine_missing
      else let paths = foldl (\<lambda>xs x. add_new x xs) [] (rf_props (an_refs a) @ rf_presence (an_refs a))
           in first_some (\<lambda>k.
                first_some (\<lambda>i.
                    if list_ex (\<lambda>p. p \<notin> set (si_present i)) (rf_props (an_refs a)) then None
                    else sample_problem (ce_plan E e (sample_self sc k i)))
                  (sample_inputs paths)) (an_kinds a))"

section \<open>The verdict on a rule\<close>

record verdict =
  ve_problems :: "problem list"
  ve_cost :: nat

definition judge :: "cel_engine \<Rightarrow> string \<Rightarrow> rule_scope \<Rightarrow> verdict" where
  "judge E text sc =
     (case parsed E text of
        Inl p \<Rightarrow> \<lparr>ve_problems = [p], ve_cost = 0\<rparr>
      | Inr e \<Rightarrow>
          let a = analyse (ce_walk E) e sc;
              ps = foldl (\<lambda>ps pattern. case pattern_problem E pattern of None \<Rightarrow> ps | Some why \<Rightarrow> add_new why ps)
                     (an_problems a) (an_patterns a)
          in \<lparr>ve_problems = (if ps = [] then (case bool_problem E e a sc of None \<Rightarrow> [] | Some why \<Rightarrow> [why]) else ps),
              ve_cost = an_cost a\<rparr>)"

section \<open>The doors that save rules\<close>

datatype rule_issue =
    Rule_issue string problem
  | Type_over_budget kind
  | Space_over_budget kind
  | Too_many_apply kind string nat nat
  | Record_over_budget kind string

definition names_kinds :: "stored_rule \<Rightarrow> bool" where
  "names_kinds r \<longleftrightarrow> (case ru_kinds r of None \<Rightarrow> False | Some ks \<Rightarrow> ks \<noteq> [])"

definition space_scope :: "stored_rule \<Rightarrow> rule_scope" where
  "space_scope r = \<lparr>rs_level = Space_level, rs_kinds = space_rule_kinds r, rs_implicit = (\<not> names_kinds r), rs_declared = None\<rparr>"

definition declared_of :: "type_schema \<Rightarrow> (string \<times> property_schema) list" where
  "declared_of schema = (case ts_propertySchemas schema of None \<Rightarrow> [] | Some ps \<Rightarrow> ps)"

definition rules_in :: "(string \<times> stored_rule) list option \<Rightarrow> (string \<times> stored_rule) list" where
  "rules_in rs = (case rs of None \<Rightarrow> [] | Some m \<Rightarrow> m)"

definition type_scope :: "kind \<Rightarrow> type_schema \<Rightarrow> rule_scope" where
  "type_scope k schema = \<lparr>rs_level = Type_level, rs_kinds = [k], rs_implicit = False, rs_declared = Some (declared_of schema)\<rparr>"

text \<open>\<open>reading\<close>: a stored schema is being read, which judges nothing.\<close>

definition type_rule_issues :: "cel_engine \<Rightarrow> bool \<Rightarrow> kind \<Rightarrow> type_schema \<Rightarrow> rule_issue list" where
  "type_rule_issues E reading k schema =
     (if reading \<or> ts_ref schema \<noteq> None then []
      else let vs = map (\<lambda>e. (fst e, judge E (ru_rule (snd e)) (type_scope k schema))) (rules_in (ts_rules schema))
           in concat (map (\<lambda>v. map (Rule_issue (fst v)) (ve_problems (snd v))) vs) @
              (if COST_BUDGET < sum_list (map (\<lambda>v. ve_cost (snd v)) vs) then [Type_over_budget k] else []))"

definition space_rule_issues :: "cel_engine \<Rightarrow> bool \<Rightarrow> (string \<times> stored_rule) list option \<Rightarrow> rule_issue list" where
  "space_rule_issues E reading rules =
     (if reading then []
      else concat (map (\<lambda>e. map (Rule_issue (fst e)) (ve_problems (judge E (ru_rule (snd e)) (space_scope (snd e))))) (rules_in rules)))"

definition MAX_APPLICABLE_RULES :: nat where "MAX_APPLICABLE_RULES = 50"

record changed_parts =
  ch_spaceRules :: bool
  ch_types :: "(kind \<times> string) list"

text \<open>What applies to one type, and to the records of one kind.\<close>

definition type_applicable ::
  "cel_engine \<Rightarrow> changed_parts option \<Rightarrow> kind \<Rightarrow> nat \<Rightarrow> nat \<Rightarrow> string \<times> type_schema \<Rightarrow> rule_issue list" where
  "type_applicable E only k n_applying space_cost t =
     (let own = rules_in (ts_rules (snd t))
      in if ts_ref (snd t) \<noteq> None then []
         else if (case only of None \<Rightarrow> False | Some ch \<Rightarrow> \<not> ch_spaceRules ch \<and> (k, fst t) \<notin> set (ch_types ch)) then []
         else if n_applying = 0 then []
         else if MAX_APPLICABLE_RULES < length own + n_applying
         then [Too_many_apply k (quote_of E (fst t)) (length own) n_applying]
         else let vs = map (\<lambda>e. judge E (ru_rule (snd e)) (type_scope k (snd t))) own
              in if list_ex (\<lambda>v. ve_problems v \<noteq> []) vs then []
                 else if COST_BUDGET < space_cost + sum_list (map ve_cost vs) then [Record_over_budget k (quote_of E (fst t))] else [])"

definition kind_applicable :: "cel_engine \<Rightarrow> changed_parts option \<Rightarrow> space_meta \<Rightarrow> kind \<Rightarrow> rule_issue list" where
  "kind_applicable E only meta k =
     (let applying = filter (\<lambda>e. k \<in> set (space_rule_kinds (snd e))) (rules_in (sm_rules meta));
          vs = map (\<lambda>e. judge E (ru_rule (snd e)) (space_scope (snd e))) applying;
          space_cost = sum_list (map ve_cost vs);
          types = (case schemas_of (Some meta) k of None \<Rightarrow> [] | Some ts \<Rightarrow> ts)
      in if list_ex (\<lambda>v. ve_problems v \<noteq> []) vs then []
         else (if applying \<noteq> [] \<and> (case only of None \<Rightarrow> True | Some ch \<Rightarrow> ch_spaceRules ch) \<and> COST_BUDGET < space_cost
               then [Space_over_budget k] else [])
              @ concat (map (type_applicable E only k (length applying) space_cost) types))"

definition applicable_rule_issues :: "cel_engine \<Rightarrow> bool \<Rightarrow> changed_parts option \<Rightarrow> space_meta \<Rightarrow> rule_issue list" where
  "applicable_rule_issues E reading only meta =
     (if reading then [] else concat (map (kind_applicable E only meta) KNOWLEDGE_TYPES))"

section \<open>A stored rule compiled\<close>

definition empty_property :: property_schema where
  "empty_property = \<lparr>ps_type = None, ps_enum = None, ps_minimum = None, ps_maximum = None, ps_pattern = None,
     ps_required = False, ps_default = Undef\<rparr>"

definition compile_scope :: "kind \<Rightarrow> rule_level \<Rightarrow> string list option \<Rightarrow> rule_scope" where
  "compile_scope k level declared =
     \<lparr>rs_level = level, rs_kinds = [k], rs_implicit = False, rs_declared = map_option (map (\<lambda>p. (p, empty_property))) declared\<rparr>"

text \<open>What \<open>evaluateRules\<close> makes of what a program answers.\<close>

definition answer_of :: "cel_out \<Rightarrow> rule_answer" where
  "answer_of out = (case out of Cel_failed message \<Rightarrow> Cel_error (says message ''overload'') | Cel_bool b \<Rightarrow> Answer b | _ \<Rightarrow> Not_boolean)"

definition compile_rule :: "cel_engine \<Rightarrow> kind \<Rightarrow> rule_level \<Rightarrow> string list option \<Rightarrow> string \<Rightarrow> compiled_rule option" where
  "compile_rule E k level declared text =
     (case parsed E text of
        Inl _ \<Rightarrow> None
      | Inr e \<Rightarrow>
          let a = analyse (ce_walk E) e (compile_scope k level declared)
          in if an_problems a \<noteq> [] \<or> list_ex (\<lambda>p. pattern_problem E p \<noteq> None) (an_patterns a) then None
             else Some \<lparr>cp_refs = an_refs a, cp_run = answer_of \<circ> ce_plan E e\<rparr>)"

text \<open>The checks of a record over this engine: a type rule comes with the keys its type declares.\<close>

definition checks_of :: "cel_engine \<Rightarrow> (string \<Rightarrow> string \<Rightarrow> bool option) \<Rightarrow> (string \<Rightarrow> string) \<Rightarrow> checks" where
  "checks_of E reg hash =
     \<lparr>ck_regexp = reg, ck_available = rule_engine_available E,
      ck_compile = (\<lambda>k declared. compile_rule E k (if declared = None then Space_level else Type_level) declared),
      ck_quote = quote_of E, ck_hash = hash\<rparr>"

section \<open>Dead rules\<close>

datatype dead_rule = Dead_type_rule kind string string | Dead_space_rule string

definition dead_of_type :: "cel_engine \<Rightarrow> kind \<Rightarrow> string \<times> type_schema \<Rightarrow> dead_rule list" where
  "dead_of_type E k t =
     map (\<lambda>e. Dead_type_rule k (fst t) (fst e))
       (filter (\<lambda>e. compile_rule E k Type_level (Some (map fst (declared_of (snd t)))) (ru_rule (snd e)) = None)
         (rules_in (ts_rules (snd t))))"

definition space_rule_dead :: "cel_engine \<Rightarrow> stored_rule \<Rightarrow> bool" where
  "space_rule_dead E r =
     (let runs = map (\<lambda>k. compile_rule E k Space_level None (ru_rule r) \<noteq> None) (space_rule_kinds r)
      in if names_kinds r then False \<in> set runs else True \<notin> set runs)"

definition invalid_rules_of :: "cel_engine \<Rightarrow> space_meta option \<Rightarrow> dead_rule list" where
  "invalid_rules_of E meta =
     (case meta of
        None \<Rightarrow> []
      | Some m \<Rightarrow>
          if \<not> rule_engine_available E then []
          else take 200
            (concat (map (\<lambda>k. concat (map (dead_of_type E k) (case schemas_of (Some m) k of None \<Rightarrow> [] | Some ts \<Rightarrow> ts))) KNOWLEDGE_TYPES)
             @ map (\<lambda>e. Dead_space_rule (fst e)) (filter (\<lambda>e. space_rule_dead E (snd e)) (rules_in (sm_rules m)))))"

section \<open>A rule that was admitted\<close>

lemma bad_patterns:
  "foldl (\<lambda>ps pattern. case pattern_problem E pattern of None \<Rightarrow> ps | Some why \<Rightarrow> add_new why ps) ps0 xs = []
   \<longleftrightarrow> ps0 = [] \<and> \<not> list_ex (\<lambda>p. pattern_problem E p \<noteq> None) xs"
proof (induction xs arbitrary: ps0)
  case (Cons x xs)
  have "add_new why ps0 \<noteq> []" for why :: problem by (auto simp: add_new_def)
  with Cons.IH show ?case by (cases "pattern_problem E x") simp_all
qed simp

lemma judge_clean:
  assumes "ve_problems (judge E text sc) = []"
  obtains e where "parsed E text = Inr e" "an_problems (analyse (ce_walk E) e sc) = []"
    "\<not> list_ex (\<lambda>p. pattern_problem E p \<noteq> None) (an_patterns (analyse (ce_walk E) e sc))"
proof (cases "parsed E text")
  case (Inl p)
  with assms show ?thesis by (simp add: judge_def)
next
  case (Inr e)
  from assms Inr have "foldl (\<lambda>ps pattern. case pattern_problem E pattern of None \<Rightarrow> ps | Some why \<Rightarrow> add_new why ps)
      (an_problems (analyse (ce_walk E) e sc)) (an_patterns (analyse (ce_walk E) e sc)) = []"
    by (auto simp: judge_def Let_def split: if_splits)
  with Inr that show ?thesis unfolding bad_patterns by blast
qed

text \<open>An admitted rule compiles for just the kinds the analysis left it, and reads there what it was judged to read.\<close>

lemma admitted_compiles:
  assumes "ve_problems (judge E text sc) = []" "narrows_to sc (compile_scope k level declared) k"
  obtains e where "parsed E text = Inr e"
    "compile_rule E k level declared text \<noteq> None \<longleftrightarrow> k \<in> set (an_kinds (analyse (ce_walk E) e sc))"
    "\<And>c. compile_rule E k level declared text = Some c \<Longrightarrow>
       cp_refs c = an_refs (analyse (ce_walk E) e sc) \<and> cp_run c = answer_of \<circ> ce_plan E e"
proof -
  from judge_clean [OF assms(1)] obtain e where e: "parsed E text = Inr e" "an_problems (analyse (ce_walk E) e sc) = []"
    "\<not> list_ex (\<lambda>p. pattern_problem E p \<noteq> None) (an_patterns (analyse (ce_walk E) e sc))" .
  note n = analyse_narrowed [OF assms(2), of "ce_walk E" e]
  have eq: "compile_rule E k level declared text =
      (if k \<in> set (an_kinds (analyse (ce_walk E) e sc))
       then Some \<lparr>cp_refs = an_refs (analyse (ce_walk E) e sc), cp_run = answer_of \<circ> ce_plan E e\<rparr> else None)"
    using e n(2,3,4) by (simp add: compile_rule_def Let_def)
  show thesis by (rule that [OF e(1)]) (auto simp: eq split: if_splits)
qed

lemma narrows_space: "k \<in> set (space_rule_kinds r) \<Longrightarrow> narrows_to (space_scope r) (compile_scope k Space_level None) k"
  by (simp add: narrows_to_def space_scope_def compile_scope_def same_declared_def)

lemma narrows_type: "narrows_to (type_scope k schema) (compile_scope k Type_level (Some (map fst (declared_of schema)))) k"
  by (auto simp: narrows_to_def type_scope_def compile_scope_def same_declared_def image_image)

lemma admitted_space_rule:
  assumes "ve_problems (judge E (ru_rule r) (space_scope r)) = []"
  shows "\<not> space_rule_dead E r"
proof -
  obtain e where e: "parsed E (ru_rule r) = Inr e" "an_problems (analyse (ce_walk E) e (space_scope r)) = []"
    using judge_clean [OF assms] by metis
  let ?g = "an_kinds (analyse (ce_walk E) e (space_scope r))"
  have live: "compile_rule E k Space_level None (ru_rule r) \<noteq> None \<longleftrightarrow> k \<in> set ?g" if "k \<in> set (space_rule_kinds r)" for k
    by (rule admitted_compiles [OF assms narrows_space [OF that]]) (use e(1) in auto)
  note g = analyse_kinds [OF e(2)]
  have "set ?g \<subseteq> set (space_rule_kinds r)" "?g \<noteq> []" "names_kinds r \<Longrightarrow> ?g = space_rule_kinds r"
    using g by (simp_all add: space_scope_def)
  moreover from this(2) obtain k where "k \<in> set ?g" using list.set_sel(1) by blast
  ultimately show ?thesis using live by (cases "names_kinds r") (auto simp: space_rule_dead_def)
qed

lemma rule_issues_judged:
  "type_rule_issues E False k schema = [] \<Longrightarrow> ts_ref schema = None \<Longrightarrow> e \<in> set (rules_in (ts_rules schema)) \<Longrightarrow>
     ve_problems (judge E (ru_rule (snd e)) (type_scope k schema)) = []"
  "space_rule_issues E False rules = [] \<Longrightarrow> e \<in> set (rules_in rules) \<Longrightarrow>
     ve_problems (judge E (ru_rule (snd e)) (space_scope (snd e))) = []"
  by (force simp: type_rule_issues_def Let_def) (auto simp: space_rule_issues_def)

text \<open>
  Property C17: a rule that is saved is never dead. When the doors that save a schema find no issue with the
  rules of its types and of its space, none of them is listed as a rule that no longer compiles. Each
  definition is judged as the doors judge it: a type the space defines by what it declares, and one it takes
  from the library by what the entry declares, whose own door judges it apart from any reference.
\<close>

theorem admitted_rules_live:
  assumes "\<And>k ts t. schemas_of (Some meta) k = Some ts \<Longrightarrow> t \<in> set ts \<Longrightarrow>
      type_rule_issues E False k ((snd t)\<lparr>ts_ref := None\<rparr>) = []"
    and "space_rule_issues E False (sm_rules meta) = []"
  shows "invalid_rules_of E (Some meta) = []"
proof -
  have "dead_of_type E k t = []" if s: "schemas_of (Some meta) k = Some ts" and t: "t \<in> set ts" for k ts t
  proof -
    have "compile_rule E k Type_level (Some (map fst (declared_of (snd t)))) (ru_rule (snd e)) \<noteq> None"
      if "e \<in> set (rules_in (ts_rules (snd t)))" for e
    proof -
      have same: "type_scope k ((snd t)\<lparr>ts_ref := None\<rparr>) = type_scope k (snd t)" by (simp add: type_scope_def declared_of_def)
      have j: "ve_problems (judge E (ru_rule (snd e)) (type_scope k (snd t))) = []"
        using rule_issues_judged(1) [OF assms(1) [OF s t], of e] that by (simp add: same)
      obtain x where x: "parsed E (ru_rule (snd e)) = Inr x" "an_problems (analyse (ce_walk E) x (type_scope k (snd t))) = []"
        using judge_clean [OF j] by metis
      have "an_kinds (analyse (ce_walk E) x (type_scope k (snd t))) = [k]"
        using analyse_kinds(3) [OF x(2)] by (simp add: type_scope_def)
      with x(1) show ?thesis by (rule_tac admitted_compiles [OF j narrows_type]) auto
    qed
    then show ?thesis by (auto simp: dead_of_type_def filter_empty_conv)
  qed
  moreover have "\<not> space_rule_dead E (snd e)" if "e \<in> set (rules_in (sm_rules meta))" for e
    using rule_issues_judged(2) [OF assms(2) that] by (rule admitted_space_rule)
  ultimately have "concat (map (\<lambda>k. concat (map (dead_of_type E k) (case schemas_of (Some meta) k of None \<Rightarrow> [] | Some ts \<Rightarrow> ts))) KNOWLEDGE_TYPES) = []"
    "filter (\<lambda>e. space_rule_dead E (snd e)) (rules_in (sm_rules meta)) = []"
    by (auto simp: filter_empty_conv split: option.split) metis
  then show ?thesis by (simp add: invalid_rules_of_def)
qed

section \<open>An admitted rule at work\<close>

lemma names_declared:
  assumes "an_problems (analyse w e sc) = []" "rs_declared sc = Some ds" "names_property e p"
  shows "p \<in> fst ` set ds"
  using assms analyse_props [OF assms(1), of p] analyse_within [of sc w e] by (auto simp: reads_within_def)

lemma answer_of_True: "answer_of out = Answer b \<longleftrightarrow> out = Cel_bool b"
  by (cases out) (auto simp: answer_of_def)

text \<open>An admitted rule judged on a record.\<close>

lemma admitted_rule_judged:
  assumes "ve_problems (judge E (ru_rule r) (type_scope k schema)) = []" "rule_engine_available E"
  shows "\<exists>e. ce_parse E (ru_rule r) = Inr e
    \<and> (\<forall>p. names_property e p \<longrightarrow> p \<in> fst ` set (declared_of schema))
    \<and> (evaluate_rule (checks_of E reg h) k view (f, r, Some (map fst (declared_of schema))) = [] \<longleftrightarrow>
        (\<exists>p. names_property e p \<and> p \<notin> fst ` set (rv_properties view))
        \<or> too_large (checks_of E reg h) (an_refs (analyse (ce_walk E) e (type_scope k schema))) (engine_self k view) = None
          \<and> ce_plan E e (engine_self k view) = Cel_bool True)"
proof -
  obtain e where e: "parsed E (ru_rule r) = Inr e" "an_problems (analyse (ce_walk E) e (type_scope k schema)) = []"
    using judge_clean [OF assms(1)] by metis
  let ?declared = "map fst (declared_of schema)" and ?a = "analyse (ce_walk E) e (type_scope k schema)"
  have kinds: "an_kinds ?a = [k]" using analyse_kinds(3) [OF e(2)] by (simp add: type_scope_def)
  obtain c where c: "compile_rule E k Type_level (Some ?declared) (ru_rule r) = Some c"
    "cp_refs c = an_refs ?a" "cp_run c = answer_of \<circ> ce_plan E e"
    by (rule admitted_compiles [OF assms(1) narrows_type]) (use e(1) kinds in auto)
  have parse: "ce_parse E (ru_rule r) = Inr e"
    using e(1) assms(2) by (auto simp: parsed_def rule_engine_available_def split: if_splits sum.splits)
  have absent: "list_ex (\<lambda>x. x \<notin> fst ` set (rv_properties view)) (rf_props (cp_refs c))
      \<longleftrightarrow> (\<exists>p. names_property e p \<and> p \<notin> fst ` set (rv_properties view))"
    using analyse_props [OF e(2)] c(2) by (auto simp: list_ex_iff)
  have true: "(case cp_run c s of Cel_error overload \<Rightarrow> [row1 overload] | Not_boolean \<Rightarrow> [row2] | Answer b \<Rightarrow> if b then [] else [row3]) = []
      \<longleftrightarrow> ce_plan E e s = Cel_bool True" for s row1 and row2 row3 :: violation
    using answer_of_True [of "ce_plan E e s" True] c(3) by (cases "cp_run c s") auto
  have "evaluate_rule (checks_of E reg h) k view (f, r, Some ?declared) = [] \<longleftrightarrow>
      (\<exists>p. names_property e p \<and> p \<notin> fst ` set (rv_properties view))
      \<or> too_large (checks_of E reg h) (cp_refs c) (engine_self k view) = None \<and> ce_plan E e (engine_self k view) = Cel_bool True"
    using assms(2) absent
    by (cases "\<exists>p. names_property e p \<and> p \<notin> fst ` set (rv_properties view)")
       (auto simp: evaluate_rule_def Let_def checks_of_def [of E reg h, THEN arg_cong [where f = ck_available]]
         checks_of_def [of E reg h, THEN arg_cong [where f = ck_compile]] c(1) true split: option.split)
  with parse names_declared [OF e(2)] c(2) show ?thesis by (auto simp: type_scope_def)
qed

text \<open>
  Property C8: a rule that is saved is enforced, while the engine is available (loaded, its self-test
  passed). The properties a rule reads the value of by name are those written
  \<open>self.properties.p\<close> or \<open>self.properties['p']\<close>; a presence test
  \<open>has(self.properties.p)\<close> is not such a read, and one that writes \<open>properties\<close> in
  brackets too is not seen as one. A rule that a type's door admitted reads by name only properties the type
  declares; judged on a record of the type it is silent exactly when the record lacks a property it reads by
  name, or when nothing it reads is too large and the rule, run on the record, answers true.
\<close>

theorem admitted_rule_enforced:
  assumes "ve_problems (judge E (ru_rule r) (type_scope k schema)) = []" "rule_engine_available E"
  shows "\<exists>e. ce_parse E (ru_rule r) = Inr e
    \<and> (\<forall>p. names_property e p \<longrightarrow> p \<in> fst ` set (declared_of schema))
    \<and> (evaluate_rule (checks_of E reg h) k view (f, r, Some (map fst (declared_of schema))) = [] \<longleftrightarrow>
        (\<exists>p. names_property e p \<and> p \<notin> fst ` set (rv_properties view))
        \<or> too_large (checks_of E reg h) (an_refs (analyse (ce_walk E) e (type_scope k schema))) (engine_self k view) = None
          \<and> ce_plan E e (engine_self k view) = Cel_bool True)"
  by (rule admitted_rule_judged [OF assms])

section \<open>The budget of what applies to a record\<close>

text \<open>What a rule costs as it is compiled for a kind.\<close>

definition rule_cost :: "cel_engine \<Rightarrow> kind \<Rightarrow> string \<times> stored_rule \<times> string list option \<Rightarrow> nat" where
  "rule_cost E k src =
     (case parsed E (ru_rule (fst (snd src))) of
        Inl _ \<Rightarrow> 0
      | Inr e \<Rightarrow> an_cost (analyse (ce_walk E) e (compile_scope k Type_level (snd (snd src)))))"

lemma judged_cost:
  assumes "narrows_to sc (compile_scope k Type_level d) k"
  shows "rule_cost E k (f, r, d) = ve_cost (judge E (ru_rule r) sc)"
  using analyse_narrowed(1) [OF assms]
  by (cases "parsed E (ru_rule r)") (simp_all add: rule_cost_def judge_def Let_def)

lemma narrows_space_type: "k \<in> set (space_rule_kinds r) \<Longrightarrow> narrows_to (space_scope r) (compile_scope k Type_level None) k"
  by (simp add: narrows_to_def space_scope_def compile_scope_def same_declared_def)

text \<open>
  Property C18: what is saved stays within the budget a record's rules have together, for a type the space
  defines itself. When no door finds an issue with the type's rules, with the space's, and with those that
  apply together, the rules evaluated on a record of the type cost at most the budget as they are compiled,
  and are at most fifty when a rule of the space is among them. A type taken from the library by a reference
  is outside: the door for what applies together passes over it.
\<close>

theorem applied_rules_within_budget:
  assumes "schemas_of (Some meta) k = Some ts" "t \<in> set ts" "ts_ref (snd t) = None"
    and "type_rule_issues E False k (snd t) = []" "space_rule_issues E False (sm_rules meta) = []"
    and "applicable_rule_issues E False None meta = []"
  shows "sum_list (map (rule_cost E k) (rule_sources meta k (Some (snd t)))) \<le> COST_BUDGET
    \<and> ((\<exists>e \<in> set (rules_in (sm_rules meta)). k \<in> set (space_rule_kinds (snd e)))
        \<longrightarrow> length (rule_sources meta k (Some (snd t))) \<le> MAX_APPLICABLE_RULES)"
proof -
  let ?own = "rules_in (ts_rules (snd t))" and ?keys = "map fst (declared_of (snd t))"
  let ?app = "filter (\<lambda>e. k \<in> set (space_rule_kinds (snd e))) (rules_in (sm_rules meta))"
  let ?own_cost = "sum_list (map (\<lambda>e. ve_cost (judge E (ru_rule (snd e)) (type_scope k (snd t)))) ?own)"
  let ?app_cost = "sum_list (map (\<lambda>e. ve_cost (judge E (ru_rule (snd e)) (space_scope (snd e)))) ?app)"
  have sources: "rule_sources meta k (Some (snd t)) =
      map (\<lambda>e. (''rules.'' @ fst e, snd e, Some ?keys)) ?own @ map (\<lambda>e. (''meta.rules.'' @ fst e, snd e, None)) ?app"
    by (simp add: rule_sources_def rules_in_def declared_of_def Let_def split: option.split)
  have "map (rule_cost E k) (map (\<lambda>e. (''rules.'' @ fst e, snd e, Some ?keys)) ?own)
      = map (\<lambda>e. ve_cost (judge E (ru_rule (snd e)) (type_scope k (snd t)))) ?own"
    by (simp add: judged_cost [OF narrows_type])
  moreover have "map (rule_cost E k) (map (\<lambda>e. (''meta.rules.'' @ fst e, snd e, None)) ?app)
      = map (\<lambda>e. ve_cost (judge E (ru_rule (snd e)) (space_scope (snd e)))) ?app"
    by (simp add: judged_cost [OF narrows_space_type])
  ultimately have cost: "sum_list (map (rule_cost E k) (rule_sources meta k (Some (snd t)))) = ?own_cost + ?app_cost"
    unfolding sources map_append sum_list_append by argo
  have "k \<in> set KNOWLEDGE_TYPES" by (cases k) (simp_all add: KNOWLEDGE_TYPES_def)
  then have none: "kind_applicable E None meta k = []" using assms(6) by (simp add: applicable_rule_issues_def)
  have "ve_problems (judge E (ru_rule (snd e)) (space_scope (snd e))) = []" if "e \<in> set ?app" for e
    using rule_issues_judged(2) [OF assms(5)] that by simp
  then have "\<not> list_ex (\<lambda>v. ve_problems v \<noteq> []) (map (\<lambda>e. judge E (ru_rule (snd e)) (space_scope (snd e))) ?app)"
    by (auto simp: list_ex_iff)
  with none have "concat (map (type_applicable E None k (length ?app) ?app_cost) ts) = []"
    unfolding kind_applicable_def Let_def assms(1) option.case
    by (simp only: if_False append_is_Nil_conv map_map comp_def)
  then have ty: "type_applicable E None k (length ?app) ?app_cost t = []" using assms(2) by auto
  have own: "\<not> list_ex (\<lambda>v. ve_problems v \<noteq> []) (map (\<lambda>e. judge E (ru_rule (snd e)) (type_scope k (snd t))) ?own)"
    using rule_issues_judged(1) [OF assms(4,3)] by (auto simp: list_ex_iff)
  show ?thesis
  proof (cases "?app = []")
    case True
    have "?own_cost \<le> COST_BUDGET"
      using assms(3,4) by (simp add: type_rule_issues_def Let_def comp_def split: if_splits)
    moreover from True have "\<not> (\<exists>e \<in> set (rules_in (sm_rules meta)). k \<in> set (space_rule_kinds (snd e)))"
      by (simp add: filter_empty_conv)
    moreover have "?app_cost = 0" unfolding True by simp
    ultimately show ?thesis unfolding cost by linarith
  next
    case False
    then have n: "length ?app \<noteq> 0" by simp
    have "\<not> MAX_APPLICABLE_RULES < length ?own + length ?app"
      using ty unfolding type_applicable_def Let_def assms(3) option.case if_not_P [OF n] by (auto split: if_splits)
    moreover from this have "\<not> COST_BUDGET < ?app_cost + ?own_cost"
      using ty unfolding type_applicable_def Let_def assms(3) option.case if_not_P [OF n] if_not_P [OF own]
      by (auto simp: comp_def split: if_splits)
    ultimately have "length ?own + length ?app \<le> MAX_APPLICABLE_RULES" "?own_cost + ?app_cost \<le> COST_BUDGET" by linarith+
    then show ?thesis unfolding cost by (simp add: sources)
  qed
qed

section \<open>A read the walk does not see by name\<close>

text \<open>The comparison of a property with a constant, its names written as fields and written in brackets.\<close>

definition field_read :: "string \<Rightarrow> string option \<Rightarrow> expr" where
  "field_read p v = Call ''_==_'' Absent [Select (Select (Ident ''self'') ''properties'' False) p False, Const v]"

definition bracket_read :: "string \<Rightarrow> string option \<Rightarrow> expr" where
  "bracket_read p v = Call ''_==_'' Absent
     [Call ''_[_]'' Absent [Call ''_[_]'' Absent [Ident ''self'', Const (Some ''properties'')], Const (Some p)], Const v]"

lemma read_properties_field:
  "has_view_field k ''properties''"
  by (cases k) (simp_all add: has_view_field_def VIEW_FIELDS_def field_name_def)

lemma analyse_field_read:
  assumes "we_has_function w ''_==_''" "p \<notin> fst ` set (declared_of schema)"
  shows "an_problems (analyse w (field_read p v) (type_scope k schema)) = [P_undeclared (we_quote w p)]"
    "an_patterns (analyse w (field_read p v) (type_scope k schema)) = []"
  using assms read_properties_field
  by (simp_all add: analyse_def field_read_def type_scope_def fresh_analysis_def no_refs_def count_node_def read_property_def read_field_def
      note_problem_def keep_field_def is_self_def is_self_properties_def mark_call_def charge_def close_analysis_def call_price_def
      SCANS_def AST_NODE_LIMIT_def TYPE_IDENTS_def PLANNER_OPERATORS_def arg_at_def string_const_def Let_def split_beta reads_whole_def)

lemma analyse_bracket_read:
  assumes "we_has_function w ''_==_''"
  shows "an_problems (analyse w (bracket_read p v) (type_scope k schema)) = []"
    "an_patterns (analyse w (bracket_read p v) (type_scope k schema)) = []"
  using assms read_properties_field
  by (simp_all add: analyse_def bracket_read_def type_scope_def fresh_analysis_def no_refs_def count_node_def read_property_def read_field_def
      note_problem_def keep_field_def is_self_def is_self_properties_def mark_call_def charge_def close_analysis_def call_price_def
      SCANS_def AST_NODE_LIMIT_def TYPE_IDENTS_def PLANNER_OPERATORS_def arg_at_def string_const_def Let_def split_beta reads_whole_def)

lemma first_some_none: "first_some (\<lambda>x. None) xs = None"
  by (induction xs) simp_all

lemma bracket_read_names_none: "\<not> names_property (bracket_read p v) q"
  by (auto simp: names_property_def bracket_read_def is_self_properties_def arg_at_def)

text \<open>
  Property C39: the check that a type's rule reads only what its type declares does not see a read in
  brackets.  On an engine that answers a comparison with true or false, or fails for want of the key,
  \<open>self.properties.p == v\<close> is refused where the type does not declare \<open>p\<close>, while
  \<open>self['properties']['p'] == v\<close> is admitted on every type; and it is then judged on the records that lack
  \<open>p\<close> too, where a rule that reads a property by its field is passed over.
\<close>

theorem bracketed_read_is_admitted:
  assumes "rule_engine_available E" "we_has_function (ce_walk E) ''_==_''"
    and "ce_parse E (ru_rule r) = Inr (bracket_read p v)" "ce_parse E (ru_rule r') = Inr (field_read p v)"
    and "\<And>self. sample_problem (ce_plan E (bracket_read p v) self) = None"
    and "p \<notin> fst ` set (declared_of schema)"
  shows "ve_problems (judge E (ru_rule r') (type_scope k schema)) = [P_undeclared (we_quote (ce_walk E) p)]
   \<and> ve_problems (judge E (ru_rule r) (type_scope k schema)) = []
   \<and> (evaluate_rule (checks_of E reg h) k view (f, r, Some (map fst (declared_of schema))) = [] \<longleftrightarrow>
        too_large (checks_of E reg h) (an_refs (analyse (ce_walk E) (bracket_read p v) (type_scope k schema))) (engine_self k view) = None
        \<and> ce_plan E (bracket_read p v) (engine_self k view) = Cel_bool True)"
proof -
  have up: "ce_available E" using assms(1) by (simp add: rule_engine_available_def)
  have parsed: "parsed E (ru_rule r) = Inr (bracket_read p v)" "parsed E (ru_rule r') = Inr (field_read p v)"
    using up assms(3,4) by (simp_all add: parsed_def)
  have clean: "ve_problems (judge E (ru_rule r) (type_scope k schema)) = []"
    using up by (simp add: judge_def parsed(1) analyse_bracket_read [OF assms(2)] bool_problem_def Let_def assms(5) first_some_none cong: if_cong)
  from admitted_rule_judged [OF this assms(1), of reg h view f] assms(3)
  have "evaluate_rule (checks_of E reg h) k view (f, r, Some (map fst (declared_of schema))) = [] \<longleftrightarrow>
        too_large (checks_of E reg h) (an_refs (analyse (ce_walk E) (bracket_read p v) (type_scope k schema))) (engine_self k view) = None
        \<and> ce_plan E (bracket_read p v) (engine_self k view) = Cel_bool True"
    by (simp add: bracket_read_names_none)
  moreover have "ve_problems (judge E (ru_rule r') (type_scope k schema)) = [P_undeclared (we_quote (ce_walk E) p)]"
    using up by (simp add: judge_def parsed(2) analyse_field_read [OF assms(2,6)] Let_def)
  ultimately show ?thesis using clean by simp
qed

section \<open>A concrete space\<close>

definition no_property :: type_schema where
  "no_property = \<lparr>ts_ref = None, ts_unresolvedRef = None, ts_namingPattern = None, ts_propertySchemas = Some [],
     ts_endpoints = None, ts_functional = False, ts_rules = None\<rparr>"

text \<open>An engine that reads \<open>self.properties.secret == 'x'\<close>, and the same with both names in brackets.\<close>

definition secret_engine :: cel_engine where
  "secret_engine = \<lparr>ce_available = True, ce_self_test = True,
     ce_parse = (\<lambda>text. if text = ''field'' then Inr (field_read ''secret'' (Some ''x'')) else Inr (bracket_read ''secret'' (Some ''x''))),
     ce_walk = \<lparr>we_has_function = (\<lambda>f. f = ''_==_''), we_quote = (\<lambda>s. s)\<rparr>, ce_matches_error = (\<lambda>_. None),
     ce_plan = (\<lambda>_ self. case own_value self ''properties'' of
        JObj p \<Rightarrow> (case own_value p ''secret'' of Undef \<Rightarrow> Cel_failed ''no such key: secret'' | v \<Rightarrow> Cel_bool (v = JStr ''x''))
      | _ \<Rightarrow> Cel_failed ''no such overload'')\<rparr>"

definition bare_view :: record_view where
  "bare_view = \<lparr>rv_title = Some ''Io'', rv_type = Some ''moon'', rv_label = None, rv_description = [], rv_tags = [], rv_properties = []\<rparr>"

definition bracket_rule :: stored_rule where
  "bracket_rule = \<lparr>ru_rule = ''bracket'', ru_message = ''secret'', ru_kinds = None\<rparr>"

definition orbit_rule :: stored_rule where
  "orbit_rule = \<lparr>ru_rule = ''field'', ru_message = ''open'', ru_kinds = None\<rparr>"

definition orbit_type :: type_schema where
  "orbit_type = no_property\<lparr>ts_propertySchemas := Some [(''secret'', empty_property)], ts_rules := Some [(''open'', orbit_rule)]\<rparr>"

definition orbit_meta :: space_meta where
  "orbit_meta = \<lparr>sm_validationMode = Some Mode_strict, sm_typeSchemas = Some [(K_entity, [(''moon'', orbit_type)])],
     sm_rules = Some [(''any'', orbit_rule)]\<rparr>"

lemma orbit_judged:
  "judge secret_engine ''field'' (type_scope K_entity orbit_type) = \<lparr>ve_problems = [], ve_cost = 5\<rparr>"
  "judge secret_engine ''field'' (space_scope orbit_rule) = \<lparr>ve_problems = [], ve_cost = 5\<rparr>"
  by code_simp+

lemma orbit_parts [simp]:
  "ts_ref orbit_type = None" "ts_rules orbit_type = Some [(''open'', orbit_rule)]" "sm_rules orbit_meta = Some [(''any'', orbit_rule)]"
  "ru_rule orbit_rule = ''field''" "space_rule_kinds orbit_rule = KNOWLEDGE_TYPES"
  "schemas_of (Some orbit_meta) k = (if k = K_entity then Some [(''moon'', orbit_type)] else None)"
  by (simp_all add: orbit_type_def no_property_def orbit_meta_def orbit_rule_def space_rule_kinds_def schemas_of_def)

lemma orbit_clean:
  "type_rule_issues secret_engine False K_entity orbit_type = []"
  "space_rule_issues secret_engine False (sm_rules orbit_meta) = []"
  "applicable_rule_issues secret_engine False None orbit_meta = []"
  by (simp_all add: type_rule_issues_def space_rule_issues_def applicable_rule_issues_def kind_applicable_def type_applicable_def
      rules_in_def orbit_judged COST_BUDGET_def MAX_APPLICABLE_RULES_def KNOWLEDGE_TYPES_def)

lemma admitted_rules_live_witness: "invalid_rules_of secret_engine (Some orbit_meta) = []"
proof (rule admitted_rules_live)
  fix k ts t
  assume "schemas_of (Some orbit_meta) k = Some ts" "t \<in> set ts"
  then have "k = K_entity" "snd t = orbit_type" by (auto split: if_splits)
  moreover have "orbit_type\<lparr>ts_ref := None\<rparr> = orbit_type" by (simp add: orbit_type_def no_property_def)
  ultimately show "type_rule_issues secret_engine False k ((snd t)\<lparr>ts_ref := None\<rparr>) = []" using orbit_clean(1) by metis
qed (rule orbit_clean)

lemma admitted_rule_enforced_witness:
  "evaluate_rule (checks_of secret_engine (\<lambda>_ _. None) (\<lambda>s. s)) K_entity bare_view (''rules.open'', orbit_rule, Some [''secret'']) = []"
proof -
  have "ve_problems (judge secret_engine (ru_rule orbit_rule) (type_scope K_entity orbit_type)) = []" by code_simp
  from admitted_rule_enforced [OF this, of "\<lambda>_ _. None" "\<lambda>s. s" bare_view "''rules.open''"]
  obtain e where e: "ce_parse secret_engine (ru_rule orbit_rule) = Inr e"
    "(\<exists>p. names_property e p \<and> p \<notin> fst ` set (rv_properties bare_view)) \<Longrightarrow>
     evaluate_rule (checks_of secret_engine (\<lambda>_ _. None) (\<lambda>s. s)) K_entity bare_view
       (''rules.open'', orbit_rule, Some (map fst (declared_of orbit_type))) = []"
    by (auto simp: rule_engine_available_def secret_engine_def)
  have "e = field_read ''secret'' (Some ''x'')" using e(1) by (simp add: secret_engine_def orbit_rule_def)
  then have "names_property e ''secret''" by (simp add: names_property_def field_read_def is_self_properties_def is_self_def)
  moreover have "rv_properties bare_view = []" by (simp add: bare_view_def)
  moreover have "map fst (declared_of orbit_type) = [''secret'']" by (simp add: declared_of_def orbit_type_def no_property_def)
  ultimately show ?thesis using e(2) by auto
qed

lemma applied_rules_within_budget_witness:
  "sum_list (map (rule_cost secret_engine K_entity) (rule_sources orbit_meta K_entity (Some orbit_type))) \<le> COST_BUDGET"
  using applied_rules_within_budget [of orbit_meta K_entity "[(''moon'', orbit_type)]" "(''moon'', orbit_type)" secret_engine] orbit_clean by simp

lemma bracketed_read_is_admitted_witness:
  "ve_problems (judge secret_engine ''bracket'' (type_scope K_entity no_property)) = []
   \<and> evaluate_rule (checks_of secret_engine (\<lambda>_ _. None) (\<lambda>s. s)) K_entity bare_view (''rules.secret'', bracket_rule, Some []) \<noteq> []"
proof -
  have a: "rule_engine_available secret_engine" "we_has_function (ce_walk secret_engine) ''_==_''"
    "ce_parse secret_engine (ru_rule bracket_rule) = Inr (bracket_read ''secret'' (Some ''x''))"
    "ce_parse secret_engine (ru_rule orbit_rule) = Inr (field_read ''secret'' (Some ''x''))"
    by (simp_all add: rule_engine_available_def secret_engine_def bracket_rule_def)
  have quiet: "\<not> says ''no such key: secret'' ''unbound function'' \<and> \<not> says ''no such key: secret'' ''error parsing regexp''
      \<and> \<not> says ''no such overload'' ''unbound function'' \<and> \<not> says ''no such overload'' ''error parsing regexp''" by code_simp
  have b: "sample_problem (ce_plan secret_engine (bracket_read ''secret'' (Some ''x'')) self) = None" for self
    using quiet by (simp add: secret_engine_def sample_problem_def split: json.split)
  have c: "''secret'' \<notin> fst ` set (declared_of no_property)" "map fst (declared_of no_property) = []"
    by (simp_all add: declared_of_def no_property_def)
  have d: "ce_plan secret_engine e (engine_self K_entity bare_view) \<noteq> Cel_bool True" for e by code_simp
  from bracketed_read_is_admitted [OF a b c(1), of K_entity "\<lambda>_ _. None" "\<lambda>s. s" bare_view "''rules.secret''"] c(2) d
  show ?thesis by (simp add: bracket_rule_def)
qed

end
