(* ===== verification/Recall_Rank.thy ===== *)
theory Recall_Rank
  imports Prelude "HOL-Library.Product_Lexorder" "HOL-Library.List_Lexorder" "HOL-Library.Char_ord"
begin

text \<open>
  How a recall orders and selects what its searches found (\<open>brain/recall-shape.ts\<close>, \<open>lexical-search.ts\<close>,
  \<open>rerank-pool.ts\<close>, \<open>search-bounds.ts\<close> and the composition in \<open>recall.ts\<close>).  The rows the database gives
  and the cross-encoder are arguments.  Scores are rationals, so the rounding of floating point is outside
  the model; ids are compared by code unit.
\<close>

section \<open>A match\<close>

datatype record_type = R_fact | R_entity | R_edge | R_chrono | R_file

record hit =
  h_id :: string
  h_type :: record_type
  h_score :: "rat option"
  h_fusedScore :: "rat option"
  h_rerankScore :: "rat option"
  h_vectorRank :: "nat option"
  h_lexicalRank :: "nat option"

definition or_zero :: "rat option \<Rightarrow> rat" where
  "or_zero s = (case s of Some x \<Rightarrow> x | None \<Rightarrow> 0)"

text \<open>\<open>rankOf\<close>: the rerank score, or else the fused score, or else the score.\<close>

definition rank_of :: "hit \<Rightarrow> rat" where
  "rank_of r = (case h_rerankScore r of Some x \<Rightarrow> x
     | None \<Rightarrow> (case h_fusedScore r of Some x \<Rightarrow> x | None \<Rightarrow> or_zero (h_score r)))"

text \<open>
  \<open>byRankThenId\<close> as the key it sorts by: a result the cross-encoder scored first, then the rank from high to
  low, then the id.  \<open>Array.prototype.sort\<close> is stable, as \<open>sort_key\<close> is.
\<close>

definition by_rank_then_id :: "hit \<Rightarrow> bool \<times> rat \<times> string" where
  "by_rank_then_id r = (h_rerankScore r = None, - rank_of r, h_id r)"

definition by_score_then_id :: "hit \<Rightarrow> rat \<times> string" where
  "by_score_then_id r = (- or_zero (h_score r), h_id r)"

text \<open>Keeping the first row of each id.\<close>

fun first_of_each :: "string list \<Rightarrow> hit list \<Rightarrow> hit list" where
  "first_of_each seen [] = []"
| "first_of_each seen (r # rs) =
     (if h_id r \<in> set seen then first_of_each seen rs else r # first_of_each (h_id r # seen) rs)"

section \<open>Bounds\<close>

definition MAX_PER_TYPE_CANDIDATES :: nat where "MAX_PER_TYPE_CANDIDATES = 2000"

definition per_type_fetch :: "nat \<Rightarrow> rat \<Rightarrow> nat" where
  "per_type_fetch topK m = min (nat \<lceil>of_nat topK * m\<rceil>) MAX_PER_TYPE_CANDIDATES"

definition floor_fetch :: "nat \<Rightarrow> nat \<Rightarrow> nat" where
  "floor_fetch fl topK = min (min fl topK) MAX_PER_TYPE_CANDIDATES"

definition ann_candidates :: "nat \<Rightarrow> nat" where
  "ann_candidates n = max n (min (n * 15) 1000)"

section \<open>Fusing by rank\<close>

definition RRF_K :: nat where "RRF_K = 60"

text \<open>One channel, its ids from position \<open>i\<close> on, added to the scores so far.\<close>

fun fuse_channel :: "nat \<Rightarrow> nat \<Rightarrow> string list \<Rightarrow> (string \<Rightarrow> rat option) \<Rightarrow> string \<Rightarrow> rat option" where
  "fuse_channel k i [] fused = fused"
| "fuse_channel k i (x # xs) fused =
     fuse_channel k (Suc i) xs (fused(x \<mapsto> or_zero (fused x) + 1 / of_nat (k + i + 1)))"

definition rrf_fuse :: "nat \<Rightarrow> string list list \<Rightarrow> string \<Rightarrow> rat option" where
  "rrf_fuse k channels = fold (fuse_channel k 0) channels Map.empty"

text \<open>The place of an id in the first of the lists that has it, from one.\<close>

definition place_in :: "string list \<Rightarrow> string \<Rightarrow> nat option" where
  "place_in xs x = map_option Suc (find_index (\<lambda>y. y = x) xs)"

fun lexical_place :: "string list list \<Rightarrow> string \<Rightarrow> nat option" where
  "lexical_place [] x = None"
| "lexical_place (xs # xss) x = (case place_in xs x of Some i \<Rightarrow> Some i | None \<Rightarrow> lexical_place xss x)"

text \<open>
  \<open>stampFusion\<close>: the candidates of the pool and of the floors, each copy of an id stamped alike, and whether
  anything was fused.
\<close>

definition vector_ranked :: "hit list \<Rightarrow> string list" where
  "vector_ranked candidates = map h_id (sort_key by_score_then_id (first_of_each [] candidates))"

definition stamp_hit :: "string list \<Rightarrow> string list list \<Rightarrow> hit \<Rightarrow> hit" where
  "stamp_hit vec lexical r =
     (case rrf_fuse RRF_K (vec # lexical) (h_id r) of
        None \<Rightarrow> r
      | Some f \<Rightarrow>
          (let r1 = r\<lparr>h_fusedScore := Some f, h_vectorRank := place_in vec (h_id r)\<rparr>
           in case lexical_place lexical (h_id r) of None \<Rightarrow> r1 | Some i \<Rightarrow> r1\<lparr>h_lexicalRank := Some i\<rparr>))"

definition stamp_fusion :: "hit list \<Rightarrow> hit list \<Rightarrow> string list list \<Rightarrow> (hit list \<times> hit list) \<times> bool" where
  "stamp_fusion pool floors lexical =
     (if list_all (\<lambda>l. l = []) lexical then ((pool, floors), False)
      else let vec = vector_ranked (pool @ floors)
           in ((map (stamp_hit vec lexical) pool, map (stamp_hit vec lexical) floors), True))"

record space_answer =
  sa_results :: "hit list"
  sa_lexical :: "string list list"

definition fuse_across_spaces :: "space_answer list \<Rightarrow> hit list \<times> bool" where
  "fuse_across_spaces answers =
     (case stamp_fusion (concat (map sa_results answers)) [] (concat (map sa_lexical answers)) of
        ((merged, _), fused) \<Rightarrow> (merged, fused))"

section \<open>The cross-encoder\<close>

definition MAX_CANDIDATES :: nat where "MAX_CANDIDATES = 100"

text \<open>
  The ids a pass scores: the floors' first, then by score or by fused score, then by id, a hundred at most.
  The pool's copy of an id is the one whose score counts.
\<close>

definition rerank_key :: "bool \<Rightarrow> hit list \<Rightarrow> hit list \<Rightarrow> string \<Rightarrow> rat" where
  "rerank_key by_fused guaranteed pool i =
     (case find (\<lambda>r. h_id r = i) (pool @ guaranteed) of
        None \<Rightarrow> 0
      | Some r \<Rightarrow> or_zero (if by_fused \<and> h_fusedScore r \<noteq> None then h_fusedScore r else h_score r))"

definition rerank_ids :: "bool \<Rightarrow> hit list \<Rightarrow> hit list \<Rightarrow> string list" where
  "rerank_ids by_fused guaranteed pool =
     take MAX_CANDIDATES
       (sort_key (\<lambda>i. (i \<notin> h_id ` set guaranteed, - rerank_key by_fused guaranteed pool i, i))
         (map h_id (first_of_each [] (guaranteed @ pool))))"

text \<open>
  \<open>scorer\<close> is handed the ids in order and answers scores for places among them, or nothing.  A later score
  for a place replaces an earlier one.
\<close>

definition score_hit :: "string list \<Rightarrow> (nat \<times> rat) list \<Rightarrow> hit \<Rightarrow> hit" where
  "score_hit ids scores r =
     fold (\<lambda>(i, s) r. if i < length ids \<and> ids ! i = h_id r then r\<lparr>h_rerankScore := Some s\<rparr> else r) scores r"

definition rerank_pool ::
  "(string list \<Rightarrow> (nat \<times> rat) list option) \<Rightarrow> bool \<Rightarrow> hit list \<Rightarrow> hit list \<Rightarrow> (hit list \<times> hit list) \<times> bool" where
  "rerank_pool scorer by_fused guaranteed pool =
     (let ids = rerank_ids by_fused guaranteed pool
      in if ids = [] then ((guaranteed, pool), False)
         else case scorer ids of
             None \<Rightarrow> ((guaranteed, pool), True)
           | Some scores \<Rightarrow> ((map (score_hit ids scores) guaranteed, map (score_hit ids scores) pool), False))"

section \<open>The answer\<close>

definition clears :: "rat option \<Rightarrow> hit \<Rightarrow> bool" where
  "clears minScore r = (case minScore of None \<Rightarrow> True | Some m \<Rightarrow> m \<le> 0 \<or> m \<le> or_zero (h_score r))"

text \<open>The walk that fills the slots the floors leave: a type at its ceiling is skipped, not stopped at.\<close>

type_synonym ceilings = "(record_type \<Rightarrow> nat option) option"

definition at_ceiling :: "ceilings \<Rightarrow> (record_type \<Rightarrow> nat) \<Rightarrow> record_type \<Rightarrow> bool" where
  "at_ceiling caps used t =
     (case caps of None \<Rightarrow> False | Some m \<Rightarrow> (case m t of None \<Rightarrow> False | Some c \<Rightarrow> c \<le> used t))"

definition count_one :: "ceilings \<Rightarrow> (record_type \<Rightarrow> nat) \<Rightarrow> record_type \<Rightarrow> record_type \<Rightarrow> nat" where
  "count_one caps used t = (case caps of None \<Rightarrow> used | Some _ \<Rightarrow> used(t := Suc (used t)))"

fun fill_slots :: "ceilings \<Rightarrow> string list \<Rightarrow> nat \<Rightarrow> (record_type \<Rightarrow> nat) \<Rightarrow> hit list \<Rightarrow> hit list" where
  "fill_slots caps taken slots used [] = []"
| "fill_slots caps taken slots used (r # rs) =
     (if slots = 0 then []
      else if h_id r \<in> set taken then fill_slots caps taken slots used rs
      else if at_ceiling caps used (h_type r) then fill_slots caps taken slots used rs
      else r # fill_slots caps taken (slots - 1) (count_one caps used (h_type r)) rs)"

definition type_count :: "hit list \<Rightarrow> record_type \<Rightarrow> nat" where
  "type_count rs t = length (filter (\<lambda>r. h_type r = t) rs)"

definition merge_recall_results :: "hit list \<Rightarrow> hit list \<Rightarrow> nat \<Rightarrow> rat option \<Rightarrow> ceilings \<Rightarrow> hit list" where
  "merge_recall_results guaranteed0 all0 topK minScore caps =
     (let guaranteed = filter (clears minScore) guaranteed0;
          ranked = sort_key by_rank_then_id (filter (clears minScore) all0);
          fill = fill_slots caps (map h_id guaranteed) (topK - length guaranteed) (type_count guaranteed) ranked
      in sort_key by_rank_then_id (guaranteed @ fill))"

section \<open>One space, and several\<close>

text \<open>
  What the searches of one space gave: the rows of each floor, of each type, the ones written too late for
  the index, the text search's ids for each type and the rows it brought in; and what the call asked.
\<close>

record space_rows =
  sr_floors :: "hit list list"
  sr_types :: "hit list list"
  sr_fresh :: "hit list"
  sr_hybrid :: bool
  sr_lexical :: "string list list"
  sr_introduced :: "hit list"

record recall_call =
  rc_topK :: nat
  rc_minScore :: "rat option"
  rc_caps :: ceilings
  rc_reranking :: bool
  rc_in_budget :: bool
  rc_scorer :: "string list \<Rightarrow> (nat \<times> rat) list option"

text \<open>\<open>applyLexicalFusion\<close>: the pool with the rows the text search brought in, fused with the floors.\<close>

definition apply_lexical_fusion :: "space_rows \<Rightarrow> hit list \<Rightarrow> hit list \<Rightarrow> (hit list \<times> hit list) \<times> bool" where
  "apply_lexical_fusion rows pool floors =
     (if pool = [] \<or> concat (sr_lexical rows) = [] then ((pool, floors), False)
      else stamp_fusion (pool @ sr_introduced rows) floors (sr_lexical rows))"

definition rerank_stage :: "recall_call \<Rightarrow> bool \<Rightarrow> hit list \<Rightarrow> hit list \<Rightarrow> hit list \<times> hit list" where
  "rerank_stage c by_fused guaranteed pool =
     (if rc_in_budget c then fst (rerank_pool (rc_scorer c) by_fused guaranteed pool) else (guaranteed, pool))"

text \<open>\<open>recall\<close>, from its rows on; \<open>deferred\<close> leaves the cross-encoder to the caller.  With the lexical rankings it fused.\<close>

definition recall :: "recall_call \<Rightarrow> bool \<Rightarrow> space_rows \<Rightarrow> space_answer" where
  "recall c deferred rows =
     (let guaranteed = first_of_each [] (concat (sr_floors rows));
          pool = sort_key by_score_then_id (concat (sr_types rows) @ sr_fresh rows)
      in case (if sr_hybrid rows then apply_lexical_fusion rows pool guaranteed else ((pool, guaranteed), False)) of
           ((pool1, guaranteed1), fused) \<Rightarrow>
             (case (if rc_reranking c \<and> \<not> deferred then rerank_stage c fused guaranteed1 pool1 else (guaranteed1, pool1)) of
                (guaranteed2, pool2) \<Rightarrow>
                  \<lparr>sa_results = merge_recall_results guaranteed2 pool2
                     (if deferred then length guaranteed2 + length pool2 else rc_topK c) (rc_minScore c) (rc_caps c),
                   sa_lexical = (if sr_hybrid rows \<and> pool \<noteq> [] \<and> concat (sr_lexical rows) \<noteq> [] then sr_lexical rows else [])\<rparr>))"

definition recall_global :: "recall_call \<Rightarrow> space_rows list \<Rightarrow> hit list" where
  "recall_global c spaces =
     (let defer = (1 < length spaces \<and> rc_reranking c);
          answers = map (recall c defer) spaces
      in case (if 1 < length spaces then fuse_across_spaces answers else (concat (map sa_results answers), False)) of
           (flat, fused) \<Rightarrow>
             (let flat1 = (if defer then snd (rerank_stage c fused [] flat) else flat);
                  deduped = first_of_each [] (sort_key by_rank_then_id flat1)
              in if rc_caps c \<noteq> None then merge_recall_results [] deduped (rc_topK c) None (rc_caps c)
                 else take (rc_topK c) deduped))"

section \<open>The walk over the slots\<close>

lemma type_count_simps [simp]:
  "type_count [] t = 0" "type_count (r # rs) t = (if h_type r = t then Suc (type_count rs t) else type_count rs t)"
  "type_count (rs @ ss) t = type_count rs t + type_count ss t"
  by (simp_all add: type_count_def)

lemma type_count_mset: "mset rs = mset ss \<Longrightarrow> type_count rs t = type_count ss t"
  unfolding type_count_def by (metis mset_filter size_mset)

lemma fill_within:
  "set (fill_slots caps taken slots used rs) \<subseteq> {r \<in> set rs. h_id r \<notin> set taken}"
  "length (fill_slots caps taken slots used rs) \<le> slots"
proof -
  show "set (fill_slots caps taken slots used rs) \<subseteq> {r \<in> set rs. h_id r \<notin> set taken}"
    by (induction rs arbitrary: slots used) auto
  show "length (fill_slots caps taken slots used rs) \<le> slots"
  proof (induction rs arbitrary: slots used)
    case (Cons r rs)
    then show ?case by (cases slots) auto
  qed simp
qed

lemma fill_no_ceiling:
  "length (fill_slots None taken slots used rs) = min slots (length (filter (\<lambda>r. h_id r \<notin> set taken) rs))"
  by (induction rs arbitrary: slots used) (auto simp: at_ceiling_def)

lemma count_one_at: "count_one (Some m) used t' t = (if t' = t then Suc (used t) else used t)"
  by (simp add: count_one_def)

lemma fill_ceiling:
  assumes "caps = Some m" "m t = Some c"
  shows "type_count (fill_slots caps taken slots used rs) t \<le> c - used t"
proof (induction rs arbitrary: slots used)
  case (Cons r rs)
  define u where "u = count_one caps used (h_type r)"
  then have u: "u t = (if h_type r = t then Suc (used t) else used t)" using assms(1) by (simp add: count_one_at)
  have full: "at_ceiling caps used t \<longleftrightarrow> c \<le> used t" using assms by (simp add: at_ceiling_def)
  from Cons.IH [of slots used] Cons.IH [of "slots - 1" u] u full
  show ?case by (cases "h_type r = t") (auto simp: u_def [symmetric])
qed simp

lemma fill_full:
  assumes "caps = Some m" "m t = Some c" "c \<le> used t"
  shows "\<forall>r \<in> set (fill_slots caps taken slots used rs). h_type r \<noteq> t"
proof -
  have "type_count (fill_slots caps taken slots used rs) t = 0"
    using fill_ceiling [OF assms(1,2), of taken slots used rs] assms(3) by simp
  then show ?thesis by (simp add: type_count_def filter_empty_conv)
qed

text \<open>What the walk leaves out it had no place for, in the slots or under the ceiling, after what ranks as high.\<close>

definition no_place :: "ceilings \<Rightarrow> nat \<Rightarrow> (record_type \<Rightarrow> nat) \<Rightarrow> hit list \<Rightarrow> hit \<Rightarrow> bool" where
  "no_place caps slots used fill x \<longleftrightarrow>
     (length fill = slots \<and> (\<forall>y \<in> set fill. by_rank_then_id y \<le> by_rank_then_id x))
     \<or> (\<exists>m c. caps = Some m \<and> m (h_type x) = Some c \<and> c \<le> used (h_type x) + type_count fill (h_type x)
          \<and> (\<forall>y \<in> set fill. h_type y = h_type x \<longrightarrow> by_rank_then_id y \<le> by_rank_then_id x))"

lemma no_place_cons:
  assumes "by_rank_then_id r \<le> by_rank_then_id x" "slots \<noteq> 0"
    and "no_place caps (slots - 1) (count_one caps used (h_type r)) fill x"
  shows "no_place caps slots used (r # fill) x"
proof -
  from assms(3) consider "length fill = slots - 1 \<and> (\<forall>y \<in> set fill. by_rank_then_id y \<le> by_rank_then_id x)"
    | m c where "caps = Some m" "m (h_type x) = Some c" "c \<le> count_one caps used (h_type r) (h_type x) + type_count fill (h_type x)"
      "\<forall>y \<in> set fill. h_type y = h_type x \<longrightarrow> by_rank_then_id y \<le> by_rank_then_id x" unfolding no_place_def by blast
  then show ?thesis
    by cases (use assms(1,2) in \<open>auto simp: no_place_def count_one_at split: if_splits\<close>)
qed

lemma fill_leaves_out:
  assumes "x \<in> set rs" "h_id x \<notin> set taken" "x \<notin> set (fill_slots caps taken slots used rs)"
    and "sorted (map by_rank_then_id rs)"
  shows "no_place caps slots used (fill_slots caps taken slots used rs) x"
  using assms
proof (induction caps taken slots used rs rule: fill_slots.induct)
  case (2 caps taken slots used r rs)
  consider (none) "slots = 0" | (taken) "slots \<noteq> 0" "h_id r \<in> set taken"
    | (full) "slots \<noteq> 0" "h_id r \<notin> set taken" "at_ceiling caps used (h_type r)"
    | (put) "slots \<noteq> 0" "h_id r \<notin> set taken" "\<not> at_ceiling caps used (h_type r)" by blast
  then show ?case
  proof cases
    case none
    then show ?thesis by (simp add: no_place_def)
  next
    case taken
    with 2 show ?thesis by auto
  next
    case full
    then obtain m c where c: "caps = Some m" "m (h_type r) = Some c" "c \<le> used (h_type r)"
      by (auto simp: at_ceiling_def split: option.splits)
    have eq: "fill_slots caps taken slots used (r # rs) = fill_slots caps taken slots used rs" using full by simp
    show ?thesis
    proof (cases "x = r")
      case True
      then show ?thesis using fill_full [OF c(1,2), of used taken slots rs] c unfolding eq no_place_def by auto
    next
      case no: False
      with 2(2) [OF full] 2(4-7) eq show ?thesis by auto
    qed
  next
    case put
    let ?rest = "fill_slots caps taken (slots - 1) (count_one caps used (h_type r)) rs"
    have eq: "fill_slots caps taken slots used (r # rs) = r # ?rest" using put by simp
    have x: "x \<in> set rs" "x \<notin> set ?rest" "by_rank_then_id r \<le> by_rank_then_id x" "sorted (map by_rank_then_id rs)"
      using 2(4-7) eq by auto
    from no_place_cons [OF x(3) put(1) 2(3) [OF put x(1) 2(5) x(2,4)]] show ?thesis unfolding eq .
  qed
qed simp

lemma fill_taken_cong: "set taken = set taken' \<Longrightarrow> fill_slots caps taken slots used rs = fill_slots caps taken' slots used rs"
  by (induction rs arbitrary: slots used) simp_all

section \<open>The merged answer\<close>

lemma merged_parts:
  fixes g p topK minScore caps
  defines "floors \<equiv> filter (clears minScore) g"
  defines "fill \<equiv> fill_slots caps (map h_id floors) (topK - length floors) (type_count floors)
      (sort_key by_rank_then_id (filter (clears minScore) p))"
  shows "merge_recall_results g p topK minScore caps = sort_key by_rank_then_id (floors @ fill)"
    and "set (merge_recall_results g p topK minScore caps) = set floors \<union> set fill"
    and "set fill \<subseteq> {r \<in> set p. clears minScore r \<and> h_id r \<notin> h_id ` set floors}"
    and "length (merge_recall_results g p topK minScore caps) = length floors + length fill"
    and "type_count (merge_recall_results g p topK minScore caps) t = type_count floors t + type_count fill t"
proof -
  show eq: "merge_recall_results g p topK minScore caps = sort_key by_rank_then_id (floors @ fill)"
    by (simp add: merge_recall_results_def Let_def floors_def fill_def)
  then show "set (merge_recall_results g p topK minScore caps) = set floors \<union> set fill"
    and "length (merge_recall_results g p topK minScore caps) = length floors + length fill" by simp_all
  show "type_count (merge_recall_results g p topK minScore caps) t = type_count floors t + type_count fill t"
    unfolding eq using type_count_mset [of "sort_key by_rank_then_id (floors @ fill)" "floors @ fill"] by simp
  show "set fill \<subseteq> {r \<in> set p. clears minScore r \<and> h_id r \<notin> h_id ` set floors}"
    using fill_within(1) unfolding fill_def by fastforce
qed

text \<open>
  Property C6: an answer keeps its floors and its bounds.  Every floor result that clears the threshold is
  in it; everything in it was found and clears the threshold; it is no longer than asked, or than the floors
  are, and without ceilings it is exactly as long as what was found beside the floors allows; no type
  is over its ceiling unless its floors are; and it is in the order of the ranking.
\<close>

theorem answer_keeps_floors:
  fixes g p topK minScore caps
  defines "answer \<equiv> merge_recall_results g p topK minScore caps"
  shows "(\<forall>r \<in> set g. clears minScore r \<longrightarrow> r \<in> set answer)
    \<and> (\<forall>r \<in> set answer. (r \<in> set g \<or> r \<in> set p) \<and> clears minScore r)
    \<and> length answer \<le> max topK (length (filter (clears minScore) g))
    \<and> (caps = None \<longrightarrow> length answer = (let floors = filter (clears minScore) g in length floors
          + min (topK - length floors) (length (filter (\<lambda>r. clears minScore r \<and> h_id r \<notin> h_id ` set floors) p))))
    \<and> (\<forall>m t c. caps = Some m \<longrightarrow> m t = Some c \<longrightarrow> type_count answer t \<le> max c (type_count (filter (clears minScore) g) t))
    \<and> sorted (map by_rank_then_id answer)"
proof -
  let ?floors = "filter (clears minScore) g"
  let ?fill = "fill_slots caps (map h_id ?floors) (topK - length ?floors) (type_count ?floors)
      (sort_key by_rank_then_id (filter (clears minScore) p))"
  note parts = merged_parts [where g = g and p = p and topK = topK and minScore = minScore and caps = caps, folded answer_def]
  have "length ?fill \<le> topK - length ?floors" by (rule fill_within(2))
  moreover have "length ?fill = min (topK - length ?floors) (length (filter (\<lambda>r. clears minScore r \<and> h_id r \<notin> h_id ` set ?floors) p))"
    if "caps = None"
    unfolding that fill_no_ceiling filter_sort by (simp add: conj_commute)
  moreover have "type_count ?fill t \<le> c - type_count ?floors t" if "caps = Some m" "m t = Some c" for m t c
    by (rule fill_ceiling [OF that])
  ultimately show ?thesis
    using parts(2,3) unfolding parts(4,5) Let_def
    by (fastforce simp: answer_def merge_recall_results_def Let_def)
qed

text \<open>
  Property C7: nothing better is left out. The threshold is applied to what was found before the slots are
  counted, as the comment in the body of \<open>mergeRecallResults\<close> says (its header comment and the
  guides say that it comes last, which would leave an answer short of results that clear it). So a result
  that was found and clears the threshold, that is not one of the floors' and not in the answer, had no
  place in it: either the answer is as long as was asked, and all that fills it beside the floors ranks as
  high, or its type is at the ceiling, and all of its type that fills the answer beside the floors ranks as
  high.
\<close>

theorem nothing_better_left_out:
  fixes g p topK minScore caps
  defines "answer \<equiv> merge_recall_results g p topK minScore caps"
  assumes "x \<in> set p" "clears minScore x" "x \<notin> set answer"
    and "\<forall>r \<in> set g. clears minScore r \<longrightarrow> h_id r \<noteq> h_id x"
  shows "topK \<le> length answer \<and> (\<forall>y \<in> set answer. y \<notin> set g \<longrightarrow> by_rank_then_id y \<le> by_rank_then_id x)
    \<or> (\<exists>m c. caps = Some m \<and> m (h_type x) = Some c \<and> c \<le> type_count answer (h_type x)
        \<and> (\<forall>y \<in> set answer. y \<notin> set g \<longrightarrow> h_type y = h_type x \<longrightarrow> by_rank_then_id y \<le> by_rank_then_id x))"
proof -
  let ?floors = "filter (clears minScore) g" and ?ranked = "sort_key by_rank_then_id (filter (clears minScore) p)"
  let ?fill = "fill_slots caps (map h_id ?floors) (topK - length ?floors) (type_count ?floors) ?ranked"
  note parts = merged_parts [where g = g and p = p and topK = topK and minScore = minScore and caps = caps, folded answer_def]
  have "x \<in> set ?ranked" "h_id x \<notin> set (map h_id ?floors)" "x \<notin> set ?fill" "sorted (map by_rank_then_id ?ranked)"
    using assms(2-5) parts(2) by auto
  from fill_leaves_out [OF this]
  have "no_place caps (topK - length ?floors) (type_count ?floors) ?fill x" .
  moreover have "y \<in> set ?fill" if "y \<in> set answer" "y \<notin> set g" for y using that parts(2) by auto
  ultimately show ?thesis unfolding no_place_def parts(4,5) by fastforce
qed

text \<open>
  Property C21: the same candidates give the same answer.  However the database orders its rows, as long as an
  id belongs to one result, floors and candidates that are the same apart from their order are merged
  into the same answer in the same order.
\<close>

theorem answer_is_determined:
  assumes "mset g = mset g'" "mset p = mset p'" "inj_on h_id (set g \<union> set p)"
  shows "merge_recall_results g p topK minScore caps = merge_recall_results g' p' topK minScore caps"
proof -
  have inj: "inj_on by_rank_then_id (set g \<union> set p)" using assms(3) by (auto simp: inj_on_def by_rank_then_id_def)
  have same: "sort_key by_rank_then_id xs = sort_key by_rank_then_id ys"
    if "mset xs = mset ys" "set xs \<subseteq> set g \<union> set p" for xs ys
    by (rule sort_key_inj_key_eq) (use that in \<open>auto intro: inj_on_subset [OF inj]\<close>)
  let ?f = "filter (clears minScore) g" and ?f' = "filter (clears minScore) g'"
  have f: "mset ?f = mset ?f'" using assms(1) by simp
  have counts: "length ?f = length ?f'" "type_count ?f = type_count ?f'" "set (map h_id ?f) = set (map h_id ?f')"
    using type_count_mset [OF f] mset_eq_length [OF f] mset_eq_setD [OF f] by (simp_all add: fun_eq_iff del: set_filter)
  have "sort_key by_rank_then_id (filter (clears minScore) p) = sort_key by_rank_then_id (filter (clears minScore) p')"
    by (rule same) (use assms(2) in auto)
  then have fill: "fill_slots caps (map h_id ?f) (topK - length ?f) (type_count ?f) (sort_key by_rank_then_id (filter (clears minScore) p))
      = fill_slots caps (map h_id ?f') (topK - length ?f') (type_count ?f') (sort_key by_rank_then_id (filter (clears minScore) p'))"
    using counts fill_taken_cong [OF counts(3)] by metis
  have sub: "set (?f @ fill_slots caps (map h_id ?f) (topK - length ?f) (type_count ?f) (sort_key by_rank_then_id (filter (clears minScore) p)))
      \<subseteq> set g \<union> set p" using merged_parts(3) [where g = g and p = p and topK = topK and minScore = minScore and caps = caps] by auto
  show ?thesis
    unfolding merged_parts(1) by (rule same [OF _ sub]) (simp add: f fill del: mset_filter)
qed

section \<open>What the fusion gives\<close>

text \<open>What a channel gives an id: one over its place and the constant.\<close>

definition rrf_term :: "nat \<Rightarrow> string \<Rightarrow> string list \<Rightarrow> rat" where
  "rrf_term k x xs = (case place_in xs x of None \<Rightarrow> 0 | Some j \<Rightarrow> 1 / of_nat (k + j))"

lemma or_zero_simps [simp]: "or_zero None = 0" "or_zero (Some x) = x"
  by (simp_all add: or_zero_def)

lemma place_in_simps [simp]:
  "place_in [] x = None"
  "place_in (y # xs) x = (if y = x then Some 1 else map_option Suc (place_in xs x))"
  by (simp_all add: place_in_def option.map_comp comp_def)

lemma place_in_None: "place_in xs x = None \<longleftrightarrow> x \<notin> set xs"
  by (induction xs) auto

lemma fuse_channel_value:
  assumes "distinct xs"
  shows "or_zero (fuse_channel k i xs m x) = or_zero (m x) + (case place_in xs x of None \<Rightarrow> 0 | Some j \<Rightarrow> 1 / of_nat (k + i + j))"
    and "fuse_channel k i xs m x = None \<longleftrightarrow> m x = None \<and> x \<notin> set xs"
  using assms
proof (induction xs arbitrary: i m)
  case (Cons y ys)
  {
    case 1
    let ?m = "m(y \<mapsto> or_zero (m y) + 1 / of_nat (k + i + 1))"
    have IH: "or_zero (fuse_channel k (Suc i) ys ?m x) = or_zero (?m x) + (case place_in ys x of None \<Rightarrow> 0 | Some j \<Rightarrow> 1 / of_nat (k + Suc i + j))"
      using Cons.IH(1) 1 by simp
    have m: "or_zero (?m x) = (if y = x then or_zero (m x) + 1 / of_nat (k + i + 1) else or_zero (m x))"
      by (cases "y = x") simp_all
    show ?case
    proof (cases "y = x")
      case True
      moreover from this have "place_in ys x = None" using 1 by (simp add: place_in_None)
      ultimately show ?thesis using IH m by simp
    next
      case False
      then show ?thesis using IH m by (cases "place_in ys x") (simp_all add: algebra_simps)
    qed
  next
    case 2
    then have "fuse_channel k (Suc i) ys (m(y \<mapsto> or_zero (m y) + 1 / of_nat (k + i + 1))) x = None
        \<longleftrightarrow> (m(y \<mapsto> or_zero (m y) + 1 / of_nat (k + i + 1))) x = None \<and> x \<notin> set ys" by (intro Cons.IH(2)) simp
    then show ?case unfolding fuse_channel.simps by auto
  }
qed simp_all

lemma rrf_value:
  assumes "\<forall>xs \<in> set channels. distinct xs"
  shows "or_zero (rrf_fuse k channels x) = sum_list (map (rrf_term k x) channels)"
    and "rrf_fuse k channels x = None \<longleftrightarrow> (\<forall>xs \<in> set channels. x \<notin> set xs)"
proof -
  have "or_zero (fold (fuse_channel k 0) channels m x) = or_zero (m x) + sum_list (map (rrf_term k x) channels)
      \<and> (fold (fuse_channel k 0) channels m x = None \<longleftrightarrow> m x = None \<and> (\<forall>xs \<in> set channels. x \<notin> set xs))" for m
    using assms
  proof (induction channels arbitrary: m)
    case (Cons xs channels)
    from Cons.prems have d: "distinct xs" by simp
    from Cons show ?case using fuse_channel_value [OF d, of k 0 m x] by (auto simp: rrf_term_def)
  qed simp
  from this [of Map.empty] show "or_zero (rrf_fuse k channels x) = sum_list (map (rrf_term k x) channels)"
    "rrf_fuse k channels x = None \<longleftrightarrow> (\<forall>xs \<in> set channels. x \<notin> set xs)"
    by (simp_all add: rrf_fuse_def or_zero_def)
qed

lemma first_of_each_ids:
  "h_id ` set (first_of_each seen rs) = h_id ` set rs - set seen" "distinct (map h_id (first_of_each seen rs))"
  "set (first_of_each seen rs) \<subseteq> set rs"
proof -
  have ids: "h_id ` set (first_of_each seen rs) = h_id ` set rs - set seen" for seen rs
    by (induction seen rs rule: first_of_each.induct) auto
  then show "h_id ` set (first_of_each seen rs) = h_id ` set rs - set seen" .
  show "distinct (map h_id (first_of_each seen rs))"
  proof (induction seen rs rule: first_of_each.induct)
    case (2 seen r rs)
    have "h_id r \<notin> h_id ` set (first_of_each (h_id r # seen) rs)" using ids [of "h_id r # seen" rs] by simp
    with 2 show ?case by auto
  qed simp
  show "set (first_of_each seen rs) \<subseteq> set rs" by (induction seen rs rule: first_of_each.induct) auto
qed

lemma vector_ranked_ids: "set (vector_ranked rs) = h_id ` set rs" "distinct (vector_ranked rs)"
proof -
  show "set (vector_ranked rs) = h_id ` set rs" using first_of_each_ids(1) [of "[]" rs] by (simp add: vector_ranked_def)
  have "mset (vector_ranked rs) = mset (map h_id (first_of_each [] rs))" by (simp add: vector_ranked_def)
  then show "distinct (vector_ranked rs)" using first_of_each_ids(2) [of "[]" rs] mset_eq_imp_distinct_iff by blast
qed

text \<open>One id stands in a channel at least as well as another, and better.\<close>

definition as_well :: "string \<Rightarrow> string \<Rightarrow> string list \<Rightarrow> bool" where
  "as_well x y xs = (case place_in xs y of None \<Rightarrow> True | Some j \<Rightarrow> (case place_in xs x of None \<Rightarrow> False | Some i \<Rightarrow> i \<le> j))"

definition better :: "string \<Rightarrow> string \<Rightarrow> string list \<Rightarrow> bool" where
  "better x y xs = (case place_in xs x of None \<Rightarrow> False | Some i \<Rightarrow> (case place_in xs y of None \<Rightarrow> True | Some j \<Rightarrow> i < j))"

lemma rrf_term_mono:
  assumes "0 < k"
  shows "as_well x y xs \<Longrightarrow> rrf_term k y xs \<le> rrf_term k x xs" and "better x y xs \<Longrightarrow> rrf_term k y xs < rrf_term k x xs"
proof -
  have "1 / rat_of_nat (k + j) \<le> 1 / of_nat (k + i)" if "i \<le> j" for i j
    using assms that by (intro divide_left_mono) (simp_all add: add_pos_nonneg)
  moreover have "1 / rat_of_nat (k + j) < 1 / of_nat (k + i)" if "i < j" for i j
    using assms that by (intro divide_strict_left_mono) (simp_all add: add_pos_nonneg)
  moreover have "0 < 1 / rat_of_nat (k + i)" for i using assms by (simp add: add_pos_nonneg)
  ultimately show "as_well x y xs \<Longrightarrow> rrf_term k y xs \<le> rrf_term k x xs" "better x y xs \<Longrightarrow> rrf_term k y xs < rrf_term k x xs"
    by (auto simp: as_well_def better_def rrf_term_def less_imp_le simp del: of_nat_add split: option.splits)
qed

lemma sum_list_strict:
  fixes f g :: "'a \<Rightarrow> rat"
  assumes "\<forall>x \<in> set xs. f x \<le> g x" "\<exists>x \<in> set xs. f x < g x"
  shows "sum_list (map f xs) < sum_list (map g xs)"
  using assms
proof (induction xs)
  case (Cons x xs)
  have "sum_list (map f xs) \<le> sum_list (map g xs)" using Cons.prems(1) by (intro sum_list_mono) simp
  with Cons show ?case by (cases "f x < g x") (auto intro: add_less_le_mono add_le_less_mono)
qed simp

lemma rank_of_stamped:
  assumes "h_id r \<in> set vec" "h_rerankScore r = None" "\<forall>xs \<in> set (vec # lexical). distinct xs"
  shows "rank_of (stamp_hit vec lexical r) = sum_list (map (rrf_term RRF_K (h_id r)) (vec # lexical))"
    and "h_id (stamp_hit vec lexical r) = h_id r" "h_rerankScore (stamp_hit vec lexical r) = None"
proof -
  have "rrf_fuse RRF_K (vec # lexical) (h_id r) \<noteq> None" using rrf_value(2) [OF assms(3)] assms(1) by auto
  then obtain f where f: "rrf_fuse RRF_K (vec # lexical) (h_id r) = Some f" by blast
  with rrf_value(1) [OF assms(3), of RRF_K "h_id r"]
  show "rank_of (stamp_hit vec lexical r) = sum_list (map (rrf_term RRF_K (h_id r)) (vec # lexical))"
    using assms(2) by (simp add: stamp_hit_def rank_of_def or_zero_def Let_def split: option.split)
  show "h_id (stamp_hit vec lexical r) = h_id r" "h_rerankScore (stamp_hit vec lexical r) = None"
    using f assms(2) by (simp_all add: stamp_hit_def Let_def split: option.split)
qed

text \<open>
  Property C20: the fusion rewards agreement.  Of two candidates the cross-encoder has not scored, one that
  stands at least as well as the other by meaning and in every text ranking, and better in one of
  them, ranks above it once the fusion has stamped both.
\<close>

theorem fusion_rewards_agreement:
  fixes pool floors :: "hit list"
  defines "vec \<equiv> vector_ranked (pool @ floors)"
  assumes "a \<in> set (pool @ floors)" "b \<in> set (pool @ floors)" "h_rerankScore a = None" "h_rerankScore b = None"
    and "\<forall>xs \<in> set lexical. distinct xs"
    and "\<forall>xs \<in> set (vec # lexical). as_well (h_id a) (h_id b) xs"
    and "\<exists>xs \<in> set (vec # lexical). better (h_id a) (h_id b) xs"
  shows "by_rank_then_id (stamp_hit vec lexical a) < by_rank_then_id (stamp_hit vec lexical b)"
proof -
  have in_vec: "h_id a \<in> set vec" "h_id b \<in> set vec" using assms(2,3) vector_ranked_ids(1) [of "pool @ floors"] by (auto simp: vec_def)
  have d: "\<forall>xs \<in> set (vec # lexical). distinct xs" using assms(6) vector_ranked_ids(2) by (simp add: vec_def)
  have "0 < RRF_K" by (simp add: RRF_K_def)
  then have "sum_list (map (rrf_term RRF_K (h_id b)) (vec # lexical)) < sum_list (map (rrf_term RRF_K (h_id a)) (vec # lexical))"
    using assms(7,8) rrf_term_mono by (intro sum_list_strict) blast+
  then show ?thesis
    using rank_of_stamped [OF in_vec(1) assms(4) d] rank_of_stamped [OF in_vec(2) assms(5) d]
    by (simp add: by_rank_then_id_def)
qed

lemma place_in_nth: "distinct xs \<Longrightarrow> i < length xs \<Longrightarrow> place_in xs (xs ! i) = Some (Suc i)"
proof (induction xs arbitrary: i)
  case (Cons y ys)
  then show ?case by (cases i) (auto simp: nth_mem)
qed simp

lemma place_in_the: "place_in xs x = Some i \<Longrightarrow> i \<noteq> 0 \<and> xs ! (i - 1) = x"
proof (induction xs arbitrary: i)
  case (Cons y ys)
  then show ?case by (cases "y = x") (auto simp: nth_Cons')
qed simp

lemma vector_place_mono:
  assumes "r \<in> set rs" "s \<in> set rs" "inj_on h_id (set rs)" "by_score_then_id r \<le> by_score_then_id s"
  obtains i j where "place_in (vector_ranked rs) (h_id r) = Some i" "place_in (vector_ranked rs) (h_id s) = Some j" "i \<le> j"
proof -
  let ?L = "sort_key by_score_then_id (first_of_each [] rs)"
  have L: "set ?L = set rs"
    using first_of_each_ids(1,3) [of "[]" rs] assms(3) by (auto simp: inj_on_def image_iff)
  from assms(1,2) L obtain i j where ij: "i < length ?L" "?L ! i = r" "j < length ?L" "?L ! j = s" by (metis in_set_conv_nth)
  have place: "place_in (vector_ranked rs) (h_id (?L ! n)) = Some (Suc n)" if "n < length ?L" for n
    using place_in_nth [OF vector_ranked_ids(2), of n rs] that by (simp add: vector_ranked_def)
  have "i \<le> j"
  proof (rule ccontr)
    assume "\<not> i \<le> j"
    then have "by_score_then_id s \<le> by_score_then_id r"
      using ij sorted_nth_mono [OF sorted_sort_key [of by_score_then_id "first_of_each [] rs"], of j i] by simp
    with assms(4) have "by_score_then_id r = by_score_then_id s" by (rule antisym)
    then have "h_id r = h_id s" unfolding by_score_then_id_def by (rule Pair_inject)
    with place [OF ij(1)] place [OF ij(3)] have "Some (Suc i) = Some (Suc j)" unfolding ij(2,4) by metis
    with \<open>\<not> i \<le> j\<close> show False by simp
  qed
  with ij place show thesis by (intro that [of "Suc i" "Suc j"]) auto
qed

text \<open>
  A text search that finds none of the candidates changes nothing.  When the texts it found are
  none of the candidates, the order after the fusion is the order by meaning.
\<close>

theorem silent_text_keeps_order:
  fixes pool floors :: "hit list"
  defines "vec \<equiv> vector_ranked (pool @ floors)"
  assumes "inj_on h_id (set (pool @ floors))" "\<forall>r \<in> set pool. h_rerankScore r = None"
    and "\<forall>xs \<in> set lexical. distinct xs \<and> set xs \<inter> h_id ` set (pool @ floors) = {}"
  shows "map h_id (sort_key by_rank_then_id (map (stamp_hit vec lexical) pool)) = map h_id (sort_key by_score_then_id pool)"
proof -
  let ?st = "stamp_hit vec lexical"
  have d: "\<forall>xs \<in> set (vec # lexical). distinct xs" using assms(4) vector_ranked_ids(2) by (simp add: vec_def)
  have stamped: "h_id (?st r) = h_id r \<and> h_rerankScore (?st r) = None \<and> rank_of (?st r) = rrf_term RRF_K (h_id r) vec"
    if "r \<in> set pool" for r
  proof -
    have "h_id r \<in> set vec" using that vector_ranked_ids(1) [of "pool @ floors"] by (simp add: vec_def)
    note st = rank_of_stamped [OF this _ d]
    have "rrf_term RRF_K (h_id r) xs = 0" if "xs \<in> set lexical" for xs
    proof -
      have "h_id r \<notin> set xs" using assms(4) that \<open>r \<in> set pool\<close> by auto
      then show ?thesis by (simp add: rrf_term_def place_in_None [THEN iffD2])
    qed
    then have "map (rrf_term RRF_K (h_id r)) lexical = map (\<lambda>_. 0) lexical" by simp
    with st assms(3) that show ?thesis by (simp add: sum_list_0)
  qed
  have mono: "by_rank_then_id (?st r) \<le> by_rank_then_id (?st s)"
    if rs: "r \<in> set pool" "s \<in> set pool" and le: "by_score_then_id r \<le> by_score_then_id s" for r s
  proof -
    obtain i j where ij: "place_in vec (h_id r) = Some i" "place_in vec (h_id s) = Some j" "i \<le> j"
      using vector_place_mono [OF _ _ assms(2) le] rs unfolding vec_def by auto
    then have "rrf_term RRF_K (h_id s) vec \<le> rrf_term RRF_K (h_id r) vec"
      by (intro rrf_term_mono(1)) (simp_all add: as_well_def RRF_K_def)
    moreover have "h_id r = h_id s" if "rrf_term RRF_K (h_id s) vec = rrf_term RRF_K (h_id r) vec"
    proof -
      have "i = j" using that ij by (simp add: rrf_term_def RRF_K_def)
      with place_in_the [OF ij(1)] place_in_the [OF ij(2)] show ?thesis by metis
    qed
    ultimately show ?thesis using stamped rs by (auto simp: by_rank_then_id_def less_le)
  qed
  have "sort_key by_rank_then_id (map ?st pool) = map ?st (sort_key by_score_then_id pool)"
  proof (rule sort_key_inj_key_eq)
    show "mset (map ?st pool) = mset (map ?st (sort_key by_score_then_id pool))" by simp
    show "inj_on by_rank_then_id (set (map ?st pool))"
    proof (rule inj_onI)
      fix x y
      assume xy: "x \<in> set (map ?st pool)" "y \<in> set (map ?st pool)" and eq: "by_rank_then_id x = by_rank_then_id y"
      from eq have "h_id x = h_id y" unfolding by_rank_then_id_def by blast
      moreover from xy(1) obtain r where "r \<in> set pool" "x = ?st r" unfolding set_map by blast
      moreover from xy(2) obtain s where "s \<in> set pool" "y = ?st s" unfolding set_map by blast
      ultimately have rs: "r \<in> set pool" "s \<in> set pool" "x = ?st r" "y = ?st s" "h_id x = h_id y" by blast+
      then have "h_id r = h_id s" using stamped by metis
      then have "r = s" using assms(2) rs(1,2) unfolding inj_on_def set_append by blast
      with rs show "x = y" by simp
    qed
    show "sorted (map by_rank_then_id (map ?st (sort_key by_score_then_id pool)))"
    proof -
      have "sorted_wrt (\<lambda>r s. by_score_then_id r \<le> by_score_then_id s) (sort_key by_score_then_id pool)"
        using sorted_sort_key [of by_score_then_id pool] unfolding sorted_map .
      then have "sorted_wrt (\<lambda>r s. by_rank_then_id (?st r) \<le> by_rank_then_id (?st s)) (sort_key by_score_then_id pool)"
        by (rule sorted_wrt_mono_rel [rotated]) (simp add: mono)
      then show ?thesis unfolding sorted_map sorted_wrt_map .
    qed
  qed
  then show ?thesis using stamped by simp
qed

section \<open>A floor that several spaces lose\<close>

lemma first_of_each_sorted: "sorted (map by_rank_then_id rs) \<Longrightarrow> sorted (map by_rank_then_id (first_of_each seen rs))"
proof (induction seen rs rule: first_of_each.induct)
  case (2 seen r rs)
  then show ?case using first_of_each_ids(3) [of "h_id r # seen" rs] by auto
qed simp

lemma first_of_each_least:
  assumes "sorted (map by_rank_then_id rs)" "y \<in> set rs" "h_id y \<notin> set seen"
  shows "\<exists>d \<in> set (first_of_each seen rs). h_id d = h_id y \<and> by_rank_then_id d \<le> by_rank_then_id y"
  using assms
proof (induction seen rs rule: first_of_each.induct)
  case (2 seen r rs)
  show ?case
  proof (cases "h_id r = h_id y")
    case True
    with 2(3-5) show ?thesis by auto
  next
    case False
    with 2 show ?thesis by (cases "h_id r \<in> set seen") auto
  qed
qed simp

lemma first_of_each_distinct: "distinct (map h_id rs) \<Longrightarrow> h_id ` set rs \<inter> set seen = {} \<Longrightarrow> first_of_each seen rs = rs"
  by (induction seen rs rule: first_of_each.induct) auto

text \<open>Of a list without repeated ids, in order, the first ones are those enough of which lie below a bound.\<close>

lemma take_below:
  assumes "sorted (map by_rank_then_id ds)" "y \<in> set (take k ds)"
    and "k \<le> card (h_id ` {x \<in> set ds. by_rank_then_id x < b})"
  shows "by_rank_then_id y < b"
proof (rule ccontr)
  assume no: "\<not> by_rank_then_id y < b"
  from assms(2) obtain i where i: "i < k" "i < length ds" "ds ! i = y" by (auto simp: in_set_conv_nth)
  have "{x \<in> set ds. by_rank_then_id x < b} \<subseteq> set (take i ds)"
  proof
    fix x
    assume "x \<in> {x \<in> set ds. by_rank_then_id x < b}"
    then obtain j where j: "j < length ds" "ds ! j = x" "by_rank_then_id x < b" by (auto simp: in_set_conv_nth)
    have "j < i"
    proof (rule ccontr)
      assume "\<not> j < i"
      then have "by_rank_then_id y \<le> by_rank_then_id x" using sorted_nth_mono [OF assms(1), of i j] i j by simp
      with j(3) no show False by auto
    qed
    with j show "x \<in> set (take i ds)" by (auto simp: in_set_conv_nth)
  qed
  then have "card (h_id ` {x \<in> set ds. by_rank_then_id x < b}) \<le> card (h_id ` set (take i ds))"
    by (intro card_mono image_mono) simp_all
  also have "\<dots> \<le> card (set (take i ds))" by (rule card_image_le) simp
  also have "\<dots> \<le> i" using card_length [of "take i ds"] by simp
  finally show False using assms(3) i(1) by simp
qed

text \<open>What a recall of one space gives when nothing is fused or scored again.\<close>

lemma recall_plain:
  assumes "\<not> rc_reranking c" "\<not> sr_hybrid rows"
  shows "recall c d rows = \<lparr>sa_results = merge_recall_results (first_of_each [] (concat (sr_floors rows)))
      (sort_key by_score_then_id (concat (sr_types rows) @ sr_fresh rows))
      (if d then length (first_of_each [] (concat (sr_floors rows))) + length (concat (sr_types rows) @ sr_fresh rows) else rc_topK c)
      (rc_minScore c) (rc_caps c), sa_lexical = []\<rparr>"
  using assms by (simp add: recall_def Let_def)

lemma recall_global_plain:
  assumes "\<not> rc_reranking c" "rc_caps c = None" "list_all (\<lambda>s. \<not> sr_hybrid s) spaces"
  shows "recall_global c spaces =
    take (rc_topK c) (first_of_each [] (sort_key by_rank_then_id (concat (map (\<lambda>s. sa_results (recall c False s)) spaces))))"
proof -
  have "list_all (\<lambda>l. l = []) (concat (map (\<lambda>s. sa_lexical (recall c False s)) spaces))"
    using assms(1,3) by (auto simp: recall_plain list_all_iff)
  with assms(1,2) show ?thesis
    by (simp add: recall_global_def fuse_across_spaces_def stamp_fusion_def Let_def comp_def)
qed

lemma floor_answered:
  assumes "r \<in> set (first_of_each [] (concat (sr_floors s)))" "clears (rc_minScore c) r" "\<not> rc_reranking c" "\<not> sr_hybrid s"
  shows "r \<in> set (sa_results (recall c False s))"
  using assms by (simp add: recall_plain merged_parts(2))

lemma floor_answered_alone:
  assumes "r \<in> set (first_of_each [] (concat (sr_floors s)))" "clears (rc_minScore c) r" "\<not> rc_reranking c" "\<not> sr_hybrid s"
    and "rc_caps c = None" "length (filter (clears (rc_minScore c)) (first_of_each [] (concat (sr_floors s)))) \<le> rc_topK c"
  shows "r \<in> set (recall_global c [s])"
proof -
  define floors where "floors = filter (clears (rc_minScore c)) (first_of_each [] (concat (sr_floors s)))"
  define answer where "answer = sa_results (recall c False s)"
  define fill where "fill = fill_slots None (map h_id floors) (rc_topK c - length floors) (type_count floors)
    (sort_key by_rank_then_id (filter (clears (rc_minScore c)) (sort_key by_score_then_id (concat (sr_types s) @ sr_fresh s))))"
  have plain: "answer = merge_recall_results (first_of_each [] (concat (sr_floors s)))
      (sort_key by_score_then_id (concat (sr_types s) @ sr_fresh s)) (rc_topK c) (rc_minScore c) None"
    using assms(3-5) by (simp add: recall_plain answer_def)
  have answer: "set answer = set floors \<union> set fill" "length answer = length floors + length fill"
    unfolding plain merged_parts(2,4) floors_def fill_def by blast+
  have fill: "length fill \<le> rc_topK c - length floors" "set fill \<subseteq> {x. h_id x \<notin> h_id ` set floors}"
    using fill_within [of None "map h_id floors" "rc_topK c - length floors" "type_count floors"] unfolding fill_def by fastforce+
  have len: "length answer \<le> rc_topK c" using fill(1) assms(6) unfolding answer(2) floors_def by linarith
  define L where "L = sort_key by_rank_then_id answer"
  have L: "set L = set answer" "sorted (map by_rank_then_id L)" "length L = length answer" by (simp_all add: L_def)
  have r: "r \<in> set floors" using assms(1,2) by (simp add: floors_def)
  then have "r \<in> set L" unfolding L answer by blast
  from first_of_each_least [OF L(2) this, of "[]"] obtain d where d: "d \<in> set (first_of_each [] L)" "h_id d = h_id r" by auto
  then have "d \<in> set floors \<union> set fill" using first_of_each_ids(3) [of "[]" L] unfolding L answer by blast
  moreover have "d \<notin> set fill"
  proof
    assume "d \<in> set fill"
    with fill(2) have "h_id r \<notin> h_id ` set floors" unfolding d(2) [symmetric] by blast
    with r show False by blast
  qed
  ultimately have "d \<in> set floors" by blast
  moreover have "inj_on h_id (set floors)"
    using first_of_each_ids(2) [of "[]" "concat (sr_floors s)"] by (auto simp: floors_def distinct_map intro: inj_on_subset)
  ultimately have "d = r" using d(2) r by (meson inj_onD)
  moreover have "length (first_of_each [] L) \<le> rc_topK c"
  proof -
    have "length (first_of_each [] L) = card (h_id ` set (first_of_each [] L))"
      using distinct_card [OF first_of_each_ids(2) [of "[]" L]] by simp
    also have "\<dots> \<le> card (h_id ` set L)" using first_of_each_ids(3) [of "[]" L] by (intro card_mono image_mono) simp_all
    also have "\<dots> \<le> length L" by (meson card_image_le card_length finite_set le_trans)
    finally show ?thesis using len L(3) by simp
  qed
  moreover have "recall_global c [s] = take (rc_topK c) (first_of_each [] L)"
    using assms(3-5) by (simp add: recall_global_plain L_def answer_def)
  ultimately show ?thesis using d(1) by simp
qed

text \<open>
  Property C38: a recall over several spaces does not keep the floors its spaces kept.  Take a recall without
  reranking, hybrid search or ceilings, and a result a floor of one of its spaces brought in: a recall of
  that space alone answers it, as long as its floors fit in what was asked; a recall of several answers only
  what ranks above it, as soon as as many results as were asked, by id, rank above it in what the spaces answered.
\<close>

theorem floors_lost_across_spaces:
  assumes "s \<in> set spaces" "\<not> rc_reranking c" "rc_caps c = None" "list_all (\<lambda>s. \<not> sr_hybrid s) spaces"
    and "r \<in> set (first_of_each [] (concat (sr_floors s)))" "clears (rc_minScore c) r"
    and "length (filter (clears (rc_minScore c)) (first_of_each [] (concat (sr_floors s)))) \<le> rc_topK c"
    and "rc_topK c \<le> card (h_id ` {x \<in> set (concat (map (\<lambda>s. sa_results (recall c False s)) spaces)).
          by_rank_then_id x < by_rank_then_id r})"
  shows "r \<in> set (recall_global c [s]) \<and> r \<in> set (sa_results (recall c False s))
    \<and> (\<forall>y \<in> set (recall_global c spaces). by_rank_then_id y < by_rank_then_id r)"
proof -
  have s: "\<not> sr_hybrid s" using assms(1,4) by (simp add: list_all_iff)
  let ?flat = "concat (map (\<lambda>s. sa_results (recall c False s)) spaces)"
  let ?L = "sort_key by_rank_then_id ?flat"
  have sorted: "sorted (map by_rank_then_id ?L)" by simp
  have "h_id ` {x \<in> set ?flat. by_rank_then_id x < by_rank_then_id r}
      \<subseteq> h_id ` {x \<in> set (first_of_each [] ?L). by_rank_then_id x < by_rank_then_id r}"
  proof
    fix i
    assume "i \<in> h_id ` {x \<in> set ?flat. by_rank_then_id x < by_rank_then_id r}"
    then obtain x where x: "x \<in> set ?L" "by_rank_then_id x < by_rank_then_id r" "i = h_id x" by (auto simp del: set_concat)
    from first_of_each_least [OF sorted x(1), of "[]"]
    obtain d where "d \<in> set (first_of_each [] ?L)" "h_id d = h_id x" "by_rank_then_id d \<le> by_rank_then_id x" by auto
    with x(2,3) show "i \<in> h_id ` {x \<in> set (first_of_each [] ?L). by_rank_then_id x < by_rank_then_id r}"
      by (intro image_eqI [of _ _ d]) (auto simp del: set_sort)
  qed
  then have "card (h_id ` {x \<in> set ?flat. by_rank_then_id x < by_rank_then_id r})
      \<le> card (h_id ` {x \<in> set (first_of_each [] ?L). by_rank_then_id x < by_rank_then_id r})"
    by (rule card_mono [rotated]) simp
  with assms(8) have enough: "rc_topK c \<le> card (h_id ` {x \<in> set (first_of_each [] ?L). by_rank_then_id x < by_rank_then_id r})"
    by (rule le_trans)
  have "by_rank_then_id y < by_rank_then_id r" if "y \<in> set (recall_global c spaces)" for y
    using take_below [OF first_of_each_sorted [OF sorted] _ enough] that
    unfolding recall_global_plain [OF assms(2-4)] .
  then show ?thesis
    using floor_answered [OF assms(5,6,2) s] floor_answered_alone [OF assms(5,6,2) s assms(3,7)] by blast
qed

section \<open>Witnesses\<close>

definition demo_hit :: "string \<Rightarrow> record_type \<Rightarrow> rat \<Rightarrow> hit" where
  "demo_hit i t s = \<lparr>h_id = i, h_type = t, h_score = Some s, h_fusedScore = None, h_rerankScore = None,
     h_vectorRank = None, h_lexicalRank = None\<rparr>"

definition demo_facts :: "hit list" where
  "demo_facts = [demo_hit ''b'' R_fact (7/10), demo_hit ''a'' R_fact (9/10)]"

definition demo_answer :: "hit list" where
  "demo_answer = merge_recall_results [demo_hit ''e'' R_entity (3/10)] demo_facts 2 None None"

lemma demo_answer: "demo_answer = [demo_hit ''a'' R_fact (9/10), demo_hit ''e'' R_entity (3/10)]"
  by code_simp

theorem answer_keeps_floors_witness:
  "demo_hit ''e'' R_entity (3/10) \<in> set (merge_recall_results [demo_hit ''e'' R_entity (3/10)] demo_facts 2 None None)
   \<and> length (merge_recall_results [] demo_facts 5 None None) = 2
   \<and> type_count (merge_recall_results [] demo_facts 2 None (Some [R_fact \<mapsto> 1])) R_fact \<le> 1"
  using answer_keeps_floors [of "[demo_hit ''e'' R_entity (3/10)]" None demo_facts 2 None]
    answer_keeps_floors [of "[]" None demo_facts 5 None]
    answer_keeps_floors [of "[]" None demo_facts 2 "Some [R_fact \<mapsto> 1]"]
  by (simp add: clears_def demo_facts_def)

theorem nothing_better_left_out_witness:
  "2 \<le> length demo_answer
   \<and> by_rank_then_id (demo_hit ''a'' R_fact (9/10)) \<le> by_rank_then_id (demo_hit ''b'' R_fact (7/10))"
  using nothing_better_left_out [of "demo_hit ''b'' R_fact (7/10)" demo_facts None "[demo_hit ''e'' R_entity (3/10)]" 2 None, folded demo_answer_def]
  by (simp add: demo_answer demo_facts_def demo_hit_def clears_def)

theorem answer_is_determined_witness:
  "merge_recall_results [] (rev demo_facts) 1 None None = merge_recall_results [] demo_facts 1 None None"
  by (rule answer_is_determined) (simp_all add: demo_facts_def demo_hit_def)

theorem fusion_rewards_agreement_witness:
  "by_rank_then_id (stamp_hit (vector_ranked (demo_facts @ [])) [[''a'', ''b'']] (demo_hit ''a'' R_fact (9/10)))
   < by_rank_then_id (stamp_hit (vector_ranked (demo_facts @ [])) [[''a'', ''b'']] (demo_hit ''b'' R_fact (7/10)))"
  by (rule fusion_rewards_agreement; code_simp)

theorem silent_text_keeps_order_witness:
  "map h_id (sort_key by_rank_then_id (map (stamp_hit (vector_ranked (demo_facts @ [])) [[''z'']]) demo_facts)) = [''a'', ''b'']"
  using silent_text_keeps_order [of demo_facts "[]" "[[''z'']]"] by (simp add: demo_facts_def demo_hit_def by_score_then_id_def)

definition demo_space :: "string \<Rightarrow> rat \<Rightarrow> string \<Rightarrow> rat \<Rightarrow> space_rows" where
  "demo_space e se f sf = \<lparr>sr_floors = [[demo_hit e R_entity se]], sr_types = [[demo_hit f R_fact sf]], sr_fresh = [],
     sr_hybrid = False, sr_lexical = [], sr_introduced = []\<rparr>"

definition demo_call :: recall_call where
  "demo_call = \<lparr>rc_topK = 2, rc_minScore = None, rc_caps = None, rc_reranking = False, rc_in_budget = False, rc_scorer = (\<lambda>_. None)\<rparr>"

lemma floors_lost_across_spaces_witness:
  "demo_hit ''e'' R_entity (3/10) \<in> set (recall_global demo_call [demo_space ''e'' (3/10) ''f'' (9/10)])
   \<and> by_rank_then_id (List.last (recall_global demo_call [demo_space ''e'' (3/10) ''f'' (9/10), demo_space ''d'' (2/10) ''g'' (7/10)]))
     < by_rank_then_id (demo_hit ''e'' R_entity (3/10))"
proof -
  let ?spaces = "[demo_space ''e'' (3/10) ''f'' (9/10), demo_space ''d'' (2/10) ''g'' (7/10)]"
  let ?flat = "concat (map (\<lambda>s. sa_results (recall demo_call False s)) ?spaces)"
  let ?e = "demo_hit ''e'' R_entity (3/10)"
  have "map h_id (filter (\<lambda>x. by_rank_then_id x < by_rank_then_id ?e) ?flat) = [''f'', ''g'']" by code_simp
  then have "set (map h_id (filter (\<lambda>x. by_rank_then_id x < by_rank_then_id ?e) ?flat)) = {''f'', ''g''}" by (simp only: list.set)
  then have "h_id ` {x \<in> set ?flat. by_rank_then_id x < by_rank_then_id ?e} = {''f'', ''g''}"
    by (simp only: set_map set_filter)
  then have few: "rc_topK demo_call \<le> card (h_id ` {x \<in> set ?flat. by_rank_then_id x < by_rank_then_id ?e})"
    by (simp add: demo_call_def)
  have c: "\<not> rc_reranking demo_call" "rc_caps demo_call = None" "clears (rc_minScore demo_call) ?e"
    "list_all (\<lambda>s. \<not> sr_hybrid s) ?spaces"
    "?e \<in> set (first_of_each [] (concat (sr_floors (demo_space ''e'' (3/10) ''f'' (9/10)))))"
    "length (filter (clears (rc_minScore demo_call)) (first_of_each [] (concat (sr_floors (demo_space ''e'' (3/10) ''f'' (9/10))))))
      \<le> rc_topK demo_call"
    by (simp_all add: demo_call_def demo_space_def clears_def)
  have "recall_global demo_call ?spaces \<noteq> []" by code_simp
  moreover have "demo_space ''e'' (3/10) ''f'' (9/10) \<in> set ?spaces" by simp
  from floors_lost_across_spaces [OF this c(1,2,4,5,3,6) few]
  have "?e \<in> set (recall_global demo_call [demo_space ''e'' (3/10) ''f'' (9/10)])"
    "\<forall>y \<in> set (recall_global demo_call ?spaces). by_rank_then_id y < by_rank_then_id ?e" by blast+
  ultimately show ?thesis by (meson last_in_set)
qed

end
