(* ===== verification/Spec2Isabelle.thy ===== *)
theory Spec2Isabelle
  imports Space_Map Peer_Version Round_State Topology Round_Votes Backoff Roster Outcome_Log
    Governance Derived_Id Arrivals Rights Route_Rights Token_Admin Mfa
    Space_Marks Space_Acts Round_Settle Round_Acts Network_Spaces Peer_Authority
    Member_Turn Work_Pool Work_Lanes Schema_Check Rule_Admission Recall_Rank
begin

text \<open>
  A verification of the decision logic of the Ythril server (TypeScript, under \<open>server/src\<close>).

  \<^bold>\<open>The program.\<close>  An Ythril instance keeps spaces of knowledge (entities, facts, edges, chrono, files,
  links) and shares them with other instances through networks.  Nothing central orders the instances:
  each holds its own copy of a network's configuration, and three kinds of code keep the copies
  together.  The \<^emph>\<open>sync\<close> code exchanges documents and decides, per document, which copy stands.  The
  \<^emph>\<open>governance\<close> code opens, votes, concludes and gossips the rounds by which members are admitted and
  removed and spaces added, wiped and deleted; a concluded round may register a \<^emph>\<open>space act\<close>, which is run
  once, retried while it fails, and settles the round when it completes.  The \<^emph>\<open>auth\<close> code says, of every
  door, what a token may do.  All of it is single-threaded code that mutates one configuration object,
  so an operation is modelled as a function from the configuration to the configuration and the answer,
  and an interleaving as a sequence of such steps.

  \<^bold>\<open>Shared vocabulary.\<close>
  \<^item> \<open>Prelude\<close>: truthiness, dates, array operations, the two rule collections \<open>js_simps\<close> (what a
    JavaScript operation computes) and \<open>frame\<close> (what an operation leaves alone), and the locale
    \<open>capped_log\<close>: a list with one entry per key, the newest \<open>n\<close> of them kept.
  \<^item> \<open>Js_Object\<close>: an ES \<open>Map\<close> and a plain object as entry lists in enumeration order.  The locale
    \<open>keyed_store\<close> is their contract (what is read after a write and after a delete); it is interpreted
    as \<open>es\<close> for the map and as \<open>ob\<close> for the object, and every client of a container uses those facts.
  \<^item> \<open>Net_Types\<close>: the types of \<open>config/types-networks.ts\<close>, field by field (\<open>net.members\<close> is \<open>n_members net\<close>).

  \<^bold>\<open>Sync.\<close>
  \<^item> \<open>Arrivals\<close> (\<open>sync/upsert-plan.ts\<close>, \<open>held-tombstone-rules.ts\<close>, \<open>authored-content.ts\<close>): the plan of a
    delivered page.  Every branch of the planner is shown to be one of a few moves (accept, fork, swap,
    refuse); invariants over the moves give: no accepted document is older than what is held, a
    displaced body is kept as a fork under the id derived from it, at most \<open>MAX_FORKS_PER_RECORD\<close>
    forks, and a tie is settled the same way on both sides.
  \<^item> \<open>Derived_Id\<close> (\<open>util/derived-id.ts\<close>, \<open>brain/edge-id.ts\<close>, \<open>link-id.ts\<close>): ids computed from content;
    different contents never give one text to hash.
  \<^item> \<open>Space_Map\<close> (\<open>sync/space-map.ts\<close>): the aliases between a network's space names and local ids, a
    round trip both ways.
  \<^item> \<open>Space_Marks\<close> (\<open>sync/receive-marks.ts\<close>, \<open>networks/take-space-out-of-network.ts\<close>): how far each member
    was received and served, per space.  Every walk is a pointwise change of the marks it names.
  \<^item> \<open>Peer_Authority\<close> (\<open>sync/deletion-authority.ts\<close>, \<open>served-watermark.ts\<close>, \<open>auth/network-standing.ts\<close>,
    \<open>peer-bound.ts\<close>): whose deletion is taken and the bound it carries into the store, and the floor below
    which a tombstone may go.
  \<^item> \<open>Positions\<close> (\<open>util/position-clock.ts\<close>, \<open>horizon-holds.ts\<close>): the positions a space stamps its writes with.
    The steps of a stream are an inductive relation in which the wall clock may read anything; over every
    run positions never repeat and nothing is handed out below what a reader was told is settled.
  \<^item> \<open>Position_Cursor\<close>, \<open>Position_Pages\<close>, \<open>Page_Progress\<close> (\<open>util/position-keyset.ts\<close>,
    \<open>sync/position-run-pager.ts\<close>, \<open>push-position-runs.ts\<close>, \<open>watermark.ts\<close>): cursors, pages, and the loops
    that follow them; a page is complete through what it says, and a pull of a collection that stands
    still reaches the head of its peer.
  \<^item> \<open>Space_Exchange\<close> (\<open>sync/space-exchange-set.ts\<close>): whether a space may be exchanged with a member, as an
    index of wipe rounds, shown equal to a reading of the rounds themselves.
  \<^item> \<open>Space_Legs\<close> (\<open>sync/space-exchange.ts\<close>, \<open>tombstone-transfer.ts\<close>, \<open>replicated-families.ts\<close> and the
    transfers of a family): the receive and the push leg of a space, with the mark each records.  The
    mark never covers what was not delivered.
  \<^item> \<open>Member_Turn\<close> (\<open>sync/full-reread.ts\<close>, the turns of \<open>space-exchange.ts\<close>, \<open>cycle-outcome.ts\<close>): the turn of a
    space, the spaces of a member, full re-reads, and the verdict of a cycle.
  \<^item> \<open>Peer_Version\<close> (\<open>sync/peer-floor.ts\<close>), \<open>Backoff\<close> (\<open>util/backoff.ts\<close>, \<open>endpoint-cooldown.ts\<close>): version
    comparison and retry delays.

  \<^bold>\<open>Governance.\<close>
  \<^item> \<open>Round_State\<close> (\<open>networks/round-state.ts\<close>, \<open>sync/vote-round-retention.ts\<close>): what a round is at an instant.
  \<^item> \<open>Round_Votes\<close> (\<open>networks/round-electorate.ts\<close>, \<open>util/signing.ts\<close>, \<open>roundVerdict\<close>): electorates,
    signed casts and verdicts; the verdict of each network type is characterised by counts.
  \<^item> \<open>Topology\<close> (\<open>util/braintree.ts\<close>, \<open>networks/network-role.ts\<close>, \<open>topology-acts.ts\<close>): the tree; both upward
    walks end on every configuration, and the subtree is the transitive closure of the parent relation.
  \<^item> \<open>Roster\<close> (\<open>networks/member-introductions.ts\<close>): members, introductions and removals; no operation
    lists an instance twice, and a newer removal wins over any roster.
  \<^item> \<open>Outcome_Log\<close> (\<open>networks/round-outcomes.ts\<close>): the bounded, sorted history.
  \<^item> \<open>Governance\<close> (\<open>sync/governance.ts\<close>, \<open>served-rounds.ts\<close>, \<open>peer-concluded-evidence.ts\<close>): a round's life
    on one instance; gossip adds authentic casts only and adopts a round as unsettled.
  \<^item> \<open>Round_Settle\<close> (\<open>networks/round-conclusion.ts\<close>, \<open>spaces/apply-wipe-round.ts\<close>): what a concluded round
    sets off; \<open>Round_Acts\<close> (\<open>networks/propose-round.ts\<close>, \<open>vote-acts.ts\<close>, \<open>round-expiry.ts\<close>): the doors
    that move a round, and the minute tick.
  \<^item> \<open>Network_Spaces\<close> (\<open>networks/network-spaces.ts\<close>): the spaces a network brings here.
  \<^item> \<open>Space_Acts\<close> (\<open>spaces/space-act-runner.ts\<close>, \<open>config/types-space-acts.ts\<close>): the register of acts: one
    entry per key, a failure kept with its next attempt, a completion that settles its rounds.

  \<^bold>\<open>Auth.\<close>
  \<^item> \<open>Rights\<close> (\<open>config/rights-shape.ts\<close>, \<open>auth/mint-cap.ts\<close>, \<open>space-reach.ts\<close>, \<open>rights-migration.ts\<close> and their
    siblings): the rights matrix, effective rungs, the mint cap, reach and migration, each against a
    declarative reading of the matrix.
  \<^item> \<open>Route_Rights\<close> (\<open>auth/space-rights.ts\<close>, \<open>required-rung.ts\<close>, \<open>body-scoped-space.ts\<close>,
    \<open>mcp/tool-rights-guard.ts\<close>): the inventory of doors and the check each runs.
  \<^item> \<open>Token_Admin\<close> (\<open>auth/editor-scope.ts\<close>, \<open>space-field-rights.ts\<close>, \<open>network-rights.ts\<close>): who may change
    tokens, spaces and networks.
  \<^item> \<open>Mfa\<close> (\<open>auth/totp.ts\<close>, \<open>code-attempts.ts\<close>): the one-time code, its single use, and the lock.

  \<^bold>\<open>Schemas.\<close>
  \<^item> \<open>Schema_Types\<close> (\<open>schema/src/vocabulary.ts\<close>, \<open>redos.ts\<close>, \<open>view-fields.ts\<close>, \<open>brain/record-view.ts\<close>): the
    schema of a space, library references resolved, how a record is read, and the running of a pattern.
  \<^item> \<open>Schema_Check\<close> (\<open>spaces/schema-validation.ts\<close>, \<open>schema-rules.ts\<close>): a written record judged; the rows of
    the four validators are empty exactly when the record fits a declarative reading of the schema, and a
    default fills what the caller left out.
  \<^item> \<open>Rule_Analysis\<close>, \<open>Rule_Admission\<close> (\<open>schema/src/rules.ts\<close>): the walk of a parsed rule, and what a rule has to
    pass to be saved.  A simulation of two walks (\<open>rule_walks\<close>) carries what the save judged to what is
    compiled and run: a saved rule is live, enforced, and within the budget.

  \<^bold>\<open>Recall.\<close>
  \<^item> \<open>Recall_Rank\<close> (\<open>brain/recall-shape.ts\<close>, \<open>lexical-search.ts\<close>, \<open>rerank-pool.ts\<close>, \<open>search-bounds.ts\<close>,
    \<open>recall.ts\<close>): from the rows the searches gave to the answer.  Reciprocal ranks are fused, the
    cross-encoder scores the head, and the answer takes the floors and fills its slots under the
    ceilings: it keeps the floors, leaves out nothing better, and is the same however the rows arrived.
    The merge of several spaces does not keep the floors its spaces kept, and is shown to lose them.

  \<^bold>\<open>Concurrent work.\<close>  State machines over interleaved calls and completions.
  \<^item> \<open>Work_Pool\<close> (\<open>util/map-limit.ts\<close>): a pool of workers with a bound over all and one per key.
  \<^item> \<open>Work_Lanes\<close> (\<open>util/keyed-limiter.ts\<close>, \<open>keyed-lock.ts\<close>): a bounded queue per key, and a lock per key.
    A callback under the lock may take further keys; with an order on the keys everyone gets through,
    while a callback that awaits a later call for its own key blocks that key.

  \<^bold>\<open>How the parts meet.\<close>  \<open>Round_Acts\<close> calls \<open>Governance.conclude_round_if_ready\<close> and then
  \<open>Round_Settle.settle_rounds\<close>; that admits members through \<open>Roster\<close>, and registers acts through
  \<open>Space_Acts\<close>, whose completion stamps the rounds that asked for it and clears marks through
  \<open>Space_Marks\<close>.  \<open>Network_Spaces\<close> asks \<open>Space_Map\<close> for aliases and \<open>Rights\<close> to widen tokens;
  \<open>Peer_Authority\<close> hands \<open>Arrivals\<close> the rule of a held tombstone.  The configuration grows with the
  parts that read it: \<open>config\<close> in \<open>Net_Types\<close>, extended by \<open>act_config\<close> in \<open>Space_Acts\<close> and
  \<open>space_config\<close> in \<open>Network_Spaces\<close>; an operation of an earlier part works on every extension.

  \<^bold>\<open>Locales.\<close>  \<open>keyed_store\<close> is interpreted as \<open>es\<close> and \<open>ob\<close> (\<open>Js_Object\<close>); \<open>capped_log\<close> as
  \<open>removal_log\<close> (\<open>Roster\<close>, the newest \<open>MAX_REMOVALS\<close>) and \<open>outcome_log\<close> (\<open>Outcome_Log\<close>); \<open>rule_walks\<close> as
  \<open>narrowed\<close>, \<open>within\<close> and \<open>growing\<close> (\<open>Rule_Analysis\<close>).

  \<^bold>\<open>Bounds and fuel.\<close>  The upward walks of \<open>Topology\<close> end since each step adds an id of a finite set to
  the ids seen, the downward fixpoint since each pass adds a member; the other loops run over a list.
  The one bounded walk, over the chain of fork stems, has the source's own limit as its fuel, so
  running out is the branch the code has.  Integers are unbounded where the source counts (votes,
  attempts, milliseconds): the values stay below \<open>2 ^ 53\<close>, where a JavaScript number is exact, and the
  one place that tests it reads \<open>MAX_SAFE_INTEGER\<close>.  Delays are rationals with the infinities and
  \<open>NaN\<close> apart; the scores of a recall are rationals, so their rounding is
  left out.  Bytes of a digest are 8-bit words; the bytes of a one-time code are masked below the sign
  bit before they are joined, so integers agree with the 32-bit operators.  A pull of pages
  has the source's bound of pages as its fuel; the push of a family has none in the source, so it takes
  fuel here and answers \<open>None\<close> when it runs out, and one page more than there are records is shown to suffice.

  \<^bold>\<open>Parameters.\<close>  Ed25519 (\<open>verify\<close>, \<open>sign\<close>), the digests and the keyed hash, the random source and
  minted ids (\<open>uids\<close>), the clock (\<open>now\<close>, one reading per call as in the source), the allow-list of peer
  addresses (\<open>url_ok\<close>), the reader of edited type rules, the test whether a schema layer can be read
  (\<open>unread\<close>), the step run at the end of a set of acts (\<open>hook\<close>), the sentences shown to an operator
  (\<open>say\<close>), the regular expressions of the platform, and the rule engine (parser, functions, planner: \<open>cel_engine\<close>)
  with the hash and the renderer its rows use, the rows of a recall's searches and the cross-encoder.  In the sync legs the member at the other end, the snapshot each page reads, what lands, and
  what others write to the configuration between two awaits are functions of the step's number.

  \<^bold>\<open>Not modelled.\<close>  Storage and queries (MongoDB, files, vectors), the HTTP and MCP doors around the
  operations, converters and media, the extractor's prompts, metrics, log and audit lines, mail and
  notices, and the web client: I/O around the decisions.  Of the space acts, the bodies (they move
  data) and the queues that order them; of a sync leg, its counters and the check of links, and of a
  member's turn the network metadata, the files and the digest tree, which appear as the points where
  they may throw or report; of the spaces, \<open>createSpace\<close>; of the configuration, reading
  and writing the file.  A key \<open>__proto__\<close> of a plain object, and case folding outside ASCII, are
  outside the model.
\<close>

end
